(* ===== verification/Prelude.thy ===== *)
theory Prelude
  imports Main "HOL-Library.Word" "HOL-Library.Monad_Syntax" "HOL-Library.Sublist"
begin

text \<open>
  Shared notation and automation of the development. It fixes the machine types of
  rt-thread/include/rtdef.h, the kernel's error codes, the convention for failing assertions
  (a function of the model that meets a failing \<open>RT_ASSERT\<close>, or that would leave the C
  language's defined behaviour, is \<open>None\<close>) and the table of intrusive lists that the
  scheduler and the IPC objects share, with its generic lemmas.
\<close>

unbundle bit_operations_syntax

named_theorems kdefs \<open>definitions of kernel operations that a proof unfolds\<close>
named_theorems tbl \<open>facts on the table of intrusive lists\<close>

section \<open>Machine types and error codes (rtdef.h)\<close>

type_synonym u8 = "8 word"
type_synonym u16 = "16 word"
type_synonym u32 = "32 word"
type_synonym tick = "32 word"

text \<open>\<open>rt_err_t\<close>: the code returns the negated constants; the constructor stands for the negated code.\<close>

datatype rt_err = RT_EOK | E_ERROR | E_TIMEOUT | E_FULL | E_EMPTY | E_NOMEM | E_NOSYS | E_BUSY
  | E_IO | E_INTR | E_INVAL

text \<open>Rounding a size to a multiple of a power of two.\<close>

definition RT_ALIGN :: "u32 \<Rightarrow> u32 \<Rightarrow> u32" where
  "RT_ALIGN size1 align = (size1 + align - 1) AND NOT (align - 1)"

definition RT_ALIGN_DOWN :: "u32 \<Rightarrow> u32 \<Rightarrow> u32" where
  "RT_ALIGN_DOWN size1 align = size1 AND NOT (align - 1)"

text \<open>\<open>RT_TICK_MAX / 2\<close>, the bound of every tick difference.\<close>

definition RT_TICK_MAX :: tick where
  "RT_TICK_MAX = 0xffffffff"

definition half_tick :: tick where
  "half_tick = RT_TICK_MAX div 2"

lemma half_tick_eq [simp]: "half_tick = 0x7fffffff"
  by (simp add: half_tick_def RT_TICK_MAX_def)

text \<open>\<open>RT_ASSERT\<close> halts the system (\<open>rt_assert_handler\<close> loops), so nothing is returned.\<close>

definition rt_assert :: "bool \<Rightarrow> unit option" where
  "rt_assert b = (if b then Some () else None)"

lemma rt_assert_simps [simp]:
  "rt_assert True = Some ()" "rt_assert False = None"
  "(rt_assert b = Some u) = b" "(rt_assert b = None) = (\<not> b)"
  by (simp_all add: rt_assert_def)

lemma rt_assert_bind [simp]:
  "(rt_assert b \<bind> f = Some r) \<longleftrightarrow> b \<and> f () = Some r"
  by (simp add: rt_assert_def)

lemma bind_SomeE:
  assumes "m \<bind> f = Some r"
  obtains x where "m = Some x" and "f x = Some r"
  using assms by (cases m) auto

section \<open>Lists\<close>

lemma remove1_snoc_notin [simp]: "x \<notin> set xs \<Longrightarrow> remove1 x (xs @ [x]) = xs"
  by (simp add: remove1_append)

lemma remove1_in_middle: "x \<notin> set us \<Longrightarrow> remove1 x (us @ x # vs) = us @ vs"
  by (simp add: remove1_append)

lemma length_remove1_less: "x \<in> set xs \<Longrightarrow> length (remove1 x xs) < length xs"
  using length_pos_if_in_set [of x xs] by (simp add: length_remove1)

section \<open>The table of intrusive lists\<close>

text \<open>
  A kernel object is linked into at most one of the lists of a family (a thread's \<open>tlist\<close> node
  is in one ready list or one suspend list). A table maps each list head to the nodes linked
  behind it, in order. \<open>RtList\<close> proves that the pointer operations of rtservice.h act on the
  heap exactly as these operations act on the table.
\<close>

definition tbl_wf :: "('h \<Rightarrow> 'n list) \<Rightarrow> bool" where
  "tbl_wf L \<longleftrightarrow> (\<forall>l. distinct (L l)) \<and> (\<forall>l l'. l \<noteq> l' \<longrightarrow> set (L l) \<inter> set (L l') = {})"

definition linked :: "'n \<Rightarrow> ('h \<Rightarrow> 'n list) \<Rightarrow> bool" where
  "linked n L \<longleftrightarrow> (\<exists>l. n \<in> set (L l))"

definition tbl_remove :: "'n \<Rightarrow> ('h \<Rightarrow> 'n list) \<Rightarrow> ('h \<Rightarrow> 'n list)" where
  "tbl_remove n L = (\<lambda>l. remove1 n (L l))"

definition tbl_insert_tail :: "'h \<Rightarrow> 'n \<Rightarrow> ('h \<Rightarrow> 'n list) \<Rightarrow> ('h \<Rightarrow> 'n list)" where
  "tbl_insert_tail l n L = L(l := L l @ [n])"

definition tbl_insert_head :: "'h \<Rightarrow> 'n \<Rightarrow> ('h \<Rightarrow> 'n list) \<Rightarrow> ('h \<Rightarrow> 'n list)" where
  "tbl_insert_head l n L = L(l := n # L l)"

text \<open>Insertion before the node at position \<open>length us\<close> of a list.\<close>

fun insert_before_elem :: "'n \<Rightarrow> 'n \<Rightarrow> 'n list \<Rightarrow> 'n list" where
  "insert_before_elem m n [] = []"
| "insert_before_elem m n (x # xs) = (if x = m then n # x # xs else x # insert_before_elem m n xs)"

fun insert_after_elem :: "'n \<Rightarrow> 'n \<Rightarrow> 'n list \<Rightarrow> 'n list" where
  "insert_after_elem m n [] = []"
| "insert_after_elem m n (x # xs) = (if x = m then x # n # xs else x # insert_after_elem m n xs)"

definition tbl_insert_before :: "'n \<Rightarrow> 'n \<Rightarrow> ('h \<Rightarrow> 'n list) \<Rightarrow> ('h \<Rightarrow> 'n list)" where
  "tbl_insert_before m n L = (\<lambda>l. insert_before_elem m n (L l))"

lemma insert_before_elem_middle:
  "m \<notin> set us \<Longrightarrow> insert_before_elem m n (us @ m # vs) = us @ n # m # vs"
  by (induction us) auto

lemma insert_after_elem_middle:
  "m \<notin> set us \<Longrightarrow> insert_after_elem m n (us @ m # vs) = us @ m # n # vs"
  by (induction us) auto

lemma insert_before_elem_notin [simp]: "m \<notin> set xs \<Longrightarrow> insert_before_elem m n xs = xs"
  by (induction xs) auto

lemma set_insert_before_elem:
  "set (insert_before_elem m n xs) = (if m \<in> set xs then insert n (set xs) else set xs)"
  by (induction xs) auto

lemma distinct_insert_before_elem:
  "distinct xs \<Longrightarrow> n \<notin> set xs \<Longrightarrow> distinct (insert_before_elem m n xs)"
  by (induction xs) (auto simp: set_insert_before_elem)

lemma tbl_wfD: "tbl_wf L \<Longrightarrow> distinct (L l)"
  by (simp add: tbl_wf_def)

lemma tbl_wf_disj: "tbl_wf L \<Longrightarrow> n \<in> set (L l) \<Longrightarrow> n \<in> set (L l') \<Longrightarrow> l = l'"
  unfolding tbl_wf_def by blast

lemma tbl_wf_upd:
  "tbl_wf L \<Longrightarrow> distinct xs \<Longrightarrow> (\<And>k. k \<noteq> l \<Longrightarrow> set xs \<inter> set (L k) = {}) \<Longrightarrow> tbl_wf (L(l := xs))"
  unfolding tbl_wf_def by (auto simp: disjoint_iff)

lemma tbl_wf_other: "tbl_wf L \<Longrightarrow> k \<noteq> l \<Longrightarrow> set (L l) \<inter> set (L k) = {}"
  unfolding tbl_wf_def by blast

lemma tbl_remove_set [tbl]: "tbl_wf L \<Longrightarrow> set (tbl_remove n L l) = set (L l) - {n}"
  by (simp add: tbl_remove_def tbl_wf_def)

lemma tbl_wf_remove [tbl, intro]: "tbl_wf L \<Longrightarrow> tbl_wf (tbl_remove n L)"
  unfolding tbl_wf_def tbl_remove_def
  by (auto dest: notin_set_remove1 intro: distinct_remove1)

lemma not_linked_remove [tbl]: "tbl_wf L \<Longrightarrow> \<not> linked n (tbl_remove n L)"
  by (simp add: linked_def tbl_remove_set)

lemma linked_remove [tbl]: "tbl_wf L \<Longrightarrow> linked m (tbl_remove n L) \<longleftrightarrow> linked m L \<and> m \<noteq> n"
  by (auto simp: linked_def tbl_remove_set)

lemma tbl_remove_unlinked [tbl]: "\<not> linked n L \<Longrightarrow> tbl_remove n L = L"
  by (auto simp: linked_def tbl_remove_def remove1_idem)

lemma tbl_wf_insert_tail [tbl, intro]:
  "tbl_wf L \<Longrightarrow> \<not> linked n L \<Longrightarrow> tbl_wf (tbl_insert_tail l n L)"
  unfolding tbl_wf_def tbl_insert_tail_def linked_def by (auto simp: disjoint_iff)

lemma tbl_wf_insert_head [tbl, intro]:
  "tbl_wf L \<Longrightarrow> \<not> linked n L \<Longrightarrow> tbl_wf (tbl_insert_head l n L)"
  unfolding tbl_wf_def tbl_insert_head_def linked_def by (auto simp: disjoint_iff)

lemma tbl_insert_head_apply [tbl]:
  "tbl_insert_head l n L l' = (if l' = l then n # L l else L l')"
  by (simp add: tbl_insert_head_def)

lemma tbl_insert_tail_apply [tbl]:
  "tbl_insert_tail l n L l' = (if l' = l then L l @ [n] else L l')"
  by (simp add: tbl_insert_tail_def)

lemma tbl_wf_insert_before [tbl, intro]:
  "tbl_wf L \<Longrightarrow> \<not> linked n L \<Longrightarrow> tbl_wf (tbl_insert_before m n L)"
  unfolding tbl_wf_def tbl_insert_before_def linked_def
  by (auto simp: set_insert_before_elem distinct_insert_before_elem split: if_splits) blast+

section \<open>Linked blocks\<close>

text \<open>The blocks linked from \<open>p\<close> on, and the rounding of sizes to words.\<close>

fun chain :: "(nat \<Rightarrow> nat option) \<Rightarrow> nat option \<Rightarrow> nat list \<Rightarrow> bool" where
  "chain nx p [] \<longleftrightarrow> p = None"
| "chain nx p (m # ms) \<longleftrightarrow> p = Some m \<and> chain nx (nx m) ms"

lemma chain_upd: "m \<notin> set ms \<Longrightarrow> chain (nx(m := v)) p ms = chain nx p ms"
  by (induction ms arbitrary: p) auto

lemma chain_None [simp]: "chain nx None ms \<longleftrightarrow> ms = []"
  by (cases ms) auto

lemma chain_snoc:
  "chain nx p ms \<Longrightarrow> distinct (ms @ [m]) \<Longrightarrow> nx m = None \<Longrightarrow> ms \<noteq> [] \<Longrightarrow> chain (nx(last ms := Some m)) p (ms @ [m])"
proof (induction ms arbitrary: p)
  case (Cons x ms)
  show ?case
  proof (cases "ms = []")
    case False
    then have "last ms \<noteq> x" using Cons.prems(2) by (metis append_Cons distinct.simps(2) in_set_conv_decomp last_in_set list.set_intros(1) Un_iff set_append)
    then show ?thesis using Cons False by simp
  qed (use Cons in auto)
qed simp

lemma and_not_3: "unat (x AND NOT 3) = unat x div 4 * 4" for x :: u32
proof -
  have "x AND NOT 3 = push_bit 2 (drop_bit 2 x)"
  proof (rule bit_word_eqI)
    fix n assume n: "n < LENGTH(32)"
    have "(3 :: u32) = mask 2" by (simp add: mask_eq_exp_minus_1)
    then have b3: "bit (3 :: u32) n \<longleftrightarrow> n < 2" using n by (simp only: bit_mask_iff) simp
    have "bit (push_bit 2 (drop_bit 2 x)) n \<longleftrightarrow> 2 \<le> n \<and> bit x n"
    proof (cases "2 \<le> n")
      case True
      then obtain m where "n = m + 2" by (metis add.commute le_Suc_ex)
      then show ?thesis using n by (simp add: bit_simps)
    qed (simp add: bit_simps)
    then show "bit (x AND NOT 3) n = bit (push_bit 2 (drop_bit 2 x)) n"
      unfolding bit_and_iff bit_not_iff b3 using n by auto
  qed
  then have "x AND NOT 3 = drop_bit 2 x * 4" by (simp add: push_bit_eq_mult)
  moreover have u: "unat (drop_bit 2 x) = unat x div 4" by (simp add: drop_bit_eq_div unat_div)
  moreover have "unat x div 4 * 4 < 2 ^ 32" using unsigned_less [of x, where 'a = nat] by (simp add: less_mult_imp_div_less)
  ultimately show ?thesis using unat_mult_lem [of "drop_bit 2 x" 4] by simp
qed

lemma align_down4: "unat (RT_ALIGN_DOWN x 4) = unat x div 4 * 4"
  using and_not_3 [of x] by (simp add: RT_ALIGN_DOWN_def)

lemma align4: "unat x + 3 < 2 ^ 32 \<Longrightarrow> unat (RT_ALIGN x 4) = (unat x + 3) div 4 * 4"
proof -
  assume "unat x + 3 < 2 ^ 32"
  then have "unat (x + 3) = unat x + 3" using unat_add_lem [of x 3] by simp
  then show ?thesis using and_not_3 [of "x + 3"] by (simp add: RT_ALIGN_def add.commute)
qed

end
