(* ===== verification/RtList.thy ===== *)
theory RtList
  imports Prelude
begin

text \<open>
  The intrusive doubly linked list of rt-thread/include/rtservice.h, at pointer level: a heap
  gives every node its \<open>next\<close> and \<open>prev\<close> pointer and the operations perform the assignments
  of the C functions in their order. \<open>repr h L\<close> says that the heap \<open>h\<close> holds the lists of the
  table \<open>L\<close> and that every other node is self-linked. Each operation is proved to act on the
  heap as the corresponding table operation of \<open>Prelude\<close> acts on the table; the kernel
  components use the table operations.
\<close>

section \<open>Heap and operations\<close>

text \<open>An address is a list head or a node embedded in an object.\<close>

datatype ('h, 'n) addr = Head 'h | Node 'n

record ('h, 'n) heap =
  nxt :: "('h, 'n) addr \<Rightarrow> ('h, 'n) addr"
  prv :: "('h, 'n) addr \<Rightarrow> ('h, 'n) addr"

definition set_nxt :: "('h, 'n) addr \<Rightarrow> ('h, 'n) addr \<Rightarrow> ('h, 'n) heap \<Rightarrow> ('h, 'n) heap" where
  "set_nxt a b h = h\<lparr>nxt := (nxt h)(a := b)\<rparr>"

definition set_prv :: "('h, 'n) addr \<Rightarrow> ('h, 'n) addr \<Rightarrow> ('h, 'n) heap \<Rightarrow> ('h, 'n) heap" where
  "set_prv a b h = h\<lparr>prv := (prv h)(a := b)\<rparr>"

lemma set_ptr_simps [simp]:
  "nxt (set_nxt a b h) = (nxt h)(a := b)" "prv (set_nxt a b h) = prv h"
  "prv (set_prv a b h) = (prv h)(a := b)" "nxt (set_prv a b h) = nxt h"
  by (simp_all add: set_nxt_def set_prv_def)

definition rt_list_init :: "('h, 'n) addr \<Rightarrow> ('h, 'n) heap \<Rightarrow> ('h, 'n) heap" where
  "rt_list_init l h = set_nxt l l (set_prv l l h)"

definition rt_list_insert_after :: "('h, 'n) addr \<Rightarrow> ('h, 'n) addr \<Rightarrow> ('h, 'n) heap \<Rightarrow> ('h, 'n) heap" where
  "rt_list_insert_after l n h =
    (let h1 = set_prv (nxt h l) n h;
         h2 = set_nxt n (nxt h1 l) h1;
         h3 = set_nxt l n h2
     in set_prv n l h3)"

definition rt_list_insert_before :: "('h, 'n) addr \<Rightarrow> ('h, 'n) addr \<Rightarrow> ('h, 'n) heap \<Rightarrow> ('h, 'n) heap" where
  "rt_list_insert_before l n h =
    (let h1 = set_nxt (prv h l) n h;
         h2 = set_prv n (prv h1 l) h1;
         h3 = set_prv l n h2
     in set_nxt n l h3)"

definition rt_list_remove :: "('h, 'n) addr \<Rightarrow> ('h, 'n) heap \<Rightarrow> ('h, 'n) heap" where
  "rt_list_remove n h =
    (let h1 = set_prv (nxt h n) (prv h n) h;
         h2 = set_nxt (prv h1 n) (nxt h1 n) h1;
         h3 = set_prv n n h2
     in set_nxt n n h3)"

definition rt_list_isempty :: "('h, 'n) addr \<Rightarrow> ('h, 'n) heap \<Rightarrow> bool" where
  "rt_list_isempty l h \<longleftrightarrow> nxt h l = l"

text \<open>The loop of \<open>rt_list_len\<close>: it ends only on a ring through \<open>l\<close>; the count is an \<open>unsigned int\<close>.\<close>

partial_function (option) rt_list_len_loop ::
    "('h, 'n) heap \<Rightarrow> ('h, 'n) addr \<Rightarrow> ('h, 'n) addr \<Rightarrow> u32 \<Rightarrow> u32 option" where
  "rt_list_len_loop h l p len =
    (if nxt h p \<noteq> l then rt_list_len_loop h l (nxt h p) (len + 1) else Some len)"

definition rt_list_len :: "('h, 'n) addr \<Rightarrow> ('h, 'n) heap \<Rightarrow> u32 option" where
  "rt_list_len l h = rt_list_len_loop h l l 0"

section \<open>Rings and the table they represent\<close>

text \<open>\<open>chain h a xs b\<close>: following \<open>next\<close> from \<open>a\<close> visits \<open>xs\<close> and reaches \<open>b\<close>, and \<open>prev\<close> leads back.\<close>

fun chain :: "('h, 'n) heap \<Rightarrow> ('h, 'n) addr \<Rightarrow> ('h, 'n) addr list \<Rightarrow> ('h, 'n) addr \<Rightarrow> bool" where
  "chain h a [] b \<longleftrightarrow> nxt h a = b \<and> prv h b = a"
| "chain h a (x # xs) b \<longleftrightarrow> nxt h a = x \<and> prv h x = a \<and> chain h x xs b"

definition repr :: "('h, 'n) heap \<Rightarrow> ('h \<Rightarrow> 'n list) \<Rightarrow> bool" where
  "repr h L \<longleftrightarrow> tbl_wf L \<and> (\<forall>l. chain h (Head l) (map Node (L l)) (Head l)) \<and>
     (\<forall>n. \<not> linked n L \<longrightarrow> chain h (Node n) [] (Node n))"

lemma chain_append:
  "chain h a (xs @ y # ys) b \<longleftrightarrow> chain h a xs y \<and> chain h y ys b"
  by (induction xs arbitrary: a) auto

lemma chain_first: "chain h a xs b \<Longrightarrow> nxt h a = (case xs of [] \<Rightarrow> b | x # _ \<Rightarrow> x)"
  by (cases xs) auto

lemma chain_last: "chain h a xs b \<Longrightarrow> prv h b = (if xs = [] then a else last xs)"
  by (induction xs arbitrary: a) auto

text \<open>A chain depends on the \<open>next\<close> pointers of its first node and inner nodes, and on the \<open>prev\<close> pointers of its inner nodes and last node.\<close>

lemma chain_frame:
  assumes "chain h a xs b"
    and "\<And>x. x \<in> insert a (set xs) \<Longrightarrow> nxt h' x = nxt h x"
    and "\<And>x. x \<in> insert b (set xs) \<Longrightarrow> prv h' x = prv h x"
  shows "chain h' a xs b"
  using assms by (induction xs arbitrary: a) auto

lemma chain_set_nxt [simp]:
  "c \<noteq> a \<Longrightarrow> c \<notin> set xs \<Longrightarrow> chain (set_nxt c d h) a xs b = chain h a xs b"
  by (induction xs arbitrary: a) auto

lemma chain_set_prv [simp]:
  "c \<noteq> b \<Longrightarrow> c \<notin> set xs \<Longrightarrow> chain (set_prv c d h) a xs b = chain h a xs b"
  by (induction xs arbitrary: a) auto

lemma repr_wf: "repr h L \<Longrightarrow> tbl_wf L"
  by (simp add: repr_def)

lemma repr_chain: "repr h L \<Longrightarrow> chain h (Head l) (map Node (L l)) (Head l)"
  by (simp add: repr_def)

text \<open>Reads of the heap are reads of the table.\<close>

lemma repr_isempty: "repr h L \<Longrightarrow> rt_list_isempty (Head l) h = (L l = [])"
  by (auto simp: rt_list_isempty_def dest!: repr_chain [where l = l] chain_first split: list.splits)

lemma repr_first: "repr h L \<Longrightarrow> L l = n # ns \<Longrightarrow> nxt h (Head l) = Node n"
  by (drule repr_chain [where l = l]) simp

lemma repr_node_isempty: "repr h L \<Longrightarrow> rt_list_isempty (Node n) h = (\<not> linked n L)"
proof -
  assume r: "repr h L"
  have "nxt h (Node n) \<noteq> Node n" if "n \<in> set (L l)" for l
  proof -
    from that obtain us vs where s: "L l = us @ n # vs" by (metis split_list)
    with r have "chain h (Node n) (map Node vs) (Head l)"
      using repr_chain [of h L l] by (simp add: chain_append)
    then have "nxt h (Node n) = (case vs of [] \<Rightarrow> Head l | v # _ \<Rightarrow> Node v)"
      by (auto dest: chain_first split: list.splits)
    moreover have "n \<notin> set vs"
      using tbl_wfD [OF repr_wf [OF r], of l] s by simp
    ultimately show ?thesis by (auto split: list.splits)
  qed
  then show ?thesis using r by (auto simp: rt_list_isempty_def repr_def linked_def)
qed

section \<open>Splicing a node in and out\<close>

definition link :: "('h, 'n) addr \<Rightarrow> ('h, 'n) addr \<Rightarrow> ('h, 'n) addr \<Rightarrow> ('h, 'n) heap \<Rightarrow> ('h, 'n) heap" where
  "link p n q h = h\<lparr>nxt := (nxt h)(p := n, n := q), prv := (prv h)(n := p, q := n)\<rparr>"

definition unlink :: "('h, 'n) addr \<Rightarrow> ('h, 'n) addr \<Rightarrow> ('h, 'n) addr \<Rightarrow> ('h, 'n) heap \<Rightarrow> ('h, 'n) heap" where
  "unlink p n q h = h\<lparr>nxt := (nxt h)(p := q, n := n), prv := (prv h)(q := p, n := n)\<rparr>"

lemma insert_before_link:
  "n \<noteq> a \<Longrightarrow> n \<noteq> prv h a \<Longrightarrow> rt_list_insert_before a n h = link (prv h a) n a h"
  by (simp add: rt_list_insert_before_def link_def set_nxt_def set_prv_def Let_def
      fun_upd_twist)

lemma insert_after_link:
  "n \<noteq> a \<Longrightarrow> n \<noteq> nxt h a \<Longrightarrow> rt_list_insert_after a n h = link a n (nxt h a) h"
  by (simp add: rt_list_insert_after_def link_def set_nxt_def set_prv_def Let_def
      fun_upd_twist)

lemma remove_unlink:
  "prv h n \<noteq> n \<Longrightarrow> nxt h n \<noteq> n \<Longrightarrow> rt_list_remove n h = unlink (prv h n) n (nxt h n) h"
  by (simp add: rt_list_remove_def unlink_def set_nxt_def set_prv_def Let_def fun_upd_twist)

lemma chain_link:
  assumes "chain h a (us @ vs) b"
    and "distinct (a # us @ vs)" and "b \<notin> set (us @ vs)" and "n \<notin> set (a # us @ vs)" and "n \<noteq> b"
  shows "chain (link (last (a # us)) n (hd (vs @ [b])) h) a (us @ n # vs) b"
  using assms
proof (induction us arbitrary: a)
  case Nil
  show ?case
  proof (cases vs)
    case Nil
    with Nil.prems show ?thesis by (simp add: link_def)
  next
    case (Cons v vs')
    have "chain (link a n v h) v vs' b"
      by (rule chain_frame [of h]) (use Nil.prems Cons in \<open>auto simp: link_def\<close>)
    with Nil.prems Cons show ?thesis by (auto simp: link_def)
  qed
next
  case (Cons u us)
  have IH: "chain (link (last (u # us)) n (hd (vs @ [b])) h) u (us @ n # vs) b"
    by (rule Cons.IH) (use Cons.prems in auto)
  have "last (u # us) \<noteq> a" "n \<noteq> u" "hd (vs @ [b]) \<noteq> u"
    using Cons.prems by (cases vs; auto)+
  with IH Cons.prems show ?case by (auto simp: link_def)
qed

lemma chain_unlink:
  assumes "chain h a (us @ n # vs) b"
    and "distinct (a # us @ n # vs)" and "b \<notin> set (us @ n # vs)"
  shows "chain (unlink (last (a # us)) n (hd (vs @ [b])) h) a (us @ vs) b"
  using assms
proof (induction us arbitrary: a)
  case Nil
  show ?case
  proof (cases vs)
    case Nil
    with Nil.prems show ?thesis by (auto simp: unlink_def)
  next
    case (Cons v vs')
    have "chain (unlink a n v h) v vs' b"
      by (rule chain_frame [of h]) (use Nil.prems Cons in \<open>auto simp: unlink_def\<close>)
    with Nil.prems Cons show ?thesis by (auto simp: unlink_def)
  qed
next
  case (Cons u us)
  have IH: "chain (unlink (last (u # us)) n (hd (vs @ [b])) h) u (us @ vs) b"
    by (rule Cons.IH) (use Cons.prems in auto)
  have "last (u # us) \<noteq> a" "n \<noteq> u" "n \<noteq> a" "hd (vs @ [b]) \<noteq> u"
    using Cons.prems by (cases vs; auto)+
  with IH Cons.prems show ?case by (simp add: unlink_def)
qed

text \<open>The nodes of the other rings are not touched.\<close>

lemma chain_link_frame:
  "chain h a xs b \<Longrightarrow> set (a # xs) \<inter> {p, n} = {} \<Longrightarrow> set (b # xs) \<inter> {n, q} = {} \<Longrightarrow>
   chain (link p n q h) a xs b"
  by (rule chain_frame [of h]) (auto simp: link_def)

lemma chain_unlink_frame:
  "chain h a xs b \<Longrightarrow> set (a # xs) \<inter> {p, n} = {} \<Longrightarrow> set (b # xs) \<inter> {n, q} = {} \<Longrightarrow>
   chain (unlink p n q h) a xs b"
  by (rule chain_frame [of h]) (auto simp: unlink_def)

text \<open>The two neighbours of a position of list \<open>l\<close>.\<close>

definition before :: "'h \<Rightarrow> 'n list \<Rightarrow> ('h, 'n) addr" where
  "before l us = last (Head l # map Node us)"

definition after :: "'h \<Rightarrow> 'n list \<Rightarrow> ('h, 'n) addr" where
  "after l vs = hd (map Node vs @ [Head l])"

lemma before_in: "before l us \<in> insert (Head l) (Node ` set us)"
  by (cases us rule: rev_cases) (auto simp: before_def)

lemma after_in: "after l vs \<in> insert (Head l) (Node ` set vs)"
  by (cases vs) (auto simp: after_def)

lemma distinct_map_Node [simp]: "distinct (map Node xs) = distinct xs"
  by (simp add: distinct_map inj_on_def)

lemma repr_link:
  assumes r: "repr h L" and s: "L l = us @ vs" and n: "\<not> linked n L"
  shows "repr (link (before l us) (Node n) (after l vs) h) (L(l := us @ n # vs))"
proof -
  let ?h = "link (before l us) (Node n) (after l vs) h"
  have wf: "tbl_wf L" and nl: "n \<notin> set (L k)" for k
    using r n by (auto simp: repr_def linked_def)
  have wf': "tbl_wf (L(l := us @ n # vs))"
    by (rule tbl_wf_upd [OF wf])
      (use tbl_wfD [OF wf, of l] tbl_wf_other [OF wf, of _ l] nl nl [of l] s in auto)
  have "chain h (Head l) (map Node us @ map Node vs) (Head l)"
    using repr_chain [OF r, of l] s by simp
  then have own: "chain ?h (Head l) (map Node us @ Node n # map Node vs) (Head l)"
    unfolding before_def after_def
    by (rule chain_link) (use tbl_wfD [OF wf, of l] nl [of l] s in auto)
  have other: "chain ?h (Head k) (map Node (L k)) (Head k)" if "k \<noteq> l" for k
  proof (rule chain_link_frame [OF repr_chain [OF r]])
    have "set (L k) \<inter> set (us @ vs) = {}"
      using wf that s unfolding tbl_wf_def by metis
    then show "set (Head k # map Node (L k)) \<inter> {before l us, Node n} = {}"
      and "set (Head k # map Node (L k)) \<inter> {Node n, after l vs} = {}"
      using before_in [of l us] after_in [of l vs] that nl [of k] by auto
  qed
  have free: "chain ?h (Node m) [] (Node m)" if m: "\<not> linked m (L(l := us @ n # vs))" for m
  proof (rule chain_link_frame)
    have "\<forall>k. m \<notin> set ((L(l := us @ n # vs)) k)" using m by (simp add: linked_def)
    then have *: "m \<notin> set (us @ n # vs)" and "k \<noteq> l \<Longrightarrow> m \<notin> set (L k)" for k
      by (metis fun_upd_same, metis fun_upd_other)
    then have "\<not> linked m L" using s by (auto simp: linked_def) (metis Un_iff set_append)
    then show "chain h (Node m) [] (Node m)" using r by (simp add: repr_def)
    show "set [Node m] \<inter> {before l us, Node n} = {}" "set [Node m] \<inter> {Node n, after l vs} = {}"
      using before_in [of l us] after_in [of l vs] * by auto
  qed
  show ?thesis
    unfolding repr_def using wf' own other free by simp
qed

lemma repr_unlink:
  assumes r: "repr h L" and s: "L l = us @ n # vs"
  shows "repr (unlink (before l us) (Node n) (after l vs) h) (L(l := us @ vs))"
proof -
  let ?h = "unlink (before l us) (Node n) (after l vs) h"
  have wf: "tbl_wf L" using r by (simp add: repr_def)
  have dl: "distinct (us @ n # vs)" using tbl_wfD [OF wf, of l] s by simp
  have dj: "k \<noteq> l \<Longrightarrow> set (us @ n # vs) \<inter> set (L k) = {}" for k
    using tbl_wf_other [OF wf, of k l] s by simp
  have wf': "tbl_wf (L(l := us @ vs))"
    by (rule tbl_wf_upd [OF wf]) (use dl dj in auto)
  have "chain h (Head l) (map Node us @ Node n # map Node vs) (Head l)"
    using repr_chain [OF r, of l] s by simp
  then have own: "chain ?h (Head l) (map Node us @ map Node vs) (Head l)"
    unfolding before_def after_def by (rule chain_unlink) (use dl in auto)
  have other: "chain ?h (Head k) (map Node (L k)) (Head k)" if "k \<noteq> l" for k
    by (rule chain_unlink_frame [OF repr_chain [OF r]])
      (use before_in [of l us] after_in [of l vs] dj [OF that] that in auto)
  have free: "chain ?h (Node m) [] (Node m)" if m: "\<not> linked m (L(l := us @ vs))" for m
  proof (cases "m = n")
    case True
    have "before l us \<noteq> Node n" "after l vs \<noteq> Node n"
      using before_in [of l us] after_in [of l vs] dl by auto
    with True show ?thesis by (simp add: unlink_def)
  next
    case False
    have "\<forall>k. m \<notin> set ((L(l := us @ vs)) k)" using m by (simp add: linked_def)
    then have *: "m \<notin> set (us @ n # vs)" and "k \<noteq> l \<Longrightarrow> m \<notin> set (L k)" for k
      using False by (metis Un_iff fun_upd_same set_append set_ConsD, metis fun_upd_other)
    then have "\<not> linked m L" using s unfolding linked_def by metis
    then have "chain h (Node m) [] (Node m)" using r by (simp add: repr_def)
    then show ?thesis
      by (rule chain_unlink_frame)
        (use before_in [of l us] after_in [of l vs] * in auto)
  qed
  show ?thesis
    unfolding repr_def using wf' own other free by simp
qed

section \<open>The operations simulate the table operations\<close>

lemma repr_prv_head: "repr h L \<Longrightarrow> prv h (Head l) = before l (L l)"
  unfolding before_def by (drule repr_chain [where l = l], drule chain_last) (auto split: if_splits)

lemma repr_nxt_head: "repr h L \<Longrightarrow> nxt h (Head l) = after l (L l)"
  unfolding after_def by (drule repr_chain [where l = l], drule chain_first) (auto split: list.splits)

lemma repr_node:
  assumes "repr h L" and "L l = us @ n # vs"
  shows "prv h (Node n) = before l us" and "nxt h (Node n) = after l vs"
proof -
  have c: "chain h (Head l) (map Node us) (Node n)" "chain h (Node n) (map Node vs) (Head l)"
    using repr_chain [OF assms(1), of l] assms(2) by (simp_all add: chain_append)
  show "prv h (Node n) = before l us"
    using chain_last [OF c(1)] by (simp add: before_def)
  show "nxt h (Node n) = after l vs"
    using chain_first [OF c(2)] by (simp add: after_def split: list.splits)
qed

lemma before_neq: "n \<notin> set us \<Longrightarrow> before l us \<noteq> Node n"
  using before_in [of l us] by auto

lemma after_neq: "n \<notin> set vs \<Longrightarrow> after l vs \<noteq> Node n"
  using after_in [of l vs] by auto

lemma notin_table: "\<not> linked n L \<Longrightarrow> n \<notin> set (L l)"
  by (simp add: linked_def)

lemma insert_before_head:
  assumes "repr h L" and "\<not> linked n L"
  shows "repr (rt_list_insert_before (Head l) (Node n) h) (tbl_insert_tail l n L)"
proof -
  have "rt_list_insert_before (Head l) (Node n) h = link (before l (L l)) (Node n) (after l []) h"
    using insert_before_link [of "Node n" "Head l" h] repr_prv_head [OF assms(1), of l]
      before_neq [OF notin_table [OF assms(2)], of l l] by (simp add: after_def)
  then show ?thesis
    using repr_link [OF assms(1) _ assms(2), of l "L l" "[]"] by (simp add: tbl_insert_tail_def)
qed

lemma insert_after_head:
  assumes "repr h L" and "\<not> linked n L"
  shows "repr (rt_list_insert_after (Head l) (Node n) h) (L(l := n # L l))"
proof -
  have "rt_list_insert_after (Head l) (Node n) h = link (before l []) (Node n) (after l (L l)) h"
    using insert_after_link [of "Node n" "Head l" h] repr_nxt_head [OF assms(1), of l]
      after_neq [OF notin_table [OF assms(2)], of l l] by (simp add: before_def)
  then show ?thesis
    using repr_link [OF assms(1) _ assms(2), of l "[]" "L l"] by simp
qed

lemma insert_before_node:
  assumes r: "repr h L" and n: "\<not> linked n L" and m: "m \<in> set (L l)"
  shows "repr (rt_list_insert_before (Node m) (Node n) h) (tbl_insert_before m n L)"
proof -
  obtain us vs where s: "L l = us @ m # vs" and us: "m \<notin> set us"
    using m by (metis split_list_first)
  have nm: "n \<noteq> m" "n \<notin> set us" using notin_table [OF n, of l] s by auto
  have "rt_list_insert_before (Node m) (Node n) h = link (before l us) (Node n) (after l (m # vs)) h"
    using insert_before_link [of "Node n" "Node m" h] repr_node(1) [OF r s]
      before_neq [OF nm(2), of l] nm(1) by (simp add: after_def)
  moreover have "tbl_insert_before m n L = L(l := us @ n # m # vs)"
  proof
    fix k
    show "tbl_insert_before m n L k = (L(l := us @ n # m # vs)) k"
      using tbl_wf_disj [OF repr_wf [OF r] m, of k] s us
      by (cases "k = l") (auto simp: tbl_insert_before_def insert_before_elem_middle
          intro!: insert_before_elem_notin)
  qed
  ultimately show ?thesis
    using repr_link [OF r s n] by simp
qed

lemma remove_linked:
  assumes r: "repr h L" and m: "n \<in> set (L l)"
  shows "repr (rt_list_remove (Node n) h) (tbl_remove n L)"
proof -
  obtain us vs where s: "L l = us @ n # vs" using m by (metis split_list)
  have d: "n \<notin> set us" "n \<notin> set vs" using tbl_wfD [OF repr_wf [OF r], of l] s by auto
  have "rt_list_remove (Node n) h = unlink (before l us) (Node n) (after l vs) h"
    using remove_unlink [of h "Node n"] repr_node [OF r s] before_neq [OF d(1), of l]
      after_neq [OF d(2), of l] by simp
  moreover have "tbl_remove n L = L(l := us @ vs)"
  proof
    fix k
    show "tbl_remove n L k = (L(l := us @ vs)) k"
      using tbl_wf_disj [OF repr_wf [OF r] m, of k] s d
      by (cases "k = l") (auto simp: tbl_remove_def remove1_in_middle intro!: remove1_idem)
  qed
  ultimately show ?thesis using repr_unlink [OF r s] by simp
qed

lemma remove_unlinked:
  assumes r: "repr h L" and n: "\<not> linked n L"
  shows "repr (rt_list_remove (Node n) h) (tbl_remove n L)"
proof -
  have "nxt h (Node n) = Node n" "prv h (Node n) = Node n" using r n by (auto simp: repr_def)
  then have "rt_list_remove (Node n) h = h"
    by (simp add: rt_list_remove_def set_nxt_def set_prv_def Let_def fun_upd_idem)
  then show ?thesis using r n by (simp add: tbl_remove_unlinked)
qed

lemma remove_simulates: "repr h L \<Longrightarrow> repr (rt_list_remove (Node n) h) (tbl_remove n L)"
  by (cases "linked n L") (auto simp: linked_def [of n L] dest: remove_linked intro: remove_unlinked)

text \<open>The length loop ends on every list of the table.\<close>

lemma len_loop_chain:
  "chain h p xs l \<Longrightarrow> l \<notin> set xs \<Longrightarrow>
   rt_list_len_loop h l p k = Some (k + of_nat (length xs))"
proof (induction xs arbitrary: p k)
  case Nil
  then show ?case by (simp add: rt_list_len_loop.simps)
next
  case (Cons x xs)
  then have "rt_list_len_loop h l x (k + 1) = Some (k + 1 + of_nat (length xs))" by auto
  with Cons.prems show ?case
    by (auto simp: rt_list_len_loop.simps [of h l p] algebra_simps)
qed

lemma len_simulates: "repr h L \<Longrightarrow> rt_list_len (Head l) h = Some (of_nat (length (L l)))"
  using len_loop_chain [OF repr_chain, of h L l 0] by (auto simp: rt_list_len_def)

section \<open>The interface the kernel relies on\<close>

text \<open>
  What a client of the lists may assume, over any representation \<open>rel\<close> of the table. The laws
  hold of the pointer heap and, trivially, of the table itself, which the kernel state uses.
\<close>

locale list_table =
  fixes rel :: "'s \<Rightarrow> ('h \<Rightarrow> 'n list) \<Rightarrow> bool"
    and insert_tail :: "'h \<Rightarrow> 'n \<Rightarrow> 's \<Rightarrow> 's"
    and insert_node :: "'n \<Rightarrow> 'n \<Rightarrow> 's \<Rightarrow> 's"
    and remove :: "'n \<Rightarrow> 's \<Rightarrow> 's"
    and is_empty :: "'h \<Rightarrow> 's \<Rightarrow> bool"
  assumes wf: "rel s L \<Longrightarrow> tbl_wf L"
    and tail: "rel s L \<Longrightarrow> \<not> linked n L \<Longrightarrow> rel (insert_tail l n s) (tbl_insert_tail l n L)"
    and node: "rel s L \<Longrightarrow> \<not> linked n L \<Longrightarrow> m \<in> set (L l) \<Longrightarrow>
      rel (insert_node m n s) (tbl_insert_before m n L)"
    and remove: "rel s L \<Longrightarrow> rel (remove n s) (tbl_remove n L)"
    and empty: "rel s L \<Longrightarrow> is_empty l s = (L l = [])"
begin

lemma remove_first:
  assumes "rel s L" and "L l = n # ns"
  shows "rel (remove n s) (L(l := ns))"
proof -
  have "tbl_remove n L = L(l := ns)"
  proof
    fix k
    show "tbl_remove n L k = (L(l := ns)) k"
      using tbl_wf_disj [OF wf [OF assms(1)], of n l k] assms(2)
      by (cases "k = l") (auto simp: tbl_remove_def intro!: remove1_idem)
  qed
  then show ?thesis using remove [OF assms(1), of n] by simp
qed

text \<open>Taking the first node off and queueing it again rotates the list (round robin).\<close>

lemma rotate:
  assumes "rel s L" and "L l = n # ns"
  shows "rel (insert_tail l n (remove n s)) (L(l := ns @ [n]))"
proof -
  have r: "rel (remove n s) (L(l := ns))" by (rule remove_first [OF assms])
  have "\<not> linked n (L(l := ns))"
    using not_linked_remove [OF wf [OF assms(1)], of n] remove_first [OF assms] assms
      tbl_wf_disj [OF wf [OF assms(1)], of n l] tbl_wfD [OF wf [OF assms(1)], of l]
    by (auto simp: linked_def)
  with tail [OF r, of n l] show ?thesis by (simp add: tbl_insert_tail_def)
qed

text \<open>A node moved from any list to the tail of another is linked there only.\<close>

lemma move:
  assumes "rel s L"
  shows "rel (insert_tail l n (remove n s)) (tbl_insert_tail l n (tbl_remove n L))"
    and "\<not> is_empty l (insert_tail l n (remove n s))"
proof -
  show r: "rel (insert_tail l n (remove n s)) (tbl_insert_tail l n (tbl_remove n L))"
    by (rule tail [OF remove [OF assms] not_linked_remove [OF wf [OF assms]]])
  show "\<not> is_empty l (insert_tail l n (remove n s))"
    using empty [OF r] by (simp add: tbl_insert_tail_def)
qed

end

interpretation hp: list_table repr "\<lambda>l n. rt_list_insert_before (Head l) (Node n)"
  "\<lambda>m n. rt_list_insert_before (Node m) (Node n)" "\<lambda>n. rt_list_remove (Node n)"
  "\<lambda>l. rt_list_isempty (Head l)"
  by unfold_locales
    (auto intro: insert_before_head insert_before_node remove_simulates simp: repr_wf repr_isempty)

interpretation tb: list_table "\<lambda>s L. s = L \<and> tbl_wf L" tbl_insert_tail tbl_insert_before tbl_remove
  "\<lambda>l s. s l = []"
  by unfold_locales (auto intro: tbl_wf_insert_tail tbl_wf_insert_before tbl_wf_remove)

section \<open>Properties\<close>

text \<open>
  C31: on a heap that holds the lists of a table, the pointer assignments of
  \<open>rt_list_insert_before\<close>, \<open>rt_list_insert_after\<close> and \<open>rt_list_remove\<close> yield a heap that holds
  the lists of the updated table (rings intact, every other list and free node untouched), and
  \<open>rt_list_isempty\<close> and \<open>rt_list_len\<close> return what the table says, the loop of the latter ending.
\<close>

theorem rt_list_refines:
  assumes "repr h L" and "\<not> linked n L" and "m \<in> set (L k)"
  shows "repr (rt_list_insert_before (Head l) (Node n) h) (tbl_insert_tail l n L) \<and>
    repr (rt_list_insert_after (Head l) (Node n) h) (L(l := n # L l)) \<and>
    repr (rt_list_insert_before (Node m) (Node n) h) (tbl_insert_before m n L) \<and>
    repr (rt_list_remove (Node m) h) (tbl_remove m L) \<and>
    rt_list_isempty (Head l) h = (L l = []) \<and>
    rt_list_isempty (Node m) h = False \<and> rt_list_isempty (Node n) h = True \<and>
    rt_list_len (Head l) h = Some (of_nat (length (L l)))"
proof -
  have "linked m L" using assms(3) by (auto simp: linked_def)
  then show ?thesis
    using assms by (simp add: insert_before_head insert_after_head insert_before_node
        remove_simulates repr_isempty repr_node_isempty len_simulates)
qed

definition example_heap :: "(unit, nat) heap" where
  "example_heap = \<lparr>nxt = (\<lambda>a. a)(Head () := Node 1, Node 1 := Node 2, Node 2 := Head ()),
     prv = (\<lambda>a. a)(Head () := Node 2, Node 1 := Head (), Node 2 := Node 1)\<rparr>"

lemma example_heap_repr: "repr example_heap (\<lambda>_. [1, 2])"
  by (auto simp: repr_def example_heap_def tbl_wf_def linked_def)

theorem rt_list_refines_witness:
  "repr (rt_list_insert_before (Head ()) (Node 3) example_heap)
     (tbl_insert_tail () 3 (\<lambda>_. [1, 2 :: nat])) \<and>
   rt_list_len (Head ()) example_heap = Some 2"
  using rt_list_refines [OF example_heap_repr, where n = 3 and m = 1 and l = "()"]
  by (simp add: linked_def)

text \<open>
  removing the first node of a ring and inserting it before the head, which is how the
  scheduler requeues a thread that used up its time slice, rotates that list by one and leaves
  all other lists as they were.
\<close>

theorem rt_list_requeue_rotates:
  assumes "repr h L" and "L l = n # ns"
  shows "repr (rt_list_insert_before (Head l) (Node n) (rt_list_remove (Node n) h))
    (L(l := ns @ [n]))"
  using assms by (rule hp.rotate)

theorem rt_list_requeue_rotates_witness:
  "repr (rt_list_insert_before (Head ()) (Node 1) (rt_list_remove (Node 1) example_heap))
    ((\<lambda>_. [1, 2 :: nat])(() := [2, 1]))"
  using rt_list_requeue_rotates [OF example_heap_repr, where l = "()" and n = 1 and ns = "[2]"] by simp

end
