(* ===== verification/Ffs.thy ===== *)
theory Ffs
  imports Prelude
begin

text \<open>
  \<open>__rt_ffs\<close>, the find-first-set routine with which the scheduler turns the ready bitmap into
  a priority: the two table versions of rt-thread/src/kservice.c and the RBIT/CLZ version of
  rt-thread/libcpu/arm/cortex-m7/cpuport.c that this board selects (\<open>RT_USING_CPU_FFS\<close>). All
  three are proved to meet one contract, which the scheduler's proofs use.
\<close>

section \<open>The three implementations\<close>

definition tiny_bitmap :: "nat list" where
  "tiny_bitmap =
    [0, 1, 2, 27, 3, 24, 28, 32, 4, 17, 25, 31, 29, 12, 32, 14, 5, 8, 18, 32, 26, 23, 32, 16,
     30, 11, 13, 7, 32, 22, 15, 10, 6, 21, 9, 20, 19]"

text \<open>\<open>&\<close> binds tighter than \<open>^\<close> in C.\<close>

definition rt_ffs_tiny :: "u32 \<Rightarrow> nat" where
  "rt_ffs_tiny v = tiny_bitmap ! (unat (((v AND (v - 1)) XOR v)) mod 37)"

definition lowest_bit_bitmap :: "nat list" where
  "lowest_bit_bitmap =
    [0, 0, 1, 0, 2, 0, 1, 0, 3, 0, 1, 0, 2, 0, 1, 0,
     4, 0, 1, 0, 2, 0, 1, 0, 3, 0, 1, 0, 2, 0, 1, 0,
     5, 0, 1, 0, 2, 0, 1, 0, 3, 0, 1, 0, 2, 0, 1, 0,
     4, 0, 1, 0, 2, 0, 1, 0, 3, 0, 1, 0, 2, 0, 1, 0,
     6, 0, 1, 0, 2, 0, 1, 0, 3, 0, 1, 0, 2, 0, 1, 0,
     4, 0, 1, 0, 2, 0, 1, 0, 3, 0, 1, 0, 2, 0, 1, 0,
     5, 0, 1, 0, 2, 0, 1, 0, 3, 0, 1, 0, 2, 0, 1, 0,
     4, 0, 1, 0, 2, 0, 1, 0, 3, 0, 1, 0, 2, 0, 1, 0,
     7, 0, 1, 0, 2, 0, 1, 0, 3, 0, 1, 0, 2, 0, 1, 0,
     4, 0, 1, 0, 2, 0, 1, 0, 3, 0, 1, 0, 2, 0, 1, 0,
     5, 0, 1, 0, 2, 0, 1, 0, 3, 0, 1, 0, 2, 0, 1, 0,
     4, 0, 1, 0, 2, 0, 1, 0, 3, 0, 1, 0, 2, 0, 1, 0,
     6, 0, 1, 0, 2, 0, 1, 0, 3, 0, 1, 0, 2, 0, 1, 0,
     4, 0, 1, 0, 2, 0, 1, 0, 3, 0, 1, 0, 2, 0, 1, 0,
     5, 0, 1, 0, 2, 0, 1, 0, 3, 0, 1, 0, 2, 0, 1, 0,
     4, 0, 1, 0, 2, 0, 1, 0, 3, 0, 1, 0, 2, 0, 1, 0]"

definition rt_ffs_table :: "u32 \<Rightarrow> nat" where
  "rt_ffs_table v =
    (if v = 0 then 0
     else if v AND 0xff \<noteq> 0 then lowest_bit_bitmap ! unat (v AND 0xff) + 1
     else if v AND 0xff00 \<noteq> 0 then lowest_bit_bitmap ! unat (drop_bit 8 (v AND 0xff00)) + 9
     else if v AND 0xff0000 \<noteq> 0 then lowest_bit_bitmap ! unat (drop_bit 16 (v AND 0xff0000)) + 17
     else lowest_bit_bitmap ! unat (drop_bit 24 (v AND 0xff000000)) + 25)"

text \<open>The ARM instructions RBIT (reverse the bits) and CLZ (count leading zeros).\<close>

definition arm_rbit :: "u32 \<Rightarrow> u32" where
  "arm_rbit v = horner_sum of_bool 2 (map (\<lambda>n. bit v (31 - n)) [0..<32])"

definition arm_clz :: "u32 \<Rightarrow> nat" where
  "arm_clz v = length (takeWhile (\<lambda>n. \<not> bit v n) (rev [0..<32]))"

definition rt_ffs_cpu :: "u32 \<Rightarrow> nat" where
  "rt_ffs_cpu v = (if v = 0 then 0 else arm_clz (arm_rbit v) + 1)"

section \<open>The contract\<close>

locale find_first_set =
  fixes ffs :: "u32 \<Rightarrow> nat"
  assumes ffs_zero: "ffs 0 = 0"
    and ffs_pos: "v \<noteq> 0 \<Longrightarrow> 0 < ffs v"
    and ffs_bit: "v \<noteq> 0 \<Longrightarrow> bit v (ffs v - 1)"
    and ffs_lower: "v \<noteq> 0 \<Longrightarrow> n < ffs v - 1 \<Longrightarrow> \<not> bit v n"
begin

lemma ffs_le: "ffs v \<le> 32"
proof (cases "v = 0")
  case False
  then have "ffs v - 1 < 32" using bit_imp_le_length [OF ffs_bit [OF False]] by simp
  then show ?thesis by simp
qed (simp add: ffs_zero)

lemma ffs_least: "bit v n \<Longrightarrow> ffs v - 1 \<le> n"
  using ffs_lower [of v n] by (metis bit_0_eq bot_apply bot_bool_def leI)

lemma ffs_unique: "bit v k \<Longrightarrow> (\<And>n. n < k \<Longrightarrow> \<not> bit v n) \<Longrightarrow> ffs v = k + 1"
  using ffs_least [of v k] ffs_bit [of v] ffs_pos [of v]
  by (metis Suc_eq_plus1 Suc_pred' bit_0_eq bot_apply bot_bool_def le_neq_implies_less)

end

text \<open>The lowest set bit of a non-zero word.\<close>

lemma lowest_bit_exists:
  assumes "(v :: u32) \<noteq> 0"
  obtains k where "bit v k" and "\<And>n. n < k \<Longrightarrow> \<not> bit v n" and "k < 32"
proof -
  have "\<exists>k. bit v k" using assms by (metis bit_0_eq bit_eq_iff bot_apply bot_bool_def)
  then have "bit v (LEAST k. bit v k)" by (rule LeastI_ex)
  moreover have "n < (LEAST k. bit v k) \<Longrightarrow> \<not> bit v n" for n by (rule not_less_Least)
  moreover have "(LEAST k. bit v k) < 32" using bit_imp_le_length [OF calculation(1)] by simp
  ultimately show ?thesis by (rule that)
qed

lemma find_first_setI:
  assumes "f 0 = 0"
    and "\<And>v k. bit v k \<Longrightarrow> (\<And>n. n < k \<Longrightarrow> \<not> bit v n) \<Longrightarrow> k < 32 \<Longrightarrow> f v = k + 1"
  shows "find_first_set f"
proof
  fix v :: u32
  assume v: "v \<noteq> 0"
  obtain k where k: "bit v k" "\<And>n. n < k \<Longrightarrow> \<not> bit v n" "k < 32"
    using lowest_bit_exists [OF v] by metis
  have f: "f v = k + 1" by (rule assms(2) [OF k])
  show "0 < f v" "bit v (f v - 1)" "\<And>n. n < f v - 1 \<Longrightarrow> \<not> bit v n"
    using k f by auto
qed (rule assms(1))

section \<open>The table versions\<close>

fun lowest_ok :: "nat \<Rightarrow> nat list \<Rightarrow> bool" where
  "lowest_ok b [] = True"
| "lowest_ok b (k # ks) = (b mod 2 ^ Suc k = 2 ^ k \<and> lowest_ok (b + 1) ks)"

lemma lowest_ok_nth: "lowest_ok b ks \<Longrightarrow> i < length ks \<Longrightarrow> (b + i) mod 2 ^ Suc (ks ! i) = 2 ^ (ks ! i)"
  by (induction b ks arbitrary: i rule: lowest_ok.induct) (auto simp: nth_Cons split: nat.splits)

lemma lowest_bit_bitmap_ok: "lowest_ok 1 (tl lowest_bit_bitmap)"
  unfolding lowest_bit_bitmap_def by simp

lemma mod_power_lowest_bit:
  assumes "b mod 2 ^ Suc k = (2 ^ k :: nat)"
  shows "bit b k" and "n < k \<Longrightarrow> \<not> bit b n"
proof -
  have t: "take_bit (Suc k) b = 2 ^ k" using assms by (simp add: take_bit_eq_mod)
  have b: "bit b m \<longleftrightarrow> m = k" if "m < Suc k" for m
  proof -
    have "bit b m \<longleftrightarrow> bit (take_bit (Suc k) b) m" using that by (simp add: bit_take_bit_iff)
    then show ?thesis by (simp only: t bit_exp_iff) simp
  qed
  show "bit b k" and "n < k \<Longrightarrow> \<not> bit b n" using b [of k] b [of n] by simp_all
qed

lemma byte_lookup:
  assumes "b < 256" and "bit b k" and "\<And>n. n < k \<Longrightarrow> \<not> bit b n"
  shows "lowest_bit_bitmap ! b = k"
proof -
  have "b \<noteq> 0" using assms(2) by (metis bit_0_eq bot_apply bot_bool_def)
  then obtain i where i: "b = Suc i" "i < 255" using assms(1) by (cases b) auto
  have l: "length lowest_bit_bitmap = 256" by (simp add: lowest_bit_bitmap_def)
  have "b mod 2 ^ Suc (lowest_bit_bitmap ! b) = 2 ^ (lowest_bit_bitmap ! b)"
    using lowest_ok_nth [OF lowest_bit_bitmap_ok, of i] i l by (simp add: nth_tl)
  from mod_power_lowest_bit [OF this] assms(2,3) show ?thesis by (meson linorder_neqE_nat)
qed

lemma byte_masks:
  "(0xff :: u32) = push_bit 0 (mask 8)" "(0xff00 :: u32) = push_bit 8 (mask 8)"
  "(0xff0000 :: u32) = push_bit 16 (mask 8)" "(0xff000000 :: u32) = push_bit 24 (mask 8)"
  by (simp_all add: mask_eq_exp_minus_1 push_bit_eq_mult)

definition byte_of :: "nat \<Rightarrow> u32 \<Rightarrow> u32" where
  "byte_of s v = drop_bit s (v AND push_bit s (mask 8))"

lemma bit_byte: "bit (byte_of s v) n \<longleftrightarrow> n < 8 \<and> s + n < 32 \<and> bit v (s + n)"
  by (auto simp: byte_of_def bit_drop_bit_eq bit_and_iff bit_push_bit_iff bit_mask_iff)

lemma byte_small: "unat (byte_of s v) < 256"
proof -
  have "byte_of s v AND mask 8 = byte_of s v"
    by (rule bit_word_eqI) (auto simp: bit_and_iff bit_mask_iff bit_byte)
  then have "unat (byte_of s v) = unat (byte_of s v AND mask 8)" by simp
  also have "\<dots> \<le> unat (mask 8 :: u32)"
    by (rule word_and_le1 [THEN word_le_nat_alt [THEN iffD1]])
  also have "\<dots> < 256" by (simp add: mask_eq_exp_minus_1)
  finally show ?thesis .
qed

lemma bit_unat: "bit (unat (w :: u32)) n \<longleftrightarrow> bit w n"
  by transfer (auto simp: bit_nat_iff bit_take_bit_iff)

text \<open>A byte of the word that holds the lowest set bit is looked up right.\<close>

lemma byte_branch:
  assumes "bit v k" and "\<And>n. n < k \<Longrightarrow> \<not> bit v n" and "s \<le> k" and "k < s + 8" and "s + 8 \<le> 32"
  shows "lowest_bit_bitmap ! unat (byte_of s v) = k - s"
    and "v AND push_bit s (mask 8 :: u32) \<noteq> 0"
proof -
  have b: "bit (byte_of s v) (k - s)" "\<And>n. n < k - s \<Longrightarrow> \<not> bit (byte_of s v) n"
    using assms by (auto simp: bit_byte)
  show "lowest_bit_bitmap ! unat (byte_of s v) = k - s"
    by (rule byte_lookup) (use b byte_small in \<open>auto simp: bit_unat\<close>)
  show "v AND push_bit s (mask 8 :: u32) \<noteq> 0"
  proof
    assume "v AND push_bit s (mask 8 :: u32) = 0"
    then have "byte_of s v = 0" unfolding byte_of_def by (simp only: drop_bit_of_0)
    with b(1) show False by simp
  qed
qed

lemma byte_zero:
  assumes "\<And>n. n < k \<Longrightarrow> \<not> bit v n" and "s + 8 \<le> k"
  shows "v AND push_bit s (mask 8 :: u32) = 0"
  by (rule bit_word_eqI) (use assms in \<open>auto simp: bit_and_iff bit_push_bit_iff bit_mask_iff\<close>)

lemma rt_ffs_table_byte:
  "rt_ffs_table v =
    (if v = 0 then 0
     else if v AND push_bit 0 (mask 8) \<noteq> 0 then lowest_bit_bitmap ! unat (byte_of 0 v) + 1
     else if v AND push_bit 8 (mask 8) \<noteq> 0 then lowest_bit_bitmap ! unat (byte_of 8 v) + 9
     else if v AND push_bit 16 (mask 8) \<noteq> 0 then lowest_bit_bitmap ! unat (byte_of 16 v) + 17
     else lowest_bit_bitmap ! unat (byte_of 24 v) + 25)"
  unfolding rt_ffs_table_def byte_masks byte_of_def by simp

lemma rt_ffs_table_ok: "find_first_set rt_ffs_table"
proof (rule find_first_setI)
  fix v :: u32 and k
  assume k: "bit v k" "\<And>n. n < k \<Longrightarrow> \<not> bit v n" "k < 32"
  have v: "v \<noteq> 0" using k(1) by (auto simp: bit_0_eq)
  have br: "s \<le> k \<Longrightarrow> k < s + 8 \<Longrightarrow> s + 8 \<le> 32 \<Longrightarrow>
      lowest_bit_bitmap ! unat (byte_of s v) = k - s \<and> v AND push_bit s (mask 8) \<noteq> 0" for s
    using byte_branch [of v k s] k by blast
  have z: "s + 8 \<le> k \<Longrightarrow> v AND push_bit s (mask 8) = 0" for s
    using byte_zero [of k v s] k(2) by blast
  consider "k < 8" | "8 \<le> k" "k < 16" | "16 \<le> k" "k < 24" | "24 \<le> k" by linarith
  then show "rt_ffs_table v = k + 1"
    unfolding rt_ffs_table_byte
    by cases (use v k(3) br [of 0] br [of 8] br [of 16] br [of 24] z [of 0] z [of 8] z [of 16] in
        \<open>simp_all del: push_bit_0_id\<close>)
qed (simp add: rt_ffs_table_def)

section \<open>The modulo-37 version\<close>

text \<open>Subtracting one flips the lowest set bit and the zeros below it, so the expression isolates it.\<close>

lemma isolate_lowest_bit:
  assumes k: "bit (v :: u32) k" "\<And>n. n < k \<Longrightarrow> \<not> bit v n" "k < 32"
  shows "(v AND (v - 1)) XOR v = 2 ^ k"
proof -
  let ?u = "v AND NOT (2 ^ k)"
  have b1: "bit ((2 :: u32) ^ k) n \<longleftrightarrow> n = k" for n
    using k(3) by (auto simp: bit_exp_iff)
  have "?u AND 2 ^ k = 0" by (rule bit_word_eqI) (auto simp: bit_and_iff bit_not_iff b1)
  then have "?u + 2 ^ k = ?u OR 2 ^ k" by (rule disjunctive_add_eq_or)
  also have "\<dots> = v"
    by (rule bit_word_eqI) (use k in \<open>auto simp: bit_and_iff bit_or_iff bit_not_iff b1\<close>)
  finally have v: "v = ?u + 2 ^ k" by simp
  have m: "(2 :: u32) ^ k - 1 = mask k" by (simp add: mask_eq_exp_minus_1)
  have "?u AND mask k = 0"
    by (rule bit_word_eqI) (use k in \<open>auto simp: bit_and_iff bit_not_iff bit_mask_iff\<close>)
  then have "?u + mask k = ?u OR mask k" by (rule disjunctive_add_eq_or)
  moreover have "v - 1 = ?u + mask k" using v m by (metis add_diff_eq)
  ultimately have p: "v - 1 = ?u OR mask k" by simp
  show ?thesis
    unfolding p
    by (rule bit_word_eqI)
      (use k in \<open>auto simp: bit_and_iff bit_or_iff bit_xor_iff bit_not_iff bit_mask_iff b1\<close>)
qed

lemma tiny_bitmap_ok:
  assumes "k < 32"
  shows "tiny_bitmap ! (2 ^ k mod 37) = k + 1"
proof -
  have "k \<in> set [0, 1, 2, 3, 4, 5, 6, 7, 8, 9, 10, 11, 12, 13, 14, 15, 16, 17, 18, 19, 20, 21,
      22, 23, 24, 25, 26, 27, 28, 29, 30, 31]"
    using assms by simp arith
  then show ?thesis unfolding tiny_bitmap_def by auto
qed

lemma rt_ffs_tiny_ok: "find_first_set rt_ffs_tiny"
proof (rule find_first_setI)
  fix v :: u32 and k
  assume k: "bit v k" "\<And>n. n < k \<Longrightarrow> \<not> bit v n" "k < 32"
  have "unat ((2 :: u32) ^ k) = 2 ^ k"
    using unat_of_nat [of "2 ^ k", where 'a = 32] k(3) power_strict_increasing [of k 32 "2 :: nat"]
    by simp
  then show "rt_ffs_tiny v = k + 1"
    using tiny_bitmap_ok [OF k(3)] isolate_lowest_bit [of v k] k by (simp add: rt_ffs_tiny_def)
qed (simp add: rt_ffs_tiny_def tiny_bitmap_def)

section \<open>The RBIT/CLZ version\<close>

lemma bit_arm_rbit: "bit (arm_rbit v) n \<longleftrightarrow> n < 32 \<and> bit v (31 - n)"
  unfolding arm_rbit_def by (auto simp: bit_horner_sum_bit_iff)

lemma length_takeWhile_eq:
  "i < length xs \<Longrightarrow> \<not> P (xs ! i) \<Longrightarrow> (\<And>j. j < i \<Longrightarrow> P (xs ! j)) \<Longrightarrow> length (takeWhile P xs) = i"
proof (induction xs arbitrary: i)
  case (Cons x xs)
  show ?case
  proof (cases i)
    case 0
    with Cons.prems show ?thesis by simp
  next
    case (Suc i')
    have "P x" using Cons.prems(3) [of 0] Suc by simp
    moreover have "length (takeWhile P xs) = i'"
      by (rule Cons.IH) (use Cons.prems Suc in \<open>force+\<close>)
    ultimately show ?thesis using Suc by simp
  qed
qed simp

lemma rt_ffs_cpu_ok: "find_first_set rt_ffs_cpu"
proof (rule find_first_setI)
  fix v :: u32 and k
  assume k: "bit v k" "\<And>n. n < k \<Longrightarrow> \<not> bit v n" "k < 32"
  have v: "v \<noteq> 0" using k(1) by (auto simp: bit_0_eq)
  have "arm_clz (arm_rbit v) = k"
    unfolding arm_clz_def
    by (rule length_takeWhile_eq) (use k in \<open>auto simp: rev_nth bit_arm_rbit\<close>)
  with v show "rt_ffs_cpu v = k + 1" by (simp add: rt_ffs_cpu_def)
qed (simp add: rt_ffs_cpu_def)

interpretation ffs_table: find_first_set rt_ffs_table by (rule rt_ffs_table_ok)
interpretation ffs_tiny: find_first_set rt_ffs_tiny by (rule rt_ffs_tiny_ok)
interpretation ffs_cpu: find_first_set rt_ffs_cpu by (rule rt_ffs_cpu_ok)

section \<open>Properties\<close>

text \<open>
  the three implementations of \<open>__rt_ffs\<close> agree on every 32-bit value: 0 for 0, and
  otherwise one more than the position of the lowest set bit.
\<close>

theorem rt_ffs_agree:
  "rt_ffs_table v = rt_ffs_cpu v \<and> rt_ffs_tiny v = rt_ffs_cpu v \<and>
   (if v = 0 then rt_ffs_cpu v = 0
    else \<exists>k. rt_ffs_cpu v = Suc k \<and> bit v k \<and> (\<forall>n. bit v n \<longrightarrow> k \<le> n) \<and> k < 32)"
proof (cases "v = 0")
  case True
  then show ?thesis
    by (simp add: ffs_table.ffs_zero ffs_tiny.ffs_zero ffs_cpu.ffs_zero)
next
  case False
  then obtain k where k: "bit v k" "\<And>n. n < k \<Longrightarrow> \<not> bit v n" "k < 32"
    using lowest_bit_exists by metis
  then have "rt_ffs_table v = k + 1" "rt_ffs_tiny v = k + 1" "rt_ffs_cpu v = k + 1"
    by (simp_all add: ffs_table.ffs_unique ffs_tiny.ffs_unique ffs_cpu.ffs_unique)
  then show ?thesis using False k by (auto intro!: leI)
qed

theorem rt_ffs_agree_witness: "bit (12 :: u32) 2 \<and> rt_ffs_cpu 12 = 3"
  using rt_ffs_agree [of 12] by (auto simp: rt_ffs_table_def lowest_bit_bitmap_def)

end
