(* ===== verification/Fifo.thy ===== *)
theory Fifo
  imports Prelude
begin

text \<open>
  The contract of a bounded first-in first-out store, which the byte ring buffer and the mailbox
  both promise, the client facts that follow from it, and the ring of array cells that implements it.
\<close>

text \<open>A run of insertions, and a run of removals with the values it returns.\<close>

fun enq_all :: "('a \<Rightarrow> 's \<Rightarrow> 's option) \<Rightarrow> 'a list \<Rightarrow> 's \<Rightarrow> 's option" where
  "enq_all enq [] s = Some s"
| "enq_all enq (x # xs) s = enq x s \<bind> enq_all enq xs"

fun deq_many :: "('s \<Rightarrow> ('a \<times> 's) option) \<Rightarrow> nat \<Rightarrow> 's \<Rightarrow> ('a list \<times> 's) option" where
  "deq_many deq 0 s = Some ([], s)"
| "deq_many deq (Suc n) s =
    (case deq s of None \<Rightarrow> None
     | Some (x, s1) \<Rightarrow>
         (case deq_many deq n s1 of None \<Rightarrow> None | Some (xs, s2) \<Rightarrow> Some (x # xs, s2)))"

locale bounded_fifo =
  fixes inv :: "'s \<Rightarrow> bool"
    and abs :: "'s \<Rightarrow> 'a list"
    and cap :: "'s \<Rightarrow> nat"
    and enq :: "'a \<Rightarrow> 's \<Rightarrow> 's option"
    and deq :: "'s \<Rightarrow> ('a \<times> 's) option"
  assumes bound: "inv s \<Longrightarrow> length (abs s) \<le> cap s"
    and enq_ok: "inv s \<Longrightarrow> length (abs s) < cap s \<Longrightarrow>
      \<exists>s'. enq x s = Some s' \<and> inv s' \<and> abs s' = abs s @ [x] \<and> cap s' = cap s"
    and enq_full: "inv s \<Longrightarrow> length (abs s) = cap s \<Longrightarrow> enq x s = None"
    and deq_ok: "inv s \<Longrightarrow> abs s = x # xs \<Longrightarrow>
      \<exists>s'. deq s = Some (x, s') \<and> inv s' \<and> abs s' = xs \<and> cap s' = cap s"
    and deq_empty: "inv s \<Longrightarrow> abs s = [] \<Longrightarrow> deq s = None"
begin

lemma enq_all_ok:
  "inv s \<Longrightarrow> length (abs s) + length xs \<le> cap s \<Longrightarrow>
   \<exists>s'. enq_all enq xs s = Some s' \<and> inv s' \<and> abs s' = abs s @ xs \<and> cap s' = cap s"
proof (induction xs arbitrary: s)
  case (Cons x xs)
  have "length (abs s) < cap s" using Cons.prems(2) by simp
  then obtain s1 where s1: "enq x s = Some s1" "inv s1" "abs s1 = abs s @ [x]" "cap s1 = cap s"
    using enq_ok [OF Cons.prems(1), of x] by blast
  obtain s2 where "enq_all enq xs s1 = Some s2 \<and> inv s2 \<and> abs s2 = abs s1 @ xs \<and> cap s2 = cap s1"
    using Cons.IH [OF s1(2)] Cons.prems(2) s1 by auto
  with s1 show ?case by simp
qed simp

lemma deq_many_ok:
  "inv s \<Longrightarrow> abs s = xs @ ys \<Longrightarrow>
   \<exists>s'. deq_many deq (length xs) s = Some (xs, s') \<and> inv s' \<and> abs s' = ys \<and> cap s' = cap s"
proof (induction xs arbitrary: s)
  case (Cons x xs)
  obtain s1 where s1: "deq s = Some (x, s1)" "inv s1" "abs s1 = xs @ ys" "cap s1 = cap s"
    using deq_ok [OF Cons.prems(1), of x "xs @ ys"] Cons.prems(2) by auto
  from Cons.IH [OF s1(2,3)] s1 show ?case by auto
qed simp

text \<open>What goes in comes out, in order, whatever was queued before and comes after.\<close>

lemma round_trip:
  assumes "inv s" and "length (abs s) + length xs \<le> cap s"
  shows "\<exists>s1 s2. enq_all enq xs s = Some s1 \<and>
    deq_many deq (length (abs s) + length xs) s1 = Some (abs s @ xs, s2) \<and> inv s2 \<and> abs s2 = []"
  using enq_all_ok [OF assms] deq_many_ok [where xs = "abs s @ xs" and ys = "[]"]
  by (metis append_Nil2 length_append)

lemma enq_None_iff: "inv s \<Longrightarrow> enq x s = None \<longleftrightarrow> length (abs s) = cap s"
  using enq_ok [of s x] enq_full [of s x] bound [of s] by (cases "length (abs s) < cap s") auto

end

section \<open>Circular arrays\<close>

text \<open>The \<open>m\<close> elements from position \<open>out\<close> of an array whose first \<open>n\<close> cells form a ring.\<close>

definition circ :: "'a list \<Rightarrow> nat \<Rightarrow> nat \<Rightarrow> nat \<Rightarrow> 'a list" where
  "circ xs n out m = map (\<lambda>k. xs ! ((out + k) mod n)) [0..<m]"

lemma length_circ [simp]: "length (circ xs n out m) = m"
  by (simp add: circ_def)

lemma circ_0 [simp]: "circ xs n out 0 = []"
  by (simp add: circ_def)

lemma circ_mod [simp]: "circ xs n (out mod n) m = circ xs n out m"
  by (simp add: circ_def mod_simps)

lemma circ_next: "i = k mod n \<Longrightarrow> i < n \<Longrightarrow> (if n \<le> Suc i then 0 else Suc i) = Suc k mod n"
  for n :: nat
  by (simp add: mod_Suc)

lemma mod_add_inj:
  fixes n :: nat
  assumes "k < n" and "e < n" and "(out + k) mod n = (out + e) mod n"
  shows "k = e"
proof -
  have *: "k = e" if "k \<le> e" "e < n" "(out + k) mod n = (out + e) mod n" for k e :: nat
  proof -
    have "n dvd (out + e) - (out + k)" using that(1,3) by (intro mod_eq_dvd_iff_nat [THEN iffD1]) auto
    then have "n dvd e - k" by simp
    then show ?thesis using that(1,2) by (metis diff_is_0_eq dvd_imp_le le_antisym less_imp_diff_less not_le not_gr_zero)
  qed
  show ?thesis using *[of k e] *[of e k] assms by (cases "k \<le> e") auto
qed

lemma circ_other:
  assumes "m \<le> e" and "e < n"
  shows "circ (xs[(out + e) mod n := v]) n out m = circ xs n out m"
  unfolding circ_def
proof (rule map_cong [OF refl])
  fix k assume "k \<in> set [0..<m]"
  then have "k < e" "k < n" using assms by auto
  then have "(out + k) mod n \<noteq> (out + e) mod n" using mod_add_inj [of k n e out] assms by auto
  then show "xs[(out + e) mod n := v] ! ((out + k) mod n) = xs ! ((out + k) mod n)" by simp
qed

lemma circ_put:
  assumes "m < n" and "n \<le> length xs"
  shows "circ (xs[(out + m) mod n := v]) n out (Suc m) = circ xs n out m @ [v]"
proof -
  have "(out + m) mod n < length xs" using assms mod_less_divisor [of n "out + m"] by linarith
  then have "xs[(out + m) mod n := v] ! ((out + m) mod n) = v" by simp
  then show ?thesis using circ_other [of m m n xs out v] assms by (simp add: circ_def)
qed

lemma circ_get: "circ xs n out (Suc m) = xs ! (out mod n) # circ xs n (Suc out) m"
proof -
  have "[0..<Suc m] = 0 # map Suc [0..<m]" using upt_conv_Cons [of 0 "Suc m"] by (simp add: map_Suc_upt)
  then show ?thesis by (simp add: circ_def del: upt_Suc)
qed

lemma circ_push:
  assumes "m < n" and "n \<le> length xs" and "out < n" and "Suc out mod n = out'"
  shows "circ (xs[out := v]) n out (Suc m) = v # circ xs n out' m"
proof -
  have "circ (xs[out := v]) n out (Suc m) = xs[out := v] ! out # circ (xs[out := v]) n (Suc out) m"
    using assms(3) by (simp add: circ_get)
  moreover have "circ (xs[out := v]) n (Suc out) m = circ xs n (Suc out) m"
  proof -
    have "(Suc out + (n - 1)) mod n = out" using assms(3) by simp
    then show ?thesis using circ_other [of m "n - 1" n xs "Suc out" v] assms(1) by simp
  qed
  moreover have "circ xs n (Suc out) m = circ xs n out' m" using assms(4) circ_mod by metis
  ultimately show ?thesis using assms(2,3) by simp
qed

end
