(* ===== verification/RingBuffer.thy ===== *)
theory RingBuffer
  imports Fifo
begin

text \<open>
  The byte ring buffer with mirror bits of rt-thread/components/drivers/ipc/ringbuffer.c (and
  its header), which the serial driver uses for reception. The pool is the list of its bytes; a
  copy or a store outside it is undefined behaviour, hence \<open>None\<close>. The 15-bit indices and the
  16-bit locals are reduced where the code stores them. \<open>rb_list\<close> is the sequence of bytes the
  buffer holds; every operation is proved to act on it as on a bounded queue.
\<close>

section \<open>State and operations\<close>

record rt_ringbuffer =
  buffer_ptr :: "u8 list"
  read_mirror :: bool
  read_index :: nat
  write_mirror :: bool
  write_index :: nat
  buffer_size :: nat

datatype rt_ringbuffer_state = RT_RINGBUFFER_EMPTY | RT_RINGBUFFER_FULL | RT_RINGBUFFER_HALFFULL

text \<open>\<open>rt_memcpy\<close> out of and into a byte array, undefined outside its bounds.\<close>

definition mem_get :: "nat \<Rightarrow> nat \<Rightarrow> 'a list \<Rightarrow> 'a list option" where
  "mem_get i n xs = (if i + n \<le> length xs then Some (take n (drop i xs)) else None)"

definition mem_put :: "nat \<Rightarrow> 'a list \<Rightarrow> 'a list \<Rightarrow> 'a list option" where
  "mem_put i ys xs =
    (if i + length ys \<le> length xs then Some (take i xs @ ys @ drop (i + length ys) xs) else None)"

definition rt_ringbuffer_status :: "rt_ringbuffer \<Rightarrow> rt_ringbuffer_state" where
  "rt_ringbuffer_status rb =
    (if read_index rb = write_index rb
     then (if read_mirror rb = write_mirror rb then RT_RINGBUFFER_EMPTY else RT_RINGBUFFER_FULL)
     else RT_RINGBUFFER_HALFFULL)"

definition rt_ringbuffer_init :: "u8 list \<Rightarrow> int \<Rightarrow> rt_ringbuffer option" where
  "rt_ringbuffer_init pool sz = do {
     rt_assert (sz > 0);
     Some \<lparr>buffer_ptr = pool, read_mirror = False, read_index = 0, write_mirror = False,
       write_index = 0, buffer_size = nat sz div 4 * 4\<rparr> }"

definition rt_ringbuffer_data_len :: "rt_ringbuffer \<Rightarrow> nat" where
  "rt_ringbuffer_data_len rb =
    (case rt_ringbuffer_status rb of
       RT_RINGBUFFER_EMPTY \<Rightarrow> 0
     | RT_RINGBUFFER_FULL \<Rightarrow> buffer_size rb
     | RT_RINGBUFFER_HALFFULL \<Rightarrow>
         (if write_index rb > read_index rb then write_index rb - read_index rb
          else buffer_size rb - (read_index rb - write_index rb)))"

definition rt_ringbuffer_space_len :: "rt_ringbuffer \<Rightarrow> nat" where
  "rt_ringbuffer_space_len rb = buffer_size rb - rt_ringbuffer_data_len rb"

text \<open>The copy of \<open>len\<close> bytes of \<open>ptr\<close> to the write position, with or without wrapping; shared by the two put functions.\<close>

definition copy_in :: "rt_ringbuffer \<Rightarrow> u8 list \<Rightarrow> nat \<Rightarrow> rt_ringbuffer option" where
  "copy_in rb ptr len =
    (if len + write_index rb < buffer_size rb then do {
       d \<leftarrow> mem_get 0 len ptr;
       b \<leftarrow> mem_put (write_index rb) d (buffer_ptr rb);
       Some (rb\<lparr>buffer_ptr := b, write_index := (write_index rb + len) mod 2 ^ 15\<rparr>) }
     else do {
       let n1 = buffer_size rb - write_index rb;
       d1 \<leftarrow> mem_get 0 n1 ptr;
       b1 \<leftarrow> mem_put (write_index rb) d1 (buffer_ptr rb);
       d2 \<leftarrow> mem_get n1 (len - n1) ptr;
       b2 \<leftarrow> mem_put 0 d2 b1;
       Some (rb\<lparr>buffer_ptr := b2, write_mirror := \<not> write_mirror rb,
         write_index := (len - n1) mod 2 ^ 15\<rparr>) })"

definition rt_ringbuffer_put :: "rt_ringbuffer \<Rightarrow> u8 list \<Rightarrow> nat \<Rightarrow> (nat \<times> rt_ringbuffer) option" where
  "rt_ringbuffer_put rb ptr length_arg =
    (let len0 = length_arg mod 2 ^ 16;
         sz = rt_ringbuffer_space_len rb mod 2 ^ 16
     in if sz = 0 then Some (0, rb)
        else let len = (if sz < len0 then sz else len0)
             in map_option (\<lambda>rb'. (len, rb')) (copy_in rb ptr len))"

definition rt_ringbuffer_put_force :: "rt_ringbuffer \<Rightarrow> u8 list \<Rightarrow> nat \<Rightarrow> (nat \<times> rt_ringbuffer) option" where
  "rt_ringbuffer_put_force rb ptr0 length_arg =
    (let len0 = length_arg mod 2 ^ 16;
         space = rt_ringbuffer_space_len rb mod 2 ^ 16;
         ptr = (if len0 > buffer_size rb then drop (len0 - buffer_size rb) ptr0 else ptr0);
         len = (if len0 > buffer_size rb then buffer_size rb else len0);
         wraps = (\<not> len + write_index rb < buffer_size rb)
     in do {
       rb' \<leftarrow> copy_in rb ptr len;
       Some (len,
         if len > space then
           (if wraps
            then rb'\<lparr>read_mirror := (if write_index rb' \<le> read_index rb' then \<not> read_mirror rb' else read_mirror rb'),
                   read_index := write_index rb'\<rparr>
            else rb'\<lparr>read_index := write_index rb'\<rparr>)
         else rb') })"

definition rt_ringbuffer_get :: "rt_ringbuffer \<Rightarrow> nat \<Rightarrow> (nat \<times> u8 list \<times> rt_ringbuffer) option" where
  "rt_ringbuffer_get rb length_arg =
    (let len0 = length_arg mod 2 ^ 16; sz = rt_ringbuffer_data_len rb
     in if sz = 0 then Some (0, [], rb)
        else let len = (if sz < len0 then sz else len0)
             in if len + read_index rb < buffer_size rb then do {
                  d \<leftarrow> mem_get (read_index rb) len (buffer_ptr rb);
                  Some (len, d, rb\<lparr>read_index := (read_index rb + len) mod 2 ^ 15\<rparr>) }
                else do {
                  let n1 = buffer_size rb - read_index rb;
                  d1 \<leftarrow> mem_get (read_index rb) n1 (buffer_ptr rb);
                  d2 \<leftarrow> mem_get 0 (len - n1) (buffer_ptr rb);
                  Some (len, d1 @ d2, rb\<lparr>read_mirror := \<not> read_mirror rb,
                    read_index := (len - n1) mod 2 ^ 15\<rparr>) })"

text \<open>\<open>rt_ringbuffer_peak\<close> returns the address of the first readable byte: the index into the pool.\<close>

definition rt_ringbuffer_peak :: "rt_ringbuffer \<Rightarrow> nat \<times> nat option \<times> rt_ringbuffer" where
  "rt_ringbuffer_peak rb =
    (let sz = rt_ringbuffer_data_len rb; r = read_index rb
     in if sz = 0 then (0, None, rb)
        else if sz + r < buffer_size rb
        then (sz, Some r, rb\<lparr>read_index := (r + sz) mod 2 ^ 15\<rparr>)
        else (buffer_size rb - r, Some r, rb\<lparr>read_mirror := \<not> read_mirror rb, read_index := 0\<rparr>))"

definition rt_ringbuffer_putchar :: "rt_ringbuffer \<Rightarrow> u8 \<Rightarrow> (nat \<times> rt_ringbuffer) option" where
  "rt_ringbuffer_putchar rb ch =
    (if rt_ringbuffer_space_len rb = 0 then Some (0, rb)
     else do {
       b \<leftarrow> mem_put (write_index rb) [ch] (buffer_ptr rb);
       Some (1,
         if write_index rb + 1 = buffer_size rb
         then rb\<lparr>buffer_ptr := b, write_mirror := \<not> write_mirror rb, write_index := 0\<rparr>
         else rb\<lparr>buffer_ptr := b, write_index := (write_index rb + 1) mod 2 ^ 15\<rparr>) })"

definition rt_ringbuffer_putchar_force :: "rt_ringbuffer \<Rightarrow> u8 \<Rightarrow> (nat \<times> rt_ringbuffer) option" where
  "rt_ringbuffer_putchar_force rb ch =
    (let full = (rt_ringbuffer_status rb = RT_RINGBUFFER_FULL)
     in do {
       b \<leftarrow> mem_put (write_index rb) [ch] (buffer_ptr rb);
       Some (1,
         if write_index rb + 1 = buffer_size rb
         then (let rb1 = rb\<lparr>buffer_ptr := b, write_mirror := \<not> write_mirror rb, write_index := 0\<rparr>
               in if full then rb1\<lparr>read_mirror := \<not> read_mirror rb1, read_index := write_index rb1\<rparr> else rb1)
         else (let rb1 = rb\<lparr>buffer_ptr := b, write_index := (write_index rb + 1) mod 2 ^ 15\<rparr>
               in if full then rb1\<lparr>read_index := write_index rb1\<rparr> else rb1)) })"

definition rt_ringbuffer_getchar :: "rt_ringbuffer \<Rightarrow> (nat \<times> u8 option \<times> rt_ringbuffer) option" where
  "rt_ringbuffer_getchar rb =
    (if rt_ringbuffer_data_len rb = 0 then Some (0, None, rb)
     else do {
       d \<leftarrow> mem_get (read_index rb) 1 (buffer_ptr rb);
       Some (1, Some (hd d),
         if read_index rb + 1 = buffer_size rb
         then rb\<lparr>read_mirror := \<not> read_mirror rb, read_index := 0\<rparr>
         else rb\<lparr>read_index := (read_index rb + 1) mod 2 ^ 15\<rparr>) })"

definition rt_ringbuffer_reset :: "rt_ringbuffer \<Rightarrow> rt_ringbuffer" where
  "rt_ringbuffer_reset rb =
    rb\<lparr>read_mirror := False, read_index := 0, write_mirror := False, write_index := 0\<rparr>"

text \<open>\<open>rt_ringbuffer_create\<close>: \<open>alloc\<close> stands for \<open>rt_malloc\<close>, which gives a pool of the requested size or fails; the 16-bit size is handed on as a signed \<open>rt_int16_t\<close>.\<close>

definition rt_ringbuffer_create ::
    "(nat \<Rightarrow> u8 list option) \<Rightarrow> bool \<Rightarrow> u16 \<Rightarrow> rt_ringbuffer option option" where
  "rt_ringbuffer_create alloc struct_ok size0 = do {
     rt_assert (size0 > 0);
     let sz = size0 AND NOT 3;
     (if \<not> struct_ok then Some None
      else case alloc (unat sz) of
        None \<Rightarrow> Some None
      | Some pool \<Rightarrow> map_option Some (rt_ringbuffer_init pool (sint sz))) }"

section \<open>Invariant and abstraction\<close>

definition rb_inv :: "rt_ringbuffer \<Rightarrow> bool" where
  "rb_inv rb \<longleftrightarrow> 0 < buffer_size rb \<and> buffer_size rb < 2 ^ 15 \<and>
     buffer_size rb \<le> length (buffer_ptr rb) \<and>
     read_index rb < buffer_size rb \<and> write_index rb < buffer_size rb \<and>
     (if read_mirror rb = write_mirror rb then read_index rb \<le> write_index rb
      else write_index rb \<le> read_index rb)"

text \<open>A position counted past the end of the pool continues at its start.\<close>

definition wrap :: "nat \<Rightarrow> nat \<Rightarrow> nat" where
  "wrap n i = (if i < n then i else i - n)"

definition rb_list :: "rt_ringbuffer \<Rightarrow> u8 list" where
  "rb_list rb = map (\<lambda>i. buffer_ptr rb ! wrap (buffer_size rb) (read_index rb + i))
     [0..<rt_ringbuffer_data_len rb]"

lemma length_rb_list [simp]: "length (rb_list rb) = rt_ringbuffer_data_len rb"
  by (simp add: rb_list_def)

lemma rb_list_nth:
  "i < rt_ringbuffer_data_len rb \<Longrightarrow>
   rb_list rb ! i = buffer_ptr rb ! wrap (buffer_size rb) (read_index rb + i)"
  by (simp add: rb_list_def)

text \<open>The number of stored bytes in one formula, from the mirrors.\<close>

lemma data_len_eq:
  "rb_inv rb \<Longrightarrow> rt_ringbuffer_data_len rb =
    (if read_mirror rb = write_mirror rb then write_index rb - read_index rb
     else buffer_size rb - read_index rb + write_index rb)"
  by (auto simp: rb_inv_def rt_ringbuffer_data_len_def rt_ringbuffer_status_def split: if_splits)

lemma data_len_le: "rb_inv rb \<Longrightarrow> rt_ringbuffer_data_len rb \<le> buffer_size rb"
  by (auto simp: data_len_eq rb_inv_def split: if_splits)

lemma wrap_write_pos: "rb_inv rb \<Longrightarrow> j < rt_ringbuffer_space_len rb \<Longrightarrow>
    wrap (buffer_size rb) (read_index rb + (rt_ringbuffer_data_len rb + j)) =
    wrap (buffer_size rb) (write_index rb + j)"
  by (auto simp: data_len_eq rt_ringbuffer_space_len_def rb_inv_def wrap_def split: if_splits)

lemma status_full: "rb_inv rb \<Longrightarrow>
    rt_ringbuffer_status rb = RT_RINGBUFFER_FULL \<longleftrightarrow> rt_ringbuffer_data_len rb = buffer_size rb"
  by (auto simp: data_len_eq rb_inv_def rt_ringbuffer_status_def split: if_splits)

lemma mem_get_0 [simp]: "n \<le> length xs \<Longrightarrow> mem_get 0 n xs = Some (take n xs)"
  by (simp add: mem_get_def)

lemma mem_put_nth:
  "mem_put i ys xs = Some zs \<Longrightarrow> p < length xs \<Longrightarrow>
   zs ! p = (if i \<le> p \<and> p < i + length ys then ys ! (p - i) else xs ! p)"
  by (auto simp: mem_put_def nth_append min_def split: if_splits)

lemma mem_put_length: "mem_put i ys xs = Some zs \<Longrightarrow> length zs = length xs"
  by (auto simp: mem_put_def split: if_splits)

lemma mem_put_Some: "i + length ys \<le> length xs \<Longrightarrow> \<exists>zs. mem_put i ys xs = Some zs"
  by (simp add: mem_put_def)

text \<open>
  \<open>copy_in\<close> writes the first \<open>len\<close> bytes behind the write position, going round the end of
  the pool, and moves the write position (and mirror) by as much.
\<close>

lemma copy_in_ok:
  assumes inv: "rb_inv rb" and len: "len \<le> buffer_size rb" and ptr: "len \<le> length ptr"
  shows "\<exists>b. copy_in rb ptr len = Some (rb\<lparr>buffer_ptr := b,
      write_mirror := (if len + write_index rb < buffer_size rb then write_mirror rb else \<not> write_mirror rb),
      write_index := wrap (buffer_size rb) (write_index rb + len)\<rparr>) \<and>
    length b = length (buffer_ptr rb) \<and>
    (\<forall>j < len. b ! wrap (buffer_size rb) (write_index rb + j) = ptr ! j) \<and>
    (\<forall>j. len \<le> j \<longrightarrow> j < buffer_size rb \<longrightarrow>
       b ! wrap (buffer_size rb) (write_index rb + j) =
       buffer_ptr rb ! wrap (buffer_size rb) (write_index rb + j))"
proof (cases "len + write_index rb < buffer_size rb")
  case True
  from inv obtain b where b: "mem_put (write_index rb) (take len ptr) (buffer_ptr rb) = Some b"
    using mem_put_Some [of "write_index rb" "take len ptr" "buffer_ptr rb"] True ptr
    by (auto simp: rb_inv_def)
  note nth = mem_put_nth [OF b]
  have "copy_in rb ptr len = Some (rb\<lparr>buffer_ptr := b, write_index := write_index rb + len\<rparr>)"
    using True b ptr inv by (simp add: copy_in_def rb_inv_def)
  then show ?thesis
    using True inv ptr nth mem_put_length [OF b]
    by (intro exI [of _ b]) (auto simp: wrap_def rb_inv_def)
next
  case False
  let ?n1 = "buffer_size rb - write_index rb"
  have n1: "?n1 \<le> len" "?n1 \<le> length ptr" "len - ?n1 \<le> write_index rb"
    using False inv len ptr by (auto simp: rb_inv_def)
  from inv obtain b1 where b1: "mem_put (write_index rb) (take ?n1 ptr) (buffer_ptr rb) = Some b1"
    using mem_put_Some [of "write_index rb" "take ?n1 ptr" "buffer_ptr rb"] n1
    by (auto simp: rb_inv_def)
  have d2: "mem_get ?n1 (len - ?n1) ptr = Some (take (len - ?n1) (drop ?n1 ptr))"
    using n1 ptr by (simp add: mem_get_def)
  have l2: "length (take (len - ?n1) (drop ?n1 ptr)) = len - ?n1" using n1 ptr by simp
  from inv obtain b where b: "mem_put 0 (take (len - ?n1) (drop ?n1 ptr)) b1 = Some b"
    using mem_put_Some [of 0 "take (len - ?n1) (drop ?n1 ptr)" b1] n1 mem_put_length [OF b1] ptr
    by (auto simp: rb_inv_def)
  have "len - ?n1 < 2 ^ 15" using n1 inv by (auto simp: rb_inv_def)
  then have "copy_in rb ptr len = Some (rb\<lparr>buffer_ptr := b, write_mirror := \<not> write_mirror rb,
      write_index := len - ?n1\<rparr>)"
    using False b b1 d2 n1 by (simp add: copy_in_def)
  moreover have "b ! p = (if p < len - ?n1 then ptr ! (?n1 + p)
      else if write_index rb \<le> p \<and> p < buffer_size rb then ptr ! (p - write_index rb)
      else buffer_ptr rb ! p)" if "p < buffer_size rb" for p
    using that mem_put_nth [OF b, of p] mem_put_nth [OF b1, of p] mem_put_length [OF b1] l2 n1 ptr inv
    by (auto simp: rb_inv_def)
  ultimately show ?thesis
    using False inv len n1 mem_put_length [OF b] mem_put_length [OF b1]
    by (intro exI [of _ b]) (auto simp: wrap_def rb_inv_def)
qed

section \<open>The operations on the byte sequence\<close>

text \<open>Appending: the new bytes fit into the free space.\<close>

lemma append_state:
  assumes inv: "rb_inv rb" and len: "len \<le> rt_ringbuffer_space_len rb"
    and b: "length b = length (buffer_ptr rb)"
      "\<And>j. j < len \<Longrightarrow> b ! wrap (buffer_size rb) (write_index rb + j) = ptr ! j"
      "\<And>j. len \<le> j \<Longrightarrow> j < buffer_size rb \<Longrightarrow> b ! wrap (buffer_size rb) (write_index rb + j) =
         buffer_ptr rb ! wrap (buffer_size rb) (write_index rb + j)"
    and ptr: "len \<le> length ptr"
    and rb': "rb' = rb\<lparr>buffer_ptr := b,
      write_mirror := (if len + write_index rb < buffer_size rb then write_mirror rb else \<not> write_mirror rb),
      write_index := wrap (buffer_size rb) (write_index rb + len)\<rparr>"
  shows "rb_inv rb' \<and> rb_list rb' = rb_list rb @ take len ptr"
proof
  have dl: "rt_ringbuffer_data_len rb + len \<le> buffer_size rb"
    using len data_len_le [OF inv] by (simp add: rt_ringbuffer_space_len_def)
  show inv': "rb_inv rb'"
    using inv dl b(1) data_len_eq [OF inv] unfolding rb' rb_inv_def wrap_def
    by (auto split: if_splits)
  have dl': "rt_ringbuffer_data_len rb' = rt_ringbuffer_data_len rb + len"
    unfolding data_len_eq [OF inv'] data_len_eq [OF inv]
    using inv dl data_len_eq [OF inv] unfolding rb' rb_inv_def wrap_def by (auto split: if_splits)
  show "rb_list rb' = rb_list rb @ take len ptr"
  proof (rule nth_equalityI)
    show "length (rb_list rb') = length (rb_list rb @ take len ptr)"
      using dl' ptr by simp
    fix i
    assume "i < length (rb_list rb')"
    then have i: "i < rt_ringbuffer_data_len rb + len" using dl' by simp
    have nth: "rb_list rb' ! i = b ! wrap (buffer_size rb) (read_index rb + i)"
      using rb_list_nth [of i rb'] i dl' unfolding rb' by simp
    show "rb_list rb' ! i = (rb_list rb @ take len ptr) ! i"
    proof (cases "i < rt_ringbuffer_data_len rb")
      case True
      let ?j = "(if read_mirror rb = write_mirror rb then buffer_size rb + (read_index rb + i) - write_index rb
         else read_index rb + i - write_index rb)"
      have j: "wrap (buffer_size rb) (read_index rb + i) = wrap (buffer_size rb) (write_index rb + ?j)"
        "len \<le> ?j" "?j < buffer_size rb"
        using True inv data_len_eq [OF inv] dl unfolding rb_inv_def wrap_def
        by (auto split: if_splits)
      from b(3) [OF j(2,3)] show ?thesis
        using nth True rb_list_nth [OF True] by (simp add: nth_append flip: j(1))
    next
      case False
      then obtain j where j: "i = rt_ringbuffer_data_len rb + j" "j < len"
        using i by (metis add_less_cancel_left le_Suc_ex not_less)
      then have "rb_list rb' ! i = b ! wrap (buffer_size rb) (write_index rb + j)"
        using nth wrap_write_pos [OF inv, of j] len by simp
      then show ?thesis using b(2) [OF j(2)] j ptr by (simp add: nth_append)
    qed
  qed
qed

lemma put_ok:
  assumes "rb_inv rb" and "length_arg < 2 ^ 16" and "length_arg \<le> length ptr"
  shows "\<exists>rb' n. rt_ringbuffer_put rb ptr length_arg = Some (n, rb') \<and>
    n = min length_arg (rt_ringbuffer_space_len rb) \<and> rb_inv rb' \<and>
    buffer_size rb' = buffer_size rb \<and> rb_list rb' = rb_list rb @ take n ptr"
proof -
  let ?n = "min length_arg (rt_ringbuffer_space_len rb)"
  have sp: "rt_ringbuffer_space_len rb < 2 ^ 15"
    using assms(1) by (auto simp: rt_ringbuffer_space_len_def rb_inv_def)
  show ?thesis
  proof (cases "rt_ringbuffer_space_len rb = 0")
    case True
    then show ?thesis using assms(1) by (simp add: rt_ringbuffer_put_def)
  next
    case False
    have n: "?n \<le> buffer_size rb" "?n \<le> length ptr"
      using assms(3) by (auto simp: rt_ringbuffer_space_len_def)
    from copy_in_ok [OF assms(1) n] obtain b where b:
      "copy_in rb ptr ?n = Some (rb\<lparr>buffer_ptr := b,
        write_mirror := (if ?n + write_index rb < buffer_size rb then write_mirror rb else \<not> write_mirror rb),
        write_index := wrap (buffer_size rb) (write_index rb + ?n)\<rparr>)"
      "length b = length (buffer_ptr rb)"
      "\<And>j. j < ?n \<Longrightarrow> b ! wrap (buffer_size rb) (write_index rb + j) = ptr ! j"
      "\<And>j. ?n \<le> j \<Longrightarrow> j < buffer_size rb \<Longrightarrow> b ! wrap (buffer_size rb) (write_index rb + j) =
         buffer_ptr rb ! wrap (buffer_size rb) (write_index rb + j)" by blast
    have put: "rt_ringbuffer_put rb ptr length_arg = map_option (\<lambda>rb'. (?n, rb')) (copy_in rb ptr ?n)"
      using False sp assms(2) by (auto simp: rt_ringbuffer_put_def Let_def min_def)
    show ?thesis
      using append_state [OF assms(1) _ b(2-4) n(2) refl] put b(1) by simp
  qed
qed

text \<open>Overwriting: more bytes than free space, so the buffer ends up full and the oldest bytes go.\<close>

lemma overwrite_state:
  assumes inv: "rb_inv rb" and len: "len \<le> buffer_size rb" "rt_ringbuffer_space_len rb < len"
    and b: "length b = length (buffer_ptr rb)"
      "\<And>j. j < len \<Longrightarrow> b ! wrap (buffer_size rb) (write_index rb + j) = ptr ! j"
      "\<And>j. len \<le> j \<Longrightarrow> j < buffer_size rb \<Longrightarrow> b ! wrap (buffer_size rb) (write_index rb + j) =
         buffer_ptr rb ! wrap (buffer_size rb) (write_index rb + j)"
    and ptr: "len \<le> length ptr"
    and sz': "buffer_size rb' = buffer_size rb" and b': "buffer_ptr rb' = b"
    and w': "write_index rb' = wrap (buffer_size rb) (write_index rb + len)"
    and r': "read_index rb' = write_index rb'" and m': "read_mirror rb' \<noteq> write_mirror rb'"
  shows "rb_inv rb' \<and>
    rb_list rb' = drop (rt_ringbuffer_data_len rb + len - buffer_size rb) (rb_list rb @ take len ptr)"
proof
  let ?n = "buffer_size rb" and ?d = "rt_ringbuffer_data_len rb"
  have ge: "?n < ?d + len" using len(2) by (simp add: rt_ringbuffer_space_len_def)
  have wlt: "wrap ?n (write_index rb + len) < ?n"
    using inv len(1) by (auto simp: wrap_def rb_inv_def)
  show inv': "rb_inv rb'"
    using inv wlt sz' b' b(1) w' r' m' by (auto simp: rb_inv_def)
  have d': "rt_ringbuffer_data_len rb' = ?n"
    using data_len_eq [OF inv'] r' m' w' sz' wlt by simp
  show "rb_list rb' = drop (?d + len - ?n) (rb_list rb @ take len ptr)"
  proof (rule nth_equalityI)
    show "length (rb_list rb') = length (drop (?d + len - ?n) (rb_list rb @ take len ptr))"
      using d' ptr ge data_len_le [OF inv] by simp
    fix i
    assume "i < length (rb_list rb')"
    then have i: "i < ?n" using d' by simp
    have nth: "rb_list rb' ! i = b ! wrap ?n (wrap ?n (write_index rb + len) + i)"
      using rb_list_nth [of i rb'] i d' b' sz' r' w' by simp
    show "rb_list rb' ! i = drop (?d + len - ?n) (rb_list rb @ take len ptr) ! i"
    proof (cases "len + i < ?n")
      case True
      have k: "?d + len - ?n + i < ?d" using True ge by linarith
      have e: "wrap ?n (wrap ?n (write_index rb + len) + i) = wrap ?n (write_index rb + (len + i))"
        using True inv by (auto simp: wrap_def rb_inv_def)
      have o: "wrap ?n (write_index rb + (len + i)) = wrap ?n (read_index rb + (?d + len - ?n + i))"
        using True inv data_len_eq [OF inv] ge unfolding rb_inv_def wrap_def
        by (auto split: if_splits)
      have g: "drop (?d + len - ?n) (rb_list rb @ take len ptr) ! i = rb_list rb ! (?d + len - ?n + i)"
        using k data_len_le [OF inv] by (subst nth_drop) (auto simp del: drop_append simp: nth_append)
      show ?thesis
        using nth e b(3) [of "len + i"] True rb_list_nth [OF k] o unfolding g by simp
    next
      case False
      define j where "j = i + len - ?n"
      have j: "j < len" "?d + len - ?n + i = ?d + j" using False i ge len(1) by (auto simp: j_def)
      have e: "wrap ?n (wrap ?n (write_index rb + len) + i) = wrap ?n (write_index rb + j)"
        using False i inv len(1) by (auto simp: wrap_def rb_inv_def j_def)
      have g: "drop (?d + len - ?n) (rb_list rb @ take len ptr) ! i = ptr ! j"
        using j ptr data_len_le [OF inv] by (subst nth_drop) (auto simp del: drop_append simp: nth_append)
      show ?thesis
        using nth e b(2) [OF j(1)] unfolding g by simp
    qed
  qed
qed

lemma put_force_ok:
  assumes inv: "rb_inv rb" and len: "length_arg < 2 ^ 16" "length_arg \<le> length ptr"
  shows "\<exists>rb' n. rt_ringbuffer_put_force rb ptr length_arg = Some (n, rb') \<and>
    n = min length_arg (buffer_size rb) \<and> rb_inv rb' \<and> buffer_size rb' = buffer_size rb \<and>
    rb_list rb' = (let xs = rb_list rb @ take length_arg ptr in drop (length xs - buffer_size rb) xs)"
proof -
  define p where "p = (if length_arg > buffer_size rb then drop (length_arg - buffer_size rb) ptr else ptr)"
  define n where "n = min length_arg (buffer_size rb)"
  have n: "n \<le> buffer_size rb" "n \<le> length p" using len(2) by (auto simp: n_def p_def)
  have tk: "take n p = drop (length_arg - buffer_size rb) (take length_arg ptr)"
    using len(2) by (auto simp: n_def p_def drop_take min_def)
  have sp: "rt_ringbuffer_space_len rb < 2 ^ 15"
    using inv by (auto simp: rt_ringbuffer_space_len_def rb_inv_def)
  from copy_in_ok [OF inv n] obtain b where b:
    "copy_in rb p n = Some (rb\<lparr>buffer_ptr := b,
      write_mirror := (if n + write_index rb < buffer_size rb then write_mirror rb else \<not> write_mirror rb),
      write_index := wrap (buffer_size rb) (write_index rb + n)\<rparr>)"
    "length b = length (buffer_ptr rb)"
    "\<And>j. j < n \<Longrightarrow> b ! wrap (buffer_size rb) (write_index rb + j) = p ! j"
    "\<And>j. n \<le> j \<Longrightarrow> j < buffer_size rb \<Longrightarrow> b ! wrap (buffer_size rb) (write_index rb + j) =
       buffer_ptr rb ! wrap (buffer_size rb) (write_index rb + j)" by blast
  let ?wm = "if n + write_index rb < buffer_size rb then write_mirror rb else \<not> write_mirror rb"
  let ?rb1 = "rb\<lparr>buffer_ptr := b, write_mirror := ?wm,
      write_index := wrap (buffer_size rb) (write_index rb + n)\<rparr>"
  have eq: "rt_ringbuffer_put_force rb ptr length_arg = Some (n,
      if n > rt_ringbuffer_space_len rb
      then (if \<not> n + write_index rb < buffer_size rb
            then ?rb1\<lparr>read_mirror := (if write_index ?rb1 \<le> read_index rb then \<not> read_mirror rb else read_mirror rb),
                   read_index := write_index ?rb1\<rparr>
            else ?rb1\<lparr>read_index := write_index ?rb1\<rparr>)
      else ?rb1)"
    using b(1) sp len(1)
    by (simp add: rt_ringbuffer_put_force_def Let_def p_def n_def min_def split: if_splits)
  have len_xs: "length (rb_list rb @ take length_arg ptr) = rt_ringbuffer_data_len rb + length_arg"
    using len(2) by simp
  show ?thesis
  proof (cases "n > rt_ringbuffer_space_len rb")
    case True
    let ?rb2 = "?rb1\<lparr>read_mirror := (if \<not> n + write_index rb < buffer_size rb \<and> write_index ?rb1 \<le> read_index rb
        then \<not> read_mirror rb else read_mirror rb), read_index := write_index ?rb1\<rparr>"
    have "read_mirror ?rb2 \<noteq> write_mirror ?rb2"
      using True inv data_len_eq [OF inv] n(1)
      unfolding rt_ringbuffer_space_len_def rb_inv_def wrap_def by (auto split: if_splits)
    then have st: "rb_inv ?rb2 \<and> rb_list ?rb2 =
        drop (rt_ringbuffer_data_len rb + n - buffer_size rb) (rb_list rb @ take n p)"
      by (intro overwrite_state [OF inv n(1) True b(2-4) n(2)]) auto
    have "drop (rt_ringbuffer_data_len rb + n - buffer_size rb) (rb_list rb @ take n p) =
        drop (rt_ringbuffer_data_len rb + length_arg - buffer_size rb) (rb_list rb @ take length_arg ptr)"
      using tk data_len_le [OF inv] by (auto simp: n_def min_def)
    then show ?thesis
      using st eq True len_xs by (auto simp: n_def Let_def split: if_splits)
  next
    case False
    have le: "n \<le> rt_ringbuffer_space_len rb" using False by simp
    show ?thesis
    proof (cases "rt_ringbuffer_data_len rb + length_arg \<le> buffer_size rb")
      case True
      then have "n = length_arg" by (simp add: n_def)
      then show ?thesis
        using append_state [OF inv le b(2-4) n(2) refl] False eq tk len_xs True by (simp add: Let_def n_def)
    next
      case False
      then have "rt_ringbuffer_data_len rb = 0" "n = buffer_size rb"
        using le data_len_le [OF inv] by (auto simp: n_def min_def rt_ringbuffer_space_len_def split: if_splits)
      moreover have "rb_list rb = []" using calculation(1) length_rb_list [of rb] by (simp del: length_rb_list)
      ultimately show ?thesis
        using append_state [OF inv le b(2-4) n(2) refl] le eq tk len_xs False by (simp add: Let_def n_def)
    qed
  qed
qed

text \<open>Reading: the read position moves over \<open>n\<close> stored bytes.\<close>

lemma advance_read:
  assumes inv: "rb_inv rb" and n: "n \<le> rt_ringbuffer_data_len rb"
    and rb': "rb' = rb\<lparr>read_mirror := (if n + read_index rb < buffer_size rb then read_mirror rb else \<not> read_mirror rb),
      read_index := wrap (buffer_size rb) (read_index rb + n)\<rparr>"
  shows "rb_inv rb' \<and> rb_list rb' = drop n (rb_list rb)"
proof
  note dl = data_len_eq [OF inv]
  show inv': "rb_inv rb'"
    using inv n dl unfolding rb' rb_inv_def wrap_def by (auto split: if_splits)
  have dl': "rt_ringbuffer_data_len rb' = rt_ringbuffer_data_len rb - n"
    unfolding data_len_eq [OF inv'] dl
    using inv n dl unfolding rb' rb_inv_def wrap_def by (auto split: if_splits)
  show "rb_list rb' = drop n (rb_list rb)"
  proof (rule nth_equalityI)
    show "length (rb_list rb') = length (drop n (rb_list rb))" using dl' by simp
    fix i
    assume "i < length (rb_list rb')"
    then have i: "i < rt_ringbuffer_data_len rb - n" using dl' by simp
    have "wrap (buffer_size rb) (wrap (buffer_size rb) (read_index rb + n) + i) =
        wrap (buffer_size rb) (read_index rb + (n + i))"
      using inv i data_len_le [OF inv] by (auto simp: wrap_def rb_inv_def)
    then show "rb_list rb' ! i = drop n (rb_list rb) ! i"
      using i n dl' rb_list_nth [of i rb'] rb_list_nth [of "n + i" rb] by (simp add: rb')
  qed
qed

text \<open>The first \<open>n\<close> stored bytes lie at the read position, and go on at the start of the pool.\<close>

lemma take_rb_list:
  assumes inv: "rb_inv rb" and n: "n \<le> rt_ringbuffer_data_len rb"
  shows "take n (rb_list rb) =
    take (min n (buffer_size rb - read_index rb)) (drop (read_index rb) (buffer_ptr rb)) @
    take (n - (buffer_size rb - read_index rb)) (buffer_ptr rb)"
proof (rule nth_equalityI)
  have le: "n \<le> buffer_size rb" using n data_len_le [OF inv] by simp
  show "length (take n (rb_list rb)) = length (take (min n (buffer_size rb - read_index rb))
      (drop (read_index rb) (buffer_ptr rb)) @ take (n - (buffer_size rb - read_index rb)) (buffer_ptr rb))"
    using n le inv by (auto simp: rb_inv_def min_def)
  fix i
  assume "i < length (take n (rb_list rb))"
  then have i: "i < n" "i < rt_ringbuffer_data_len rb" using n by simp_all
  then show "take n (rb_list rb) ! i = (take (min n (buffer_size rb - read_index rb))
      (drop (read_index rb) (buffer_ptr rb)) @ take (n - (buffer_size rb - read_index rb)) (buffer_ptr rb)) ! i"
    using rb_list_nth [OF i(2)] inv le
    by (auto simp: nth_append wrap_def rb_inv_def min_def intro!: arg_cong [where f = "(!) (buffer_ptr rb)"])
qed

lemma get_ok:
  assumes inv: "rb_inv rb" and len: "length_arg < 2 ^ 16"
  shows "\<exists>rb' n. rt_ringbuffer_get rb length_arg = Some (n, take n (rb_list rb), rb') \<and>
    n = min length_arg (rt_ringbuffer_data_len rb) \<and> rb_inv rb' \<and>
    buffer_size rb' = buffer_size rb \<and> rb_list rb' = drop n (rb_list rb)"
proof -
  define n where "n = min length_arg (rt_ringbuffer_data_len rb)"
  define rb' where "rb' = rb\<lparr>read_mirror := (if n + read_index rb < buffer_size rb then read_mirror rb else \<not> read_mirror rb),
      read_index := wrap (buffer_size rb) (read_index rb + n)\<rparr>"
  have n: "n \<le> rt_ringbuffer_data_len rb" by (simp add: n_def)
  note adv = advance_read [OF inv n rb'_def]
  have "rt_ringbuffer_get rb length_arg = Some (n, take n (rb_list rb), rb')"
  proof (cases "rt_ringbuffer_data_len rb = 0")
    case True
    then have "n = 0" by (simp add: n_def)
    then show ?thesis using True inv by (simp add: rt_ringbuffer_get_def rb'_def rb_inv_def wrap_def)
  next
    case False
    have ln: "(if rt_ringbuffer_data_len rb < length_arg mod 2 ^ 16 then rt_ringbuffer_data_len rb
        else length_arg mod 2 ^ 16) = n"
      using len by (auto simp: n_def)
    note tk = take_rb_list [OF inv n]
    have le: "n \<le> buffer_size rb" using n data_len_le [OF inv] by simp
    show ?thesis
    proof (cases "n + read_index rb < buffer_size rb")
      case True
      then have "take n (rb_list rb) = take n (drop (read_index rb) (buffer_ptr rb))"
        using tk by (simp add: min_def)
      then show ?thesis
        using True False inv unfolding rt_ringbuffer_get_def Let_def ln
        by (auto simp: mem_get_def rb_inv_def rb'_def wrap_def)
    next
      case w: False
      then have m: "min n (buffer_size rb - read_index rb) = buffer_size rb - read_index rb" by simp
      have "n - (buffer_size rb - read_index rb) < 2 ^ 15" using le inv by (auto simp: rb_inv_def)
      then show ?thesis
        using w False inv le tk unfolding rt_ringbuffer_get_def Let_def ln m
        by (auto simp: mem_get_def rb_inv_def rb'_def wrap_def)
    qed
  qed
  then show ?thesis using adv by (intro exI [of _ rb'] exI [of _ n]) (simp add: n_def rb'_def)
qed

text \<open>\<open>peek\<close> hands out the contiguous run at the read position and drops it from the buffer.\<close>

lemma peak_ok:
  assumes inv: "rb_inv rb" and ne: "rb_list rb \<noteq> []"
  shows "\<exists>n rb'. rt_ringbuffer_peak rb = (n, Some (read_index rb), rb') \<and> 0 < n \<and>
    rb_list rb = take n (drop (read_index rb) (buffer_ptr rb)) @ rb_list rb' \<and> rb_inv rb'"
proof -
  define n where "n = min (rt_ringbuffer_data_len rb) (buffer_size rb - read_index rb)"
  define rb' where "rb' = rb\<lparr>read_mirror := (if n + read_index rb < buffer_size rb then read_mirror rb else \<not> read_mirror rb),
      read_index := wrap (buffer_size rb) (read_index rb + n)\<rparr>"
  have n: "n \<le> rt_ringbuffer_data_len rb" by (simp add: n_def)
  have d: "0 < rt_ringbuffer_data_len rb" using ne by (metis length_0_conv length_rb_list neq0_conv)
  have pk: "rt_ringbuffer_peak rb = (n, Some (read_index rb), rb')"
    using d inv by (auto simp: rt_ringbuffer_peak_def Let_def n_def rb'_def wrap_def rb_inv_def min_def)
  have "take n (rb_list rb) = take n (drop (read_index rb) (buffer_ptr rb))"
    using take_rb_list [OF inv n] by (simp add: n_def)
  then show ?thesis
    using pk d inv advance_read [OF inv n rb'_def] append_take_drop_id [of n "rb_list rb"]
    by (intro exI [of _ n] exI [of _ rb']) (auto simp: n_def rb_inv_def)
qed

section \<open>The byte operations are the block operations on one byte\<close>

lemma mem_put_Nil [simp]: "i \<le> length xs \<Longrightarrow> mem_put i [] xs = Some xs"
  by (simp add: mem_put_def)

lemma putchar_put:
  assumes "rb_inv rb"
  shows "rt_ringbuffer_putchar rb ch = rt_ringbuffer_put rb [ch] 1"
proof -
  have "rt_ringbuffer_space_len rb < 2 ^ 15"
    using assms by (auto simp: rt_ringbuffer_space_len_def rb_inv_def)
  moreover have "write_index rb + 1 < 2 ^ 15" if "write_index rb + 1 < buffer_size rb"
    using that assms by (simp add: rb_inv_def)
  moreover have "write_index rb + 1 \<le> length (buffer_ptr rb)" using assms by (simp add: rb_inv_def)
  ultimately show ?thesis
    using assms unfolding rt_ringbuffer_putchar_def rt_ringbuffer_put_def copy_in_def rb_inv_def
    by (cases "buffer_size rb = Suc (write_index rb)") (auto simp: mem_get_def Let_def mem_put_def)
qed

lemma putchar_force_put_force:
  assumes "rb_inv rb"
  shows "rt_ringbuffer_putchar_force rb ch = rt_ringbuffer_put_force rb [ch] 1"
proof -
  have sp: "rt_ringbuffer_space_len rb mod 2 ^ 16 = rt_ringbuffer_space_len rb"
    using assms by (auto simp: rt_ringbuffer_space_len_def rb_inv_def)
  have full: "1 > rt_ringbuffer_space_len rb \<longleftrightarrow> rt_ringbuffer_status rb = RT_RINGBUFFER_FULL"
    using data_len_le [OF assms] by (auto simp: status_full [OF assms] rt_ringbuffer_space_len_def)
  have "write_index rb + 1 \<le> length (buffer_ptr rb)" using assms by (simp add: rb_inv_def)
  then show ?thesis
    using assms full unfolding rt_ringbuffer_putchar_force_def rt_ringbuffer_put_force_def copy_in_def rb_inv_def sp
    by (cases "buffer_size rb = Suc (write_index rb)") (auto simp: mem_get_def Let_def mem_put_def)
qed

lemma getchar_get:
  assumes inv: "rb_inv rb"
  shows "rt_ringbuffer_getchar rb = map_option
    (\<lambda>(n, d, rb'). (n, if n = 0 then None else Some (hd d), rb')) (rt_ringbuffer_get rb 1)"
proof -
  have "read_index rb + 1 \<le> length (buffer_ptr rb)" using inv by (simp add: rb_inv_def)
  then show ?thesis
    using inv unfolding rt_ringbuffer_getchar_def rt_ringbuffer_get_def rb_inv_def
    by (auto simp: mem_get_def Let_def)
qed

lemma init_ok:
  assumes "4 \<le> sz" and "sz < 2 ^ 15" and "nat sz \<le> length pool"
  shows "\<exists>rb. rt_ringbuffer_init pool sz = Some rb \<and> rb_inv rb \<and> rb_list rb = [] \<and>
    buffer_size rb = nat sz div 4 * 4"
proof -
  have "nat sz div 4 * 4 \<le> nat sz" "0 < nat sz div 4" using assms(1) by auto
  then show ?thesis
    using assms by (auto simp: rt_ringbuffer_init_def rb_inv_def rb_list_def
        rt_ringbuffer_data_len_def rt_ringbuffer_status_def)
qed

lemma reset_ok: "rb_inv rb \<Longrightarrow> rb_inv (rt_ringbuffer_reset rb) \<and> rb_list (rt_ringbuffer_reset rb) = [] \<and>
    buffer_size (rt_ringbuffer_reset rb) = buffer_size rb"
  by (simp add: rt_ringbuffer_reset_def rb_inv_def rb_list_def
      rt_ringbuffer_data_len_def rt_ringbuffer_status_def)

section \<open>The byte interface as a bounded queue\<close>

definition rb_enq :: "u8 \<Rightarrow> rt_ringbuffer \<Rightarrow> rt_ringbuffer option" where
  "rb_enq ch rb = (case rt_ringbuffer_putchar rb ch of
     Some (n, rb') \<Rightarrow> (if n = 1 then Some rb' else None) | None \<Rightarrow> None)"

definition rb_deq :: "rt_ringbuffer \<Rightarrow> (u8 \<times> rt_ringbuffer) option" where
  "rb_deq rb = (case rt_ringbuffer_getchar rb of
     Some (n, Some ch, rb') \<Rightarrow> Some (ch, rb') | _ \<Rightarrow> None)"

interpretation rbq: bounded_fifo rb_inv rb_list buffer_size rb_enq rb_deq
proof unfold_locales
  fix s :: rt_ringbuffer and x xs
  assume inv: "rb_inv s"
  show "length (rb_list s) \<le> buffer_size s" using data_len_le [OF inv] by simp
  note put = put_ok [OF inv, of 1 "[x]"]
  note getc = get_ok [OF inv, of 1]
  { assume "length (rb_list s) < buffer_size s"
    then show "\<exists>s'. rb_enq x s = Some s' \<and> rb_inv s' \<and> rb_list s' = rb_list s @ [x] \<and> buffer_size s' = buffer_size s"
      using put by (auto simp: rb_enq_def putchar_put [OF inv] rt_ringbuffer_space_len_def) }
  { assume "length (rb_list s) = buffer_size s"
    then show "rb_enq x s = None"
      using put by (auto simp: rb_enq_def putchar_put [OF inv] rt_ringbuffer_space_len_def) }
  { assume l: "rb_list s = x # xs"
    then have "rt_ringbuffer_data_len s = Suc (length xs)" using length_rb_list [of s] by simp
    then show "\<exists>s'. rb_deq s = Some (x, s') \<and> rb_inv s' \<and> rb_list s' = xs \<and> buffer_size s' = buffer_size s"
      using getc l by (auto simp: rb_deq_def getchar_get [OF inv]) }
  { assume l: "rb_list s = []"
    then have "rt_ringbuffer_data_len s = 0" using length_rb_list [of s] by simp
    then show "rb_deq s = None"
      using getc l by (auto simp: rb_deq_def getchar_get [OF inv]) }
qed

section \<open>Any use of the buffer behaves as the bounded queue of its bytes\<close>

datatype rb_op = OpPut "u8 list" | OpPutForce "u8 list" | OpPutc u8 | OpPutcForce u8
  | OpGet nat | OpGetc | OpReset

text \<open>One call: the returned size, the bytes delivered, the buffer after it.\<close>

fun rb_step :: "rb_op \<Rightarrow> rt_ringbuffer \<Rightarrow> (nat \<times> u8 list \<times> rt_ringbuffer) option" where
  "rb_step (OpPut xs) rb = map_option (\<lambda>(n, rb'). (n, [], rb')) (rt_ringbuffer_put rb xs (length xs))"
| "rb_step (OpPutForce xs) rb = map_option (\<lambda>(n, rb'). (n, [], rb')) (rt_ringbuffer_put_force rb xs (length xs))"
| "rb_step (OpPutc c) rb = map_option (\<lambda>(n, rb'). (n, [], rb')) (rt_ringbuffer_putchar rb c)"
| "rb_step (OpPutcForce c) rb = map_option (\<lambda>(n, rb'). (n, [], rb')) (rt_ringbuffer_putchar_force rb c)"
| "rb_step (OpGet n) rb = rt_ringbuffer_get rb n"
| "rb_step OpGetc rb = map_option (\<lambda>(n, c, rb'). (n, case c of None \<Rightarrow> [] | Some b \<Rightarrow> [b], rb'))
     (rt_ringbuffer_getchar rb)"
| "rb_step OpReset rb = Some (0, [], rt_ringbuffer_reset rb)"

text \<open>The specification: a queue of at most \<open>c\<close> bytes; a forced write keeps the newest \<open>c\<close>.\<close>

definition newest :: "nat \<Rightarrow> 'a list \<Rightarrow> 'a list" where
  "newest c xs = drop (length xs - c) xs"

fun queue_step :: "nat \<Rightarrow> rb_op \<Rightarrow> u8 list \<Rightarrow> nat \<times> u8 list \<times> u8 list" where
  "queue_step c (OpPut xs) q = (let n = min (length xs) (c - length q) in (n, [], q @ take n xs))"
| "queue_step c (OpPutForce xs) q = (min (length xs) c, [], newest c (q @ xs))"
| "queue_step c (OpPutc x) q = (if length q < c then (1, [], q @ [x]) else (0, [], q))"
| "queue_step c (OpPutcForce x) q = (1, [], newest c (q @ [x]))"
| "queue_step c (OpGet n) q = (min n (length q), take n q, drop n q)"
| "queue_step c OpGetc q = (case q of [] \<Rightarrow> (0, [], []) | x # q' \<Rightarrow> (1, [x], q'))"
| "queue_step c OpReset q = (0, [], [])"

text \<open>The length argument of a call is 16 bits wide.\<close>

fun op_ok :: "rb_op \<Rightarrow> bool" where
  "op_ok (OpPut xs) = (length xs < 2 ^ 16)"
| "op_ok (OpPutForce xs) = (length xs < 2 ^ 16)"
| "op_ok (OpGet n) = (n < 2 ^ 16)"
| "op_ok _ = True"

fun rb_run :: "rb_op list \<Rightarrow> rt_ringbuffer \<Rightarrow> ((nat \<times> u8 list) list \<times> rt_ringbuffer) option" where
  "rb_run [] rb = Some ([], rb)"
| "rb_run (p # ps) rb = do {
     (n, d, rb1) \<leftarrow> rb_step p rb;
     (outs, rb2) \<leftarrow> rb_run ps rb1;
     Some ((n, d) # outs, rb2) }"

fun queue_run :: "nat \<Rightarrow> rb_op list \<Rightarrow> u8 list \<Rightarrow> (nat \<times> u8 list) list \<times> u8 list" where
  "queue_run c [] q = ([], q)"
| "queue_run c (p # ps) q =
    (case queue_step c p q of (n, d, q1) \<Rightarrow>
     case queue_run c ps q1 of (outs, q2) \<Rightarrow> ((n, d) # outs, q2))"

lemma rb_step_queue:
  assumes inv: "rb_inv rb" and ok: "op_ok p"
  shows "\<exists>n d rb'. rb_step p rb = Some (n, d, rb') \<and> rb_inv rb' \<and> buffer_size rb' = buffer_size rb \<and>
    queue_step (buffer_size rb) p (rb_list rb) = (n, d, rb_list rb')"
proof (cases p)
  case (OpPut xs)
  then show ?thesis using put_ok [OF inv, of "length xs" xs] ok
    by (auto simp: Let_def rt_ringbuffer_space_len_def)
next
  case (OpPutForce xs)
  then show ?thesis using put_force_ok [OF inv, of "length xs" xs] ok
    by (auto simp: Let_def newest_def simp del: drop_append)
next
  case (OpPutc x)
  then show ?thesis using put_ok [OF inv, of 1 "[x]"] data_len_le [OF inv]
    by (auto simp: Let_def rt_ringbuffer_space_len_def putchar_put [OF inv])
next
  case (OpPutcForce x)
  then show ?thesis using put_force_ok [OF inv, of 1 "[x]"] inv
    by (auto simp: Let_def newest_def putchar_force_put_force [OF inv] rb_inv_def simp del: drop_append)
next
  case (OpGet n)
  then show ?thesis using get_ok [OF inv, of n] ok by (auto simp: min_def)
next
  case OpGetc
  then show ?thesis using get_ok [OF inv, of 1] length_rb_list [of rb]
    by (cases "rb_list rb") (auto simp: getchar_get [OF inv] simp del: length_rb_list)
next
  case OpReset
  then show ?thesis using reset_ok [OF inv] by simp
qed

lemma rb_run_queue:
  "rb_inv rb \<Longrightarrow> \<forall>p \<in> set ps. op_ok p \<Longrightarrow>
   \<exists>outs rb'. rb_run ps rb = Some (outs, rb') \<and> rb_inv rb' \<and>
     queue_run (buffer_size rb) ps (rb_list rb) = (outs, rb_list rb')"
proof (induction ps arbitrary: rb)
  case (Cons p ps)
  from rb_step_queue [OF Cons.prems(1), of p] Cons.prems(2)
  obtain n d rb1 where st: "rb_step p rb = Some (n, d, rb1)" "rb_inv rb1"
      "buffer_size rb1 = buffer_size rb" "queue_step (buffer_size rb) p (rb_list rb) = (n, d, rb_list rb1)"
    by auto
  from Cons.IH [OF st(2)] Cons.prems(2) st show ?case by auto
qed simp

text \<open>On a buffer of size 0 a forced byte write only moves the write position on, until it leaves the pool.\<close>

lemma size0_putchar_force:
  assumes "buffer_size rb = 0" and "read_index rb = 0" and "\<not> read_mirror rb" and "\<not> write_mirror rb"
    and "write_index rb < 2 ^ 15 - 1"
  shows "rt_ringbuffer_putchar_force rb c =
    (if write_index rb < length (buffer_ptr rb)
     then Some (1, rb\<lparr>buffer_ptr := (take (write_index rb) (buffer_ptr rb) @ c # drop (Suc (write_index rb)) (buffer_ptr rb)),
       write_index := write_index rb + 1\<rparr>)
     else None)"
  using assms by (auto simp: rt_ringbuffer_putchar_force_def rt_ringbuffer_status_def mem_put_def Let_def)

lemma size0_overrun:
  "buffer_size rb = 0 \<Longrightarrow> read_index rb = 0 \<Longrightarrow> \<not> read_mirror rb \<Longrightarrow> \<not> write_mirror rb \<Longrightarrow>
   write_index rb + n = length (buffer_ptr rb) \<Longrightarrow> length (buffer_ptr rb) < 2 ^ 15 - 1 \<Longrightarrow>
   rb_run (replicate (Suc n) (OpPutcForce c)) rb = None"
proof (induction n arbitrary: rb)
  case 0
  then show ?case by (simp add: size0_putchar_force)
next
  case (Suc n)
  let ?rb = "rb\<lparr>buffer_ptr := (take (write_index rb) (buffer_ptr rb) @ c # drop (Suc (write_index rb)) (buffer_ptr rb)),
     write_index := write_index rb + 1\<rparr>"
  have "rb_run (replicate (Suc n) (OpPutcForce c)) ?rb = None"
    using Suc.prems by (intro Suc.IH) auto
  moreover have "rb_step (OpPutcForce c) rb = Some (1, [], ?rb)"
    using Suc.prems by (simp add: size0_putchar_force)
  ultimately show ?case by (simp only: replicate.simps rb_run.simps bind.bind_lunit split_conv) simp
qed

section \<open>Properties\<close>

text \<open>
  C32: Started by \<open>rt_ringbuffer_init\<close> on a pool of 4 to 32767 bytes, the ring buffer never leaves
  its pool and every sequence of its calls (block and byte writes, forced writes, reads, resets)
  returns the sizes and the bytes of a bounded queue whose forced writes keep the newest bytes.
\<close>

theorem rb_refines_queue:
  assumes "4 \<le> sz" and "sz < 2 ^ 15" and "nat sz \<le> length pool" and "\<forall>p \<in> set ps. op_ok p"
  shows "\<exists>rb outs rb'. rt_ringbuffer_init pool sz = Some rb \<and> rb_run ps rb = Some (outs, rb') \<and>
    queue_run (nat sz div 4 * 4) ps [] = (outs, rb_list rb')"
  using init_ok [OF assms(1-3)] rb_run_queue [OF _ assms(4)] by metis

theorem rb_refines_queue_witness:
  "\<exists>rb outs rb'. rt_ringbuffer_init (replicate 6 0) 6 = Some rb \<and>
     rb_run [OpPut [1, 2, 3], OpPutForce [4, 5], OpGetc, OpGet 9] rb = Some (outs, rb') \<and>
     queue_run (nat 6 div 4 * 4) [OpPut [1, 2, 3], OpPutForce [4, 5], OpGetc, OpGet 9] [] = (outs, rb_list rb')"
  by (rule rb_refines_queue) simp_all

text \<open>
  Bytes written one by one into a ring buffer with room for them come out in the order they
  were written, behind the bytes already stored, and leave the buffer empty.
\<close>

theorem rb_round_trip:
  assumes "rb_inv rb" and "length (rb_list rb) + length xs \<le> buffer_size rb"
  shows "\<exists>rb1 rb2. enq_all rb_enq xs rb = Some rb1 \<and>
    deq_many rb_deq (length (rb_list rb) + length xs) rb1 = Some (rb_list rb @ xs, rb2) \<and>
    rb_list rb2 = []"
  using rbq.round_trip [OF assms] by blast

definition rb_example :: rt_ringbuffer where
  "rb_example = \<lparr>buffer_ptr = [3, 0, 1, 2], read_mirror = False, read_index = 2,
     write_mirror = True, write_index = 1, buffer_size = 4\<rparr>"

theorem rb_round_trip_witness:
  "rb_list rb_example = [1, 2, 3] \<and> (\<exists>rb1 rb2. enq_all rb_enq [9] rb_example = Some rb1 \<and>
    deq_many rb_deq (length (rb_list rb_example) + length [9::u8]) rb1 =
      Some (rb_list rb_example @ [9], rb2) \<and> rb_list rb2 = [])"
proof
  show l: "rb_list rb_example = [1, 2, 3]"
    by (simp add: rb_list_def rb_example_def rt_ringbuffer_data_len_def rt_ringbuffer_status_def
        wrap_def upt_rec)
  show "\<exists>rb1 rb2. enq_all rb_enq [9] rb_example = Some rb1 \<and>
    deq_many rb_deq (length (rb_list rb_example) + length [9::u8]) rb1 =
      Some (rb_list rb_example @ [9], rb2) \<and> rb_list rb2 = []"
    by (rule rb_round_trip) (simp_all only: l, simp_all add: rb_inv_def rb_example_def)
qed

text \<open>
  \<open>rt_ringbuffer_peak\<close> on a non-empty buffer gives the address and size of a non-empty run of
  stored bytes inside the pool, the oldest ones, and removes exactly these from the buffer.
\<close>

theorem rb_peak_run:
  assumes "rb_inv rb" and "rb_list rb \<noteq> []"
  shows "\<exists>n rb'. rt_ringbuffer_peak rb = (n, Some (read_index rb), rb') \<and> 0 < n \<and>
    rb_list rb = take n (drop (read_index rb) (buffer_ptr rb)) @ rb_list rb' \<and> rb_inv rb'"
  using peak_ok [OF assms] .

theorem rb_peak_run_witness:
  "\<exists>n rb'. rt_ringbuffer_peak rb_example = (n, Some (read_index rb_example), rb') \<and> 0 < n \<and>
    rb_list rb_example = take n (drop (read_index rb_example) (buffer_ptr rb_example)) @ rb_list rb' \<and> rb_inv rb'"
  by (rule rb_peak_run) (simp_all add: rb_inv_def rb_list_def rb_example_def
      rt_ringbuffer_data_len_def rt_ringbuffer_status_def)

text \<open>
  \<open>rt_ringbuffer_init\<close> accepts a pool of one to three bytes, which it rounds down to a buffer
  of size 0; one forced byte write more than the pool has bytes then stores outside the pool.
\<close>

theorem rb_tiny_pool_overrun:
  assumes "0 < length pool" and "length pool < 4"
  shows "\<exists>rb. rt_ringbuffer_init pool (int (length pool)) = Some rb \<and> buffer_size rb = 0 \<and>
    rb_run (replicate (length pool + 1) (OpPutcForce c)) rb = None"
proof -
  let ?rb = "\<lparr>buffer_ptr = pool, read_mirror = False, read_index = 0, write_mirror = False,
    write_index = 0, buffer_size = 0\<rparr>"
  have "rt_ringbuffer_init pool (int (length pool)) = Some ?rb"
    using assms by (simp add: rt_ringbuffer_init_def)
  moreover have "rb_run (replicate (length pool + 1) (OpPutcForce c)) ?rb = None"
    using size0_overrun [of ?rb "length pool" c] assms by simp
  ultimately show ?thesis by simp
qed

theorem rb_tiny_pool_overrun_witness:
  "\<exists>rb. rt_ringbuffer_init [7, 7] (int (length [7::u8, 7])) = Some rb \<and> buffer_size rb = 0 \<and>
    rb_run (replicate (length [7::u8, 7] + 1) (OpPutcForce 1)) rb = None"
  by (rule rb_tiny_pool_overrun) simp_all

end
