(* ===== verification/Timer.thy ===== *)
theory Timer
  imports Prelude
begin

text \<open>
  The tick and the timers of rt-thread/src/clock.c and rt-thread/src/timer.c, for the board's
  configuration: hard timers only (no \<open>RT_USING_TIMER_SOFT\<close>) and one skip-list level, so that
  the timer list is one doubly linked list ordered by timeout. The lists are kept in a table (see
  \<open>Prelude\<close>): the system list and the local list of \<open>rt_timer_check\<close>. Ticks are 32-bit words and
  every comparison is the code's comparison of wrapped differences.
\<close>

section \<open>State\<close>

text \<open>A timer is embedded in a thread or stands alone; its callback is the thread timeout or a user function with its parameter.\<close>

datatype tmid = ThreadTimer nat | UserTimer nat

datatype timeout_fn = ThreadTimeout nat | Callback nat nat

record rt_timer =
  tm_static :: bool
  tm_flag :: u8
  timeout_func :: timeout_fn
  tm_init_tick :: tick
  timeout_tick :: tick

datatype tlhead = TimerList | ExpiredList

text \<open>An initialised timer object is in \<open>timers\<close>: being there is having the type \<open>RT_Object_Class_Timer\<close>.\<close>

record timer_sys =
  rt_tick :: tick
  timers :: "tmid \<rightharpoonup> rt_timer"
  trow :: "tlhead \<Rightarrow> tmid list"
  random_nr :: u32

definition RT_TIMER_FLAG_ACTIVATED :: u8 where "RT_TIMER_FLAG_ACTIVATED = 0x1"
definition RT_TIMER_FLAG_PERIODIC :: u8 where "RT_TIMER_FLAG_PERIODIC = 0x2"

text \<open>The tests of the flag bits.\<close>

definition tm_active :: "rt_timer \<Rightarrow> bool" where
  "tm_active tm \<longleftrightarrow> tm_flag tm AND RT_TIMER_FLAG_ACTIVATED \<noteq> 0"

definition tm_periodic :: "rt_timer \<Rightarrow> bool" where
  "tm_periodic tm \<longleftrightarrow> tm_flag tm AND RT_TIMER_FLAG_PERIODIC \<noteq> 0"

datatype timer_ctrl = RT_TIMER_CTRL_SET_TIME | RT_TIMER_CTRL_GET_TIME | RT_TIMER_CTRL_SET_ONESHOT
  | RT_TIMER_CTRL_SET_PERIODIC | RT_TIMER_CTRL_GET_STATE | RT_TIMER_CTRL_GET_REMAIN_TIME
  | RT_TIMER_CTRL_OTHER int

section \<open>clock.c\<close>

definition rt_tick_get :: "'z timer_sys_scheme \<Rightarrow> tick" where
  "rt_tick_get s = rt_tick s"

definition rt_tick_set :: "tick \<Rightarrow> 'z timer_sys_scheme \<Rightarrow> 'z timer_sys_scheme" where
  "rt_tick_set t s = s\<lparr>rt_tick := t\<rparr>"

definition RT_TICK_PER_SECOND :: u32 where "RT_TICK_PER_SECOND = 1000"

text \<open>
  \<open>RT_TICK_PER_SECOND\<close> is an \<open>int\<close> constant: the products and the sum are computed in 32-bit
  signed arithmetic and converted to the unsigned tick.
\<close>

definition rt_tick_from_millisecond :: "32 word \<Rightarrow> tick" where
  "rt_tick_from_millisecond ms =
    (if sint ms < 0 then - 1
     else (let tick = RT_TICK_PER_SECOND * (ms div 1000)
           in tick + (RT_TICK_PER_SECOND * (ms mod 1000) + 999) div 1000))"

definition rt_tick_get_millisecond :: "'z timer_sys_scheme \<Rightarrow> tick" where
  "rt_tick_get_millisecond s = rt_tick_get s * (1000 div RT_TICK_PER_SECOND)"

section \<open>timer.c\<close>

definition timer_init_rec :: "bool \<Rightarrow> timeout_fn \<Rightarrow> tick \<Rightarrow> u8 \<Rightarrow> rt_timer" where
  "timer_init_rec static f time flag =
    \<lparr>tm_static = static, tm_flag = flag AND NOT RT_TIMER_FLAG_ACTIVATED, timeout_func = f,
     tm_init_tick = time, timeout_tick = 0\<rparr>"

definition timer_list_next_timeout :: "'z timer_sys_scheme \<Rightarrow> tick option" where
  "timer_list_next_timeout s =
    (case trow s TimerList of [] \<Rightarrow> None | t # _ \<Rightarrow> map_option timeout_tick (timers s t))"

definition timer_remove :: "tmid \<Rightarrow> 'z timer_sys_scheme \<Rightarrow> 'z timer_sys_scheme" where
  "timer_remove t s = s\<lparr>trow := tbl_remove t (trow s)\<rparr>"

definition upd_timer :: "tmid \<Rightarrow> (rt_timer \<Rightarrow> rt_timer) \<Rightarrow> 'z timer_sys_scheme \<Rightarrow> 'z timer_sys_scheme" where
  "upd_timer t f s = s\<lparr>timers := (timers s)(t := map_option f (timers s t))\<rparr>"

definition tm_deactivate :: "rt_timer \<Rightarrow> rt_timer" where
  "tm_deactivate tm = tm\<lparr>tm_flag := tm_flag tm AND NOT RT_TIMER_FLAG_ACTIVATED\<rparr>"

definition tm_activate :: "rt_timer \<Rightarrow> rt_timer" where
  "tm_activate tm = tm\<lparr>tm_flag := tm_flag tm OR RT_TIMER_FLAG_ACTIVATED\<rparr>"

definition rt_timer_init ::
    "tmid \<Rightarrow> timeout_fn \<Rightarrow> tick \<Rightarrow> u8 \<Rightarrow> 'z timer_sys_scheme \<Rightarrow> 'z timer_sys_scheme option" where
  "rt_timer_init t f time flag s = do {
     rt_assert (time < half_tick);
     rt_assert (timers s t = None);
     Some (s\<lparr>timers := (timers s)(t \<mapsto> timer_init_rec True f time flag)\<rparr>) }"

definition rt_timer_detach :: "tmid \<Rightarrow> 'z timer_sys_scheme \<Rightarrow> (rt_err \<times> 'z timer_sys_scheme) option" where
  "rt_timer_detach t s = do {
     tm \<leftarrow> timers s t;
     rt_assert (tm_static tm);
     let s1 = upd_timer t tm_deactivate (timer_remove t s);
     Some (RT_EOK, s1\<lparr>timers := (timers s1)(t := None)\<rparr>) }"

text \<open>\<open>rt_timer_create\<close>: \<open>obj\<close> is what \<open>rt_object_allocate\<close> gives, a fresh object or none.\<close>

definition rt_timer_create ::
    "tmid option \<Rightarrow> timeout_fn \<Rightarrow> tick \<Rightarrow> u8 \<Rightarrow> 'z timer_sys_scheme \<Rightarrow> (tmid option \<times> 'z timer_sys_scheme) option" where
  "rt_timer_create obj f time flag s = do {
     rt_assert (time < half_tick);
     (case obj of
        None \<Rightarrow> Some (None, s)
      | Some t \<Rightarrow> Some (Some t, s\<lparr>timers := (timers s)(t \<mapsto> timer_init_rec False f time flag)\<rparr>)) }"

definition rt_timer_delete :: "tmid \<Rightarrow> 'z timer_sys_scheme \<Rightarrow> (rt_err \<times> 'z timer_sys_scheme) option" where
  "rt_timer_delete t s = do {
     tm \<leftarrow> timers s t;
     rt_assert (\<not> tm_static tm);
     let s1 = upd_timer t tm_deactivate (timer_remove t s);
     Some (RT_EOK, s1\<lparr>timers := (timers s1)(t := None)\<rparr>) }"

text \<open>
  The search of \<open>rt_timer_start\<close> for the insertion point and the insertion after it: timers with
  the same timeout or an earlier one are passed.
\<close>

fun row_insert :: "(tmid \<Rightarrow> tick) \<Rightarrow> tmid \<Rightarrow> tick \<Rightarrow> tmid list \<Rightarrow> tmid list" where
  "row_insert tt n new [] = [n]"
| "row_insert tt n new (x # xs) =
    (if tt x - new = 0 then x # row_insert tt n new xs
     else if tt x - new < half_tick then n # x # xs
     else x # row_insert tt n new xs)"

definition timeout_of :: "'z timer_sys_scheme \<Rightarrow> tmid \<Rightarrow> tick" where
  "timeout_of s t = (case timers s t of Some tm \<Rightarrow> timeout_tick tm | None \<Rightarrow> 0)"

definition rt_timer_start :: "tmid \<Rightarrow> 'z timer_sys_scheme \<Rightarrow> (rt_err \<times> 'z timer_sys_scheme) option" where
  "rt_timer_start t s0 = do {
     tm \<leftarrow> timers s0 t;
     let s = upd_timer t tm_deactivate (timer_remove t s0);
     let new = rt_tick_get s + tm_init_tick tm;
     let s = upd_timer t (\<lambda>m. m\<lparr>timeout_tick := new\<rparr>) s;
     let s = s\<lparr>random_nr := random_nr s + 1,
       trow := (trow s)(TimerList := row_insert (timeout_of s) t new (trow s TimerList))\<rparr>;
     Some (RT_EOK, upd_timer t tm_activate s) }"

definition rt_timer_stop :: "tmid \<Rightarrow> 'z timer_sys_scheme \<Rightarrow> (rt_err \<times> 'z timer_sys_scheme) option" where
  "rt_timer_stop t s = do {
     tm \<leftarrow> timers s t;
     (if \<not> tm_active tm then Some (E_ERROR, s)
      else Some (RT_EOK, upd_timer t tm_deactivate (timer_remove t s))) }"

text \<open>\<open>arg\<close> is the word the argument pointer addresses, before and after the call.\<close>

definition rt_timer_control ::
    "tmid \<Rightarrow> timer_ctrl \<Rightarrow> u32 \<Rightarrow> 'z timer_sys_scheme \<Rightarrow> (rt_err \<times> u32 \<times> 'z timer_sys_scheme) option" where
  "rt_timer_control t cmd arg s = do {
     tm \<leftarrow> timers s t;
     (case cmd of
        RT_TIMER_CTRL_GET_TIME \<Rightarrow> Some (RT_EOK, tm_init_tick tm, s)
      | RT_TIMER_CTRL_SET_TIME \<Rightarrow> do {
          rt_assert (arg < half_tick);
          Some (RT_EOK, arg, upd_timer t (\<lambda>m. m\<lparr>tm_init_tick := arg\<rparr>) s) }
      | RT_TIMER_CTRL_SET_ONESHOT \<Rightarrow>
          Some (RT_EOK, arg, upd_timer t (\<lambda>m. m\<lparr>tm_flag := tm_flag m AND NOT RT_TIMER_FLAG_PERIODIC\<rparr>) s)
      | RT_TIMER_CTRL_SET_PERIODIC \<Rightarrow>
          Some (RT_EOK, arg, upd_timer t (\<lambda>m. m\<lparr>tm_flag := tm_flag m OR RT_TIMER_FLAG_PERIODIC\<rparr>) s)
      | RT_TIMER_CTRL_GET_STATE \<Rightarrow>
          (let state = (if tm_active tm then 1 else 0 :: u32);
               arg1 = state;
               arg2 = timeout_tick tm
           in Some (RT_EOK, arg2, s))
      | RT_TIMER_CTRL_GET_REMAIN_TIME \<Rightarrow> Some (RT_EOK, timeout_tick tm, s)
      | RT_TIMER_CTRL_OTHER _ \<Rightarrow> Some (RT_EOK, arg, s)) }"

definition rt_timer_next_timeout_tick :: "'z timer_sys_scheme \<Rightarrow> tick" where
  "rt_timer_next_timeout_tick s =
    (case timer_list_next_timeout s of None \<Rightarrow> RT_TICK_MAX | Some t \<Rightarrow> t)"

definition rt_system_timer_init :: "'z timer_sys_scheme \<Rightarrow> 'z timer_sys_scheme" where
  "rt_system_timer_init s = s\<lparr>trow := (trow s)(TimerList := [])\<rparr>"

text \<open>
  The loop of \<open>rt_timer_check\<close>. \<open>fire\<close> is the call of a timer's callback. The loop runs on fuel:
  \<open>Running\<close> says that the fuel did not suffice, \<open>Halted\<close> that an assertion failed.
\<close>

datatype 's run = Done 's | Halted | Running

definition tm_expired :: "tick \<Rightarrow> tick \<Rightarrow> bool" where
  "tm_expired now tt \<longleftrightarrow> now - tt < half_tick"

text \<open>The body of the loop for the expired head \<open>t\<close> of the list.\<close>

definition check_body :: "(timeout_fn \<Rightarrow> 'z timer_sys_scheme \<Rightarrow> 'z timer_sys_scheme option) \<Rightarrow>
    tmid \<Rightarrow> 'z timer_sys_scheme \<Rightarrow> 'z timer_sys_scheme option" where
  "check_body fire t s0 = do {
     tm \<leftarrow> timers s0 t;
     let s = timer_remove t s0;
     let s = (if \<not> tm_periodic tm then upd_timer t tm_deactivate s else s);
     let s = s\<lparr>trow := (trow s)(ExpiredList := t # trow s ExpiredList)\<rparr>;
     s \<leftarrow> fire (timeout_func tm) s;
     (if trow s ExpiredList = [] then Some s
      else do {
        let s = timer_remove t s;
        tm' \<leftarrow> timers s t;
        (if tm_periodic tm' \<and> tm_active tm'
         then map_option snd (rt_timer_start t (upd_timer t tm_deactivate s))
         else Some s) }) }"

fun timer_check_loop :: "(timeout_fn \<Rightarrow> 'z timer_sys_scheme \<Rightarrow> 'z timer_sys_scheme option) \<Rightarrow>
    nat \<Rightarrow> tick \<Rightarrow> 'z timer_sys_scheme \<Rightarrow> 'z timer_sys_scheme run" where
  "timer_check_loop fire 0 now s = Running"
| "timer_check_loop fire (Suc n) now s =
    (case trow s TimerList of
       [] \<Rightarrow> Done s
     | t # _ \<Rightarrow>
         (if tm_expired now (timeout_of s t)
          then (case check_body fire t s of
                  None \<Rightarrow> Halted
                | Some s' \<Rightarrow> timer_check_loop fire n (rt_tick_get s') s')
          else Done s))"

definition rt_timer_check :: "(timeout_fn \<Rightarrow> 'z timer_sys_scheme \<Rightarrow> 'z timer_sys_scheme option) \<Rightarrow>
    nat \<Rightarrow> 'z timer_sys_scheme \<Rightarrow> 'z timer_sys_scheme run" where
  "rt_timer_check fire n s =
    timer_check_loop fire n (rt_tick_get s) (s\<lparr>trow := (trow s)(ExpiredList := [])\<rparr>)"

section \<open>The order of the timer list\<close>

text \<open>
  \<open>tm_rem s t\<close> is the number of ticks from the previous tick to the timeout of \<open>t\<close>, so that a
  timer that was due one tick ago has 0, one that is due now has 1.
\<close>

definition tm_rem :: "'z timer_sys_scheme \<Rightarrow> tmid \<Rightarrow> nat" where
  "tm_rem s t = unat (timeout_of s t - (rt_tick s - 1))"

text \<open>
  The invariant: the lists are disjoint, a timer of the system list is activated, an activated
  timer is linked (in the system list, or in the local list of a running \<open>rt_timer_check\<close>),
  intervals are below half the tick range, and the system list is ordered by timeout.
\<close>

definition timer_ok :: "'z timer_sys_scheme \<Rightarrow> bool" where
  "timer_ok s \<longleftrightarrow> tbl_wf (trow s) \<and>
     (\<forall>t \<in> set (trow s TimerList). \<exists>tm. timers s t = Some tm \<and> tm_active tm) \<and>
     (\<forall>t \<in> set (trow s ExpiredList). timers s t \<noteq> None) \<and>
     (\<forall>t tm. timers s t = Some tm \<longrightarrow> tm_active tm \<longrightarrow> linked t (trow s)) \<and>
     (\<forall>t tm. timers s t = Some tm \<longrightarrow> tm_init_tick tm < half_tick)"

definition timer_sorted :: "'z timer_sys_scheme \<Rightarrow> bool" where
  "timer_sorted s \<longleftrightarrow> (\<forall>t \<in> set (trow s TimerList). tm_rem s t \<le> 0x7fffffff) \<and>
     sorted (map (tm_rem s) (trow s TimerList))"

definition timer_inv :: "'z timer_sys_scheme \<Rightarrow> bool" where
  "timer_inv s \<longleftrightarrow> timer_ok s \<and> timer_sorted s"

text \<open>No timer is overdue: true between two ticks.\<close>

definition timer_fresh :: "'z timer_sys_scheme \<Rightarrow> bool" where
  "timer_fresh s \<longleftrightarrow> (\<forall>t \<in> set (trow s TimerList). 0 < tm_rem s t)"

lemma unat_diff32: "unat (a - b :: 32 word) =
    (if unat b \<le> unat a then unat a - unat b else 2 ^ 32 + unat a - unat b)"
  by (auto simp: unat_sub_if')

lemma tick_less_half:
  fixes a b :: tick
  assumes "unat a \<le> 0x7fffffff" and "unat b \<le> 0x7fffffff" and "0 < unat b"
  shows "(a - b = 0 \<longleftrightarrow> unat a = unat b) \<and> (a - b \<noteq> 0 \<longrightarrow> (a - b < half_tick \<longleftrightarrow> unat b < unat a))"
proof -
  have "a - b < half_tick \<longleftrightarrow> unat (a - b) < 0x7fffffff"
    by (simp add: word_less_nat_alt)
  then show ?thesis using assms word_unat_eq_iff [of a b] by (auto simp: unat_diff32)
qed

lemma row_insert_split:
  assumes "\<forall>x \<in> set xs. unat (tt x - b) \<le> 0x7fffffff" and "unat (new - b) \<le> 0x7fffffff" and "0 < unat (new - b)"
  shows "row_insert tt n new xs =
    takeWhile (\<lambda>x. unat (tt x - b) \<le> unat (new - b)) xs @ n #
    dropWhile (\<lambda>x. unat (tt x - b) \<le> unat (new - b)) xs"
  using assms
proof (induction xs)
  case (Cons x xs)
  have d: "tt x - new = (tt x - b) - (new - b)" by simp
  show ?case
    using Cons tick_less_half [of "tt x - b" "new - b"] unfolding row_insert.simps d by auto
qed simp

lemma sorted_insert_split:
  fixes f :: "'a \<Rightarrow> nat"
  assumes "sorted (map f xs)"
  shows "sorted (map f (takeWhile (\<lambda>x. f x \<le> f n) xs @ n # dropWhile (\<lambda>x. f x \<le> f n) xs))"
proof -
  have "sorted (map f (takeWhile (\<lambda>x. f x \<le> f n) xs)) \<and> sorted (map f (dropWhile (\<lambda>x. f x \<le> f n) xs))"
    using assms by (metis map_append sorted_append takeWhile_dropWhile_id)
  moreover have "f n \<le> f y" if "y \<in> set (dropWhile (\<lambda>x. f x \<le> f n) xs)" for y
    using assms that by (induction xs) (auto split: if_splits)
  moreover have "f y \<le> f n" if "y \<in> set (takeWhile (\<lambda>x. f x \<le> f n) xs)" for y
    using set_takeWhileD [OF that] by simp
  ultimately show ?thesis by (fastforce simp: sorted_append)
qed

lemma flag_bits:
  fixes f :: u8
  shows "(f AND NOT 1) AND 1 = 0" "(f OR 1) AND 1 \<noteq> 0" "(f AND NOT 1) AND 2 = f AND 2"
    "(f OR 1) AND 2 = f AND 2"
     apply (simp add: and.assoc)
    apply (simp add: bit.conj_disj_distrib2)
   apply (simp add: and.assoc)
  apply (simp add: bit.conj_disj_distrib2)
  done

lemma tm_upd_simps:
  "tm_flag (tm\<lparr>tm_flag := x\<rparr>) = x" "timeout_tick (tm\<lparr>tm_flag := x\<rparr>) = timeout_tick tm"
  "tm_init_tick (tm\<lparr>tm_flag := x\<rparr>) = tm_init_tick tm" "timeout_func (tm\<lparr>tm_flag := x\<rparr>) = timeout_func tm"
  "tm_flag (tm\<lparr>timeout_tick := w\<rparr>) = tm_flag tm"
  by simp_all

lemma deactivate_simps [simp]:
  "tm_active (tm_deactivate tm) = False" "tm_active (tm_activate tm) = True"
  "tm_periodic (tm_deactivate tm) = tm_periodic tm" "tm_periodic (tm_activate tm) = tm_periodic tm"
  "timeout_tick (tm_deactivate tm) = timeout_tick tm" "timeout_tick (tm_activate tm) = timeout_tick tm"
  "tm_init_tick (tm_deactivate tm) = tm_init_tick tm" "tm_init_tick (tm_activate tm) = tm_init_tick tm"
  "timeout_func (tm_deactivate tm) = timeout_func tm" "timeout_func (tm_activate tm) = timeout_func tm"
  "tm_active (tm\<lparr>timeout_tick := w\<rparr>) = tm_active tm" "tm_periodic (tm\<lparr>timeout_tick := w\<rparr>) = tm_periodic tm"
  using flag_bits [of "tm_flag tm"]
  by (simp_all only: tm_active_def tm_periodic_def tm_deactivate_def tm_activate_def
      RT_TIMER_FLAG_ACTIVATED_def RT_TIMER_FLAG_PERIODIC_def tm_upd_simps simp_thms)

lemma upd_timer_sel [simp]:
  "trow (upd_timer t f s) = trow s" "rt_tick (upd_timer t f s) = rt_tick s"
  "timers (upd_timer t f s) = (timers s)(t := map_option f (timers s t))"
  "timer_sys.more (upd_timer t f s) = timer_sys.more s" "random_nr (upd_timer t f s) = random_nr s"
  "random_nr (timer_remove t s) = random_nr s"
  "trow (timer_remove t s) = tbl_remove t (trow s)" "rt_tick (timer_remove t s) = rt_tick s"
  "timers (timer_remove t s) = timers s" "timer_sys.more (timer_remove t s) = timer_sys.more s"
  by (simp_all add: upd_timer_def timer_remove_def)

lemma timer_okD:
  assumes "timer_ok s"
  shows "tbl_wf (trow s)" "t \<in> set (trow s TimerList) \<Longrightarrow> \<exists>tm. timers s t = Some tm \<and> tm_active tm"
    "timers s t = Some tm \<Longrightarrow> tm_active tm \<Longrightarrow> linked t (trow s)"
    "timers s t = Some tm \<Longrightarrow> tm_init_tick tm < half_tick"
    "t \<in> set (trow s ExpiredList) \<Longrightarrow> timers s t \<noteq> None"
  using assms unfolding timer_ok_def by blast+

text \<open>The state after \<open>rt_timer_start\<close>.\<close>

definition started :: "tmid \<Rightarrow> rt_timer \<Rightarrow> 'z timer_sys_scheme \<Rightarrow> 'z timer_sys_scheme" where
  "started t tm s = (let new = rt_tick s + tm_init_tick tm in
     s\<lparr>random_nr := random_nr s + 1,
       timers := (timers s)(t \<mapsto> tm_activate ((tm_deactivate tm)\<lparr>timeout_tick := new\<rparr>)),
       trow := (tbl_remove t (trow s))(TimerList :=
         row_insert (\<lambda>x. if x = t then new else timeout_of s x) t new (remove1 t (trow s TimerList)))\<rparr>)"

lemma start_eq: "timers s t = Some tm \<Longrightarrow> rt_timer_start t s = Some (RT_EOK, started t tm s)"
proof -
  assume t: "timers s t = Some tm"
  have "timeout_of (upd_timer t (\<lambda>m. m\<lparr>timeout_tick := rt_tick s + tm_init_tick tm\<rparr>)
      (upd_timer t tm_deactivate (timer_remove t s))) =
    (\<lambda>x. if x = t then rt_tick s + tm_init_tick tm else timeout_of s x)"
    using t by (auto simp: timeout_of_def fun_eq_iff)
  then have "rt_timer_start t s = Some (RT_EOK, upd_timer t tm_activate
      ((upd_timer t (\<lambda>m. m\<lparr>timeout_tick := rt_tick s + tm_init_tick tm\<rparr>) (upd_timer t tm_deactivate (timer_remove t s)))
        \<lparr>random_nr := random_nr s + 1,
         trow := (tbl_remove t (trow s))(TimerList :=
           row_insert (\<lambda>x. if x = t then rt_tick s + tm_init_tick tm else timeout_of s x) t
             (rt_tick s + tm_init_tick tm) (remove1 t (trow s TimerList)))\<rparr>))"
    using t by (simp add: rt_timer_start_def rt_tick_get_def Let_def tbl_remove_def)
  then show ?thesis
    using t by (simp add: started_def Let_def upd_timer_def timer_remove_def)
qed

lemma set_row_insert: "set (row_insert tt n new xs) = insert n (set xs)"
  by (induction xs) auto

lemma distinct_row_insert: "distinct xs \<Longrightarrow> n \<notin> set xs \<Longrightarrow> distinct (row_insert tt n new xs)"
  by (induction xs) (auto simp: set_row_insert)

lemma linked_tlhead: "linked x L \<longleftrightarrow> x \<in> set (L TimerList) \<or> x \<in> set (L ExpiredList)"
  unfolding linked_def using tlhead.exhaust by metis

lemma unat_tick_plus1: "i < half_tick \<Longrightarrow> unat (i + 1) = unat i + 1"
  by (simp add: word_less_nat_alt unat_word_ariths)

lemma started_ok:
  assumes ok: "timer_ok s" and t: "timers s t = Some tm"
  shows "timer_ok (started t tm s)"
proof -
  note wf = timer_okD(1) [OF ok]
  let ?L = "trow (started t tm s)"
  have L: "?L = (tbl_remove t (trow s))(TimerList := ?L TimerList)"
    by (auto simp: started_def Let_def fun_eq_iff)
  have sT: "set (?L TimerList) = insert t (set (trow s TimerList))"
    using wf by (auto simp: started_def Let_def set_row_insert tbl_wf_def)
  have sE: "set (?L ExpiredList) = set (trow s ExpiredList) - {t}"
    using tbl_remove_set [OF wf] by (simp add: started_def Let_def)
  have "distinct (?L TimerList)"
    using wf by (auto simp: started_def Let_def distinct_row_insert tbl_wf_def)
  moreover have "set (?L TimerList) \<inter> set (tbl_remove t (trow s) k) = {}" if "k \<noteq> TimerList" for k
    using tbl_wf_other [OF wf, of k TimerList] that unfolding sT tbl_remove_set [OF wf] by blast
  ultimately have "tbl_wf ?L"
    by (subst L) (rule tbl_wf_upd [OF tbl_wf_remove [OF wf]])
  moreover have "linked x ?L \<longleftrightarrow> x = t \<or> linked x (trow s)" for x
    using sT sE by (auto simp: linked_tlhead)
  moreover have "timers (started t tm s) = (timers s)(t \<mapsto> tm_activate ((tm_deactivate tm)\<lparr>timeout_tick := rt_tick s + tm_init_tick tm\<rparr>))"
    by (simp add: started_def Let_def)
  ultimately show ?thesis
    using ok t sT sE unfolding timer_ok_def by (auto split: if_splits)
qed

lemma timeout_started:
  "timeout_of (started t tm s) x = (if x = t then rt_tick s + tm_init_tick tm else timeout_of s x)"
  by (simp add: timeout_of_def started_def Let_def)

lemma rt_tick_started [simp]: "rt_tick (started t tm s) = rt_tick s"
  by (simp add: started_def Let_def)

lemma rem_started: "tm_init_tick tm < half_tick \<Longrightarrow>
  tm_rem (started t tm s) x = (if x = t then unat (tm_init_tick tm) + 1 else tm_rem s x)"
proof -
  assume "tm_init_tick tm < half_tick"
  from unat_tick_plus1 [OF this] show ?thesis
    by (simp only: tm_rem_def timeout_started rt_tick_started split: if_split) (simp add: algebra_simps)
qed

text \<open>A started timer goes behind the timers that time out no later, in front of the others.\<close>

lemma started_list:
  fixes t :: tmid
  assumes s: "timer_sorted s" and i: "tm_init_tick tm < half_tick"
  defines "r \<equiv> unat (tm_init_tick tm) + 1"
  defines "rest \<equiv> remove1 t (trow s TimerList)"
  assumes nt: "t \<notin> set rest"
  shows "trow (started t tm s) TimerList =
    takeWhile (\<lambda>x. tm_rem s x \<le> r) rest @ t # dropWhile (\<lambda>x. tm_rem s x \<le> r) rest"
proof -
  let ?tt = "\<lambda>x. if x = t then rt_tick s + tm_init_tick tm else timeout_of s x"
  let ?b = "rt_tick s - 1"
  have lt: "unat (tm_init_tick tm) < 0x7fffffff" using i by (simp add: word_less_nat_alt)
  have "rt_tick s + tm_init_tick tm - ?b = tm_init_tick tm + 1" by simp
  then have new: "unat (rt_tick s + tm_init_tick tm - ?b) = r"
    using unat_tick_plus1 [OF i] by (simp only: r_def)
  have sub: "set rest \<subseteq> set (trow s TimerList)" using set_remove1_subset by (simp add: rest_def)
  have rem: "unat (?tt x - ?b) = tm_rem s x" if "x \<in> set rest" for x
    using that nt by (auto simp: tm_rem_def)
  have "row_insert ?tt t (rt_tick s + tm_init_tick tm) rest =
      takeWhile (\<lambda>x. unat (?tt x - ?b) \<le> unat (rt_tick s + tm_init_tick tm - ?b)) rest @ t #
      dropWhile (\<lambda>x. unat (?tt x - ?b) \<le> unat (rt_tick s + tm_init_tick tm - ?b)) rest"
    using s sub rem new lt by (intro row_insert_split) (auto simp: timer_sorted_def r_def)
  also have "\<dots> = takeWhile (\<lambda>x. tm_rem s x \<le> r) rest @ t # dropWhile (\<lambda>x. tm_rem s x \<le> r) rest"
    using rem unfolding new
    by (intro arg_cong2 [where f = "(@)"] arg_cong2 [where f = Cons] takeWhile_cong dropWhile_cong) auto
  finally show ?thesis by (simp add: started_def Let_def rest_def)
qed

lemma started_inv:
  assumes inv: "timer_inv s" and t: "timers s t = Some tm"
  shows "timer_inv (started t tm s)"
proof -
  have ok: "timer_ok s" and so: "timer_sorted s" using inv by (simp_all add: timer_inv_def)
  have i: "tm_init_tick tm < half_tick" using timer_okD(4) [OF ok t] .
  let ?r = "unat (tm_init_tick tm) + 1" and ?rest = "remove1 t (trow s TimerList)"
  let ?f = "tm_rem (started t tm s)"
  have nt: "t \<notin> set ?rest" using tbl_wfD [OF timer_okD(1) [OF ok], of TimerList] by simp
  have sub: "set ?rest \<subseteq> set (trow s TimerList)" by (rule set_remove1_subset)
  have f: "?f t = ?r" "\<And>x. x \<in> set ?rest \<Longrightarrow> ?f x = tm_rem s x"
    using rem_started [OF i, of t s] nt by auto
  have l: "trow (started t tm s) TimerList =
      takeWhile (\<lambda>x. ?f x \<le> ?f t) ?rest @ t # dropWhile (\<lambda>x. ?f x \<le> ?f t) ?rest"
    unfolding started_list [OF so i nt] f(1) using f(2)
    by (intro arg_cong2 [where f = "(@)"] arg_cong2 [where f = Cons] takeWhile_cong dropWhile_cong) auto
  have m: "map ?f ?rest = map (tm_rem s) ?rest" using f(2) by (intro map_cong) auto
  have "sorted (map ?f ?rest)"
    using so sorted_map_remove1 [of "tm_rem s" "trow s TimerList" t] unfolding m by (simp add: timer_sorted_def)
  then have "sorted (map ?f (trow (started t tm s) TimerList))"
    unfolding l by (rule sorted_insert_split)
  moreover have "set (trow (started t tm s) TimerList) = insert t (set ?rest)"
    by (simp add: started_def Let_def set_row_insert)
  moreover have "?r \<le> 0x7fffffff" using i by (simp add: word_less_nat_alt)
  ultimately have "timer_sorted (started t tm s)"
    using so sub f by (auto simp: timer_sorted_def)
  then show ?thesis using started_ok [OF ok t] by (simp add: timer_inv_def)
qed

section \<open>The other operations keep the invariant\<close>

definition stopped :: "tmid \<Rightarrow> 'z timer_sys_scheme \<Rightarrow> 'z timer_sys_scheme" where
  "stopped t s = upd_timer t tm_deactivate (timer_remove t s)"

lemma sorted_subset:
  assumes "timer_sorted s" and "rt_tick s' = rt_tick s" and "trow s' TimerList = remove1 t (trow s TimerList)"
    and "\<And>x. x \<in> set (trow s' TimerList) \<Longrightarrow> timeout_of s' x = timeout_of s x"
  shows "timer_sorted s'"
proof -
  have r: "tm_rem s' x = tm_rem s x" if "x \<in> set (trow s' TimerList)" for x
    using assms(2,4) that by (simp add: tm_rem_def)
  have m: "map (tm_rem s') (trow s' TimerList) = map (tm_rem s) (trow s' TimerList)"
    using r by (intro map_cong) auto
  have "sorted (map (tm_rem s') (trow s' TimerList))"
    using assms(1) sorted_map_remove1 [of "tm_rem s" "trow s TimerList" t]
    unfolding m unfolding assms(3) by (simp add: timer_sorted_def)
  then show ?thesis
    using assms(1,3) r by (auto simp: timer_sorted_def dest: notin_set_remove1)
qed

lemma timeout_stopped [simp]: "timeout_of (stopped t s) x = timeout_of s x"
  by (cases "timers s t") (simp_all add: timeout_of_def stopped_def)

lemma stopped_sel [simp]:
  "trow (stopped t s) = tbl_remove t (trow s)" "rt_tick (stopped t s) = rt_tick s"
  "timers (stopped t s) = (timers s)(t := map_option tm_deactivate (timers s t))"
  "timer_sys.more (stopped t s) = timer_sys.more s"
  by (simp_all add: stopped_def)

lemma stopped_inv: "timer_inv s \<Longrightarrow> timer_inv (stopped t s)"
proof -
  assume inv: "timer_inv s"
  then have ok: "timer_ok s" by (simp add: timer_inv_def)
  note wf = timer_okD(1) [OF ok]
  have "timer_ok (stopped t s)"
    using ok wf unfolding timer_ok_def by (auto simp: tbl_remove_set linked_remove split: if_splits)
  moreover have "timer_sorted (stopped t s)"
    by (rule sorted_subset [of s _ t]) (use inv in \<open>auto simp: timer_inv_def tbl_remove_def\<close>)
  ultimately show ?thesis by (simp add: timer_inv_def)
qed

lemma inv_not_listed: "timer_inv s \<Longrightarrow> timers s t = None \<Longrightarrow> \<not> linked t (trow s)"
  by (auto simp: timer_inv_def timer_ok_def linked_tlhead)

lemma removed_inv:
  assumes "timer_inv s"
  shows "timer_inv (stopped t s\<lparr>timers := (timers s)(t := None)\<rparr>)"
proof -
  have inv: "timer_inv (stopped t s)" by (rule stopped_inv [OF assms])
  have nl: "\<not> linked t (trow (stopped t s))"
    using assms by (simp add: not_linked_remove timer_inv_def timer_ok_def)
  then have "timer_ok (stopped t s\<lparr>timers := (timers s)(t := None)\<rparr>)"
    using inv unfolding timer_inv_def timer_ok_def linked_tlhead by (auto split: if_splits)
  moreover have "timer_sorted (stopped t s\<lparr>timers := (timers s)(t := None)\<rparr>)"
    by (rule sorted_subset [of "stopped t s" _ t])
      (use inv nl in \<open>auto simp: timer_inv_def timeout_of_def linked_tlhead remove1_idem\<close>)
  ultimately show ?thesis by (simp add: timer_inv_def)
qed

text \<open>A change of an object that keeps its timeout and its activation keeps the invariant.\<close>

lemma upd_timer_inv:
  assumes inv: "timer_inv s"
    and f: "\<And>tm. timers s t = Some tm \<Longrightarrow> timeout_tick (f tm) = timeout_tick tm \<and>
      tm_active (f tm) = tm_active tm \<and> tm_init_tick (f tm) < half_tick"
  shows "timer_inv (upd_timer t f s)"
proof -
  have "timer_ok (upd_timer t f s)"
    using inv f unfolding timer_inv_def timer_ok_def by (auto split: if_splits)
  moreover have "timeout_of (upd_timer t f s) x = timeout_of s x" for x
    using f by (cases "timers s t") (simp_all add: timeout_of_def)
  then have "tm_rem (upd_timer t f s) = tm_rem s" by (simp add: tm_rem_def fun_eq_iff)
  then have "timer_sorted (upd_timer t f s)"
    using inv by (simp add: timer_inv_def timer_sorted_def)
  ultimately show ?thesis by (simp add: timer_inv_def)
qed

lemma new_timer_inv:
  assumes inv: "timer_inv s" and t: "timers s t = None" and i: "time < half_tick"
  shows "timer_inv (s\<lparr>timers := (timers s)(t \<mapsto> timer_init_rec b f time flag)\<rparr>)"
proof -
  let ?s = "s\<lparr>timers := (timers s)(t \<mapsto> timer_init_rec b f time flag)\<rparr>"
  have nl: "\<not> linked t (trow s)" by (rule inv_not_listed [OF inv t])
  have na: "\<not> tm_active (timer_init_rec b f time flag)"
    using flag_bits(1) [of flag] unfolding tm_active_def timer_init_rec_def RT_TIMER_FLAG_ACTIVATED_def
    by (simp only: rt_timer.simps simp_thms)
  have "timer_ok ?s"
    using inv nl na i unfolding timer_inv_def timer_ok_def linked_tlhead
    by (auto simp: timer_init_rec_def split: if_splits)
  moreover have "timer_sorted ?s"
    by (rule sorted_subset [of s _ t])
      (use inv nl in \<open>auto simp: timer_inv_def timeout_of_def linked_tlhead remove1_idem\<close>)
  ultimately show ?thesis by (simp add: timer_inv_def)
qed

lemma tick_inv:
  assumes "timer_inv s" and "timer_fresh s"
  shows "timer_inv (s\<lparr>rt_tick := rt_tick s + 1\<rparr>)"
proof -
  let ?s = "s\<lparr>rt_tick := rt_tick s + 1\<rparr>"
  have r: "tm_rem ?s x = tm_rem s x - 1" if "x \<in> set (trow s TimerList)" for x
  proof -
    let ?d = "timeout_of s x - (rt_tick s - 1)"
    have "0 < unat ?d" using assms(2) that by (auto simp: timer_fresh_def tm_rem_def)
    then have "unat (?d - 1) = unat ?d - 1" using unat_diff32 [of ?d 1] by (simp only: unat_1 split: if_splits) simp
    moreover have "timeout_of s x - (rt_tick s + 1 - 1) = ?d - 1" by simp
    moreover have "timeout_of ?s x = timeout_of s x" by (simp add: timeout_of_def)
    moreover have "rt_tick ?s = rt_tick s + 1" by simp
    ultimately show ?thesis by (simp only: tm_rem_def)
  qed
  have m: "map (tm_rem ?s) (trow s TimerList) = map (\<lambda>x. tm_rem s x - 1) (trow s TimerList)"
    using r by (intro map_cong) auto
  have "sorted (map (\<lambda>x. tm_rem s x - 1) xs)" if "sorted (map (tm_rem s) xs)" for xs
    using that by (induction xs) (auto intro: diff_le_mono)
  then have "sorted (map (tm_rem ?s) (trow s TimerList))"
    using assms(1) unfolding m by (simp add: timer_inv_def timer_sorted_def)
  moreover have "timer_ok ?s" using assms(1) by (simp add: timer_inv_def timer_ok_def)
  ultimately show ?thesis
    using assms(1) r by (auto simp: timer_inv_def timer_sorted_def intro: order_trans [OF diff_le_self])
qed

section \<open>The timer check\<close>

definition tm_due :: "'z timer_sys_scheme \<Rightarrow> tmid list" where
  "tm_due s = filter (\<lambda>t. tm_rem s t \<le> 1) (trow s TimerList)"

text \<open>What a due timer becomes: a periodic one is restarted, a one-shot one is deactivated.\<close>

definition after_due :: "tick \<Rightarrow> rt_timer \<Rightarrow> rt_timer" where
  "after_due now tm =
    (if tm_periodic tm then tm_activate ((tm_deactivate tm)\<lparr>timeout_tick := now + tm_init_tick tm\<rparr>)
     else tm_deactivate tm)"

text \<open>
  Callbacks that do not call the timer functions act on the rest of the state only; \<open>run_callbacks\<close>
  is their sequence.
\<close>

definition fire_rest :: "(timeout_fn \<Rightarrow> 'z \<Rightarrow> 'z option) \<Rightarrow> timeout_fn \<Rightarrow>
    'z timer_sys_scheme \<Rightarrow> 'z timer_sys_scheme option" where
  "fire_rest g f s = map_option (\<lambda>m. timer_sys.more_update (\<lambda>_. m) s) (g f (timer_sys.more s))"

fun run_callbacks :: "(timeout_fn \<Rightarrow> 'z \<Rightarrow> 'z option) \<Rightarrow> timeout_fn list \<Rightarrow> 'z \<Rightarrow> 'z option" where
  "run_callbacks g [] m = Some m"
| "run_callbacks g (f # fs) m = g f m \<bind> run_callbacks g fs"

lemma expired_iff:
  assumes "timer_sorted s" and "t \<in> set (trow s TimerList)"
  shows "tm_expired (rt_tick s) (timeout_of s t) \<longleftrightarrow> tm_rem s t \<le> 1"
proof -
  let ?r = "timeout_of s t - (rt_tick s - 1)"
  have le: "unat ?r \<le> 0x7fffffff" using assms by (auto simp: timer_sorted_def tm_rem_def)
  have "rt_tick s - timeout_of s t = 1 - ?r" by simp
  then have "tm_expired (rt_tick s) (timeout_of s t) \<longleftrightarrow> unat (1 - ?r) < 0x7fffffff"
    by (simp only: tm_expired_def) (simp add: word_less_nat_alt)
  then show ?thesis using le unat_diff32 [of 1 ?r] by (auto simp: tm_rem_def split: if_splits)
qed

lemma deactivate_idem [simp]: "tm_deactivate (tm_deactivate tm) = tm_deactivate tm"
  by (simp add: tm_deactivate_def and.assoc)

lemma more_upd_sel [simp]:
  "trow (timer_sys.more_update h s) = trow s" "timers (timer_sys.more_update h s) = timers s"
  "rt_tick (timer_sys.more_update h s) = rt_tick s" "random_nr (timer_sys.more_update h s) = random_nr s"
  by (cases s, simp)+

lemma timeout_more_upd [simp]: "timeout_of (timer_sys.more_update h s) = timeout_of s"
  by (simp add: timeout_of_def fun_eq_iff)

lemma check_body_eq:
  assumes inv: "timer_inv s" and E: "trow s ExpiredList = []" and T: "trow s TimerList = t # rest"
    and t: "timers s t = Some tm"
  shows "check_body (fire_rest g) t s =
    map_option (\<lambda>m. timer_sys.more_update (\<lambda>_. m) (if tm_periodic tm then started t tm s else stopped t s))
      (g (timeout_func tm) (timer_sys.more s))"
proof -
  have wf: "tbl_wf (trow s)" and act: "tm_active tm"
    using inv t T by (auto simp: timer_inv_def timer_ok_def)
  have nt: "t \<notin> set rest" using tbl_wfD [OF wf, of TimerList] T by simp
  have rE: "tbl_remove t (trow s) ExpiredList = []" by (simp add: tbl_remove_def E)
  let ?s1 = "(if tm_periodic tm then timer_remove t s else stopped t s)
      \<lparr>trow := (tbl_remove t (trow s))(ExpiredList := [t])\<rparr>"
  have b: "check_body (fire_rest g) t s = do {
      s \<leftarrow> fire_rest g (timeout_func tm) ?s1;
      (if trow s ExpiredList = [] then Some s
       else do {
         let s = timer_remove t s;
         tm' \<leftarrow> timers s t;
         (if tm_periodic tm' \<and> tm_active tm'
          then map_option snd (rt_timer_start t (upd_timer t tm_deactivate s))
          else Some s) }) }"
    using t rE by (simp add: check_body_def Let_def stopped_def)
  show ?thesis
  proof (cases "g (timeout_func tm) (timer_sys.more s)")
    case None
    then show ?thesis unfolding b by (simp add: fire_rest_def stopped_def)
  next
    case (Some m)
    let ?s2 = "timer_sys.more_update (\<lambda>_. m) ?s1"
    have f: "fire_rest g (timeout_func tm) ?s1 = Some ?s2" using Some by (simp add: fire_rest_def stopped_def)
    have rm: "tbl_remove t ((tbl_remove t (trow s))(ExpiredList := [t])) = tbl_remove t (trow s)"
    proof
      show "tbl_remove t ((tbl_remove t (trow s))(ExpiredList := [t])) l = tbl_remove t (trow s) l" for l
        by (cases l) (simp_all add: tbl_remove_def E T remove1_idem nt)
    qed
    show ?thesis
    proof (cases "tm_periodic tm")
      case True
      let ?s3 = "upd_timer t tm_deactivate (timer_remove t ?s2)"
      have t3: "timers ?s3 t = Some (tm_deactivate tm)" using t True by simp
      have L3: "trow ?s3 = tbl_remove t (trow s)" using rm by simp
      have tt: "timeout_of ?s3 = timeout_of s" using True by (auto simp: timeout_of_def fun_eq_iff split: option.splits)
      have nw: "rt_tick ?s3 + tm_init_tick (tm_deactivate tm) = rt_tick s + tm_init_tick tm"
        using True by simp
      have "started t (tm_deactivate tm) ?s3 = timer_sys.more_update (\<lambda>_. m) (started t tm s)"
      proof (rule timer_sys.equality)
        have "tbl_remove t (tbl_remove t (trow s)) = tbl_remove t (trow s)"
          by (rule tbl_remove_unlinked) (rule not_linked_remove [OF wf])
        then show "trow (started t (tm_deactivate tm) ?s3) = trow (timer_sys.more_update (\<lambda>_. m) (started t tm s))"
          unfolding started_def Let_def tt L3 nw using True T nt by (simp add: tbl_remove_def remove1_idem)
      qed (use True in \<open>simp_all add: started_def Let_def\<close>)
      then show ?thesis
        unfolding b f using True t act start_eq [OF t3] Some by (simp add: Let_def)
    next
      case False
      have "timer_remove t ?s2 = timer_sys.more_update (\<lambda>_. m) (stopped t s)"
        by (rule timer_sys.equality) (use rm False in simp_all)
      then show ?thesis
        unfolding b f using t Some False by (simp add: Let_def)
    qed
  qed
qed

lemma inv_more_upd [simp]:
  "timer_inv (timer_sys.more_update h s) = timer_inv s" "tm_due (timer_sys.more_update h s) = tm_due s"
  by (simp_all add: timer_inv_def timer_ok_def timer_sorted_def tm_rem_def tm_due_def cong: map_cong)

lemma due_mem: "t \<in> set (tm_due s) \<Longrightarrow> t \<in> set (trow s TimerList) \<and> tm_rem s t \<le> 1"
  by (simp add: tm_due_def)

lemma due_Cons:
  assumes "tm_due s = t # E" and "trow s TimerList = t # rest"
  shows "tm_rem s t \<le> 1 \<and> E = filter (\<lambda>x. tm_rem s x \<le> 1) rest"
proof -
  have "tm_rem s t \<le> 1" using due_mem [of t s] assms(1) by simp
  then show ?thesis using assms by (simp add: tm_due_def)
qed

lemma due_head:
  assumes "timer_sorted s"
  shows "tm_due s = t # E \<Longrightarrow> \<exists>rest. trow s TimerList = t # rest"
    and "tm_due s = [] \<Longrightarrow> trow s TimerList = x # rest \<Longrightarrow> \<not> tm_rem s x \<le> 1"
proof -
  show "tm_due s = t # E \<Longrightarrow> \<exists>rest. trow s TimerList = t # rest"
  proof (cases "trow s TimerList")
    case (Cons x xs)
    assume d: "tm_due s = t # E"
    then have "t \<in> set (x # xs)" "tm_rem s t \<le> 1" using Cons due_mem [of t s] by auto
    then have "tm_rem s x \<le> 1" using assms Cons by (auto simp: timer_sorted_def)
    then show ?thesis using d Cons by (simp add: tm_due_def)
  qed (simp add: tm_due_def)
  show "tm_due s = [] \<Longrightarrow> trow s TimerList = x # rest \<Longrightarrow> \<not> tm_rem s x \<le> 1"
    by (auto simp: tm_due_def split: if_splits)
qed

lemma filter_split_while: "filter P (takeWhile Q xs) @ filter P (dropWhile Q xs) = filter P xs"
  by (metis filter_append takeWhile_dropWhile_id)

lemma due_started:
  assumes inv: "timer_inv s" and T: "trow s TimerList = t # rest" and t: "timers s t = Some tm"
    and i: "tm_init_tick tm \<noteq> 0" and d: "tm_due s = t # E"
  shows "tm_due (started t tm s) = E"
proof -
  have so: "timer_sorted s" and ok: "timer_ok s" using inv by (simp_all add: timer_inv_def)
  have nt: "t \<notin> set rest" using tbl_wfD [OF timer_okD(1) [OF ok], of TimerList] T by simp
  note half = timer_okD(4) [OF ok t]
  have "unat (tm_init_tick tm) \<noteq> 0" using i by (simp add: unat_eq_0)
  then have rt: "\<not> tm_rem (started t tm s) t \<le> 1" by (simp add: rem_started [OF half])
  have r: "tm_rem (started t tm s) x = tm_rem s x" if "x \<in> set rest" for x
    using that nt rem_started [OF half, of t s x] by auto
  have "tm_due (started t tm s) = filter (\<lambda>x. tm_rem (started t tm s) x \<le> 1) rest"
    using rt nt started_list [OF so half, of t] unfolding tm_due_def
    by (simp add: T filter_split_while)
  also have "\<dots> = filter (\<lambda>x. tm_rem s x \<le> 1) rest" using r by (intro filter_cong) auto
  also have "\<dots> = E" using due_Cons [OF d T] by simp
  finally show ?thesis .
qed

lemma due_stopped:
  assumes T: "trow s TimerList = t # rest" and d: "tm_due s = t # E"
  shows "tm_due (stopped t s) = E"
  using due_Cons [OF d T] by (simp add: tm_due_def tbl_remove_def tm_rem_def T)

text \<open>
  One round of \<open>rt_timer_check\<close>: every due timer's callback runs once, in timeout order; one-shot
  timers end up deactivated, periodic ones restarted; nothing that is due is left.
\<close>

lemma timer_check_loop_ok:
  assumes "timer_inv s" and "trow s ExpiredList = []" and "length (tm_due s) < n"
    and "\<forall>t \<in> set (tm_due s). \<forall>tm. timers s t = Some tm \<longrightarrow> tm_periodic tm \<longrightarrow> tm_init_tick tm \<noteq> 0"
    and "run_callbacks g (map (\<lambda>t. timeout_func (the (timers s t))) (tm_due s)) (timer_sys.more s) = Some m"
  shows "\<exists>s'. timer_check_loop (fire_rest g) n (rt_tick s) s = Done s' \<and> timer_inv s' \<and>
    trow s' ExpiredList = [] \<and> rt_tick s' = rt_tick s \<and> timer_sys.more s' = m \<and> tm_due s' = [] \<and>
    (\<forall>x. timers s' x = (if x \<in> set (tm_due s) then map_option (after_due (rt_tick s)) (timers s x) else timers s x))"
  using assms
proof (induction n arbitrary: s)
  case (Suc n)
  have so: "timer_sorted s" using Suc.prems(1) by (simp add: timer_inv_def)
  show ?case
  proof (cases "tm_due s")
    case Nil
    then have "timer_check_loop (fire_rest g) (Suc n) (rt_tick s) s = Done s"
      using due_head(2) [OF so Nil] expired_iff [OF so] by (auto split: list.split)
    then show ?thesis using Suc.prems Nil by simp
  next
    case (Cons t E)
    obtain rest where T: "trow s TimerList = t # rest" using due_head(1) [OF so Cons] by blast
    obtain tm where t: "timers s t = Some tm"
      using Suc.prems(1) T by (fastforce simp: timer_inv_def timer_ok_def)
    have ex: "tm_expired (rt_tick s) (timeout_of s t)"
      using expired_iff [OF so, of t] T due_Cons [OF Cons T] by simp
    obtain m1 where m1: "g (timeout_func tm) (timer_sys.more s) = Some m1"
      "run_callbacks g (map (\<lambda>t. timeout_func (the (timers s t))) E) m1 = Some m"
      using Suc.prems(5) t unfolding Cons by (auto elim: bind_SomeE)
    let ?s1 = "timer_sys.more_update (\<lambda>_. m1) (if tm_periodic tm then started t tm s else stopped t s)"
    have body: "check_body (fire_rest g) t s = Some ?s1"
      using check_body_eq [OF Suc.prems(1,2) T t, of g] m1 by simp
    have tms: "timers ?s1 = (timers s)(t \<mapsto> after_due (rt_tick s) tm)"
      using t by (simp add: after_due_def started_def Let_def)
    have due: "tm_due ?s1 = E"
      using due_started [OF Suc.prems(1) T t _ Cons] due_stopped [OF T Cons] Suc.prems(4) t Cons by simp
    have nt: "t \<notin> set E" using tbl_wfD [of "trow s" TimerList] Suc.prems(1) T due_Cons [OF Cons T]
      by (auto simp: timer_inv_def timer_ok_def)
    have inv1: "timer_inv ?s1" using started_inv [OF Suc.prems(1) t] stopped_inv [OF Suc.prems(1)] by simp
    have E1: "trow ?s1 ExpiredList = []" using Suc.prems(2) by (simp add: started_def Let_def tbl_remove_def)
    have tk: "rt_tick ?s1 = rt_tick s" by simp
    have mp: "map (\<lambda>t. timeout_func (the (timers ?s1 t))) E = map (\<lambda>t. timeout_func (the (timers s t))) E"
      using tms nt by (intro map_cong) auto
    have "\<exists>s'. timer_check_loop (fire_rest g) n (rt_tick ?s1) ?s1 = Done s' \<and> timer_inv s' \<and>
      trow s' ExpiredList = [] \<and> rt_tick s' = rt_tick ?s1 \<and> timer_sys.more s' = m \<and> tm_due s' = [] \<and>
      (\<forall>x. timers s' x = (if x \<in> set (tm_due ?s1) then map_option (after_due (rt_tick ?s1)) (timers ?s1 x) else timers ?s1 x))"
    proof (rule Suc.IH [OF inv1 E1])
      show "length (tm_due ?s1) < n" using Suc.prems(3) due Cons by simp
      show "\<forall>x \<in> set (tm_due ?s1). \<forall>tm'. timers ?s1 x = Some tm' \<longrightarrow> tm_periodic tm' \<longrightarrow> tm_init_tick tm' \<noteq> 0"
        using Suc.prems(4) nt Cons unfolding due tms by auto
      show "run_callbacks g (map (\<lambda>t. timeout_func (the (timers ?s1 t))) (tm_due ?s1)) (timer_sys.more ?s1) = Some m"
        unfolding due mp using m1(2) by (cases s) simp
    qed
    then show ?thesis
      using ex body T t nt unfolding due tms tk Cons rt_tick_get_def by (auto simp: rt_tick_get_def)
  qed
qed simp

section \<open>Timer operations as steps\<close>

text \<open>
  The calls of the timer module. The one that is left out makes a periodic timer one-shot while its own callback
  runs, that is while it is in the local list of \<open>rt_timer_check\<close> (see \<open>oneshot_in_callback\<close>).
\<close>

inductive timer_call :: "'z timer_sys_scheme \<Rightarrow> 'z timer_sys_scheme \<Rightarrow> bool" where
  init: "rt_timer_init t f time flag s = Some s' \<Longrightarrow> timer_call s s'"
| create: "timers s t = None \<Longrightarrow> rt_timer_create (Some t) f time flag s = Some (r, s') \<Longrightarrow> timer_call s s'"
| start: "rt_timer_start t s = Some (e, s') \<Longrightarrow> timer_call s s'"
| stop: "rt_timer_stop t s = Some (e, s') \<Longrightarrow> timer_call s s'"
| detach: "rt_timer_detach t s = Some (e, s') \<Longrightarrow> timer_call s s'"
| delete: "rt_timer_delete t s = Some (e, s') \<Longrightarrow> timer_call s s'"
| control: "rt_timer_control t cmd arg s = Some (e, v, s') \<Longrightarrow>
    cmd = RT_TIMER_CTRL_SET_ONESHOT \<longrightarrow> t \<notin> set (trow s ExpiredList) \<Longrightarrow> timer_call s s'"

inductive_cases timer_callE: "timer_call s s'"

text \<open>What a callback may do: any number of calls of the timer module, also on its own timer, and anything to the rest of the state.\<close>

inductive callback_step :: "'z timer_sys_scheme \<Rightarrow> 'z timer_sys_scheme \<Rightarrow> bool" where
  call: "timer_call s s' \<Longrightarrow> callback_step s s'"
| rest: "callback_step s (timer_sys.more_update h s)"

inductive_cases callback_stepE: "callback_step s s'"

text \<open>A step of the timer module: a call, or the tick interrupt, which advances the tick and runs \<open>rt_timer_check\<close> until it returns.\<close>

inductive timer_step :: "(timeout_fn \<Rightarrow> 'z timer_sys_scheme \<Rightarrow> 'z timer_sys_scheme option) \<Rightarrow>
    'z timer_sys_scheme \<Rightarrow> 'z timer_sys_scheme \<Rightarrow> bool" for fire where
  call: "timer_call s s' \<Longrightarrow> timer_step fire s s'"
| tick: "rt_timer_check fire n (s\<lparr>rt_tick := rt_tick s + 1\<rparr>) = Done s' \<Longrightarrow> timer_step fire s s'"

inductive_cases timer_stepE: "timer_step fire s s'"

definition timer_quiet :: "'z timer_sys_scheme \<Rightarrow> bool" where
  "timer_quiet s \<longleftrightarrow> timer_inv s \<and> timer_fresh s \<and> trow s ExpiredList = []"

lemma due_fresh: "tm_due s = [] \<Longrightarrow> timer_fresh s"
  by (force simp: tm_due_def timer_fresh_def filter_empty_conv)

lemma started_fresh:
  assumes "timer_inv s" and "timer_fresh s" and "timers s t = Some tm"
  shows "timer_fresh (started t tm s)"
proof -
  have "tm_init_tick tm < half_tick" using assms(1,3) by (auto simp: timer_inv_def timer_ok_def)
  from rem_started [OF this, of t s] show ?thesis
    using assms(2) unfolding timer_fresh_def
    by (auto simp: started_def Let_def set_row_insert dest: notin_set_remove1)
qed

lemma fresh_subset:
  assumes "timer_fresh s" and "rt_tick s' = rt_tick s" and "set (trow s' TimerList) \<subseteq> set (trow s TimerList)"
    and "\<And>x. x \<in> set (trow s' TimerList) \<Longrightarrow> timeout_of s' x = timeout_of s x"
  shows "timer_fresh s'"
  using assms unfolding timer_fresh_def tm_rem_def by auto

lemma quiet_started: "timer_quiet s \<Longrightarrow> timers s t = Some tm \<Longrightarrow> timer_quiet (started t tm s)"
  unfolding timer_quiet_def using started_inv [of s t tm] started_fresh [of s t tm]
  by (auto simp: started_def Let_def tbl_remove_def)

lemma quiet_stopped: "timer_quiet s \<Longrightarrow> timer_quiet (stopped t s)"
  unfolding timer_quiet_def using stopped_inv [of s t] fresh_subset [of s "stopped t s"]
    set_remove1_subset [of t "trow s TimerList"]
  by (auto simp: tbl_remove_def)

lemma quiet_removed: "timer_quiet s \<Longrightarrow> timer_quiet (stopped t s\<lparr>timers := (timers s)(t := None)\<rparr>)"
proof -
  assume q: "timer_quiet s"
  then have wf: "tbl_wf (trow s)" by (simp add: timer_quiet_def timer_inv_def timer_ok_def)
  show ?thesis
    using q removed_inv [of s t] fresh_subset [of s "stopped t s\<lparr>timers := (timers s)(t := None)\<rparr>"]
      tbl_remove_set [OF wf]
    unfolding timer_quiet_def by (auto simp: timeout_of_def tbl_remove_def tbl_wfD [OF wf])
qed

lemma quiet_new:
  assumes q: "timer_quiet s" and t: "timers s t = None" and i: "time < half_tick"
  shows "timer_quiet (s\<lparr>timers := (timers s)(t \<mapsto> timer_init_rec b f time flag)\<rparr>)"
proof -
  have nl: "\<not> linked t (trow s)" using q t inv_not_listed [of s t] by (simp add: timer_quiet_def)
  have "timer_fresh (s\<lparr>timers := (timers s)(t \<mapsto> timer_init_rec b f time flag)\<rparr>)"
    by (rule fresh_subset [of s]) (use q nl in \<open>auto simp: timer_quiet_def timeout_of_def linked_tlhead\<close>)
  then show ?thesis
    using q new_timer_inv [OF _ t i] by (simp add: timer_quiet_def)
qed

lemma quiet_upd:
  assumes q: "timer_quiet s"
    and f: "\<And>tm. timers s t = Some tm \<Longrightarrow> timeout_tick (f tm) = timeout_tick tm \<and>
      tm_active (f tm) = tm_active tm \<and> tm_init_tick (f tm) < half_tick"
  shows "timer_quiet (upd_timer t f s)"
proof -
  have "timeout_of (upd_timer t f s) x = timeout_of s x" for x
    using f by (cases "timers s t") (simp_all add: timeout_of_def)
  then show ?thesis
    using q upd_timer_inv [OF _ f] fresh_subset [of s "upd_timer t f s"] unfolding timer_quiet_def by auto
qed

lemma periodic_flag: "(f OR 2) AND 1 = f AND (1 :: u8)" "(f AND NOT 2) AND 1 = f AND (1 :: u8)"
  "(f AND - 3) AND 1 = f AND (1 :: u8)"
  by (simp_all add: bit.conj_disj_distrib2 and.assoc)

lemma init_tick_lt: "timer_inv s \<Longrightarrow> timers s t = Some tm \<Longrightarrow> tm_init_tick tm < half_tick"
  by (auto simp: timer_inv_def timer_ok_def)

text \<open>What a call comes down to.\<close>

lemma timer_call_cases [consumes 1, case_names new started stopped removed control same]:
  assumes "timer_call s s'"
  obtains t b f time flag where "timers s t = None" "time < half_tick"
      "s' = s\<lparr>timers := (timers s)(t \<mapsto> timer_init_rec b f time flag)\<rparr>"
    | t tm where "timers s t = Some tm" "s' = started t tm s"
    | t where "s' = stopped t s"
    | t where "s' = stopped t s\<lparr>timers := (timers s)(t := None)\<rparr>"
    | t tm h where "timers s t = Some tm" "s' = upd_timer t h s" "timeout_tick (h tm) = timeout_tick tm"
        "tm_active (h tm) = tm_active tm" "tm_init_tick tm < half_tick \<Longrightarrow> tm_init_tick (h tm) < half_tick"
        "t \<in> set (trow s ExpiredList) \<Longrightarrow> tm_periodic tm \<Longrightarrow> tm_periodic (h tm)"
    | "s' = s"
  using assms
proof (rule timer_callE)
  { fix t f time flag assume "rt_timer_init t f time flag s = Some s'"
    then show thesis using that(1) by (auto simp: rt_timer_init_def elim!: bind_SomeE) }
  { fix t f time flag r assume "timers s t = None" "rt_timer_create (Some t) f time flag s = Some (r, s')"
    then show thesis using that(1) by (auto simp: rt_timer_create_def elim!: bind_SomeE) }
  { fix t e assume st: "rt_timer_start t s = Some (e, s')"
    then obtain tm where t: "timers s t = Some tm" by (auto simp: rt_timer_start_def elim!: bind_SomeE)
    then show thesis using that(2) start_eq [OF t] st by auto }
  { fix t e assume "rt_timer_stop t s = Some (e, s')"
    then show thesis using that(3,6) by (auto simp: rt_timer_stop_def stopped_def elim!: bind_SomeE split: if_splits) }
  { fix t e assume "rt_timer_detach t s = Some (e, s')"
    then show thesis using that(4) by (auto simp: rt_timer_detach_def stopped_def Let_def elim!: bind_SomeE) }
  { fix t e assume "rt_timer_delete t s = Some (e, s')"
    then show thesis using that(4) by (auto simp: rt_timer_delete_def stopped_def Let_def elim!: bind_SomeE) }
  { fix t cmd arg e v
    assume c: "rt_timer_control t cmd arg s = Some (e, v, s')" and x: "cmd = RT_TIMER_CTRL_SET_ONESHOT \<longrightarrow> t \<notin> set (trow s ExpiredList)"
    then obtain tm where t: "timers s t = Some tm" by (auto simp: rt_timer_control_def elim!: bind_SomeE)
    have a: "tm_active (tm\<lparr>tm_flag := tm_flag tm OR RT_TIMER_FLAG_PERIODIC\<rparr>) = tm_active tm"
      "tm_active (tm\<lparr>tm_flag := tm_flag tm AND NOT RT_TIMER_FLAG_PERIODIC\<rparr>) = tm_active tm"
      "tm_active (tm\<lparr>tm_init_tick := arg\<rparr>) = tm_active tm" "tm_periodic (tm\<lparr>tm_init_tick := arg\<rparr>) = tm_periodic tm"
      "tm_periodic (tm\<lparr>tm_flag := tm_flag tm OR RT_TIMER_FLAG_PERIODIC\<rparr>)"
      by (simp_all add: tm_active_def tm_periodic_def RT_TIMER_FLAG_PERIODIC_def RT_TIMER_FLAG_ACTIVATED_def periodic_flag
          bit.conj_disj_distrib2)
    show thesis
    proof (cases cmd)
      case RT_TIMER_CTRL_SET_TIME
      then have "arg < half_tick" "s' = upd_timer t (\<lambda>m. m\<lparr>tm_init_tick := arg\<rparr>) s"
        using c t by (auto simp: rt_timer_control_def elim!: bind_SomeE)
      then show thesis using that(5) [OF t, of "\<lambda>m. m\<lparr>tm_init_tick := arg\<rparr>"] a by simp
    next
      case RT_TIMER_CTRL_SET_ONESHOT
      then have "s' = upd_timer t (\<lambda>m. m\<lparr>tm_flag := tm_flag m AND NOT RT_TIMER_FLAG_PERIODIC\<rparr>) s"
        using c t by (simp add: rt_timer_control_def)
      then show thesis
        using RT_TIMER_CTRL_SET_ONESHOT x a that(5) [OF t, of "\<lambda>m. m\<lparr>tm_flag := tm_flag m AND NOT RT_TIMER_FLAG_PERIODIC\<rparr>"] by simp
    next
      case RT_TIMER_CTRL_SET_PERIODIC
      then have "s' = upd_timer t (\<lambda>m. m\<lparr>tm_flag := tm_flag m OR RT_TIMER_FLAG_PERIODIC\<rparr>) s"
        using c t by (simp add: rt_timer_control_def)
      then show thesis using a that(5) [OF t, of "\<lambda>m. m\<lparr>tm_flag := tm_flag m OR RT_TIMER_FLAG_PERIODIC\<rparr>"] by simp
    qed (use c t that(6) in \<open>simp_all add: rt_timer_control_def Let_def\<close>) }
qed

lemma timer_call_quiet:
  assumes "timer_call s s'" and q: "timer_quiet s"
  shows "timer_quiet s'"
  using assms(1)
proof (cases rule: timer_call_cases)
  case (control t tm h)
  have "timer_inv s" using q by (simp add: timer_quiet_def)
  from init_tick_lt [OF this control(1)] show ?thesis
    unfolding control(2) by (intro quiet_upd [OF q]) (use control in auto)
qed (use q in \<open>simp_all add: quiet_new quiet_started quiet_stopped quiet_removed\<close>)

text \<open>
  While a callback runs its timer \<open>t\<close> is alone in the local list, unless a call has taken it out; as long as it is there,
  it is activated only if it is periodic.
\<close>

definition firing :: "tmid \<Rightarrow> 'z timer_sys_scheme \<Rightarrow> bool" where
  "firing t s \<longleftrightarrow> timer_inv s \<and> (trow s ExpiredList = [] \<or>
     trow s ExpiredList = [t] \<and> (\<forall>tm. timers s t = Some tm \<longrightarrow> tm_active tm \<longrightarrow> tm_periodic tm))"

lemma deactivate_inactive: "\<not> tm_active tm \<Longrightarrow> tm_deactivate tm = tm"
proof -
  have "f AND NOT 1 = f" if "f AND 1 = 0" for f :: u8
  proof -
    have "f = (f AND 1) OR (f AND NOT 1)" by (simp add: bit.conj_disj_distrib [symmetric])
    then show ?thesis using that by simp
  qed
  then show "\<not> tm_active tm \<Longrightarrow> tm_deactivate tm = tm" by (simp add: tm_deactivate_def tm_active_def RT_TIMER_FLAG_ACTIVATED_def)
qed

lemma firing_start:
  assumes inv: "timer_inv s" and E: "trow s ExpiredList = []" and T: "trow s TimerList = t # rest" and t: "timers s t = Some tm"
  defines "s1 \<equiv> (if \<not> tm_periodic tm then upd_timer t tm_deactivate (timer_remove t s) else timer_remove t s)"
  shows "firing t (s1\<lparr>trow := (trow s1)(ExpiredList := t # trow s1 ExpiredList)\<rparr>)"
proof -
  let ?s = "s1\<lparr>trow := (trow s1)(ExpiredList := t # trow s1 ExpiredList)\<rparr>"
  have ok: "timer_ok s" using inv by (simp add: timer_inv_def)
  note wf = timer_okD(1) [OF ok]
  have nt: "t \<notin> set rest" using tbl_wfD [OF wf, of TimerList] T by simp
  have L: "trow ?s = (tbl_remove t (trow s))(ExpiredList := [t])" using E by (simp add: s1_def tbl_remove_def)
  have l: "trow ?s TimerList = rest" "trow ?s ExpiredList = [t]" unfolding L using T by (simp_all add: tbl_remove_def)
  have "tbl_wf (trow ?s)" unfolding L using tbl_remove_set [OF wf]
    by (intro tbl_wf_upd [OF tbl_wf_remove [OF wf]]) auto
  moreover have tms: "timers ?s = (timers s)(t \<mapsto> if tm_periodic tm then tm else tm_deactivate tm)" using t by (auto simp: s1_def)
  moreover have "linked x (trow ?s) \<longleftrightarrow> linked x (trow s)" for x by (simp only: linked_tlhead l) (auto simp: T E)
  ultimately have "timer_ok ?s" using ok t l nt T E unfolding timer_ok_def by (auto split: if_splits)
  moreover have "timer_sorted ?s"
  proof (rule sorted_subset [of s _ t])
    show "timer_sorted s" using inv by (simp add: timer_inv_def)
    show "trow ?s TimerList = remove1 t (trow s TimerList)" using l T by simp
    show "timeout_of ?s x = timeout_of s x" if "x \<in> set (trow ?s TimerList)" for x
      using that nt t unfolding l timeout_of_def tms by auto
  qed (simp add: s1_def)
  ultimately show ?thesis using l tms by (auto simp: firing_def timer_inv_def)
qed

lemma firing_call:
  assumes "timer_call s s'" and f: "firing t s"
  shows "firing t s' \<and> rt_tick s' = rt_tick s"
  using assms(1)
proof (cases rule: timer_call_cases)
  case (new x b g time flag)
  have "x \<noteq> t" if "trow s ExpiredList = [t]" using f new(1) that by (auto simp: firing_def timer_inv_def timer_ok_def)
  then show ?thesis using f new new_timer_inv [of s x time b g flag] by (auto simp: firing_def)
next
  case (started x tm)
  have "trow s' ExpiredList = remove1 x (trow s ExpiredList)" using started by (simp add: started_def Let_def tbl_remove_def)
  moreover have "timers s' y = timers s y" if "y \<noteq> x" for y using started that by (simp add: started_def Let_def)
  moreover have "timer_inv s'" using started started_inv [of s x tm] f by (simp add: firing_def)
  moreover have "rt_tick s' = rt_tick s" using started by simp
  ultimately show ?thesis using f by (cases "x = t") (auto simp: firing_def)
next
  case (stopped x)
  then show ?thesis using f stopped_inv [of s x] by (auto simp: firing_def tbl_remove_def)
next
  case (removed x)
  then show ?thesis using f removed_inv [of s x] by (auto simp: firing_def tbl_remove_def)
next
  case (control x tm h)
  then have "timer_inv s'" using f init_tick_lt [of s x tm] by (auto simp: firing_def intro!: upd_timer_inv)
  then show ?thesis using f control by (auto simp: firing_def)
qed (use f in simp)

lemma firing_callback: "callback_step\<^sup>*\<^sup>* s s' \<Longrightarrow> firing t s \<Longrightarrow> firing t s' \<and> rt_tick s' = rt_tick s"
proof (induction rule: rtranclp_induct)
  case (step s1 s2)
  from step.hyps(2) show ?case
  proof (rule callback_stepE)
    assume "timer_call s1 s2"
    from firing_call [OF this, of t] step.IH [OF step.prems] show ?thesis by simp
  next
    fix h assume "s2 = timer_sys.more_update h s1"
    then show ?thesis using step.IH [OF step.prems] by (simp add: firing_def)
  qed
qed simp

text \<open>The body of the loop, whatever the callback does.\<close>

lemma check_body_inv:
  assumes cb: "\<forall>f s s'. fire f s = Some s' \<longrightarrow> callback_step\<^sup>*\<^sup>* s s'"
    and inv: "timer_inv s" and E: "trow s ExpiredList = []" and T: "trow s TimerList = t # rest" and b: "check_body fire t s = Some s'"
  shows "timer_inv s' \<and> trow s' ExpiredList = [] \<and> rt_tick s' = rt_tick s"
proof -
  obtain tm where t: "timers s t = Some tm" using inv T by (fastforce simp: timer_inv_def timer_ok_def)
  define s1 where "s1 = (if \<not> tm_periodic tm then upd_timer t tm_deactivate (timer_remove t s) else timer_remove t s)"
  let ?s1 = "s1\<lparr>trow := (trow s1)(ExpiredList := t # trow s1 ExpiredList)\<rparr>"
  obtain s2 where f: "fire (timeout_func tm) ?s1 = Some s2"
    and e: "(if trow s2 ExpiredList = [] then Some s2
      else do {
        let s = timer_remove t s2;
        tm' \<leftarrow> timers s t;
        (if tm_periodic tm' \<and> tm_active tm' then map_option snd (rt_timer_start t (upd_timer t tm_deactivate s)) else Some s) }) = Some s'"
    using b t by (auto simp: check_body_def Let_def s1_def elim!: bind_SomeE)
  have fi: "firing t s2" and tk: "rt_tick s2 = rt_tick s"
    using firing_callback [OF cb [rule_format, OF f] firing_start [OF inv E T t, folded s1_def]] by (simp_all add: s1_def)
  show ?thesis
  proof (cases "trow s2 ExpiredList = []")
    case True
    then show ?thesis using e fi tk by (simp add: firing_def)
  next
    case False
    then have E2: "trow s2 ExpiredList = [t]" and i2: "timer_inv s2"
      and a2: "\<And>tm. timers s2 t = Some tm \<Longrightarrow> tm_active tm \<Longrightarrow> tm_periodic tm" using fi by (auto simp: firing_def)
    obtain tm' where t2: "timers s2 t = Some tm'" using i2 E2 by (fastforce simp: timer_inv_def timer_ok_def)
    have i3: "timer_inv (stopped t s2)" by (rule stopped_inv [OF i2])
    have E3: "trow (stopped t s2) ExpiredList = []" using E2 by (simp add: tbl_remove_def)
    show ?thesis
    proof (cases "tm_active tm'")
      case True
      have t3: "timers (stopped t s2) t = Some (tm_deactivate tm')" using t2 by simp
      have "s' = started t (tm_deactivate tm') (stopped t s2)"
        using e E2 t2 True a2 [OF t2] start_eq [OF t3] by (simp add: stopped_def)
      then show ?thesis using started_inv [OF i3 t3] E3 tk by (simp add: started_def Let_def tbl_remove_def)
    next
      case False
      have "s' = timer_remove t s2" using e E2 t2 False by simp
      moreover have "timer_remove t s2 = stopped t s2"
        using t2 deactivate_inactive [OF False] by (intro timer_sys.equality) (simp_all add: fun_upd_idem, simp add: stopped_def)
      ultimately show ?thesis using i3 E3 tk by simp
    qed
  qed
qed

text \<open>A round that ends leaves nothing due.\<close>

lemma check_loop_inv:
  assumes cb: "\<forall>f s s'. fire f s = Some s' \<longrightarrow> callback_step\<^sup>*\<^sup>* s s'"
  shows "timer_inv s \<Longrightarrow> trow s ExpiredList = [] \<Longrightarrow> timer_check_loop fire n (rt_tick s) s = Done s' \<Longrightarrow>
   timer_inv s' \<and> trow s' ExpiredList = [] \<and> tm_due s' = []"
proof (induction n arbitrary: s)
  case (Suc n)
  have so: "timer_sorted s" using Suc.prems(1) by (simp add: timer_inv_def)
  show ?case
  proof (cases "trow s TimerList")
    case Nil
    then show ?thesis using Suc.prems by (simp add: tm_due_def)
  next
    case (Cons t rest)
    show ?thesis
    proof (cases "tm_expired (rt_tick s) (timeout_of s t)")
      case True
      then obtain s1 where b: "check_body fire t s = Some s1" "timer_check_loop fire n (rt_tick s1) s1 = Done s'"
        using Suc.prems(3) Cons by (auto simp: rt_tick_get_def split: option.splits)
      then show ?thesis using check_body_inv [OF cb Suc.prems(1,2) Cons b(1)] Suc.IH [of s1] by simp
    next
      case False
      then have "\<not> tm_rem s t \<le> 1" using expired_iff [OF so, of t] Cons by simp
      then have "tm_due s = []" using so Cons by (auto simp: timer_sorted_def tm_due_def filter_empty_conv)
      then show ?thesis using False Suc.prems Cons by simp
    qed
  qed
qed simp

lemma check_quiet:
  assumes "\<forall>f s s'. fire f s = Some s' \<longrightarrow> callback_step\<^sup>*\<^sup>* s s'"
    and "timer_inv s" and "trow s ExpiredList = []" and "rt_timer_check fire n s = Done s'"
  shows "timer_quiet s'"
proof -
  have "s\<lparr>trow := (trow s)(ExpiredList := [])\<rparr> = s" using assms(3) by (simp add: fun_upd_idem)
  then show ?thesis
    using assms(2-4) check_loop_inv [OF assms(1), of s n s'] due_fresh [of s']
    by (auto simp: rt_timer_check_def rt_tick_get_def timer_quiet_def)
qed

lemma timer_step_quiet:
  assumes st: "timer_step fire s s'" and q: "timer_quiet s" and cb: "\<forall>f s s'. fire f s = Some s' \<longrightarrow> callback_step\<^sup>*\<^sup>* s s'"
  shows "timer_quiet s'"
  using st
proof (rule timer_stepE)
  assume "timer_call s s'"
  then show ?thesis by (rule timer_call_quiet [OF _ q])
next
  fix n assume c: "rt_timer_check fire n (s\<lparr>rt_tick := rt_tick s + 1\<rparr>) = Done s'"
  have "timer_inv (s\<lparr>rt_tick := rt_tick s + 1\<rparr>)" using q tick_inv [of s] by (simp add: timer_quiet_def)
  then show ?thesis using q by (intro check_quiet [OF cb _ _ c]) (simp_all add: timer_quiet_def)
qed

lemma unat_div_mod_ms:
  "unat ms < 2 ^ 31 \<Longrightarrow> (1000 :: 32 word) * (ms div 1000) + (1000 * (ms mod 1000) + 999) div 1000 = ms"
proof -
  assume lt: "unat ms < 2 ^ 31"
  have m: "unat (ms mod 1000) < 1000" by (simp add: unat_mod)
  have q: "1000 * (unat ms div 1000) \<le> unat ms" by simp
  have "unat (1000 * (ms mod 1000) + 999) = 1000 * (unat ms mod 1000) + 999"
    using m by (simp add: unat_word_ariths unat_mod)
  then have b: "unat ((1000 * (ms mod 1000) + 999) div 1000) = unat ms mod 1000"
    by (simp add: unat_div)
  have a: "unat (1000 * (ms div 1000)) = 1000 * (unat ms div 1000)"
    using lt q by (simp add: unat_word_ariths unat_div)
  have "unat (1000 * (ms div 1000) + (1000 * (ms mod 1000) + 999) div 1000) = unat ms"
    using lt a b by (simp add: unat_word_ariths)
  then show ?thesis by (rule unsigned_word_eqI)
qed

section \<open>Properties\<close>

text \<open>
  \<open>rt_timer_start\<close> puts an initialised timer into the timer list with the timeout "now plus its
  interval", behind every timer that times out no later and in front of the others, so that the
  list stays ordered by timeout (in wrapped tick arithmetic) and equal timeouts stay in start order.
\<close>

theorem timer_start_ordered:
  assumes "timer_inv s" and "timers s t = Some tm"
  shows "\<exists>s'. rt_timer_start t s = Some (RT_EOK, s') \<and> timer_inv s' \<and>
    timeout_of s' t = rt_tick s + tm_init_tick tm \<and>
    (let rest = remove1 t (trow s TimerList); r = unat (tm_init_tick tm) + 1
     in trow s' TimerList = takeWhile (\<lambda>x. tm_rem s x \<le> r) rest @ t # dropWhile (\<lambda>x. tm_rem s x \<le> r) rest)"
proof -
  have ok: "timer_ok s" and so: "timer_sorted s" using assms(1) by (simp_all add: timer_inv_def)
  have "t \<notin> set (remove1 t (trow s TimerList))" using tbl_wfD [OF timer_okD(1) [OF ok], of TimerList] by simp
  from started_list [OF so timer_okD(4) [OF ok assms(2)] this] show ?thesis
    using start_eq [OF assms(2)] started_inv [OF assms]
    by (intro exI [of _ "started t tm s"]) (simp add: timeout_started Let_def)
qed

definition tm_example :: "nat timer_sys_scheme" where
  "tm_example = \<lparr>rt_tick = 0xfffffffe,
     timers = [UserTimer 1 \<mapsto> \<lparr>tm_static = True, tm_flag = 3, timeout_func = Callback 7 1, tm_init_tick = 5, timeout_tick = 0xfffffffe\<rparr>,
       UserTimer 2 \<mapsto> \<lparr>tm_static = True, tm_flag = 1, timeout_func = Callback 7 2, tm_init_tick = 9, timeout_tick = 1\<rparr>,
       UserTimer 3 \<mapsto> \<lparr>tm_static = True, tm_flag = 0, timeout_func = Callback 7 3, tm_init_tick = 3, timeout_tick = 0\<rparr>],
     trow = (\<lambda>_. [])(TimerList := [UserTimer 1, UserTimer 2]), random_nr = 0, \<dots> = 0\<rparr>"

lemma tm_example_inv: "timer_inv tm_example" "trow tm_example ExpiredList = []" "tm_due tm_example = [UserTimer 1]"
  by (auto simp: timer_inv_def timer_ok_def timer_sorted_def tbl_wf_def tm_example_def tm_active_def
      RT_TIMER_FLAG_ACTIVATED_def tm_rem_def timeout_of_def linked_def tm_due_def split: if_splits)

theorem timer_start_ordered_witness:
  "\<exists>s'. rt_timer_start (UserTimer 3) tm_example = Some (RT_EOK, s') \<and> timer_inv s' \<and>
    timeout_of s' (UserTimer 3) = rt_tick tm_example + tm_init_tick (the (timers tm_example (UserTimer 3))) \<and>
    (let rest = remove1 (UserTimer 3) (trow tm_example TimerList);
         r = unat (tm_init_tick (the (timers tm_example (UserTimer 3)))) + 1
     in trow s' TimerList = takeWhile (\<lambda>x. tm_rem tm_example x \<le> r) rest @ UserTimer 3 #
          dropWhile (\<lambda>x. tm_rem tm_example x \<le> r) rest)"
  by (rule timer_start_ordered [OF tm_example_inv(1)]) (simp add: tm_example_def)

text \<open>
  C7: When the callbacks of the due timers do not touch the timer module and no due periodic timer has the interval 0
  (see \<open>timer_check_period0_diverges\<close>), \<open>rt_timer_check\<close> ends
  (with fuel for one round per due timer), has called each due timer's callback exactly once in
  timeout order, leaves nothing due, has deactivated the one-shot timers, has restarted the
  periodic ones one interval from now, and leaves every other timer alone.
\<close>

theorem timer_check_fires_due:
  assumes "timer_inv s" and "trow s ExpiredList = []" and "length (tm_due s) < n"
    and "\<forall>t \<in> set (tm_due s). \<forall>tm. timers s t = Some tm \<longrightarrow> tm_periodic tm \<longrightarrow> tm_init_tick tm \<noteq> 0"
    and "run_callbacks g (map (\<lambda>t. timeout_func (the (timers s t))) (tm_due s)) (timer_sys.more s) = Some m"
  shows "\<exists>s'. rt_timer_check (fire_rest g) n s = Done s' \<and> timer_inv s' \<and> timer_sys.more s' = m \<and>
    rt_tick s' = rt_tick s \<and> tm_due s' = [] \<and>
    (\<forall>x. timers s' x = (if x \<in> set (tm_due s) then map_option (after_due (rt_tick s)) (timers s x) else timers s x))"
proof -
  have "s\<lparr>trow := (trow s)(ExpiredList := [])\<rparr> = s" using assms(2) by (simp add: fun_upd_idem)
  then show ?thesis
    using timer_check_loop_ok [OF assms] by (auto simp: rt_timer_check_def rt_tick_get_def)
qed

theorem timer_check_fires_due_witness:
  "\<exists>s'. rt_timer_check (fire_rest (\<lambda>f k. Some (k + 1))) 2 tm_example = Done s' \<and> timer_inv s' \<and>
    timer_sys.more s' = (1 :: nat) \<and> rt_tick s' = rt_tick tm_example \<and> tm_due s' = [] \<and>
    (\<forall>x. timers s' x = (if x \<in> set (tm_due tm_example)
       then map_option (after_due (rt_tick tm_example)) (timers tm_example x) else timers tm_example x))"
proof (rule timer_check_fires_due [OF tm_example_inv(1,2)])
  show "length (tm_due tm_example) < 2" by (simp add: tm_example_inv)
  show "run_callbacks (\<lambda>f k. Some (k + 1)) (map (\<lambda>t. timeout_func (the (timers tm_example t))) (tm_due tm_example))
      (timer_sys.more tm_example) = Some 1"
    unfolding tm_example_inv by (simp add: tm_example_def)
qed (auto simp: tm_example_inv, auto simp: tm_example_def)

text \<open>
  C8: Any sequence of timer calls and clock ticks that starts with no timer keeps the list ordered
  and complete: it holds exactly the activated timers, and between two ticks none is overdue. This holds for every tick whose
  \<open>rt_timer_check\<close> returns, and the callbacks may themselves make any timer calls (start, stop, control, detach or delete any
  timer, their own too, or make new ones), except for one: to make a timer one-shot in its own callback.
\<close>

theorem timer_steps_ordered:
  assumes "(timer_step fire)\<^sup>*\<^sup>* s s'" and "timers s = (\<lambda>_. None)" and "trow s = (\<lambda>_. [])"
    and "\<forall>f s s'. fire f s = Some s' \<longrightarrow> callback_step\<^sup>*\<^sup>* s s'"
  shows "timer_inv s' \<and> timer_fresh s' \<and> trow s' ExpiredList = []"
proof -
  have "timer_quiet s"
    using assms(2,3) by (simp add: timer_quiet_def timer_inv_def timer_ok_def timer_sorted_def
        timer_fresh_def tbl_wf_def)
  with assms(1) have "timer_quiet s'"
    by (induction rule: rtranclp_induct) (auto intro: timer_step_quiet [OF _ _ assms(4)])
  then show ?thesis by (simp add: timer_quiet_def)
qed

text \<open>
  A periodic timer of one tick whose callback stops it: it is made, started, and fires at the second tick; the local list of
  \<open>rt_timer_check\<close> is empty when the callback returns, so the timer is not started again.
\<close>

definition ex_fire :: "timeout_fn \<Rightarrow> timer_sys \<Rightarrow> timer_sys option" where
  "ex_fire f s = (case f of Callback _ n \<Rightarrow> map_option snd (rt_timer_stop (UserTimer n) s) | ThreadTimeout _ \<Rightarrow> None)"

definition ex_fired :: "timer_sys run" where
  "ex_fired =
    (case rt_timer_init (UserTimer 1) (Callback 7 1) 1 2 \<lparr>rt_tick = 0, timers = (\<lambda>_. None), trow = (\<lambda>_. []), random_nr = 0\<rparr> of
       None \<Rightarrow> Halted
     | Some s \<Rightarrow> (case rt_timer_start (UserTimer 1) s of None \<Rightarrow> Halted | Some (_, s) \<Rightarrow> rt_timer_check ex_fire 2 (s\<lparr>rt_tick := rt_tick s + 1\<rparr>)))"

lemma ex_fire_ok: "\<forall>f s s'. ex_fire f s = Some s' \<longrightarrow> callback_step\<^sup>*\<^sup>* s s'"
  by (auto simp: ex_fire_def split: timeout_fn.splits intro!: r_into_rtranclp callback_step.call intro: timer_call.stop)

theorem timer_steps_ordered_witness:
  "\<exists>s'. ex_fired = Done s' \<and> timer_inv s' \<and> timer_fresh s' \<and> trow s' TimerList = [] \<and> trow s' ExpiredList = [] \<and>
     map_option tm_active (timers s' (UserTimer 1)) = Some False"
proof -
  let ?s = "\<lparr>rt_tick = 0, timers = (\<lambda>_. None), trow = (\<lambda>_. []), random_nr = 0\<rparr> :: timer_sys"
  have c: "case ex_fired of Done s' \<Rightarrow> trow s' TimerList = [] \<and> map_option tm_active (timers s' (UserTimer 1)) = Some False | _ \<Rightarrow> False"
    by code_simp
  then obtain s' where s': "ex_fired = Done s'" "trow s' TimerList = []" "map_option tm_active (timers s' (UserTimer 1)) = Some False"
    by (auto split: run.splits)
  then obtain s1 e s2 where r: "rt_timer_init (UserTimer 1) (Callback 7 1) 1 2 ?s = Some s1" "rt_timer_start (UserTimer 1) s1 = Some (e, s2)"
    "rt_timer_check ex_fire 2 (s2\<lparr>rt_tick := rt_tick s2 + 1\<rparr>) = Done s'"
    by (auto simp: ex_fired_def split: option.splits prod.splits)
  have "timer_step ex_fire ?s s1" "timer_step ex_fire s1 s2" "timer_step ex_fire s2 s'"
    using r by (auto intro: timer_step.intros timer_call.init timer_call.start)
  then have "(timer_step ex_fire)\<^sup>*\<^sup>* ?s s'" by (meson converse_rtranclp_into_rtranclp r_into_rtranclp)
  from timer_steps_ordered [OF this _ _ ex_fire_ok] s' show ?thesis by (intro exI [of _ s']) simp
qed

text \<open>
  The call that is left out: a periodic timer that is made one-shot in its own callback is taken out of the local list and
  not started again, but it stays marked as activated though it is in no list.
\<close>

lemma oneshot_in_callback:
  assumes inv: "timer_inv s" and E: "trow s ExpiredList = []" and T: "trow s TimerList = t # rest"
    and t: "timers s t = Some tm" "tm_periodic tm"
    and fire: "\<And>s. fire (timeout_func tm) s = map_option (\<lambda>(_, _, s). s) (rt_timer_control t RT_TIMER_CTRL_SET_ONESHOT 0 s)"
  shows "\<exists>s' tm'. check_body fire t s = Some s' \<and> timers s' t = Some tm' \<and> tm_active tm' \<and> \<not> linked t (trow s')"
proof -
  have act: "tm_active tm" and wf: "tbl_wf (trow s)" using inv T t by (auto simp: timer_inv_def timer_ok_def)
  let ?tm = "tm\<lparr>tm_flag := tm_flag tm AND NOT RT_TIMER_FLAG_PERIODIC\<rparr>"
  have tm: "tm_active ?tm = tm_active tm" "\<not> tm_periodic ?tm"
    by (simp_all add: tm_active_def tm_periodic_def RT_TIMER_FLAG_PERIODIC_def RT_TIMER_FLAG_ACTIVATED_def periodic_flag and.assoc)
  let ?s1 = "timer_remove t s\<lparr>trow := (tbl_remove t (trow s))(ExpiredList := [t])\<rparr>"
  let ?s2 = "upd_timer t (\<lambda>m. m\<lparr>tm_flag := tm_flag m AND NOT RT_TIMER_FLAG_PERIODIC\<rparr>) ?s1"
  have f: "fire (timeout_func tm) ?s1 = Some ?s2" using t by (simp add: fire rt_timer_control_def)
  have "check_body fire t s = Some (timer_remove t ?s2)"
    using t f E tm by (simp add: check_body_def Let_def tbl_remove_def)
  moreover have "\<not> linked t (trow (timer_remove t ?s2))"
  proof -
    have "t \<notin> set (tbl_remove t (trow s) TimerList)" using tbl_remove_set [OF wf] by simp
    then show ?thesis by (simp add: linked_tlhead tbl_remove_def remove1_idem)
  qed
  ultimately show ?thesis using t act tm by (intro exI [of _ "timer_remove t ?s2"] exI [of _ ?tm]) simp
qed

text \<open>
  A periodic timer with interval 0 makes \<open>rt_timer_check\<close> run without end: whatever the fuel,
  the round is still running.
\<close>

theorem timer_check_period0_diverges:
  assumes "timer_inv s" and "trow s ExpiredList = []" and "trow s TimerList = [t]"
    and "timers s t = Some tm" and "tm_periodic tm" and "tm_init_tick tm = 0" and "tm_rem s t \<le> 1"
    and "\<And>f m. g f m \<noteq> None"
  shows "rt_timer_check (fire_rest g) n s = Running"
proof -
  have "timer_check_loop (fire_rest g) n (rt_tick s) s = Running"
    using assms(1-7)
  proof (induction n arbitrary: s tm)
    case (Suc n)
    have so: "timer_sorted s" using Suc.prems(1) by (simp add: timer_inv_def)
    have ex: "tm_expired (rt_tick s) (timeout_of s t)"
      using expired_iff [OF so, of t] Suc.prems(3,7) by simp
    obtain m where m: "g (timeout_func tm) (timer_sys.more s) = Some m" using assms(8) by fastforce
    let ?s1 = "timer_sys.more_update (\<lambda>_. m) (started t tm s)"
    have "tm_rem (started t tm s) t = 1" using rem_started [of tm t s t] Suc.prems(6) by simp
    then have r: "tm_rem ?s1 t \<le> 1" by (simp add: tm_rem_def)
    have "timer_check_loop (fire_rest g) n (rt_tick ?s1) ?s1 = Running"
      using Suc.prems started_inv [OF Suc.prems(1,4)] r
      by (intro Suc.IH [of _ "tm_activate ((tm_deactivate tm)\<lparr>timeout_tick := rt_tick s + tm_init_tick tm\<rparr>)"])
        (simp_all add: started_def Let_def tbl_remove_def)
    moreover have "check_body (fire_rest g) t s = Some ?s1"
      using check_body_eq [OF Suc.prems(1-4), of g] Suc.prems(5) m by simp
    ultimately show ?case using ex Suc.prems(3) by (simp add: rt_tick_get_def)
  qed simp
  moreover have "s\<lparr>trow := (trow s)(ExpiredList := [])\<rparr> = s" using assms(2) by (simp add: fun_upd_idem)
  ultimately show ?thesis by (simp add: rt_timer_check_def rt_tick_get_def)
qed

definition tm_period0 :: timer_sys where
  "tm_period0 = \<lparr>rt_tick = 10, timers = [UserTimer 1 \<mapsto> \<lparr>tm_static = True, tm_flag = 3,
     timeout_func = Callback 7 1, tm_init_tick = 0, timeout_tick = 10\<rparr>],
     trow = (\<lambda>_. [])(TimerList := [UserTimer 1]), random_nr = 1\<rparr>"

theorem timer_check_period0_diverges_witness:
  "rt_timer_check (fire_rest (\<lambda>f m. Some m)) 1000 tm_period0 = Running"
  by (rule timer_check_period0_diverges [where t = "UserTimer 1" and tm = "the (timers tm_period0 (UserTimer 1))"])
    (auto simp: timer_inv_def timer_ok_def timer_sorted_def tbl_wf_def tm_period0_def tm_active_def tm_periodic_def
      RT_TIMER_FLAG_ACTIVATED_def RT_TIMER_FLAG_PERIODIC_def tm_rem_def timeout_of_def linked_def split: if_splits)

text \<open>
  The state query \<open>RT_TIMER_CTRL_GET_STATE\<close> stores the timeout tick of the timer, whatever its
  state: the case falls through into \<open>RT_TIMER_CTRL_GET_REMAIN_TIME\<close>.
\<close>

theorem timer_get_state_falls_through:
  assumes "timers s t = Some tm"
  shows "rt_timer_control t RT_TIMER_CTRL_GET_STATE arg s = Some (RT_EOK, timeout_tick tm, s) \<and>
    rt_timer_control t RT_TIMER_CTRL_GET_STATE arg s = rt_timer_control t RT_TIMER_CTRL_GET_REMAIN_TIME arg s"
  using assms by (simp add: rt_timer_control_def Let_def)

theorem timer_get_state_falls_through_witness:
  "rt_timer_control (UserTimer 2) RT_TIMER_CTRL_GET_STATE 0 tm_example = Some (RT_EOK, 1, tm_example) \<and>
   rt_timer_control (UserTimer 2) RT_TIMER_CTRL_GET_STATE 0 tm_example =
     rt_timer_control (UserTimer 2) RT_TIMER_CTRL_GET_REMAIN_TIME 0 tm_example"
proof -
  let ?tm = "\<lparr>tm_static = True, tm_flag = 1, timeout_func = Callback 7 2, tm_init_tick = 9, timeout_tick = 1\<rparr>"
  have "timers tm_example (UserTimer 2) = Some ?tm" by (simp add: tm_example_def)
  from timer_get_state_falls_through [OF this, of 0] show ?thesis unfolding rt_timer.simps .
qed

text \<open>
  At the board's 1000 ticks per second \<open>rt_tick_from_millisecond\<close> gives one tick per
  millisecond for every non-negative argument, without overflow, and \<open>RT_WAITING_FOREVER\<close> for
  every negative one; \<open>rt_tick_get_millisecond\<close> is the tick.
\<close>

theorem tick_millisecond:
  "rt_tick_from_millisecond ms = (if sint ms < 0 then 0xffffffff else ms) \<and>
   rt_tick_get_millisecond s = rt_tick s"
proof
  have "unat ms < 2 ^ 31" if "\<not> sint ms < 0"
  proof -
    have lt: "sint ms < 2 ^ 31" using sint_lt [of ms] by simp
    then have "uint ms = sint ms" using that uint_sint [of ms] by (simp add: take_bit_int_eq_self)
    then show ?thesis using lt by (simp add: unat_eq_nat_uint)
  qed
  then show "rt_tick_from_millisecond ms = (if sint ms < 0 then 0xffffffff else ms)"
    using unat_div_mod_ms [of ms] by (simp add: rt_tick_from_millisecond_def RT_TICK_PER_SECOND_def Let_def)
  show "rt_tick_get_millisecond s = rt_tick s"
    by (simp add: rt_tick_get_millisecond_def rt_tick_get_def RT_TICK_PER_SECOND_def)
qed

end
