(* ===== verification/Sched.thy ===== *)
theory Sched
  imports Timer Ffs
begin

text \<open>
  The uniprocessor scheduler of rt-thread/src/scheduler.c and the interrupt nesting of
  rt-thread/src/irq.c, for 32 priorities: one ready list per priority, the bitmap of non-empty
  lists, the current thread. The thread lists and the suspend lists of the IPC objects form one
  table, because a thread's \<open>tlist\<close> node is in at most one of them.
\<close>

section \<open>State\<close>

text \<open>\<open>stat\<close> of the code is the state in its low three bits and the yield bit.\<close>

datatype th_stat = RT_THREAD_INIT | RT_THREAD_READY | RT_THREAD_SUSPEND | RT_THREAD_RUNNING | RT_THREAD_CLOSE

record rt_thread =
  th_static :: bool
  entry :: u32
  parameter :: u32
  cleanup :: u32
  stack_sp :: u32
  stack_addr :: u32
  stack_size :: u32
  stack_magic :: u8
  th_error :: rt_err
  stat :: th_stat
  stat_yield :: bool
  current_priority :: u8
  number_mask :: u32
  event_set :: u32
  event_info :: u8
  init_tick :: u32
  remaining_tick :: u32

text \<open>The list heads: the priority table, the suspend lists of the object at an address, the threads to be cleaned up.\<close>

datatype lhead = Ready nat | Suspend nat | SuspendSender nat | Defunct

record sched = timer_sys +
  threads :: "nat \<rightharpoonup> rt_thread"
  lists :: "lhead \<Rightarrow> nat list"
  ready_group :: u32
  cur :: "nat option"
  cur_priority :: u8
  lock_nest :: u16
  int_nest :: u8
  switches :: "(nat \<times> nat \<times> bool) list"

definition RT_THREAD_PRIORITY_MAX :: nat where "RT_THREAD_PRIORITY_MAX = 32"

definition upd_thread :: "nat \<Rightarrow> (rt_thread \<Rightarrow> rt_thread) \<Rightarrow> 'z sched_scheme \<Rightarrow> 'z sched_scheme" where
  "upd_thread t f s = s\<lparr>threads := (threads s)(t := map_option f (threads s t))\<rparr>"

definition prio_of :: "rt_thread \<Rightarrow> nat" where
  "prio_of th = unat (current_priority th)"

section \<open>scheduler.c\<close>

text \<open>
  \<open>_scheduler_get_highest_priority_thread\<close>: the first thread of the list of the lowest set bit. An
  empty bitmap or an empty list there would read outside the table or take the list head for a
  thread.
\<close>

definition scheduler_get_highest :: "'z sched_scheme \<Rightarrow> (nat \<times> nat) option" where
  "scheduler_get_highest s =
    (if ready_group s = 0 then None
     else let hp = rt_ffs_cpu (ready_group s) - 1
          in case lists s (Ready hp) of [] \<Rightarrow> None | t # _ \<Rightarrow> Some (t, hp))"

definition rt_system_scheduler_init :: "'z sched_scheme \<Rightarrow> 'z sched_scheme" where
  "rt_system_scheduler_init s = s\<lparr>lock_nest := 0,
     lists := (\<lambda>l. case l of Ready p \<Rightarrow> if p < RT_THREAD_PRIORITY_MAX then [] else lists s l | _ \<Rightarrow> lists s l),
     ready_group := 0\<rparr>"

definition rt_scheduler_stack_check :: "rt_thread \<Rightarrow> unit option" where
  "rt_scheduler_stack_check th = rt_assert (\<not> (stack_magic th \<noteq> 0x23 \<or> stack_sp th \<le> stack_addr th \<or>
     stack_sp th > stack_addr th + stack_size th))"

definition rt_schedule_insert_thread :: "nat \<Rightarrow> 'z sched_scheme \<Rightarrow> 'z sched_scheme option" where
  "rt_schedule_insert_thread t s = do {
     th \<leftarrow> threads s t;
     (if cur s = Some t then Some (upd_thread t (\<lambda>th. th\<lparr>stat := RT_THREAD_RUNNING\<rparr>) s)
      else do {
        rt_assert (prio_of th < RT_THREAD_PRIORITY_MAX);
        let s = upd_thread t (\<lambda>th. th\<lparr>stat := RT_THREAD_READY\<rparr>) s;
        Some (s\<lparr>lists := tbl_insert_tail (Ready (prio_of th)) t (lists s),
               ready_group := ready_group s OR number_mask th\<rparr>) }) }"

definition rt_schedule_remove_thread :: "nat \<Rightarrow> 'z sched_scheme \<Rightarrow> 'z sched_scheme option" where
  "rt_schedule_remove_thread t s = do {
     th \<leftarrow> threads s t;
     rt_assert (prio_of th < RT_THREAD_PRIORITY_MAX);
     let s = s\<lparr>lists := tbl_remove t (lists s)\<rparr>;
     Some (if lists s (Ready (prio_of th)) = []
           then s\<lparr>ready_group := ready_group s AND NOT (number_mask th)\<rparr> else s) }"

definition rt_system_scheduler_start :: "'z sched_scheme \<Rightarrow> 'z sched_scheme option" where
  "rt_system_scheduler_start s = do {
     (to, hp) \<leftarrow> scheduler_get_highest s;
     let s = s\<lparr>cur := Some to\<rparr>;
     s \<leftarrow> rt_schedule_remove_thread to s;
     Some (upd_thread to (\<lambda>th. th\<lparr>stat := RT_THREAD_RUNNING, stat_yield := False\<rparr>) s) }"

text \<open>Whether the current thread keeps the processor, as \<open>rt_schedule\<close> decides it.\<close>

definition keeps_cpu :: "rt_thread \<Rightarrow> nat \<Rightarrow> bool" where
  "keeps_cpu cth hp \<longleftrightarrow> stat cth = RT_THREAD_RUNNING \<and>
     (prio_of cth < hp \<or> prio_of cth = hp \<and> \<not> stat_yield cth)"

text \<open>
  \<open>rt_schedule\<close>. The call of the context switch is recorded in \<open>switches\<close>, with whether it is
  the switch requested from an interrupt.
\<close>

definition rt_schedule :: "'z sched_scheme \<Rightarrow> 'z sched_scheme option" where
  "rt_schedule s =
    (if lock_nest s = 0 \<and> ready_group s \<noteq> 0 then do {
       (to0, hp) \<leftarrow> scheduler_get_highest s;
       c \<leftarrow> cur s;
       cth \<leftarrow> threads s c;
       let running = (stat cth = RT_THREAD_RUNNING);
       let to = (if keeps_cpu cth hp then c else to0);
       let need_insert = (running \<and> \<not> keeps_cpu cth hp);
       let s = (if running then upd_thread c (\<lambda>th. th\<lparr>stat_yield := False\<rparr>) s else s);
       (if to \<noteq> c then do {
          let s = s\<lparr>cur_priority := of_nat hp, cur := Some to\<rparr>;
          s \<leftarrow> (if need_insert then rt_schedule_insert_thread c s else Some s);
          s \<leftarrow> rt_schedule_remove_thread to s;
          let s = upd_thread to (\<lambda>th. th\<lparr>stat := RT_THREAD_RUNNING\<rparr>) s;
          tth \<leftarrow> threads s to;
          rt_scheduler_stack_check tth;
          Some (s\<lparr>switches := switches s @ [(c, to, int_nest s \<noteq> 0)]\<rparr>) }
        else do {
          s \<leftarrow> rt_schedule_remove_thread c s;
          Some (upd_thread c (\<lambda>th. th\<lparr>stat := RT_THREAD_RUNNING\<rparr>) s) }) }
     else Some s)"

definition rt_enter_critical :: "'z sched_scheme \<Rightarrow> 'z sched_scheme" where
  "rt_enter_critical s = s\<lparr>lock_nest := lock_nest s + 1\<rparr>"

definition rt_exit_critical :: "'z sched_scheme \<Rightarrow> 'z sched_scheme option" where
  "rt_exit_critical s =
    (let s = s\<lparr>lock_nest := lock_nest s - 1\<rparr>
     in if sint (lock_nest s) \<le> 0
        then (let s = s\<lparr>lock_nest := 0\<rparr> in if cur s \<noteq> None then rt_schedule s else Some s)
        else Some s)"

definition rt_critical_level :: "'z sched_scheme \<Rightarrow> u16" where
  "rt_critical_level s = lock_nest s"

section \<open>irq.c\<close>

definition rt_interrupt_enter :: "'z sched_scheme \<Rightarrow> 'z sched_scheme" where
  "rt_interrupt_enter s = s\<lparr>int_nest := int_nest s + 1\<rparr>"

definition rt_interrupt_leave :: "'z sched_scheme \<Rightarrow> 'z sched_scheme" where
  "rt_interrupt_leave s = s\<lparr>int_nest := int_nest s - 1\<rparr>"

definition rt_interrupt_get_nest :: "'z sched_scheme \<Rightarrow> u8" where
  "rt_interrupt_get_nest s = int_nest s"

section \<open>Invariant\<close>

text \<open>
  What the scheduler relies on: the lists are disjoint; a ready list holds exactly the READY
  threads of its priority; the bitmap tells the non-empty lists; suspend lists hold SUSPENDed
  threads; only the current thread is RUNNING, and it is never READY.
\<close>

definition thread_ok :: "rt_thread \<Rightarrow> bool" where
  "thread_ok th \<longleftrightarrow> prio_of th < 32 \<and>
     (stat th \<noteq> RT_THREAD_INIT \<longrightarrow> stat th \<noteq> RT_THREAD_CLOSE \<longrightarrow> number_mask th = push_bit (prio_of th) 1) \<and>
     rt_scheduler_stack_check th = Some ()"

definition lists_ok :: "'z sched_scheme \<Rightarrow> bool" where
  "lists_ok s \<longleftrightarrow> tbl_wf (lists s) \<and>
     (\<forall>l t. t \<in> set (lists s l) \<longrightarrow> (\<exists>th. threads s t = Some th \<and>
        (case l of Ready p \<Rightarrow> stat th = RT_THREAD_READY \<and> prio_of th = p
         | Defunct \<Rightarrow> stat th = RT_THREAD_CLOSE | _ \<Rightarrow> stat th = RT_THREAD_SUSPEND))) \<and>
     (\<forall>t th. threads s t = Some th \<longrightarrow> stat th = RT_THREAD_READY \<longrightarrow> t \<in> set (lists s (Ready (prio_of th))))"

definition group_ok :: "'z sched_scheme \<Rightarrow> bool" where
  "group_ok s \<longleftrightarrow> (\<forall>p < 32. bit (ready_group s) p \<longleftrightarrow> lists s (Ready p) \<noteq> [])"

definition cur_ok :: "'z sched_scheme \<Rightarrow> bool" where
  "cur_ok s \<longleftrightarrow> (\<forall>t th. threads s t = Some th \<longrightarrow> stat th = RT_THREAD_RUNNING \<longrightarrow> cur s = Some t) \<and>
     (\<forall>t. cur s = Some t \<longrightarrow> (\<exists>th. threads s t = Some th \<and> stat th \<noteq> RT_THREAD_READY \<and> stat th \<noteq> RT_THREAD_INIT))"

definition sched_inv :: "'z sched_scheme \<Rightarrow> bool" where
  "sched_inv s \<longleftrightarrow> lists_ok s \<and> group_ok s \<and> cur_ok s \<and> (\<forall>t th. threads s t = Some th \<longrightarrow> thread_ok th)"

section \<open>Lemmas\<close>

lemma upd_thread_sel [simp]:
  "threads (upd_thread t f s) = (threads s)(t := map_option f (threads s t))"
  "lists (upd_thread t f s) = lists s" "ready_group (upd_thread t f s) = ready_group s"
  "cur (upd_thread t f s) = cur s" "lock_nest (upd_thread t f s) = lock_nest s"
  "int_nest (upd_thread t f s) = int_nest s" "switches (upd_thread t f s) = switches s"
  "timers (upd_thread t f s) = timers s" "trow (upd_thread t f s) = trow s"
  "rt_tick (upd_thread t f s) = rt_tick s" "cur_priority (upd_thread t f s) = cur_priority s"
  "random_nr (upd_thread t f s) = random_nr s"
  "sched.more (upd_thread t f s) = sched.more s"
  by (simp_all add: upd_thread_def)

lemma bit_prio_mask: "p < 32 \<Longrightarrow> q < 32 \<Longrightarrow> bit (2 ^ p :: u32) q \<longleftrightarrow> p = q"
  by (auto simp: bit_exp_iff)

lemma bit_or_mask: "p < 32 \<Longrightarrow> q < 32 \<Longrightarrow> bit (g OR 2 ^ p :: u32) q \<longleftrightarrow> bit g q \<or> p = q"
  by (simp add: bit_or_iff bit_prio_mask)

lemma bit_clear_mask: "p < 32 \<Longrightarrow> q < 32 \<Longrightarrow> bit (g AND NOT (2 ^ p) :: u32) q \<longleftrightarrow> bit g q \<and> p \<noteq> q"
  by (simp add: bit_and_iff bit_not_iff bit_prio_mask)

lemma lists_okI:
  assumes "tbl_wf (lists s)"
    and "\<And>t p. t \<in> set (lists s (Ready p)) \<Longrightarrow> \<exists>th. threads s t = Some th \<and> stat th = RT_THREAD_READY \<and> prio_of th = p"
    and "\<And>t i. t \<in> set (lists s (Suspend i)) \<Longrightarrow> \<exists>th. threads s t = Some th \<and> stat th = RT_THREAD_SUSPEND"
    and "\<And>t i. t \<in> set (lists s (SuspendSender i)) \<Longrightarrow> \<exists>th. threads s t = Some th \<and> stat th = RT_THREAD_SUSPEND"
    and "\<And>t th. threads s t = Some th \<Longrightarrow> stat th = RT_THREAD_READY \<Longrightarrow> t \<in> set (lists s (Ready (prio_of th)))"
    and "\<And>t. t \<in> set (lists s Defunct) \<Longrightarrow> \<exists>th. threads s t = Some th \<and> stat th = RT_THREAD_CLOSE"
  shows "lists_ok s"
  unfolding lists_ok_def
proof (intro conjI allI impI)
  fix l t
  assume "t \<in> set (lists s l)"
  then show "\<exists>th. threads s t = Some th \<and> (case l of Ready p \<Rightarrow> stat th = RT_THREAD_READY \<and> prio_of th = p
      | Defunct \<Rightarrow> stat th = RT_THREAD_CLOSE | _ \<Rightarrow> stat th = RT_THREAD_SUSPEND)"
    using assms(2-4,6) by (cases l) auto
qed (use assms in auto)

lemma lists_okD:
  assumes "lists_ok s"
  shows "tbl_wf (lists s)"
    "t \<in> set (lists s (Ready p)) \<Longrightarrow> \<exists>th. threads s t = Some th \<and> stat th = RT_THREAD_READY \<and> prio_of th = p"
    "t \<in> set (lists s (Suspend o1)) \<Longrightarrow> \<exists>th. threads s t = Some th \<and> stat th = RT_THREAD_SUSPEND"
    "t \<in> set (lists s (SuspendSender o1)) \<Longrightarrow> \<exists>th. threads s t = Some th \<and> stat th = RT_THREAD_SUSPEND"
    "threads s t = Some th \<Longrightarrow> stat th = RT_THREAD_READY \<Longrightarrow> t \<in> set (lists s (Ready (prio_of th)))"
    "t \<in> set (lists s Defunct) \<Longrightarrow> \<exists>th. threads s t = Some th \<and> stat th = RT_THREAD_CLOSE"
  using assms unfolding lists_ok_def by (fastforce split: lhead.splits)+

lemma sched_invD:
  assumes "sched_inv s"
  shows "lists_ok s" "group_ok s" "cur_ok s" "threads s t = Some th \<Longrightarrow> thread_ok th" "tbl_wf (lists s)"
  using assms lists_okD(1) by (auto simp: sched_inv_def)

lemma linked_cases:
  assumes "lists_ok s" and "linked t (lists s)"
  shows "\<exists>th. threads s t = Some th \<and> (stat th = RT_THREAD_READY \<or> stat th = RT_THREAD_SUSPEND \<or> stat th = RT_THREAD_CLOSE)"
proof -
  obtain l where "t \<in> set (lists s l)" using assms(2) by (auto simp: linked_def)
  then show ?thesis using lists_okD(2-4,6) [OF assms(1), of t] by (cases l) blast+
qed

text \<open>The lowest set bit of the bitmap is the smallest priority with a ready thread.\<close>

lemma highest_ok:
  assumes "lists_ok s" and "group_ok s" and "ready_group s \<noteq> 0"
  shows "\<exists>t hp th. scheduler_get_highest s = Some (t, hp) \<and> hp < 32 \<and> hd (lists s (Ready hp)) = t \<and>
    lists s (Ready hp) \<noteq> [] \<and> threads s t = Some th \<and> stat th = RT_THREAD_READY \<and> prio_of th = hp \<and>
    (\<forall>p < hp. lists s (Ready p) = [])"
proof -
  let ?hp = "rt_ffs_cpu (ready_group s) - 1"
  have b: "bit (ready_group s) ?hp" using ffs_cpu.ffs_bit [OF assms(3)] .
  then have hp: "?hp < 32" using bit_imp_le_length [OF b] by simp
  with b assms(2) have ne: "lists s (Ready ?hp) \<noteq> []" by (simp add: group_ok_def)
  then obtain t ts where l: "lists s (Ready ?hp) = t # ts" by (cases "lists s (Ready ?hp)") auto
  then obtain th where "threads s t = Some th" "stat th = RT_THREAD_READY" "prio_of th = ?hp"
    using lists_okD(2) [OF assms(1), of t ?hp] by auto
  moreover have "lists s (Ready p) = []" if "p < ?hp" for p
    using assms(2) that hp ffs_cpu.ffs_least [of "ready_group s" p] unfolding group_ok_def by force
  ultimately show ?thesis using l hp assms(3) by (simp add: scheduler_get_highest_def Let_def)
qed

lemma group_zero: "group_ok s \<Longrightarrow> ready_group s = 0 \<Longrightarrow> p < 32 \<Longrightarrow> lists s (Ready p) = []"
  unfolding group_ok_def by force

lemma insert_cur:
  "threads s t = Some th \<Longrightarrow> cur s = Some t \<Longrightarrow>
   rt_schedule_insert_thread t s = Some (upd_thread t (\<lambda>th. th\<lparr>stat := RT_THREAD_RUNNING\<rparr>) s)"
  by (simp add: rt_schedule_insert_thread_def)

text \<open>The states after an insertion into and a removal from the ready lists.\<close>

definition readied :: "nat \<Rightarrow> rt_thread \<Rightarrow> 'z sched_scheme \<Rightarrow> 'z sched_scheme" where
  "readied t th s = s\<lparr>threads := (threads s)(t \<mapsto> th\<lparr>stat := RT_THREAD_READY\<rparr>),
     lists := tbl_insert_tail (Ready (prio_of th)) t (lists s),
     ready_group := ready_group s OR number_mask th\<rparr>"

definition unreadied :: "nat \<Rightarrow> rt_thread \<Rightarrow> 'z sched_scheme \<Rightarrow> 'z sched_scheme" where
  "unreadied t th s = s\<lparr>lists := tbl_remove t (lists s),
     ready_group := (if tbl_remove t (lists s) (Ready (prio_of th)) = []
                     then ready_group s AND NOT (number_mask th) else ready_group s)\<rparr>"

lemma insert_eq:
  "threads s t = Some th \<Longrightarrow> cur s \<noteq> Some t \<Longrightarrow> prio_of th < 32 \<Longrightarrow>
   rt_schedule_insert_thread t s = Some (readied t th s)"
  by (simp add: rt_schedule_insert_thread_def readied_def upd_thread_def RT_THREAD_PRIORITY_MAX_def Let_def)

lemma remove_eq:
  "threads s t = Some th \<Longrightarrow> prio_of th < 32 \<Longrightarrow>
   rt_schedule_remove_thread t s = Some (unreadied t th s)"
  by (simp add: rt_schedule_remove_thread_def unreadied_def RT_THREAD_PRIORITY_MAX_def Let_def)

lemma prio_of_upd [simp]:
  "prio_of (th\<lparr>stat := x\<rparr>) = prio_of th" "prio_of (th\<lparr>stat_yield := b\<rparr>) = prio_of th"
  "prio_of (th\<lparr>th_error := e\<rparr>) = prio_of th" "prio_of (th\<lparr>remaining_tick := w\<rparr>) = prio_of th"
  "prio_of (th\<lparr>event_set := w\<rparr>) = prio_of th" "prio_of (th\<lparr>event_info := u\<rparr>) = prio_of th"
  "prio_of (th\<lparr>number_mask := w\<rparr>) = prio_of th"
  by (simp_all add: prio_of_def)

lemma readied_ok:
  assumes l: "lists_ok s" and g: "group_ok s" and t: "threads s t = Some th" and k: "thread_ok th"
    and nl: "\<not> linked t (lists s)" and st: "stat th \<noteq> RT_THREAD_INIT" "stat th \<noteq> RT_THREAD_CLOSE"
  shows "lists_ok (readied t th s) \<and> group_ok (readied t th s)"
proof
  have p: "prio_of th < 32" "number_mask th = 2 ^ prio_of th" using k st by (auto simp: thread_ok_def)
  have nm: "t \<notin> set (lists s l)" for l using nl by (auto simp: linked_def)
  note D = lists_okD [OF l]
  show "lists_ok (readied t th s)"
  proof (rule lists_okI)
    show "tbl_wf (lists (readied t th s))" using D(1) nl by (auto simp: readied_def)
    show "x \<in> set (lists (readied t th s) (Ready (prio_of h)))"
      if "threads (readied t th s) x = Some h" "stat h = RT_THREAD_READY" for x h
      using that D(5) [of x h] by (auto simp: readied_def tbl_insert_tail_apply split: if_splits)
  qed (use D nm in \<open>auto simp: readied_def tbl_insert_tail_apply split: if_splits\<close>)
  show "group_ok (readied t th s)"
    using g p by (auto simp: group_ok_def readied_def tbl_insert_tail_apply bit_or_mask)
qed

lemma unreadied_ok:
  assumes l: "lists_ok s" and g: "group_ok s" and t: "threads s t = Some th" and k: "thread_ok th"
    and st: "stat th \<noteq> RT_THREAD_INIT" "stat th \<noteq> RT_THREAD_CLOSE"
    and th': "stat th' \<noteq> RT_THREAD_READY"
  shows "lists_ok ((unreadied t th s)\<lparr>threads := (threads s)(t \<mapsto> th')\<rparr>) \<and>
    group_ok ((unreadied t th s)\<lparr>threads := (threads s)(t \<mapsto> th')\<rparr>)"
proof
  have p: "prio_of th < 32" "number_mask th = 2 ^ prio_of th" using k st by (auto simp: thread_ok_def)
  note wf = lists_okD(1) [OF l]
  show "lists_ok ((unreadied t th s)\<lparr>threads := (threads s)(t \<mapsto> th')\<rparr>)"
    using l wf th' unfolding lists_ok_def
    by (auto simp: unreadied_def tbl_remove_set split: if_splits)
  have other: "tbl_remove t (lists s) (Ready q) = lists s (Ready q)" if "q \<noteq> prio_of th" for q
    using lists_okD(2) [OF l, of t q] t that by (auto simp: tbl_remove_def intro: remove1_idem)
  have same: "bit (ready_group s) (prio_of th)" if "tbl_remove t (lists s) (Ready (prio_of th)) \<noteq> []"
    using g p(1) that by (auto simp: group_ok_def tbl_remove_def)
  show "group_ok ((unreadied t th s)\<lparr>threads := (threads s)(t \<mapsto> th')\<rparr>)"
    unfolding group_ok_def
  proof (intro allI impI)
    fix q :: nat
    assume q: "q < 32"
    show "bit (ready_group ((unreadied t th s)\<lparr>threads := (threads s)(t \<mapsto> th')\<rparr>)) q \<longleftrightarrow>
        lists ((unreadied t th s)\<lparr>threads := (threads s)(t \<mapsto> th')\<rparr>) (Ready q) \<noteq> []"
      using g q p other [of q] same
      by (cases "q = prio_of th") (auto simp: unreadied_def group_ok_def bit_clear_mask)
  qed
qed

section \<open>Scheduling\<close>

text \<open>The effect of \<open>rt_schedule\<close> on the lists and the threads, from the choice it makes.\<close>

definition switched :: "nat \<Rightarrow> rt_thread \<Rightarrow> nat \<Rightarrow> rt_thread \<Rightarrow> 'z sched_scheme \<Rightarrow> 'z sched_scheme" where
  "switched c cth to tth s =
    (let s1 = (if stat cth = RT_THREAD_RUNNING
               then readied c (cth\<lparr>stat_yield := False\<rparr>) (s\<lparr>cur := Some to, cur_priority := of_nat (prio_of tth)\<rparr>)
               else s\<lparr>cur := Some to, cur_priority := of_nat (prio_of tth)\<rparr>)
     in (unreadied to tth s1)\<lparr>threads := (threads s1)(to \<mapsto> tth\<lparr>stat := RT_THREAD_RUNNING\<rparr>),
          switches := switches s @ [(c, to, int_nest s \<noteq> 0)]\<rparr>)"

lemma thread_ok_upd [simp]:
  "thread_ok (th\<lparr>stat_yield := b\<rparr>) = thread_ok th" "thread_ok (th\<lparr>th_error := e\<rparr>) = thread_ok th"
  "thread_ok (th\<lparr>remaining_tick := w\<rparr>) = thread_ok th" "thread_ok (th\<lparr>event_set := w\<rparr>) = thread_ok th"
  "thread_ok (th\<lparr>event_info := u\<rparr>) = thread_ok th"
  by (simp_all add: thread_ok_def rt_scheduler_stack_check_def)

lemma thread_ok_stat: "thread_ok th \<Longrightarrow> stat th \<noteq> RT_THREAD_INIT \<Longrightarrow> stat th \<noteq> RT_THREAD_CLOSE \<Longrightarrow>
    thread_ok (th\<lparr>stat := x\<rparr>)"
  by (simp add: thread_ok_def rt_scheduler_stack_check_def)

lemma thread_ok_close: "thread_ok th \<Longrightarrow> thread_ok (th\<lparr>stat := RT_THREAD_CLOSE\<rparr>)"
  by (simp add: thread_ok_def rt_scheduler_stack_check_def)

lemma stat_upd_same: "stat th = x \<Longrightarrow> th\<lparr>stat := x\<rparr> = th"
  by (cases th) simp

lemma schedule_idle: "lock_nest s \<noteq> 0 \<or> ready_group s = 0 \<Longrightarrow> rt_schedule s = Some s"
  by (auto simp: rt_schedule_def)

lemma schedule_keep:
  assumes inv: "sched_inv s" and act: "lock_nest s = 0" "ready_group s \<noteq> 0"
    and hi: "scheduler_get_highest s = Some (to, hp)" and c: "cur s = Some c" "threads s c = Some cth"
    and k: "keeps_cpu cth hp"
  shows "rt_schedule s = Some (upd_thread c (\<lambda>th. th\<lparr>stat_yield := False\<rparr>) s)"
proof -
  have st: "stat cth = RT_THREAD_RUNNING" using k by (simp add: keeps_cpu_def)
  have ok: "thread_ok cth" using sched_invD(4) [OF inv c(2)] .
  have p: "prio_of cth < 32" using ok by (simp add: thread_ok_def)
  have nl: "\<not> linked c (lists s)" using linked_cases [OF sched_invD(1) [OF inv], of c] c st by auto
  have m: "number_mask cth = 2 ^ prio_of cth" using ok st by (simp add: thread_ok_def)
  have g: "ready_group s AND NOT (2 ^ prio_of cth) = ready_group s" if "lists s (Ready (prio_of cth)) = []"
  proof (rule bit_word_eqI)
    fix n assume "n < LENGTH(32)"
    then have n: "n < 32" by simp
    have "\<not> bit (ready_group s) (prio_of cth)" using sched_invD(2) [OF inv] p that by (simp add: group_ok_def)
    then show "bit (ready_group s AND NOT (2 ^ prio_of cth)) n = bit (ready_group s) n"
      using bit_clear_mask [OF p n, of "ready_group s"] by auto
  qed
  let ?s1 = "upd_thread c (\<lambda>th. th\<lparr>stat_yield := False\<rparr>) s"
  have "unreadied c (cth\<lparr>stat_yield := False\<rparr>) ?s1 = ?s1"
    using nl g m by (simp add: unreadied_def tbl_remove_unlinked upd_thread_def)
  then have r: "rt_schedule_remove_thread c ?s1 = Some ?s1"
    using remove_eq [of ?s1 c "cth\<lparr>stat_yield := False\<rparr>"] c p by simp
  have e: "upd_thread c (\<lambda>th. th\<lparr>stat := RT_THREAD_RUNNING\<rparr>) ?s1 = ?s1"
    using c st by (simp add: upd_thread_def stat_upd_same)
  show ?thesis
    using act hi c k st r e by (simp add: rt_schedule_def)
qed

lemma schedule_switch:
  assumes inv: "sched_inv s" and act: "lock_nest s = 0" "ready_group s \<noteq> 0"
    and hi: "scheduler_get_highest s = Some (to, hp)" and c: "cur s = Some c" "threads s c = Some cth"
    and k: "\<not> keeps_cpu cth hp" and t: "threads s to = Some tth" "stat tth = RT_THREAD_READY" "prio_of tth = hp"
  shows "rt_schedule s = Some (switched c cth to tth s)"
proof -
  have ok: "thread_ok cth" "thread_ok tth" using sched_invD(4) [OF inv c(2)] sched_invD(4) [OF inv t(1)] .
  have p: "prio_of cth < 32" "prio_of tth < 32" using ok by (simp_all add: thread_ok_def)
  have ne: "to \<noteq> c" using sched_invD(3) [OF inv] c t by (auto simp: cur_ok_def)
  have chk: "rt_scheduler_stack_check (tth\<lparr>stat := RT_THREAD_RUNNING\<rparr>) = Some ()"
    using ok(2) by (simp add: thread_ok_def rt_scheduler_stack_check_def)
  let ?s0 = "s\<lparr>cur_priority := of_nat hp, cur := Some to\<rparr>"
  show ?thesis
  proof (cases "stat cth = RT_THREAD_RUNNING")
    case True
    let ?c' = "cth\<lparr>stat_yield := False\<rparr>"
    let ?s1 = "(upd_thread c (\<lambda>th. th\<lparr>stat_yield := False\<rparr>) s)\<lparr>cur_priority := of_nat hp, cur := Some to\<rparr>"
    have i: "rt_schedule_insert_thread c ?s1 = Some (readied c ?c' ?s1)"
      using c ne p(1) by (intro insert_eq) auto
    have r: "rt_schedule_remove_thread to (readied c ?c' ?s1) = Some (unreadied to tth (readied c ?c' ?s1))"
      using t ne p(2) by (intro remove_eq) (simp_all add: readied_def)
    have "(unreadied to tth (readied c ?c' ?s1))\<lparr>threads := (threads (readied c ?c' ?s1))(to \<mapsto> tth\<lparr>stat := RT_THREAD_RUNNING\<rparr>),
        switches := switches s @ [(c, to, int_nest s \<noteq> 0)]\<rparr> = switched c cth to tth s"
      using True t(3) by (simp add: switched_def Let_def readied_def unreadied_def upd_thread_def)
    then show ?thesis
      using act hi c k True ne i r t chk
      by (simp add: rt_schedule_def Let_def readied_def unreadied_def upd_thread_def)
  next
    case False
    have r: "rt_schedule_remove_thread to ?s0 = Some (unreadied to tth ?s0)"
      using t p(2) by (intro remove_eq) simp_all
    show ?thesis
      using act hi c k False ne r t chk
      by (simp add: rt_schedule_def Let_def switched_def unreadied_def upd_thread_def)
  qed
qed

lemma switched_inv:
  assumes inv: "sched_inv s" and c: "cur s = Some c" "threads s c = Some cth"
    and t: "threads s to = Some tth" "stat tth = RT_THREAD_READY"
  shows "sched_inv (switched c cth to tth s)"
proof -
  have ok: "thread_ok cth" "thread_ok tth" using sched_invD(4) [OF inv c(2)] sched_invD(4) [OF inv t(1)] .
  have ne: "to \<noteq> c" using sched_invD(3) [OF inv] c t by (auto simp: cur_ok_def)
  define s1 where "s1 = (if stat cth = RT_THREAD_RUNNING
      then readied c (cth\<lparr>stat_yield := False\<rparr>) (s\<lparr>cur := Some to, cur_priority := of_nat (prio_of tth)\<rparr>)
      else s\<lparr>cur := Some to, cur_priority := of_nat (prio_of tth)\<rparr>)"
  have s1: "lists_ok s1 \<and> group_ok s1"
  proof (cases "stat cth = RT_THREAD_RUNNING")
    case True
    have nl: "\<not> linked c (lists s)" using linked_cases [OF sched_invD(1) [OF inv], of c] c True by auto
    show ?thesis
    proof -
      let ?s = "(upd_thread c (\<lambda>th. th\<lparr>stat_yield := False\<rparr>) s)\<lparr>cur := Some to, cur_priority := of_nat (prio_of tth)\<rparr>"
      have "lists_ok ?s" "group_ok ?s"
        using sched_invD(1,2) [OF inv] c True unfolding lists_ok_def group_ok_def
        by (auto split: lhead.splits) (metis option.inject th_stat.distinct)+
      then have "lists_ok (readied c (cth\<lparr>stat_yield := False\<rparr>) ?s) \<and> group_ok (readied c (cth\<lparr>stat_yield := False\<rparr>) ?s)"
        using c ok nl True by (intro readied_ok) simp_all
      moreover have "readied c (cth\<lparr>stat_yield := False\<rparr>) ?s = s1"
        using True by (simp add: s1_def readied_def upd_thread_def)
      ultimately show ?thesis by simp
    qed
  next
    case False
    then show ?thesis using sched_invD(1,2) [OF inv] by (simp add: s1_def lists_ok_def group_ok_def)
  qed
  have t1: "threads s1 to = Some tth" using t ne by (simp add: s1_def readied_def)
  have th1: "threads s1 = (if stat cth = RT_THREAD_RUNNING
      then (threads s)(c \<mapsto> cth\<lparr>stat_yield := False, stat := RT_THREAD_READY\<rparr>) else threads s)"
    by (simp add: s1_def readied_def)
  let ?s2 = "(unreadied to tth s1)\<lparr>threads := (threads s1)(to \<mapsto> tth\<lparr>stat := RT_THREAD_RUNNING\<rparr>)\<rparr>"
  have s2: "lists_ok ?s2 \<and> group_ok ?s2"
    using s1 t1 ok(2) t(2) by (intro unreadied_ok) simp_all
  have "switched c cth to tth s = ?s2\<lparr>switches := switches s @ [(c, to, int_nest s \<noteq> 0)]\<rparr>"
    by (simp add: switched_def Let_def s1_def)
  moreover have "lists_ok (x\<lparr>switches := w\<rparr>) = lists_ok x" "group_ok (x\<lparr>switches := w\<rparr>) = group_ok x" for x :: "'a sched_scheme" and w
    by (simp_all add: lists_ok_def group_ok_def)
  moreover have cur': "cur (switched c cth to tth s) = Some to"
    by (simp add: switched_def Let_def unreadied_def readied_def)
  moreover have ths: "threads (switched c cth to tth s) = (threads s1)(to \<mapsto> tth\<lparr>stat := RT_THREAD_RUNNING\<rparr>)"
    by (simp add: switched_def Let_def s1_def)
  moreover have "cur_ok (switched c cth to tth s)"
  proof -
    have "x = to" if x: "threads (switched c cth to tth s) x = Some th" "stat th = RT_THREAD_RUNNING" for x th
    proof (rule ccontr)
      assume "x \<noteq> to"
      then have "threads s1 x = Some th" using x(1) ths by simp
      then have "threads s x = Some th" "x = c \<Longrightarrow> stat cth \<noteq> RT_THREAD_RUNNING"
        using x(2) c(2) unfolding th1 by (auto split: if_splits)
      moreover from this have "cur s = Some x" using sched_invD(3) [OF inv] x(2) by (auto simp: cur_ok_def)
      ultimately show False using c x(2) by simp
    qed
    then have "\<forall>x th. threads (switched c cth to tth s) x = Some th \<longrightarrow> stat th = RT_THREAD_RUNNING \<longrightarrow>
        Some to = Some x" by blast
    then show ?thesis unfolding cur_ok_def cur' using ths by auto
  qed
  moreover have "thread_ok th" if "threads (switched c cth to tth s) x = Some th" for x th
    using that sched_invD(4) [OF inv, of x th] ok t(2) unfolding ths th1
    by (auto split: if_splits intro!: thread_ok_stat)
  ultimately show ?thesis using s2 by (simp add: sched_inv_def)
qed

text \<open>
  \<open>rt_schedule\<close> under the invariant: it returns, keeps the invariant, and either leaves the state
  (scheduler locked or nothing ready), or clears the yield mark of the running thread, or switches.
\<close>

lemma schedule_cases:
  assumes inv: "sched_inv s" and c: "cur s = Some c" "threads s c = Some cth"
  shows "(lock_nest s \<noteq> 0 \<or> ready_group s = 0) \<and> rt_schedule s = Some s \<or>
    lock_nest s = 0 \<and> (\<exists>to hp tth. scheduler_get_highest s = Some (to, hp) \<and> threads s to = Some tth \<and>
      stat tth = RT_THREAD_READY \<and> prio_of tth = hp \<and> hp < 32 \<and> hd (lists s (Ready hp)) = to \<and>
      lists s (Ready hp) \<noteq> [] \<and> (\<forall>p < hp. lists s (Ready p) = []) \<and>
      rt_schedule s = Some (if keeps_cpu cth hp then upd_thread c (\<lambda>th. th\<lparr>stat_yield := False\<rparr>) s
                            else switched c cth to tth s))"
proof (cases "lock_nest s \<noteq> 0 \<or> ready_group s = 0")
  case True
  then show ?thesis using schedule_idle [OF True] by simp
next
  case False
  then have act: "lock_nest s = 0" "ready_group s \<noteq> 0" by simp_all
  from highest_ok [OF sched_invD(1,2) [OF inv] act(2)] obtain to hp tth where
    hi: "scheduler_get_highest s = Some (to, hp)" "hp < 32" "hd (lists s (Ready hp)) = to"
      "lists s (Ready hp) \<noteq> []" "\<forall>p < hp. lists s (Ready p) = []"
    and t: "threads s to = Some tth" "stat tth = RT_THREAD_READY" "prio_of tth = hp" by blast
  show ?thesis
    using schedule_keep [OF inv act hi(1) c] schedule_switch [OF inv act hi(1) c _ t] hi t act(1)
    by (intro disjI2) (auto intro!: exI [of _ to])
qed

lemma upd_thread_inv:
  assumes "sched_inv s" and "\<And>th. threads s t = Some th \<Longrightarrow> stat (f th) = stat th \<and>
    (stat th = RT_THREAD_READY \<longrightarrow> prio_of (f th) = prio_of th) \<and> thread_ok (f th)"
  shows "sched_inv (upd_thread t f s)"
proof -
  have m: "threads (upd_thread t f s) x = Some th' \<Longrightarrow> \<exists>th. threads s x = Some th \<and> stat th' = stat th \<and>
      (stat th = RT_THREAD_READY \<longrightarrow> prio_of th' = prio_of th) \<and> thread_ok th'"
    "threads s x = Some th \<Longrightarrow> \<exists>th'. threads (upd_thread t f s) x = Some th' \<and> stat th' = stat th \<and>
      (stat th = RT_THREAD_READY \<longrightarrow> prio_of th' = prio_of th)" for x th th'
    using assms sched_invD(4) [OF assms(1)] by (auto split: if_splits)
  note D = lists_okD [OF sched_invD(1) [OF assms(1)]]
  have "lists_ok (upd_thread t f s)"
  proof (rule lists_okI)
    show "tbl_wf (lists (upd_thread t f s))" using D(1) by simp
    show "x \<in> set (lists (upd_thread t f s) (Ready p)) \<Longrightarrow>
        \<exists>th. threads (upd_thread t f s) x = Some th \<and> stat th = RT_THREAD_READY \<and> prio_of th = p" for x p
      using D(2) [of x p] m(2) [of x] by fastforce
    show "x \<in> set (lists (upd_thread t f s) (Suspend i)) \<Longrightarrow>
        \<exists>th. threads (upd_thread t f s) x = Some th \<and> stat th = RT_THREAD_SUSPEND" for x i
      using D(3) [of x i] m(2) [of x] by fastforce
    show "x \<in> set (lists (upd_thread t f s) (SuspendSender i)) \<Longrightarrow>
        \<exists>th. threads (upd_thread t f s) x = Some th \<and> stat th = RT_THREAD_SUSPEND" for x i
      using D(4) [of x i] m(2) [of x] by fastforce
    show "x \<in> set (lists (upd_thread t f s) Defunct) \<Longrightarrow>
        \<exists>th. threads (upd_thread t f s) x = Some th \<and> stat th = RT_THREAD_CLOSE" for x
      using D(6) [of x] m(2) [of x] by fastforce
    show "threads (upd_thread t f s) x = Some th \<Longrightarrow> stat th = RT_THREAD_READY \<Longrightarrow>
        x \<in> set (lists (upd_thread t f s) (Ready (prio_of th)))" for x th
      using D(5) [of x] m(1) [of x th] by fastforce
  qed
  moreover have "group_ok (upd_thread t f s)" using sched_invD(2) [OF assms(1)] by (simp add: group_ok_def)
  moreover have "cur_ok (upd_thread t f s)"
    using sched_invD(3) [OF assms(1)] m unfolding cur_ok_def upd_thread_sel(4) by metis
  ultimately show ?thesis using m(1) unfolding sched_inv_def by blast
qed

lemma schedule_inv:
  assumes inv: "sched_inv s" and c: "cur s \<noteq> None"
  shows "\<exists>s'. rt_schedule s = Some s' \<and> sched_inv s' \<and> cur s' \<noteq> None"
proof -
  obtain c cth where c: "cur s = Some c" "threads s c = Some cth"
    using c sched_invD(3) [OF inv] by (auto simp: cur_ok_def)
  have "sched_inv (upd_thread c (\<lambda>th. th\<lparr>stat_yield := False\<rparr>) s)"
    using upd_thread_inv [OF inv] sched_invD(4) [OF inv] by simp
  then show ?thesis
    using schedule_cases [OF inv c] switched_inv [OF inv c] inv c
    by (auto simp: switched_def Let_def unreadied_def readied_def)
qed

section \<open>A concrete state\<close>

text \<open>Thread 1 runs, 2 and 3 are ready at its priority, 4 is ready below, 5 waits on the object at 9.\<close>

definition ex_thread :: "th_stat \<Rightarrow> u8 \<Rightarrow> rt_thread" where
  "ex_thread st p = \<lparr>th_static = True, entry = 0, parameter = 0, cleanup = 0, stack_sp = 0x180, stack_addr = 0x100, stack_size = 0x100,
     stack_magic = 0x23, th_error = RT_EOK, stat = st, stat_yield = False, current_priority = p,
     number_mask = push_bit (unat p) 1, event_set = 0, event_info = 0, init_tick = 10, remaining_tick = 10\<rparr>"

definition ex_sched :: sched where
  "ex_sched = \<lparr>rt_tick = 0, timers = Map.empty, trow = (\<lambda>_. []), random_nr = 0,
     threads = [1 \<mapsto> ex_thread RT_THREAD_RUNNING 5, 2 \<mapsto> ex_thread RT_THREAD_READY 5,
       3 \<mapsto> ex_thread RT_THREAD_READY 5, 4 \<mapsto> ex_thread RT_THREAD_READY 31,
       5 \<mapsto> ex_thread RT_THREAD_SUSPEND 3],
     lists = (\<lambda>_. [])(Ready 5 := [2, 3], Ready 31 := [4], Suspend 9 := [5]),
     ready_group = 0x80000020, cur = Some 1, cur_priority = 5, lock_nest = 0, int_nest = 0,
     switches = []\<rparr>"

lemma ex_thread_ok: "unat p < 32 \<Longrightarrow> thread_ok (ex_thread st p)"
  by (simp add: thread_ok_def ex_thread_def prio_of_def rt_scheduler_stack_check_def)

lemma ex_thread_sel [simp]:
  "stat (ex_thread st p) = st" "prio_of (ex_thread st p) = unat p" "stat_yield (ex_thread st p) = False"
  "current_priority (ex_thread st p) = p"
  by (simp_all add: ex_thread_def prio_of_def)

lemma bit_ex_group: "p < 32 \<Longrightarrow> bit (0x80000020 :: u32) p \<longleftrightarrow> p = 5 \<or> p = 31"
proof -
  assume p: "p < 32"
  have "(0x80000020 :: u32) = (2 ^ 5) OR 2 ^ 31" by simp
  then have "bit (0x80000020 :: u32) p \<longleftrightarrow> bit ((2 ^ 5) OR 2 ^ 31 :: u32) p" by (simp only:)
  also have "\<dots> \<longleftrightarrow> bit (2 ^ 5 :: u32) p \<or> bit (2 ^ 31 :: u32) p" by (rule bit_or_iff)
  also have "\<dots> \<longleftrightarrow> 5 = p \<or> 31 = p" by (subst (1 2) bit_prio_mask) (simp_all add: p)
  finally show ?thesis by auto
qed

lemma ex_sched_inv: "sched_inv ex_sched"
proof -
  have "lists_ok ex_sched"
    by (rule lists_okI) (auto simp: ex_sched_def tbl_wf_def split: if_splits)
  moreover have "group_ok ex_sched"
    using bit_ex_group by (auto simp: group_ok_def ex_sched_def)
  moreover have "cur_ok ex_sched" by (auto simp: cur_ok_def ex_sched_def split: if_splits)
  moreover have "threads ex_sched t = Some th \<Longrightarrow> thread_ok th" for t th
    by (auto simp: ex_sched_def split: if_splits intro!: ex_thread_ok)
  ultimately show ?thesis by (auto simp: sched_inv_def)
qed

section \<open>Properties\<close>

text \<open>
  C4: With the scheduler unlocked, \<open>rt_schedule\<close> gives the processor to a thread of the highest
  priority: after it the current thread is RUNNING whenever it was, or some thread was ready, no
  ready thread has a higher priority, and the scheduler's invariant holds again.
\<close>

theorem schedule_highest:
  assumes "sched_inv s" and "cur s \<noteq> None" and "lock_nest s = 0"
  shows "\<exists>s' c th. rt_schedule s = Some s' \<and> sched_inv s' \<and> cur s' = Some c \<and> threads s' c = Some th \<and>
    (ready_group s \<noteq> 0 \<or> (\<exists>th0. threads s (the (cur s)) = Some th0 \<and> stat th0 = RT_THREAD_RUNNING) \<longrightarrow>
       stat th = RT_THREAD_RUNNING \<and> (\<forall>p < prio_of th. lists s' (Ready p) = []))"
proof -
  obtain c cth where c: "cur s = Some c" "threads s c = Some cth"
    using assms(2) sched_invD(3) [OF assms(1)] by (auto simp: cur_ok_def)
  obtain s' where s': "rt_schedule s = Some s'" "sched_inv s'" using schedule_inv [OF assms(1,2)] by blast
  have ok: "thread_ok cth" using sched_invD(4) [OF assms(1) c(2)] .
  show ?thesis
  proof (cases "ready_group s = 0")
    case True
    then have "s' = s" using s'(1) schedule_idle [of s] by simp
    then show ?thesis
      using s' c True ok group_zero [OF sched_invD(2) [OF assms(1)] True] by (auto simp: thread_ok_def)
  next
    case False
    then obtain to hp tth where
      hi: "threads s to = Some tth" "stat tth = RT_THREAD_READY" "prio_of tth = hp" "\<forall>p < hp. lists s (Ready p) = []"
      "rt_schedule s = Some (if keeps_cpu cth hp then upd_thread c (\<lambda>th. th\<lparr>stat_yield := False\<rparr>) s
                            else switched c cth to tth s)"
      using schedule_cases [OF assms(1) c] assms(3) by auto
    show ?thesis
    proof (cases "keeps_cpu cth hp")
      case True
      then show ?thesis using hi s' c by (auto simp: keeps_cpu_def)
    next
      case k: False
      have r: "\<not> prio_of cth < hp" if "stat cth = RT_THREAD_RUNNING" using k that by (simp add: keeps_cpu_def)
      have e: "s' = switched c cth to tth s" using hi(5) k s'(1) by simp
      have "threads s' to = Some (tth\<lparr>stat := RT_THREAD_RUNNING\<rparr>)" "cur s' = Some to"
        by (simp_all add: e switched_def Let_def unreadied_def readied_def)
      moreover have "lists s' (Ready p) = []" if "p < hp" for p
        using that hi(4) r by (auto simp: e switched_def Let_def unreadied_def readied_def
            tbl_remove_def tbl_insert_tail_apply)
      ultimately show ?thesis using s' hi(3) by simp
    qed
  qed
qed

theorem schedule_highest_witness:
  "\<exists>s' c th. rt_schedule ex_sched = Some s' \<and> sched_inv s' \<and> cur s' = Some c \<and> threads s' c = Some th \<and>
    (ready_group ex_sched \<noteq> 0 \<or> (\<exists>th0. threads ex_sched (the (cur ex_sched)) = Some th0 \<and> stat th0 = RT_THREAD_RUNNING) \<longrightarrow>
       stat th = RT_THREAD_RUNNING \<and> (\<forall>p < prio_of th. lists s' (Ready p) = []))"
  by (rule schedule_highest [OF ex_sched_inv]) (simp_all add: ex_sched_def)

text \<open>
  A running thread marked as yielding (its time slice is over, or it yielded) hands the
  processor to the head of the ready list of its own priority and goes to the tail of that list, so
  threads of one priority take turns; an unmarked one keeps the processor against its equals.
\<close>

theorem schedule_round_robin:
  assumes "sched_inv s" and "lock_nest s = 0" and "cur s = Some c" and "threads s c = Some cth"
    and "stat cth = RT_THREAD_RUNNING" and "lists s (Ready (prio_of cth)) = to # rest"
    and "\<forall>p < prio_of cth. lists s (Ready p) = []"
  shows "\<exists>s'. rt_schedule s = Some s' \<and>
    (if stat_yield cth then cur s' = Some to \<and> lists s' (Ready (prio_of cth)) = rest @ [c]
     else cur s' = Some c \<and> lists s' = lists s)"
proof -
  have ok: "thread_ok cth" using sched_invD(4) [OF assms(1,4)] .
  have "bit (ready_group s) (prio_of cth)"
    using sched_invD(2) [OF assms(1)] ok assms(6) by (simp add: group_ok_def thread_ok_def)
  then have "ready_group s \<noteq> 0" by auto
  then obtain t hp tth where
    hi: "threads s t = Some tth" "prio_of tth = hp" "hd (lists s (Ready hp)) = t" "lists s (Ready hp) \<noteq> []"
      "\<forall>p < hp. lists s (Ready p) = []"
      "rt_schedule s = Some (if keeps_cpu cth hp then upd_thread c (\<lambda>th. th\<lparr>stat_yield := False\<rparr>) s
                            else switched c cth t tth s)"
    using schedule_cases [OF assms(1,3,4)] assms(2) by auto
  have hp: "hp = prio_of cth"
    using hi(4,5) assms(6,7) by (metis linorder_neqE_nat list.distinct(1))
  then have t: "t = to" using hi(3) assms(6) by simp
  have d: "distinct (to # rest)" using tbl_wfD [OF sched_invD(5) [OF assms(1)], of "Ready (prio_of cth)"] assms(6) by simp
  have ne: "to \<noteq> c"
    using lists_okD(2) [OF sched_invD(1) [OF assms(1)], of to "prio_of cth"] assms(4,5,6) by auto
  show ?thesis
    using hi(6) assms(3,5,6) hp t d ne
    by (auto simp: keeps_cpu_def switched_def Let_def unreadied_def readied_def tbl_remove_def
        tbl_insert_tail_apply remove1_idem)
qed

definition ex_yield :: sched where
  "ex_yield = upd_thread 1 (\<lambda>th. th\<lparr>stat_yield := True\<rparr>) ex_sched"

lemma ex_yield_inv: "sched_inv ex_yield"
  unfolding ex_yield_def using sched_invD(4) [OF ex_sched_inv]
  by (intro upd_thread_inv [OF ex_sched_inv]) simp

theorem schedule_round_robin_witness:
  "\<exists>s'. rt_schedule ex_yield = Some s' \<and>
    (if stat_yield (the (threads ex_yield 1)) then cur s' = Some 2 \<and> lists s' (Ready (prio_of (the (threads ex_yield 1)))) = [3] @ [1]
     else cur s' = Some 1 \<and> lists s' = lists ex_yield)"
  by (rule schedule_round_robin [OF ex_yield_inv]) (simp_all add: ex_yield_def ex_sched_def)

lemma sint_of_nat16: "m \<le> 32767 \<Longrightarrow> sint (of_nat m :: u16) = int m"
proof -
  assume m: "m \<le> 32767"
  have "sint (word_of_int (int m) :: u16) = signed_take_bit 15 (int m)" by (simp only: sint_sbintrunc') simp
  also have "\<dots> = int m" using m by (intro signed_take_bit_int_eq_self) simp_all
  finally show ?thesis by simp
qed

lemma enter_critical_funpow:
  "lock_nest s = 0 \<Longrightarrow> (rt_enter_critical ^^ m) s = s\<lparr>lock_nest := of_nat m\<rparr>"
  by (induction m) (simp_all add: rt_enter_critical_def add.commute)

text \<open>
  Inside \<open>n\<close> nested critical sections (\<open>n\<close> at most 32767) no call of \<open>rt_schedule\<close> and no exit
  but the last changes anything but the nesting count; the last exit unlocks the scheduler and
  reschedules.
\<close>

theorem critical_nesting:
  assumes "lock_nest s = 0" and "0 < n" and "n \<le> 32767" and "k < n"
  defines "locked \<equiv> s\<lparr>lock_nest := of_nat (n - k)\<rparr>"
  shows "((\<lambda>st. st \<bind> rt_exit_critical) ^^ k) (Some ((rt_enter_critical ^^ n) s)) = Some locked \<and>
    rt_schedule locked = Some locked \<and>
    (k + 1 = n \<longrightarrow> rt_exit_critical locked =
       (if cur s \<noteq> None then rt_schedule (s\<lparr>lock_nest := 0\<rparr>) else Some (s\<lparr>lock_nest := 0\<rparr>)))"
proof -
  note en = enter_critical_funpow [OF assms(1)]
  have pos: "0 < sint (of_nat m :: u16)" "(of_nat m :: u16) \<noteq> 0" if "0 < m" "m \<le> 32767" for m :: nat
    using that sint_of_nat16 [of m] by auto
  have ex: "((\<lambda>st. st \<bind> rt_exit_critical) ^^ j) (Some (s\<lparr>lock_nest := of_nat n\<rparr>)) = Some (s\<lparr>lock_nest := of_nat (n - j)\<rparr>)"
    if "j < n" for j
    using that
  proof (induction j)
    case (Suc j)
    have e: "of_nat (n - j) - 1 = (of_nat (n - Suc j) :: u16)"
      using Suc.prems by (simp add: of_nat_diff)
    have b: "0 < n - Suc j" "n - Suc j \<le> 32767" using Suc.prems assms(3) by auto
    have "\<not> sint (of_nat (n - Suc j) :: u16) \<le> 0" using pos(1) [OF b] by linarith
    then have "rt_exit_critical (s\<lparr>lock_nest := of_nat (n - j)\<rparr>) = Some (s\<lparr>lock_nest := of_nat (n - Suc j)\<rparr>)"
      by (simp add: rt_exit_critical_def Let_def e)
    then show ?case using Suc by simp
  qed simp
  show ?thesis
    using ex [OF assms(4)] en [of n] pos(2) [of "n - k"] assms(2-4)
    by (auto simp: locked_def rt_schedule_def rt_exit_critical_def Let_def)
qed

theorem critical_nesting_witness:
  "((\<lambda>st. st \<bind> rt_exit_critical) ^^ 1) (Some ((rt_enter_critical ^^ 2) ex_yield)) = Some (ex_yield\<lparr>lock_nest := 1\<rparr>) \<and>
    rt_schedule (ex_yield\<lparr>lock_nest := 1\<rparr>) = Some (ex_yield\<lparr>lock_nest := 1\<rparr>) \<and>
    rt_exit_critical (ex_yield\<lparr>lock_nest := 1\<rparr>) = rt_schedule (ex_yield\<lparr>lock_nest := 0\<rparr>)"
proof -
  have "lock_nest ex_yield = 0" "cur ex_yield \<noteq> None" by (simp_all add: ex_yield_def ex_sched_def)
  then show ?thesis using critical_nesting [of ex_yield 2 1] by simp
qed

text \<open>
  The nesting count is a signed 16-bit integer: after 32769 nested \<open>rt_enter_critical\<close> calls a
  single \<open>rt_exit_critical\<close> unlocks the scheduler.
\<close>

theorem critical_nesting_overflow:
  assumes "lock_nest s = 0"
  shows "rt_exit_critical ((rt_enter_critical ^^ 32769) s) = (if cur s \<noteq> None then rt_schedule s else Some s)"
proof -
  have "s\<lparr>lock_nest := 0\<rparr> = s" using assms by (cases s) simp
  then show ?thesis
    unfolding enter_critical_funpow [OF assms] by (simp add: rt_exit_critical_def Let_def)
qed

theorem critical_nesting_overflow_witness:
  "rt_exit_critical ((rt_enter_critical ^^ 32769) ex_sched) =
    (if cur ex_sched \<noteq> None then rt_schedule ex_sched else Some ex_sched)"
  by (rule critical_nesting_overflow) (simp add: ex_sched_def)

end
