(* ===== verification/Thread.thy ===== *)
theory Thread
  imports Sched
begin

text \<open>
  Threads: rt-thread/src/thread.c, the tick of rt-thread/src/clock.c, the clean-up of finished
  threads and the hook table of rt-thread/src/idle.c, and the initial stack frame of
  rt-thread/libcpu/arm/cortex-m7/cpuport.c. A call that gives up the processor is split at its
  \<open>rt_schedule\<close>: the first part ends there, the second is what the thread does when it runs again.
\<close>

section \<open>The initial stack frame (cpuport.c)\<close>

text \<open>
  The frame is \<open>flag\<close> (with the FPU), r4 to r11, and the exception frame. The result is the stack
  pointer and the words from there on.
\<close>

definition rt_hw_stack_init :: "bool \<Rightarrow> u32 \<Rightarrow> u32 \<Rightarrow> u32 \<Rightarrow> u32 \<Rightarrow> u32 \<times> u32 list" where
  "rt_hw_stack_init use_fpu tentry param stk0 texit =
    (let stk = (stk0 + 4) AND NOT 7;
         stk = stk - (if use_fpu then 68 else 64)
     in (stk, (if use_fpu then [0] else []) @ replicate 8 0xdeadbeef @
           [param, 0, 0, 0, 0, texit, tentry, 0x01000000]))"

section \<open>thread.c\<close>

definition thread_init_rec :: "bool \<Rightarrow> bool \<Rightarrow> u32 \<Rightarrow> u32 \<Rightarrow> u32 \<Rightarrow> u32 \<Rightarrow> u8 \<Rightarrow> u32 \<Rightarrow> rt_thread" where
  "thread_init_rec use_fpu static ent param stk sz priority tick =
    \<lparr>th_static = static, entry = ent, parameter = param, cleanup = 0,
     stack_sp = fst (rt_hw_stack_init use_fpu ent param (stk + sz - 4) 0), stack_addr = stk, stack_size = sz,
     stack_magic = 0x23, th_error = RT_EOK, stat = RT_THREAD_INIT, stat_yield = False,
     current_priority = priority, number_mask = 0, event_set = 0, event_info = 0,
     init_tick = tick, remaining_tick = tick\<rparr>"

definition thread_init :: "bool \<Rightarrow> bool \<Rightarrow> nat \<Rightarrow> u32 \<Rightarrow> u32 \<Rightarrow> u32 \<Rightarrow> u32 \<Rightarrow> u8 \<Rightarrow> u32 \<Rightarrow>
    'z sched_scheme \<Rightarrow> 'z sched_scheme option" where
  "thread_init use_fpu static t ent param stk sz priority tick s = do {
     rt_assert (unat priority < RT_THREAD_PRIORITY_MAX);
     let s = s\<lparr>threads := (threads s)(t \<mapsto> thread_init_rec use_fpu static ent param stk sz priority tick)\<rparr>;
     rt_timer_init (ThreadTimer t) (ThreadTimeout t) 0 0 s }"

definition rt_thread_init :: "bool \<Rightarrow> nat \<Rightarrow> u32 \<Rightarrow> u32 \<Rightarrow> u32 \<Rightarrow> u32 \<Rightarrow> u8 \<Rightarrow> u32 \<Rightarrow>
    'z sched_scheme \<Rightarrow> (rt_err \<times> 'z sched_scheme) option" where
  "rt_thread_init use_fpu t ent param stk sz priority tick s = do {
     rt_assert (stk \<noteq> 0);
     rt_assert (threads s t = None);
     s \<leftarrow> thread_init use_fpu True t ent param stk sz priority tick s;
     Some (RT_EOK, s) }"

definition rt_thread_self :: "'z sched_scheme \<Rightarrow> nat option" where
  "rt_thread_self s = cur s"

definition rt_thread_resume :: "nat \<Rightarrow> 'z sched_scheme \<Rightarrow> (rt_err \<times> 'z sched_scheme) option" where
  "rt_thread_resume t s = do {
     th \<leftarrow> threads s t;
     (if stat th \<noteq> RT_THREAD_SUSPEND then Some (E_ERROR, s)
      else do {
        let s = s\<lparr>lists := tbl_remove t (lists s)\<rparr>;
        (_, s) \<leftarrow> rt_timer_stop (ThreadTimer t) s;
        s \<leftarrow> rt_schedule_insert_thread t s;
        Some (RT_EOK, s) }) }"

definition rt_thread_startup :: "nat \<Rightarrow> 'z sched_scheme \<Rightarrow> (rt_err \<times> 'z sched_scheme) option" where
  "rt_thread_startup t s = do {
     th \<leftarrow> threads s t;
     rt_assert (stat th = RT_THREAD_INIT);
     let s = upd_thread t (\<lambda>th. th\<lparr>number_mask := push_bit (unat (current_priority th)) 1,
                                    stat := RT_THREAD_SUSPEND, stat_yield := False\<rparr>) s;
     (_, s) \<leftarrow> rt_thread_resume t s;
     s \<leftarrow> (if rt_thread_self s \<noteq> None then rt_schedule s else Some s);
     Some (RT_EOK, s) }"

definition rt_thread_defunct_enqueue :: "nat \<Rightarrow> 'z sched_scheme \<Rightarrow> 'z sched_scheme" where
  "rt_thread_defunct_enqueue t s = s\<lparr>lists := tbl_insert_head Defunct t (lists s)\<rparr>"

text \<open>The common part of \<open>_thread_exit\<close>, \<open>rt_thread_detach\<close> and \<open>rt_thread_delete\<close>: release the timer, close, enqueue.\<close>

definition thread_close :: "nat \<Rightarrow> 'z sched_scheme \<Rightarrow> 'z sched_scheme option" where
  "thread_close t s = do {
     (_, s) \<leftarrow> rt_timer_detach (ThreadTimer t) s;
     let s = upd_thread t (\<lambda>th. th\<lparr>stat := RT_THREAD_CLOSE, stat_yield := False\<rparr>) s;
     Some (rt_thread_defunct_enqueue t s) }"

definition thread_exit :: "'z sched_scheme \<Rightarrow> 'z sched_scheme option" where
  "thread_exit s = do {
     t \<leftarrow> rt_thread_self s;
     s \<leftarrow> rt_schedule_remove_thread t s;
     s \<leftarrow> thread_close t s;
     rt_schedule s }"

definition rt_thread_detach :: "nat \<Rightarrow> 'z sched_scheme \<Rightarrow> (rt_err \<times> 'z sched_scheme) option" where
  "rt_thread_detach t s = do {
     th \<leftarrow> threads s t;
     rt_assert (th_static th);
     (if stat th = RT_THREAD_CLOSE then Some (RT_EOK, s)
      else do {
        s \<leftarrow> (if stat th \<noteq> RT_THREAD_INIT then rt_schedule_remove_thread t s else Some s);
        s \<leftarrow> thread_close t s;
        Some (RT_EOK, s) }) }"

text \<open>\<open>rt_thread_create\<close>: \<open>obj\<close> and \<open>stack\<close> are what the object and the stack allocation give.\<close>

definition rt_thread_create :: "bool \<Rightarrow> nat option \<Rightarrow> u32 option \<Rightarrow> u32 \<Rightarrow> u32 \<Rightarrow> u32 \<Rightarrow> u8 \<Rightarrow> u32 \<Rightarrow>
    'z sched_scheme \<Rightarrow> (nat option \<times> 'z sched_scheme) option" where
  "rt_thread_create use_fpu obj stack ent param sz priority tick s =
    (case obj of
       None \<Rightarrow> Some (None, s)
     | Some t \<Rightarrow>
         (case stack of
            None \<Rightarrow> Some (None, s)
          | Some stk \<Rightarrow> map_option (\<lambda>s. (Some t, s)) (thread_init use_fpu False t ent param stk sz priority tick s)))"

definition rt_thread_delete :: "nat \<Rightarrow> 'z sched_scheme \<Rightarrow> (rt_err \<times> 'z sched_scheme) option" where
  "rt_thread_delete t s = do {
     th \<leftarrow> threads s t;
     rt_assert (\<not> th_static th);
     (if stat th = RT_THREAD_CLOSE then Some (RT_EOK, s)
      else do {
        s \<leftarrow> (if stat th \<noteq> RT_THREAD_INIT then rt_schedule_remove_thread t s else Some s);
        s \<leftarrow> thread_close t s;
        Some (RT_EOK, s) }) }"

definition rt_thread_yield :: "'z sched_scheme \<Rightarrow> (rt_err \<times> 'z sched_scheme) option" where
  "rt_thread_yield s = do {
     t \<leftarrow> rt_thread_self s;
     th \<leftarrow> threads s t;
     let s = upd_thread t (\<lambda>th. th\<lparr>remaining_tick := init_tick th, stat_yield := True\<rparr>) s;
     s \<leftarrow> rt_schedule s;
     Some (RT_EOK, s) }"

definition rt_thread_suspend :: "nat \<Rightarrow> 'z sched_scheme \<Rightarrow> (rt_err \<times> 'z sched_scheme) option" where
  "rt_thread_suspend t s = do {
     th \<leftarrow> threads s t;
     rt_assert (rt_thread_self s = Some t);
     (if stat th \<noteq> RT_THREAD_READY \<and> stat th \<noteq> RT_THREAD_RUNNING then Some (E_ERROR, s)
      else do {
        s \<leftarrow> rt_schedule_remove_thread t s;
        let s = upd_thread t (\<lambda>th. th\<lparr>stat := RT_THREAD_SUSPEND\<rparr>) s;
        (_, s) \<leftarrow> rt_timer_stop (ThreadTimer t) s;
        Some (RT_EOK, s) }) }"

text \<open>Setting the interval of a thread's timer and starting it, as every timed wait does.\<close>

definition thread_timer_run :: "nat \<Rightarrow> tick \<Rightarrow> 'z sched_scheme \<Rightarrow> 'z sched_scheme option" where
  "thread_timer_run t tick s = do {
     (_, _, s) \<leftarrow> rt_timer_control (ThreadTimer t) RT_TIMER_CTRL_SET_TIME tick s;
     (_, s) \<leftarrow> rt_timer_start (ThreadTimer t) s;
     Some s }"

definition rt_thread_sleep :: "tick \<Rightarrow> 'z sched_scheme \<Rightarrow> 'z sched_scheme option" where
  "rt_thread_sleep tick s = do {
     t \<leftarrow> rt_thread_self s;
     th \<leftarrow> threads s t;
     let s = upd_thread t (\<lambda>th. th\<lparr>th_error := RT_EOK\<rparr>) s;
     (_, s) \<leftarrow> rt_thread_suspend t s;
     s \<leftarrow> thread_timer_run t tick s;
     rt_schedule s }"

definition rt_thread_sleep_return :: "nat \<Rightarrow> 'z sched_scheme \<Rightarrow> (rt_err \<times> 'z sched_scheme) option" where
  "rt_thread_sleep_return t s = do {
     th \<leftarrow> threads s t;
     let s = (if th_error th = E_TIMEOUT then upd_thread t (\<lambda>th. th\<lparr>th_error := RT_EOK\<rparr>) s else s);
     th \<leftarrow> threads s t;
     Some (th_error th, s) }"

definition rt_thread_delay :: "tick \<Rightarrow> 'z sched_scheme \<Rightarrow> 'z sched_scheme option" where
  "rt_thread_delay tick s = rt_thread_sleep tick s"

definition rt_thread_mdelay :: "u32 \<Rightarrow> 'z sched_scheme \<Rightarrow> 'z sched_scheme option" where
  "rt_thread_mdelay ms s = rt_thread_sleep (rt_tick_from_millisecond ms) s"

text \<open>
  \<open>rt_thread_delay_until\<close>: \<open>Inl\<close> the new tick when the thread waits (the call ends with
  \<open>rt_thread_sleep_return\<close>), \<open>Inr\<close> the new tick and the result when the moment has passed.
\<close>

definition rt_thread_delay_until :: "tick \<Rightarrow> tick \<Rightarrow> 'z sched_scheme \<Rightarrow>
    ((tick + tick \<times> rt_err) \<times> 'z sched_scheme) option" where
  "rt_thread_delay_until tick inc_tick s = do {
     t \<leftarrow> rt_thread_self s;
     th \<leftarrow> threads s t;
     let s = upd_thread t (\<lambda>th. th\<lparr>th_error := RT_EOK\<rparr>) s;
     let cur_tick = rt_tick_get s;
     (if cur_tick - tick < inc_tick then do {
        let left = tick + inc_tick - cur_tick;
        (_, s) \<leftarrow> rt_thread_suspend t s;
        s \<leftarrow> thread_timer_run t left s;
        s \<leftarrow> rt_schedule s;
        Some (Inl (tick + inc_tick), s) }
      else Some (Inr (cur_tick, RT_EOK), s)) }"

datatype thread_ctrl = RT_THREAD_CTRL_STARTUP | RT_THREAD_CTRL_CLOSE | RT_THREAD_CTRL_CHANGE_PRIORITY u8
  | RT_THREAD_CTRL_OTHER int

text \<open>A priority of 32 or more shifts the mask out of the word, which C leaves undefined.\<close>

definition rt_thread_control :: "nat \<Rightarrow> thread_ctrl \<Rightarrow> 'z sched_scheme \<Rightarrow> (rt_err \<times> 'z sched_scheme) option" where
  "rt_thread_control t cmd s = do {
     th \<leftarrow> threads s t;
     (case cmd of
        RT_THREAD_CTRL_CHANGE_PRIORITY p \<Rightarrow>
          (let change = (\<lambda>th. th\<lparr>current_priority := p, number_mask := push_bit (unat p) 1\<rparr>) in
           if stat th = RT_THREAD_READY then do {
             s \<leftarrow> rt_schedule_remove_thread t s;
             rt_assert (unat p < 32);
             s \<leftarrow> rt_schedule_insert_thread t (upd_thread t change s);
             Some (RT_EOK, s) }
           else do {
             rt_assert (unat p < 32);
             Some (RT_EOK, upd_thread t change s) })
      | RT_THREAD_CTRL_STARTUP \<Rightarrow> rt_thread_startup t s
      | RT_THREAD_CTRL_CLOSE \<Rightarrow> do {
          (e, s) \<leftarrow> (if th_static th then rt_thread_detach t s else rt_thread_delete t s);
          s \<leftarrow> rt_schedule s;
          Some (e, s) }
      | RT_THREAD_CTRL_OTHER _ \<Rightarrow> Some (RT_EOK, s)) }"

definition thread_timeout :: "nat \<Rightarrow> 'z sched_scheme \<Rightarrow> 'z sched_scheme option" where
  "thread_timeout t s = do {
     th \<leftarrow> threads s t;
     rt_assert (stat th = RT_THREAD_SUSPEND);
     let s = upd_thread t (\<lambda>th. th\<lparr>th_error := E_TIMEOUT\<rparr>) s;
     let s = s\<lparr>lists := tbl_remove t (lists s)\<rparr>;
     s \<leftarrow> rt_schedule_insert_thread t s;
     rt_schedule s }"

section \<open>clock.c: the tick\<close>

text \<open>The callback of a timer: the thread timeout, or a user function (a parameter).\<close>

definition timer_fire :: "(nat \<Rightarrow> nat \<Rightarrow> 'z sched_scheme \<Rightarrow> 'z sched_scheme option) \<Rightarrow> timeout_fn \<Rightarrow>
    'z sched_scheme \<Rightarrow> 'z sched_scheme option" where
  "timer_fire user f s = (case f of ThreadTimeout t \<Rightarrow> thread_timeout t s | Callback fn p \<Rightarrow> user fn p s)"

definition tick_slice :: "'z sched_scheme \<Rightarrow> 'z sched_scheme option" where
  "tick_slice s = do {
     let s = s\<lparr>rt_tick := rt_tick s + 1\<rparr>;
     t \<leftarrow> rt_thread_self s;
     th \<leftarrow> threads s t;
     let s = upd_thread t (\<lambda>th. th\<lparr>remaining_tick := remaining_tick th - 1\<rparr>) s;
     (if remaining_tick th - 1 = 0
      then rt_schedule (upd_thread t (\<lambda>th. th\<lparr>remaining_tick := init_tick th, stat_yield := True\<rparr>) s)
      else Some s) }"

definition rt_tick_increase :: "(nat \<Rightarrow> nat \<Rightarrow> 'z sched_scheme \<Rightarrow> 'z sched_scheme option) \<Rightarrow> nat \<Rightarrow>
    'z sched_scheme \<Rightarrow> 'z sched_scheme run" where
  "rt_tick_increase user n s =
    (case tick_slice s of None \<Rightarrow> Halted | Some s \<Rightarrow> rt_timer_check (timer_fire user) n s)"

section \<open>idle.c\<close>

definition rt_thread_defunct_dequeue :: "'z sched_scheme \<Rightarrow> nat option \<times> 'z sched_scheme" where
  "rt_thread_defunct_dequeue s =
    (case lists s Defunct of [] \<Rightarrow> (None, s) | t # _ \<Rightarrow> (Some t, s\<lparr>lists := tbl_remove t (lists s)\<rparr>))"

text \<open>
  \<open>rt_defunct_execute\<close>: \<open>cleanup_fn\<close> is the call of a thread's cleanup function; the stack and the
  object of a dynamic thread go back to the heap, which is not part of this state.
\<close>

fun rt_defunct_execute :: "(u32 \<Rightarrow> nat \<Rightarrow> 'z sched_scheme \<Rightarrow> 'z sched_scheme option) \<Rightarrow> nat \<Rightarrow>
    'z sched_scheme \<Rightarrow> 'z sched_scheme run" where
  "rt_defunct_execute cleanup_fn 0 s = Running"
| "rt_defunct_execute cleanup_fn (Suc n) s =
    (case rt_thread_defunct_dequeue s of
       (None, s) \<Rightarrow> Done s
     | (Some t, s) \<Rightarrow>
         (case threads s t of
            None \<Rightarrow> Halted
          | Some th \<Rightarrow>
              (case (if cleanup th \<noteq> 0 then cleanup_fn (cleanup th) t s else Some s) of
                 None \<Rightarrow> Halted
               | Some s \<Rightarrow> rt_defunct_execute cleanup_fn n (s\<lparr>threads := (threads s)(t := None)\<rparr>))))"

text \<open>The table of four idle hooks (0 is the null pointer).\<close>

fun hook_replace :: "u32 \<Rightarrow> u32 \<Rightarrow> u32 list \<Rightarrow> u32 list option" where
  "hook_replace old new [] = None"
| "hook_replace old new (h # hs) =
    (if h = old then Some (new # hs) else map_option (\<lambda>hs. h # hs) (hook_replace old new hs))"

definition rt_thread_idle_sethook :: "u32 \<Rightarrow> u32 list \<Rightarrow> rt_err \<times> u32 list" where
  "rt_thread_idle_sethook hook hs =
    (case hook_replace 0 hook hs of None \<Rightarrow> (E_FULL, hs) | Some hs' \<Rightarrow> (RT_EOK, hs'))"

definition rt_thread_idle_delhook :: "u32 \<Rightarrow> u32 list \<Rightarrow> rt_err \<times> u32 list" where
  "rt_thread_idle_delhook hook hs =
    (case hook_replace hook 0 hs of None \<Rightarrow> (E_NOSYS, hs) | Some hs' \<Rightarrow> (RT_EOK, hs'))"

section \<open>The scheduler and the timers act on separate parts of the state\<close>

lemma timer_ops_sched_sel [simp]:
  "threads (upd_timer x f s) = threads s" "lists (upd_timer x f s) = lists s"
  "ready_group (upd_timer x f s) = ready_group s" "cur (upd_timer x f s) = cur s"
  "lock_nest (upd_timer x f s) = lock_nest s" "int_nest (upd_timer x f s) = int_nest s"
  "threads (timer_remove x s) = threads s" "lists (timer_remove x s) = lists s"
  "ready_group (timer_remove x s) = ready_group s" "cur (timer_remove x s) = cur s"
  "lock_nest (timer_remove x s) = lock_nest s" "int_nest (timer_remove x s) = int_nest s"
  "switches (upd_timer x f s) = switches s" "switches (timer_remove x s) = switches s"
  "cur_priority (upd_timer x f s) = cur_priority s" "cur_priority (timer_remove x s) = cur_priority s"
  "sched.more (upd_timer x f s) = sched.more s" "sched.more (timer_remove x s) = sched.more s"
  by (simp_all add: upd_timer_def timer_remove_def)

lemma stopped_sched_sel [simp]:
  "threads (stopped x s) = threads s" "lists (stopped x s) = lists s"
  "ready_group (stopped x s) = ready_group s" "cur (stopped x s) = cur s"
  "lock_nest (stopped x s) = lock_nest s" "int_nest (stopped x s) = int_nest s"
  "switches (stopped x s) = switches s" "cur_priority (stopped x s) = cur_priority s"
  "sched.more (stopped x s) = sched.more s"
  by (simp_all add: stopped_def)

lemma started_sched_sel [simp]:
  "threads (started x tm s) = threads s" "lists (started x tm s) = lists s"
  "ready_group (started x tm s) = ready_group s" "cur (started x tm s) = cur s"
  "lock_nest (started x tm s) = lock_nest s" "int_nest (started x tm s) = int_nest s"
  "switches (started x tm s) = switches s" "cur_priority (started x tm s) = cur_priority s"
  "sched.more (started x tm s) = sched.more s"
  by (simp_all add: started_def Let_def)

lemma sched_inv_timer:
  "threads s' = threads s \<Longrightarrow> lists s' = lists s \<Longrightarrow> ready_group s' = ready_group s \<Longrightarrow> cur s' = cur s \<Longrightarrow>
   sched_inv s' = sched_inv s"
  by (simp add: sched_inv_def lists_ok_def group_ok_def cur_ok_def)

lemma timer_inv_cong:
  "rt_tick s' = rt_tick s \<Longrightarrow> timers s' = timers s \<Longrightarrow> trow s' = trow s \<Longrightarrow> timer_inv s' = timer_inv s"
proof -
  assume a: "rt_tick s' = rt_tick s" "timers s' = timers s" "trow s' = trow s"
  then have "tm_rem s' = tm_rem s" by (simp add: tm_rem_def timeout_of_def fun_eq_iff)
  then show ?thesis using a by (simp add: timer_inv_def timer_ok_def timer_sorted_def)
qed

section \<open>The kernel invariant\<close>

text \<open>
  Every thread that is not closed has its one-shot timer, whose callback is that thread's timeout;
  a running timer means that the thread is suspended. User timers have user callbacks.
\<close>

definition thread_timer_ok :: "nat \<Rightarrow> rt_thread option \<Rightarrow> rt_timer option \<Rightarrow> bool" where
  "thread_timer_ok t tho tmo \<longleftrightarrow>
    (case tmo of
       None \<Rightarrow> (case tho of None \<Rightarrow> True | Some th \<Rightarrow> stat th = RT_THREAD_CLOSE)
     | Some tm \<Rightarrow> timeout_func tm = ThreadTimeout t \<and> \<not> tm_periodic tm \<and> tm_static tm \<and>
         (case tho of None \<Rightarrow> False
          | Some th \<Rightarrow> stat th \<noteq> RT_THREAD_CLOSE \<and> (tm_active tm \<longrightarrow> stat th = RT_THREAD_SUSPEND)))"

definition tt_ok :: "'z sched_scheme \<Rightarrow> bool" where
  "tt_ok s \<longleftrightarrow> (\<forall>t. thread_timer_ok t (threads s t) (timers s (ThreadTimer t))) \<and>
     (\<forall>n tm. timers s (UserTimer n) = Some tm \<longrightarrow> (\<exists>f p. timeout_func tm = Callback f p))"

definition kernel_inv :: "'z sched_scheme \<Rightarrow> bool" where
  "kernel_inv s \<longleftrightarrow> sched_inv s \<and> timer_inv s \<and> tt_ok s"

lemma kernel_invD:
  assumes "kernel_inv s"
  shows "sched_inv s" "timer_inv s" "tt_ok s" "timer_ok s"
  using assms by (simp_all add: kernel_inv_def timer_inv_def)

text \<open>A thread that is known to exist and not to be closed has its timer.\<close>

lemma thread_timer:
  assumes "tt_ok s" and "threads s t = Some th" and "stat th \<noteq> RT_THREAD_CLOSE"
  obtains tm where "timers s (ThreadTimer t) = Some tm" and "timeout_func tm = ThreadTimeout t"
    and "\<not> tm_periodic tm" and "tm_static tm" and "tm_active tm \<Longrightarrow> stat th = RT_THREAD_SUSPEND"
proof -
  have "thread_timer_ok t (Some th) (timers s (ThreadTimer t))" using assms(1,2) by (metis tt_ok_def)
  then show thesis using assms(3) that by (auto simp: thread_timer_ok_def split: option.splits)
qed

lemma tt_ok_change:
  assumes "tt_ok s" and "timers s' = timers s" and "\<And>x. x \<noteq> t \<Longrightarrow> threads s' x = threads s x"
    and "thread_timer_ok t (threads s' t) (timers s (ThreadTimer t))"
  shows "tt_ok s'"
  using assms unfolding tt_ok_def by metis

lemma inactive_unless_suspended:
  assumes "tt_ok s" and "threads s t = Some th" and "stat th \<noteq> RT_THREAD_SUSPEND"
    and "timers s (ThreadTimer t) = Some tm"
  shows "\<not> tm_active tm"
proof -
  have "thread_timer_ok t (Some th) (Some tm)" using assms(1,2,4) by (metis tt_ok_def)
  then show ?thesis using assms(3) by (auto simp: thread_timer_ok_def)
qed

section \<open>Waking a thread\<close>

definition waked :: "nat \<Rightarrow> rt_thread \<Rightarrow> 'z sched_scheme \<Rightarrow> 'z sched_scheme" where
  "waked t th s =
    (if cur s = Some t
     then s\<lparr>lists := tbl_remove t (lists s), threads := (threads s)(t \<mapsto> th\<lparr>stat := RT_THREAD_RUNNING\<rparr>)\<rparr>
     else s\<lparr>threads := (threads s)(t \<mapsto> th\<lparr>stat := RT_THREAD_READY\<rparr>),
            lists := tbl_insert_tail (Ready (prio_of th)) t (tbl_remove t (lists s)),
            ready_group := ready_group s OR number_mask th\<rparr>)"

lemma insert_waked:
  assumes "threads s t = Some th" and "prio_of th < 32"
  shows "rt_schedule_insert_thread t (s\<lparr>lists := tbl_remove t (lists s)\<rparr>) = Some (waked t th s)"
  using assms by (simp add: rt_schedule_insert_thread_def waked_def upd_thread_def RT_THREAD_PRIORITY_MAX_def Let_def)

text \<open>The record of an unlinked thread may change; a thread that is not READY may be unlinked.\<close>

lemma lists_ok_unlinked_upd:
  assumes "lists_ok s" and "\<not> linked t (lists s)" and "stat th' \<noteq> RT_THREAD_READY"
  shows "lists_ok (s\<lparr>threads := (threads s)(t \<mapsto> th')\<rparr>)"
proof -
  note D = lists_okD [OF assms(1)]
  have ne: "x \<noteq> t" if "x \<in> set (lists s l)" for x l using assms(2) that by (auto simp: linked_def)
  show ?thesis
  proof (rule lists_okI)
    show "x \<in> set (lists (s\<lparr>threads := (threads s)(t \<mapsto> th')\<rparr>) (Ready (prio_of th)))"
      if "threads (s\<lparr>threads := (threads s)(t \<mapsto> th')\<rparr>) x = Some th" "stat th = RT_THREAD_READY" for x th
      using that D(5) [of x th] assms(3) by (auto split: if_splits)
  qed (use D(1) ne in simp_all, (use D(2-4,6) ne in \<open>simp; metis\<close>)+)
qed

lemma lists_ok_remove:
  assumes "lists_ok s" and "threads s t = Some th" and "stat th \<noteq> RT_THREAD_READY"
  shows "lists_ok (s\<lparr>lists := tbl_remove t (lists s)\<rparr>)"
proof -
  note D = lists_okD [OF assms(1)]
  have st: "tbl_remove t (lists s) (Ready p) = lists s (Ready p)" for p
    using D(2) [of t p] assms(2,3) by (auto simp: tbl_remove_def intro: remove1_idem)
  have sub: "x \<in> set (lists s l)" if "x \<in> set (tbl_remove t (lists s) l)" for x l
    using that tbl_remove_set [OF D(1)] by auto
  show ?thesis
  proof (rule lists_okI)
    show "tbl_wf (lists (s\<lparr>lists := tbl_remove t (lists s)\<rparr>))" using D(1) by auto
  qed (use D(2) [OF sub] D(3) [OF sub] D(4) [OF sub] D(5) D(6) [OF sub] st in simp_all)
qed

lemma cur_okD:
  assumes "cur_ok s"
  shows "threads s t = Some th \<Longrightarrow> stat th = RT_THREAD_RUNNING \<Longrightarrow> cur s = Some t"
    and "threads s t = Some th \<Longrightarrow> stat th = RT_THREAD_READY \<or> stat th = RT_THREAD_INIT \<Longrightarrow> cur s \<noteq> Some t"
    and "cur s = Some t \<Longrightarrow> \<exists>th. threads s t = Some th"
  using assms unfolding cur_ok_def by force+

lemma cur_ok_upd:
  assumes "cur_ok s" and "stat th' = RT_THREAD_RUNNING \<Longrightarrow> cur s = Some t"
    and "cur s = Some t \<Longrightarrow> stat th' \<noteq> RT_THREAD_READY \<and> stat th' \<noteq> RT_THREAD_INIT"
  shows "cur_ok (s\<lparr>threads := (threads s)(t \<mapsto> th')\<rparr>)"
  unfolding cur_ok_def
proof (intro conjI allI impI)
  fix x th
  assume x: "threads (s\<lparr>threads := (threads s)(t \<mapsto> th')\<rparr>) x = Some th" "stat th = RT_THREAD_RUNNING"
  show "cur (s\<lparr>threads := (threads s)(t \<mapsto> th')\<rparr>) = Some x"
  proof (cases "x = t")
    case False
    then have "threads s x = Some th" using x(1) by simp
    then show ?thesis using assms(1) x(2) by (simp add: cur_ok_def)
  qed (use assms(2) x in simp)
next
  fix x
  assume x: "cur (s\<lparr>threads := (threads s)(t \<mapsto> th')\<rparr>) = Some x"
  then show "\<exists>th. threads (s\<lparr>threads := (threads s)(t \<mapsto> th')\<rparr>) x = Some th \<and> stat th \<noteq> RT_THREAD_READY \<and> stat th \<noteq> RT_THREAD_INIT"
    using assms(1,3) by (cases "x = t") (simp_all add: cur_ok_def)
qed

lemma group_ok_remove:
  assumes "lists_ok s" and "group_ok s" and "threads s t = Some th" and "stat th \<noteq> RT_THREAD_READY"
  shows "group_ok (s\<lparr>lists := tbl_remove t (lists s)\<rparr>)"
proof -
  have "tbl_remove t (lists s) (Ready p) = lists s (Ready p)" for p
    using lists_okD(2) [OF assms(1), of t p] assms(3,4) by (auto simp: tbl_remove_def intro: remove1_idem)
  then show ?thesis using assms(2) by (simp add: group_ok_def)
qed

lemma waked_inv:
  assumes inv: "sched_inv s" and t: "threads s t = Some th0" "stat th0 = RT_THREAD_SUSPEND"
    and th: "stat th = RT_THREAD_SUSPEND" "thread_ok th"
  shows "sched_inv (waked t th s)"
proof -
  let ?s0 = "s\<lparr>lists := tbl_remove t (lists s)\<rparr>"
  note wf = sched_invD(5) [OF inv]
  have l0: "lists_ok ?s0" using lists_ok_remove [OF sched_invD(1) [OF inv] t(1)] t by simp
  have g0: "group_ok ?s0" using group_ok_remove [OF sched_invD(1,2) [OF inv] t(1)] t by simp
  have nl: "\<not> linked t (lists ?s0)" using not_linked_remove [OF wf] by simp
  show ?thesis
  proof (cases "cur s = Some t")
    case True
    let ?s1 = "?s0\<lparr>threads := (threads s)(t \<mapsto> th\<lparr>stat := RT_THREAD_RUNNING\<rparr>)\<rparr>"
    have "lists_ok ?s1" using lists_ok_unlinked_upd [OF l0 nl, of "th\<lparr>stat := RT_THREAD_RUNNING\<rparr>"] by simp
    moreover have "group_ok ?s1" using g0 by (simp add: group_ok_def)
    moreover have "cur_ok ?s1" using sched_invD(3) [OF inv] True unfolding cur_ok_def by (auto split: if_splits)
    moreover have "thread_ok h" if "threads ?s1 x = Some h" for x h
      using that sched_invD(4) [OF inv, of x h] th by (auto split: if_splits intro!: thread_ok_stat)
    ultimately show ?thesis using True by (simp add: sched_inv_def waked_def)
  next
    case False
    let ?s1 = "?s0\<lparr>threads := (threads s)(t \<mapsto> th)\<rparr>"
    have eq: "waked t th s = readied t th ?s1" using False by (simp add: waked_def readied_def)
    have "lists_ok ?s1" using lists_ok_unlinked_upd [OF l0 nl, of th] th by simp
    moreover have "group_ok ?s1" using g0 by (simp add: group_ok_def)
    ultimately have "lists_ok (readied t th ?s1) \<and> group_ok (readied t th ?s1)"
      using th nl by (intro readied_ok) auto
    moreover have "cur_ok (readied t th ?s1)"
      using sched_invD(3) [OF inv] False unfolding cur_ok_def by (auto simp: readied_def split: if_splits)
    moreover have "thread_ok h" if "threads (readied t th ?s1) x = Some h" for x h
      using that sched_invD(4) [OF inv, of x h] th by (auto simp: readied_def split: if_splits intro!: thread_ok_stat)
    ultimately show ?thesis unfolding eq by (simp add: sched_inv_def)
  qed
qed

lemma waked_sel [simp]:
  "timers (waked t th s) = timers s" "trow (waked t th s) = trow s" "rt_tick (waked t th s) = rt_tick s"
  "cur (waked t th s) = cur s" "lock_nest (waked t th s) = lock_nest s" "int_nest (waked t th s) = int_nest s"
  "sched.more (waked t th s) = sched.more s" "random_nr (waked t th s) = random_nr s"
  "threads (waked t th s) = (threads s)(t \<mapsto> th\<lparr>stat := if cur s = Some t then RT_THREAD_RUNNING else RT_THREAD_READY\<rparr>)"
  by (simp_all add: waked_def)

text \<open>Stopping a timer whose owner does not care about the result.\<close>

definition tm_stop :: "tmid \<Rightarrow> 'z timer_sys_scheme \<Rightarrow> 'z timer_sys_scheme" where
  "tm_stop x s = (case timers s x of Some tm \<Rightarrow> if tm_active tm then stopped x s else s | None \<Rightarrow> s)"

lemma stop_eq:
  "timers s x = Some tm \<Longrightarrow> rt_timer_stop x s = Some (if tm_active tm then RT_EOK else E_ERROR, tm_stop x s)"
  by (simp add: rt_timer_stop_def tm_stop_def stopped_def)

lemma tm_stop_sel [simp]:
  "threads (tm_stop x s) = threads s" "lists (tm_stop x s) = lists s"
  "ready_group (tm_stop x s) = ready_group s" "cur (tm_stop x s) = cur s"
  "lock_nest (tm_stop x s) = lock_nest s" "int_nest (tm_stop x s) = int_nest s"
  "switches (tm_stop x s) = switches s" "cur_priority (tm_stop x s) = cur_priority s"
  "sched.more (tm_stop x s) = sched.more s"
  by (simp_all add: tm_stop_def split: option.split)

lemma tm_stop_timers: "timers (tm_stop x s) = (timers s)(x := map_option
    (\<lambda>tm. if tm_active tm then tm_deactivate tm else tm) (timers s x))"
  by (auto simp: tm_stop_def fun_eq_iff split: option.split)

lemma tm_stop_inactive: "timers (tm_stop x s) x = Some tm \<Longrightarrow> \<not> tm_active tm"
  unfolding tm_stop_timers by (auto split: if_splits dest: arg_cong [where f = tm_active])

lemma tm_stop_tick [simp]: "rt_tick (tm_stop x s) = rt_tick s"
  by (simp add: tm_stop_def split: option.split)

lemma tm_stop_inv: "timer_inv s \<Longrightarrow> timer_inv (tm_stop x s)"
  by (simp add: tm_stop_def stopped_inv split: option.split)

lemma tm_static_deactivate [simp]: "tm_static (tm_deactivate tm) = tm_static tm"
  by (simp add: tm_deactivate_def)

lemma thread_timer_stop:
  "thread_timer_ok t tho tmo \<Longrightarrow>
   thread_timer_ok t tho (map_option (\<lambda>tm. if tm_active tm then tm_deactivate tm else tm) tmo)"
  by (auto simp: thread_timer_ok_def split: option.splits)

lemma tm_stop_kernel: "kernel_inv s \<Longrightarrow> kernel_inv (tm_stop (ThreadTimer t) s)"
proof -
  assume k: "kernel_inv s"
  have "sched_inv (tm_stop (ThreadTimer t) s) = sched_inv s" by (rule sched_inv_timer) simp_all
  moreover have "tt_ok (tm_stop (ThreadTimer t) s)"
    using kernel_invD(3) [OF k] thread_timer_stop unfolding tt_ok_def tm_stop_timers by auto
  ultimately show ?thesis using k tm_stop_inv [of s] by (simp add: kernel_inv_def)
qed

lemma resume_eq:
  assumes k: "kernel_inv s" and t: "threads s t = Some th" "stat th = RT_THREAD_SUSPEND"
  shows "rt_thread_resume t s = Some (RT_EOK, waked t th (tm_stop (ThreadTimer t) s))"
proof -
  obtain tm where tm: "timers s (ThreadTimer t) = Some tm"
    by (rule thread_timer [OF kernel_invD(3) [OF k] t(1)]) (use t in auto)
  have p: "prio_of th < 32" using sched_invD(4) [OF kernel_invD(1) [OF k] t(1)] by (simp add: thread_ok_def)
  let ?s = "s\<lparr>lists := tbl_remove t (lists s)\<rparr>"
  have "tm_stop (ThreadTimer t) ?s = (tm_stop (ThreadTimer t) s)\<lparr>lists := tbl_remove t (lists (tm_stop (ThreadTimer t) s))\<rparr>"
    by (simp add: tm_stop_def stopped_def upd_timer_def timer_remove_def split: option.split)
  then show ?thesis
    using t tm stop_eq [of ?s "ThreadTimer t" tm] insert_waked [of "tm_stop (ThreadTimer t) s" t th] p
    by (simp add: rt_thread_resume_def)
qed

lemma thread_timer_wake:
  "thread_timer_ok t (Some th) tmo \<Longrightarrow> stat th \<noteq> RT_THREAD_CLOSE \<Longrightarrow> stat th' \<noteq> RT_THREAD_CLOSE \<Longrightarrow>
   (\<And>tm. tmo = Some tm \<Longrightarrow> \<not> tm_active tm \<or> stat th' = RT_THREAD_SUSPEND) \<Longrightarrow> thread_timer_ok t (Some th') tmo"
  by (auto simp: thread_timer_ok_def split: option.splits)

lemma waked_kernel:
  assumes k: "kernel_inv s" and t: "threads s t = Some th0" "stat th0 = RT_THREAD_SUSPEND"
    and th: "stat th = RT_THREAD_SUSPEND" "thread_ok th"
    and na: "\<And>tm. timers s (ThreadTimer t) = Some tm \<Longrightarrow> \<not> tm_active tm"
  shows "kernel_inv (waked t th s)"
proof -
  have "thread_timer_ok t (threads s t) (timers s (ThreadTimer t))" using kernel_invD(3) [OF k] by (simp add: tt_ok_def)
  then have "tt_ok (waked t th s)"
    using t na by (intro tt_ok_change [OF kernel_invD(3) [OF k], where t = t]) (auto intro: thread_timer_wake)
  moreover have "timer_inv (waked t th s)" using kernel_invD(2) [OF k] by (subst timer_inv_cong [where s = s]) simp_all
  ultimately show ?thesis using waked_inv [OF kernel_invD(1) [OF k] t th] by (simp add: kernel_inv_def)
qed

lemma resume_ok:
  assumes k: "kernel_inv s" and t: "threads s t = Some th" "stat th = RT_THREAD_SUSPEND"
  shows "rt_thread_resume t s = Some (RT_EOK, waked t th (tm_stop (ThreadTimer t) s)) \<and>
    kernel_inv (waked t th (tm_stop (ThreadTimer t) s))"
proof -
  have "kernel_inv (waked t th (tm_stop (ThreadTimer t) s))"
    using t sched_invD(4) [OF kernel_invD(1) [OF k] t(1)]
    by (intro waked_kernel [OF tm_stop_kernel [OF k]]) (auto dest: tm_stop_inactive)
  then show ?thesis using resume_eq [OF k t] by simp
qed

section \<open>Scheduling keeps the kernel invariant\<close>

text \<open>
  What a call of \<open>rt_schedule\<close> may change: the current thread, the ready lists, and the states
  READY and RUNNING and the yield marks of threads.
\<close>

definition runnable :: "th_stat \<Rightarrow> bool" where
  "runnable x \<longleftrightarrow> x = RT_THREAD_READY \<or> x = RT_THREAD_RUNNING"

definition same_thread :: "rt_thread \<Rightarrow> rt_thread \<Rightarrow> bool" where
  "same_thread th th' \<longleftrightarrow> th' = th\<lparr>stat := stat th', stat_yield := stat_yield th'\<rparr> \<and>
     (stat th' = stat th \<or> runnable (stat th) \<and> runnable (stat th'))"

definition sched_frame :: "'z sched_scheme \<Rightarrow> 'z sched_scheme \<Rightarrow> bool" where
  "sched_frame s s' \<longleftrightarrow> timers s' = timers s \<and> trow s' = trow s \<and> rt_tick s' = rt_tick s \<and>
     random_nr s' = random_nr s \<and> lock_nest s' = lock_nest s \<and> int_nest s' = int_nest s \<and>
     sched.more s' = sched.more s \<and>
     (\<forall>i. lists s' (Suspend i) = lists s (Suspend i) \<and> lists s' (SuspendSender i) = lists s (SuspendSender i)) \<and>
     lists s' Defunct = lists s Defunct \<and>
     (\<forall>t. rel_option same_thread (threads s t) (threads s' t))"

lemma same_thread_refl [simp]: "same_thread th th"
  by (simp add: same_thread_def)

lemma sched_frame_refl: "sched_frame s s"
  by (simp add: sched_frame_def option.rel_refl)

lemma rel_option_upd:
  "(\<And>x. R x x) \<Longrightarrow> f t = Some a \<Longrightarrow> R a b \<Longrightarrow> rel_option R (f x) ((f(t \<mapsto> b)) x)"
  by (simp add: option.rel_refl)

lemma switched_frame:
  assumes inv: "sched_inv s" and c: "cur s = Some c" "threads s c = Some cth"
    and t: "threads s to = Some tth" "stat tth = RT_THREAD_READY"
  shows "sched_frame s (switched c cth to tth s)"
proof -
  have ne: "to \<noteq> c" using sched_invD(3) [OF inv] c t by (auto simp: cur_ok_def)
  note D = lists_okD [OF sched_invD(1) [OF inv]]
  have nt: "to \<notin> set (lists s (Suspend i))" "to \<notin> set (lists s (SuspendSender i))" "to \<notin> set (lists s Defunct)" for i
    using D(3) [of to i] D(4) [of to i] D(6) [of to] t by auto
  have "rel_option same_thread (threads s x) (threads (switched c cth to tth s) x)" for x
    using ne c t by (auto simp: switched_def Let_def readied_def unreadied_def same_thread_def runnable_def
        option.rel_refl)
  then show ?thesis
    using nt unfolding sched_frame_def
    by (auto simp: switched_def Let_def readied_def unreadied_def tbl_insert_tail_apply tbl_remove_def remove1_idem)
qed

lemma schedule_ok:
  assumes inv: "sched_inv s" and c: "cur s \<noteq> None"
  shows "\<exists>s'. rt_schedule s = Some s' \<and> sched_inv s' \<and> cur s' \<noteq> None \<and> sched_frame s s'"
proof -
  obtain c cth where c': "cur s = Some c" "threads s c = Some cth"
    using c sched_invD(3) [OF inv] by (auto simp: cur_ok_def)
  obtain s' where s': "rt_schedule s = Some s'" "sched_inv s'" "cur s' \<noteq> None" using schedule_inv [OF inv c] by blast
  have f: "sched_frame s (upd_thread c (\<lambda>th. th\<lparr>stat_yield := False\<rparr>) s)"
    using c' by (auto simp: sched_frame_def same_thread_def option.rel_refl)
  have "sched_frame s s'"
    using schedule_cases [OF inv c'] s'(1) sched_frame_refl [of s] f switched_frame [OF inv c'] by (auto split: if_splits)
  then show ?thesis using s' by blast
qed

lemma frame_tt_ok:
  assumes f: "sched_frame s s'" and tt: "tt_ok s"
  shows "tt_ok s'"
proof -
  have "thread_timer_ok t (threads s' t) (timers s' (ThreadTimer t))" for t
  proof -
    have a: "thread_timer_ok t (threads s t) (timers s (ThreadTimer t))" using tt by (simp add: tt_ok_def)
    have "rel_option same_thread (threads s t) (threads s' t)" and tm: "timers s' = timers s"
      using f by (simp_all add: sched_frame_def)
    then show ?thesis
      using a unfolding tm
      by (cases "threads s t"; cases "threads s' t")
        (auto simp: thread_timer_ok_def same_thread_def runnable_def split: option.splits)
  qed
  then show ?thesis using tt f by (simp add: tt_ok_def sched_frame_def)
qed

lemma schedule_kernel:
  assumes k: "kernel_inv s" and c: "cur s \<noteq> None"
  shows "\<exists>s'. rt_schedule s = Some s' \<and> kernel_inv s' \<and> cur s' \<noteq> None \<and> sched_frame s s'"
proof -
  obtain s' where s': "rt_schedule s = Some s'" "sched_inv s'" "cur s' \<noteq> None" "sched_frame s s'"
    using schedule_ok [OF kernel_invD(1) [OF k] c] by blast
  have "timer_inv s'" using kernel_invD(2) [OF k] s'(4)
    by (subst timer_inv_cong [where s = s]) (simp_all add: sched_frame_def)
  then show ?thesis using s' frame_tt_ok [OF s'(4) kernel_invD(3) [OF k]] by (auto simp: kernel_inv_def)
qed

section \<open>Suspending, sleeping, yielding\<close>

text \<open>The current thread \<open>c\<close> with record \<open>th\<close> is RUNNING: the situation of every call from a thread.\<close>

definition runs :: "'z sched_scheme \<Rightarrow> nat \<Rightarrow> rt_thread \<Rightarrow> bool" where
  "runs s c th \<longleftrightarrow> cur s = Some c \<and> threads s c = Some th \<and> stat th = RT_THREAD_RUNNING"

lemma runsD:
  assumes "runs s c th"
  shows "cur s = Some c" "threads s c = Some th" "stat th = RT_THREAD_RUNNING"
  using assms by (simp_all add: runs_def)

lemma runs_unlinked: "sched_inv s \<Longrightarrow> runs s c th \<Longrightarrow> \<not> linked c (lists s)"
  using linked_cases [OF sched_invD(1), of s c] by (auto simp: runs_def)

lemma unreadied_running:
  assumes inv: "sched_inv s" and r: "runs s c th"
  shows "unreadied c th s = s"
proof -
  have ok: "thread_ok th" using sched_invD(4) [OF inv runsD(2) [OF r]] .
  have p: "prio_of th < 32" and m: "number_mask th = 2 ^ prio_of th"
    using ok runsD(3) [OF r] by (simp_all add: thread_ok_def)
  have g: "ready_group s AND NOT (2 ^ prio_of th) = ready_group s" if "lists s (Ready (prio_of th)) = []"
  proof (rule bit_word_eqI)
    fix n assume "n < LENGTH(32)"
    then have n: "n < 32" by simp
    have "\<not> bit (ready_group s) (prio_of th)" using sched_invD(2) [OF inv] p that by (simp add: group_ok_def)
    then show "bit (ready_group s AND NOT (2 ^ prio_of th)) n = bit (ready_group s) n"
      using bit_clear_mask [OF p n, of "ready_group s"] by auto
  qed
  show ?thesis using runs_unlinked [OF inv r] g m by (simp add: unreadied_def tbl_remove_unlinked)
qed

lemma suspended_sched:
  assumes inv: "sched_inv s" and r: "runs s c th"
  shows "sched_inv (s\<lparr>threads := (threads s)(c \<mapsto> th\<lparr>stat := RT_THREAD_SUSPEND\<rparr>)\<rparr>)"
proof -
  let ?s = "s\<lparr>threads := (threads s)(c \<mapsto> th\<lparr>stat := RT_THREAD_SUSPEND\<rparr>)\<rparr>"
  note R = runsD [OF r]
  have "lists_ok ?s" using sched_invD(1) [OF inv] runs_unlinked [OF inv r] by (rule lists_ok_unlinked_upd) simp
  moreover have "group_ok ?s" using sched_invD(2) [OF inv] by (simp add: group_ok_def)
  moreover have "cur_ok ?s" using sched_invD(3) [OF inv] R by (intro cur_ok_upd) simp_all
  moreover have "thread_ok h" if "threads ?s x = Some h" for x h
    using that sched_invD(4) [OF inv, of x h] sched_invD(4) [OF inv R(2)] R
    by (auto split: if_splits intro!: thread_ok_stat)
  ultimately show ?thesis by (simp add: sched_inv_def)
qed

lemma suspend_ok:
  assumes k: "kernel_inv s" and r: "runs s c th"
  shows "rt_thread_suspend c s = Some (RT_EOK, s\<lparr>threads := (threads s)(c \<mapsto> th\<lparr>stat := RT_THREAD_SUSPEND\<rparr>)\<rparr>) \<and>
    kernel_inv (s\<lparr>threads := (threads s)(c \<mapsto> th\<lparr>stat := RT_THREAD_SUSPEND\<rparr>)\<rparr>)"
proof -
  let ?s = "s\<lparr>threads := (threads s)(c \<mapsto> th\<lparr>stat := RT_THREAD_SUSPEND\<rparr>)\<rparr>"
  note R = runsD [OF r]
  have p: "prio_of th < 32" using sched_invD(4) [OF kernel_invD(1) [OF k] R(2)] by (simp add: thread_ok_def)
  obtain tm where tm: "timers s (ThreadTimer c) = Some tm" "\<not> tm_active tm"
    by (rule thread_timer [OF kernel_invD(3) [OF k] R(2)]) (use R in auto)
  have "tm_stop (ThreadTimer c) ?s = ?s" using tm by (simp add: tm_stop_def)
  then have e: "rt_thread_suspend c s = Some (RT_EOK, ?s)"
    using R tm remove_eq [OF R(2) p] unreadied_running [OF kernel_invD(1) [OF k] r] stop_eq [of ?s "ThreadTimer c" tm]
    by (simp add: rt_thread_suspend_def rt_thread_self_def upd_thread_def)
  have "thread_timer_ok c (threads s c) (timers s (ThreadTimer c))" using kernel_invD(3) [OF k] by (simp add: tt_ok_def)
  then have "tt_ok ?s"
    using R by (intro tt_ok_change [OF kernel_invD(3) [OF k], where t = c]) (auto intro: thread_timer_wake)
  moreover have "timer_inv ?s" using kernel_invD(2) [OF k] by (subst timer_inv_cong [where s = s]) simp_all
  ultimately show ?thesis using e suspended_sched [OF kernel_invD(1) [OF k] r] by (simp add: kernel_inv_def)
qed

text \<open>A thread's timer armed for \<open>tick\<close> ticks.\<close>

definition armed :: "nat \<Rightarrow> tick \<Rightarrow> 'z sched_scheme \<Rightarrow> 'z sched_scheme" where
  "armed t tick s =
    (case timers s (ThreadTimer t) of
       Some tm \<Rightarrow> started (ThreadTimer t) (tm\<lparr>tm_init_tick := tick\<rparr>)
                   (upd_timer (ThreadTimer t) (\<lambda>m. m\<lparr>tm_init_tick := tick\<rparr>) s)
     | None \<Rightarrow> s)"

lemma armed_sel [simp]:
  "threads (armed t tick s) = threads s" "lists (armed t tick s) = lists s"
  "ready_group (armed t tick s) = ready_group s" "cur (armed t tick s) = cur s"
  "lock_nest (armed t tick s) = lock_nest s" "int_nest (armed t tick s) = int_nest s"
  "switches (armed t tick s) = switches s" "cur_priority (armed t tick s) = cur_priority s"
  "sched.more (armed t tick s) = sched.more s" "rt_tick (armed t tick s) = rt_tick s"
  by (simp_all add: armed_def split: option.split)

lemma armed_ok:
  assumes k: "kernel_inv s" and t: "threads s t = Some th" "stat th = RT_THREAD_SUSPEND" and i: "tick < half_tick"
  shows "thread_timer_run t tick s = Some (armed t tick s) \<and> kernel_inv (armed t tick s) \<and>
    (\<exists>tm. timers (armed t tick s) (ThreadTimer t) = Some tm \<and> tm_active tm \<and> timeout_tick tm = rt_tick s + tick) \<and>
    (\<forall>x. x \<noteq> ThreadTimer t \<longrightarrow> timers (armed t tick s) x = timers s x)"
proof -
  obtain tm where tm: "timers s (ThreadTimer t) = Some tm" "timeout_func tm = ThreadTimeout t"
    "\<not> tm_periodic tm" "tm_static tm"
    by (rule thread_timer [OF kernel_invD(3) [OF k] t(1)]) (use t in auto)
  let ?u = "upd_timer (ThreadTimer t) (\<lambda>m. m\<lparr>tm_init_tick := tick\<rparr>) s" and ?tm = "tm\<lparr>tm_init_tick := tick\<rparr>"
  have u: "timers ?u (ThreadTimer t) = Some ?tm" using tm by simp
  have iu: "timer_inv ?u" using kernel_invD(2) [OF k] i
    by (intro upd_timer_inv) (simp_all add: tm_active_def)
  have e: "armed t tick s = started (ThreadTimer t) ?tm ?u" using tm by (simp add: armed_def)
  have run: "thread_timer_run t tick s = Some (armed t tick s)"
    unfolding e using tm i start_eq [OF u] by (simp add: thread_timer_run_def rt_timer_control_def)
  have T: "timers (armed t tick s) = (timers s)(ThreadTimer t \<mapsto>
      tm_activate ((tm_deactivate ?tm)\<lparr>timeout_tick := rt_tick s + tick\<rparr>))"
    unfolding e by (simp add: started_def Let_def)
  have f: "timeout_func (tm_activate ((tm_deactivate ?tm)\<lparr>timeout_tick := rt_tick s + tick\<rparr>)) = ThreadTimeout t"
    "tm_static (tm_activate ((tm_deactivate ?tm)\<lparr>timeout_tick := rt_tick s + tick\<rparr>))"
    "\<not> tm_periodic (tm_activate ((tm_deactivate ?tm)\<lparr>timeout_tick := rt_tick s + tick\<rparr>))"
    using tm by (simp_all add: tm_activate_def tm_deactivate_def)
      (simp add: tm_periodic_def RT_TIMER_FLAG_PERIODIC_def RT_TIMER_FLAG_ACTIVATED_def
        bit.conj_disj_distrib2 and.assoc)
  have "thread_timer_ok x (threads s x) (timers (armed t tick s) (ThreadTimer x))" for x
    using kernel_invD(3) [OF k] t f unfolding T tt_ok_def by (auto simp: thread_timer_ok_def)
  then have "tt_ok (armed t tick s)" using kernel_invD(3) [OF k] unfolding tt_ok_def T by auto
  moreover have "sched_inv (armed t tick s) = sched_inv s" by (rule sched_inv_timer) simp_all
  moreover have "timer_inv (armed t tick s)" unfolding e by (rule started_inv [OF iu u])
  ultimately show ?thesis using k run T by (simp add: kernel_inv_def)
qed

section \<open>Starting, closing, priorities\<close>

lemma upd_unlinked_kernel:
  assumes k: "kernel_inv s" and t: "threads s t = Some th" and nl: "\<not> linked t (lists s)"
    and th': "thread_ok th'" "stat th' \<noteq> RT_THREAD_READY" "stat th' \<noteq> RT_THREAD_CLOSE" "stat th \<noteq> RT_THREAD_CLOSE"
    and cu: "stat th' = RT_THREAD_RUNNING \<Longrightarrow> cur s = Some t" "cur s = Some t \<Longrightarrow> stat th' \<noteq> RT_THREAD_INIT"
    and na: "\<And>tm. timers s (ThreadTimer t) = Some tm \<Longrightarrow> \<not> tm_active tm \<or> stat th' = RT_THREAD_SUSPEND"
  shows "kernel_inv (s\<lparr>threads := (threads s)(t \<mapsto> th')\<rparr>)"
proof -
  let ?s = "s\<lparr>threads := (threads s)(t \<mapsto> th')\<rparr>"
  note inv = kernel_invD(1) [OF k]
  have "lists_ok ?s" using sched_invD(1) [OF inv] nl th'(2) by (rule lists_ok_unlinked_upd)
  moreover have "group_ok ?s" using sched_invD(2) [OF inv] by (simp add: group_ok_def)
  moreover have "cur_ok ?s" using sched_invD(3) [OF inv] th'(2) cu by (intro cur_ok_upd) auto
  moreover have "thread_ok h" if "threads ?s x = Some h" for x h
    using that sched_invD(4) [OF inv, of x h] th' by (auto split: if_splits)
  ultimately have "sched_inv ?s" by (simp add: sched_inv_def)
  moreover have "thread_timer_ok t (threads s t) (timers s (ThreadTimer t))" using kernel_invD(3) [OF k] by (simp add: tt_ok_def)
  then have "tt_ok ?s"
    using t th' na by (intro tt_ok_change [OF kernel_invD(3) [OF k], where t = t]) (auto intro: thread_timer_wake)
  moreover have "timer_inv ?s" using kernel_invD(2) [OF k] by (subst timer_inv_cong [where s = s]) simp_all
  ultimately show ?thesis by (simp add: kernel_inv_def)
qed

definition init_started :: "rt_thread \<Rightarrow> rt_thread" where
  "init_started th = th\<lparr>number_mask := push_bit (unat (current_priority th)) 1, stat := RT_THREAD_SUSPEND, stat_yield := False\<rparr>"

lemma init_started_ok:
  "thread_ok th \<Longrightarrow> thread_ok (init_started th) \<and> stat (init_started th) = RT_THREAD_SUSPEND \<and>
   prio_of (init_started th) = prio_of th"
  by (simp add: init_started_def thread_ok_def prio_of_def rt_scheduler_stack_check_def)

lemma startup_ok:
  assumes k: "kernel_inv s" and t: "threads s t = Some th" "stat th = RT_THREAD_INIT"
  shows "\<exists>s1 s'. s1 = waked t (init_started th) (tm_stop (ThreadTimer t) (upd_thread t init_started s)) \<and> kernel_inv s1 \<and>
    rt_thread_startup t s = Some (RT_EOK, s') \<and> (if cur s = None then s' = s1 else rt_schedule s1 = Some s') \<and>
    kernel_inv s' \<and> (cur s \<noteq> None \<longrightarrow> cur s' \<noteq> None)"
proof -
  note inv = kernel_invD(1) [OF k]
  have ok: "thread_ok th" using sched_invD(4) [OF inv t(1)] .
  have nl: "\<not> linked t (lists s)" using linked_cases [OF sched_invD(1) [OF inv], of t] t by auto
  let ?s0 = "upd_thread t init_started s"
  have s0: "?s0 = s\<lparr>threads := (threads s)(t \<mapsto> init_started th)\<rparr>" using t by (simp add: upd_thread_def)
  have k0: "kernel_inv ?s0"
    unfolding s0 using init_started_ok [OF ok] t by (intro upd_unlinked_kernel [OF k t(1) nl]) auto
  have t0: "threads ?s0 t = Some (init_started th)" "stat (init_started th) = RT_THREAD_SUSPEND"
    using t init_started_ok [OF ok] by simp_all
  let ?s1 = "waked t (init_started th) (tm_stop (ThreadTimer t) ?s0)"
  have r: "rt_thread_resume t ?s0 = Some (RT_EOK, ?s1)" "kernel_inv ?s1" using resume_ok [OF k0 t0] by simp_all
  have c1: "cur ?s1 = cur s" by simp
  have e: "rt_thread_startup t s = (if cur s \<noteq> None then map_option (\<lambda>s. (RT_EOK, s)) (rt_schedule ?s1) else Some (RT_EOK, ?s1))"
    using t r by (simp add: rt_thread_startup_def init_started_def [abs_def] rt_thread_self_def map_option_case split: option.split)
  show ?thesis
  proof (cases "cur s = None")
    case True
    then show ?thesis using r e by simp
  next
    case False
    then obtain s' where "rt_schedule ?s1 = Some s'" "kernel_inv s'" "cur s' \<noteq> None"
      using schedule_kernel [OF r(2)] by auto
    then show ?thesis using r e False by auto
  qed
qed

lemma lists_ok_defunct:
  assumes "lists_ok s" and "\<not> linked t (lists s)" and "threads s t = Some th" "stat th = RT_THREAD_CLOSE"
  shows "lists_ok (s\<lparr>lists := tbl_insert_head Defunct t (lists s)\<rparr>)"
proof -
  note D = lists_okD [OF assms(1)]
  show ?thesis
  proof (rule lists_okI)
    show "tbl_wf (lists (s\<lparr>lists := tbl_insert_head Defunct t (lists s)\<rparr>))" using D(1) assms(2) by auto
  qed (use D assms(3,4) in \<open>auto simp: tbl_insert_head_apply\<close>)
qed

definition closed :: "nat \<Rightarrow> rt_thread \<Rightarrow> 'z sched_scheme \<Rightarrow> 'z sched_scheme" where
  "closed t th s =
    (let s1 = (if stat th = RT_THREAD_INIT then s else unreadied t th s);
         s2 = stopped (ThreadTimer t) s1\<lparr>timers := (timers s)(ThreadTimer t := None)\<rparr>
     in s2\<lparr>threads := (threads s)(t \<mapsto> th\<lparr>stat := RT_THREAD_CLOSE, stat_yield := False\<rparr>),
           lists := tbl_insert_head Defunct t (lists s1)\<rparr>)"

lemma close_ok:
  assumes k: "kernel_inv s" and t: "threads s t = Some th" "stat th \<noteq> RT_THREAD_CLOSE"
  shows "(if stat th \<noteq> RT_THREAD_INIT then rt_schedule_remove_thread t s else Some s) \<bind> thread_close t = Some (closed t th s) \<and>
    kernel_inv (closed t th s)"
proof -
  note inv = kernel_invD(1) [OF k]
  have ok: "thread_ok th" and p: "prio_of th < 32" using sched_invD(4) [OF inv t(1)] by (simp_all add: thread_ok_def)
  obtain tm where tm: "timers s (ThreadTimer t) = Some tm" "tm_static tm"
    by (rule thread_timer [OF kernel_invD(3) [OF k] t]) auto
  let ?th = "th\<lparr>stat := RT_THREAD_CLOSE, stat_yield := False\<rparr>"
  let ?s1 = "if stat th = RT_THREAD_INIT then s else unreadied t th s"
  have nl1: "\<not> linked t (lists ?s1)"
    using linked_cases [OF sched_invD(1) [OF inv], of t] t not_linked_remove [OF sched_invD(5) [OF inv]]
    by (auto simp: unreadied_def)
  let ?s2 = "?s1\<lparr>threads := (threads s)(t \<mapsto> ?th)\<rparr>"
  have okc: "thread_ok ?th" using ok thread_ok_close [of th] by simp
  have lg: "lists_ok ?s2 \<and> group_ok ?s2"
  proof (cases "stat th = RT_THREAD_INIT")
    case True
    then show ?thesis
      using sched_invD(1,2) [OF inv] nl1 lists_ok_unlinked_upd [of s t ?th] by (simp add: group_ok_def)
  next
    case False
    then show ?thesis using unreadied_ok [OF sched_invD(1,2) [OF inv] t(1) ok False t(2), of ?th] by simp
  qed
  have eq: "(if stat th \<noteq> RT_THREAD_INIT then rt_schedule_remove_thread t s else Some s) \<bind> thread_close t = Some (closed t th s)"
    using t tm remove_eq [OF t(1) p]
    by (simp add: thread_close_def rt_timer_detach_def closed_def Let_def stopped_def rt_thread_defunct_enqueue_def
        upd_thread_def unreadied_def upd_timer_def timer_remove_def)
  let ?s3 = "?s2\<lparr>lists := tbl_insert_head Defunct t (lists ?s1)\<rparr>"
  have l3: "lists_ok ?s3" using lists_ok_defunct [of ?s2 t ?th] lg nl1 by simp
  moreover have "group_ok ?s3" using lg by (simp add: group_ok_def tbl_insert_head_apply)
  moreover have "cur_ok ?s3"
    using cur_ok_upd [OF sched_invD(3) [OF inv], of ?th t] by (simp add: cur_ok_def unreadied_def)
  moreover have "thread_ok h" if "threads ?s3 x = Some h" for x h
    using that sched_invD(4) [OF inv, of x h] okc by (auto split: if_splits)
  ultimately have "sched_inv ?s3" by (simp add: sched_inv_def)
  moreover have "sched_inv (closed t th s) = sched_inv ?s3"
    by (rule sched_inv_timer) (simp_all add: closed_def Let_def unreadied_def)
  moreover have "timer_inv (closed t th s)"
    using removed_inv [OF kernel_invD(2) [OF k], of "ThreadTimer t"]
    by (subst timer_inv_cong [where s = "stopped (ThreadTimer t) s\<lparr>timers := (timers s)(ThreadTimer t := None)\<rparr>"])
      (simp_all add: closed_def Let_def unreadied_def)
  moreover have "tt_ok (closed t th s)"
    using kernel_invD(3) [OF k] unfolding tt_ok_def
    by (auto simp: closed_def Let_def unreadied_def thread_timer_ok_def)
  ultimately show ?thesis using eq by (simp add: kernel_inv_def)
qed

text \<open>Changing a priority: a READY thread moves to the tail of the new list.\<close>

definition with_prio :: "u8 \<Rightarrow> rt_thread \<Rightarrow> rt_thread" where
  "with_prio p th = th\<lparr>current_priority := p, number_mask := push_bit (unat p) 1\<rparr>"

lemma with_prio_sel [simp]:
  "stat (with_prio p th) = stat th" "prio_of (with_prio p th) = unat p"
  "thread_ok th \<Longrightarrow> unat p < 32 \<Longrightarrow> thread_ok (with_prio p th)"
  "number_mask (with_prio p th) = 2 ^ unat p" "th_error (with_prio p th) = th_error th"
  by (simp_all add: with_prio_def prio_of_def thread_ok_def rt_scheduler_stack_check_def)

definition prio_changed :: "nat \<Rightarrow> rt_thread \<Rightarrow> u8 \<Rightarrow> 'z sched_scheme \<Rightarrow> 'z sched_scheme" where
  "prio_changed t th p s =
    (if stat th = RT_THREAD_READY
     then readied t (with_prio p th) (upd_thread t (with_prio p) (unreadied t th s))
     else upd_thread t (with_prio p) s)"

lemma change_priority_eq:
  assumes inv: "sched_inv s" and t: "threads s t = Some th" and p: "unat p < 32"
  shows "rt_thread_control t (RT_THREAD_CTRL_CHANGE_PRIORITY p) s = Some (RT_EOK, prio_changed t th p s)"
proof -
  have q: "prio_of th < 32" using sched_invD(4) [OF inv t] by (simp add: thread_ok_def)
  have nc: "cur s \<noteq> Some t" if "stat th = RT_THREAD_READY"
    using cur_okD(2) [OF sched_invD(3) [OF inv] t] that by simp
  have f: "(\<lambda>th. th\<lparr>current_priority := p, number_mask := 2 ^ unat p\<rparr>) = with_prio p"
    by (simp add: with_prio_def fun_eq_iff)
  show ?thesis
  proof (cases "stat th = RT_THREAD_READY")
    case True
    have "rt_schedule_insert_thread t (upd_thread t (with_prio p) (unreadied t th s)) =
        Some (readied t (with_prio p th) (upd_thread t (with_prio p) (unreadied t th s)))"
      using nc True t p by (intro insert_eq) (simp_all add: unreadied_def)
    then show ?thesis
      using True t p remove_eq [OF t q] by (simp add: rt_thread_control_def f prio_changed_def)
  next
    case False
    then show ?thesis using t p by (simp add: rt_thread_control_def f prio_changed_def)
  qed
qed

lemma prio_changed_inv:
  assumes inv: "sched_inv s" and t: "threads s t = Some th" and p: "unat p < 32"
  shows "sched_inv (prio_changed t th p s)"
proof (cases "stat th = RT_THREAD_READY")
  case True
  have ok: "thread_ok th" using sched_invD(4) [OF inv t] .
  let ?th = "with_prio p th"
  let ?s1 = "(unreadied t th s)\<lparr>threads := (threads s)(t \<mapsto> ?th\<lparr>stat := RT_THREAD_SUSPEND\<rparr>)\<rparr>"
  have l: "lists_ok ?s1 \<and> group_ok ?s1"
    using unreadied_ok [OF sched_invD(1,2) [OF inv] t ok, of "?th\<lparr>stat := RT_THREAD_SUSPEND\<rparr>"] True by simp
  have nl: "\<not> linked t (lists ?s1)" using not_linked_remove [OF sched_invD(5) [OF inv]] by (simp add: unreadied_def)
  have okp: "thread_ok (?th\<lparr>stat := RT_THREAD_SUSPEND\<rparr>)" using ok p True by (intro thread_ok_stat) simp_all
  have eq: "prio_changed t th p s = readied t (?th\<lparr>stat := RT_THREAD_SUSPEND\<rparr>) ?s1"
    using True t by (simp add: prio_changed_def readied_def upd_thread_def unreadied_def)
  have "lists_ok (readied t (?th\<lparr>stat := RT_THREAD_SUSPEND\<rparr>) ?s1) \<and> group_ok (readied t (?th\<lparr>stat := RT_THREAD_SUSPEND\<rparr>) ?s1)"
    using l nl okp by (intro readied_ok) auto
  moreover have nc: "cur s \<noteq> Some t" using cur_okD(2) [OF sched_invD(3) [OF inv] t] True by simp
  have "cur_ok (s\<lparr>threads := (threads s)(t \<mapsto> ?th\<lparr>stat := RT_THREAD_READY\<rparr>)\<rparr>)"
    using sched_invD(3) [OF inv] nc by (intro cur_ok_upd) simp_all
  then have "cur_ok (readied t (?th\<lparr>stat := RT_THREAD_SUSPEND\<rparr>) ?s1)"
    by (simp add: cur_ok_def readied_def unreadied_def)
  moreover have "thread_ok h" if "threads (readied t (?th\<lparr>stat := RT_THREAD_SUSPEND\<rparr>) ?s1) x = Some h" for x h
  proof (cases "x = t")
    case False
    then show ?thesis using that sched_invD(4) [OF inv, of x h] by (simp add: readied_def)
  next
    case x: True
    then have "h = ?th\<lparr>stat := RT_THREAD_READY\<rparr>" using that by (simp add: readied_def)
    moreover have "thread_ok (?th\<lparr>stat := RT_THREAD_READY\<rparr>)" using ok p True by (intro thread_ok_stat) simp_all
    ultimately show ?thesis by simp
  qed
  ultimately show ?thesis unfolding eq by (simp add: sched_inv_def)
next
  case False
  then show ?thesis
    using upd_thread_inv [OF inv, of t "with_prio p"] sched_invD(4) [OF inv t] t p by (simp add: prio_changed_def)
qed

lemma prio_changed_kernel:
  assumes k: "kernel_inv s" and t: "threads s t = Some th" and p: "unat p < 32"
  shows "kernel_inv (prio_changed t th p s)"
proof -
  have tm: "timers (prio_changed t th p s) = timers s" "trow (prio_changed t th p s) = trow s"
    "rt_tick (prio_changed t th p s) = rt_tick s"
    by (simp_all add: prio_changed_def readied_def unreadied_def)
  have "thread_timer_ok t (Some th) (timers s (ThreadTimer t))" using kernel_invD(3) [OF k] t by (metis tt_ok_def)
  then have "thread_timer_ok t (threads (prio_changed t th p s) t) (timers s (ThreadTimer t))"
    using t by (auto simp: prio_changed_def readied_def unreadied_def thread_timer_ok_def split: option.splits)
  then have "tt_ok (prio_changed t th p s)"
    using tm by (intro tt_ok_change [OF kernel_invD(3) [OF k], where t = t])
      (simp_all add: prio_changed_def readied_def unreadied_def)
  moreover have "timer_inv (prio_changed t th p s)"
    using kernel_invD(2) [OF k] tm by (subst timer_inv_cong [where s = s]) simp_all
  ultimately show ?thesis using prio_changed_inv [OF kernel_invD(1) [OF k] t p] by (simp add: kernel_inv_def)
qed

section \<open>What happens to the waiting threads\<close>

text \<open>
  No operation of this part touches the objects that threads wait for, or the wanted events of a
  waiting thread, or puts a thread on a suspend list; threads only leave.
\<close>

fun is_wait :: "lhead \<Rightarrow> bool" where
  "is_wait (Suspend i) = True"
| "is_wait (SuspendSender i) = True"
| "is_wait l = False"

definition same_wait :: "rt_thread \<Rightarrow> rt_thread \<Rightarrow> bool" where
  "same_wait th th' \<longleftrightarrow> event_set th' = event_set th \<and> event_info th' = event_info th"

definition wait_frame :: "'z sched_scheme \<Rightarrow> 'z sched_scheme \<Rightarrow> bool" where
  "wait_frame s s' \<longleftrightarrow> sched.more s' = sched.more s \<and>
     (\<forall>l. is_wait l \<longrightarrow> set (lists s' l) \<subseteq> set (lists s l)) \<and>
     (\<forall>l t th. is_wait l \<longrightarrow> t \<in> set (lists s' l) \<longrightarrow> threads s t = Some th \<longrightarrow>
        (\<exists>th'. threads s' t = Some th' \<and> same_wait th th'))"

lemma same_wait_simps [simp]:
  "same_wait th th" "same_wait th (th\<lparr>stat := x\<rparr>)" "same_wait th (th\<lparr>stat_yield := b\<rparr>)"
  "same_wait th (th\<lparr>th_error := e\<rparr>)" "same_wait th (th\<lparr>remaining_tick := w\<rparr>)"
  "same_wait th (th\<lparr>current_priority := p\<rparr>)" "same_wait th (th\<lparr>number_mask := m\<rparr>)"
  "same_wait th (th\<lparr>th_error := e, stat := x\<rparr>)" "same_wait th (th\<lparr>stat := x, stat_yield := b\<rparr>)"
  "same_wait th (th\<lparr>remaining_tick := w, stat_yield := b\<rparr>)" "same_wait th (th\<lparr>current_priority := p, number_mask := m\<rparr>)"
  "same_wait th (th\<lparr>number_mask := m, stat := x, stat_yield := b\<rparr>)"
  by (simp_all add: same_wait_def)

lemma same_wait_trans: "same_wait a b \<Longrightarrow> same_wait b c \<Longrightarrow> same_wait a c"
  by (simp add: same_wait_def)

lemma wait_frameI:
  assumes "sched.more s' = sched.more s"
    and "\<And>l t. is_wait l \<Longrightarrow> t \<in> set (lists s' l) \<Longrightarrow> t \<in> set (lists s l)"
    and "\<And>l t th. is_wait l \<Longrightarrow> t \<in> set (lists s' l) \<Longrightarrow> threads s t = Some th \<Longrightarrow>
      \<exists>th'. threads s' t = Some th' \<and> same_wait th th'"
  shows "wait_frame s s'"
  using assms unfolding wait_frame_def by blast

lemma wait_frame_refl [simp, intro]: "wait_frame s s"
  by (rule wait_frameI) auto

lemma wait_frame_trans [trans]:
  assumes "wait_frame s s'" and "wait_frame s' s''" shows "wait_frame s s''"
proof (rule wait_frameI)
  show "sched.more s'' = sched.more s" using assms by (simp add: wait_frame_def)
  show "t \<in> set (lists s l)" if "is_wait l" "t \<in> set (lists s'' l)" for l t
    using assms that unfolding wait_frame_def by blast
  show "\<exists>th'. threads s'' t = Some th' \<and> same_wait th th'"
    if w: "is_wait l" "t \<in> set (lists s'' l)" "threads s t = Some th" for l t th
  proof -
    have "t \<in> set (lists s' l)" using assms(2) w unfolding wait_frame_def by blast
    then obtain th1 where "threads s' t = Some th1" "same_wait th th1"
      using assms(1) w unfolding wait_frame_def by blast
    moreover from this obtain th2 where "threads s'' t = Some th2" "same_wait th1 th2"
      using assms(2) w unfolding wait_frame_def by blast
    ultimately show ?thesis using same_wait_trans by blast
  qed
qed

lemma wait_frame_same:
  "sched.more s' = sched.more s \<Longrightarrow> lists s' = lists s \<Longrightarrow> threads s' = threads s \<Longrightarrow> wait_frame s s'"
  by (rule wait_frameI) auto

lemma wait_frame_upd: "(\<And>th. same_wait th (f th)) \<Longrightarrow> wait_frame s (upd_thread t f s)"
  by (rule wait_frameI) auto

lemma wait_frame_unlink: "wait_frame s (s\<lparr>lists := tbl_remove t (lists s)\<rparr>)"
  by (rule wait_frameI) (auto simp: tbl_remove_def dest: set_remove1_subset [THEN subsetD])

lemma wait_frame_insert:
  "rt_schedule_insert_thread t s = Some s' \<Longrightarrow> wait_frame s s'"
  unfolding rt_schedule_insert_thread_def
  by (rule wait_frameI)
    (auto simp: Let_def tbl_insert_tail_def elim!: bind_SomeE split: if_splits)

lemma wait_frame_remove:
  assumes "rt_schedule_remove_thread t s = Some s'" shows "wait_frame s s'"
proof -
  have "lists s' = tbl_remove t (lists s)" "threads s' = threads s" "sched.more s' = sched.more s"
    using assms by (auto simp: rt_schedule_remove_thread_def Let_def elim!: bind_SomeE split: if_splits)
  then show ?thesis by (intro wait_frameI) (auto simp: tbl_remove_def dest: set_remove1_subset [THEN subsetD])
qed

lemma wait_frame_schedule:
  assumes "rt_schedule s = Some s'" shows "wait_frame s s'"
proof (cases "lock_nest s = 0 \<and> ready_group s \<noteq> 0")
  case False
  then show ?thesis using assms schedule_idle [of s] by auto
next
  case True
  note body = assms [unfolded rt_schedule_def if_P [OF True]]
  obtain to0 hp c cth where h: "scheduler_get_highest s = Some (to0, hp)" "cur s = Some c" "threads s c = Some cth"
    using body by (auto simp del: upd_thread_sel elim!: bind_SomeE)
  define s1 where "s1 = (if stat cth = RT_THREAD_RUNNING then upd_thread c (\<lambda>th. th\<lparr>stat_yield := False\<rparr>) s else s)"
  have f1: "wait_frame s s1" by (simp add: s1_def wait_frame_upd)
  define to where "to = (if keeps_cpu cth hp then c else to0)"
  show ?thesis
  proof (cases "to = c")
    case True
    then obtain s2 where "rt_schedule_remove_thread c s1 = Some s2"
      "s' = upd_thread c (\<lambda>th. th\<lparr>stat := RT_THREAD_RUNNING\<rparr>) s2"
      using body h unfolding s1_def to_def
      by (auto simp: Let_def simp del: upd_thread_sel elim!: bind_SomeE split: if_splits)
    then show ?thesis
      using wait_frame_trans [OF f1 wait_frame_trans [OF wait_frame_remove wait_frame_upd]] by simp
  next
    case False
    let ?s2 = "s1\<lparr>cur_priority := of_nat hp, cur := Some to\<rparr>"
    obtain s3 s4 sw where s3: "(if stat cth = RT_THREAD_RUNNING \<and> \<not> keeps_cpu cth hp
        then rt_schedule_insert_thread c ?s2 else Some ?s2) = Some s3"
      "rt_schedule_remove_thread to s3 = Some s4"
      "s' = (upd_thread to (\<lambda>th. th\<lparr>stat := RT_THREAD_RUNNING\<rparr>) s4)\<lparr>switches := sw\<rparr>"
      using body h False unfolding s1_def to_def
      by (auto simp: Let_def simp del: upd_thread_sel elim!: bind_SomeE split: if_splits)
    have "wait_frame s1 ?s2" by (rule wait_frame_same) simp_all
    moreover have "wait_frame ?s2 s3" using s3(1) wait_frame_insert by (auto split: if_splits)
    moreover have "wait_frame s3 s4" using s3(2) by (rule wait_frame_remove)
    moreover have "wait_frame s4 s'"
      unfolding s3(3) by (rule wait_frameI) auto
    ultimately show ?thesis using f1 by (blast intro: wait_frame_trans)
  qed
qed

lemma wait_frame_timeout:
  assumes "thread_timeout t s = Some s'" shows "wait_frame s s'"
proof -
  let ?u = "upd_thread t (\<lambda>th. th\<lparr>th_error := E_TIMEOUT\<rparr>) s"
  obtain s1 where s1: "rt_schedule_insert_thread t (?u\<lparr>lists := tbl_remove t (lists ?u)\<rparr>) = Some s1"
      "rt_schedule s1 = Some s'"
    using assms by (auto simp: thread_timeout_def Let_def simp del: upd_thread_sel elim!: bind_SomeE)
  have "wait_frame s ?u" by (simp add: wait_frame_upd)
  also have "wait_frame ?u (?u\<lparr>lists := tbl_remove t (lists ?u)\<rparr>)" by (rule wait_frame_unlink)
  also have "wait_frame \<dots> s1" by (rule wait_frame_insert [OF s1(1)])
  also have "wait_frame s1 s'" by (rule wait_frame_schedule [OF s1(2)])
  finally show ?thesis .
qed

section \<open>Timeouts and the tick\<close>

lemma timeout_eq:
  assumes inv: "sched_inv s" and t: "threads s t = Some th" "stat th = RT_THREAD_SUSPEND"
  shows "thread_timeout t s = rt_schedule (waked t (th\<lparr>th_error := E_TIMEOUT\<rparr>) s)"
proof -
  let ?th = "th\<lparr>th_error := E_TIMEOUT\<rparr>"
  have p: "prio_of th < 32" using sched_invD(4) [OF inv t(1)] by (simp add: thread_ok_def)
  let ?u = "upd_thread t (\<lambda>th. th\<lparr>th_error := E_TIMEOUT\<rparr>) s"
  have "waked t ?th ?u = waked t ?th s" using t by (simp add: waked_def upd_thread_def)
  then have "rt_schedule_insert_thread t (?u\<lparr>lists := tbl_remove t (lists ?u)\<rparr>) = Some (waked t ?th s)"
    using insert_waked [of ?u t ?th] t p by simp
  then show ?thesis using t by (simp add: thread_timeout_def)
qed

lemma timeout_ok:
  assumes k: "kernel_inv s" and c: "cur s \<noteq> None" and t: "threads s t = Some th" "stat th = RT_THREAD_SUSPEND"
    and na: "\<And>tm. timers s (ThreadTimer t) = Some tm \<Longrightarrow> \<not> tm_active tm"
  shows "\<exists>s'. thread_timeout t s = Some s' \<and> kernel_inv s' \<and> cur s' \<noteq> None \<and>
    sched_frame (waked t (th\<lparr>th_error := E_TIMEOUT\<rparr>) s) s'"
proof -
  let ?th = "th\<lparr>th_error := E_TIMEOUT\<rparr>"
  have "kernel_inv (waked t ?th s)"
    using t na sched_invD(4) [OF kernel_invD(1) [OF k] t(1)] by (intro waked_kernel [OF k t]) simp_all
  from schedule_kernel [OF this] show ?thesis using c timeout_eq [OF kernel_invD(1) [OF k] t] by auto
qed

text \<open>The timer lists play no role in scheduling.\<close>

lemma schedule_trow:
  assumes inv: "sched_inv s" and c: "cur s \<noteq> None"
  shows "rt_schedule (s\<lparr>trow := L\<rparr>) = map_option (\<lambda>s. s\<lparr>trow := L\<rparr>) (rt_schedule s)"
proof -
  obtain c cth where c: "cur s = Some c" "threads s c = Some cth"
    using c sched_invD(3) [OF inv] by (auto simp: cur_ok_def)
  have inv': "sched_inv (s\<lparr>trow := L\<rparr>)" using inv by (subst sched_inv_timer [where s = s]) simp_all
  have hi: "scheduler_get_highest (s\<lparr>trow := L\<rparr>) = scheduler_get_highest s"
    by (simp add: scheduler_get_highest_def Let_def)
  have sw: "switched c cth to tth (s\<lparr>trow := L\<rparr>) = (switched c cth to tth s)\<lparr>trow := L\<rparr>" for to tth
    by (simp add: switched_def Let_def readied_def unreadied_def)
  have up: "upd_thread c f (s\<lparr>trow := L\<rparr>) = (upd_thread c f s)\<lparr>trow := L\<rparr>" for f
    by (simp add: upd_thread_def)
  let ?s = "s\<lparr>trow := L\<rparr>"
  have c': "cur ?s = Some c" "threads ?s c = Some cth" using c by simp_all
  show ?thesis
  proof (cases "lock_nest s \<noteq> 0 \<or> ready_group s = 0")
    case True
    then show ?thesis using schedule_idle [of s] schedule_idle [of ?s] by simp
  next
    case False
    then have a: "lock_nest ?s = 0" "ready_group ?s \<noteq> 0" by simp_all
    obtain to hp tth where h: "scheduler_get_highest s = Some (to, hp)" "threads s to = Some tth"
        "stat tth = RT_THREAD_READY" "prio_of tth = hp"
      "rt_schedule s = Some (if keeps_cpu cth hp then upd_thread c (\<lambda>th. th\<lparr>stat_yield := False\<rparr>) s
                            else switched c cth to tth s)"
      using schedule_cases [OF inv c] False by blast
    have h': "scheduler_get_highest ?s = Some (to, hp)" "threads ?s to = Some tth" using h hi by simp_all
    show ?thesis
    proof (cases "keeps_cpu cth hp")
      case True
      then show ?thesis using schedule_keep [OF inv' a h'(1) c' True] h(5) up by simp
    next
      case False
      then show ?thesis using schedule_switch [OF inv' a h'(1) c' False h'(2) h(3,4)] h(5) sw by simp
    qed
  qed
qed

text \<open>One round of \<open>rt_timer_check\<close> for a thread's timer is that thread's timeout with the timer stopped.\<close>

lemma check_body_thread:
  assumes k: "kernel_inv s" and E: "trow s ExpiredList = []" and T: "trow s TimerList = ThreadTimer t # rest"
    and c: "cur s \<noteq> None"
  shows "check_body (timer_fire user) (ThreadTimer t) s = thread_timeout t (stopped (ThreadTimer t) s)"
proof -
  let ?x = "ThreadTimer t"
  note inv = kernel_invD(1) [OF k] and wf = timer_okD(1) [OF kernel_invD(4) [OF k]]
  obtain tm where tm: "timers s ?x = Some tm" "tm_active tm"
    using timer_okD(2) [OF kernel_invD(4) [OF k], of ?x] T by auto
  have "thread_timer_ok t (threads s t) (Some tm)" using kernel_invD(3) [OF k] tm(1) by (metis tt_ok_def)
  then obtain th where t: "threads s t = Some th" "stat th = RT_THREAD_SUSPEND"
    and f: "timeout_func tm = ThreadTimeout t" "\<not> tm_periodic tm"
    using tm(2) by (auto simp: thread_timer_ok_def split: option.splits)
  let ?s0 = "stopped ?x s" and ?L = "(tbl_remove ?x (trow s))(ExpiredList := [?x])"
  let ?th = "th\<lparr>th_error := E_TIMEOUT\<rparr>"
  have inv0: "sched_inv ?s0" using inv by (subst sched_inv_timer [where s = s]) simp_all
  have inv1: "sched_inv (?s0\<lparr>trow := ?L\<rparr>)" using inv by (subst sched_inv_timer [where s = s]) simp_all
  have w: "waked t ?th (?s0\<lparr>trow := ?L\<rparr>) = (waked t ?th ?s0)\<lparr>trow := ?L\<rparr>" by (simp add: waked_def)
  have iw: "sched_inv (waked t ?th ?s0)"
    using t sched_invD(4) [OF inv t(1)] by (intro waked_inv [OF inv0]) simp_all
  obtain s' where s': "rt_schedule (waked t ?th ?s0) = Some s'" "sched_frame (waked t ?th ?s0) s'"
    using schedule_ok [OF iw] c by auto
  have fire: "thread_timeout t (?s0\<lparr>trow := ?L\<rparr>) = Some (s'\<lparr>trow := ?L\<rparr>)"
    using timeout_eq [OF inv1, of t th] t w schedule_trow [OF iw, of ?L] c s'(1) by simp
  have L: "tbl_remove ?x ?L = tbl_remove ?x (trow s)"
  proof
    show "tbl_remove ?x ?L l = tbl_remove ?x (trow s) l" for l
      using tbl_wfD [OF wf, of TimerList] T by (cases l) (simp_all add: tbl_remove_def E remove1_idem)
  qed
  have fr: "timers s' = timers ?s0" "trow s' = trow ?s0" using s'(2) by (simp_all add: sched_frame_def)
  have b: "upd_timer ?x tm_deactivate (timer_remove ?x s)\<lparr>trow := ?L\<rparr> = ?s0\<lparr>trow := ?L\<rparr>"
    by (simp add: stopped_def)
  have E1: "tbl_remove ?x (trow s) ExpiredList = []" using E by (simp add: tbl_remove_def)
  have "timer_remove ?x (s'\<lparr>trow := ?L\<rparr>) = s'" using fr L by (simp add: timer_remove_def)
  then have "check_body (timer_fire user) ?x s = Some s'"
    using tm f fire fr E1 b unfolding check_body_def by (simp add: Let_def timer_fire_def)
  then show ?thesis using timeout_eq [OF inv0, of t th] t s'(1) by simp
qed

lemma same_thread_trans: "same_thread a b \<Longrightarrow> same_thread b c \<Longrightarrow> same_thread a c"
  unfolding same_thread_def by (cases a; cases b; cases c) auto

definition timed_out :: "rt_thread \<Rightarrow> rt_thread \<Rightarrow> bool" where
  "timed_out th th' \<longleftrightarrow> same_thread (th\<lparr>th_error := E_TIMEOUT, stat := RT_THREAD_READY\<rparr>) th'"

text \<open>What the tick does to the threads: the due ones time out, the others at most switch.\<close>

definition tick_threads :: "tmid list \<Rightarrow> (nat \<rightharpoonup> rt_thread) \<Rightarrow> (nat \<rightharpoonup> rt_thread) \<Rightarrow> bool" where
  "tick_threads E T T' \<longleftrightarrow>
    (\<forall>t. rel_option (if ThreadTimer t \<in> set E then timed_out else same_thread) (T t) (T' t))"

lemma tm_due_cong: "rt_tick s' = rt_tick s \<Longrightarrow> timers s' = timers s \<Longrightarrow> trow s' = trow s \<Longrightarrow> tm_due s' = tm_due s"
  by (simp add: tm_due_def tm_rem_def timeout_of_def)

lemma rel_option_trans:
  "rel_option R a b \<Longrightarrow> rel_option S b c \<Longrightarrow> (\<And>x y z. R x y \<Longrightarrow> S y z \<Longrightarrow> Q x z) \<Longrightarrow> rel_option Q a c"
  by (cases a; cases b; cases c) auto

lemma stopped_kernel:
  assumes k: "kernel_inv s" shows "kernel_inv (stopped (ThreadTimer t) s)"
proof -
  have "thread_timer_ok x (threads s x) (timers (stopped (ThreadTimer t) s) (ThreadTimer x))" for x
  proof -
    have "thread_timer_ok x (threads s x) (timers s (ThreadTimer x))" using kernel_invD(3) [OF k] by (simp add: tt_ok_def)
    then show ?thesis
      by (auto simp: thread_timer_ok_def split: option.splits)
  qed
  then have "tt_ok (stopped (ThreadTimer t) s)" using kernel_invD(3) [OF k] by (auto simp: tt_ok_def)
  moreover have "sched_inv (stopped (ThreadTimer t) s) = sched_inv s" by (rule sched_inv_timer) simp_all
  ultimately show ?thesis using k stopped_inv [of s] by (simp add: kernel_inv_def)
qed

lemma check_step_thread:
  assumes k: "kernel_inv s" and E: "trow s ExpiredList = []" and c: "cur s \<noteq> None" and d: "tm_due s = ThreadTimer t # D"
  shows "\<exists>s' rest. check_body (timer_fire user) (ThreadTimer t) s = Some s' \<and> trow s TimerList = ThreadTimer t # rest \<and>
    tm_expired (rt_tick s) (timeout_of s (ThreadTimer t)) \<and> kernel_inv s' \<and> trow s' ExpiredList = [] \<and>
    cur s' \<noteq> None \<and> tm_due s' = D \<and> rt_tick s' = rt_tick s \<and> tick_threads [ThreadTimer t] (threads s) (threads s') \<and>
    wait_frame s s'"
proof -
  let ?x = "ThreadTimer t" and ?s0 = "stopped (ThreadTimer t) s"
  have so: "timer_sorted s" using kernel_invD(2) [OF k] by (simp add: timer_inv_def)
  obtain rest where T: "trow s TimerList = ?x # rest" using due_head(1) [OF so d] by blast
  have ex: "tm_expired (rt_tick s) (timeout_of s ?x)" using expired_iff [OF so, of ?x] T due_Cons [OF d T] by simp
  obtain tm where tm: "timers s ?x = Some tm" "tm_active tm"
    using timer_okD(2) [OF kernel_invD(4) [OF k], of ?x] T by auto
  have "thread_timer_ok t (threads s t) (Some tm)" using kernel_invD(3) [OF k] tm(1) by (metis tt_ok_def)
  then obtain th where t: "threads s t = Some th" "stat th = RT_THREAD_SUSPEND"
    using tm(2) by (auto simp: thread_timer_ok_def split: option.splits)
  obtain s' where s': "thread_timeout t ?s0 = Some s'" "kernel_inv s'" "cur s' \<noteq> None"
      "sched_frame (waked t (th\<lparr>th_error := E_TIMEOUT\<rparr>) ?s0) s'"
    using timeout_ok [OF stopped_kernel [OF k, of t], of t th] t c tm by auto
  have fr: "timers s' = timers ?s0" "trow s' = trow ?s0" "rt_tick s' = rt_tick ?s0"
    using s'(4) by (simp_all add: sched_frame_def)
  have "rel_option (if ThreadTimer u \<in> set [?x] then timed_out else same_thread) (threads s u) (threads s' u)" for u
  proof -
    have r: "rel_option same_thread (threads (waked t (th\<lparr>th_error := E_TIMEOUT\<rparr>) ?s0) u) (threads s' u)"
      using s'(4) by (simp add: sched_frame_def)
    show ?thesis
    proof (cases "u = t")
      case True
      let ?w = "th\<lparr>th_error := E_TIMEOUT, stat := if cur s = Some t then RT_THREAD_RUNNING else RT_THREAD_READY\<rparr>"
      have "same_thread (th\<lparr>th_error := E_TIMEOUT, stat := RT_THREAD_READY\<rparr>) ?w"
        by (simp add: same_thread_def runnable_def)
      then show ?thesis using r True t same_thread_trans [of _ ?w] by (auto simp: timed_out_def option_rel_Some1)
    next
      case False
      then show ?thesis using r by simp
    qed
  qed
  moreover have "wait_frame s s'"
    using wait_frame_trans [OF _ wait_frame_timeout [OF s'(1)]] by (simp add: wait_frame_same)
  ultimately show ?thesis
    using s' fr T ex check_body_thread [OF k E T c, of user] due_stopped [OF T d] tm_due_cong [of s' ?s0] E
    by (auto simp: tick_threads_def tbl_remove_def)
qed

lemma tick_check_threads:
  assumes "kernel_inv s" and "trow s ExpiredList = []" and "cur s \<noteq> None"
    and "\<forall>x \<in> set (tm_due s). \<exists>t. x = ThreadTimer t" and "length (tm_due s) < n"
  shows "\<exists>s'. timer_check_loop (timer_fire user) n (rt_tick s) s = Done s' \<and> kernel_inv s' \<and>
    trow s' ExpiredList = [] \<and> cur s' \<noteq> None \<and> tm_due s' = [] \<and> rt_tick s' = rt_tick s \<and>
    tick_threads (tm_due s) (threads s) (threads s') \<and> wait_frame s s'"
  using assms
proof (induction n arbitrary: s)
  case (Suc n)
  have so: "timer_sorted s" using kernel_invD(2) [OF Suc.prems(1)] by (simp add: timer_inv_def)
  show ?case
  proof (cases "tm_due s")
    case Nil
    then have "timer_check_loop (timer_fire user) (Suc n) (rt_tick s) s = Done s"
      using due_head(2) [OF so Nil] expired_iff [OF so] by (auto split: list.split)
    then show ?thesis using Suc.prems Nil by (simp add: tick_threads_def option.rel_refl)
  next
    case (Cons x D)
    obtain t where x: "x = ThreadTimer t" using Suc.prems(4) Cons by auto
    obtain s1 rest where s1: "check_body (timer_fire user) (ThreadTimer t) s = Some s1"
      "trow s TimerList = ThreadTimer t # rest" "tm_expired (rt_tick s) (timeout_of s (ThreadTimer t))"
      "kernel_inv s1" "trow s1 ExpiredList = []" "cur s1 \<noteq> None" "tm_due s1 = D" "rt_tick s1 = rt_tick s"
      "tick_threads [ThreadTimer t] (threads s) (threads s1)" "wait_frame s s1"
      using check_step_thread [OF Suc.prems(1-3) Cons [unfolded x], of user] by blast
    have nt: "ThreadTimer t \<notin> set D"
      using tbl_wfD [OF timer_okD(1) [OF kernel_invD(4) [OF Suc.prems(1)]], of TimerList] s1(2)
        due_Cons [OF Cons [unfolded x] s1(2)] by auto
    obtain s' where s': "timer_check_loop (timer_fire user) n (rt_tick s1) s1 = Done s'" "kernel_inv s'"
      "trow s' ExpiredList = []" "cur s' \<noteq> None" "tm_due s' = []" "rt_tick s' = rt_tick s1"
      "tick_threads (tm_due s1) (threads s1) (threads s')" "wait_frame s1 s'"
      using Suc.IH [OF s1(4-6)] Suc.prems(4,5) Cons s1(7) by auto
    have "tick_threads (tm_due s) (threads s) (threads s')"
      unfolding tick_threads_def
    proof
      fix u
      have a: "rel_option (if u = t then timed_out else same_thread) (threads s u) (threads s1 u)"
        and b: "rel_option (if ThreadTimer u \<in> set D then timed_out else same_thread) (threads s1 u) (threads s' u)"
        using s1(9) s'(7) s1(7) by (simp_all add: tick_threads_def split: if_splits)
      have c: "timed_out p q \<Longrightarrow> same_thread q r \<Longrightarrow> timed_out p r" for p q r
        by (simp add: timed_out_def same_thread_trans)
      have e: "same_thread p q \<Longrightarrow> timed_out q r \<Longrightarrow> timed_out p r" for p q r
        unfolding timed_out_def same_thread_def by (cases p; cases q; cases r) auto
      show "rel_option (if ThreadTimer u \<in> set (tm_due s) then timed_out else same_thread) (threads s u) (threads s' u)"
      proof (cases "u = t")
        case True
        then show ?thesis using a b nt Cons x by (auto intro: rel_option_trans c)
      next
        case False
        then show ?thesis using a b Cons x by (auto intro: rel_option_trans e same_thread_trans)
      qed
    qed
    moreover have "wait_frame s s'" by (rule wait_frame_trans [OF s1(10) s'(8)])
    ultimately show ?thesis using s' s1 by (auto simp: rt_tick_get_def)
  qed
qed simp

section \<open>Between two ticks\<close>

definition kernel_quiet :: "'z sched_scheme \<Rightarrow> bool" where
  "kernel_quiet s \<longleftrightarrow> kernel_inv s \<and> timer_quiet s"

lemma kernel_quietD:
  assumes "kernel_quiet s"
  shows "kernel_inv s" "timer_quiet s" "timer_fresh s" "trow s ExpiredList = []" "sched_inv s" "tt_ok s"
  using assms by (simp_all add: kernel_quiet_def kernel_inv_def timer_quiet_def)

lemma timer_quiet_cong:
  "rt_tick s' = rt_tick s \<Longrightarrow> timers s' = timers s \<Longrightarrow> trow s' = trow s \<Longrightarrow> timer_quiet s' = timer_quiet s"
proof -
  assume a: "rt_tick s' = rt_tick s" "timers s' = timers s" "trow s' = trow s"
  then have "tm_rem s' = tm_rem s" by (simp add: tm_rem_def timeout_of_def fun_eq_iff)
  then show ?thesis using a timer_inv_cong [OF a] by (simp add: timer_quiet_def timer_fresh_def)
qed

lemma kernel_quietI:
  "kernel_inv s' \<Longrightarrow> timer_quiet s \<Longrightarrow> rt_tick s' = rt_tick s \<Longrightarrow> timers s' = timers s \<Longrightarrow> trow s' = trow s \<Longrightarrow>
   kernel_quiet s'"
  by (simp add: kernel_quiet_def timer_quiet_cong [of s' s])

lemma schedule_quiet:
  assumes q: "kernel_quiet s" and c: "cur s \<noteq> None"
  shows "\<exists>s'. rt_schedule s = Some s' \<and> kernel_quiet s' \<and> cur s' \<noteq> None \<and> sched_frame s s'"
proof -
  obtain s' where "rt_schedule s = Some s'" "kernel_inv s'" "cur s' \<noteq> None" "sched_frame s s'"
    using schedule_kernel [OF kernel_quietD(1) [OF q] c] by blast
  then show ?thesis using kernel_quietI [OF _ kernel_quietD(2) [OF q]] by (auto simp: sched_frame_def)
qed

lemma upd_thread_kernel:
  assumes k: "kernel_inv s" and f: "\<And>th. threads s t = Some th \<Longrightarrow> stat (f th) = stat th \<and>
    (stat th = RT_THREAD_READY \<longrightarrow> prio_of (f th) = prio_of th) \<and> thread_ok (f th)"
  shows "kernel_inv (upd_thread t f s)"
proof -
  have "thread_timer_ok t (threads s t) (timers s (ThreadTimer t))" using kernel_invD(3) [OF k] by (simp add: tt_ok_def)
  then have "thread_timer_ok t (threads (upd_thread t f s) t) (timers s (ThreadTimer t))"
    using f by (cases "threads s t") (auto simp: thread_timer_ok_def split: option.splits)
  then have "tt_ok (upd_thread t f s)"
    by (intro tt_ok_change [OF kernel_invD(3) [OF k], where t = t]) simp_all
  moreover have "timer_inv (upd_thread t f s)" using kernel_invD(2) [OF k] by (subst timer_inv_cong [where s = s]) simp_all
  ultimately show ?thesis using upd_thread_inv [OF kernel_invD(1) [OF k] f] by (simp add: kernel_inv_def)
qed

lemma upd_thread_quiet:
  assumes q: "kernel_quiet s" and f: "\<And>th. threads s t = Some th \<Longrightarrow> stat (f th) = stat th \<and>
    (stat th = RT_THREAD_READY \<longrightarrow> prio_of (f th) = prio_of th) \<and> thread_ok (f th)"
  shows "kernel_quiet (upd_thread t f s)"
  using upd_thread_kernel [OF kernel_quietD(1) [OF q] f] kernel_quietD(2) [OF q] by (rule kernel_quietI) simp_all

lemma tm_stop_quiet: "timer_quiet s \<Longrightarrow> timer_quiet (tm_stop x s)"
  by (simp add: tm_stop_def quiet_stopped split: option.split)

lemma resume_quiet:
  assumes q: "kernel_quiet s" and t: "threads s t = Some th" "stat th = RT_THREAD_SUSPEND"
  shows "rt_thread_resume t s = Some (RT_EOK, waked t th (tm_stop (ThreadTimer t) s)) \<and>
    kernel_quiet (waked t th (tm_stop (ThreadTimer t) s))"
  using resume_ok [OF kernel_quietD(1) [OF q] t] tm_stop_quiet [OF kernel_quietD(2) [OF q], of "ThreadTimer t"]
    kernel_quietI [of "waked t th (tm_stop (ThreadTimer t) s)" "tm_stop (ThreadTimer t) s"] by simp

lemma suspend_quiet:
  assumes q: "kernel_quiet s" and r: "runs s c th"
  shows "rt_thread_suspend c s = Some (RT_EOK, s\<lparr>threads := (threads s)(c \<mapsto> th\<lparr>stat := RT_THREAD_SUSPEND\<rparr>)\<rparr>) \<and>
    kernel_quiet (s\<lparr>threads := (threads s)(c \<mapsto> th\<lparr>stat := RT_THREAD_SUSPEND\<rparr>)\<rparr>)"
  using suspend_ok [OF kernel_quietD(1) [OF q] r]
    kernel_quietI [OF _ kernel_quietD(2) [OF q], of "s\<lparr>threads := (threads s)(c \<mapsto> th\<lparr>stat := RT_THREAD_SUSPEND\<rparr>)\<rparr>"] by simp

lemma armed_quiet:
  assumes q: "kernel_quiet s" and t: "threads s t = Some th" "stat th = RT_THREAD_SUSPEND" and i: "tick < half_tick"
  shows "thread_timer_run t tick s = Some (armed t tick s) \<and> kernel_quiet (armed t tick s) \<and>
    (\<exists>tm. timers (armed t tick s) (ThreadTimer t) = Some tm \<and> tm_active tm \<and> timeout_tick tm = rt_tick s + tick) \<and>
    (\<forall>x. x \<noteq> ThreadTimer t \<longrightarrow> timers (armed t tick s) x = timers s x)"
proof -
  obtain tm where tm: "timers s (ThreadTimer t) = Some tm"
    by (rule thread_timer [OF kernel_quietD(6) [OF q] t(1)]) (use t in auto)
  let ?u = "upd_timer (ThreadTimer t) (\<lambda>m. m\<lparr>tm_init_tick := tick\<rparr>) s"
  have "timer_quiet ?u" using i by (intro quiet_upd [OF kernel_quietD(2) [OF q]]) (simp_all add: tm_active_def)
  then have "timer_quiet (armed t tick s)"
    using quiet_started [of ?u "ThreadTimer t" "tm\<lparr>tm_init_tick := tick\<rparr>"] tm by (simp add: armed_def)
  then show ?thesis using armed_ok [OF kernel_quietD(1) [OF q] t i] by (simp add: kernel_quiet_def)
qed

text \<open>Sleeping: the current thread is suspended with its timer running, and the processor given up.\<close>

definition slept :: "nat \<Rightarrow> rt_thread \<Rightarrow> tick \<Rightarrow> 'z sched_scheme \<Rightarrow> 'z sched_scheme" where
  "slept c th tick s = armed c tick
     (s\<lparr>threads := (threads s)(c \<mapsto> th\<lparr>th_error := RT_EOK, stat := RT_THREAD_SUSPEND\<rparr>)\<rparr>)"

lemma sleep_prefix:
  assumes q: "kernel_quiet s" and r: "runs s c th" and i: "tick < half_tick"
  shows "do { (_, s) \<leftarrow> rt_thread_suspend c (upd_thread c (\<lambda>th. th\<lparr>th_error := RT_EOK\<rparr>) s);
              thread_timer_run c tick s } = Some (slept c th tick s) \<and>
    kernel_quiet (slept c th tick s) \<and>
    (\<exists>tm. timers (slept c th tick s) (ThreadTimer c) = Some tm \<and> tm_active tm \<and> timeout_tick tm = rt_tick s + tick) \<and>
    threads (slept c th tick s) = (threads s)(c \<mapsto> th\<lparr>th_error := RT_EOK, stat := RT_THREAD_SUSPEND\<rparr>) \<and>
    cur (slept c th tick s) = Some c"
proof -
  note R = runsD [OF r]
  let ?u = "upd_thread c (\<lambda>th. th\<lparr>th_error := RT_EOK\<rparr>) s"
  have qu: "kernel_quiet ?u" using sched_invD(4) [OF kernel_quietD(5) [OF q]] by (intro upd_thread_quiet [OF q]) simp
  have ru: "runs ?u c (th\<lparr>th_error := RT_EOK\<rparr>)" using R by (simp add: runs_def)
  let ?v = "s\<lparr>threads := (threads s)(c \<mapsto> th\<lparr>th_error := RT_EOK, stat := RT_THREAD_SUSPEND\<rparr>)\<rparr>"
  have v: "?u\<lparr>threads := (threads ?u)(c \<mapsto> th\<lparr>th_error := RT_EOK, stat := RT_THREAD_SUSPEND\<rparr>)\<rparr> = ?v"
    by (simp add: upd_thread_def)
  have s: "rt_thread_suspend c ?u = Some (RT_EOK, ?v)" "kernel_quiet ?v"
    using suspend_quiet [OF qu ru] unfolding v by simp_all
  from armed_quiet [OF s(2), of c "th\<lparr>th_error := RT_EOK, stat := RT_THREAD_SUSPEND\<rparr>" tick] i
  show ?thesis using s R by (simp add: slept_def)
qed

lemma sleep_ok:
  assumes q: "kernel_quiet s" and r: "runs s c th" and i: "tick < half_tick"
  shows "\<exists>s'. rt_thread_sleep tick s = Some s' \<and> rt_schedule (slept c th tick s) = Some s' \<and> kernel_quiet s' \<and>
    cur s' \<noteq> None \<and> sched_frame (slept c th tick s) s'"
proof -
  note p = sleep_prefix [OF q r i]
  obtain s' where "rt_schedule (slept c th tick s) = Some s'" "kernel_quiet s'" "cur s' \<noteq> None"
      "sched_frame (slept c th tick s) s'"
    using schedule_quiet [of "slept c th tick s"] p by auto
  then show ?thesis
    using p runsD [OF r] by (auto simp: rt_thread_sleep_def rt_thread_self_def case_prod_beta' elim!: bind_SomeE)
qed

lemma yield_ok:
  assumes q: "kernel_quiet s" and c: "cur s \<noteq> None"
  shows "\<exists>s'. rt_thread_yield s = Some (RT_EOK, s') \<and> kernel_quiet s' \<and> cur s' \<noteq> None \<and>
    rt_schedule (upd_thread (the (cur s)) (\<lambda>th. th\<lparr>remaining_tick := init_tick th, stat_yield := True\<rparr>) s) = Some s'"
proof -
  obtain t th where t: "cur s = Some t" "threads s t = Some th"
    using c cur_okD(3) [OF sched_invD(3) [OF kernel_quietD(5) [OF q]]] by auto
  let ?u = "upd_thread t (\<lambda>th. th\<lparr>remaining_tick := init_tick th, stat_yield := True\<rparr>) s"
  have "kernel_quiet ?u" using sched_invD(4) [OF kernel_quietD(5) [OF q]] by (intro upd_thread_quiet [OF q]) simp
  from schedule_quiet [OF this] t show ?thesis by (auto simp: rt_thread_yield_def rt_thread_self_def)
qed

lemma slice_ok:
  assumes q: "kernel_quiet s" and c: "cur s \<noteq> None"
  shows "\<exists>s'. tick_slice s = Some s' \<and> kernel_inv s' \<and> cur s' \<noteq> None \<and> rt_tick s' = rt_tick s + 1 \<and>
    timers s' = timers s \<and> trow s' = trow s \<and> wait_frame s s'"
proof -
  obtain t th where t: "cur s = Some t" "threads s t = Some th"
    using c cur_okD(3) [OF sched_invD(3) [OF kernel_quietD(5) [OF q]]] by auto
  let ?s1 = "s\<lparr>rt_tick := rt_tick s + 1\<rparr>"
  let ?s2 = "upd_thread t (\<lambda>th. th\<lparr>remaining_tick := remaining_tick th - 1\<rparr>) ?s1"
  let ?s3 = "upd_thread t (\<lambda>th. th\<lparr>remaining_tick := init_tick th, stat_yield := True\<rparr>) ?s2"
  have "sched_inv ?s1" using kernel_quietD(5) [OF q] by (subst sched_inv_timer [where s = s]) simp_all
  moreover have "tt_ok ?s1" using kernel_quietD(6) [OF q] by (simp add: tt_ok_def)
  ultimately have k1: "kernel_inv ?s1"
    using tick_inv [of s] kernel_quietD(1,3) [OF q] by (simp add: kernel_inv_def)
  have k2: "kernel_inv ?s2" using sched_invD(4) [OF kernel_invD(1) [OF k1]] by (intro upd_thread_kernel [OF k1]) simp
  have k3: "kernel_inv ?s3"
    by (rule upd_thread_kernel [OF k2]) (use sched_invD(4) [OF kernel_invD(1) [OF k2], of t] in \<open>simp del: upd_thread_sel\<close>)
  obtain s' where s': "rt_schedule ?s3 = Some s'" "kernel_inv s'" "cur s' \<noteq> None" "sched_frame ?s3 s'"
    using schedule_kernel [OF k3] t by auto
  have fr: "rt_tick s' = rt_tick s + 1" "timers s' = timers s" "trow s' = trow s"
    using s'(4) by (simp_all add: sched_frame_def)
  have w2: "wait_frame s ?s2"
    using wait_frame_trans [OF _ wait_frame_upd, of s ?s1] by (simp add: wait_frame_same)
  then have "wait_frame s s'"
    using wait_frame_trans [OF w2 wait_frame_trans [OF wait_frame_upd wait_frame_schedule [OF s'(1)]]] by simp
  show ?thesis
  proof (cases "remaining_tick th - 1 = 0")
    case True
    then have "tick_slice s = Some s'" using t s'(1) by (simp add: tick_slice_def rt_thread_self_def Let_def)
    then show ?thesis using s' fr \<open>wait_frame s s'\<close> by blast
  next
    case False
    then have "tick_slice s = Some ?s2" using t by (simp add: tick_slice_def rt_thread_self_def Let_def)
    then show ?thesis using k2 t w2 by (intro exI [of _ ?s2]) simp
  qed
qed

section \<open>Creating, starting and closing threads between ticks\<close>

lemma stack_align:
  fixes x :: u32
  shows "unat (x AND NOT 7) = unat x - unat x mod 8"
proof -
  have m: "x AND 7 = take_bit 3 x"
    by (simp add: take_bit_eq_mask mask_eq_exp_minus_1)
  have g: "(x AND NOT y) AND (x AND y) = 0" "(x AND NOT y) OR (x AND y) = x" for y :: u32
    by (rule bit_word_eqI; auto simp: bit_and_iff bit_or_iff bit_not_iff)+
  have "(x AND NOT 7) AND (x AND 7) = 0" "(x AND NOT 7) OR (x AND 7) = x" by (rule g)+
  then have "(x AND NOT 7) + (x AND 7) = x"
    using word_plus_and_or [of "x AND NOT 7" "x AND 7"] by simp
  then have "x AND NOT 7 = x - (x AND 7)" by (metis add_diff_cancel_right')
  moreover have b: "unat (x AND 7) = unat x mod 8"
    unfolding m by (simp add: unat_mod take_bit_eq_mod)
  moreover have "unat x mod 8 \<le> unat x" by simp
  ultimately show ?thesis by (simp add: unat_diff32)
qed

lemma stack_init_sp:
  assumes w: "unat stk + unat sz < 2 ^ 32" and z: "80 \<le> unat sz"
  shows "unat (fst (rt_hw_stack_init fpu e p (stk + sz - 4) x)) =
    (unat stk + unat sz) - (unat stk + unat sz) mod 8 - (if fpu then 68 else 64)"
proof -
  have "unat (stk + sz) = unat stk + unat sz" using w by (simp add: unat_word_ariths)
  then have a: "unat ((stk + sz) AND NOT 7) = (unat stk + unat sz) - (unat stk + unat sz) mod 8"
    using stack_align [of "stk + sz"] by simp
  have "(unat stk + unat sz) mod 8 \<le> 7" by simp
  then have "68 \<le> unat ((stk + sz) AND NOT 7)" unfolding a using z by linarith
  then have "unat (((stk + sz) AND NOT 7) - (if fpu then 68 else 64)) =
      unat ((stk + sz) AND NOT 7) - (if fpu then 68 else 64)"
    by (simp add: unat_diff32)
  then show ?thesis using a by (simp add: rt_hw_stack_init_def Let_def)
qed

lemma thread_init_rec_ok:
  assumes "unat stk + unat sz < 2 ^ 32" and "80 \<le> unat sz" and "unat p < 32"
  shows "thread_ok (thread_init_rec fpu b e q stk sz p tick)"
proof -
  have s: "unat (stk + sz) = unat stk + unat sz" using assms(1) by (simp add: unat_word_ariths)
  have "(unat stk + unat sz) mod 8 \<le> 7" by simp
  then have "unat stk < unat (fst (rt_hw_stack_init fpu e q (stk + sz - 4) 0)) \<and>
      unat (fst (rt_hw_stack_init fpu e q (stk + sz - 4) 0)) \<le> unat stk + unat sz"
    unfolding stack_init_sp [OF assms(1,2)] using assms(2) by auto
  then have "\<not> fst (rt_hw_stack_init fpu e q (stk + sz - 4) 0) \<le> stk"
    "\<not> fst (rt_hw_stack_init fpu e q (stk + sz - 4) 0) > stk + sz"
    using s by (simp_all add: word_le_nat_alt word_less_nat_alt)
  then show ?thesis
    using assms(3) by (simp add: thread_ok_def rt_scheduler_stack_check_def thread_init_rec_def prio_of_def)
qed

lemma thread_init_ok:
  assumes q: "kernel_quiet s" and t: "threads s t = None" and p: "unat p < 32"
    and st: "unat stk + unat sz < 2 ^ 32" "80 \<le> unat sz"
  shows "\<exists>s'. thread_init fpu b t e param stk sz p tick s = Some s' \<and> kernel_quiet s' \<and> cur s' = cur s \<and>
    threads s' = (threads s)(t \<mapsto> thread_init_rec fpu b e param stk sz p tick)"
proof -
  let ?th = "thread_init_rec fpu b e param stk sz p tick"
  have nt: "timers s (ThreadTimer t) = None"
  proof -
    have "thread_timer_ok t None (timers s (ThreadTimer t))" using kernel_quietD(6) [OF q] t by (metis tt_ok_def)
    then show ?thesis by (simp add: thread_timer_ok_def split: option.splits)
  qed
  note inv = kernel_quietD(5) [OF q]
  let ?s1 = "s\<lparr>threads := (threads s)(t \<mapsto> ?th)\<rparr>"
  let ?tm = "timer_init_rec True (ThreadTimeout t) 0 0"
  let ?s2 = "?s1\<lparr>timers := (timers s)(ThreadTimer t \<mapsto> ?tm)\<rparr>"
  have th: "stat ?th = RT_THREAD_INIT" "thread_ok ?th"
    using thread_init_rec_ok [OF st p] by (simp_all add: thread_init_rec_def)
  have nl: "\<not> linked t (lists s)" using linked_cases [OF sched_invD(1) [OF inv], of t] t by auto
  have nc: "cur s \<noteq> Some t" using cur_okD(3) [OF sched_invD(3) [OF inv], of t] t by auto
  have "lists_ok ?s1" using sched_invD(1) [OF inv] nl by (rule lists_ok_unlinked_upd) (simp add: th)
  moreover have "group_ok ?s1" using sched_invD(2) [OF inv] by (simp add: group_ok_def)
  moreover have "cur_ok ?s1" using sched_invD(3) [OF inv] nc by (intro cur_ok_upd) (simp_all add: th)
  moreover have "thread_ok h" if "threads ?s1 x = Some h" for x h
    using that sched_invD(4) [OF inv, of x h] th by (auto split: if_splits)
  ultimately have "sched_inv ?s1" by (simp add: sched_inv_def)
  then have "sched_inv ?s2" by (subst sched_inv_timer [where s = ?s1]) simp_all
  moreover have "timeout_func ?tm = ThreadTimeout t" "tm_static ?tm" "\<not> tm_periodic ?tm" "\<not> tm_active ?tm"
    by (simp_all add: timer_init_rec_def tm_periodic_def tm_active_def)
  then have "tt_ok ?s2"
    using kernel_quietD(6) [OF q] th unfolding tt_ok_def by (auto simp: thread_timer_ok_def)
  moreover have "timer_quiet ?s2"
    using quiet_new [OF kernel_quietD(2) [OF q] nt, of 0 True "ThreadTimeout t" 0]
    by (subst timer_quiet_cong [where s = "s\<lparr>timers := (timers s)(ThreadTimer t \<mapsto> ?tm)\<rparr>"]) simp_all
  ultimately have "kernel_quiet ?s2" by (simp add: kernel_quiet_def kernel_inv_def timer_quiet_def)
  moreover have "thread_init fpu b t e param stk sz p tick s = Some ?s2"
    using p nt by (simp add: thread_init_def rt_timer_init_def RT_THREAD_PRIORITY_MAX_def)
  ultimately show ?thesis by (intro exI [of _ ?s2]) simp
qed

lemma startup_quiet:
  assumes q: "kernel_quiet s" and t: "threads s t = Some th" "stat th = RT_THREAD_INIT"
  shows "\<exists>s'. rt_thread_startup t s = Some (RT_EOK, s') \<and> kernel_quiet s' \<and> (cur s \<noteq> None \<longrightarrow> cur s' \<noteq> None)"
proof -
  obtain s1 s' where s: "s1 = waked t (init_started th) (tm_stop (ThreadTimer t) (upd_thread t init_started s))"
    "kernel_inv s1" "rt_thread_startup t s = Some (RT_EOK, s')" "if cur s = None then s' = s1 else rt_schedule s1 = Some s'"
    using startup_ok [OF kernel_quietD(1) [OF q] t] by blast
  have "timer_quiet (upd_thread t init_started s)"
    using kernel_quietD(2) [OF q] by (subst timer_quiet_cong [where s = s]) simp_all
  then have "timer_quiet (tm_stop (ThreadTimer t) (upd_thread t init_started s))" by (rule tm_stop_quiet)
  then have q1: "kernel_quiet s1" using s(2) by (rule_tac kernel_quietI) (simp_all add: s(1))
  have c1: "cur s1 = cur s" by (simp add: s(1))
  show ?thesis
  proof (cases "cur s = None")
    case True
    then show ?thesis using s q1 by auto
  next
    case False
    then show ?thesis using schedule_quiet [OF q1] s c1 by auto
  qed
qed

lemma close_quiet:
  assumes q: "kernel_quiet s" and t: "threads s t = Some th" "stat th \<noteq> RT_THREAD_CLOSE"
  shows "(if stat th \<noteq> RT_THREAD_INIT then rt_schedule_remove_thread t s else Some s) \<bind> thread_close t = Some (closed t th s) \<and>
    kernel_quiet (closed t th s) \<and> cur (closed t th s) = cur s \<and>
    threads (closed t th s) = (threads s)(t \<mapsto> th\<lparr>stat := RT_THREAD_CLOSE, stat_yield := False\<rparr>)"
proof -
  have "timer_quiet (closed t th s)"
    using quiet_removed [OF kernel_quietD(2) [OF q], of "ThreadTimer t"]
    by (subst timer_quiet_cong [where s = "stopped (ThreadTimer t) s\<lparr>timers := (timers s)(ThreadTimer t := None)\<rparr>"])
      (simp_all add: closed_def Let_def unreadied_def)
  then show ?thesis
    using close_ok [OF kernel_quietD(1) [OF q] t]
    by (simp add: kernel_quiet_def) (simp add: closed_def Let_def unreadied_def)
qed

lemma prio_changed_quiet:
  assumes q: "kernel_quiet s" and t: "threads s t = Some th" and p: "unat p < 32"
  shows "kernel_quiet (prio_changed t th p s) \<and> cur (prio_changed t th p s) = cur s"
  using kernel_quietI [OF prio_changed_kernel [OF kernel_quietD(1) [OF q] t p] kernel_quietD(2) [OF q]]
  by (simp add: prio_changed_def readied_def unreadied_def)

section \<open>Thread operations as steps\<close>

text \<open>
  The calls that the running thread makes (or an interrupt, where it may), and the tick with
  thread timers due. New threads come with a stack of at least 80 bytes inside the address space.
\<close>

definition stack_fits :: "u32 \<Rightarrow> u32 \<Rightarrow> bool" where
  "stack_fits stk sz \<longleftrightarrow> unat stk + unat sz < 2 ^ 32 \<and> 80 \<le> unat sz"

text \<open>The timers that are due at the next tick.\<close>

definition next_due :: "'z timer_sys_scheme \<Rightarrow> tmid list" where
  "next_due s = tm_due (s\<lparr>rt_tick := rt_tick s + 1\<rparr>)"

inductive thread_step :: "'z sched_scheme \<Rightarrow> 'z sched_scheme \<Rightarrow> bool" where
  init: "stack_fits stk sz \<Longrightarrow> rt_thread_init fpu t e p stk sz prio tick s = Some (r, s') \<Longrightarrow> thread_step s s'"
| create: "stack_fits stk sz \<Longrightarrow> threads s t = None \<Longrightarrow>
    rt_thread_create fpu (Some t) (Some stk) e p sz prio tick s = Some (ob, s') \<Longrightarrow> thread_step s s'"
| startup: "rt_thread_startup t s = Some (r, s') \<Longrightarrow> thread_step s s'"
| resume: "rt_thread_resume t s = Some (r, s') \<Longrightarrow> thread_step s s'"
| schedule: "rt_schedule s = Some s' \<Longrightarrow> thread_step s s'"
| yield: "rt_thread_yield s = Some (r, s') \<Longrightarrow> thread_step s s'"
| suspend: "runs s c th \<Longrightarrow> rt_thread_suspend c s = Some (r, s') \<Longrightarrow> thread_step s s'"
| sleep: "runs s c th \<Longrightarrow> rt_thread_sleep tick s = Some s' \<Longrightarrow> thread_step s s'"
| delay_until: "runs s c th \<Longrightarrow> rt_thread_delay_until tick inc s = Some (v, s') \<Longrightarrow> thread_step s s'"
| sleep_return: "rt_thread_sleep_return t s = Some (r, s') \<Longrightarrow> thread_step s s'"
| change_priority: "rt_thread_control t (RT_THREAD_CTRL_CHANGE_PRIORITY prio) s = Some (r, s') \<Longrightarrow> thread_step s s'"
| detach: "rt_thread_detach t s = Some (r, s') \<Longrightarrow> thread_step s s'"
| delete: "rt_thread_delete t s = Some (r, s') \<Longrightarrow> thread_step s s'"
| exit: "runs s c th \<Longrightarrow> thread_exit s = Some s' \<Longrightarrow> thread_step s s'"
| tick: "\<forall>x \<in> set (next_due s). \<exists>t. x = ThreadTimer t \<Longrightarrow> length (next_due s) < n \<Longrightarrow> rt_tick_increase user n s = Done s' \<Longrightarrow> thread_step s s'"

inductive_cases thread_stepE: "thread_step s s'"

lemma detach_like:
  assumes q: "kernel_quiet s" and c: "cur s \<noteq> None" and t: "threads s t = Some th"
    and e: "(if stat th = RT_THREAD_CLOSE then Some (RT_EOK, s)
      else do {
        s \<leftarrow> (if stat th \<noteq> RT_THREAD_INIT then rt_schedule_remove_thread t s else Some s);
        s \<leftarrow> thread_close t s;
        Some (RT_EOK, s) }) = Some (r, s')"
  shows "kernel_quiet s' \<and> cur s' \<noteq> None"
proof (cases "stat th = RT_THREAD_CLOSE")
  case True
  then show ?thesis using q c e by simp
next
  case False
  obtain s1 where s1: "(if stat th \<noteq> RT_THREAD_INIT then rt_schedule_remove_thread t s else Some s) = Some s1"
    "thread_close t s1 = Some s'"
    using e False by (simp only: simp_thms if_False) (auto elim!: bind_SomeE simp del: not_None_eq split: if_splits)
  then show ?thesis using close_quiet [OF q t False] c by (auto simp del: not_None_eq)
qed

lemma tick_done:
  assumes q: "kernel_quiet s" and c: "cur s \<noteq> None"
    and d: "\<forall>x \<in> set (next_due s). \<exists>t. x = ThreadTimer t" and n: "length (next_due s) < n"
  shows "\<exists>s1 s'. tick_slice s = Some s1 \<and> rt_tick_increase user n s = Done s' \<and> kernel_quiet s' \<and> cur s' \<noteq> None \<and>
    rt_tick s' = rt_tick s + 1 \<and> tm_due s' = [] \<and>
    tick_threads (next_due s) (threads s1) (threads s') \<and> wait_frame s s'"
proof -
  obtain s1 where s1: "tick_slice s = Some s1" "kernel_inv s1" "cur s1 \<noteq> None" "rt_tick s1 = rt_tick s + 1"
    "timers s1 = timers s" "trow s1 = trow s" "wait_frame s s1" using slice_ok [OF q c] by blast
  have due: "tm_due s1 = next_due s" unfolding next_due_def using s1 by (intro tm_due_cong) simp_all
  have E: "trow s1 ExpiredList = []" using kernel_quietD(4) [OF q] s1 by simp
  obtain s' where s': "timer_check_loop (timer_fire user) n (rt_tick s1) s1 = Done s'" "kernel_inv s'"
    "trow s' ExpiredList = []" "cur s' \<noteq> None" "tm_due s' = []" "rt_tick s' = rt_tick s1"
    "tick_threads (tm_due s1) (threads s1) (threads s')" "wait_frame s1 s'"
    using tick_check_threads [OF s1(2) E s1(3)] d n unfolding due by blast
  have "s1\<lparr>trow := (trow s1)(ExpiredList := [])\<rparr> = s1" using E by (simp add: fun_upd_idem)
  then have "rt_tick_increase user n s = Done s'"
    using s1(1) s'(1) by (simp add: rt_tick_increase_def rt_timer_check_def rt_tick_get_def)
  moreover have "kernel_quiet s'"
    using s' due_fresh [OF s'(5)] kernel_invD(2) [OF s'(2)] by (simp add: kernel_quiet_def timer_quiet_def)
  moreover have "wait_frame s s'" by (rule wait_frame_trans [OF s1(7) s'(8)])
  ultimately show ?thesis using s1 s' due by auto
qed

lemma timer_run_too_long:
  "timers s (ThreadTimer t) = Some tm \<Longrightarrow> \<not> tick < half_tick \<Longrightarrow> thread_timer_run t tick s = None"
  by (simp add: thread_timer_run_def rt_timer_control_def rt_assert_def)

lemma suspend_keeps_timer:
  assumes q: "kernel_quiet s" and r: "runs s c th"
  shows "\<exists>s1 tm. rt_thread_suspend c (upd_thread c (\<lambda>th. th\<lparr>th_error := RT_EOK\<rparr>) s) = Some (RT_EOK, s1) \<and>
    timers s1 (ThreadTimer c) = Some tm"
proof -
  note R = runsD [OF r]
  let ?u = "upd_thread c (\<lambda>th. th\<lparr>th_error := RT_EOK\<rparr>) s"
  have qu: "kernel_quiet ?u" using sched_invD(4) [OF kernel_quietD(5) [OF q]] by (intro upd_thread_quiet [OF q]) simp
  have ru: "runs ?u c (th\<lparr>th_error := RT_EOK\<rparr>)" using R by (simp add: runs_def)
  obtain tm where "timers s (ThreadTimer c) = Some tm"
    by (rule thread_timer [OF kernel_quietD(6) [OF q] R(2)]) (use R in auto)
  then show ?thesis using suspend_quiet [OF qu ru] by simp
qed

lemma sleep_too_long:
  assumes q: "kernel_quiet s" and r: "runs s c th" and i: "\<not> tick < half_tick"
  shows "rt_thread_sleep tick s = None"
proof -
  obtain s1 tm where s1: "rt_thread_suspend c (upd_thread c (\<lambda>th. th\<lparr>th_error := RT_EOK\<rparr>) s) = Some (RT_EOK, s1)"
    "timers s1 (ThreadTimer c) = Some tm" using suspend_keeps_timer [OF q r] by blast
  then show ?thesis
    using timer_run_too_long [OF s1(2) i] runsD [OF r] by (simp add: rt_thread_sleep_def rt_thread_self_def)
qed

lemma delay_until_quiet:
  assumes q: "kernel_quiet s" and r: "runs s c th" and o: "rt_thread_delay_until tick inc s = Some (v, s')"
  shows "kernel_quiet s' \<and> cur s' \<noteq> None"
proof -
  note R = runsD [OF r]
  let ?u = "upd_thread c (\<lambda>th. th\<lparr>th_error := RT_EOK\<rparr>) s" and ?left = "tick + inc - rt_tick s"
  have qu: "kernel_quiet ?u" using sched_invD(4) [OF kernel_quietD(5) [OF q]] by (intro upd_thread_quiet [OF q]) simp
  show ?thesis
  proof (cases "rt_tick s - tick < inc")
    case False
    then show ?thesis using o qu R by (auto simp: rt_thread_delay_until_def rt_thread_self_def rt_tick_get_def Let_def)
  next
    case True
    obtain s1 tm where s1: "rt_thread_suspend c ?u = Some (RT_EOK, s1)" "timers s1 (ThreadTimer c) = Some tm"
      using suspend_keeps_timer [OF q r] by blast
    obtain s2 where s2: "thread_timer_run c ?left s1 = Some s2" "rt_schedule s2 = Some s'"
      using o True R s1 by (auto simp: rt_thread_delay_until_def rt_thread_self_def rt_tick_get_def Let_def elim!: bind_SomeE)
    then have "?left < half_tick" using timer_run_too_long [OF s1(2), of ?left] by (metis option.distinct(1))
    from sleep_prefix [OF q r this] have "s2 = slept c th ?left s" "kernel_quiet s2" "cur s2 = Some c"
      using s1 s2(1) by auto
    then show ?thesis using schedule_quiet [of s2] s2(2) by auto
  qed
qed

lemma exit_quiet:
  assumes q: "kernel_quiet s" and r: "runs s c th"
  shows "\<exists>s'. thread_exit s = Some s' \<and> rt_schedule (closed c th s) = Some s' \<and> kernel_quiet s' \<and> cur s' \<noteq> None \<and>
    sched_frame (closed c th s) s'"
proof -
  note R = runsD [OF r]
  have cl: "rt_schedule_remove_thread c s \<bind> thread_close c = Some (closed c th s)" "kernel_quiet (closed c th s)"
    "cur (closed c th s) = cur s"
    using close_quiet [OF q R(2)] R(3) by simp_all
  obtain s1 where "rt_schedule_remove_thread c s = Some s1" "thread_close c s1 = Some (closed c th s)"
    using cl(1) by (rule bind_SomeE)
  then have "thread_exit s = rt_schedule (closed c th s)"
    using R by (simp add: thread_exit_def rt_thread_self_def)
  then show ?thesis using schedule_quiet [OF cl(2)] cl(3) R by auto
qed

lemma thread_step_quiet:
  assumes st: "thread_step s s'" and q: "kernel_quiet s" and c: "cur s \<noteq> None"
  shows "kernel_quiet s' \<and> cur s' \<noteq> None"
  using st
proof (rule thread_stepE)
  note inv = kernel_quietD(5) [OF q]
  { fix stk sz fpu t e p prio tick r
    assume z: "stack_fits stk sz" and o: "rt_thread_init fpu t e p stk sz prio tick s = Some (r, s')"
    have i: "threads s t = None" "unat prio < 32" "thread_init fpu True t e p stk sz prio tick s = Some s'"
      using o by (auto simp: rt_thread_init_def thread_init_def RT_THREAD_PRIORITY_MAX_def elim!: bind_SomeE)
    from thread_init_ok [OF q i(1,2) z [unfolded stack_fits_def, THEN conjunct1] z [unfolded stack_fits_def, THEN conjunct2], of fpu True e p tick] show ?thesis using i(3) c by auto }
  { fix stk sz fpu t e p prio tick ob
    assume z: "stack_fits stk sz" and n: "threads s t = None"
      and o: "rt_thread_create fpu (Some t) (Some stk) e p sz prio tick s = Some (ob, s')"
    have i: "unat prio < 32" "thread_init fpu False t e p stk sz prio tick s = Some s'"
      using o by (auto simp: rt_thread_create_def thread_init_def RT_THREAD_PRIORITY_MAX_def elim!: bind_SomeE)
    from thread_init_ok [OF q n i(1) z [unfolded stack_fits_def, THEN conjunct1] z [unfolded stack_fits_def, THEN conjunct2], of fpu False e p tick] show ?thesis using i(2) c by auto }
  { fix t r assume o: "rt_thread_startup t s = Some (r, s')"
    then obtain th where th: "threads s t = Some th" "stat th = RT_THREAD_INIT"
      by (auto simp: rt_thread_startup_def elim!: bind_SomeE)
    from startup_quiet [OF q th] show ?thesis using o c by auto }
  { fix t r assume o: "rt_thread_resume t s = Some (r, s')"
    then obtain th where th: "threads s t = Some th" by (auto simp: rt_thread_resume_def elim!: bind_SomeE)
    show ?thesis
    proof (cases "stat th = RT_THREAD_SUSPEND")
      case True
      have "cur (waked t th (tm_stop (ThreadTimer t) s)) = cur s" by simp
      then show ?thesis using resume_quiet [OF q th True] o c by simp
    next
      case False
      then show ?thesis using o th q c by (simp add: rt_thread_resume_def)
    qed }
  { assume "rt_schedule s = Some s'" then show ?thesis using schedule_quiet [OF q c] by auto }
  { fix r assume "rt_thread_yield s = Some (r, s')" then show ?thesis using yield_ok [OF q c] by auto }
  { fix c' th r assume "runs s c' th" "rt_thread_suspend c' s = Some (r, s')"
    then show ?thesis using suspend_quiet [OF q, of c' th] by (auto simp: runs_def) }
  { fix c' th tick assume r: "runs s c' th" and o: "rt_thread_sleep tick s = Some s'"
    have i: "tick < half_tick"
    proof (rule ccontr)
      assume "\<not> tick < half_tick"
      then show False using sleep_too_long [OF q r] o by simp
    qed
    from sleep_ok [OF q r i] show ?thesis using o by auto }
  { fix c' th tick inc v assume r: "runs s c' th" and o: "rt_thread_delay_until tick inc s = Some (v, s')"
    show ?thesis using delay_until_quiet [OF q r o] . }
  { fix t r assume o: "rt_thread_sleep_return t s = Some (r, s')"
    have "kernel_quiet (upd_thread t (\<lambda>th. th\<lparr>th_error := RT_EOK\<rparr>) s)"
      using sched_invD(4) [OF inv] by (intro upd_thread_quiet [OF q]) simp
    then show ?thesis using o q c by (auto simp: rt_thread_sleep_return_def Let_def elim!: bind_SomeE split: if_splits) }
  { fix t prio r assume o: "rt_thread_control t (RT_THREAD_CTRL_CHANGE_PRIORITY prio) s = Some (r, s')"
    obtain th where th: "threads s t = Some th" using o by (auto simp: rt_thread_control_def elim!: bind_SomeE)
    have "unat prio < 32" using o th by (auto simp: rt_thread_control_def Let_def elim!: bind_SomeE split: if_splits)
    then show ?thesis
      using change_priority_eq [OF inv th] prio_changed_quiet [OF q th] o c by auto }
  { fix t r assume o: "rt_thread_detach t s = Some (r, s')"
    obtain th where th: "threads s t = Some th" using o by (auto simp: rt_thread_detach_def elim!: bind_SomeE)
    show ?thesis by (rule detach_like [OF q c th, where r = r]) (use o th in \<open>simp add: rt_thread_detach_def\<close>) }
  { fix t r assume o: "rt_thread_delete t s = Some (r, s')"
    obtain th where th: "threads s t = Some th" using o by (auto simp: rt_thread_delete_def elim!: bind_SomeE)
    show ?thesis by (rule detach_like [OF q c th, where r = r]) (use o th in \<open>simp add: rt_thread_delete_def\<close>) }
  { fix c' th assume r: "runs s c' th" and o: "thread_exit s = Some s'"
    show ?thesis using exit_quiet [OF q r] o by auto }
  { fix n and user :: "nat \<Rightarrow> nat \<Rightarrow> 'a sched_scheme \<Rightarrow> 'a sched_scheme option"
    assume "\<forall>x \<in> set (next_due s). \<exists>t. x = ThreadTimer t" and "length (next_due s) < n" and "rt_tick_increase user n s = Done s'"
    then show ?thesis using tick_done [OF q c, of n user] by auto }
qed

text \<open>The time-slice part of the tick changes no error code and suspends or wakes no thread.\<close>

lemma slice_threads:
  assumes q: "kernel_quiet s" and c: "cur s \<noteq> None" and sl: "tick_slice s = Some s1" and t: "threads s t = Some th"
  shows "\<exists>th1. threads s1 t = Some th1 \<and> th_error th1 = th_error th \<and>
    (stat th1 = RT_THREAD_SUSPEND \<longleftrightarrow> stat th = RT_THREAD_SUSPEND)"
proof -
  obtain u uth where u: "cur s = Some u" "threads s u = Some uth"
    using c cur_okD(3) [OF sched_invD(3) [OF kernel_quietD(5) [OF q]]] by auto
  let ?s2 = "upd_thread u (\<lambda>th. th\<lparr>remaining_tick := remaining_tick th - 1\<rparr>) (s\<lparr>rt_tick := rt_tick s + 1\<rparr>)"
  let ?s3 = "upd_thread u (\<lambda>th. th\<lparr>remaining_tick := init_tick th, stat_yield := True\<rparr>) ?s2"
  have "sched_inv (s\<lparr>rt_tick := rt_tick s + 1\<rparr>)" using kernel_quietD(5) [OF q] by (subst sched_inv_timer [where s = s]) simp_all
  then have "sched_inv ?s2" using sched_invD(4) [OF kernel_quietD(5) [OF q]] by (intro upd_thread_inv) simp_all
  then have i3: "sched_inv ?s3"
    by (rule upd_thread_inv) (use sched_invD(4) [OF kernel_quietD(5) [OF q] u(2)] u in simp)
  show ?thesis
  proof (cases "remaining_tick uth - 1 = 0")
    case True
    then have "rt_schedule ?s3 = Some s1" using sl u by (simp add: tick_slice_def rt_thread_self_def Let_def)
    then have "sched_frame ?s3 s1" using schedule_ok [OF i3] u by auto
    then have "rel_option same_thread (threads ?s3 t) (threads s1 t)" by (simp add: sched_frame_def)
    moreover obtain th3 where "threads ?s3 t = Some th3" "th_error th3 = th_error th" "stat th3 = stat th"
      using t u by (cases "t = u") auto
    ultimately show ?thesis
      by (auto simp: option_rel_Some1 same_thread_def runnable_def dest: arg_cong [where f = th_error])
  next
    case False
    then have "s1 = ?s2" using sl u by (simp add: tick_slice_def rt_thread_self_def Let_def)
    then show ?thesis using t u by (cases "t = u") auto
  qed
qed

lemma tick_threads_cases:
  assumes "tick_threads E T T'" and "T t = Some th1"
  shows "\<exists>th'. T' t = Some th' \<and>
    (if ThreadTimer t \<in> set E then runnable (stat th') \<and> th_error th' = E_TIMEOUT
     else th_error th' = th_error th1 \<and> (stat th' = RT_THREAD_SUSPEND \<longleftrightarrow> stat th1 = RT_THREAD_SUSPEND))"
proof -
  have "rel_option (if ThreadTimer t \<in> set E then timed_out else same_thread) (Some th1) (T' t)"
    using assms by (metis tick_threads_def)
  then show ?thesis
    by (auto simp: option_rel_Some1 timed_out_def same_thread_def runnable_def dest: arg_cong [where f = th_error] split: if_splits)
qed

section \<open>A concrete kernel state\<close>

text \<open>The threads of \<open>ex_sched\<close> with their timers; thread 5 waits with one tick to go.\<close>

definition ex_timer :: "nat \<Rightarrow> rt_timer" where
  "ex_timer t = \<lparr>tm_static = True, tm_flag = (if t = 5 then 1 else 0), timeout_func = ThreadTimeout t,
     tm_init_tick = 1, timeout_tick = 1\<rparr>"

definition ex_kernel :: sched where
  "ex_kernel = ex_sched\<lparr>timers := (\<lambda>x. case x of ThreadTimer t \<Rightarrow>
       if t = 1 \<or> t = 2 \<or> t = 3 \<or> t = 4 \<or> t = 5 then Some (ex_timer t) else None | UserTimer n \<Rightarrow> None),
     trow := (\<lambda>_. [])(TimerList := [ThreadTimer 5])\<rparr>"

lemma ex_kernel_sel:
  "threads ex_kernel = threads ex_sched" "lists ex_kernel = lists ex_sched" "cur ex_kernel = Some 1"
  "rt_tick ex_kernel = 0" "lock_nest ex_kernel = 0"
  "trow ex_kernel = (\<lambda>_. [])(TimerList := [ThreadTimer 5])"
  by (simp_all add: ex_kernel_def ex_sched_def)

lemma ex_timer_sel [simp]:
  "timeout_func (ex_timer t) = ThreadTimeout t" "\<not> tm_periodic (ex_timer t)" "tm_static (ex_timer t)"
  "tm_active (ex_timer t) \<longleftrightarrow> t = 5" "timeout_tick (ex_timer t) = 1" "tm_init_tick (ex_timer t) = 1"
  by (simp_all add: ex_timer_def tm_active_def tm_periodic_def RT_TIMER_FLAG_ACTIVATED_def RT_TIMER_FLAG_PERIODIC_def)

lemma ex_kernel_timer: "timers ex_kernel (ThreadTimer t) = Some tm \<longleftrightarrow> t \<in> {1, 2, 3, 4, 5} \<and> tm = ex_timer t"
  "timers ex_kernel (UserTimer n) = None"
  by (auto simp: ex_kernel_def)

lemma ex_kernel_active: "timers ex_kernel x = Some tm \<Longrightarrow> tm_active tm \<longleftrightarrow> x = ThreadTimer 5"
  by (cases x) (auto simp: ex_kernel_timer)

lemma ex_kernel_five: "timers ex_kernel (ThreadTimer 5) = Some (ex_timer 5)" "tm_rem ex_kernel (ThreadTimer 5) = 2"
proof -
  show t: "timers ex_kernel (ThreadTimer 5) = Some (ex_timer 5)" by (simp add: ex_kernel_timer)
  show "tm_rem ex_kernel (ThreadTimer 5) = 2" by (simp add: tm_rem_def timeout_of_def t ex_kernel_sel)
qed

lemma ex_kernel_timer_ok: "timer_ok ex_kernel"
proof -
  have "tm_init_tick tm < half_tick" if "timers ex_kernel x = Some tm" for x tm
    using that by (cases x) (auto simp: ex_kernel_timer)
  then show ?thesis
    using ex_kernel_active ex_kernel_five(1)
    unfolding timer_ok_def by (auto simp: ex_kernel_sel tbl_wf_def linked_def)
qed

lemma ex_kernel_quiet: "kernel_quiet ex_kernel"
proof -
  have s: "sched_inv ex_kernel"
    using ex_sched_inv by (subst sched_inv_timer [where s = ex_sched]) (simp_all add: ex_kernel_def)
  have "thread_timer_ok t (threads ex_kernel t) (timers ex_kernel (ThreadTimer t))" for t
    by (auto simp: thread_timer_ok_def ex_kernel_def ex_sched_def)
  then have t: "tt_ok ex_kernel" by (simp add: tt_ok_def ex_kernel_timer)
  have q: "timer_inv ex_kernel" "timer_quiet ex_kernel"
    using ex_kernel_timer_ok
    by (simp_all add: timer_inv_def timer_quiet_def timer_sorted_def timer_fresh_def ex_kernel_sel ex_kernel_five)
  show ?thesis
    using s t q by (simp add: kernel_quiet_def kernel_inv_def)
qed

lemma ex_runs: "runs ex_kernel 1 (ex_thread RT_THREAD_RUNNING 5)"
  by (simp add: runs_def ex_kernel_sel ex_sched_def)

lemma ex_next_due: "next_due ex_kernel = [ThreadTimer 5]"
proof -
  have "timers ex_kernel (ThreadTimer 5) = Some (ex_timer 5)" by (simp add: ex_kernel_timer)
  then show ?thesis by (simp add: next_due_def tm_due_def tm_rem_def timeout_of_def ex_kernel_sel)
qed

section \<open>Properties\<close>

text \<open>
  C5: From any consistent kernel state, every sequence of thread operations (creation, start,
  suspension, sleep, yield, priority change, deletion, exit, ticks with thread timeouts) keeps the
  kernel consistent: the ready lists hold exactly the READY threads of their priority, the bitmap
  is exact, only the current thread runs, armed thread timers belong to suspended threads, and
  the timer list is ordered with nothing overdue.
\<close>

theorem thread_steps_consistent:
  assumes "thread_step\<^sup>*\<^sup>* s s'" and "kernel_quiet s" and "cur s \<noteq> None"
  shows "kernel_quiet s' \<and> cur s' \<noteq> None"
  using assms by (induction rule: rtranclp_induct) (auto simp: thread_step_quiet)

theorem thread_steps_consistent_witness:
  "\<exists>s'. thread_step\<^sup>*\<^sup>* ex_kernel s' \<and> threads s' 5 \<noteq> threads ex_kernel 5 \<and> kernel_quiet s' \<and> cur s' \<noteq> None"
proof -
  have "stat (ex_thread RT_THREAD_SUSPEND 3) = RT_THREAD_SUSPEND" "threads ex_kernel 5 = Some (ex_thread RT_THREAD_SUSPEND 3)"
    by (simp_all add: ex_kernel_sel ex_sched_def)
  note r = resume_quiet [OF ex_kernel_quiet this(2,1)]
  let ?s = "waked 5 (ex_thread RT_THREAD_SUSPEND 3) (tm_stop (ThreadTimer 5) ex_kernel)"
  have st: "thread_step\<^sup>*\<^sup>* ex_kernel ?s" using r thread_step.resume [of 5 ex_kernel RT_EOK ?s] by simp
  have "kernel_quiet ?s \<and> cur ?s \<noteq> None"
    by (rule thread_steps_consistent [OF st ex_kernel_quiet]) (simp add: ex_kernel_sel)
  moreover have "threads ?s 5 \<noteq> threads ex_kernel 5"
    by (simp add: ex_kernel_sel ex_sched_def ex_thread_def)
  ultimately show ?thesis using st by blast
qed

text \<open>
  \<open>rt_thread_sleep\<close> called by the running thread with a legal number of ticks returns, leaves the
  thread suspended with its one-shot timer running to "now plus the ticks", and reschedules.
\<close>

theorem thread_sleep_arms_timer:
  assumes "kernel_quiet s" and "runs s c th" and "tick < half_tick"
  shows "\<exists>s' tm th'. rt_thread_sleep tick s = Some s' \<and> kernel_quiet s' \<and>
    timers s' (ThreadTimer c) = Some tm \<and> tm_active tm \<and> timeout_tick tm = rt_tick s + tick \<and>
    threads s' c = Some th' \<and> stat th' = RT_THREAD_SUSPEND \<and> th_error th' = RT_EOK \<and>
    (lock_nest s = 0 \<and> ready_group s \<noteq> 0 \<longrightarrow> cur s' \<noteq> Some c)"
proof -
  let ?v = "slept c th tick s"
  obtain s' where s': "rt_thread_sleep tick s = Some s'" "rt_schedule ?v = Some s'" "kernel_quiet s'"
      "sched_frame ?v s'"
    using sleep_ok [OF assms] by blast
  note p = sleep_prefix [OF assms]
  let ?th = "th\<lparr>th_error := RT_EOK, stat := RT_THREAD_SUSPEND\<rparr>"
  have "rel_option same_thread (threads ?v c) (threads s' c)" and tm: "timers s' = timers ?v"
    using s'(4) by (simp_all add: sched_frame_def)
  then obtain th' where th': "threads s' c = Some th'" "same_thread ?th th'"
    using p by (auto simp: option_rel_Some1)
  then have "stat th' = RT_THREAD_SUSPEND" "th_error th' = RT_EOK" unfolding same_thread_def runnable_def
    by (auto dest: arg_cong [where f = th_error])
  moreover have "cur s' \<noteq> Some c" if "lock_nest s = 0" "ready_group s \<noteq> 0"
  proof -
    have q: "sched_inv ?v" "cur ?v = Some c" "threads ?v c = Some ?th" "lock_nest ?v = 0" "ready_group ?v \<noteq> 0"
      using p that by (auto simp: kernel_quietD(5) slept_def)
    then obtain to tth where "threads ?v to = Some tth" "stat tth = RT_THREAD_READY"
        "rt_schedule ?v = Some (switched c ?th to tth ?v)"
      using schedule_cases [OF q(1-3)] by (auto simp: keeps_cpu_def)
    moreover from this have "to \<noteq> c" using q(3) by auto
    ultimately show ?thesis using s'(2) by (auto simp: switched_def Let_def unreadied_def readied_def)
  qed
  ultimately show ?thesis using s'(1,3) th'(1) p tm by auto
qed

theorem thread_sleep_arms_timer_witness:
  "\<exists>s' tm th'. rt_thread_sleep 7 ex_kernel = Some s' \<and> kernel_quiet s' \<and>
    timers s' (ThreadTimer 1) = Some tm \<and> tm_active tm \<and> timeout_tick tm = rt_tick ex_kernel + 7 \<and>
    threads s' 1 = Some th' \<and> stat th' = RT_THREAD_SUSPEND \<and> th_error th' = RT_EOK \<and>
    (lock_nest ex_kernel = 0 \<and> ready_group ex_kernel \<noteq> 0 \<longrightarrow> cur s' \<noteq> Some 1)"
  by (rule thread_sleep_arms_timer [OF ex_kernel_quiet ex_runs]) simp

text \<open>
  C6: One tick with thread timers due: \<open>rt_tick_increase\<close> ends (one round of fuel per due timer, plus
  one), advances the tick by one, makes exactly the threads whose timers are due runnable with the
  error "timed out", leaves every other suspended thread suspended, and leaves nothing due.
\<close>

theorem tick_wakes_due_threads:
  assumes "kernel_quiet s" and "cur s \<noteq> None"
    and "\<forall>x \<in> set (next_due s). \<exists>t. x = ThreadTimer t" and "length (next_due s) < n"
  shows "\<exists>s'. rt_tick_increase user n s = Done s' \<and> kernel_quiet s' \<and> rt_tick s' = rt_tick s + 1 \<and> tm_due s' = [] \<and>
    (\<forall>t th. threads s t = Some th \<longrightarrow> (\<exists>th'. threads s' t = Some th' \<and>
      (if ThreadTimer t \<in> set (next_due s) then runnable (stat th') \<and> th_error th' = E_TIMEOUT
       else th_error th' = th_error th \<and> (stat th' = RT_THREAD_SUSPEND \<longleftrightarrow> stat th = RT_THREAD_SUSPEND))))"
proof -
  obtain s1 s' where s: "tick_slice s = Some s1" "rt_tick_increase user n s = Done s'" "kernel_quiet s'"
      "rt_tick s' = rt_tick s + 1" "tm_due s' = []" "tick_threads (next_due s) (threads s1) (threads s')"
    using tick_done [OF assms] by blast
  have "\<exists>th1. threads s1 t = Some th1 \<and> th_error th1 = th_error th \<and>
      (stat th1 = RT_THREAD_SUSPEND \<longleftrightarrow> stat th = RT_THREAD_SUSPEND)" if "threads s t = Some th" for t th
    using slice_threads [OF assms(1,2) s(1) that] .
  then show ?thesis
    using s(2-6) tick_threads_cases [OF s(6)] by (intro exI [of _ s']) (simp, metis)
qed

theorem tick_wakes_due_threads_witness:
  "\<exists>s' th'. rt_tick_increase (\<lambda>_ _ _. None) 2 ex_kernel = Done s' \<and> rt_tick s' = 1 \<and> threads s' 5 = Some th' \<and>
     runnable (stat th') \<and> th_error th' = E_TIMEOUT"
proof -
  have d: "\<forall>x \<in> set (next_due ex_kernel). \<exists>t. x = ThreadTimer t" "length (next_due ex_kernel) < 2"
    "cur ex_kernel \<noteq> None" "threads ex_kernel 5 = Some (ex_thread RT_THREAD_SUSPEND 3)"
    by (simp_all add: ex_next_due ex_kernel_sel ex_sched_def)
  obtain s' where s': "rt_tick_increase (\<lambda>_ _ _. None) 2 ex_kernel = Done s'" "rt_tick s' = rt_tick ex_kernel + 1"
    "\<forall>t th. threads ex_kernel t = Some th \<longrightarrow> (\<exists>th'. threads s' t = Some th' \<and>
      (if ThreadTimer t \<in> set (next_due ex_kernel) then runnable (stat th') \<and> th_error th' = E_TIMEOUT
       else th_error th' = th_error th \<and> (stat th' = RT_THREAD_SUSPEND \<longleftrightarrow> stat th = RT_THREAD_SUSPEND)))"
    using tick_wakes_due_threads [OF ex_kernel_quiet d(3,1,2), of "\<lambda>_ _ _. None"] by blast
  from s'(3) [rule_format, OF d(4)] show ?thesis using s'(1,2) by (auto simp: ex_next_due ex_kernel_sel)
qed

text \<open>
  Changing the priority of a thread of a consistent kernel: a READY thread goes to the tail of
  the list of its new priority and that priority is in the bitmap; a thread in another state keeps its
  place, so a waiter of a priority-ordered list is not moved. Nothing else of the lists changes.
\<close>

theorem change_priority_requeues:
  assumes "kernel_quiet s" and "threads s t = Some th" and "unat p < 32"
  shows "\<exists>s'. rt_thread_control t (RT_THREAD_CTRL_CHANGE_PRIORITY p) s = Some (RT_EOK, s') \<and> kernel_quiet s' \<and>
    (\<exists>th'. threads s' t = Some th' \<and> current_priority th' = p \<and> stat th' = stat th) \<and>
    (if stat th = RT_THREAD_READY
     then lists s' (Ready (unat p)) = remove1 t (lists s (Ready (unat p))) @ [t] \<and> bit (ready_group s') (unat p) \<and>
          (\<forall>h. h \<noteq> Ready (unat p) \<longrightarrow> lists s' h = remove1 t (lists s h))
     else lists s' = lists s \<and> ready_group s' = ready_group s)"
proof -
  have e: "rt_thread_control t (RT_THREAD_CTRL_CHANGE_PRIORITY p) s = Some (RT_EOK, prio_changed t th p s)"
    by (rule change_priority_eq [OF kernel_quietD(5) [OF assms(1)] assms(2,3)])
  have wf: "tbl_wf (lists s)" by (rule sched_invD(5) [OF kernel_quietD(5) [OF assms(1)]])
  have b: "bit ((g :: u32) OR 2 ^ unat p) (unat p)" for g
    using assms(3) by (simp add: bit_or_iff bit_exp_iff)
  have k: "kernel_quiet (prio_changed t th p s)" using prio_changed_quiet [OF assms] by simp
  have "if stat th = RT_THREAD_READY
     then lists (prio_changed t th p s) (Ready (unat p)) = remove1 t (lists s (Ready (unat p))) @ [t] \<and>
          bit (ready_group (prio_changed t th p s)) (unat p) \<and>
          (\<forall>h. h \<noteq> Ready (unat p) \<longrightarrow> lists (prio_changed t th p s) h = remove1 t (lists s h))
     else lists (prio_changed t th p s) = lists s \<and> ready_group (prio_changed t th p s) = ready_group s"
    using b by (auto simp: prio_changed_def readied_def unreadied_def tbl_remove_def tbl_insert_tail_def)
  moreover have "\<exists>th'. threads (prio_changed t th p s) t = Some th' \<and> current_priority th' = p \<and> stat th' = stat th"
    using assms(2) by (auto simp: prio_changed_def readied_def unreadied_def with_prio_def)
  ultimately show ?thesis using e k by (intro exI [of _ "prio_changed t th p s"] conjI)
qed

theorem change_priority_requeues_witness:
  "\<exists>s'. rt_thread_control 2 (RT_THREAD_CTRL_CHANGE_PRIORITY 31) ex_kernel = Some (RT_EOK, s') \<and>
     lists s' (Ready 31) = [4, 2] \<and> lists s' (Ready 5) = [3]"
proof -
  have t: "threads ex_kernel 2 = Some (ex_thread RT_THREAD_READY 5)"
    and l: "lists ex_kernel (Ready 31) = [4]" "lists ex_kernel (Ready 5) = [2, 3]"
    by (simp_all add: ex_kernel_sel ex_sched_def)
  obtain s' where s': "rt_thread_control 2 (RT_THREAD_CTRL_CHANGE_PRIORITY 31) ex_kernel = Some (RT_EOK, s')"
    "lists s' (Ready 31) = remove1 2 (lists ex_kernel (Ready 31)) @ [2]"
    "\<forall>h. h \<noteq> Ready 31 \<longrightarrow> lists s' h = remove1 2 (lists ex_kernel h)"
    using change_priority_requeues [OF ex_kernel_quiet t, of 31] by auto
  show ?thesis
    using s'(1,2) spec [OF s'(3), of "Ready 5"] l by (intro exI [of _ s']) simp
qed

text \<open>
  \<open>rt_thread_mdelay\<close> of a negative number of milliseconds never waits: the conversion gives
  \<open>RT_WAITING_FOREVER\<close>, which the timer's interval check refuses, so the assertion stops the system.
\<close>

theorem mdelay_negative_halts:
  assumes "kernel_quiet s" and "runs s c th" and "sint ms < 0"
  shows "rt_thread_mdelay ms s = None"
proof -
  have "rt_tick_from_millisecond ms = - 1" using assms(3) by (simp add: rt_tick_from_millisecond_def)
  then show ?thesis
    using sleep_too_long [OF assms(1,2), of "- 1"] by (simp add: rt_thread_mdelay_def)
qed

theorem mdelay_negative_halts_witness: "rt_thread_mdelay (- 1) ex_kernel = None"
  by (rule mdelay_negative_halts [OF ex_kernel_quiet ex_runs]) simp

text \<open>
  The first stack frame of a thread whose stack of at least 80 bytes lies in the address
  space: it lies inside the stack, the exception frame the processor pops is 8-byte aligned and ends
  at most 8 bytes under the top, and it starts the entry function with the parameter, in Thumb state.
\<close>

theorem first_frame_in_stack:
  assumes "stack_fits stk sz"
  shows "\<exists>sp ws. rt_hw_stack_init fpu ent param (stk + sz - 4) texit = (sp, ws) \<and>
    unat stk < unat sp \<and> unat sp + 4 * length ws \<le> unat stk + unat sz \<and>
    unat stk + unat sz < unat sp + 4 * length ws + 8 \<and>
    (unat sp + 4 * length ws) mod 8 = 0 \<and>
    drop (length ws - 8) ws = [param, 0, 0, 0, 0, texit, ent, 0x01000000]"
proof -
  define e where "e = unat stk + unat sz"
  define m where "m = e mod 8"
  have st: "e < 2 ^ 32" "80 \<le> unat sz" using assms by (simp_all add: stack_fits_def e_def)
  have m: "m < 8" "m \<le> e" "(e - m) mod 8 = 0" by (simp_all add: m_def mod_eq_0_iff_dvd)
  obtain sp ws where r: "rt_hw_stack_init fpu ent param (stk + sz - 4) texit = (sp, ws)" by fastforce
  have sp: "unat sp = e - m - (if fpu then 68 else 64)"
    using stack_init_sp [OF st(1) [unfolded e_def] st(2), of fpu ent param texit] r by (simp add: e_def m_def)
  have ws: "ws = (if fpu then [0] else []) @ replicate 8 0xdeadbeef @ [param, 0, 0, 0, 0, texit, ent, 0x01000000]"
    using r by (simp add: rt_hw_stack_init_def Let_def)
  then have l: "4 * length ws = (if fpu then 68 else 64)" by simp
  have big: "80 \<le> e - unat stk" using st by (simp add: e_def)
  have "unat sp + 4 * length ws = e - m" using sp l m big by (simp split: if_splits)
  moreover have "unat stk < unat sp" using sp m big by (simp split: if_splits)
  moreover have "drop (length ws - 8) ws = [param, 0, 0, 0, 0, texit, ent, 0x01000000]"
    unfolding ws by simp
  moreover have "e - m \<le> e" "e < e - m + 8" using m by simp_all
  ultimately show ?thesis using r m(3) unfolding e_def [symmetric] by auto
qed

theorem first_frame_in_stack_witness:
  "\<exists>sp ws. rt_hw_stack_init True 0x8001 42 (0x24000000 + 0x201 - 4) 0 = (sp, ws) \<and>
    unat (0x24000000 :: u32) < unat sp \<and> unat sp + 4 * length ws \<le> unat (0x24000000 :: u32) + unat (0x201 :: u32) \<and>
    unat (0x24000000 :: u32) + unat (0x201 :: u32) < unat sp + 4 * length ws + 8 \<and>
    (unat sp + 4 * length ws) mod 8 = 0 \<and>
    drop (length ws - 8) ws = [42, 0, 0, 0, 0, 0, 0x8001, 0x01000000]"
  by (rule first_frame_in_stack) (simp add: stack_fits_def)

end
