(* ===== verification/Waiting.thy ===== *)
theory Waiting
  imports Thread
begin

text \<open>
  No thread operation and no tick touches what the waiting threads wait for: the frame that the
  objects of ipc.c rely on between their own operations.
\<close>

lemma wait_frame_timer:
  "threads s' = threads s \<Longrightarrow> lists s' = lists s \<Longrightarrow> sched.more s' = sched.more s \<Longrightarrow> wait_frame s s'"
  by (rule wait_frame_same)

lemma wait_frame_stop:
  assumes "rt_timer_stop x s = Some (e, s')" shows "wait_frame s s'"
  using assms by (intro wait_frame_timer) (auto simp: rt_timer_stop_def elim!: bind_SomeE split: if_splits)

lemma wait_frame_detach:
  assumes "rt_timer_detach x s = Some (e, s')" shows "wait_frame s s'"
  using assms by (intro wait_frame_timer) (auto simp: rt_timer_detach_def Let_def elim!: bind_SomeE split: if_splits)

lemma wait_frame_run:
  assumes "thread_timer_run t tick s = Some s'" shows "wait_frame s s'"
  using assms
  by (intro wait_frame_timer)
    (auto simp: thread_timer_run_def rt_timer_control_def rt_timer_start_def Let_def elim!: bind_SomeE)

lemma wait_frame_resume:
  assumes "rt_thread_resume t s = Some (e, s')" shows "wait_frame s s'"
proof -
  obtain th where th: "threads s t = Some th" using assms by (auto simp: rt_thread_resume_def elim!: bind_SomeE)
  show ?thesis
  proof (cases "stat th = RT_THREAD_SUSPEND")
    case True
    then obtain x s1 where "rt_timer_stop (ThreadTimer t) (s\<lparr>lists := tbl_remove t (lists s)\<rparr>) = Some (x, s1)"
        "rt_schedule_insert_thread t s1 = Some s'"
      using assms th by (auto simp: rt_thread_resume_def Let_def elim!: bind_SomeE)
    then show ?thesis
      using wait_frame_trans [OF wait_frame_unlink wait_frame_trans [OF wait_frame_stop wait_frame_insert]] by blast
  next
    case False
    then show ?thesis using assms th by (simp add: rt_thread_resume_def)
  qed
qed

lemma wait_frame_suspend:
  assumes "rt_thread_suspend t s = Some (e, s')" shows "wait_frame s s'"
proof -
  obtain th where th: "threads s t = Some th" using assms by (auto simp: rt_thread_suspend_def elim!: bind_SomeE)
  show ?thesis
  proof (cases "stat th \<noteq> RT_THREAD_READY \<and> stat th \<noteq> RT_THREAD_RUNNING")
    case True
    then show ?thesis using assms th by (auto simp: rt_thread_suspend_def)
  next
    case False
    then obtain x s1 where s1: "rt_schedule_remove_thread t s = Some s1"
        "rt_timer_stop (ThreadTimer t) (upd_thread t (\<lambda>th. th\<lparr>stat := RT_THREAD_SUSPEND\<rparr>) s1) = Some (x, s')"
      using assms th by (auto simp: rt_thread_suspend_def Let_def simp del: upd_thread_sel elim!: bind_SomeE)
    show ?thesis
      by (rule wait_frame_trans [OF wait_frame_remove [OF s1(1)] wait_frame_trans [OF wait_frame_upd wait_frame_stop [OF s1(2)]]]) simp
  qed
qed

lemma wait_frame_close:
  assumes "thread_close t s = Some s'" shows "wait_frame s s'"
proof -
  obtain x s1 where s1: "rt_timer_detach (ThreadTimer t) s = Some (x, s1)"
    "s' = rt_thread_defunct_enqueue t (upd_thread t (\<lambda>th. th\<lparr>stat := RT_THREAD_CLOSE, stat_yield := False\<rparr>) s1)"
    using assms by (auto simp: thread_close_def Let_def simp del: upd_thread_sel elim!: bind_SomeE)
  have e: "wait_frame u (rt_thread_defunct_enqueue t u)" for u :: "'a sched_scheme"
    by (rule wait_frameI) (auto simp: rt_thread_defunct_enqueue_def tbl_insert_head_def split: if_splits)
  show ?thesis
    unfolding s1(2) by (rule wait_frame_trans [OF wait_frame_detach [OF s1(1)] wait_frame_trans [OF wait_frame_upd e]]) simp
qed

lemma wait_frame_exit:
  assumes "thread_exit s = Some s'" shows "wait_frame s s'"
proof -
  obtain t s1 s2 where "rt_schedule_remove_thread t s = Some s1" "thread_close t s1 = Some s2" "rt_schedule s2 = Some s'"
    using assms by (auto simp: thread_exit_def elim!: bind_SomeE)
  then show ?thesis
    using wait_frame_trans [OF wait_frame_remove wait_frame_trans [OF wait_frame_close wait_frame_schedule]] by blast
qed

lemma wait_frame_detach_like:
  assumes "(if stat th = RT_THREAD_CLOSE then Some (RT_EOK, s)
      else do {
        s \<leftarrow> (if stat th \<noteq> RT_THREAD_INIT then rt_schedule_remove_thread t s else Some s);
        s \<leftarrow> thread_close t s;
        Some (RT_EOK, s) }) = Some (r, s')"
  shows "wait_frame s s'"
proof (cases "stat th = RT_THREAD_CLOSE")
  case True
  then show ?thesis using assms by simp
next
  case False
  then obtain s1 where "(if stat th \<noteq> RT_THREAD_INIT then rt_schedule_remove_thread t s else Some s) = Some s1"
    "thread_close t s1 = Some s'"
    using assms by (auto elim!: bind_SomeE split: if_splits)
  then show ?thesis
    using wait_frame_trans [OF wait_frame_remove wait_frame_close] wait_frame_close by (auto split: if_splits)
qed

lemma wait_frame_init:
  assumes "thread_init fpu b t e p stk sz prio tick s = Some s'" and "threads s t = None"
  shows "wait_frame s s'"
  using assms
  by (intro wait_frameI) (auto simp: thread_init_def rt_timer_init_def Let_def elim!: bind_SomeE)

lemma wait_frame_sleep:
  assumes "rt_thread_sleep tick s = Some s'" shows "wait_frame s s'"
proof -
  obtain t x s1 s2 where s1: "rt_thread_suspend t (upd_thread t (\<lambda>th. th\<lparr>th_error := RT_EOK\<rparr>) s) = Some (x, s1)"
    "thread_timer_run t tick s1 = Some s2" "rt_schedule s2 = Some s'"
    using assms by (auto simp: rt_thread_sleep_def Let_def simp del: upd_thread_sel elim!: bind_SomeE)
  show ?thesis
    by (rule wait_frame_trans [OF wait_frame_upd wait_frame_trans [OF wait_frame_suspend [OF s1(1)]
          wait_frame_trans [OF wait_frame_run [OF s1(2)] wait_frame_schedule [OF s1(3)]]]]) simp
qed

lemma wait_frame_delay_until:
  assumes "rt_thread_delay_until tick inc s = Some (v, s')" shows "wait_frame s s'"
proof -
  obtain t where t: "cur s = Some t" "threads s t \<noteq> None"
    using assms by (auto simp: rt_thread_delay_until_def rt_thread_self_def elim!: bind_SomeE)
  let ?u = "upd_thread t (\<lambda>th. th\<lparr>th_error := RT_EOK\<rparr>) s"
  have u: "wait_frame s ?u" by (simp add: wait_frame_upd)
  show ?thesis
  proof (cases "rt_tick s - tick < inc")
    case False
    then have "s' = ?u" using assms t by (auto simp: rt_thread_delay_until_def rt_thread_self_def rt_tick_get_def Let_def)
    then show ?thesis using u by simp
  next
    case True
    then obtain x s1 s2 where "rt_thread_suspend t ?u = Some (x, s1)"
      "thread_timer_run t (tick + inc - rt_tick s) s1 = Some s2" "rt_schedule s2 = Some s'"
      using assms t
      by (auto simp: rt_thread_delay_until_def rt_thread_self_def rt_tick_get_def Let_def elim!: bind_SomeE)
    then show ?thesis
      using wait_frame_trans [OF u wait_frame_trans [OF wait_frame_suspend wait_frame_trans [OF wait_frame_run wait_frame_schedule]]]
      by blast
  qed
qed

lemma wait_frame_startup:
  assumes "rt_thread_startup t s = Some (r, s')" shows "wait_frame s s'"
proof -
  let ?u = "upd_thread t (\<lambda>th. th\<lparr>number_mask := push_bit (unat (current_priority th)) 1,
                                   stat := RT_THREAD_SUSPEND, stat_yield := False\<rparr>) s"
  obtain x s1 where "rt_thread_resume t ?u = Some (x, s1)"
      "(if rt_thread_self s1 \<noteq> None then rt_schedule s1 else Some s1) = Some s'"
    using assms by (auto simp: rt_thread_startup_def Let_def simp del: upd_thread_sel elim!: bind_SomeE)
  moreover have "wait_frame s ?u" by (simp add: wait_frame_upd)
  ultimately show ?thesis
    using wait_frame_trans [OF _ wait_frame_trans [OF wait_frame_resume wait_frame_schedule]]
      wait_frame_trans [OF _ wait_frame_resume] by (auto split: if_splits)
qed

lemma wait_frame_change_priority:
  assumes "rt_thread_control t (RT_THREAD_CTRL_CHANGE_PRIORITY p) s = Some (r, s')" shows "wait_frame s s'"
proof -
  let ?f = "\<lambda>th. th\<lparr>current_priority := p, number_mask := push_bit (unat p) 1\<rparr>"
  obtain th where th: "threads s t = Some th" using assms by (auto simp: rt_thread_control_def elim!: bind_SomeE)
  show ?thesis
  proof (cases "stat th = RT_THREAD_READY")
    case True
    then obtain s1 where s1: "rt_schedule_remove_thread t s = Some s1" "rt_schedule_insert_thread t (upd_thread t ?f s1) = Some s'"
      using assms th by (auto simp: rt_thread_control_def Let_def simp del: upd_thread_sel elim!: bind_SomeE split: if_splits)
    show ?thesis
      by (rule wait_frame_trans [OF wait_frame_remove [OF s1(1)] wait_frame_trans [OF wait_frame_upd wait_frame_insert [OF s1(2)]]]) simp
  next
    case False
    then have "s' = upd_thread t ?f s"
      using assms th by (auto simp: rt_thread_control_def Let_def simp del: upd_thread_sel elim!: bind_SomeE split: if_splits)
    then show ?thesis by (simp add: wait_frame_upd)
  qed
qed

lemma wait_frame_sleep_return:
  assumes "rt_thread_sleep_return t s = Some (r, s')" shows "wait_frame s s'"
  using assms wait_frame_upd [of "\<lambda>th. th\<lparr>th_error := RT_EOK\<rparr>" s t]
  by (auto simp: rt_thread_sleep_return_def Let_def simp del: upd_thread_sel elim!: bind_SomeE split: if_splits)

lemma wait_frame_yield:
  assumes "rt_thread_yield s = Some (r, s')" shows "wait_frame s s'"
proof -
  obtain t where "rt_schedule (upd_thread t (\<lambda>th. th\<lparr>remaining_tick := init_tick th, stat_yield := True\<rparr>) s) = Some s'"
    using assms by (auto simp: rt_thread_yield_def Let_def simp del: upd_thread_sel elim!: bind_SomeE)
  then show ?thesis by (rule wait_frame_trans [OF wait_frame_upd wait_frame_schedule, rotated]) simp
qed

lemma thread_step_wait:
  assumes st: "thread_step s s'" and q: "kernel_quiet s" and c: "cur s \<noteq> None"
  shows "wait_frame s s'"
  using st
proof (rule thread_stepE)
  { fix stk sz fpu t e p prio tick r
    assume "rt_thread_init fpu t e p stk sz prio tick s = Some (r, s')"
    then show ?thesis using wait_frame_init [of fpu True t e p stk sz prio tick s s']
      by (auto simp: rt_thread_init_def elim!: bind_SomeE) }
  { fix stk sz fpu t e p prio tick ob
    assume "threads s t = None" "rt_thread_create fpu (Some t) (Some stk) e p sz prio tick s = Some (ob, s')"
    then show ?thesis using wait_frame_init [of fpu False t e p stk sz prio tick s s']
      by (auto simp: rt_thread_create_def elim!: bind_SomeE) }
  { fix t r assume "rt_thread_startup t s = Some (r, s')" then show ?thesis by (rule wait_frame_startup) }
  { fix t r assume "rt_thread_resume t s = Some (r, s')" then show ?thesis by (rule wait_frame_resume) }
  { assume "rt_schedule s = Some s'" then show ?thesis by (rule wait_frame_schedule) }
  { fix r assume "rt_thread_yield s = Some (r, s')" then show ?thesis by (rule wait_frame_yield) }
  { fix c' th r assume "rt_thread_suspend c' s = Some (r, s')" then show ?thesis by (rule wait_frame_suspend) }
  { fix c' th tick assume "rt_thread_sleep tick s = Some s'" then show ?thesis by (rule wait_frame_sleep) }
  { fix c' th tick inc v assume "rt_thread_delay_until tick inc s = Some (v, s')"
    then show ?thesis by (rule wait_frame_delay_until) }
  { fix t r assume "rt_thread_sleep_return t s = Some (r, s')" then show ?thesis by (rule wait_frame_sleep_return) }
  { fix t prio r assume "rt_thread_control t (RT_THREAD_CTRL_CHANGE_PRIORITY prio) s = Some (r, s')"
    then show ?thesis by (rule wait_frame_change_priority) }
  { fix t r assume "rt_thread_detach t s = Some (r, s')"
    then show ?thesis unfolding rt_thread_detach_def
      by (elim bind_SomeE) (rule wait_frame_detach_like, assumption) }
  { fix t r assume "rt_thread_delete t s = Some (r, s')"
    then show ?thesis unfolding rt_thread_delete_def
      by (elim bind_SomeE) (rule wait_frame_detach_like, assumption) }
  { fix c' th assume "thread_exit s = Some s'" then show ?thesis by (rule wait_frame_exit) }
  { fix n and user :: "nat \<Rightarrow> nat \<Rightarrow> 'a sched_scheme \<Rightarrow> 'a sched_scheme option"
    assume "\<forall>x \<in> set (next_due s). \<exists>t. x = ThreadTimer t" and "length (next_due s) < n" and "rt_tick_increase user n s = Done s'"
    then show ?thesis using tick_done [OF q c, of n user] by auto }
qed

end
