(* ===== verification/Ipc.thy ===== *)
theory Ipc
  imports Waiting
begin

text \<open>
  The objects of rt-thread/src/ipc.c (structures of rtdef.h) and what they share: suspending the
  caller on an object's list, resuming one or all waiters, the context checks of rtdebug.h. An object
  is named by its address; its list of waiting threads is the list \<open>Suspend\<close> of that address, the list
  of waiting senders \<open>SuspendSender\<close>.
\<close>

section \<open>Data (rtdef.h)\<close>

record rt_ipc_object =
  io_static :: bool
  io_flag :: u8

record rt_semaphore = rt_ipc_object +
  sem_value :: u16

record rt_mutex = rt_ipc_object +
  mx_value :: u16
  original_priority :: u8
  hold :: u8
  owner :: "nat option"

record rt_event = rt_ipc_object +
  ev_set :: u32

record rt_mailbox = rt_ipc_object +
  mb_pool :: "u32 list"
  mb_size :: u16
  mb_entry :: u16
  in_offset :: u16
  out_offset :: u16

text \<open>
  A message queue: the pool is an array of blocks, each a link to the next block and \<open>msg_size\<close>
  bytes; a block is named by its index.
\<close>

record rt_messagequeue = rt_ipc_object +
  mq_next :: "nat \<Rightarrow> nat option"
  mq_data :: "nat \<Rightarrow> u8 list"
  msg_size :: u16
  max_msgs :: u16
  mq_entry :: u16
  msg_queue_head :: "nat option"
  msg_queue_tail :: "nat option"
  msg_queue_free :: "nat option"

text \<open>
  A memory pool (mempool.c): the header word of each block, named by its byte offset in the pool memory,
  is a link to the next free block or the pool a block in use belongs to; \<open>mp_bytes\<close> is the extent of
  that memory.
\<close>

datatype mp_header = MpNext "nat option" | MpOwner nat

record rt_mempool =
  mp_static :: bool
  mp_bytes :: nat
  mp_size :: u32
  block_size :: u32
  block_list :: "nat option"
  block_total_count :: u32
  block_free_count :: u32
  mp_word :: "nat \<Rightarrow> mp_header"

text \<open>
  A completion and a data queue (components/drivers/include/ipc): no kernel objects, but structures that
  own wait lists like them. The positions of a data queue are bit fields of 15 bits; \<open>dq_items\<close> is the
  array at \<open>queue\<close>, absent when it could not be allocated, and \<open>evt_notify\<close> the callback, by its address.
\<close>

record rt_completion =
  cp_flag :: u32

record rt_data_item =
  data_ptr :: u32
  data_size :: u32

record rt_data_queue =
  dq_magic :: u32
  dq_size :: u16
  dq_lwm :: u16
  get_index :: "15 word"
  is_empty :: bool
  put_index :: "15 word"
  is_full :: bool
  dq_items :: "rt_data_item list option"
  evt_notify :: "nat option"

text \<open>
  An object with its class, which the operations check (\<open>rt_object_get_type\<close>); the structures of the
  drivers are told apart by their C type.
\<close>

datatype ipc_object = ClassSemaphore rt_semaphore | ClassMutex rt_mutex | ClassEvent rt_event
  | ClassMailBox rt_mailbox | ClassMessageQueue rt_messagequeue | ClassMemPool rt_mempool
  | StructCompletion rt_completion | StructDataQueue rt_data_queue

record ipc = sched +
  objs :: "nat \<rightharpoonup> ipc_object"

definition put_obj :: "nat \<Rightarrow> ipc_object \<Rightarrow> 'z ipc_scheme \<Rightarrow> 'z ipc_scheme" where
  "put_obj i ob s = s\<lparr>objs := (objs s)(i \<mapsto> ob)\<rparr>"

definition drop_obj :: "nat \<Rightarrow> 'z ipc_scheme \<Rightarrow> 'z ipc_scheme" where
  "drop_obj i s = s\<lparr>objs := (objs s)(i := None)\<rparr>"

definition RT_IPC_FLAG_FIFO :: u8 where "RT_IPC_FLAG_FIFO = 0"
definition RT_IPC_FLAG_PRIO :: u8 where "RT_IPC_FLAG_PRIO = 1"

definition flag_ok :: "u8 \<Rightarrow> bool" where
  "flag_ok flag \<longleftrightarrow> flag = RT_IPC_FLAG_FIFO \<or> flag = RT_IPC_FLAG_PRIO"

text \<open>\<open>rt_int32_t\<close> and \<open>rt_base_t\<close> times are words read as signed.\<close>

type_synonym i32 = "32 word"

definition RT_WAITING_NO :: i32 where "RT_WAITING_NO = 0"

text \<open>A call either returns or has given up the processor: the thread goes on when it runs again.\<close>

datatype 'a call = Ret 'a | Blocked

datatype ipc_cmd = RT_IPC_CMD_RESET u32 | RT_IPC_CMD_OTHER int

section \<open>Context checks (rtdebug.h)\<close>

definition debug_not_in_interrupt :: "'z sched_scheme \<Rightarrow> unit option" where
  "debug_not_in_interrupt s = rt_assert (rt_interrupt_get_nest s = 0)"

definition debug_in_thread_context :: "'z sched_scheme \<Rightarrow> unit option" where
  "debug_in_thread_context s = do { rt_assert (rt_thread_self s \<noteq> None); debug_not_in_interrupt s }"

definition debug_scheduler_available :: "bool \<Rightarrow> 'z sched_scheme \<Rightarrow> unit option" where
  "debug_scheduler_available need_check s =
    (if need_check then do { rt_assert (rt_critical_level s = 0); debug_in_thread_context s } else Some ())"

section \<open>Suspending and resuming on an object\<close>

definition ipc_object_init :: "nat \<Rightarrow> 'z sched_scheme \<Rightarrow> 'z sched_scheme" where
  "ipc_object_init i s = s\<lparr>lists := (lists s)(Suspend i := [])\<rparr>"

definition prio_at :: "'z sched_scheme \<Rightarrow> nat \<Rightarrow> u8" where
  "prio_at s t = (case threads s t of Some th \<Rightarrow> current_priority th | None \<Rightarrow> 0)"

text \<open>The priority-ordered insertion: before the first thread of lower priority, else at the tail.\<close>

fun ipc_row_insert :: "(nat \<Rightarrow> u8) \<Rightarrow> nat \<Rightarrow> u8 \<Rightarrow> nat list \<Rightarrow> nat list" where
  "ipc_row_insert pr t p [] = [t]"
| "ipc_row_insert pr t p (x # xs) = (if p < pr x then t # x # xs else x # ipc_row_insert pr t p xs)"

definition ipc_list_suspend :: "lhead \<Rightarrow> nat \<Rightarrow> u8 \<Rightarrow> 'z sched_scheme \<Rightarrow> 'z sched_scheme option" where
  "ipc_list_suspend l t flag s = do {
     (_, s) \<leftarrow> rt_thread_suspend t s;
     (if flag = RT_IPC_FLAG_FIFO then Some (s\<lparr>lists := tbl_insert_tail l t (lists s)\<rparr>)
      else if flag = RT_IPC_FLAG_PRIO
      then Some (s\<lparr>lists := (lists s)(l := ipc_row_insert (prio_at s) t (prio_at s t) (lists s l))\<rparr>)
      else None) }"

definition ipc_list_resume :: "lhead \<Rightarrow> 'z sched_scheme \<Rightarrow> 'z sched_scheme option" where
  "ipc_list_resume l s =
    (case lists s l of [] \<Rightarrow> None | t # _ \<Rightarrow> map_option snd (rt_thread_resume t s))"

text \<open>
  The critical section of one iteration of \<open>_ipc_list_resume_all\<close>: the first waiter goes on with a general error.
  On an empty list the code would take the list's head for a thread (\<open>None\<close>).
\<close>

definition ipc_resume_one :: "lhead \<Rightarrow> 'z sched_scheme \<Rightarrow> 'z sched_scheme option" where
  "ipc_resume_one l s =
    (case lists s l of
       [] \<Rightarrow> None
     | t # _ \<Rightarrow> map_option snd (rt_thread_resume t (upd_thread t (\<lambda>th. th\<lparr>th_error := E_ERROR\<rparr>) s)))"

text \<open>
  \<open>_ipc_list_resume_all\<close> when nothing comes between its iterations: inside a critical section of the caller
  (\<open>RT_IPC_CMD_RESET\<close>), or in a call that is not interrupted. With interrupts enabled the loop is the steps of
  the theory Release. \<open>None\<close> also stands for a loop that never ends (a listed thread that is not suspended would
  stay on the list).
\<close>

partial_function (option) ipc_list_resume_all :: "lhead \<Rightarrow> 'z sched_scheme \<Rightarrow> 'z sched_scheme option" where
  "ipc_list_resume_all l s =
    (if lists s l = [] then Some s
     else do {
       s' \<leftarrow> ipc_resume_one l s;
       ipc_list_resume_all l s' })"

text \<open>What every blocking call does: wait on the list, arm the timer for a finite time, reschedule.\<close>

definition ipc_block :: "lhead \<Rightarrow> nat \<Rightarrow> u8 \<Rightarrow> i32 \<Rightarrow> 'z sched_scheme \<Rightarrow> 'z sched_scheme option" where
  "ipc_block l t flag time s = do {
     s \<leftarrow> ipc_list_suspend l t flag s;
     s \<leftarrow> (if 0 < sint time then thread_timer_run t time s else Some s);
     rt_schedule s }"

text \<open>What a blocked call of a semaphore, a mutex or an event returns when its thread runs again.\<close>

definition ipc_wait_result :: "nat \<Rightarrow> 'z sched_scheme \<Rightarrow> rt_err option" where
  "ipc_wait_result t s = map_option th_error (threads s t)"

section \<open>Lemmas: the selectors\<close>

lemma put_obj_sel [simp]:
  "objs (put_obj i ob s) = (objs s)(i \<mapsto> ob)" "threads (put_obj i ob s) = threads s"
  "lists (put_obj i ob s) = lists s" "cur (put_obj i ob s) = cur s" "lock_nest (put_obj i ob s) = lock_nest s"
  "timers (put_obj i ob s) = timers s" "trow (put_obj i ob s) = trow s" "rt_tick (put_obj i ob s) = rt_tick s"
  "ready_group (put_obj i ob s) = ready_group s" "int_nest (put_obj i ob s) = int_nest s"
  by (simp_all add: put_obj_def)

lemma drop_obj_sel [simp]:
  "objs (drop_obj i s) = (objs s)(i := None)" "threads (drop_obj i s) = threads s"
  "lists (drop_obj i s) = lists s" "cur (drop_obj i s) = cur s" "lock_nest (drop_obj i s) = lock_nest s"
  "timers (drop_obj i s) = timers s" "trow (drop_obj i s) = trow s" "rt_tick (drop_obj i s) = rt_tick s"
  "ready_group (drop_obj i s) = ready_group s" "int_nest (drop_obj i s) = int_nest s"
  by (simp_all add: drop_obj_def)

lemma kernel_quiet_cong:
  assumes "threads s' = threads s" "lists s' = lists s" "ready_group s' = ready_group s" "cur s' = cur s"
    "rt_tick s' = rt_tick s" "timers s' = timers s" "trow s' = trow s"
  shows "kernel_quiet s' = kernel_quiet s"
proof -
  have "tt_ok s' = tt_ok s" using assms by (simp add: tt_ok_def)
  then show ?thesis
    using assms timer_inv_cong [OF assms(5-7)] timer_quiet_cong [OF assms(5-7)] sched_inv_timer [OF assms(1-4)]
    by (simp add: kernel_quiet_def kernel_inv_def)
qed

lemma obj_quiet [simp]:
  "kernel_quiet (put_obj i ob s) = kernel_quiet s" "kernel_quiet (drop_obj i s) = kernel_quiet s"
  by (rule kernel_quiet_cong; simp)+

lemma more_objs: "sched.more s' = sched.more s \<Longrightarrow> objs s' = objs s"
  for s s' :: "'z ipc_scheme"
  by (cases s; cases s') simp

lemma upd_thread_objs [simp]: "objs (upd_thread t f s) = objs s"
  by (simp add: upd_thread_def)

section \<open>Lemmas: the ordered insertion\<close>

lemma set_ipc_row_insert [simp]: "set (ipc_row_insert pr t p xs) = insert t (set xs)"
  by (induction xs) auto

lemma distinct_ipc_row_insert: "distinct xs \<Longrightarrow> t \<notin> set xs \<Longrightarrow> distinct (ipc_row_insert pr t p xs)"
  by (induction xs) auto

text \<open>In a list ordered by priority the new thread comes after all of its own priority.\<close>

lemma ipc_row_insert_sorted:
  "sorted (map pr xs) \<Longrightarrow>
   ipc_row_insert pr t p xs = takeWhile (\<lambda>x. pr x \<le> p) xs @ t # dropWhile (\<lambda>x. pr x \<le> p) xs"
  by (induction xs) (auto simp: not_le)

section \<open>Lemmas: a thread that waits\<close>

text \<open>A suspended thread put on a wait list.\<close>

lemma wait_insert_quiet:
  assumes q: "kernel_quiet s" and l: "is_wait l" and t: "threads s t = Some th" "stat th = RT_THREAD_SUSPEND"
    and nl: "\<not> linked t (lists s)" and ins: "set ins = insert t (set (lists s l))" "distinct ins"
  shows "kernel_quiet (s\<lparr>lists := (lists s)(l := ins)\<rparr>)"
proof -
  let ?s = "s\<lparr>lists := (lists s)(l := ins)\<rparr>"
  note inv = kernel_quietD(5) [OF q] and D = lists_okD [OF sched_invD(1) [OF kernel_quietD(5) [OF q]]]
  have r: "lists ?s (Ready p) = lists s (Ready p)" "lists ?s Defunct = lists s Defunct" for p
    using l by (cases l; simp)+
  have wf: "tbl_wf (lists ?s)"
    using D(1) ins nl by (auto intro!: tbl_wf_upd simp: linked_def dest: tbl_wf_disj [OF D(1)])
  have w: "\<exists>h. threads s x = Some h \<and> stat h = RT_THREAD_SUSPEND" if "x \<in> set (lists ?s l')" "is_wait l'" for x l'
    using that t ins D(3) [of x] D(4) [of x] by (cases l') (auto split: if_splits)
  have "lists_ok ?s"
    by (rule lists_okI) (use wf w D r in \<open>auto simp del: fun_upd_apply\<close>)
  moreover have "group_ok ?s" using sched_invD(2) [OF inv] r by (simp add: group_ok_def)
  moreover have "cur_ok ?s" using sched_invD(3) [OF inv] by (simp add: cur_ok_def)
  ultimately have "sched_inv ?s" using sched_invD(4) [OF inv] by (simp add: sched_inv_def)
  moreover have "timer_inv ?s" "timer_quiet ?s"
    using kernel_quietD(1,2) [OF q] timer_inv_cong [of ?s s] timer_quiet_cong [of ?s s] by (simp_all add: kernel_inv_def)
  moreover have "tt_ok ?s" using kernel_quietD(6) [OF q] by (simp add: tt_ok_def)
  ultimately show ?thesis by (simp add: kernel_quiet_def kernel_inv_def)
qed

text \<open>Where the waiting thread goes.\<close>

definition queued :: "u8 \<Rightarrow> 'z sched_scheme \<Rightarrow> nat \<Rightarrow> u8 \<Rightarrow> nat list \<Rightarrow> nat list" where
  "queued flag s t p xs = (if flag = RT_IPC_FLAG_FIFO then xs @ [t] else ipc_row_insert (prio_at s) t p xs)"

lemma set_queued [simp]: "set (queued flag s t p xs) = insert t (set xs)"
  by (simp add: queued_def)

lemma queued_not_Nil [simp]: "queued flag s t p xs \<noteq> []"
  using set_queued [of flag s t p xs] by (metis empty_set insert_not_empty)

lemma distinct_queued: "distinct xs \<Longrightarrow> t \<notin> set xs \<Longrightarrow> distinct (queued flag s t p xs)"
  by (simp add: queued_def distinct_ipc_row_insert)

definition listed :: "lhead \<Rightarrow> nat \<Rightarrow> rt_thread \<Rightarrow> nat list \<Rightarrow> 'z sched_scheme \<Rightarrow> 'z sched_scheme" where
  "listed l c th ins s = s\<lparr>threads := (threads s)(c \<mapsto> th\<lparr>stat := RT_THREAD_SUSPEND\<rparr>), lists := (lists s)(l := ins)\<rparr>"

lemma listed_sel [simp]:
  "threads (listed l c th ins s) = (threads s)(c \<mapsto> th\<lparr>stat := RT_THREAD_SUSPEND\<rparr>)"
  "lists (listed l c th ins s) = (lists s)(l := ins)"
  "cur (listed l c th ins s) = cur s" "lock_nest (listed l c th ins s) = lock_nest s"
  "rt_tick (listed l c th ins s) = rt_tick s" "sched.more (listed l c th ins s) = sched.more s"
  "ready_group (listed l c th ins s) = ready_group s" "timers (listed l c th ins s) = timers s"
  by (simp_all add: listed_def)

lemma listed_quiet:
  assumes q: "kernel_quiet s" and r: "runs s c th" and l: "is_wait l" and ins: "set ins = insert c (set (lists s l))" "distinct ins"
  shows "rt_thread_suspend c s = Some (RT_EOK, s\<lparr>threads := (threads s)(c \<mapsto> th\<lparr>stat := RT_THREAD_SUSPEND\<rparr>)\<rparr>)"
    "kernel_quiet (listed l c th ins s)"
proof -
  let ?s = "s\<lparr>threads := (threads s)(c \<mapsto> th\<lparr>stat := RT_THREAD_SUSPEND\<rparr>)\<rparr>"
  show s: "rt_thread_suspend c s = Some (RT_EOK, ?s)" using suspend_quiet [OF q r] by simp
  have q': "kernel_quiet ?s" using suspend_quiet [OF q r] by simp
  have nl: "\<not> linked c (lists s)" using runs_unlinked [OF kernel_quietD(5) [OF q] r] .
  have "kernel_quiet (?s\<lparr>lists := (lists ?s)(l := ins)\<rparr>)"
    using nl ins by (intro wait_insert_quiet [OF q' l, of c "th\<lparr>stat := RT_THREAD_SUSPEND\<rparr>"]) simp_all
  then show "kernel_quiet (listed l c th ins s)" by (simp add: listed_def)
qed

lemma queued_new:
  assumes "kernel_quiet s" and "runs s c th"
  shows "set (queued flag s c p (lists s l)) = insert c (set (lists s l))" "distinct (queued flag s c p (lists s l))"
proof -
  have "c \<notin> set (lists s l)" using runs_unlinked [OF kernel_quietD(5) [OF assms(1)] assms(2)] by (auto simp: linked_def)
  then show "distinct (queued flag s c p (lists s l))"
    using distinct_queued tbl_wfD [OF sched_invD(5) [OF kernel_quietD(5) [OF assms(1)]]] by blast
qed simp

lemma list_suspend_quiet:
  assumes q: "kernel_quiet s" and r: "runs s c th" and l: "is_wait l" and f: "flag_ok flag"
  defines "s' \<equiv> listed l c th (queued flag s c (current_priority th) (lists s l)) s"
  shows "ipc_list_suspend l c flag s = Some s' \<and> kernel_quiet s'"
proof -
  let ?s = "s\<lparr>threads := (threads s)(c \<mapsto> th\<lparr>stat := RT_THREAD_SUSPEND\<rparr>)\<rparr>"
  note s = listed_quiet [OF q r l queued_new [OF q r]]
  have pr: "prio_at ?s = prio_at s" using runsD [OF r] by (auto simp: prio_at_def fun_eq_iff)
  have pc: "prio_at s c = current_priority th" using runsD [OF r] by (simp add: prio_at_def)
  have "ipc_list_suspend l c flag s = Some s'"
    using s(1) f pr pc
    by (auto simp: s'_def ipc_list_suspend_def flag_ok_def listed_def queued_def tbl_insert_tail_def RT_IPC_FLAG_FIFO_def RT_IPC_FLAG_PRIO_def)
  then show ?thesis using s(2) by (simp add: s'_def)
qed

definition blocked :: "lhead \<Rightarrow> nat \<Rightarrow> rt_thread \<Rightarrow> nat list \<Rightarrow> i32 \<Rightarrow> 'z sched_scheme \<Rightarrow> 'z sched_scheme" where
  "blocked l c th ins time s =
    (if 0 < sint time then armed c time (listed l c th ins s) else listed l c th ins s)"

lemma blocked_sel [simp]:
  "threads (blocked l c th ins time s) = (threads s)(c \<mapsto> th\<lparr>stat := RT_THREAD_SUSPEND\<rparr>)"
  "lists (blocked l c th ins time s) = (lists s)(l := ins)"
  "cur (blocked l c th ins time s) = cur s" "lock_nest (blocked l c th ins time s) = lock_nest s"
  "sched.more (blocked l c th ins time s) = sched.more s" "rt_tick (blocked l c th ins time s) = rt_tick s"
  "ready_group (blocked l c th ins time s) = ready_group s"
  by (simp_all add: blocked_def)

text \<open>A wait the kernel accepts: no time limit, or one below half the tick range.\<close>

definition time_ok :: "i32 \<Rightarrow> bool" where
  "time_ok time \<longleftrightarrow> (0 < sint time \<longrightarrow> time < half_tick)"

lemma blocked_quiet:
  assumes q: "kernel_quiet (listed l c th ins s)" and tm: "time_ok time" and c: "cur s \<noteq> None"
  shows "\<exists>s'. (if 0 < sint time then thread_timer_run c time (listed l c th ins s) else Some (listed l c th ins s)) =
      Some (blocked l c th ins time s) \<and> rt_schedule (blocked l c th ins time s) = Some s' \<and>
    kernel_quiet s' \<and> cur s' \<noteq> None \<and> sched_frame (blocked l c th ins time s) s'"
proof -
  have a: "(if 0 < sint time then thread_timer_run c time (listed l c th ins s) else Some (listed l c th ins s)) =
      Some (blocked l c th ins time s) \<and> kernel_quiet (blocked l c th ins time s)"
    using q tm armed_quiet [OF q, of c "th\<lparr>stat := RT_THREAD_SUSPEND\<rparr>" time]
    by (simp add: blocked_def time_ok_def)
  obtain s' where "rt_schedule (blocked l c th ins time s) = Some s'" "kernel_quiet s'" "cur s' \<noteq> None"
      "sched_frame (blocked l c th ins time s) s'"
    using schedule_quiet [OF conjunct2 [OF a]] c by auto
  then show ?thesis using a by blast
qed

lemma timer_too_long:
  assumes q: "kernel_quiet s" and r: "runs s c th" and tm: "\<not> time_ok time"
  shows "thread_timer_run c time (listed l c th ins s) = None"
proof -
  obtain tm' where "timers s (ThreadTimer c) = Some tm'"
    by (rule thread_timer [OF kernel_quietD(6) [OF q] runsD(2) [OF r]]) (use runsD [OF r] in auto)
  then show ?thesis using tm by (intro timer_run_too_long) (simp_all add: time_ok_def)
qed

lemma block_too_long:
  assumes q: "kernel_quiet s" and r: "runs s c th" and l: "is_wait l" and f: "flag_ok flag" and tm: "\<not> time_ok time"
  shows "ipc_block l c flag time s = None"
  using list_suspend_quiet [OF q r l f] timer_too_long [OF q r tm] tm by (simp add: ipc_block_def time_ok_def)

section \<open>Lemmas: resuming\<close>

definition woken :: "nat \<Rightarrow> rt_thread \<Rightarrow> 'z sched_scheme \<Rightarrow> 'z sched_scheme" where
  "woken t th s = waked t th (tm_stop (ThreadTimer t) s)"

definition to_run :: "'z sched_scheme \<Rightarrow> nat \<Rightarrow> rt_thread \<Rightarrow> rt_thread" where
  "to_run s t th = th\<lparr>stat := if cur s = Some t then RT_THREAD_RUNNING else RT_THREAD_READY\<rparr>"

lemma to_run_sel [simp]:
  "th_error (to_run s t th) = th_error th" "event_set (to_run s t th) = event_set th"
  "event_info (to_run s t th) = event_info th" "prio_of (to_run s t th) = prio_of th"
  "current_priority (to_run s t th) = current_priority th"
  "runnable (stat (to_run s t th))" "same_wait th (to_run s t th)"
  by (simp_all add: to_run_def runnable_def)

lemma woken_sel [simp]:
  "threads (woken t th s) = (threads s)(t \<mapsto> to_run s t th)" "cur (woken t th s) = cur s"
  "lock_nest (woken t th s) = lock_nest s" "int_nest (woken t th s) = int_nest s"
  "rt_tick (woken t th s) = rt_tick s" "sched.more (woken t th s) = sched.more s"
  by (simp_all add: woken_def to_run_def)

lemma woken_lists [simp]: "is_wait l \<Longrightarrow> lists (woken t th s) l = remove1 t (lists s l)"
  by (auto simp: woken_def waked_def tbl_insert_tail_def tbl_remove_def)

lemma woken_objs [simp]: "objs (woken t th s) = objs s"
  by (rule more_objs) simp

lemma waiting_thread:
  assumes q: "kernel_quiet s" and t: "t \<in> set (lists s l)" and l: "is_wait l"
  shows "\<exists>th. threads s t = Some th \<and> stat th = RT_THREAD_SUSPEND"
  using lists_okD(3,4) [OF sched_invD(1) [OF kernel_quietD(5) [OF q]]] t l by (cases l) auto

lemma thread_resume_quiet:
  assumes q: "kernel_quiet s" and t: "threads s t = Some th" "stat th = RT_THREAD_SUSPEND"
  shows "rt_thread_resume t s = Some (RT_EOK, woken t th s)" "kernel_quiet (woken t th s)"
  using resume_quiet [OF q t] by (simp_all add: woken_def)

lemma list_resume_quiet:
  assumes q: "kernel_quiet s" and l: "is_wait l" and t: "lists s l = t # ts"
  shows "\<exists>th. threads s t = Some th \<and> stat th = RT_THREAD_SUSPEND \<and> t \<notin> set ts \<and>
    ipc_list_resume l s = Some (woken t th s) \<and> kernel_quiet (woken t th s)"
proof -
  have "t \<in> set (lists s l)" using t by simp
  then obtain th where "threads s t = Some th" "stat th = RT_THREAD_SUSPEND"
    using waiting_thread [OF q _ l] by blast
  moreover have "t \<notin> set ts" using tbl_wfD [OF sched_invD(5) [OF kernel_quietD(5) [OF q]], of l] t by simp
  ultimately show ?thesis using thread_resume_quiet [OF q] t by (simp add: ipc_list_resume_def)
qed

text \<open>One iteration of the loop on a list that is not empty.\<close>

lemma resume_one_ok:
  assumes q: "kernel_quiet s" and l: "is_wait l" and t: "lists s l = t # ts"
  shows "\<exists>th s'. threads s t = Some th \<and> ipc_resume_one l s = Some s' \<and> kernel_quiet s' \<and>
    s' = woken t (th\<lparr>th_error := E_ERROR\<rparr>) (upd_thread t (\<lambda>th. th\<lparr>th_error := E_ERROR\<rparr>) s) \<and> lists s' l = ts \<and>
    (\<forall>l'. is_wait l' \<longrightarrow> l' \<noteq> l \<longrightarrow> lists s' l' = lists s l')"
proof -
  have m: "t \<in> set (lists s l)" using t by simp
  then obtain th where th: "threads s t = Some th" "stat th = RT_THREAD_SUSPEND"
    using waiting_thread [OF q _ l] by blast
  let ?u = "upd_thread t (\<lambda>th. th\<lparr>th_error := E_ERROR\<rparr>) s" and ?th = "th\<lparr>th_error := E_ERROR\<rparr>"
  have qu: "kernel_quiet ?u" using sched_invD(4) [OF kernel_quietD(5) [OF q]] by (intro upd_thread_quiet [OF q]) simp
  have tu: "threads ?u t = Some ?th" "stat ?th = RT_THREAD_SUSPEND" using th by simp_all
  note r = thread_resume_quiet [OF qu tu]
  have w: "lists (woken t ?th ?u) l = ts" using l t by simp
  have nt: "t \<notin> set (lists s l')" if "l' \<noteq> l" for l'
    using tbl_wf_disj [OF sched_invD(5) [OF kernel_quietD(5) [OF q]] _ m] that by blast
  have "\<forall>l'. is_wait l' \<longrightarrow> l' \<noteq> l \<longrightarrow> lists (woken t ?th ?u) l' = lists s l'" using nt by (simp add: remove1_idem)
  moreover have "ipc_resume_one l s = Some (woken t ?th ?u)" using t r(1) by (simp add: ipc_resume_one_def)
  ultimately show ?thesis using th(1) r(2) w by blast
qed

text \<open>Releasing a list: every waiter becomes runnable with a general error.\<close>

definition released :: "lhead \<Rightarrow> 'z sched_scheme \<Rightarrow> 'z sched_scheme \<Rightarrow> bool" where
  "released l s s' \<longleftrightarrow> lists s' l = [] \<and> (\<forall>l'. is_wait l' \<longrightarrow> l' \<noteq> l \<longrightarrow> lists s' l' = lists s l') \<and>
     sched.more s' = sched.more s \<and> cur s' = cur s \<and> lock_nest s' = lock_nest s \<and>
     int_nest s' = int_nest s \<and> rt_tick s' = rt_tick s \<and>
     (\<forall>t. threads s' t = (if t \<in> set (lists s l)
        then map_option (\<lambda>th. to_run s t (th\<lparr>th_error := E_ERROR\<rparr>)) (threads s t) else threads s t))"

lemma resume_all_quiet:
  assumes "kernel_quiet s" and "is_wait l"
  shows "\<exists>s'. ipc_list_resume_all l s = Some s' \<and> kernel_quiet s' \<and> released l s s'"
  using assms
proof (induction "lists s l" arbitrary: s)
  case Nil
  then show ?case by (subst ipc_list_resume_all.simps) (simp add: released_def)
next
  case (Cons t ts)
  note q = Cons.prems(1) and l = Cons.prems(2) and t = Cons.hyps(2) [symmetric]
  have "t \<in> set (lists s l)" using t by simp
  then obtain th where th: "threads s t = Some th" "stat th = RT_THREAD_SUSPEND"
    using waiting_thread [OF q _ l] by blast
  have nt: "t \<notin> set ts" using tbl_wfD [OF sched_invD(5) [OF kernel_quietD(5) [OF q]], of l] t by simp
  let ?u = "upd_thread t (\<lambda>th. th\<lparr>th_error := E_ERROR\<rparr>) s" and ?th = "th\<lparr>th_error := E_ERROR\<rparr>"
  have qu: "kernel_quiet ?u" using sched_invD(4) [OF kernel_quietD(5) [OF q]] by (intro upd_thread_quiet [OF q]) simp
  have tu: "threads ?u t = Some ?th" "stat ?th = RT_THREAD_SUSPEND" using th by simp_all
  note r = thread_resume_quiet [OF qu tu]
  have w: "lists (woken t ?th ?u) l = ts" using l t by simp
  have nt': "t \<notin> set (lists s l')" if "is_wait l'" "l' \<noteq> l" for l'
  proof
    assume "t \<in> set (lists s l')"
    moreover have "t \<in> set (lists s l)" using t by simp
    ultimately show False
      using tbl_wf_disj [OF sched_invD(5) [OF kernel_quietD(5) [OF q]]] \<open>l' \<noteq> l\<close> by blast
  qed
  obtain s' where s': "ipc_list_resume_all l (woken t ?th ?u) = Some s'" "kernel_quiet s'" "released l (woken t ?th ?u) s'"
    using Cons.hyps(1) [OF w [symmetric] r(2) l] by blast
  have e: "ipc_list_resume_all l s = Some s'"
    using t r(1) s'(1) by (subst ipc_list_resume_all.simps) (simp add: ipc_resume_one_def)
  have "released l s s'"
    unfolding released_def
  proof (intro conjI allI impI)
    fix l' assume "is_wait l'" "l' \<noteq> l"
    then show "lists s' l' = lists s l'" using s'(3) nt' by (simp add: released_def remove1_idem)
  next
    fix x
    have "threads s' x = (if x \<in> set ts then map_option (\<lambda>th. to_run s x (th\<lparr>th_error := E_ERROR\<rparr>)) (threads (woken t ?th ?u) x)
        else threads (woken t ?th ?u) x)"
      using s'(3) w by (simp add: released_def to_run_def)
    then show "threads s' x = (if x \<in> set (lists s l)
        then map_option (\<lambda>th. to_run s x (th\<lparr>th_error := E_ERROR\<rparr>)) (threads s x) else threads s x)"
      using nt t th by (cases "x = t") (auto simp: to_run_def)
  qed (use s'(3) in \<open>simp_all add: released_def\<close>)
  then show ?case using e s'(2) by blast
qed

section \<open>The frame of the other objects\<close>

text \<open>
  An operation on object \<open>i\<close> changes no other object, puts no thread on another object's lists and
  does not change the wanted events of the threads waiting there.
\<close>

definition other_frame :: "nat \<Rightarrow> 'z ipc_scheme \<Rightarrow> 'z ipc_scheme \<Rightarrow> bool" where
  "other_frame i s s' \<longleftrightarrow> (\<forall>j. j \<noteq> i \<longrightarrow> objs s' j = objs s j) \<and>
     (\<forall>l t. is_wait l \<longrightarrow> l \<noteq> Suspend i \<longrightarrow> l \<noteq> SuspendSender i \<longrightarrow> t \<in> set (lists s' l) \<longrightarrow>
        t \<in> set (lists s l) \<and>
        (\<forall>th. threads s t = Some th \<longrightarrow> (\<exists>th'. threads s' t = Some th' \<and> same_wait th th')))"

lemma other_frameI:
  assumes "\<And>j. j \<noteq> i \<Longrightarrow> objs s' j = objs s j"
    and "\<And>l t. is_wait l \<Longrightarrow> l \<noteq> Suspend i \<Longrightarrow> l \<noteq> SuspendSender i \<Longrightarrow> t \<in> set (lists s' l) \<Longrightarrow>
      t \<in> set (lists s l) \<and> (\<forall>th. threads s t = Some th \<longrightarrow> (\<exists>th'. threads s' t = Some th' \<and> same_wait th th'))"
  shows "other_frame i s s'"
  using assms unfolding other_frame_def by blast

lemma other_frame_trans:
  assumes a: "other_frame i s s'" and b: "other_frame i s' s''"
  shows "other_frame i s s''"
proof (rule other_frameI)
  fix l t
  assume l: "is_wait l" "l \<noteq> Suspend i" "l \<noteq> SuspendSender i" "t \<in> set (lists s'' l)"
  have b': "t \<in> set (lists s' l)" "threads s' t = Some th \<Longrightarrow> \<exists>th'. threads s'' t = Some th' \<and> same_wait th th'" for th
    using b l unfolding other_frame_def by blast+
  have a': "t \<in> set (lists s l)" "threads s t = Some th \<Longrightarrow> \<exists>th'. threads s' t = Some th' \<and> same_wait th th'" for th
    using a l(1-3) b'(1) unfolding other_frame_def by blast+
  show "t \<in> set (lists s l) \<and> (\<forall>th. threads s t = Some th \<longrightarrow> (\<exists>th'. threads s'' t = Some th' \<and> same_wait th th'))"
    using a' b'(2) same_wait_trans by blast
qed (use assms in \<open>simp add: other_frame_def\<close>)

lemma wait_other_frame: "wait_frame s s' \<Longrightarrow> other_frame i s s'"
  for s s' :: "'z ipc_scheme"
  by (rule other_frameI) (auto simp: wait_frame_def dest: more_objs)

lemma put_other_frame [simp]: "other_frame i s (put_obj i ob s)" "other_frame i s (drop_obj i s)"
  by (rule other_frameI; simp)+

lemma same_thread_wait: "same_thread th th' \<Longrightarrow> same_wait th th'"
  unfolding same_thread_def same_wait_def
  by (auto dest: arg_cong [where f = event_set] arg_cong [where f = event_info])

lemma frame_thread:
  assumes "sched_frame s s'" and "threads s t = Some th"
  shows "\<exists>th'. threads s' t = Some th' \<and> same_thread th th' \<and> same_wait th th'"
proof -
  have "rel_option same_thread (threads s t) (threads s' t)" using assms(1) by (simp add: sched_frame_def)
  then obtain th' where "threads s' t = Some th'" "same_thread th th'" using assms(2) by (auto simp: option_rel_Some1)
  then show ?thesis using same_thread_wait by blast
qed

lemma sched_wait_frame: "sched_frame s s' \<Longrightarrow> wait_frame s s'"
proof (rule wait_frameI)
  assume f: "sched_frame s s'"
  then show "sched.more s' = sched.more s" by (simp add: sched_frame_def)
  show "t \<in> set (lists s' l) \<Longrightarrow> is_wait l \<Longrightarrow> t \<in> set (lists s l)" for l t
    using f by (cases l) (auto simp: sched_frame_def)
  show "\<exists>th'. threads s' t = Some th' \<and> same_wait th th'" if "threads s t = Some th" for t th
    using frame_thread [OF f that] by blast
qed

lemma sched_other_frame: "sched_frame s s' \<Longrightarrow> other_frame i s s'"
  for s s' :: "'z ipc_scheme"
  by (rule wait_other_frame [OF sched_wait_frame])

lemma blocked_other_frame:
  assumes "l = Suspend i \<or> l = SuspendSender i" and "\<not> linked c (lists s)"
    and "set ins \<subseteq> insert c (set (lists s l))"
  shows "other_frame i s (blocked l c th ins time s)"
proof (rule other_frameI)
  show "objs (blocked l c th ins time s) j = objs s j" for j
    using more_objs [of "blocked l c th ins time s" s] by simp
qed (use assms in \<open>auto simp: linked_def\<close>)

lemma released_other_frame:
  assumes "released l s s'" and "l = Suspend i \<or> l = SuspendSender i"
  shows "other_frame i s s'"
proof (rule other_frameI)
  show "objs s' j = objs s j" for j using assms(1) more_objs [of s' s] by (simp add: released_def)
  fix l' t assume l': "is_wait l'" "l' \<noteq> Suspend i" "l' \<noteq> SuspendSender i" "t \<in> set (lists s' l')"
  then have "l' \<noteq> l" using assms(2) by auto
  then have "t \<in> set (lists s l')" using assms(1) l' by (simp add: released_def)
  moreover have "\<exists>th'. threads s' t = Some th' \<and> same_wait th th'" if "threads s t = Some th" for th
    using assms(1) that by (auto simp: released_def same_wait_def)
  ultimately show "t \<in> set (lists s l') \<and> (\<forall>th. threads s t = Some th \<longrightarrow> (\<exists>th'. threads s' t = Some th' \<and> same_wait th th'))"
    by blast
qed

lemma woken_other_frame: "threads s t = Some th0 \<Longrightarrow> same_wait th0 th \<Longrightarrow> other_frame i s (woken t th s)"
  by (rule other_frameI) (auto simp: same_wait_def dest: set_remove1_subset [THEN subsetD])

text \<open>The checks of a blocking call, when they pass.\<close>

lemma available_ok [simp]:
  "cur s = Some c \<Longrightarrow> lock_nest s = 0 \<Longrightarrow> int_nest s = 0 \<Longrightarrow> debug_scheduler_available b s = Some ()"
  by (simp add: debug_scheduler_available_def debug_in_thread_context_def debug_not_in_interrupt_def
      rt_critical_level_def rt_interrupt_get_nest_def rt_thread_self_def)

text \<open>What an operation of the running thread keeps, whatever else it does.\<close>

definition op_ok :: "nat \<Rightarrow> 'z ipc_scheme \<Rightarrow> 'z ipc_scheme \<Rightarrow> bool" where
  "op_ok i s s' \<longleftrightarrow> kernel_quiet s' \<and> cur s' \<noteq> None \<and> other_frame i s s'"

lemma op_ok_schedule:
  assumes "kernel_quiet s1" and "cur s1 \<noteq> None" and "other_frame i s s1"
  shows "\<exists>s'. rt_schedule s1 = Some s' \<and> op_ok i s s' \<and> sched_frame s1 s'"
proof -
  obtain s' where "rt_schedule s1 = Some s'" "kernel_quiet s'" "cur s' \<noteq> None" "sched_frame s1 s'"
    using schedule_quiet [OF assms(1,2)] by blast
  then show ?thesis
    using other_frame_trans [OF assms(3) sched_other_frame] by (auto simp: op_ok_def)
qed

lemma frame_sel:
  assumes "sched_frame s s'" and "is_wait l"
  shows "lists s' l = lists s l"
  using assms by (cases l) (auto simp: sched_frame_def)

lemma frame_objs: "sched_frame s s' \<Longrightarrow> objs s' = objs s"
  for s s' :: "'z ipc_scheme"
  by (rule more_objs) (simp add: sched_frame_def)

text \<open>Parking the caller on a list of object \<open>i\<close>, and the same with the insertion by the object's order.\<close>

lemma park_op:
  assumes q: "kernel_quiet s" and r: "runs s c th" and l: "l = Suspend i \<or> l = SuspendSender i"
    and ins: "set ins = insert c (set (lists s l))" "distinct ins" and tm: "time_ok time"
  shows "\<exists>s'. (if 0 < sint time then thread_timer_run c time (listed l c th ins s) else Some (listed l c th ins s)) =
      Some (blocked l c th ins time s) \<and> rt_schedule (blocked l c th ins time s) = Some s' \<and>
    op_ok i s s' \<and> objs s' = objs s \<and> lists s' l = ins \<and>
    (\<forall>l'. is_wait l' \<longrightarrow> l' \<noteq> l \<longrightarrow> lists s' l' = lists s l') \<and>
    (\<forall>t. rel_option same_thread (((threads s)(c \<mapsto> th\<lparr>stat := RT_THREAD_SUSPEND\<rparr>)) t) (threads s' t))"
proof -
  have w: "is_wait l" using l by auto
  have nl: "\<not> linked c (lists s)" using runs_unlinked [OF kernel_quietD(5) [OF q] r] .
  obtain s' where s': "(if 0 < sint time then thread_timer_run c time (listed l c th ins s) else Some (listed l c th ins s)) =
      Some (blocked l c th ins time s)" "rt_schedule (blocked l c th ins time s) = Some s'" "kernel_quiet s'" "cur s' \<noteq> None"
      "sched_frame (blocked l c th ins time s) s'"
    using blocked_quiet [OF listed_quiet(2) [OF q r w ins] tm] runsD(1) [OF r] by auto
  have "set ins \<subseteq> insert c (set (lists s l))" using ins(1) by simp
  then have "op_ok i s s'"
    using s' other_frame_trans [OF blocked_other_frame [OF l nl] sched_other_frame [OF s'(5)]] by (simp add: op_ok_def)
  moreover have "objs s' = objs s"
    using frame_objs [OF s'(5)] more_objs [of "blocked l c th ins time s" s] by simp
  moreover have "rel_option same_thread (((threads s)(c \<mapsto> th\<lparr>stat := RT_THREAD_SUSPEND\<rparr>)) t) (threads s' t)" for t
    using s'(5) unfolding sched_frame_def blocked_sel by (elim conjE allE)
  ultimately show ?thesis using s'(1,2) frame_sel [OF s'(5)] w by (intro exI [of _ s']) auto
qed

lemma block_op:
  assumes q: "kernel_quiet s" and r: "runs s c th" and l: "l = Suspend i \<or> l = SuspendSender i"
    and f: "flag_ok flag" and tm: "time_ok time"
  shows "\<exists>s'. ipc_block l c flag time s = Some s' \<and> op_ok i s s' \<and> objs s' = objs s \<and>
    lists s' l = queued flag s c (current_priority th) (lists s l) \<and>
    (\<forall>l'. is_wait l' \<longrightarrow> l' \<noteq> l \<longrightarrow> lists s' l' = lists s l') \<and>
    (\<forall>t. rel_option same_thread (((threads s)(c \<mapsto> th\<lparr>stat := RT_THREAD_SUSPEND\<rparr>)) t) (threads s' t))"
proof -
  have w: "is_wait l" using l by auto
  from park_op [OF q r l queued_new [OF q r] tm] list_suspend_quiet [OF q r w f] show ?thesis
    by (auto simp: ipc_block_def)
qed

text \<open>A call that blocks with a time limit leaves its timer armed for that time.\<close>

lemma block_timer:
  assumes q: "kernel_quiet s" and r: "runs s c th" and l: "is_wait l" and f: "flag_ok flag" and tm: "time_ok time" "0 < sint time"
    and b: "ipc_block l c flag time s = Some s'"
  shows "\<exists>tm. timers s' (ThreadTimer c) = Some tm \<and> tm_active tm \<and> timeout_tick tm = rt_tick s + time"
proof -
  let ?ins = "queued flag s c (current_priority th) (lists s l)"
  let ?l = "listed l c th ?ins s"
  have sus: "ipc_list_suspend l c flag s = Some ?l" "kernel_quiet ?l" using list_suspend_quiet [OF q r l f] by simp_all
  have t: "threads ?l c = Some (th\<lparr>stat := RT_THREAD_SUSPEND\<rparr>)" by simp
  obtain m where m: "thread_timer_run c time ?l = Some (armed c time ?l)" "kernel_quiet (armed c time ?l)"
      "timers (armed c time ?l) (ThreadTimer c) = Some m" "tm_active m" "timeout_tick m = rt_tick s + time"
    using armed_quiet [OF sus(2) t] tm by (auto simp: time_ok_def)
  obtain s1 where "rt_schedule (armed c time ?l) = Some s1" "sched_frame (armed c time ?l) s1"
    using schedule_quiet [OF m(2)] runsD(1) [OF r] by auto
  moreover from this have "s' = s1" using b sus(1) m(1) tm(2) by (simp add: ipc_block_def)
  ultimately show ?thesis using m(3-5) by (auto simp: sched_frame_def)
qed

lemma prio_at_frame:
  assumes "\<forall>x. rel_option same_thread (T x) (threads s x)"
  shows "prio_at s x = (case T x of Some th \<Rightarrow> current_priority th | None \<Rightarrow> 0)"
proof (cases "T x")
  case None
  then show ?thesis using assms [rule_format, of x] by (simp add: prio_at_def)
next
  case (Some th)
  then obtain th' where "threads s x = Some th'" "same_thread th th'"
    using assms [rule_format, of x] by (auto simp: option_rel_Some1)
  then show ?thesis using Some unfolding same_thread_def
    by (auto simp: prio_at_def dest: arg_cong [where f = current_priority])
qed

text \<open>Resetting the error code of the running thread, the start of every wait.\<close>

lemma clear_error:
  assumes q: "kernel_quiet s" and r: "runs s t th"
  shows "kernel_quiet (upd_thread t (\<lambda>th. th\<lparr>th_error := e\<rparr>) s)"
    "runs (upd_thread t (\<lambda>th. th\<lparr>th_error := e\<rparr>) s) t (th\<lparr>th_error := e\<rparr>)"
    "other_frame i s (upd_thread t (\<lambda>th. th\<lparr>th_error := e\<rparr>) s)"
    "queued flag (upd_thread t (\<lambda>th. th\<lparr>th_error := e\<rparr>) s) t p xs = queued flag s t p xs"
proof -
  show "kernel_quiet (upd_thread t (\<lambda>th. th\<lparr>th_error := e\<rparr>) s)"
    using sched_invD(4) [OF kernel_quietD(5) [OF q]] by (intro upd_thread_quiet [OF q]) simp
  show "runs (upd_thread t (\<lambda>th. th\<lparr>th_error := e\<rparr>) s) t (th\<lparr>th_error := e\<rparr>)"
    using r by (simp add: runs_def)
  show "other_frame i s (upd_thread t (\<lambda>th. th\<lparr>th_error := e\<rparr>) s)"
    by (rule wait_other_frame) (simp add: wait_frame_upd)
  have "prio_at (upd_thread t (\<lambda>th. th\<lparr>th_error := e\<rparr>) s) = prio_at s"
    using runsD [OF r] by (auto simp: prio_at_def fun_eq_iff)
  then show "queued flag (upd_thread t (\<lambda>th. th\<lparr>th_error := e\<rparr>) s) t p xs = queued flag s t p xs"
    by (simp add: queued_def)
qed

lemma waits_for_result:
  assumes "\<forall>x. rel_option same_thread ((T(t \<mapsto> th\<lparr>th_error := RT_EOK, stat := RT_THREAD_SUSPEND\<rparr>)) x) (T' x)"
  shows "\<exists>th'. T' t = Some th' \<and> stat th' = RT_THREAD_SUSPEND \<and> th_error th' = RT_EOK \<and>
    same_wait th th' \<and> current_priority th' = current_priority th"
proof -
  have "rel_option same_thread (Some (th\<lparr>th_error := RT_EOK, stat := RT_THREAD_SUSPEND\<rparr>)) (T' t)"
    using assms [rule_format, of t] by simp
  then obtain th' where th': "T' t = Some th'" "same_thread (th\<lparr>th_error := RT_EOK, stat := RT_THREAD_SUSPEND\<rparr>) th'"
    by (auto simp: option_rel_Some1)
  then show ?thesis unfolding same_thread_def runnable_def same_wait_def
    by (auto dest: arg_cong [where f = th_error] arg_cong [where f = event_set] arg_cong [where f = event_info]
        arg_cong [where f = current_priority])
qed

lemma released_ok:
  assumes q: "kernel_quiet s" and c: "cur s \<noteq> None"
  shows "\<exists>s'. ipc_list_resume_all (Suspend i) s = Some s' \<and> kernel_quiet s' \<and> released (Suspend i) s s' \<and>
    op_ok i s s' \<and> objs s' = objs s \<and> lists s' (Suspend i) = [] \<and> lists s' (SuspendSender i) = lists s (SuspendSender i)"
proof -
  obtain s' where s': "ipc_list_resume_all (Suspend i) s = Some s'" "kernel_quiet s'" "released (Suspend i) s s'"
    using resume_all_quiet [OF q, of "Suspend i"] by auto
  moreover have "op_ok i s s'"
    using s' c released_other_frame [OF s'(3)] by (simp add: op_ok_def released_def)
  moreover have "objs s' = objs s" using s'(3) by (intro more_objs) (simp add: released_def)
  ultimately show ?thesis by (auto simp: released_def)
qed

text \<open>A wait of the running thread: its error code is reset, then it blocks.\<close>

lemma wait_op:
  assumes q: "kernel_quiet s" and r: "runs s c th" and l: "l = Suspend i \<or> l = SuspendSender i"
    and f: "flag_ok flag" and tm: "time_ok time"
  shows "\<exists>s' th'. ipc_block l c flag time (upd_thread c (\<lambda>th. th\<lparr>th_error := RT_EOK\<rparr>) s) = Some s' \<and>
    op_ok i s s' \<and> objs s' = objs s \<and>
    lists s' l = queued flag s c (current_priority th) (lists s l) \<and>
    (\<forall>l'. is_wait l' \<longrightarrow> l' \<noteq> l \<longrightarrow> lists s' l' = lists s l') \<and>
    threads s' c = Some th' \<and> stat th' = RT_THREAD_SUSPEND \<and> th_error th' = RT_EOK"
proof -
  let ?u = "upd_thread c (\<lambda>th. th\<lparr>th_error := RT_EOK\<rparr>) s" and ?th = "th\<lparr>th_error := RT_EOK\<rparr>"
  note u = clear_error [OF q r, where e = RT_EOK]
  obtain s' where s': "ipc_block l c flag time ?u = Some s'" "op_ok i ?u s'" "objs s' = objs ?u"
    "lists s' l = queued flag ?u c (current_priority ?th) (lists ?u l)"
    "\<forall>l'. is_wait l' \<longrightarrow> l' \<noteq> l \<longrightarrow> lists s' l' = lists ?u l'"
    "\<forall>x. rel_option same_thread (((threads ?u)(c \<mapsto> ?th\<lparr>stat := RT_THREAD_SUSPEND\<rparr>)) x) (threads s' x)"
    using block_op [OF u(1,2) l f tm] by blast
  have "op_ok i s s'" using s'(2) other_frame_trans [OF u(3) [where i = i]] by (simp add: op_ok_def)
  moreover obtain th' where "threads s' c = Some th'" "stat th' = RT_THREAD_SUSPEND" "th_error th' = RT_EOK"
    using waits_for_result [OF s'(6)] by blast
  ultimately show ?thesis using s' u(4) by (intro exI [of _ s'] exI [of _ th']) simp
qed

text \<open>Resuming the first waiter of a list, if there is one, and rescheduling.\<close>

definition wake_first :: "lhead \<Rightarrow> 'z sched_scheme \<Rightarrow> 'z sched_scheme option" where
  "wake_first l s = (if lists s l \<noteq> [] then do { s \<leftarrow> ipc_list_resume l s; rt_schedule s } else Some s)"

definition made_runnable :: "nat list \<Rightarrow> 'z sched_scheme \<Rightarrow> 'z sched_scheme \<Rightarrow> bool" where
  "made_runnable ts s s' \<longleftrightarrow> (\<forall>t \<in> set ts. \<exists>th th'. threads s t = Some th \<and> threads s' t = Some th' \<and>
     runnable (stat th') \<and> th_error th' = th_error th)"

lemma to_run_frame:
  assumes "sched_frame (woken t th s) s'" and "threads s t = Some th"
  shows "made_runnable [t] s s'"
proof -
  have "threads (woken t th s) t = Some (to_run s t th)" by simp
  from frame_thread [OF assms(1) this] obtain th' where th': "threads s' t = Some th'" "same_thread (to_run s t th) th'"
    by blast
  have "runnable (stat th')" using th'(2) to_run_sel(6) [of s t th] unfolding same_thread_def by auto
  moreover have "th_error th' = th_error th"
    using th'(2) unfolding same_thread_def by (auto dest: arg_cong [where f = th_error])
  ultimately show ?thesis using th'(1) assms(2) by (simp add: made_runnable_def)
qed

lemma wake_first_ok:
  assumes q: "kernel_quiet s" and c: "cur s \<noteq> None" and l: "is_wait l"
  shows "\<exists>s'. wake_first l s = Some s' \<and> op_ok i s s' \<and> objs s' = objs s \<and> lists s' l = tl (lists s l) \<and>
    (\<forall>l'. is_wait l' \<longrightarrow> l' \<noteq> l \<longrightarrow> lists s' l' = lists s l') \<and> made_runnable (take 1 (lists s l)) s s'"
proof (cases "lists s l")
  case Nil
  then show ?thesis using q c by (simp add: wake_first_def op_ok_def wait_other_frame made_runnable_def)
next
  case (Cons t ts)
  obtain th where th: "threads s t = Some th" "stat th = RT_THREAD_SUSPEND"
      "ipc_list_resume l s = Some (woken t th s)" "kernel_quiet (woken t th s)"
    using list_resume_quiet [OF q l Cons] by auto
  have of: "other_frame i s (woken t th s)" by (rule woken_other_frame [OF th(1)]) simp
  obtain s' where s': "rt_schedule (woken t th s) = Some s'" "op_ok i s s'" "sched_frame (woken t th s) s'"
    using op_ok_schedule [OF th(4) _ of] c by auto
  have "lists s' l = ts" using frame_sel [OF s'(3) l] Cons l by simp
  moreover have "lists s' l' = lists s l'" if "is_wait l'" "l' \<noteq> l" for l'
  proof -
    have "t \<notin> set (lists s l')"
      using tbl_wf_disj [OF sched_invD(5) [OF kernel_quietD(5) [OF q]], of t l l'] Cons that(2) by auto
    then show ?thesis using frame_sel [OF s'(3) that(1)] that(1) by (simp add: remove1_idem)
  qed
  moreover have "objs s' = objs s" using frame_objs [OF s'(3)] by simp
  moreover have "made_runnable [t] s s'" by (rule to_run_frame [OF s'(3) th(1)])
  ultimately show ?thesis using s'(1,2) th(3) Cons by (intro exI [of _ s']) (simp add: wake_first_def)
qed

text \<open>
  The time a wait that was interrupted has left: \<open>timeout -= tick_delta\<close>, clipped at 0; a wait
  without limit stays one.
\<close>

definition wait_left :: "i32 \<Rightarrow> u32 \<Rightarrow> i32" where
  "wait_left timeout tick_delta =
    (if 0 < sint timeout then (let left = timeout - tick_delta in if sint left < 0 then 0 else left) else timeout)"

section \<open>A concrete state\<close>

text \<open>
  The threads of \<open>ex_kernel\<close> with objects: thread 5 waits on the semaphore 9, the semaphore 10 has a
  token, the mutex 11 is free, thread 2 holds the mutex 12 (priority 5), the event 13 is clear.
\<close>

definition ex_objs :: "nat \<rightharpoonup> ipc_object" where
  "ex_objs = [9 \<mapsto> ClassSemaphore \<lparr>io_static = True, io_flag = 0, sem_value = 0\<rparr>,
     10 \<mapsto> ClassSemaphore \<lparr>io_static = True, io_flag = 1, sem_value = 1\<rparr>,
     11 \<mapsto> ClassMutex \<lparr>io_static = True, io_flag = 1, mx_value = 1, original_priority = 0xff, hold = 0, owner = None\<rparr>,
     12 \<mapsto> ClassMutex \<lparr>io_static = True, io_flag = 1, mx_value = 0, original_priority = 31, hold = 1, owner = Some 4\<rparr>,
     13 \<mapsto> ClassEvent \<lparr>io_static = True, io_flag = 0, ev_set = 0\<rparr>]"

definition ex_ipc :: ipc where
  "ex_ipc = sched.extend ex_kernel (ipc.fields ex_objs)"

lemma ex_ipc_sel [simp]:
  "threads ex_ipc = threads ex_kernel" "lists ex_ipc = lists ex_kernel" "cur ex_ipc = Some 1"
  "lock_nest ex_ipc = 0" "int_nest ex_ipc = 0" "objs ex_ipc = ex_objs" "timers ex_ipc = timers ex_kernel"
  "trow ex_ipc = trow ex_kernel" "rt_tick ex_ipc = rt_tick ex_kernel" "ready_group ex_ipc = ready_group ex_kernel"
  by (simp_all add: ex_ipc_def sched.extend_def ipc.fields_def ex_kernel_def ex_sched_def)

lemma ex_ipc_quiet: "kernel_quiet ex_ipc"
proof -
  have "kernel_quiet ex_ipc = kernel_quiet ex_kernel" by (rule kernel_quiet_cong) (simp_all add: ex_kernel_sel)
  then show ?thesis using ex_kernel_quiet by simp
qed

lemma ex_ipc_runs: "runs ex_ipc 1 (ex_thread RT_THREAD_RUNNING 5)"
  by (simp add: runs_def ex_kernel_sel ex_sched_def)

lemma ex_ipc_lists:
  "lists ex_ipc (Suspend i) = (if i = 9 then [5] else [])" "lists ex_ipc (SuspendSender i) = []"
  by (simp_all add: ex_kernel_sel ex_sched_def)

lemma ex_ipc_objs:
  "objs ex_ipc 9 = Some (ClassSemaphore \<lparr>io_static = True, io_flag = 0, sem_value = 0\<rparr>)"
  "objs ex_ipc 10 = Some (ClassSemaphore \<lparr>io_static = True, io_flag = 1, sem_value = 1\<rparr>)"
  "objs ex_ipc 11 = Some (ClassMutex \<lparr>io_static = True, io_flag = 1, mx_value = 1, original_priority = 0xff, hold = 0, owner = None\<rparr>)"
  "objs ex_ipc 12 = Some (ClassMutex \<lparr>io_static = True, io_flag = 1, mx_value = 0, original_priority = 31, hold = 1, owner = Some 4\<rparr>)"
  "objs ex_ipc 13 = Some (ClassEvent \<lparr>io_static = True, io_flag = 0, ev_set = 0\<rparr>)"
  by (simp_all add: ex_objs_def)

end
