(* ===== verification/Semaphore.thy ===== *)
theory Semaphore
  imports Ipc
begin

text \<open>
  Semaphores (rt-thread/src/ipc.c, \<open>rt_sem_*\<close>). The invariant is that threads wait only on a semaphore
  whose value is 0, so a release hands the token to the first waiter or counts it.
\<close>

section \<open>Operations\<close>

definition get_sem :: "nat \<Rightarrow> 'z ipc_scheme \<Rightarrow> rt_semaphore option" where
  "get_sem i s = (case objs s i of Some (ClassSemaphore sm) \<Rightarrow> Some sm | _ \<Rightarrow> None)"

definition RT_SEM_VALUE_MAX :: u16 where "RT_SEM_VALUE_MAX = 0xffff"

definition rt_sem_init :: "nat \<Rightarrow> u32 \<Rightarrow> u8 \<Rightarrow> 'z ipc_scheme \<Rightarrow> (rt_err \<times> 'z ipc_scheme) option" where
  "rt_sem_init i v flag s = do {
     rt_assert (v < 0x10000);
     rt_assert (flag_ok flag);
     rt_assert (objs s i = None);
     let s = ipc_object_init i s;
     Some (RT_EOK, put_obj i (ClassSemaphore \<lparr>io_static = True, io_flag = flag, sem_value = ucast v\<rparr>) s) }"

text \<open>The removal is here a call that nothing interrupts; the theory Release has its sections.\<close>

definition rt_sem_detach :: "nat \<Rightarrow> 'z ipc_scheme \<Rightarrow> (rt_err \<times> 'z ipc_scheme) option" where
  "rt_sem_detach i s = do {
     sm \<leftarrow> get_sem i s;
     rt_assert (io_static sm);
     s \<leftarrow> ipc_list_resume_all (Suspend i) s;
     Some (RT_EOK, drop_obj i s) }"

text \<open>\<open>obj\<close> is what \<open>rt_object_allocate\<close> gives: a fresh object or none.\<close>

definition rt_sem_create :: "nat option \<Rightarrow> u32 \<Rightarrow> u8 \<Rightarrow> 'z ipc_scheme \<Rightarrow> (nat option \<times> 'z ipc_scheme) option" where
  "rt_sem_create obj v flag s = do {
     rt_assert (v < 0x10000);
     rt_assert (flag_ok flag);
     debug_not_in_interrupt s;
     (case obj of
        None \<Rightarrow> Some (None, s)
      | Some i \<Rightarrow>
          (let s = ipc_object_init i s
           in Some (Some i, put_obj i (ClassSemaphore \<lparr>io_static = False, io_flag = flag, sem_value = ucast v\<rparr>) s))) }"

definition rt_sem_delete :: "nat \<Rightarrow> 'z ipc_scheme \<Rightarrow> (rt_err \<times> 'z ipc_scheme) option" where
  "rt_sem_delete i s = do {
     sm \<leftarrow> get_sem i s;
     rt_assert (\<not> io_static sm);
     debug_not_in_interrupt s;
     s \<leftarrow> ipc_list_resume_all (Suspend i) s;
     Some (RT_EOK, drop_obj i s) }"

text \<open>\<open>rt_sem_take\<close>; a blocked call returns \<open>ipc_wait_result\<close> of its thread.\<close>

definition rt_sem_take :: "nat \<Rightarrow> i32 \<Rightarrow> 'z ipc_scheme \<Rightarrow> (rt_err call \<times> 'z ipc_scheme) option" where
  "rt_sem_take i time s = do {
     sm \<leftarrow> get_sem i s;
     (if 0 < sem_value sm
      then Some (Ret RT_EOK, put_obj i (ClassSemaphore (sm\<lparr>sem_value := sem_value sm - 1\<rparr>)) s)
      else if time = 0 then Some (Ret E_TIMEOUT, s)
      else do {
        debug_scheduler_available True s;
        t \<leftarrow> rt_thread_self s;
        let s = upd_thread t (\<lambda>th. th\<lparr>th_error := RT_EOK\<rparr>) s;
        s \<leftarrow> ipc_block (Suspend i) t (io_flag sm) time s;
        Some (Blocked, s) }) }"

definition rt_sem_trytake :: "nat \<Rightarrow> 'z ipc_scheme \<Rightarrow> (rt_err call \<times> 'z ipc_scheme) option" where
  "rt_sem_trytake i s = rt_sem_take i RT_WAITING_NO s"

definition rt_sem_release :: "nat \<Rightarrow> 'z ipc_scheme \<Rightarrow> (rt_err \<times> 'z ipc_scheme) option" where
  "rt_sem_release i s = do {
     sm \<leftarrow> get_sem i s;
     (if lists s (Suspend i) \<noteq> [] then do {
        s \<leftarrow> ipc_list_resume (Suspend i) s;
        s \<leftarrow> rt_schedule s;
        Some (RT_EOK, s) }
      else if sem_value sm < RT_SEM_VALUE_MAX
      then Some (RT_EOK, put_obj i (ClassSemaphore (sm\<lparr>sem_value := sem_value sm + 1\<rparr>)) s)
      else Some (E_FULL, s)) }"

definition rt_sem_control :: "nat \<Rightarrow> ipc_cmd \<Rightarrow> 'z ipc_scheme \<Rightarrow> (rt_err \<times> 'z ipc_scheme) option" where
  "rt_sem_control i cmd s = do {
     sm \<leftarrow> get_sem i s;
     (case cmd of
        RT_IPC_CMD_RESET v \<Rightarrow> do {
          s \<leftarrow> ipc_list_resume_all (Suspend i) s;
          s \<leftarrow> rt_schedule (put_obj i (ClassSemaphore (sm\<lparr>sem_value := ucast v\<rparr>)) s);
          Some (RT_EOK, s) }
      | RT_IPC_CMD_OTHER _ \<Rightarrow> Some (E_ERROR, s)) }"

section \<open>Invariant\<close>

definition sem_ok :: "'z ipc_scheme \<Rightarrow> nat \<Rightarrow> rt_semaphore \<Rightarrow> bool" where
  "sem_ok s i sm \<longleftrightarrow> flag_ok (io_flag sm) \<and> lists s (SuspendSender i) = [] \<and>
     (lists s (Suspend i) \<noteq> [] \<longrightarrow> sem_value sm = 0)"

lemma get_sem_iff: "get_sem i s = Some sm \<longleftrightarrow> objs s i = Some (ClassSemaphore sm)"
  by (auto simp: get_sem_def split: option.splits ipc_object.splits)

text \<open>The result of an operation on a semaphore that stays.\<close>

definition sem_op :: "nat \<Rightarrow> 'z ipc_scheme \<Rightarrow> 'z ipc_scheme \<Rightarrow> bool" where
  "sem_op i s s' \<longleftrightarrow> op_ok i s s' \<and> (\<exists>sm. objs s' i = Some (ClassSemaphore sm) \<and> sem_ok s' i sm)"

lemma sem_take_now:
  assumes q: "kernel_quiet s" and o: "objs s i = Some (ClassSemaphore sm)" and ok: "sem_ok s i sm"
    and c: "cur s \<noteq> None" and v: "0 < sem_value sm"
  shows "rt_sem_take i time s = Some (Ret RT_EOK, put_obj i (ClassSemaphore (sm\<lparr>sem_value := sem_value sm - 1\<rparr>)) s)"
    "sem_op i s (put_obj i (ClassSemaphore (sm\<lparr>sem_value := sem_value sm - 1\<rparr>)) s)"
proof -
  show "rt_sem_take i time s = Some (Ret RT_EOK, put_obj i (ClassSemaphore (sm\<lparr>sem_value := sem_value sm - 1\<rparr>)) s)"
    using o v by (simp add: rt_sem_take_def get_sem_def)
  have "lists s (Suspend i) = []" using ok v by (auto simp: sem_ok_def)
  then show "sem_op i s (put_obj i (ClassSemaphore (sm\<lparr>sem_value := sem_value sm - 1\<rparr>)) s)"
    using q c ok by (simp add: sem_op_def op_ok_def sem_ok_def)
qed

lemma sem_take_poll:
  "objs s i = Some (ClassSemaphore sm) \<Longrightarrow> sem_value sm = 0 \<Longrightarrow> rt_sem_take i 0 s = Some (Ret E_TIMEOUT, s)"
  by (simp add: rt_sem_take_def get_sem_def)

lemma sem_take_block:
  assumes q: "kernel_quiet s" and o: "objs s i = Some (ClassSemaphore sm)" and ok: "sem_ok s i sm"
    and r: "runs s t th" and av: "lock_nest s = 0" "int_nest s = 0" and v: "sem_value sm = 0"
    and tm: "time \<noteq> 0" "time_ok time"
  shows "\<exists>s' th'. rt_sem_take i time s = Some (Blocked, s') \<and> sem_op i s s' \<and> objs s' = objs s \<and>
    lists s' (Suspend i) = queued (io_flag sm) s t (current_priority th) (lists s (Suspend i)) \<and>
    threads s' t = Some th' \<and> stat th' = RT_THREAD_SUSPEND \<and> th_error th' = RT_EOK"
proof -
  have f: "flag_ok (io_flag sm)" using ok by (simp add: sem_ok_def)
  obtain s' th' where s': "ipc_block (Suspend i) t (io_flag sm) time (upd_thread t (\<lambda>th. th\<lparr>th_error := RT_EOK\<rparr>) s) = Some s'"
    "op_ok i s s'" "objs s' = objs s"
    "lists s' (Suspend i) = queued (io_flag sm) s t (current_priority th) (lists s (Suspend i))"
    "\<forall>l'. is_wait l' \<longrightarrow> l' \<noteq> Suspend i \<longrightarrow> lists s' l' = lists s l'"
    "threads s' t = Some th'" "stat th' = RT_THREAD_SUSPEND" "th_error th' = RT_EOK"
    using wait_op [OF q r disjI1 [OF refl] f tm(2)] by blast
  have e: "rt_sem_take i time s = Some (Blocked, s')"
    using o v tm s'(1) runsD [OF r] av by (simp add: rt_sem_take_def get_sem_def rt_thread_self_def)
  have "sem_ok s' i sm" using ok s'(4,5) v by (simp add: sem_ok_def)
  then show ?thesis
    using e s' o by (intro exI [of _ s'] exI [of _ th']) (simp add: sem_op_def)
qed

lemma sem_release_ok:
  assumes q: "kernel_quiet s" and o: "objs s i = Some (ClassSemaphore sm)" and ok: "sem_ok s i sm"
    and c: "cur s \<noteq> None" and w: "lists s (Suspend i) = t # ts"
  shows "\<exists>s' th. rt_sem_release i s = Some (RT_EOK, s') \<and> sem_op i s s' \<and> objs s' = objs s \<and>
    lists s' (Suspend i) = ts \<and> threads s t = Some th \<and> sched_frame (woken t th s) s'"
proof -
  obtain th where th: "threads s t = Some th" "stat th = RT_THREAD_SUSPEND"
      "ipc_list_resume (Suspend i) s = Some (woken t th s)" "kernel_quiet (woken t th s)"
    using list_resume_quiet [OF q _ w] by auto
  have of: "other_frame i s (woken t th s)" by (rule woken_other_frame [OF th(1)]) simp
  obtain s' where s': "rt_schedule (woken t th s) = Some s'" "op_ok i s s'" "sched_frame (woken t th s) s'"
    using op_ok_schedule [OF th(4) _ of] c by auto
  have l: "lists s' (Suspend i) = ts" "lists s' (SuspendSender i) = lists s (SuspendSender i)"
  proof -
    show "lists s' (Suspend i) = ts" using frame_sel [OF s'(3), of "Suspend i"] w by simp
    have "t \<notin> set (lists s (SuspendSender i))"
      using tbl_wf_disj [OF sched_invD(5) [OF kernel_quietD(5) [OF q]], of t "Suspend i" "SuspendSender i"] w by auto
    then show "lists s' (SuspendSender i) = lists s (SuspendSender i)"
      using frame_sel [OF s'(3), of "SuspendSender i"] by (simp add: remove1_idem)
  qed
  have ob: "objs s' = objs s" using frame_objs [OF s'(3)] by simp
  have "sem_ok s' i sm" using ok l w by (simp add: sem_ok_def)
  then have "sem_op i s s'" using s'(2) ob o by (simp add: sem_op_def)
  then show ?thesis
    using o w th s' l ob by (intro exI [of _ s'] exI [of _ th]) (simp add: rt_sem_release_def get_sem_def)
qed

lemma sem_release_count:
  assumes q: "kernel_quiet s" and o: "objs s i = Some (ClassSemaphore sm)" and ok: "sem_ok s i sm"
    and c: "cur s \<noteq> None" and w: "lists s (Suspend i) = []"
  shows "rt_sem_release i s = Some (if sem_value sm < RT_SEM_VALUE_MAX
      then (RT_EOK, put_obj i (ClassSemaphore (sm\<lparr>sem_value := sem_value sm + 1\<rparr>)) s) else (E_FULL, s))"
    "sem_op i s (put_obj i (ClassSemaphore (sm\<lparr>sem_value := sem_value sm + 1\<rparr>)) s)" "sem_op i s s"
  using q o ok c w by (simp_all add: rt_sem_release_def get_sem_def sem_op_def op_ok_def sem_ok_def wait_other_frame)

section \<open>Creation and removal\<close>

definition gone :: "nat \<Rightarrow> 'z ipc_scheme \<Rightarrow> 'z ipc_scheme \<Rightarrow> bool" where
  "gone i s s' \<longleftrightarrow> op_ok i s s' \<and> objs s' i = None \<and> lists s' (Suspend i) = [] \<and> lists s' (SuspendSender i) = []"

lemma ipc_object_init_idle: "lists s (Suspend i) = [] \<Longrightarrow> ipc_object_init i s = s"
  by (simp add: ipc_object_init_def fun_upd_idem)

lemma sem_init_ok:
  assumes q: "kernel_quiet s" and c: "cur s \<noteq> None" and n: "objs s i = None" "lists s (Suspend i) = []" "lists s (SuspendSender i) = []"
  shows "rt_sem_init i v flag s = Some (e, s') \<Longrightarrow> sem_op i s s'"
    "rt_sem_create (Some i) v flag s = Some (ob, s') \<Longrightarrow> sem_op i s s'"
proof -
  have "sem_op i s (put_obj i (ClassSemaphore \<lparr>io_static = b, io_flag = flag, sem_value = w\<rparr>) s)" if "flag_ok flag" for b w
    using q c n that by (simp add: sem_op_def op_ok_def sem_ok_def)
  then show "rt_sem_init i v flag s = Some (e, s') \<Longrightarrow> sem_op i s s'"
    "rt_sem_create (Some i) v flag s = Some (ob, s') \<Longrightarrow> sem_op i s s'"
    using n by (auto simp: rt_sem_init_def rt_sem_create_def ipc_object_init_idle Let_def elim!: bind_SomeE)
qed

lemma drop_gone:
  assumes q: "kernel_quiet s" and c: "cur s \<noteq> None" and x: "lists s (SuspendSender i) = []"
  shows "\<exists>s'. ipc_list_resume_all (Suspend i) s = Some s' \<and> gone i s (drop_obj i s')"
proof -
  obtain s' where "ipc_list_resume_all (Suspend i) s = Some s'" "op_ok i s s'" "lists s' (Suspend i) = []"
      "lists s' (SuspendSender i) = []"
    using released_ok [OF q c, of i] x by auto
  then show ?thesis
    using other_frame_trans [of i s s' "drop_obj i s'"] by (auto simp: gone_def op_ok_def)
qed

lemma sem_remove_ok:
  assumes q: "kernel_quiet s" and c: "cur s \<noteq> None" and ok: "sem_ok s i sm"
  shows "rt_sem_detach i s = Some (e, s') \<Longrightarrow> gone i s s'" "rt_sem_delete i s = Some (e, s') \<Longrightarrow> gone i s s'"
  using drop_gone [OF q c, of i] ok
  by (auto simp: rt_sem_detach_def rt_sem_delete_def sem_ok_def elim!: bind_SomeE)

lemma sem_control_ok:
  assumes q: "kernel_quiet s" and c: "cur s \<noteq> None" and o: "objs s i = Some (ClassSemaphore sm)" and ok: "sem_ok s i sm"
    and e: "rt_sem_control i cmd s = Some (e, s')"
  shows "sem_op i s s'"
proof (cases cmd)
  case (RT_IPC_CMD_RESET v)
  obtain s1 where s1: "ipc_list_resume_all (Suspend i) s = Some s1" "op_ok i s s1" "lists s1 (Suspend i) = []"
      "lists s1 (SuspendSender i) = lists s (SuspendSender i)"
    using released_ok [OF q c, of i] by blast
  let ?s2 = "put_obj i (ClassSemaphore (sm\<lparr>sem_value := ucast v\<rparr>)) s1"
  have "kernel_quiet ?s2" "cur ?s2 \<noteq> None" "other_frame i s ?s2"
    using s1(2) other_frame_trans [of i s s1 ?s2] by (auto simp: op_ok_def)
  then obtain s2 where s2: "rt_schedule ?s2 = Some s2" "op_ok i s s2" "sched_frame ?s2 s2"
    using op_ok_schedule by blast
  have "s' = s2" using e RT_IPC_CMD_RESET s1(1) s2(1) o by (simp add: rt_sem_control_def get_sem_def)
  then show ?thesis
    using s2(2) frame_objs [OF s2(3)] frame_sel [OF s2(3), of "Suspend i"] frame_sel [OF s2(3), of "SuspendSender i"] s1 ok
    by (simp add: sem_op_def sem_ok_def)
next
  case (RT_IPC_CMD_OTHER x)
  then show ?thesis
    using e o q c ok by (auto simp: rt_sem_control_def get_sem_def sem_op_def op_ok_def wait_other_frame)
qed

section \<open>Properties\<close>

text \<open>
  \<open>rt_sem_take\<close> by the running thread, on every branch: a token is taken if there is one; with
  no token and no time to wait the call returns the timeout error and changes nothing; otherwise the
  caller is suspended on the semaphore, at the place its order says, with no error recorded.
\<close>

theorem sem_take_branches:
  assumes "kernel_quiet s" and "objs s i = Some (ClassSemaphore sm)" and "sem_ok s i sm" and "runs s c th"
    and "lock_nest s = 0" and "int_nest s = 0" and "time_ok time"
  shows "if 0 < sem_value sm
    then rt_sem_take i time s = Some (Ret RT_EOK, put_obj i (ClassSemaphore (sm\<lparr>sem_value := sem_value sm - 1\<rparr>)) s)
    else if time = 0 then rt_sem_take i time s = Some (Ret E_TIMEOUT, s)
    else \<exists>s' th'. rt_sem_take i time s = Some (Blocked, s') \<and> kernel_quiet s' \<and> objs s' = objs s \<and>
      lists s' (Suspend i) = queued (io_flag sm) s c (current_priority th) (lists s (Suspend i)) \<and>
      threads s' c = Some th' \<and> stat th' = RT_THREAD_SUSPEND \<and> th_error th' = RT_EOK"
proof -
  have z: "sem_value sm = 0" if "\<not> 0 < sem_value sm" using that by (simp add: word_gt_0)
  show ?thesis
    using sem_take_now(1) [OF assms(1-3) _, of time] runsD(1) [OF assms(4)] sem_take_poll [OF assms(2)]
      sem_take_block [OF assms(1-6) z _ assms(7)] z
    by (auto simp: sem_op_def op_ok_def)
qed

theorem sem_take_branches_witness:
  "\<exists>s' th'. rt_sem_take 9 (- 1) ex_ipc = Some (Blocked, s') \<and> kernel_quiet s' \<and> lists s' (Suspend 9) = [5, 1] \<and>
     threads s' 1 = Some th' \<and> stat th' = RT_THREAD_SUSPEND"
proof -
  have "sem_ok ex_ipc 9 \<lparr>io_static = True, io_flag = 0, sem_value = 0\<rparr>"
    by (simp add: sem_ok_def flag_ok_def RT_IPC_FLAG_FIFO_def ex_ipc_lists del: ex_ipc_sel)
  from sem_take_branches [OF ex_ipc_quiet ex_ipc_objs(1) this ex_ipc_runs, of "- 1"]
  show ?thesis
    by (auto simp: time_ok_def queued_def RT_IPC_FLAG_FIFO_def ex_ipc_lists simp del: ex_ipc_sel(2))
qed

text \<open>
  \<open>rt_sem_release\<close> on every branch: with waiters the first one is made runnable without an error
  and the token goes to it uncounted; without waiters the token is counted, and at 65535 the call fails.
\<close>

theorem sem_release_branches:
  assumes "kernel_quiet s" and "objs s i = Some (ClassSemaphore sm)" and "sem_ok s i sm" and "cur s \<noteq> None"
  shows "case lists s (Suspend i) of
      [] \<Rightarrow> rt_sem_release i s = Some (if sem_value sm < 0xffff
        then (RT_EOK, put_obj i (ClassSemaphore (sm\<lparr>sem_value := sem_value sm + 1\<rparr>)) s) else (E_FULL, s))
    | t # ts \<Rightarrow> \<exists>s' th th'. rt_sem_release i s = Some (RT_EOK, s') \<and> kernel_quiet s' \<and> objs s' = objs s \<and>
        lists s' (Suspend i) = ts \<and> threads s t = Some th \<and> threads s' t = Some th' \<and>
        runnable (stat th') \<and> th_error th' = th_error th"
proof (cases "lists s (Suspend i)")
  case Nil
  then show ?thesis using sem_release_count(1) [OF assms] by (simp add: RT_SEM_VALUE_MAX_def)
next
  case (Cons t ts)
  obtain s' th where s': "rt_sem_release i s = Some (RT_EOK, s')" "sem_op i s s'" "objs s' = objs s"
      "lists s' (Suspend i) = ts" "threads s t = Some th" "sched_frame (woken t th s) s'"
    using sem_release_ok [OF assms Cons] by blast
  have "rel_option same_thread (Some (to_run s t th)) (threads s' t)"
    using s'(6) unfolding sched_frame_def woken_sel by (metis fun_upd_same)
  then obtain th' where th': "threads s' t = Some th'" "same_thread (to_run s t th) th'" by (auto simp: option_rel_Some1)
  have "runnable (stat th') \<and> th_error th' = th_error th"
  proof
    show "runnable (stat th')" using th'(2) to_run_sel(6) [of s t th] unfolding same_thread_def by auto
    show "th_error th' = th_error th"
      using th'(2) unfolding same_thread_def by (auto dest: arg_cong [where f = th_error])
  qed
  then show ?thesis using Cons s' th'(1) by (auto simp: sem_op_def op_ok_def)
qed

theorem sem_release_branches_witness:
  "\<exists>s' th'. rt_sem_release 9 ex_ipc = Some (RT_EOK, s') \<and> kernel_quiet s' \<and> lists s' (Suspend 9) = [] \<and>
     threads s' 5 = Some th' \<and> runnable (stat th')"
proof -
  have "sem_ok ex_ipc 9 \<lparr>io_static = True, io_flag = 0, sem_value = 0\<rparr>"
    by (simp add: sem_ok_def flag_ok_def RT_IPC_FLAG_FIFO_def ex_ipc_lists del: ex_ipc_sel)
  from sem_release_branches [OF ex_ipc_quiet ex_ipc_objs(1) this] show ?thesis
    by (auto simp: ex_ipc_lists simp del: ex_ipc_sel(2))
qed

text \<open>
  C10: The token of a release reaches a thread that blocked: after \<open>rt_sem_take\<close> has blocked the only
  waiter, a release makes exactly that thread runnable, the count stays 0, and what the blocked call
  returns is success.
\<close>

theorem sem_take_release_handover:
  assumes "kernel_quiet s" and "objs s i = Some (ClassSemaphore sm)" and "sem_ok s i sm" and "runs s c th"
    and "lock_nest s = 0" and "int_nest s = 0" and "time_ok time" and "time \<noteq> 0" and "sem_value sm = 0"
    and "lists s (Suspend i) = []"
  shows "\<exists>s1 s2 th2. rt_sem_take i time s = Some (Blocked, s1) \<and> rt_sem_release i s1 = Some (RT_EOK, s2) \<and>
    kernel_quiet s2 \<and> objs s2 = objs s \<and> lists s2 (Suspend i) = [] \<and>
    threads s2 c = Some th2 \<and> runnable (stat th2) \<and> ipc_wait_result c s2 = Some RT_EOK"
proof -
  obtain s1 th1 where s1: "rt_sem_take i time s = Some (Blocked, s1)" "sem_op i s s1" "objs s1 = objs s"
      "lists s1 (Suspend i) = queued (io_flag sm) s c (current_priority th) (lists s (Suspend i))"
      "threads s1 c = Some th1" "th_error th1 = RT_EOK"
    using sem_take_block [OF assms(1-6,9,8,7)] by blast
  have l: "lists s1 (Suspend i) = [c]" using s1(4) assms(10) by (simp add: queued_def)
  have o1: "objs s1 i = Some (ClassSemaphore sm)" "kernel_quiet s1" "cur s1 \<noteq> None" "sem_ok s1 i sm"
    using s1(2,3) assms(2) by (auto simp: sem_op_def op_ok_def)
  from sem_release_ok [OF o1(2,1,4,3) l] obtain s2 th where s2: "rt_sem_release i s1 = Some (RT_EOK, s2)" "sem_op i s1 s2"
      "objs s2 = objs s1" "lists s2 (Suspend i) = []" "threads s1 c = Some th" "sched_frame (woken c th s1) s2" by blast
  have "rel_option same_thread (Some (to_run s1 c th)) (threads s2 c)"
    using s2(6) unfolding sched_frame_def woken_sel by (metis fun_upd_same)
  then obtain th2 where th2: "threads s2 c = Some th2" "same_thread (to_run s1 c th) th2" by (auto simp: option_rel_Some1)
  have "runnable (stat th2)" using th2(2) to_run_sel(6) [of s1 c th] unfolding same_thread_def by auto
  moreover have "th_error th2 = RT_EOK"
    using th2(2) s1(5,6) s2(5) unfolding same_thread_def by (auto dest: arg_cong [where f = th_error])
  ultimately show ?thesis
    using s1 s2 th2(1) by (intro exI [of _ s1] exI [of _ s2] exI [of _ th2]) (simp add: sem_op_def op_ok_def ipc_wait_result_def)
qed

theorem sem_take_release_handover_witness:
  "\<exists>s1 s2. rt_sem_take 10 100 (put_obj 10 (ClassSemaphore \<lparr>io_static = True, io_flag = 1, sem_value = 0\<rparr>) ex_ipc) = Some (Blocked, s1) \<and>
     rt_sem_release 10 s1 = Some (RT_EOK, s2) \<and> ipc_wait_result 1 s2 = Some RT_EOK"
proof -
  let ?sm = "\<lparr>io_static = True, io_flag = 1, sem_value = 0\<rparr> :: rt_semaphore"
  let ?s = "put_obj 10 (ClassSemaphore ?sm) ex_ipc"
  have "sem_ok ?s 10 ?sm" "runs ?s 1 (ex_thread RT_THREAD_RUNNING 5)" "time_ok 100" "lists ?s (Suspend 10) = []"
    using ex_ipc_runs by (simp_all add: sem_ok_def flag_ok_def RT_IPC_FLAG_PRIO_def time_ok_def runs_def ex_ipc_lists del: ex_ipc_sel(2))
  from sem_take_release_handover [OF _ _ this(1,2) _ _ this(3) _ _ this(4)] ex_ipc_quiet show ?thesis by auto
qed

end
