(* ===== verification/Mutex.thy ===== *)
theory Mutex
  imports Semaphore
begin

text \<open>
  Mutexes (rt-thread/src/ipc.c, \<open>rt_mutex_*\<close>): recursive, handed over to the first waiter, with the
  owner's priority raised to that of the highest waiter and restored at the last release.
\<close>

section \<open>Operations\<close>

definition get_mutex :: "nat \<Rightarrow> 'z ipc_scheme \<Rightarrow> rt_mutex option" where
  "get_mutex i s = (case objs s i of Some (ClassMutex m) \<Rightarrow> Some m | _ \<Rightarrow> None)"

definition RT_MUTEX_HOLD_MAX :: u8 where "RT_MUTEX_HOLD_MAX = 0xff"
definition RT_MUTEX_VALUE_MAX :: u16 where "RT_MUTEX_VALUE_MAX = 0xffff"

definition new_mutex :: "bool \<Rightarrow> rt_mutex" where
  "new_mutex static = \<lparr>io_static = static, io_flag = RT_IPC_FLAG_PRIO, mx_value = 1, original_priority = 0xff,
     hold = 0, owner = None\<rparr>"

definition rt_mutex_init :: "nat \<Rightarrow> u8 \<Rightarrow> 'z ipc_scheme \<Rightarrow> (rt_err \<times> 'z ipc_scheme) option" where
  "rt_mutex_init i flag s = do {
     rt_assert (objs s i = None);
     let s = ipc_object_init i s;
     Some (RT_EOK, put_obj i (ClassMutex (new_mutex True)) s) }"

text \<open>The removal is here a call that nothing interrupts; the theory Release has its sections.\<close>

definition rt_mutex_detach :: "nat \<Rightarrow> 'z ipc_scheme \<Rightarrow> (rt_err \<times> 'z ipc_scheme) option" where
  "rt_mutex_detach i s = do {
     m \<leftarrow> get_mutex i s;
     rt_assert (io_static m);
     s \<leftarrow> ipc_list_resume_all (Suspend i) s;
     Some (RT_EOK, drop_obj i s) }"

definition rt_mutex_create :: "nat option \<Rightarrow> u8 \<Rightarrow> 'z ipc_scheme \<Rightarrow> (nat option \<times> 'z ipc_scheme) option" where
  "rt_mutex_create obj flag s = do {
     debug_not_in_interrupt s;
     (case obj of
        None \<Rightarrow> Some (None, s)
      | Some i \<Rightarrow> (let s = ipc_object_init i s in Some (Some i, put_obj i (ClassMutex (new_mutex False)) s))) }"

definition rt_mutex_delete :: "nat \<Rightarrow> 'z ipc_scheme \<Rightarrow> (rt_err \<times> 'z ipc_scheme) option" where
  "rt_mutex_delete i s = do {
     m \<leftarrow> get_mutex i s;
     rt_assert (\<not> io_static m);
     debug_not_in_interrupt s;
     s \<leftarrow> ipc_list_resume_all (Suspend i) s;
     Some (RT_EOK, drop_obj i s) }"

text \<open>\<open>rt_mutex_take\<close>; a blocked call returns \<open>ipc_wait_result\<close> of its thread.\<close>

definition rt_mutex_take :: "nat \<Rightarrow> i32 \<Rightarrow> 'z ipc_scheme \<Rightarrow> (rt_err call \<times> 'z ipc_scheme) option" where
  "rt_mutex_take i time s = do {
     debug_scheduler_available True s;
     m \<leftarrow> get_mutex i s;
     t \<leftarrow> rt_thread_self s;
     th \<leftarrow> threads s t;
     let s = upd_thread t (\<lambda>th. th\<lparr>th_error := RT_EOK\<rparr>) s;
     (if owner m = Some t
      then if hold m < RT_MUTEX_HOLD_MAX
        then Some (Ret RT_EOK, put_obj i (ClassMutex (m\<lparr>hold := hold m + 1\<rparr>)) s)
        else Some (Ret E_FULL, s)
      else if 0 < mx_value m
      then (let m = m\<lparr>mx_value := mx_value m - 1, owner := Some t, original_priority := current_priority th\<rparr> in
        if hold m < RT_MUTEX_HOLD_MAX
        then Some (Ret RT_EOK, put_obj i (ClassMutex (m\<lparr>hold := hold m + 1\<rparr>)) s)
        else Some (Ret E_FULL, put_obj i (ClassMutex m) s))
      else if time = 0 then Some (Ret E_TIMEOUT, upd_thread t (\<lambda>th. th\<lparr>th_error := E_TIMEOUT\<rparr>) s)
      else do {
        ow \<leftarrow> owner m;
        oth \<leftarrow> threads s ow;
        s \<leftarrow> (if current_priority th < current_priority oth
              then map_option snd (rt_thread_control ow (RT_THREAD_CTRL_CHANGE_PRIORITY (current_priority th)) s)
              else Some s);
        s \<leftarrow> ipc_block (Suspend i) t (io_flag m) time s;
        Some (Blocked, s) }) }"

definition rt_mutex_trytake :: "nat \<Rightarrow> 'z ipc_scheme \<Rightarrow> (rt_err call \<times> 'z ipc_scheme) option" where
  "rt_mutex_trytake i s = rt_mutex_take i RT_WAITING_NO s"

definition rt_mutex_release :: "nat \<Rightarrow> 'z ipc_scheme \<Rightarrow> (rt_err \<times> 'z ipc_scheme) option" where
  "rt_mutex_release i s = do {
     m \<leftarrow> get_mutex i s;
     debug_in_thread_context s;
     t \<leftarrow> rt_thread_self s;
     th \<leftarrow> threads s t;
     (if owner m \<noteq> Some t then Some (E_ERROR, upd_thread t (\<lambda>th. th\<lparr>th_error := E_ERROR\<rparr>) s)
      else do {
        let m = m\<lparr>hold := hold m - 1\<rparr>;
        (if hold m \<noteq> 0 then Some (RT_EOK, put_obj i (ClassMutex m) s)
         else do {
           s \<leftarrow> (if original_priority m \<noteq> current_priority th
                 then map_option snd (rt_thread_control t (RT_THREAD_CTRL_CHANGE_PRIORITY (original_priority m)) s)
                 else Some s);
           (case lists s (Suspend i) of
              w # _ \<Rightarrow> do {
                wth \<leftarrow> threads s w;
                let m = m\<lparr>owner := Some w, original_priority := current_priority wth\<rparr>;
                (if hold m < RT_MUTEX_HOLD_MAX then do {
                   let s = put_obj i (ClassMutex (m\<lparr>hold := hold m + 1\<rparr>)) s;
                   s \<leftarrow> ipc_list_resume (Suspend i) s;
                   s \<leftarrow> rt_schedule s;
                   Some (RT_EOK, s) }
                 else Some (E_FULL, put_obj i (ClassMutex m) s)) }
            | [] \<Rightarrow>
                if mx_value m < RT_MUTEX_VALUE_MAX
                then Some (RT_EOK, put_obj i (ClassMutex
                  (m\<lparr>mx_value := mx_value m + 1, owner := None, original_priority := 0xff\<rparr>)) s)
                else Some (E_FULL, put_obj i (ClassMutex m) s)) }) }) }"

definition rt_mutex_control :: "nat \<Rightarrow> ipc_cmd \<Rightarrow> 'z ipc_scheme \<Rightarrow> (rt_err \<times> 'z ipc_scheme) option" where
  "rt_mutex_control i cmd s = do { _ \<leftarrow> get_mutex i s; Some (E_ERROR, s) }"

section \<open>Invariant\<close>

text \<open>
  A free mutex has its token, no holder and no waiters; a held one has given the token away, counts
  its takes and remembers a legal priority of its owner.
\<close>

definition mutex_ok :: "'z ipc_scheme \<Rightarrow> nat \<Rightarrow> rt_mutex \<Rightarrow> bool" where
  "mutex_ok s i m \<longleftrightarrow> io_flag m = RT_IPC_FLAG_PRIO \<and> lists s (SuspendSender i) = [] \<and>
     (case owner m of
        None \<Rightarrow> mx_value m = 1 \<and> hold m = 0 \<and> lists s (Suspend i) = []
      | Some t \<Rightarrow> mx_value m = 0 \<and> 0 < hold m \<and> unat (original_priority m) < 32)"

lemma get_mutex_iff: "get_mutex i s = Some m \<longleftrightarrow> objs s i = Some (ClassMutex m)"
  by (auto simp: get_mutex_def split: option.splits ipc_object.splits)

definition mutex_op :: "nat \<Rightarrow> 'z ipc_scheme \<Rightarrow> 'z ipc_scheme \<Rightarrow> bool" where
  "mutex_op i s s' \<longleftrightarrow> op_ok i s s' \<and> (\<exists>m. objs s' i = Some (ClassMutex m) \<and> mutex_ok s' i m)"

text \<open>Changing a priority leaves the wait lists alone.\<close>

lemma prio_changed_wait:
  assumes "sched_inv s" and "threads s t = Some th" and "is_wait l"
  shows "lists (prio_changed t th p s) l = lists s l"
proof (cases "stat th = RT_THREAD_READY")
  case True
  have "t \<notin> set (lists s l)"
    using lists_okD(3,4) [OF sched_invD(1) [OF assms(1)], of t] assms(2,3) True by (cases l) auto
  then show ?thesis using True assms(3)
    by (auto simp: prio_changed_def readied_def unreadied_def tbl_insert_tail_def tbl_remove_def remove1_idem)
next
  case False
  then show ?thesis by (simp add: prio_changed_def)
qed

lemma prio_changed_sel [simp]:
  "cur (prio_changed t th p s) = cur s" "lock_nest (prio_changed t th p s) = lock_nest s"
  "int_nest (prio_changed t th p s) = int_nest s" "sched.more (prio_changed t th p s) = sched.more s"
  "rt_tick (prio_changed t th p s) = rt_tick s"
  by (simp_all add: prio_changed_def readied_def unreadied_def)

lemma prio_changed_objs [simp]: "objs (prio_changed t th p s) = objs s"
  by (rule more_objs) simp

lemma prio_changed_threads:
  "threads s t = Some th \<Longrightarrow> threads (prio_changed t th p s) = (threads s)(t \<mapsto> with_prio p th)"
  by (auto simp: prio_changed_def readied_def unreadied_def with_prio_def fun_eq_iff)

lemma prio_changed_ok:
  assumes q: "kernel_quiet s" and t: "threads s t = Some th" and p: "unat p < 32"
  shows "rt_thread_control t (RT_THREAD_CTRL_CHANGE_PRIORITY p) s = Some (RT_EOK, prio_changed t th p s)"
    "kernel_quiet (prio_changed t th p s)" "other_frame i s (prio_changed t th p s)"
  using change_priority_eq [OF kernel_quietD(5) [OF q] t p] prio_changed_quiet [OF q t p]
    wait_other_frame [OF wait_frame_change_priority, of t p s] by simp_all

lemma mutex_ok_cong:
  assumes "mutex_ok s i m" "lists s' (Suspend i) = lists s (Suspend i)" "lists s' (SuspendSender i) = lists s (SuspendSender i)"
  shows "mutex_ok s' i m"
  using assms by (simp add: mutex_ok_def split: option.splits)

lemma mutex_ok_upd [simp]: "mutex_ok (upd_thread t f s) i m = mutex_ok s i m"
  by (simp add: mutex_ok_def split: option.splits)

lemma thread_prio_lt: "kernel_quiet s \<Longrightarrow> threads s t = Some th \<Longrightarrow> unat (current_priority th) < 32"
  using sched_invD(4) [OF kernel_quietD(5)] by (auto simp: thread_ok_def prio_of_def)

lemma op_ok_trans: "op_ok i s s' \<Longrightarrow> op_ok i s' s'' \<Longrightarrow> op_ok i s s''"
  by (auto simp: op_ok_def intro: other_frame_trans)

lemma op_ok_put [simp]: "op_ok i s (put_obj i ob s') = op_ok i s s'"
proof -
  have a: "other_frame i s (put_obj i ob s') = other_frame i s s'" by (simp add: other_frame_def)
  show ?thesis by (simp add: op_ok_def a)
qed

lemma op_ok_refl: "kernel_quiet s \<Longrightarrow> cur s \<noteq> None \<Longrightarrow> op_ok i s s"
  by (simp add: op_ok_def wait_other_frame)

lemma clear_error_op:
  assumes q: "kernel_quiet s" and r: "runs s t th"
  shows "op_ok i s (upd_thread t (\<lambda>th. th\<lparr>th_error := e\<rparr>) s)"
  using clear_error(1,3) [OF q r] runsD(1) [OF r] by (simp add: op_ok_def)

section \<open>Taking\<close>

lemma mutex_take_now:
  assumes q: "kernel_quiet s" and o: "objs s i = Some (ClassMutex m)" and ok: "mutex_ok s i m"
    and r: "runs s t th" and av: "lock_nest s = 0" "int_nest s = 0" and w: "owner m = None"
  defines "s' \<equiv> put_obj i (ClassMutex (m\<lparr>mx_value := 0, owner := Some t, original_priority := current_priority th, hold := 1\<rparr>))
    (upd_thread t (\<lambda>th. th\<lparr>th_error := RT_EOK\<rparr>) s)"
  shows "rt_mutex_take i time s = Some (Ret RT_EOK, s')" and "mutex_op i s s'"
proof -
  show "rt_mutex_take i time s = Some (Ret RT_EOK, s')"
    using o ok av w runsD [OF r]
    by (simp add: rt_mutex_take_def get_mutex_def rt_thread_self_def mutex_ok_def s'_def RT_MUTEX_HOLD_MAX_def)
  have "op_ok i s s'" using clear_error_op [OF q r] by (simp add: s'_def)
  then show "mutex_op i s s'"
    using ok w thread_prio_lt [OF q runsD(2) [OF r]] by (simp add: mutex_op_def mutex_ok_def s'_def)
qed

lemma mutex_take_again:
  assumes q: "kernel_quiet s" and o: "objs s i = Some (ClassMutex m)" and ok: "mutex_ok s i m"
    and r: "runs s t th" and av: "lock_nest s = 0" "int_nest s = 0" and w: "owner m = Some t"
  defines "s0 \<equiv> upd_thread t (\<lambda>th. th\<lparr>th_error := RT_EOK\<rparr>) s"
  shows "rt_mutex_take i time s = Some (if hold m < 0xff
      then (Ret RT_EOK, put_obj i (ClassMutex (m\<lparr>hold := hold m + 1\<rparr>)) s0) else (Ret E_FULL, s0))"
    and "hold m < 0xff \<Longrightarrow> mutex_op i s (put_obj i (ClassMutex (m\<lparr>hold := hold m + 1\<rparr>)) s0)" and "mutex_op i s s0"
proof -
  show "rt_mutex_take i time s = Some (if hold m < 0xff
      then (Ret RT_EOK, put_obj i (ClassMutex (m\<lparr>hold := hold m + 1\<rparr>)) s0) else (Ret E_FULL, s0))"
    using o av w runsD [OF r]
    by (simp add: rt_mutex_take_def get_mutex_def rt_thread_self_def s0_def RT_MUTEX_HOLD_MAX_def)
  have op: "op_ok i s s0" using clear_error_op [OF q r] by (simp add: s0_def)
  have "0 < hold m + 1" if "hold m < 0xff"
    using that by (simp add: word_less_nat_alt unat_word_ariths)
  then show "hold m < 0xff \<Longrightarrow> mutex_op i s (put_obj i (ClassMutex (m\<lparr>hold := hold m + 1\<rparr>)) s0)"
    using op ok w by (simp add: mutex_op_def mutex_ok_def s0_def)
  show "mutex_op i s s0" using op ok o by (simp add: mutex_op_def s0_def)
qed

lemma mutex_take_poll:
  assumes q: "kernel_quiet s" and o: "objs s i = Some (ClassMutex m)" and ok: "mutex_ok s i m"
    and r: "runs s t th" and av: "lock_nest s = 0" "int_nest s = 0" and w: "owner m = Some ow" "ow \<noteq> t"
  shows "rt_mutex_take i 0 s = Some (Ret E_TIMEOUT, upd_thread t (\<lambda>th. th\<lparr>th_error := E_TIMEOUT\<rparr>) s)"
    "mutex_op i s (upd_thread t (\<lambda>th. th\<lparr>th_error := E_TIMEOUT\<rparr>) s)"
proof -
  have "upd_thread t (\<lambda>th. th\<lparr>th_error := E_TIMEOUT\<rparr>) (upd_thread t (\<lambda>th. th\<lparr>th_error := RT_EOK\<rparr>) s) =
      upd_thread t (\<lambda>th. th\<lparr>th_error := E_TIMEOUT\<rparr>) s"
    using runsD(2) [OF r] by (simp add: upd_thread_def)
  then show "rt_mutex_take i 0 s = Some (Ret E_TIMEOUT, upd_thread t (\<lambda>th. th\<lparr>th_error := E_TIMEOUT\<rparr>) s)"
    using o ok av w runsD [OF r] by (simp add: rt_mutex_take_def get_mutex_def rt_thread_self_def mutex_ok_def)
  show "mutex_op i s (upd_thread t (\<lambda>th. th\<lparr>th_error := E_TIMEOUT\<rparr>) s)"
    using clear_error_op [OF q r] ok o by (simp add: mutex_op_def)
qed

text \<open>The inheritance step of a blocking take.\<close>

definition inherit :: "u8 \<Rightarrow> nat \<Rightarrow> rt_thread \<Rightarrow> 'z ipc_scheme \<Rightarrow> 'z ipc_scheme" where
  "inherit p ow oth s = (if p < current_priority oth then prio_changed ow oth p s else s)"

lemma inherit_sel [simp]:
  "cur (inherit p ow oth s) = cur s" "objs (inherit p ow oth s) = objs s" "rt_tick (inherit p ow oth s) = rt_tick s"
  by (simp_all add: inherit_def)

lemma inherit_threads:
  "threads s ow = Some oth \<Longrightarrow>
   threads (inherit p ow oth s) = (threads s)(ow \<mapsto> if p < current_priority oth then with_prio p oth else oth)"
  by (auto simp: inherit_def prio_changed_threads fun_eq_iff)

lemma inherit_ok:
  assumes q: "kernel_quiet s" and ow: "threads s ow = Some oth" and p: "unat p < 32"
  shows "(if p < current_priority oth then map_option snd (rt_thread_control ow (RT_THREAD_CTRL_CHANGE_PRIORITY p) s)
      else Some s) = Some (inherit p ow oth s)"
    "kernel_quiet (inherit p ow oth s)" "other_frame i s (inherit p ow oth s)"
    "is_wait l \<Longrightarrow> lists (inherit p ow oth s) l = lists s l"
  using prio_changed_ok [OF q ow p] q prio_changed_wait [OF kernel_quietD(5) [OF q] ow]
  by (simp_all add: inherit_def wait_other_frame)

lemma mutex_take_block:
  assumes q: "kernel_quiet s" and o: "objs s i = Some (ClassMutex m)" and ok: "mutex_ok s i m"
    and r: "runs s t th" and av: "lock_nest s = 0" "int_nest s = 0"
    and w: "owner m = Some ow" "ow \<noteq> t" "threads s ow = Some oth" and tm: "time \<noteq> 0" "time_ok time"
  shows "\<exists>s' th' oth'. rt_mutex_take i time s = Some (Blocked, s') \<and> mutex_op i s s' \<and> objs s' = objs s \<and>
    set (lists s' (Suspend i)) = insert t (set (lists s (Suspend i))) \<and>
    threads s' t = Some th' \<and> stat th' = RT_THREAD_SUSPEND \<and> th_error th' = RT_EOK \<and>
    threads s' ow = Some oth' \<and> current_priority oth' = min (current_priority th) (current_priority oth) \<and>
    lists s' (Suspend i) = queued (io_flag m) s' t (current_priority th) (lists s (Suspend i)) \<and>
    (\<forall>l. is_wait l \<longrightarrow> l \<noteq> Suspend i \<longrightarrow> lists s' l = lists s l) \<and>
    (0 < sint time \<longrightarrow> (\<exists>tm. timers s' (ThreadTimer t) = Some tm \<and> tm_active tm \<and> timeout_tick tm = rt_tick s + time))"
proof -
  let ?u = "upd_thread t (\<lambda>th. th\<lparr>th_error := RT_EOK\<rparr>) s" and ?th = "th\<lparr>th_error := RT_EOK\<rparr>"
  note u = clear_error [OF q r, where e = RT_EOK]
  have ow: "threads ?u ow = Some oth" using w by simp
  let ?p = "current_priority th"
  note h = inherit_ok [OF u(1) ow thread_prio_lt [OF q runsD(2) [OF r]]]
  let ?v = "inherit ?p ow oth ?u"
  have rv: "runs ?v t ?th" using u(2) w ow by (simp add: runs_def inherit_threads)
  have f: "flag_ok (io_flag m)" using ok by (simp add: mutex_ok_def flag_ok_def)
  obtain s' where s': "ipc_block (Suspend i) t (io_flag m) time ?v = Some s'" "op_ok i ?v s'" "objs s' = objs ?v"
    "lists s' (Suspend i) = queued (io_flag m) ?v t (current_priority ?th) (lists ?v (Suspend i))"
    "\<forall>l'. is_wait l' \<longrightarrow> l' \<noteq> Suspend i \<longrightarrow> lists s' l' = lists ?v l'"
    "\<forall>x. rel_option same_thread (((threads ?v)(t \<mapsto> ?th\<lparr>stat := RT_THREAD_SUSPEND\<rparr>)) x) (threads s' x)"
    using block_op [OF h(2) rv disjI1 [OF refl] f tm(2)] by blast
  have op: "op_ok i s s'"
    using s'(2) other_frame_trans [OF u(3) other_frame_trans [OF h(3)]] by (auto simp: op_ok_def)
  have e: "rt_mutex_take i time s = Some (Blocked, s')"
    using o w tm s'(1) runsD [OF r] av ok h(1) by (simp add: rt_mutex_take_def get_mutex_def rt_thread_self_def mutex_ok_def Let_def)
  obtain th' where th': "threads s' t = Some th'" "stat th' = RT_THREAD_SUSPEND" "th_error th' = RT_EOK"
    using waits_for_result [OF s'(6)] by blast
  have "rel_option same_thread (((threads ?v)(t \<mapsto> ?th\<lparr>stat := RT_THREAD_SUSPEND\<rparr>)) ow) (threads s' ow)" using s'(6) by blast
  then have "rel_option same_thread (Some (if current_priority th < current_priority oth
      then with_prio (current_priority th) oth else oth)) (threads s' ow)"
    using w ow by (simp add: inherit_threads)
  then obtain oth' where oth': "threads s' ow = Some oth'"
      "same_thread (if current_priority th < current_priority oth then with_prio (current_priority th) oth else oth) oth'"
    by (auto simp: option_rel_Some1)
  have "current_priority oth' = min (current_priority th) (current_priority oth)"
    using oth'(2) unfolding same_thread_def with_prio_def min_def
    by (auto dest: arg_cong [where f = current_priority] split: if_splits)
  moreover have "mutex_ok s' i m"
    using ok w s'(4,5) h(4) by (simp add: mutex_ok_def)
  moreover have "set (lists s' (Suspend i)) = insert t (set (lists s (Suspend i)))" using s'(4) h(4) by simp
  moreover have "lists s' (Suspend i) = queued (io_flag m) s' t (current_priority th) (lists s (Suspend i))"
  proof -
    have "prio_at s' x = prio_at ?v x" for x
      using prio_at_frame [OF s'(6), of x] runsD(2) [OF rv] by (simp add: prio_at_def split: option.split)
    then have "prio_at s' = prio_at ?v" by blast
    then have "queued (io_flag m) s' t p ws = queued (io_flag m) ?v t p ws" for p ws by (simp add: queued_def)
    then show ?thesis using s'(4) h(4) by simp
  qed
  moreover have "lists s' l = lists s l" if "is_wait l" "l \<noteq> Suspend i" for l using s'(5) h(4) [of l] that by simp
  moreover have "\<exists>tm. timers s' (ThreadTimer t) = Some tm \<and> tm_active tm \<and> timeout_tick tm = rt_tick s + time" if "0 < sint time"
    using block_timer [OF h(2) rv _ f tm(2) that s'(1)] by simp
  ultimately show ?thesis
    using e op s'(3) o th' oth'(1)
    by (intro exI [of _ s'] exI [of _ th'] exI [of _ oth']) (simp add: mutex_op_def)
qed

section \<open>Releasing\<close>

definition restored :: "nat \<Rightarrow> rt_thread \<Rightarrow> u8 \<Rightarrow> 'z ipc_scheme \<Rightarrow> 'z ipc_scheme" where
  "restored t th p s = (if p \<noteq> current_priority th then prio_changed t th p s else s)"

lemma restored_sel [simp]:
  "cur (restored t th p s) = cur s" "objs (restored t th p s) = objs s"
  by (simp_all add: restored_def)

lemma restored_threads:
  "threads s t = Some th \<Longrightarrow>
   threads (restored t th p s) = (threads s)(t \<mapsto> if p \<noteq> current_priority th then with_prio p th else th)"
  by (auto simp: restored_def prio_changed_threads fun_eq_iff)

lemma restored_ok:
  assumes q: "kernel_quiet s" and t: "threads s t = Some th" and p: "unat p < 32"
  shows "(if p \<noteq> current_priority th then map_option snd (rt_thread_control t (RT_THREAD_CTRL_CHANGE_PRIORITY p) s)
      else Some s) = Some (restored t th p s)"
    "kernel_quiet (restored t th p s)" "other_frame i s (restored t th p s)"
    "is_wait l \<Longrightarrow> lists (restored t th p s) l = lists s l"
  using prio_changed_ok [OF q t p] q prio_changed_wait [OF kernel_quietD(5) [OF q] t]
  by (simp_all add: restored_def wait_other_frame)

lemma in_thread_context:
  "cur s = Some c \<Longrightarrow> int_nest s = 0 \<Longrightarrow> debug_in_thread_context s = Some ()"
  by (simp add: debug_in_thread_context_def debug_not_in_interrupt_def rt_thread_self_def rt_interrupt_get_nest_def)

lemma mutex_release_foreign:
  assumes q: "kernel_quiet s" and o: "objs s i = Some (ClassMutex m)" and ok: "mutex_ok s i m"
    and r: "runs s t th" and av: "int_nest s = 0" and w: "owner m \<noteq> Some t"
  shows "rt_mutex_release i s = Some (E_ERROR, upd_thread t (\<lambda>th. th\<lparr>th_error := E_ERROR\<rparr>) s)"
    "mutex_op i s (upd_thread t (\<lambda>th. th\<lparr>th_error := E_ERROR\<rparr>) s)"
  using o ok w runsD [OF r] clear_error_op [OF q r] in_thread_context [OF _ av]
  by (simp_all add: rt_mutex_release_def get_mutex_def rt_thread_self_def mutex_op_def)

lemma mutex_release_nested:
  assumes q: "kernel_quiet s" and o: "objs s i = Some (ClassMutex m)" and ok: "mutex_ok s i m"
    and r: "runs s t th" and av: "int_nest s = 0" and w: "owner m = Some t" and h: "hold m \<noteq> 1"
  shows "rt_mutex_release i s = Some (RT_EOK, put_obj i (ClassMutex (m\<lparr>hold := hold m - 1\<rparr>)) s)"
    "mutex_op i s (put_obj i (ClassMutex (m\<lparr>hold := hold m - 1\<rparr>)) s)"
proof -
  have n: "hold m - 1 \<noteq> 0" using h by simp
  then show "rt_mutex_release i s = Some (RT_EOK, put_obj i (ClassMutex (m\<lparr>hold := hold m - 1\<rparr>)) s)"
    using o w runsD [OF r] in_thread_context [OF _ av]
    by (simp add: rt_mutex_release_def get_mutex_def rt_thread_self_def)
  have "0 < hold m - 1" using n by (simp add: word_gt_0)
  then show "mutex_op i s (put_obj i (ClassMutex (m\<lparr>hold := hold m - 1\<rparr>)) s)"
    using ok w op_ok_refl [OF q, of i] runsD [OF r] by (simp add: mutex_op_def mutex_ok_def)
qed

lemma mutex_release_free:
  assumes q: "kernel_quiet s" and o: "objs s i = Some (ClassMutex m)" and ok: "mutex_ok s i m"
    and r: "runs s t th" and av: "int_nest s = 0" and w: "owner m = Some t" and h: "hold m = 1"
    and n: "lists s (Suspend i) = []"
  defines "s' \<equiv> put_obj i (ClassMutex (m\<lparr>hold := 0, mx_value := 1, owner := None, original_priority := 0xff\<rparr>))
    (restored t th (original_priority m) s)"
  shows "rt_mutex_release i s = Some (RT_EOK, s')" and "mutex_op i s s'"
proof -
  have p: "unat (original_priority m) < 32" and v: "mx_value m = 0" using ok w by (simp_all add: mutex_ok_def)
  note R = restored_ok [OF q runsD(2) [OF r] p]
  show "rt_mutex_release i s = Some (RT_EOK, s')"
    using o w h n v runsD [OF r] in_thread_context [OF _ av] R(1,4)
    by (simp add: rt_mutex_release_def get_mutex_def rt_thread_self_def RT_MUTEX_VALUE_MAX_def s'_def Let_def del: not_None_eq cong: if_cong)
  have "op_ok i s (restored t th (original_priority m) s)" using R(2,3) runsD [OF r] by (simp add: op_ok_def)
  then show "mutex_op i s s'" using ok n R(4) w by (simp add: mutex_op_def mutex_ok_def s'_def)
qed

lemma mutex_release_handover:
  assumes q: "kernel_quiet s" and o: "objs s i = Some (ClassMutex m)" and ok: "mutex_ok s i m"
    and r: "runs s t th" and av: "int_nest s = 0" and w: "owner m = Some t" and h: "hold m = 1"
    and n: "lists s (Suspend i) = x # xs"
  shows "\<exists>s' xth. rt_mutex_release i s = Some (RT_EOK, s') \<and> mutex_op i s s' \<and> threads s x = Some xth \<and> x \<noteq> t \<and>
    objs s' i = Some (ClassMutex (m\<lparr>owner := Some x, original_priority := current_priority xth, hold := 1\<rparr>)) \<and>
    lists s' (Suspend i) = xs \<and>
    sched_frame (woken x xth (put_obj i (ClassMutex (m\<lparr>owner := Some x, original_priority := current_priority xth, hold := 1\<rparr>))
      (restored t th (original_priority m) s))) s'"
proof -
  have p: "unat (original_priority m) < 32" and v: "mx_value m = 0" using ok w by (simp_all add: mutex_ok_def)
  note R = restored_ok [OF q runsD(2) [OF r] p]
  let ?s1 = "restored t th (original_priority m) s"
  have n1: "lists ?s1 (Suspend i) = x # xs" using n R(4) by simp
  obtain xth where x: "threads ?s1 x = Some xth" "stat xth = RT_THREAD_SUSPEND"
    using waiting_thread [OF R(2), of x "Suspend i"] n1 by auto
  have ne: "x \<noteq> t"
  proof
    assume "x = t"
    then have "stat xth = RT_THREAD_RUNNING" using x(1) runsD [OF r] by (auto simp: restored_threads split: if_splits)
    then show False using x(2) by simp
  qed
  have xs: "threads s x = Some xth" using x(1) ne runsD [OF r] by (simp add: restored_threads)
  let ?m = "m\<lparr>owner := Some x, original_priority := current_priority xth, hold := 1\<rparr>"
  let ?s2 = "put_obj i (ClassMutex ?m) ?s1"
  have q2: "kernel_quiet ?s2" "lists ?s2 (Suspend i) = x # xs" "threads ?s2 x = Some xth" using R(2) n1 x(1) by simp_all
  have k: "ipc_list_resume (Suspend i) ?s2 = Some (woken x xth ?s2)" "kernel_quiet (woken x xth ?s2)"
    using list_resume_quiet [OF q2(1) _ q2(2)] q2(3) by auto
  have "other_frame i s ?s2" using other_frame_trans [OF R(3) [where i = i], of ?s2] by simp
  then have of: "other_frame i s (woken x xth ?s2)"
    using woken_other_frame [OF q2(3) same_wait_simps(1)] by (rule other_frame_trans)
  obtain s' where s': "rt_schedule (woken x xth ?s2) = Some s'" "op_ok i s s'" "sched_frame (woken x xth ?s2) s'"
    using op_ok_schedule [OF k(2) _ of] runsD [OF r] by auto
  have e: "rt_mutex_release i s = Some (RT_EOK, s')"
    using o w h n1 v runsD [OF r] in_thread_context [OF _ av] R(1) x(1) k(1) s'(1)
    by (simp add: rt_mutex_release_def get_mutex_def rt_thread_self_def RT_MUTEX_HOLD_MAX_def Let_def del: not_None_eq cong: if_cong)
  have ob: "objs s' i = Some (ClassMutex ?m)" using frame_objs [OF s'(3)] by simp
  have l: "lists s' (Suspend i) = xs" using frame_sel [OF s'(3), of "Suspend i"] n1 by simp
  have "lists s' (SuspendSender i) = []"
    using frame_sel [OF s'(3), of "SuspendSender i"] R(4) [of "SuspendSender i"] ok by (simp add: mutex_ok_def)
  then have "mutex_ok s' i ?m"
    using ok v thread_prio_lt [OF q xs] by (simp add: mutex_ok_def)
  then show ?thesis using e s'(2,3) ob l xs ne by (intro exI [of _ s'] exI [of _ xth]) (simp add: mutex_op_def)
qed

section \<open>Creation and removal\<close>

lemma mutex_init_ok:
  assumes q: "kernel_quiet s" and c: "cur s \<noteq> None" and n: "objs s i = None" "lists s (Suspend i) = []" "lists s (SuspendSender i) = []"
  shows "rt_mutex_init i flag s = Some (e, s') \<Longrightarrow> mutex_op i s s'"
    "rt_mutex_create (Some i) flag s = Some (ob, s') \<Longrightarrow> mutex_op i s s'"
proof -
  have "mutex_op i s (put_obj i (ClassMutex (new_mutex b)) s)" for b
    using n op_ok_refl [OF q c] by (simp add: mutex_op_def mutex_ok_def new_mutex_def)
  then show "rt_mutex_init i flag s = Some (e, s') \<Longrightarrow> mutex_op i s s'"
    "rt_mutex_create (Some i) flag s = Some (ob, s') \<Longrightarrow> mutex_op i s s'"
    using n by (auto simp: rt_mutex_init_def rt_mutex_create_def ipc_object_init_idle Let_def elim!: bind_SomeE)
qed

lemma mutex_remove_ok:
  assumes q: "kernel_quiet s" and c: "cur s \<noteq> None" and ok: "mutex_ok s i m"
  shows "rt_mutex_detach i s = Some (e, s') \<Longrightarrow> gone i s s'" "rt_mutex_delete i s = Some (e, s') \<Longrightarrow> gone i s s'"
  using drop_gone [OF q c, of i] ok
  by (auto simp: rt_mutex_detach_def rt_mutex_delete_def mutex_ok_def elim!: bind_SomeE)

section \<open>Properties\<close>

text \<open>
  C11: \<open>rt_mutex_take\<close> by the running thread, on every branch: a free mutex is taken with a hold of 1
  and the caller's priority recorded; the owner takes it again up to a hold of 255, then gets the
  full error; with no time to wait the call returns the timeout error, and in all these cases no list changes. Otherwise the
  caller is suspended in the mutex's list, behind the waiters of its priority and above, its timer is armed if the
  time is limited, the owner stays, and the owner's priority is the higher one of its own and the caller's.
\<close>

theorem mutex_take_branches:
  assumes "kernel_quiet s" and "objs s i = Some (ClassMutex m)" and "mutex_ok s i m" and "runs s c th"
    and "lock_nest s = 0" and "int_nest s = 0" and "time_ok time"
    and "\<forall>ow. owner m = Some ow \<longrightarrow> threads s ow \<noteq> None"
  shows "\<exists>r s'. rt_mutex_take i time s = Some (r, s') \<and> kernel_quiet s' \<and>
    (\<exists>m'. objs s' i = Some (ClassMutex m') \<and> mutex_ok s' i m' \<and>
      (case owner m of
         None \<Rightarrow> r = Ret RT_EOK \<and> lists s' = lists s \<and>
           owner m' = Some c \<and> hold m' = 1 \<and> original_priority m' = current_priority th
       | Some ow \<Rightarrow>
           if ow = c then lists s' = lists s \<and>
             (if hold m < 0xff then r = Ret RT_EOK \<and> m' = m\<lparr>hold := hold m + 1\<rparr> else r = Ret E_FULL \<and> m' = m)
           else m' = m \<and> (if time = 0 then r = Ret E_TIMEOUT \<and> lists s' = lists s
             else r = Blocked \<and> 
               lists s' (Suspend i) = ipc_row_insert (prio_at s') c (current_priority th) (lists s (Suspend i)) \<and>
               (\<forall>l. is_wait l \<longrightarrow> l \<noteq> Suspend i \<longrightarrow> lists s' l = lists s l) \<and>
               (\<exists>th'. threads s' c = Some th' \<and> stat th' = RT_THREAD_SUSPEND \<and> th_error th' = RT_EOK) \<and>
               (0 < sint time \<longrightarrow>
                 (\<exists>tm. timers s' (ThreadTimer c) = Some tm \<and> tm_active tm \<and> timeout_tick tm = rt_tick s + time)) \<and>
               (\<exists>oth oth'. threads s ow = Some oth \<and> threads s' ow = Some oth' \<and>
                 current_priority oth' = min (current_priority th) (current_priority oth)))))"
proof (cases "owner m")
  case None
  from mutex_take_now(1) [OF assms(1-6) None, of time] mutex_take_now(2) [OF assms(1-6) None] assms(2) None show ?thesis
    by (auto simp: mutex_op_def op_ok_def)
next
  case (Some ow)
  consider "ow = c" | "ow \<noteq> c" "time = 0" | "ow \<noteq> c" "time \<noteq> 0" by blast
  then show ?thesis
  proof cases
    case 1
    have w: "owner m = Some c" using Some 1 by simp
    from mutex_take_again(1) [OF assms(1-6) w, of time] mutex_take_again(2,3) [OF assms(1-6) w] Some 1 assms(2)
    show ?thesis by (cases "hold m < 0xff") (auto simp: mutex_op_def op_ok_def)
  next
    case 2
    from mutex_take_poll [OF assms(1-6) Some 2(1)] Some 2 assms(2) show ?thesis
      by (auto simp: mutex_op_def op_ok_def)
  next
    case 3
    obtain oth where ow: "threads s ow = Some oth" using assms(8) Some by blast
    have q: "queued (io_flag m) s' c p ws = ipc_row_insert (prio_at s') c p ws" for s' :: "'a ipc_scheme" and p ws
      using assms(3) by (simp add: queued_def mutex_ok_def RT_IPC_FLAG_PRIO_def RT_IPC_FLAG_FIFO_def)
    from mutex_take_block [OF assms(1-6) Some 3(1) ow 3(2) assms(7)]
    obtain s' th' oth' where b: "rt_mutex_take i time s = Some (Blocked, s')" "mutex_op i s s'" "objs s' = objs s"
      "threads s' c = Some th'" "stat th' = RT_THREAD_SUSPEND" "th_error th' = RT_EOK"
      "threads s' ow = Some oth'" "current_priority oth' = min (current_priority th) (current_priority oth)"
      "lists s' (Suspend i) = queued (io_flag m) s' c (current_priority th) (lists s (Suspend i))"
      "\<forall>l. is_wait l \<longrightarrow> l \<noteq> Suspend i \<longrightarrow> lists s' l = lists s l"
      "0 < sint time \<longrightarrow> (\<exists>tm. timers s' (ThreadTimer c) = Some tm \<and> tm_active tm \<and> timeout_tick tm = rt_tick s + time)" by blast
    have "kernel_quiet s'" "mutex_ok s' i m" using b(2,3) assms(2) by (simp_all add: mutex_op_def op_ok_def)
    then show ?thesis using Some 3 assms(2) b(1,3-11) ow
      by (intro exI [of _ Blocked] exI [of _ s'] conjI exI [of _ m]) (simp_all add: q)
  qed
qed

text \<open>The idle thread 4, of priority 31, holds the mutex; thread 1 waits for at most 7 ticks.\<close>

theorem mutex_take_branches_witness:
  "\<exists>s'. rt_mutex_take 12 7 ex_ipc = Some (Blocked, s') \<and> lists s' (Suspend 12) = [1] \<and>
     (\<exists>oth'. threads s' 4 = Some oth' \<and> current_priority oth' = 5) \<and>
     (\<exists>tm. timers s' (ThreadTimer 1) = Some tm \<and> tm_active tm \<and> timeout_tick tm = rt_tick ex_ipc + 7)"
proof -
  let ?m = "\<lparr>io_static = True, io_flag = 1, mx_value = 0, original_priority = 31, hold = 1, owner = Some 4\<rparr> :: rt_mutex"
  have "mutex_ok ex_ipc 12 ?m" "\<forall>ow. owner ?m = Some ow \<longrightarrow> threads ex_ipc ow \<noteq> None"
    by (simp_all add: mutex_ok_def RT_IPC_FLAG_PRIO_def ex_ipc_lists ex_kernel_sel ex_sched_def del: ex_ipc_sel(2))
  note b = mutex_take_branches [OF ex_ipc_quiet ex_ipc_objs(4) this(1) ex_ipc_runs _ _ _ this(2), of 7]
  have "lists ex_ipc (Suspend 12) = []" by (simp add: ex_ipc_lists del: ex_ipc_sel(2))
  then show ?thesis using b by (auto simp: time_ok_def ex_kernel_sel ex_sched_def simp del: ex_ipc_sel(2))
qed

text \<open>
  C12: \<open>rt_mutex_release\<close> on every branch: only the owner may release (another thread gets the error and
  changes nothing but its error code); a nested release counts down; the last one restores the recorded
  priority and frees the mutex, or hands it to the first waiter, which becomes its owner with a hold of 1,
  runnable and without an error.
\<close>

theorem mutex_release_branches:
  assumes "kernel_quiet s" and "objs s i = Some (ClassMutex m)" and "mutex_ok s i m" and "runs s c th"
    and "int_nest s = 0"
  shows "\<exists>r s' m' th'. rt_mutex_release i s = Some (r, s') \<and> kernel_quiet s' \<and>
    objs s' i = Some (ClassMutex m') \<and> mutex_ok s' i m' \<and> threads s' c = Some th' \<and>
    (if owner m \<noteq> Some c then r = E_ERROR \<and> m' = m \<and> lists s' = lists s
     else r = RT_EOK \<and>
       (if hold m \<noteq> 1 then m' = m\<lparr>hold := hold m - 1\<rparr> \<and> th' = th
        else current_priority th' = original_priority m \<and>
          (case lists s (Suspend i) of
             [] \<Rightarrow> owner m' = None \<and> hold m' = 0 \<and> mx_value m' = 1
           | x # xs \<Rightarrow> owner m' = Some x \<and> hold m' = 1 \<and> lists s' (Suspend i) = xs \<and>
               (\<exists>xth xth'. threads s x = Some xth \<and> threads s' x = Some xth' \<and> runnable (stat xth') \<and>
                  th_error xth' = th_error xth \<and> original_priority m' = current_priority xth))))"
proof -
  note R = runsD [OF assms(4)]
  consider "owner m \<noteq> Some c" | "owner m = Some c" "hold m \<noteq> 1" | "owner m = Some c" "hold m = 1" "lists s (Suspend i) = []"
    | x xs where "owner m = Some c" "hold m = 1" "lists s (Suspend i) = x # xs"
    by (cases "lists s (Suspend i)") auto
  then show ?thesis
  proof cases
    case 1
    from mutex_release_foreign [OF assms 1] 1 assms(2) R show ?thesis
      by (intro exI [of _ E_ERROR] exI [of _ "upd_thread c (\<lambda>th. th\<lparr>th_error := E_ERROR\<rparr>) s"]) (auto simp: mutex_op_def op_ok_def)
  next
    case 2
    from mutex_release_nested [OF assms 2] 2 R show ?thesis by (auto simp: mutex_op_def op_ok_def)
  next
    case 3
    let ?m = "m\<lparr>hold := 0, mx_value := 1, owner := None, original_priority := 0xff\<rparr>"
    from mutex_release_free [OF assms 3]
    show ?thesis using 3 R
      by (intro exI [of _ RT_EOK] exI [of _ "put_obj i (ClassMutex ?m) (restored c th (original_priority m) s)"]
          exI [of _ ?m] exI [of _ "if original_priority m \<noteq> current_priority th then with_prio (original_priority m) th else th"])
        (auto simp: mutex_op_def op_ok_def restored_threads with_prio_def)
  next
    case 4
    from mutex_release_handover [OF assms 4] obtain s' xth where s': "rt_mutex_release i s = Some (RT_EOK, s')"
      "mutex_op i s s'" "threads s x = Some xth" "x \<noteq> c"
      "objs s' i = Some (ClassMutex (m\<lparr>owner := Some x, original_priority := current_priority xth, hold := 1\<rparr>))"
      "lists s' (Suspend i) = xs"
      "sched_frame (woken x xth (put_obj i (ClassMutex (m\<lparr>owner := Some x, original_priority := current_priority xth, hold := 1\<rparr>))
        (restored c th (original_priority m) s))) s'" by blast
    have fr: "rel_option same_thread (threads (woken x xth (put_obj i (ClassMutex (m\<lparr>owner := Some x, original_priority := current_priority xth, hold := 1\<rparr>))
        (restored c th (original_priority m) s))) y) (threads s' y)" for y
      using s'(7) by (simp add: sched_frame_def)
    obtain th' where th': "threads s' c = Some th'" "current_priority th' = original_priority m"
    proof -
      have "rel_option same_thread (Some (if original_priority m \<noteq> current_priority th then with_prio (original_priority m) th else th)) (threads s' c)"
        using fr [of c] s'(4) R by (simp add: restored_threads)
      then obtain th' where "threads s' c = Some th'"
        "same_thread (if original_priority m \<noteq> current_priority th then with_prio (original_priority m) th else th) th'"
        by (auto simp: option_rel_Some1)
      then show thesis
        using that unfolding same_thread_def with_prio_def
        by (auto dest: arg_cong [where f = current_priority] split: if_splits)
    qed
    obtain xth' where x': "threads s' x = Some xth'" "runnable (stat xth')" "th_error xth' = th_error xth"
    proof -
      have "rel_option same_thread (Some (to_run (put_obj i (ClassMutex (m\<lparr>owner := Some x, original_priority := current_priority xth, hold := 1\<rparr>))
        (restored c th (original_priority m) s)) x xth)) (threads s' x)" using fr [of x] by simp
      then obtain xth' where y: "threads s' x = Some xth'" "same_thread (to_run (put_obj i (ClassMutex
          (m\<lparr>owner := Some x, original_priority := current_priority xth, hold := 1\<rparr>)) (restored c th (original_priority m) s)) x xth) xth'"
        by (auto simp: option_rel_Some1)
      have "runnable (stat xth')" "th_error xth' = th_error xth"
        using y(2) to_run_sel(6) unfolding same_thread_def by (auto dest: arg_cong [where f = th_error])
      then show thesis using that y(1) by blast
    qed
    show ?thesis
      using 4 s' th' x' by (intro exI [of _ RT_EOK] exI [of _ s']) (auto simp: mutex_op_def op_ok_def)
  qed
qed

theorem mutex_release_branches_witness:
  "\<exists>s' m'. rt_mutex_release 9 (put_obj 9 (ClassMutex \<lparr>io_static = True, io_flag = 1, mx_value = 0, original_priority = 5,
       hold = 1, owner = Some 1\<rparr>) ex_ipc) = Some (RT_EOK, s') \<and>
     objs s' 9 = Some (ClassMutex m') \<and> owner m' = Some 5 \<and> hold m' = 1 \<and> lists s' (Suspend 9) = []"
proof -
  let ?m = "\<lparr>io_static = True, io_flag = 1, mx_value = 0, original_priority = 5, hold = 1, owner = Some 1\<rparr> :: rt_mutex"
  let ?s = "put_obj 9 (ClassMutex ?m) ex_ipc"
  have "mutex_ok ?s 9 ?m" "runs ?s 1 (ex_thread RT_THREAD_RUNNING 5)" "lists ?s (Suspend 9) = [5]"
    using ex_ipc_runs by (simp_all add: mutex_ok_def RT_IPC_FLAG_PRIO_def ex_ipc_lists runs_def del: ex_ipc_sel(2))
  from mutex_release_branches [OF _ _ this(1,2)] this(3) ex_ipc_quiet show ?thesis by auto
qed

primrec repeat_op :: "nat \<Rightarrow> ('s \<Rightarrow> ('r \<times> 's) option) \<Rightarrow> 's \<Rightarrow> ('r list \<times> 's) option" where
  "repeat_op 0 f s = Some ([], s)"
| "repeat_op (Suc n) f s = do { (r, s1) \<leftarrow> f s; (rs, s2) \<leftarrow> repeat_op n f s1; Some (r # rs, s2) }"

lemma repeat_op_snoc:
  "repeat_op n f x = Some (rs, y) \<Longrightarrow> f y = Some (r, z) \<Longrightarrow> repeat_op (Suc n) f x = Some (rs @ [r], z)"
proof (induction n arbitrary: x rs)
  case (Suc n)
  from Suc.prems(1) obtain r0 x1 rs' where "f x = Some (r0, x1)" "repeat_op n f x1 = Some (rs', y)" "rs = r0 # rs'"
    by (auto elim!: bind_SomeE)
  moreover from this have "repeat_op (Suc n) f x1 = Some (rs' @ [r], z)" using Suc.IH Suc.prems(2) by blast
  ultimately show ?case by (subst repeat_op.simps) (simp del: repeat_op.simps)
qed simp

text \<open>The state of a mutex held \<open>k\<close> times by the running thread.\<close>

definition held :: "nat \<Rightarrow> nat \<Rightarrow> rt_thread \<Rightarrow> rt_mutex \<Rightarrow> nat \<Rightarrow> 'z ipc_scheme \<Rightarrow> 'z ipc_scheme" where
  "held i c th m k s = put_obj i
     (ClassMutex (m\<lparr>mx_value := 0, owner := Some c, original_priority := current_priority th, hold := of_nat k\<rparr>))
     (upd_thread c (\<lambda>th. th\<lparr>th_error := RT_EOK\<rparr>) s)"

lemma held_take:
  assumes r: "runs s c th" and av: "lock_nest s = 0" "int_nest s = 0" and k: "k < 255"
  shows "rt_mutex_take i time (held i c th m k s) = Some (Ret RT_EOK, held i c th m (Suc k) s)"
proof -
  have "(of_nat k :: u8) < 0xff" using k by (simp add: word_less_nat_alt unat_of_nat)
  moreover have "put_obj i X (upd_thread c (\<lambda>th. th\<lparr>th_error := RT_EOK\<rparr>) (held i c th m k s)) =
      put_obj i X (upd_thread c (\<lambda>th. th\<lparr>th_error := RT_EOK\<rparr>) s)" for X
    using runsD(2) [OF r] by (simp add: held_def put_obj_def upd_thread_def)
  ultimately show ?thesis
    using runsD [OF r] av
    by (simp add: rt_mutex_take_def get_mutex_def rt_thread_self_def RT_MUTEX_HOLD_MAX_def held_def Let_def
        add.commute cong: if_cong)
qed

lemma held_release:
  assumes r: "runs s c th" and av: "int_nest s = 0" and k: "0 < k" "k < 255"
  shows "rt_mutex_release i (held i c th m (Suc k) s) = Some (RT_EOK, held i c th m k s)"
proof -
  have z: "(of_nat k :: u8) \<noteq> 0" using k by (simp add: word_eq_iff_unsigned unat_of_nat unat_eq_nat_uint [symmetric] word_unat_eq_iff)
  have "debug_in_thread_context (held i c th m (Suc k) s) = Some ()"
    using runsD(1) [OF r] av by (intro in_thread_context) (simp_all add: held_def)
  then show ?thesis
    using runsD [OF r] av z
    by (simp add: rt_mutex_release_def get_mutex_def rt_thread_self_def held_def put_obj_def)
qed

lemma held_takes:
  assumes r: "runs s c th" and av: "lock_nest s = 0" "int_nest s = 0"
  shows "k + n \<le> 255 \<Longrightarrow> repeat_op n (rt_mutex_take i time) (held i c th m k s) =
    Some (replicate n (Ret RT_EOK), held i c th m (k + n) s)"
proof (induction n arbitrary: k)
  case (Suc n)
  then show ?case using held_take [OF r av, of k] by simp
qed simp

lemma held_releases:
  assumes r: "runs s c th" and av: "int_nest s = 0"
  shows "n < 255 \<Longrightarrow> repeat_op n (rt_mutex_release i) (held i c th m (Suc n) s) =
    Some (replicate n RT_EOK, held i c th m 1 s)"
proof (induction n)
  case (Suc n)
  then show ?case using held_release [OF r av, of "Suc n"] by simp
qed simp

text \<open>
  A mutex is recursive: taken \<open>n\<close> times (at most 255) by the running thread it is held \<open>n\<close> times,
  every take succeeding; the 256th take gives the full error; and \<open>n\<close> releases free it again, with
  nothing changed but the caller's error code.
\<close>

theorem mutex_recursion:
  assumes "kernel_quiet s" and "objs s i = Some (ClassMutex m)" and "mutex_ok s i m" and "runs s c th"
    and "lock_nest s = 0" and "int_nest s = 0" and "owner m = None" and "n < 255"
  shows "\<exists>s1. repeat_op (Suc n) (rt_mutex_take i time) s = Some (replicate (Suc n) (Ret RT_EOK), s1) \<and>
    objs s1 i = Some (ClassMutex (m\<lparr>mx_value := 0, owner := Some c, original_priority := current_priority th, hold := of_nat (Suc n)\<rparr>)) \<and>
    (n = 254 \<longrightarrow> (\<exists>s'. rt_mutex_take i time s1 = Some (Ret E_FULL, s'))) \<and>
    repeat_op (Suc n) (rt_mutex_release i) s1 = Some (replicate (Suc n) RT_EOK,
      put_obj i (ClassMutex (m\<lparr>original_priority := 0xff\<rparr>)) (upd_thread c (\<lambda>th. th\<lparr>th_error := RT_EOK\<rparr>) s))"
proof -
  note R = runsD [OF assms(4)]
  have m0: "mx_value m = 1" "hold m = 0" "lists s (Suspend i) = []" using assms(3,7) by (simp_all add: mutex_ok_def)
  have t1: "rt_mutex_take i time s = Some (Ret RT_EOK, held i c th m 1 s)"
    using mutex_take_now(1) [OF assms(1-7), of time] by (simp add: held_def)
  have "repeat_op (Suc n) (rt_mutex_take i time) s = Some (replicate (Suc n) (Ret RT_EOK), held i c th m (Suc n) s)"
    using held_takes [OF assms(4-6), of 1 n i time m] assms(8) t1 by simp
  moreover have "n = 254 \<longrightarrow> (\<exists>s'. rt_mutex_take i time (held i c th m (Suc n) s) = Some (Ret E_FULL, s'))"
    using R assms(5,6)
    by (simp add: rt_mutex_take_def get_mutex_def rt_thread_self_def RT_MUTEX_HOLD_MAX_def held_def)
  moreover have last: "rt_mutex_release i (held i c th m 1 s) = Some (RT_EOK,
      put_obj i (ClassMutex (m\<lparr>original_priority := 0xff\<rparr>)) (upd_thread c (\<lambda>th. th\<lparr>th_error := RT_EOK\<rparr>) s))"
  proof -
    have "m\<lparr>hold := 0, mx_value := 1, owner := None, original_priority := 0xff\<rparr> = m\<lparr>original_priority := 0xff\<rparr>"
      using m0 assms(7) by (cases m) simp
    moreover have "debug_in_thread_context (held i c th m 1 s) = Some ()"
      using R assms(6) by (intro in_thread_context) (simp_all add: held_def)
    ultimately show ?thesis
      using R m0 by (simp add: rt_mutex_release_def get_mutex_def rt_thread_self_def held_def RT_MUTEX_VALUE_MAX_def put_obj_def)
  qed
  moreover have "repeat_op (Suc n) (rt_mutex_release i) (held i c th m (Suc n) s) = Some (replicate (Suc n) RT_EOK,
      put_obj i (ClassMutex (m\<lparr>original_priority := 0xff\<rparr>)) (upd_thread c (\<lambda>th. th\<lparr>th_error := RT_EOK\<rparr>) s))"
    using repeat_op_snoc [OF held_releases [OF assms(4,6,8)] last] by (simp add: replicate_append_same)
  ultimately show ?thesis by (intro exI [of _ "held i c th m (Suc n) s"]) (simp add: held_def)
qed

theorem mutex_recursion_witness:
  "\<exists>s1 s2. repeat_op 3 (rt_mutex_take 11 0) ex_ipc = Some ([Ret RT_EOK, Ret RT_EOK, Ret RT_EOK], s1) \<and>
     repeat_op 3 (rt_mutex_release 11) s1 = Some ([RT_EOK, RT_EOK, RT_EOK], s2) \<and>
     objs s2 11 = objs ex_ipc 11"
proof -
  let ?m = "\<lparr>io_static = True, io_flag = 1, mx_value = 1, original_priority = 0xff, hold = 0, owner = None\<rparr> :: rt_mutex"
  have "mutex_ok ex_ipc 11 ?m"
    by (simp add: mutex_ok_def RT_IPC_FLAG_PRIO_def ex_ipc_lists del: ex_ipc_sel(2))
  from mutex_recursion [OF ex_ipc_quiet ex_ipc_objs(3) this ex_ipc_runs, of 2 0]
  obtain s1 where "repeat_op (Suc 2) (rt_mutex_take 11 0) ex_ipc = Some (replicate (Suc 2) (Ret RT_EOK), s1)"
    "repeat_op (Suc 2) (rt_mutex_release 11) s1 = Some (replicate (Suc 2) RT_EOK,
      put_obj 11 (ClassMutex (?m\<lparr>original_priority := 0xff\<rparr>)) (upd_thread 1 (\<lambda>th. th\<lparr>th_error := RT_EOK\<rparr>) ex_ipc))"
    by auto
  then show ?thesis using ex_ipc_objs(3) by (auto simp: numeral_3_eq_3 simp del: repeat_op.simps ex_ipc_sel)
qed

text \<open>
  The recorded priority of a mutex is restored whatever else the thread holds: a thread that owns
  two mutexes, one of them with a waiter of higher priority, runs below that waiter's priority after it
  releases the other mutex, although it still owns the one the waiter waits for.
\<close>

theorem mutex_release_drops_other_boost:
  assumes "kernel_quiet s" and "objs s b = Some (ClassMutex mb)" and "mutex_ok s b mb" and "runs s c th"
    and "int_nest s = 0" and "owner mb = Some c" and "hold mb = 1" and "lists s (Suspend b) = []"
    and "objs s a = Some (ClassMutex ma)" and "owner ma = Some c" and "a \<noteq> b"
    and "x \<in> set (lists s (Suspend a))" and "threads s x = Some xth" and "current_priority xth < original_priority mb"
  shows "\<exists>s' th' xth'. rt_mutex_release b s = Some (RT_EOK, s') \<and> objs s' a = Some (ClassMutex ma) \<and>
    x \<in> set (lists s' (Suspend a)) \<and> threads s' x = Some xth' \<and> threads s' c = Some th' \<and>
    current_priority xth' < current_priority th'"
proof -
  note R = runsD [OF assms(4)]
  have p: "unat (original_priority mb) < 32" using assms(3,6) by (simp add: mutex_ok_def)
  note e = mutex_release_free(1) [OF assms(1-8)]
  have ne: "x \<noteq> c"
    using runs_unlinked [OF kernel_quietD(5) [OF assms(1)] assms(4)] assms(12) by (auto simp: linked_def)
  have "x \<in> set (lists (restored c th (original_priority mb) s) (Suspend a))"
    using restored_ok(4) [OF assms(1) R(2) p, of "Suspend a"] assms(12) by simp
  then show ?thesis
    using e R ne assms(9,11,13,14)
    by (auto simp: restored_threads with_prio_def)
qed

theorem mutex_release_drops_other_boost_witness:
  "\<exists>s s' th' xth'. rt_mutex_release 12 s = Some (RT_EOK, s') \<and> 5 \<in> set (lists s' (Suspend 9)) \<and>
     threads s' 5 = Some xth' \<and> threads (s' :: ipc) 1 = Some th' \<and> current_priority xth' < current_priority th'"
proof -
  let ?a = "\<lparr>io_static = True, io_flag = 1, mx_value = 0, original_priority = 5, hold = 1, owner = Some 1\<rparr> :: rt_mutex"
  let ?s = "put_obj 12 (ClassMutex ?a) (put_obj 9 (ClassMutex ?a) ex_ipc)"
  have "mutex_ok ?s 12 ?a" "runs ?s 1 (ex_thread RT_THREAD_RUNNING 5)" "lists ?s (Suspend 12) = []" "5 \<in> set (lists ?s (Suspend 9))"
    using ex_ipc_runs by (simp_all add: mutex_ok_def RT_IPC_FLAG_PRIO_def ex_ipc_lists runs_def del: ex_ipc_sel(2))
  from mutex_release_drops_other_boost [OF _ _ this(1,2) _ _ _ this(3) _ _ _ this(4), of ?a "ex_thread RT_THREAD_SUSPEND 3"]
  show ?thesis using ex_ipc_quiet by (auto simp: ex_kernel_sel ex_sched_def)
qed

end
