(* ===== verification/Event.thy ===== *)
theory Event
  imports Mutex
begin

text \<open>
  Event sets (rt-thread/src/ipc.c, \<open>rt_event_*\<close>). The invariant is that no waiter's condition holds:
  whoever could be woken has been woken.
\<close>

section \<open>Operations\<close>

definition RT_EVENT_FLAG_AND :: u8 where "RT_EVENT_FLAG_AND = 1"
definition RT_EVENT_FLAG_OR :: u8 where "RT_EVENT_FLAG_OR = 2"
definition RT_EVENT_FLAG_CLEAR :: u8 where "RT_EVENT_FLAG_CLEAR = 4"

definition get_event :: "nat \<Rightarrow> 'z ipc_scheme \<Rightarrow> rt_event option" where
  "get_event i s = (case objs s i of Some (ClassEvent e) \<Rightarrow> Some e | _ \<Rightarrow> None)"

definition rt_event_init :: "nat \<Rightarrow> u8 \<Rightarrow> 'z ipc_scheme \<Rightarrow> (rt_err \<times> 'z ipc_scheme) option" where
  "rt_event_init i flag s = do {
     rt_assert (flag_ok flag);
     rt_assert (objs s i = None);
     let s = ipc_object_init i s;
     Some (RT_EOK, put_obj i (ClassEvent \<lparr>io_static = True, io_flag = flag, ev_set = 0\<rparr>) s) }"

text \<open>The removal is here a call that nothing interrupts; the theory Release has its sections.\<close>

definition rt_event_detach :: "nat \<Rightarrow> 'z ipc_scheme \<Rightarrow> (rt_err \<times> 'z ipc_scheme) option" where
  "rt_event_detach i s = do {
     e \<leftarrow> get_event i s;
     rt_assert (io_static e);
     s \<leftarrow> ipc_list_resume_all (Suspend i) s;
     Some (RT_EOK, drop_obj i s) }"

definition rt_event_create :: "nat option \<Rightarrow> u8 \<Rightarrow> 'z ipc_scheme \<Rightarrow> (nat option \<times> 'z ipc_scheme) option" where
  "rt_event_create obj flag s = do {
     rt_assert (flag_ok flag);
     debug_not_in_interrupt s;
     (case obj of
        None \<Rightarrow> Some (None, s)
      | Some i \<Rightarrow> (let s = ipc_object_init i s
                   in Some (Some i, put_obj i (ClassEvent \<lparr>io_static = False, io_flag = flag, ev_set = 0\<rparr>) s))) }"

definition rt_event_delete :: "nat \<Rightarrow> 'z ipc_scheme \<Rightarrow> (rt_err \<times> 'z ipc_scheme) option" where
  "rt_event_delete i s = do {
     e \<leftarrow> get_event i s;
     rt_assert (\<not> io_static e);
     debug_not_in_interrupt s;
     s \<leftarrow> ipc_list_resume_all (Suspend i) s;
     Some (RT_EOK, drop_obj i s) }"

text \<open>Whether the wanted events are there; \<open>None\<close> for an option that names neither AND nor OR.\<close>

definition event_match :: "u32 \<Rightarrow> u8 \<Rightarrow> u32 \<Rightarrow> bool option" where
  "event_match wanted info ev =
    (if info AND RT_EVENT_FLAG_AND \<noteq> 0 then Some (wanted AND ev = wanted)
     else if info AND RT_EVENT_FLAG_OR \<noteq> 0 then Some (wanted AND ev \<noteq> 0)
     else None)"

text \<open>
  The walk of \<open>rt_event_send\<close> over the waiting threads (each link is read before its thread is resumed):
  the early return, or whether a thread was resumed.
\<close>

fun event_send_loop :: "nat \<Rightarrow> nat list \<Rightarrow> bool \<Rightarrow> 'z ipc_scheme \<Rightarrow> ((rt_err + bool) \<times> 'z ipc_scheme) option" where
  "event_send_loop i [] need s = Some (Inr need, s)"
| "event_send_loop i (t # ts) need s = do {
     th \<leftarrow> threads s t;
     e \<leftarrow> get_event i s;
     (case event_match (event_set th) (event_info th) (ev_set e) of
        None \<Rightarrow> Some (Inl E_INVAL, s)
      | Some False \<Rightarrow> event_send_loop i ts need s
      | Some True \<Rightarrow> do {
          let recved = (if event_info th AND RT_EVENT_FLAG_AND \<noteq> 0 then event_set th else event_set th AND ev_set e);
          let s = upd_thread t (\<lambda>th. th\<lparr>event_set := recved\<rparr>) s;
          let s = (if event_info th AND RT_EVENT_FLAG_CLEAR \<noteq> 0
                   then put_obj i (ClassEvent (e\<lparr>ev_set := ev_set e AND NOT recved\<rparr>)) s else s);
          (_, s) \<leftarrow> rt_thread_resume t s;
          event_send_loop i ts True s }) }"

definition rt_event_send :: "nat \<Rightarrow> u32 \<Rightarrow> 'z ipc_scheme \<Rightarrow> (rt_err \<times> 'z ipc_scheme) option" where
  "rt_event_send i set1 s = do {
     e \<leftarrow> get_event i s;
     (if set1 = 0 then Some (E_ERROR, s)
      else do {
        let s = put_obj i (ClassEvent (e\<lparr>ev_set := ev_set e OR set1\<rparr>)) s;
        (r, s) \<leftarrow> event_send_loop i (lists s (Suspend i)) False s;
        (case r of
           Inl err \<Rightarrow> Some (err, s)
         | Inr need \<Rightarrow> do { s \<leftarrow> (if need then rt_schedule s else Some s); Some (RT_EOK, s) }) }) }"

text \<open>\<open>rt_event_recv\<close>: the error and the events received.\<close>

definition rt_event_recv :: "nat \<Rightarrow> u32 \<Rightarrow> u8 \<Rightarrow> i32 \<Rightarrow> 'z ipc_scheme \<Rightarrow> ((rt_err \<times> u32 option) call \<times> 'z ipc_scheme) option" where
  "rt_event_recv i set1 option timeout s = do {
     e \<leftarrow> get_event i s;
     debug_scheduler_available True s;
     (if set1 = 0 then Some (Ret (E_ERROR, None), s)
      else do {
        t \<leftarrow> rt_thread_self s;
        th \<leftarrow> threads s t;
        let s = upd_thread t (\<lambda>th. th\<lparr>th_error := RT_EOK\<rparr>) s;
        status \<leftarrow> event_match set1 option (ev_set e);
        (if status then do {
           let s = upd_thread t (\<lambda>th. th\<lparr>event_set := ev_set e AND set1, event_info := option\<rparr>) s;
           let s = (if option AND RT_EVENT_FLAG_CLEAR \<noteq> 0
                    then put_obj i (ClassEvent (e\<lparr>ev_set := ev_set e AND NOT set1\<rparr>)) s else s);
           Some (Ret (RT_EOK, Some (ev_set e AND set1)), s) }
         else if timeout = 0
         then Some (Ret (E_TIMEOUT, None), upd_thread t (\<lambda>th. th\<lparr>th_error := E_TIMEOUT\<rparr>) s)
         else do {
           let s = upd_thread t (\<lambda>th. th\<lparr>event_set := set1, event_info := option\<rparr>) s;
           s \<leftarrow> ipc_block (Suspend i) t (io_flag e) timeout s;
           Some (Blocked, s) }) }) }"

text \<open>What a blocked receive returns when its thread runs again.\<close>

definition event_wait_result :: "nat \<Rightarrow> 'z sched_scheme \<Rightarrow> (rt_err \<times> u32 option) option" where
  "event_wait_result t s = map_option
     (\<lambda>th. (th_error th, if th_error th = RT_EOK then Some (event_set th) else None)) (threads s t)"

definition rt_event_control :: "nat \<Rightarrow> ipc_cmd \<Rightarrow> 'z ipc_scheme \<Rightarrow> (rt_err \<times> 'z ipc_scheme) option" where
  "rt_event_control i cmd s = do {
     e \<leftarrow> get_event i s;
     (case cmd of
        RT_IPC_CMD_RESET _ \<Rightarrow> do {
          s \<leftarrow> ipc_list_resume_all (Suspend i) s;
          s \<leftarrow> rt_schedule (put_obj i (ClassEvent (e\<lparr>ev_set := 0\<rparr>)) s);
          Some (RT_EOK, s) }
      | RT_IPC_CMD_OTHER _ \<Rightarrow> Some (E_ERROR, s)) }"

section \<open>Invariant\<close>

definition event_ok :: "'z ipc_scheme \<Rightarrow> nat \<Rightarrow> rt_event \<Rightarrow> bool" where
  "event_ok s i e \<longleftrightarrow> flag_ok (io_flag e) \<and> lists s (SuspendSender i) = [] \<and>
     (\<forall>t \<in> set (lists s (Suspend i)). \<exists>th. threads s t = Some th \<and>
        event_match (event_set th) (event_info th) (ev_set e) = Some False)"

definition event_op :: "nat \<Rightarrow> 'z ipc_scheme \<Rightarrow> 'z ipc_scheme \<Rightarrow> bool" where
  "event_op i s s' \<longleftrightarrow> op_ok i s s' \<and> (\<exists>e. objs s' i = Some (ClassEvent e) \<and> event_ok s' i e)"

lemma event_match_clear:
  assumes "event_match w info ev = Some False"
  shows "event_match w info (ev AND NOT x) = Some False"
proof -
  have a: "w AND ev = w" if h: "w AND (ev AND NOT x) = w"
  proof (rule bit_word_eqI)
    fix n
    show "bit (w AND ev) n = bit w n"
      using arg_cong [where f = "\<lambda>v. bit v n", OF h] by (auto simp: bit_and_iff)
  qed
  have b: "w AND (ev AND NOT x) = 0" if "w AND ev = 0"
    using that by (simp flip: and.assoc)
  show ?thesis
    using assms a b unfolding event_match_def by (auto split: if_splits)
qed

lemma event_match_info:
  "event_match w info ev = Some b \<Longrightarrow> event_match w' info ev' \<noteq> None"
  by (auto simp: event_match_def split: if_splits)

section \<open>What a send delivers\<close>

text \<open>
  The specification of \<open>rt_event_send\<close>: the waiters (thread, wanted events, option) are served in order;
  the result is who is woken with which events, who stays, and the events left.
\<close>

definition event_got :: "u32 \<Rightarrow> u8 \<Rightarrow> u32 \<Rightarrow> u32" where
  "event_got w info ev = (if info AND RT_EVENT_FLAG_AND \<noteq> 0 then w else w AND ev)"

definition event_left :: "u8 \<Rightarrow> u32 \<Rightarrow> u32 \<Rightarrow> u32" where
  "event_left info recved ev = (if info AND RT_EVENT_FLAG_CLEAR \<noteq> 0 then ev AND NOT recved else ev)"

fun event_deliver :: "(nat \<times> u32 \<times> u8) list \<Rightarrow> u32 \<Rightarrow> (nat \<times> u32) list \<times> nat list \<times> u32" where
  "event_deliver [] ev = ([], [], ev)"
| "event_deliver ((t, w, info) # ws) ev =
    (if event_match w info ev = Some True
     then (let (woken, stay, ev') = event_deliver ws (event_left info (event_got w info ev) ev)
           in ((t, event_got w info ev) # woken, stay, ev'))
     else (let (woken, stay, ev') = event_deliver ws ev in (woken, t # stay, ev')))"

definition wants :: "'z sched_scheme \<Rightarrow> nat \<Rightarrow> nat \<times> u32 \<times> u8" where
  "wants s t = (case threads s t of Some th \<Rightarrow> (t, event_set th, event_info th) | None \<Rightarrow> (t, 0, 0))"

lemma wants_fst [simp]: "fst (wants s t) = t"
  by (simp add: wants_def split: option.split)

lemma event_match_left:
  "event_match w info ev = Some False \<Longrightarrow> event_match w info (event_left i r ev) = Some False"
  by (simp add: event_left_def event_match_clear)

lemma deliver_mono:
  "event_match w info ev = Some False \<Longrightarrow> event_match w info (snd (snd (event_deliver ws ev))) = Some False"
proof (induction ws ev rule: event_deliver.induct)
  case (2 t w' info' ws ev)
  then show ?case
    using event_match_left [of w info ev] by (auto split: prod.splits)
qed simp

lemma deliver_stay:
  "t \<in> set (fst (snd (event_deliver ws ev))) \<Longrightarrow> \<forall>(u, w, info) \<in> set ws. event_match w info ev \<noteq> None \<Longrightarrow>
   \<exists>w info. (t, w, info) \<in> set ws \<and> event_match w info (snd (snd (event_deliver ws ev))) = Some False"
proof (induction ws ev rule: event_deliver.induct)
  case (2 u w info ws ev)
  have leg: "\<forall>(u, w, info) \<in> set ws. event_match w info ev1 \<noteq> None" for ev1
    using "2.prems"(2) event_match_info by fastforce
  show ?case
  proof (cases "event_match w info ev = Some True")
    case True
    then show ?thesis using "2.IH"(1) [OF True] "2.prems"(1) leg True
      by (fastforce simp: Let_def split: prod.splits)
  next
    case False
    then have f: "event_match w info ev = Some False" using "2.prems"(2) by (cases "event_match w info ev") auto
    show ?thesis
      using "2.IH"(2) [OF False] "2.prems"(1) leg False deliver_mono [OF f, of ws]
      by (fastforce simp: Let_def split: prod.splits)
  qed
qed simp

lemma deliver_sets:
  "set (map fst (fst (event_deliver ws ev))) \<union> set (fst (snd (event_deliver ws ev))) = set (map fst ws)"
proof (induction ws ev rule: event_deliver.induct)
  case (2 t w info ws ev)
  then show ?case by (cases "event_match w info ev = Some True") (simp_all add: case_prod_beta' Let_def)
qed simp

section \<open>The walk implements the delivery\<close>

text \<open>What the walk leaves behind.\<close>

definition delivered :: "nat \<Rightarrow> rt_event \<Rightarrow> nat list \<Rightarrow> (nat \<times> u32) list \<times> nat list \<times> u32 \<Rightarrow>
    'z ipc_scheme \<Rightarrow> 'z ipc_scheme \<Rightarrow> bool" where
  "delivered i e ks d s s' \<longleftrightarrow> kernel_quiet s' \<and> cur s' = cur s \<and> other_frame i s s' \<and>
     objs s' i = Some (ClassEvent (e\<lparr>ev_set := snd (snd d)\<rparr>)) \<and>
     lists s' (Suspend i) = ks @ fst (snd d) \<and> lists s' (SuspendSender i) = lists s (SuspendSender i) \<and>
     (\<forall>t. t \<notin> fst ` set (fst d) \<longrightarrow> threads s' t = threads s t) \<and>
     (\<forall>(t, r) \<in> set (fst d). \<exists>th. threads s t = Some th \<and> threads s' t = Some (to_run s t (th\<lparr>event_set := r\<rparr>)))"

lemma deliver_woken_in: "(t, r) \<in> set (fst (event_deliver ws ev)) \<Longrightarrow> t \<in> fst ` set ws"
  using deliver_sets [of ws ev] by (force simp: image_iff)

lemma wake_one:
  fixes r v :: u32
  assumes q: "kernel_quiet s" and o: "objs s i = Some (ClassEvent e)" and l: "lists s (Suspend i) = ks @ t # ts"
    and th: "threads s t = Some th"
  defines "s1 \<equiv> woken t (th\<lparr>event_set := r\<rparr>)
    (put_obj i (ClassEvent (e\<lparr>ev_set := v\<rparr>)) (upd_thread t (\<lambda>th. th\<lparr>event_set := r\<rparr>) s))"
  shows "rt_thread_resume t (put_obj i (ClassEvent (e\<lparr>ev_set := v\<rparr>)) (upd_thread t (\<lambda>th. th\<lparr>event_set := r\<rparr>) s)) = Some (RT_EOK, s1)"
    "delivered i e ks ([(t, r)], ts, v) s s1"
proof -
  let ?u = "put_obj i (ClassEvent (e\<lparr>ev_set := v\<rparr>)) (upd_thread t (\<lambda>th. th\<lparr>event_set := r\<rparr>) s)"
  have inl: "t \<in> set (lists s (Suspend i))" using l by simp
  have st: "stat th = RT_THREAD_SUSPEND" using waiting_thread [OF q inl] th by auto
  have qu: "kernel_quiet ?u"
    using sched_invD(4) [OF kernel_quietD(5) [OF q]] by (simp add: upd_thread_quiet [OF q])
  have tu: "threads ?u t = Some (th\<lparr>event_set := r\<rparr>)" "stat (th\<lparr>event_set := r\<rparr>) = RT_THREAD_SUSPEND" using th st by simp_all
  show "rt_thread_resume t ?u = Some (RT_EOK, s1)" unfolding s1_def by (rule thread_resume_quiet(1) [OF qu tu])
  have k1: "kernel_quiet s1" unfolding s1_def by (rule thread_resume_quiet(2) [OF qu tu])
  have wf: "tbl_wf (lists s)" using sched_invD(5) [OF kernel_quietD(5) [OF q]] .
  have nt: "t \<notin> set ks" using tbl_wfD [OF wf, of "Suspend i"] l by auto
  have no: "t \<notin> set (lists s l')" if "l' \<noteq> Suspend i" for l' using tbl_wf_disj [OF wf inl] that by blast
  have L: "lists s1 l' = remove1 t (lists s l')" if "is_wait l'" for l' using that by (simp add: s1_def)
  have L1: "lists s1 (Suspend i) = ks @ ts" using L [of "Suspend i"] l remove1_in_middle [OF nt] by simp
  have L2: "lists s1 (SuspendSender i) = lists s (SuspendSender i)"
    using L [of "SuspendSender i"] no [of "SuspendSender i"] by (simp add: remove1_idem)
  have T: "threads s1 = (threads s)(t \<mapsto> to_run s t (th\<lparr>event_set := r\<rparr>))"
    using th by (auto simp: s1_def to_run_def fun_eq_iff)
  have O: "objs s1 = (objs s)(i \<mapsto> ClassEvent (e\<lparr>ev_set := v\<rparr>))" by (simp add: s1_def)
  have F: "other_frame i s s1"
  proof (rule other_frameI)
    fix l' u assume l': "is_wait l'" "l' \<noteq> Suspend i" "u \<in> set (lists s1 l')"
    have "lists s1 l' = lists s l'" using L [OF l'(1)] no [OF l'(2)] by (simp add: remove1_idem)
    moreover from this have "u \<noteq> t" using no [OF l'(2)] l'(3) by auto
    ultimately show "u \<in> set (lists s l') \<and> (\<forall>th. threads s u = Some th \<longrightarrow> (\<exists>th'. threads s1 u = Some th' \<and> same_wait th th'))"
      using l'(3) T by simp
  qed (simp add: O)
  have C: "cur s1 = cur s" by (simp add: s1_def)
  show "delivered i e ks ([(t, r)], ts, v) s s1"
    unfolding delivered_def using k1 C F O L1 L2 T th by simp
qed

lemma event_loop_ok:
  assumes "kernel_quiet s" and "objs s i = Some (ClassEvent e)" and "lists s (Suspend i) = ks @ ts"
    and "\<forall>t \<in> set ts. \<exists>th. threads s t = Some th \<and> event_match (event_set th) (event_info th) (ev_set e) \<noteq> None"
  shows "\<exists>s'. event_send_loop i ts need s =
      Some (Inr (need \<or> fst (event_deliver (map (wants s) ts) (ev_set e)) \<noteq> []), s') \<and>
    delivered i e ks (event_deliver (map (wants s) ts) (ev_set e)) s s'"
  using assms
proof (induction ts arbitrary: need s e ks)
  case Nil
  then show ?case by (cases e) (auto simp: delivered_def wait_other_frame)
next
  case (Cons t ts)
  obtain th b where th: "threads s t = Some th" "event_match (event_set th) (event_info th) (ev_set e) = Some b"
    using Cons.prems(4) by auto
  have ge: "get_event i s = Some e" using Cons.prems(2) by (simp add: get_event_def)
  have wt: "wants s t = (t, event_set th, event_info th)" using th by (simp add: wants_def)
  have dt: "t \<notin> set ts" using tbl_wfD [OF sched_invD(5) [OF kernel_quietD(5) [OF Cons.prems(1)]], of "Suspend i"] Cons.prems(3) by simp
  show ?case
  proof (cases b)
    case False
    have l: "lists s (Suspend i) = (ks @ [t]) @ ts" using Cons.prems(3) by simp
    have "\<forall>t \<in> set ts. \<exists>th. threads s t = Some th \<and> event_match (event_set th) (event_info th) (ev_set e) \<noteq> None"
      using Cons.prems(4) by simp
    from Cons.IH [OF Cons.prems(1,2) l this, of need] obtain s' where s': "event_send_loop i ts need s =
        Some (Inr (need \<or> fst (event_deliver (map (wants s) ts) (ev_set e)) \<noteq> []), s')"
      "delivered i e (ks @ [t]) (event_deliver (map (wants s) ts) (ev_set e)) s s'" by blast
    have "event_send_loop i (t # ts) need s = event_send_loop i ts need s"
      using th ge False by simp
    then show ?thesis using s' th False wt
      by (intro exI [of _ s']) (auto simp: delivered_def case_prod_beta' Let_def)
  next
    case True
    let ?r = "event_got (event_set th) (event_info th) (ev_set e)"
    let ?v = "event_left (event_info th) ?r (ev_set e)"
    let ?e = "e\<lparr>ev_set := ?v\<rparr>"
    let ?u = "put_obj i (ClassEvent ?e) (upd_thread t (\<lambda>th. th\<lparr>event_set := ?r\<rparr>) s)"
    let ?s1 = "woken t (th\<lparr>event_set := ?r\<rparr>) ?u"
    note w = wake_one [OF Cons.prems(1-3) th(1), where r = ?r and v = ?v]
    have same: "put_obj i (ClassEvent e) (upd_thread t (\<lambda>th. th\<lparr>event_set := ?r\<rparr>) s) = upd_thread t (\<lambda>th. th\<lparr>event_set := ?r\<rparr>) s"
      using Cons.prems(2) by (simp add: put_obj_def upd_thread_def fun_upd_idem)
    have step: "event_send_loop i (t # ts) need s = event_send_loop i ts True ?s1"
      using th ge True w(1) same
      by (simp add: Let_def event_got_def event_left_def split: if_splits) 
    have d1: "kernel_quiet ?s1" "objs ?s1 i = Some (ClassEvent ?e)" "lists ?s1 (Suspend i) = ks @ ts"
      using w(2) by (simp_all add: delivered_def)
    have keep: "threads ?s1 x = threads s x" if "x \<noteq> t" for x using that w(2) by (simp add: delivered_def)
    have "\<forall>x \<in> set ts. \<exists>th. threads ?s1 x = Some th \<and> event_match (event_set th) (event_info th) (ev_set ?e) \<noteq> None"
    proof
      fix x assume x: "x \<in> set ts"
      then obtain xth where "threads s x = Some xth" "event_match (event_set xth) (event_info xth) (ev_set e) \<noteq> None"
        using Cons.prems(4) by auto
      then show "\<exists>th. threads ?s1 x = Some th \<and> event_match (event_set th) (event_info th) (ev_set ?e) \<noteq> None"
        using keep [of x] x dt event_match_info by (metis not_None_eq)
    qed
    from Cons.IH [OF d1 this, of True] obtain s' where s': "event_send_loop i ts True ?s1 =
        Some (Inr True, s')" "delivered i ?e ks (event_deliver (map (wants ?s1) ts) ?v) ?s1 s'" by auto
    have mw: "map (wants ?s1) ts = map (wants s) ts" using keep dt by (auto simp: wants_def)
    let ?d = "event_deliver (map (wants s) ts) ?v"
    have d: "event_deliver (map (wants s) (t # ts)) (ev_set e) = ((t, ?r) # fst ?d, snd ?d)"
      using wt th True by (simp add: case_prod_beta' Let_def)
    have "fst ` wants s ` set ts = set ts" by (simp add: image_image)
    then have nin: "t \<notin> fst ` set (fst ?d)" using deliver_woken_in [of t _ "map (wants s) ts" ?v] dt by auto
    have D1: "delivered i e ks ([(t, ?r)], ts, ?v) s ?s1" by (rule w(2))
    have D2: "delivered i ?e ks ?d ?s1 s'" using s'(2) mw by simp
    have T1: "threads ?s1 t = Some (to_run s t (th\<lparr>event_set := ?r\<rparr>))" using D1 th by (auto simp: delivered_def)
    have "delivered i e ks ((t, ?r) # fst ?d, snd ?d) s s'"
      unfolding delivered_def
    proof (intro conjI allI impI ballI)
      show "other_frame i s s'" using D1 D2 other_frame_trans by (auto simp: delivered_def)
      show "threads s' x = threads s x" if "x \<notin> fst ` set (fst ((t, ?r) # fst ?d, snd ?d))" for x
        using that D2 keep [of x] by (auto simp: delivered_def)
      fix y assume y: "y \<in> set (fst ((t, ?r) # fst ?d, snd ?d))"
      show "case y of (x, r) \<Rightarrow> \<exists>th. threads s x = Some th \<and> threads s' x = Some (to_run s x (th\<lparr>event_set := r\<rparr>))"
      proof (cases "y = (t, ?r)")
        case True
        then show ?thesis using D2 nin T1 th(1) by (auto simp: delivered_def)
      next
        case False
        then have yin: "y \<in> set (fst ?d)" using y by simp
        then have "fst y \<noteq> t" using nin by auto
        moreover have "case y of (x, r) \<Rightarrow> \<exists>th. threads ?s1 x = Some th \<and> threads s' x = Some (to_run ?s1 x (th\<lparr>event_set := r\<rparr>))"
          using D2 yin by (auto simp: delivered_def)
        ultimately show ?thesis using keep by (auto simp: to_run_def split: prod.splits)
      qed
    qed (use D1 D2 in \<open>auto simp: delivered_def\<close>)
    then show ?thesis using step s'(1) d by (intro exI [of _ s']) simp
  qed
qed

section \<open>The operations keep the invariant\<close>

lemma delivered_ok:
  assumes d: "delivered i e [] (event_deliver (map (wants s) (lists s (Suspend i))) ev) s s'"
    and leg: "\<forall>t \<in> set (lists s (Suspend i)). \<exists>th. threads s t = Some th \<and> event_match (event_set th) (event_info th) ev \<noteq> None"
    and f: "flag_ok (io_flag e)" and x: "lists s (SuspendSender i) = []"
    and dis: "\<And>t. t \<in> set (fst (snd (event_deliver (map (wants s) (lists s (Suspend i))) ev))) \<Longrightarrow>
      t \<notin> fst ` set (fst (event_deliver (map (wants s) (lists s (Suspend i))) ev))"
  shows "event_ok s' i (e\<lparr>ev_set := snd (snd (event_deliver (map (wants s) (lists s (Suspend i))) ev))\<rparr>)"
proof -
  let ?d = "event_deliver (map (wants s) (lists s (Suspend i))) ev"
  have leg': "\<forall>(u, w, info) \<in> set (map (wants s) (lists s (Suspend i))). event_match w info ev \<noteq> None"
    using leg by (auto simp: wants_def)
  have "\<exists>th. threads s' t = Some th \<and> event_match (event_set th) (event_info th) (snd (snd ?d)) = Some False"
    if t: "t \<in> set (lists s' (Suspend i))" for t
  proof -
    have t': "t \<in> set (fst (snd ?d))" using d t by (simp add: delivered_def)
    obtain w info where w: "(t, w, info) \<in> set (map (wants s) (lists s (Suspend i)))" "event_match w info (snd (snd ?d)) = Some False"
      using deliver_stay [OF t' leg'] by blast
    have tl: "t \<in> set (lists s (Suspend i))" using w(1) by (auto simp: wants_def split: option.splits)
    obtain th where th: "threads s t = Some th" using leg tl by auto
    have "w = event_set th" "info = event_info th"
    proof -
      obtain u where "u \<in> set (lists s (Suspend i))" "wants s u = (t, w, info)" using w(1) by auto
      then show "w = event_set th" "info = event_info th" using th wants_fst [of s u] by (auto simp: wants_def)
    qed
    then show ?thesis using th w(2) d dis [OF t'] by (auto simp: delivered_def)
  qed
  then show ?thesis using f x d by (simp add: event_ok_def delivered_def)
qed

lemma deliver_disjoint:
  "distinct (map fst ws) \<Longrightarrow> t \<in> set (fst (snd (event_deliver ws ev))) \<Longrightarrow> t \<notin> fst ` set (fst (event_deliver ws ev))"
proof (induction ws ev rule: event_deliver.induct)
  case (2 u w info ws ev)
  show ?case
  proof (cases "event_match w info ev = Some True")
    case True
    show ?thesis
      using "2.IH"(1) [OF True] "2.prems" True deliver_sets [of ws "event_left info (event_got w info ev) ev"]
      by (auto simp: case_prod_beta' Let_def)
  next
    case False
    show ?thesis
      using "2.IH"(2) [OF False] "2.prems" False deliver_sets [of ws ev]
      by (auto simp: case_prod_beta' Let_def)
  qed
qed simp

lemma event_send_ok:
  assumes q: "kernel_quiet s" and c: "cur s \<noteq> None" and o: "objs s i = Some (ClassEvent e)" and ok: "event_ok s i e"
    and n: "set1 \<noteq> 0"
  defines "d \<equiv> event_deliver (map (wants s) (lists s (Suspend i))) (ev_set e OR set1)"
  shows "\<exists>s1 s'. rt_event_send i set1 s = Some (RT_EOK, s') \<and> delivered i e [] d s s1 \<and>
    (if fst d = [] then s' = s1 else rt_schedule s1 = Some s') \<and> sched_frame s1 s' \<and>
    event_op i s s' \<and> objs s' i = Some (ClassEvent (e\<lparr>ev_set := snd (snd d)\<rparr>))"
proof -
  let ?e = "e\<lparr>ev_set := ev_set e OR set1\<rparr>"
  let ?u = "put_obj i (ClassEvent ?e) s"
  have leg: "\<forall>t \<in> set (lists s (Suspend i)). \<exists>th. threads s t = Some th \<and>
      event_match (event_set th) (event_info th) (ev_set e OR set1) \<noteq> None"
    using ok event_match_info unfolding event_ok_def by fastforce
  have "\<forall>t \<in> set (lists ?u (Suspend i)). \<exists>th. threads ?u t = Some th \<and>
      event_match (event_set th) (event_info th) (ev_set ?e) \<noteq> None" using leg by simp
  from event_loop_ok [of ?u i ?e "[]", OF _ _ _ this, of False] q obtain s1 where
    s1: "event_send_loop i (lists s (Suspend i)) False ?u = Some (Inr (fst (event_deliver (map (wants ?u) (lists s (Suspend i))) (ev_set e OR set1)) \<noteq> []), s1)"
    "delivered i ?e [] (event_deliver (map (wants ?u) (lists s (Suspend i))) (ev_set e OR set1)) ?u s1" by auto
  have wu: "wants ?u = wants s" by (simp add: wants_def fun_eq_iff)
  have D: "delivered i e [] d s s1"
    using s1(2) unfolding wu d_def [symmetric]
    by (auto simp: delivered_def to_run_def intro: other_frame_trans [OF put_other_frame(1)])
  have k1: "kernel_quiet s1" "cur s1 \<noteq> None" "other_frame i s s1" using D c by (auto simp: delivered_def)
  have "distinct (map fst (map (wants s) (lists s (Suspend i))))"
    using tbl_wfD [OF sched_invD(5) [OF kernel_quietD(5) [OF q]], of "Suspend i"] by (simp add: comp_def)
  then have ev1: "event_ok s1 i (e\<lparr>ev_set := snd (snd d)\<rparr>)"
    using delivered_ok [OF D [unfolded d_def] leg] deliver_disjoint ok unfolding d_def event_ok_def by blast
  have e1: "rt_event_send i set1 s = do { s' \<leftarrow> (if fst d \<noteq> [] then rt_schedule s1 else Some s1); Some (RT_EOK, s') }"
    using o n s1(1) unfolding wu d_def [symmetric] by (simp add: rt_event_send_def get_event_def)
  obtain s2 where s2: "rt_schedule s1 = Some s2" "op_ok i s s2" "sched_frame s1 s2" using op_ok_schedule [OF k1] by blast
  define s' where "s' = (if fst d = [] then s1 else s2)"
  have fr: "sched_frame s1 s'" using s2(3) by (simp add: s'_def sched_frame_refl)
  have "op_ok i s s'" using s2(2) k1 by (simp add: s'_def op_ok_def)
  moreover have ob: "objs s' i = Some (ClassEvent (e\<lparr>ev_set := snd (snd d)\<rparr>))"
    using frame_objs [OF fr] D by (simp add: delivered_def)
  moreover have "event_ok s' i (e\<lparr>ev_set := snd (snd d)\<rparr>)"
  proof -
    have "\<exists>th'. threads s' t = Some th' \<and> event_match (event_set th') (event_info th') (snd (snd d)) = Some False"
      if tin: "t \<in> set (lists s1 (Suspend i))" for t
    proof -
      obtain th where "threads s1 t = Some th" "event_match (event_set th) (event_info th) (snd (snd d)) = Some False"
        using ev1 tin by (auto simp: event_ok_def)
      moreover from frame_thread [OF fr this(1)] obtain th' where "threads s' t = Some th'" "same_wait th th'" by blast
      ultimately show ?thesis by (simp add: same_wait_def)
    qed
    then show ?thesis
      using ev1 frame_sel [OF fr, of "Suspend i"] frame_sel [OF fr, of "SuspendSender i"] by (simp add: event_ok_def)
  qed
  ultimately show ?thesis
    using e1 s2(1) D fr by (intro exI [of _ s1] exI [of _ s']) (auto simp: event_op_def s'_def)
qed

lemma event_init_ok:
  assumes q: "kernel_quiet s" and c: "cur s \<noteq> None" and n: "objs s i = None" "lists s (Suspend i) = []" "lists s (SuspendSender i) = []"
  shows "rt_event_init i flag s = Some (r, s') \<Longrightarrow> event_op i s s'"
    "rt_event_create (Some i) flag s = Some (ob, s') \<Longrightarrow> event_op i s s'"
proof -
  have "event_op i s (put_obj i (ClassEvent \<lparr>io_static = b, io_flag = flag, ev_set = 0\<rparr>) s)" if "flag_ok flag" for b
    using n op_ok_refl [OF q c] that by (simp add: event_op_def event_ok_def)
  then show "rt_event_init i flag s = Some (r, s') \<Longrightarrow> event_op i s s'"
    "rt_event_create (Some i) flag s = Some (ob, s') \<Longrightarrow> event_op i s s'"
    using n by (auto simp: rt_event_init_def rt_event_create_def ipc_object_init_idle Let_def elim!: bind_SomeE)
qed

lemma event_remove_ok:
  assumes q: "kernel_quiet s" and c: "cur s \<noteq> None" and ok: "event_ok s i e"
  shows "rt_event_detach i s = Some (r, s') \<Longrightarrow> gone i s s'" "rt_event_delete i s = Some (r, s') \<Longrightarrow> gone i s s'"
  using drop_gone [OF q c, of i] ok
  by (auto simp: rt_event_detach_def rt_event_delete_def event_ok_def elim!: bind_SomeE)

lemma event_control_ok:
  assumes q: "kernel_quiet s" and c: "cur s \<noteq> None" and o: "objs s i = Some (ClassEvent e)" and ok: "event_ok s i e"
    and e: "rt_event_control i cmd s = Some (r, s')"
  shows "event_op i s s'"
proof (cases cmd)
  case (RT_IPC_CMD_RESET v)
  obtain s1 where s1: "ipc_list_resume_all (Suspend i) s = Some s1" "op_ok i s s1" "lists s1 (Suspend i) = []"
      "lists s1 (SuspendSender i) = lists s (SuspendSender i)"
    using released_ok [OF q c, of i] by blast
  let ?s2 = "put_obj i (ClassEvent (e\<lparr>ev_set := 0\<rparr>)) s1"
  have "kernel_quiet ?s2" "cur ?s2 \<noteq> None" "other_frame i s ?s2"
    using s1(2) other_frame_trans [of i s s1 ?s2] by (auto simp: op_ok_def)
  then obtain s2 where s2: "rt_schedule ?s2 = Some s2" "op_ok i s s2" "sched_frame ?s2 s2"
    using op_ok_schedule by blast
  have "s' = s2" using e RT_IPC_CMD_RESET s1(1) s2(1) o by (simp add: rt_event_control_def get_event_def)
  then show ?thesis
    using s2(2) frame_objs [OF s2(3)] frame_sel [OF s2(3), of "Suspend i"] frame_sel [OF s2(3), of "SuspendSender i"] s1 ok
    by (simp add: event_op_def event_ok_def)
next
  case (RT_IPC_CMD_OTHER x)
  then show ?thesis
    using e o op_ok_refl [OF q c, of i] ok by (auto simp: rt_event_control_def get_event_def event_op_def)
qed

text \<open>The record of a thread that asks for events.\<close>

definition asking :: "u32 \<Rightarrow> u8 \<Rightarrow> rt_thread \<Rightarrow> rt_thread" where
  "asking w info th = th\<lparr>th_error := RT_EOK, event_set := w, event_info := info\<rparr>"

lemma asking_sel [simp]:
  "stat (asking w info th) = stat th" "prio_of (asking w info th) = prio_of th"
  "current_priority (asking w info th) = current_priority th" "thread_ok (asking w info th) = thread_ok th"
  "event_set (asking w info th) = w" "event_info (asking w info th) = info" "th_error (asking w info th) = RT_EOK"
  by (simp_all add: asking_def prio_of_def thread_ok_def rt_scheduler_stack_check_def)

lemma asking_ok:
  assumes q: "kernel_quiet s" and r: "runs s t th"
  shows "upd_thread t (\<lambda>th. th\<lparr>event_set := w, event_info := info\<rparr>) (upd_thread t (\<lambda>th. th\<lparr>th_error := RT_EOK\<rparr>) s) =
      upd_thread t (asking w info) s"
    "kernel_quiet (upd_thread t (asking w info) s)" "runs (upd_thread t (asking w info) s) t (asking w info th)"
    "other_frame i s (upd_thread t (asking w info) s)"
proof -
  show "upd_thread t (\<lambda>th. th\<lparr>event_set := w, event_info := info\<rparr>) (upd_thread t (\<lambda>th. th\<lparr>th_error := RT_EOK\<rparr>) s) =
      upd_thread t (asking w info) s"
    using runsD(2) [OF r] by (simp add: upd_thread_def asking_def)
  show "kernel_quiet (upd_thread t (asking w info) s)"
    using sched_invD(4) [OF kernel_quietD(5) [OF q]] by (intro upd_thread_quiet [OF q]) simp
  show "runs (upd_thread t (asking w info) s) t (asking w info th)" using r by (simp add: runs_def)
  have "\<not> linked t (lists s)" using runs_unlinked [OF kernel_quietD(5) [OF q] r] .
  then show "other_frame i s (upd_thread t (asking w info) s)"
    by (intro other_frameI) (auto simp: linked_def)
qed

lemma event_ok_asking:
  assumes q: "kernel_quiet s" and r: "runs s t th" and ok: "event_ok s i e"
  shows "event_ok (upd_thread t f s) i e"
proof -
  have "\<not> linked t (lists s)" using runs_unlinked [OF kernel_quietD(5) [OF q] r] .
  then show ?thesis using ok by (fastforce simp: event_ok_def linked_def)
qed

lemma event_ok_clear: "event_ok s i e \<Longrightarrow> event_ok s i (e\<lparr>ev_set := ev_set e AND NOT x\<rparr>)"
  using event_match_clear by (fastforce simp: event_ok_def)

lemma event_ok_put [simp]: "event_ok (put_obj j ob s) i e = event_ok s i e"
  by (simp add: event_ok_def)

lemma event_recv_now:
  assumes q: "kernel_quiet s" and o: "objs s i = Some (ClassEvent e)" and ok: "event_ok s i e"
    and r: "runs s t th" and av: "lock_nest s = 0" "int_nest s = 0" and w: "set1 \<noteq> 0"
    and m: "event_match set1 option (ev_set e) = Some True"
  defines "s' \<equiv> put_obj i (ClassEvent (e\<lparr>ev_set := event_left option set1 (ev_set e)\<rparr>))
      (upd_thread t (asking (ev_set e AND set1) option) s)"
  shows "rt_event_recv i set1 option timeout s = Some (Ret (RT_EOK, Some (ev_set e AND set1)), s')" "event_op i s s'"
proof -
  note a = asking_ok [OF q r, where w = "ev_set e AND set1" and info = option]
  have "put_obj i (ClassEvent e) (upd_thread t (asking (ev_set e AND set1) option) s) =
      upd_thread t (asking (ev_set e AND set1) option) s"
    using o by (simp add: put_obj_def upd_thread_def fun_upd_idem)
  then show "rt_event_recv i set1 option timeout s = Some (Ret (RT_EOK, Some (ev_set e AND set1)), s')"
    using o w m runsD [OF r] av a(1)
    by (simp add: rt_event_recv_def get_event_def rt_thread_self_def Let_def s'_def event_left_def)
  have "op_ok i s (upd_thread t (asking (ev_set e AND set1) option) s)" using a(2,4) runsD [OF r] by (simp add: op_ok_def)
  moreover have "event_ok s i (e\<lparr>ev_set := event_left option set1 (ev_set e)\<rparr>)"
    using ok event_ok_clear [OF ok] by (simp add: event_left_def)
  ultimately show "event_op i s s'"
    using event_ok_asking [OF q r] by (simp add: event_op_def s'_def)
qed

lemma event_recv_poll:
  assumes q: "kernel_quiet s" and o: "objs s i = Some (ClassEvent e)" and ok: "event_ok s i e"
    and r: "runs s t th" and av: "lock_nest s = 0" "int_nest s = 0" and w: "set1 \<noteq> 0"
    and m: "event_match set1 option (ev_set e) = Some False"
  shows "rt_event_recv i set1 option 0 s = Some (Ret (E_TIMEOUT, None), upd_thread t (\<lambda>th. th\<lparr>th_error := E_TIMEOUT\<rparr>) s)"
    "event_op i s (upd_thread t (\<lambda>th. th\<lparr>th_error := E_TIMEOUT\<rparr>) s)"
proof -
  have "upd_thread t (\<lambda>th. th\<lparr>th_error := E_TIMEOUT\<rparr>) (upd_thread t (\<lambda>th. th\<lparr>th_error := RT_EOK\<rparr>) s) =
      upd_thread t (\<lambda>th. th\<lparr>th_error := E_TIMEOUT\<rparr>) s"
    using runsD(2) [OF r] by (simp add: upd_thread_def)
  then show "rt_event_recv i set1 option 0 s = Some (Ret (E_TIMEOUT, None), upd_thread t (\<lambda>th. th\<lparr>th_error := E_TIMEOUT\<rparr>) s)"
    using o w m runsD [OF r] av by (simp add: rt_event_recv_def get_event_def rt_thread_self_def Let_def)
  show "event_op i s (upd_thread t (\<lambda>th. th\<lparr>th_error := E_TIMEOUT\<rparr>) s)"
    using clear_error_op [OF q r] event_ok_asking [OF q r ok] o by (simp add: event_op_def)
qed

lemma event_recv_block:
  assumes q: "kernel_quiet s" and o: "objs s i = Some (ClassEvent e)" and ok: "event_ok s i e"
    and r: "runs s t th" and av: "lock_nest s = 0" "int_nest s = 0" and w: "set1 \<noteq> 0"
    and m: "event_match set1 option (ev_set e) = Some False" and tm: "timeout \<noteq> 0" "time_ok timeout"
  shows "\<exists>s' th'. rt_event_recv i set1 option timeout s = Some (Blocked, s') \<and> event_op i s s' \<and> objs s' = objs s \<and>
    set (lists s' (Suspend i)) = insert t (set (lists s (Suspend i))) \<and> threads s' t = Some th' \<and>
    stat th' = RT_THREAD_SUSPEND \<and> th_error th' = RT_EOK \<and> event_set th' = set1 \<and> event_info th' = option"
proof -
  note a = asking_ok [OF q r, where w = set1 and info = option]
  let ?u = "upd_thread t (asking set1 option) s"
  have f: "flag_ok (io_flag e)" using ok by (simp add: event_ok_def)
  obtain s' where s': "ipc_block (Suspend i) t (io_flag e) timeout ?u = Some s'" "op_ok i ?u s'" "objs s' = objs ?u"
    "lists s' (Suspend i) = queued (io_flag e) ?u t (current_priority (asking set1 option th)) (lists ?u (Suspend i))"
    "\<forall>l'. is_wait l' \<longrightarrow> l' \<noteq> Suspend i \<longrightarrow> lists s' l' = lists ?u l'"
    "\<forall>x. rel_option same_thread (((threads ?u)(t \<mapsto> asking set1 option th\<lparr>stat := RT_THREAD_SUSPEND\<rparr>)) x) (threads s' x)"
    using block_op [OF a(2,3) disjI1 [OF refl] f tm(2)] by blast
  have op: "op_ok i s s'" using s'(2) other_frame_trans [OF a(4) [where i = i]] by (simp add: op_ok_def)
  have e: "rt_event_recv i set1 option timeout s = Some (Blocked, s')"
    using o w m tm runsD [OF r] av a(1) s'(1) by (simp add: rt_event_recv_def get_event_def rt_thread_self_def Let_def)
  have L: "set (lists s' (Suspend i)) = insert t (set (lists s (Suspend i)))" using s'(4) by simp
  have idem: "(asking set1 option th)\<lparr>th_error := RT_EOK\<rparr> = asking set1 option th" by (cases th) (simp add: asking_def)
  have "\<forall>x. rel_option same_thread (((threads ?u)(t \<mapsto> (asking set1 option th)\<lparr>th_error := RT_EOK, stat := RT_THREAD_SUSPEND\<rparr>)) x) (threads s' x)"
    using s'(6) unfolding idem upd_thread_sel using runsD [OF r] by simp
  from waits_for_result [OF this] obtain th' where th': "threads s' t = Some th'" "stat th' = RT_THREAD_SUSPEND"
      "th_error th' = RT_EOK" "event_set th' = set1" "event_info th' = option" by (auto simp: same_wait_def)
  have "\<exists>xh. threads s' x = Some xh \<and> event_match (event_set xh) (event_info xh) (ev_set e) = Some False"
    if x: "x \<in> set (lists s' (Suspend i))" for x
  proof (cases "x = t")
    case True
    then show ?thesis using th' m by simp
  next
    case False
    then obtain xh where xh: "threads s x = Some xh" "event_match (event_set xh) (event_info xh) (ev_set e) = Some False"
      using x L ok by (auto simp: event_ok_def)
    have "rel_option same_thread (Some xh) (threads s' x)" using s'(6) [rule_format, of x] False xh(1) by simp
    then obtain xh' where "threads s' x = Some xh'" "same_thread xh xh'" by (auto simp: option_rel_Some1)
    then show ?thesis using xh(2) same_thread_wait [of xh xh'] by (simp add: same_wait_def)
  qed
  then have "event_ok s' i e" using ok s'(5) by (simp add: event_ok_def)
  then show ?thesis using e op s'(3) o L th' by (intro exI [of _ s'] exI [of _ th']) (simp add: event_op_def)
qed

section \<open>Properties\<close>

text \<open>
  C13: \<open>rt_event_send\<close> serves the waiters in queue order, as \<open>event_deliver\<close> says: each waiter whose condition
  holds is made runnable with the events it received and without an error, the bits it clears are gone for
  the waiters behind it, the others stay queued, and afterwards no waiter's condition holds.
\<close>

theorem event_send_delivers:
  assumes "kernel_quiet s" and "cur s \<noteq> None" and "objs s i = Some (ClassEvent e)" and "event_ok s i e" and "set1 \<noteq> 0"
    and "event_deliver (map (wants s) (lists s (Suspend i))) (ev_set e OR set1) = (woke, stay, ev')"
  shows "\<exists>s'. rt_event_send i set1 s = Some (RT_EOK, s') \<and> kernel_quiet s' \<and>
    objs s' i = Some (ClassEvent (e\<lparr>ev_set := ev'\<rparr>)) \<and> event_ok s' i (e\<lparr>ev_set := ev'\<rparr>) \<and>
    lists s' (Suspend i) = stay \<and>
    (\<forall>(t, recved) \<in> set woke. \<exists>th th'. threads s t = Some th \<and> threads s' t = Some th' \<and> runnable (stat th') \<and>
       event_set th' = recved \<and> th_error th' = th_error th)"
proof -
  obtain s1 s' where s': "rt_event_send i set1 s = Some (RT_EOK, s')" "delivered i e [] (woke, stay, ev') s s1"
    "sched_frame s1 s'" "event_op i s s'" "objs s' i = Some (ClassEvent (e\<lparr>ev_set := ev'\<rparr>))"
    using event_send_ok [OF assms(1-5)] assms(6) by auto
  have "\<exists>th th'. threads s t = Some th \<and> threads s' t = Some th' \<and> runnable (stat th') \<and> event_set th' = r \<and> th_error th' = th_error th"
    if t: "(t, r) \<in> set woke" for t r
  proof -
    obtain th where th: "threads s t = Some th" "threads s1 t = Some (to_run s t (th\<lparr>event_set := r\<rparr>))"
      using s'(2) t by (auto simp: delivered_def)
    obtain th' where th': "threads s' t = Some th'" "same_thread (to_run s t (th\<lparr>event_set := r\<rparr>)) th'"
        "same_wait (to_run s t (th\<lparr>event_set := r\<rparr>)) th'"
      using frame_thread [OF s'(3) th(2)] by blast
    have "runnable (stat th')" using th'(2) to_run_sel(6) [of s t "th\<lparr>event_set := r\<rparr>"] unfolding same_thread_def by auto
    moreover have "th_error th' = th_error th"
      using th'(2) unfolding same_thread_def by (auto dest: arg_cong [where f = th_error])
    ultimately show ?thesis using th(1) th'(1,3) by (simp add: same_wait_def)
  qed
  then show ?thesis
    using s' frame_sel [OF s'(3), of "Suspend i"] by (intro exI [of _ s']) (auto simp: event_op_def op_ok_def delivered_def)
qed

definition ex_waiter :: ipc where
  "ex_waiter = put_obj 9 (ClassEvent \<lparr>io_static = True, io_flag = 0, ev_set = 1\<rparr>)
     (upd_thread 5 (\<lambda>th. th\<lparr>event_set := 3, event_info := 5\<rparr>) ex_ipc)"

theorem event_send_delivers_witness:
  "\<exists>s' th'. rt_event_send 9 6 ex_waiter = Some (RT_EOK, s') \<and> lists s' (Suspend 9) = [] \<and>
    objs s' 9 = Some (ClassEvent \<lparr>io_static = True, io_flag = 0, ev_set = 4\<rparr>) \<and>
    threads s' 5 = Some th' \<and> runnable (stat th') \<and> event_set th' = 3"
proof -
  let ?e = "\<lparr>io_static = True, io_flag = 0, ev_set = 1\<rparr> :: rt_event"
  have t5: "threads ex_ipc 5 = Some (ex_thread RT_THREAD_SUSPEND 3)" by (simp add: ex_kernel_sel ex_sched_def)
  have "kernel_quiet (upd_thread 5 (\<lambda>th. th\<lparr>event_set := 3, event_info := 5\<rparr>) ex_ipc)"
    using sched_invD(4) [OF kernel_quietD(5) [OF ex_ipc_quiet]] t5
    by (intro upd_thread_quiet [OF ex_ipc_quiet]) (auto simp: prio_of_def thread_ok_def rt_scheduler_stack_check_def)
  then have q: "kernel_quiet ex_waiter" "cur ex_waiter \<noteq> None" "objs ex_waiter 9 = Some (ClassEvent ?e)"
    by (simp_all add: ex_waiter_def)
  have l: "lists ex_waiter (Suspend 9) = [5]" "lists ex_waiter (SuspendSender 9) = []"
    using ex_ipc_lists by (simp_all add: ex_waiter_def del: ex_ipc_sel(2))
  have w: "threads ex_waiter 5 = Some ((ex_thread RT_THREAD_SUSPEND 3)\<lparr>event_set := 3, event_info := 5\<rparr>)"
    using t5 by (simp add: ex_waiter_def)
  have m: "event_match 3 5 1 = Some False" "event_match 3 5 7 = Some True"
    by (simp_all add: event_match_def RT_EVENT_FLAG_AND_def)
  have "event_ok ex_waiter 9 ?e" using l w m by (simp add: event_ok_def flag_ok_def RT_IPC_FLAG_FIFO_def)
  moreover have "event_deliver (map (wants ex_waiter) (lists ex_waiter (Suspend 9))) (ev_set ?e OR 6) = ([(5, 3)], [], 4)"
    using m by (simp add: l wants_def w event_got_def event_left_def RT_EVENT_FLAG_AND_def RT_EVENT_FLAG_CLEAR_def)
  ultimately show ?thesis using event_send_delivers [OF q, of 6] by fastforce
qed

text \<open>
  \<open>rt_event_recv\<close> on every branch: asking for nothing is an error; if the condition holds the events
  are returned (and cleared on request); with no time to wait the call returns the timeout error; otherwise
  the caller waits with its request recorded. In every case no waiter's condition holds afterwards.
\<close>

theorem event_recv_branches:
  assumes "kernel_quiet s" and "objs s i = Some (ClassEvent e)" and "event_ok s i e" and "runs s c th"
    and "lock_nest s = 0" and "int_nest s = 0" and "time_ok timeout" and "event_match set1 option (ev_set e) = Some b"
  shows "\<exists>r s' e'. rt_event_recv i set1 option timeout s = Some (r, s') \<and> kernel_quiet s' \<and>
    objs s' i = Some (ClassEvent e') \<and> event_ok s' i e' \<and>
    (if set1 = 0 then r = Ret (E_ERROR, None) \<and> s' = s
     else if b then r = Ret (RT_EOK, Some (ev_set e AND set1)) \<and>
       ev_set e' = (if option AND RT_EVENT_FLAG_CLEAR \<noteq> 0 then ev_set e AND NOT set1 else ev_set e)
     else e' = e \<and> (if timeout = 0 then r = Ret (E_TIMEOUT, None)
       else r = Blocked \<and> c \<in> set (lists s' (Suspend i)) \<and>
         (\<exists>th'. threads s' c = Some th' \<and> event_set th' = set1 \<and> event_info th' = option)))"
proof -
  note R = runsD [OF assms(4)]
  consider "set1 = 0" | "set1 \<noteq> 0" b | "set1 \<noteq> 0" "\<not> b" "timeout = 0" | "set1 \<noteq> 0" "\<not> b" "timeout \<noteq> 0" by blast
  then show ?thesis
  proof cases
    case 1
    then have "rt_event_recv i set1 option timeout s = Some (Ret (E_ERROR, None), s)"
      using R assms(2,5,6) by (simp add: rt_event_recv_def get_event_def)
    then show ?thesis using 1 assms(1-3) by auto
  next
    case 2
    then have m: "event_match set1 option (ev_set e) = Some True" using assms(8) by simp
    from event_recv_now(1) [OF assms(1-6) 2(1) m, of timeout] event_recv_now(2) [OF assms(1-6) 2(1) m] 2
    show ?thesis by (auto simp: event_op_def op_ok_def event_left_def)
  next
    case 3
    then have m: "event_match set1 option (ev_set e) = Some False" using assms(8) by simp
    from event_recv_poll [OF assms(1-6) 3(1) m] 3 assms(2) show ?thesis by (auto simp: event_op_def op_ok_def)
  next
    case 4
    then have m: "event_match set1 option (ev_set e) = Some False" using assms(8) by simp
    from event_recv_block [OF assms(1-6) 4(1) m 4(3) assms(7)] 4 assms(2)
    show ?thesis by (fastforce simp: event_op_def op_ok_def)
  qed
qed

theorem event_recv_branches_witness:
  "\<exists>s' th'. rt_event_recv 13 6 RT_EVENT_FLAG_OR 100 ex_ipc = Some (Blocked, s') \<and> kernel_quiet s' \<and>
     1 \<in> set (lists s' (Suspend 13)) \<and> threads s' 1 = Some th' \<and> event_set th' = 6"
proof -
  have "event_ok ex_ipc 13 \<lparr>io_static = True, io_flag = 0, ev_set = 0\<rparr>"
    by (simp add: event_ok_def flag_ok_def RT_IPC_FLAG_FIFO_def ex_ipc_lists del: ex_ipc_sel)
  from event_recv_branches [OF ex_ipc_quiet ex_ipc_objs(5) this ex_ipc_runs, of 100 6 RT_EVENT_FLAG_OR False]
  show ?thesis
    by (auto simp: time_ok_def event_match_def RT_EVENT_FLAG_OR_def RT_EVENT_FLAG_AND_def simp del: ex_ipc_sel(2))
qed

end
