(* ===== verification/Mailbox.thy ===== *)
theory Mailbox
  imports Semaphore Fifo
begin

text \<open>
  Mailboxes (rt-thread/src/ipc.c, \<open>rt_mb_*\<close>): a ring of words with two wait lists, receivers
  (\<open>Suspend\<close>) and senders (\<open>SuspendSender\<close>). A blocked call goes on, when its thread runs again, with
  the \<open>_resume\<close> function: the local variables it needs are the time it had left and the tick at
  which it began to wait.
\<close>

section \<open>Operations\<close>

definition RT_MB_ENTRY_MAX :: u16 where "RT_MB_ENTRY_MAX = 0xffff"

definition get_mb :: "nat \<Rightarrow> 'z ipc_scheme \<Rightarrow> rt_mailbox option" where
  "get_mb i s = (case objs s i of Some (ClassMailBox mb) \<Rightarrow> Some mb | _ \<Rightarrow> None)"

text \<open>\<open>rt_list_init\<close> on the list of waiting senders.\<close>

definition sender_list_init :: "nat \<Rightarrow> 'z sched_scheme \<Rightarrow> 'z sched_scheme" where
  "sender_list_init i s = s\<lparr>lists := (lists s)(SuspendSender i := [])\<rparr>"

definition new_mailbox :: "bool \<Rightarrow> u8 \<Rightarrow> u32 \<Rightarrow> u32 list \<Rightarrow> rt_mailbox" where
  "new_mailbox static flag size1 pool =
    \<lparr>io_static = static, io_flag = flag, mb_pool = pool, mb_size = ucast size1, mb_entry = 0,
     in_offset = 0, out_offset = 0\<rparr>"

text \<open>\<open>pool\<close> is the memory at \<open>msgpool\<close>.\<close>

definition rt_mb_init :: "nat \<Rightarrow> u32 list \<Rightarrow> u32 \<Rightarrow> u8 \<Rightarrow> 'z ipc_scheme \<Rightarrow> (rt_err \<times> 'z ipc_scheme) option" where
  "rt_mb_init i pool size1 flag s = do {
     rt_assert (flag_ok flag);
     rt_assert (objs s i = None);
     let s = ipc_object_init i s;
     let s = put_obj i (ClassMailBox (new_mailbox True flag size1 pool)) s;
     Some (RT_EOK, sender_list_init i s) }"

text \<open>The removal is here a call that nothing interrupts; the theory Release has its sections.\<close>

definition rt_mb_detach :: "nat \<Rightarrow> 'z ipc_scheme \<Rightarrow> (rt_err \<times> 'z ipc_scheme) option" where
  "rt_mb_detach i s = do {
     mb \<leftarrow> get_mb i s;
     rt_assert (io_static mb);
     s \<leftarrow> ipc_list_resume_all (Suspend i) s;
     s \<leftarrow> ipc_list_resume_all (SuspendSender i) s;
     Some (RT_EOK, drop_obj i s) }"

text \<open>
  \<open>obj\<close> is what \<open>rt_object_allocate\<close> gives, \<open>mem k\<close> what \<open>RT_KERNEL_MALLOC\<close> gives for \<open>k\<close> words.
\<close>

definition rt_mb_create :: "nat option \<Rightarrow> (nat \<Rightarrow> u32 list option) \<Rightarrow> u32 \<Rightarrow> u8 \<Rightarrow> 'z ipc_scheme \<Rightarrow> (nat option \<times> 'z ipc_scheme) option" where
  "rt_mb_create obj mem size1 flag s = do {
     rt_assert (flag_ok flag);
     debug_not_in_interrupt s;
     (case obj of
        None \<Rightarrow> Some (None, s)
      | Some i \<Rightarrow>
          (let s = ipc_object_init i s
           in case mem (unat (ucast size1 :: u16)) of
                None \<Rightarrow> Some (None, drop_obj i s)
              | Some pool \<Rightarrow>
                  (let s = put_obj i (ClassMailBox (new_mailbox False flag size1 pool)) s
                   in Some (Some i, sender_list_init i s)))) }"

definition rt_mb_delete :: "nat \<Rightarrow> 'z ipc_scheme \<Rightarrow> (rt_err \<times> 'z ipc_scheme) option" where
  "rt_mb_delete i s = do {
     mb \<leftarrow> get_mb i s;
     rt_assert (\<not> io_static mb);
     debug_not_in_interrupt s;
     s \<leftarrow> ipc_list_resume_all (Suspend i) s;
     s \<leftarrow> ipc_list_resume_all (SuspendSender i) s;
     Some (RT_EOK, drop_obj i s) }"

text \<open>
  The store of a send: the value, the position, the count. \<open>None\<close> is an access outside the pool.
\<close>

definition mb_put :: "u32 \<Rightarrow> rt_mailbox \<Rightarrow> (rt_err \<times> rt_mailbox) option" where
  "mb_put v mb = do {
     rt_assert (unat (in_offset mb) < length (mb_pool mb));
     let mb = mb\<lparr>mb_pool := (mb_pool mb)[unat (in_offset mb) := v]\<rparr>;
     let mb = mb\<lparr>in_offset := in_offset mb + 1\<rparr>;
     let mb = (if mb_size mb \<le> in_offset mb then mb\<lparr>in_offset := 0\<rparr> else mb);
     (if mb_entry mb < RT_MB_ENTRY_MAX
      then Some (RT_EOK, mb\<lparr>mb_entry := mb_entry mb + 1\<rparr>)
      else Some (E_FULL, mb)) }"

definition mb_push :: "u32 \<Rightarrow> rt_mailbox \<Rightarrow> rt_mailbox option" where
  "mb_push v mb = do {
     let mb = (if 0 < out_offset mb then mb\<lparr>out_offset := out_offset mb - 1\<rparr>
               else mb\<lparr>out_offset := mb_size mb - 1\<rparr>);
     rt_assert (unat (out_offset mb) < length (mb_pool mb));
     let mb = mb\<lparr>mb_pool := (mb_pool mb)[unat (out_offset mb) := v]\<rparr>;
     Some (mb\<lparr>mb_entry := mb_entry mb + 1\<rparr>) }"

definition mb_get :: "rt_mailbox \<Rightarrow> (u32 \<times> rt_mailbox) option" where
  "mb_get mb = do {
     rt_assert (unat (out_offset mb) < length (mb_pool mb));
     let v = mb_pool mb ! unat (out_offset mb);
     let mb = mb\<lparr>out_offset := out_offset mb + 1\<rparr>;
     let mb = (if mb_size mb \<le> out_offset mb then mb\<lparr>out_offset := 0\<rparr> else mb);
     Some (v, if 0 < mb_entry mb then mb\<lparr>mb_entry := mb_entry mb - 1\<rparr> else mb) }"

text \<open>\<open>rt_mb_send_wait\<close> from its loop on: one more wait, or the store.\<close>

definition mb_send_loop :: "nat \<Rightarrow> u32 \<Rightarrow> i32 \<Rightarrow> 'z ipc_scheme \<Rightarrow> (rt_err call \<times> 'z ipc_scheme) option" where
  "mb_send_loop i v timeout s = do {
     mb \<leftarrow> get_mb i s;
     (if mb_entry mb = mb_size mb then do {
        t \<leftarrow> rt_thread_self s;
        let s = upd_thread t (\<lambda>th. th\<lparr>th_error := RT_EOK\<rparr>) s;
        (if timeout = 0 then Some (Ret E_FULL, s)
         else do {
           s \<leftarrow> ipc_block (SuspendSender i) t (io_flag mb) timeout s;
           Some (Blocked, s) }) }
      else do {
        (e, mb) \<leftarrow> mb_put v mb;
        let s = put_obj i (ClassMailBox mb) s;
        (if e = RT_EOK then do { s \<leftarrow> wake_first (Suspend i) s; Some (Ret RT_EOK, s) }
         else Some (Ret e, s)) }) }"

definition rt_mb_send_wait :: "nat \<Rightarrow> u32 \<Rightarrow> i32 \<Rightarrow> 'z ipc_scheme \<Rightarrow> (rt_err call \<times> 'z ipc_scheme) option" where
  "rt_mb_send_wait i v timeout s = do {
     mb \<leftarrow> get_mb i s;
     debug_scheduler_available (timeout \<noteq> 0) s;
     (if mb_entry mb = mb_size mb \<and> timeout = 0 then Some (Ret E_FULL, s)
      else mb_send_loop i v timeout s) }"

text \<open>The rest of a send that waited since tick \<open>since\<close>, in the thread that waited.\<close>

definition mb_send_resume :: "nat \<Rightarrow> u32 \<Rightarrow> i32 \<Rightarrow> tick \<Rightarrow> 'z ipc_scheme \<Rightarrow> (rt_err call \<times> 'z ipc_scheme) option" where
  "mb_send_resume i v timeout since s = do {
     t \<leftarrow> rt_thread_self s;
     th \<leftarrow> threads s t;
     (if th_error th \<noteq> RT_EOK then Some (Ret (th_error th), s)
      else mb_send_loop i v (wait_left timeout (rt_tick_get s - since)) s) }"

definition rt_mb_send :: "nat \<Rightarrow> u32 \<Rightarrow> 'z ipc_scheme \<Rightarrow> (rt_err call \<times> 'z ipc_scheme) option" where
  "rt_mb_send i v s = rt_mb_send_wait i v 0 s"

definition rt_mb_urgent :: "nat \<Rightarrow> u32 \<Rightarrow> 'z ipc_scheme \<Rightarrow> (rt_err \<times> 'z ipc_scheme) option" where
  "rt_mb_urgent i v s = do {
     mb \<leftarrow> get_mb i s;
     (if mb_entry mb = mb_size mb then Some (E_FULL, s)
      else do {
        mb \<leftarrow> mb_push v mb;
        s \<leftarrow> wake_first (Suspend i) (put_obj i (ClassMailBox mb) s);
        Some (RT_EOK, s) }) }"

definition mb_recv_loop :: "nat \<Rightarrow> i32 \<Rightarrow> 'z ipc_scheme \<Rightarrow> ((rt_err \<times> u32 option) call \<times> 'z ipc_scheme) option" where
  "mb_recv_loop i timeout s = do {
     mb \<leftarrow> get_mb i s;
     (if mb_entry mb = 0 then do {
        t \<leftarrow> rt_thread_self s;
        let s = upd_thread t (\<lambda>th. th\<lparr>th_error := RT_EOK\<rparr>) s;
        (if timeout = 0 then Some (Ret (E_TIMEOUT, None), upd_thread t (\<lambda>th. th\<lparr>th_error := E_TIMEOUT\<rparr>) s)
         else do {
           s \<leftarrow> ipc_block (Suspend i) t (io_flag mb) timeout s;
           Some (Blocked, s) }) }
      else do {
        (v, mb) \<leftarrow> mb_get mb;
        s \<leftarrow> wake_first (SuspendSender i) (put_obj i (ClassMailBox mb) s);
        Some (Ret (RT_EOK, Some v), s) }) }"

definition rt_mb_recv :: "nat \<Rightarrow> i32 \<Rightarrow> 'z ipc_scheme \<Rightarrow> ((rt_err \<times> u32 option) call \<times> 'z ipc_scheme) option" where
  "rt_mb_recv i timeout s = do {
     mb \<leftarrow> get_mb i s;
     debug_scheduler_available (timeout \<noteq> 0) s;
     (if mb_entry mb = 0 \<and> timeout = 0 then Some (Ret (E_TIMEOUT, None), s)
      else mb_recv_loop i timeout s) }"

definition mb_recv_resume :: "nat \<Rightarrow> i32 \<Rightarrow> tick \<Rightarrow> 'z ipc_scheme \<Rightarrow> ((rt_err \<times> u32 option) call \<times> 'z ipc_scheme) option" where
  "mb_recv_resume i timeout since s = do {
     t \<leftarrow> rt_thread_self s;
     th \<leftarrow> threads s t;
     (if th_error th \<noteq> RT_EOK then Some (Ret (th_error th, None), s)
      else mb_recv_loop i (wait_left timeout (rt_tick_get s - since)) s) }"

definition rt_mb_control :: "nat \<Rightarrow> ipc_cmd \<Rightarrow> 'z ipc_scheme \<Rightarrow> (rt_err \<times> 'z ipc_scheme) option" where
  "rt_mb_control i cmd s = do {
     mb \<leftarrow> get_mb i s;
     (case cmd of
        RT_IPC_CMD_RESET _ \<Rightarrow> do {
          s \<leftarrow> ipc_list_resume_all (Suspend i) s;
          s \<leftarrow> ipc_list_resume_all (SuspendSender i) s;
          s \<leftarrow> rt_schedule (put_obj i (ClassMailBox (mb\<lparr>mb_entry := 0, in_offset := 0, out_offset := 0\<rparr>)) s);
          Some (RT_EOK, s) }
      | RT_IPC_CMD_OTHER _ \<Rightarrow> Some (E_ERROR, s)) }"

section \<open>The mailbox is a bounded FIFO\<close>

definition mb_inv :: "rt_mailbox \<Rightarrow> bool" where
  "mb_inv mb \<longleftrightarrow> unat (mb_size mb) \<le> length (mb_pool mb) \<and> mb_entry mb \<le> mb_size mb \<and>
     (if mb_size mb = 0 then in_offset mb = 0 \<and> out_offset mb = 0
      else out_offset mb < mb_size mb \<and>
        unat (in_offset mb) = (unat (out_offset mb) + unat (mb_entry mb)) mod unat (mb_size mb))"

definition mb_abs :: "rt_mailbox \<Rightarrow> u32 list" where
  "mb_abs mb = circ (mb_pool mb) (unat (mb_size mb)) (unat (out_offset mb)) (unat (mb_entry mb))"

definition mb_cap :: "rt_mailbox \<Rightarrow> nat" where
  "mb_cap mb = unat (mb_size mb)"

lemma unat_inc_lt:
  fixes x y :: "'a::len word"
  assumes "x < y"
  shows "unat (x + 1) = Suc (unat x)"
proof -
  have "unat y < 2 ^ LENGTH('a)" "unat (1 :: 'a word) = 1" by (rule unsigned_less, simp)
  then have "unat x + unat (1 :: 'a word) < 2 ^ LENGTH('a)"
    using assms unfolding word_less_nat_alt by linarith
  then have "unat (x + 1) = unat x + unat (1 :: 'a word)" by (rule unat_add_lem [THEN iffD1])
  then show ?thesis by simp
qed

lemma unat_dec_gt:
  fixes x :: "'a::len word"
  assumes "0 < x"
  shows "unat (x - 1) = unat x - 1"
  using assms unat_sub [of 1 x] by (simp add: word_le_nat_alt word_less_nat_alt)

lemma mb_put_ok:
  assumes inv: "mb_inv mb" and n: "mb_entry mb \<noteq> mb_size mb"
  shows "\<exists>mb'. mb_put v mb = Some (RT_EOK, mb') \<and> mb_inv mb' \<and> mb_abs mb' = mb_abs mb @ [v] \<and>
    mb_size mb' = mb_size mb \<and> io_flag mb' = io_flag mb \<and> io_static mb' = io_static mb"
proof -
  let ?n = "unat (mb_size mb)" and ?o = "unat (out_offset mb)" and ?m = "unat (mb_entry mb)"
  have lt: "mb_entry mb < mb_size mb" using inv n by (auto simp: mb_inv_def)
  then have pos: "mb_size mb \<noteq> 0" by (metis word_not_simps(1))
  then have i: "unat (in_offset mb) = (?o + ?m) mod ?n" "unat (in_offset mb) < ?n" "?n \<le> length (mb_pool mb)" "?m < ?n"
    using inv lt by (auto simp: mb_inv_def unat_gt_0 word_less_nat_alt)
  have max: "mb_entry mb < RT_MB_ENTRY_MAX"
    using lt unsigned_less [of "mb_size mb", where 'a = nat] by (simp add: RT_MB_ENTRY_MAX_def word_less_nat_alt)
  have e: "unat (mb_entry mb + 1) = Suc ?m" by (rule unat_inc_lt [OF lt])
  have "in_offset mb < mb_size mb" using i(2) by (simp add: word_less_nat_alt)
  then have i': "unat (in_offset mb + 1) = Suc (unat (in_offset mb))" by (rule unat_inc_lt)
  let ?i' = "if mb_size mb \<le> in_offset mb + 1 then 0 else in_offset mb + 1"
  let ?mb = "mb\<lparr>mb_pool := (mb_pool mb)[unat (in_offset mb) := v], in_offset := ?i', mb_entry := mb_entry mb + 1\<rparr>"
  have step: "mb_put v mb = Some (RT_EOK, ?mb)"
    using less_le_trans [OF i(2,3)] max by (simp add: mb_put_def Let_def cong: if_cong)
  have wrap: "unat ?i' = (?o + Suc ?m) mod ?n"
    using circ_next [OF i(1,2)] i' by (auto simp: word_le_nat_alt not_le)
  show ?thesis
  proof (intro exI [of _ ?mb] conjI)
    have "mb_entry mb + 1 \<le> mb_size mb" using e i(4) by (simp add: word_le_nat_alt)
    then show "mb_inv ?mb" using inv pos wrap e by (simp add: mb_inv_def)
    show "mb_abs ?mb = mb_abs mb @ [v]"
      using circ_put [OF i(4,3), of ?o v] by (simp add: mb_abs_def e i(1))
  qed (use step in simp_all)
qed

lemma mb_push_ok:
  assumes inv: "mb_inv mb" and n: "mb_entry mb \<noteq> mb_size mb"
  shows "\<exists>mb'. mb_push v mb = Some mb' \<and> mb_inv mb' \<and> mb_abs mb' = v # mb_abs mb \<and>
    mb_size mb' = mb_size mb \<and> io_flag mb' = io_flag mb \<and> io_static mb' = io_static mb"
proof -
  let ?n = "unat (mb_size mb)" and ?o = "unat (out_offset mb)" and ?m = "unat (mb_entry mb)"
  have lt: "mb_entry mb < mb_size mb" using inv n by (auto simp: mb_inv_def)
  then have nz: "mb_size mb \<noteq> 0" by (metis word_not_simps(1))
  then have pos: "0 < mb_size mb" by (simp add: word_gt_0)
  have i: "unat (in_offset mb) = (?o + ?m) mod ?n" "?o < ?n" "?n \<le> length (mb_pool mb)" "?m < ?n"
    using inv lt nz by (auto simp: mb_inv_def word_less_nat_alt)
  have e: "unat (mb_entry mb + 1) = Suc ?m" by (rule unat_inc_lt [OF lt])
  define o' where "o' = (if 0 < out_offset mb then out_offset mb - 1 else mb_size mb - 1)"
  have o: "unat o' < ?n" "Suc (unat o') mod ?n = ?o"
  proof -
    consider "0 < ?o" "unat o' = ?o - 1" | "?o = 0" "unat o' = ?n - 1"
      using unat_dec_gt [of "out_offset mb"] unat_dec_gt [OF pos]
      by (cases "0 < out_offset mb") (auto simp: o'_def word_less_nat_alt)
    then show "unat o' < ?n" "Suc (unat o') mod ?n = ?o" using i(2) by (cases; simp)+
  qed
  have ol: "o' < mb_size mb" using o(1) by (simp add: word_less_nat_alt)
  let ?mb = "mb\<lparr>out_offset := o', mb_pool := (mb_pool mb)[unat o' := v], mb_entry := mb_entry mb + 1\<rparr>"
  have step: "mb_push v mb = Some ?mb"
    using less_le_trans [OF o(1) i(3)] by (simp add: mb_push_def o'_def split: if_splits)
  show ?thesis
  proof (intro exI [of _ ?mb] conjI)
    have "mb_entry mb + 1 \<le> mb_size mb" using e i(4) by (simp add: word_le_nat_alt)
    moreover have "(?o + ?m) mod ?n = (unat o' + Suc ?m) mod ?n"
      using o(2) mod_add_left_eq [of "Suc (unat o')" ?n ?m] by simp
    ultimately show "mb_inv ?mb" using inv pos ol e i(1) by (auto simp: mb_inv_def)
    show "mb_abs ?mb = v # mb_abs mb"
      using circ_push [OF i(4,3) o] by (simp add: mb_abs_def e)
  qed (use step in simp_all)
qed

lemma mb_get_ok:
  assumes inv: "mb_inv mb" and n: "mb_entry mb \<noteq> 0"
  shows "\<exists>v mb'. mb_get mb = Some (v, mb') \<and> mb_inv mb' \<and> mb_abs mb = v # mb_abs mb' \<and>
    mb_size mb' = mb_size mb \<and> io_flag mb' = io_flag mb \<and> io_static mb' = io_static mb"
proof -
  let ?n = "unat (mb_size mb)" and ?o = "unat (out_offset mb)" and ?m = "unat (mb_entry mb)"
  have gt: "0 < mb_entry mb" using n by (simp add: word_gt_0)
  have m: "unat (mb_entry mb - 1) = ?m - 1" "0 < ?m"
    using unat_dec_gt [OF gt] gt by (simp_all add: word_less_nat_alt)
  have pos: "mb_size mb \<noteq> 0" using inv n by (auto simp: mb_inv_def)
  have i: "unat (in_offset mb) = (?o + ?m) mod ?n" "?o < ?n" "?n \<le> length (mb_pool mb)" "?m \<le> ?n"
    using inv pos by (auto simp: mb_inv_def word_less_nat_alt word_le_nat_alt)
  have ol: "out_offset mb < mb_size mb" using i(2) by (simp add: word_less_nat_alt)
  have o1: "unat (out_offset mb + 1) = Suc ?o" by (rule unat_inc_lt [OF ol])
  define o' where "o' = (if mb_size mb \<le> out_offset mb + 1 then 0 else out_offset mb + 1)"
  have o': "unat o' = Suc ?o mod ?n"
    using circ_next [of ?o ?o ?n] i(2) o1 by (auto simp: o'_def word_le_nat_alt not_le)
  have o'l: "o' < mb_size mb" using o' i(2) by (simp add: word_less_nat_alt)
  let ?mb = "mb\<lparr>out_offset := o', mb_entry := mb_entry mb - 1\<rparr>"
  have step: "mb_get mb = Some (mb_pool mb ! ?o, ?mb)"
    using less_le_trans [OF i(2,3)] gt by (simp add: mb_get_def Let_def o'_def cong: if_cong)
  show ?thesis
  proof (intro exI [of _ "mb_pool mb ! ?o"] exI [of _ ?mb] conjI)
    have "mb_entry mb - 1 \<le> mb_size mb" using m i(4) by (simp add: word_le_nat_alt)
    moreover have "(?o + ?m) mod ?n = (unat o' + (?m - 1)) mod ?n" 
    proof -
      have "(Suc ?o mod ?n + (?m - 1)) mod ?n = (Suc ?o + (?m - 1)) mod ?n" by (rule mod_add_left_eq)
      then show ?thesis using o' m(2) by simp
    qed
    ultimately show "mb_inv ?mb" using inv pos o'l m i(1) by (auto simp: mb_inv_def)
    have "mb_abs mb = circ (mb_pool mb) ?n ?o (Suc (?m - 1))" using m(2) by (simp add: mb_abs_def)
    also have "\<dots> = mb_pool mb ! ?o # mb_abs ?mb" using i(2) by (simp add: circ_get mb_abs_def m(1) o')
    finally show "mb_abs mb = mb_pool mb ! ?o # mb_abs ?mb" .
  qed (use step in simp_all)
qed

text \<open>The store and the fetch as the queue operations, with the tests the calls make.\<close>

definition mb_enq :: "u32 \<Rightarrow> rt_mailbox \<Rightarrow> rt_mailbox option" where
  "mb_enq v mb = (if mb_entry mb = mb_size mb then None
    else case mb_put v mb of Some (RT_EOK, mb') \<Rightarrow> Some mb' | _ \<Rightarrow> None)"

definition mb_deq :: "rt_mailbox \<Rightarrow> (u32 \<times> rt_mailbox) option" where
  "mb_deq mb = (if mb_entry mb = 0 then None else mb_get mb)"

lemma mb_length [simp]: "length (mb_abs mb) = unat (mb_entry mb)"
  by (simp add: mb_abs_def)

interpretation mbox: bounded_fifo mb_inv mb_abs mb_cap mb_enq mb_deq
proof unfold_locales
  fix mb :: rt_mailbox and v and vs
  assume inv: "mb_inv mb"
  show "length (mb_abs mb) \<le> mb_cap mb" using inv by (simp add: mb_inv_def mb_cap_def word_le_nat_alt)
  show "\<exists>mb'. mb_enq v mb = Some mb' \<and> mb_inv mb' \<and> mb_abs mb' = mb_abs mb @ [v] \<and> mb_cap mb' = mb_cap mb"
    if "length (mb_abs mb) < mb_cap mb"
    using mb_put_ok [OF inv, of v] that by (fastforce simp: mb_enq_def mb_cap_def)
  show "mb_enq v mb = None" if "length (mb_abs mb) = mb_cap mb"
    using that by (simp add: mb_enq_def mb_cap_def word_unat_eq_iff)
  show "mb_deq mb = None" if "mb_abs mb = []"
    using that mb_length [of mb] by (simp add: mb_deq_def word_unat_eq_iff del: mb_length)
  show "\<exists>mb'. mb_deq mb = Some (v, mb') \<and> mb_inv mb' \<and> mb_abs mb' = vs \<and> mb_cap mb' = mb_cap mb"
    if a: "mb_abs mb = v # vs"
  proof -
    have "mb_entry mb \<noteq> 0" using a mb_length [of mb] by auto
    then show ?thesis using mb_get_ok [OF inv] a by (fastforce simp: mb_deq_def mb_cap_def)
  qed
qed

section \<open>The operations keep the invariant\<close>

definition mb_ok :: "rt_mailbox \<Rightarrow> bool" where
  "mb_ok mb \<longleftrightarrow> flag_ok (io_flag mb) \<and> mb_inv mb"

definition mb_op :: "nat \<Rightarrow> 'z ipc_scheme \<Rightarrow> 'z ipc_scheme \<Rightarrow> bool" where
  "mb_op i s s' \<longleftrightarrow> op_ok i s s' \<and> (\<exists>mb. objs s' i = Some (ClassMailBox mb) \<and> mb_ok mb)"

lemma put_wake:
  assumes q: "kernel_quiet s" and c: "cur s \<noteq> None" and l: "is_wait l"
  shows "\<exists>s'. wake_first l (put_obj i ob s) = Some s' \<and> op_ok i s s' \<and> objs s' i = Some ob \<and>
    lists s' l = tl (lists s l) \<and> (\<forall>l'. is_wait l' \<longrightarrow> l' \<noteq> l \<longrightarrow> lists s' l' = lists s l') \<and>
    made_runnable (take 1 (lists s l)) s s'"
proof -
  have q': "kernel_quiet (put_obj i ob s)" "cur (put_obj i ob s) \<noteq> None" using q c by simp_all
  obtain s' where s': "wake_first l (put_obj i ob s) = Some s'" "op_ok i (put_obj i ob s) s'"
      "objs s' = objs (put_obj i ob s)" "lists s' l = tl (lists (put_obj i ob s) l)"
      "\<forall>l'. is_wait l' \<longrightarrow> l' \<noteq> l \<longrightarrow> lists s' l' = lists (put_obj i ob s) l'"
      "made_runnable (take 1 (lists (put_obj i ob s) l)) (put_obj i ob s) s'"
    using wake_first_ok [OF q' l] by blast
  have "op_ok i s s'" using s'(2) other_frame_trans [OF put_other_frame(1)] by (auto simp: op_ok_def)
  then show ?thesis using s' by (intro exI [of _ s']) (simp add: made_runnable_def)
qed

lemma op_ok_refl': "kernel_quiet s \<Longrightarrow> cur s \<noteq> None \<Longrightarrow> op_ok i s s"
  by (simp add: op_ok_def wait_other_frame)

lemma mb_send_now:
  assumes q: "kernel_quiet s" and c: "cur s \<noteq> None" and o: "objs s i = Some (ClassMailBox mb)" and ok: "mb_ok mb"
    and n: "mb_entry mb \<noteq> mb_size mb"
  shows "\<exists>s' mb'. mb_send_loop i v timeout s = Some (Ret RT_EOK, s') \<and> mb_op i s s' \<and>
    objs s' i = Some (ClassMailBox mb') \<and> mb_abs mb' = mb_abs mb @ [v] \<and> mb_cap mb' = mb_cap mb \<and>
    lists s' (Suspend i) = tl (lists s (Suspend i)) \<and> lists s' (SuspendSender i) = lists s (SuspendSender i) \<and>
    made_runnable (take 1 (lists s (Suspend i))) s s'"
proof -
  obtain mb' where mb': "mb_put v mb = Some (RT_EOK, mb')" "mb_inv mb'" "mb_abs mb' = mb_abs mb @ [v]"
      "mb_size mb' = mb_size mb" "io_flag mb' = io_flag mb"
    using mb_put_ok [OF _ n] ok by (auto simp: mb_ok_def)
  obtain s' where s': "wake_first (Suspend i) (put_obj i (ClassMailBox mb') s) = Some s'" "op_ok i s s'"
    "objs s' i = Some (ClassMailBox mb')" "lists s' (Suspend i) = tl (lists s (Suspend i))"
    "lists s' (SuspendSender i) = lists s (SuspendSender i)" "made_runnable (take 1 (lists s (Suspend i))) s s'"
    using put_wake [OF q c, of "Suspend i" i "ClassMailBox mb'"] by auto
  have "mb_send_loop i v timeout s = Some (Ret RT_EOK, s')"
    using o n mb'(1) s'(1) by (simp add: mb_send_loop_def get_mb_def)
  then show ?thesis using s' mb' ok
    by (intro exI [of _ s'] exI [of _ mb']) (simp add: mb_op_def mb_ok_def mb_cap_def)
qed

lemma mb_send_block:
  assumes q: "kernel_quiet s" and r: "runs s c th" and o: "objs s i = Some (ClassMailBox mb)" and ok: "mb_ok mb"
    and n: "mb_entry mb = mb_size mb" and tm: "timeout \<noteq> 0" "time_ok timeout"
  shows "\<exists>s' th'. mb_send_loop i v timeout s = Some (Blocked, s') \<and> mb_op i s s' \<and> objs s' = objs s \<and>
    lists s' (SuspendSender i) = queued (io_flag mb) s c (current_priority th) (lists s (SuspendSender i)) \<and>
    lists s' (Suspend i) = lists s (Suspend i) \<and>
    threads s' c = Some th' \<and> stat th' = RT_THREAD_SUSPEND \<and> th_error th' = RT_EOK"
proof -
  have f: "flag_ok (io_flag mb)" using ok by (simp add: mb_ok_def)
  obtain s' th' where s': "ipc_block (SuspendSender i) c (io_flag mb) timeout (upd_thread c (\<lambda>th. th\<lparr>th_error := RT_EOK\<rparr>) s) = Some s'"
    "op_ok i s s'" "objs s' = objs s"
    "lists s' (SuspendSender i) = queued (io_flag mb) s c (current_priority th) (lists s (SuspendSender i))"
    "\<forall>l'. is_wait l' \<longrightarrow> l' \<noteq> SuspendSender i \<longrightarrow> lists s' l' = lists s l'"
    "threads s' c = Some th'" "stat th' = RT_THREAD_SUSPEND" "th_error th' = RT_EOK"
    using wait_op [OF q r disjI2 [OF refl] f tm(2)] by blast
  have "mb_send_loop i v timeout s = Some (Blocked, s')"
    using o n tm s'(1) runsD [OF r] by (simp add: mb_send_loop_def get_mb_def rt_thread_self_def)
  then show ?thesis using s' o ok by (intro exI [of _ s'] exI [of _ th']) (simp add: mb_op_def)
qed

lemma mb_op_error:
  assumes q: "kernel_quiet s" and r: "runs s c th" and o: "objs s i = Some (ClassMailBox mb)" and ok: "mb_ok mb"
  shows "mb_op i s (upd_thread c (\<lambda>th. th\<lparr>th_error := e\<rparr>) s)"
proof -
  have "op_ok i s (upd_thread c (\<lambda>th. th\<lparr>th_error := e\<rparr>) s)"
    using clear_error(1,3) [OF q r] runsD [OF r] by (simp add: op_ok_def)
  then show ?thesis using o ok by (simp add: mb_op_def)
qed

lemma mb_recv_now:
  assumes q: "kernel_quiet s" and c: "cur s \<noteq> None" and o: "objs s i = Some (ClassMailBox mb)" and ok: "mb_ok mb"
    and n: "mb_entry mb \<noteq> 0"
  shows "\<exists>s' mb' v. mb_recv_loop i timeout s = Some (Ret (RT_EOK, Some v), s') \<and> mb_op i s s' \<and>
    objs s' i = Some (ClassMailBox mb') \<and> mb_abs mb = v # mb_abs mb' \<and> mb_cap mb' = mb_cap mb \<and>
    lists s' (SuspendSender i) = tl (lists s (SuspendSender i)) \<and> lists s' (Suspend i) = lists s (Suspend i) \<and>
    made_runnable (take 1 (lists s (SuspendSender i))) s s'"
proof -
  obtain v mb' where mb': "mb_get mb = Some (v, mb')" "mb_inv mb'" "mb_abs mb = v # mb_abs mb'"
      "mb_size mb' = mb_size mb" "io_flag mb' = io_flag mb"
    using mb_get_ok [OF _ n] ok by (auto simp: mb_ok_def)
  obtain s' where s': "wake_first (SuspendSender i) (put_obj i (ClassMailBox mb') s) = Some s'" "op_ok i s s'"
    "objs s' i = Some (ClassMailBox mb')" "lists s' (SuspendSender i) = tl (lists s (SuspendSender i))"
    "lists s' (Suspend i) = lists s (Suspend i)" "made_runnable (take 1 (lists s (SuspendSender i))) s s'"
    using put_wake [OF q c, of "SuspendSender i" i "ClassMailBox mb'"] by auto
  have "mb_recv_loop i timeout s = Some (Ret (RT_EOK, Some v), s')"
    using o n mb'(1) s'(1) by (simp add: mb_recv_loop_def get_mb_def)
  then show ?thesis using s' mb' ok
    by (intro exI [of _ s'] exI [of _ mb'] exI [of _ v]) (simp add: mb_op_def mb_ok_def mb_cap_def)
qed

lemma mb_recv_block:
  assumes q: "kernel_quiet s" and r: "runs s c th" and o: "objs s i = Some (ClassMailBox mb)" and ok: "mb_ok mb"
    and n: "mb_entry mb = 0" and tm: "timeout \<noteq> 0" "time_ok timeout"
  shows "\<exists>s' th'. mb_recv_loop i timeout s = Some (Blocked, s') \<and> mb_op i s s' \<and> objs s' = objs s \<and>
    lists s' (Suspend i) = queued (io_flag mb) s c (current_priority th) (lists s (Suspend i)) \<and>
    lists s' (SuspendSender i) = lists s (SuspendSender i) \<and>
    threads s' c = Some th' \<and> stat th' = RT_THREAD_SUSPEND \<and> th_error th' = RT_EOK"
proof -
  have f: "flag_ok (io_flag mb)" using ok by (simp add: mb_ok_def)
  obtain s' th' where s': "ipc_block (Suspend i) c (io_flag mb) timeout (upd_thread c (\<lambda>th. th\<lparr>th_error := RT_EOK\<rparr>) s) = Some s'"
    "op_ok i s s'" "objs s' = objs s"
    "lists s' (Suspend i) = queued (io_flag mb) s c (current_priority th) (lists s (Suspend i))"
    "\<forall>l'. is_wait l' \<longrightarrow> l' \<noteq> Suspend i \<longrightarrow> lists s' l' = lists s l'"
    "threads s' c = Some th'" "stat th' = RT_THREAD_SUSPEND" "th_error th' = RT_EOK"
    using wait_op [OF q r disjI1 [OF refl] f tm(2)] by blast
  have "mb_recv_loop i timeout s = Some (Blocked, s')"
    using o n tm s'(1) runsD [OF r] by (simp add: mb_recv_loop_def get_mb_def rt_thread_self_def)
  then show ?thesis using s' o ok by (intro exI [of _ s'] exI [of _ th']) (simp add: mb_op_def)
qed

lemma mb_urgent_now:
  assumes q: "kernel_quiet s" and c: "cur s \<noteq> None" and o: "objs s i = Some (ClassMailBox mb)" and ok: "mb_ok mb"
    and n: "mb_entry mb \<noteq> mb_size mb"
  shows "\<exists>s' mb'. rt_mb_urgent i v s = Some (RT_EOK, s') \<and> mb_op i s s' \<and>
    objs s' i = Some (ClassMailBox mb') \<and> mb_abs mb' = v # mb_abs mb \<and> mb_cap mb' = mb_cap mb \<and>
    lists s' (Suspend i) = tl (lists s (Suspend i)) \<and> made_runnable (take 1 (lists s (Suspend i))) s s'"
proof -
  obtain mb' where mb': "mb_push v mb = Some mb'" "mb_inv mb'" "mb_abs mb' = v # mb_abs mb"
      "mb_size mb' = mb_size mb" "io_flag mb' = io_flag mb"
    using mb_push_ok [OF _ n] ok by (auto simp: mb_ok_def)
  obtain s' where s': "wake_first (Suspend i) (put_obj i (ClassMailBox mb') s) = Some s'" "op_ok i s s'"
    "objs s' i = Some (ClassMailBox mb')" "lists s' (Suspend i) = tl (lists s (Suspend i))"
    "made_runnable (take 1 (lists s (Suspend i))) s s'"
    using put_wake [OF q c, of "Suspend i" i "ClassMailBox mb'"] by auto
  have "rt_mb_urgent i v s = Some (RT_EOK, s')"
    using o n mb'(1) s'(1) by (simp add: rt_mb_urgent_def get_mb_def)
  then show ?thesis using s' mb' ok
    by (intro exI [of _ s'] exI [of _ mb']) (simp add: mb_op_def mb_ok_def mb_cap_def)
qed

text \<open>Releasing both lists: what removal and reset do.\<close>

definition failed_waiters :: "nat set \<Rightarrow> 'z sched_scheme \<Rightarrow> 'z sched_scheme \<Rightarrow> bool" where
  "failed_waiters ts s s' \<longleftrightarrow> (\<forall>t \<in> ts. \<exists>th. threads s' t = Some th \<and> runnable (stat th) \<and> th_error th = E_ERROR)"

lemma release_both:
  assumes q: "kernel_quiet s" and c: "cur s \<noteq> None"
  shows "\<exists>s1 s2. ipc_list_resume_all (Suspend i) s = Some s1 \<and> ipc_list_resume_all (SuspendSender i) s1 = Some s2 \<and>
    op_ok i s s2 \<and> objs s2 = objs s \<and> lists s2 (Suspend i) = [] \<and> lists s2 (SuspendSender i) = [] \<and>
    failed_waiters (set (lists s (Suspend i)) \<union> set (lists s (SuspendSender i))) s s2"
proof -
  obtain s1 where s1: "ipc_list_resume_all (Suspend i) s = Some s1" "kernel_quiet s1" "released (Suspend i) s s1"
    using resume_all_quiet [OF q, of "Suspend i"] by auto
  obtain s2 where s2: "ipc_list_resume_all (SuspendSender i) s1 = Some s2" "kernel_quiet s2" "released (SuspendSender i) s1 s2"
    using resume_all_quiet [OF s1(2), of "SuspendSender i"] by auto
  have l1: "lists s1 (SuspendSender i) = lists s (SuspendSender i)" using s1(3) by (simp add: released_def)
  have "other_frame i s s2"
    using other_frame_trans [OF released_other_frame [OF s1(3)] released_other_frame [OF s2(3)]] by blast
  then have "op_ok i s s2" using s2 s1(3) c by (simp add: op_ok_def released_def)
  moreover have "objs s2 = objs s"
    using s2(3) s1(3) by (intro more_objs) (simp add: released_def)
  moreover have "lists s2 (Suspend i) = []" "lists s2 (SuspendSender i) = []"
    using s2(3) s1(3) by (simp_all add: released_def)
  moreover have "failed_waiters (set (lists s (Suspend i)) \<union> set (lists s (SuspendSender i))) s s2"
    unfolding failed_waiters_def
  proof
    fix t assume t: "t \<in> set (lists s (Suspend i)) \<union> set (lists s (SuspendSender i))"
    then obtain th where th: "threads s t = Some th" using waiting_thread [OF q] by fastforce
    consider "t \<in> set (lists s (SuspendSender i))" | "t \<notin> set (lists s (SuspendSender i))" "t \<in> set (lists s (Suspend i))"
      using t by blast
    then show "\<exists>th. threads s2 t = Some th \<and> runnable (stat th) \<and> th_error th = E_ERROR"
    proof cases
      case 1
      moreover obtain th1 where "threads s1 t = Some th1" using s1(3) th
        by (cases "t \<in> set (lists s (Suspend i))") (auto simp: released_def)
      ultimately show ?thesis using s2(3) l1 by (auto simp: released_def)
    next
      case 2
      then show ?thesis using s1(3) s2(3) l1 th by (auto simp: released_def)
    qed
  qed
  ultimately show ?thesis using s1(1) s2(1) by blast
qed

lemma mb_remove_ok:
  assumes q: "kernel_quiet s" and c: "cur s \<noteq> None"
  shows "rt_mb_detach i s = Some (r, s') \<Longrightarrow> gone i s s'" "rt_mb_delete i s = Some (r, s') \<Longrightarrow> gone i s s'"
proof -
  obtain s1 s2 where s2: "ipc_list_resume_all (Suspend i) s = Some s1" "ipc_list_resume_all (SuspendSender i) s1 = Some s2"
      "op_ok i s s2" "lists s2 (Suspend i) = []" "lists s2 (SuspendSender i) = []"
    using release_both [OF q c, of i] by blast
  have "gone i s (drop_obj i s2)"
    using s2 other_frame_trans [of i s s2 "drop_obj i s2"] by (simp add: gone_def op_ok_def)
  then show "rt_mb_detach i s = Some (r, s') \<Longrightarrow> gone i s s'" "rt_mb_delete i s = Some (r, s') \<Longrightarrow> gone i s s'"
    using s2(1,2) by (auto simp: rt_mb_detach_def rt_mb_delete_def elim!: bind_SomeE)
qed

lemma mb_control_ok:
  assumes q: "kernel_quiet s" and c: "cur s \<noteq> None" and o: "objs s i = Some (ClassMailBox mb)" and ok: "mb_ok mb"
  shows "\<exists>s'. rt_mb_control i cmd s = Some (case cmd of RT_IPC_CMD_RESET _ \<Rightarrow> RT_EOK | _ \<Rightarrow> E_ERROR, s') \<and> mb_op i s s' \<and>
    (case cmd of RT_IPC_CMD_RESET _ \<Rightarrow> objs s' i = Some (ClassMailBox (mb\<lparr>mb_entry := 0, in_offset := 0, out_offset := 0\<rparr>)) \<and>
       lists s' (Suspend i) = [] \<and> lists s' (SuspendSender i) = [] | _ \<Rightarrow> s' = s)"
proof (cases cmd)
  case (RT_IPC_CMD_RESET v)
  let ?mb = "mb\<lparr>mb_entry := 0, in_offset := 0, out_offset := 0\<rparr>"
  obtain s1 s2 where s2: "ipc_list_resume_all (Suspend i) s = Some s1" "ipc_list_resume_all (SuspendSender i) s1 = Some s2"
      "op_ok i s s2" "lists s2 (Suspend i) = []" "lists s2 (SuspendSender i) = []"
    using release_both [OF q c, of i] by blast
  let ?s3 = "put_obj i (ClassMailBox ?mb) s2"
  have "kernel_quiet ?s3" "cur ?s3 \<noteq> None" "other_frame i s ?s3"
    using s2(3) other_frame_trans [of i s s2 ?s3] by (auto simp: op_ok_def)
  then obtain s' where s': "rt_schedule ?s3 = Some s'" "op_ok i s s'" "sched_frame ?s3 s'" using op_ok_schedule by blast
  have "mb_ok ?mb" using ok by (auto simp: mb_ok_def mb_inv_def word_gt_0)
  moreover have "objs s' i = Some (ClassMailBox ?mb)" using frame_objs [OF s'(3)] by simp
  ultimately show ?thesis
    using RT_IPC_CMD_RESET o s2 s'(1,2) frame_sel [OF s'(3), of "Suspend i"] frame_sel [OF s'(3), of "SuspendSender i"]
    by (simp add: rt_mb_control_def get_mb_def mb_op_def)
next
  case (RT_IPC_CMD_OTHER x)
  then show ?thesis using o ok op_ok_refl' [OF q c] by (simp add: rt_mb_control_def get_mb_def mb_op_def)
qed

lemma sender_list_init_idle: "lists s (SuspendSender i) = [] \<Longrightarrow> sender_list_init i s = s"
  by (simp add: sender_list_init_def fun_upd_idem)

lemma new_mailbox_inv: "unat (ucast size1 :: u16) \<le> length pool \<Longrightarrow> mb_inv (new_mailbox b flag size1 pool)"
  by (simp add: mb_inv_def new_mailbox_def word_gt_0)

lemma mb_init_ok:
  assumes q: "kernel_quiet s" and c: "cur s \<noteq> None" and n: "objs s i = None" "lists s (Suspend i) = []" "lists s (SuspendSender i) = []"
  shows "unat (ucast size1 :: u16) \<le> length pool \<Longrightarrow> rt_mb_init i pool size1 flag s = Some (r, s') \<Longrightarrow> mb_op i s s'"
    "(\<And>k p. mem k = Some p \<Longrightarrow> k \<le> length p) \<Longrightarrow> rt_mb_create (Some i) mem size1 flag s = Some (ob, s') \<Longrightarrow>
      (if ob = None then s' = s else ob = Some i \<and> mb_op i s s')"
proof -
  have new: "mb_op i s (put_obj i (ClassMailBox (new_mailbox b flag size1 p)) s)"
    if "flag_ok flag" "unat (ucast size1 :: u16) \<le> length p" for b p
    using that op_ok_refl' [OF q c, of i] other_frame_trans [of i s s] new_mailbox_inv [OF that(2)] q c
    by (simp add: mb_op_def mb_ok_def op_ok_def) (simp add: new_mailbox_def)
  then show "unat (ucast size1 :: u16) \<le> length pool \<Longrightarrow> rt_mb_init i pool size1 flag s = Some (r, s') \<Longrightarrow> mb_op i s s'"
    using n by (auto simp: rt_mb_init_def ipc_object_init_idle sender_list_init_idle elim!: bind_SomeE)
  have "drop_obj i s = s" using n by (simp add: drop_obj_def fun_upd_idem)
  then show "(\<And>k p. mem k = Some p \<Longrightarrow> k \<le> length p) \<Longrightarrow> rt_mb_create (Some i) mem size1 flag s = Some (ob, s') \<Longrightarrow>
      (if ob = None then s' = s else ob = Some i \<and> mb_op i s s')"
    using n new by (auto simp: rt_mb_create_def ipc_object_init_idle sender_list_init_idle Let_def elim!: bind_SomeE split: option.splits)
qed

section \<open>Properties\<close>

text \<open>
  The words sent to a mailbox come out in the order of sending, whatever the ring position and
  whatever was queued before: after any run of stores that fits, as many fetches as there are words
  return exactly the queue and leave it empty.
\<close>

theorem mailbox_fifo_round_trip:
  assumes "mb_inv mb" and "length (mb_abs mb) + length vs \<le> unat (mb_size mb)"
  shows "\<exists>mb1 mb2. enq_all mb_enq vs mb = Some mb1 \<and>
    deq_many mb_deq (length (mb_abs mb) + length vs) mb1 = Some (mb_abs mb @ vs, mb2) \<and> mb_inv mb2 \<and> mb_abs mb2 = []"
  by (rule mbox.round_trip) (use assms in \<open>simp_all add: mb_cap_def\<close>)

definition ex_mailbox :: rt_mailbox where
  "ex_mailbox = \<lparr>io_static = True, io_flag = 0, mb_pool = [7, 8, 9], mb_size = 3, mb_entry = 1, in_offset = 0, out_offset = 2\<rparr>"

lemma ex_mailbox_inv: "mb_inv ex_mailbox" "mb_abs ex_mailbox = [9]"
  by (simp_all add: ex_mailbox_def mb_inv_def mb_abs_def circ_def)

theorem mailbox_fifo_round_trip_witness:
  "\<exists>mb1 mb2. enq_all mb_enq [4, 5] ex_mailbox = Some mb1 \<and> deq_many mb_deq 3 mb1 = Some ([9, 4, 5], mb2)"
proof -
  have "length (mb_abs ex_mailbox) + length [4 :: u32, 5] \<le> unat (mb_size ex_mailbox)"
    by (simp add: ex_mailbox_inv(2) ex_mailbox_def)
  from mailbox_fifo_round_trip [OF ex_mailbox_inv(1) this] show ?thesis
    unfolding ex_mailbox_inv(2) by (auto simp: numeral_3_eq_3 simp del: enq_all.simps deq_many.simps)
qed

text \<open>
  \<open>rt_mb_send_wait\<close> on every branch: with room the word is appended to the queue and the first
  waiting receiver is made runnable; a full mailbox fails at once without time to wait and otherwise
  suspends the caller among the senders, at the place its order says, the mailbox unchanged.
\<close>

theorem mb_send_branches:
  assumes "kernel_quiet s" and "objs s i = Some (ClassMailBox mb)" and "mb_ok mb" and "runs s c th"
    and "lock_nest s = 0" and "int_nest s = 0" and "time_ok timeout"
  shows "if length (mb_abs mb) < unat (mb_size mb)
    then \<exists>s' mb'. rt_mb_send_wait i v timeout s = Some (Ret RT_EOK, s') \<and> kernel_quiet s' \<and>
      objs s' i = Some (ClassMailBox mb') \<and> mb_ok mb' \<and> mb_abs mb' = mb_abs mb @ [v] \<and>
      lists s' (Suspend i) = tl (lists s (Suspend i)) \<and> made_runnable (take 1 (lists s (Suspend i))) s s'
    else if timeout = 0 then rt_mb_send_wait i v timeout s = Some (Ret E_FULL, s)
    else \<exists>s' th'. rt_mb_send_wait i v timeout s = Some (Blocked, s') \<and> kernel_quiet s' \<and> objs s' = objs s \<and>
      lists s' (SuspendSender i) = queued (io_flag mb) s c (current_priority th) (lists s (SuspendSender i)) \<and>
      threads s' c = Some th' \<and> stat th' = RT_THREAD_SUSPEND \<and> th_error th' = RT_EOK"
proof -
  have full: "length (mb_abs mb) < unat (mb_size mb) \<longleftrightarrow> mb_entry mb \<noteq> mb_size mb"
    using assms(3) by (auto simp: mb_ok_def mb_inv_def word_le_nat_alt word_unat_eq_iff)
  have a: "rt_mb_send_wait i v timeout s =
      (if mb_entry mb = mb_size mb \<and> timeout = 0 then Some (Ret E_FULL, s) else mb_send_loop i v timeout s)"
    using assms(2,5,6) runsD [OF assms(4)] by (simp add: rt_mb_send_wait_def get_mb_def)
  consider "mb_entry mb \<noteq> mb_size mb" | "mb_entry mb = mb_size mb" "timeout = 0" | "mb_entry mb = mb_size mb" "timeout \<noteq> 0"
    by blast
  then show ?thesis
  proof cases
    case 1
    from mb_send_now [OF assms(1) _ assms(2,3) 1] runsD(1) [OF assms(4)] obtain s' mb' where
      "mb_send_loop i v timeout s = Some (Ret RT_EOK, s')" "mb_op i s s'" "objs s' i = Some (ClassMailBox mb')"
      "mb_abs mb' = mb_abs mb @ [v]" "lists s' (Suspend i) = tl (lists s (Suspend i))"
      "made_runnable (take 1 (lists s (Suspend i))) s s'" by blast
    then show ?thesis using 1 full a by (auto simp: mb_op_def op_ok_def)
  next
    case 3
    from mb_send_block [OF assms(1,4,2,3) 3 assms(7)] obtain s' th' where
      "mb_send_loop i v timeout s = Some (Blocked, s')" "mb_op i s s'" "objs s' = objs s"
      "lists s' (SuspendSender i) = queued (io_flag mb) s c (current_priority th) (lists s (SuspendSender i))"
      "threads s' c = Some th'" "stat th' = RT_THREAD_SUSPEND" "th_error th' = RT_EOK" by blast
    then show ?thesis using 3 full a by (auto simp: mb_op_def op_ok_def)
  qed (use full a in simp)
qed

definition ex_mail :: ipc where
  "ex_mail = put_obj 14 (ClassMailBox ex_mailbox) ex_ipc"

lemma ex_mail_ok:
  "kernel_quiet ex_mail" "objs ex_mail 14 = Some (ClassMailBox ex_mailbox)" "mb_ok ex_mailbox"
  "runs ex_mail 1 (ex_thread RT_THREAD_RUNNING 5)" "lock_nest ex_mail = 0" "int_nest ex_mail = 0" "cur ex_mail = Some 1"
  "lists ex_mail (Suspend 14) = []" "lists ex_mail (SuspendSender 14) = []"
  using ex_ipc_quiet ex_ipc_runs ex_mailbox_inv(1) ex_ipc_lists
  by (simp_all add: ex_mail_def mb_ok_def ex_mailbox_def flag_ok_def RT_IPC_FLAG_FIFO_def runs_def del: ex_ipc_sel(2))

theorem mb_send_branches_witness:
  "\<exists>s' mb'. rt_mb_send_wait 14 4 0 ex_mail = Some (Ret RT_EOK, s') \<and> objs s' 14 = Some (ClassMailBox mb') \<and> mb_abs mb' = [9, 4]"
proof -
  have "length (mb_abs ex_mailbox) < unat (mb_size ex_mailbox)" by (simp add: ex_mailbox_def)
  then show ?thesis
    using mb_send_branches [OF ex_mail_ok(1-6), of 0 4] by (auto simp: time_ok_def ex_mailbox_inv(2))
qed

text \<open>
  \<open>rt_mb_recv\<close> on every branch: with a word queued it returns the oldest one and makes the first
  waiting sender runnable; an empty mailbox times out at once without time to wait and otherwise
  suspends the caller among the receivers.
\<close>

theorem mb_recv_branches:
  assumes "kernel_quiet s" and "objs s i = Some (ClassMailBox mb)" and "mb_ok mb" and "runs s c th"
    and "lock_nest s = 0" and "int_nest s = 0" and "time_ok timeout"
  shows "case mb_abs mb of
      v # vs \<Rightarrow> \<exists>s' mb'. rt_mb_recv i timeout s = Some (Ret (RT_EOK, Some v), s') \<and> kernel_quiet s' \<and>
        objs s' i = Some (ClassMailBox mb') \<and> mb_ok mb' \<and> mb_abs mb' = vs \<and>
        lists s' (SuspendSender i) = tl (lists s (SuspendSender i)) \<and>
        made_runnable (take 1 (lists s (SuspendSender i))) s s'
    | [] \<Rightarrow> if timeout = 0 then rt_mb_recv i timeout s = Some (Ret (E_TIMEOUT, None), s)
        else \<exists>s' th'. rt_mb_recv i timeout s = Some (Blocked, s') \<and> kernel_quiet s' \<and> objs s' = objs s \<and>
          lists s' (Suspend i) = queued (io_flag mb) s c (current_priority th) (lists s (Suspend i)) \<and>
          threads s' c = Some th' \<and> stat th' = RT_THREAD_SUSPEND \<and> th_error th' = RT_EOK"
proof -
  have a: "rt_mb_recv i timeout s =
      (if mb_entry mb = 0 \<and> timeout = 0 then Some (Ret (E_TIMEOUT, None), s) else mb_recv_loop i timeout s)"
    using assms(2,5,6) runsD [OF assms(4)] by (simp add: rt_mb_recv_def get_mb_def)
  show ?thesis
  proof (cases "mb_abs mb")
    case Nil
    then have e: "mb_entry mb = 0" using mb_length [of mb] by (simp add: word_unat_eq_iff del: mb_length)
    show ?thesis
      using Nil a e mb_recv_block [OF assms(1,4,2,3) e _ assms(7)] by (auto simp: mb_op_def op_ok_def)
  next
    case (Cons v vs)
    then have e: "mb_entry mb \<noteq> 0" using mb_length [of mb] by auto
    from mb_recv_now [OF assms(1) _ assms(2,3) e] runsD(1) [OF assms(4)] obtain s' mb' v' where
      "mb_recv_loop i timeout s = Some (Ret (RT_EOK, Some v'), s')" "mb_op i s s'" "objs s' i = Some (ClassMailBox mb')"
      "mb_abs mb = v' # mb_abs mb'" "lists s' (SuspendSender i) = tl (lists s (SuspendSender i))"
      "made_runnable (take 1 (lists s (SuspendSender i))) s s'" by blast
    then show ?thesis using Cons e a by (auto simp: mb_op_def op_ok_def)
  qed
qed

theorem mb_recv_branches_witness:
  "\<exists>s'. rt_mb_recv 14 (- 1) ex_mail = Some (Ret (RT_EOK, Some 9), s') \<and> kernel_quiet s'"
  using mb_recv_branches [OF ex_mail_ok(1-6), of "- 1"] by (auto simp: time_ok_def ex_mailbox_inv(2))

text \<open>
  \<open>rt_mb_urgent\<close> puts its word before all queued ones: the next receive returns it.
\<close>

theorem mb_urgent_first:
  assumes "kernel_quiet s" and "objs s i = Some (ClassMailBox mb)" and "mb_ok mb" and "cur s \<noteq> None"
    and "length (mb_abs mb) < unat (mb_size mb)"
  shows "\<exists>s1 s2 mb1 mb2. rt_mb_urgent i v s = Some (RT_EOK, s1) \<and> rt_mb_recv i 0 s1 = Some (Ret (RT_EOK, Some v), s2) \<and>
    kernel_quiet s2 \<and> objs s1 i = Some (ClassMailBox mb1) \<and> mb_abs mb1 = v # mb_abs mb \<and>
    objs s2 i = Some (ClassMailBox mb2) \<and> mb_abs mb2 = mb_abs mb"
proof -
  have n: "mb_entry mb \<noteq> mb_size mb" using assms(5) by (auto simp: word_unat_eq_iff)
  obtain s1 mb1 where s1: "rt_mb_urgent i v s = Some (RT_EOK, s1)" "mb_op i s s1" "objs s1 i = Some (ClassMailBox mb1)"
      "mb_abs mb1 = v # mb_abs mb"
    using mb_urgent_now [OF assms(1,4,2,3) n] by blast
  have o1: "kernel_quiet s1" "cur s1 \<noteq> None" "mb_ok mb1" using s1(2,3) by (auto simp: mb_op_def op_ok_def)
  have e1: "mb_entry mb1 \<noteq> 0" using s1(4) mb_length [of mb1] by auto
  obtain s2 mb2 v' where s2: "mb_recv_loop i 0 s1 = Some (Ret (RT_EOK, Some v'), s2)" "mb_op i s1 s2"
      "objs s2 i = Some (ClassMailBox mb2)" "mb_abs mb1 = v' # mb_abs mb2"
    using mb_recv_now [OF o1(1,2) s1(3) o1(3) e1] by blast
  have "rt_mb_recv i 0 s1 = Some (Ret (RT_EOK, Some v), s2)"
    using s1(3,4) s2(1,4) e1 by (simp add: rt_mb_recv_def get_mb_def debug_scheduler_available_def)
  then show ?thesis using s1 s2 by (auto simp: mb_op_def op_ok_def)
qed

theorem mb_urgent_first_witness:
  "\<exists>s1 s2. rt_mb_urgent 14 4 ex_mail = Some (RT_EOK, s1) \<and> rt_mb_recv 14 0 s1 = Some (Ret (RT_EOK, Some 4), s2)"
proof -
  have "length (mb_abs ex_mailbox) < unat (mb_size ex_mailbox)" by (simp add: ex_mailbox_def)
  from mb_urgent_first [OF ex_mail_ok(1-3) _ this, of 4] show ?thesis using ex_mail_ok(7) by auto
qed

lemma unat_less_uint: "unat x < 2 ^ k \<longleftrightarrow> uint x < 2 ^ k" for x :: "'a::len word"
proof -
  have "unat x < 2 ^ k \<longleftrightarrow> int (unat x) < int (2 ^ k)" by (simp only: of_nat_less_iff)
  then show ?thesis by simp
qed

lemma sint_unat32: "sint x = (if unat x < 2 ^ 31 then int (unat x) else int (unat x) - 2 ^ 32)" for x :: "32 word"
proof -
  have u: "uint x = int (unat x)" "unat x < 2 ^ 32" using unsigned_less [of x, where 'a = nat] by simp_all
  have e: "sint x = (uint x + 2 ^ 31) mod 2 ^ 32 - 2 ^ 31"
    by (simp add: sint_uint signed_take_bit_eq_take_bit_shift take_bit_eq_mod)
  show ?thesis
  proof (cases "unat x < 2 ^ 31")
    case True
    then have "uint x < 2 ^ 31" by (simp only: unat_less_uint)
    then have "(uint x + 2 ^ 31) mod 2 ^ 32 = uint x + 2 ^ 31" by (intro mod_pos_pos_trivial) simp_all
    then show ?thesis using True e by simp
  next
    case False
    have "(uint x + 2 ^ 31) mod 2 ^ 32 = (uint x - 2 ^ 31) mod 2 ^ 32"
      by (rule mod_eq_dvd_iff [THEN iffD2]) simp
    also have "\<dots> = uint x - 2 ^ 31"
    proof -
      have "2 ^ 31 \<le> uint x" "uint x < 2 ^ 32" using False u(2) unfolding unat_less_uint by linarith+
      then show ?thesis by (intro mod_pos_pos_trivial) simp_all
    qed
    finally show ?thesis using False e by simp
  qed
qed

lemma wait_left_sub:
  assumes t: "0 \<le> sint timeout" and d: "unat d < 2 ^ 31"
  shows "unat (wait_left timeout d) = unat timeout - unat d" "0 \<le> sint (wait_left timeout d)"
proof -
  have t31: "unat timeout < 2 ^ 31" 
  proof -
    have "uint timeout < 2 ^ 32" using uint_lt2p [of timeout] by simp
    moreover have "sint timeout = uint timeout - 2 ^ 32" if "\<not> unat timeout < 2 ^ 31"
      using that by (simp add: sint_unat32)
    ultimately show ?thesis using t by linarith
  qed
  have l: "unat (timeout - d) = (if unat d \<le> unat timeout then unat timeout - unat d else unat timeout + 2 ^ 32 - unat d)"
    using unat_sub_if_size [of timeout d] by (simp add: word_size)
  have neg: "sint x < 0 \<longleftrightarrow> \<not> unat x < 2 ^ 31" for x :: i32
    using uint_lt2p [of x] by (simp add: sint_unat32)
  have w: "wait_left timeout d = (if timeout = 0 then 0 else if unat d \<le> unat timeout then timeout - d else 0)"
  proof (cases "timeout = 0")
    case False
    have "0 < sint timeout" using t False by (metis order_less_le signed_0 signed_word_eqI)
    moreover have "sint (timeout - d) < 0 \<longleftrightarrow> \<not> unat d \<le> unat timeout" 
    proof (cases "unat d \<le> unat timeout")
      case True
      then have "unat (timeout - d) < 2 ^ 31" using l t31 by simp
      then show ?thesis using True by (simp only: neg)
    next
      case False
      then have "\<not> unat (timeout - d) < 2 ^ 31" using l d by simp
      then show ?thesis using False by (simp only: neg)
    qed
    ultimately show ?thesis using False by (simp add: wait_left_def Let_def)
  qed (simp add: wait_left_def)
  show v: "unat (wait_left timeout d) = unat timeout - unat d" using w l by simp
  have "\<not> sint (wait_left timeout d) < 0" unfolding neg v using t31 by simp
  then show "0 \<le> sint (wait_left timeout d)" by simp
qed

text \<open>
  However often a waiting thread is woken and finds that another took its word, its waits add up to
  no more than the time it gave: after waits of \<open>ds\<close> ticks each (below half the tick range, whatever
  the tick counter did at its wrap-around) what is left is the given time less their sum, and nothing
  once the sum reaches it.
\<close>

theorem mb_wait_total:
  assumes "0 \<le> sint timeout" and "\<forall>d \<in> set ds. unat d < 2 ^ 31"
  shows "unat (foldl wait_left timeout ds) = unat timeout - sum_list (map unat ds)"
  using assms
proof (induction ds arbitrary: timeout)
  case (Cons d ds)
  then have d: "unat d < 2 ^ 31" by simp
  note w = wait_left_sub [OF Cons.prems(1) d]
  show ?case using Cons.IH [OF w(2)] Cons.prems(2) w(1) by simp
qed simp

theorem mb_wait_total_witness: "unat (foldl wait_left 100 [30, 40]) = 30 \<and> unat (foldl wait_left 100 [30, 80, 5]) = 0"
  using mb_wait_total [of 100 "[30, 40]"] mb_wait_total [of 100 "[30, 80, 5]"] by (simp add: sint_unat32)

end
