(* ===== verification/MsgQueue.thy ===== *)
theory MsgQueue
  imports Mailbox
begin

text \<open>
  Message queues (rt-thread/src/ipc.c, \<open>rt_mq_*\<close>): a pool of blocks, each on the free list, in the
  queue, or in the hands of the call that copies a message in or out. The copy runs with interrupts
  enabled, so a call has two critical sections: the functions \<open>mq_grab\<close>, \<open>mq_post\<close>, \<open>mq_post_urgent\<close>,
  \<open>mq_unlink\<close> and \<open>mq_give_back\<close> are what those sections do to the queue, and the step relation \<open>mq_step\<close>
  interleaves them. On the system's state the sections are \<open>mq_send_begin\<close>, \<open>mq_send_end\<close> and the others, which
  \<open>mq_section\<close> interleaves; \<open>rt_mq_send_wait\<close>, \<open>rt_mq_urgent\<close> and \<open>rt_mq_recv\<close> are the calls that nothing interrupts.
\<close>

section \<open>Operations\<close>

definition RT_MQ_ENTRY_MAX :: u16 where "RT_MQ_ENTRY_MAX = 0xffff"

definition get_mq :: "nat \<Rightarrow> 'z ipc_scheme \<Rightarrow> rt_messagequeue option" where
  "get_mq i s = (case objs s i of Some (ClassMessageQueue mq) \<Rightarrow> Some mq | _ \<Rightarrow> None)"

text \<open>\<open>sizeof(struct rt_mq_message)\<close>\<close>

definition mq_header :: u32 where "mq_header = 4"

text \<open>The message area of each block of the pool memory.\<close>

definition mq_blocks :: "u8 list \<Rightarrow> u16 \<Rightarrow> nat \<Rightarrow> u8 list" where
  "mq_blocks pool msg_size1 m =
    take (unat msg_size1) (drop (m * (unat msg_size1 + unat mq_header) + unat mq_header) pool)"

definition mq_free_loop :: "rt_messagequeue \<Rightarrow> rt_messagequeue" where
  "mq_free_loop mq =
    fold (\<lambda>temp mq. mq\<lparr>mq_next := (mq_next mq)(temp := msg_queue_free mq), msg_queue_free := Some temp\<rparr>)
      [0..<unat (max_msgs mq)] mq"

definition new_messagequeue :: "bool \<Rightarrow> u8 \<Rightarrow> u16 \<Rightarrow> u16 \<Rightarrow> u8 list \<Rightarrow> rt_messagequeue" where
  "new_messagequeue static flag msg_size1 max1 pool =
    mq_free_loop \<lparr>io_static = static, io_flag = flag, mq_next = (\<lambda>_. None), mq_data = mq_blocks pool msg_size1,
      msg_size = msg_size1, max_msgs = max1, mq_entry = 0,
      msg_queue_head = None, msg_queue_tail = None, msg_queue_free = None\<rparr>"

definition rt_mq_init :: "nat \<Rightarrow> u8 list \<Rightarrow> u32 \<Rightarrow> u32 \<Rightarrow> u8 \<Rightarrow> 'z ipc_scheme \<Rightarrow> (rt_err \<times> 'z ipc_scheme) option" where
  "rt_mq_init i pool size1 pool_size flag s = do {
     rt_assert (flag_ok flag);
     rt_assert (objs s i = None);
     let s = ipc_object_init i s;
     let msg_size1 = (ucast (RT_ALIGN size1 4) :: u16);
     let max1 = (ucast (pool_size div (ucast msg_size1 + mq_header)) :: u16);
     let s = put_obj i (ClassMessageQueue (new_messagequeue True flag msg_size1 max1 pool)) s;
     Some (RT_EOK, sender_list_init i s) }"

text \<open>The removal is here a call that nothing interrupts; the theory Release has its sections.\<close>

definition rt_mq_detach :: "nat \<Rightarrow> 'z ipc_scheme \<Rightarrow> (rt_err \<times> 'z ipc_scheme) option" where
  "rt_mq_detach i s = do {
     mq \<leftarrow> get_mq i s;
     rt_assert (io_static mq);
     s \<leftarrow> ipc_list_resume_all (Suspend i) s;
     s \<leftarrow> ipc_list_resume_all (SuspendSender i) s;
     Some (RT_EOK, drop_obj i s) }"

text \<open>\<open>mem k\<close> is what \<open>RT_KERNEL_MALLOC\<close> gives for \<open>k\<close> bytes.\<close>

definition rt_mq_create :: "nat option \<Rightarrow> (u32 \<Rightarrow> u8 list option) \<Rightarrow> u32 \<Rightarrow> u32 \<Rightarrow> u8 \<Rightarrow> 'z ipc_scheme \<Rightarrow> (nat option \<times> 'z ipc_scheme) option" where
  "rt_mq_create obj mem size1 max1 flag s = do {
     rt_assert (flag_ok flag);
     debug_not_in_interrupt s;
     (case obj of
        None \<Rightarrow> Some (None, s)
      | Some i \<Rightarrow>
          (let s = ipc_object_init i s;
               msg_size1 = (ucast (RT_ALIGN size1 4) :: u16);
               max1 = (ucast max1 :: u16)
           in case mem ((ucast msg_size1 + mq_header) * ucast max1) of
                None \<Rightarrow> Some (None, drop_obj i s)
              | Some pool \<Rightarrow>
                  (let s = put_obj i (ClassMessageQueue (new_messagequeue False flag msg_size1 max1 pool)) s
                   in Some (Some i, sender_list_init i s)))) }"

definition rt_mq_delete :: "nat \<Rightarrow> 'z ipc_scheme \<Rightarrow> (rt_err \<times> 'z ipc_scheme) option" where
  "rt_mq_delete i s = do {
     mq \<leftarrow> get_mq i s;
     rt_assert (\<not> io_static mq);
     debug_not_in_interrupt s;
     s \<leftarrow> ipc_list_resume_all (Suspend i) s;
     s \<leftarrow> ipc_list_resume_all (SuspendSender i) s;
     Some (RT_EOK, drop_obj i s) }"

text \<open>The critical sections on the blocks, and the copies between them.\<close>

definition mq_grab :: "rt_messagequeue \<Rightarrow> (nat \<times> rt_messagequeue) option" where
  "mq_grab mq = (case msg_queue_free mq of None \<Rightarrow> None
    | Some m \<Rightarrow> Some (m, mq\<lparr>msg_queue_free := mq_next mq m\<rparr>))"

definition mq_copy_in :: "nat \<Rightarrow> u8 list \<Rightarrow> u32 \<Rightarrow> rt_messagequeue \<Rightarrow> rt_messagequeue option" where
  "mq_copy_in m buffer size1 mq = do {
     rt_assert (unat size1 \<le> length buffer \<and> unat size1 \<le> length (mq_data mq m));
     Some (mq\<lparr>mq_data := (mq_data mq)(m := take (unat size1) buffer @ drop (unat size1) (mq_data mq m))\<rparr>) }"

definition mq_post :: "nat \<Rightarrow> rt_messagequeue \<Rightarrow> rt_err \<times> rt_messagequeue" where
  "mq_post m mq =
    (let mq = (case msg_queue_tail mq of Some t \<Rightarrow> mq\<lparr>mq_next := (mq_next mq)(t := Some m)\<rparr> | None \<Rightarrow> mq);
         mq = mq\<lparr>msg_queue_tail := Some m\<rparr>;
         mq = (if msg_queue_head mq = None then mq\<lparr>msg_queue_head := Some m\<rparr> else mq)
     in if mq_entry mq < RT_MQ_ENTRY_MAX then (RT_EOK, mq\<lparr>mq_entry := mq_entry mq + 1\<rparr>) else (E_FULL, mq))"

definition mq_post_urgent :: "nat \<Rightarrow> rt_messagequeue \<Rightarrow> rt_err \<times> rt_messagequeue" where
  "mq_post_urgent m mq =
    (let mq = mq\<lparr>mq_next := (mq_next mq)(m := msg_queue_head mq)\<rparr>;
         mq = mq\<lparr>msg_queue_head := Some m\<rparr>;
         mq = (if msg_queue_tail mq = None then mq\<lparr>msg_queue_tail := Some m\<rparr> else mq)
     in if mq_entry mq < RT_MQ_ENTRY_MAX then (RT_EOK, mq\<lparr>mq_entry := mq_entry mq + 1\<rparr>) else (E_FULL, mq))"

text \<open>The start of a receive; \<open>None\<close> is the null pointer of an empty queue.\<close>

definition mq_detach_head :: "rt_messagequeue \<Rightarrow> (nat \<times> rt_messagequeue) option" where
  "mq_detach_head mq = (case msg_queue_head mq of None \<Rightarrow> None
    | Some m \<Rightarrow>
        (let mq = mq\<lparr>msg_queue_head := mq_next mq m\<rparr>
         in Some (m, if msg_queue_tail mq = Some m then mq\<lparr>msg_queue_tail := None\<rparr> else mq)))"

definition mq_unlink :: "rt_messagequeue \<Rightarrow> (nat \<times> rt_messagequeue) option" where
  "mq_unlink mq = do {
     (m, mq) \<leftarrow> mq_detach_head mq;
     Some (m, if 0 < mq_entry mq then mq\<lparr>mq_entry := mq_entry mq - 1\<rparr> else mq) }"

definition mq_copy_out :: "nat \<Rightarrow> u32 \<Rightarrow> rt_messagequeue \<Rightarrow> u8 list" where
  "mq_copy_out m size1 mq = take (unat (if ucast (msg_size mq) < size1 then ucast (msg_size mq) else size1)) (mq_data mq m)"

definition mq_give_back :: "nat \<Rightarrow> rt_messagequeue \<Rightarrow> rt_messagequeue" where
  "mq_give_back m mq = mq\<lparr>mq_next := (mq_next mq)(m := msg_queue_free mq), msg_queue_free := Some m\<rparr>"

text \<open>The loop of a reset; \<open>None\<close> stands for a queue without end.\<close>

partial_function (option) mq_reset_loop :: "rt_messagequeue \<Rightarrow> rt_messagequeue option" where
  "mq_reset_loop mq =
    (case mq_detach_head mq of
       None \<Rightarrow> Some mq
     | Some (m, mq) \<Rightarrow> mq_reset_loop (mq_give_back m mq))"

text \<open>
  The critical sections of a send on the system's state, and the copy between them with interrupts enabled.
  The first one either ends the call (no room: refused or blocked) or takes the block \<open>m\<close> off the free list.
\<close>

definition mq_send_begin :: "nat \<Rightarrow> i32 \<Rightarrow> 'z ipc_scheme \<Rightarrow> ((rt_err call + nat) \<times> 'z ipc_scheme) option" where
  "mq_send_begin i timeout s = do {
     mq \<leftarrow> get_mq i s;
     (if msg_queue_free mq = None then do {
        t \<leftarrow> rt_thread_self s;
        let s = upd_thread t (\<lambda>th. th\<lparr>th_error := RT_EOK\<rparr>) s;
        (if timeout = 0 then Some (Inl (Ret E_FULL), s)
         else do {
           s \<leftarrow> ipc_block (SuspendSender i) t (io_flag mq) timeout s;
           Some (Inl Blocked, s) }) }
      else do {
        (m, mq) \<leftarrow> mq_grab mq;
        Some (Inr m, put_obj i (ClassMessageQueue mq) s) }) }"

definition mq_send_clear :: "nat \<Rightarrow> nat \<Rightarrow> 'z ipc_scheme \<Rightarrow> 'z ipc_scheme option" where
  "mq_send_clear i m s = do {
     mq \<leftarrow> get_mq i s;
     Some (put_obj i (ClassMessageQueue (mq\<lparr>mq_next := (mq_next mq)(m := None)\<rparr>)) s) }"

definition mq_send_copy :: "nat \<Rightarrow> nat \<Rightarrow> u8 list \<Rightarrow> u32 \<Rightarrow> 'z ipc_scheme \<Rightarrow> 'z ipc_scheme option" where
  "mq_send_copy i m buffer size1 s = do {
     mq \<leftarrow> get_mq i s;
     mq \<leftarrow> mq_copy_in m buffer size1 mq;
     Some (put_obj i (ClassMessageQueue mq) s) }"

definition mq_posted :: "nat \<Rightarrow> rt_err \<times> rt_messagequeue \<Rightarrow> 'z ipc_scheme \<Rightarrow> (rt_err \<times> 'z ipc_scheme) option" where
  "mq_posted i r s =
    (let (e, mq) = r; s = put_obj i (ClassMessageQueue mq) s
     in if e = RT_EOK then do { s \<leftarrow> wake_first (Suspend i) s; Some (RT_EOK, s) } else Some (e, s))"

definition mq_send_end :: "nat \<Rightarrow> nat \<Rightarrow> 'z ipc_scheme \<Rightarrow> (rt_err \<times> 'z ipc_scheme) option" where
  "mq_send_end i m s = do { mq \<leftarrow> get_mq i s; mq_posted i (mq_post m mq) s }"

text \<open>A send when nothing comes between its sections.\<close>

definition mq_send_loop :: "nat \<Rightarrow> u8 list \<Rightarrow> u32 \<Rightarrow> i32 \<Rightarrow> 'z ipc_scheme \<Rightarrow> (rt_err call \<times> 'z ipc_scheme) option" where
  "mq_send_loop i buffer size1 timeout s = do {
     (r, s) \<leftarrow> mq_send_begin i timeout s;
     (case r of
        Inl res \<Rightarrow> Some (res, s)
      | Inr m \<Rightarrow> do {
          s \<leftarrow> mq_send_clear i m s;
          s \<leftarrow> mq_send_copy i m buffer size1 s;
          (e, s) \<leftarrow> mq_send_end i m s;
          Some (Ret e, s) }) }"

definition rt_mq_send_wait :: "nat \<Rightarrow> u8 list \<Rightarrow> u32 \<Rightarrow> i32 \<Rightarrow> 'z ipc_scheme \<Rightarrow> (rt_err call \<times> 'z ipc_scheme) option" where
  "rt_mq_send_wait i buffer size1 timeout s = do {
     mq \<leftarrow> get_mq i s;
     rt_assert (size1 \<noteq> 0);
     debug_scheduler_available (timeout \<noteq> 0) s;
     (if ucast (msg_size mq) < size1 then Some (Ret E_ERROR, s)
      else if msg_queue_free mq = None \<and> timeout = 0 then Some (Ret E_FULL, s)
      else mq_send_loop i buffer size1 timeout s) }"

definition mq_send_resume :: "nat \<Rightarrow> u8 list \<Rightarrow> u32 \<Rightarrow> i32 \<Rightarrow> tick \<Rightarrow> 'z ipc_scheme \<Rightarrow> (rt_err call \<times> 'z ipc_scheme) option" where
  "mq_send_resume i buffer size1 timeout since s = do {
     t \<leftarrow> rt_thread_self s;
     th \<leftarrow> threads s t;
     (if th_error th \<noteq> RT_EOK then Some (Ret (th_error th), s)
      else mq_send_loop i buffer size1 (wait_left timeout (rt_tick_get s - since)) s) }"

definition rt_mq_send :: "nat \<Rightarrow> u8 list \<Rightarrow> u32 \<Rightarrow> 'z ipc_scheme \<Rightarrow> (rt_err call \<times> 'z ipc_scheme) option" where
  "rt_mq_send i buffer size1 s = rt_mq_send_wait i buffer size1 0 s"

text \<open>An urgent send: its sections, and the whole call; the block is not cleared.\<close>

definition mq_urgent_begin :: "nat \<Rightarrow> 'z ipc_scheme \<Rightarrow> (nat option \<times> 'z ipc_scheme) option" where
  "mq_urgent_begin i s = do {
     mq \<leftarrow> get_mq i s;
     (case mq_grab mq of
        None \<Rightarrow> Some (None, s)
      | Some (m, mq) \<Rightarrow> Some (Some m, put_obj i (ClassMessageQueue mq) s)) }"

definition mq_urgent_end :: "nat \<Rightarrow> nat \<Rightarrow> 'z ipc_scheme \<Rightarrow> (rt_err \<times> 'z ipc_scheme) option" where
  "mq_urgent_end i m s = do { mq \<leftarrow> get_mq i s; mq_posted i (mq_post_urgent m mq) s }"

definition rt_mq_urgent :: "nat \<Rightarrow> u8 list \<Rightarrow> u32 \<Rightarrow> 'z ipc_scheme \<Rightarrow> (rt_err \<times> 'z ipc_scheme) option" where
  "rt_mq_urgent i buffer size1 s = do {
     mq \<leftarrow> get_mq i s;
     rt_assert (size1 \<noteq> 0);
     (if ucast (msg_size mq) < size1 then Some (E_ERROR, s)
      else do {
        (r, s) \<leftarrow> mq_urgent_begin i s;
        (case r of
           None \<Rightarrow> Some (E_FULL, s)
         | Some m \<Rightarrow> do {
             s \<leftarrow> mq_send_copy i m buffer size1 s;
             mq_urgent_end i m s }) }) }"

text \<open>
  A receive: the first section ends the call (nothing there: timed out or blocked) or unlinks the oldest block;
  its message is copied out with interrupts enabled, which changes no state; the second section frees the block.
\<close>

definition mq_recv_begin :: "nat \<Rightarrow> i32 \<Rightarrow> 'z ipc_scheme \<Rightarrow> ((rt_err call + nat) \<times> 'z ipc_scheme) option" where
  "mq_recv_begin i timeout s = do {
     mq \<leftarrow> get_mq i s;
     (if mq_entry mq = 0 then do {
        t \<leftarrow> rt_thread_self s;
        let s = upd_thread t (\<lambda>th. th\<lparr>th_error := RT_EOK\<rparr>) s;
        (if timeout = 0 then Some (Inl (Ret E_TIMEOUT), upd_thread t (\<lambda>th. th\<lparr>th_error := E_TIMEOUT\<rparr>) s)
         else do {
           s \<leftarrow> ipc_block (Suspend i) t (io_flag mq) timeout s;
           Some (Inl Blocked, s) }) }
      else do {
        (m, mq) \<leftarrow> mq_unlink mq;
        Some (Inr m, put_obj i (ClassMessageQueue mq) s) }) }"

definition mq_recv_end :: "nat \<Rightarrow> nat \<Rightarrow> 'z ipc_scheme \<Rightarrow> 'z ipc_scheme option" where
  "mq_recv_end i m s = do {
     mq \<leftarrow> get_mq i s;
     wake_first (SuspendSender i) (put_obj i (ClassMessageQueue (mq_give_back m mq)) s) }"

definition mq_recv_loop :: "nat \<Rightarrow> u32 \<Rightarrow> i32 \<Rightarrow> 'z ipc_scheme \<Rightarrow> ((rt_err \<times> u8 list option) call \<times> 'z ipc_scheme) option" where
  "mq_recv_loop i size1 timeout s = do {
     (r, s) \<leftarrow> mq_recv_begin i timeout s;
     (case r of
        Inl Blocked \<Rightarrow> Some (Blocked, s)
      | Inl (Ret e) \<Rightarrow> Some (Ret (e, None), s)
      | Inr m \<Rightarrow> do {
          mq \<leftarrow> get_mq i s;
          let bytes = mq_copy_out m size1 mq;
          s \<leftarrow> mq_recv_end i m s;
          Some (Ret (RT_EOK, Some bytes), s) }) }"

definition rt_mq_recv :: "nat \<Rightarrow> u32 \<Rightarrow> i32 \<Rightarrow> 'z ipc_scheme \<Rightarrow> ((rt_err \<times> u8 list option) call \<times> 'z ipc_scheme) option" where
  "rt_mq_recv i size1 timeout s = do {
     mq \<leftarrow> get_mq i s;
     rt_assert (size1 \<noteq> 0);
     debug_scheduler_available (timeout \<noteq> 0) s;
     (if mq_entry mq = 0 \<and> timeout = 0 then Some (Ret (E_TIMEOUT, None), s)
      else mq_recv_loop i size1 timeout s) }"

definition mq_recv_resume :: "nat \<Rightarrow> u32 \<Rightarrow> i32 \<Rightarrow> tick \<Rightarrow> 'z ipc_scheme \<Rightarrow> ((rt_err \<times> u8 list option) call \<times> 'z ipc_scheme) option" where
  "mq_recv_resume i size1 timeout since s = do {
     t \<leftarrow> rt_thread_self s;
     th \<leftarrow> threads s t;
     (if th_error th \<noteq> RT_EOK then Some (Ret (th_error th, None), s)
      else mq_recv_loop i size1 (wait_left timeout (rt_tick_get s - since)) s) }"

definition rt_mq_control :: "nat \<Rightarrow> ipc_cmd \<Rightarrow> 'z ipc_scheme \<Rightarrow> (rt_err \<times> 'z ipc_scheme) option" where
  "rt_mq_control i cmd s = do {
     mq \<leftarrow> get_mq i s;
     (case cmd of
        RT_IPC_CMD_RESET _ \<Rightarrow> do {
          s \<leftarrow> ipc_list_resume_all (Suspend i) s;
          s \<leftarrow> ipc_list_resume_all (SuspendSender i) s;
          mq \<leftarrow> mq_reset_loop mq;
          s \<leftarrow> rt_schedule (put_obj i (ClassMessageQueue (mq\<lparr>mq_entry := 0\<rparr>)) s);
          Some (RT_EOK, s) }
      | RT_IPC_CMD_OTHER _ \<Rightarrow> Some (E_ERROR, s)) }"

text \<open>The whole calls with the state of the queue threaded through.\<close>

lemma get_mq_put [simp]: "get_mq i (put_obj i (ClassMessageQueue mq) s) = Some mq"
  by (simp add: get_mq_def)

lemma put_put [simp]: "put_obj i a (put_obj i b s) = put_obj i a s"
  by (simp add: put_obj_def)

lemma mq_send_loop_eq:
  "mq_send_loop i buffer size1 timeout s = do {
     mq \<leftarrow> get_mq i s;
     (if msg_queue_free mq = None then do {
        t \<leftarrow> rt_thread_self s;
        let s = upd_thread t (\<lambda>th. th\<lparr>th_error := RT_EOK\<rparr>) s;
        (if timeout = 0 then Some (Ret E_FULL, s)
         else do {
           s \<leftarrow> ipc_block (SuspendSender i) t (io_flag mq) timeout s;
           Some (Blocked, s) }) }
      else do {
        (m, mq) \<leftarrow> mq_grab mq;
        mq \<leftarrow> mq_copy_in m buffer size1 (mq\<lparr>mq_next := (mq_next mq)(m := None)\<rparr>);
        let (e, mq) = mq_post m mq;
        let s = put_obj i (ClassMessageQueue mq) s;
        (if e = RT_EOK then do { s \<leftarrow> wake_first (Suspend i) s; Some (Ret RT_EOK, s) }
         else Some (Ret e, s)) }) }"
  by (auto simp: mq_send_loop_def mq_send_begin_def mq_send_clear_def mq_send_copy_def mq_send_end_def mq_posted_def
      Let_def split: Option.bind_split prod.split)

lemma rt_mq_urgent_eq:
  "rt_mq_urgent i buffer size1 s = do {
     mq \<leftarrow> get_mq i s;
     rt_assert (size1 \<noteq> 0);
     (if ucast (msg_size mq) < size1 then Some (E_ERROR, s)
      else case mq_grab mq of
        None \<Rightarrow> Some (E_FULL, s)
      | Some (m, mq) \<Rightarrow> do {
          mq \<leftarrow> mq_copy_in m buffer size1 mq;
          let (e, mq) = mq_post_urgent m mq;
          let s = put_obj i (ClassMessageQueue mq) s;
          (if e = RT_EOK then do { s \<leftarrow> wake_first (Suspend i) s; Some (RT_EOK, s) } else Some (e, s)) }) }"
  by (auto simp: rt_mq_urgent_def mq_urgent_begin_def mq_send_copy_def mq_urgent_end_def mq_posted_def
      Let_def split: Option.bind_split prod.split option.split)

lemma mq_recv_loop_eq:
  "mq_recv_loop i size1 timeout s = do {
     mq \<leftarrow> get_mq i s;
     (if mq_entry mq = 0 then do {
        t \<leftarrow> rt_thread_self s;
        let s = upd_thread t (\<lambda>th. th\<lparr>th_error := RT_EOK\<rparr>) s;
        (if timeout = 0 then Some (Ret (E_TIMEOUT, None), upd_thread t (\<lambda>th. th\<lparr>th_error := E_TIMEOUT\<rparr>) s)
         else do {
           s \<leftarrow> ipc_block (Suspend i) t (io_flag mq) timeout s;
           Some (Blocked, s) }) }
      else do {
        (m, mq) \<leftarrow> mq_unlink mq;
        let bytes = mq_copy_out m size1 mq;
        let mq = mq_give_back m mq;
        s \<leftarrow> wake_first (SuspendSender i) (put_obj i (ClassMessageQueue mq) s);
        Some (Ret (RT_EOK, Some bytes), s) }) }"
  by (auto simp: mq_recv_loop_def mq_recv_begin_def mq_recv_end_def Let_def split: Option.bind_split prod.split)

section \<open>The blocks\<close>

lemma unat_ucast16: "unat (ucast x :: u32) = unat x" for x :: u16
proof -
  have "unat x < 2 ^ 32" using unsigned_less [of x, where 'a = nat] by simp
  then show ?thesis by (simp add: unsigned_ucast_eq take_bit_nat_eq_self)
qed

fun walk :: "(nat \<Rightarrow> nat option) \<Rightarrow> nat \<Rightarrow> nat option \<Rightarrow> nat list" where
  "walk nx 0 p = []"
| "walk nx (Suc n) None = []"
| "walk nx (Suc n) (Some m) = m # walk nx n (nx m)"

lemma chain_walk: "chain nx p ms \<Longrightarrow> walk nx (length ms) p = ms"
  by (induction ms arbitrary: p) auto

text \<open>
  The shape of a queue with the queued blocks \<open>q\<close>, the free blocks \<open>f\<close> and the blocks \<open>fl\<close> in the
  hands of calls.
\<close>

definition mq_shape :: "rt_messagequeue \<Rightarrow> nat list \<Rightarrow> nat list \<Rightarrow> nat set \<Rightarrow> bool" where
  "mq_shape mq q f fl \<longleftrightarrow>
     chain (mq_next mq) (msg_queue_head mq) q \<and> chain (mq_next mq) (msg_queue_free mq) f \<and>
     msg_queue_tail mq = (if q = [] then None else Some (last q)) \<and>
     distinct (q @ f) \<and> fl \<inter> set (q @ f) = {} \<and> set (q @ f) \<union> fl = {..<unat (max_msgs mq)} \<and>
     unat (mq_entry mq) = length q \<and>
     (\<forall>m < unat (max_msgs mq). length (mq_data mq m) = unat (msg_size mq))"

text \<open>What no operation on the blocks changes.\<close>

definition mq_same :: "rt_messagequeue \<Rightarrow> rt_messagequeue \<Rightarrow> bool" where
  "mq_same mq mq' \<longleftrightarrow> io_static mq' = io_static mq \<and> io_flag mq' = io_flag mq \<and>
     msg_size mq' = msg_size mq \<and> max_msgs mq' = max_msgs mq"

lemma mq_same_refl [simp]: "mq_same mq mq"
  by (simp add: mq_same_def)

lemma mq_same_trans: "mq_same a b \<Longrightarrow> mq_same b c \<Longrightarrow> mq_same a c"
  by (simp add: mq_same_def)

lemma shape_entry:
  assumes "mq_shape mq q f fl"
  shows "mq_entry mq = 0 \<longleftrightarrow> q = []" "q = [] \<longleftrightarrow> msg_queue_head mq = None" "f = [] \<longleftrightarrow> msg_queue_free mq = None"
proof -
  have "unat (mq_entry mq) = length q" using assms by (simp add: mq_shape_def)
  then show "mq_entry mq = 0 \<longleftrightarrow> q = []" by (auto simp: word_unat_eq_iff)
  show "q = [] \<longleftrightarrow> msg_queue_head mq = None" using assms by (cases q) (auto simp: mq_shape_def)
  show "f = [] \<longleftrightarrow> msg_queue_free mq = None" using assms by (cases f) (auto simp: mq_shape_def)
qed

lemma grab_shape:
  assumes "mq_shape mq q (m # f) fl"
  shows "mq_grab mq = Some (m, mq\<lparr>msg_queue_free := mq_next mq m\<rparr>)" (is ?a)
    "mq_shape (mq\<lparr>msg_queue_free := mq_next mq m\<rparr>) q f (insert m fl)" (is ?b)
proof -
  show ?a using assms by (simp add: mq_shape_def mq_grab_def)
  show ?b using assms unfolding mq_shape_def by (intro conjI) (auto split: if_splits)
qed

lemma clear_shape:
  assumes "mq_shape mq q f fl" and "m \<in> fl"
  shows "mq_shape (mq\<lparr>mq_next := (mq_next mq)(m := v)\<rparr>) q f fl"
proof -
  have "m \<notin> set q" "m \<notin> set f" using assms by (auto simp: mq_shape_def)
  then show ?thesis using assms(1) by (simp add: mq_shape_def chain_upd)
qed

lemma copy_in_shape:
  assumes "mq_shape mq q f fl" and "m \<in> fl" and "unat size1 \<le> length buffer" and "unat size1 \<le> unat (msg_size mq)"
  defines "mq' \<equiv> mq\<lparr>mq_data := (mq_data mq)(m := take (unat size1) buffer @ drop (unat size1) (mq_data mq m))\<rparr>"
  shows "mq_copy_in m buffer size1 mq = Some mq'" "mq_shape mq' q f fl"
proof -
  have l: "length (mq_data mq m) = unat (msg_size mq)" using assms(1,2) by (auto simp: mq_shape_def)
  then show "mq_copy_in m buffer size1 mq = Some mq'" using assms(3,4) by (simp add: mq_copy_in_def mq'_def)
  show "mq_shape mq' q f fl" using assms(1,3,4) l by (auto simp: mq_shape_def mq'_def)
qed

lemma shape_room:
  assumes "mq_shape mq q f fl" and "m \<in> fl"
  shows "mq_entry mq < RT_MQ_ENTRY_MAX" "unat (mq_entry mq + 1) = Suc (length q)"
proof -
  have "set q \<subset> {..<unat (max_msgs mq)}" "distinct q" using assms by (auto simp: mq_shape_def)
  then have "length q < unat (max_msgs mq)"
    using psubset_card_mono [of "{..<unat (max_msgs mq)}" "set q"] by (simp add: distinct_card)
  moreover have "unat (max_msgs mq) < 2 ^ 16" using unsigned_less [of "max_msgs mq", where 'a = nat] by simp
  ultimately have "length q < 65535" by simp
  then have e: "unat (mq_entry mq) < 65535" using assms(1) by (simp add: mq_shape_def)
  then show max: "mq_entry mq < RT_MQ_ENTRY_MAX" by (simp add: RT_MQ_ENTRY_MAX_def word_less_nat_alt)
  show "unat (mq_entry mq + 1) = Suc (length q)"
    using unat_inc_lt [OF max] assms(1) by (simp add: mq_shape_def)
qed

lemma post_shape:
  assumes s: "mq_shape mq q f fl" and m: "m \<in> fl" and n: "mq_next mq m = None"
  shows "\<exists>mq'. mq_post m mq = (RT_EOK, mq') \<and> mq_shape mq' (q @ [m]) f (fl - {m}) \<and> mq_same mq mq' \<and> mq_data mq' = mq_data mq"
proof -
  note r = shape_room [OF s m]
  have mq: "m \<notin> set q" "m \<notin> set f" using s m by (auto simp: mq_shape_def)
  have D: "set (q @ [m]) \<union> set f \<union> (fl - {m}) = {..<unat (max_msgs mq)}" using s m by (auto simp: mq_shape_def)
  show ?thesis
  proof (cases "q = []")
    case True
    then have "mq_post m mq = (RT_EOK, mq\<lparr>msg_queue_tail := Some m, msg_queue_head := Some m, mq_entry := mq_entry mq + 1\<rparr>)"
      using s r(1) by (simp add: mq_post_def mq_shape_def Let_def)
    then show ?thesis using True s r(2) n mq m D by (auto simp: mq_shape_def mq_same_def)
  next
    case False
    let ?nx = "(mq_next mq)(last q := Some m)"
    have "mq_post m mq = (RT_EOK, mq\<lparr>mq_next := ?nx, msg_queue_tail := Some m, mq_entry := mq_entry mq + 1\<rparr>)"
      using s r(1) False shape_entry(2) [OF s] by (simp add: mq_post_def mq_shape_def Let_def)
    moreover have "last q \<notin> set f" using s last_in_set [OF False] unfolding mq_shape_def by auto
    then have "chain ?nx (msg_queue_free mq) f" using s by (simp add: chain_upd mq_shape_def)
    moreover have "chain ?nx (msg_queue_head mq) (q @ [m])"
      using s mq False n by (intro chain_snoc) (auto simp: mq_shape_def)
    ultimately show ?thesis using False s r(2) mq D by (auto simp: mq_shape_def mq_same_def)
  qed
qed

lemma post_urgent_shape:
  assumes s: "mq_shape mq q f fl" and m: "m \<in> fl"
  shows "\<exists>mq'. mq_post_urgent m mq = (RT_EOK, mq') \<and> mq_shape mq' (m # q) f (fl - {m}) \<and> mq_same mq mq' \<and> mq_data mq' = mq_data mq"
proof -
  note r = shape_room [OF s m]
  have mq: "m \<notin> set q" "m \<notin> set f" using s m by (auto simp: mq_shape_def)
  have D: "insert m (set q \<union> set f \<union> (fl - {m})) = {..<unat (max_msgs mq)}" using s m by (auto simp: mq_shape_def)
  let ?mq = "mq\<lparr>mq_next := (mq_next mq)(m := msg_queue_head mq), msg_queue_head := Some m,
    msg_queue_tail := if msg_queue_tail mq = None then Some m else msg_queue_tail mq, mq_entry := mq_entry mq + 1\<rparr>"
  have "mq_post_urgent m mq = (RT_EOK, ?mq)" using r(1) by (simp add: mq_post_urgent_def Let_def)
  moreover have "mq_shape ?mq (m # q) f (fl - {m})"
    using s r(2) mq D by (auto simp: mq_shape_def chain_upd)
  ultimately show ?thesis by (auto simp: mq_same_def)
qed

lemma detach_head_shape:
  assumes s: "mq_shape mq (m # q) f fl"
  shows "\<exists>mq'. mq_detach_head mq = Some (m, mq') \<and> mq_same mq mq' \<and> mq_data mq' = mq_data mq \<and>
    mq_entry mq' = mq_entry mq \<and> mq_shape (mq'\<lparr>mq_entry := mq_entry mq - 1\<rparr>) q f (insert m fl)"
proof -
  let ?mq = "mq\<lparr>msg_queue_head := mq_next mq m, msg_queue_tail := if q = [] then None else msg_queue_tail mq\<rparr>"
  have "q \<noteq> [] \<Longrightarrow> last q \<noteq> m" using s by (auto simp: mq_shape_def)
  then have "mq_detach_head mq = Some (m, ?mq)"
    using s by (auto simp: mq_detach_head_def mq_shape_def Let_def)
  moreover have "unat (mq_entry mq - 1) = length q"
    using s unat_dec_gt [of "mq_entry mq"] by (simp add: mq_shape_def word_gt_0 word_unat_eq_iff)
  then have "mq_shape (?mq\<lparr>mq_entry := mq_entry mq - 1\<rparr>) q f (insert m fl)"
    using s by (auto simp: mq_shape_def)
  ultimately show ?thesis by (auto simp: mq_same_def)
qed

lemma unlink_shape:
  assumes s: "mq_shape mq (m # q) f fl"
  shows "\<exists>mq'. mq_unlink mq = Some (m, mq') \<and> mq_same mq mq' \<and> mq_data mq' = mq_data mq \<and> mq_shape mq' q f (insert m fl)"
proof -
  obtain mq1 where mq1: "mq_detach_head mq = Some (m, mq1)" "mq_same mq mq1" "mq_data mq1 = mq_data mq"
      "mq_entry mq1 = mq_entry mq" "mq_shape (mq1\<lparr>mq_entry := mq_entry mq - 1\<rparr>) q f (insert m fl)"
    using detach_head_shape [OF s] by blast
  have "0 < mq_entry mq" using shape_entry(1) [OF s] by (simp add: word_gt_0)
  then show ?thesis using mq1 by (simp add: mq_unlink_def mq_same_def)
qed

lemma give_back_shape:
  assumes s: "mq_shape mq q f fl" and m: "m \<in> fl"
  shows "mq_shape (mq_give_back m mq) q (m # f) (fl - {m})" "mq_same mq (mq_give_back m mq)"
    "mq_data (mq_give_back m mq) = mq_data mq"
proof -
  have mq: "m \<notin> set q" "m \<notin> set f" using s m by (auto simp: mq_shape_def)
  show "mq_shape (mq_give_back m mq) q (m # f) (fl - {m})"
    using s m mq by (auto simp: mq_shape_def mq_give_back_def chain_upd)
qed (simp_all add: mq_give_back_def mq_same_def)

section \<open>Creation and reset\<close>

lemma free_fold:
  defines "step \<equiv> \<lambda>temp mq. mq\<lparr>mq_next := (mq_next mq)(temp := msg_queue_free mq), msg_queue_free := Some temp\<rparr>"
  assumes "msg_queue_free mq = None"
  shows "chain (mq_next (fold step [0..<n] mq)) (msg_queue_free (fold step [0..<n] mq)) (rev [0..<n])"
    "io_static (fold step [0..<n] mq) = io_static mq \<and> io_flag (fold step [0..<n] mq) = io_flag mq \<and>
     mq_data (fold step [0..<n] mq) = mq_data mq \<and> msg_size (fold step [0..<n] mq) = msg_size mq \<and>
     max_msgs (fold step [0..<n] mq) = max_msgs mq \<and> mq_entry (fold step [0..<n] mq) = mq_entry mq \<and>
     msg_queue_head (fold step [0..<n] mq) = msg_queue_head mq \<and> msg_queue_tail (fold step [0..<n] mq) = msg_queue_tail mq"
proof (induction n)
  case (Suc n)
  let ?mq = "fold step [0..<n] mq"
  have e: "fold step [0..<Suc n] mq = step n ?mq" by simp
  {
    case 1
    have n: "mq_next (step n ?mq) = (mq_next ?mq)(n := msg_queue_free ?mq)" "msg_queue_free (step n ?mq) = Some n"
      by (simp_all add: step_def)
    have "n \<notin> set (rev [0..<n])" by simp
    from chain_upd [OF this] Suc.IH(1)
    have "chain ((mq_next ?mq)(n := msg_queue_free ?mq)) (msg_queue_free ?mq) (rev [0..<n])" by blast
    moreover have "rev [0..<Suc n] = n # rev [0..<n]" by simp
    ultimately show ?case unfolding e n by (simp only: chain.simps fun_upd_same)
  next
    case 2
    show ?case using Suc.IH(2) unfolding e by (simp add: step_def)
  }
qed (use assms in simp_all)

lemma new_shape:
  assumes "unat max1 * (unat msg_size1 + 4) \<le> length pool"
  shows "mq_shape (new_messagequeue b flag msg_size1 max1 pool) [] (rev [0..<unat max1]) {}"
    "io_flag (new_messagequeue b flag msg_size1 max1 pool) = flag"
    "io_static (new_messagequeue b flag msg_size1 max1 pool) = b"
    "msg_size (new_messagequeue b flag msg_size1 max1 pool) = msg_size1"
    "max_msgs (new_messagequeue b flag msg_size1 max1 pool) = max1"
    "mq_data (new_messagequeue b flag msg_size1 max1 pool) = mq_blocks pool msg_size1"
proof -
  let ?mq = "\<lparr>io_static = b, io_flag = flag, mq_next = (\<lambda>_. None), mq_data = mq_blocks pool msg_size1,
      msg_size = msg_size1, max_msgs = max1, mq_entry = 0,
      msg_queue_head = None, msg_queue_tail = None, msg_queue_free = None\<rparr> :: rt_messagequeue"
  let ?new = "new_messagequeue b flag msg_size1 max1 pool"
  have c: "chain (mq_next ?new) (msg_queue_free ?new) (rev [0..<unat max1])"
    using free_fold(1) [of ?mq "unat max1"] by (simp add: new_messagequeue_def mq_free_loop_def)
  have sel: "io_flag ?new = flag" "io_static ?new = b" "msg_size ?new = msg_size1" "max_msgs ?new = max1"
    "mq_entry ?new = 0" "msg_queue_head ?new = None" "msg_queue_tail ?new = None" "mq_data ?new = mq_blocks pool msg_size1"
    using free_fold(2) [of ?mq "unat max1"] by (simp_all add: new_messagequeue_def mq_free_loop_def)
  then show "io_flag ?new = flag" "io_static ?new = b" "msg_size ?new = msg_size1" "max_msgs ?new = max1"
    "mq_data ?new = mq_blocks pool msg_size1" by simp_all
  have "length (mq_blocks pool msg_size1 m) = unat msg_size1" if "m < unat max1" for m
  proof -
    have "Suc m * (unat msg_size1 + 4) \<le> unat max1 * (unat msg_size1 + 4)" using that by (intro mult_le_mono1) simp
    then show ?thesis using assms by (simp add: mq_blocks_def mq_header_def)
  qed
  then show "mq_shape ?new [] (rev [0..<unat max1]) {}" using c sel by (auto simp: mq_shape_def)
qed

lemma detach_head_entry:
  "mq_detach_head (mq\<lparr>mq_entry := e\<rparr>) = map_option (\<lambda>(m, mq). (m, mq\<lparr>mq_entry := e\<rparr>)) (mq_detach_head mq)"
  by (auto simp: mq_detach_head_def Let_def split: option.split)

lemma give_back_entry: "mq_give_back m (mq\<lparr>mq_entry := e\<rparr>) = (mq_give_back m mq)\<lparr>mq_entry := e\<rparr>"
  by (cases mq) (simp add: mq_give_back_def)

lemma reset_shape:
  "mq_shape (mq\<lparr>mq_entry := e\<rparr>) q f fl \<Longrightarrow>
   \<exists>mq'. mq_reset_loop mq = Some mq' \<and> mq_same mq mq' \<and> mq_shape (mq'\<lparr>mq_entry := 0\<rparr>) [] (rev q @ f) fl \<and>
     (\<forall>x. x \<notin> set q \<longrightarrow> mq_next mq' x = mq_next mq x)"
proof (induction q arbitrary: mq e f)
  case Nil
  have "e = 0" using shape_entry(1) [OF Nil] by simp
  moreover have "mq_reset_loop mq = Some mq"
    using Nil by (subst mq_reset_loop.simps) (simp add: mq_detach_head_def mq_shape_def)
  ultimately show ?case using Nil by auto
next
  case (Cons m q)
  obtain mq' where mq': "mq_detach_head (mq\<lparr>mq_entry := e\<rparr>) = Some (m, mq')" "mq_same (mq\<lparr>mq_entry := e\<rparr>) mq'"
      "mq_entry mq' = e" "mq_shape (mq'\<lparr>mq_entry := e - 1\<rparr>) q f (insert m fl)"
    using detach_head_shape [OF Cons.prems] by auto
  obtain mq1 where mq1: "mq_detach_head mq = Some (m, mq1)" "mq' = mq1\<lparr>mq_entry := e\<rparr>"
    using mq'(1) unfolding detach_head_entry by auto
  have m: "m \<notin> fl" using Cons.prems by (auto simp: mq_shape_def)
  have "mq_shape (mq_give_back m (mq1\<lparr>mq_entry := e - 1\<rparr>)) q (m # f) (insert m fl - {m})"
    using mq'(4) mq1(2) by (intro give_back_shape(1)) auto
  then have "mq_shape ((mq_give_back m mq1)\<lparr>mq_entry := e - 1\<rparr>) q (m # f) fl"
    using m by (simp add: give_back_entry insert_Diff_if)
  from Cons.IH [OF this] obtain mq2 where mq2: "mq_reset_loop (mq_give_back m mq1) = Some mq2"
      "mq_same (mq_give_back m mq1) mq2" "mq_shape (mq2\<lparr>mq_entry := 0\<rparr>) [] (rev q @ m # f) fl"
      "\<forall>x. x \<notin> set q \<longrightarrow> mq_next mq2 x = mq_next (mq_give_back m mq1) x" by blast
  have "mq_next mq1 = mq_next mq"
    using mq1(1) by (auto simp: mq_detach_head_def Let_def split: option.splits if_splits)
  then have "\<forall>x. x \<notin> set (m # q) \<longrightarrow> mq_next mq2 x = mq_next mq x" using mq2(4) by (simp add: mq_give_back_def)
  moreover have "mq_reset_loop mq = Some mq2" using mq1(1) mq2(1) by (subst mq_reset_loop.simps) simp
  moreover have "mq_same mq mq2" using mq'(2) mq1(2) mq2(2) by (simp add: mq_same_def mq_give_back_def)
  ultimately show ?case using mq2(3) by auto
qed

section \<open>The critical sections of concurrent calls\<close>

text \<open>What a call that holds a block has done with it.\<close>

datatype mq_stage = Grabbed | Cleared | Taken

datatype mq_ev = Silent | Posted "u8 list" | Posted_first "u8 list" | Received "u8 list" | Emptied

type_synonym mq_state = "rt_messagequeue \<times> (nat \<rightharpoonup> mq_stage)"

inductive mq_step :: "mq_state \<Rightarrow> mq_ev \<Rightarrow> mq_state \<Rightarrow> bool" where
  grab: "mq_grab mq = Some (m, mq') \<Longrightarrow> mq_step (mq, h) Silent (mq', h(m \<mapsto> Grabbed))"
| clear: "h m = Some Grabbed \<Longrightarrow> mq_step (mq, h) Silent (mq\<lparr>mq_next := (mq_next mq)(m := None)\<rparr>, h(m \<mapsto> Cleared))"
| fill: "h m = Some Grabbed \<or> h m = Some Cleared \<Longrightarrow> ucast (msg_size mq) \<ge> size1 \<Longrightarrow>
    mq_copy_in m buffer size1 mq = Some mq' \<Longrightarrow> mq_step (mq, h) Silent (mq', h)"
| post: "h m = Some Cleared \<Longrightarrow> mq_post m mq = (e, mq') \<Longrightarrow>
    mq_step (mq, h) (Posted (mq_data mq m)) (mq', h(m := None))"
| post_urgent: "h m = Some Grabbed \<Longrightarrow> mq_post_urgent m mq = (e, mq') \<Longrightarrow>
    mq_step (mq, h) (Posted_first (mq_data mq m)) (mq', h(m := None))"
| unlink: "mq_entry mq \<noteq> 0 \<Longrightarrow> mq_unlink mq = Some (m, mq') \<Longrightarrow>
    mq_step (mq, h) (Received (mq_data mq m)) (mq', h(m \<mapsto> Taken))"
| give_back: "h m = Some Taken \<Longrightarrow> mq_step (mq, h) Silent (mq_give_back m mq, h(m := None))"
| reset: "mq_reset_loop mq = Some mq' \<Longrightarrow> mq_step (mq, h) Emptied (mq'\<lparr>mq_entry := 0\<rparr>, h)"

inductive mq_run :: "mq_state \<Rightarrow> mq_ev list \<Rightarrow> mq_state \<Rightarrow> bool" where
  run_refl: "mq_run st [] st"
| run_step: "mq_step st e st' \<Longrightarrow> mq_run st' es st'' \<Longrightarrow> mq_run st (e # es) st''"

inductive_simps mq_run_Nil [simp]: "mq_run st [] st'"
inductive_simps mq_run_Cons: "mq_run st (e # es) st'"

definition mq_conc_inv :: "mq_state \<Rightarrow> bool" where
  "mq_conc_inv st \<longleftrightarrow> (\<exists>q f. mq_shape (fst st) q f (dom (snd st))) \<and>
     (\<forall>m. snd st m = Some Cleared \<longrightarrow> mq_next (fst st) m = None)"

text \<open>The messages in the queue, by following the links.\<close>

definition mq_msgs :: "rt_messagequeue \<Rightarrow> u8 list list" where
  "mq_msgs mq = map (mq_data mq) (walk (mq_next mq) (unat (mq_entry mq)) (msg_queue_head mq))"

text \<open>The abstract queue.\<close>

fun queue_ev :: "mq_ev \<Rightarrow> u8 list list \<Rightarrow> u8 list list option" where
  "queue_ev Silent Q = Some Q"
| "queue_ev (Posted x) Q = Some (Q @ [x])"
| "queue_ev (Posted_first x) Q = Some (x # Q)"
| "queue_ev (Received x) Q = (case Q of y # Q' \<Rightarrow> if x = y then Some Q' else None | [] \<Rightarrow> None)"
| "queue_ev Emptied Q = Some []"

fun queue_run :: "mq_ev list \<Rightarrow> u8 list list \<Rightarrow> u8 list list option" where
  "queue_run [] Q = Some Q"
| "queue_run (e # es) Q = queue_ev e Q \<bind> queue_run es"

lemma shape_msgs: "mq_shape mq q f fl \<Longrightarrow> mq_msgs mq = map (mq_data mq) q"
  using chain_walk [of "mq_next mq" "msg_queue_head mq" q] by (simp add: mq_msgs_def mq_shape_def)

lemma mq_step_refines:
  assumes "mq_step st e st'" and "mq_conc_inv st"
  shows "mq_conc_inv st' \<and> queue_ev e (mq_msgs (fst st)) = Some (mq_msgs (fst st'))"
  using assms
proof (induction rule: mq_step.induct)
  case (grab mq m mq' h)
  then obtain q f where s: "mq_shape mq q f (dom h)" and c: "\<forall>m. h m = Some Cleared \<longrightarrow> mq_next mq m = None"
    by (auto simp: mq_conc_inv_def)
  have "f \<noteq> []" using grab(1) shape_entry(3) [OF s] by (auto simp: mq_grab_def)
  then obtain m' f' where f: "f = m' # f'" by (cases f) auto
  note g = grab_shape [OF s [unfolded f]]
  have "m' = m" "mq' = mq\<lparr>msg_queue_free := mq_next mq m\<rparr>" using grab(1) g(1) by auto
  then show ?case using g(2) c shape_msgs [OF s] shape_msgs [OF g(2)] by (auto simp: mq_conc_inv_def)
next
  case (clear h m mq)
  then obtain q f where s: "mq_shape mq q f (dom h)" and c: "\<forall>m. h m = Some Cleared \<longrightarrow> mq_next mq m = None"
    by (auto simp: mq_conc_inv_def)
  have m: "m \<in> dom h" using clear(1) by auto
  note cl = clear_shape [OF s m, of None]
  have "dom (h(m \<mapsto> Cleared)) = dom h" using m by auto
  then show ?case using cl c shape_msgs [OF s] shape_msgs [OF cl] by (auto simp: mq_conc_inv_def)
next
  case (fill h m mq size1 buffer mq')
  then obtain q f where s: "mq_shape mq q f (dom h)" and c: "\<forall>m. h m = Some Cleared \<longrightarrow> mq_next mq m = None"
    by (auto simp: mq_conc_inv_def)
  have m: "m \<in> dom h" using fill(1) by auto
  have l: "unat size1 \<le> length buffer" using fill(3) by (simp add: mq_copy_in_def)
  have "unat size1 \<le> unat (msg_size mq)" using fill(2) by (simp add: word_le_nat_alt unat_ucast16)
  note f = copy_in_shape [OF s m l this]
  have "m \<notin> set q" using s m by (auto simp: mq_shape_def)
  then show ?case using fill(3) f c shape_msgs [OF s] shape_msgs [OF f(2)] by (auto simp: mq_conc_inv_def)
next
  case (post h m mq e mq')
  then obtain q f where s: "mq_shape mq q f (dom h)" and c: "\<forall>m. h m = Some Cleared \<longrightarrow> mq_next mq m = None"
    by (auto simp: mq_conc_inv_def)
  have m: "m \<in> dom h" "mq_next mq m = None" using post(1) c by auto
  obtain mq1 where p: "mq_post m mq = (RT_EOK, mq1)" "mq_shape mq1 (q @ [m]) f (dom h - {m})" "mq_data mq1 = mq_data mq"
    using post_shape [OF s m] by blast
  have "mq_next mq1 x = None" if "h x = Some Cleared" "x \<noteq> m" for x
  proof -
    have "x \<notin> set q" using s that(1) by (auto simp: mq_shape_def)
    then have "msg_queue_tail mq \<noteq> Some x" using s last_in_set [of q] by (auto simp: mq_shape_def)
    then show ?thesis using p(1) c that by (auto simp: mq_post_def Let_def split: option.splits if_splits)
  qed
  moreover have "dom (h(m := None)) = dom h - {m}" by simp
  ultimately show ?case using post(2) p shape_msgs [OF s] shape_msgs [OF p(2)] by (auto simp: mq_conc_inv_def)
next
  case (post_urgent h m mq e mq')
  then obtain q f where s: "mq_shape mq q f (dom h)" and c: "\<forall>m. h m = Some Cleared \<longrightarrow> mq_next mq m = None"
    by (auto simp: mq_conc_inv_def)
  have m: "m \<in> dom h" using post_urgent(1) by auto
  obtain mq1 where p: "mq_post_urgent m mq = (RT_EOK, mq1)" "mq_shape mq1 (m # q) f (dom h - {m})" "mq_data mq1 = mq_data mq"
    using post_urgent_shape [OF s m] by blast
  have "mq_next mq1 x = mq_next mq x" if "x \<noteq> m" for x
    using p(1) that by (auto simp: mq_post_urgent_def Let_def split: if_splits)
  moreover have "dom (h(m := None)) = dom h - {m}" by simp
  ultimately show ?case using post_urgent(2) p c shape_msgs [OF s] shape_msgs [OF p(2)] by (auto simp: mq_conc_inv_def)
next
  case (unlink mq m mq' h)
  then obtain q f where s: "mq_shape mq q f (dom h)" and c: "\<forall>m. h m = Some Cleared \<longrightarrow> mq_next mq m = None"
    by (auto simp: mq_conc_inv_def)
  obtain m1 q1 where q: "q = m1 # q1" using unlink(1) shape_entry(1) [OF s] by (cases q) auto
  obtain mq1 where p: "mq_unlink mq = Some (m1, mq1)" "mq_data mq1 = mq_data mq" "mq_shape mq1 q1 f (insert m1 (dom h))"
    using unlink_shape [OF s [unfolded q]] by blast
  have "mq_next mq1 = mq_next mq" using p(1) by (auto simp: mq_unlink_def mq_detach_head_def Let_def split: option.splits if_splits)
  then show ?case using unlink(2) p c q shape_msgs [OF s] shape_msgs [OF p(3)] by (auto simp: mq_conc_inv_def)
next
  case (give_back h m mq)
  then obtain q f where s: "mq_shape mq q f (dom h)" and c: "\<forall>m. h m = Some Cleared \<longrightarrow> mq_next mq m = None"
    by (auto simp: mq_conc_inv_def)
  have m: "m \<in> dom h" using give_back(1) by auto
  note g = give_back_shape [OF s m]
  have "dom (h(m := None)) = dom h - {m}" by simp
  moreover have "mq_next (mq_give_back m mq) x = None" if "h x = Some Cleared" for x
    using that give_back(1) c by (auto simp: mq_give_back_def)
  ultimately show ?case using g c shape_msgs [OF s] shape_msgs [OF g(1)] by (auto simp: mq_conc_inv_def)
next
  case (reset mq mq' h)
  then obtain q f where s: "mq_shape mq q f (dom h)" and c: "\<forall>m. h m = Some Cleared \<longrightarrow> mq_next mq m = None"
    by (auto simp: mq_conc_inv_def)
  have e: "mq_shape (mq\<lparr>mq_entry := mq_entry mq\<rparr>) q f (dom h)" using s by simp
  obtain mq1 where r: "mq_reset_loop mq = Some mq1" "mq_shape (mq1\<lparr>mq_entry := 0\<rparr>) [] (rev q @ f) (dom h)"
      "\<forall>x. x \<notin> set q \<longrightarrow> mq_next mq1 x = mq_next mq x"
    using reset_shape [OF e] by blast
  have "mq_next mq1 x = None" if "h x = Some Cleared" for x
  proof -
    have "x \<notin> set q" using s that by (auto simp: mq_shape_def)
    then show ?thesis using r(3) c that by simp
  qed
  then show ?case using reset(1) r(1,2) shape_msgs [OF r(2)] by (auto simp: mq_conc_inv_def)
qed

section \<open>The operations keep the invariant\<close>

definition mq_ok :: "rt_messagequeue \<Rightarrow> bool" where
  "mq_ok mq \<longleftrightarrow> flag_ok (io_flag mq) \<and> (\<exists>q f. mq_shape mq q f {})"

definition mq_op :: "nat \<Rightarrow> 'z ipc_scheme \<Rightarrow> 'z ipc_scheme \<Rightarrow> bool" where
  "mq_op i s s' \<longleftrightarrow> op_ok i s s' \<and> (\<exists>mq. objs s' i = Some (ClassMessageQueue mq) \<and> mq_ok mq)"

definition mq_cap :: "rt_messagequeue \<Rightarrow> nat" where
  "mq_cap mq = unat (max_msgs mq)"

lemma mq_okE:
  assumes "mq_ok mq"
  obtains q f where "mq_shape mq q f {}" "mq_msgs mq = map (mq_data mq) q" "length q + length f = mq_cap mq"
    "flag_ok (io_flag mq)" "mq_entry mq = 0 \<longleftrightarrow> mq_msgs mq = []"
    "msg_queue_free mq = None \<longleftrightarrow> \<not> length (mq_msgs mq) < mq_cap mq"
proof -
  obtain q f where s: "mq_shape mq q f {}" and fl: "flag_ok (io_flag mq)" using assms by (auto simp: mq_ok_def)
  have "card (set (q @ f)) = card {..<mq_cap mq}" using s by (simp add: mq_shape_def mq_cap_def)
  then have l: "length q + length f = mq_cap mq" using s distinct_card [of "q @ f"] by (simp add: mq_shape_def)
  have m: "mq_msgs mq = map (mq_data mq) q" by (rule shape_msgs [OF s])
  have b: "msg_queue_free mq = None \<longleftrightarrow> \<not> length (mq_msgs mq) < mq_cap mq"
    unfolding m using shape_entry(3) [OF s] l by (cases f) auto
  have a: "mq_entry mq = 0 \<longleftrightarrow> mq_msgs mq = []" unfolding m using shape_entry(1) [OF s] by simp
  show thesis by (rule that [OF s m l fl a b])
qed

lemma mq_ok_tests:
  assumes "mq_ok mq"
  shows "mq_entry mq = 0 \<longleftrightarrow> mq_msgs mq = []" "msg_queue_free mq = None \<longleftrightarrow> \<not> length (mq_msgs mq) < mq_cap mq"
  by (rule mq_okE [OF assms], assumption)+

text \<open>Copying a message into a free block and posting it.\<close>

lemma mq_enq_ok:
  assumes ok: "mq_ok mq" and room: "length (mq_msgs mq) < mq_cap mq"
    and size1: "unat size1 \<le> length buffer" "unat size1 \<le> unat (msg_size mq)"
  shows "\<exists>m mq1 mq2 mq' x. mq_grab mq = Some (m, mq1) \<and>
    mq_copy_in m buffer size1 (mq1\<lparr>mq_next := (mq_next mq1)(m := None)\<rparr>) = Some mq2 \<and> mq_post m mq2 = (RT_EOK, mq') \<and>
    mq_ok mq' \<and> mq_msgs mq' = mq_msgs mq @ [x] \<and> take (unat size1) x = take (unat size1) buffer \<and>
    length x = unat (msg_size mq) \<and> mq_same mq mq'"
    (is ?post)
    "\<exists>m mq1 mq2 mq' x. mq_grab mq = Some (m, mq1) \<and> mq_copy_in m buffer size1 mq1 = Some mq2 \<and>
    mq_post_urgent m mq2 = (RT_EOK, mq') \<and>
    mq_ok mq' \<and> mq_msgs mq' = x # mq_msgs mq \<and> take (unat size1) x = take (unat size1) buffer \<and>
    length x = unat (msg_size mq) \<and> mq_same mq mq'"
    (is ?urgent)
proof -
  obtain q f where s: "mq_shape mq q f {}" and fl: "flag_ok (io_flag mq)"
    and fr: "msg_queue_free mq = None \<longleftrightarrow> \<not> length (mq_msgs mq) < mq_cap mq"
    using ok by (rule mq_okE)
  have "f \<noteq> []" using fr room shape_entry(3) [OF s] by simp
  then obtain m f' where f: "f = m # f'" by (cases f) auto
  note g = grab_shape [OF s [unfolded f]]
  let ?mq1 = "mq\<lparr>msg_queue_free := mq_next mq m\<rparr>"
  let ?x = "take (unat size1) buffer @ drop (unat size1) (mq_data mq m)"
  have x: "take (unat size1) ?x = take (unat size1) buffer" "length ?x = unat (msg_size mq)"
    using size1 s f by (auto simp: mq_shape_def)
  have mq: "m \<notin> set q" using s f by (auto simp: mq_shape_def)
  have *: "mq_ok mq' \<and> mq_msgs mq' = map (mq_data mq') q' \<and> mq_same mq mq'"
    if "mq_shape mq' q' f' (insert m {} - {m})" "mq_same mq mq'" for mq' q'
    using that fl shape_msgs [OF that(1)] by (auto simp: mq_ok_def mq_same_def)
  have c: "mq_shape (?mq1\<lparr>mq_next := (mq_next ?mq1)(m := None)\<rparr>) q f' (insert m {})"
    by (rule clear_shape [OF g(2)]) simp
  obtain mq2 where mq2: "mq_copy_in m buffer size1 (?mq1\<lparr>mq_next := (mq_next ?mq1)(m := None)\<rparr>) = Some mq2"
      "mq_shape mq2 q f' (insert m {})" "mq_same mq mq2" "mq_data mq2 = (mq_data mq)(m := ?x)" "mq_next mq2 m = None"
    using copy_in_shape [OF c _ size1(1)] size1(2) by (simp add: mq_same_def)
  obtain mq' where "mq_post m mq2 = (RT_EOK, mq')" "mq_shape mq' (q @ [m]) f' (insert m {} - {m})" "mq_same mq2 mq'"
      "mq_data mq' = mq_data mq2"
    using post_shape [OF mq2(2) _ mq2(5)] by blast
  moreover from this *[of mq'] have "mq_ok mq'" "mq_msgs mq' = mq_msgs mq @ [?x]" "mq_same mq mq'"
    using mq2 mq shape_msgs [OF s] mq_same_trans [OF mq2(3)] by auto
  ultimately show ?post using g(1) mq2(1) x by blast
  obtain mq2 where mq2: "mq_copy_in m buffer size1 ?mq1 = Some mq2"
      "mq_shape mq2 q f' (insert m {})" "mq_same mq mq2" "mq_data mq2 = (mq_data mq)(m := ?x)"
    using copy_in_shape [OF g(2) _ size1(1)] size1(2) by (simp add: mq_same_def)
  obtain mq' where "mq_post_urgent m mq2 = (RT_EOK, mq')" "mq_shape mq' (m # q) f' (insert m {} - {m})" "mq_same mq2 mq'"
      "mq_data mq' = mq_data mq2"
    using post_urgent_shape [OF mq2(2)] by blast
  moreover from this *[of mq'] have "mq_ok mq'" "mq_msgs mq' = ?x # mq_msgs mq" "mq_same mq mq'"
    using mq2 mq shape_msgs [OF s] mq_same_trans [OF mq2(3)] by auto
  ultimately show ?urgent using g(1) mq2(1) x by blast
qed

lemma mq_deq_ok:
  assumes ok: "mq_ok mq" and x: "mq_msgs mq = x # xs"
  shows "\<exists>m mq1. mq_unlink mq = Some (m, mq1) \<and> mq_data mq1 m = x \<and> length x = unat (msg_size mq) \<and> msg_size mq1 = msg_size mq \<and>
    mq_ok (mq_give_back m mq1) \<and> mq_msgs (mq_give_back m mq1) = xs \<and> mq_same mq (mq_give_back m mq1)"
proof -
  obtain q f where s: "mq_shape mq q f {}" and fl: "flag_ok (io_flag mq)" and ms: "mq_msgs mq = map (mq_data mq) q"
    using ok by (rule mq_okE)
  obtain m q' where q: "q = m # q'" "mq_data mq m = x" "xs = map (mq_data mq) q'" using ms x by (cases q) auto
  obtain mq1 where u: "mq_unlink mq = Some (m, mq1)" "mq_same mq mq1" "mq_data mq1 = mq_data mq" "mq_shape mq1 q' f (insert m {})"
    using unlink_shape [OF s [unfolded q(1)]] by blast
  note g = give_back_shape [OF u(4), of m, OF insertI1]
  have "mq_shape (mq_give_back m mq1) q' (m # f) {}" using g(1) by simp
  then have "mq_ok (mq_give_back m mq1)" "mq_msgs (mq_give_back m mq1) = xs"
    using shape_msgs [OF g(1)] g(2,3) u(2,3) fl q by (auto simp: mq_ok_def mq_same_def)
  moreover have "length x = unat (msg_size mq)" using s q by (auto simp: mq_shape_def)
  ultimately show ?thesis using u q g(2) mq_same_trans [OF u(2) g(2)] by (auto simp: mq_same_def)
qed

lemma mq_send_now:
  assumes q: "kernel_quiet s" and c: "cur s \<noteq> None" and o: "objs s i = Some (ClassMessageQueue mq)" and ok: "mq_ok mq"
    and room: "length (mq_msgs mq) < mq_cap mq" and size1: "unat size1 \<le> length buffer" "unat size1 \<le> unat (msg_size mq)"
  shows "\<exists>s' mq' x. mq_send_loop i buffer size1 timeout s = Some (Ret RT_EOK, s') \<and> mq_op i s s' \<and>
    objs s' i = Some (ClassMessageQueue mq') \<and> mq_ok mq' \<and> mq_msgs mq' = mq_msgs mq @ [x] \<and>
    take (unat size1) x = take (unat size1) buffer \<and> length x = unat (msg_size mq) \<and> mq_same mq mq' \<and>
    lists s' (Suspend i) = tl (lists s (Suspend i)) \<and> made_runnable (take 1 (lists s (Suspend i))) s s'"
proof -
  have "msg_queue_free mq \<noteq> None" using ok room by (auto elim: mq_okE)
  then obtain y where fr: "msg_queue_free mq = Some y" by blast
  obtain m mq1 mq2 mq' x where e: "mq_grab mq = Some (m, mq1)"
    "mq_copy_in m buffer size1 (mq1\<lparr>mq_next := (mq_next mq1)(m := None)\<rparr>) = Some mq2" "mq_post m mq2 = (RT_EOK, mq')"
    "mq_ok mq'" "mq_msgs mq' = mq_msgs mq @ [x]" "take (unat size1) x = take (unat size1) buffer"
    "length x = unat (msg_size mq)" "mq_same mq mq'"
    using mq_enq_ok(1) [OF ok room size1] by blast
  obtain s' where s': "wake_first (Suspend i) (put_obj i (ClassMessageQueue mq') s) = Some s'" "op_ok i s s'"
    "objs s' i = Some (ClassMessageQueue mq')" "lists s' (Suspend i) = tl (lists s (Suspend i))"
    "made_runnable (take 1 (lists s (Suspend i))) s s'"
    using put_wake [OF q c, of "Suspend i" i "ClassMessageQueue mq'"] by auto
  have "mq_send_loop i buffer size1 timeout s = Some (Ret RT_EOK, s')"
    using o fr e(1-3) s'(1) by (simp add: mq_send_loop_eq get_mq_def)
  then show ?thesis using s' e by (intro exI [of _ s'] exI [of _ mq'] exI [of _ x]) (simp add: mq_op_def)
qed

lemma mq_urgent_now:
  assumes q: "kernel_quiet s" and c: "cur s \<noteq> None" and o: "objs s i = Some (ClassMessageQueue mq)" and ok: "mq_ok mq"
    and room: "length (mq_msgs mq) < mq_cap mq" and size1: "unat size1 \<le> length buffer" "unat size1 \<le> unat (msg_size mq)" "size1 \<noteq> 0"
  shows "\<exists>s' mq' x. rt_mq_urgent i buffer size1 s = Some (RT_EOK, s') \<and> mq_op i s s' \<and>
    objs s' i = Some (ClassMessageQueue mq') \<and> mq_ok mq' \<and> mq_msgs mq' = x # mq_msgs mq \<and>
    take (unat size1) x = take (unat size1) buffer \<and> length x = unat (msg_size mq) \<and> mq_same mq mq' \<and>
    lists s' (Suspend i) = tl (lists s (Suspend i)) \<and> made_runnable (take 1 (lists s (Suspend i))) s s'"
proof -
  obtain m mq1 mq2 mq' x where e: "mq_grab mq = Some (m, mq1)"
    "mq_copy_in m buffer size1 mq1 = Some mq2" "mq_post_urgent m mq2 = (RT_EOK, mq')"
    "mq_ok mq'" "mq_msgs mq' = x # mq_msgs mq" "take (unat size1) x = take (unat size1) buffer"
    "length x = unat (msg_size mq)" "mq_same mq mq'"
    using mq_enq_ok(2) [OF ok room size1(1,2)] by blast
  obtain s' where s': "wake_first (Suspend i) (put_obj i (ClassMessageQueue mq') s) = Some s'" "op_ok i s s'"
    "objs s' i = Some (ClassMessageQueue mq')" "lists s' (Suspend i) = tl (lists s (Suspend i))"
    "made_runnable (take 1 (lists s (Suspend i))) s s'"
    using put_wake [OF q c, of "Suspend i" i "ClassMessageQueue mq'"] by auto
  have "\<not> ucast (msg_size mq) < size1" using size1(2) by (simp add: not_less word_le_nat_alt unat_ucast16)
  then have "rt_mq_urgent i buffer size1 s = Some (RT_EOK, s')"
    using o e(1-3) s'(1) size1(3) by (simp add: rt_mq_urgent_eq get_mq_def)
  then show ?thesis using s' e by (intro exI [of _ s'] exI [of _ mq'] exI [of _ x]) (simp add: mq_op_def)
qed

lemma mq_send_block:
  assumes q: "kernel_quiet s" and r: "runs s c th" and o: "objs s i = Some (ClassMessageQueue mq)" and ok: "mq_ok mq"
    and full: "\<not> length (mq_msgs mq) < mq_cap mq" and tm: "timeout \<noteq> 0" "time_ok timeout"
  shows "\<exists>s' th'. mq_send_loop i buffer size1 timeout s = Some (Blocked, s') \<and> mq_op i s s' \<and> objs s' = objs s \<and>
    lists s' (SuspendSender i) = queued (io_flag mq) s c (current_priority th) (lists s (SuspendSender i)) \<and>
    threads s' c = Some th' \<and> stat th' = RT_THREAD_SUSPEND \<and> th_error th' = RT_EOK"
proof -
  have f: "flag_ok (io_flag mq)" "msg_queue_free mq = None" using ok full by (auto elim: mq_okE)
  obtain s' th' where s': "ipc_block (SuspendSender i) c (io_flag mq) timeout (upd_thread c (\<lambda>th. th\<lparr>th_error := RT_EOK\<rparr>) s) = Some s'"
    "op_ok i s s'" "objs s' = objs s"
    "lists s' (SuspendSender i) = queued (io_flag mq) s c (current_priority th) (lists s (SuspendSender i))"
    "threads s' c = Some th'" "stat th' = RT_THREAD_SUSPEND" "th_error th' = RT_EOK"
    using wait_op [OF q r disjI2 [OF refl] f(1) tm(2)] by blast
  have "mq_send_loop i buffer size1 timeout s = Some (Blocked, s')"
    using o f(2) tm s'(1) runsD [OF r] by (simp add: mq_send_loop_eq get_mq_def rt_thread_self_def)
  then show ?thesis using s' o ok by (intro exI [of _ s'] exI [of _ th']) (simp add: mq_op_def)
qed

lemma mq_recv_now:
  assumes q: "kernel_quiet s" and c: "cur s \<noteq> None" and o: "objs s i = Some (ClassMessageQueue mq)" and ok: "mq_ok mq"
    and x: "mq_msgs mq = x # xs"
  shows "\<exists>s' mq'. mq_recv_loop i size1 timeout s =
      Some (Ret (RT_EOK, Some (take (min (unat size1) (unat (msg_size mq))) x)), s') \<and> mq_op i s s' \<and>
    objs s' i = Some (ClassMessageQueue mq') \<and> mq_ok mq' \<and> mq_msgs mq' = xs \<and> mq_same mq mq' \<and>
    lists s' (SuspendSender i) = tl (lists s (SuspendSender i)) \<and> made_runnable (take 1 (lists s (SuspendSender i))) s s'"
proof -
  have n: "mq_entry mq \<noteq> 0" using ok x by (auto elim: mq_okE)
  obtain m mq1 where e: "mq_unlink mq = Some (m, mq1)" "mq_data mq1 m = x" "msg_size mq1 = msg_size mq"
    "mq_ok (mq_give_back m mq1)" "mq_msgs (mq_give_back m mq1) = xs" "mq_same mq (mq_give_back m mq1)"
    using mq_deq_ok [OF ok x] by blast
  have "mq_copy_out m size1 mq1 = take (min (unat size1) (unat (msg_size mq))) x"
    using e(2,3) by (simp add: mq_copy_out_def min_def word_less_nat_alt unat_ucast16)
  moreover obtain s' where s': "wake_first (SuspendSender i) (put_obj i (ClassMessageQueue (mq_give_back m mq1)) s) = Some s'" "op_ok i s s'"
    "objs s' i = Some (ClassMessageQueue (mq_give_back m mq1))" "lists s' (SuspendSender i) = tl (lists s (SuspendSender i))"
    "made_runnable (take 1 (lists s (SuspendSender i))) s s'"
    using put_wake [OF q c, of "SuspendSender i" i "ClassMessageQueue (mq_give_back m mq1)"] by auto
  ultimately have "mq_recv_loop i size1 timeout s = Some (Ret (RT_EOK, Some (take (min (unat size1) (unat (msg_size mq))) x)), s')"
    using o n e(1) s'(1) by (simp add: mq_recv_loop_eq get_mq_def)
  then show ?thesis using s' e by (intro exI [of _ s'] exI [of _ "mq_give_back m mq1"]) (simp add: mq_op_def)
qed

lemma mq_recv_block:
  assumes q: "kernel_quiet s" and r: "runs s c th" and o: "objs s i = Some (ClassMessageQueue mq)" and ok: "mq_ok mq"
    and n: "mq_msgs mq = []" and tm: "timeout \<noteq> 0" "time_ok timeout"
  shows "\<exists>s' th'. mq_recv_loop i size1 timeout s = Some (Blocked, s') \<and> mq_op i s s' \<and> objs s' = objs s \<and>
    lists s' (Suspend i) = queued (io_flag mq) s c (current_priority th) (lists s (Suspend i)) \<and>
    threads s' c = Some th' \<and> stat th' = RT_THREAD_SUSPEND \<and> th_error th' = RT_EOK"
proof -
  have f: "flag_ok (io_flag mq)" "mq_entry mq = 0" using ok n by (auto elim: mq_okE)
  obtain s' th' where s': "ipc_block (Suspend i) c (io_flag mq) timeout (upd_thread c (\<lambda>th. th\<lparr>th_error := RT_EOK\<rparr>) s) = Some s'"
    "op_ok i s s'" "objs s' = objs s"
    "lists s' (Suspend i) = queued (io_flag mq) s c (current_priority th) (lists s (Suspend i))"
    "threads s' c = Some th'" "stat th' = RT_THREAD_SUSPEND" "th_error th' = RT_EOK"
    using wait_op [OF q r disjI1 [OF refl] f(1) tm(2)] by blast
  have "mq_recv_loop i size1 timeout s = Some (Blocked, s')"
    using o f(2) tm s'(1) runsD [OF r] by (simp add: mq_recv_loop_eq get_mq_def rt_thread_self_def)
  then show ?thesis using s' o ok by (intro exI [of _ s'] exI [of _ th']) (simp add: mq_op_def)
qed

lemma mq_op_error:
  assumes q: "kernel_quiet s" and r: "runs s c th" and o: "objs s i = Some (ClassMessageQueue mq)" and ok: "mq_ok mq"
  shows "mq_op i s (upd_thread c (\<lambda>th. th\<lparr>th_error := e\<rparr>) s)"
proof -
  have "op_ok i s (upd_thread c (\<lambda>th. th\<lparr>th_error := e\<rparr>) s)"
    using clear_error(1,3) [OF q r] runsD [OF r] by (simp add: op_ok_def)
  then show ?thesis using o ok by (simp add: mq_op_def)
qed

lemma mq_remove_ok:
  assumes q: "kernel_quiet s" and c: "cur s \<noteq> None"
  shows "rt_mq_detach i s = Some (r, s') \<Longrightarrow> gone i s s'" "rt_mq_delete i s = Some (r, s') \<Longrightarrow> gone i s s'"
proof -
  obtain s1 s2 where s2: "ipc_list_resume_all (Suspend i) s = Some s1" "ipc_list_resume_all (SuspendSender i) s1 = Some s2"
      "op_ok i s s2" "lists s2 (Suspend i) = []" "lists s2 (SuspendSender i) = []"
    using release_both [OF q c, of i] by blast
  have "gone i s (drop_obj i s2)"
    using s2 other_frame_trans [of i s s2 "drop_obj i s2"] by (simp add: gone_def op_ok_def)
  then show "rt_mq_detach i s = Some (r, s') \<Longrightarrow> gone i s s'" "rt_mq_delete i s = Some (r, s') \<Longrightarrow> gone i s s'"
    using s2(1,2) by (auto simp: rt_mq_detach_def rt_mq_delete_def elim!: bind_SomeE)
qed

lemma mq_reset_ok:
  assumes ok: "mq_ok mq"
  shows "\<exists>mq'. mq_reset_loop mq = Some mq' \<and> mq_ok (mq'\<lparr>mq_entry := 0\<rparr>) \<and> mq_msgs (mq'\<lparr>mq_entry := 0\<rparr>) = [] \<and>
    mq_same mq (mq'\<lparr>mq_entry := 0\<rparr>)"
proof -
  obtain q f where "mq_shape mq q f {}" and fl: "flag_ok (io_flag mq)" using ok by (rule mq_okE)
  then have s: "mq_shape (mq\<lparr>mq_entry := mq_entry mq\<rparr>) q f {}" by simp
  obtain mq' where "mq_reset_loop mq = Some mq'" "mq_same mq mq'" "mq_shape (mq'\<lparr>mq_entry := 0\<rparr>) [] (rev q @ f) {}"
    using reset_shape [OF s] by blast
  then show ?thesis using fl shape_msgs by (fastforce simp: mq_ok_def mq_same_def)
qed

lemma mq_control_ok:
  assumes q: "kernel_quiet s" and c: "cur s \<noteq> None" and o: "objs s i = Some (ClassMessageQueue mq)" and ok: "mq_ok mq"
  shows "\<exists>s' mq'. rt_mq_control i cmd s = Some (case cmd of RT_IPC_CMD_RESET _ \<Rightarrow> RT_EOK | _ \<Rightarrow> E_ERROR, s') \<and> mq_op i s s' \<and>
    objs s' i = Some (ClassMessageQueue mq') \<and>
    (case cmd of RT_IPC_CMD_RESET _ \<Rightarrow> mq_msgs mq' = [] \<and> mq_cap mq' = mq_cap mq \<and>
       lists s' (Suspend i) = [] \<and> lists s' (SuspendSender i) = [] \<and>
       failed_waiters (set (lists s (Suspend i)) \<union> set (lists s (SuspendSender i))) s s' | _ \<Rightarrow> s' = s)"
proof (cases cmd)
  case (RT_IPC_CMD_RESET v)
  obtain mq' where mq': "mq_reset_loop mq = Some mq'" "mq_ok (mq'\<lparr>mq_entry := 0\<rparr>)" "mq_msgs (mq'\<lparr>mq_entry := 0\<rparr>) = []"
      "mq_same mq (mq'\<lparr>mq_entry := 0\<rparr>)"
    using mq_reset_ok [OF ok] by blast
  obtain s1 s2 where s2: "ipc_list_resume_all (Suspend i) s = Some s1" "ipc_list_resume_all (SuspendSender i) s1 = Some s2"
      "op_ok i s s2" "lists s2 (Suspend i) = []" "lists s2 (SuspendSender i) = []"
      "failed_waiters (set (lists s (Suspend i)) \<union> set (lists s (SuspendSender i))) s s2"
    using release_both [OF q c, of i] by blast
  let ?s3 = "put_obj i (ClassMessageQueue (mq'\<lparr>mq_entry := 0\<rparr>)) s2"
  have "kernel_quiet ?s3" "cur ?s3 \<noteq> None" "other_frame i s ?s3"
    using s2(3) other_frame_trans [of i s s2 ?s3] by (auto simp: op_ok_def)
  then obtain s' where s': "rt_schedule ?s3 = Some s'" "op_ok i s s'" "sched_frame ?s3 s'" using op_ok_schedule by blast
  have "objs s' i = Some (ClassMessageQueue (mq'\<lparr>mq_entry := 0\<rparr>))" using frame_objs [OF s'(3)] by simp
  moreover have "failed_waiters (set (lists s (Suspend i)) \<union> set (lists s (SuspendSender i))) s s'"
    unfolding failed_waiters_def
  proof
    fix t assume "t \<in> set (lists s (Suspend i)) \<union> set (lists s (SuspendSender i))"
    then obtain th where th: "threads ?s3 t = Some th" "runnable (stat th)" "th_error th = E_ERROR"
      using s2(6) by (auto simp: failed_waiters_def)
    obtain th' where "threads s' t = Some th'" "same_thread th th'" using frame_thread [OF s'(3) th(1)] by blast
    then show "\<exists>th. threads s' t = Some th \<and> runnable (stat th) \<and> th_error th = E_ERROR"
      using th(2,3) unfolding same_thread_def by (auto dest: arg_cong [where f = th_error])
  qed
  moreover have "rt_mq_control i cmd s = Some (RT_EOK, s')"
    using RT_IPC_CMD_RESET o s2(1,2) mq'(1) s'(1) by (simp add: rt_mq_control_def get_mq_def)
  ultimately show ?thesis
    using RT_IPC_CMD_RESET s2(4,5) s'(2) frame_sel [OF s'(3), of "Suspend i"] frame_sel [OF s'(3), of "SuspendSender i"] mq'
    by (intro exI [of _ s'] exI [of _ "mq'\<lparr>mq_entry := 0\<rparr>"]) (simp add: mq_op_def mq_cap_def mq_same_def)
next
  case (RT_IPC_CMD_OTHER x)
  then show ?thesis using o ok op_ok_refl' [OF q c] by (simp add: rt_mq_control_def get_mq_def mq_op_def)
qed

text \<open>The number of blocks \<open>rt_mq_init\<close> computes fits the pool, and \<open>rt_mq_create\<close> allocates enough.\<close>

lemma block_size: "unat (ucast msg_size1 + mq_header) = unat msg_size1 + 4" for msg_size1 :: u16
proof -
  have "unat msg_size1 < 2 ^ 16" using unsigned_less [of msg_size1, where 'a = nat] by simp
  then have "unat (ucast msg_size1 :: u32) + unat mq_header < 2 ^ LENGTH(32)"
    by (simp add: unat_ucast16 mq_header_def)
  then have "unat (ucast msg_size1 + mq_header) = unat (ucast msg_size1 :: u32) + unat mq_header"
    by (rule unat_add_lem [THEN iffD1])
  then show ?thesis by (simp add: unat_ucast16 mq_header_def)
qed

lemma pool_fits:
  fixes msg_size1 :: u16 and pool_size :: u32
  assumes "max1 = ucast (pool_size div (ucast msg_size1 + mq_header))"
  shows "unat (max1 :: u16) * (unat msg_size1 + 4) \<le> unat pool_size"
proof -
  have "unat max1 \<le> unat (pool_size div (ucast msg_size1 + mq_header))"
    unfolding assms by (simp add: unsigned_ucast_eq take_bit_eq_mod)
  then have "unat max1 \<le> unat pool_size div (unat msg_size1 + 4)" using block_size [of msg_size1] by (simp add: unat_div)
  then show ?thesis by (metis add_is_0 less_eq_div_iff_mult_less_eq neq0_conv zero_neq_numeral)
qed

lemma align_even: "(ucast (RT_ALIGN size1 4) :: u16) \<le> 65532"
proof -
  have "(ucast (RT_ALIGN size1 4) :: u16) = ucast (size1 + 3) AND NOT 3"
  proof (rule bit_word_eqI)
    fix n assume n: "n < LENGTH(16)"
    have "(3 :: u32) = mask 2" "(3 :: u16) = mask 2" by (simp_all add: mask_eq_exp_minus_1)
    then have b3: "bit (3 :: u32) n = bit (3 :: u16) n" using n by (simp only: bit_mask_iff) simp
    show "bit (ucast (RT_ALIGN size1 4) :: u16) n = bit (ucast (size1 + 3) AND NOT 3 :: u16) n"
      using n by (simp add: RT_ALIGN_def bit_simps b3 add.commute)
  qed
  also have "\<dots> \<le> NOT 3" by (rule word_and_le1)
  also have "(NOT 3 :: u16) = 65532" by (rule word_uint_eqI) simp
  finally show ?thesis .
qed

lemma alloc_fits:
  fixes msg_size1 max1 :: u16
  assumes "msg_size1 \<le> 65532"
  shows "unat ((ucast msg_size1 + mq_header) * ucast max1) = unat max1 * (unat msg_size1 + 4)"
proof -
  have "unat msg_size1 + 4 \<le> 65536" using assms by (simp add: word_le_nat_alt)
  moreover have "unat max1 \<le> 65535" using unsigned_less [of max1, where 'a = nat] by simp
  ultimately have "(unat msg_size1 + 4) * unat max1 \<le> 65536 * 65535" by (rule mult_le_mono)
  then have "unat (ucast msg_size1 + mq_header) * unat (ucast max1 :: u32) < 2 ^ LENGTH(32)"
    unfolding block_size unat_ucast16 by simp
  then have "unat ((ucast msg_size1 + mq_header) * ucast max1) = unat (ucast msg_size1 + mq_header) * unat (ucast max1 :: u32)"
    by (rule unat_mult_lem [THEN iffD1])
  then show ?thesis by (simp only: block_size unat_ucast16 mult.commute)
qed

lemma mq_new_op:
  assumes q: "kernel_quiet s" and c: "cur s \<noteq> None" and f: "flag_ok flag" and l: "unat max1 * (unat msg_size1 + 4) \<le> length pool"
  shows "mq_op i s (put_obj i (ClassMessageQueue (new_messagequeue b flag msg_size1 max1 pool)) s)"
  using new_shape [OF l, of b flag] q c f other_frame_trans [of i s s] by (auto simp: mq_op_def mq_ok_def op_ok_def)

lemma mq_init_ok:
  assumes q: "kernel_quiet s" and c: "cur s \<noteq> None" and n: "objs s i = None" "lists s (Suspend i) = []" "lists s (SuspendSender i) = []"
  shows "unat pool_size \<le> length pool \<Longrightarrow> rt_mq_init i pool size1 pool_size flag s = Some (r, s') \<Longrightarrow> mq_op i s s'"
    "(\<And>k p. mem k = Some p \<Longrightarrow> unat k \<le> length p) \<Longrightarrow> rt_mq_create (Some i) mem size1 max1 flag s = Some (ob, s') \<Longrightarrow>
      (if ob = None then s' = s else ob = Some i \<and> mq_op i s s')"
proof -
  assume a: "unat pool_size \<le> length pool" "rt_mq_init i pool size1 pool_size flag s = Some (r, s')"
  let ?sz = "ucast (RT_ALIGN size1 4) :: u16"
  let ?max = "ucast (pool_size div (ucast ?sz + mq_header)) :: u16"
  have "unat ?max * (unat ?sz + 4) \<le> length pool" using pool_fits [OF refl] a(1) by (rule order_trans)
  from mq_new_op [OF q c _ this] a(2) show "mq_op i s s'"
    using n by (auto simp: rt_mq_init_def ipc_object_init_idle sender_list_init_idle Let_def elim!: bind_SomeE)
next
  assume m: "\<And>k p. mem k = Some p \<Longrightarrow> unat k \<le> length p" and a: "rt_mq_create (Some i) mem size1 max1 flag s = Some (ob, s')"
  let ?sz = "ucast (RT_ALIGN size1 4) :: u16" and ?max = "ucast max1 :: u16"
  have f: "flag_ok flag" using a by (auto simp: rt_mq_create_def elim!: bind_SomeE)
  have "drop_obj i s = s" using n by (simp add: drop_obj_def fun_upd_idem)
  moreover have "mq_op i s (put_obj i (ClassMessageQueue (new_messagequeue False flag ?sz ?max p)) s)"
    if "mem ((ucast ?sz + mq_header) * ucast ?max) = Some p" for p
    using m [OF that] by (intro mq_new_op [OF q c f]) (simp only: alloc_fits [OF align_even])
  ultimately show "if ob = None then s' = s else ob = Some i \<and> mq_op i s s'"
    using n a by (auto simp: rt_mq_create_def ipc_object_init_idle sender_list_init_idle Let_def elim!: bind_SomeE split: option.splits)
qed

section \<open>Calls in progress\<close>

text \<open>
  The critical sections of the calls on the queue \<open>i\<close> as steps of the system's state, with the blocks in the
  hands of calls: \<open>rt_mq_send_wait\<close> (also when it goes on after a wait), \<open>rt_mq_urgent\<close>, \<open>rt_mq_recv\<close> and
  \<open>rt_mq_control\<close>. The checks before the first section read the state only.
\<close>

inductive mq_section :: "nat \<Rightarrow> (nat \<rightharpoonup> mq_stage) \<times> 'z ipc_scheme \<Rightarrow> (nat \<rightharpoonup> mq_stage) \<times> 'z ipc_scheme \<Rightarrow> bool" for i where
  send_no_room: "runs s c th \<Longrightarrow> mq_send_begin i timeout s = Some (Inl r, s') \<Longrightarrow> mq_section i (h, s) (h, s')"
| send_begin: "runs s c th \<Longrightarrow> mq_send_begin i timeout s = Some (Inr m, s') \<Longrightarrow> mq_section i (h, s) (h(m \<mapsto> Grabbed), s')"
| send_clear: "h m = Some Grabbed \<Longrightarrow> mq_send_clear i m s = Some s' \<Longrightarrow> mq_section i (h, s) (h(m \<mapsto> Cleared), s')"
| send_copy: "h m = Some Grabbed \<or> h m = Some Cleared \<Longrightarrow> get_mq i s = Some mq \<Longrightarrow> ucast (msg_size mq) \<ge> size1 \<Longrightarrow>
    mq_send_copy i m buffer size1 s = Some s' \<Longrightarrow> mq_section i (h, s) (h, s')"
| send_end: "h m = Some Cleared \<Longrightarrow> mq_send_end i m s = Some (e, s') \<Longrightarrow> mq_section i (h, s) (h(m := None), s')"
| urgent_no_room: "mq_urgent_begin i s = Some (None, s') \<Longrightarrow> mq_section i (h, s) (h, s')"
| urgent_begin: "mq_urgent_begin i s = Some (Some m, s') \<Longrightarrow> mq_section i (h, s) (h(m \<mapsto> Grabbed), s')"
| urgent_end: "h m = Some Grabbed \<Longrightarrow> mq_urgent_end i m s = Some (e, s') \<Longrightarrow> mq_section i (h, s) (h(m := None), s')"
| recv_none: "runs s c th \<Longrightarrow> mq_recv_begin i timeout s = Some (Inl r, s') \<Longrightarrow> mq_section i (h, s) (h, s')"
| recv_begin: "runs s c th \<Longrightarrow> mq_recv_begin i timeout s = Some (Inr m, s') \<Longrightarrow> mq_section i (h, s) (h(m \<mapsto> Taken), s')"
| recv_end: "h m = Some Taken \<Longrightarrow> mq_recv_end i m s = Some s' \<Longrightarrow> mq_section i (h, s) (h(m := None), s')"
| control: "rt_mq_control i cmd s = Some (e, s') \<Longrightarrow> mq_section i (h, s) (h, s')"

lemma get_mq_iff: "get_mq i s = Some mq \<longleftrightarrow> objs s i = Some (ClassMessageQueue mq)"
  by (auto simp: get_mq_def split: option.splits ipc_object.splits)

lemma mq_section_queue: "mq_section i (h, s) (h', s') \<Longrightarrow> get_mq i s \<noteq> None"
  by (erule mq_section.cases)
    (auto simp: mq_send_begin_def mq_send_clear_def mq_send_copy_def mq_send_end_def mq_urgent_begin_def mq_urgent_end_def
      mq_recv_begin_def mq_recv_end_def rt_mq_control_def elim!: bind_SomeE)

definition mq_kept :: "nat \<Rightarrow> (nat \<rightharpoonup> mq_stage) \<Rightarrow> 'z ipc_scheme \<Rightarrow> 'z ipc_scheme \<Rightarrow> bool" where
  "mq_kept i h s s' \<longleftrightarrow> op_ok i s s' \<and>
     (\<exists>mq. objs s' i = Some (ClassMessageQueue mq) \<and> flag_ok (io_flag mq) \<and> mq_conc_inv (mq, h))"

lemma mq_step_flag:
  assumes "mq_step st e st'" and "mq_conc_inv st"
  shows "io_flag (fst st') = io_flag (fst st)"
  using assms
proof (induction rule: mq_step.induct)
  case (reset mq mq' h)
  then obtain q f where "mq_shape (mq\<lparr>mq_entry := mq_entry mq\<rparr>) q f (dom h)" by (auto simp: mq_conc_inv_def)
  from reset_shape [OF this] show ?case using reset(1) by (auto simp: mq_same_def)
qed (auto simp: mq_grab_def mq_copy_in_def mq_post_def mq_post_urgent_def mq_unlink_def mq_detach_head_def mq_give_back_def
    Let_def elim!: bind_SomeE split: option.splits if_splits)

text \<open>A section that changes the queue by a step of \<open>mq_step\<close>, and then wakes the first waiter of a list.\<close>

lemma section_put:
  assumes "kernel_quiet s" and "cur s \<noteq> None" and fl: "flag_ok (io_flag mq)" and "mq_conc_inv (mq, h)"
    and st: "mq_step (mq, h) e (mq', h')"
  shows "mq_kept i h' s (put_obj i (ClassMessageQueue mq') s)"
    "is_wait l \<Longrightarrow> wake_first l (put_obj i (ClassMessageQueue mq') s) = Some s' \<Longrightarrow> mq_kept i h' s s'"
proof -
  have mq': "flag_ok (io_flag mq')" "mq_conc_inv (mq', h')"
    using mq_step_flag [OF st assms(4)] mq_step_refines [OF st assms(4)] fl by simp_all
  then show "mq_kept i h' s (put_obj i (ClassMessageQueue mq') s)" using assms(1,2) by (simp add: mq_kept_def op_ok_def)
  assume "is_wait l" "wake_first l (put_obj i (ClassMessageQueue mq') s) = Some s'"
  then show "mq_kept i h' s s'" using put_wake [OF assms(1,2), of l i "ClassMessageQueue mq'"] mq' by (auto simp: mq_kept_def)
qed

lemma section_posted:
  assumes "kernel_quiet s" and "cur s \<noteq> None" and "flag_ok (io_flag mq)" and "mq_conc_inv (mq, h)"
    and "\<And>e mq'. r = (e, mq') \<Longrightarrow> \<exists>ev. mq_step (mq, h) ev (mq', h')" and "mq_posted i r s = Some (e, s')"
  shows "mq_kept i h' s s'"
proof -
  obtain e' mq' where r: "r = (e', mq')" by (cases r)
  obtain ev where "mq_step (mq, h) ev (mq', h')" using assms(5) [OF r] by blast
  note p = section_put [OF assms(1-4) this]
  show ?thesis
    using assms(6) p(1) p(2) [where l = "Suspend i" and s' = s'] r by (auto simp: mq_posted_def Let_def elim!: bind_SomeE split: if_splits)
qed

lemma section_wait:
  assumes q: "kernel_quiet s" and r: "runs s c th" and o: "get_mq i s = Some mq" and fl: "flag_ok (io_flag mq)"
    and cv: "mq_conc_inv (mq, h)" and l: "l = Suspend i \<or> l = SuspendSender i"
  shows "mq_kept i h s (upd_thread c (\<lambda>th. th\<lparr>th_error := e\<rparr>) s)"
    "ipc_block l c (io_flag mq) timeout (upd_thread c (\<lambda>th. th\<lparr>th_error := RT_EOK\<rparr>) s) = Some s' \<Longrightarrow> mq_kept i h s s'"
proof -
  have o': "objs s i = Some (ClassMessageQueue mq)" using o by (simp add: get_mq_iff)
  have "op_ok i s (upd_thread c (\<lambda>th. th\<lparr>th_error := e\<rparr>) s)"
    using clear_error(1,3) [OF q r] runsD [OF r] by (simp add: op_ok_def)
  then show "mq_kept i h s (upd_thread c (\<lambda>th. th\<lparr>th_error := e\<rparr>) s)" using o' fl cv by (simp add: mq_kept_def)
  let ?u = "upd_thread c (\<lambda>th. th\<lparr>th_error := RT_EOK\<rparr>) s"
  assume b: "ipc_block l c (io_flag mq) timeout ?u = Some s'"
  have "time_ok timeout"
    using block_too_long [OF clear_error(1,2) [OF q r], of l "io_flag mq" timeout] l fl b by fastforce
  then show "mq_kept i h s s'" using wait_op [OF q r l fl, of timeout] b o' fl cv by (auto simp: mq_kept_def)
qed

lemma section_control:
  assumes q: "kernel_quiet s" and c: "cur s \<noteq> None" and o: "get_mq i s = Some mq" and fl: "flag_ok (io_flag mq)"
    and cv: "mq_conc_inv (mq, h)" and x: "rt_mq_control i cmd s = Some (e, s')"
  shows "mq_kept i h s s'"
proof (cases cmd)
  case (RT_IPC_CMD_RESET v)
  obtain s1 s2 where s2: "ipc_list_resume_all (Suspend i) s = Some s1" "ipc_list_resume_all (SuspendSender i) s1 = Some s2"
      "op_ok i s s2" "objs s2 = objs s"
    using release_both [OF q c, of i] by blast
  then obtain mq' where mq': "mq_reset_loop mq = Some mq'"
      "rt_schedule (put_obj i (ClassMessageQueue (mq'\<lparr>mq_entry := 0\<rparr>)) s2) = Some s'"
    using RT_IPC_CMD_RESET x o by (auto simp: rt_mq_control_def elim!: bind_SomeE)
  let ?s3 = "put_obj i (ClassMessageQueue (mq'\<lparr>mq_entry := 0\<rparr>)) s2"
  have "mq_kept i h s2 ?s3"
    using s2(3) by (intro section_put(1) [OF _ _ fl cv mq_step.reset [OF mq'(1)]]) (simp_all add: op_ok_def)
  moreover have "kernel_quiet ?s3" "cur ?s3 \<noteq> None" "other_frame i s ?s3"
    using s2(3) other_frame_trans [of i s s2 ?s3] by (auto simp: op_ok_def)
  then have "op_ok i s s' \<and> sched_frame ?s3 s'" using op_ok_schedule mq'(2) by fastforce
  ultimately show ?thesis using frame_objs [of ?s3 s'] by (auto simp: mq_kept_def)
next
  case (RT_IPC_CMD_OTHER v)
  then show ?thesis using x o fl cv op_ok_refl' [OF q c] by (auto simp: rt_mq_control_def mq_kept_def get_mq_iff)
qed

text \<open>Every section of every call keeps the queue consistent, whatever blocks other calls have in their hands.\<close>

lemma mq_section_ok:
  assumes st: "mq_section i (h, s) (h', s')" and q: "kernel_quiet s" and c: "cur s \<noteq> None" and o: "get_mq i s = Some mq"
    and fl: "flag_ok (io_flag mq)" and cv: "mq_conc_inv (mq, h)"
  shows "mq_kept i h' s s'"
  using st
proof cases
  case (send_no_room c th timeout r)
  note w = section_wait [OF q send_no_room(2) o fl cv, of "SuspendSender i"]
  show ?thesis using send_no_room(3) o w runsD(1) [OF send_no_room(2)] send_no_room(1)
    by (auto simp: mq_send_begin_def rt_thread_self_def Let_def elim!: bind_SomeE split: if_splits)
next
  case (send_begin c th timeout m)
  then obtain mq' where g: "mq_grab mq = Some (m, mq')" "s' = put_obj i (ClassMessageQueue mq') s"
    using o by (auto simp: mq_send_begin_def Let_def elim!: bind_SomeE split: if_splits)
  show ?thesis unfolding g(2) send_begin(1) by (rule section_put(1) [OF q c fl cv mq_step.grab [OF g(1)]])
next
  case (send_clear m)
  then have "s' = put_obj i (ClassMessageQueue (mq\<lparr>mq_next := (mq_next mq)(m := None)\<rparr>)) s"
    using o by (simp add: mq_send_clear_def)
  then show ?thesis using section_put(1) [OF q c fl cv mq_step.clear [where mq = mq and h = h and m = m, OF send_clear(2)]] send_clear(1) by simp
next
  case (send_copy m mq1 size1 buffer)
  then obtain mq' where g: "mq_copy_in m buffer size1 mq = Some mq'" "s' = put_obj i (ClassMessageQueue mq') s"
    using o by (auto simp: mq_send_copy_def elim!: bind_SomeE)
  have "ucast (msg_size mq) \<ge> size1" using send_copy(3,4) o by simp
  from section_put(1) [OF q c fl cv mq_step.fill [where h = h and m = m, OF send_copy(2) this g(1)]] show ?thesis using g(2) send_copy(1) by simp
next
  case (send_end m e)
  have "mq_posted i (mq_post m mq) s = Some (e, s')" using send_end(3) o by (simp add: mq_send_end_def)
  from section_posted [OF q c fl cv _ this] show ?thesis unfolding send_end(1) by (blast intro: mq_step.post [where h = h and m = m, OF send_end(2)])
next
  case urgent_no_room
  then have "s' = s" using o by (auto simp: mq_urgent_begin_def split: option.splits)
  then show ?thesis using o fl cv op_ok_refl' [OF q c] urgent_no_room(1) by (simp add: mq_kept_def get_mq_iff)
next
  case (urgent_begin m)
  then obtain mq' where g: "mq_grab mq = Some (m, mq')" "s' = put_obj i (ClassMessageQueue mq') s"
    using o by (auto simp: mq_urgent_begin_def split: option.splits)
  show ?thesis unfolding g(2) urgent_begin(1) by (rule section_put(1) [OF q c fl cv mq_step.grab [OF g(1)]])
next
  case (urgent_end m e)
  have "mq_posted i (mq_post_urgent m mq) s = Some (e, s')" using urgent_end(3) o by (simp add: mq_urgent_end_def)
  from section_posted [OF q c fl cv _ this] show ?thesis
    unfolding urgent_end(1) by (blast intro: mq_step.post_urgent [where h = h and m = m, OF urgent_end(2)])
next
  case (recv_none c th timeout r)
  note w = section_wait [OF q recv_none(2) o fl cv, of "Suspend i"]
  have u: "upd_thread c (\<lambda>th. th\<lparr>th_error := E_TIMEOUT\<rparr>) (upd_thread c (\<lambda>th. th\<lparr>th_error := RT_EOK\<rparr>) s) =
      upd_thread c (\<lambda>th. th\<lparr>th_error := E_TIMEOUT\<rparr>) s" using runsD(2) [OF recv_none(2)] by (simp add: upd_thread_def)
  show ?thesis using recv_none(3) o w runsD(1) [OF recv_none(2)] recv_none(1)
    by (auto simp: u mq_recv_begin_def rt_thread_self_def Let_def elim!: bind_SomeE split: if_splits)
next
  case (recv_begin c th timeout m)
  then obtain mq' where g: "mq_unlink mq = Some (m, mq')" "mq_entry mq \<noteq> 0" "s' = put_obj i (ClassMessageQueue mq') s"
    using o by (auto simp: mq_recv_begin_def Let_def elim!: bind_SomeE split: if_splits)
  show ?thesis unfolding g(3) recv_begin(1) by (rule section_put(1) [OF q c fl cv mq_step.unlink [OF g(2,1)]])
next
  case (recv_end m)
  then have "wake_first (SuspendSender i) (put_obj i (ClassMessageQueue (mq_give_back m mq)) s) = Some s'"
    using o by (simp add: mq_recv_end_def)
  from section_put(2) [OF q c fl cv mq_step.give_back [where mq = mq and h = h and m = m, OF recv_end(2)] _ this] show ?thesis unfolding recv_end(1) by simp
next
  case (control cmd e)
  then show ?thesis using section_control [OF q c o fl cv control(2)] by simp
qed

section \<open>Properties\<close>

text \<open>
  C9: Whatever calls interleave between their critical sections, the queue behaves as a list of
  messages: every post appends (an urgent one prepends) the message in its block, every receive takes
  the first one, and no block is ever lost, linked twice or handed out while it holds a queued message.
\<close>

theorem mq_interleaving_refines:
  assumes "mq_run st es st'" and "mq_conc_inv st"
  shows "mq_conc_inv st' \<and> queue_run es (mq_msgs (fst st)) = Some (mq_msgs (fst st'))"
  using assms
proof (induction rule: mq_run.induct)
  case (run_step st e st' es st'')
  then show ?case using mq_step_refines by simp
qed simp

definition ex_mq :: rt_messagequeue where
  "ex_mq = new_messagequeue True 0 4 2 [0, 0, 0, 0, 1, 2, 3, 4, 0, 0, 0, 0, 5, 6, 7, 8]"

lemma ex_mq_shape: "mq_shape ex_mq [] [1, 0] {}"
proof -
  have "rev [0..<unat (2 :: u16)] = [1, 0]" by (simp add: upt_rec)
  moreover have "mq_shape ex_mq [] (rev [0..<unat (2 :: u16)]) {}" unfolding ex_mq_def by (rule new_shape(1)) simp
  ultimately show ?thesis by simp
qed

text \<open>A sender and an urgent sender that copy at the same time; the urgent one posts last.\<close>

abbreviation ex_events :: "mq_ev list" where
  "ex_events \<equiv> [Silent, Silent, Silent, Silent, Silent, Posted [9, 6, 7, 8], Posted_first [3, 3, 3, 4]]"

lemma ex_mq_run: "\<exists>st. mq_run (ex_mq, Map.empty) ex_events st"
proof -
  note g1 = grab_shape [OF ex_mq_shape]
  let ?a = "ex_mq\<lparr>msg_queue_free := mq_next ex_mq 1\<rparr>"
  have sz: "msg_size ex_mq = 4" unfolding ex_mq_def by (rule new_shape(4)) simp
  have "mq_data ex_mq = mq_blocks [0, 0, 0, 0, 1, 2, 3, 4, 0, 0, 0, 0, 5, 6, 7, 8] 4"
    unfolding ex_mq_def by (rule new_shape(6)) simp
  then have d0: "mq_data ex_mq 0 = [1, 2, 3, 4]" "mq_data ex_mq 1 = [5, 6, 7, 8]" by (simp_all add: mq_blocks_def mq_header_def)
  note g2 = grab_shape [OF g1(2)]
  let ?b = "?a\<lparr>msg_queue_free := mq_next ?a 0\<rparr>"
  let ?c = "?b\<lparr>mq_next := (mq_next ?b)(1 := None)\<rparr>"
  let ?d = "?c\<lparr>mq_data := (mq_data ?c)(0 := [3, 3, 3, 4])\<rparr>"
  let ?e = "?d\<lparr>mq_data := (mq_data ?d)(1 := [9, 6, 7, 8])\<rparr>"
  let ?h = "[1 \<mapsto> Grabbed, 0 \<mapsto> Grabbed, 1 \<mapsto> Cleared]"
  have c0: "mq_copy_in 0 [3, 3, 3] 3 ?c = Some ?d" "mq_copy_in 1 [9] 1 ?d = Some ?e" using d0 by (simp_all add: mq_copy_in_def)
  have s1: "mq_step (ex_mq, Map.empty) Silent (?a, [1 \<mapsto> Grabbed])" by (rule grab [OF g1(1)])
  have s2: "mq_step (?a, [1 \<mapsto> Grabbed]) Silent (?b, [1 \<mapsto> Grabbed, 0 \<mapsto> Grabbed])" by (rule grab [OF g2(1)])
  have s3: "mq_step (?b, [1 \<mapsto> Grabbed, 0 \<mapsto> Grabbed]) Silent (?c, ?h)" by (rule clear) simp
  have s4: "mq_step (?c, ?h) Silent (?d, ?h)" by (rule fill [OF _ _ c0(1)]) (simp_all add: sz)
  have s5: "mq_step (?d, ?h) Silent (?e, ?h)" by (rule fill [OF _ _ c0(2)]) (simp_all add: sz)
  have s6: "mq_step (?e, ?h) (Posted (mq_data ?e 1)) (snd (mq_post 1 ?e), ?h(1 := None))"
    by (rule post [where e = "fst (mq_post 1 ?e)"]) simp_all
  let ?f = "snd (mq_post 1 ?e)"
  have f: "mq_data ?f = mq_data ?e" by (simp add: mq_post_def Let_def split: option.split)
  have s7: "mq_step (?f, ?h(1 := None)) (Posted_first (mq_data ?f 0)) (snd (mq_post_urgent 0 ?f), ?h(1 := None, 0 := None))"
    by (rule post_urgent [where e = "fst (mq_post_urgent 0 ?f)"]) simp_all
  have "mq_data ?e 1 = [9, 6, 7, 8]" "mq_data ?f 0 = [3, 3, 3, 4]" unfolding f by simp_all
  note t = s6 [unfolded this(1)] s7 [unfolded this(2)]
  show ?thesis
    by (rule exI, rule run_step [OF s1 run_step [OF s2 run_step [OF s3 run_step [OF s4 run_step [OF s5
      run_step [OF t(1) run_step [OF t(2) run_refl]]]]]]])
qed

theorem mq_interleaving_refines_witness:
  "\<exists>st. mq_run (ex_mq, Map.empty) ex_events st \<and> mq_msgs (fst st) = [[3, 3, 3, 4], [9, 6, 7, 8]]"
proof -
  obtain st where st: "mq_run (ex_mq, Map.empty) ex_events st" using ex_mq_run by blast
  have "mq_conc_inv (ex_mq, Map.empty)" using ex_mq_shape by (auto simp: mq_conc_inv_def)
  from mq_interleaving_refines [OF st this] shape_msgs [OF ex_mq_shape]
  have "mq_msgs (fst st) = [[3, 3, 3, 4], [9, 6, 7, 8]]" by simp
  then show ?thesis using st by blast
qed

text \<open>
  \<open>rt_mq_send_wait\<close> on every branch: a message longer than the block size is refused; with a free
  block the message is queued last, its bytes first in the block, and the first waiting receiver is made
  runnable; with none the call fails at once without time to wait and else waits among the senders.
\<close>

theorem mq_send_branches:
  assumes "kernel_quiet s" and "objs s i = Some (ClassMessageQueue mq)" and "mq_ok mq" and "runs s c th"
    and "lock_nest s = 0" and "int_nest s = 0" and "time_ok timeout" and "size1 \<noteq> 0" and "unat size1 \<le> length buffer"
  shows "if unat (msg_size mq) < unat size1 then rt_mq_send_wait i buffer size1 timeout s = Some (Ret E_ERROR, s)
    else if length (mq_msgs mq) < unat (max_msgs mq)
    then \<exists>s' mq' x. rt_mq_send_wait i buffer size1 timeout s = Some (Ret RT_EOK, s') \<and> kernel_quiet s' \<and>
      objs s' i = Some (ClassMessageQueue mq') \<and> mq_ok mq' \<and> mq_msgs mq' = mq_msgs mq @ [x] \<and>
      take (unat size1) x = take (unat size1) buffer \<and> length x = unat (msg_size mq) \<and>
      lists s' (Suspend i) = tl (lists s (Suspend i)) \<and> made_runnable (take 1 (lists s (Suspend i))) s s'
    else if timeout = 0 then rt_mq_send_wait i buffer size1 timeout s = Some (Ret E_FULL, s)
    else \<exists>s' th'. rt_mq_send_wait i buffer size1 timeout s = Some (Blocked, s') \<and> kernel_quiet s' \<and> objs s' = objs s \<and>
      lists s' (SuspendSender i) = queued (io_flag mq) s c (current_priority th) (lists s (SuspendSender i)) \<and>
      threads s' c = Some th' \<and> stat th' = RT_THREAD_SUSPEND \<and> th_error th' = RT_EOK"
proof -
  have a: "rt_mq_send_wait i buffer size1 timeout s = (if unat (msg_size mq) < unat size1 then Some (Ret E_ERROR, s)
      else if \<not> length (mq_msgs mq) < mq_cap mq \<and> timeout = 0 then Some (Ret E_FULL, s)
      else mq_send_loop i buffer size1 timeout s)"
    using assms(2,5,6,8) runsD [OF assms(4)] mq_ok_tests [OF assms(3)]
    by (simp add: rt_mq_send_wait_def get_mq_def word_less_nat_alt unat_ucast16)
  consider "unat (msg_size mq) < unat size1" | "unat size1 \<le> unat (msg_size mq)" "length (mq_msgs mq) < mq_cap mq"
    | "unat size1 \<le> unat (msg_size mq)" "\<not> length (mq_msgs mq) < mq_cap mq" "timeout = 0"
    | "unat size1 \<le> unat (msg_size mq)" "\<not> length (mq_msgs mq) < mq_cap mq" "timeout \<noteq> 0" by linarith
  then show ?thesis
  proof cases
    case 2
    have c: "cur s \<noteq> None" using runsD(1) [OF assms(4)] by simp
    from mq_send_now [OF assms(1) c assms(2,3) 2(2) assms(9) 2(1), of timeout] obtain s' mq' x where
      "mq_send_loop i buffer size1 timeout s = Some (Ret RT_EOK, s')" "mq_op i s s'"
      "objs s' i = Some (ClassMessageQueue mq')" "mq_ok mq'" "mq_msgs mq' = mq_msgs mq @ [x]"
      "take (unat size1) x = take (unat size1) buffer" "length x = unat (msg_size mq)"
      "lists s' (Suspend i) = tl (lists s (Suspend i))" "made_runnable (take 1 (lists s (Suspend i))) s s'" by blast
    then show ?thesis using 2 a by (auto simp: mq_op_def op_ok_def mq_cap_def)
  next
    case 4
    from mq_send_block [OF assms(1,4,2,3) 4(2,3) assms(7), of buffer size1] obtain s' th' where
      "mq_send_loop i buffer size1 timeout s = Some (Blocked, s')" "mq_op i s s'" "objs s' = objs s"
      "lists s' (SuspendSender i) = queued (io_flag mq) s c (current_priority th) (lists s (SuspendSender i))"
      "threads s' c = Some th'" "stat th' = RT_THREAD_SUSPEND" "th_error th' = RT_EOK" by blast
    then show ?thesis using 4 a by (auto simp: mq_op_def op_ok_def mq_cap_def)
  qed (use a in \<open>simp_all add: mq_cap_def\<close>)
qed

definition ex_mqs :: ipc where
  "ex_mqs = put_obj 15 (ClassMessageQueue ex_mq) ex_ipc"

lemma ex_mq_ok: "mq_ok ex_mq" "mq_msgs ex_mq = []" "msg_size ex_mq = 4" "max_msgs ex_mq = 2"
proof -
  have l: "unat (2 :: u16) * (unat (4 :: u16) + 4) \<le> length [0, 0, 0, 0, 1, 2, 3, 4, 0, 0, 0, 0, 5, 6, 7, 8 :: u8]" by simp
  note n = new_shape [OF l, of True 0, folded ex_mq_def]
  show "mq_ok ex_mq" using ex_mq_shape n(2) by (auto simp: mq_ok_def flag_ok_def RT_IPC_FLAG_FIFO_def)
  show "mq_msgs ex_mq = []" "msg_size ex_mq = 4" "max_msgs ex_mq = 2" using shape_msgs [OF ex_mq_shape] n(4,5) by simp_all
qed

lemma ex_mqs_ok:
  "kernel_quiet ex_mqs" "objs ex_mqs 15 = Some (ClassMessageQueue ex_mq)" "mq_ok ex_mq"
  "runs ex_mqs 1 (ex_thread RT_THREAD_RUNNING 5)" "lock_nest ex_mqs = 0" "int_nest ex_mqs = 0" "cur ex_mqs = Some 1"
  using ex_ipc_quiet ex_ipc_runs ex_mq_ok(1) by (simp_all add: ex_mqs_def runs_def)

theorem mq_send_branches_witness:
  "\<exists>s' mq' x. rt_mq_send_wait 15 [7, 8, 9] 2 (- 1) ex_mqs = Some (Ret RT_EOK, s') \<and>
     objs s' 15 = Some (ClassMessageQueue mq') \<and> mq_msgs mq' = [x] \<and> take 2 x = [7, 8] \<and> length x = 4"
  using mq_send_branches [OF ex_mqs_ok(1-6), of "- 1" 2 "[7, 8, 9]"] by (auto simp: ex_mq_ok(2-4) time_ok_def)

text \<open>
  \<open>rt_mq_recv\<close> on every branch: the oldest message is returned, its first \<open>size\<close> bytes or the whole
  block if the buffer is larger, its block is free again and the first waiting sender is made runnable;
  an empty queue times out at once without time to wait and else suspends the caller.
\<close>

theorem mq_recv_branches:
  assumes "kernel_quiet s" and "objs s i = Some (ClassMessageQueue mq)" and "mq_ok mq" and "runs s c th"
    and "lock_nest s = 0" and "int_nest s = 0" and "time_ok timeout" and "size1 \<noteq> 0"
  shows "case mq_msgs mq of
      x # xs \<Rightarrow> \<exists>s' mq'. rt_mq_recv i size1 timeout s =
          Some (Ret (RT_EOK, Some (take (min (unat size1) (unat (msg_size mq))) x)), s') \<and> kernel_quiet s' \<and>
        objs s' i = Some (ClassMessageQueue mq') \<and> mq_ok mq' \<and> mq_msgs mq' = xs \<and>
        lists s' (SuspendSender i) = tl (lists s (SuspendSender i)) \<and>
        made_runnable (take 1 (lists s (SuspendSender i))) s s'
    | [] \<Rightarrow> if timeout = 0 then rt_mq_recv i size1 timeout s = Some (Ret (E_TIMEOUT, None), s)
        else \<exists>s' th'. rt_mq_recv i size1 timeout s = Some (Blocked, s') \<and> kernel_quiet s' \<and> objs s' = objs s \<and>
          lists s' (Suspend i) = queued (io_flag mq) s c (current_priority th) (lists s (Suspend i)) \<and>
          threads s' c = Some th' \<and> stat th' = RT_THREAD_SUSPEND \<and> th_error th' = RT_EOK"
proof -
  have a: "rt_mq_recv i size1 timeout s =
      (if mq_msgs mq = [] \<and> timeout = 0 then Some (Ret (E_TIMEOUT, None), s) else mq_recv_loop i size1 timeout s)"
    using assms(2,5,6,8) runsD [OF assms(4)] mq_ok_tests [OF assms(3)]
    by (simp add: rt_mq_recv_def get_mq_def)
  show ?thesis
  proof (cases "mq_msgs mq")
    case Nil
    show ?thesis
    proof (cases "timeout = 0")
      case False
      from mq_recv_block [OF assms(1,4,2,3) Nil False assms(7), of size1] obtain s' th' where
        "mq_recv_loop i size1 timeout s = Some (Blocked, s')" "mq_op i s s'" "objs s' = objs s"
        "lists s' (Suspend i) = queued (io_flag mq) s c (current_priority th) (lists s (Suspend i))"
        "threads s' c = Some th'" "stat th' = RT_THREAD_SUSPEND" "th_error th' = RT_EOK" by blast
      then show ?thesis using Nil False a by (auto simp: mq_op_def op_ok_def)
    qed (use Nil a in simp)
  next
    case (Cons x xs)
    have c: "cur s \<noteq> None" using runsD(1) [OF assms(4)] by simp
    from mq_recv_now [OF assms(1) c assms(2,3) Cons, of size1 timeout] obtain s' mq' where
      "mq_recv_loop i size1 timeout s = Some (Ret (RT_EOK, Some (take (min (unat size1) (unat (msg_size mq))) x)), s')"
      "mq_op i s s'" "objs s' i = Some (ClassMessageQueue mq')" "mq_ok mq'" "mq_msgs mq' = xs"
      "lists s' (SuspendSender i) = tl (lists s (SuspendSender i))"
      "made_runnable (take 1 (lists s (SuspendSender i))) s s'" by blast
    then show ?thesis using Cons a by (auto simp: mq_op_def op_ok_def)
  qed
qed

theorem mq_recv_branches_witness:
  "rt_mq_recv 15 4 0 ex_mqs = Some (Ret (E_TIMEOUT, None), ex_mqs) \<and>
   (\<exists>s'. rt_mq_recv 15 4 100 ex_mqs = Some (Blocked, s') \<and> kernel_quiet s')"
  using mq_recv_branches [OF ex_mqs_ok(1-6), of 0 4] mq_recv_branches [OF ex_mqs_ok(1-6), of 100 4]
  by (auto simp: ex_mq_ok(2) time_ok_def)

text \<open>
  A message comes back as it was sent: sending \<open>size\<close> bytes to an empty queue and receiving with a
  buffer of the same size returns exactly those bytes and leaves the queue empty.
\<close>

theorem mq_send_recv_round_trip:
  assumes "kernel_quiet s" and "objs s i = Some (ClassMessageQueue mq)" and "mq_ok mq" and "cur s \<noteq> None"
    and "mq_msgs mq = []" and "0 < max_msgs mq" and "size1 \<noteq> 0" and "unat size1 \<le> length buffer"
    and "unat size1 \<le> unat (msg_size mq)"
  shows "\<exists>s1 s2 mq2. rt_mq_send i buffer size1 s = Some (Ret RT_EOK, s1) \<and>
    rt_mq_recv i size1 0 s1 = Some (Ret (RT_EOK, Some (take (unat size1) buffer)), s2) \<and> kernel_quiet s2 \<and>
    objs s2 i = Some (ClassMessageQueue mq2) \<and> mq_ok mq2 \<and> mq_msgs mq2 = []"
proof -
  have room: "length (mq_msgs mq) < mq_cap mq" using assms(5,6) by (simp add: mq_cap_def word_less_nat_alt)
  obtain s1 mq1 x where s1: "mq_send_loop i buffer size1 0 s = Some (Ret RT_EOK, s1)" "mq_op i s s1"
      "objs s1 i = Some (ClassMessageQueue mq1)" "mq_ok mq1" "mq_msgs mq1 = [x]"
      "take (unat size1) x = take (unat size1) buffer" "mq_same mq mq1"
    using mq_send_now [OF assms(1,4,2,3) room assms(8,9), of 0] assms(5) by auto
  have "msg_queue_free mq \<noteq> None" using mq_ok_tests(2) [OF assms(3)] room by simp
  moreover have "\<not> ucast (msg_size mq) < size1" using assms(9) by (simp add: not_less word_le_nat_alt unat_ucast16)
  ultimately have e1: "rt_mq_send i buffer size1 s = Some (Ret RT_EOK, s1)"
    using s1(1) assms(2,7) by (simp add: rt_mq_send_def rt_mq_send_wait_def get_mq_def debug_scheduler_available_def)
  have o1: "kernel_quiet s1" "cur s1 \<noteq> None" using s1(2) by (auto simp: mq_op_def op_ok_def)
  obtain s2 mq2 where s2: "mq_recv_loop i size1 0 s1 = Some (Ret (RT_EOK, Some (take (min (unat size1) (unat (msg_size mq1))) x)), s2)"
      "mq_op i s1 s2" "objs s2 i = Some (ClassMessageQueue mq2)" "mq_ok mq2" "mq_msgs mq2 = []"
    using mq_recv_now [OF o1 s1(3,4,5), of size1 0] by blast
  have "mq_entry mq1 \<noteq> 0" using mq_ok_tests(1) [OF s1(4)] s1(5) by simp
  moreover have "take (min (unat size1) (unat (msg_size mq1))) x = take (unat size1) buffer"
    using s1(6,7) assms(9) by (simp add: mq_same_def min_absorb1)
  ultimately have "rt_mq_recv i size1 0 s1 = Some (Ret (RT_EOK, Some (take (unat size1) buffer)), s2)"
    using s2(1) s1(3) assms(7) by (simp add: rt_mq_recv_def get_mq_def debug_scheduler_available_def)
  then show ?thesis using e1 s2 by (auto simp: mq_op_def op_ok_def)
qed

theorem mq_send_recv_round_trip_witness:
  "\<exists>s1 s2. rt_mq_send 15 [7, 8, 9] 3 ex_mqs = Some (Ret RT_EOK, s1) \<and>
     rt_mq_recv 15 3 0 s1 = Some (Ret (RT_EOK, Some [7, 8, 9]), s2)"
  using mq_send_recv_round_trip [OF ex_mqs_ok(1-3) _ ex_mq_ok(2), of 3 "[7, 8, 9]"] ex_mqs_ok(7) by (auto simp: ex_mq_ok(3,4))

end
