(* ===== verification/Mempool.thy ===== *)
theory Mempool
  imports Mailbox
begin

text \<open>
  Memory pools (rt-thread/src/mempool.c): blocks of one size, each behind a header word that links the
  free ones and names the pool of the used ones. Threads that find no block wait on the list \<open>Suspend\<close>
  of the pool, the latest first.
\<close>

section \<open>Operations\<close>

definition get_mp :: "nat \<Rightarrow> 'z ipc_scheme \<Rightarrow> rt_mempool option" where
  "get_mp i s = (case objs s i of Some (ClassMemPool mp) \<Rightarrow> Some mp | _ \<Rightarrow> None)"

text \<open>\<open>sizeof(rt_uint8_t *)\<close>, and the offset of a block, computed in 32 bits.\<close>

definition mp_header_size :: u32 where "mp_header_size = 4"

definition mp_block_at :: "u32 \<Rightarrow> u32 \<Rightarrow> nat" where
  "mp_block_at bs offset = unat (offset * (bs + mp_header_size))"

text \<open>Access to a header word; \<open>None\<close> outside the memory of the pool.\<close>

definition mp_read :: "nat \<Rightarrow> rt_mempool \<Rightarrow> mp_header option" where
  "mp_read a mp = do { rt_assert (a + unat mp_header_size \<le> mp_bytes mp); Some (mp_word mp a) }"

definition mp_write :: "nat \<Rightarrow> mp_header \<Rightarrow> rt_mempool \<Rightarrow> rt_mempool option" where
  "mp_write a h mp = do {
     rt_assert (a + unat mp_header_size \<le> mp_bytes mp);
     Some (mp\<lparr>mp_word := (mp_word mp)(a := h)\<rparr>) }"

fun mp_link_loop :: "u32 \<Rightarrow> nat list \<Rightarrow> rt_mempool \<Rightarrow> rt_mempool option" where
  "mp_link_loop bs [] mp = Some mp"
| "mp_link_loop bs (offset # os) mp = do {
     mp \<leftarrow> mp_write (mp_block_at bs (of_nat offset)) (MpNext (Some (mp_block_at bs (of_nat offset + 1)))) mp;
     mp_link_loop bs os mp }"

definition mp_link_blocks :: "rt_mempool \<Rightarrow> rt_mempool option" where
  "mp_link_blocks mp = do {
     let bs = block_size mp;
     mp \<leftarrow> mp_link_loop bs [0..<unat (block_total_count mp)] mp;
     mp \<leftarrow> mp_write (mp_block_at bs (block_total_count mp - 1)) (MpNext None) mp;
     Some (mp\<lparr>block_list := Some 0\<rparr>) }"

text \<open>\<open>bytes\<close> is the extent of the memory at \<open>start\<close>, \<open>junk\<close> its contents.\<close>

definition rt_mp_init :: "nat \<Rightarrow> nat \<Rightarrow> (nat \<Rightarrow> mp_header) \<Rightarrow> u32 \<Rightarrow> u32 \<Rightarrow> 'z ipc_scheme \<Rightarrow> (rt_err \<times> 'z ipc_scheme) option" where
  "rt_mp_init i bytes junk size1 bsize s = do {
     rt_assert (0 < size1 \<and> 0 < bsize);
     rt_assert (objs s i = None);
     let mpsize = RT_ALIGN_DOWN size1 4;
     let bs = RT_ALIGN bsize 4;
     rt_assert (bs + mp_header_size \<noteq> 0);
     let total = mpsize div (bs + mp_header_size);
     let s = ipc_object_init i s;
     mp \<leftarrow> mp_link_blocks \<lparr>mp_static = True, mp_bytes = bytes, mp_size = mpsize, block_size = bs, block_list = None,
       block_total_count = total, block_free_count = total, mp_word = junk\<rparr>;
     Some (RT_EOK, put_obj i (ClassMemPool mp) s) }"

text \<open>The removal is here a call that nothing interrupts; the theory Release has its sections.\<close>

definition rt_mp_detach :: "nat \<Rightarrow> 'z ipc_scheme \<Rightarrow> (rt_err \<times> 'z ipc_scheme) option" where
  "rt_mp_detach i s = do {
     mp \<leftarrow> get_mp i s;
     rt_assert (mp_static mp);
     s \<leftarrow> ipc_list_resume_all (Suspend i) s;
     Some (RT_EOK, drop_obj i s) }"

text \<open>\<open>mem k\<close> is what \<open>rt_malloc\<close> gives for \<open>k\<close> bytes: the extent and the contents of the memory, or nothing.\<close>

definition rt_mp_create :: "nat option \<Rightarrow> (u32 \<Rightarrow> (nat \<times> (nat \<Rightarrow> mp_header)) option) \<Rightarrow> u32 \<Rightarrow> u32 \<Rightarrow> 'z ipc_scheme \<Rightarrow>
    (nat option \<times> 'z ipc_scheme) option" where
  "rt_mp_create obj mem count bsize s = do {
     debug_not_in_interrupt s;
     rt_assert (0 < count \<and> 0 < bsize);
     (case obj of
        None \<Rightarrow> Some (None, s)
      | Some i \<Rightarrow>
          (let bs = RT_ALIGN bsize 4
           in case mem ((bs + mp_header_size) * count) of
                None \<Rightarrow> Some (None, drop_obj i s)
              | Some (bytes, junk) \<Rightarrow> do {
                  let s = ipc_object_init i s;
                  mp \<leftarrow> mp_link_blocks \<lparr>mp_static = False, mp_bytes = bytes, mp_size = (bs + mp_header_size) * count, block_size = bs,
                    block_list = None, block_total_count = count, block_free_count = count, mp_word = junk\<rparr>;
                  Some (Some i, put_obj i (ClassMemPool mp) s) })) }"

definition rt_mp_delete :: "nat \<Rightarrow> 'z ipc_scheme \<Rightarrow> (rt_err \<times> 'z ipc_scheme) option" where
  "rt_mp_delete i s = do {
     debug_not_in_interrupt s;
     mp \<leftarrow> get_mp i s;
     rt_assert (\<not> mp_static mp);
     s \<leftarrow> ipc_list_resume_all (Suspend i) s;
     Some (RT_EOK, drop_obj i s) }"

text \<open>\<open>rt_set_errno\<close>: in a thread it is the thread's error code; the global of the other contexts is not kept.\<close>

definition rt_set_errno :: "rt_err \<Rightarrow> 'z sched_scheme \<Rightarrow> 'z sched_scheme" where
  "rt_set_errno e s =
    (if rt_interrupt_get_nest s \<noteq> 0 then s
     else case rt_thread_self s of None \<Rightarrow> s | Some t \<Rightarrow> upd_thread t (\<lambda>th. th\<lparr>th_error := e\<rparr>) s)"

text \<open>Taking the first free block.\<close>

definition mp_take_block :: "nat \<Rightarrow> rt_mempool \<Rightarrow> (nat \<times> rt_mempool) option" where
  "mp_take_block i mp = do {
     let mp = mp\<lparr>block_free_count := block_free_count mp - 1\<rparr>;
     a \<leftarrow> block_list mp;
     h \<leftarrow> mp_read a mp;
     next1 \<leftarrow> (case h of MpNext n \<Rightarrow> Some n | MpOwner _ \<Rightarrow> None);
     let mp = mp\<lparr>block_list := next1\<rparr>;
     mp \<leftarrow> mp_write a (MpOwner i) mp;
     Some (a + unat mp_header_size, mp) }"

definition mp_alloc_loop :: "nat \<Rightarrow> i32 \<Rightarrow> 'z ipc_scheme \<Rightarrow> (nat option call \<times> 'z ipc_scheme) option" where
  "mp_alloc_loop i time s = do {
     mp \<leftarrow> get_mp i s;
     (if block_free_count mp = 0
      then if time = 0 then Some (Ret None, rt_set_errno E_TIMEOUT s)
        else do {
          debug_not_in_interrupt s;
          t \<leftarrow> rt_thread_self s;
          let s = upd_thread t (\<lambda>th. th\<lparr>th_error := RT_EOK\<rparr>) s;
          (_, s) \<leftarrow> rt_thread_suspend t s;
          let s = s\<lparr>lists := tbl_insert_head (Suspend i) t (lists s)\<rparr>;
          s \<leftarrow> (if 0 < sint time then thread_timer_run t time s else Some s);
          s \<leftarrow> rt_schedule s;
          Some (Blocked, s) }
      else do {
        (b, mp) \<leftarrow> mp_take_block i mp;
        Some (Ret (Some b), put_obj i (ClassMemPool mp) s) }) }"

definition rt_mp_alloc :: "nat \<Rightarrow> i32 \<Rightarrow> 'z ipc_scheme \<Rightarrow> (nat option call \<times> 'z ipc_scheme) option" where
  "rt_mp_alloc i time s = mp_alloc_loop i time s"

definition mp_alloc_resume :: "nat \<Rightarrow> i32 \<Rightarrow> tick \<Rightarrow> 'z ipc_scheme \<Rightarrow> (nat option call \<times> 'z ipc_scheme) option" where
  "mp_alloc_resume i time before_sleep s = do {
     t \<leftarrow> rt_thread_self s;
     th \<leftarrow> threads s t;
     (if th_error th \<noteq> RT_EOK then Some (Ret None, s)
      else mp_alloc_loop i (wait_left time (rt_tick_get s - before_sleep)) s) }"

text \<open>The block at offset \<open>b\<close> in the memory of the pool \<open>i\<close>; its header names the pool it goes back to.\<close>

definition mp_return_block :: "nat \<Rightarrow> nat \<Rightarrow> rt_mempool \<Rightarrow> rt_mempool option" where
  "mp_return_block i b mp = do {
     let a = b - unat mp_header_size;
     h \<leftarrow> mp_read a mp;
     rt_assert (h = MpOwner i);
     let mp = mp\<lparr>block_free_count := block_free_count mp + 1\<rparr>;
     mp \<leftarrow> mp_write a (MpNext (block_list mp)) mp;
     Some (mp\<lparr>block_list := Some a\<rparr>) }"

definition rt_mp_free :: "nat \<Rightarrow> nat option \<Rightarrow> 'z ipc_scheme \<Rightarrow> 'z ipc_scheme option" where
  "rt_mp_free i block s =
    (case block of
       None \<Rightarrow> Some s
     | Some b \<Rightarrow> do {
         mp \<leftarrow> get_mp i s;
         mp \<leftarrow> mp_return_block i b mp;
         let s = put_obj i (ClassMemPool mp) s;
         (case lists s (Suspend i) of
            [] \<Rightarrow> Some s
          | t # _ \<Rightarrow> do {
              (_, s) \<leftarrow> rt_thread_resume t (upd_thread t (\<lambda>th. th\<lparr>th_error := RT_EOK\<rparr>) s);
              rt_schedule s }) })"

section \<open>The blocks of a pool\<close>

definition mp_stride :: "rt_mempool \<Rightarrow> nat" where
  "mp_stride mp = unat (block_size mp) + 4"

definition mp_blocks :: "rt_mempool \<Rightarrow> nat set" where
  "mp_blocks mp = (\<lambda>k. k * mp_stride mp) ` {..<unat (block_total_count mp)}"

definition mp_nx :: "(nat \<Rightarrow> mp_header) \<Rightarrow> nat \<Rightarrow> nat option" where
  "mp_nx w a = (case w a of MpNext q \<Rightarrow> q | MpOwner _ \<Rightarrow> None)"

text \<open>
  The shape of the pool at address \<open>i\<close> with the free blocks \<open>f\<close>, in the order of the free list, and the
  blocks \<open>al\<close> in use.
\<close>

definition mp_shape :: "nat \<Rightarrow> rt_mempool \<Rightarrow> nat list \<Rightarrow> nat set \<Rightarrow> bool" where
  "mp_shape i mp f al \<longleftrightarrow> chain (mp_nx (mp_word mp)) (block_list mp) f \<and>
     (\<forall>a \<in> set f. \<exists>q. mp_word mp a = MpNext q) \<and> (\<forall>a \<in> al. mp_word mp a = MpOwner i) \<and>
     distinct f \<and> set f \<inter> al = {} \<and> set f \<union> al = mp_blocks mp \<and>
     unat (block_total_count mp) * mp_stride mp \<le> mp_bytes mp \<and> unat (block_free_count mp) = length f"

text \<open>What no operation on the blocks changes.\<close>

definition mp_same :: "rt_mempool \<Rightarrow> rt_mempool \<Rightarrow> bool" where
  "mp_same mp mp' \<longleftrightarrow> mp_static mp' = mp_static mp \<and> mp_bytes mp' = mp_bytes mp \<and> mp_size mp' = mp_size mp \<and>
     block_size mp' = block_size mp \<and> block_total_count mp' = block_total_count mp"

lemma mp_same_blocks: "mp_same mp mp' \<Longrightarrow> mp_stride mp' = mp_stride mp \<and> mp_blocks mp' = mp_blocks mp"
  by (simp add: mp_same_def mp_stride_def mp_blocks_def)

lemma mp_nx_upd: "mp_nx (w(a := h)) = (mp_nx w)(a := (case h of MpNext q \<Rightarrow> q | MpOwner _ \<Rightarrow> None))"
  by (auto simp: mp_nx_def fun_eq_iff)

lemma block_extent:
  assumes "mp_shape i mp f al" and "a \<in> mp_blocks mp"
  shows "a + mp_stride mp \<le> mp_bytes mp"
proof -
  obtain k where k: "a = k * mp_stride mp" "k < unat (block_total_count mp)" using assms(2) by (auto simp: mp_blocks_def)
  have "a + mp_stride mp = Suc k * mp_stride mp" using k(1) by simp
  also have "\<dots> \<le> unat (block_total_count mp) * mp_stride mp" using k(2) by (intro mult_le_mono1) simp
  also have "\<dots> \<le> mp_bytes mp" using assms(1) by (simp add: mp_shape_def)
  finally show ?thesis .
qed

lemma block_header:
  assumes "mp_shape i mp f al" and "a \<in> mp_blocks mp"
  shows "a + unat mp_header_size \<le> mp_bytes mp"
  using block_extent [OF assms] by (simp add: mp_stride_def mp_header_size_def)

lemma blocks_card: "card (mp_blocks mp) \<le> unat (block_total_count mp)" "finite (mp_blocks mp)"
  using card_image_le [of "{..<unat (block_total_count mp)}"] by (simp_all add: mp_blocks_def)

lemma shape_count:
  assumes "mp_shape i mp f al"
  shows "block_free_count mp = 0 \<longleftrightarrow> f = []" "finite al" "length f + card al \<le> unat (block_total_count mp)"
proof -
  have u: "unat (block_free_count mp) = length f" "set f \<union> al = mp_blocks mp" "set f \<inter> al = {}" "distinct f"
    using assms by (simp_all add: mp_shape_def)
  then show "block_free_count mp = 0 \<longleftrightarrow> f = []" by (auto simp: word_unat_eq_iff)
  show fin: "finite al" using u(2) blocks_card(2) [of mp] by (metis finite_Un)
  have "length f + card al = card (mp_blocks mp)"
    using card_Un_disjoint [of "set f" al] u fin distinct_card [of f] by simp
  then show "length f + card al \<le> unat (block_total_count mp)" using blocks_card(1) [of mp] by simp
qed

lemma take_shape:
  assumes s: "mp_shape i mp (a # f) al"
  shows "\<exists>mp'. mp_take_block i mp = Some (a + 4, mp') \<and> mp_shape i mp' f (insert a al) \<and> mp_same mp mp'"
proof -
  obtain q where w: "mp_word mp a = MpNext q" "block_list mp = Some a" "chain (mp_nx (mp_word mp)) q f"
    using s by (auto simp: mp_shape_def mp_nx_def)
  have a: "a \<in> mp_blocks mp" "a \<notin> set f" "a \<notin> al" using s by (auto simp: mp_shape_def)
  let ?mp = "mp\<lparr>block_free_count := block_free_count mp - 1, block_list := q, mp_word := (mp_word mp)(a := MpOwner i)\<rparr>"
  have e: "mp_take_block i mp = Some (a + 4, ?mp)"
    using w block_header [OF s a(1)] by (simp add: mp_take_block_def mp_read_def mp_write_def mp_header_size_def)
  have "block_free_count mp \<noteq> 0" using shape_count(1) [OF s] by simp
  then have "unat (block_free_count mp - 1) = length f"
    using s unat_minus_one [of "block_free_count mp"] by (simp add: mp_shape_def)
  then have "mp_shape i ?mp f (insert a al)"
    using s w a unfolding mp_shape_def by (simp add: mp_nx_upd chain_upd mp_blocks_def mp_stride_def) auto
  then show ?thesis using e by (auto simp: mp_same_def)
qed

lemma return_shape:
  assumes s: "mp_shape i mp f al" and a: "a \<in> al"
  shows "\<exists>mp'. mp_return_block i (a + 4) mp = Some mp' \<and> mp_shape i mp' (a # f) (al - {a}) \<and> mp_same mp mp'"
proof -
  let ?mp = "mp\<lparr>block_free_count := block_free_count mp + 1, mp_word := (mp_word mp)(a := MpNext (block_list mp)), block_list := Some a\<rparr>"
  have b: "a \<in> mp_blocks mp" "a \<notin> set f" "mp_word mp a = MpOwner i" using s a by (auto simp: mp_shape_def)
  have e: "mp_return_block i (a + 4) mp = Some ?mp"
    using b(3) block_header [OF s b(1)] by (simp add: mp_return_block_def mp_read_def mp_write_def mp_header_size_def)
  have "0 < card al" using shape_count(2) [OF s] a by (auto simp: card_gt_0_iff)
  then have "length f < unat (block_total_count mp)" using shape_count(3) [OF s] by simp
  then have "length f + 1 < 2 ^ 32"
    using unsigned_less [of "block_total_count mp", where 'a = nat] by simp
  moreover have "unat (block_free_count mp) = length f" using s by (simp add: mp_shape_def)
  ultimately have "unat (block_free_count mp + 1) = Suc (length f)"
    using unat_add_lem [of "block_free_count mp" 1] by simp
  then have "mp_shape i ?mp (a # f) (al - {a})"
    using s a b unfolding mp_shape_def by (simp add: mp_nx_upd chain_upd mp_blocks_def mp_stride_def) (auto simp: mp_nx_def)
  then show ?thesis using e by (auto simp: mp_same_def)
qed

text \<open>A block that is not in use is refused.\<close>

lemma return_free:
  assumes "mp_shape i mp f al" and "a \<in> set f"
  shows "mp_return_block i (a + 4) mp = None"
proof -
  have "a \<in> mp_blocks mp" "mp_word mp a \<noteq> MpOwner i" using assms by (auto simp: mp_shape_def)
  then show ?thesis using block_header [OF assms(1)] by (simp add: mp_return_block_def mp_read_def mp_header_size_def)
qed

section \<open>Linking the blocks of a new pool\<close>

lemma header_size_sum: "x * (bs + 4) < 2 ^ 32 \<Longrightarrow> k \<le> x \<Longrightarrow> k * (bs + 4) < (2 :: nat) ^ 32"
  by (meson le_less_trans mult_le_mono1)

lemma block_at:
  assumes st: "unat (bs + mp_header_size) = unat bs + 4" and "k * (unat bs + 4) < 2 ^ 32"
  shows "mp_block_at bs (of_nat k) = k * (unat bs + 4)"
proof -
  have "k \<le> k * (unat bs + 4)" by simp
  then have "k < 2 ^ 32" using assms(2) by linarith
  then have u: "unat (of_nat k :: u32) = k" by (simp add: unat_of_nat take_bit_nat_eq_self)
  then have "unat (of_nat k :: u32) * unat (bs + mp_header_size) < 2 ^ LENGTH(32)" using assms by simp
  then have "unat (of_nat k * (bs + mp_header_size)) = unat (of_nat k :: u32) * unat (bs + mp_header_size)"
    by (rule unat_mult_lem [THEN iffD1])
  then show ?thesis using u st by (simp add: mp_block_at_def)
qed

lemma link_loop_ok:
  assumes st: "unat (bs + mp_header_size) = unat bs + 4"
    and "\<forall>k \<in> set os. Suc k * (unat bs + 4) < 2 ^ 32 \<and> k * (unat bs + 4) + 4 \<le> mp_bytes mp"
  shows "mp_link_loop bs os mp = Some (mp\<lparr>mp_word :=
    fold (\<lambda>k w. w(k * (unat bs + 4) := MpNext (Some (Suc k * (unat bs + 4))))) os (mp_word mp)\<rparr>)"
  using assms(2)
proof (induction os arbitrary: mp)
  case (Cons k os)
  have k: "Suc k * (unat bs + 4) < 2 ^ 32" "k * (unat bs + 4) + 4 \<le> mp_bytes mp" using Cons.prems by simp_all
  have "mp_block_at bs (of_nat k) = k * (unat bs + 4)" "mp_block_at bs (of_nat (Suc k)) = Suc k * (unat bs + 4)"
    using block_at [OF st header_size_sum [OF k(1), of k]] block_at [OF st k(1)] by simp_all
  then have "mp_block_at bs (of_nat k) = k * (unat bs + 4)" "mp_block_at bs (of_nat k + 1) = Suc k * (unat bs + 4)"
    by (simp_all add: add.commute)
  then show ?case using Cons k by (simp add: mp_write_def mp_header_size_def)
qed simp

lemma fold_upd_at:
  assumes "inj g"
  shows "fold (\<lambda>k w. w(g k := h k)) os w (g x) = (if x \<in> set os then h x else w (g x))"
  using assms by (induction os arbitrary: w) (auto simp: inj_eq)

lemma chain_blocks:
  assumes "\<And>j. j < n \<Longrightarrow> nx (j * st) = (if Suc j < n then Some (Suc j * st) else None)" and "k < n"
  shows "chain nx (Some (k * st)) (map (\<lambda>k. k * st) [k..<n])"
  using assms(2)
proof (induction "n - k" arbitrary: k)
  case (Suc m)
  have u: "[k..<n] = k # [Suc k..<n]" using Suc.prems by (rule upt_conv_Cons)
  show ?case
  proof (cases "Suc k < n")
    case True
    then show ?thesis using u assms(1) [OF Suc.prems] Suc.hyps(1) [of "Suc k"] Suc.hyps(2) by simp
  qed (use u assms(1) [OF Suc.prems] in simp)
qed simp

lemma link_shape:
  assumes st: "unat (block_size mp + mp_header_size) = mp_stride mp"
    and n: "0 < unat (block_total_count mp)" "unat (block_total_count mp) * mp_stride mp < 2 ^ 32"
      "unat (block_total_count mp) * mp_stride mp \<le> mp_bytes mp"
    and c: "block_free_count mp = block_total_count mp"
  shows "\<exists>mp'. mp_link_blocks mp = Some mp' \<and>
    mp_shape i mp' (map (\<lambda>k. k * mp_stride mp) [0..<unat (block_total_count mp)]) {} \<and> mp_same mp mp'"
proof -
  let ?n = "unat (block_total_count mp)" and ?st = "mp_stride mp" and ?bs = "block_size mp"
  let ?g = "\<lambda>k. k * ?st" and ?h = "\<lambda>k. MpNext (Some (Suc k * ?st))"
  let ?w = "fold (\<lambda>k w. w(?g k := ?h k)) [0..<?n] (mp_word mp)"
  let ?w' = "?w(?g (?n - 1) := MpNext None)"
  let ?mp = "mp\<lparr>mp_word := ?w', block_list := Some 0\<rparr>"
  have S: "?st = unat ?bs + 4" by (simp add: mp_stride_def)
  have bd: "Suc k * ?st < 2 ^ 32 \<and> k * ?st + 4 \<le> mp_bytes mp" if "k < ?n" for k
  proof -
    have a: "Suc k * ?st \<le> ?n * ?st" using that by (intro mult_le_mono1) simp
    have "k * ?st + 4 \<le> Suc k * ?st" using S by simp
    then show ?thesis using a n by linarith
  qed
  have loop: "mp_link_loop ?bs [0..<?n] mp = Some (mp\<lparr>mp_word := ?w\<rparr>)"
    using link_loop_ok [OF st [unfolded S], of "[0..<?n]" mp] bd by (simp add: S)
  have "of_nat (?n - 1) = block_total_count mp - 1"
    using n(1) by (simp add: of_nat_diff)
  then have last: "mp_block_at ?bs (block_total_count mp - 1) = ?g (?n - 1)"
    using block_at [OF st [unfolded S], of "?n - 1"] header_size_sum [OF n(2) [unfolded S], of "?n - 1"] by (simp add: S)
  have "?g (?n - 1) + 4 \<le> mp_bytes mp" using bd [of "?n - 1"] n(1) by simp
  then have e: "mp_link_blocks mp = Some ?mp"
    using loop last by (simp add: mp_link_blocks_def mp_write_def mp_header_size_def)
  have inj: "inj ?g" using S by (auto simp: inj_def)
  have at: "?w' (?g k) = (if k < ?n - 1 then ?h k else MpNext None)" if "k < ?n" for k
    using that fold_upd_at [OF inj, where h = ?h and os = "[0..<?n]" and w = "mp_word mp"] S by auto
  have "chain (mp_nx ?w') (Some (0 * ?st)) (map ?g [0..<?n])"
    by (rule chain_blocks) (use at n(1) in \<open>auto simp: mp_nx_def simp del: mult_Suc\<close>)
  moreover have "\<exists>q. ?w' a = MpNext q" if "a \<in> set (map ?g [0..<?n])" for a
  proof -
    from that obtain k where k: "a = ?g k" "k < ?n" unfolding set_map set_upt by (elim imageE) (rule that, simp_all only: atLeastLessThan_iff, simp)
    then have "?w' a = (if k < ?n - 1 then ?h k else MpNext None)" using at by (simp only: k)
    then show ?thesis by (cases "k < ?n - 1") auto
  qed
  moreover have "distinct (map ?g [0..<?n])"
    using inj by (simp add: distinct_map inj_on_def inj_def)
  moreover have "set (map ?g [0..<?n]) = mp_blocks mp" by (auto simp: mp_blocks_def)
  ultimately have "mp_shape i ?mp (map ?g [0..<?n]) {}"
    using n(3) c unfolding mp_shape_def by (simp add: mp_blocks_def mp_stride_def)
  then show ?thesis using e by (auto simp: mp_same_def)
qed

section \<open>The operations keep the invariant\<close>

definition mp_ok :: "'z ipc_scheme \<Rightarrow> nat \<Rightarrow> rt_mempool \<Rightarrow> bool" where
  "mp_ok s i mp \<longleftrightarrow> lists s (SuspendSender i) = [] \<and> (\<exists>f al. mp_shape i mp f al)"

definition mp_op :: "nat \<Rightarrow> 'z ipc_scheme \<Rightarrow> 'z ipc_scheme \<Rightarrow> bool" where
  "mp_op i s s' \<longleftrightarrow> op_ok i s s' \<and> (\<exists>mp. objs s' i = Some (ClassMemPool mp) \<and> mp_ok s' i mp)"

lemma get_mp_iff: "get_mp i s = Some mp \<longleftrightarrow> objs s i = Some (ClassMemPool mp)"
  by (auto simp: get_mp_def split: option.splits ipc_object.splits)

lemma mp_alloc_now:
  assumes q: "kernel_quiet s" and c: "cur s \<noteq> None" and o: "objs s i = Some (ClassMemPool mp)"
    and x: "lists s (SuspendSender i) = []" and sh: "mp_shape i mp (a # f) al"
  shows "\<exists>mp'. mp_alloc_loop i time s = Some (Ret (Some (a + 4)), put_obj i (ClassMemPool mp') s) \<and>
    mp_op i s (put_obj i (ClassMemPool mp') s) \<and> mp_shape i mp' f (insert a al) \<and> mp_same mp mp'"
proof -
  obtain mp' where mp': "mp_take_block i mp = Some (a + 4, mp')" "mp_shape i mp' f (insert a al)" "mp_same mp mp'"
    using take_shape [OF sh] by blast
  have "block_free_count mp \<noteq> 0" using shape_count(1) [OF sh] by simp
  then have "mp_alloc_loop i time s = Some (Ret (Some (a + 4)), put_obj i (ClassMemPool mp') s)"
    using o mp'(1) by (simp add: mp_alloc_loop_def get_mp_def)
  then show ?thesis using mp' q c x by (auto simp: mp_op_def mp_ok_def op_ok_def)
qed

lemma mp_alloc_poll:
  assumes q: "kernel_quiet s" and r: "runs s c th" and o: "objs s i = Some (ClassMemPool mp)"
    and x: "lists s (SuspendSender i) = []" and sh: "mp_shape i mp [] al"
  defines "s' \<equiv> if int_nest s = 0 then upd_thread c (\<lambda>th. th\<lparr>th_error := E_TIMEOUT\<rparr>) s else s"
  shows "mp_alloc_loop i 0 s = Some (Ret None, s')" "mp_op i s s'"
proof -
  have "block_free_count mp = 0" using shape_count(1) [OF sh] by simp
  then show "mp_alloc_loop i 0 s = Some (Ret None, s')"
    using o runsD [OF r] by (simp add: mp_alloc_loop_def get_mp_def rt_set_errno_def rt_interrupt_get_nest_def rt_thread_self_def s'_def)
  have "op_ok i s s'"
    using clear_error(1,3) [OF q r] runsD [OF r] op_ok_refl' [OF q] by (simp add: s'_def op_ok_def)
  then show "mp_op i s s'" using o x sh by (auto simp: mp_op_def mp_ok_def s'_def)
qed

text \<open>The caller of an exhausted pool goes to the head of the list.\<close>

definition mp_waiting :: "nat \<Rightarrow> nat \<Rightarrow> rt_thread \<Rightarrow> 'z ipc_scheme \<Rightarrow> 'z ipc_scheme" where
  "mp_waiting i c th s = listed (Suspend i) c (th\<lparr>th_error := RT_EOK\<rparr>) (c # lists s (Suspend i))
     (upd_thread c (\<lambda>th. th\<lparr>th_error := RT_EOK\<rparr>) s)"

lemma mp_waiting_new:
  assumes q: "kernel_quiet s" and r: "runs s c th"
  shows "set (c # lists s l) = insert c (set (lists (upd_thread c (\<lambda>th. th\<lparr>th_error := RT_EOK\<rparr>) s) l))"
    "distinct (c # lists s l)"
  using runs_unlinked [OF kernel_quietD(5) [OF q] r] tbl_wfD [OF sched_invD(5) [OF kernel_quietD(5) [OF q]], of l]
  by (auto simp: linked_def)

lemma mp_alloc_wait:
  assumes q: "kernel_quiet s" and r: "runs s c th" and o: "objs s i = Some (ClassMemPool mp)"
    and sh: "mp_shape i mp [] al" and n: "int_nest s = 0" and tm: "time \<noteq> 0"
  shows "mp_alloc_loop i time s = do {
    s \<leftarrow> (if 0 < sint time then thread_timer_run c time (mp_waiting i c th s) else Some (mp_waiting i c th s));
    s \<leftarrow> rt_schedule s;
    Some (Blocked, s) }"
proof -
  let ?u = "upd_thread c (\<lambda>th. th\<lparr>th_error := RT_EOK\<rparr>) s" and ?th = "th\<lparr>th_error := RT_EOK\<rparr>"
  let ?v = "?u\<lparr>threads := (threads ?u)(c \<mapsto> ?th\<lparr>stat := RT_THREAD_SUSPEND\<rparr>)\<rparr>"
  have w: "is_wait (Suspend i)" by simp
  have sus: "rt_thread_suspend c ?u = Some (RT_EOK, ?v)"
    by (rule listed_quiet(1) [OF clear_error(1,2) [OF q r] w mp_waiting_new [OF q r]])
  have ls: "?v\<lparr>lists := tbl_insert_head (Suspend i) c (lists ?v)\<rparr> = mp_waiting i c th s"
    by (simp add: mp_waiting_def listed_def tbl_insert_head_def)
  have "block_free_count mp = 0" using shape_count(1) [OF sh] by simp
  then show ?thesis
    unfolding mp_alloc_loop_def Let_def using o tm n runsD(1) [OF r] sus ls
    by (simp del: upd_thread_sel
        add: get_mp_def debug_not_in_interrupt_def rt_interrupt_get_nest_def rt_thread_self_def)
qed

lemma mp_alloc_block:
  assumes q: "kernel_quiet s" and r: "runs s c th" and o: "objs s i = Some (ClassMemPool mp)"
    and x: "lists s (SuspendSender i) = []" and sh: "mp_shape i mp [] al"
    and n: "int_nest s = 0" and tm: "time \<noteq> 0" "time_ok time"
  shows "\<exists>s' th'. mp_alloc_loop i time s = Some (Blocked, s') \<and> mp_op i s s' \<and> objs s' = objs s \<and>
    lists s' (Suspend i) = c # lists s (Suspend i) \<and>
    threads s' c = Some th' \<and> stat th' = RT_THREAD_SUSPEND \<and> th_error th' = RT_EOK"
proof -
  let ?u = "upd_thread c (\<lambda>th. th\<lparr>th_error := RT_EOK\<rparr>) s" and ?th = "th\<lparr>th_error := RT_EOK\<rparr>"
    and ?ins = "c # lists s (Suspend i)"
  note u = clear_error [OF q r, where e = RT_EOK]
  obtain s' where s': "(if 0 < sint time then thread_timer_run c time (mp_waiting i c th s) else Some (mp_waiting i c th s)) =
      Some (blocked (Suspend i) c ?th ?ins time ?u)" "rt_schedule (blocked (Suspend i) c ?th ?ins time ?u) = Some s'"
    "op_ok i ?u s'" "objs s' = objs ?u" "lists s' (Suspend i) = ?ins"
    "\<forall>l'. is_wait l' \<longrightarrow> l' \<noteq> Suspend i \<longrightarrow> lists s' l' = lists ?u l'"
    "\<forall>t. rel_option same_thread (((threads ?u)(c \<mapsto> ?th\<lparr>stat := RT_THREAD_SUSPEND\<rparr>)) t) (threads s' t)"
    unfolding mp_waiting_def
    using park_op [OF u(1,2) disjI1 [OF refl] mp_waiting_new [OF q r] tm(2)] by blast
  have e: "mp_alloc_loop i time s = Some (Blocked, s')"
    unfolding mp_alloc_wait [OF q r o sh n tm(1)] s'(1) using s'(2) by simp
  have "op_ok i s s'" using s'(3) other_frame_trans [OF u(3) [where i = i]] by (simp add: op_ok_def)
  moreover obtain th' where "threads s' c = Some th'" "stat th' = RT_THREAD_SUSPEND" "th_error th' = RT_EOK"
    using waits_for_result [OF s'(7)] by blast
  ultimately show ?thesis using e s' o x sh
    by (intro exI [of _ s'] exI [of _ th']) (auto simp: mp_op_def mp_ok_def)
qed

lemma mp_alloc_too_long:
  assumes q: "kernel_quiet s" and r: "runs s c th" and o: "objs s i = Some (ClassMemPool mp)"
    and sh: "mp_shape i mp [] al" and n: "int_nest s = 0" and tm: "\<not> time_ok time"
  shows "mp_alloc_loop i time s = None"
proof -
  have t: "time \<noteq> 0" "0 < sint time" using tm by (auto simp: time_ok_def)
  show ?thesis
    unfolding mp_alloc_wait [OF q r o sh n t(1)]
    using t timer_too_long [OF clear_error(1,2) [OF q r] tm] by (simp add: mp_waiting_def)
qed

lemma mp_free_ok:
  assumes q: "kernel_quiet s" and c: "cur s \<noteq> None" and o: "objs s i = Some (ClassMemPool mp)"
    and x: "lists s (SuspendSender i) = []" and sh: "mp_shape i mp f al" and a: "a \<in> al"
  shows "\<exists>s' mp'. rt_mp_free i (Some (a + 4)) s = Some s' \<and> mp_op i s s' \<and> objs s' i = Some (ClassMemPool mp') \<and>
    mp_shape i mp' (a # f) (al - {a}) \<and> mp_same mp mp' \<and> lists s' (Suspend i) = tl (lists s (Suspend i)) \<and>
    (\<forall>t \<in> set (take 1 (lists s (Suspend i))). \<exists>th. threads s' t = Some th \<and> runnable (stat th) \<and> th_error th = RT_EOK)"
proof -
  obtain mp' where mp': "mp_return_block i (a + 4) mp = Some mp'" "mp_shape i mp' (a # f) (al - {a})" "mp_same mp mp'"
    using return_shape [OF sh a] by blast
  let ?p = "put_obj i (ClassMemPool mp') s"
  have qp: "kernel_quiet ?p" "cur ?p \<noteq> None" using q c by simp_all
  have op: "mp_op i s s'" if "op_ok i s s'" "objs s' = objs ?p" "lists s' (SuspendSender i) = []" for s'
    using that mp'(2) by (auto simp: mp_op_def mp_ok_def)
  show ?thesis
  proof (cases "lists s (Suspend i)")
    case Nil
    have "op_ok i s ?p" using qp by (simp add: op_ok_def)
    then show ?thesis
      using Nil op [of ?p] o x mp' by (intro exI [of _ ?p] exI [of _ mp']) (simp add: rt_mp_free_def get_mp_def)
  next
    case (Cons t ts)
    then obtain th where th: "threads s t = Some th" "stat th = RT_THREAD_SUSPEND"
      using waiting_thread [OF q, of t "Suspend i"] by auto
    let ?u = "upd_thread t (\<lambda>th. th\<lparr>th_error := RT_EOK\<rparr>) ?p" and ?th = "th\<lparr>th_error := RT_EOK\<rparr>"
    have qu: "kernel_quiet ?u" using sched_invD(4) [OF kernel_quietD(5) [OF qp(1)]] by (intro upd_thread_quiet [OF qp(1)]) simp
    have tu: "threads ?u t = Some ?th" "stat ?th = RT_THREAD_SUSPEND" using th by simp_all
    note r = thread_resume_quiet [OF qu tu]
    have "other_frame i ?u (woken t ?th ?u)" by (rule woken_other_frame [OF tu(1)]) simp
    moreover have "other_frame i ?p ?u" by (rule wait_other_frame) (simp add: wait_frame_upd)
    ultimately have "other_frame i s (woken t ?th ?u)"
      using other_frame_trans [OF other_frame_trans [OF put_other_frame(1)]] by blast
    then obtain s' where s': "rt_schedule (woken t ?th ?u) = Some s'" "op_ok i s s'" "sched_frame (woken t ?th ?u) s'"
      using op_ok_schedule [OF r(2)] c by auto
    have "t \<notin> set ts" using tbl_wfD [OF sched_invD(5) [OF kernel_quietD(5) [OF q]], of "Suspend i"] Cons by simp
    then have l: "lists s' (Suspend i) = ts" "lists s' (SuspendSender i) = []"
      using frame_sel [OF s'(3), of "Suspend i"] frame_sel [OF s'(3), of "SuspendSender i"] Cons x by simp_all
    have ob: "objs s' = objs ?p" using frame_objs [OF s'(3)] by simp
    have e: "rt_mp_free i (Some (a + 4)) s = Some s'"
      using o mp'(1) Cons r(1) s'(1) by (simp add: rt_mp_free_def get_mp_def)
    obtain th' where th': "threads s' t = Some th'" "runnable (stat th')" "th_error th' = RT_EOK"
      using to_run_frame [OF s'(3) tu(1)] tu(1) by (auto simp: made_runnable_def)
    then show ?thesis
      using e op [OF s'(2) ob l(2)] ob mp'(2,3) l(1) Cons by (intro exI [of _ s'] exI [of _ mp']) simp
  qed
qed

lemma mp_remove_ok:
  assumes q: "kernel_quiet s" and c: "cur s \<noteq> None" and ok: "mp_ok s i mp"
  shows "rt_mp_detach i s = Some (e, s') \<Longrightarrow> gone i s s'" "rt_mp_delete i s = Some (e, s') \<Longrightarrow> gone i s s'"
  using drop_gone [OF q c, of i] ok
  by (auto simp: rt_mp_detach_def rt_mp_delete_def mp_ok_def elim!: bind_SomeE)

section \<open>New pools\<close>

text \<open>A block size whose header does not overflow, and the step from block to block.\<close>

lemma stride4:
  assumes "unat bsize + 8 \<le> 2 ^ 32"
  shows "unat (RT_ALIGN bsize 4 + mp_header_size) = unat (RT_ALIGN bsize 4) + 4" "unat bsize \<le> unat (RT_ALIGN bsize 4)"
    "unat (RT_ALIGN bsize 4) = (unat bsize + 3) div 4 * 4"
proof -
  have a: "unat (RT_ALIGN bsize 4) = (unat bsize + 3) div 4 * 4" using assms by (intro align4) simp
  have "unat bsize + 8 \<le> 4294967296" using assms by simp
  then have "(unat bsize + 3) div 4 * 4 + 8 \<le> 4294967296" "unat bsize \<le> (unat bsize + 3) div 4 * 4" by presburger+
  then have "unat (RT_ALIGN bsize 4) + 8 \<le> 4294967296" "unat bsize \<le> unat (RT_ALIGN bsize 4)" using a by simp_all
  then show "unat (RT_ALIGN bsize 4 + mp_header_size) = unat (RT_ALIGN bsize 4) + 4" "unat bsize \<le> unat (RT_ALIGN bsize 4)"
    using unat_add_lem [of "RT_ALIGN bsize 4" mp_header_size] by (simp_all add: mp_header_size_def)
  show "unat (RT_ALIGN bsize 4) = (unat bsize + 3) div 4 * 4" by (rule a)
qed

lemma mp_new_op:
  assumes q: "kernel_quiet s" and c: "cur s \<noteq> None" and x: "lists s (SuspendSender i) = []" and sh: "mp_shape i mp f al"
  shows "mp_op i s (put_obj i (ClassMemPool mp) s)"
  using q c x sh by (auto simp: mp_op_def mp_ok_def op_ok_def)

lemma mp_init_ok:
  assumes q: "kernel_quiet s" and c: "cur s \<noteq> None" and n: "objs s i = None" "lists s (Suspend i) = []" "lists s (SuspendSender i) = []"
    and b: "0 < bsize" "unat bsize + 8 \<le> 2 ^ 32" and m: "unat size1 \<le> bytes"
    and fit: "(unat bsize + 3) div 4 * 4 + 4 \<le> unat size1 div 4 * 4"
  shows "\<exists>s' mp'. rt_mp_init i bytes junk size1 bsize s = Some (RT_EOK, s') \<and> mp_op i s s' \<and>
    objs s' i = Some (ClassMemPool mp') \<and> mp_stride mp' = (unat bsize + 3) div 4 * 4 + 4 \<and>
    unat (block_total_count mp') = (unat size1 div 4 * 4) div mp_stride mp' \<and> 0 < unat (block_total_count mp') \<and>
    mp_shape i mp' (map (\<lambda>k. k * mp_stride mp') [0..<unat (block_total_count mp')]) {}"
proof -
  let ?bs = "RT_ALIGN bsize 4" and ?sz = "RT_ALIGN_DOWN size1 4"
  let ?tot = "?sz div (?bs + mp_header_size)"
  let ?mp = "\<lparr>mp_static = True, mp_bytes = bytes, mp_size = ?sz, block_size = ?bs, block_list = None,
       block_total_count = ?tot, block_free_count = ?tot, mp_word = junk\<rparr>"
  note S = stride4 [OF b(2)]
  have st: "mp_stride ?mp = unat (?bs + mp_header_size)" using S(1) by (simp add: mp_stride_def)
  have stv: "mp_stride ?mp = (unat bsize + 3) div 4 * 4 + 4" using S(3) by (simp add: mp_stride_def)
  have sz: "unat ?sz = unat size1 div 4 * 4" by (rule align_down4)
  have tot: "unat ?tot = unat ?sz div mp_stride ?mp" using st by (simp add: unat_div)
  have "unat ?tot * mp_stride ?mp \<le> unat ?sz" unfolding tot by (rule div_times_less_eq_dividend)
  moreover have "unat ?sz \<le> unat size1" using sz by simp
  moreover have "unat ?sz < 2 ^ 32" using unsigned_less [of ?sz, where 'a = nat] by simp
  ultimately have le: "unat ?tot * mp_stride ?mp < 2 ^ 32" "unat ?tot * mp_stride ?mp \<le> bytes" using m by linarith+
  have "0 < mp_stride ?mp" using stv by simp
  then have pos: "0 < unat ?tot" unfolding tot using fit stv sz by (simp only: div_greater_zero_iff)
  obtain mp' where mp': "mp_link_blocks ?mp = Some mp'"
      "mp_shape i mp' (map (\<lambda>k. k * mp_stride ?mp) [0..<unat (block_total_count ?mp)]) {}" "mp_same ?mp mp'"
    using link_shape [of ?mp i] st pos le by auto
  have same: "mp_stride mp' = mp_stride ?mp" "block_total_count mp' = ?tot"
    using mp_same_blocks [OF mp'(3)] mp'(3) by (simp_all add: mp_same_def)
  have "0 < unat size1" using fit by (cases "unat size1 = 0") simp_all
  then have z: "0 < size1" by (simp add: word_gt_0 word_unat_eq_iff)
  have h: "?bs + mp_header_size \<noteq> 0" using st stv by (auto simp: word_unat_eq_iff)
  have "rt_mp_init i bytes junk size1 bsize s = Some (RT_EOK, put_obj i (ClassMemPool mp') s)"
    using n z b h mp'(1) by (simp add: rt_mp_init_def ipc_object_init_idle Let_def)
  then show ?thesis
    using mp_new_op [OF q c n(3) mp'(2)] same mp'(2) pos stv tot sz
    by (intro exI [of _ "put_obj i (ClassMemPool mp') s"] exI [of _ mp']) simp
qed

lemma mp_create_ok:
  assumes q: "kernel_quiet s" and c: "cur s \<noteq> None" and n: "objs s i = None" "lists s (Suspend i) = []" "lists s (SuspendSender i) = []"
    and i0: "int_nest s = 0" and b: "0 < count" "0 < bsize" "unat bsize + 8 \<le> 2 ^ 32"
    and fit: "unat count * ((unat bsize + 3) div 4 * 4 + 4) < 2 ^ 32"
    and mem: "\<forall>k p j. mem k = Some (p, j) \<longrightarrow> unat k \<le> p"
  shows "case mem ((RT_ALIGN bsize 4 + mp_header_size) * count) of
      None \<Rightarrow> rt_mp_create (Some i) mem count bsize s = Some (None, s)
    | Some _ \<Rightarrow> \<exists>s' mp'. rt_mp_create (Some i) mem count bsize s = Some (Some i, s') \<and> mp_op i s s' \<and>
        objs s' i = Some (ClassMemPool mp') \<and> mp_stride mp' = (unat bsize + 3) div 4 * 4 + 4 \<and>
        block_total_count mp' = count \<and> mp_shape i mp' (map (\<lambda>k. k * mp_stride mp') [0..<unat count]) {}"
proof -
  let ?bs = "RT_ALIGN bsize 4"
  let ?k = "(?bs + mp_header_size) * count"
  note S = stride4 [OF b(3)]
  have "unat (?bs + mp_header_size) * unat count < 2 ^ LENGTH(32)" using fit S(1,3) by (simp add: mult.commute)
  then have k: "unat ?k = (unat ?bs + 4) * unat count"
    using unat_mult_lem [of "?bs + mp_header_size" count] S(1) by simp
  have dr: "drop_obj i s = s" using n(1) by (simp add: drop_obj_def fun_upd_idem)
  show ?thesis
  proof (cases "mem ?k")
    case None
    then show ?thesis using b i0 dr by (simp add: rt_mp_create_def debug_not_in_interrupt_def rt_interrupt_get_nest_def Let_def)
  next
    case (Some r)
    obtain p j where r: "r = (p, j)" by (cases r)
    let ?mp = "\<lparr>mp_static = False, mp_bytes = p, mp_size = ?k, block_size = ?bs,
                    block_list = None, block_total_count = count, block_free_count = count, mp_word = j\<rparr>"
    have st: "mp_stride ?mp = unat (?bs + mp_header_size)" using S(1) by (simp add: mp_stride_def)
    have stv: "mp_stride ?mp = (unat bsize + 3) div 4 * 4 + 4" using S(3) by (simp add: mp_stride_def)
    have "unat ?k \<le> p" using mem Some r by blast
    then have le: "unat count * mp_stride ?mp \<le> p" using k by (simp add: mp_stride_def mult.commute)
    have pos: "0 < unat count" using b(1) by (simp add: word_gt_0 word_unat_eq_iff)
    obtain mp' where mp': "mp_link_blocks ?mp = Some mp'"
        "mp_shape i mp' (map (\<lambda>k. k * mp_stride ?mp) [0..<unat (block_total_count ?mp)]) {}" "mp_same ?mp mp'"
      using link_shape [of ?mp i] st pos le fit [folded stv] by auto
    have same: "mp_stride mp' = mp_stride ?mp" "block_total_count mp' = count"
      using mp_same_blocks [OF mp'(3)] mp'(3) by (simp_all add: mp_same_def)
    have "rt_mp_create (Some i) mem count bsize s = Some (Some i, put_obj i (ClassMemPool mp') s)"
      using n b i0 mp'(1) Some r
      by (simp add: rt_mp_create_def ipc_object_init_idle debug_not_in_interrupt_def rt_interrupt_get_nest_def Let_def)
    then show ?thesis
      using Some mp_new_op [OF q c n(3) mp'(2)] same mp'(2) stv
      by (auto simp: put_obj_def)
  qed
qed

text \<open>Without room for one block the loop links nothing and the write after it goes before the memory.\<close>

lemma mp_init_too_small:
  assumes b: "0 < bsize" "unat bsize + 8 \<le> 2 ^ 32" and fit: "unat size1 div 4 * 4 < (unat bsize + 3) div 4 * 4 + 4"
    and m: "bytes + (unat bsize + 3) div 4 * 4 < 2 ^ 32"
  shows "rt_mp_init i bytes junk size1 bsize s = None"
proof -
  let ?bs = "RT_ALIGN bsize 4" and ?sz = "RT_ALIGN_DOWN size1 4"
  note S = stride4 [OF b(2)]
  have tot: "?sz div (?bs + mp_header_size) = 0"
    using fit S align_down4 [of size1] by (simp add: word_unat_eq_iff unat_div)
  have h: "?bs + mp_header_size \<noteq> 0" using S(1) by (auto simp: word_unat_eq_iff)
  have "mp_block_at ?bs (- 1) = unat (- (?bs + mp_header_size))" by (simp add: mp_block_at_def)
  also have "\<dots> = 2 ^ 32 - (unat ?bs + 4)" using S(1) h unat_sub_if_size [of 0 "?bs + mp_header_size"] by (simp add: word_size)
  finally have "\<not> mp_block_at ?bs (- 1) + 4 \<le> bytes" using m S(3) by simp
  then show ?thesis
    using h tot by (simp add: rt_mp_init_def Let_def mp_link_blocks_def mp_write_def mp_header_size_def)
qed

text \<open>
  When the total size overflows, the memory is too small for the blocks and the loop writes behind it.
\<close>

lemma link_loop_append: "mp_link_loop bs (xs @ ys) mp = mp_link_loop bs xs mp \<bind> mp_link_loop bs ys"
proof (induction xs arbitrary: mp)
  case (Cons x xs)
  then show ?case by (simp split: Option.bind_splits)
qed simp

lemma link_loop_bytes: "mp_link_loop bs os mp = Some mp' \<Longrightarrow> mp_bytes mp' = mp_bytes mp"
proof (induction os arbitrary: mp)
  case (Cons x xs)
  then show ?case by (auto simp: mp_write_def elim!: bind_SomeE)
qed simp

lemma link_loop_outside:
  assumes "k \<in> set os" and "\<not> mp_block_at bs (of_nat k) + 4 \<le> mp_bytes mp"
  shows "mp_link_loop bs os mp = None"
proof -
  obtain xs ys where os: "os = xs @ k # ys" using split_list [OF assms(1)] by blast
  show ?thesis
  proof (cases "mp_link_loop bs xs mp")
    case (Some mp')
    then show ?thesis using os assms(2) link_loop_bytes [OF Some]
      by (simp add: link_loop_append mp_write_def mp_header_size_def)
  qed (use os in \<open>simp add: link_loop_append\<close>)
qed

lemma past_end:
  fixes st :: nat
  assumes "0 < st" and "bytes + 2 * st < N"
  shows "Suc (bytes div st) * st < N" "bytes < Suc (bytes div st) * st"
  using assms div_times_less_eq_dividend [of bytes st] dividend_less_div_times [of st bytes] unfolding mult_Suc by linarith+

lemma mp_create_overflow:
  assumes b: "0 < bsize" "unat bsize + 8 \<le> 2 ^ 32"
    and over: "2 ^ 32 \<le> unat count * ((unat bsize + 3) div 4 * 4 + 4)"
    and m: "mem ((RT_ALIGN bsize 4 + mp_header_size) * count) = Some (bytes, junk)"
      "bytes + 2 * ((unat bsize + 3) div 4 * 4 + 4) < 2 ^ 32"
  shows "rt_mp_create (Some i) mem count bsize s = None"
proof -
  let ?bs = "RT_ALIGN bsize 4"
  let ?st = "unat ?bs + 4"
  let ?k = "Suc (bytes div ?st)"
  note S = stride4 [OF b(2)]
  have "bytes + 2 * ?st < 2 ^ 32" using m(2) S(3) by simp
  from past_end [OF _ this] have k: "?k * ?st < 2 ^ 32" "\<not> ?k * ?st + 4 \<le> bytes" by auto
  have "?k < unat count"
  proof (rule ccontr)
    assume "\<not> ?k < unat count"
    then have "unat count * ?st \<le> ?k * ?st" by (intro mult_le_mono1) simp
    then show False using over k(1) S(3) by simp
  qed
  then have "mp_link_blocks \<lparr>mp_static = False, mp_bytes = bytes, mp_size = (?bs + mp_header_size) * count, block_size = ?bs,
                    block_list = None, block_total_count = count, block_free_count = count, mp_word = junk\<rparr> = None"
    using link_loop_outside [of ?k "[0..<unat count]"] block_at [OF S(1) k(1)] k(2)
    by (simp add: mp_link_blocks_def Let_def)
  then show ?thesis
    using m(1) by (simp add: rt_mp_create_def Let_def Option.bind_eq_None_conv)
qed

section \<open>Any sequence of allocations and releases\<close>

text \<open>The pool at \<open>i\<close> with the set of the addresses handed out and not yet given back.\<close>

inductive mp_step :: "nat \<Rightarrow> rt_mempool \<times> nat set \<Rightarrow> rt_mempool \<times> nat set \<Rightarrow> bool" for i where
  take1: "mp_take_block i mp = Some (b, mp') \<Longrightarrow> mp_step i (mp, u) (mp', insert b u)"
| return1: "b \<in> u \<Longrightarrow> mp_return_block i b mp = Some mp' \<Longrightarrow> mp_step i (mp, u) (mp', u - {b})"

inductive_cases mp_stepE: "mp_step i (mp, u) m"

lemma take_None: "mp_shape i mp [] al \<Longrightarrow> mp_take_block i mp = None"
  by (simp add: mp_shape_def mp_take_block_def)

lemma mp_step_shape:
  assumes st: "mp_step i (mp, u) (mp', u')" and sh: "mp_shape i mp f al" and u: "u = (\<lambda>a. a + 4) ` al"
  shows "\<exists>f' al'. mp_shape i mp' f' al' \<and> u' = (\<lambda>a. a + 4) ` al' \<and> mp_same mp mp'"
  using st
proof (rule mp_stepE)
  fix b mp1 assume take1: "(mp', u') = (mp1, insert b u)" "mp_take_block i mp = Some (b, mp1)"
  then obtain a f' where f: "f = a # f'" using take_None sh by (cases f) auto
  then show ?thesis using take_shape [OF sh [unfolded f]] take1 u by (metis image_insert option.inject prod.inject)
next
  fix b mp2 assume return1: "(mp', u') = (mp2, u - {b})" "b \<in> u" "mp_return_block i b mp = Some mp2"
  then obtain a where a: "b = a + 4" "a \<in> al" using u by blast
  obtain mp1 where "mp_return_block i (a + 4) mp = Some mp1" "mp_shape i mp1 (a # f) (al - {a})" "mp_same mp mp1"
    using return_shape [OF sh a(2)] by blast
  moreover have "u - {b} = (\<lambda>a. a + 4) ` (al - {a})" using u a by auto
  ultimately show ?thesis using return1 a(1) by auto
qed

lemma mp_steps_shape:
  assumes "(mp_step i)\<^sup>*\<^sup>* (mp, u) (mp', u')" and "mp_shape i mp f al" and "u = (\<lambda>a. a + 4) ` al"
  shows "\<exists>f' al'. mp_shape i mp' f' al' \<and> u' = (\<lambda>a. a + 4) ` al' \<and> mp_same mp mp'"
  using assms(1)
proof (induction "(mp', u')" arbitrary: mp' u' rule: rtranclp_induct)
  case base
  then show ?case using assms(2,3) by (auto simp: mp_same_def)
next
  case (step y)
  obtain mp1 u1 where y: "y = (mp1, u1)" by (cases y)
  obtain f1 al1 where s: "mp_shape i mp1 f1 al1" "u1 = (\<lambda>a. a + 4) ` al1" "mp_same mp mp1" using step.hyps(3) [OF y] by blast
  then show ?case using mp_step_shape [OF step.hyps(2) [unfolded y] s(1,2)] by (auto simp: mp_same_def)
qed

lemma blocks_apart:
  assumes "a \<in> mp_blocks mp" and "a' \<in> mp_blocks mp" and "a < a'"
  shows "a + mp_stride mp \<le> a'"
proof -
  obtain k k' where k: "a = k * mp_stride mp" "a' = k' * mp_stride mp" using assms(1,2) by (auto simp: mp_blocks_def)
  then have "Suc k \<le> k'" using assms(3) by simp
  then have "Suc k * mp_stride mp \<le> k' * mp_stride mp" by (rule mult_le_mono1)
  then show ?thesis using k by simp
qed

section \<open>Properties\<close>

text \<open>
  \<open>rt_mp_alloc\<close> on every branch: with a free block it takes the first one of the free list and
  returns the address behind its header; an exhausted pool fails at once without time to wait, with the
  timeout in the thread's error code, and otherwise suspends the caller ahead of all that wait.
\<close>

theorem mp_alloc_branches:
  assumes "kernel_quiet s" and "objs s i = Some (ClassMemPool mp)" and "mp_shape i mp f al" and "runs s c th"
    and "lists s (SuspendSender i) = []" and "int_nest s = 0" and "time_ok time"
  shows "case f of
      a # f' \<Rightarrow> \<exists>mp'. rt_mp_alloc i time s = Some (Ret (Some (a + 4)), put_obj i (ClassMemPool mp') s) \<and>
        mp_shape i mp' f' (insert a al) \<and> mp_same mp mp'
    | [] \<Rightarrow> if time = 0 then rt_mp_alloc i time s = Some (Ret None, upd_thread c (\<lambda>th. th\<lparr>th_error := E_TIMEOUT\<rparr>) s)
        else \<exists>s' th'. rt_mp_alloc i time s = Some (Blocked, s') \<and> kernel_quiet s' \<and> objs s' = objs s \<and>
          lists s' (Suspend i) = c # lists s (Suspend i) \<and>
          threads s' c = Some th' \<and> stat th' = RT_THREAD_SUSPEND \<and> th_error th' = RT_EOK"
proof (cases f)
  case Nil
  have sh: "mp_shape i mp [] al" using assms(3) Nil by simp
  show ?thesis
    using Nil mp_alloc_poll(1) [OF assms(1,4,2,5) sh] mp_alloc_block [OF assms(1,4,2,5) sh assms(6) _ assms(7)] assms(6)
    by (auto simp: rt_mp_alloc_def mp_op_def op_ok_def)
next
  case (Cons a f')
  have sh: "mp_shape i mp (a # f') al" using assms(3) Cons by simp
  show ?thesis
    using Cons mp_alloc_now [OF assms(1) _ assms(2,5) sh] runsD(1) [OF assms(4)] by (auto simp: rt_mp_alloc_def)
qed

definition ex_pool :: rt_mempool where
  "ex_pool = \<lparr>mp_static = True, mp_bytes = 26, mp_size = 24, block_size = 8, block_list = Some 12,
     block_total_count = 2, block_free_count = 1, mp_word = (\<lambda>_. MpNext None)(0 := MpOwner 15)\<rparr>"

definition ex_mem :: ipc where
  "ex_mem = put_obj 15 (ClassMemPool ex_pool) ex_ipc"

lemma ex_pool_shape: "mp_shape 15 ex_pool [12] {0}" "mp_stride ex_pool = 12"
proof -
  show st: "mp_stride ex_pool = 12" by (simp add: mp_stride_def ex_pool_def)
  have "unat (block_total_count ex_pool) = 2" by (simp add: ex_pool_def)
  then have n: "{..<unat (block_total_count ex_pool)} = {0, 1}" by auto
  have "mp_blocks ex_pool = {0, 12}" unfolding mp_blocks_def n st by auto
  then show "mp_shape 15 ex_pool [12] {0}"
    unfolding mp_shape_def st by (auto simp: ex_pool_def mp_nx_def)
qed

lemma ex_mem_ok:
  "kernel_quiet ex_mem" "objs ex_mem 15 = Some (ClassMemPool ex_pool)" "runs ex_mem 1 (ex_thread RT_THREAD_RUNNING 5)"
  "lists ex_mem (SuspendSender 15) = []" "int_nest ex_mem = 0" "cur ex_mem = Some 1" "lists ex_mem (Suspend 15) = []"
  using ex_ipc_quiet ex_ipc_runs ex_ipc_lists by (simp_all add: ex_mem_def runs_def del: ex_ipc_sel(2))

theorem mp_alloc_branches_witness:
  "\<exists>mp'. rt_mp_alloc 15 100 ex_mem = Some (Ret (Some 16), put_obj 15 (ClassMemPool mp') ex_mem) \<and> mp_shape 15 mp' [] {0, 12}"
  using mp_alloc_branches [OF ex_mem_ok(1,2) ex_pool_shape(1) ex_mem_ok(3-5), of 100]
  by (auto simp: time_ok_def insert_commute)

text \<open>
  Giving a block back puts it first on the free list and makes the thread that began to wait last
  runnable, with its error code clear; the next allocation returns that block.
\<close>

theorem mp_free_alloc_round_trip:
  assumes "kernel_quiet s" and "objs s i = Some (ClassMemPool mp)" and "mp_shape i mp f al" and "cur s \<noteq> None"
    and "lists s (SuspendSender i) = []" and "a \<in> al"
  shows "\<exists>s1 mp1 s2 mp2. rt_mp_free i (Some (a + 4)) s = Some s1 \<and> kernel_quiet s1 \<and>
    objs s1 i = Some (ClassMemPool mp1) \<and> mp_shape i mp1 (a # f) (al - {a}) \<and>
    lists s1 (Suspend i) = tl (lists s (Suspend i)) \<and>
    (\<forall>t \<in> set (take 1 (lists s (Suspend i))). \<exists>th. threads s1 t = Some th \<and> runnable (stat th) \<and> th_error th = RT_EOK) \<and>
    rt_mp_alloc i time s1 = Some (Ret (Some (a + 4)), s2) \<and> kernel_quiet s2 \<and>
    objs s2 i = Some (ClassMemPool mp2) \<and> mp_shape i mp2 f al"
proof -
  obtain s1 mp1 where s1: "rt_mp_free i (Some (a + 4)) s = Some s1" "mp_op i s s1" "objs s1 i = Some (ClassMemPool mp1)"
    "mp_shape i mp1 (a # f) (al - {a})" "lists s1 (Suspend i) = tl (lists s (Suspend i))"
    "\<forall>t \<in> set (take 1 (lists s (Suspend i))). \<exists>th. threads s1 t = Some th \<and> runnable (stat th) \<and> th_error th = RT_EOK"
    using mp_free_ok [OF assms(1,4,2,5,3,6)] by blast
  have o1: "kernel_quiet s1" "cur s1 \<noteq> None" "lists s1 (SuspendSender i) = []"
    using s1(2) by (auto simp: mp_op_def op_ok_def mp_ok_def)
  obtain mp2 where mp2: "mp_alloc_loop i time s1 = Some (Ret (Some (a + 4)), put_obj i (ClassMemPool mp2) s1)"
      "mp_shape i mp2 f (insert a (al - {a}))"
    using mp_alloc_now [OF o1(1,2) s1(3) o1(3) s1(4)] by blast
  have "insert a (al - {a}) = al" using assms(6) by auto
  then show ?thesis using s1 o1 mp2
    by (intro exI [of _ s1] exI [of _ mp1] exI [of _ "put_obj i (ClassMemPool mp2) s1"] exI [of _ mp2]) (simp add: rt_mp_alloc_def)
qed

theorem mp_free_alloc_round_trip_witness:
  "\<exists>s1 s2 mp2. rt_mp_free 15 (Some 4) ex_mem = Some s1 \<and> rt_mp_alloc 15 0 s1 = Some (Ret (Some 4), s2) \<and>
    objs s2 15 = Some (ClassMemPool mp2) \<and> mp_shape 15 mp2 [12] {0}"
  using mp_free_alloc_round_trip [OF ex_mem_ok(1,2) ex_pool_shape(1) _ ex_mem_ok(4), of 0 0] ex_mem_ok(6) by auto

text \<open>
  \<open>rt_mp_init\<close> cuts the memory, rounded down to words, into as many blocks as fit, each of the size
  rounded up to words behind a header word, all of them free in the order of their addresses. Memory
  too small for one block is not rejected: the code then writes before the memory.
\<close>

theorem mp_init_branches:
  assumes "kernel_quiet s" and "cur s \<noteq> None" and "objs s i = None" and "lists s (Suspend i) = []"
    and "lists s (SuspendSender i) = []" and "0 < bsize" and "unat size1 \<le> bytes"
    and "bytes + (unat bsize + 3) div 4 * 4 < 2 ^ 32" and "unat bsize + 8 \<le> 2 ^ 32"
  shows "let stride = (unat bsize + 3) div 4 * 4 + 4; n = (unat size1 div 4 * 4) div stride
    in if n = 0 then rt_mp_init i bytes junk size1 bsize s = None
       else \<exists>s' mp. rt_mp_init i bytes junk size1 bsize s = Some (RT_EOK, s') \<and> kernel_quiet s' \<and>
         objs s' i = Some (ClassMemPool mp) \<and> unat (block_total_count mp) = n \<and>
         mp_shape i mp (map (\<lambda>k. k * stride) [0..<n]) {}"
proof -
  let ?st = "(unat bsize + 3) div 4 * 4 + 4"
  let ?n = "(unat size1 div 4 * 4) div ?st"
  show ?thesis
  proof (cases "?n = 0")
    case True
    then have "unat size1 div 4 * 4 < ?st" by (simp add: div_eq_0_iff)
    then show ?thesis using True mp_init_too_small [OF assms(6,9) _ assms(8)] by (simp only: Let_def simp_thms if_True)
  next
    case False
    then have "?st \<le> unat size1 div 4 * 4" by (metis div_less not_le)
    from mp_init_ok [OF assms(1-6) assms(9,7) this] obtain s' mp' where s': 
      "rt_mp_init i bytes junk size1 bsize s = Some (RT_EOK, s')" "mp_op i s s'" "objs s' i = Some (ClassMemPool mp')"
      "mp_stride mp' = ?st" "unat (block_total_count mp') = (unat size1 div 4 * 4) div mp_stride mp'"
      "mp_shape i mp' (map (\<lambda>k. k * mp_stride mp') [0..<unat (block_total_count mp')]) {}" by blast
    then have "kernel_quiet s'" by (simp add: mp_op_def op_ok_def)
    then show ?thesis
      using s'(1,3,6) s'(5) [unfolded s'(4)] False unfolding Let_def s'(4) by auto
  qed
qed

theorem mp_init_branches_witness:
  "(\<exists>s' mp. rt_mp_init 20 26 (\<lambda>_. MpNext None) 26 6 ex_ipc = Some (RT_EOK, s') \<and> objs s' 20 = Some (ClassMemPool mp) \<and>
     mp_shape 20 mp [0, 12] {}) \<and> rt_mp_init 20 26 (\<lambda>_. MpNext None) 11 6 ex_ipc = None"
proof -
  have n: "objs ex_ipc 20 = None" "lists ex_ipc (Suspend 20) = []" "lists ex_ipc (SuspendSender 20) = []" "cur ex_ipc \<noteq> None"
    by (simp_all add: ex_objs_def ex_ipc_lists del: ex_ipc_sel(2))
  have u: "[0..<2] = [0, Suc 0]" by (simp add: numeral_2_eq_2)
  show ?thesis
    using mp_init_branches [OF ex_ipc_quiet n(4,1-3), of 6 26 26 "\<lambda>_. MpNext None"]
      mp_init_branches [OF ex_ipc_quiet n(4,1-3), of 6 11 26 "\<lambda>_. MpNext None"] by (auto simp: u)
qed

text \<open>
  \<open>rt_mp_create\<close>: when the total size fits 32 bits the pool has all its blocks free, or there is no
  memory and nothing changes; when the product overflows, the allocation is too small and linking the
  blocks writes behind it.
\<close>

theorem mp_create_branches:
  assumes "kernel_quiet s" and "cur s \<noteq> None" and "objs s i = None" and "lists s (Suspend i) = []"
    and "lists s (SuspendSender i) = []" and "int_nest s = 0" and "0 < count" and "0 < bsize"
    and "unat bsize + 8 \<le> 2 ^ 32" and "\<forall>k p j. mem k = Some (p, j) \<longrightarrow> p = unat k"
  shows "let stride = (unat bsize + 3) div 4 * 4 + 4; k = (RT_ALIGN bsize 4 + mp_header_size) * count
    in case mem k of
         None \<Rightarrow> rt_mp_create (Some i) mem count bsize s = Some (None, s)
       | Some _ \<Rightarrow>
           (unat count * stride < 2 ^ 32 \<longrightarrow> (\<exists>s' mp. rt_mp_create (Some i) mem count bsize s = Some (Some i, s') \<and>
              kernel_quiet s' \<and> objs s' i = Some (ClassMemPool mp) \<and> mp_shape i mp (map (\<lambda>k. k * stride) [0..<unat count]) {})) \<and>
           (2 ^ 32 \<le> unat count * stride \<longrightarrow> unat k + 2 * stride < 2 ^ 32 \<longrightarrow> rt_mp_create (Some i) mem count bsize s = None)"
proof -
  let ?k = "(RT_ALIGN bsize 4 + mp_header_size) * count"
  have dr: "drop_obj i s = s" using assms(3) by (simp add: drop_obj_def fun_upd_idem)
  have le: "\<forall>k p j. mem k = Some (p, j) \<longrightarrow> unat k \<le> p" using assms(10) by blast
  show ?thesis
  proof (cases "mem ?k")
    case None
    then show ?thesis
      using assms(6-8) dr by (simp add: rt_mp_create_def debug_not_in_interrupt_def rt_interrupt_get_nest_def Let_def)
  next
    case (Some r)
    obtain p j where r: "mem ?k = Some (p, j)" using Some by (cases r) simp
    then have p: "p = unat ?k" using assms(10) by blast
    let ?st = "(unat bsize + 3) div 4 * 4 + 4"
    have "\<exists>s' mp. rt_mp_create (Some i) mem count bsize s = Some (Some i, s') \<and>
      kernel_quiet s' \<and> objs s' i = Some (ClassMemPool mp) \<and> mp_shape i mp (map (\<lambda>k. k * ?st) [0..<unat count]) {}"
      if "unat count * ?st < 2 ^ 32"
    proof -
      from mp_create_ok [where mem = mem, OF assms(1-9) that le] r obtain s' mp' where
        "rt_mp_create (Some i) mem count bsize s = Some (Some i, s')" "mp_op i s s'"
        "objs s' i = Some (ClassMemPool mp')" "mp_stride mp' = ?st" "mp_shape i mp' (map (\<lambda>k. k * mp_stride mp') [0..<unat count]) {}"
        by auto
      then show ?thesis by (intro exI [of _ s'] exI [of _ mp']) (simp add: mp_op_def op_ok_def)
    qed
    moreover have "rt_mp_create (Some i) mem count bsize s = None"
      if "2 ^ 32 \<le> unat count * ?st" "unat ?k + 2 * ?st < 2 ^ 32"
      by (rule mp_create_overflow [where mem = mem and count = count, OF assms(8,9) that(1) r]) (use that(2) p in simp)
    ultimately show ?thesis using r unfolding Let_def by simp
  qed
qed

theorem mp_create_branches_witness:
  "rt_mp_create (Some 20) (\<lambda>k. Some (unat k, \<lambda>_. MpNext None)) 0x20000001 4 ex_ipc = None"
proof -
  have n: "objs ex_ipc 20 = None" "lists ex_ipc (Suspend 20) = []" "lists ex_ipc (SuspendSender 20) = []" "cur ex_ipc \<noteq> None" "int_nest ex_ipc = 0"
    by (simp_all add: ex_objs_def ex_ipc_lists del: ex_ipc_sel(2))
  show ?thesis
    using mp_create_branches [OF ex_ipc_quiet n(4,1-3,5), where count = "0x20000001" and bsize = "4" and mem = "\<lambda>k. Some (unat k, \<lambda>_. MpNext None)"]
    by (simp add: RT_ALIGN_def mp_header_size_def)
qed

lemma link_bytes: "mp_link_blocks mp = Some mp' \<Longrightarrow> mp_bytes mp' = mp_bytes mp"
  by (auto simp: mp_link_blocks_def mp_write_def Let_def elim!: bind_SomeE dest: link_loop_bytes)

text \<open>
  C17: From the initialisation on, whatever the order of allocations and releases, the blocks in use lie
  inside the memory, no two of them overlap, the free count accounts for all others, and as long as it
  is not 0 the next allocation gives a block that is not in use.
\<close>

theorem mp_blocks_safe:
  assumes "rt_mp_init i bytes junk size1 bsize s = Some (e, s0)" and "objs s0 i = Some (ClassMemPool mp0)"
    and "kernel_quiet s" and "cur s \<noteq> None" and "lists s (Suspend i) = []" and "lists s (SuspendSender i) = []"
    and "unat size1 \<le> bytes" and "bytes + (unat bsize + 3) div 4 * 4 < 2 ^ 32" and "unat bsize + 8 \<le> 2 ^ 32"
    and "(mp_step i)\<^sup>*\<^sup>* (mp0, {}) (mp, u)"
  shows "(\<forall>b \<in> u. b + unat bsize \<le> bytes) \<and>
    (\<forall>b \<in> u. \<forall>b' \<in> u. b \<noteq> b' \<longrightarrow> {b..<b + unat bsize} \<inter> {b'..<b' + unat bsize} = {}) \<and>
    card u + unat (block_free_count mp) = unat (block_total_count mp) \<and>
    (block_free_count mp \<noteq> 0 \<longrightarrow> (\<exists>b mp'. mp_take_block i mp = Some (b, mp') \<and> b \<notin> u))"
proof -
  have b: "0 < bsize" "objs s i = None" using assms(1) by (auto simp: rt_mp_init_def elim!: bind_SomeE)
  let ?st = "(unat bsize + 3) div 4 * 4 + 4"
  have fit: "?st \<le> unat size1 div 4 * 4"
    using mp_init_too_small [OF b(1) assms(9) _ assms(8)] assms(1) by (metis not_le option.distinct(1))
  obtain s1 mp1 where s1: "rt_mp_init i bytes junk size1 bsize s = Some (RT_EOK, s1)" "objs s1 i = Some (ClassMemPool mp1)"
      "mp_stride mp1 = ?st" "mp_shape i mp1 (map (\<lambda>k. k * mp_stride mp1) [0..<unat (block_total_count mp1)]) {}"
    using mp_init_ok [OF assms(3,4) b(2) assms(5,6) b(1) assms(9,7) fit] by blast
  have m0: "mp1 = mp0" using s1(1,2) assms(1,2) by simp
  have bytes: "mp_bytes mp0 \<le> bytes"
    using assms(1,2) link_bytes by (fastforce simp: rt_mp_init_def Let_def elim!: bind_SomeE)
  obtain f al where sh: "mp_shape i mp f al" "u = (\<lambda>a. a + 4) ` al" "mp_same mp0 mp"
    using mp_steps_shape [OF assms(10) s1(4) [unfolded m0]] by auto
  have st: "mp_stride mp = ?st" "mp_bytes mp = mp_bytes mp0" using mp_same_blocks [OF sh(3)] sh(3) s1(3) m0 by (simp_all add: mp_same_def)
  have le: "unat bsize + 4 \<le> mp_stride mp" unfolding st by linarith
  have al: "a \<in> mp_blocks mp" if "a \<in> al" for a using that sh(1) by (auto simp: mp_shape_def)
  have "b + unat bsize \<le> bytes" if "b \<in> u" for b
    using that sh(2) block_extent [OF sh(1) al] le st(2) bytes by fastforce
  moreover have "{b..<b + unat bsize} \<inter> {b'..<b' + unat bsize} = {}" if bb: "b \<in> u" "b' \<in> u" "b \<noteq> b'" for b b'
  proof -
    obtain a a' where a: "b = a + 4" "b' = a' + 4" "a \<in> al" "a' \<in> al" using bb sh(2) by blast
    then have "a + mp_stride mp \<le> a' \<or> a' + mp_stride mp \<le> a"
      using blocks_apart [OF al al, of a a'] blocks_apart [OF al al, of a' a] bb(3) by linarith
    then show ?thesis using a le by auto
  qed
  moreover have "card u + unat (block_free_count mp) = unat (block_total_count mp)"
  proof -
    have "card u = card al" unfolding sh(2) by (rule card_image) simp
    moreover have "card (mp_blocks mp) = unat (block_total_count mp)"
      unfolding mp_blocks_def by (subst card_image) (use le in \<open>auto simp: inj_on_def\<close>)
    moreover have "card (set f \<union> al) = length f + card al"
      using sh(1) shape_count(2) [OF sh(1)] by (subst card_Un_disjoint) (auto simp: mp_shape_def distinct_card)
    ultimately show ?thesis using sh(1) by (simp add: mp_shape_def)
  qed
  moreover have "\<exists>b mp'. mp_take_block i mp = Some (b, mp') \<and> b \<notin> u" if n: "block_free_count mp \<noteq> 0"
  proof -
    obtain a f' where f: "f = a # f'" using shape_count(1) [OF sh(1)] n by (cases f) auto
    then have "a \<notin> al" using sh(1) by (auto simp: mp_shape_def)
    then show ?thesis using take_shape [OF sh(1) [unfolded f]] sh(2) by auto
  qed
  ultimately show ?thesis by blast
qed

theorem mp_blocks_safe_witness:
  "\<exists>s0 mp0 mp b. rt_mp_init 20 26 (\<lambda>_. MpNext None) 26 6 ex_ipc = Some (RT_EOK, s0) \<and> objs s0 20 = Some (ClassMemPool mp0) \<and>
     (mp_step 20)\<^sup>*\<^sup>* (mp0, {}) (mp, {b}) \<and> b + 6 \<le> 26 \<and> 1 + unat (block_free_count mp) = unat (block_total_count mp)"
proof -
  have n: "objs ex_ipc 20 = None" "lists ex_ipc (Suspend 20) = []" "lists ex_ipc (SuspendSender 20) = []" "cur ex_ipc \<noteq> None"
    by (simp_all add: ex_objs_def ex_ipc_lists del: ex_ipc_sel(2))
  have u: "[0..<2] = [0, Suc 0]" by (simp add: numeral_2_eq_2)
  from mp_init_ok [OF ex_ipc_quiet n(4,1-3), of 6 26 26 "\<lambda>_. MpNext None"] obtain s0 mp0 where s0:
    "rt_mp_init 20 26 (\<lambda>_. MpNext None) 26 6 ex_ipc = Some (RT_EOK, s0)" "objs s0 20 = Some (ClassMemPool mp0)"
    "mp_shape 20 mp0 [0, 12] {}" by (auto simp: u)
  obtain mp where "mp_take_block 20 mp0 = Some (4, mp)" using take_shape [OF s0(3)] by auto
  then have st: "(mp_step 20)\<^sup>*\<^sup>* (mp0, {}) (mp, {4})" using mp_step.take1 [of 20 mp0 4 mp "{}"] by blast
  show ?thesis
    using mp_blocks_safe [OF s0(1,2) ex_ipc_quiet n(4,2,3) _ _ _ st] s0 st by fastforce
qed

end
