(* ===== verification/Completion.thy ===== *)
theory Completion
  imports Semaphore
begin

text \<open>
  Completions (components/drivers/ipc/completion.c): a flag and a list for the one thread that may wait
  for it. The flag is set by \<open>rt_completion_done\<close> and cleared by every wait that ends, so a done that no
  thread waits for is kept until the next wait.
\<close>

section \<open>Operations\<close>

definition RT_COMPLETED :: u32 where "RT_COMPLETED = 1"
definition RT_UNCOMPLETED :: u32 where "RT_UNCOMPLETED = 0"

definition get_completion :: "nat \<Rightarrow> 'z ipc_scheme \<Rightarrow> rt_completion option" where
  "get_completion i s = (case objs s i of Some (StructCompletion cp) \<Rightarrow> Some cp | _ \<Rightarrow> None)"

definition set_completion :: "nat \<Rightarrow> u32 \<Rightarrow> 'z ipc_scheme \<Rightarrow> 'z ipc_scheme" where
  "set_completion i v = put_obj i (StructCompletion \<lparr>cp_flag = v\<rparr>)"

definition rt_completion_init :: "nat \<Rightarrow> 'z ipc_scheme \<Rightarrow> 'z ipc_scheme" where
  "rt_completion_init i s = ipc_object_init i (set_completion i RT_UNCOMPLETED s)"

text \<open>The caller is put at the tail of the list, whatever its priority: the order of \<open>RT_IPC_FLAG_FIFO\<close>.\<close>

definition rt_completion_wait :: "nat \<Rightarrow> i32 \<Rightarrow> 'z ipc_scheme \<Rightarrow> (rt_err call \<times> 'z ipc_scheme) option" where
  "rt_completion_wait i timeout s = do {
     cp \<leftarrow> get_completion i s;
     debug_scheduler_available (timeout \<noteq> 0) s;
     (if cp_flag cp \<noteq> RT_COMPLETED then do {
        rt_assert (lists s (Suspend i) = []);
        (if timeout = 0 then Some (Ret E_TIMEOUT, s)
         else do {
           t \<leftarrow> rt_thread_self s;
           let s = upd_thread t (\<lambda>th. th\<lparr>th_error := RT_EOK\<rparr>) s;
           s \<leftarrow> ipc_block (Suspend i) t RT_IPC_FLAG_FIFO timeout s;
           Some (Blocked, s) }) }
      else Some (Ret RT_EOK, set_completion i RT_UNCOMPLETED s)) }"

text \<open>The rest of a wait that blocked, in the thread that waited.\<close>

definition completion_wait_resume :: "nat \<Rightarrow> 'z ipc_scheme \<Rightarrow> (rt_err \<times> 'z ipc_scheme) option" where
  "completion_wait_resume i s = do {
     t \<leftarrow> rt_thread_self s;
     result \<leftarrow> ipc_wait_result t s;
     get_completion i s;
     Some (result, set_completion i RT_UNCOMPLETED s) }"

definition rt_completion_done :: "nat \<Rightarrow> 'z ipc_scheme \<Rightarrow> 'z ipc_scheme option" where
  "rt_completion_done i s = do {
     cp \<leftarrow> get_completion i s;
     (if cp_flag cp = RT_COMPLETED then Some s
      else wake_first (Suspend i) (set_completion i RT_COMPLETED s)) }"

section \<open>Invariant\<close>

definition completion_ok :: "'z ipc_scheme \<Rightarrow> nat \<Rightarrow> rt_completion \<Rightarrow> bool" where
  "completion_ok s i cp \<longleftrightarrow> lists s (SuspendSender i) = [] \<and>
     (\<forall>t \<in> set (lists s (Suspend i)). \<forall>u \<in> set (lists s (Suspend i)). t = u) \<and>
     (cp_flag cp = RT_COMPLETED \<longrightarrow> lists s (Suspend i) = []) \<and>
     (cp_flag cp = RT_COMPLETED \<or> cp_flag cp = RT_UNCOMPLETED)"

definition completion_op :: "nat \<Rightarrow> 'z ipc_scheme \<Rightarrow> 'z ipc_scheme \<Rightarrow> bool" where
  "completion_op i s s' \<longleftrightarrow> op_ok i s s' \<and> (\<exists>cp. objs s' i = Some (StructCompletion cp) \<and> completion_ok s' i cp)"

lemma get_completion_iff: "get_completion i s = Some cp \<longleftrightarrow> objs s i = Some (StructCompletion cp)"
  by (auto simp: get_completion_def split: option.splits ipc_object.splits)

lemma set_completion_sel [simp]:
  "objs (set_completion i v s) = (objs s)(i \<mapsto> StructCompletion \<lparr>cp_flag = v\<rparr>)"
  "lists (set_completion i v s) = lists s" "threads (set_completion i v s) = threads s"
  "cur (set_completion i v s) = cur s" "kernel_quiet (set_completion i v s) = kernel_quiet s"
  "lock_nest (set_completion i v s) = lock_nest s" "int_nest (set_completion i v s) = int_nest s"
  "other_frame i s (set_completion i v s)" "get_completion i (set_completion i v s) = Some \<lparr>cp_flag = v\<rparr>"
  by (simp_all add: set_completion_def get_completion_def)

lemma completed_neq [simp]: "RT_COMPLETED \<noteq> RT_UNCOMPLETED" "RT_UNCOMPLETED \<noteq> RT_COMPLETED"
  by (simp_all add: RT_COMPLETED_def RT_UNCOMPLETED_def)

text \<open>At most one thread waits.\<close>

lemma one_waiter:
  assumes "kernel_quiet s" and "completion_ok s i cp"
  obtains "lists s (Suspend i) = []" | t where "lists s (Suspend i) = [t]" "cp_flag cp = RT_UNCOMPLETED"
proof (cases "lists s (Suspend i)")
  case (Cons t ts)
  have "distinct (lists s (Suspend i))"
    using tbl_wfD [OF sched_invD(5) [OF kernel_quietD(5) [OF assms(1)]]] by blast
  then have "ts = []" using assms(2) Cons by (cases ts) (auto simp: completion_ok_def)
  then show ?thesis using that(2) Cons assms(2) by (auto simp: completion_ok_def)
qed (use that in blast)

section \<open>The operations keep it\<close>

lemma completion_init_ok:
  assumes q: "kernel_quiet s" and c: "cur s \<noteq> None" and n: "lists s (Suspend i) = []" "lists s (SuspendSender i) = []"
  shows "completion_op i s (rt_completion_init i s)"
  using q c n ipc_object_init_idle [of "set_completion i RT_UNCOMPLETED s" i]
  by (simp add: rt_completion_init_def completion_op_def op_ok_def completion_ok_def)

lemma completion_clear_ok:
  assumes q: "kernel_quiet s" and c: "cur s \<noteq> None" and ok: "completion_ok s i cp"
  shows "completion_op i s (set_completion i RT_UNCOMPLETED s)"
  using q c ok by (simp add: completion_op_def op_ok_def completion_ok_def)

lemma completion_wait_block:
  assumes q: "kernel_quiet s" and o: "objs s i = Some (StructCompletion cp)" and ok: "completion_ok s i cp"
    and r: "runs s t th" and av: "lock_nest s = 0" "int_nest s = 0" and f: "cp_flag cp \<noteq> RT_COMPLETED"
    and e: "lists s (Suspend i) = []" and tm: "time \<noteq> 0" "time_ok time"
  shows "\<exists>s' th'. rt_completion_wait i time s = Some (Blocked, s') \<and> completion_op i s s' \<and> objs s' = objs s \<and>
    lists s' (Suspend i) = [t] \<and> threads s' t = Some th' \<and> stat th' = RT_THREAD_SUSPEND \<and> th_error th' = RT_EOK"
proof -
  obtain s' th' where s': "ipc_block (Suspend i) t RT_IPC_FLAG_FIFO time (upd_thread t (\<lambda>th. th\<lparr>th_error := RT_EOK\<rparr>) s) = Some s'"
    "op_ok i s s'" "objs s' = objs s"
    "lists s' (Suspend i) = queued RT_IPC_FLAG_FIFO s t (current_priority th) (lists s (Suspend i))"
    "\<forall>l'. is_wait l' \<longrightarrow> l' \<noteq> Suspend i \<longrightarrow> lists s' l' = lists s l'"
    "threads s' t = Some th'" "stat th' = RT_THREAD_SUSPEND" "th_error th' = RT_EOK"
    using wait_op [OF q r disjI1 [OF refl] _ tm(2), of RT_IPC_FLAG_FIFO i] by (auto simp: flag_ok_def)
  have l: "lists s' (Suspend i) = [t]" "lists s' (SuspendSender i) = []"
    using s'(4,5) e ok by (simp_all add: queued_def completion_ok_def)
  then have "completion_ok s' i cp" using ok f by (simp add: completion_ok_def)
  moreover have "rt_completion_wait i time s = Some (Blocked, s')"
    using o f e tm s'(1) runsD [OF r] av by (simp add: rt_completion_wait_def get_completion_def rt_thread_self_def Let_def)
  ultimately show ?thesis using s' l(1) o by (intro exI [of _ s'] exI [of _ th']) (simp add: completion_op_def)
qed

lemma completion_done_ok:
  assumes q: "kernel_quiet s" and c: "cur s \<noteq> None" and o: "objs s i = Some (StructCompletion cp)" and ok: "completion_ok s i cp"
  shows "\<exists>s'. rt_completion_done i s = Some s' \<and> completion_op i s s' \<and> lists s' (Suspend i) = [] \<and>
    objs s' = (objs s)(i \<mapsto> StructCompletion \<lparr>cp_flag = RT_COMPLETED\<rparr>) \<and> made_runnable (lists s (Suspend i)) s s'"
proof (cases "cp_flag cp = RT_COMPLETED")
  case True
  then have e: "lists s (Suspend i) = []" "cp = \<lparr>cp_flag = RT_COMPLETED\<rparr>" using ok by (simp_all add: completion_ok_def)
  have "op_ok i s s" using q c by (simp add: op_ok_def wait_other_frame)
  then have "completion_op i s s" using o ok by (auto simp: completion_op_def)
  moreover have "objs s = (objs s)(i \<mapsto> StructCompletion \<lparr>cp_flag = RT_COMPLETED\<rparr>)"
    using o e(2) by (simp add: fun_upd_idem)
  moreover have "rt_completion_done i s = Some s" using True o by (simp add: rt_completion_done_def get_completion_def)
  ultimately show ?thesis using e(1) by (intro exI [of _ s]) (simp add: made_runnable_def)
next
  case False
  let ?s = "set_completion i RT_COMPLETED s"
  have "kernel_quiet ?s" "cur ?s \<noteq> None" using q c by simp_all
  then obtain s' where s': "wake_first (Suspend i) ?s = Some s'" "op_ok i ?s s'" "objs s' = objs ?s"
      "lists s' (Suspend i) = tl (lists ?s (Suspend i))"
      "\<forall>l'. is_wait l' \<longrightarrow> l' \<noteq> Suspend i \<longrightarrow> lists s' l' = lists ?s l'"
      "made_runnable (take 1 (lists ?s (Suspend i))) ?s s'"
    using wake_first_ok [of ?s "Suspend i" i] by auto
  have l: "take 1 (lists s (Suspend i)) = lists s (Suspend i)" "tl (lists s (Suspend i)) = []"
    by (rule one_waiter [OF q ok]; simp)+
  have "op_ok i s s'" using s'(2) other_frame_trans [of i s ?s s'] by (simp add: op_ok_def)
  moreover have "completion_ok s' i \<lparr>cp_flag = RT_COMPLETED\<rparr>" using s'(4,5) l(2) ok by (simp add: completion_ok_def)
  moreover have "made_runnable (lists s (Suspend i)) s s'" using s'(6) l(1) by (simp add: made_runnable_def)
  moreover have "rt_completion_done i s = Some s'"
    using False o s'(1) by (simp add: rt_completion_done_def get_completion_def)
  ultimately show ?thesis using s'(3,4) l(2) by (intro exI [of _ s']) (auto simp: completion_op_def)
qed

section \<open>Properties\<close>

lemma completion_wait_now:
  assumes "objs s i = Some (StructCompletion cp)" and "cp_flag cp = RT_COMPLETED" and "debug_scheduler_available (time \<noteq> 0) s = Some ()"
  shows "rt_completion_wait i time s = Some (Ret RT_EOK, set_completion i RT_UNCOMPLETED s)"
  using assms by (simp add: rt_completion_wait_def get_completion_def)

lemma poll_available [simp]: "debug_scheduler_available False s = Some ()"
  by (simp add: debug_scheduler_available_def)

text \<open>
  \<open>rt_completion_wait\<close> by the running thread, on every branch: a done that came before is consumed;
  a second waiter stops at the assertion; without a done and without time the call times out and changes
  nothing; otherwise the caller is the one waiter, suspended with no error recorded.
\<close>

theorem completion_wait_branches:
  assumes "kernel_quiet s" and "objs s i = Some (StructCompletion cp)" and "completion_ok s i cp" and "runs s c th"
    and "lock_nest s = 0" and "int_nest s = 0" and "time_ok time"
  shows "if cp_flag cp = RT_COMPLETED
    then rt_completion_wait i time s = Some (Ret RT_EOK, set_completion i RT_UNCOMPLETED s)
    else if lists s (Suspend i) \<noteq> [] then rt_completion_wait i time s = None
    else if time = 0 then rt_completion_wait i time s = Some (Ret E_TIMEOUT, s)
    else \<exists>s' th'. rt_completion_wait i time s = Some (Blocked, s') \<and> kernel_quiet s' \<and> objs s' = objs s \<and>
      lists s' (Suspend i) = [c] \<and> threads s' c = Some th' \<and> stat th' = RT_THREAD_SUSPEND \<and> th_error th' = RT_EOK"
proof -
  note R = runsD [OF assms(4)]
  consider "cp_flag cp = RT_COMPLETED" | "cp_flag cp \<noteq> RT_COMPLETED" "lists s (Suspend i) \<noteq> []"
    | "cp_flag cp \<noteq> RT_COMPLETED" "lists s (Suspend i) = []" "time = 0"
    | "cp_flag cp \<noteq> RT_COMPLETED" "lists s (Suspend i) = []" "time \<noteq> 0" by blast
  then show ?thesis
  proof cases
    case 1
    then show ?thesis using completion_wait_now [OF assms(2)] R assms(5,6) by simp
  next
    case 4
    from completion_wait_block [OF assms(1-6) 4(1,2,3) assms(7)] 4 show ?thesis by (auto simp: completion_op_def op_ok_def)
  qed (use assms(2,5,6) R in \<open>simp_all add: rt_completion_wait_def get_completion_def\<close>)
qed

text \<open>The state of the examples with a completion, set or not.\<close>

definition ex_completion :: "u32 \<Rightarrow> ipc" where
  "ex_completion v = set_completion 20 v ex_ipc"

lemma ex_completion_ok:
  "kernel_quiet (ex_completion v)" "objs (ex_completion v) 20 = Some (StructCompletion \<lparr>cp_flag = v\<rparr>)"
  "v = RT_COMPLETED \<or> v = RT_UNCOMPLETED \<Longrightarrow> completion_ok (ex_completion v) 20 \<lparr>cp_flag = v\<rparr>"
  "runs (ex_completion v) 1 (ex_thread RT_THREAD_RUNNING 5)" "lock_nest (ex_completion v) = 0"
  "int_nest (ex_completion v) = 0" "lists (ex_completion v) (Suspend 20) = []"
  using ex_ipc_quiet ex_ipc_runs
  by (simp_all add: ex_completion_def completion_ok_def runs_def ex_ipc_lists del: ex_ipc_sel(2))

theorem completion_wait_branches_witness:
  "rt_completion_wait 20 5 (ex_completion RT_COMPLETED) = Some (Ret RT_EOK, ex_completion RT_UNCOMPLETED) \<and>
   (\<exists>s'. rt_completion_wait 20 5 (ex_completion RT_UNCOMPLETED) = Some (Blocked, s') \<and> lists s' (Suspend 20) = [1])"
proof -
  have t: "time_ok 5" by (simp add: time_ok_def)
  note ex = ex_completion_ok
  show ?thesis
    using completion_wait_branches [OF ex(1,2) ex(3) ex(4-6) t, of RT_COMPLETED]
      completion_wait_branches [OF ex(1,2) ex(3) ex(4-6) t, of RT_UNCOMPLETED] ex(7)
    by (auto simp: ex_completion_def set_completion_def put_obj_def)
qed

text \<open>
  C33: A done reaches the thread that waits: it makes exactly the waiter runnable, and the wait, when its
  thread runs again, returns success and clears the flag, so that a wait after it does not see the done again.
\<close>

theorem completion_done_ends_wait:
  fixes s :: "'z ipc_scheme"
  assumes "kernel_quiet s" and "objs s i = Some (StructCompletion cp)" and "completion_ok s i cp" and "runs s c th"
    and "lock_nest s = 0" and "int_nest s = 0" and "time_ok time" and "time \<noteq> 0" and "cp_flag cp \<noteq> RT_COMPLETED"
    and "lists s (Suspend i) = []"
  shows "\<exists>s1 s2 th2. rt_completion_wait i time s = Some (Blocked, s1) \<and> rt_completion_done i s1 = Some s2 \<and>
    kernel_quiet s2 \<and> lists s2 (Suspend i) = [] \<and> threads s2 c = Some th2 \<and> runnable (stat th2) \<and>
    (\<forall>s3 :: 'z ipc_scheme. cur s3 = Some c \<and> threads s3 c = Some th2 \<and> objs s3 i = objs s2 i \<and> lists s3 (Suspend i) = [] \<longrightarrow>
      (let s4 = set_completion i RT_UNCOMPLETED s3
       in completion_wait_resume i s3 = Some (RT_EOK, s4) \<and> rt_completion_wait i 0 s4 = Some (Ret E_TIMEOUT, s4)))"
proof -
  obtain s1 th1 where s1: "rt_completion_wait i time s = Some (Blocked, s1)" "completion_op i s s1" "objs s1 = objs s"
      "lists s1 (Suspend i) = [c]" "threads s1 c = Some th1" "th_error th1 = RT_EOK"
    using completion_wait_block [OF assms(1-6,9,10,8,7)] by blast
  have o1: "kernel_quiet s1" "cur s1 \<noteq> None" "objs s1 i = Some (StructCompletion cp)" "completion_ok s1 i cp"
    using s1(2,3) assms(2) by (auto simp: completion_op_def op_ok_def)
  obtain s2 where s2: "rt_completion_done i s1 = Some s2" "completion_op i s1 s2" "lists s2 (Suspend i) = []"
      "objs s2 = (objs s1)(i \<mapsto> StructCompletion \<lparr>cp_flag = RT_COMPLETED\<rparr>)" "made_runnable (lists s1 (Suspend i)) s1 s2"
    using completion_done_ok [OF o1] by blast
  obtain th2 where th2: "threads s2 c = Some th2" "runnable (stat th2)" "th_error th2 = RT_EOK"
    using s2(5) s1(4-6) by (auto simp: made_runnable_def)
  have "\<forall>s3 :: 'z ipc_scheme. cur s3 = Some c \<and> threads s3 c = Some th2 \<and> objs s3 i = objs s2 i \<and> lists s3 (Suspend i) = [] \<longrightarrow>
      (let s4 = set_completion i RT_UNCOMPLETED s3
       in completion_wait_resume i s3 = Some (RT_EOK, s4) \<and> rt_completion_wait i 0 s4 = Some (Ret E_TIMEOUT, s4))"
    using th2(3) s2(4)
    by (simp add: completion_wait_resume_def rt_thread_self_def ipc_wait_result_def get_completion_def rt_completion_wait_def Let_def)
  moreover have "kernel_quiet s2" using s2(2) by (simp add: completion_op_def op_ok_def)
  ultimately show ?thesis using s1(1) s2(1,3) th2(1,2) by blast
qed

theorem completion_done_ends_wait_witness:
  "\<exists>s1 s2 th2. rt_completion_wait 20 5 (ex_completion RT_UNCOMPLETED) = Some (Blocked, s1) \<and>
     rt_completion_done 20 s1 = Some s2 \<and> threads s2 1 = Some th2 \<and> runnable (stat th2)"
proof -
  have t: "time_ok 5" by (simp add: time_ok_def)
  note ex = ex_completion_ok
  show ?thesis
    using completion_done_ends_wait [OF ex(1,2) ex(3) ex(4-6) t _ _ ex(7), of RT_UNCOMPLETED] by auto
qed

text \<open>
  A done that comes while a wait ends with a timeout is lost: the done finds no waiter and sets the
  flag, the wait returns the timeout error and clears the flag.
\<close>

lemma completion_done_lost:
  assumes "objs s i = Some (StructCompletion \<lparr>cp_flag = RT_UNCOMPLETED\<rparr>)" and "lists s (Suspend i) = []"
    and "cur s = Some t" and "threads s t = Some th" and "th_error th = E_TIMEOUT"
  shows "\<exists>s1. rt_completion_done i s = Some s1 \<and> get_completion i s1 = Some \<lparr>cp_flag = RT_COMPLETED\<rparr> \<and>
    completion_wait_resume i s1 = Some (E_TIMEOUT, set_completion i RT_UNCOMPLETED s1) \<and>
    rt_completion_wait i 0 (set_completion i RT_UNCOMPLETED s1) = Some (Ret E_TIMEOUT, set_completion i RT_UNCOMPLETED s1)"
  using assms
  by (simp add: rt_completion_done_def get_completion_def wake_first_def completion_wait_resume_def rt_thread_self_def
      ipc_wait_result_def rt_completion_wait_def)

text \<open>
  One done ends two waits, when another thread comes first: its wait takes the flag, and the thread that
  was resumed returns success too.
\<close>

lemma completion_done_twice:
  assumes "objs s i = Some (StructCompletion \<lparr>cp_flag = RT_COMPLETED\<rparr>)" and "threads s t = Some th" and "th_error th = RT_EOK"
  shows "\<exists>s1. rt_completion_wait i 0 s = Some (Ret RT_EOK, s1) \<and>
    completion_wait_resume i (s1\<lparr>cur := Some t\<rparr>) = Some (RT_EOK, set_completion i RT_UNCOMPLETED (s1\<lparr>cur := Some t\<rparr>))"
  using assms
  by (simp add: rt_completion_wait_def get_completion_def completion_wait_resume_def rt_thread_self_def ipc_wait_result_def
      set_completion_def put_obj_def)

end
