(* ===== verification/DataQueue.thy ===== *)
theory DataQueue
  imports Mailbox
begin

text \<open>
  Data queues (components/drivers/ipc/dataqueue.c): a ring of pairs of a pointer and a size, with the threads
  that wait to pop on \<open>Suspend\<close> and those that wait to push on \<open>SuspendSender\<close>, both in order of arrival. A
  pop wakes a pusher only when no more than \<open>lwm\<close> items are left. The callback \<open>evt_notify\<close> is the last thing a
  call does: the operations return the event, and \<open>dq_notify\<close> calls it.
\<close>

section \<open>Operations\<close>

definition DATAQUEUE_MAGIC :: u32 where "DATAQUEUE_MAGIC = 0xbead0e0e"
definition RT_DATAQUEUE_EVENT_POP :: u32 where "RT_DATAQUEUE_EVENT_POP = 1"
definition RT_DATAQUEUE_EVENT_PUSH :: u32 where "RT_DATAQUEUE_EVENT_PUSH = 2"
definition RT_DATAQUEUE_EVENT_LWM :: u32 where "RT_DATAQUEUE_EVENT_LWM = 3"

definition get_dq :: "nat \<Rightarrow> 'z ipc_scheme \<Rightarrow> rt_data_queue option" where
  "get_dq i s = (case objs s i of Some (StructDataQueue dq) \<Rightarrow> Some dq | _ \<Rightarrow> None)"

definition checked_dq :: "nat \<Rightarrow> 'z ipc_scheme \<Rightarrow> rt_data_queue option" where
  "checked_dq i s = do { dq \<leftarrow> get_dq i s; rt_assert (dq_magic dq = DATAQUEUE_MAGIC); Some dq }"

text \<open>\<open>mem k\<close> is what \<open>rt_malloc\<close> gives for \<open>k\<close> items.\<close>

definition rt_data_queue_init :: "nat \<Rightarrow> u16 \<Rightarrow> u16 \<Rightarrow> nat option \<Rightarrow> (nat \<Rightarrow> rt_data_item list option) \<Rightarrow> 'z ipc_scheme \<Rightarrow>
    (rt_err \<times> 'z ipc_scheme) option" where
  "rt_data_queue_init i size1 lwm notify mem s = do {
     rt_assert (0 < size1);
     let s = ipc_object_init i (sender_list_init i s);
     let items = mem (unat size1);
     let s = put_obj i (StructDataQueue \<lparr>dq_magic = DATAQUEUE_MAGIC, dq_size = size1, dq_lwm = lwm, get_index = 0,
       is_empty = True, put_index = 0, is_full = False, dq_items = items, evt_notify = notify\<rparr>) s;
     Some (if items = None then E_NOMEM else RT_EOK, s) }"

text \<open>One step around the ring, in the width of the bit field.\<close>

definition dq_step :: "u16 \<Rightarrow> 15 word \<Rightarrow> 15 word" where
  "dq_step size1 x = (if unat (x + 1) = unat size1 then 0 else x + 1)"

text \<open>\<open>None\<close> is an access through a null pointer or outside the array.\<close>

definition data_queue_put :: "rt_data_item \<Rightarrow> rt_data_queue \<Rightarrow> rt_data_queue option" where
  "data_queue_put it dq = do {
     items \<leftarrow> dq_items dq;
     rt_assert (unat (put_index dq) < length items);
     let dq = dq\<lparr>dq_items := Some (items[unat (put_index dq) := it]), put_index := dq_step (dq_size dq) (put_index dq), is_empty := False\<rparr>;
     Some (if put_index dq = get_index dq then dq\<lparr>is_full := True\<rparr> else dq) }"

definition data_queue_get :: "rt_data_queue \<Rightarrow> (rt_data_item \<times> rt_data_queue) option" where
  "data_queue_get dq = do {
     items \<leftarrow> dq_items dq;
     rt_assert (unat (get_index dq) < length items);
     let it = items ! unat (get_index dq);
     let dq = dq\<lparr>get_index := dq_step (dq_size dq) (get_index dq), is_full := False\<rparr>;
     Some (it, if put_index dq = get_index dq then dq\<lparr>is_empty := True\<rparr> else dq) }"

definition dq_len :: "rt_data_queue \<Rightarrow> u16" where
  "dq_len dq =
    (if is_empty dq then 0
     else if get_index dq < put_index dq then ucast (put_index dq) - ucast (get_index dq)
     else dq_size dq + ucast (put_index dq) - ucast (get_index dq))"

definition rt_data_queue_len :: "nat \<Rightarrow> 'z ipc_scheme \<Rightarrow> u16 option" where
  "rt_data_queue_len i s = map_option dq_len (checked_dq i s)"

text \<open>
  \<open>rt_data_queue_push\<close> from its loop on, up to the callback: the error code and the event. After a wait the
  loop begins again with the whole timeout.
\<close>

definition dq_push_loop :: "nat \<Rightarrow> rt_data_item \<Rightarrow> i32 \<Rightarrow> 'z ipc_scheme \<Rightarrow> ((rt_err \<times> u32 option) call \<times> 'z ipc_scheme) option" where
  "dq_push_loop i it timeout s = do {
     dq \<leftarrow> get_dq i s;
     (if is_full dq then
        (if timeout = 0 then Some (Ret (E_TIMEOUT, None), s)
         else do {
           t \<leftarrow> rt_thread_self s;
           let s = upd_thread t (\<lambda>th. th\<lparr>th_error := RT_EOK\<rparr>) s;
           s \<leftarrow> ipc_block (SuspendSender i) t RT_IPC_FLAG_FIFO timeout s;
           Some (Blocked, s) })
      else do {
        dq \<leftarrow> data_queue_put it dq;
        let woken = (lists s (Suspend i) \<noteq> []);
        s \<leftarrow> wake_first (Suspend i) (put_obj i (StructDataQueue dq) s);
        Some (Ret (RT_EOK, if woken then None else Some RT_DATAQUEUE_EVENT_PUSH), s) }) }"

definition data_queue_push :: "nat \<Rightarrow> rt_data_item \<Rightarrow> i32 \<Rightarrow> 'z ipc_scheme \<Rightarrow> ((rt_err \<times> u32 option) call \<times> 'z ipc_scheme) option" where
  "data_queue_push i it timeout s = do {
     checked_dq i s;
     debug_scheduler_available (timeout \<noteq> 0) s;
     dq_push_loop i it timeout s }"

text \<open>The rest of a push that waited, in the thread that waited.\<close>

definition dq_push_resume :: "nat \<Rightarrow> rt_data_item \<Rightarrow> i32 \<Rightarrow> 'z ipc_scheme \<Rightarrow> ((rt_err \<times> u32 option) call \<times> 'z ipc_scheme) option" where
  "dq_push_resume i it timeout s = do {
     t \<leftarrow> rt_thread_self s;
     e \<leftarrow> ipc_wait_result t s;
     (if e \<noteq> RT_EOK then Some (Ret (e, None), s) else dq_push_loop i it timeout s) }"

definition dq_pop_loop :: "nat \<Rightarrow> i32 \<Rightarrow> 'z ipc_scheme \<Rightarrow>
    ((rt_err \<times> rt_data_item option \<times> u32 option) call \<times> 'z ipc_scheme) option" where
  "dq_pop_loop i timeout s = do {
     dq \<leftarrow> get_dq i s;
     (if is_empty dq then
        (if timeout = 0 then Some (Ret (E_TIMEOUT, None, None), s)
         else do {
           t \<leftarrow> rt_thread_self s;
           let s = upd_thread t (\<lambda>th. th\<lparr>th_error := RT_EOK\<rparr>) s;
           s \<leftarrow> ipc_block (Suspend i) t RT_IPC_FLAG_FIFO timeout s;
           Some (Blocked, s) })
      else do {
        (it, dq) \<leftarrow> data_queue_get dq;
        let s = put_obj i (StructDataQueue dq) s;
        len \<leftarrow> rt_data_queue_len i s;
        (if len \<le> dq_lwm dq then do {
           s \<leftarrow> wake_first (SuspendSender i) s;
           Some (Ret (RT_EOK, Some it, Some RT_DATAQUEUE_EVENT_LWM), s) }
         else Some (Ret (RT_EOK, Some it, Some RT_DATAQUEUE_EVENT_POP), s)) }) }"

definition data_queue_pop :: "nat \<Rightarrow> i32 \<Rightarrow> 'z ipc_scheme \<Rightarrow>
    ((rt_err \<times> rt_data_item option \<times> u32 option) call \<times> 'z ipc_scheme) option" where
  "data_queue_pop i timeout s = do {
     checked_dq i s;
     debug_scheduler_available (timeout \<noteq> 0) s;
     dq_pop_loop i timeout s }"

definition dq_pop_resume :: "nat \<Rightarrow> i32 \<Rightarrow> 'z ipc_scheme \<Rightarrow>
    ((rt_err \<times> rt_data_item option \<times> u32 option) call \<times> 'z ipc_scheme) option" where
  "dq_pop_resume i timeout s = do {
     t \<leftarrow> rt_thread_self s;
     e \<leftarrow> ipc_wait_result t s;
     (if e \<noteq> RT_EOK then Some (Ret (e, None, None), s) else dq_pop_loop i timeout s) }"

text \<open>The callback \<open>user\<close> of the queue's owner, and the calls with it.\<close>

definition dq_notify :: "(nat \<Rightarrow> nat \<Rightarrow> u32 \<Rightarrow> 'z ipc_scheme \<Rightarrow> 'z ipc_scheme option) \<Rightarrow> nat \<Rightarrow> u32 option \<Rightarrow>
    'z ipc_scheme \<Rightarrow> 'z ipc_scheme option" where
  "dq_notify user i ev s =
    (case ev of
       None \<Rightarrow> Some s
     | Some e \<Rightarrow> do { dq \<leftarrow> get_dq i s; (case evt_notify dq of None \<Rightarrow> Some s | Some f \<Rightarrow> user f i e s) })"

definition rt_data_queue_push :: "(nat \<Rightarrow> nat \<Rightarrow> u32 \<Rightarrow> 'z ipc_scheme \<Rightarrow> 'z ipc_scheme option) \<Rightarrow> nat \<Rightarrow> rt_data_item \<Rightarrow> i32 \<Rightarrow>
    'z ipc_scheme \<Rightarrow> (rt_err call \<times> 'z ipc_scheme) option" where
  "rt_data_queue_push user i it timeout s = do {
     (r, s) \<leftarrow> data_queue_push i it timeout s;
     (case r of
        Blocked \<Rightarrow> Some (Blocked, s)
      | Ret (e, ev) \<Rightarrow> do { s \<leftarrow> dq_notify user i ev s; Some (Ret e, s) }) }"

definition rt_data_queue_pop :: "(nat \<Rightarrow> nat \<Rightarrow> u32 \<Rightarrow> 'z ipc_scheme \<Rightarrow> 'z ipc_scheme option) \<Rightarrow> nat \<Rightarrow> i32 \<Rightarrow>
    'z ipc_scheme \<Rightarrow> ((rt_err \<times> rt_data_item option) call \<times> 'z ipc_scheme) option" where
  "rt_data_queue_pop user i timeout s = do {
     (r, s) \<leftarrow> data_queue_pop i timeout s;
     (case r of
        Blocked \<Rightarrow> Some (Blocked, s)
      | Ret (e, it, ev) \<Rightarrow> do { s \<leftarrow> dq_notify user i ev s; Some (Ret (e, it), s) }) }"

definition rt_data_queue_peek :: "nat \<Rightarrow> 'z ipc_scheme \<Rightarrow> (rt_err \<times> rt_data_item option) option" where
  "rt_data_queue_peek i s = do {
     dq \<leftarrow> checked_dq i s;
     (if is_empty dq then Some (E_EMPTY, None)
      else do {
        items \<leftarrow> dq_items dq;
        rt_assert (unat (get_index dq) < length items);
        Some (RT_EOK, Some (items ! unat (get_index dq))) }) }"

text \<open>The reset is here a call that nothing interrupts; the theory Release has its sections.\<close>

definition rt_data_queue_reset :: "nat \<Rightarrow> 'z ipc_scheme \<Rightarrow> 'z ipc_scheme option" where
  "rt_data_queue_reset i s = do {
     dq \<leftarrow> checked_dq i s;
     let s = put_obj i (StructDataQueue (dq\<lparr>get_index := 0, put_index := 0, is_empty := True, is_full := False\<rparr>)) s;
     let s = rt_enter_critical s;
     s \<leftarrow> ipc_list_resume_all (Suspend i) s;
     s \<leftarrow> ipc_list_resume_all (SuspendSender i) s;
     s \<leftarrow> rt_exit_critical s;
     rt_schedule s }"

text \<open>The array is freed: nothing is at \<open>dq_items\<close> any more.\<close>

definition rt_data_queue_deinit :: "nat \<Rightarrow> 'z ipc_scheme \<Rightarrow> (rt_err \<times> 'z ipc_scheme) option" where
  "rt_data_queue_deinit i s = do {
     s \<leftarrow> rt_data_queue_reset i s;
     dq \<leftarrow> get_dq i s;
     Some (RT_EOK, put_obj i (StructDataQueue (dq\<lparr>dq_magic := 0, dq_items := None\<rparr>)) s) }"

section \<open>The ring is a bounded FIFO\<close>

definition dq_count :: "rt_data_queue \<Rightarrow> nat" where
  "dq_count dq =
    (if is_empty dq then 0
     else if get_index dq < put_index dq then unat (put_index dq) - unat (get_index dq)
     else unat (dq_size dq) + unat (put_index dq) - unat (get_index dq))"

definition dq_inv :: "rt_data_queue \<Rightarrow> bool" where
  "dq_inv dq \<longleftrightarrow> unat (dq_size dq) \<le> 0x8000 \<and> unat (get_index dq) < unat (dq_size dq) \<and> unat (put_index dq) < unat (dq_size dq) \<and>
     map_option length (dq_items dq) = Some (unat (dq_size dq)) \<and>
     \<not> (is_empty dq \<and> is_full dq) \<and> (put_index dq = get_index dq \<longleftrightarrow> is_empty dq \<or> is_full dq)"

definition dq_abs :: "rt_data_queue \<Rightarrow> rt_data_item list" where
  "dq_abs dq = circ (case dq_items dq of Some xs \<Rightarrow> xs | None \<Rightarrow> []) (unat (dq_size dq)) (unat (get_index dq)) (dq_count dq)"

definition dq_cap :: "rt_data_queue \<Rightarrow> nat" where
  "dq_cap dq = unat (dq_size dq)"

lemma dq_step_unat:
  assumes "unat x < unat n" and "unat n \<le> 0x8000"
  shows "unat (dq_step n x) = Suc (unat x) mod unat n"
proof (cases "Suc (unat x) = 0x8000")
  case True
  then have "unat (x + 1) = 0" using unat_word_ariths(1) [of x 1] by simp
  moreover have "unat n = 0x8000" using True assms by simp
  ultimately show ?thesis using True by (simp add: dq_step_def unsigned_eq_0_iff)
next
  case False
  then have "unat (x + 1) = Suc (unat x)" using unat_word_ariths(1) [of x 1] assms by simp
  then show ?thesis using assms by (auto simp: dq_step_def)
qed

lemma dq_invD:
  assumes "dq_inv dq"
  shows "unat (dq_size dq) \<le> 0x8000" "unat (get_index dq) < unat (dq_size dq)" "unat (put_index dq) < unat (dq_size dq)"
    "\<exists>xs. dq_items dq = Some xs \<and> length xs = unat (dq_size dq)"
    "is_full dq \<Longrightarrow> \<not> is_empty dq" "is_full dq \<Longrightarrow> put_index dq = get_index dq" "is_empty dq \<Longrightarrow> put_index dq = get_index dq"
    "\<not> is_full dq \<Longrightarrow> \<not> is_empty dq \<Longrightarrow> put_index dq \<noteq> get_index dq"
  using assms by (auto simp: dq_inv_def)

lemma dq_count_facts:
  assumes inv: "dq_inv dq"
  shows "dq_count dq \<le> unat (dq_size dq)" "dq_count dq = unat (dq_size dq) \<longleftrightarrow> is_full dq" "dq_count dq = 0 \<longleftrightarrow> is_empty dq"
    "(unat (get_index dq) + dq_count dq) mod unat (dq_size dq) = unat (put_index dq)"
proof -
  note D = dq_invD [OF inv]
  consider "is_empty dq" "\<not> is_full dq" "put_index dq = get_index dq" | "\<not> is_empty dq" "get_index dq < put_index dq" "\<not> is_full dq"
    | "\<not> is_empty dq" "\<not> get_index dq < put_index dq" using D(5-8) by (metis less_irrefl)
  then have "dq_count dq \<le> unat (dq_size dq) \<and> (dq_count dq = unat (dq_size dq) \<longleftrightarrow> is_full dq) \<and> (dq_count dq = 0 \<longleftrightarrow> is_empty dq) \<and>
    (unat (get_index dq) + dq_count dq) mod unat (dq_size dq) = unat (put_index dq)"
  proof cases
    case 3
    have "put_index dq = get_index dq \<longleftrightarrow> is_full dq" using D(6,8) 3(1) by blast
    moreover have "unat (put_index dq) \<le> unat (get_index dq)" using 3(2) by (simp add: not_less word_le_nat_alt)
    ultimately show ?thesis using D(2,3) 3 by (auto simp: dq_count_def word_unat_eq_iff)
  qed (use D(2,3) in \<open>auto simp: dq_count_def word_less_nat_alt\<close>)
  then show "dq_count dq \<le> unat (dq_size dq)" "dq_count dq = unat (dq_size dq) \<longleftrightarrow> is_full dq" "dq_count dq = 0 \<longleftrightarrow> is_empty dq"
    "(unat (get_index dq) + dq_count dq) mod unat (dq_size dq) = unat (put_index dq)" by auto
qed

lemma length_dq_abs [simp]: "length (dq_abs dq) = dq_count dq"
  by (simp add: dq_abs_def)

text \<open>The count is determined by the positions and the flags.\<close>

lemma dq_countI:
  assumes inv: "dq_inv dq" and m: "m \<le> unat (dq_size dq)" "(unat (get_index dq) + m) mod unat (dq_size dq) = unat (put_index dq)"
    and e: "is_empty dq \<longleftrightarrow> m = 0"
  shows "dq_count dq = m"
proof -
  let ?n = "unat (dq_size dq)" and ?g = "unat (get_index dq)"
  note c = dq_count_facts [OF inv]
  consider "m = 0" | "m = ?n" "m \<noteq> 0" | "m < ?n" "m \<noteq> 0" using m(1) by linarith
  then show ?thesis
  proof cases
    case 1
    then show ?thesis using e c(3) by simp
  next
    case 2
    then have "put_index dq = get_index dq" using m(2) dq_invD(2) [OF inv] by (simp add: word_unat_eq_iff)
    then have "is_full dq" using inv e 2(2) by (simp add: dq_inv_def)
    then show ?thesis using c(2) 2 by simp
  next
    case 3
    have "\<not> is_full dq"
    proof
      assume "is_full dq"
      then have "(?g + m) mod ?n = (?g + 0) mod ?n" using m(2) dq_invD(2,6) [OF inv] by simp
      then show False using mod_add_inj [of m ?n 0 ?g] 3 by simp
    qed
    then have "dq_count dq < ?n" using c(1,2) by auto
    then show ?thesis using mod_add_inj [of "dq_count dq" ?n m ?g] 3 c(4) m(2) by simp
  qed
qed

lemma flag_update:
  "\<not> is_full dq \<Longrightarrow> (if c then dq\<lparr>is_full := True\<rparr> else dq) = dq\<lparr>is_full := c\<rparr>"
  "\<not> is_empty dq \<Longrightarrow> (if c then dq\<lparr>is_empty := True\<rparr> else dq) = dq\<lparr>is_empty := c\<rparr>"
  by (cases dq; simp)+

lemma data_queue_put_ok:
  assumes inv: "dq_inv dq" and n: "\<not> is_full dq"
  shows "\<exists>dq'. data_queue_put it dq = Some dq' \<and> dq_inv dq' \<and> dq_abs dq' = dq_abs dq @ [it] \<and> dq_size dq' = dq_size dq \<and>
    dq_magic dq' = dq_magic dq \<and> dq_lwm dq' = dq_lwm dq \<and> evt_notify dq' = evt_notify dq"
proof -
  let ?n = "unat (dq_size dq)" and ?g = "unat (get_index dq)" and ?m = "dq_count dq"
  note D = dq_invD [OF inv] and c = dq_count_facts [OF inv]
  obtain xs where xs: "dq_items dq = Some xs" "length xs = ?n" using D(4) by blast
  define p' where "p' = dq_step (dq_size dq) (put_index dq)"
  have p': "unat p' = (?g + Suc ?m) mod ?n"
    using dq_step_unat [OF D(3,1)] mod_Suc_eq [of "?g + ?m" ?n] by (simp only: p'_def c(4) add_Suc_right)
  have m: "?m < ?n" using c(1,2) n by auto
  let ?dq = "dq\<lparr>dq_items := Some (xs[unat (put_index dq) := it]), put_index := p', is_empty := False, is_full := (p' = get_index dq)\<rparr>"
  have e: "data_queue_put it dq = Some ?dq"
    using xs D(3) n by (simp add: data_queue_put_def Let_def p'_def [symmetric] flag_update)
  have i: "dq_inv ?dq" using inv xs D(2) p' by (auto simp: dq_inv_def)
  have "dq_count ?dq = Suc ?m" by (rule dq_countI [OF i]) (use m p' in simp_all)
  then have "dq_abs ?dq = dq_abs dq @ [it]"
    using circ_put [OF m, of xs ?g it] xs c(4) by (simp add: dq_abs_def)
  then show ?thesis using e i by (intro exI [of _ ?dq]) simp
qed

lemma data_queue_get_ok:
  assumes inv: "dq_inv dq" and n: "\<not> is_empty dq"
  shows "\<exists>it dq'. data_queue_get dq = Some (it, dq') \<and> dq_inv dq' \<and> dq_abs dq = it # dq_abs dq' \<and> dq_size dq' = dq_size dq \<and>
    dq_magic dq' = dq_magic dq \<and> dq_lwm dq' = dq_lwm dq \<and> evt_notify dq' = evt_notify dq"
proof -
  let ?n = "unat (dq_size dq)" and ?g = "unat (get_index dq)" and ?m = "dq_count dq"
  note D = dq_invD [OF inv] and c = dq_count_facts [OF inv]
  obtain xs where xs: "dq_items dq = Some xs" "length xs = ?n" using D(4) by blast
  define g' where "g' = dq_step (dq_size dq) (get_index dq)"
  have g': "unat g' = Suc ?g mod ?n" using dq_step_unat [OF D(2,1)] by (simp add: g'_def)
  obtain k where k: "?m = Suc k" using c(3) n by (cases "?m") auto
  let ?dq = "dq\<lparr>get_index := g', is_full := False, is_empty := (put_index dq = g')\<rparr>"
  have e: "data_queue_get dq = Some (xs ! ?g, ?dq)"
    using xs D(2) n by (simp add: data_queue_get_def Let_def g'_def [symmetric] flag_update)
  have i: "dq_inv ?dq" using inv xs g' by (auto simp: dq_inv_def)
  have w: "(unat g' + k) mod ?n = unat (put_index dq)" using c(4) k g' by (simp add: mod_add_left_eq)
  have "k = 0 \<longleftrightarrow> put_index dq = g'"
  proof
    show "put_index dq = g'" if "k = 0" using w that g' by (simp add: word_unat_eq_iff)
    show "k = 0" if "put_index dq = g'"
      using mod_add_inj [of k ?n 0 "unat g'"] w that c(1) k g' by simp
  qed
  then have "dq_count ?dq = k" using i w c(1) k by (intro dq_countI) simp_all
  then have "dq_abs dq = xs ! ?g # dq_abs ?dq"
    using circ_get [of xs ?n ?g k] D(2) xs k g' by (simp add: dq_abs_def)
  then show ?thesis using e i by (intro exI [of _ "xs ! ?g"] exI [of _ ?dq]) simp
qed

text \<open>\<open>rt_data_queue_len\<close> counts the items.\<close>

lemma dq_len_count:
  assumes inv: "dq_inv dq"
  shows "unat (dq_len dq) = dq_count dq"
proof -
  note D = dq_invD [OF inv]
  have u: "unat (ucast x :: u16) = unat x" for x :: "15 word"
    using unsigned_less [of x, where 'a = nat] by (simp add: unsigned_ucast_eq take_bit_eq_mod)
  have g: "unat (get_index dq) < 0x8000" "unat (put_index dq) < 0x8000" using D(1-3) by simp_all
  consider "is_empty dq" | "\<not> is_empty dq" "get_index dq < put_index dq" | "\<not> is_empty dq" "\<not> get_index dq < put_index dq" by blast
  then show ?thesis
  proof cases
    case 2
    then have "(ucast (get_index dq) :: u16) \<le> ucast (put_index dq)" by (simp add: word_le_nat_alt word_less_nat_alt u)
    then show ?thesis using 2 by (simp add: dq_len_def dq_count_def unat_sub u)
  next
    case 3
    have le: "unat (put_index dq) \<le> unat (get_index dq)" using 3(2) by (simp add: not_less word_le_nat_alt)
    have "unat (dq_size dq + ucast (put_index dq)) = unat (dq_size dq) + unat (put_index dq)"
      using D(1) g(2) unat_word_ariths(1) [of "dq_size dq" "ucast (put_index dq)"] u by simp
    moreover have "(ucast (get_index dq) :: u16) \<le> dq_size dq + ucast (put_index dq)"
      using D(2) calculation by (simp add: word_le_nat_alt u)
    ultimately show ?thesis using 3 by (simp add: dq_len_def dq_count_def unat_sub u)
  qed (simp add: dq_len_def dq_count_def)
qed

text \<open>The store and the fetch with the tests of the calls.\<close>

definition dq_enq :: "rt_data_item \<Rightarrow> rt_data_queue \<Rightarrow> rt_data_queue option" where
  "dq_enq it dq = (if is_full dq then None else data_queue_put it dq)"

definition dq_deq :: "rt_data_queue \<Rightarrow> (rt_data_item \<times> rt_data_queue) option" where
  "dq_deq dq = (if is_empty dq then None else data_queue_get dq)"

interpretation dqueue: bounded_fifo dq_inv dq_abs dq_cap dq_enq dq_deq
proof unfold_locales
  fix dq :: rt_data_queue and it and its
  assume inv: "dq_inv dq"
  note c = dq_count_facts [OF inv]
  show "length (dq_abs dq) \<le> dq_cap dq" using c(1) by (simp add: dq_cap_def)
  show "\<exists>dq'. dq_enq it dq = Some dq' \<and> dq_inv dq' \<and> dq_abs dq' = dq_abs dq @ [it] \<and> dq_cap dq' = dq_cap dq"
    if "length (dq_abs dq) < dq_cap dq"
  proof -
    have "\<not> is_full dq" using that c(2) by (auto simp: dq_cap_def)
    then show ?thesis using data_queue_put_ok [OF inv, of it] by (auto simp: dq_enq_def dq_cap_def)
  qed
  show "dq_enq it dq = None" if "length (dq_abs dq) = dq_cap dq" using that c(2) by (simp add: dq_enq_def dq_cap_def)
  show "dq_deq dq = None" if "dq_abs dq = []" using that c(3) length_dq_abs [of dq] by (simp add: dq_deq_def)
  show "\<exists>dq'. dq_deq dq = Some (it, dq') \<and> dq_inv dq' \<and> dq_abs dq' = its \<and> dq_cap dq' = dq_cap dq"
    if a: "dq_abs dq = it # its"
  proof -
    have "\<not> is_empty dq" using a c(3) length_dq_abs [of dq] by auto
    then show ?thesis using data_queue_get_ok [OF inv] a by (fastforce simp: dq_deq_def dq_cap_def)
  qed
qed

section \<open>The operations keep the invariant\<close>

text \<open>A queue whose array is there; one without an array (no memory, or freed) has nothing to keep.\<close>

definition dq_ok :: "rt_data_queue \<Rightarrow> bool" where
  "dq_ok dq \<longleftrightarrow> dq_items dq = None \<or> dq_inv dq"

definition dq_op :: "nat \<Rightarrow> 'z ipc_scheme \<Rightarrow> 'z ipc_scheme \<Rightarrow> bool" where
  "dq_op i s s' \<longleftrightarrow> op_ok i s s' \<and> (\<exists>dq. objs s' i = Some (StructDataQueue dq) \<and> dq_ok dq)"

lemma get_dq_iff: "get_dq i s = Some dq \<longleftrightarrow> objs s i = Some (StructDataQueue dq)"
  by (auto simp: get_dq_def split: option.splits ipc_object.splits)

lemma checked_dq_iff: "checked_dq i s = Some dq \<longleftrightarrow> objs s i = Some (StructDataQueue dq) \<and> dq_magic dq = DATAQUEUE_MAGIC"
  by (auto simp: checked_dq_def get_dq_iff elim!: bind_SomeE)
    (simp add: get_dq_def)

lemma fifo_flag_ok [simp]: "flag_ok RT_IPC_FLAG_FIFO"
  by (simp add: flag_ok_def)

lemma dq_push_now:
  assumes q: "kernel_quiet s" and c: "cur s \<noteq> None" and o: "objs s i = Some (StructDataQueue dq)" and inv: "dq_inv dq"
    and n: "\<not> is_full dq"
  shows "\<exists>s' dq'. dq_push_loop i it timeout s =
      Some (Ret (RT_EOK, if lists s (Suspend i) \<noteq> [] then None else Some RT_DATAQUEUE_EVENT_PUSH), s') \<and> dq_op i s s' \<and>
    objs s' i = Some (StructDataQueue dq') \<and> dq_inv dq' \<and> dq_abs dq' = dq_abs dq @ [it] \<and> dq_cap dq' = dq_cap dq \<and>
    lists s' (Suspend i) = tl (lists s (Suspend i)) \<and> lists s' (SuspendSender i) = lists s (SuspendSender i) \<and>
    made_runnable (take 1 (lists s (Suspend i))) s s'"
proof -
  obtain dq' where dq': "data_queue_put it dq = Some dq'" "dq_inv dq'" "dq_abs dq' = dq_abs dq @ [it]" "dq_size dq' = dq_size dq"
    using data_queue_put_ok [OF inv n] by blast
  obtain s' where s': "wake_first (Suspend i) (put_obj i (StructDataQueue dq') s) = Some s'" "op_ok i s s'"
    "objs s' i = Some (StructDataQueue dq')" "lists s' (Suspend i) = tl (lists s (Suspend i))"
    "lists s' (SuspendSender i) = lists s (SuspendSender i)" "made_runnable (take 1 (lists s (Suspend i))) s s'"
    using put_wake [OF q c, of "Suspend i" i "StructDataQueue dq'"] by auto
  have "dq_push_loop i it timeout s =
      Some (Ret (RT_EOK, if lists s (Suspend i) \<noteq> [] then None else Some RT_DATAQUEUE_EVENT_PUSH), s')"
    using o n dq'(1) s'(1) by (simp add: dq_push_loop_def get_dq_def Let_def)
  then show ?thesis using s' dq'
    by (intro exI [of _ s'] exI [of _ dq']) (simp add: dq_op_def dq_ok_def dq_cap_def)
qed

text \<open>Waiting to push and waiting to pop.\<close>

lemma dq_wait:
  assumes q: "kernel_quiet s" and r: "runs s c th" and o: "objs s i = Some (StructDataQueue dq)" and ok: "dq_ok dq"
    and tm: "timeout \<noteq> 0" "time_ok timeout" and l: "l = (if push then SuspendSender i else Suspend i)"
  shows "\<exists>s' th'. ipc_block l c RT_IPC_FLAG_FIFO timeout (upd_thread c (\<lambda>th. th\<lparr>th_error := RT_EOK\<rparr>) s) = Some s' \<and>
    dq_op i s s' \<and> objs s' = objs s \<and> lists s' l = lists s l @ [c] \<and>
    threads s' c = Some th' \<and> stat th' = RT_THREAD_SUSPEND \<and> th_error th' = RT_EOK"
proof -
  have l': "l = Suspend i \<or> l = SuspendSender i" using l by simp
  show ?thesis using wait_op [OF q r l' fifo_flag_ok tm(2)] o ok by (fastforce simp: dq_op_def queued_def)
qed

lemma dq_push_block:
  assumes q: "kernel_quiet s" and r: "runs s c th" and o: "objs s i = Some (StructDataQueue dq)" and ok: "dq_ok dq"
    and n: "is_full dq" and tm: "timeout \<noteq> 0" "time_ok timeout"
  shows "\<exists>s' th'. dq_push_loop i it timeout s = Some (Blocked, s') \<and> dq_op i s s' \<and> objs s' = objs s \<and>
    lists s' (SuspendSender i) = lists s (SuspendSender i) @ [c] \<and>
    threads s' c = Some th' \<and> stat th' = RT_THREAD_SUSPEND \<and> th_error th' = RT_EOK"
  using dq_wait [OF q r o ok tm, of "SuspendSender i" True] o n tm runsD [OF r]
  by (auto simp: dq_push_loop_def get_dq_def rt_thread_self_def Let_def)

lemma dq_pop_block:
  assumes q: "kernel_quiet s" and r: "runs s c th" and o: "objs s i = Some (StructDataQueue dq)" and ok: "dq_ok dq"
    and n: "is_empty dq" and tm: "timeout \<noteq> 0" "time_ok timeout"
  shows "\<exists>s' th'. dq_pop_loop i timeout s = Some (Blocked, s') \<and> dq_op i s s' \<and> objs s' = objs s \<and>
    lists s' (Suspend i) = lists s (Suspend i) @ [c] \<and>
    threads s' c = Some th' \<and> stat th' = RT_THREAD_SUSPEND \<and> th_error th' = RT_EOK"
  using dq_wait [OF q r o ok tm, of "Suspend i" False] o n tm runsD [OF r]
  by (auto simp: dq_pop_loop_def get_dq_def rt_thread_self_def Let_def)

lemma dq_put_op: "kernel_quiet s \<Longrightarrow> cur s \<noteq> None \<Longrightarrow> op_ok i s (put_obj i ob s)"
  by (simp add: op_ok_def)

lemma dq_pop_now:
  assumes q: "kernel_quiet s" and c: "cur s \<noteq> None" and o: "objs s i = Some (StructDataQueue dq)" and inv: "dq_inv dq"
    and n: "\<not> is_empty dq" and mg: "dq_magic dq = DATAQUEUE_MAGIC"
  defines "low \<equiv> dq_count dq \<le> unat (dq_lwm dq) + 1"
  shows "\<exists>s' dq' it. dq_pop_loop i timeout s =
      Some (Ret (RT_EOK, Some it, Some (if low then RT_DATAQUEUE_EVENT_LWM else RT_DATAQUEUE_EVENT_POP)), s') \<and> dq_op i s s' \<and>
    objs s' i = Some (StructDataQueue dq') \<and> dq_inv dq' \<and> dq_abs dq = it # dq_abs dq' \<and> dq_cap dq' = dq_cap dq \<and>
    lists s' (SuspendSender i) = (if low then tl (lists s (SuspendSender i)) else lists s (SuspendSender i)) \<and>
    lists s' (Suspend i) = lists s (Suspend i) \<and>
    made_runnable (if low then take 1 (lists s (SuspendSender i)) else []) s s'"
proof -
  obtain it dq' where dq': "data_queue_get dq = Some (it, dq')" "dq_inv dq'" "dq_abs dq = it # dq_abs dq'" "dq_size dq' = dq_size dq"
      "dq_magic dq' = DATAQUEUE_MAGIC" "dq_lwm dq' = dq_lwm dq"
    using data_queue_get_ok [OF inv n] mg by auto
  have low: "dq_len dq' \<le> dq_lwm dq' \<longleftrightarrow> low"
    using dq_len_count [OF dq'(2)] dq'(3,6) length_dq_abs [of dq] length_dq_abs [of dq']
    by (simp add: low_def word_le_nat_alt del: length_dq_abs) linarith
  let ?s = "put_obj i (StructDataQueue dq') s"
  have len: "rt_data_queue_len i ?s = Some (dq_len dq')"
    using dq'(5) by (simp add: rt_data_queue_len_def checked_dq_def get_dq_def)
  show ?thesis
  proof (cases low)
    case True
    obtain s' where s': "wake_first (SuspendSender i) ?s = Some s'" "op_ok i s s'"
      "objs s' i = Some (StructDataQueue dq')" "lists s' (SuspendSender i) = tl (lists s (SuspendSender i))"
      "lists s' (Suspend i) = lists s (Suspend i)" "made_runnable (take 1 (lists s (SuspendSender i))) s s'"
      using put_wake [OF q c, of "SuspendSender i" i "StructDataQueue dq'"] by auto
    have "dq_pop_loop i timeout s = Some (Ret (RT_EOK, Some it, Some RT_DATAQUEUE_EVENT_LWM), s')"
      using o n dq'(1) s'(1) len low True by (simp add: dq_pop_loop_def get_dq_def Let_def)
    then show ?thesis using s' dq' True
      by (intro exI [of _ s'] exI [of _ dq'] exI [of _ it]) (simp add: dq_op_def dq_ok_def dq_cap_def)
  next
    case False
    have "dq_pop_loop i timeout s = Some (Ret (RT_EOK, Some it, Some RT_DATAQUEUE_EVENT_POP), ?s)"
      using o n dq'(1) len low False by (simp add: dq_pop_loop_def get_dq_def Let_def)
    then show ?thesis using dq' False dq_put_op [OF q c]
      by (intro exI [of _ ?s] exI [of _ dq'] exI [of _ it]) (simp add: dq_op_def dq_ok_def dq_cap_def made_runnable_def)
  qed
qed

text \<open>Leaving a critical section reschedules; the nesting count plays no part in the consistency of the kernel.\<close>

lemma lock_quiet [simp]: "kernel_quiet (s\<lparr>lock_nest := n\<rparr>) = kernel_quiet s"
  by (rule kernel_quiet_cong) simp_all

lemma other_frame_lock [simp]: "other_frame i s (s'\<lparr>lock_nest := n\<rparr>) = other_frame i s s'" "other_frame i (s\<lparr>lock_nest := n\<rparr>) s' = other_frame i s s'"
  by (simp_all add: other_frame_def)

lemma exit_critical_op:
  assumes q: "kernel_quiet s" and c: "cur s \<noteq> None" and f: "other_frame i s0 s"
  shows "\<exists>s'. rt_exit_critical s = Some s' \<and> op_ok i s0 s' \<and> objs s' = objs s \<and> (\<forall>l. is_wait l \<longrightarrow> lists s' l = lists s l) \<and>
    (\<forall>t. rel_option same_thread (threads s t) (threads s' t))"
proof (cases "sint (lock_nest s - 1) \<le> 0")
  case True
  let ?s = "s\<lparr>lock_nest := 0\<rparr>"
  have "kernel_quiet ?s" "cur ?s \<noteq> None" "other_frame i s0 ?s" using q c f by simp_all
  then obtain s' where s': "rt_schedule ?s = Some s'" "op_ok i s0 s'" "sched_frame ?s s'" using op_ok_schedule by blast
  have "lists s' l = lists s l" if "is_wait l" for l using frame_sel [OF s'(3) that] by simp
  moreover have "rel_option same_thread (threads s t) (threads s' t)" for t
    using s'(3) unfolding sched_frame_def by simp
  moreover have "rt_exit_critical s = Some s'" using True s'(1) c by (simp add: rt_exit_critical_def Let_def)
  ultimately show ?thesis using s'(2) frame_objs [OF s'(3)] by auto
next
  case False
  then show ?thesis using q c f by (auto simp: rt_exit_critical_def Let_def op_ok_def option.rel_refl)
qed

lemma failed_same_thread:
  assumes f: "failed_waiters ts s0 s" and r: "\<forall>t. rel_option same_thread (threads s t) (threads s' t)"
  shows "failed_waiters ts s0 s'"
  unfolding failed_waiters_def
proof
  fix t assume "t \<in> ts"
  then obtain th where th: "threads s t = Some th" "runnable (stat th)" "th_error th = E_ERROR"
    using f by (auto simp: failed_waiters_def)
  have "rel_option same_thread (Some th) (threads s' t)" using r th(1) by metis
  then obtain th' where th': "threads s' t = Some th'" "same_thread th th'" by (auto simp: option_rel_Some1)
  have "runnable (stat th')" using th'(2) th(2) unfolding same_thread_def by metis
  moreover have "th_error th' = E_ERROR"
    using th'(2) th(3) unfolding same_thread_def by (auto dest: arg_cong [where f = th_error])
  ultimately show "\<exists>th. threads s' t = Some th \<and> runnable (stat th) \<and> th_error th = E_ERROR" using th'(1) by blast
qed

lemma dq_reset_ok:
  assumes q: "kernel_quiet s" and c: "cur s \<noteq> None" and o: "objs s i = Some (StructDataQueue dq)" and ok: "dq_ok dq"
    and mg: "dq_magic dq = DATAQUEUE_MAGIC"
  defines "dq' \<equiv> dq\<lparr>get_index := 0, put_index := 0, is_empty := True, is_full := False\<rparr>"
  shows "\<exists>s'. rt_data_queue_reset i s = Some s' \<and> dq_op i s s' \<and> objs s' i = Some (StructDataQueue dq') \<and>
    lists s' (Suspend i) = [] \<and> lists s' (SuspendSender i) = [] \<and>
    failed_waiters (set (lists s (Suspend i)) \<union> set (lists s (SuspendSender i))) s s'"
proof -
  let ?p = "rt_enter_critical (put_obj i (StructDataQueue dq') s)"
  have p: "kernel_quiet ?p" "cur ?p \<noteq> None" "objs ?p i = Some (StructDataQueue dq')" "lists ?p = lists s" "other_frame i s ?p"
    using q c by (simp_all add: rt_enter_critical_def)
  obtain s1 s2 where s2: "ipc_list_resume_all (Suspend i) ?p = Some s1" "ipc_list_resume_all (SuspendSender i) s1 = Some s2"
      "op_ok i ?p s2" "objs s2 = objs ?p" "lists s2 (Suspend i) = []" "lists s2 (SuspendSender i) = []"
      "failed_waiters (set (lists s (Suspend i)) \<union> set (lists s (SuspendSender i))) ?p s2"
    using release_both [OF p(1,2), of i] unfolding p(4) by blast
  have f2: "kernel_quiet s2" "cur s2 \<noteq> None" "other_frame i s s2"
    using s2(3) other_frame_trans [OF p(5)] by (simp_all add: op_ok_def)
  obtain s3 where s3: "rt_exit_critical s2 = Some s3" "op_ok i s s3" "objs s3 = objs s2" "\<forall>l. is_wait l \<longrightarrow> lists s3 l = lists s2 l"
      "\<forall>t. rel_option same_thread (threads s2 t) (threads s3 t)"
    using exit_critical_op [OF f2] by blast
  have f3: "kernel_quiet s3" "cur s3 \<noteq> None" "other_frame i s s3" using s3(2) by (simp_all add: op_ok_def)
  obtain s4 where s4: "rt_schedule s3 = Some s4" "op_ok i s s4" "sched_frame s3 s4" using op_ok_schedule [OF f3] by blast
  have "dq_ok dq'" using ok by (auto simp: dq_ok_def dq_inv_def dq'_def)
  moreover have "objs s4 i = Some (StructDataQueue dq')" using frame_objs [OF s4(3)] s3(3) s2(4) p(3) by simp
  moreover have "lists s4 (Suspend i) = []" "lists s4 (SuspendSender i) = []"
    using frame_sel [OF s4(3)] s3(4) s2(5,6) by simp_all
  moreover have "rt_data_queue_reset i s = Some s4"
    using o mg s2(1,2) s3(1) s4(1) by (simp add: rt_data_queue_reset_def checked_dq_def get_dq_def dq'_def)
  moreover have "\<forall>t. rel_option same_thread (threads s3 t) (threads s4 t)" using s4(3) by (simp add: sched_frame_def)
  then have "failed_waiters (set (lists s (Suspend i)) \<union> set (lists s (SuspendSender i))) s s4"
    using failed_same_thread [OF failed_same_thread [OF s2(7) s3(5)]] by (simp add: failed_waiters_def)
  ultimately show ?thesis using s4(2) by (auto simp: dq_op_def)
qed

lemma dq_deinit_ok:
  assumes q: "kernel_quiet s" and c: "cur s \<noteq> None" and o: "objs s i = Some (StructDataQueue dq)" and ok: "dq_ok dq"
    and mg: "dq_magic dq = DATAQUEUE_MAGIC"
  shows "\<exists>s' dq'. rt_data_queue_deinit i s = Some (RT_EOK, s') \<and> dq_op i s s' \<and> objs s' i = Some (StructDataQueue dq') \<and>
    dq_magic dq' = 0 \<and> lists s' (Suspend i) = [] \<and> lists s' (SuspendSender i) = [] \<and>
    failed_waiters (set (lists s (Suspend i)) \<union> set (lists s (SuspendSender i))) s s'"
proof -
  obtain s1 dq1 where s1: "rt_data_queue_reset i s = Some s1" "dq_op i s s1" "objs s1 i = Some (StructDataQueue dq1)"
      "lists s1 (Suspend i) = []" "lists s1 (SuspendSender i) = []"
      "failed_waiters (set (lists s (Suspend i)) \<union> set (lists s (SuspendSender i))) s s1"
    using dq_reset_ok [OF q c o ok mg] by blast
  let ?dq = "dq1\<lparr>dq_magic := 0, dq_items := None\<rparr>"
  let ?s = "put_obj i (StructDataQueue ?dq) s1"
  have "op_ok i s ?s" using s1(2) other_frame_trans [of i s s1 ?s] by (simp add: dq_op_def op_ok_def)
  then have "dq_op i s ?s" by (simp add: dq_op_def dq_ok_def)
  moreover have "rt_data_queue_deinit i s = Some (RT_EOK, ?s)" using s1(1,3) by (simp add: rt_data_queue_deinit_def get_dq_def)
  ultimately show ?thesis using s1 by (intro exI [of _ ?s] exI [of _ ?dq]) (simp add: failed_waiters_def)
qed

lemma dq_init_ok:
  assumes q: "kernel_quiet s" and c: "cur s \<noteq> None" and n: "lists s (Suspend i) = []" "lists s (SuspendSender i) = []"
    and z: "0 < size1" "size1 \<le> 0x8000" and mem: "\<And>xs. mem (unat size1) = Some xs \<Longrightarrow> length xs = unat size1"
  shows "\<exists>s' dq. rt_data_queue_init i size1 lwm notify mem s = Some (if mem (unat size1) = None then E_NOMEM else RT_EOK, s') \<and>
    dq_op i s s' \<and> objs s' i = Some (StructDataQueue dq) \<and> dq_abs dq = [] \<and> dq_cap dq = unat size1"
proof -
  let ?dq = "\<lparr>dq_magic = DATAQUEUE_MAGIC, dq_size = size1, dq_lwm = lwm, get_index = 0, is_empty = True, put_index = 0,
    is_full = False, dq_items = mem (unat size1), evt_notify = notify\<rparr>"
  have "ipc_object_init i (sender_list_init i s) = s"
    using n by (simp add: ipc_object_init_idle sender_list_init_idle)
  then have "rt_data_queue_init i size1 lwm notify mem s =
      Some (if mem (unat size1) = None then E_NOMEM else RT_EOK, put_obj i (StructDataQueue ?dq) s)"
    using z(1) by (simp add: rt_data_queue_init_def Let_def)
  moreover have "dq_ok ?dq"
    using z mem by (cases "mem (unat size1)") (auto simp: dq_ok_def dq_inv_def word_le_nat_alt word_less_nat_alt)
  moreover have "dq_abs ?dq = []" by (simp add: dq_abs_def dq_count_def)
  ultimately show ?thesis using dq_put_op [OF q c] by (auto simp: dq_op_def dq_cap_def)
qed

text \<open>
  A queue of more than 32768 items: the position, a field of 15 bits, never reaches the size, so the ring closes
  after 32768 items, and the length computed from the size is wrong.
\<close>

lemma dq_wide_step: "0x8000 < size1 \<Longrightarrow> dq_step size1 x = x + 1"
  using unsigned_less [of "x + 1", where 'a = nat] by (auto simp: dq_step_def word_less_nat_alt)

lemma dq_wide_len:
  "dq_len \<lparr>dq_magic = DATAQUEUE_MAGIC, dq_size = 40000, dq_lwm = 0, get_index = 10, is_empty = False, put_index = 5,
    is_full = False, dq_items = Some xs, evt_notify = None\<rparr> = 39995"
  "(5 :: 15 word) = 10 + of_nat 32763"
  by (simp_all add: dq_len_def)

section \<open>Properties\<close>

text \<open>
  The items pushed into a data queue come out in order with their sizes, whatever the position in the
  ring: after any run of stores that fits, as many fetches as there are items return exactly the queue.
\<close>

theorem data_queue_round_trip:
  assumes "dq_inv dq" and "length (dq_abs dq) + length its \<le> unat (dq_size dq)"
  shows "\<exists>dq1 dq2. enq_all dq_enq its dq = Some dq1 \<and>
    deq_many dq_deq (length (dq_abs dq) + length its) dq1 = Some (dq_abs dq @ its, dq2) \<and> dq_inv dq2 \<and> is_empty dq2"
proof -
  obtain dq1 dq2 where d: "enq_all dq_enq its dq = Some dq1"
      "deq_many dq_deq (length (dq_abs dq) + length its) dq1 = Some (dq_abs dq @ its, dq2)" "dq_inv dq2" "dq_abs dq2 = []"
    using dqueue.round_trip [OF assms(1), of its] assms(2) by (auto simp: dq_cap_def)
  have "is_empty dq2" using dq_count_facts(3) [OF d(3)] length_dq_abs [of dq2] d(4) by simp
  then show ?thesis using d(1-3) by blast
qed

definition ex_item :: "nat \<Rightarrow> rt_data_item" where
  "ex_item k = \<lparr>data_ptr = 0x20000000 + of_nat k, data_size = of_nat k\<rparr>"

definition ex_dq :: rt_data_queue where
  "ex_dq = \<lparr>dq_magic = DATAQUEUE_MAGIC, dq_size = 3, dq_lwm = 1, get_index = 2, is_empty = False, put_index = 0,
    is_full = False, dq_items = Some [ex_item 1, ex_item 2, ex_item 3], evt_notify = None\<rparr>"

lemma dq_abs_Nil: "[] = dq_abs dq \<Longrightarrow> dq_count dq = 0"
  using length_dq_abs [of dq] by (simp del: length_dq_abs)

lemma ex_dq_inv: "dq_inv ex_dq" "dq_count ex_dq = 1" "dq_abs ex_dq = [ex_item 3]"
  by (simp_all add: ex_dq_def dq_inv_def dq_abs_def dq_count_def circ_def)

theorem data_queue_round_trip_witness:
  "\<exists>dq1 dq2. enq_all dq_enq [ex_item 4, ex_item 5] ex_dq = Some dq1 \<and>
     deq_many dq_deq 3 dq1 = Some ([ex_item 3, ex_item 4, ex_item 5], dq2) \<and> is_empty dq2"
proof -
  have l: "length (dq_abs ex_dq) + length [ex_item 4, ex_item 5] = 3" by (simp add: ex_dq_inv(2))
  have "3 \<le> unat (dq_size ex_dq)" by (simp add: ex_dq_def)
  from data_queue_round_trip [OF ex_dq_inv(1), of "[ex_item 4, ex_item 5]", unfolded l, OF this] show ?thesis
    by (auto simp: ex_dq_inv(3))
qed

text \<open>
  C35: \<open>rt_data_queue_pop\<close> on every branch: from an empty queue it times out or waits at the tail of the list;
  otherwise it returns the oldest item, and when that leaves no more than \<open>lwm\<close> items (the comments of the code say: less
  than \<open>lwm\<close>) it makes the first thread that waits to push runnable and reports the low-water event instead of the pop event.
\<close>

theorem data_queue_pop_branches:
  assumes "kernel_quiet s" and "objs s i = Some (StructDataQueue dq)" and "dq_inv dq" and "dq_magic dq = DATAQUEUE_MAGIC"
    and "runs s c th" and "lock_nest s = 0" and "int_nest s = 0" and "time_ok timeout"
  shows "if is_empty dq
    then if timeout = 0 then data_queue_pop i timeout s = Some (Ret (E_TIMEOUT, None, None), s)
      else \<exists>s' th'. data_queue_pop i timeout s = Some (Blocked, s') \<and> kernel_quiet s' \<and> objs s' = objs s \<and>
        lists s' (Suspend i) = lists s (Suspend i) @ [c] \<and> threads s' c = Some th' \<and> stat th' = RT_THREAD_SUSPEND
    else \<exists>s' dq' it. objs s' i = Some (StructDataQueue dq') \<and> kernel_quiet s' \<and> dq_inv dq' \<and> dq_abs dq = it # dq_abs dq' \<and>
      (if length (dq_abs dq') \<le> unat (dq_lwm dq)
       then data_queue_pop i timeout s = Some (Ret (RT_EOK, Some it, Some RT_DATAQUEUE_EVENT_LWM), s') \<and>
         lists s' (SuspendSender i) = tl (lists s (SuspendSender i)) \<and>
         made_runnable (take 1 (lists s (SuspendSender i))) s s'
       else data_queue_pop i timeout s = Some (Ret (RT_EOK, Some it, Some RT_DATAQUEUE_EVENT_POP), s') \<and>
         lists s' (SuspendSender i) = lists s (SuspendSender i))"
proof -
  note R = runsD [OF assms(5)]
  have ok: "dq_ok dq" using assms(3) by (simp add: dq_ok_def)
  have e: "data_queue_pop i timeout s = dq_pop_loop i timeout s"
    using assms(2,4,6,7) R by (simp add: data_queue_pop_def checked_dq_def get_dq_def)
  consider "is_empty dq" "timeout = 0" | "is_empty dq" "timeout \<noteq> 0" | "\<not> is_empty dq" by blast
  then show ?thesis
  proof cases
    case 1
    then show ?thesis using e assms(2) by (simp add: dq_pop_loop_def get_dq_def)
  next
    case 2
    from dq_pop_block [OF assms(1,5,2) ok 2 assms(8)] 2 show ?thesis unfolding e by (auto simp: dq_op_def op_ok_def)
  next
    case 3
    have c: "cur s \<noteq> None" using R by simp
    obtain s' dq' it where p: "dq_pop_loop i timeout s = Some (Ret (RT_EOK, Some it, Some (if dq_count dq \<le> unat (dq_lwm dq) + 1
        then RT_DATAQUEUE_EVENT_LWM else RT_DATAQUEUE_EVENT_POP)), s')" "dq_op i s s'"
      "objs s' i = Some (StructDataQueue dq')" "dq_inv dq'" "dq_abs dq = it # dq_abs dq'"
      "lists s' (SuspendSender i) = (if dq_count dq \<le> unat (dq_lwm dq) + 1 then tl (lists s (SuspendSender i)) else lists s (SuspendSender i))"
      "made_runnable (if dq_count dq \<le> unat (dq_lwm dq) + 1 then take 1 (lists s (SuspendSender i)) else []) s s'"
      using dq_pop_now [OF assms(1) c assms(2,3) 3 assms(4), of timeout] by blast
    have "dq_count dq = Suc (dq_count dq')" using p(5) length_dq_abs [of dq] length_dq_abs [of dq'] by (simp del: length_dq_abs)
    then show ?thesis unfolding e using 3 p
      by (intro if_not_P [THEN iffD2]) (auto simp: dq_op_def op_ok_def intro!: exI [of _ s'] exI [of _ dq'] exI [of _ it])
  qed
qed

text \<open>The state of the examples with a data queue.\<close>

definition ex_queue :: "rt_data_queue \<Rightarrow> ipc" where
  "ex_queue dq = put_obj 21 (StructDataQueue dq) ex_ipc"

lemma ex_queue_ok:
  "kernel_quiet (ex_queue dq)" "objs (ex_queue dq) 21 = Some (StructDataQueue dq)" "runs (ex_queue dq) 1 (ex_thread RT_THREAD_RUNNING 5)"
  "lock_nest (ex_queue dq) = 0" "int_nest (ex_queue dq) = 0" "cur (ex_queue dq) \<noteq> None"
  "lists (ex_queue dq) (Suspend 21) = []" "lists (ex_queue dq) (SuspendSender 21) = []"
  using ex_ipc_quiet ex_ipc_runs by (simp_all add: ex_queue_def runs_def ex_ipc_lists del: ex_ipc_sel(2))

theorem data_queue_pop_branches_witness:
  "\<exists>s'. data_queue_pop 21 5 (ex_queue ex_dq) = Some (Ret (RT_EOK, Some (ex_item 3), Some RT_DATAQUEUE_EVENT_LWM), s')"
proof -
  have t: "time_ok 5" "dq_magic ex_dq = DATAQUEUE_MAGIC" "\<not> is_empty ex_dq" by (simp_all add: time_ok_def ex_dq_def)
  from data_queue_pop_branches [OF ex_queue_ok(1,2) ex_dq_inv(1) t(2) ex_queue_ok(3-5) t(1)] t(3) show ?thesis
    by (auto simp: ex_dq_inv(3) dest: dq_abs_Nil)
qed

text \<open>
  C34: A push reaches the thread that waits to pop: after \<open>rt_data_queue_pop\<close> has blocked the only waiter of an
  empty queue, a push makes that thread runnable, and the pop, when its thread runs again before any other call on
  the queue, returns the pushed item and leaves the queue empty.
\<close>

theorem data_queue_handover:
  fixes s :: "'z ipc_scheme"
  assumes "kernel_quiet s" and "objs s i = Some (StructDataQueue dq)" and "dq_inv dq" and "dq_magic dq = DATAQUEUE_MAGIC"
    and "runs s c th" and "lock_nest s = 0" and "int_nest s = 0" and "time_ok timeout" and "timeout \<noteq> 0"
    and "is_empty dq" and "lists s (Suspend i) = []"
  shows "\<exists>s1 s2 th2. data_queue_pop i timeout s = Some (Blocked, s1) \<and>
    data_queue_push i it 0 s1 = Some (Ret (RT_EOK, None), s2) \<and> kernel_quiet s2 \<and> lists s2 (Suspend i) = [] \<and>
    threads s2 c = Some th2 \<and> runnable (stat th2) \<and>
    (\<forall>s3 :: 'z ipc_scheme. kernel_quiet s3 \<and> cur s3 = Some c \<and> threads s3 c = Some th2 \<and> objs s3 i = objs s2 i \<longrightarrow>
      (\<exists>ev s4 dq4. dq_pop_resume i timeout s3 = Some (Ret (RT_EOK, Some it, Some ev), s4) \<and>
        objs s4 i = Some (StructDataQueue dq4) \<and> dq_abs dq4 = []))"
proof -
  have ok: "dq_ok dq" using assms(3) by (simp add: dq_ok_def)
  have nf: "\<not> is_full dq" using dq_invD(5) [OF assms(3)] assms(10) by blast
  have a0: "dq_abs dq = []" using dq_count_facts(3) [OF assms(3)] assms(10) length_dq_abs [of dq] by (simp del: length_dq_abs)
  obtain s1 th1 where s1: "dq_pop_loop i timeout s = Some (Blocked, s1)" "dq_op i s s1" "objs s1 = objs s"
      "lists s1 (Suspend i) = [c]" "threads s1 c = Some th1" "th_error th1 = RT_EOK"
    using dq_pop_block [OF assms(1,5,2) ok assms(10,9,8)] assms(11) by auto
  have o1: "kernel_quiet s1" "cur s1 \<noteq> None" "objs s1 i = Some (StructDataQueue dq)"
    using s1(2,3) assms(2) by (auto simp: dq_op_def op_ok_def)
  obtain dq2 where dq2: "data_queue_put it dq = Some dq2" "dq_inv dq2" "dq_abs dq2 = [it]" "dq_magic dq2 = DATAQUEUE_MAGIC"
    using data_queue_put_ok [OF assms(3) nf, of it] assms(4) a0 by auto
  obtain s2 where s2: "dq_push_loop i it 0 s1 = Some (Ret (RT_EOK, None), s2)" "dq_op i s1 s2"
      "objs s2 i = Some (StructDataQueue dq2)" "lists s2 (Suspend i) = []" "made_runnable [c] s1 s2"
  proof -
    obtain s2 where w: "wake_first (Suspend i) (put_obj i (StructDataQueue dq2) s1) = Some s2" "op_ok i s1 s2"
      "objs s2 i = Some (StructDataQueue dq2)" "lists s2 (Suspend i) = tl (lists s1 (Suspend i))"
      "made_runnable (take 1 (lists s1 (Suspend i))) s1 s2"
      using put_wake [OF o1(1,2), of "Suspend i" i "StructDataQueue dq2"] by auto
    have "dq_push_loop i it 0 s1 = Some (Ret (RT_EOK, None), s2)"
      using o1(3) nf dq2(1) w(1) s1(4) by (simp add: dq_push_loop_def get_dq_def Let_def)
    then show ?thesis using that w s1(4) dq2(2) by (simp add: dq_op_def dq_ok_def)
  qed
  obtain th2 where th2: "threads s2 c = Some th2" "runnable (stat th2)" "th_error th2 = RT_EOK"
    using s2(5) s1(5,6) by (auto simp: made_runnable_def)
  have e: "data_queue_pop i timeout s = Some (Blocked, s1)" "data_queue_push i it 0 s1 = Some (Ret (RT_EOK, None), s2)"
    using s1(1) s2(1) assms(2,4,6,7) o1(3) runsD [OF assms(5)]
    by (simp_all add: data_queue_pop_def data_queue_push_def checked_dq_def get_dq_def debug_scheduler_available_def
        debug_in_thread_context_def debug_not_in_interrupt_def rt_critical_level_def rt_interrupt_get_nest_def rt_thread_self_def)
  have "\<forall>s3 :: 'z ipc_scheme. kernel_quiet s3 \<and> cur s3 = Some c \<and> threads s3 c = Some th2 \<and> objs s3 i = objs s2 i \<longrightarrow>
      (\<exists>ev s4 dq4. dq_pop_resume i timeout s3 = Some (Ret (RT_EOK, Some it, Some ev), s4) \<and>
        objs s4 i = Some (StructDataQueue dq4) \<and> dq_abs dq4 = [])"
  proof (intro allI impI)
    fix s3 :: "'z ipc_scheme"
    assume s3: "kernel_quiet s3 \<and> cur s3 = Some c \<and> threads s3 c = Some th2 \<and> objs s3 i = objs s2 i"
    then have o3: "kernel_quiet s3" "cur s3 \<noteq> None" "objs s3 i = Some (StructDataQueue dq2)" using s2(3) by simp_all
    have "\<not> is_empty dq2" using dq_count_facts(3) [OF dq2(2)] dq2(3) length_dq_abs [of dq2] by (simp del: length_dq_abs)
    from dq_pop_now [OF o3 dq2(2) this dq2(4), of timeout] obtain s4 dq4 x ev where
      "dq_pop_loop i timeout s3 = Some (Ret (RT_EOK, Some x, Some ev), s4)" "objs s4 i = Some (StructDataQueue dq4)"
      "dq_abs dq2 = x # dq_abs dq4" by blast
    then show "\<exists>ev s4 dq4. dq_pop_resume i timeout s3 = Some (Ret (RT_EOK, Some it, Some ev), s4) \<and>
        objs s4 i = Some (StructDataQueue dq4) \<and> dq_abs dq4 = []"
      using dq2(3) s3 th2(3) by (auto simp: dq_pop_resume_def rt_thread_self_def ipc_wait_result_def)
  qed
  moreover have "kernel_quiet s2" using s2(2) by (simp add: dq_op_def op_ok_def)
  ultimately show ?thesis using e s2(4) th2(1,2) by blast
qed

theorem data_queue_handover_witness:
  "\<exists>s1 s2. data_queue_pop 21 5 (ex_queue (ex_dq\<lparr>get_index := 0, is_empty := True\<rparr>)) = Some (Blocked, s1) \<and>
     data_queue_push 21 (ex_item 9) 0 s1 = Some (Ret (RT_EOK, None), s2) \<and> lists s2 (Suspend 21) = []"
proof -
  have "dq_inv (ex_dq\<lparr>get_index := 0, is_empty := True\<rparr>)" "dq_magic (ex_dq\<lparr>get_index := 0, is_empty := True\<rparr>) = DATAQUEUE_MAGIC"
    "is_empty (ex_dq\<lparr>get_index := 0, is_empty := True\<rparr>)" "time_ok 5"
    by (simp_all add: ex_dq_def dq_inv_def time_ok_def)
  from data_queue_handover [OF ex_queue_ok(1,2) this(1,2) ex_queue_ok(3-5) this(4) _ this(3) ex_queue_ok(7), of "ex_item 9"]
  show ?thesis by auto
qed

text \<open>
  \<open>rt_data_queue_reset\<close> empties the queue and makes every thread that waits on it, to pop or to push,
  runnable with a general error; no thread is left on its lists.
\<close>

theorem data_queue_reset_fails_waiters:
  assumes "kernel_quiet s" and "cur s \<noteq> None" and "objs s i = Some (StructDataQueue dq)" and "dq_inv dq"
    and "dq_magic dq = DATAQUEUE_MAGIC"
  shows "\<exists>s' dq'. rt_data_queue_reset i s = Some s' \<and> kernel_quiet s' \<and> objs s' i = Some (StructDataQueue dq') \<and>
    dq_inv dq' \<and> dq_abs dq' = [] \<and> dq_cap dq' = dq_cap dq \<and> lists s' (Suspend i) = [] \<and> lists s' (SuspendSender i) = [] \<and>
    failed_waiters (set (lists s (Suspend i)) \<union> set (lists s (SuspendSender i))) s s'"
proof -
  have ok: "dq_ok dq" using assms(4) by (simp add: dq_ok_def)
  let ?dq = "dq\<lparr>get_index := 0, put_index := 0, is_empty := True, is_full := False\<rparr>"
  have "dq_inv ?dq" "dq_abs ?dq = []" "dq_cap ?dq = dq_cap dq"
    using assms(4) by (auto simp: dq_inv_def dq_abs_def dq_count_def dq_cap_def)
  then show ?thesis using dq_reset_ok [OF assms(1-3) ok assms(5)] by (force simp: dq_op_def op_ok_def)
qed

theorem data_queue_reset_fails_waiters_witness:
  "\<exists>s' dq'. rt_data_queue_reset 21 (ex_queue ex_dq) = Some s' \<and> objs s' 21 = Some (StructDataQueue dq') \<and> dq_abs dq' = []"
proof -
  have "dq_magic ex_dq = DATAQUEUE_MAGIC" by (simp add: ex_dq_def)
  from data_queue_reset_fails_waiters [OF ex_queue_ok(1,6,2) ex_dq_inv(1) this] show ?thesis by blast
qed

end
