(* ===== verification/Release.thy ===== *)
theory Release
  imports Event MsgQueue Mempool Completion DataQueue
begin

text \<open>
  The calls that release every waiter of an object with interrupts enabled between the critical sections:
  \<open>rt_*_detach\<close> and \<open>rt_*_delete\<close> of semaphores, mutexes, events, mailboxes, message queues (rt-thread/src/ipc.c)
  and memory pools (rt-thread/src/mempool.c), \<open>rt_data_queue_reset\<close> and \<open>rt_data_queue_deinit\<close>
  (rt-thread/components/drivers/ipc/dataqueue.c). A call in progress is its next piece of code, and
  \<open>release_next\<close> executes one piece; anything may come between two pieces. The definitions of these calls in the
  theories of the objects are the runs in which nothing does.
\<close>

section \<open>The pieces\<close>

text \<open>
  What follows the loops: \<open>rt_object_detach\<close> or \<open>rt_object_delete\<close>; the end of \<open>rt_data_queue_reset\<close>;
  that end and the rest of \<open>rt_data_queue_deinit\<close>.
\<close>

datatype release_end = Detach | Reset | Deinit

text \<open>
  The next piece: \<open>rt_enter_critical\<close>; the test of the loop over the first of the lists that are left; the body of
  the loop over \<open>l\<close>; a reschedule; the magic number; the memory of the items; or nothing.
\<close>

datatype release_pc = Lock release_end | Test "lhead list" release_end | Wake lhead "lhead list" release_end
  | Resched release_end | Disown | Free_items | Return

text \<open>The lists a removal empties, and whether the object is a static one (\<open>rt_object_is_systemobject\<close>).\<close>

definition removal_lists :: "nat \<Rightarrow> ipc_object \<Rightarrow> lhead list" where
  "removal_lists i ob = (case ob of
     ClassMailBox mb \<Rightarrow> [Suspend i, SuspendSender i]
   | ClassMessageQueue mq \<Rightarrow> [Suspend i, SuspendSender i]
   | _ \<Rightarrow> [Suspend i])"

definition obj_static :: "ipc_object \<Rightarrow> bool option" where
  "obj_static ob = (case ob of
     ClassSemaphore sm \<Rightarrow> Some (io_static sm) | ClassMutex m \<Rightarrow> Some (io_static m) | ClassEvent e \<Rightarrow> Some (io_static e)
   | ClassMailBox mb \<Rightarrow> Some (io_static mb) | ClassMessageQueue mq \<Rightarrow> Some (io_static mq)
   | ClassMemPool mp \<Rightarrow> Some (mp_static mp) | _ \<Rightarrow> None)"

text \<open>The checks before the loops: of \<open>rt_*_detach\<close> (\<open>static\<close>) and of \<open>rt_*_delete\<close>.\<close>

definition removal_begin :: "nat \<Rightarrow> bool \<Rightarrow> 'z ipc_scheme \<Rightarrow> release_pc option" where
  "removal_begin i static s = do {
     ob \<leftarrow> objs s i;
     st \<leftarrow> obj_static ob;
     rt_assert (st = static);
     (if static then Some () else debug_not_in_interrupt s);
     Some (Test (removal_lists i ob) Detach) }"

text \<open>The first critical section of a reset of a data queue.\<close>

definition dq_reset_begin :: "nat \<Rightarrow> release_end \<Rightarrow> 'z ipc_scheme \<Rightarrow> (release_pc \<times> 'z ipc_scheme) option" where
  "dq_reset_begin i e s = do {
     rt_assert (e \<noteq> Detach);
     dq \<leftarrow> checked_dq i s;
     Some (Lock e, put_obj i (StructDataQueue (dq\<lparr>get_index := 0, put_index := 0, is_empty := True, is_full := False\<rparr>)) s) }"

text \<open>
  One piece. The test of a loop is outside of the critical section of its body, and so is the removal of the object. A
  deleted object counts as gone from the moment its memory is freed.
\<close>

fun release_next :: "nat \<Rightarrow> release_pc \<Rightarrow> 'z ipc_scheme \<Rightarrow> (release_pc \<times> 'z ipc_scheme) option" where
  "release_next i (Lock e) s = Some (Test [Suspend i, SuspendSender i] e, rt_enter_critical s)"
| "release_next i (Test (l # ls) e) s = Some (if lists s l = [] then Test ls e else Wake l ls e, s)"
| "release_next i (Wake l ls e) s = map_option (Pair (Test (l # ls) e)) (ipc_resume_one l s)"
| "release_next i (Test [] e) s =
    (if e = Detach then Some (Return, drop_obj i s) else map_option (Pair (Resched e)) (rt_exit_critical s))"
| "release_next i (Resched e) s = map_option (Pair (if e = Deinit then Disown else Return)) (rt_schedule s)"
| "release_next i Disown s = do { dq \<leftarrow> get_dq i s; Some (Free_items, put_obj i (StructDataQueue (dq\<lparr>dq_magic := 0\<rparr>)) s) }"
| "release_next i Free_items s = do { dq \<leftarrow> get_dq i s; Some (Return, put_obj i (StructDataQueue (dq\<lparr>dq_items := None\<rparr>)) s) }"
| "release_next i Return s = None"

definition release_step :: "nat \<Rightarrow> release_pc \<times> 'z ipc_scheme \<Rightarrow> release_pc \<times> 'z ipc_scheme \<Rightarrow> bool" where
  "release_step i x y \<longleftrightarrow> release_next i (fst x) (snd x) = Some y"

text \<open>
  When the last waiter goes (a timeout, say) after the test of a loop and before its body, the code takes the head
  of the empty list for a thread; the model has no next state.
\<close>

lemma wake_empty_list:
  "lists s l = [] \<Longrightarrow> release_next i (Wake l ls e) s = None"
  "lists s l \<noteq> [] \<Longrightarrow> release_next i (Test (l # ls) e) s = Some (Wake l ls e, s)"
  by (simp_all add: ipc_resume_one_def)

section \<open>The calls that nothing interrupts\<close>

lemma get_event_iff: "get_event i s = Some e \<longleftrightarrow> objs s i = Some (ClassEvent e)"
  by (auto simp: get_event_def split: option.splits ipc_object.splits)

lemma get_mb_iff: "get_mb i s = Some mb \<longleftrightarrow> objs s i = Some (ClassMailBox mb)"
  by (auto simp: get_mb_def split: option.splits ipc_object.splits)

text \<open>The definitions of the calls as one function are the runs of their pieces.\<close>

lemma resume_all_run:
  fixes s :: "'z ipc_scheme"
  assumes "ipc_list_resume_all l s = Some s'"
  shows "(release_step i)\<^sup>*\<^sup>* (Test (l # ls) e, s) (Test ls e, s')"
proof (rule ipc_list_resume_all.raw_induct [OF _ assms])
  fix f :: "lhead \<Rightarrow> 'z ipc_scheme \<Rightarrow> 'z ipc_scheme option" and l s s'
  assume 1: "\<And>l s s'. f l s = Some s' \<Longrightarrow> (release_step i)\<^sup>*\<^sup>* (Test (l # ls) e, s) (Test ls e, s')"
    "(if lists s l = [] then Some s else ipc_resume_one l s \<bind> f l) = Some s'"
  show "(release_step i)\<^sup>*\<^sup>* (Test (l # ls) e, s) (Test ls e, s')"
  proof (cases "lists s l = []")
    case True
    then have "release_step i (Test (l # ls) e, s) (Test ls e, s')" using 1(2) by (simp add: release_step_def)
    then show ?thesis by blast
  next
    case False
    then obtain s1 where s1: "ipc_resume_one l s = Some s1" "f l s1 = Some s'" using 1(2) by (auto elim!: bind_SomeE)
    have "release_step i (Test (l # ls) e, s) (Wake l ls e, s)" "release_step i (Wake l ls e, s) (Test (l # ls) e, s1)"
      using False s1(1) by (simp_all add: release_step_def)
    moreover have "(release_step i)\<^sup>*\<^sup>* (Test (l # ls) e, s1) (Test ls e, s')" using 1(1) s1(2) by blast
    ultimately show ?thesis by (meson converse_rtranclp_into_rtranclp)
  qed
qed

lemma drop_run: "(release_step i)\<^sup>*\<^sup>* (Test [] Detach, s) (Return, drop_obj i s)"
  by (rule r_into_rtranclp) (simp add: release_step_def)

lemmas release_runs = rtranclp_trans [OF resume_all_run rtranclp_trans [OF resume_all_run drop_run]]
  rtranclp_trans [OF resume_all_run drop_run]

lemma removal_runs:
  "rt_sem_detach i s = Some (r, s') \<Longrightarrow> \<exists>pc. removal_begin i True s = Some pc \<and> (release_step i)\<^sup>*\<^sup>* (pc, s) (Return, s')"
  "rt_sem_delete i s = Some (r, s') \<Longrightarrow> \<exists>pc. removal_begin i False s = Some pc \<and> (release_step i)\<^sup>*\<^sup>* (pc, s) (Return, s')"
  "rt_mutex_detach i s = Some (r, s') \<Longrightarrow> \<exists>pc. removal_begin i True s = Some pc \<and> (release_step i)\<^sup>*\<^sup>* (pc, s) (Return, s')"
  "rt_mutex_delete i s = Some (r, s') \<Longrightarrow> \<exists>pc. removal_begin i False s = Some pc \<and> (release_step i)\<^sup>*\<^sup>* (pc, s) (Return, s')"
  "rt_event_detach i s = Some (r, s') \<Longrightarrow> \<exists>pc. removal_begin i True s = Some pc \<and> (release_step i)\<^sup>*\<^sup>* (pc, s) (Return, s')"
  "rt_event_delete i s = Some (r, s') \<Longrightarrow> \<exists>pc. removal_begin i False s = Some pc \<and> (release_step i)\<^sup>*\<^sup>* (pc, s) (Return, s')"
  "rt_mb_detach i s = Some (r, s') \<Longrightarrow> \<exists>pc. removal_begin i True s = Some pc \<and> (release_step i)\<^sup>*\<^sup>* (pc, s) (Return, s')"
  "rt_mb_delete i s = Some (r, s') \<Longrightarrow> \<exists>pc. removal_begin i False s = Some pc \<and> (release_step i)\<^sup>*\<^sup>* (pc, s) (Return, s')"
  "rt_mq_detach i s = Some (r, s') \<Longrightarrow> \<exists>pc. removal_begin i True s = Some pc \<and> (release_step i)\<^sup>*\<^sup>* (pc, s) (Return, s')"
  "rt_mq_delete i s = Some (r, s') \<Longrightarrow> \<exists>pc. removal_begin i False s = Some pc \<and> (release_step i)\<^sup>*\<^sup>* (pc, s) (Return, s')"
  "rt_mp_detach i s = Some (r, s') \<Longrightarrow> \<exists>pc. removal_begin i True s = Some pc \<and> (release_step i)\<^sup>*\<^sup>* (pc, s) (Return, s')"
  "rt_mp_delete i s = Some (r, s') \<Longrightarrow> \<exists>pc. removal_begin i False s = Some pc \<and> (release_step i)\<^sup>*\<^sup>* (pc, s) (Return, s')"
  by (auto simp: rt_sem_detach_def rt_sem_delete_def rt_mutex_detach_def rt_mutex_delete_def rt_event_detach_def
      rt_event_delete_def rt_mb_detach_def rt_mb_delete_def rt_mq_detach_def rt_mq_delete_def rt_mp_detach_def rt_mp_delete_def
      get_sem_iff get_mutex_iff get_event_iff get_mb_iff get_mq_iff get_mp_iff removal_begin_def removal_lists_def obj_static_def
      elim!: bind_SomeE intro: release_runs)

text \<open>A reset that nothing interrupts; \<open>Deinit\<close> goes on from the state after it.\<close>

lemma reset_run:
  assumes "rt_data_queue_reset i s = Some s'" and "e \<noteq> Detach"
  shows "\<exists>pc s1. dq_reset_begin i e s = Some (pc, s1) \<and>
    (release_step i)\<^sup>*\<^sup>* (pc, s1) (if e = Deinit then Disown else Return, s')"
proof -
  obtain dq where dq: "checked_dq i s = Some dq" using assms(1) by (auto simp: rt_data_queue_reset_def elim!: bind_SomeE)
  let ?s = "put_obj i (StructDataQueue (dq\<lparr>get_index := 0, put_index := 0, is_empty := True, is_full := False\<rparr>)) s"
  obtain s1 s2 s3 where r: "ipc_list_resume_all (Suspend i) (rt_enter_critical ?s) = Some s1"
      "ipc_list_resume_all (SuspendSender i) s1 = Some s2" "rt_exit_critical s2 = Some s3" "rt_schedule s3 = Some s'"
    using assms(1) dq by (auto simp: rt_data_queue_reset_def Let_def elim!: bind_SomeE)
  have "release_step i (Lock e, ?s) (Test [Suspend i, SuspendSender i] e, rt_enter_critical ?s)"
    by (simp add: release_step_def)
  moreover have "release_step i (Test [] e, s2) (Resched e, s3)"
    "release_step i (Resched e, s3) (if e = Deinit then Disown else Return, s')"
    using r(3,4) assms(2) by (simp_all add: release_step_def)
  ultimately have "(release_step i)\<^sup>*\<^sup>* (Lock e, ?s) (if e = Deinit then Disown else Return, s')"
    using resume_all_run [OF r(1), of i "[SuspendSender i]" e] resume_all_run [OF r(2), of i "[]" e]
    by (meson converse_rtranclp_into_rtranclp rtranclp.rtrancl_into_rtrancl rtranclp_trans)
  then show ?thesis using dq assms(2) by (simp add: dq_reset_begin_def)
qed

lemma deinit_run:
  assumes "rt_data_queue_deinit i s = Some (r, s')"
  shows "\<exists>pc s1. dq_reset_begin i Deinit s = Some (pc, s1) \<and> (release_step i)\<^sup>*\<^sup>* (pc, s1) (Return, s')"
proof -
  obtain s2 dq where s2: "rt_data_queue_reset i s = Some s2" "get_dq i s2 = Some dq"
      "s' = put_obj i (StructDataQueue (dq\<lparr>dq_magic := 0, dq_items := None\<rparr>)) s2"
    using assms by (auto simp: rt_data_queue_deinit_def elim!: bind_SomeE)
  obtain pc s1 where r: "dq_reset_begin i Deinit s = Some (pc, s1)" "(release_step i)\<^sup>*\<^sup>* (pc, s1) (Disown, s2)"
    using reset_run [OF s2(1), of Deinit] by auto
  let ?m = "put_obj i (StructDataQueue (dq\<lparr>dq_magic := 0\<rparr>)) s2"
  have "release_step i (Disown, s2) (Free_items, ?m)" "release_step i (Free_items, ?m) (Return, s')"
    using s2(2,3) by (simp_all add: release_step_def get_dq_def)
  then show ?thesis using r by (meson rtranclp.rtrancl_into_rtrancl)
qed

section \<open>What a piece does\<close>

text \<open>No thread is put on a list of object \<open>i\<close>, and those left wait for what they waited for.\<close>

definition fewer_waiters :: "nat \<Rightarrow> 'z ipc_scheme \<Rightarrow> 'z ipc_scheme \<Rightarrow> bool" where
  "fewer_waiters i s s' \<longleftrightarrow> (\<forall>l t. l = Suspend i \<or> l = SuspendSender i \<longrightarrow> t \<in> set (lists s' l) \<longrightarrow> t \<in> set (lists s l) \<and>
     (\<forall>th. threads s t = Some th \<longrightarrow> (\<exists>th'. threads s' t = Some th' \<and> same_wait th th')))"

lemma fewer_waiters_same:
  assumes "\<And>l. is_wait l \<Longrightarrow> lists s' l = lists s l" and "\<forall>t. rel_option same_thread (threads s t) (threads s' t)"
  shows "fewer_waiters i s s'"
proof -
  have "\<exists>th'. threads s' t = Some th' \<and> same_wait th th'" if "threads s t = Some th" for t th
    using assms(2) [rule_format, of t] that same_thread_wait by (auto simp: option_rel_Some1)
  then show ?thesis using assms(1) by (auto simp: fewer_waiters_def)
qed

lemma fewer_waiters_refl [simp]: "fewer_waiters i s s" "fewer_waiters i s (put_obj i ob s)" "fewer_waiters i s (drop_obj i s)"
  by (simp_all add: fewer_waiters_def)

lemma wait_fewer: "wait_frame s s' \<Longrightarrow> fewer_waiters i s s'"
  for s s' :: "'z ipc_scheme"
  using is_wait.simps(1,2) [of i] unfolding wait_frame_def fewer_waiters_def by blast

fun release_lists :: "release_pc \<Rightarrow> lhead list" where
  "release_lists (Test ls e) = ls"
| "release_lists (Wake l ls e) = l # ls"
| "release_lists pc = []"

lemma resume_one_op:
  fixes s :: "'z ipc_scheme"
  assumes q: "kernel_quiet s" and c: "cur s \<noteq> None" and l: "l = Suspend i \<or> l = SuspendSender i"
    and e: "ipc_resume_one l s = Some s'"
  shows "op_ok i s s' \<and> objs s' = objs s \<and> fewer_waiters i s s'"
proof -
  obtain t ts where t: "lists s l = t # ts" using e by (cases "lists s l") (auto simp: ipc_resume_one_def)
  have w: "is_wait l" using l by auto
  let ?u = "upd_thread t (\<lambda>th. th\<lparr>th_error := E_ERROR\<rparr>) s"
  obtain th where th: "threads s t = Some th" "s' = woken t (th\<lparr>th_error := E_ERROR\<rparr>) ?u" "kernel_quiet s'"
    using resume_one_ok [OF q w t] e by auto
  have u: "threads ?u t = Some (th\<lparr>th_error := E_ERROR\<rparr>)" using th(1) by simp
  have "other_frame i s ?u" by (rule wait_other_frame) (simp add: wait_frame_upd)
  moreover have "other_frame i ?u s'" unfolding th(2) by (rule woken_other_frame [OF u]) simp
  ultimately have "op_ok i s s'" using th(3) c th(2) other_frame_trans by (auto simp: op_ok_def)
  moreover have "objs s' = objs s" using th(2) by simp
  moreover have "fewer_waiters i s s'"
    unfolding th(2) fewer_waiters_def using th(1) by (auto simp: same_wait_def dest: set_remove1_subset [THEN subsetD])
  ultimately show ?thesis by blast
qed

text \<open>
  What a piece of a call on object \<open>i\<close> does: the kernel stays consistent, no waiter is added, and the object changes only
  by the removal and by the pieces on a data queue.
\<close>

lemma release_next_ok:
  assumes n: "release_next i pc s = Some (pc', s')" and q: "kernel_quiet s" and c: "cur s \<noteq> None"
    and l: "set (release_lists pc) \<subseteq> {Suspend i, SuspendSender i}"
  shows "op_ok i s s' \<and> fewer_waiters i s s' \<and> set (release_lists pc') \<subseteq> {Suspend i, SuspendSender i} \<and>
    (objs s' = objs s \<or> pc = Test [] Detach \<and> s' = drop_obj i s \<or>
     (\<exists>dq dq'. objs s i = Some (StructDataQueue dq) \<and> objs s' i = Some (StructDataQueue dq') \<and> (dq_ok dq \<longrightarrow> dq_ok dq')))"
proof -
  have r: "op_ok i s s" using op_ok_refl [OF q c] .
  have sch: "op_ok i s s' \<and> objs s' = objs s \<and> fewer_waiters i s s'" if "rt_schedule s = Some s'"
  proof -
    have "op_ok i s s' \<and> sched_frame s s'" using op_ok_schedule [OF q c, of i s] r that by (auto simp: op_ok_def)
    then show ?thesis using frame_objs [of s s'] wait_fewer [OF sched_wait_frame] by blast
  qed
  have ex: "op_ok i s s' \<and> objs s' = objs s \<and> fewer_waiters i s s'" if "rt_exit_critical s = Some s'"
    using exit_critical_op [OF q c, of i s] r that fewer_waiters_same [of s' s i] by (auto simp: op_ok_def)
  show ?thesis
  proof (cases pc)
    case (Lock e)
    then show ?thesis using n r by (auto simp: rt_enter_critical_def op_ok_def other_frame_def fewer_waiters_def)
  next
    case (Test ls e)
    then show ?thesis using n r l ex by (cases ls) (auto simp: op_ok_def split: if_splits)
  next
    case (Wake l ls e)
    then show ?thesis using n \<open>set (release_lists pc) \<subseteq> _\<close> resume_one_op [OF q c, of l i] by auto
  next
    case (Resched e)
    then show ?thesis using n sch by (auto split: if_splits)
  next
    case Disown
    then obtain dq where "objs s i = Some (StructDataQueue dq)" "pc' = Free_items" "s' = put_obj i (StructDataQueue (dq\<lparr>dq_magic := 0\<rparr>)) s"
      using n by (auto simp: get_dq_iff elim!: bind_SomeE)
    then show ?thesis using r by (auto simp: op_ok_def dq_ok_def dq_inv_def)
  next
    case Free_items
    then obtain dq where "objs s i = Some (StructDataQueue dq)" "pc' = Return" "s' = put_obj i (StructDataQueue (dq\<lparr>dq_items := None\<rparr>)) s"
      using n by (auto simp: get_dq_iff elim!: bind_SomeE)
    then show ?thesis using r by (auto simp: op_ok_def dq_ok_def)
  qed (use n in simp)
qed

end
