(* ===== verification/IpcSystem.thy ===== *)
theory IpcSystem
  imports Release
begin

text \<open>
  The kernel objects together: the critical sections of every call on every object, mixed with the thread
  operations and the ticks, as one step relation, and the invariant of the whole system.
\<close>

section \<open>The state\<close>

text \<open>
  Beside the kernel's state, the calls that are between two of their critical sections: what the sends and receives
  that copy a message have done with the block in their hands (by queue and block), and the next piece of
  each call that releases the waiters of an object.
\<close>

record calls =
  held :: "nat \<Rightarrow> nat \<rightharpoonup> mq_stage"
  releasing :: "(nat \<times> release_pc) list"

definition no_calls :: calls where
  "no_calls = \<lparr>held = (\<lambda>_. Map.empty), releasing = []\<rparr>"

section \<open>The invariant\<close>

text \<open>Every object satisfies its class's invariant.\<close>

definition obj_ok :: "'z ipc_scheme \<Rightarrow> nat \<Rightarrow> bool" where
  "obj_ok s i = (case objs s i of
     None \<Rightarrow> True
   | Some (ClassSemaphore sm) \<Rightarrow> sem_ok s i sm
   | Some (ClassMutex m) \<Rightarrow> mutex_ok s i m
   | Some (ClassEvent e) \<Rightarrow> event_ok s i e
   | Some (ClassMailBox mb) \<Rightarrow> mb_ok mb
   | Some (ClassMessageQueue mq) \<Rightarrow> flag_ok (io_flag mq)
   | Some (ClassMemPool mp) \<Rightarrow> mp_ok s i mp
   | Some (StructCompletion cp) \<Rightarrow> completion_ok s i cp
   | Some (StructDataQueue dq) \<Rightarrow> dq_ok dq)"

text \<open>The blocks of a message queue are in order around those in the hands of calls; nothing else has such blocks.\<close>

definition held_ok :: "(nat \<rightharpoonup> mq_stage) \<Rightarrow> 'z ipc_scheme \<Rightarrow> nat \<Rightarrow> bool" where
  "held_ok h s i = (case get_mq i s of None \<Rightarrow> h = Map.empty | Some mq \<Rightarrow> mq_conc_inv (mq, h))"

text \<open>A call that releases the waiters of an object works on the lists of that object.\<close>

definition calls_ok :: "calls \<Rightarrow> bool" where
  "calls_ok c \<longleftrightarrow> (\<forall>(i, pc) \<in> set (releasing c). set (release_lists pc) \<subseteq> {Suspend i, SuspendSender i})"

definition ipc_inv :: "calls \<times> 'z ipc_scheme \<Rightarrow> bool" where
  "ipc_inv x \<longleftrightarrow> (case x of (c, s) \<Rightarrow> kernel_quiet s \<and> cur s \<noteq> None \<and> calls_ok c \<and> (\<forall>i. obj_ok s i \<and> held_ok (held c i) s i))"

text \<open>What a call on object \<open>i\<close> guarantees that is no message queue.\<close>

definition kept :: "nat \<Rightarrow> 'z ipc_scheme \<Rightarrow> 'z ipc_scheme \<Rightarrow> bool" where
  "kept i s s' \<longleftrightarrow> op_ok i s s' \<and> obj_ok s' i \<and> (s' = s \<or> objs s' i \<noteq> None \<and> get_mq i s' = None)"

lemma kept_op:
  "sem_op i s s' \<Longrightarrow> kept i s s'" "mutex_op i s s' \<Longrightarrow> kept i s s'" "event_op i s s' \<Longrightarrow> kept i s s'"
  "mb_op i s s' \<Longrightarrow> kept i s s'" "mp_op i s s' \<Longrightarrow> kept i s s'" "completion_op i s s' \<Longrightarrow> kept i s s'" "dq_op i s s' \<Longrightarrow> kept i s s'"
  by (auto simp: kept_def obj_ok_def get_mq_def sem_op_def mutex_op_def event_op_def mb_op_def mp_op_def completion_op_def dq_op_def)

lemma kept_refl: "kernel_quiet s \<Longrightarrow> cur s \<noteq> None \<Longrightarrow> obj_ok s i \<Longrightarrow> kept i s s"
  by (simp add: kept_def op_ok_refl)

text \<open>No invariant minds a waiter less.\<close>

lemma fewer_obj_ok:
  assumes f: "fewer_waiters j s s'" and o: "objs s' j = objs s j" and ok: "obj_ok s j"
  shows "obj_ok s' j"
proof -
  have l: "t \<in> set (lists s (Suspend j))" "\<exists>th'. threads s' t = Some th' \<and> same_wait th th'"
    if "t \<in> set (lists s' (Suspend j))" "threads s t = Some th" for t th
    using f that unfolding fewer_waiters_def by blast+
  have "\<And>t. t \<in> set (lists s' (Suspend j)) \<Longrightarrow> t \<in> set (lists s (Suspend j))"
    "\<And>t. t \<in> set (lists s' (SuspendSender j)) \<Longrightarrow> t \<in> set (lists s (SuspendSender j))"
    using f by (auto simp: fewer_waiters_def)
  then have e: "lists s (Suspend j) = [] \<Longrightarrow> lists s' (Suspend j) = []"
    "lists s (SuspendSender j) = [] \<Longrightarrow> lists s' (SuspendSender j) = []"
    "\<And>t. t \<in> set (lists s' (Suspend j)) \<Longrightarrow> t \<in> set (lists s (Suspend j))"
    by (metis list.set_intros(1) list.set(1) neq_Nil_conv empty_iff)+
  show ?thesis
  proof (cases "objs s j")
    case None
    then show ?thesis using ok o e by (simp add: obj_ok_def)
  next
    case (Some ob)
    show ?thesis
    proof (cases ob)
      case (ClassSemaphore sm)
      then show ?thesis using ok o Some e by (auto simp: obj_ok_def sem_ok_def)
    next
      case (ClassMutex m)
      then show ?thesis using ok o Some e by (auto simp: obj_ok_def mutex_ok_def split: option.splits)
    next
      case (ClassEvent ev)
      have "event_ok s j ev" using ok Some ClassEvent by (simp add: obj_ok_def)
      then have "event_ok s' j ev" using e l unfolding event_ok_def same_wait_def by metis
      then show ?thesis using o Some ClassEvent by (simp add: obj_ok_def)
    next
      case (ClassMemPool mp)
      then show ?thesis using ok o Some e by (auto simp: obj_ok_def mp_ok_def)
    next
      case (StructCompletion cp)
      then show ?thesis using ok o Some e unfolding obj_ok_def completion_ok_def by simp
    qed (use ok o Some in \<open>simp_all add: obj_ok_def\<close>)
  qed
qed

lemma other_fewer:
  assumes "other_frame i s s'" and "j \<noteq> i"
  shows "fewer_waiters j s s'" "objs s' j = objs s j"
  using assms unfolding other_frame_def fewer_waiters_def by (metis is_wait.simps(1,2) lhead.inject(2,3) lhead.distinct)+

lemma available_iff:
  "debug_scheduler_available True s = Some u \<Longrightarrow> lock_nest s = 0 \<and> int_nest s = 0"
  by (auto simp: debug_scheduler_available_def debug_in_thread_context_def debug_not_in_interrupt_def
      rt_critical_level_def rt_interrupt_get_nest_def)

section \<open>The calls\<close>

text \<open>
  Each call is one critical section, together with the reschedule that follows it, except those of the theories Release
  and MsgQueue that are cut into sections. An object is set up where there is none and no thread waits.
\<close>

definition unused :: "nat \<Rightarrow> 'z ipc_scheme \<Rightarrow> bool" where
  "unused i s \<longleftrightarrow> objs s i = None \<and> lists s (Suspend i) = [] \<and> lists s (SuspendSender i) = []"

lemma unusedD: "unused i s \<Longrightarrow> objs s i = None" "unused i s \<Longrightarrow> lists s (Suspend i) = []"
    "unused i s \<Longrightarrow> lists s (SuspendSender i) = []"
  by (simp_all add: unused_def)

inductive sem_call :: "nat \<Rightarrow> 'z ipc_scheme \<Rightarrow> 'z ipc_scheme \<Rightarrow> bool" for i where
  "unused i s \<Longrightarrow> rt_sem_init i v flag s = Some (e, s') \<Longrightarrow> sem_call i s s'"
| "unused i s \<Longrightarrow> rt_sem_create (Some i) v flag s = Some (ob, s') \<Longrightarrow> sem_call i s s'"
| "runs s c th \<Longrightarrow> rt_sem_take i time s = Some (r, s') \<Longrightarrow> sem_call i s s'"
| "rt_sem_release i s = Some (e, s') \<Longrightarrow> sem_call i s s'"
| "rt_sem_control i cmd s = Some (e, s') \<Longrightarrow> sem_call i s s'"

lemma block_time_ok:
  assumes "kernel_quiet s" and "runs s c th" and "is_wait l" and "flag_ok flag" and "ipc_block l c flag time s = Some s'"
  shows "time_ok time"
  using block_too_long [OF assms(1-4)] assms(5) by fastforce

lemma wait_time_ok:
  fixes s :: "'z ipc_scheme"
  assumes q: "kernel_quiet s" and r: "runs s c th" and "is_wait l" and "flag_ok flag"
    and "ipc_block l c flag time (upd_thread c (\<lambda>th. th\<lparr>th_error := RT_EOK\<rparr>) s) = Some s'"
  shows "time_ok time"
  by (rule block_time_ok [OF clear_error(1,2) [OF q r] assms(3-5)])

lemma sem_take_any:
  assumes q: "kernel_quiet s" and o: "objs s i = Some (ClassSemaphore sm)" and ok: "sem_ok s i sm" and r: "runs s c th"
    and e: "rt_sem_take i time s = Some (r, s')"
  shows "kept i s s'"
proof -
  note R = runsD [OF r]
  consider "0 < sem_value sm" | "sem_value sm = 0" "time = 0" | "sem_value sm = 0" "time \<noteq> 0"
    by (auto simp: word_gt_0)
  then show ?thesis
  proof cases
    case 1
    then show ?thesis using sem_take_now(1) [OF q o ok _ 1, of time] sem_take_now(2) [OF q o ok _ 1] R(1) e by (auto intro: kept_op)
  next
    case 2
    then show ?thesis using e sem_take_poll [OF o] kept_refl [OF q] R(1) o ok by (auto simp: obj_ok_def)
  next
    case 3
    let ?u = "upd_thread c (\<lambda>th. th\<lparr>th_error := RT_EOK\<rparr>) s"
    have av: "lock_nest s = 0" "int_nest s = 0"
      using e o 3 available_iff [of s] by (auto simp: rt_sem_take_def get_sem_def elim!: bind_SomeE)
    have "ipc_block (Suspend i) c (io_flag sm) time ?u \<noteq> None"
      using e o 3 R av by (auto simp: rt_sem_take_def get_sem_def rt_thread_self_def elim!: bind_SomeE)
    then obtain s1 where "ipc_block (Suspend i) c (io_flag sm) time ?u = Some s1" by blast
    then have "time_ok time" by (rule wait_time_ok [OF q r, rotated 2]) (use ok in \<open>simp_all add: sem_ok_def\<close>)
    then show ?thesis using sem_take_block [OF q o ok r av 3] e by (auto intro: kept_op)
  qed
qed

lemma invD:
  assumes "ipc_inv (cs, s)"
  shows "kernel_quiet s" "cur s \<noteq> None" "obj_ok s i"
    "calls_ok cs" "held_ok (held cs i) s i"
    "get_sem i s = Some sm \<Longrightarrow> sem_ok s i sm" "get_mutex i s = Some m \<Longrightarrow> mutex_ok s i m"
    "get_event i s = Some e \<Longrightarrow> event_ok s i e" "get_mb i s = Some mb \<Longrightarrow> mb_ok mb" "get_mq i s = Some mq \<Longrightarrow> flag_ok (io_flag mq)"
    "get_mp i s = Some mp \<Longrightarrow> mp_ok s i mp" "get_completion i s = Some cp \<Longrightarrow> completion_ok s i cp"
    "get_dq i s = Some dq \<Longrightarrow> dq_ok dq"
proof -
  show ok: "kernel_quiet s" "cur s \<noteq> None" "obj_ok s i" using assms by (simp_all add: ipc_inv_def)
  show "calls_ok cs" "held_ok (held cs i) s i" using assms by (simp_all add: ipc_inv_def)
  show "get_sem i s = Some sm \<Longrightarrow> sem_ok s i sm" "get_mutex i s = Some m \<Longrightarrow> mutex_ok s i m"
    "get_event i s = Some e \<Longrightarrow> event_ok s i e" "get_mb i s = Some mb \<Longrightarrow> mb_ok mb" "get_mq i s = Some mq \<Longrightarrow> flag_ok (io_flag mq)"
    "get_mp i s = Some mp \<Longrightarrow> mp_ok s i mp" "get_completion i s = Some cp \<Longrightarrow> completion_ok s i cp"
    "get_dq i s = Some dq \<Longrightarrow> dq_ok dq"
    using ok(3) by (auto simp: obj_ok_def get_sem_def get_mutex_def get_event_def get_mb_def get_mq_def get_mp_def
        get_completion_def get_dq_def
        split: option.splits ipc_object.splits)
qed

lemma sem_call_kept:
  assumes st: "sem_call i s s'" and inv: "ipc_inv (cs, s)"
  shows "kept i s s'"
  using st
proof cases
  case (1 v flag e)
  show ?thesis by (rule kept_op(1) [OF sem_init_ok(1) [OF invD(1,2) [OF inv] unusedD [OF 1(1)] 1(2)]])
next
  case (2 v flag ob)
  show ?thesis by (rule kept_op(1) [OF sem_init_ok(2) [OF invD(1,2) [OF inv] unusedD [OF 2(1)] 2(2)]])
next
  case (3 c th time r)
  then obtain sm where g: "get_sem i s = Some sm" by (auto simp: rt_sem_take_def elim!: bind_SomeE)
  show ?thesis by (rule sem_take_any [OF invD(1) [OF inv] g [unfolded get_sem_iff] invD(6) [OF inv g] 3])
next
  case (4 e)
  then obtain sm where g: "get_sem i s = Some sm" by (auto simp: rt_sem_release_def elim!: bind_SomeE)
  note a = invD(1) [OF inv] g [unfolded get_sem_iff] invD(6) [OF inv g] invD(2) [OF inv]
  show ?thesis
  proof (cases "lists s (Suspend i)")
    case Nil
    then show ?thesis using sem_release_count [OF a] 4 by (auto intro: kept_op split: if_splits)
  next
    case (Cons t ts)
    then show ?thesis using sem_release_ok [OF a Cons] 4 by (auto intro: kept_op)
  qed
next
  case (5 cmd e)
  then obtain sm where g: "get_sem i s = Some sm" by (auto simp: rt_sem_control_def elim!: bind_SomeE)
  show ?thesis
    by (rule kept_op(1) [OF sem_control_ok [OF invD(1,2) [OF inv] g [unfolded get_sem_iff] invD(6) [OF inv g] 5]])
qed

inductive mutex_call :: "nat \<Rightarrow> 'z ipc_scheme \<Rightarrow> 'z ipc_scheme \<Rightarrow> bool" for i where
  "unused i s \<Longrightarrow> rt_mutex_init i flag s = Some (e, s') \<Longrightarrow> mutex_call i s s'"
| "unused i s \<Longrightarrow> rt_mutex_create (Some i) flag s = Some (ob, s') \<Longrightarrow> mutex_call i s s'"
| "runs s c th \<Longrightarrow> rt_mutex_take i time s = Some (r, s') \<Longrightarrow> mutex_call i s s'"
| "runs s c th \<Longrightarrow> rt_mutex_release i s = Some (e, s') \<Longrightarrow> mutex_call i s s'"
| "rt_mutex_control i cmd s = Some (e, s') \<Longrightarrow> mutex_call i s s'"

lemma mutex_take_time_ok:
  assumes q: "kernel_quiet s" and o: "objs s i = Some (ClassMutex m)" and ok: "mutex_ok s i m" and r: "runs s t th"
    and e: "rt_mutex_take i time s = Some (x, s')" and w: "owner m = Some ow" "ow \<noteq> t" and n: "time \<noteq> 0"
  shows "time_ok time \<and> threads s ow \<noteq> None"
proof -
  let ?u = "upd_thread t (\<lambda>th. th\<lparr>th_error := RT_EOK\<rparr>) s"
  note u = clear_error [OF q r, where e = RT_EOK]
  have av: "lock_nest s = 0" "int_nest s = 0"
    using e available_iff [of s] by (auto simp: rt_mutex_take_def elim!: bind_SomeE)
  have mx: "mx_value m = 0" "flag_ok (io_flag m)" using ok w(1) by (simp_all add: mutex_ok_def flag_ok_def)
  obtain oth where oth: "threads s ow = Some oth"
    using e o w n mx runsD [OF r] av
    by (cases "threads s ow") (auto simp: rt_mutex_take_def get_mutex_def rt_thread_self_def Let_def)
  have ow: "threads ?u ow = Some oth" using oth w by simp
  note h = inherit_ok [OF u(1) ow thread_prio_lt [OF q runsD(2) [OF r]]]
  let ?v = "inherit (current_priority th) ow oth ?u"
  have rv: "runs ?v t (th\<lparr>th_error := RT_EOK\<rparr>)" using u(2) w ow by (simp add: runs_def inherit_threads)
  have "ipc_block (Suspend i) t (io_flag m) time ?v \<noteq> None"
    using e o w n mx runsD [OF r] av h(1) oth
    by (auto simp: rt_mutex_take_def get_mutex_def rt_thread_self_def Let_def elim!: bind_SomeE)
  then have "time_ok time" using block_time_ok [OF h(2) rv, of "Suspend i"] mx(2) by auto
  then show ?thesis using oth by simp
qed

lemma mutex_call_kept:
  assumes st: "mutex_call i s s'" and inv: "ipc_inv (cs, s)"
  shows "kept i s s'"
  using st
proof cases
  case (1 flag e)
  show ?thesis by (rule kept_op(2) [OF mutex_init_ok(1) [OF invD(1,2) [OF inv] unusedD [OF 1(1)] 1(2)]])
next
  case (2 flag ob)
  show ?thesis by (rule kept_op(2) [OF mutex_init_ok(2) [OF invD(1,2) [OF inv] unusedD [OF 2(1)] 2(2)]])
next
  case (3 c th time r)
  then obtain m where g: "get_mutex i s = Some m" by (auto simp: rt_mutex_take_def elim!: bind_SomeE)
  note a = invD(1) [OF inv] g [unfolded get_mutex_iff] invD(7) [OF inv g] 3(1) and x = 3(2)
  have av: "lock_nest s = 0" "int_nest s = 0"
    using x available_iff [of s] by (auto simp: rt_mutex_take_def elim!: bind_SomeE)
  consider "owner m = None" | "owner m = Some c" | ow where "owner m = Some ow" "ow \<noteq> c" "time = 0"
    | ow where "owner m = Some ow" "ow \<noteq> c" "time \<noteq> 0" by (cases "owner m") auto
  then show ?thesis
  proof cases
    case 1
    then show ?thesis using mutex_take_now(1) [OF a av 1, of time] mutex_take_now(2) [OF a av 1] x by (auto intro: kept_op)
  next
    case 2
    from mutex_take_again(1) [OF a av 2, of time] mutex_take_again(2,3) [OF a av 2] x show ?thesis
      by (auto intro: kept_op split: if_splits)
  next
    case 3
    then show ?thesis using mutex_take_poll [OF a av 3(1,2)] x by (auto intro: kept_op)
  next
    case (4 ow)
    have tm: "time_ok time" "threads s ow \<noteq> None" using mutex_take_time_ok [OF a x 4] by simp_all
    then obtain oth where "threads s ow = Some oth" by blast
    from mutex_take_block [OF a av 4(1,2) this 4(3) tm(1)] x show ?thesis by (auto intro: kept_op)
  qed
next
  case (4 c th e)
  then obtain m where g: "get_mutex i s = Some m" by (auto simp: rt_mutex_release_def elim!: bind_SomeE)
  note a = invD(1) [OF inv] g [unfolded get_mutex_iff] invD(7) [OF inv g] 4(1) and x = 4(2)
  have av: "int_nest s = 0"
    using x by (auto simp: rt_mutex_release_def debug_in_thread_context_def debug_not_in_interrupt_def
        rt_interrupt_get_nest_def elim!: bind_SomeE)
  consider "owner m \<noteq> Some c" | "owner m = Some c" "hold m \<noteq> 1" | "owner m = Some c" "hold m = 1" "lists s (Suspend i) = []"
    | x xs where "owner m = Some c" "hold m = 1" "lists s (Suspend i) = x # xs" by (cases "lists s (Suspend i)") auto
  then show ?thesis
  proof cases
    case 1
    then show ?thesis using mutex_release_foreign [OF a av 1] x by (auto intro: kept_op)
  next
    case 2
    then show ?thesis using mutex_release_nested [OF a av 2] x by (auto intro: kept_op)
  next
    case 3
    then show ?thesis using mutex_release_free [OF a av 3] x by (auto intro: kept_op)
  next
    case 4
    then show ?thesis using mutex_release_handover [OF a av 4] x by (auto intro: kept_op)
  qed
next
  case (5 cmd e)
  then show ?thesis using kept_refl invD(1-3) [OF inv] by (auto simp: rt_mutex_control_def elim!: bind_SomeE)
qed

inductive event_call :: "nat \<Rightarrow> 'z ipc_scheme \<Rightarrow> 'z ipc_scheme \<Rightarrow> bool" for i where
  "unused i s \<Longrightarrow> rt_event_init i flag s = Some (e, s') \<Longrightarrow> event_call i s s'"
| "unused i s \<Longrightarrow> rt_event_create (Some i) flag s = Some (ob, s') \<Longrightarrow> event_call i s s'"
| "rt_event_send i set1 s = Some (e, s') \<Longrightarrow> event_call i s s'"
| "runs s c th \<Longrightarrow> rt_event_recv i set1 option timeout s = Some (r, s') \<Longrightarrow> event_call i s s'"
| "rt_event_control i cmd s = Some (e, s') \<Longrightarrow> event_call i s s'"

lemma event_recv_any:
  assumes q: "kernel_quiet s" and o: "objs s i = Some (ClassEvent e)" and ok: "event_ok s i e" and r: "runs s c th"
    and x: "rt_event_recv i set1 option timeout s = Some (res, s')"
  shows "kept i s s'"
proof -
  note R = runsD [OF r]
  have av: "lock_nest s = 0" "int_nest s = 0"
    using x available_iff [of s] by (auto simp: rt_event_recv_def elim!: bind_SomeE)
  have leg: "event_match set1 option (ev_set e) \<noteq> None" if "set1 \<noteq> 0"
    using x o that by (auto simp: rt_event_recv_def get_event_def Let_def elim!: bind_SomeE)
  consider "set1 = 0" | "set1 \<noteq> 0" "event_match set1 option (ev_set e) = Some True"
    | "set1 \<noteq> 0" "event_match set1 option (ev_set e) = Some False" "timeout = 0"
    | "set1 \<noteq> 0" "event_match set1 option (ev_set e) = Some False" "timeout \<noteq> 0"
    using leg by (cases "event_match set1 option (ev_set e)") auto
  then show ?thesis
  proof cases
    case 1
    then have "s' = s" using x by (auto simp: rt_event_recv_def elim!: bind_SomeE)
    then show ?thesis using kept_refl [OF q] R(1) o ok by (simp add: obj_ok_def)
  next
    case 2
    then show ?thesis using event_recv_now(1) [OF q o ok r av 2, of timeout] event_recv_now(2) [OF q o ok r av 2] x
      by (auto intro: kept_op)
  next
    case 3
    then show ?thesis using event_recv_poll [OF q o ok r av 3(1,2)] x by (auto intro: kept_op)
  next
    case 4
    have a: "upd_thread c (\<lambda>th. th\<lparr>event_set := set1, event_info := option\<rparr>) (upd_thread c (\<lambda>th. th\<lparr>th_error := RT_EOK\<rparr>) s) =
        upd_thread c (asking set1 option) s" using asking_ok(1) [OF q r] .
    obtain s1 where "ipc_block (Suspend i) c (io_flag e) timeout (upd_thread c (asking set1 option) s) = Some s1"
      using x o 4 R av a
      by (cases "ipc_block (Suspend i) c (io_flag e) timeout (upd_thread c (asking set1 option) s)")
        (simp_all add: rt_event_recv_def get_event_def rt_thread_self_def Let_def)
    then have "time_ok timeout"
      by (rule block_time_ok [OF asking_ok(2,3) [OF q r], rotated 2]) (use ok in \<open>simp_all add: event_ok_def\<close>)
    then show ?thesis using event_recv_block [OF q o ok r av 4(1,2,3)] x by (auto intro: kept_op)
  qed
qed

lemma event_call_kept:
  assumes st: "event_call i s s'" and inv: "ipc_inv (cs, s)"
  shows "kept i s s'"
  using st
proof cases
  case (1 flag e)
  show ?thesis by (rule kept_op(3) [OF event_init_ok(1) [OF invD(1,2) [OF inv] unusedD [OF 1(1)] 1(2)]])
next
  case (2 flag ob)
  show ?thesis by (rule kept_op(3) [OF event_init_ok(2) [OF invD(1,2) [OF inv] unusedD [OF 2(1)] 2(2)]])
next
  case (3 set1 e)
  then obtain ev where g: "get_event i s = Some ev" by (auto simp: rt_event_send_def elim!: bind_SomeE)
  show ?thesis
  proof (cases "set1 = 0")
    case True
    then show ?thesis using 3 g kept_refl [OF invD(1-3) [OF inv]] by (simp add: rt_event_send_def)
  next
    case False
    then show ?thesis
      using event_send_ok [OF invD(1,2) [OF inv] g [unfolded get_event_iff] invD(8) [OF inv g] False] 3 by (auto intro: kept_op)
  qed
next
  case (4 c th set1 option timeout r)
  then obtain ev where g: "get_event i s = Some ev" by (auto simp: rt_event_recv_def elim!: bind_SomeE)
  show ?thesis by (rule event_recv_any [OF invD(1) [OF inv] g [unfolded get_event_iff] invD(8) [OF inv g] 4])
next
  case (5 cmd e)
  then obtain ev where g: "get_event i s = Some ev" by (auto simp: rt_event_control_def elim!: bind_SomeE)
  show ?thesis
    by (rule kept_op(3) [OF event_control_ok [OF invD(1,2) [OF inv] g [unfolded get_event_iff] invD(8) [OF inv g] 5]])
qed

text \<open>
  Mailboxes, and the creation of message queues: the memory of the pool is at least as large as asked for, and the
  blocked calls go on with any time left and any start tick.
\<close>

inductive mb_call :: "nat \<Rightarrow> 'z ipc_scheme \<Rightarrow> 'z ipc_scheme \<Rightarrow> bool" for i where
  "unused i s \<Longrightarrow> unat size1 \<le> length pool \<Longrightarrow> rt_mb_init i pool size1 flag s = Some (e, s') \<Longrightarrow> mb_call i s s'"
| "unused i s \<Longrightarrow> \<forall>k p. mem k = Some p \<longrightarrow> k \<le> length p \<Longrightarrow>
    rt_mb_create (Some i) mem size1 flag s = Some (ob, s') \<Longrightarrow> mb_call i s s'"
| "runs s c th \<Longrightarrow> rt_mb_send_wait i v timeout s = Some (r, s') \<Longrightarrow> mb_call i s s'"
| "runs s c th \<Longrightarrow> mb_send_resume i v timeout since s = Some (r, s') \<Longrightarrow> mb_call i s s'"
| "rt_mb_urgent i v s = Some (e, s') \<Longrightarrow> mb_call i s s'"
| "runs s c th \<Longrightarrow> rt_mb_recv i timeout s = Some (rv, s') \<Longrightarrow> mb_call i s s'"
| "runs s c th \<Longrightarrow> mb_recv_resume i timeout since s = Some (rv, s') \<Longrightarrow> mb_call i s s'"
| "rt_mb_control i cmd s = Some (e, s') \<Longrightarrow> mb_call i s s'"

lemma mb_send_loop_any:
  assumes q: "kernel_quiet s" and r: "runs s c th" and o: "objs s i = Some (ClassMailBox mb)" and ok: "mb_ok mb"
    and x: "mb_send_loop i v timeout s = Some (res, s')"
  shows "kept i s s'"
proof -
  note R = runsD [OF r]
  consider "mb_entry mb \<noteq> mb_size mb" | "mb_entry mb = mb_size mb" "timeout = 0" | "mb_entry mb = mb_size mb" "timeout \<noteq> 0" by blast
  then show ?thesis
  proof cases
    case 1
    then show ?thesis using mb_send_now [OF q _ o ok 1, of v timeout] R(1) x by (auto intro: kept_op)
  next
    case 2
    then have "s' = upd_thread c (\<lambda>th. th\<lparr>th_error := RT_EOK\<rparr>) s"
      using x o R by (simp add: mb_send_loop_def get_mb_def rt_thread_self_def)
    then show ?thesis using mb_op_error [OF q r o ok] by (auto intro: kept_op)
  next
    case 3
    let ?u = "upd_thread c (\<lambda>th. th\<lparr>th_error := RT_EOK\<rparr>) s"
    obtain s1 where "ipc_block (SuspendSender i) c (io_flag mb) timeout ?u = Some s1"
      using x o 3 R by (cases "ipc_block (SuspendSender i) c (io_flag mb) timeout ?u")
        (simp_all add: mb_send_loop_def get_mb_def rt_thread_self_def)
    then have "time_ok timeout" by (rule wait_time_ok [OF q r, rotated 2]) (use ok in \<open>simp_all add: mb_ok_def\<close>)
    then show ?thesis using mb_send_block [OF q r o ok 3, of v] x by (auto intro: kept_op)
  qed
qed

lemma mb_recv_loop_any:
  assumes q: "kernel_quiet s" and r: "runs s c th" and o: "objs s i = Some (ClassMailBox mb)" and ok: "mb_ok mb"
    and x: "mb_recv_loop i timeout s = Some (res, s')"
  shows "kept i s s'"
proof -
  note R = runsD [OF r]
  consider "mb_entry mb \<noteq> 0" | "mb_entry mb = 0" "timeout = 0" | "mb_entry mb = 0" "timeout \<noteq> 0" by blast
  then show ?thesis
  proof cases
    case 1
    then show ?thesis using mb_recv_now [OF q _ o ok 1, of timeout] R(1) x by (auto intro: kept_op)
  next
    case 2
    have "upd_thread c (\<lambda>th. th\<lparr>th_error := E_TIMEOUT\<rparr>) (upd_thread c (\<lambda>th. th\<lparr>th_error := RT_EOK\<rparr>) s) =
        upd_thread c (\<lambda>th. th\<lparr>th_error := E_TIMEOUT\<rparr>) s" using R(2) by (simp add: upd_thread_def)
    then have "s' = upd_thread c (\<lambda>th. th\<lparr>th_error := E_TIMEOUT\<rparr>) s"
      using 2 x o R by (simp add: mb_recv_loop_def get_mb_def rt_thread_self_def)
    then show ?thesis using mb_op_error [OF q r o ok] by (auto intro: kept_op)
  next
    case 3
    let ?u = "upd_thread c (\<lambda>th. th\<lparr>th_error := RT_EOK\<rparr>) s"
    obtain s1 where "ipc_block (Suspend i) c (io_flag mb) timeout ?u = Some s1"
      using x o 3 R by (cases "ipc_block (Suspend i) c (io_flag mb) timeout ?u")
        (simp_all add: mb_recv_loop_def get_mb_def rt_thread_self_def)
    then have "time_ok timeout" by (rule wait_time_ok [OF q r, rotated 2]) (use ok in \<open>simp_all add: mb_ok_def\<close>)
    then show ?thesis using mb_recv_block [OF q r o ok 3] x by (auto intro: kept_op)
  qed
qed

lemma mb_call_kept:
  assumes st: "mb_call i s s'" and inv: "ipc_inv (cs, s)"
  shows "kept i s s'"
  using st
proof cases
  case (1 size1 pool flag e)
  have "unat (ucast size1 :: u16) \<le> length pool"
    using 1(2) by (rule order_trans [rotated]) (simp add: unsigned_ucast_eq take_bit_eq_mod)
  then show ?thesis by (rule kept_op(4) [OF mb_init_ok(1) [OF invD(1,2) [OF inv] unusedD [OF 1(1)] _ 1(3)]])
next
  case (2 mem size1 flag ob)
  have mem: "k \<le> length p" if "mem k = Some p" for k p using 2(2) that by blast
  from mb_init_ok(2) [OF invD(1,2) [OF inv] unusedD [OF 2(1)] mem 2(3)] show ?thesis
    using kept_refl [OF invD(1-3) [OF inv]] by (auto intro: kept_op split: if_splits)
next
  case (3 c th v timeout r)
  then obtain mb where g: "get_mb i s = Some mb" by (auto simp: rt_mb_send_wait_def elim!: bind_SomeE)
  show ?thesis
  proof (cases "mb_entry mb = mb_size mb \<and> timeout = 0")
    case True
    then show ?thesis using 3(2) g kept_refl [OF invD(1-3) [OF inv]] by (auto simp: rt_mb_send_wait_def elim!: bind_SomeE)
  next
    case False
    then have "mb_send_loop i v timeout s = Some (r, s')" using 3(2) g by (auto simp: rt_mb_send_wait_def elim!: bind_SomeE)
    then show ?thesis by (rule mb_send_loop_any [OF invD(1) [OF inv] 3(1) g [unfolded get_mb_iff] invD(9) [OF inv g]])
  qed
next
  case (4 c th v timeout since r)
  show ?thesis
  proof (cases "th_error th = RT_EOK")
    case True
    then have l: "mb_send_loop i v (wait_left timeout (rt_tick_get s - since)) s = Some (r, s')"
      using 4 runsD [OF 4(1)] by (simp add: mb_send_resume_def rt_thread_self_def)
    then obtain mb where g: "get_mb i s = Some mb" by (auto simp: mb_send_loop_def elim!: bind_SomeE)
    show ?thesis by (rule mb_send_loop_any [OF invD(1) [OF inv] 4(1) g [unfolded get_mb_iff] invD(9) [OF inv g] l])
  next
    case False
    then show ?thesis using 4 runsD [OF 4(1)] kept_refl [OF invD(1-3) [OF inv]]
      by (simp add: mb_send_resume_def rt_thread_self_def)
  qed
next
  case (5 v e)
  then obtain mb where g: "get_mb i s = Some mb" by (auto simp: rt_mb_urgent_def elim!: bind_SomeE)
  show ?thesis
  proof (cases "mb_entry mb = mb_size mb")
    case True
    then show ?thesis using 5 g kept_refl [OF invD(1-3) [OF inv]] by (simp add: rt_mb_urgent_def)
  next
    case False
    then show ?thesis
      using mb_urgent_now [OF invD(1,2) [OF inv] g [unfolded get_mb_iff] invD(9) [OF inv g] False, of v] 5 by (auto intro: kept_op)
  qed
next
  case (6 c th timeout r)
  then obtain mb where g: "get_mb i s = Some mb" by (auto simp: rt_mb_recv_def elim!: bind_SomeE)
  show ?thesis
  proof (cases "mb_entry mb = 0 \<and> timeout = 0")
    case True
    then show ?thesis using 6(2) g kept_refl [OF invD(1-3) [OF inv]] by (auto simp: rt_mb_recv_def elim!: bind_SomeE)
  next
    case False
    then have "mb_recv_loop i timeout s = Some (r, s')" using 6(2) g by (auto simp: rt_mb_recv_def elim!: bind_SomeE)
    then show ?thesis by (rule mb_recv_loop_any [OF invD(1) [OF inv] 6(1) g [unfolded get_mb_iff] invD(9) [OF inv g]])
  qed
next
  case (7 c th timeout since r)
  show ?thesis
  proof (cases "th_error th = RT_EOK")
    case True
    then have l: "mb_recv_loop i (wait_left timeout (rt_tick_get s - since)) s = Some (r, s')"
      using 7 runsD [OF 7(1)] by (simp add: mb_recv_resume_def rt_thread_self_def)
    then obtain mb where g: "get_mb i s = Some mb" by (auto simp: mb_recv_loop_def elim!: bind_SomeE)
    show ?thesis by (rule mb_recv_loop_any [OF invD(1) [OF inv] 7(1) g [unfolded get_mb_iff] invD(9) [OF inv g] l])
  next
    case False
    then show ?thesis using 7 runsD [OF 7(1)] kept_refl [OF invD(1-3) [OF inv]]
      by (simp add: mb_recv_resume_def rt_thread_self_def)
  qed
next
  case (8 cmd e)
  then obtain mb where g: "get_mb i s = Some mb" by (auto simp: rt_mb_control_def elim!: bind_SomeE)
  show ?thesis
    using mb_control_ok [OF invD(1,2) [OF inv] g [unfolded get_mb_iff] invD(9) [OF inv g], of cmd] 8 by (auto intro: kept_op)
qed

inductive mq_new :: "nat \<Rightarrow> 'z ipc_scheme \<Rightarrow> 'z ipc_scheme \<Rightarrow> bool" for i where
  "unused i s \<Longrightarrow> unat pool_size \<le> length pool \<Longrightarrow> rt_mq_init i pool size1 pool_size flag s = Some (e, s') \<Longrightarrow> mq_new i s s'"
| "unused i s \<Longrightarrow> \<forall>k p. mem k = Some p \<longrightarrow> unat k \<le> length p \<Longrightarrow>
    rt_mq_create (Some i) mem size1 max1 flag s = Some (ob, s') \<Longrightarrow> mq_new i s s'"

lemma mq_op_kept: "mq_op i s s' \<Longrightarrow> mq_kept i Map.empty s s'"
  by (auto simp: mq_op_def mq_kept_def mq_ok_def mq_conc_inv_def)

lemma mq_new_kept:
  assumes st: "mq_new i s s'" and inv: "ipc_inv (cs, s)"
  shows "s' = s \<or> mq_kept i Map.empty s s'"
  using st
proof cases
  case (1 pool_size pool size1 flag e)
  show ?thesis by (rule disjI2 [OF mq_op_kept [OF mq_init_ok(1) [OF invD(1,2) [OF inv] unusedD [OF 1(1)] 1(2,3)]]])
next
  case (2 mem size1 max1 flag ob)
  have mem: "unat k \<le> length p" if "mem k = Some p" for k p using 2(2) that by blast
  from mq_init_ok(2) [OF invD(1,2) [OF inv] unusedD [OF 2(1)] mem 2(3)] show ?thesis
    using mq_op_kept [of i s s'] by (auto split: if_splits)
qed

text \<open>
  A pool is created with a size that fits 32 bits; only addresses of blocks are given back (a block that
  is not in use is refused).
\<close>

definition mp_step_size :: "u32 \<Rightarrow> nat" where
  "mp_step_size bsize = (unat bsize + 3) div 4 * 4 + 4"

inductive mp_call :: "nat \<Rightarrow> 'z ipc_scheme \<Rightarrow> 'z ipc_scheme \<Rightarrow> bool" for i where
  "unused i s \<Longrightarrow> unat size1 \<le> bytes \<Longrightarrow> bytes + mp_step_size bsize < 2 ^ 32 \<Longrightarrow>
    rt_mp_init i bytes junk size1 bsize s = Some (e, s') \<Longrightarrow> mp_call i s s'"
| "unused i s \<Longrightarrow> unat count * mp_step_size bsize < 2 ^ 32 \<Longrightarrow> \<forall>k p j. mem k = Some (p, j) \<longrightarrow> unat k \<le> p \<Longrightarrow>
    rt_mp_create (Some i) mem count bsize s = Some (ob, s') \<Longrightarrow> mp_call i s s'"
| "runs s c th \<Longrightarrow> rt_mp_alloc i time s = Some (r, s') \<Longrightarrow> mp_call i s s'"
| "runs s c th \<Longrightarrow> mp_alloc_resume i time since s = Some (r, s') \<Longrightarrow> mp_call i s s'"
| "get_mp i s = Some mp \<Longrightarrow> a \<in> mp_blocks mp \<Longrightarrow> rt_mp_free i (Some (a + 4)) s = Some s' \<Longrightarrow> mp_call i s s'"

lemma mp_alloc_loop_any:
  assumes q: "kernel_quiet s" and r: "runs s c th" and o: "objs s i = Some (ClassMemPool mp)" and ok: "mp_ok s i mp"
    and e: "mp_alloc_loop i time s = Some (res, s')"
  shows "kept i s s'"
proof -
  obtain f al where sh: "mp_shape i mp f al" and x: "lists s (SuspendSender i) = []" using ok by (auto simp: mp_ok_def)
  note R = runsD [OF r]
  show ?thesis
  proof (cases f)
    case (Cons a f')
    then show ?thesis using mp_alloc_now [OF q _ o x sh [unfolded Cons], of time] R(1) e by (auto intro: kept_op)
  next
    case Nil
    note sh = sh [unfolded Nil]
    have z: "block_free_count mp = 0" using shape_count(1) [OF sh] by simp
    show ?thesis
    proof (cases "time = 0")
      case True
      then show ?thesis using mp_alloc_poll [OF q r o x sh] e by (auto intro: kept_op)
    next
      case False
      have n: "int_nest s = 0"
        using e z o False
        by (auto simp: mp_alloc_loop_def get_mp_def debug_not_in_interrupt_def rt_interrupt_get_nest_def elim!: bind_SomeE)
      have "time_ok time" using mp_alloc_too_long [OF q r o sh n] e by fastforce
      then show ?thesis using mp_alloc_block [OF q r o x sh n False] e by (auto intro: kept_op)
    qed
  qed
qed

lemma mp_step_word: "mp_step_size bsize < 2 ^ 32 \<Longrightarrow> unat bsize + 8 \<le> 2 ^ 32"
proof -
  assume "mp_step_size bsize < 2 ^ 32"
  then have "(unat bsize + 3) div 4 * 4 + 4 < 4294967296" by (simp add: mp_step_size_def)
  then have "unat bsize + 8 \<le> 4294967296" by presburger
  then show ?thesis by simp
qed

lemma mp_call_kept:
  assumes st: "mp_call i s s'" and inv: "ipc_inv (cs, s)"
  shows "kept i s s'"
  using st
proof cases
  case (1 size1 bytes bsize junk e)
  have n: "0 < bsize" using 1(4) by (auto simp: rt_mp_init_def elim!: bind_SomeE)
  have b: "unat bsize + 8 \<le> 2 ^ 32" using 1(3) by (intro mp_step_word) simp
  have m: "bytes + (unat bsize + 3) div 4 * 4 < 2 ^ 32" using 1(3) by (simp add: mp_step_size_def)
  have "(unat bsize + 3) div 4 * 4 + 4 \<le> unat size1 div 4 * 4"
    using mp_init_too_small [OF n b _ m] 1(4) by (metis not_le option.distinct(1))
  from mp_init_ok [OF invD(1,2) [OF inv] unusedD [OF 1(1)] n b 1(2) this, of junk] 1(4) show ?thesis
    by (auto intro: kept_op)
next
  case (2 count bsize mem ob)
  have p: "0 < count" "0 < bsize" "int_nest s = 0"
    using 2(4) by (auto simp: rt_mp_create_def debug_not_in_interrupt_def rt_interrupt_get_nest_def elim!: bind_SomeE)
  have "1 \<le> unat count" using p(1) by (simp add: word_gt_0 Suc_le_eq word_unat_eq_iff)
  then have "mp_step_size bsize < 2 ^ 32" using 2(2) mult_le_mono1 [of 1 "unat count" "mp_step_size bsize"] by linarith
  note c = mp_create_ok [where mem = mem, OF invD(1,2) [OF inv] unusedD [OF 2(1)] p(3,1,2) mp_step_word [OF this]
      2(2) [unfolded mp_step_size_def] 2(3)]
  show ?thesis
    using c 2(4) kept_refl [OF invD(1-3) [OF inv]] by (auto intro: kept_op split: option.splits)
next
  case (3 c th time r)
  then obtain mp where g: "get_mp i s = Some mp" by (auto simp: rt_mp_alloc_def mp_alloc_loop_def elim!: bind_SomeE)
  show ?thesis
    by (rule mp_alloc_loop_any [OF invD(1) [OF inv] 3(1) g [unfolded get_mp_iff] invD(11) [OF inv g] 3(2) [unfolded rt_mp_alloc_def]])
next
  case (4 c th time since r)
  show ?thesis
  proof (cases "th_error th = RT_EOK")
    case True
    then have l: "mp_alloc_loop i (wait_left time (rt_tick_get s - since)) s = Some (r, s')"
      using 4 runsD [OF 4(1)] by (simp add: mp_alloc_resume_def rt_thread_self_def)
    then obtain mp where g: "get_mp i s = Some mp" by (auto simp: mp_alloc_loop_def elim!: bind_SomeE)
    show ?thesis by (rule mp_alloc_loop_any [OF invD(1) [OF inv] 4(1) g [unfolded get_mp_iff] invD(11) [OF inv g] l])
  next
    case False
    then show ?thesis using 4 runsD [OF 4(1)] kept_refl [OF invD(1-3) [OF inv]]
      by (simp add: mp_alloc_resume_def rt_thread_self_def)
  qed
next
  case (5 mp a)
  obtain f al where sh: "mp_shape i mp f al" "lists s (SuspendSender i) = []"
    using invD(11) [OF inv 5(1)] by (auto simp: mp_ok_def)
  have "a \<notin> set f"
    using return_free [OF sh(1), of a] 5(1,3) by (auto simp: rt_mp_free_def elim!: bind_SomeE)
  then have "a \<in> al" using sh(1) 5(2) by (auto simp: mp_shape_def)
  from mp_free_ok [OF invD(1,2) [OF inv] 5(1) [unfolded get_mp_iff] sh(2,1) this] 5(3) show ?thesis by (auto intro: kept_op)
qed

text \<open>
  Completions and data queues: there is no removal, the memory is set up again when no thread waits there. The
  array of a data queue has the length asked for, at most 32768 items.
\<close>

inductive completion_call :: "nat \<Rightarrow> 'z ipc_scheme \<Rightarrow> 'z ipc_scheme \<Rightarrow> bool" for i where
  "objs s i = None \<or> get_completion i s \<noteq> None \<Longrightarrow> lists s (Suspend i) = [] \<Longrightarrow> lists s (SuspendSender i) = [] \<Longrightarrow> completion_call i s (rt_completion_init i s)"
| "runs s c th \<Longrightarrow> rt_completion_wait i timeout s = Some (r, s') \<Longrightarrow> completion_call i s s'"
| "runs s c th \<Longrightarrow> completion_wait_resume i s = Some (e, s') \<Longrightarrow> completion_call i s s'"
| "rt_completion_done i s = Some s' \<Longrightarrow> completion_call i s s'"

lemma completion_wait_any:
  assumes q: "kernel_quiet s" and o: "objs s i = Some (StructCompletion cp)" and ok: "completion_ok s i cp" and r: "runs s c th"
    and x: "rt_completion_wait i timeout s = Some (res, s')"
  shows "kept i s s'"
proof -
  note R = runsD [OF r]
  have g: "get_completion i s = Some cp" using o by (simp add: get_completion_iff)
  consider "cp_flag cp = RT_COMPLETED" | "cp_flag cp \<noteq> RT_COMPLETED" "timeout = 0" | "cp_flag cp \<noteq> RT_COMPLETED" "timeout \<noteq> 0" by blast
  then show ?thesis
  proof cases
    case 1
    then have "s' = set_completion i RT_UNCOMPLETED s" using x g by (auto simp: rt_completion_wait_def elim!: bind_SomeE)
    then show ?thesis using completion_clear_ok [OF q _ ok] R(1) by (auto intro: kept_op)
  next
    case 2
    then have "s' = s" using x g by (auto simp: rt_completion_wait_def elim!: bind_SomeE)
    then show ?thesis using kept_refl [OF q] R(1) o ok by (simp add: obj_ok_def)
  next
    case 3
    have av: "lock_nest s = 0" "int_nest s = 0"
      using x 3(2) available_iff [of s] by (auto simp: rt_completion_wait_def elim!: bind_SomeE)
    have e: "lists s (Suspend i) = []" using x g 3(1) by (auto simp: rt_completion_wait_def elim!: bind_SomeE)
    let ?u = "upd_thread c (\<lambda>th. th\<lparr>th_error := RT_EOK\<rparr>) s"
    obtain s1 where "ipc_block (Suspend i) c RT_IPC_FLAG_FIFO timeout ?u = Some s1"
      using x g 3 R av e by (cases "ipc_block (Suspend i) c RT_IPC_FLAG_FIFO timeout ?u")
        (simp_all add: rt_completion_wait_def rt_thread_self_def)
    then have "time_ok timeout" by (rule wait_time_ok [OF q r, rotated 2]) simp_all
    then show ?thesis using completion_wait_block [OF q o ok r av 3(1) e 3(2)] x by (auto intro: kept_op)
  qed
qed

lemma completion_call_kept:
  assumes st: "completion_call i s s'" and inv: "ipc_inv (cs, s)"
  shows "kept i s s'"
  using st
proof cases
  case 1
  show ?thesis using completion_init_ok [OF invD(1,2) [OF inv] 1(3,4)] 1(1) by (auto intro: kept_op)
next
  case (2 c th timeout r)
  then obtain cp where g: "get_completion i s = Some cp" by (auto simp: rt_completion_wait_def elim!: bind_SomeE)
  show ?thesis by (rule completion_wait_any [OF invD(1) [OF inv] g [unfolded get_completion_iff] invD(12) [OF inv g] 2])
next
  case (3 c th e)
  then obtain cp where g: "get_completion i s = Some cp" "s' = set_completion i RT_UNCOMPLETED s"
    by (auto simp: completion_wait_resume_def elim!: bind_SomeE)
  show ?thesis using completion_clear_ok [OF invD(1,2) [OF inv] invD(12) [OF inv g(1)]] g(2) by (auto intro: kept_op)
next
  case 4
  then obtain cp where g: "get_completion i s = Some cp" by (auto simp: rt_completion_done_def elim!: bind_SomeE)
  show ?thesis
    using completion_done_ok [OF invD(1,2) [OF inv] g [unfolded get_completion_iff] invD(12) [OF inv g]] 4 by (auto intro: kept_op)
qed

inductive dq_call :: "nat \<Rightarrow> 'z ipc_scheme \<Rightarrow> 'z ipc_scheme \<Rightarrow> bool" for i where
  "objs s i = None \<or> get_dq i s \<noteq> None \<Longrightarrow> lists s (Suspend i) = [] \<Longrightarrow> lists s (SuspendSender i) = [] \<Longrightarrow> size1 \<le> 0x8000 \<Longrightarrow>
    \<forall>xs. mem (unat size1) = Some xs \<longrightarrow> length xs = unat size1 \<Longrightarrow>
    rt_data_queue_init i size1 lwm notify mem s = Some (e, s') \<Longrightarrow> dq_call i s s'"
| "runs s c th \<Longrightarrow> data_queue_push i it timeout s = Some (r, s') \<Longrightarrow> dq_call i s s'"
| "runs s c th \<Longrightarrow> dq_push_resume i it timeout s = Some (r, s') \<Longrightarrow> dq_call i s s'"
| "runs s c th \<Longrightarrow> data_queue_pop i timeout s = Some (v, s') \<Longrightarrow> dq_call i s s'"
| "runs s c th \<Longrightarrow> dq_pop_resume i timeout s = Some (v, s') \<Longrightarrow> dq_call i s s'"

lemma dq_push_loop_any:
  assumes q: "kernel_quiet s" and r: "runs s c th" and o: "objs s i = Some (StructDataQueue dq)" and ok: "dq_ok dq"
    and x: "dq_push_loop i it timeout s = Some (res, s')"
  shows "kept i s s'"
proof -
  note R = runsD [OF r]
  consider "\<not> is_full dq" | "is_full dq" "timeout = 0" | "is_full dq" "timeout \<noteq> 0" by blast
  then show ?thesis
  proof cases
    case 1
    then have "dq_items dq \<noteq> None" using x o by (auto simp: dq_push_loop_def get_dq_def data_queue_put_def elim!: bind_SomeE)
    then have "dq_inv dq" using ok by (auto simp: dq_ok_def)
    then show ?thesis using dq_push_now [OF q _ o _ 1, of it timeout] R(1) x by (auto intro: kept_op)
  next
    case 2
    then have "s' = s" using x o by (simp add: dq_push_loop_def get_dq_def)
    then show ?thesis using kept_refl [OF q] R(1) o ok by (simp add: obj_ok_def)
  next
    case 3
    let ?u = "upd_thread c (\<lambda>th. th\<lparr>th_error := RT_EOK\<rparr>) s"
    obtain s1 where "ipc_block (SuspendSender i) c RT_IPC_FLAG_FIFO timeout ?u = Some s1"
      using x o 3 R by (cases "ipc_block (SuspendSender i) c RT_IPC_FLAG_FIFO timeout ?u")
        (simp_all add: dq_push_loop_def get_dq_def rt_thread_self_def)
    then have "time_ok timeout" by (rule wait_time_ok [OF q r, rotated 2]) simp_all
    then show ?thesis using dq_push_block [OF q r o ok 3, of it] x by (auto intro: kept_op)
  qed
qed

lemma dq_pop_loop_any:
  assumes q: "kernel_quiet s" and r: "runs s c th" and o: "objs s i = Some (StructDataQueue dq)" and ok: "dq_ok dq"
    and x: "dq_pop_loop i timeout s = Some (res, s')"
  shows "kept i s s'"
proof -
  note R = runsD [OF r]
  consider "\<not> is_empty dq" | "is_empty dq" "timeout = 0" | "is_empty dq" "timeout \<noteq> 0" by blast
  then show ?thesis
  proof cases
    case 1
    then have "dq_items dq \<noteq> None" using x o by (auto simp: dq_pop_loop_def get_dq_def data_queue_get_def elim!: bind_SomeE)
    then have inv: "dq_inv dq" using ok by (auto simp: dq_ok_def)
    obtain it dq' where dq': "data_queue_get dq = Some (it, dq')" "dq_magic dq' = dq_magic dq"
      using data_queue_get_ok [OF inv 1] by blast
    have "dq_magic dq = DATAQUEUE_MAGIC"
      using x o 1 dq' by (auto simp: dq_pop_loop_def get_dq_def rt_data_queue_len_def checked_dq_def Let_def elim!: bind_SomeE)
    then show ?thesis using dq_pop_now [OF q _ o inv 1, of timeout] R(1) x by (auto intro: kept_op)
  next
    case 2
    then have "s' = s" using x o by (simp add: dq_pop_loop_def get_dq_def)
    then show ?thesis using kept_refl [OF q] R(1) o ok by (simp add: obj_ok_def)
  next
    case 3
    let ?u = "upd_thread c (\<lambda>th. th\<lparr>th_error := RT_EOK\<rparr>) s"
    obtain s1 where "ipc_block (Suspend i) c RT_IPC_FLAG_FIFO timeout ?u = Some s1"
      using x o 3 R by (cases "ipc_block (Suspend i) c RT_IPC_FLAG_FIFO timeout ?u")
        (simp_all add: dq_pop_loop_def get_dq_def rt_thread_self_def)
    then have "time_ok timeout" by (rule wait_time_ok [OF q r, rotated 2]) simp_all
    then show ?thesis using dq_pop_block [OF q r o ok 3] x by (auto intro: kept_op)
  qed
qed

lemma dq_call_kept:
  assumes st: "dq_call i s s'" and inv: "ipc_inv (cs, s)"
  shows "kept i s s'"
  using st
proof cases
  case (1 size1 mem lwm notify e)
  have z: "0 < size1" using 1(6) by (auto simp: rt_data_queue_init_def elim!: bind_SomeE)
  have m: "length xs = unat size1" if "mem (unat size1) = Some xs" for xs using 1(5) that by blast
  from m dq_init_ok [OF invD(1,2) [OF inv] 1(2,3) z 1(4), of mem lwm notify] 1(6) show ?thesis by (auto intro: kept_op)
next
  case (2 c th it timeout r)
  then obtain dq where g: "get_dq i s = Some dq" "dq_push_loop i it timeout s = Some (r, s')"
    by (auto simp: data_queue_push_def checked_dq_def elim!: bind_SomeE)
  show ?thesis by (rule dq_push_loop_any [OF invD(1) [OF inv] 2(1) g(1) [unfolded get_dq_iff] invD(13) [OF inv g(1)] g(2)])
next
  case (3 c th it timeout r)
  show ?thesis
  proof (cases "dq_push_loop i it timeout s = Some (r, s')")
    case True
    then obtain dq where g: "get_dq i s = Some dq" by (auto simp: dq_push_loop_def elim!: bind_SomeE)
    show ?thesis by (rule dq_push_loop_any [OF invD(1) [OF inv] 3(1) g [unfolded get_dq_iff] invD(13) [OF inv g] True])
  next
    case False
    then have "s' = s" using 3(2) by (auto simp: dq_push_resume_def elim!: bind_SomeE split: if_splits)
    then show ?thesis using kept_refl [OF invD(1-3) [OF inv]] by simp
  qed
next
  case (4 c th timeout v)
  then obtain dq where g: "get_dq i s = Some dq" "dq_pop_loop i timeout s = Some (v, s')"
    by (auto simp: data_queue_pop_def checked_dq_def elim!: bind_SomeE)
  show ?thesis by (rule dq_pop_loop_any [OF invD(1) [OF inv] 4(1) g(1) [unfolded get_dq_iff] invD(13) [OF inv g(1)] g(2)])
next
  case (5 c th timeout v)
  show ?thesis
  proof (cases "dq_pop_loop i timeout s = Some (v, s')")
    case True
    then obtain dq where g: "get_dq i s = Some dq" by (auto simp: dq_pop_loop_def elim!: bind_SomeE)
    show ?thesis by (rule dq_pop_loop_any [OF invD(1) [OF inv] 5(1) g [unfolded get_dq_iff] invD(13) [OF inv g] True])
  next
    case False
    then have "s' = s" using 5(2) by (auto simp: dq_pop_resume_def elim!: bind_SomeE split: if_splits)
    then show ?thesis using kept_refl [OF invD(1-3) [OF inv]] by simp
  qed
qed

section \<open>The system\<close>

text \<open>
  A step of the system is a thread operation or a tick, a section of a call, or a piece of a call that
  releases the waiters of an object. Calls in progress go on in any order. With the removal of a message queue the blocks of
  its pool are gone; a call that still copies one has no further step in the model, as its next access is to an
  object that does not exist.
\<close>

inductive ipc_step :: "calls \<times> 'z ipc_scheme \<Rightarrow> calls \<times> 'z ipc_scheme \<Rightarrow> bool" where
  of_thread: "thread_step s s' \<Longrightarrow> ipc_step (c, s) (c, s')"
| of_enter_critical: "ipc_step (c, s) (c, rt_enter_critical s)"
| of_exit_critical: "rt_exit_critical s = Some s' \<Longrightarrow> ipc_step (c, s) (c, s')"
| of_sem: "sem_call i s s' \<Longrightarrow> ipc_step (c, s) (c, s')"
| of_mutex: "mutex_call i s s' \<Longrightarrow> ipc_step (c, s) (c, s')"
| of_event: "event_call i s s' \<Longrightarrow> ipc_step (c, s) (c, s')"
| of_mb: "mb_call i s s' \<Longrightarrow> ipc_step (c, s) (c, s')"
| of_mp: "mp_call i s s' \<Longrightarrow> ipc_step (c, s) (c, s')"
| of_completion: "completion_call i s s' \<Longrightarrow> ipc_step (c, s) (c, s')"
| of_dq: "dq_call i s s' \<Longrightarrow> ipc_step (c, s) (c, s')"
| of_mq_new: "mq_new i s s' \<Longrightarrow> ipc_step (c, s) (c, s')"
| of_mq: "mq_section i (held c i, s) (h, s') \<Longrightarrow> ipc_step (c, s) (c\<lparr>held := (held c)(i := h)\<rparr>, s')"
| of_removal: "removal_begin i static s = Some pc \<Longrightarrow> ipc_step (c, s) (c\<lparr>releasing := (i, pc) # releasing c\<rparr>, s)"
| of_reset: "dq_reset_begin i e s = Some (pc, s') \<Longrightarrow> ipc_step (c, s) (c\<lparr>releasing := (i, pc) # releasing c\<rparr>, s')"
| of_release: "releasing c = ps @ (i, pc) # qs \<Longrightarrow> release_next i pc s = Some (pc', s') \<Longrightarrow>
    ipc_step (c, s) (c\<lparr>held := (if objs s' i = None then (held c)(i := Map.empty) else held c),
      releasing := ps @ (if pc' = Return then [] else [(i, pc')]) @ qs\<rparr>, s')"

text \<open>Calls of the other classes do not touch a mutex or a message queue.\<close>

lemma call_class:
  "sem_call i s s' \<Longrightarrow> get_mutex i s = None \<and> get_mq i s = None"
  "mutex_call i s s' \<Longrightarrow> get_mq i s = None"
  "event_call i s s' \<Longrightarrow> get_mutex i s = None \<and> get_mq i s = None"
  "mb_call i s s' \<Longrightarrow> s' = s \<or> get_mutex i s = None \<and> get_mq i s = None"
  "mp_call i s s' \<Longrightarrow> s' = s \<or> get_mutex i s = None \<and> get_mq i s = None"
  "completion_call i s s' \<Longrightarrow> get_mutex i s = None \<and> get_mq i s = None"
  "dq_call i s s' \<Longrightarrow> s' = s \<or> get_mutex i s = None \<and> get_mq i s = None"
  "mq_new i s s' \<Longrightarrow> get_mutex i s = None \<and> get_mq i s = None"
proof -
  note u = unusedD(1)
  show "sem_call i s s' \<Longrightarrow> get_mutex i s = None \<and> get_mq i s = None"
    by (erule sem_call.cases)
      (auto simp: rt_sem_take_def rt_sem_release_def rt_sem_control_def get_sem_iff get_mutex_def get_mq_def elim!: bind_SomeE
        dest!: u)
  show "mutex_call i s s' \<Longrightarrow> get_mq i s = None"
    by (erule mutex_call.cases)
      (auto simp: rt_mutex_take_def rt_mutex_release_def rt_mutex_control_def get_mutex_iff get_mq_def elim!: bind_SomeE
        dest!: u)
  show "event_call i s s' \<Longrightarrow> get_mutex i s = None \<and> get_mq i s = None"
    by (erule event_call.cases)
      (auto simp: rt_event_send_def rt_event_recv_def rt_event_control_def get_event_iff get_mutex_def get_mq_def
        elim!: bind_SomeE dest!: u)
  show "mb_call i s s' \<Longrightarrow> s' = s \<or> get_mutex i s = None \<and> get_mq i s = None"
    by (erule mb_call.cases)
      (auto simp: rt_mb_send_wait_def mb_send_resume_def rt_mb_urgent_def rt_mb_recv_def mb_recv_resume_def rt_mb_control_def
        mb_send_loop_def mb_recv_loop_def get_mb_iff get_mutex_def get_mq_def elim!: bind_SomeE dest!: u split: if_splits)
  show "mp_call i s s' \<Longrightarrow> s' = s \<or> get_mutex i s = None \<and> get_mq i s = None"
    by (erule mp_call.cases)
      (auto simp: rt_mp_alloc_def mp_alloc_resume_def mp_alloc_loop_def get_mp_iff get_mutex_def get_mq_def
        elim!: bind_SomeE dest!: u split: if_splits)
  show "completion_call i s s' \<Longrightarrow> get_mutex i s = None \<and> get_mq i s = None"
    by (erule completion_call.cases)
      (auto simp: rt_completion_wait_def completion_wait_resume_def rt_completion_done_def get_completion_iff get_mutex_def
        get_mq_def elim!: bind_SomeE)
  show "dq_call i s s' \<Longrightarrow> s' = s \<or> get_mutex i s = None \<and> get_mq i s = None"
    by (erule dq_call.cases)
      (auto simp: data_queue_push_def dq_push_resume_def data_queue_pop_def dq_pop_resume_def dq_push_loop_def dq_pop_loop_def
        checked_dq_def get_dq_iff get_mutex_def get_mq_def elim!: bind_SomeE split: if_splits)
  show "mq_new i s s' \<Longrightarrow> get_mutex i s = None \<and> get_mq i s = None"
    by (erule mq_new.cases) (auto simp: get_mutex_def get_mq_def dest!: u)
qed

text \<open>
  What a step does, for some object: it may change that object and its lists, and leaves it consistent; an address
  without an object gets no waiter by a step.
\<close>

definition step_ok :: "nat \<Rightarrow> calls \<Rightarrow> 'z ipc_scheme \<Rightarrow> calls \<Rightarrow> 'z ipc_scheme \<Rightarrow> bool" where
  "step_ok i c s c' s' \<longleftrightarrow> op_ok i s s' \<and> obj_ok s' i \<and> held_ok (held c' i) s' i \<and> calls_ok c' \<and>
     (\<forall>j. j \<noteq> i \<longrightarrow> held c' j = held c j) \<and> (objs s' i = None \<longrightarrow> fewer_waiters i s s')"

lemma held_ok_same: "objs s' i = objs s i \<Longrightarrow> held_ok h s' i = held_ok h s i"
  by (simp add: held_ok_def get_mq_def)

lemma kept_step:
  assumes "ipc_inv (c, s)" and "kept i s s'" and "s' = s \<or> get_mq i s = None"
  shows "step_ok i c s c s'"
proof (cases "s' = s")
  case True
  then show ?thesis using assms(1,2) invD(4,5) [OF assms(1)] by (simp add: step_ok_def kept_def)
next
  case False
  then have n: "objs s' i \<noteq> None" "get_mq i s' = None" "get_mq i s = None" using assms(2,3) by (simp_all add: kept_def)
  then have "held c i = Map.empty" using invD(5) [OF assms(1), of i] by (simp add: held_ok_def)
  then show ?thesis using assms(2) n invD(4) [OF assms(1)] by (auto simp: step_ok_def kept_def held_ok_def)
qed

lemma mq_kept_step:
  assumes "calls_ok c" and "mq_kept i h s s'"
  shows "step_ok i c s (c\<lparr>held := (held c)(i := h)\<rparr>) s'"
  using assms by (auto simp: step_ok_def mq_kept_def obj_ok_def held_ok_def get_mq_def calls_ok_def)

text \<open>A step that changes no object and adds no waiter.\<close>

lemma quiet_step:
  assumes inv: "ipc_inv (c, s)" and "op_ok i s s'" and f: "fewer_waiters i s s'" and o: "objs s' = objs s"
    and h: "held c' = held c" and c: "calls_ok c'"
  shows "step_ok i c s c' s'"
  using fewer_obj_ok [OF f _ invD(3) [OF inv]] held_ok_same [of s' i s "held c i"] invD(5) [OF inv, of i] assms
  by (simp add: step_ok_def)

lemma release_piece_step:
  assumes inv: "ipc_inv (c, s)" and r: "releasing c = ps @ (i, pc) # qs" and n: "release_next i pc s = Some (pc', s')"
  shows "step_ok i c s (c\<lparr>held := (if objs s' i = None then (held c)(i := Map.empty) else held c),
      releasing := ps @ (if pc' = Return then [] else [(i, pc')]) @ qs\<rparr>) s'"
    (is "step_ok i c s ?c s'")
proof -
  have l: "set (release_lists pc) \<subseteq> {Suspend i, SuspendSender i}" using invD(4) [OF inv] r by (auto simp: calls_ok_def)
  note k = release_next_ok [OF n invD(1,2) [OF inv] l]
  have cs: "calls_ok ?c" using invD(4) [OF inv] r k by (auto simp: calls_ok_def)
  consider "objs s' = objs s" | "objs s' i = None" "s' = drop_obj i s"
    | dq dq' where "objs s i = Some (StructDataQueue dq)" "objs s' i = Some (StructDataQueue dq')" "dq_ok dq \<longrightarrow> dq_ok dq'"
    using k by fastforce
  then show ?thesis
  proof cases
    case 1
    have "held ?c = held c" using 1 invD(5) [OF inv, of i] by (auto simp: held_ok_def get_mq_def fun_upd_idem)
    then show ?thesis using quiet_step [OF inv _ _ 1 _ cs] k by blast
  next
    case 2
    then show ?thesis using k cs by (simp add: step_ok_def obj_ok_def held_ok_def get_mq_def)
  next
    case 3
    then have "held c i = Map.empty" using invD(5) [OF inv, of i] by (simp add: held_ok_def get_mq_def)
    then show ?thesis using 3 invD(13) [OF inv, of i dq] k cs by (simp add: step_ok_def obj_ok_def held_ok_def get_mq_def get_dq_iff)
  qed
qed

lemma ipc_step_effect:
  assumes st: "ipc_step (c, s) (c', s')" and inv: "ipc_inv (c, s)"
  shows "\<exists>i. step_ok i c s c' s'"
  using st
proof cases
  case of_thread
  have q: "kernel_quiet s'" "cur s' \<noteq> None" using thread_step_quiet [OF of_thread(2) invD(1,2) [OF inv]] by simp_all
  have f: "wait_frame s s'" by (rule thread_step_wait [OF of_thread(2) invD(1,2) [OF inv]])
  have "op_ok 0 s s'" using q wait_other_frame [OF f] by (simp add: op_ok_def)
  moreover have "objs s' = objs s" using f by (intro more_objs) (simp add: wait_frame_def)
  ultimately show ?thesis using quiet_step [OF inv _ wait_fewer [OF f]] invD(4) [OF inv] of_thread(1) by blast
next
  case of_enter_critical
  have "op_ok 0 s s'" "fewer_waiters 0 s s'" "objs s' = objs s"
    using invD(1,2) [OF inv] of_enter_critical(2)
    by (auto simp: rt_enter_critical_def op_ok_def other_frame_def fewer_waiters_def)
  then show ?thesis using quiet_step [OF inv] invD(4) [OF inv] of_enter_critical(1) by blast
next
  case of_exit_critical
  have "op_ok 0 s s'" "fewer_waiters 0 s s'" "objs s' = objs s"
    using exit_critical_op [OF invD(1,2) [OF inv], of 0 s] of_exit_critical(2) fewer_waiters_same [of s' s 0]
    by (auto simp: wait_other_frame)
  then show ?thesis using quiet_step [OF inv] invD(4) [OF inv] of_exit_critical(1) by blast
next
  case (of_sem i)
  show ?thesis unfolding of_sem(1) by (rule exI, rule kept_step [OF inv sem_call_kept [OF of_sem(2) inv]]) (use call_class(1) [OF of_sem(2)] in auto)
next
  case (of_mutex i)
  show ?thesis unfolding of_mutex(1) by (rule exI, rule kept_step [OF inv mutex_call_kept [OF of_mutex(2) inv]]) (use call_class(2) [OF of_mutex(2)] in auto)
next
  case (of_event i)
  show ?thesis unfolding of_event(1) by (rule exI, rule kept_step [OF inv event_call_kept [OF of_event(2) inv]]) (use call_class(3) [OF of_event(2)] in auto)
next
  case (of_mb i)
  show ?thesis unfolding of_mb(1) by (rule exI, rule kept_step [OF inv mb_call_kept [OF of_mb(2) inv]]) (use call_class(4) [OF of_mb(2)] in auto)
next
  case (of_mp i)
  show ?thesis unfolding of_mp(1) by (rule exI, rule kept_step [OF inv mp_call_kept [OF of_mp(2) inv]]) (use call_class(5) [OF of_mp(2)] in auto)
next
  case (of_completion i)
  show ?thesis
    unfolding of_completion(1)
    by (rule exI, rule kept_step [OF inv completion_call_kept [OF of_completion(2) inv]]) (use call_class(6) [OF of_completion(2)] in auto)
next
  case (of_dq i)
  show ?thesis unfolding of_dq(1) by (rule exI, rule kept_step [OF inv dq_call_kept [OF of_dq(2) inv]]) (use call_class(7) [OF of_dq(2)] in auto)
next
  case (of_mq_new i)
  have h: "held c i = Map.empty" using invD(5) [OF inv, of i] call_class(8) [OF of_mq_new(2)] by (simp add: held_ok_def)
  from mq_new_kept [OF of_mq_new(2) inv] show ?thesis
  proof
    assume "s' = s"
    then show ?thesis using kept_step [OF inv kept_refl [OF invD(1-3) [OF inv]]] of_mq_new(1) by blast
  next
    assume "mq_kept i Map.empty s s'"
    then show ?thesis using mq_kept_step [OF invD(4) [OF inv]] h of_mq_new(1) by (metis calls.surjective calls.update_convs(1) fun_upd_idem)
  qed
next
  case (of_mq i h)
  obtain mq where mq: "get_mq i s = Some mq" using mq_section_queue [OF of_mq(2)] by blast
  have "mq_conc_inv (mq, held c i)" using invD(5) [OF inv, of i] mq by (simp add: held_ok_def)
  note k = mq_section_ok [OF of_mq(2) invD(1,2) [OF inv] mq invD(10) [OF inv mq] this]
  show ?thesis using mq_kept_step [OF invD(4) [OF inv] k] of_mq(1) by blast
next
  case (of_removal i static pc)
  then have "set (release_lists pc) \<subseteq> {Suspend i, SuspendSender i}"
    by (auto simp: removal_begin_def removal_lists_def elim!: bind_SomeE split: ipc_object.splits)
  then have "calls_ok c'" using invD(4) [OF inv] of_removal(1) by (simp add: calls_ok_def)
  then show ?thesis
    using quiet_step [OF inv op_ok_refl [OF invD(1,2) [OF inv]] fewer_waiters_refl(1) refl] of_removal(1,2)
    by (metis calls.select_convs(1) calls.surjective calls.update_convs(2))
next
  case (of_reset i e pc)
  obtain dq dq' where dq: "objs s i = Some (StructDataQueue dq)" "s' = put_obj i (StructDataQueue dq') s" "pc = Lock e"
      "dq' = dq\<lparr>get_index := 0, put_index := 0, is_empty := True, is_full := False\<rparr>"
    using of_reset(2) by (auto simp: dq_reset_begin_def checked_dq_def get_dq_iff elim!: bind_SomeE)
  have "dq_ok dq" using invD(13) [OF inv, of i dq] dq(1) by (simp add: get_dq_iff)
  then have "dq_ok dq'" using dq(4) by (auto simp: dq_ok_def dq_inv_def)
  then have "kept i s s'" using dq(2) invD(1,2) [OF inv] by (simp add: kept_def op_ok_def obj_ok_def get_mq_def)
  moreover have "get_mq i s = None" using dq(1) by (simp add: get_mq_def)
  ultimately have "step_ok i c s c s'" using kept_step [OF inv] by blast
  then have "step_ok i c s c' s'" using of_reset(1) dq(3) by (auto simp: step_ok_def calls_ok_def)
  then show ?thesis by blast
next
  case (of_release ps i pc qs pc')
  show ?thesis using release_piece_step [OF inv of_release(2,3)] of_release(1) by blast
qed

lemma ipc_step_inv:
  assumes "ipc_step x y" and "ipc_inv x"
  shows "ipc_inv y"
proof -
  obtain c s c' s' where xy: "x = (c, s)" "y = (c', s')" by (cases x; cases y)
  obtain i where st: "step_ok i c s c' s'" using ipc_step_effect assms xy by blast
  have f: "other_frame i s s'" using st by (simp add: step_ok_def op_ok_def)
  have "obj_ok s' j \<and> held_ok (held c' j) s' j" for j
  proof (cases "j = i")
    case True
    then show ?thesis using st by (simp add: step_ok_def)
  next
    case False
    note o = other_fewer [OF f False]
    have ok: "obj_ok s j" "held_ok (held c j) s j" using assms(2) xy by (simp_all add: ipc_inv_def)
    show ?thesis using fewer_obj_ok [OF o ok(1)] held_ok_same [OF o(2)] ok(2) st False by (simp add: step_ok_def)
  qed
  then show ?thesis using st xy by (simp add: ipc_inv_def step_ok_def op_ok_def)
qed

lemma ipc_steps_inv: "ipc_step\<^sup>*\<^sup>* x y \<Longrightarrow> ipc_inv x \<Longrightarrow> ipc_inv y"
  by (induction rule: rtranclp_induct) (auto simp: ipc_step_inv)

lemma mutex_take_owner:
  assumes inv: "ipc_inv (cs, s)" and o: "objs s i = Some (ClassMutex m)" and w: "owner m = Some t" and r: "runs s c th"
    and e: "rt_mutex_take i time s = Some (x, s')"
  shows "\<exists>m'. objs s' i = Some (ClassMutex m') \<and> owner m' = Some t"
proof -
  have ok: "mutex_ok s i m" using invD(7) [OF inv] o by (simp add: get_mutex_iff)
  have av: "lock_nest s = 0" "int_nest s = 0"
    using e available_iff [of s] by (auto simp: rt_mutex_take_def elim!: bind_SomeE)
  note a = invD(1) [OF inv] o ok r
  consider "t = c" | "t \<noteq> c" "time = 0" | "t \<noteq> c" "time \<noteq> 0" by blast
  then show ?thesis
  proof cases
    case 1
    then show ?thesis using mutex_take_again(1) [OF a av, of time] w e o by (auto split: if_splits)
  next
    case 2
    then show ?thesis using mutex_take_poll(1) [OF a av w] w e o by auto
  next
    case 3
    have tm: "time_ok time" "threads s t \<noteq> None" using mutex_take_time_ok [OF a e w 3] by simp_all
    then obtain oth where "threads s t = Some oth" by blast
    from mutex_take_block [OF a av w 3(1) this 3(2) tm(1)] e o w show ?thesis by auto
  qed
qed

lemma mutex_call_owner:
  assumes st: "mutex_call i s s'" and inv: "ipc_inv (cs, s)" and o: "objs s i = Some (ClassMutex m)" and w: "owner m = Some t"
    and o': "objs s' i = Some (ClassMutex m')" and n: "owner m' \<noteq> Some t"
  shows "\<exists>th. runs s t th"
  using st
proof cases
  case (1 flag e)
  then show ?thesis using o by (simp add: unused_def)
next
  case (2 flag ob)
  then show ?thesis using o by (simp add: unused_def)
next
  case (3 c th time r)
  then show ?thesis using mutex_take_owner [OF inv o w 3] o' n by auto
next
  case (4 c th e)
  show ?thesis
  proof (cases "c = t")
    case True
    then show ?thesis using 4(1) by blast
  next
    case False
    have ok: "mutex_ok s i m" using invD(7) [OF inv] o by (simp add: get_mutex_iff)
    have av: "int_nest s = 0"
      using 4(2) by (auto simp: rt_mutex_release_def debug_in_thread_context_def debug_not_in_interrupt_def
          rt_interrupt_get_nest_def elim!: bind_SomeE)
    have "owner m \<noteq> Some c" using w False by simp
    from mutex_release_foreign(1) [OF invD(1) [OF inv] o ok 4(1) av this] show ?thesis using 4(2) o o' w n by auto
  qed
next
  case (5 cmd e)
  then show ?thesis using o o' w n by (auto simp: rt_mutex_control_def elim!: bind_SomeE)
qed

text \<open>
  The calls of the theories of the objects, as one function, are runs of the system in which nothing comes between
  their sections.
\<close>

lemma return_run: "(release_step i)\<^sup>*\<^sup>* (Return, s) y \<Longrightarrow> y = (Return, s)"
  by (erule converse_rtranclpE) (simp_all add: release_step_def)

lemma release_is_run:
  assumes "(release_step i)\<^sup>*\<^sup>* x (Return, s')"
  shows "releasing c = x' # cs \<Longrightarrow> x' = (i, fst x) \<Longrightarrow> fst x \<noteq> Return \<Longrightarrow>
    \<exists>c'. ipc_step\<^sup>*\<^sup>* (c, snd x) (c', s') \<and> releasing c' = cs"
  using assms
proof (induction arbitrary: c x' rule: converse_rtranclp_induct)
  case (step x y)
  obtain pc s pc1 s1 where xy: "x = (pc, s)" "y = (pc1, s1)" by (cases x; cases y)
  let ?c = "c\<lparr>held := (if objs s1 i = None then (held c)(i := Map.empty) else held c),
    releasing := [] @ (if pc1 = Return then [] else [(i, pc1)]) @ cs\<rparr>"
  have "release_next i pc s = Some (pc1, s1)" using step.hyps(1) xy by (simp add: release_step_def)
  moreover have "releasing c = [] @ (i, pc) # cs" using step.prems xy by simp
  ultimately have st: "ipc_step (c, s) (?c, s1)" by (rule of_release [rotated])
  show ?case
  proof (cases "pc1 = Return")
    case True
    have "s' = s1" using return_run [of i s1 "(Return, s')"] step.hyps(2) xy True by simp
    then have "ipc_step\<^sup>*\<^sup>* (c, s) (?c, s')" using st by (intro r_into_rtranclp) simp
    then show ?thesis using xy True by (intro exI [of _ ?c]) simp
  next
    case False
    then have "\<exists>c'. ipc_step\<^sup>*\<^sup>* (?c, snd y) (c', s') \<and> releasing c' = cs"
      using xy by (intro step.IH [of ?c "(i, pc1)"]) simp_all
    then obtain c' where "ipc_step\<^sup>*\<^sup>* (?c, s1) (c', s')" "releasing c' = cs" using xy by (elim exE conjE) simp
    then have "ipc_step\<^sup>*\<^sup>* (c, s) (c', s')" by (intro converse_rtranclp_into_rtranclp [of ipc_step, OF st])
    then show ?thesis using \<open>releasing c' = cs\<close> xy by auto
  qed
qed simp

lemma removal_is_run:
  assumes "removal_begin i static s = Some pc" and "(release_step i)\<^sup>*\<^sup>* (pc, s) (Return, s')"
  shows "\<exists>c'. ipc_step\<^sup>*\<^sup>* (c, s) (c', s') \<and> releasing c' = releasing c"
proof -
  let ?c = "c\<lparr>releasing := (i, pc) # releasing c\<rparr>"
  have "pc \<noteq> Return" using assms(1) by (auto simp: removal_begin_def elim!: bind_SomeE)
  then have "\<exists>c'. ipc_step\<^sup>*\<^sup>* (?c, snd (pc, s)) (c', s') \<and> releasing c' = releasing c"
    by (intro release_is_run [OF assms(2), of ?c "(i, pc)"]) simp_all
  then obtain c' where "ipc_step\<^sup>*\<^sup>* (?c, s) (c', s')" "releasing c' = releasing c" by (elim exE conjE) simp
  then show ?thesis
    using converse_rtranclp_into_rtranclp [of ipc_step, OF of_removal [OF assms(1), of c]] by (intro exI [of _ c']) simp
qed

lemma mq_step_is_run:
  assumes "mq_section i (held c i, s) (h, s1)" and "\<exists>c'. ipc_step\<^sup>*\<^sup>* (c\<lparr>held := (held c)(i := h)\<rparr>, s1) (c', s')"
  shows "\<exists>c'. ipc_step\<^sup>*\<^sup>* (c, s) (c', s')"
proof -
  obtain c' where "ipc_step\<^sup>*\<^sup>* (c\<lparr>held := (held c)(i := h)\<rparr>, s1) (c', s')" using assms(2) by (elim exE)
  from converse_rtranclp_into_rtranclp [of ipc_step, OF of_mq [OF assms(1)] this] show ?thesis by (rule exI)
qed

lemma mq_send_is_run:
  assumes r: "runs s t th" and e: "rt_mq_send_wait i buffer size1 timeout s = Some (r, s')"
  shows "\<exists>c'. ipc_step\<^sup>*\<^sup>* (c, s) (c', s')"
proof -
  obtain mq where mq: "get_mq i s = Some mq" using e by (auto simp: rt_mq_send_wait_def elim!: bind_SomeE)
  have "s' = s \<or> ucast (msg_size mq) \<ge> size1 \<and> mq_send_loop i buffer size1 timeout s = Some (r, s')"
    using e mq by (auto simp: rt_mq_send_wait_def not_less elim!: bind_SomeE split: if_splits)
  then show ?thesis
  proof (elim disjE conjE)
    assume sz: "ucast (msg_size mq) \<ge> size1" and l: "mq_send_loop i buffer size1 timeout s = Some (r, s')"
    obtain x s1 where b: "mq_send_begin i timeout s = Some (x, s1)" using l by (auto simp: mq_send_loop_def elim!: bind_SomeE)
    show ?thesis
    proof (cases x)
      case (Inl res)
      have "s1 = s'" using Inl l b by (simp add: mq_send_loop_def)
      show ?thesis by (rule mq_step_is_run [OF send_no_room [OF r b [unfolded Inl]]]) (simp add: \<open>s1 = s'\<close>, rule exI, rule rtranclp.rtrancl_refl)
    next
      case (Inr m)
      then obtain s2 s3 e where n: "mq_send_clear i m s1 = Some s2" "mq_send_copy i m buffer size1 s2 = Some s3"
          "mq_send_end i m s3 = Some (e, s')"
        using l b by (auto simp: mq_send_loop_def elim!: bind_SomeE)
      have "\<exists>mq2. get_mq i s2 = Some mq2 \<and> msg_size mq2 = msg_size mq"
        using b n(1) mq Inr
        by (auto simp: mq_send_begin_def mq_send_clear_def mq_grab_def Let_def elim!: bind_SomeE split: if_splits option.splits)
      then obtain mq2 where mq2: "get_mq i s2 = Some mq2" "ucast (msg_size mq2) \<ge> size1" using sz by auto
      have 1: "mq_section i (h, s) (h(m \<mapsto> Grabbed), s1)" for h by (rule send_begin [OF r b [unfolded Inr]])
      have 2: "mq_section i (h(m \<mapsto> Grabbed), s1) (h(m \<mapsto> Cleared), s2)" for h
        using send_clear [OF _ n(1), of "h(m \<mapsto> Grabbed)"] by simp
      have 3: "mq_section i (h(m \<mapsto> Cleared), s2) (h(m \<mapsto> Cleared), s3)" for h
        by (rule send_copy [OF _ mq2 n(2)]) simp
      have 4: "mq_section i (h(m \<mapsto> Cleared), s3) (h(m := None), s')" for h
        using send_end [OF _ n(3), of "h(m \<mapsto> Cleared)"] by simp
      have refl: "\<exists>c'. ipc_step\<^sup>*\<^sup>* (c, s') (c', s')" for c by (rule exI, rule rtranclp.rtrancl_refl)
      have c4: "\<exists>c'. ipc_step\<^sup>*\<^sup>* (c\<lparr>held := (held c)(i := h(m \<mapsto> Cleared))\<rparr>, s3) (c', s')" for c h
        by (rule mq_step_is_run [where i = i, OF _ refl]) (use 4 [of h] in simp)
      have c3: "\<exists>c'. ipc_step\<^sup>*\<^sup>* (c\<lparr>held := (held c)(i := h(m \<mapsto> Cleared))\<rparr>, s2) (c', s')" for c h
        by (rule mq_step_is_run [where i = i, OF _ c4]) (use 3 [of h] in simp)
      have c2: "\<exists>c'. ipc_step\<^sup>*\<^sup>* (c\<lparr>held := (held c)(i := h(m \<mapsto> Grabbed))\<rparr>, s1) (c', s')" for c h
        by (rule mq_step_is_run [where i = i, OF _ c3]) (use 2 [of h] in simp)
      show ?thesis by (rule mq_step_is_run [OF 1 c2])
    qed
  next
    assume "s' = s"
    then show ?thesis by (intro exI [of _ c]) simp
  qed
qed

lemma mq_urgent_is_run:
  assumes e: "rt_mq_urgent i buffer size1 s = Some (r, s')"
  shows "\<exists>c'. ipc_step\<^sup>*\<^sup>* (c, s) (c', s')"
proof -
  have refl: "\<exists>c'. ipc_step\<^sup>*\<^sup>* (c, s') (c', s')" for c by (rule exI, rule rtranclp.rtrancl_refl)
  obtain mq where mq: "get_mq i s = Some mq" using e by (auto simp: rt_mq_urgent_def elim!: bind_SomeE)
  show ?thesis
  proof (cases "ucast (msg_size mq) < size1")
    case True
    then have "s' = s" using e mq by (auto simp: rt_mq_urgent_def elim!: bind_SomeE split: if_splits)
    then show ?thesis using refl by simp
  next
    case sz: False
    then obtain x s1 where b: "mq_urgent_begin i s = Some (x, s1)" using e mq by (auto simp: rt_mq_urgent_def elim!: bind_SomeE)
    show ?thesis
    proof (cases x)
      case None
      then have "s1 = s'" using e b mq sz by (auto simp: rt_mq_urgent_def elim!: bind_SomeE)
      show ?thesis
        by (rule mq_step_is_run [OF urgent_no_room [OF b [unfolded None]]]) (simp add: \<open>s1 = s'\<close>, rule exI, rule rtranclp.rtrancl_refl)
    next
      case (Some m)
      then obtain s2 where n: "mq_send_copy i m buffer size1 s1 = Some s2" "mq_urgent_end i m s2 = Some (r, s')"
        using e b mq sz by (auto simp: rt_mq_urgent_def elim!: bind_SomeE)
      have "\<exists>mq1. get_mq i s1 = Some mq1 \<and> msg_size mq1 = msg_size mq"
        using b mq Some by (auto simp: mq_urgent_begin_def mq_grab_def split: option.splits)
      then obtain mq1 where mq1: "get_mq i s1 = Some mq1" "ucast (msg_size mq1) \<ge> size1" using sz by auto
      have 1: "mq_section i (h, s) (h(m \<mapsto> Grabbed), s1)" for h by (rule urgent_begin [OF b [unfolded Some]])
      have 2: "mq_section i (h(m \<mapsto> Grabbed), s1) (h(m \<mapsto> Grabbed), s2)" for h by (rule send_copy [OF _ mq1 n(1)]) simp
      have 3: "mq_section i (h(m \<mapsto> Grabbed), s2) (h(m := None), s')" for h
        using urgent_end [OF _ n(2), of "h(m \<mapsto> Grabbed)"] by simp
      have c3: "\<exists>c'. ipc_step\<^sup>*\<^sup>* (c\<lparr>held := (held c)(i := h(m \<mapsto> Grabbed))\<rparr>, s2) (c', s')" for c h
        by (rule mq_step_is_run [where i = i, OF _ refl]) (use 3 [of h] in simp)
      have c2: "\<exists>c'. ipc_step\<^sup>*\<^sup>* (c\<lparr>held := (held c)(i := h(m \<mapsto> Grabbed))\<rparr>, s1) (c', s')" for c h
        by (rule mq_step_is_run [where i = i, OF _ c3]) (use 2 [of h] in simp)
      show ?thesis by (rule mq_step_is_run [OF 1 c2])
    qed
  qed
qed

lemma mq_recv_is_run:
  assumes r: "runs s t th" and e: "rt_mq_recv i size1 timeout s = Some (res, s')"
  shows "\<exists>c'. ipc_step\<^sup>*\<^sup>* (c, s) (c', s')"
proof -
  have refl: "\<exists>c'. ipc_step\<^sup>*\<^sup>* (c, s') (c', s')" for c by (rule exI, rule rtranclp.rtrancl_refl)
  have "s' = s \<or> mq_recv_loop i size1 timeout s = Some (res, s')"
    using e by (auto simp: rt_mq_recv_def elim!: bind_SomeE split: if_splits)
  then show ?thesis
  proof
    assume "s' = s"
    then show ?thesis using refl by simp
  next
    assume l: "mq_recv_loop i size1 timeout s = Some (res, s')"
    obtain x s1 where b: "mq_recv_begin i timeout s = Some (x, s1)" using l by (auto simp: mq_recv_loop_def elim!: bind_SomeE)
    show ?thesis
    proof (cases x)
      case (Inl y)
      have "s1 = s'" using Inl l b by (auto simp: mq_recv_loop_def split: call.splits)
      show ?thesis
        by (rule mq_step_is_run [OF recv_none [OF r b [unfolded Inl]]]) (simp add: \<open>s1 = s'\<close>, rule exI, rule rtranclp.rtrancl_refl)
    next
      case (Inr m)
      then have n: "mq_recv_end i m s1 = Some s'" using l b by (auto simp: mq_recv_loop_def Let_def elim!: bind_SomeE)
      have 1: "mq_section i (h, s) (h(m \<mapsto> Taken), s1)" for h by (rule recv_begin [OF r b [unfolded Inr]])
      have 2: "mq_section i (h(m \<mapsto> Taken), s1) (h(m := None), s')" for h using recv_end [OF _ n, of "h(m \<mapsto> Taken)"] by simp
      have c2: "\<exists>c'. ipc_step\<^sup>*\<^sup>* (c\<lparr>held := (held c)(i := h(m \<mapsto> Taken))\<rparr>, s1) (c', s')" for c h
        by (rule mq_step_is_run [where i = i, OF _ refl]) (use 2 [of h] in simp)
      show ?thesis by (rule mq_step_is_run [OF 1 c2])
    qed
  qed
qed

section \<open>Properties\<close>


lemma ex_ipc_inv: "ipc_inv (no_calls, ex_ipc)"
proof -
  have "obj_ok ex_ipc i \<and> get_mq i ex_ipc = None" for i
  proof -
    consider "i = 9" | "i = 10" | "i = 11" | "i = 12" | "i = 13" | "i \<noteq> 9" "i \<noteq> 10" "i \<noteq> 11" "i \<noteq> 12" "i \<noteq> 13"
      by blast
    then show ?thesis
    proof cases
      case 6
      then have "objs ex_ipc i = None" by (simp add: ex_objs_def)
      then show ?thesis by (simp add: obj_ok_def get_mq_def del: ex_ipc_sel(2,6))
    qed (use ex_ipc_objs ex_ipc_lists in \<open>simp_all add: obj_ok_def get_mq_def sem_ok_def mutex_ok_def event_ok_def flag_ok_def
      RT_IPC_FLAG_FIFO_def RT_IPC_FLAG_PRIO_def del: ex_ipc_sel(2,6)\<close>)
  qed
  then show ?thesis using ex_ipc_quiet by (simp add: ipc_inv_def no_calls_def calls_ok_def held_ok_def)
qed




text \<open>
  C2: A mutex is never taken away from its owner: in any step of the system that changes the owner of a
  mutex that has one, the owner itself is the running thread.
\<close>

theorem mutex_owner_safe:
  assumes "ipc_inv (c, s)" and "ipc_step (c, s) (c', s')" and "objs s i = Some (ClassMutex m)" and "owner m = Some t"
    and "objs s' i = Some (ClassMutex m')" and "owner m' \<noteq> Some t"
  shows "\<exists>th. runs s t th"
proof -
  have g: "get_mutex i s \<noteq> None" using assms(3) by (simp add: get_mutex_def)
  have same: False if "objs s' i = objs s i" using that assms(3-6) by auto
  have other: "j = i" if "op_ok j s s'" for j using that same unfolding op_ok_def other_frame_def by metis
  have call: False if k: "kept j s s'" and n: "s' = s \<or> get_mutex j s = None \<and> P" for j P
  proof -
    have "j = i" using other k by (simp add: kept_def)
    moreover have "s' \<noteq> s" using same by auto
    ultimately show False using n g by simp
  qed
  have frame: False if "\<forall>j. objs s' j = objs s j" using that same by simp
  from assms(2) show ?thesis
  proof cases
    case of_thread
    have "wait_frame s s'" using thread_step_wait [OF of_thread(2) invD(1,2) [OF assms(1)]] .
    then have "objs s' = objs s" by (intro more_objs) (simp add: wait_frame_def)
    then show ?thesis using frame by simp
  next
    case of_enter_critical
    then show ?thesis using frame by (simp add: rt_enter_critical_def)
  next
    case of_exit_critical
    then have "objs s' = objs s" using exit_critical_op [OF invD(1,2) [OF assms(1)], of 0 s] by (auto simp: wait_other_frame)
    then show ?thesis using frame by simp
  next
    case (of_sem j)
    then show ?thesis using call [OF sem_call_kept [OF of_sem(2) assms(1)]] call_class(1) [OF of_sem(2)] by blast
  next
    case (of_mutex j)
    have "op_ok j s s'" using mutex_call_kept [OF of_mutex(2) assms(1)] by (simp add: kept_def)
    then show ?thesis using other mutex_call_owner [OF _ assms(1,3-6)] of_mutex(2) by blast
  next
    case (of_event j)
    then show ?thesis using call [OF event_call_kept [OF of_event(2) assms(1)]] call_class(3) [OF of_event(2)] by blast
  next
    case (of_mb j)
    then show ?thesis using call [OF mb_call_kept [OF of_mb(2) assms(1)]] call_class(4) [OF of_mb(2)] by blast
  next
    case (of_mp j)
    then show ?thesis using call [OF mp_call_kept [OF of_mp(2) assms(1)]] call_class(5) [OF of_mp(2)] by blast
  next
    case (of_completion j)
    then show ?thesis using call [OF completion_call_kept [OF of_completion(2) assms(1)]] call_class(6) [OF of_completion(2)] by blast
  next
    case (of_dq j)
    then show ?thesis using call [OF dq_call_kept [OF of_dq(2) assms(1)]] call_class(7) [OF of_dq(2)] by blast
  next
    case (of_mq_new j)
    from mq_new_kept [OF of_mq_new(2) assms(1)] show ?thesis
      using other [of j] same g call_class(8) [OF of_mq_new(2)] by (auto simp: mq_kept_def)
  next
    case (of_mq j h)
    obtain mq where mq: "get_mq j s = Some mq" using mq_section_queue [OF of_mq(2)] by blast
    have "mq_conc_inv (mq, held c j)" using invD(5) [OF assms(1), of j] mq by (simp add: held_ok_def)
    from mq_section_ok [OF of_mq(2) invD(1,2) [OF assms(1)] mq invD(10) [OF assms(1) mq] this]
    show ?thesis using other [of j] assms(5) by (auto simp: mq_kept_def)
  next
    case of_removal
    then show ?thesis using frame by simp
  next
    case (of_reset j e pc)
    then show ?thesis using assms(3,5) same
      by (cases "j = i") (auto simp: dq_reset_begin_def checked_dq_def get_dq_iff elim!: bind_SomeE)
  next
    case (of_release ps j pc qs pc')
    have "set (release_lists pc) \<subseteq> {Suspend j, SuspendSender j}" using invD(4) [OF assms(1)] of_release(2) by (auto simp: calls_ok_def)
    from release_next_ok [OF of_release(3) invD(1,2) [OF assms(1)] this] show ?thesis
      using other [of j] frame assms(3,5) by auto
  qed
qed

theorem mutex_owner_safe_witness:
  "\<exists>s' m'. ipc_step (no_calls, put_obj 12 (ClassMutex \<lparr>io_static = True, io_flag = 1, mx_value = 0, original_priority = 5,
       hold = 1, owner = Some 1\<rparr>) ex_ipc) (no_calls, s') \<and> objs s' 12 = Some (ClassMutex m') \<and> owner m' = None \<and>
     (\<exists>th. runs (put_obj 12 (ClassMutex \<lparr>io_static = True, io_flag = 1, mx_value = 0, original_priority = 5,
       hold = 1, owner = Some 1\<rparr>) ex_ipc) 1 th)"
proof -
  let ?m = "\<lparr>io_static = True, io_flag = 1, mx_value = 0, original_priority = 5, hold = 1, owner = Some 1\<rparr> :: rt_mutex"
  let ?s = "put_obj 12 (ClassMutex ?m) ex_ipc"
  have ok: "mutex_ok ?s 12 ?m" "runs ?s 1 (ex_thread RT_THREAD_RUNNING 5)" "lists ?s (Suspend 12) = []"
    using ex_ipc_runs by (simp_all add: mutex_ok_def RT_IPC_FLAG_PRIO_def ex_ipc_lists runs_def del: ex_ipc_sel(2))
  have "obj_ok ?s j \<and> held_ok (held no_calls j) ?s j" for j
    using invD(3,5) [OF ex_ipc_inv, of j] ok(1)
    by (cases "j = 12") (auto simp: obj_ok_def held_ok_def get_mq_def no_calls_def sem_ok_def mutex_ok_def event_ok_def
        mp_ok_def completion_ok_def simp del: ex_ipc_sel(2,6) split: option.splits ipc_object.splits)
  then have inv: "ipc_inv (no_calls, ?s)" using invD(1,2,4) [OF ex_ipc_inv] by (simp add: ipc_inv_def)
  let ?s' = "put_obj 12 (ClassMutex (?m\<lparr>hold := 0, mx_value := 1, owner := None, original_priority := 0xff\<rparr>))
    (restored 1 (ex_thread RT_THREAD_RUNNING 5) 5 ?s)"
  have "rt_mutex_release 12 ?s = Some (RT_EOK, ?s')"
    using mutex_release_free(1) [OF invD(1) [OF inv] _ ok(1,2) _ _ _ ok(3)] by simp
  then have st: "ipc_step (no_calls, ?s) (no_calls, ?s')" by (intro of_mutex [where i = 12] mutex_call.intros(4) [OF ok(2)])
  have "\<exists>th. runs ?s 1 th"
    by (rule mutex_owner_safe [OF inv st, of 12 ?m 1 "?m\<lparr>hold := 0, mx_value := 1, owner := None, original_priority := 0xff\<rparr>"]) simp_all
  then show ?thesis using st by (intro exI [of _ ?s']) simp
qed







text \<open>
  C40: The removal of an object is not safe against preemption: once a \<open>rt_sem_detach\<close> or \<open>rt_sem_delete\<close> has found the
  list of waiters empty, a thread that runs before \<open>rt_object_detach\<close> can still wait on the semaphore; the
  removal then goes on, and the thread stays suspended on the list of a semaphore that no longer exists, where no
  release can reach it.
\<close>

theorem removal_strands_waiter:
  assumes "ipc_inv (c, s)" and "(i, Test [] Detach) \<in> set (releasing c)" and "objs s i = Some (ClassSemaphore sm)"
    and "sem_value sm = 0" and "runs s t th" and "lock_nest s = 0" and "int_nest s = 0" and "time \<noteq> 0" and "time_ok time"
  shows "\<exists>s1 c2. rt_sem_take i time s = Some (Blocked, s1) \<and> ipc_step (c, s) (c, s1) \<and> ipc_step (c, s1) (c2, drop_obj i s1) \<and>
    objs (drop_obj i s1) i = None \<and> t \<in> set (lists (drop_obj i s1) (Suspend i)) \<and>
    (\<exists>th'. threads (drop_obj i s1) t = Some th' \<and> stat th' = RT_THREAD_SUSPEND) \<and>
    rt_sem_release i (drop_obj i s1) = None"
proof -
  have "sem_ok s i sm" using invD(6) [OF assms(1)] assms(3) by (simp add: get_sem_iff)
  from sem_take_block [OF invD(1) [OF assms(1)] assms(3) this assms(5-7,4,8,9)] obtain s1 th' where
    s1: "rt_sem_take i time s = Some (Blocked, s1)" "lists s1 (Suspend i) = queued (io_flag sm) s t (current_priority th) (lists s (Suspend i))"
    "threads s1 t = Some th'" "stat th' = RT_THREAD_SUSPEND" by blast
  have take: "ipc_step (c, s) (c, s1)" by (rule of_sem [OF sem_call.intros(3) [OF assms(5) s1(1)]])
  obtain ps qs where r: "releasing c = ps @ (i, Test [] Detach) # qs" using assms(2) by (auto simp: in_set_conv_decomp)
  have "release_next i (Test [] Detach) s1 = Some (Return, drop_obj i s1)" by simp
  from of_release [OF r this] have drop: "\<exists>c2. ipc_step (c, s1) (c2, drop_obj i s1)" by (rule exI)
  have "rt_sem_release i (drop_obj i s1) = None" by (simp add: rt_sem_release_def get_sem_def)
  then show ?thesis using s1 take drop by auto
qed

text \<open>
  Thread 1 detaches semaphore 9, on which thread 5 waits; thread 5 is made ready with an error, the list is found
  empty, and thread 5, of a higher priority, takes the processor.
\<close>

lemma ex_preempted:
  "\<exists>s th. ipc_step\<^sup>*\<^sup>* (no_calls, ex_ipc) (no_calls\<lparr>releasing := [(9, Test [] Detach)]\<rparr>, s) \<and>
     objs s 9 = objs ex_ipc 9 \<and> runs s 5 th \<and> lock_nest s = 0 \<and> int_nest s = 0"
proof -
  let ?c = "\<lambda>pc. no_calls\<lparr>releasing := [(9, pc)]\<rparr>"
  have l: "lists ex_ipc (Suspend 9) = [5]" by (simp add: ex_ipc_lists del: ex_ipc_sel)
  obtain th w where w: "threads ex_ipc 5 = Some th" "ipc_resume_one (Suspend 9) ex_ipc = Some w" "kernel_quiet w"
      "w = woken 5 (th\<lparr>th_error := E_ERROR\<rparr>) (upd_thread 5 (\<lambda>th. th\<lparr>th_error := E_ERROR\<rparr>) ex_ipc)" "lists w (Suspend 9) = []"
    using resume_one_ok [OF ex_ipc_quiet _ l] by auto
  have th: "th = ex_thread RT_THREAD_SUSPEND 3" using w(1) by (simp add: ex_kernel_sel ex_sched_def)
  have ws: "cur w = Some 1" "threads w 1 = Some (ex_thread RT_THREAD_RUNNING 5)" "lock_nest w = 0" "int_nest w = 0" "objs w = objs ex_ipc"
    unfolding w(4) by (simp_all add: ex_kernel_sel ex_sched_def)
  have rd: "lists w (Ready p) = (if p = 3 then [5] else if p = 5 then [2, 3] else if p = 31 then [4] else [])" for p
    unfolding w(4) th
    by (simp add: woken_def waked_def tbl_insert_tail_def tbl_remove_def ex_kernel_sel ex_sched_def prio_of_def ex_thread_def)
  have ne: "lists w (Ready 3) \<noteq> []" using rd by simp
  have g: "ready_group w \<noteq> 0" using group_zero [OF sched_invD(2) [OF kernel_quietD(5) [OF w(3)]], of 3] ne by auto
  from schedule_cases [OF kernel_quietD(5) [OF w(3)] ws(1,2)] obtain to hp tth where
    hi: "threads w to = Some tth" "prio_of tth = hp" "hd (lists w (Ready hp)) = to" "lists w (Ready hp) \<noteq> []"
      "\<forall>p < hp. lists w (Ready p) = []"
      "rt_schedule w = Some (if keeps_cpu (ex_thread RT_THREAD_RUNNING 5) hp then upd_thread 1 (\<lambda>th. th\<lparr>stat_yield := False\<rparr>) w
                            else switched 1 (ex_thread RT_THREAD_RUNNING 5) to tth w)"
    using g ws(3) by auto
  have "\<not> 3 < hp" using hi(5) ne by blast
  then have hp: "hp = 3" using hi(4) rd [of hp] by (auto split: if_splits)
  then have to: "to = 5" using hi(3) rd [of 3] by simp
  let ?s = "switched 1 (ex_thread RT_THREAD_RUNNING 5) 5 tth w"
  have sch: "rt_schedule w = Some ?s" using hi(6) hp to by (simp add: keeps_cpu_def)
  have "runs ?s 5 (tth\<lparr>stat := RT_THREAD_RUNNING\<rparr>)" "lock_nest ?s = 0" "int_nest ?s = 0"
    using ws(3,4) by (simp_all add: runs_def switched_def readied_def unreadied_def Let_def)
  moreover have "objs ?s = objs ex_ipc" using ws(5) by (simp add: switched_def readied_def unreadied_def Let_def)
  moreover have "ipc_step\<^sup>*\<^sup>* (no_calls, ex_ipc) (?c (Test [] Detach), ?s)"
  proof -
    have o: "objs ex_ipc 9 \<noteq> None" "objs w 9 \<noteq> None" using ex_ipc_objs(1) ws(5) by simp_all
    have step: "ipc_step (?c pc, s) (?c pc', s')" if "release_next 9 pc s = Some (pc', s')" "pc' \<noteq> Return" "objs s' 9 \<noteq> None"
      for pc pc' and s s' :: ipc
      using of_release [where ps = "[]" and qs = "[]", OF _ that(1), of "?c pc"] that(2,3) by (simp add: no_calls_def)
    have "removal_begin 9 True ex_ipc = Some (Test [Suspend 9] Detach)"
      using ex_ipc_objs(1) by (simp add: removal_begin_def obj_static_def removal_lists_def)
    from of_removal [OF this, of no_calls] have 1: "ipc_step (no_calls, ex_ipc) (?c (Test [Suspend 9] Detach), ex_ipc)"
      by (simp add: no_calls_def)
    have 2: "ipc_step (?c (Test [Suspend 9] Detach), ex_ipc) (?c (Wake (Suspend 9) [] Detach), ex_ipc)"
      by (rule step) (use l o in simp_all)
    have 3: "ipc_step (?c (Wake (Suspend 9) [] Detach), ex_ipc) (?c (Test [Suspend 9] Detach), w)"
      by (rule step) (use w(2) o in simp_all)
    have 4: "ipc_step (?c (Test [Suspend 9] Detach), w) (?c (Test [] Detach), w)" by (rule step) (use w(5) o in simp_all)
    have 5: "ipc_step (?c (Test [] Detach), w) (?c (Test [] Detach), ?s)" by (rule of_thread [OF schedule [OF sch]])
    show ?thesis
      by (rule converse_rtranclp_into_rtranclp [OF 1 converse_rtranclp_into_rtranclp [OF 2 converse_rtranclp_into_rtranclp [OF 3
        converse_rtranclp_into_rtranclp [OF 4 r_into_rtranclp [of ipc_step, OF 5]]]]])
  qed
  ultimately show ?thesis by metis
qed

theorem removal_strands_waiter_witness:
  "\<exists>c s c2 s2. ipc_step\<^sup>*\<^sup>* (no_calls, ex_ipc) (c, s) \<and> ipc_step\<^sup>*\<^sup>* (c, s) (c2, s2) \<and> objs s2 9 = None \<and>
     5 \<in> set (lists s2 (Suspend 9)) \<and> rt_sem_release 9 s2 = None"
proof -
  let ?c = "no_calls\<lparr>releasing := [(9, Test [] Detach)]\<rparr>"
  obtain s th where s: "ipc_step\<^sup>*\<^sup>* (no_calls, ex_ipc) (?c, s)" "objs s 9 = objs ex_ipc 9" "runs s 5 th" "lock_nest s = 0" "int_nest s = 0"
    using ex_preempted by blast
  have m: "(9, Test [] Detach) \<in> set (releasing ?c)" by simp
  from removal_strands_waiter [OF ipc_steps_inv [OF s(1) ex_ipc_inv] m s(2) [unfolded ex_ipc_objs(1)] _ s(3-5), of "- 1"]
  obtain s1 c2 where r: "ipc_step (?c, s) (?c, s1)" "ipc_step (?c, s1) (c2, drop_obj 9 s1)" "objs (drop_obj 9 s1) 9 = None"
    "5 \<in> set (lists (drop_obj 9 s1) (Suspend 9))" "rt_sem_release 9 (drop_obj 9 s1) = None" by (auto simp: time_ok_def)
  have "ipc_step\<^sup>*\<^sup>* (?c, s) (c2, drop_obj 9 s1)" by (rule converse_rtranclp_into_rtranclp [OF r(1) r_into_rtranclp [of ipc_step, OF r(2)]])
  then show ?thesis using s(1) r(3-5) by (intro exI conjI)
qed

end
