(* ===== verification/Alloc.thy ===== *)
theory Alloc
  imports Main
begin

text \<open>
  The contract of an allocator: the blocks in use lie inside its memory and apart from each other, an
  allocation adds one that is large enough, a release takes one away. The lemmas follow a client
  through any sequence of allocations and releases.
\<close>

text \<open>
  A step of a client that holds the blocks \<open>h\<close>, each an address and the bytes asked for; \<open>need r\<close> are the
  bytes that the request \<open>r\<close> asks for.
\<close>

inductive heap_step :: "('r \<Rightarrow> 's \<Rightarrow> (nat option \<times> 's) option) \<Rightarrow> (nat \<Rightarrow> 's \<Rightarrow> 's option) \<Rightarrow> ('r \<Rightarrow> nat) \<Rightarrow>
    's \<times> (nat \<times> nat) set \<Rightarrow> 's \<times> (nat \<times> nat) set \<Rightarrow> bool" for alloc release need where
  got: "alloc r s = Some (Some a, s') \<Longrightarrow> heap_step alloc release need (s, h) (s', insert (a, need r) h)"
| failed: "alloc r s = Some (None, s') \<Longrightarrow> heap_step alloc release need (s, h) (s', h)"
| gave: "(a, n) \<in> h \<Longrightarrow> release a s = Some s' \<Longrightarrow> heap_step alloc release need (s, h) (s', h - {(a, n)})"

inductive_cases heap_stepE: "heap_step alloc release need (s, h) z"

text \<open>Each held block is a block in use, long enough, and no block in use is held by nobody.\<close>

definition holds :: "(nat \<times> nat) set \<Rightarrow> (nat \<times> nat) set \<Rightarrow> bool" where
  "holds h lv \<longleftrightarrow> inj_on fst h \<and> inj_on fst lv \<and> fst ` h = fst ` lv \<and>
     (\<forall>a n k. (a, n) \<in> h \<longrightarrow> (a, k) \<in> lv \<longrightarrow> n \<le> k)"

lemma holds_empty [simp]: "holds {} {}"
  by (simp add: holds_def)

lemma holds_insert:
  assumes "holds h lv" and "\<forall>k. (a, k) \<notin> lv" and "n \<le> k"
  shows "holds (insert (a, n) h) (insert (a, k) lv)"
proof -
  have "a \<notin> fst ` lv" using assms(2) by force
  moreover from this have "a \<notin> fst ` h" using assms(1) by (simp add: holds_def)
  ultimately have "(a, x) \<notin> h" "(a, x) \<notin> lv" for x by force+
  then show ?thesis using assms(1,3) unfolding holds_def by (auto simp: inj_on_insert)
qed

lemma holds_remove:
  assumes h: "holds h lv" and a: "(a, n) \<in> h" and k: "(a, k) \<in> lv"
  shows "holds (h - {(a, n)}) (lv - {(a, k)})"
proof -
  have i: "inj_on fst h" "inj_on fst lv" using h by (simp_all add: holds_def)
  have "fst ` (h - {(a, n)}) = fst ` h - {a}" using a by (subst inj_on_image_set_diff [OF i(1)]) auto
  moreover have "fst ` (lv - {(a, k)}) = fst ` lv - {a}" using k by (subst inj_on_image_set_diff [OF i(2)]) auto
  moreover have "inj_on fst (h - {(a, n)})" "inj_on fst (lv - {(a, k)})" using i by (auto intro: inj_on_subset)
  ultimately show ?thesis using h unfolding holds_def by auto
qed

locale allocator =
  fixes inv :: "'s \<Rightarrow> bool" and live :: "'s \<Rightarrow> (nat \<times> nat) set" and room :: "'s \<Rightarrow> nat set"
    and alloc :: "'r \<Rightarrow> 's \<Rightarrow> (nat option \<times> 's) option" and release :: "nat \<Rightarrow> 's \<Rightarrow> 's option"
    and need :: "'r \<Rightarrow> nat"
  assumes live_room: "inv s \<Longrightarrow> (a, n) \<in> live s \<Longrightarrow> {a..<a + n} \<subseteq> room s"
    and live_apart: "inv s \<Longrightarrow> (a, n) \<in> live s \<Longrightarrow> (b, k) \<in> live s \<Longrightarrow> (a, n) \<noteq> (b, k) \<Longrightarrow> a \<noteq> b \<and> (a + n \<le> b \<or> b + k \<le> a)"
    and alloc_some: "inv s \<Longrightarrow> alloc r s = Some (Some a, s') \<Longrightarrow>
      inv s' \<and> room s' = room s \<and> (\<forall>k. (a, k) \<notin> live s) \<and> (\<exists>n \<ge> need r. live s' = insert (a, n) (live s))"
    and alloc_none: "inv s \<Longrightarrow> alloc r s = Some (None, s') \<Longrightarrow> inv s' \<and> room s' = room s \<and> live s' = live s"
    and release_live: "inv s \<Longrightarrow> (a, n) \<in> live s \<Longrightarrow>
      \<exists>s'. release a s = Some s' \<and> inv s' \<and> room s' = room s \<and> live s' = live s - {(a, n)}"
begin

lemma live_inj: "inv s \<Longrightarrow> inj_on fst (live s)"
  using live_apart by (fastforce simp: inj_on_def)

lemma step_holds:
  assumes st: "heap_step alloc release need (s, h) (s', h')" and i: "inv s" and h: "holds h (live s)"
  shows "inv s' \<and> room s' = room s \<and> holds h' (live s')"
  using st
proof (rule heap_stepE)
  fix r a t assume 1: "(s', h') = (t, insert (a, need r) h)" "alloc r s = Some (Some a, t)"
  then show ?thesis using alloc_some [OF i 1(2)] holds_insert [OF h] by auto
next
  fix r t assume 1: "(s', h') = (t, h)" "alloc r s = Some (None, t)"
  then show ?thesis using alloc_none [OF i 1(2)] h by auto
next
  fix a n t assume 1: "(s', h') = (t, h - {(a, n)})" "(a, n) \<in> h" "release a s = Some t"
  have "a \<in> fst ` live s" using h 1(2) by (force simp: holds_def)
  then obtain k where k: "(a, k) \<in> live s" by auto
  then show ?thesis using release_live [OF i k] 1 holds_remove [OF h 1(2) k] by auto
qed

lemma steps_holds:
  assumes "(heap_step alloc release need)\<^sup>*\<^sup>* (s, h) (s', h')" and "inv s" and "holds h (live s)"
  shows "inv s' \<and> room s' = room s \<and> holds h' (live s')"
  using assms(1)
proof (induction "(s', h')" arbitrary: s' h' rule: rtranclp_induct)
  case base
  then show ?case using assms(2,3) by simp
next
  case (step y)
  obtain t g where y: "y = (t, g)" by (cases y)
  then show ?case using step_holds [OF step.hyps(2) [unfolded y]] step.hyps(3) [OF y] by simp
qed

text \<open>What a client may rely on.\<close>

lemma run_safe:
  assumes st: "(heap_step alloc release need)\<^sup>*\<^sup>* (s, {}) (s', h)" and i: "inv s" "live s = {}"
  shows "\<forall>(a, n) \<in> h. {a..<a + n} \<subseteq> room s"
    "\<forall>(a, n) \<in> h. \<forall>(b, k) \<in> h. (a, n) \<noteq> (b, k) \<longrightarrow> a + n \<le> b \<or> b + k \<le> a"
    "\<forall>(a, n) \<in> h. \<exists>s''. release a s' = Some s''" "h = {} \<Longrightarrow> live s' = {}"
proof -
  have H: "inv s'" "room s' = room s" "holds h (live s')" using steps_holds [OF st i(1)] i(2) by simp_all
  have lv: "\<exists>m \<ge> n. (a, m) \<in> live s'" if "(a, n) \<in> h" for a n
  proof -
    have "a \<in> fst ` live s'" using that H(3) by (force simp: holds_def)
    then show ?thesis using that H(3) unfolding holds_def by fastforce
  qed
  have "{a..<a + n} \<subseteq> room s" if "(a, n) \<in> h" for a n
  proof -
    from lv [OF that] obtain m where "n \<le> m" "(a, m) \<in> live s'" by blast
    then have "{a..<a + n} \<subseteq> {a..<a + m}" "{a..<a + m} \<subseteq> room s" using live_room [OF H(1)] H(2) by auto
    then show ?thesis by (rule subset_trans)
  qed
  then show "\<forall>(a, n) \<in> h. {a..<a + n} \<subseteq> room s" by blast
  have "a + n \<le> b \<or> b + k \<le> a" if "(a, n) \<in> h" "(b, k) \<in> h" "(a, n) \<noteq> (b, k)" for a n b k
  proof -
    from lv [OF that(1)] lv [OF that(2)] obtain n' k' where
      l: "(a, n') \<in> live s'" "n \<le> n'" "(b, k') \<in> live s'" "k \<le> k'" by blast
    have "inj_on fst h" using H(3) by (simp add: holds_def)
    then have "a \<noteq> b" using that unfolding inj_on_def by (metis fst_conv)
    then show ?thesis using live_apart [OF H(1) l(1,3)] l(2,4) by fastforce
  qed
  then show "\<forall>(a, n) \<in> h. \<forall>(b, k) \<in> h. (a, n) \<noteq> (b, k) \<longrightarrow> a + n \<le> b \<or> b + k \<le> a" by blast
  show "\<forall>(a, n) \<in> h. \<exists>s''. release a s' = Some s''" using lv release_live [OF H(1)] by fast
  show "h = {} \<Longrightarrow> live s' = {}" using H(3) by (auto simp: holds_def)
qed

end

end
