(* ===== verification/SmallMem.thy ===== *)
theory SmallMem
  imports Prelude Alloc
begin

text \<open>
  The small memory allocator (rt-thread/src/mem.c), which is the heap of this build. The memory is cut
  into items, each a header and the bytes behind it; a header names the pool it belongs to, with the
  lowest bit set while the item is in use, and the offsets of the next and the previous item. A pointer
  into the memory is represented by its offset from \<open>heap_ptr\<close>, an address by a word.
\<close>

section \<open>Data\<close>

record rt_small_mem_item =
  pool_ptr :: u32
  it_next :: u32
  it_prev :: u32

text \<open>
  \<open>sm_address\<close> is the address of the structure itself, \<open>sm_item\<close> the headers by offset, \<open>sm_byte\<close> the
  bytes of the items by offset.
\<close>

record rt_small_mem =
  sm_address :: u32
  sm_total :: u32
  sm_used :: u32
  sm_max :: u32
  heap_ptr :: u32
  heap_end :: u32
  lfree :: u32
  mem_size_aligned :: u32
  sm_item :: "nat \<Rightarrow> rt_small_mem_item"
  sm_byte :: "nat \<Rightarrow> u8"

definition MIN_SIZE :: u32 where "MIN_SIZE = 12"
definition MEM_MASK :: u32 where "MEM_MASK = 0xfffffffe"
definition MIN_SIZE_ALIGNED :: u32 where "MIN_SIZE_ALIGNED = RT_ALIGN MIN_SIZE 4"
definition SIZEOF_STRUCT_MEM :: u32 where "SIZEOF_STRUCT_MEM = RT_ALIGN 12 4"

definition MEM_USED :: "rt_small_mem \<Rightarrow> u32" where
  "MEM_USED m = (sm_address m AND MEM_MASK) OR 1"

definition MEM_FREED :: "rt_small_mem \<Rightarrow> u32" where
  "MEM_FREED m = (sm_address m AND MEM_MASK) OR 0"

definition MEM_ISUSED :: "rt_small_mem_item \<Rightarrow> bool" where
  "MEM_ISUSED it \<longleftrightarrow> pool_ptr it AND NOT MEM_MASK \<noteq> 0"

definition MEM_POOL :: "rt_small_mem_item \<Rightarrow> u32" where
  "MEM_POOL it = pool_ptr it AND MEM_MASK"

text \<open>Access to a header; \<open>None\<close> behind the item that ends the heap.\<close>

definition item_at :: "u32 \<Rightarrow> rt_small_mem \<Rightarrow> rt_small_mem_item option" where
  "item_at p m = (if unat p \<le> unat (mem_size_aligned m) + 12 then Some (sm_item m (unat p)) else None)"

definition set_item :: "u32 \<Rightarrow> (rt_small_mem_item \<Rightarrow> rt_small_mem_item) \<Rightarrow> rt_small_mem \<Rightarrow> rt_small_mem option" where
  "set_item p f m = map_option (\<lambda>it. m\<lparr>sm_item := (sm_item m)(unat p := f it)\<rparr>) (item_at p m)"

section \<open>Operations\<close>

definition plug_next :: "u32 \<Rightarrow> rt_small_mem \<Rightarrow> rt_small_mem option" where
  "plug_next mem m = do {
     it \<leftarrow> item_at mem m;
     let nmem = it_next it;
     nit \<leftarrow> item_at nmem m;
     (if mem \<noteq> nmem \<and> \<not> MEM_ISUSED nit \<and> nmem \<noteq> heap_end m
      then do {
        let m = (if lfree m = nmem then m\<lparr>lfree := mem\<rparr> else m);
        m \<leftarrow> set_item nmem (\<lambda>i. i\<lparr>pool_ptr := 0\<rparr>) m;
        m \<leftarrow> set_item mem (\<lambda>i. i\<lparr>it_next := it_next nit\<rparr>) m;
        set_item (it_next nit) (\<lambda>i. i\<lparr>it_prev := mem\<rparr>) m }
      else Some m) }"

definition plug_prev :: "u32 \<Rightarrow> rt_small_mem \<Rightarrow> rt_small_mem option" where
  "plug_prev mem m = do {
     it \<leftarrow> item_at mem m;
     let pmem = it_prev it;
     pit \<leftarrow> item_at pmem m;
     (if pmem \<noteq> mem \<and> \<not> MEM_ISUSED pit
      then do {
        let m = (if lfree m = mem then m\<lparr>lfree := pmem\<rparr> else m);
        m \<leftarrow> set_item mem (\<lambda>i. i\<lparr>pool_ptr := 0\<rparr>) m;
        m \<leftarrow> set_item pmem (\<lambda>i. i\<lparr>it_next := it_next it\<rparr>) m;
        set_item (it_next it) (\<lambda>i. i\<lparr>it_prev := pmem\<rparr>) m }
      else Some m) }"

definition plug_holes :: "u32 \<Rightarrow> rt_small_mem \<Rightarrow> rt_small_mem option" where
  "plug_holes mem m = do {
     rt_assert (mem < heap_end m);
     m \<leftarrow> plug_next mem m;
     plug_prev mem m }"

text \<open>\<open>junk\<close> and \<open>bytes\<close> are what the memory holds; the structure itself takes 56 bytes at its beginning.\<close>

definition sizeof_small_mem :: u32 where "sizeof_small_mem = 56"

definition rt_smem_init :: "u32 \<Rightarrow> u32 \<Rightarrow> (nat \<Rightarrow> rt_small_mem_item) \<Rightarrow> (nat \<Rightarrow> u8) \<Rightarrow> rt_small_mem option" where
  "rt_smem_init begin_addr size1 junk bytes =
    (let small_mem = RT_ALIGN begin_addr 4;
         start_addr = small_mem + sizeof_small_mem;
         begin_align = RT_ALIGN start_addr 4;
         end_align = RT_ALIGN_DOWN (begin_addr + size1) 4
     in if 2 * SIZEOF_STRUCT_MEM < end_align \<and> start_addr \<le> end_align - 2 * SIZEOF_STRUCT_MEM
        then let mem_size = end_align - begin_align - 2 * SIZEOF_STRUCT_MEM;
                 e = mem_size + SIZEOF_STRUCT_MEM;
                 m = \<lparr>sm_address = small_mem, sm_total = mem_size, sm_used = 0, sm_max = 0, heap_ptr = begin_align,
                      heap_end = e, lfree = 0, mem_size_aligned = mem_size, sm_item = junk, sm_byte = bytes\<rparr>
             in Some (m\<lparr>sm_item := junk(0 := \<lparr>pool_ptr = MEM_FREED m, it_next = e, it_prev = 0\<rparr>,
                                       unat e := \<lparr>pool_ptr = MEM_USED m, it_next = e, it_prev = e\<rparr>)\<rparr>)
        else None)"

text \<open>The first item from \<open>ptr\<close> on that is free and large enough; \<open>None\<close> also stands for a search that never ends.\<close>

partial_function (option) smem_find :: "rt_small_mem \<Rightarrow> u32 \<Rightarrow> u32 \<Rightarrow> u32 option option" where
  "smem_find m size1 ptr =
    (if ptr \<le> mem_size_aligned m - size1
     then do {
       mem \<leftarrow> item_at ptr m;
       (if \<not> MEM_ISUSED mem \<and> size1 \<le> it_next mem - (ptr + SIZEOF_STRUCT_MEM)
        then Some (Some ptr)
        else smem_find m size1 (it_next mem)) }
     else Some None)"

definition count_used :: "u32 \<Rightarrow> rt_small_mem \<Rightarrow> rt_small_mem" where
  "count_used n m = (let m = m\<lparr>sm_used := sm_used m + n\<rparr> in if sm_max m < sm_used m then m\<lparr>sm_max := sm_used m\<rparr> else m)"

text \<open>A free item with the header at \<open>ptr2\<close> between \<open>ptr\<close> and its next item.\<close>

definition split_item :: "u32 \<Rightarrow> u32 \<Rightarrow> rt_small_mem \<Rightarrow> rt_small_mem option" where
  "split_item ptr ptr2 m = do {
     mem \<leftarrow> item_at ptr m;
     m \<leftarrow> set_item ptr2 (\<lambda>_. \<lparr>pool_ptr = MEM_FREED m, it_next = it_next mem, it_prev = ptr\<rparr>) m;
     m \<leftarrow> set_item ptr (\<lambda>i. i\<lparr>it_next := ptr2\<rparr>) m;
     (if it_next mem \<noteq> mem_size_aligned m + SIZEOF_STRUCT_MEM
      then set_item (it_next mem) (\<lambda>i. i\<lparr>it_prev := ptr2\<rparr>) m
      else Some m) }"

partial_function (option) smem_next_free :: "rt_small_mem \<Rightarrow> u32 \<Rightarrow> u32 option" where
  "smem_next_free m l = do {
     it \<leftarrow> item_at l m;
     (if MEM_ISUSED it \<and> l \<noteq> heap_end m then smem_next_free m (it_next it) else Some l) }"

definition smem_take :: "u32 \<Rightarrow> u32 \<Rightarrow> rt_small_mem \<Rightarrow> rt_small_mem option" where
  "smem_take ptr size1 m = do {
     mem \<leftarrow> item_at ptr m;
     m \<leftarrow> (if size1 + SIZEOF_STRUCT_MEM + MIN_SIZE_ALIGNED \<le> it_next mem - (ptr + SIZEOF_STRUCT_MEM)
           then map_option (count_used (size1 + SIZEOF_STRUCT_MEM)) (split_item ptr (ptr + SIZEOF_STRUCT_MEM + size1) m)
           else Some (count_used (it_next mem - ptr) m));
     m \<leftarrow> set_item ptr (\<lambda>i. i\<lparr>pool_ptr := MEM_USED m\<rparr>) m;
     m \<leftarrow> (if ptr = lfree m
           then do {
             l \<leftarrow> smem_next_free m (lfree m);
             it \<leftarrow> item_at l m;
             rt_assert (l = heap_end m \<or> \<not> MEM_ISUSED it);
             Some (m\<lparr>lfree := l\<rparr>) }
           else Some m);
     rt_assert (heap_ptr m + ptr + SIZEOF_STRUCT_MEM + size1 \<le> heap_ptr m + heap_end m);
     rt_assert ((heap_ptr m + ptr + SIZEOF_STRUCT_MEM) mod 4 = 0);
     rt_assert ((heap_ptr m + ptr) AND 3 = 0);
     Some m }"

definition rt_smem_alloc :: "u32 \<Rightarrow> rt_small_mem \<Rightarrow> (u32 option \<times> rt_small_mem) option" where
  "rt_smem_alloc size1 m =
    (if size1 = 0 then Some (None, m)
     else let size1 = RT_ALIGN size1 4
          in if mem_size_aligned m < size1 then Some (None, m)
             else let size1 = (if size1 < MIN_SIZE_ALIGNED then MIN_SIZE_ALIGNED else size1)
                  in do {
                    r \<leftarrow> smem_find m size1 (lfree m);
                    (case r of
                       None \<Rightarrow> Some (None, m)
                     | Some ptr \<Rightarrow> do {
                         m \<leftarrow> smem_take ptr size1 m;
                         Some (Some (heap_ptr m + ptr + SIZEOF_STRUCT_MEM), m) }) })"

definition rt_smem_free :: "u32 option \<Rightarrow> rt_small_mem \<Rightarrow> rt_small_mem option" where
  "rt_smem_free rmem m =
    (case rmem of
       None \<Rightarrow> Some m
     | Some a \<Rightarrow> do {
         rt_assert (a AND 3 = 0);
         let mem = a - SIZEOF_STRUCT_MEM - heap_ptr m;
         it \<leftarrow> item_at mem m;
         rt_assert (MEM_POOL it = sm_address m);
         rt_assert (MEM_ISUSED it);
         rt_assert (heap_ptr m \<le> a \<and> a < heap_ptr m + heap_end m);
         nit \<leftarrow> item_at (it_next it) m;
         rt_assert (MEM_POOL nit = sm_address m);
         m \<leftarrow> set_item mem (\<lambda>i. i\<lparr>pool_ptr := MEM_FREED m\<rparr>) m;
         let m = (if mem < lfree m then m\<lparr>lfree := mem\<rparr> else m);
         let m = m\<lparr>sm_used := sm_used m - (it_next it - mem)\<rparr>;
         plug_holes mem m })"

definition copy_bytes :: "nat \<Rightarrow> nat \<Rightarrow> nat \<Rightarrow> rt_small_mem \<Rightarrow> rt_small_mem" where
  "copy_bytes dst src n m =
    m\<lparr>sm_byte := (\<lambda>k. if dst \<le> k \<and> k < dst + n then sm_byte m (src + (k - dst)) else sm_byte m k)\<rparr>"

definition rt_smem_realloc :: "u32 option \<Rightarrow> u32 \<Rightarrow> rt_small_mem \<Rightarrow> (u32 option \<times> rt_small_mem) option" where
  "rt_smem_realloc rmem newsize m =
    (let newsize = RT_ALIGN newsize 4
     in if mem_size_aligned m < newsize then Some (None, m)
        else if newsize = 0 then do { m \<leftarrow> rt_smem_free rmem m; Some (None, m) }
        else case rmem of
          None \<Rightarrow> rt_smem_alloc newsize m
        | Some a \<Rightarrow> do {
            rt_assert (a AND 3 = 0);
            rt_assert (heap_ptr m \<le> a);
            rt_assert (a < heap_ptr m + heap_end m);
            let ptr = a - SIZEOF_STRUCT_MEM - heap_ptr m;
            mem \<leftarrow> item_at ptr m;
            let size1 = it_next mem - ptr - SIZEOF_STRUCT_MEM;
            (if size1 = newsize then Some (Some a, m)
             else if newsize + SIZEOF_STRUCT_MEM + MIN_SIZE < size1
             then do {
               let m = m\<lparr>sm_used := sm_used m - (size1 - newsize)\<rparr>;
               let ptr2 = ptr + SIZEOF_STRUCT_MEM + newsize;
               m \<leftarrow> split_item ptr ptr2 m;
               let m = (if ptr2 < lfree m then m\<lparr>lfree := ptr2\<rparr> else m);
               m \<leftarrow> plug_holes ptr2 m;
               Some (Some a, m) }
             else do {
               (r, m) \<leftarrow> rt_smem_alloc newsize m;
               (case r of
                  None \<Rightarrow> Some (None, m)
                | Some b \<Rightarrow> do {
                    let m = copy_bytes (unat (b - heap_ptr m)) (unat (a - heap_ptr m))
                      (unat (if size1 < newsize then size1 else newsize)) m;
                    m \<leftarrow> rt_smem_free (Some a) m;
                    Some (Some b, m) }) }) })"

section \<open>Lemmas: the tag words\<close>

definition tag :: "u32 \<Rightarrow> bool \<Rightarrow> u32" where
  "tag a u = (a AND MEM_MASK) OR (if u then 1 else 0)"

lemma MEM_tag: "MEM_USED m = tag (sm_address m) True" "MEM_FREED m = tag (sm_address m) False"
  by (simp_all add: MEM_USED_def MEM_FREED_def tag_def)

lemma mask_not: "MEM_MASK = NOT 1" "NOT MEM_MASK = 1"
  by (simp_all add: MEM_MASK_def)

lemma tag_used [simp]: "pool_ptr it = tag a u \<Longrightarrow> MEM_ISUSED it = u"
proof -
  assume "pool_ptr it = tag a u"
  moreover have "tag a u AND 1 = (if u then 1 else 0)"
    unfolding tag_def mask_not by (rule bit_word_eqI) (auto simp: bit_simps bit_1_iff)
  ultimately show ?thesis by (simp add: MEM_ISUSED_def mask_not)
qed

lemma tag_pool [simp]: "pool_ptr it = tag a u \<Longrightarrow> MEM_POOL it = a AND MEM_MASK"
proof -
  assume "pool_ptr it = tag a u"
  moreover have "tag a u AND MEM_MASK = a AND MEM_MASK"
    unfolding tag_def mask_not by (rule bit_word_eqI) (auto simp: bit_simps bit_1_iff)
  ultimately show ?thesis by (simp add: MEM_POOL_def)
qed

lemma sizes [simp]: "SIZEOF_STRUCT_MEM = 12" "MIN_SIZE_ALIGNED = 12" "MIN_SIZE = 12"
  by (simp_all add: SIZEOF_STRUCT_MEM_def MIN_SIZE_ALIGNED_def MIN_SIZE_def RT_ALIGN_def)

section \<open>The layout of the items\<close>

text \<open>
  A heap as a list of items, each its extent (header and bytes) and whether it is in use. \<open>layout\<close> says
  that the headers from offset \<open>p\<close> on describe the list and end at \<open>e\<close>; \<open>pv\<close> is the offset that the
  first header gives for the previous item.
\<close>

type_synonym item_list = "(nat \<times> bool) list"

fun layout :: "(nat \<Rightarrow> rt_small_mem_item) \<Rightarrow> u32 \<Rightarrow> nat \<Rightarrow> nat \<Rightarrow> item_list \<Rightarrow> nat \<Rightarrow> bool" where
  "layout I a pv p [] e \<longleftrightarrow> p = e"
| "layout I a pv p ((n, u) # bs) e \<longleftrightarrow> 12 \<le> n \<and> 4 dvd n \<and> pool_ptr (I p) = tag a u \<and>
     unat (it_next (I p)) = p + n \<and> unat (it_prev (I p)) = pv \<and> layout I a p (p + n) bs e"

definition ext :: "item_list \<Rightarrow> nat" where
  "ext bs = sum_list (map fst bs)"

definition used_ext :: "item_list \<Rightarrow> nat" where
  "used_ext bs = sum_list (map fst (filter snd bs))"

lemma ext_simps [simp]: "ext [] = 0" "ext (b # bs) = fst b + ext bs" "ext (xs @ ys) = ext xs + ext ys"
  by (simp_all add: ext_def)

lemma used_ext_simps [simp]:
  "used_ext [] = 0" "used_ext (b # bs) = (if snd b then fst b else 0) + used_ext bs" "used_ext (xs @ ys) = used_ext xs + used_ext ys"
  by (simp_all add: used_ext_def)

lemma used_ext_le: "used_ext bs \<le> ext bs"
  by (induction bs) auto

text \<open>The offset of the last item of a list, which the item after it names as the previous one.\<close>

fun last_pos :: "nat \<Rightarrow> nat \<Rightarrow> item_list \<Rightarrow> nat" where
  "last_pos pv p [] = pv"
| "last_pos pv p (b # bs) = last_pos p (p + fst b) bs"

lemma last_pos_append [simp]: "last_pos pv p (xs @ ys) = last_pos (last_pos pv p xs) (p + ext xs) ys"
  by (induction xs arbitrary: pv p) (auto simp: add.assoc)

lemma layout_end: "layout I a pv p bs e \<Longrightarrow> e = p + ext bs"
  by (induction bs arbitrary: pv p) fastforce+

lemma layout_append:
  "layout I a pv p (xs @ ys) e \<longleftrightarrow>
    layout I a pv p xs (p + ext xs) \<and> layout I a (last_pos pv p xs) (p + ext xs) ys e"
  by (induction xs arbitrary: pv p) (auto simp: add.assoc)

lemma layout_cong:
  assumes "\<And>q. p \<le> q \<Longrightarrow> q < e \<Longrightarrow> I' q = I q" and "layout I a pv p bs e"
  shows "layout I' a pv p bs e"
  using assms
proof (induction bs arbitrary: pv p)
  case (Cons b bs)
  obtain n u where b: "b = (n, u)" by (cases b)
  have "12 \<le> n" and l: "layout I a p (p + n) bs e" using Cons.prems(2) b by auto
  moreover from l have "p + n \<le> e" using layout_end by fastforce
  ultimately have "I' p = I p" using Cons.prems(1) by simp
  moreover have "layout I' a p (p + n) bs e" by (rule Cons.IH [OF Cons.prems(1) l]) auto
  ultimately show ?case using Cons.prems(2) b by simp
qed simp

text \<open>A header from which only the link back may differ, and a change in the middle of a heap.\<close>

definition same_but_prev :: "rt_small_mem_item \<Rightarrow> rt_small_mem_item \<Rightarrow> bool" where
  "same_but_prev it it' \<longleftrightarrow> pool_ptr it' = pool_ptr it \<and> it_next it' = it_next it"

lemma layout_splice:
  assumes l: "layout I a pv p (xs @ mid @ ys) e"
    and mid: "layout I' a (last_pos pv p xs) (p + ext xs) mid' (p + ext xs + ext mid)"
    and before: "\<And>q. p \<le> q \<Longrightarrow> q < p + ext xs \<Longrightarrow> I' q = I q"
    and after: "\<And>q. p + ext xs + ext mid < q \<Longrightarrow> q < e \<Longrightarrow> I' q = I q"
    and at: "ys \<noteq> [] \<Longrightarrow> same_but_prev (I (p + ext xs + ext mid)) (I' (p + ext xs + ext mid)) \<and>
      unat (it_prev (I' (p + ext xs + ext mid))) = last_pos (last_pos pv p xs) (p + ext xs) mid'"
  shows "layout I' a pv p (xs @ mid' @ ys) e"
proof -
  let ?x = "p + ext xs" and ?q = "p + ext xs + ext mid"
  have l1: "layout I a pv p xs ?x" and l3: "layout I a (last_pos (last_pos pv p xs) ?x mid) ?q ys e"
    using l by (simp_all add: layout_append)
  have e: "?x + ext mid' = ?q" using layout_end [OF mid] by simp
  have "layout I' a pv p xs ?x" by (rule layout_cong [OF before l1])
  moreover have "layout I' a (last_pos (last_pos pv p xs) ?x mid') ?q ys e"
  proof (cases ys)
    case Nil
    then show ?thesis using l3 by simp
  next
    case (Cons b zs)
    obtain n u where b: "b = (n, u)" by (cases b)
    have n: "12 \<le> n" and lz: "layout I a ?q (?q + n) zs e" using l3 Cons b by auto
    have "layout I' a ?q (?q + n) zs e" by (rule layout_cong [OF after lz]) (use n in auto)
    then show ?thesis using l3 at Cons b by (simp add: same_but_prev_def)
  qed
  ultimately show ?thesis using mid e by (simp add: layout_append)
qed

text \<open>The first free item, or the end.\<close>

fun first_free :: "nat \<Rightarrow> item_list \<Rightarrow> nat" where
  "first_free p [] = p"
| "first_free p ((n, u) # bs) = (if u then first_free (p + n) bs else p)"

lemma first_free_append:
  "first_free p (xs @ ys) = (if \<forall>b \<in> set xs. snd b then first_free (p + ext xs) ys else first_free p xs)"
proof (induction xs arbitrary: p)
  case (Cons b xs)
  then show ?case by (cases b) (simp add: add.assoc)
qed simp

lemma first_free_bounds: "p \<le> first_free p bs" "first_free p bs \<le> p + ext bs"
proof -
  show "p \<le> first_free p bs" by (induction bs arbitrary: p) (auto, meson add_leD1)
  show "first_free p bs \<le> p + ext bs" by (induction bs arbitrary: p) (auto simp: add.assoc [symmetric])
qed

definition coalesced :: "item_list \<Rightarrow> bool" where
  "coalesced bs \<longleftrightarrow> successively (\<lambda>b b'. snd b \<or> snd b') bs"

section \<open>A heap that is laid out\<close>

definition sm_extent :: "rt_small_mem \<Rightarrow> nat" where
  "sm_extent m = unat (mem_size_aligned m) + 12"

definition sm_core :: "rt_small_mem \<Rightarrow> item_list \<Rightarrow> bool" where
  "sm_core m bs \<longleftrightarrow> layout (sm_item m) (sm_address m) 0 0 bs (sm_extent m) \<and> unat (heap_end m) = sm_extent m \<and>
     pool_ptr (sm_item m (sm_extent m)) = tag (sm_address m) True \<and>
     unat (it_next (sm_item m (sm_extent m))) = sm_extent m \<and>
     sm_address m AND MEM_MASK = sm_address m \<and> unat (heap_ptr m) + sm_extent m + 12 < 2 ^ 32 \<and> 4 dvd unat (heap_ptr m)"

text \<open>The operations change the headers, \<open>lfree\<close>, the counters and, in \<open>rt_smem_realloc\<close>, the bytes.\<close>

definition sm_same :: "rt_small_mem \<Rightarrow> rt_small_mem \<Rightarrow> bool" where
  "sm_same m m' \<longleftrightarrow> sm_address m' = sm_address m \<and> sm_total m' = sm_total m \<and> heap_ptr m' = heap_ptr m \<and>
     heap_end m' = heap_end m \<and> mem_size_aligned m' = mem_size_aligned m"

lemma sm_same_refl [simp]: "sm_same m m" by (simp add: sm_same_def)

lemma sm_same_trans: "sm_same m m' \<Longrightarrow> sm_same m' m'' \<Longrightarrow> sm_same m m''" by (simp add: sm_same_def)

lemma sm_same_extent: "sm_same m m' \<Longrightarrow> sm_extent m' = sm_extent m" by (simp add: sm_same_def sm_extent_def)

lemma core_upd [simp]:
  "sm_core (m\<lparr>lfree := l\<rparr>) bs = sm_core m bs" "sm_core (m\<lparr>sm_used := n\<rparr>) bs = sm_core m bs"
  "sm_core (m\<lparr>sm_max := n\<rparr>) bs = sm_core m bs" "sm_core (m\<lparr>sm_byte := b\<rparr>) bs = sm_core m bs"
  "sm_extent (m\<lparr>lfree := l\<rparr>) = sm_extent m" "sm_extent (m\<lparr>sm_used := n\<rparr>) = sm_extent m"
  "sm_extent (m\<lparr>sm_max := n\<rparr>) = sm_extent m" "sm_extent (m\<lparr>sm_byte := b\<rparr>) = sm_extent m"
  "sm_extent (m\<lparr>sm_item := I\<rparr>) = sm_extent m" "sm_core (m\<lparr>lfree := l, sm_item := I\<rparr>) bs = sm_core (m\<lparr>sm_item := I\<rparr>) bs"
  by (simp_all add: sm_core_def sm_extent_def)

lemma item_at_ok [simp]: "unat p \<le> sm_extent m \<Longrightarrow> item_at p m = Some (sm_item m (unat p))"
  by (simp add: item_at_def sm_extent_def)

lemma set_item_ok [simp]:
  "unat p \<le> sm_extent m \<Longrightarrow> set_item p f m = Some (m\<lparr>sm_item := (sm_item m)(unat p := f (sm_item m (unat p)))\<rparr>)"
  by (simp add: set_item_def)

lemma core_ext: "sm_core m bs \<Longrightarrow> ext bs = sm_extent m"
  using layout_end by (fastforce simp: sm_core_def)

text \<open>What the header of an item says, and the header behind it.\<close>

lemma core_at:
  assumes "sm_core m (xs @ (n, u) # ys)"
  shows "12 \<le> n" "4 dvd n" "ext xs + n + ext ys = sm_extent m" "pool_ptr (sm_item m (ext xs)) = tag (sm_address m) u"
    "unat (it_next (sm_item m (ext xs))) = ext xs + n" "unat (it_prev (sm_item m (ext xs))) = last_pos 0 0 xs"
  using assms layout_append [of "sm_item m" "sm_address m" 0 0 xs "(n, u) # ys" "sm_extent m"] core_ext [OF assms]
  by (simp_all add: sm_core_def)

lemma core_after:
  assumes "sm_core m (xs @ (n, u) # ys)"
  shows "pool_ptr (sm_item m (ext xs + n)) = tag (sm_address m) (case ys of [] \<Rightarrow> True | (n', u') # _ \<Rightarrow> u')"
proof (cases ys)
  case Nil
  then show ?thesis using assms core_at(3) [OF assms] by (simp add: sm_core_def)
next
  case (Cons b zs)
  obtain n' u' where b: "b = (n', u')" by (cases b)
  have "sm_core m ((xs @ [(n, u)]) @ (n', u') # zs)" using assms Cons b by simp
  from core_at(4) [OF this] show ?thesis using Cons b by simp
qed

lemma core_dvd: "sm_core m (xs @ ys) \<Longrightarrow> 4 dvd ext xs"
proof -
  assume "sm_core m (xs @ ys)"
  then have "layout (sm_item m) (sm_address m) 0 0 xs (ext xs)" by (simp add: sm_core_def layout_append)
  moreover have "layout I a pv p zs e \<Longrightarrow> 4 dvd ext zs" for I a pv p zs e
    by (induction zs arbitrary: pv p) auto
  ultimately show ?thesis by blast
qed

text \<open>A change of the items in the middle.\<close>

lemma core_splice:
  assumes c: "sm_core m (xs @ mid @ ys)" and e: "ext mid' = ext mid"
    and mid: "layout I (sm_address m) (last_pos 0 0 xs) (ext xs) mid' (ext xs + ext mid)"
    and before: "\<And>q. q < ext xs \<Longrightarrow> I q = sm_item m q"
    and after: "\<And>q. ext xs + ext mid < q \<Longrightarrow> I q = sm_item m q"
    and at: "same_but_prev (sm_item m (ext xs + ext mid)) (I (ext xs + ext mid))"
    and prv: "ys \<noteq> [] \<Longrightarrow> unat (it_prev (I (ext xs + ext mid))) = last_pos (last_pos 0 0 xs) (ext xs) mid'"
  shows "sm_core (m\<lparr>sm_item := I\<rparr>) (xs @ mid' @ ys)"
proof -
  have l: "layout (sm_item m) (sm_address m) 0 0 (xs @ mid @ ys) (sm_extent m)" using c by (simp add: sm_core_def)
  have "layout I (sm_address m) 0 0 (xs @ mid' @ ys) (sm_extent m)"
    by (rule layout_splice [OF l]) (use mid before after at prv in auto)
  moreover have "same_but_prev (sm_item m (sm_extent m)) (I (sm_extent m))"
  proof (cases ys)
    case Nil
    then show ?thesis using at core_ext [OF c] by simp
  next
    case (Cons b zs)
    obtain n u where b: "b = (n, u)" by (cases b)
    have "sm_core m ((xs @ mid) @ (n, u) # zs)" using c Cons b by simp
    from core_at(1,3) [OF this] have "ext xs + ext mid < sm_extent m" by simp
    then show ?thesis using after by (simp add: same_but_prev_def)
  qed
  ultimately show ?thesis using c by (simp add: sm_core_def same_but_prev_def)
qed

text \<open>Joining two items, what both halves of \<open>plug_holes\<close> do.\<close>

lemma join_ok:
  assumes c: "sm_core m (xs @ (n, u) # (n', v) # ys)" and p: "unat p = ext xs" and q: "unat q = ext xs + n"
    and nx: "nx = it_next (sm_item m (unat q))"
  shows "\<exists>I. (do {
      m \<leftarrow> set_item q (\<lambda>i. i\<lparr>pool_ptr := 0\<rparr>) m;
      m \<leftarrow> set_item p (\<lambda>i. i\<lparr>it_next := nx\<rparr>) m;
      set_item nx (\<lambda>i. i\<lparr>it_prev := p\<rparr>) m }) = Some (m\<lparr>sm_item := I\<rparr>) \<and>
    sm_core (m\<lparr>sm_item := I\<rparr>) (xs @ (n + n', u) # ys)"
proof -
  have c': "sm_core m ((xs @ [(n, u)]) @ (n', v) # ys)" and cm: "sm_core m (xs @ [(n, u), (n', v)] @ ys)" using c by simp_all
  note A = core_at [OF c] and B = core_at [OF c', simplified]
  have r: "unat nx = ext xs + n + n'" using B(5) q nx by simp
  let ?I = "((sm_item m)(unat q := (sm_item m (unat q))\<lparr>pool_ptr := 0\<rparr>))"
  let ?J = "?I(unat p := (?I (unat p))\<lparr>it_next := nx\<rparr>)"
  let ?K = "?J(unat nx := (?J (unat nx))\<lparr>it_prev := p\<rparr>)"
  have le: "unat p \<le> sm_extent m" "unat q \<le> sm_extent m" "unat nx \<le> sm_extent m" using A(3) B(3) p q r by simp_all
  have ne: "unat p \<noteq> unat q" "unat p \<noteq> unat nx" "unat q \<noteq> unat nx" using p q r A(1) B(1) by simp_all
  have "sm_core (m\<lparr>sm_item := ?K\<rparr>) (xs @ [(n + n', u)] @ ys)"
    by (rule core_splice [OF cm]) (use A B p q r ne in \<open>auto simp: same_but_prev_def add.assoc\<close>)
  then show ?thesis using le by (intro exI [of _ ?K]) simp
qed

lemma plug_next_ok:
  assumes c: "sm_core m (xs @ (n, u) # ys)" and p: "unat p = ext xs"
  shows "case ys of
      (n', False) # zs \<Rightarrow> \<exists>I. plug_next p m = Some (m\<lparr>lfree := if unat (lfree m) = ext xs + n then p else lfree m, sm_item := I\<rparr>) \<and>
        sm_core (m\<lparr>sm_item := I\<rparr>) (xs @ (n + n', u) # zs)
    | _ \<Rightarrow> plug_next p m = Some m"
proof -
  note A = core_at [OF c] and T = core_after [OF c]
  let ?nx = "it_next (sm_item m (ext xs))"
  have at: "item_at p m = Some (sm_item m (ext xs))" "item_at ?nx m = Some (sm_item m (ext xs + n))"
    using A p by simp_all
  have ne: "p \<noteq> ?nx" using A(1,5) p by auto
  have used: "MEM_ISUSED (sm_item m (ext xs + n)) = (case ys of [] \<Rightarrow> True | (n', u') # _ \<Rightarrow> u')"
    by (rule tag_used [OF T])
  show ?thesis
  proof (cases "\<exists>n' zs. ys = (n', False) # zs")
    case True
    then obtain n' zs where ys: "ys = (n', False) # zs" by blast
    let ?m = "m\<lparr>lfree := if unat (lfree m) = ext xs + n then p else lfree m\<rparr>"
    let ?r = "it_next (sm_item m (ext xs + n))"
    have cm: "sm_core ?m (xs @ (n, u) # (n', False) # zs)" using c ys by simp
    have "12 \<le> n'" using core_at(1) [of m "xs @ [(n, u)]" n' False zs] c ys by simp
    then have "?nx \<noteq> heap_end m" using A(3,5) c ys by (auto simp: sm_core_def word_unat_eq_iff)
    moreover have "(if lfree m = ?nx then m\<lparr>lfree := p\<rparr> else m) = ?m" using A(5) by (simp add: word_unat_eq_iff)
    moreover obtain I where "(do {
      m \<leftarrow> set_item ?nx (\<lambda>i. i\<lparr>pool_ptr := 0\<rparr>) ?m;
      m \<leftarrow> set_item p (\<lambda>i. i\<lparr>it_next := ?r\<rparr>) m;
      set_item ?r (\<lambda>i. i\<lparr>it_prev := p\<rparr>) m }) = Some (?m\<lparr>sm_item := I\<rparr>)" "sm_core (?m\<lparr>sm_item := I\<rparr>) (xs @ (n + n', u) # zs)"
      using join_ok [OF cm p A(5), of ?r] A(5) by auto
    ultimately have "plug_next p m = Some (?m\<lparr>sm_item := I\<rparr>)" "sm_core (m\<lparr>sm_item := I\<rparr>) (xs @ (n + n', u) # zs)"
      using at ne used ys by (simp_all add: plug_next_def Let_def sm_core_def sm_extent_def cong: if_cong)
    then show ?thesis using ys by auto
  next
    case False
    then show ?thesis using at used by (auto simp: plug_next_def Let_def split: list.split prod.split bool.split)
  qed
qed

lemma plug_prev_ok:
  assumes c: "sm_core m (xs @ (n, u) # ys)" and p: "unat p = ext xs"
  shows "case rev xs of
      (n', False) # rzs \<Rightarrow> \<exists>I pm. unat pm = ext (rev rzs) \<and> ext xs = unat pm + n' \<and>
        plug_prev p m = Some (m\<lparr>lfree := if lfree m = p then pm else lfree m, sm_item := I\<rparr>) \<and>
        sm_core (m\<lparr>sm_item := I\<rparr>) (rev rzs @ (n' + n, False) # ys)
    | _ \<Rightarrow> plug_prev p m = Some m"
proof -
  note A = core_at [OF c]
  let ?pv = "it_prev (sm_item m (ext xs))"
  have at: "item_at p m = Some (sm_item m (ext xs))" using A p by simp
  show ?thesis
  proof (cases "rev xs")
    case Nil
    then have "xs = []" by simp
    then have "?pv = p" using A(6) p by (simp add: word_unat_eq_iff)
    then show ?thesis using Nil at by (simp add: plug_prev_def Let_def)
  next
    case (Cons b rzs)
    obtain n' u' where b: "b = (n', u')" by (cases b)
    have xs: "xs = rev rzs @ [(n', u')]" using Cons b by (metis rev.simps(2) rev_rev_ident)
    have cp: "sm_core m (rev rzs @ (n', u') # (n, u) # ys)" using c xs by simp
    note B = core_at [OF cp]
    have pv: "unat ?pv = ext (rev rzs)" using A(6) xs by simp
    have pe: "unat p = ext (rev rzs) + n'" using p xs by simp
    have at': "item_at ?pv m = Some (sm_item m (ext (rev rzs)))" using B(3) pv by simp
    have ne: "?pv \<noteq> p" using pv pe B(1) by auto
    have used: "MEM_ISUSED (sm_item m (ext (rev rzs))) = u'" by (rule tag_used [OF B(4)])
    show ?thesis
    proof (cases u')
      case True
      then show ?thesis using Cons b at at' used by (simp add: plug_prev_def Let_def)
    next
      case False
      let ?m = "m\<lparr>lfree := if lfree m = p then ?pv else lfree m\<rparr>" and ?r = "it_next (sm_item m (ext xs))"
      have cm: "sm_core ?m (rev rzs @ (n', False) # (n, u) # ys)" using cp False by simp
      obtain I where "(do {
        m \<leftarrow> set_item p (\<lambda>i. i\<lparr>pool_ptr := 0\<rparr>) ?m;
        m \<leftarrow> set_item ?pv (\<lambda>i. i\<lparr>it_next := ?r\<rparr>) m;
        set_item ?r (\<lambda>i. i\<lparr>it_prev := ?pv\<rparr>) m }) = Some (?m\<lparr>sm_item := I\<rparr>)"
        "sm_core (?m\<lparr>sm_item := I\<rparr>) (rev rzs @ (n' + n, False) # ys)"
        using join_ok [OF cm pv pe, of ?r] p by auto
      moreover have "(if lfree m = p then m\<lparr>lfree := ?pv\<rparr> else m) = ?m" by simp
      ultimately have "plug_prev p m = Some (?m\<lparr>sm_item := I\<rparr>)" "sm_core (m\<lparr>sm_item := I\<rparr>) (rev rzs @ (n' + n, False) # ys)"
        using at at' ne used False by (simp_all add: plug_prev_def Let_def split del: if_split)
      then have "\<exists>I pm. unat pm = ext (rev rzs) \<and> ext xs = unat pm + n' \<and>
          plug_prev p m = Some (m\<lparr>lfree := if lfree m = p then pm else lfree m, sm_item := I\<rparr>) \<and>
          sm_core (m\<lparr>sm_item := I\<rparr>) (rev rzs @ (n' + n, False) # ys)"
        using pv xs by (intro exI [of _ I] exI [of _ ?pv]) simp
      then show ?thesis using Cons b False by simp
    qed
  qed
qed

text \<open>
  What becomes of a heap whose item between \<open>xs\<close> and \<open>ys\<close> is given back: it is joined with the free
  neighbours.
\<close>

definition plug_right :: "nat \<Rightarrow> item_list \<Rightarrow> item_list" where
  "plug_right n ys = (case ys of (n', False) # zs \<Rightarrow> (n + n', False) # zs | _ \<Rightarrow> (n, False) # ys)"

definition plug_left :: "item_list \<Rightarrow> item_list \<Rightarrow> item_list" where
  "plug_left xs bs = (case (rev xs, bs) of
     ((n', False) # rzs, (n, _) # ys) \<Rightarrow> rev rzs @ (n' + n, False) # ys
   | _ \<Rightarrow> xs @ bs)"

definition plug :: "item_list \<Rightarrow> nat \<Rightarrow> item_list \<Rightarrow> item_list" where
  "plug xs n ys = plug_left xs (plug_right n ys)"

text \<open>A heap between two operations.\<close>

definition sm_wf :: "rt_small_mem \<Rightarrow> item_list \<Rightarrow> bool" where
  "sm_wf m bs \<longleftrightarrow> sm_core m bs \<and> coalesced bs \<and> unat (lfree m) = first_free 0 bs \<and>
     unat (sm_used m) = used_ext bs \<and> sm_used m \<le> sm_max m \<and> (\<forall>b \<in> set bs. snd b \<longrightarrow> 16 \<le> fst b)"

lemma plug_right_form: "\<exists>n' zs. plug_right n ys = (n', False) # zs"
  by (auto simp: plug_right_def split: list.split prod.split bool.split)

text \<open>The joined items are again separated by items in use.\<close>

lemma coalesced_Nil [simp]: "coalesced []"
  by (simp add: coalesced_def)

lemma coalesced_Cons: "coalesced (b # bs) \<longleftrightarrow> (bs = [] \<or> snd b \<or> snd (hd bs)) \<and> coalesced bs"
  by (cases bs) (auto simp: coalesced_def)

lemma coalesced_append:
  "coalesced (xs @ ys) \<longleftrightarrow> coalesced xs \<and> coalesced ys \<and> (xs = [] \<or> ys = [] \<or> snd (last xs) \<or> snd (hd ys))"
  by (auto simp: coalesced_def successively_append_iff)

lemma plug_coalesced:
  assumes x: "coalesced xs" and y: "coalesced ys"
  shows "coalesced (plug xs n ys)"
proof -
  have r: "coalesced (plug_right n ys)"
    using y by (auto simp: plug_right_def coalesced_Cons split: list.splits prod.splits bool.splits)
  obtain n' zs where pr: "plug_right n ys = (n', False) # zs" using plug_right_form by blast
  show ?thesis
  proof (cases "rev xs")
    case Nil
    then show ?thesis using r by (simp add: plug_def plug_left_def)
  next
    case (Cons b rzs)
    obtain k u where b: "b = (k, u)" by (cases b)
    have xs: "xs = rev rzs @ [(k, u)]" using Cons b by (metis rev.simps(2) rev_rev_ident)
    show ?thesis
      using x r pr Cons b xs by (cases u) (auto simp: plug_def plug_left_def coalesced_append coalesced_Cons)
  qed
qed

lemma plug_ext [simp]: "ext (plug xs n ys) = ext xs + n + ext ys" "used_ext (plug xs n ys) = used_ext xs + used_ext ys"
proof -
  obtain n' zs where pr: "plug_right n ys = (n', False) # zs" using plug_right_form by blast
  have "ext (plug_right n ys) = n + ext ys \<and> used_ext (plug_right n ys) = used_ext ys"
    by (auto simp: plug_right_def split: list.split prod.split bool.split)
  then have pr: "plug_right n ys = (n', False) # zs" "n' + ext zs = n + ext ys" "used_ext zs = used_ext ys"
    using pr by simp_all
  obtain rzs where rz: "rev xs = rzs" by simp
  then have xs: "xs = rev rzs" by (metis rev_rev_ident)
  have e: "ext (rev zs) = ext zs" "used_ext (rev zs) = used_ext zs" for zs
    by (simp_all add: ext_def used_ext_def rev_map [symmetric] rev_filter [symmetric] sum_list_rev)
  show "ext (plug xs n ys) = ext xs + n + ext ys" "used_ext (plug xs n ys) = used_ext xs + used_ext ys"
    using pr unfolding xs by (cases rzs; auto simp: plug_def plug_left_def e split: bool.split)+
qed

lemma first_free_plug: "first_free 0 (plug xs n ys) = first_free 0 (xs @ (n, False) # ys)"
proof -
  obtain n' zs where pr: "plug_right n ys = (n', False) # zs" using plug_right_form by blast
  show ?thesis
  proof (cases "rev xs")
    case Nil
    then show ?thesis using pr by (simp add: plug_def plug_left_def)
  next
    case (Cons b rzs)
    obtain k u where b: "b = (k, u)" by (cases b)
    have xs: "xs = rev rzs @ [(k, u)]" using Cons b by (metis rev.simps(2) rev_rev_ident)
    show ?thesis using pr Cons b xs by (cases u) (auto simp: plug_def plug_left_def first_free_append)
  qed
qed

text \<open>The items in use are those of the lists on both sides.\<close>

lemma plug_set: "b \<in> set (plug xs n ys) \<Longrightarrow> snd b \<Longrightarrow> b \<in> set xs \<union> set ys"
proof -
  assume b: "b \<in> set (plug xs n ys)" "snd b"
  have r: "b \<in> set ys" if "b \<in> set (plug_right n ys)"
    using that b(2) by (auto simp: plug_right_def split: list.splits prod.splits bool.splits)
  obtain k zs where k: "plug_right n ys = (k, False) # zs" using plug_right_form by blast
  show ?thesis
  proof (cases "rev xs")
    case (Cons c rzs)
    have "set xs = set (c # rzs)" using Cons by (metis set_rev)
    then show ?thesis using b r k Cons by (cases c; cases "snd c") (auto simp: plug_def plug_left_def)
  qed (use b r k in \<open>auto simp: plug_def plug_left_def\<close>)
qed

lemma plug_holes_ok:
  assumes c: "sm_core m (xs @ (n, False) # ys)" and p: "unat p = ext xs"
    and l: "unat (lfree m) = first_free 0 (xs @ (n, False) # ys)"
  shows "\<exists>I. plug_holes p m = Some (m\<lparr>sm_item := I\<rparr>) \<and> sm_core (m\<lparr>sm_item := I\<rparr>) (plug xs n ys)"
proof -
  note A = core_at [OF c]
  have lt: "p < heap_end m" using c A p by (simp add: sm_core_def word_less_nat_alt)
  have le: "unat (lfree m) \<le> ext xs" using l first_free_bounds [of 0 xs] by (auto simp: first_free_append)
  obtain I k zs where I: "plug_next p m = Some (m\<lparr>sm_item := I\<rparr>)" "plug_right n ys = (k, False) # zs"
      "sm_core (m\<lparr>sm_item := I\<rparr>) (xs @ (k, False) # zs)"
  proof (cases "\<exists>n' zs. ys = (n', False) # zs")
    case True
    then obtain n' zs where ys: "ys = (n', False) # zs" by blast
    have "unat (lfree m) \<noteq> ext xs + n" using le A(1) by simp
    then obtain I where "plug_next p m = Some (m\<lparr>lfree := lfree m, sm_item := I\<rparr>)" "sm_core (m\<lparr>sm_item := I\<rparr>) (xs @ (n + n', False) # zs)"
      using plug_next_ok [OF c p] ys by auto
    moreover have "plug_right n ys = (n + n', False) # zs" using ys by (simp add: plug_right_def)
    ultimately show ?thesis using that by simp
  next
    case False
    then have "plug_next p m = Some (m\<lparr>sm_item := sm_item m\<rparr>)" "plug_right n ys = (n, False) # ys"
      using plug_next_ok [OF c p] by (auto simp: plug_right_def split: list.splits prod.splits bool.splits)
    then show ?thesis using that [of "sm_item m"] c by simp
  qed
  let ?m = "m\<lparr>sm_item := I\<rparr>"
  note P = plug_prev_ok [OF I(3) p]
  show ?thesis
  proof (cases "\<exists>n' rzs. rev xs = (n', False) # rzs")
    case True
    then obtain n' rzs where rx: "rev xs = (n', False) # rzs" by blast
    then have xs: "xs = rev rzs @ [(n', False)]" by (metis rev.simps(2) rev_rev_ident)
    have c2: "sm_core ?m (rev rzs @ (n', False) # (k, False) # zs)" using I(3) xs by simp
    have "unat (lfree m) \<le> ext (rev rzs)"
      using l xs first_free_bounds [of 0 "rev rzs"] by (auto simp: first_free_append)
    then have "lfree m \<noteq> p" using p xs core_at(1) [OF c2] by auto
    then obtain J where "plug_prev p ?m = Some (m\<lparr>sm_item := J\<rparr>)" "sm_core (m\<lparr>sm_item := J\<rparr>) (rev rzs @ (n' + k, False) # zs)"
      using P rx by auto
    then show ?thesis using lt I(1,2) rx by (auto simp: plug_holes_def plug_def plug_left_def)
  next
    case False
    then have "plug_prev p ?m = Some ?m" "plug xs n ys = xs @ (k, False) # zs"
      using P I(2) by (auto simp: plug_def plug_left_def split: list.splits prod.splits bool.splits)
    then show ?thesis using lt I(1,3) by (auto simp: plug_holes_def)
  qed
qed

section \<open>Giving memory back\<close>

lemma and_3_mod: "a AND 3 = 0 \<longleftrightarrow> unat a mod 4 = 0" for a :: u32
proof -
  have "a AND 3 = take_bit 2 a" by (simp add: take_bit_eq_mask mask_eq_exp_minus_1)
  then have "unat (a AND 3) = take_bit 2 (unat a)" by (simp only: unsigned_take_bit_eq)
  then have "unat (a AND 3) = unat a mod 4" by (simp add: take_bit_eq_mod)
  then show ?thesis by (metis unat_eq_zero)
qed

lemma unat_minus_word: "unat y \<le> unat x \<Longrightarrow> unat (x - y) = unat x - unat y" for x y :: u32
  by (simp add: unat_sub word_le_nat_alt)

lemma unat_plus_word: "unat x + unat y < 2 ^ 32 \<Longrightarrow> unat (x + y) = unat x + unat y" for x y :: u32
  using unat_add_lem [of x y] by simp

text \<open>The address that the allocator returns for the item at an offset.\<close>

definition user_at :: "rt_small_mem \<Rightarrow> nat \<Rightarrow> nat" where
  "user_at m k = unat (heap_ptr m) + k + 12"

lemma user_offset: "unat a = user_at m k \<Longrightarrow> unat (a - SIZEOF_STRUCT_MEM - heap_ptr m) = k"
proof -
  assume a: "unat a = user_at m k"
  have "unat (a - 12) = unat a - 12" using a by (subst unat_minus_word) (simp_all add: user_at_def)
  then show ?thesis using a by (simp add: unat_minus_word user_at_def)
qed

lemma user_bounds:
  assumes c: "sm_core m (xs @ (n, u) # ys)" and a: "unat a = user_at m (ext xs)" and n: "16 \<le> n"
  shows "a AND 3 = 0" "heap_ptr m \<le> a" "a < heap_ptr m + heap_end m"
proof -
  have "4 dvd unat (heap_ptr m)" "4 dvd ext xs" using c core_dvd [OF c] by (simp_all add: sm_core_def)
  then show "a AND 3 = 0" using a by (auto simp: and_3_mod user_at_def elim!: dvdE)
  show "heap_ptr m \<le> a" using a by (simp add: word_le_nat_alt user_at_def)
  have "unat (heap_ptr m + heap_end m) = unat (heap_ptr m) + sm_extent m"
    using c by (subst unat_plus_word) (simp_all add: sm_core_def)
  then show "a < heap_ptr m + heap_end m" using a n core_at(3) [OF c] by (simp add: word_less_nat_alt user_at_def)
qed

lemma core_free:
  assumes c: "sm_core m (xs @ (n, u) # ys)"
  shows "sm_core (m\<lparr>sm_item := (sm_item m)(ext xs := (sm_item m (ext xs))\<lparr>pool_ptr := tag (sm_address m) v\<rparr>)\<rparr>) (xs @ (n, v) # ys)"
proof -
  note A = core_at [OF c]
  have cm: "sm_core m (xs @ [(n, u)] @ ys)" using c by simp
  have "layout (sm_item m) (sm_address m) (last_pos 0 0 xs) (ext xs) ((n, u) # ys) (sm_extent m)"
    using c by (simp add: sm_core_def layout_append)
  then have y: "ys \<noteq> [] \<Longrightarrow> unat (it_prev (sm_item m (ext xs + n))) = ext xs" by (cases ys) auto
  have "sm_core (m\<lparr>sm_item := (sm_item m)(ext xs := (sm_item m (ext xs))\<lparr>pool_ptr := tag (sm_address m) v\<rparr>)\<rparr>) (xs @ [(n, v)] @ ys)"
    by (rule core_splice [OF cm]) (use A y in \<open>auto simp: same_but_prev_def\<close>)
  then show ?thesis by simp
qed

lemma smem_free_ok:
  assumes w: "sm_wf m (xs @ (n, True) # ys)" and a: "unat a = user_at m (ext xs)"
  shows "\<exists>m'. rt_smem_free (Some a) m = Some m' \<and> sm_wf m' (plug xs n ys) \<and> sm_same m m' \<and>
    sm_byte m' = sm_byte m \<and> sm_max m' = sm_max m"
proof -
  have c: "sm_core m (xs @ (n, True) # ys)" and n: "16 \<le> n" and co: "coalesced xs" "coalesced ys"
    and us: "unat (sm_used m) = used_ext xs + n + used_ext ys"
    using w by (auto simp: sm_wf_def coalesced_append coalesced_Cons)
  note A = core_at [OF c] and U = user_bounds [OF c a n] and T = core_after [OF c]
  let ?p = "a - 12 - heap_ptr m"
  have p: "unat ?p = ext xs" using user_offset [OF a] by simp
  let ?it = "sm_item m (ext xs)"
  have at: "item_at ?p m = Some ?it" "item_at (it_next ?it) m = Some (sm_item m (ext xs + n))" using A p by simp_all
  have adr: "sm_address m AND MEM_MASK = sm_address m" using c by (simp add: sm_core_def)
  have pool: "MEM_POOL ?it = sm_address m" "MEM_POOL (sm_item m (ext xs + n)) = sm_address m" "MEM_ISUSED ?it"
    using tag_pool [OF A(4)] tag_pool [OF T] tag_used [OF A(4)] adr by simp_all
  let ?m1 = "m\<lparr>sm_item := (sm_item m)(ext xs := ?it\<lparr>pool_ptr := tag (sm_address m) False\<rparr>)\<rparr>"
  have c1: "sm_core ?m1 (xs @ (n, False) # ys)" by (rule core_free [OF c])
  let ?l = "if ?p < lfree m then ?p else lfree m" and ?u = "sm_used m - (it_next ?it - ?p)"
  let ?m2 = "?m1\<lparr>lfree := ?l, sm_used := ?u\<rparr>"
  have ff: "unat (lfree m) = first_free 0 (xs @ (n, True) # ys)" using w by (simp add: sm_wf_def)
  have l: "unat ?l = first_free 0 (xs @ (n, False) # ys)"
  proof (cases "\<forall>b \<in> set xs. snd b")
    case True
    then have "ext xs + n \<le> unat (lfree m)" using ff first_free_bounds(1) [of "ext xs + n" ys] by (simp add: first_free_append)
    then show ?thesis using True p A(1) by (simp add: first_free_append word_less_nat_alt)
  next
    case False
    then have "unat (lfree m) = first_free 0 xs" using ff unfolding first_free_append by (simp only: if_False)
    moreover have "first_free 0 xs \<le> ext xs" using first_free_bounds(2) [of 0 xs] by simp
    ultimately show ?thesis using False p by (auto simp: first_free_append word_less_nat_alt)
  qed
  have c2: "sm_core ?m2 (xs @ (n, False) # ys)" using c1 by simp
  obtain I where I: "plug_holes ?p ?m2 = Some (?m2\<lparr>sm_item := I\<rparr>)" "sm_core (?m2\<lparr>sm_item := I\<rparr>) (plug xs n ys)"
    using plug_holes_ok [OF c2 p] l by auto
  have "unat (it_next ?it - ?p) = n" using A(5) p by (simp add: unat_minus_word)
  then have u: "unat ?u = used_ext xs + used_ext ys" using us by (simp add: unat_minus_word)
  have "?u \<le> sm_max m" using u us w by (simp add: sm_wf_def word_le_nat_alt)
  then have "sm_wf (?m2\<lparr>sm_item := I\<rparr>) (plug xs n ys)"
    using I(2) plug_coalesced [OF co] l u w plug_set [of _ xs n ys]
    by (auto simp: sm_wf_def first_free_plug [symmetric])
  moreover have "rt_smem_free (Some a) m = plug_holes ?p ?m2"
  proof (cases "?p < lfree m")
    case False
    then have "?m2 = ?m1\<lparr>sm_used := ?u\<rparr>" by (cases m) simp
    then show ?thesis using False U at pool p A(3) by (simp add: rt_smem_free_def Let_def MEM_tag)
  qed (use U at pool p A(3) in \<open>simp add: rt_smem_free_def Let_def MEM_tag\<close>)
  then have "rt_smem_free (Some a) m = Some (?m2\<lparr>sm_item := I\<rparr>)" using I(1) by (rule trans)
  ultimately show ?thesis by (auto simp: sm_same_def)
qed

section \<open>Finding an item\<close>

text \<open>The first free item with room for \<open>s\<close> bytes, with what lies before and behind it.\<close>

fun fit :: "nat \<Rightarrow> item_list \<Rightarrow> (item_list \<times> nat \<times> item_list) option" where
  "fit s [] = None"
| "fit s ((n, u) # bs) =
    (if \<not> u \<and> s + 12 \<le> n then Some ([], n, bs) else map_option (\<lambda>(xs, k, ys). ((n, u) # xs, k, ys)) (fit s bs))"

text \<open>What becomes of the item: the rest is split off when it can hold an item of its own.\<close>

definition carve :: "nat \<Rightarrow> nat \<Rightarrow> item_list" where
  "carve s n = (if s + 36 \<le> n then [(s + 12, True), (n - (s + 12), False)] else [(n, True)])"

lemma fit_Some:
  "fit s bs = Some (xs, n, ys) \<Longrightarrow> bs = xs @ (n, False) # ys \<and> s + 12 \<le> n \<and> (\<forall>(k, u) \<in> set xs. \<not> u \<longrightarrow> k < s + 12)"
proof (induction bs arbitrary: xs)
  case (Cons b bs)
  obtain k u where b: "b = (k, u)" by (cases b)
  show ?case
  proof (cases "\<not> u \<and> s + 12 \<le> k")
    case False
    then obtain xs' where x: "xs = (k, u) # xs'" "fit s bs = Some (xs', n, ys)" using Cons.prems b by auto
    then show ?thesis using Cons.IH [OF x(2)] False b by auto
  qed (use Cons.prems b in auto)
qed simp

lemma fit_None: "fit s bs = None \<longleftrightarrow> (\<forall>(k, u) \<in> set bs. \<not> u \<longrightarrow> k < s + 12)"
  by (induction s bs rule: fit.induct) (auto simp: not_le)

lemma fit_used: "\<forall>b \<in> set pre. snd b \<Longrightarrow> fit s (pre @ bs) = map_option (\<lambda>(xs, k, ys). (pre @ xs, k, ys)) (fit s bs)"
proof (induction pre)
  case (Cons b pre)
  then show ?case by (cases b) (simp add: option.map_comp comp_def case_prod_unfold)
qed (simp add: option.map_ident_strong case_prod_unfold)

lemma first_free_stop:
  "\<exists>pre post. bs = pre @ post \<and> (\<forall>b \<in> set pre. snd b) \<and> first_free p bs = p + ext pre \<and>
    (post = [] \<or> (\<exists>k zs. post = (k, False) # zs))"
proof (induction bs arbitrary: p)
  case (Cons b bs)
  obtain n u where b: "b = (n, u)" by (cases b)
  show ?case
  proof (cases u)
    case True
    obtain pre post where "bs = pre @ post" "\<forall>b \<in> set pre. snd b" "first_free (p + n) bs = p + n + ext pre"
        "post = [] \<or> (\<exists>k zs. post = (k, False) # zs)"
      using Cons.IH [of "p + n"] by blast
    then show ?thesis using b True by (intro exI [of _ "b # pre"] exI [of _ post]) auto
  next
    case False
    then show ?thesis using b by (intro exI [of _ "[]"] exI [of _ "b # bs"]) simp
  qed
qed simp

lemma smem_find_ok:
  assumes "sm_core m (xs @ ys)" and "unat ptr = ext xs" and "unat s \<le> unat (mem_size_aligned m)"
  shows "\<exists>r. smem_find m s ptr = Some r \<and> (case fit (unat s) ys of None \<Rightarrow> r = None
    | Some (as, _, _) \<Rightarrow> \<exists>q. r = Some q \<and> unat q = ext xs + ext as)"
  using assms
proof (induction ys arbitrary: xs ptr)
  case Nil
  have "ext xs = sm_extent m" using core_ext [OF Nil.prems(1)] by simp
  then have "\<not> ptr \<le> mem_size_aligned m - s"
    using Nil.prems(2,3) by (simp add: word_le_nat_alt unat_minus_word sm_extent_def)
  then show ?case by (subst smem_find.simps) simp
next
  case (Cons b ys)
  obtain n u where b: "b = (n, u)" by (cases b)
  have c: "sm_core m (xs @ (n, u) # ys)" using Cons.prems(1) b by simp
  note A = core_at [OF c]
  let ?it = "sm_item m (ext xs)"
  have at: "item_at ptr m = Some ?it" using A(3) Cons.prems(2) by simp
  have used: "MEM_ISUSED ?it = u" by (rule tag_used [OF A(4)])
  have room: "ptr \<le> mem_size_aligned m - s \<longleftrightarrow> ext xs + unat s \<le> unat (mem_size_aligned m)"
    using Cons.prems(2,3) by (auto simp: word_le_nat_alt unat_minus_word)
  have "ext xs + n < 2 ^ 32" using A(5) unsigned_less [of "it_next ?it", where 'a = nat] by simp
  then have "unat (ptr + 12) = ext xs + 12" using Cons.prems(2) A(1) by (subst unat_plus_word) simp_all
  then have sz: "unat (it_next ?it - (ptr + 12)) = n - 12" using A(1,5) by (subst unat_minus_word) simp_all
  show ?case
  proof (cases "\<not> u \<and> unat s + 12 \<le> n")
    case True
    then have "ptr \<le> mem_size_aligned m - s" using room A(3) by (simp add: sm_extent_def)
    then have "smem_find m s ptr = Some (Some ptr)"
      using True at used sz by (subst smem_find.simps) (auto simp: word_le_nat_alt)
    then show ?thesis using True b Cons.prems(2) by simp
  next
    case False
    have no: "\<not> (\<not> MEM_ISUSED ?it \<and> s \<le> it_next ?it - (ptr + SIZEOF_STRUCT_MEM))"
      using False used sz A(1) by (auto simp: word_le_nat_alt)
    show ?thesis
    proof (cases "ptr \<le> mem_size_aligned m - s")
      case True
      have c': "sm_core m ((xs @ [(n, u)]) @ ys)" using c by simp
      obtain r where r: "smem_find m s (it_next ?it) = Some r" "case fit (unat s) ys of None \<Rightarrow> r = None
          | Some (as, _, _) \<Rightarrow> \<exists>q. r = Some q \<and> unat q = ext (xs @ [(n, u)]) + ext as"
        using Cons.IH [OF c' _ Cons.prems(3), of "it_next ?it"] A(5) by auto
      have "smem_find m s ptr = Some r" using True no at r(1) by (subst smem_find.simps) auto
      then show ?thesis using r(2) b False by (auto simp: add.assoc split: option.splits)
    next
      case far: False
      have "fit (unat s) ys = None"
      proof (rule ccontr)
        assume "fit (unat s) ys \<noteq> None"
        then obtain as k cs where "fit (unat s) ys = Some (as, k, cs)" by auto
        then have "ys = as @ (k, False) # cs" "unat s + 12 \<le> k" using fit_Some by blast+
        then have "ext xs + unat s \<le> unat (mem_size_aligned m)" using A(3) by (simp add: sm_extent_def)
        then show False using far room by simp
      qed
      moreover have "smem_find m s ptr = Some None" using far by (subst smem_find.simps) simp
      ultimately show ?thesis using b False by simp
    qed
  qed
qed

lemma smem_find_first:
  assumes w: "sm_wf m bs" and s: "unat s \<le> unat (mem_size_aligned m)"
  shows "\<exists>r. smem_find m s (lfree m) = Some r \<and> (case fit (unat s) bs of None \<Rightarrow> r = None
    | Some (as, _, _) \<Rightarrow> \<exists>q. r = Some q \<and> unat q = ext as)"
proof -
  obtain pre post where p: "bs = pre @ post" "\<forall>b \<in> set pre. snd b" "first_free 0 bs = ext pre"
    using first_free_stop [of bs 0] by auto
  have "sm_core m (pre @ post)" "unat (lfree m) = ext pre" using w p by (simp_all add: sm_wf_def)
  from smem_find_ok [OF this s] show ?thesis using fit_used [OF p(2), of "unat s" post] p(1) by (auto split: option.splits)
qed

section \<open>Taking an item\<close>

lemma split_item_ok:
  assumes c: "sm_core m (xs @ (n, u) # ys)" and p: "unat p = ext xs" and q: "unat q = ext xs + k"
    and k: "12 \<le> k" "k + 12 \<le> n" "4 dvd k"
  shows "\<exists>I. split_item p q m = Some (m\<lparr>sm_item := I\<rparr>) \<and> sm_core (m\<lparr>sm_item := I\<rparr>) (xs @ (k, u) # (n - k, False) # ys)"
proof -
  note A = core_at [OF c]
  have cm: "sm_core m (xs @ [(n, u)] @ ys)" using c by simp
  let ?it = "sm_item m (ext xs)"
  let ?I = "((sm_item m)(unat q := \<lparr>pool_ptr = tag (sm_address m) False, it_next = it_next ?it, it_prev = p\<rparr>))
    (unat p := ?it\<lparr>it_next := q\<rparr>)"
  let ?e = "unat (it_next ?it)"
  let ?J = "if it_next ?it \<noteq> mem_size_aligned m + SIZEOF_STRUCT_MEM then ?I(?e := (?I ?e)\<lparr>it_prev := q\<rparr>) else ?I"
  have e: "?e = ext xs + n" by (rule A(5))
  have ne: "unat p \<noteq> unat q" "?e \<noteq> unat p" "?e \<noteq> unat q" using p q e k by simp_all
  have le: "unat p \<le> sm_extent m" "unat q \<le> sm_extent m" "?e \<le> sm_extent m" using A(3) p q e k by simp_all
  have lim: "unat (mem_size_aligned m + 12) = sm_extent m"
    using c by (subst unat_plus_word) (simp_all add: sm_core_def sm_extent_def)
  have end_iff: "it_next ?it \<noteq> mem_size_aligned m + SIZEOF_STRUCT_MEM \<longleftrightarrow> ys \<noteq> []"
  proof -
    have "it_next ?it = mem_size_aligned m + SIZEOF_STRUCT_MEM \<longleftrightarrow> ext ys = 0"
      using lim e A(3) by (auto simp: word_unat_eq_iff)
    moreover have "ext ys = 0 \<longleftrightarrow> ys = []"
    proof (cases ys)
      case (Cons b zs)
      obtain n' u' where b: "b = (n', u')" by (cases b)
      have "sm_core m ((xs @ [(n, u)]) @ (n', u') # zs)" using c Cons b by simp
      from core_at(1) [OF this] show ?thesis using Cons b by simp
    qed simp
    ultimately show ?thesis by metis
  qed
  have s: "split_item p q m = Some (m\<lparr>sm_item := ?J\<rparr>)"
    using le p ne by (simp add: split_item_def MEM_tag fun_upd_twist Let_def)
  have "sm_core (m\<lparr>sm_item := ?J\<rparr>) (xs @ [(k, u), (n - k, False)] @ ys)"
  proof (rule core_splice [OF cm])
    show "layout ?J (sm_address m) (last_pos 0 0 xs) (ext xs) [(k, u), (n - k, False)] (ext xs + ext [(n, u)])"
      using A k p q ne e by (auto simp: dvd_diff_nat)
    show "ys \<noteq> [] \<Longrightarrow> unat (it_prev (?J (ext xs + ext [(n, u)]))) = last_pos (last_pos 0 0 xs) (ext xs) [(k, u), (n - k, False)]"
      using end_iff e q ne by simp
    show "same_but_prev (sm_item m (ext xs + ext [(n, u)])) (?J (ext xs + ext [(n, u)]))"
      using e p q k ne by (auto simp: same_but_prev_def)
    show "z < ext xs \<Longrightarrow> ?J z = sm_item m z" for z using p q e by auto
    show "ext xs + ext [(n, u)] < z \<Longrightarrow> ?J z = sm_item m z" for z using p q e k by auto
  qed (use k in simp)
  then show ?thesis using s by (intro exI [of _ ?J]) simp
qed

lemma smem_next_free_ok:
  assumes "sm_core m (xs @ ys)" and "unat l = ext xs"
  shows "\<exists>l'. smem_next_free m l = Some l' \<and> unat l' = first_free (ext xs) ys"
  using assms
proof (induction ys arbitrary: xs l)
  case Nil
  have e: "ext xs = sm_extent m" using core_ext [OF Nil.prems(1)] by simp
  then have "l = heap_end m" using Nil.prems by (simp add: sm_core_def word_unat_eq_iff)
  moreover have "item_at l m = Some (sm_item m (unat l))" using Nil.prems(2) e by simp
  ultimately show ?case using Nil.prems(2) by (subst smem_next_free.simps) simp
next
  case (Cons b ys)
  obtain n u where b: "b = (n, u)" by (cases b)
  have c: "sm_core m (xs @ (n, u) # ys)" using Cons.prems(1) b by simp
  note A = core_at [OF c]
  let ?it = "sm_item m (ext xs)"
  have at: "item_at l m = Some ?it" using A(3) Cons.prems(2) by simp
  have used: "MEM_ISUSED ?it = u" by (rule tag_used [OF A(4)])
  show ?case
  proof (cases u)
    case True
    have "l \<noteq> heap_end m" using c Cons.prems(2) A(1,3) by (auto simp: sm_core_def)
    moreover have "\<exists>l'. smem_next_free m (it_next ?it) = Some l' \<and> unat l' = first_free (ext (xs @ [(n, u)])) ys"
      by (rule Cons.IH) (use c A(5) in simp_all)
    ultimately show ?thesis using True at used b by (subst smem_next_free.simps) simp
  next
    case False
    then show ?thesis using at used b Cons.prems(2) by (subst smem_next_free.simps) simp
  qed
qed

lemma count_used_sel [simp]:
  "sm_core (count_used k m) bs = sm_core m bs" "lfree (count_used k m) = lfree m" "sm_used (count_used k m) = sm_used m + k"
  "sm_used m + k \<le> sm_max (count_used k m)" "sm_same m' (count_used k m) = sm_same m' m" "sm_byte (count_used k m) = sm_byte m"
  "sm_max m \<le> sm_max (count_used k m)" "sm_item (count_used k m) = sm_item m" "sm_address (count_used k m) = sm_address m"
  by (auto simp: count_used_def Let_def sm_same_def)

lemma carve_ext: "s + 12 \<le> n \<Longrightarrow> ext (carve s n) = n" "s + 12 \<le> n \<Longrightarrow> used_ext (carve s n) = (if s + 36 \<le> n then s + 12 else n)"
  by (auto simp: carve_def)

lemma carve_coalesced:
  "coalesced (xs @ (n, False) # ys) \<Longrightarrow> coalesced (xs @ carve s n @ ys)"
  by (auto simp: carve_def coalesced_append coalesced_Cons)

text \<open>Cutting the item, the first half of \<open>smem_take\<close>.\<close>

lemma cut_ok:
  assumes w: "sm_wf m (xs @ (n, False) # ys)" and p: "unat p = ext xs"
    and s: "12 \<le> unat s" "4 dvd unat s" "unat s + 12 \<le> n"
  defines "k \<equiv> if unat s + 36 \<le> n then unat s + 12 else n"
    and "rest \<equiv> if unat s + 36 \<le> n then [(n - (unat s + 12), False)] else []"
  shows "\<exists>m1. (if s + SIZEOF_STRUCT_MEM + MIN_SIZE_ALIGNED \<le> it_next (sm_item m (ext xs)) - (p + SIZEOF_STRUCT_MEM)
      then map_option (count_used (s + SIZEOF_STRUCT_MEM)) (split_item p (p + SIZEOF_STRUCT_MEM + s) m)
      else Some (count_used (it_next (sm_item m (ext xs)) - p) m)) = Some m1 \<and>
    sm_core m1 (xs @ (k, False) # rest @ ys) \<and> unat (sm_used m1) = unat (sm_used m) + k \<and> sm_used m1 \<le> sm_max m1 \<and>
    lfree m1 = lfree m \<and> sm_same m m1 \<and> sm_byte m1 = sm_byte m"
proof -
  have c: "sm_core m (xs @ (n, False) # ys)" using w by (simp add: sm_wf_def)
  note A = core_at [OF c]
  have lim: "sm_extent m + 12 < 2 ^ 32" using c by (simp add: sm_core_def)
  have "unat (p + 12) = ext xs + 12" using p A(3) lim by (subst unat_plus_word) simp_all
  then have sz: "unat (it_next (sm_item m (ext xs)) - (p + 12)) = n - 12" using A(1,5) by (subst unat_minus_word) simp_all
  have nx: "unat (it_next (sm_item m (ext xs)) - p) = n" using A(5) p by (subst unat_minus_word) simp_all
  have "unat (s + 12) = unat s + 12" using s A(3) lim by (subst unat_plus_word) simp_all
  moreover from this have "unat (s + 12 + 12) = unat s + 24" using s A(3) lim by (subst unat_plus_word) simp_all
  ultimately have sw: "unat (s + 12) = unat s + 12" "unat (s + 12 + 12) = unat s + 24" by blast+
  have cond: "s + SIZEOF_STRUCT_MEM + MIN_SIZE_ALIGNED \<le> it_next (sm_item m (ext xs)) - (p + SIZEOF_STRUCT_MEM) \<longleftrightarrow> unat s + 36 \<le> n"
    using sw sz A(1) by (auto simp: word_le_nat_alt)
  have us: "unat (sm_used m) = used_ext xs + used_ext ys" using w by (simp add: sm_wf_def)
  then have "unat (sm_used m) + n \<le> sm_extent m" using A(3) used_ext_le [of xs] used_ext_le [of ys] by linarith
  then have ad: "unat (sm_used m + w) = unat (sm_used m) + unat w" if "unat w \<le> n" for w
    using that lim by (subst unat_plus_word) simp_all
  show ?thesis
  proof (cases "unat s + 36 \<le> n")
    case True
    have "unat (p + 12 + s) = ext xs + (unat s + 12)"
      using p A(3) True lim by (simp add: unat_plus_word)
    from split_item_ok [OF c p this] s True obtain I where I: "split_item p (p + 12 + s) m = Some (m\<lparr>sm_item := I\<rparr>)"
        "sm_core (m\<lparr>sm_item := I\<rparr>) (xs @ (unat s + 12, False) # (n - (unat s + 12), False) # ys)"
      by auto
    have "s + 12 + 12 \<le> it_next (sm_item m (ext xs)) - (p + 12)" using cond True by simp
    then show ?thesis
      using True I ad [of "s + 12"] sw s(3) count_used_sel(4) [of "m\<lparr>sm_item := I\<rparr>" "s + 12"] unfolding k_def rest_def
      by (intro exI [of _ "count_used (s + 12) (m\<lparr>sm_item := I\<rparr>)"]) (simp add: sm_same_def [of m "m\<lparr>sm_item := I\<rparr>"])
  next
    case False
    then have "\<not> s + 12 + 12 \<le> it_next (sm_item m (ext xs)) - (p + 12)" using cond by simp
    then show ?thesis
      using False c nx ad [of "it_next (sm_item m (ext xs)) - p"] unfolding k_def rest_def
      by (intro exI [of _ "count_used (it_next (sm_item m (ext xs)) - p) m"]) simp
  qed
qed

lemma smem_take_ok:
  assumes w: "sm_wf m (xs @ (n, False) # ys)" and p: "unat p = ext xs"
    and s: "12 \<le> unat s" "4 dvd unat s" "unat s + 12 \<le> n"
  shows "\<exists>m'. smem_take p s m = Some m' \<and> sm_wf m' (xs @ carve (unat s) n @ ys) \<and> sm_same m m' \<and> sm_byte m' = sm_byte m"
proof -
  have c: "sm_core m (xs @ (n, False) # ys)" using w by (simp add: sm_wf_def)
  note A = core_at [OF c]
  let ?k = "if unat s + 36 \<le> n then unat s + 12 else n"
  let ?rest = "if unat s + 36 \<le> n then [(n - (unat s + 12), False)] else []"
  let ?cut = "if s + SIZEOF_STRUCT_MEM + MIN_SIZE_ALIGNED \<le> it_next (sm_item m (ext xs)) - (p + SIZEOF_STRUCT_MEM)
      then map_option (count_used (s + SIZEOF_STRUCT_MEM)) (split_item p (p + SIZEOF_STRUCT_MEM + s) m)
      else Some (count_used (it_next (sm_item m (ext xs)) - p) m)"
  have carve: "carve (unat s) n = (?k, True) # ?rest" by (simp add: carve_def)
  obtain m1 where m1: "?cut = Some m1" "sm_core m1 (xs @ (?k, False) # ?rest @ ys)" "unat (sm_used m1) = unat (sm_used m) + ?k"
      "sm_used m1 \<le> sm_max m1" "lfree m1 = lfree m" "sm_same m m1" "sm_byte m1 = sm_byte m"
    using cut_ok [OF w p s] by blast
  define m2 where "m2 = m1\<lparr>sm_item := (sm_item m1)(ext xs := (sm_item m1 (ext xs))\<lparr>pool_ptr := tag (sm_address m1) True\<rparr>)\<rparr>"
  have c2: "sm_core m2 (xs @ carve (unat s) n @ ys)"
    using core_free [OF m1(2), of True] unfolding carve m2_def by simp
  have f2: "lfree m2 = lfree m" "sm_same m m2" "sm_byte m2 = sm_byte m" "sm_used m2 = sm_used m1" "sm_max m2 = sm_max m1"
    using m1 by (simp_all add: m2_def sm_same_def)
  have set2: "set_item p (\<lambda>i. i\<lparr>pool_ptr := MEM_USED m1\<rparr>) m1 = Some m2"
    using p A(3) sm_same_extent [OF m1(6)] by (simp add: m2_def MEM_tag)
  have ff: "unat (lfree m) = first_free 0 (xs @ (n, False) # ys)" using w by (simp add: sm_wf_def)
  have eq: "p = lfree m2 \<longleftrightarrow> (\<forall>b \<in> set xs. snd b)"
  proof (cases "\<forall>b \<in> set xs. snd b")
    case True
    then show ?thesis using ff p f2 by (simp add: first_free_append word_unat_eq_iff)
  next
    case False
    then obtain as k bs where xs: "xs = as @ (k, False) # bs"
      by (metis prod.collapse split_list)
    have "12 \<le> k" using core_at(1) [of m as k False "bs @ (n, False) # ys"] c xs by simp
    moreover have "first_free 0 xs \<le> ext as" using first_free_bounds(2) [of 0 as] xs by (auto simp: first_free_append)
    moreover have "unat (lfree m) = first_free 0 xs" using ff False unfolding first_free_append by (simp only: if_False)
    ultimately have "unat (lfree m) < ext xs" using xs by simp
    then show ?thesis using False p f2 by auto
  qed
  have "\<exists>m3. (if p = lfree m2
      then do {
        l \<leftarrow> smem_next_free m2 (lfree m2);
        it \<leftarrow> item_at l m2;
        rt_assert (l = heap_end m2 \<or> \<not> MEM_ISUSED it);
        Some (m2\<lparr>lfree := l\<rparr>) }
      else Some m2) = Some m3 \<and> unat (lfree m3) = first_free 0 (xs @ carve (unat s) n @ ys) \<and> (\<exists>l. m3 = m2\<lparr>lfree := l\<rparr>)"
  proof (cases "p = lfree m2")
    case True
    then have used: "\<forall>b \<in> set xs. snd b" and l: "unat (lfree m2) = ext xs" using eq p by simp_all
    obtain l where l': "smem_next_free m2 (lfree m2) = Some l" "unat l = first_free (ext xs) (carve (unat s) n @ ys)"
      using smem_next_free_ok [OF c2 l] by blast
    let ?bs = "xs @ carve (unat s) n @ ys"
    have fl: "unat l = first_free 0 ?bs" using l'(2) used by (simp add: first_free_append)
    obtain pre post where b: "?bs = pre @ post" "\<forall>b \<in> set pre. snd b" "unat l = ext pre"
      and hd: "post = [] \<or> (\<exists>k zs. post = (k, False) # zs)"
      using first_free_stop [of ?bs 0] unfolding fl add_0 by blast
    have cb: "sm_core m2 (pre @ post)" using c2 b(1) by simp
    have "item_at l m2 = Some (sm_item m2 (ext pre))" using b(3) core_ext [OF cb] by simp
    moreover have "l = heap_end m2 \<or> \<not> MEM_ISUSED (sm_item m2 (ext pre))"
    proof (cases "post = []")
      case True
      then show ?thesis using b(3) core_ext [OF cb] cb by (simp add: sm_core_def word_unat_eq_iff)
    next
      case False
      then obtain k zs where "post = (k, False) # zs" using hd by blast
      then show ?thesis using tag_used [OF core_at(4), of m2 pre k False zs] cb by simp
    qed
    ultimately show ?thesis using True l'(1) fl by (intro exI [of _ "m2\<lparr>lfree := l\<rparr>"]) auto
  next
    case False
    then have "\<not> (\<forall>b \<in> set xs. snd b)" using eq by blast
    then have "first_free 0 (xs @ (n, False) # ys) = first_free 0 (xs @ carve (unat s) n @ ys)"
      unfolding first_free_append by (simp only: if_False)
    then have "unat (lfree m2) = first_free 0 (xs @ carve (unat s) n @ ys)" using f2(1) ff by simp
    then show ?thesis using False by (intro exI [of _ m2] conjI exI [of _ "lfree m2"]) simp_all
  qed
  then obtain m3 l where m3: "(if p = lfree m2
      then do {
        l \<leftarrow> smem_next_free m2 (lfree m2);
        it \<leftarrow> item_at l m2;
        rt_assert (l = heap_end m2 \<or> \<not> MEM_ISUSED it);
        Some (m2\<lparr>lfree := l\<rparr>) }
      else Some m2) = Some m3" "unat (lfree m3) = first_free 0 (xs @ carve (unat s) n @ ys)" "m3 = m2\<lparr>lfree := l\<rparr>"
    by blast
  have s3: "sm_same m m3" using f2(2) m3(3) by (simp add: sm_same_def)
  have lim: "unat (heap_ptr m) + sm_extent m + 12 < 2 ^ 32" "unat (heap_end m) = sm_extent m" using c by (simp_all add: sm_core_def)
  have w1: "unat (heap_ptr m + p) = unat (heap_ptr m) + ext xs" using p A(3) lim by (subst unat_plus_word) simp_all
  then have w2: "unat (heap_ptr m + p + 12) = unat (heap_ptr m) + ext xs + 12" using p A(3) lim by (subst unat_plus_word) simp_all
  then have w3: "unat (heap_ptr m + p + 12 + s) = unat (heap_ptr m) + ext xs + 12 + unat s"
    using A(3) lim s(3) by (subst unat_plus_word) simp_all
  have w4: "unat (heap_ptr m + heap_end m) = unat (heap_ptr m) + sm_extent m" using lim by (subst unat_plus_word) simp_all
  have al: "4 dvd unat (heap_ptr m)" "4 dvd ext xs" using c core_dvd [OF c] by (simp_all add: sm_core_def)
  have a1: "heap_ptr m + p + 12 + s \<le> heap_ptr m + heap_end m" using w3 w4 A(3) s(3) by (simp add: word_le_nat_alt)
  have a2: "(heap_ptr m + p + 12) mod 4 = 0"
    using w2 al by (simp add: word_unat_eq_iff unat_mod)
  have a3: "(heap_ptr m + p) AND 3 = 0" using w1 al by (simp add: and_3_mod)
  have hp: "heap_ptr m3 = heap_ptr m" "heap_end m3 = heap_end m" using s3 by (simp_all add: sm_same_def)
  have at: "item_at p m = Some (sm_item m (ext xs))" using p A(3) by simp
  have "smem_take p s m = Some m3"
    unfolding smem_take_def at Option.bind.simps m1(1) set2 m3(1) hp using a1 a2 a3 by simp
  moreover have "sm_wf m3 (xs @ carve (unat s) n @ ys)"
  proof -
    have "unat (sm_used m3) = used_ext (xs @ carve (unat s) n @ ys)"
      using m3(3) f2(4) m1(3) w carve_ext(2) [OF s(3)] by (simp add: sm_wf_def)
    moreover have "\<forall>b \<in> set (xs @ carve (unat s) n @ ys). snd b \<longrightarrow> 16 \<le> fst b"
      using w s unfolding carve_def sm_wf_def by auto
    ultimately show ?thesis
      using c2 m3(2,3) f2(4,5) m1(4) carve_coalesced w by (simp add: sm_wf_def)
  qed
  ultimately show ?thesis using s3 f2(3) m3(3) by (intro exI [of _ m3]) simp
qed

text \<open>The bytes an item must have for a request; the rounding may wrap around.\<close>

definition grant :: "u32 \<Rightarrow> nat" where
  "grant size1 = max 12 (unat (RT_ALIGN size1 4))"

lemma grant_dvd: "4 dvd grant size1" "12 \<le> grant size1"
  using and_not_3 [of "size1 + 3"] by (auto simp: grant_def max_def RT_ALIGN_def add.commute)

lemma grant_enough: "unat size1 + 3 < 2 ^ 32 \<Longrightarrow> grant size1 = max 12 ((unat size1 + 3) div 4 * 4)"
  by (simp add: grant_def align4)

lemma grant_wrapped: "2 ^ 32 \<le> unat size1 + 3 \<Longrightarrow> grant size1 = 12"
proof -
  assume "2 ^ 32 \<le> unat size1 + 3"
  moreover have "unat size1 < 2 ^ 32" using unsigned_less [of size1] by simp
  ultimately have "(unat size1 + 3) mod 2 ^ 32 < 4" by (subst le_mod_geq) simp_all
  then have "unat (size1 + 3) < 4" by (simp add: unat_word_ariths)
  then show ?thesis using and_not_3 [of "size1 + 3"] by (simp add: grant_def RT_ALIGN_def add.commute)
qed

lemma smem_alloc_ok:
  assumes w: "sm_wf m bs" and t: "12 \<le> unat (mem_size_aligned m)" and z: "size1 \<noteq> 0"
  shows "case fit (grant size1) bs of
      None \<Rightarrow> rt_smem_alloc size1 m = Some (None, m)
    | Some (xs, n, ys) \<Rightarrow> \<exists>a m'. rt_smem_alloc size1 m = Some (Some a, m') \<and> unat a = user_at m (ext xs) \<and>
        sm_wf m' (xs @ carve (grant size1) n @ ys) \<and> sm_same m m' \<and> sm_byte m' = sm_byte m"
proof -
  let ?al = "RT_ALIGN size1 4"
  let ?s = "if ?al < MIN_SIZE_ALIGNED then MIN_SIZE_ALIGNED else ?al"
  have r: "unat ?s = grant size1" by (auto simp: grant_def word_less_nat_alt max_def)
  have c: "sm_core m bs" using w by (simp add: sm_wf_def)
  show ?thesis
  proof (cases "mem_size_aligned m < ?al")
    case True
    have "fit (grant size1) bs = None"
    proof (rule ccontr)
      assume "fit (grant size1) bs \<noteq> None"
      then obtain xs n ys where "fit (grant size1) bs = Some (xs, n, ys)" by auto
      then have b: "bs = xs @ (n, False) # ys" "grant size1 + 12 \<le> n" using fit_Some by blast+
      then have "n \<le> sm_extent m" using core_at(3) [of m xs n False ys] c by simp
      moreover have "unat ?al \<le> grant size1" by (simp add: grant_def)
      ultimately show False using True b(2) by (simp add: word_less_nat_alt sm_extent_def)
    qed
    then show ?thesis using True z by (simp add: rt_smem_alloc_def Let_def)
  next
    case False
    have le: "unat ?s \<le> unat (mem_size_aligned m)" using False t by (simp add: word_less_nat_alt)
    obtain f where f: "smem_find m ?s (lfree m) = Some f" "case fit (grant size1) bs of None \<Rightarrow> f = None
        | Some (as, _, _) \<Rightarrow> \<exists>q. f = Some q \<and> unat q = ext as"
      using smem_find_first [OF w le] r by auto
    have e: "rt_smem_alloc size1 m = (case f of None \<Rightarrow> Some (None, m) | Some ptr \<Rightarrow> do {
        m \<leftarrow> smem_take ptr ?s m;
        Some (Some (heap_ptr m + ptr + SIZEOF_STRUCT_MEM), m) })"
      unfolding rt_smem_alloc_def Let_def using z False f(1) by (simp only: if_False Option.bind.simps)
    show ?thesis
    proof (cases "fit (grant size1) bs")
      case None
      then show ?thesis using e f(2) by simp
    next
      case (Some x)
      obtain xs n ys where x: "x = (xs, n, ys)" by (cases x)
      have b: "bs = xs @ (n, False) # ys" "unat ?s + 12 \<le> n" using fit_Some [of "grant size1" bs xs n ys] Some x r by simp_all
      obtain q where q: "f = Some q" "unat q = ext xs" using f(2) Some x by auto
      obtain m' where m': "smem_take q ?s m = Some m'" "sm_wf m' (xs @ carve (unat ?s) n @ ys)" "sm_same m m'" "sm_byte m' = sm_byte m"
        using smem_take_ok [OF w [unfolded b(1)] q(2)] b(2) grant_dvd r by metis
      have cx: "sm_core m (xs @ (n, False) # ys)" using c b(1) by simp
      have lim: "unat (heap_ptr m) + sm_extent m + 12 < 2 ^ 32" using cx by (simp add: sm_core_def)
      have "unat (heap_ptr m + q + 12) = user_at m (ext xs)"
        using core_at(3) [OF cx] q(2) lim by (simp add: unat_plus_word user_at_def)
      then show ?thesis using e Some x q(1) m' r by (simp add: sm_same_def)
    qed
  qed
qed

section \<open>A new heap\<close>

lemma mask_even: "unat x mod 4 = 0 \<Longrightarrow> x AND MEM_MASK = x" for x :: u32
proof -
  assume "unat x mod 4 = 0"
  then have z: "x AND 3 = 0" by (simp add: and_3_mod)
  have "\<not> bit x 0"
  proof
    assume "bit x 0"
    then have "bit (x AND 3) 0" by (simp add: bit_and_iff)
    then show False using z by simp
  qed
  then show ?thesis unfolding mask_not by (intro bit_word_eqI) (auto simp: bit_simps bit_1_iff intro: gr0I)
qed

lemma smem_init_ok:
  assumes a: "unat begin_addr + 64 < 2 ^ 32" and z: "unat begin_addr + unat size1 < 2 ^ 32"
  defines "b \<equiv> (unat begin_addr + 3) div 4 * 4" and "e \<equiv> (unat begin_addr + unat size1) div 4 * 4"
  shows "if b + 80 \<le> e
    then \<exists>m. rt_smem_init begin_addr size1 junk bytes = Some m \<and> sm_wf m [(e - b - 68, False)] \<and>
      unat (heap_ptr m) = b + 56 \<and> unat (mem_size_aligned m) = e - b - 80 \<and> unat (sm_address m) = b
    else rt_smem_init begin_addr size1 junk bytes = None"
proof -
  let ?sm = "RT_ALIGN begin_addr 4"
  let ?st = "?sm + sizeof_small_mem"
  let ?ba = "RT_ALIGN ?st 4"
  let ?ea = "RT_ALIGN_DOWN (begin_addr + size1) 4"
  have b: "unat ?sm = b" using a by (simp add: b_def align4)
  have bb: "b < unat begin_addr + 4" "b mod 4 = 0" "e mod 4 = 0" "e \<le> unat begin_addr + unat size1" by (auto simp: b_def e_def)
  have st: "unat ?st = b + 56" using b bb(1) a by (subst unat_plus_word) (simp_all add: sizeof_small_mem_def)
  have ba: "unat ?ba = b + 56"
  proof -
    have "(b + 56 + 3) div 4 * 4 = b + 56" using bb(2) by presburger
    then show ?thesis using st bb(1) a by (subst align4) simp_all
  qed
  have ea: "unat ?ea = e" using z by (simp add: align_down4 unat_plus_word e_def)
  show ?thesis
  proof (cases "b + 80 \<le> e")
    case True
    let ?ms = "?ea - ?ba - 2 * SIZEOF_STRUCT_MEM"
    let ?e = "?ms + SIZEOF_STRUCT_MEM"
    have ms: "unat ?ms = e - b - 80" using True ea ba by (simp add: unat_minus_word)
    have e32: "e < 2 ^ 32" using bb(4) z by simp
    have ue: "unat ?e = e - b - 68" using ms True e32 by (subst unat_plus_word) simp_all
    have "unat (?ea - 24) = e - 24" using True ea by (subst unat_minus_word) simp_all
    then have c: "2 * SIZEOF_STRUCT_MEM < ?ea \<and> ?st \<le> ?ea - 2 * SIZEOF_STRUCT_MEM"
      using True ea st by (simp add: word_less_nat_alt word_le_nat_alt)
    let ?m = "\<lparr>sm_address = ?sm, sm_total = ?ms, sm_used = 0, sm_max = 0, heap_ptr = ?ba,
                      heap_end = ?e, lfree = 0, mem_size_aligned = ?ms, sm_item = junk, sm_byte = bytes\<rparr>"
    let ?m' = "?m\<lparr>sm_item := junk(0 := \<lparr>pool_ptr = MEM_FREED ?m, it_next = ?e, it_prev = 0\<rparr>,
                                       unat ?e := \<lparr>pool_ptr = MEM_USED ?m, it_next = ?e, it_prev = ?e\<rparr>)\<rparr>"
    have i: "rt_smem_init begin_addr size1 junk bytes = Some ?m'"
      unfolding rt_smem_init_def Let_def using c by simp
    have x: "sm_extent ?m' = e - b - 68" using ms True by (simp add: sm_extent_def)
    have "4 dvd e - b - 68" using bb(2,3) True by presburger
    moreover have "4 dvd b + 56" using bb(2) by presburger
    ultimately have "sm_core ?m' [(e - b - 68, False)]"
      unfolding sm_core_def x using True ue ba b e32 mask_even [of ?sm] bb(2) by (simp add: MEM_tag)
    then have "sm_wf ?m' [(e - b - 68, False)]" by (simp add: sm_wf_def coalesced_Cons)
    then show ?thesis using True i ba ms b by simp
  next
    case False
    have "\<not> (2 * SIZEOF_STRUCT_MEM < ?ea \<and> ?st \<le> ?ea - 2 * SIZEOF_STRUCT_MEM)"
    proof
      assume c: "2 * SIZEOF_STRUCT_MEM < ?ea \<and> ?st \<le> ?ea - 2 * SIZEOF_STRUCT_MEM"
      then have "24 < e" using ea by (simp add: word_less_nat_alt)
      then have "unat (?ea - 24) = e - 24" using ea by (subst unat_minus_word) simp_all
      then have "b + 56 \<le> e - 24" using c st by (simp add: word_le_nat_alt)
      then show False using False \<open>24 < e\<close> by linarith
    qed
    then show ?thesis using False unfolding rt_smem_init_def Let_def by simp
  qed
qed

section \<open>The items of a heap as a function of its memory\<close>

fun walk_items :: "nat \<Rightarrow> rt_small_mem \<Rightarrow> nat \<Rightarrow> item_list" where
  "walk_items 0 m p = []"
| "walk_items (Suc k) m p =
    (if p < sm_extent m
     then (unat (it_next (sm_item m p)) - p, MEM_ISUSED (sm_item m p)) # walk_items k m (unat (it_next (sm_item m p)))
     else [])"

definition sm_items :: "rt_small_mem \<Rightarrow> item_list" where
  "sm_items m = walk_items (sm_extent m) m 0"

lemma walk_items_ok:
  assumes "layout (sm_item m) (sm_address m) pv p bs (sm_extent m)" and "length bs \<le> k"
  shows "walk_items k m p = bs"
  using assms
proof (induction k arbitrary: pv p bs)
  case (Suc k)
  show ?case
  proof (cases bs)
    case Nil
    then show ?thesis using Suc.prems by simp
  next
    case (Cons b bs')
    obtain n u where b: "b = (n, u)" by (cases b)
    have l: "12 \<le> n" "pool_ptr (sm_item m p) = tag (sm_address m) u" "unat (it_next (sm_item m p)) = p + n"
      "layout (sm_item m) (sm_address m) p (p + n) bs' (sm_extent m)" using Suc.prems(1) Cons b by simp_all
    have "p < sm_extent m" using l(1) layout_end [OF l(4)] by simp
    then show ?thesis using Suc.IH [OF l(4)] Suc.prems(2) Cons b l(3) tag_used [OF l(2)] by simp
  qed
qed simp

lemma layout_length: "layout I a pv p bs e \<Longrightarrow> length bs \<le> ext bs"
  by (induction bs arbitrary: pv p) fastforce+

lemma sm_items_ok: "sm_core m bs \<Longrightarrow> sm_items m = bs"
proof -
  assume c: "sm_core m bs"
  then have l: "layout (sm_item m) (sm_address m) 0 0 bs (sm_extent m)" by (simp add: sm_core_def)
  show ?thesis unfolding sm_items_def using walk_items_ok [OF l] layout_length [OF l] core_ext [OF c] by simp
qed

section \<open>The blocks in use\<close>

text \<open>The offsets and lengths of the bytes of the items in use.\<close>

fun live_at :: "nat \<Rightarrow> item_list \<Rightarrow> (nat \<times> nat) set" where
  "live_at p [] = {}"
| "live_at p ((n, u) # bs) = (if u then insert (p + 12, n - 12) (live_at (p + n) bs) else live_at (p + n) bs)"

lemma live_append [simp]: "live_at p (xs @ ys) = live_at p xs \<union> live_at (p + ext xs) ys"
  by (induction xs arbitrary: p) (auto simp: add.assoc)

lemma live_bounds:
  assumes "(a, n) \<in> live_at p bs" and "\<forall>b \<in> set bs. snd b \<longrightarrow> 16 \<le> fst b"
  shows "p + 12 \<le> a" "a + n \<le> p + ext bs" "4 \<le> n"
proof -
  have "p + 12 \<le> a \<and> a + n \<le> p + ext bs \<and> 4 \<le> n" using assms
  proof (induction bs arbitrary: p)
    case (Cons b bs)
    obtain k u where b: "b = (k, u)" by (cases b)
    have IH: "(a, n) \<in> live_at (p + k) bs \<Longrightarrow> p + k + 12 \<le> a \<and> a + n \<le> p + k + ext bs \<and> 4 \<le> n"
      using Cons.IH Cons.prems(2) by simp
    have "(a, n) \<in> live_at (p + k) bs \<or> u \<and> a = p + 12 \<and> n = k - 12 \<and> 16 \<le> k" using Cons.prems b by (auto split: if_splits)
    then show ?case using IH b by auto
  qed simp
  then show "p + 12 \<le> a" "a + n \<le> p + ext bs" "4 \<le> n" by simp_all
qed

lemma live_separate:
  assumes "(a, n) \<in> live_at p bs" and "(b, k) \<in> live_at p bs" and "(a, n) \<noteq> (b, k)" and "\<forall>b \<in> set bs. snd b \<longrightarrow> 16 \<le> fst b"
  shows "a + n \<le> b \<or> b + k \<le> a"
  using assms
proof (induction bs arbitrary: p)
  case (Cons c bs)
  obtain l u where c: "c = (l, u)" by (cases c)
  have w: "\<forall>b \<in> set bs. snd b \<longrightarrow> 16 \<le> fst b" using Cons.prems(4) by simp
  have A: "(a, n) \<in> live_at (p + l) bs \<or> u \<and> a = p + 12 \<and> n = l - 12 \<and> 16 \<le> l" 
    and B: "(b, k) \<in> live_at (p + l) bs \<or> u \<and> b = p + 12 \<and> k = l - 12 \<and> 16 \<le> l"
    using Cons.prems c by (auto split: if_splits)
  show ?case
  proof (cases "(a, n) \<in> live_at (p + l) bs")
    case True
    then show ?thesis using B Cons.IH [OF True _ Cons.prems(3) w] live_bounds(1) [OF True w] by auto
  next
    case False
    then show ?thesis using A B live_bounds(1) [of b k "p + l" bs] w Cons.prems(3) by auto
  qed
qed simp

lemma live_split:
  assumes "(a, n) \<in> live_at p bs" and "\<forall>b \<in> set bs. snd b \<longrightarrow> 16 \<le> fst b"
  shows "\<exists>xs ys. bs = xs @ (n + 12, True) # ys \<and> a = p + ext xs + 12"
  using assms
proof (induction bs arbitrary: p)
  case (Cons b bs)
  obtain k u where b: "b = (k, u)" by (cases b)
  have w: "\<forall>b \<in> set bs. snd b \<longrightarrow> 16 \<le> fst b" using Cons.prems(2) by simp
  consider "(a, n) \<in> live_at (p + k) bs" | "u" "a = p + 12" "n = k - 12" "16 \<le> k"
    using Cons.prems b by (auto split: if_splits)
  then show ?case
  proof cases
    case 1
    then obtain xs ys where "bs = xs @ (n + 12, True) # ys" "a = p + k + ext xs + 12" using Cons.IH [OF _ w] by blast
    then show ?thesis using b by (intro exI [of _ "b # xs"] exI [of _ ys]) simp
  next
    case 2
    then show ?thesis using b by (intro exI [of _ "[]"] exI [of _ bs]) simp
  qed
qed simp

lemma live_plug: "live_at 0 (plug xs n ys) = live_at 0 xs \<union> live_at (ext xs + n) ys"
proof -
  obtain k zs where k: "plug_right n ys = (k, False) # zs" using plug_right_form by blast
  have r: "live_at (q + k) zs = live_at (q + n) ys" for q
    using k by (auto simp: plug_right_def add.assoc split: list.splits prod.splits bool.splits)
  show ?thesis
  proof (cases "rev xs")
    case Nil
    then show ?thesis using k r [of 0] by (simp add: plug_def plug_left_def)
  next
    case (Cons b rzs)
    obtain j u where b: "b = (j, u)" by (cases b)
    have xs: "xs = rev rzs @ [(j, u)]" using Cons b by (metis rev.simps(2) rev_rev_ident)
    show ?thesis using k r [of "ext (rev rzs) + j"] Cons b xs
      by (cases u) (simp_all add: plug_def plug_left_def add.assoc)
  qed
qed

section \<open>Changing the size of an item\<close>

text \<open>The part of \<open>rt_smem_realloc\<close> that keeps the item and gives its end back.\<close>

lemma smem_shrink_ok:
  assumes w: "sm_wf m (xs @ (n, True) # ys)" and p: "unat p = ext xs" and q: "unat q = ext xs + (r + 12)"
    and r: "4 dvd r" "0 < r" "r + 36 \<le> n" and d: "unat d = n - (r + 12)"
  defines "m0 \<equiv> m\<lparr>sm_used := sm_used m - d\<rparr>"
  shows "\<exists>m1 m2. split_item p q m0 = Some m1 \<and>
    plug_holes q (if q < lfree m1 then m1\<lparr>lfree := q\<rparr> else m1) = Some m2 \<and>
    sm_wf m2 (xs @ (r + 12, True) # plug_right (n - (r + 12)) ys) \<and> sm_same m m2 \<and> sm_byte m2 = sm_byte m"
proof -
  have c: "sm_core m0 (xs @ (n, True) # ys)" using w by (simp add: sm_wf_def m0_def)
  have dv: "4 dvd r + 12" "12 \<le> r + 12" "r + 12 + 12 \<le> n" using r by simp_all
  obtain I where I: "split_item p q m0 = Some (m0\<lparr>sm_item := I\<rparr>)"
      "sm_core (m0\<lparr>sm_item := I\<rparr>) (xs @ (r + 12, True) # (n - (r + 12), False) # ys)"
    using split_item_ok [OF c p q dv(2,3,1)] by blast
  let ?m1 = "m0\<lparr>sm_item := I\<rparr>" and ?xs = "xs @ [(r + 12, True)]" and ?k = "n - (r + 12)"
  let ?l = "if q < lfree m then q else lfree m"
  let ?m2 = "?m1\<lparr>lfree := ?l\<rparr>"
  have c2: "sm_core ?m2 (?xs @ (?k, False) # ys)" using I(2) by simp
  have ff: "unat (lfree m) = first_free 0 (xs @ (n, True) # ys)" using w by (simp add: sm_wf_def)
  have l: "unat (lfree ?m2) = first_free 0 (?xs @ (?k, False) # ys)"
  proof (cases "\<forall>b \<in> set xs. snd b")
    case True
    then have "ext xs + n \<le> unat (lfree m)" using ff first_free_bounds(1) [of "ext xs + n" ys] by (simp add: first_free_append)
    then show ?thesis using True q r(3) by (simp add: first_free_append word_less_nat_alt)
  next
    case False
    then have f: "unat (lfree m) = first_free 0 xs" using ff unfolding first_free_append by (simp only: if_False)
    moreover have "first_free 0 xs \<le> ext xs" using first_free_bounds(2) [of 0 xs] by simp
    moreover have "first_free 0 (xs @ (r + 12, True) # (?k, False) # ys) = first_free 0 xs"
      using False unfolding first_free_append by (simp only: if_False)
    ultimately show ?thesis using q by (simp add: word_less_nat_alt)
  qed
  obtain J where J: "plug_holes q ?m2 = Some (?m2\<lparr>sm_item := J\<rparr>)" "sm_core (?m2\<lparr>sm_item := J\<rparr>) (plug ?xs ?k ys)"
    using plug_holes_ok [OF c2 _ l] q by auto
  have pl: "plug ?xs ?k ys = xs @ (r + 12, True) # plug_right ?k ys" 
    using plug_right_form [of ?k ys] by (auto simp: plug_def plug_left_def)
  have eq: "(if q < lfree ?m1 then ?m1\<lparr>lfree := q\<rparr> else ?m1) = ?m2" by (cases m) (simp add: m0_def)
  have co: "coalesced ?xs" "coalesced ys" using w by (auto simp: sm_wf_def coalesced_append coalesced_Cons)
  have us: "unat (sm_used m) = used_ext xs + n + used_ext ys" using w by (simp add: sm_wf_def)
  then have u: "unat (sm_used m - d) = used_ext xs + (r + 12) + used_ext ys" using d r(3) by (subst unat_minus_word) simp_all
  have "sm_used m - d \<le> sm_max m" using u us w r(3) by (simp add: sm_wf_def word_le_nat_alt)
  have "4 \<le> r" using r(1,2) by (rule dvd_imp_le)
  then have "16 \<le> fst b" if "b \<in> set (plug ?xs ?k ys)" "snd b" for b
    using plug_set [OF that] w that(2) by (fastforce simp: sm_wf_def)
  with \<open>sm_used m - d \<le> sm_max m\<close> have "sm_wf (?m2\<lparr>sm_item := J\<rparr>) (plug ?xs ?k ys)"
    unfolding sm_wf_def
    using J(2) plug_coalesced [OF co] l u first_free_plug [of ?xs ?k ys] by (simp add: m0_def)
  then show ?thesis using I(1) J(1) eq unfolding pl by (auto simp: sm_same_def m0_def)
qed

lemma copy_bytes_sel [simp]:
  "sm_wf (copy_bytes d s n m) bs = sm_wf m bs" "sm_same m' (copy_bytes d s n m) = sm_same m' m" "heap_ptr (copy_bytes d s n m) = heap_ptr m"
  "user_at (copy_bytes d s n m) k = user_at m k"
  by (simp_all add: copy_bytes_def sm_wf_def sm_same_def user_at_def)

lemma same_user: "sm_same m m' \<Longrightarrow> user_at m' k = user_at m k"
  by (simp add: sm_same_def user_at_def)

text \<open>An item in use is not the one that an allocation takes; it stays where it is.\<close>

lemma two_items:
  assumes "xs @ (n, True) # ys = as @ (k, False) # cs"
  shows "(\<exists>zs. xs = as @ (k, False) # zs \<and> cs = zs @ (n, True) # ys) \<or> (\<exists>zs. as = xs @ (n, True) # zs \<and> ys = zs @ (k, False) # cs)"
  using assms by (auto simp: append_eq_append_conv2 Cons_eq_append_conv append_eq_Cons_conv)

lemma carve_live:
  "s + 12 \<le> k \<Longrightarrow> \<exists>l \<ge> s. live_at p (as @ carve s k @ cs) = insert (p + ext as + 12, l) (live_at p (as @ (k, False) # cs))"
  by (rule exI [of _ "if s + 36 \<le> k then s else k - 12"]) (auto simp: carve_def add.assoc)

lemma free_live:
  assumes "\<forall>b \<in> set (xs @ (n, True) # ys). snd b \<longrightarrow> 16 \<le> fst b"
  shows "live_at 0 (plug xs n ys) = live_at 0 (xs @ (n, True) # ys) - {(ext xs + 12, n - 12)}"
proof -
  have "(ext xs + 12, n - 12) \<notin> live_at 0 xs" using live_bounds(2) [of "ext xs + 12" "n - 12" 0 xs] assms by auto
  moreover have "(ext xs + 12, n - 12) \<notin> live_at (ext xs + n) ys"
    using live_bounds(1) [of "ext xs + 12" "n - 12" "ext xs + n" ys] assms by auto
  ultimately show ?thesis by (auto simp: live_plug)
qed

lemma live_new:
  assumes "\<forall>b \<in> set (as @ (k, False) # cs). snd b \<longrightarrow> 16 \<le> fst b" and "12 \<le> k"
  shows "(ext as + 12, l) \<notin> live_at 0 (as @ (k, False) # cs)"
proof
  assume "(ext as + 12, l) \<in> live_at 0 (as @ (k, False) # cs)"
  then consider "(ext as + 12, l) \<in> live_at 0 as" | "(ext as + 12, l) \<in> live_at (ext as + k) cs" by auto
  then show False
  proof cases
    case 1
    then show False using live_bounds(2) [OF 1] assms by auto
  next
    case 2
    then show False using live_bounds(1) [OF 2] assms by auto
  qed
qed

lemma smem_move_ok:
  assumes w: "sm_wf m (xs @ (n, True) # ys)" and a: "unat a = user_at m (ext xs)" and t: "12 \<le> unat (mem_size_aligned m)"
    and r: "4 dvd unat w" "w \<noteq> 0" "unat w \<le> unat (mem_size_aligned m)"
  defines "bs \<equiv> xs @ (n, True) # ys"
  shows "case fit (max 12 (unat w)) bs of
      None \<Rightarrow> rt_smem_alloc w m = Some (None, m)
    | Some (as, _, _) \<Rightarrow> \<exists>b m1 m2 bs'. rt_smem_alloc w m = Some (Some b, m1) \<and> unat b = user_at m (ext as) \<and>
        heap_ptr m1 = heap_ptr m \<and>
        rt_smem_free (Some a) (copy_bytes (ext as + 12) (ext xs + 12) k m1) = Some m2 \<and> sm_wf m2 bs' \<and> sm_same m m2 \<and>
        sm_byte m2 = sm_byte (copy_bytes (ext as + 12) (ext xs + 12) k m) \<and>
        (\<exists>l \<ge> max 12 (unat w). live_at 0 bs' = insert (ext as + 12, l) (live_at 0 bs - {(ext xs + 12, n - 12)}))"
proof -
  have wb: "sm_wf m bs" using w by (simp add: bs_def)
  have c: "sm_core m bs" using wb by (simp add: sm_wf_def)
  have lim: "unat (mem_size_aligned m) + 24 < 2 ^ 32" using c by (simp add: sm_core_def sm_extent_def)
  have "unat (RT_ALIGN w 4) = unat w" using r lim by (subst align4) (auto elim!: dvdE)
  then have g: "grant w = max 12 (unat w)" by (simp add: grant_def)
  note A = smem_alloc_ok [OF wb t r(2), unfolded g]
  show ?thesis
  proof (cases "fit (max 12 (unat w)) bs")
    case None
    then show ?thesis using A by simp
  next
    case (Some x)
    obtain as j cs where x: "x = (as, j, cs)" by (cases x)
    have f: "bs = as @ (j, False) # cs" "max 12 (unat w) + 12 \<le> j" using fit_Some [OF Some [unfolded x]] by simp_all
    obtain b m1 where m1: "rt_smem_alloc w m = Some (Some b, m1)" "unat b = user_at m (ext as)"
        "sm_wf m1 (as @ carve (max 12 (unat w)) j @ cs)" "sm_same m m1" "sm_byte m1 = sm_byte m"
      using A Some x by auto
    let ?m1 = "copy_bytes (ext as + 12) (ext xs + 12) k m1" and ?cv = "carve (max 12 (unat w)) j"
    obtain xs' ys' where l: "as @ ?cv @ cs = xs' @ (n, True) # ys'" "ext xs' = ext xs"
    proof -
      consider zs where "xs = as @ (j, False) # zs" "cs = zs @ (n, True) # ys" | zs where "as = xs @ (n, True) # zs"
        using two_items [of xs n ys as j cs] f(1) unfolding bs_def by blast
      then show ?thesis
      proof cases
        case 1
        have "as @ ?cv @ cs = (as @ ?cv @ zs) @ (n, True) # ys" using 1 by simp
        moreover have "ext (as @ ?cv @ zs) = ext xs" using 1 carve_ext(1) [OF f(2)] by simp
        ultimately show ?thesis by (rule that)
      next
        case 2
        have "as @ ?cv @ cs = xs @ (n, True) # (zs @ ?cv @ cs)" using 2 by simp
        then show ?thesis using that by blast
      qed
    qed
    have w1: "sm_wf ?m1 (xs' @ (n, True) # ys')" using m1(3) l(1) by simp
    have a1: "unat a = user_at ?m1 (ext xs')" using a l(2) same_user [OF m1(4)] by simp
    obtain m2 where m2: "rt_smem_free (Some a) ?m1 = Some m2" "sm_wf m2 (plug xs' n ys')" "sm_same ?m1 m2" "sm_byte m2 = sm_byte ?m1"
      using smem_free_ok [OF w1 a1] by blast
    have W: "\<forall>b \<in> set (xs' @ (n, True) # ys'). snd b \<longrightarrow> 16 \<le> fst b" using w1 unfolding sm_wf_def by blast
    obtain lg where lg: "max 12 (unat w) \<le> lg" "live_at 0 (as @ ?cv @ cs) = insert (ext as + 12, lg) (live_at 0 bs)"
      using carve_live [OF f(2), of 0 as cs] f(1) by auto
    have "(ext as + 12, lg) \<noteq> (ext xs + 12, n - 12)"
    proof
      assume "(ext as + 12, lg) = (ext xs + 12, n - 12)"
      moreover have "(ext xs + 12, n - 12) \<in> live_at 0 bs" by (simp add: bs_def)
      ultimately have "(ext as + 12, lg) \<in> live_at 0 (as @ (j, False) # cs)" using f(1) by simp
      moreover have "\<forall>b \<in> set (as @ (j, False) # cs). snd b \<longrightarrow> 16 \<le> fst b" using wb f(1) by (simp add: sm_wf_def)
      ultimately show False using live_new f(2) by fastforce
    qed
    then have "live_at 0 (plug xs' n ys') = insert (ext as + 12, lg) (live_at 0 bs - {(ext xs + 12, n - 12)})"
      unfolding free_live [OF W] l(1) [symmetric] lg(2) l(2) by auto
    moreover have "sm_byte ?m1 = sm_byte (copy_bytes (ext as + 12) (ext xs + 12) k m)"
      using m1(5) by (simp add: copy_bytes_def cong: if_cong)
    moreover have "sm_same m m2" using m1(4) m2(3) by (simp add: sm_same_def copy_bytes_def)
    moreover have "heap_ptr m1 = heap_ptr m" using m1(4) by (simp add: sm_same_def)
    ultimately show ?thesis using Some x m1(1,2) m2(1,2,4) lg(1) by auto
  qed
qed

section \<open>The heap is an allocator\<close>

definition sm_inv :: "rt_small_mem \<Rightarrow> bool" where
  "sm_inv m \<longleftrightarrow> sm_wf m (sm_items m) \<and> 12 \<le> unat (mem_size_aligned m)"

definition sm_live :: "rt_small_mem \<Rightarrow> (nat \<times> nat) set" where
  "sm_live m = (\<lambda>(a, n). (unat (heap_ptr m) + a, n)) ` live_at 0 (sm_items m)"

definition sm_room :: "rt_small_mem \<Rightarrow> nat set" where
  "sm_room m = {unat (heap_ptr m)..<unat (heap_ptr m) + sm_extent m}"

definition sm_alloc :: "u32 \<Rightarrow> rt_small_mem \<Rightarrow> (nat option \<times> rt_small_mem) option" where
  "sm_alloc r m = map_option (\<lambda>(x, m). (map_option unat x, m)) (rt_smem_alloc r m)"

definition sm_release :: "nat \<Rightarrow> rt_small_mem \<Rightarrow> rt_small_mem option" where
  "sm_release a m = rt_smem_free (Some (of_nat a)) m"

definition sm_need :: "u32 \<Rightarrow> nat" where
  "sm_need r = unat (RT_ALIGN r 4)"

lemma sm_invI: "sm_wf m bs \<Longrightarrow> 12 \<le> unat (mem_size_aligned m) \<Longrightarrow> sm_inv m \<and> sm_items m = bs"
  using sm_items_ok [of m bs] by (simp add: sm_inv_def sm_wf_def)

lemma sm_inv_min: "sm_inv m \<Longrightarrow> \<forall>b \<in> set (sm_items m). snd b \<longrightarrow> 16 \<le> fst b"
  unfolding sm_inv_def sm_wf_def by blast

lemma sm_inv_core: "sm_inv m \<Longrightarrow> sm_core m (sm_items m)"
  by (simp add: sm_inv_def sm_wf_def)

lemma same_room: "sm_same m m' \<Longrightarrow> sm_room m' = sm_room m"
  by (simp add: sm_room_def sm_same_def sm_extent_def)

lemma same_live: "sm_same m m' \<Longrightarrow> sm_live m' = (\<lambda>(a, n). (unat (heap_ptr m) + a, n)) ` live_at 0 (sm_items m')"
  by (simp add: sm_live_def sm_same_def)

lemma sm_alloc_none:
  assumes i: "sm_inv m" and e: "rt_smem_alloc r m = Some (None, m')"
  shows "m' = m"
proof (cases "r = 0")
  case False
  from i have w: "sm_wf m (sm_items m)" "12 \<le> unat (mem_size_aligned m)" by (simp_all add: sm_inv_def)
  show ?thesis using smem_alloc_ok [OF w False] e by (auto split: option.splits prod.splits)
qed (use e in \<open>simp add: rt_smem_alloc_def\<close>)

lemma sm_alloc_some:
  assumes i: "sm_inv m" and e: "rt_smem_alloc r m = Some (Some a, m')"
  shows "sm_inv m' \<and> sm_same m m' \<and> (\<exists>n \<ge> sm_need r. live_at 0 (sm_items m') = insert (unat a - unat (heap_ptr m), n) (live_at 0 (sm_items m))) \<and>
    unat (heap_ptr m) \<le> unat a \<and> (\<forall>k. (unat a - unat (heap_ptr m), k) \<notin> live_at 0 (sm_items m)) \<and> sm_byte m' = sm_byte m"
proof -
  from i have w: "sm_wf m (sm_items m)" "12 \<le> unat (mem_size_aligned m)" by (simp_all add: sm_inv_def)
  have z: "r \<noteq> 0" using e by (auto simp: rt_smem_alloc_def)
  note A = smem_alloc_ok [OF w z]
  obtain as k cs where f: "fit (grant r) (sm_items m) = Some (as, k, cs)"
    using A e by (cases "fit (grant r) (sm_items m)") auto
  have b: "sm_items m = as @ (k, False) # cs" "grant r + 12 \<le> k" using fit_Some [OF f] by simp_all
  have m': "unat a = user_at m (ext as)" "sm_wf m' (as @ carve (grant r) k @ cs)" "sm_same m m'" "sm_byte m' = sm_byte m"
    using A e f by auto
  have inv: "sm_inv m'" "sm_items m' = as @ carve (grant r) k @ cs"
    using sm_invI [OF m'(2)] w(2) m'(3) by (simp_all add: sm_same_def)
  obtain l where l: "grant r \<le> l" "live_at 0 (sm_items m') = insert (ext as + 12, l) (live_at 0 (sm_items m))"
    using carve_live [OF b(2), of 0 as cs] b(1) inv(2) by auto
  have "sm_need r \<le> grant r" by (simp add: sm_need_def grant_def)
  moreover have "(ext as + 12, j) \<notin> live_at 0 (sm_items m)" for j
    using live_new [of as k cs j] sm_inv_min [OF i] b by simp
  ultimately show ?thesis using inv(1) m' l by (auto simp: user_at_def intro!: exI [of _ l])
qed

lemma sm_release_live:
  assumes i: "sm_inv m" and a: "(a, n) \<in> live_at 0 (sm_items m)"
  shows "\<exists>m'. sm_release (unat (heap_ptr m) + a) m = Some m' \<and> sm_inv m' \<and> sm_same m m' \<and>
    live_at 0 (sm_items m') = live_at 0 (sm_items m) - {(a, n)} \<and> sm_byte m' = sm_byte m"
proof -
  from i have w: "sm_wf m (sm_items m)" "12 \<le> unat (mem_size_aligned m)" by (simp_all add: sm_inv_def)
  obtain xs ys where x: "sm_items m = xs @ (n + 12, True) # ys" "a = ext xs + 12"
    using live_split [OF a sm_inv_min [OF i]] by auto
  have c: "sm_core m (xs @ (n + 12, True) # ys)" using sm_inv_core [OF i] x(1) by simp
  have "unat (heap_ptr m) + a < 2 ^ 32" using c core_at(3) [OF c] x(2) by (simp add: sm_core_def)
  then have "unat (of_nat (unat (heap_ptr m) + a) :: u32) = unat (heap_ptr m) + a"
    unfolding unat_of_nat by simp
  then have u: "unat (of_nat (unat (heap_ptr m) + a) :: u32) = user_at m (ext xs)"
    using x(2) by (simp only: user_at_def) 
  obtain m' where m': "sm_release (unat (heap_ptr m) + a) m = Some m'" "sm_wf m' (plug xs (n + 12) ys)" "sm_same m m'" "sm_byte m' = sm_byte m"
    using smem_free_ok [OF w(1) [unfolded x(1)] u] unfolding sm_release_def by blast
  have inv: "sm_inv m'" "sm_items m' = plug xs (n + 12) ys"
    using sm_invI [OF m'(2)] w(2) m'(3) by (simp_all add: sm_same_def)
  have "live_at 0 (sm_items m') = live_at 0 (sm_items m) - {(a, n)}"
    using free_live [of xs "n + 12" ys] sm_inv_min [OF i] x inv(2) by simp
  then show ?thesis using m' inv(1) by blast
qed

lemma shift_image: "(\<lambda>(a, n). (h + a, n)) ` insert (x, k) A = insert (h + x, k) ((\<lambda>(a, n). (h + a, n)) ` A)"
  "(\<lambda>(a, n). (h + a, n)) ` (A - {(x, k)}) = (\<lambda>(a, n). (h + a, n)) ` A - {(h + x, k)}" for h :: nat
  by auto

interpretation heap: allocator sm_inv sm_live sm_room sm_alloc sm_release sm_need
proof
  fix m :: rt_small_mem and a n b k :: nat
  assume i: "sm_inv m" and a: "(a, n) \<in> sm_live m"
  obtain a' where a': "a = unat (heap_ptr m) + a'" "(a', n) \<in> live_at 0 (sm_items m)" using a by (auto simp: sm_live_def)
  note A = live_bounds [OF a'(2) sm_inv_min [OF i]]
  have e: "ext (sm_items m) = sm_extent m" by (rule core_ext [OF sm_inv_core [OF i]])
  show "{a..<a + n} \<subseteq> sm_room m" using A a'(1) e by (auto simp: sm_room_def)
  obtain m' where m': "sm_release a m = Some m'" "sm_inv m'" "sm_same m m'"
      "live_at 0 (sm_items m') = live_at 0 (sm_items m) - {(a', n)}"
    using sm_release_live [OF i a'(2)] a'(1) by auto
  have "sm_live m' = sm_live m - {(a, n)}"
    unfolding same_live [OF m'(3)] m'(4) shift_image a'(1) by (simp add: sm_live_def)
  then show "\<exists>m'. sm_release a m = Some m' \<and> sm_inv m' \<and> sm_room m' = sm_room m \<and> sm_live m' = sm_live m - {(a, n)}"
    using m'(1,2) same_room [OF m'(3)] by blast
  assume b: "(b, k) \<in> sm_live m" and ne: "(a, n) \<noteq> (b, k)"
  obtain b' where b': "b = unat (heap_ptr m) + b'" "(b', k) \<in> live_at 0 (sm_items m)" using b by (auto simp: sm_live_def)
  note B = live_bounds [OF b'(2) sm_inv_min [OF i]]
  have "a' + n \<le> b' \<or> b' + k \<le> a'"
    using live_separate [OF a'(2) b'(2) _ sm_inv_min [OF i]] ne a'(1) b'(1) by auto
  then show "a \<noteq> b \<and> (a + n \<le> b \<or> b + k \<le> a)" using A(3) B(3) a'(1) b'(1) by auto
next
  fix m m' r and a :: nat
  assume i: "sm_inv m" and e: "sm_alloc r m = Some (Some a, m')"
  then obtain w where w: "rt_smem_alloc r m = Some (Some w, m')" "a = unat w" by (auto simp: sm_alloc_def)
  note S = sm_alloc_some [OF i w(1)]
  from S obtain l where l: "sm_need r \<le> l" "live_at 0 (sm_items m') = insert (unat w - unat (heap_ptr m), l) (live_at 0 (sm_items m))"
    by blast
  have "sm_live m' = insert (a, l) (sm_live m)"
    using same_live [of m m'] S l(2) w(2) by (simp add: shift_image sm_live_def)
  moreover have "(a, k) \<notin> sm_live m" for k
    using S w(2) by (auto simp: sm_live_def)
  ultimately show "sm_inv m' \<and> sm_room m' = sm_room m \<and> (\<forall>k. (a, k) \<notin> sm_live m) \<and> (\<exists>n \<ge> sm_need r. sm_live m' = insert (a, n) (sm_live m))"
    using S same_room l(1) by blast
next
  fix m m' r
  assume i: "sm_inv m" and e: "sm_alloc r m = Some (None, m')"
  then have "m' = m" using sm_alloc_none [OF i] by (auto simp: sm_alloc_def)
  then show "sm_inv m' \<and> sm_room m' = sm_room m \<and> sm_live m' = sm_live m" using i by simp
qed

section \<open>Properties\<close>

lemma all_free: "live_at p bs = {} \<Longrightarrow> \<forall>b \<in> set bs. \<not> snd b"
proof (induction bs arbitrary: p)
  case (Cons b bs)
  obtain n u where b: "b = (n, u)" by (cases b)
  have "\<not> u" "live_at (p + n) bs = {}" using Cons.prems b by (auto split: if_splits)
  then show ?case using Cons.IH b by fastforce
qed simp

lemma coalesced_free:
  assumes "coalesced bs" and "\<forall>b \<in> set bs. \<not> snd b" and "0 < ext bs"
  shows "bs = [(ext bs, False)]"
proof -
  obtain b cs where b: "bs = b # cs" using assms(3) by (cases bs) auto
  have "cs = []" using assms(1,2) b by (cases cs) (auto simp: coalesced_Cons)
  then show ?thesis using b assms(2) by (cases b) simp
qed

text \<open>A heap of 200 bytes, and the same after one allocation; the witnesses use them.\<close>

lemma sample_heap:
  "\<exists>m0 m a. rt_smem_init 0x20000000 200 (\<lambda>_. \<lparr>pool_ptr = 0, it_next = 0, it_prev = 0\<rparr>) (\<lambda>_. 0) = Some m0 \<and>
     sm_wf m0 [(132, False)] \<and> 12 \<le> unat (mem_size_aligned m0) \<and> rt_smem_alloc 10 m0 = Some (Some a, m) \<and>
     unat a = user_at m 0 \<and> sm_wf m [(24, True), (108, False)] \<and> 12 \<le> unat (mem_size_aligned m)"
proof -
  obtain m0 where m0: "rt_smem_init 0x20000000 200 (\<lambda>_. \<lparr>pool_ptr = 0, it_next = 0, it_prev = 0\<rparr>) (\<lambda>_. 0) = Some m0"
      "sm_wf m0 [(132, False)]" "unat (mem_size_aligned m0) = 120"
    using smem_init_ok [of "0x20000000" 200] by auto
  from m0(3) have t: "12 \<le> unat (mem_size_aligned m0)" by simp
  have g: "grant 10 = 12" by (subst grant_enough) simp_all
  from smem_alloc_ok [OF m0(2) t, of 10] obtain a m where "rt_smem_alloc 10 m0 = Some (Some a, m)" "unat a = user_at m0 0"
      "sm_wf m [(24, True), (108, False)]" "sm_same m0 m" by (auto simp: g carve_def)
  then show ?thesis using m0 t same_user [of m0 m 0] by (auto simp: sm_same_def)
qed

lemma sample_used:
  obtains m and a :: u32 where "sm_wf m [(24, True), (108, False)]" "unat a = user_at m 0" "12 \<le> unat (mem_size_aligned m)"
  using sample_heap by (elim exE conjE) (rule that)

text \<open>
  C15: From the initialisation of the heap on, whatever the order of allocations and releases: the blocks
  that a client holds, as long as it asked for (rounded up to words, modulo \<open>2 ^ 32\<close>), lie inside the memory given to the heap and do not
  overlap, each can be released, and when all are, the heap is one free item again and counts no byte as used.
\<close>

theorem heap_blocks_safe:
  assumes "rt_smem_init begin_addr size1 junk bytes = Some m" and "12 \<le> unat (mem_size_aligned m)"
    and "unat begin_addr + 64 < 2 ^ 32" and "unat begin_addr + unat size1 < 2 ^ 32"
    and "(heap_step sm_alloc sm_release sm_need)\<^sup>*\<^sup>* (m, {}) (m', h)"
  shows "(\<forall>(a, n) \<in> h. {a..<a + n} \<subseteq> {unat begin_addr..<unat begin_addr + unat size1}) \<and>
    (\<forall>(a, n) \<in> h. \<forall>(b, k) \<in> h. (a, n) \<noteq> (b, k) \<longrightarrow> a + n \<le> b \<or> b + k \<le> a) \<and>
    (\<forall>(a, n) \<in> h. \<exists>m''. sm_release a m' = Some m'') \<and>
    (h = {} \<longrightarrow> sm_items m' = [(sm_extent m, False)] \<and> sm_used m' = 0)"
proof -
  let ?b = "(unat begin_addr + 3) div 4 * 4" and ?e = "(unat begin_addr + unat size1) div 4 * 4"
  from smem_init_ok [OF assms(3,4), of junk bytes] assms(1) have I: "?b + 80 \<le> ?e" "sm_wf m [(?e - ?b - 68, False)]"
      "unat (heap_ptr m) = ?b + 56" "unat (mem_size_aligned m) = ?e - ?b - 80"
    by (auto split: if_splits)
  have i: "sm_inv m" "sm_items m = [(?e - ?b - 68, False)]" using sm_invI [OF I(2) assms(2)] by simp_all
  have l: "sm_live m = {}" by (simp add: sm_live_def i(2))
  have x: "sm_extent m = ?e - ?b - 68" using I(1,4) unfolding sm_extent_def by linarith
  have "unat begin_addr \<le> ?b" "?e \<le> unat begin_addr + unat size1" by presburger+
  then have r: "sm_room m \<subseteq> {unat begin_addr..<unat begin_addr + unat size1}"
    using I(1,3) x by (auto simp: sm_room_def)
  note R = heap.run_safe [OF assms(5) i(1) l] and H = heap.steps_holds [OF assms(5) i(1)]
  have "sm_items m' = [(sm_extent m, False)] \<and> sm_used m' = 0" if e: "h = {}"
  proof -
    have i': "sm_inv m'" and ro: "sm_room m' = sm_room m" using H l by simp_all
    have lv: "live_at 0 (sm_items m') = {}" using R(4) [OF e] by (simp add: sm_live_def)
    have "card (sm_room m') = card (sm_room m)" by (simp only: ro)
    then have xe: "sm_extent m' = sm_extent m" by (simp add: sm_room_def)
    have ex: "ext (sm_items m') = sm_extent m" using core_ext [OF sm_inv_core [OF i']] xe by simp
    have w: "coalesced (sm_items m')" "unat (sm_used m') = used_ext (sm_items m')" using i' by (simp_all add: sm_inv_def sm_wf_def)
    have "0 < sm_extent m" by (simp add: sm_extent_def)
    then have "sm_items m' = [(sm_extent m, False)]" using coalesced_free [OF w(1) all_free [OF lv]] ex by simp
    then show ?thesis using w(2) by (simp add: word_unat_eq_iff)
  qed
  moreover have "\<forall>(a, n) \<in> h. {a..<a + n} \<subseteq> {unat begin_addr..<unat begin_addr + unat size1}"
    using R(1) r by blast
  ultimately show ?thesis using R(2,3) by blast
qed

theorem heap_blocks_safe_witness:
  "\<exists>m m' a. rt_smem_init 0x20000000 200 (\<lambda>_. \<lparr>pool_ptr = 0, it_next = 0, it_prev = 0\<rparr>) (\<lambda>_. 0) = Some m \<and>
     (heap_step sm_alloc sm_release sm_need)\<^sup>*\<^sup>* (m, {}) (m', {(a, 12)}) \<and>
     {a..<a + 12} \<subseteq> {0x20000000..<0x20000000 + 200} \<and> (\<exists>m''. sm_release a m' = Some m'')"
proof -
  obtain m0 m a where m: "rt_smem_init 0x20000000 200 (\<lambda>_. \<lparr>pool_ptr = 0, it_next = 0, it_prev = 0\<rparr>) (\<lambda>_. 0) = Some m0"
      "12 \<le> unat (mem_size_aligned m0)" "rt_smem_alloc 10 m0 = Some (Some a, m)" using sample_heap by blast
  have n: "sm_need 10 = 12" by (simp add: sm_need_def align4)
  have "heap_step sm_alloc sm_release sm_need (m0, {}) (m, insert (unat a, sm_need 10) {})"
    by (rule heap_step.got) (simp add: sm_alloc_def m(3))
  then have s: "(heap_step sm_alloc sm_release sm_need)\<^sup>*\<^sup>* (m0, {}) (m, {(unat a, 12)})" by (simp add: n)
  show ?thesis using heap_blocks_safe [OF m(1,2) _ _ s] m(1) s by fastforce
qed

text \<open>
  C29: \<open>rt_smem_alloc\<close> is first fit: of the free items it takes the first with room for the request,
  rounded up to words and to the minimal size, splits the rest off when it can hold an item of its own,
  and returns the address behind the header; with no such item it returns nothing and changes nothing.
  A request within 3 bytes of \<open>2 ^ 32\<close> is rounded up to 0 and so gets the minimal size.
\<close>

theorem smem_alloc_first_fit:
  assumes "sm_wf m bs" and "12 \<le> unat (mem_size_aligned m)" and "size1 \<noteq> 0"
  shows "let s = (if unat size1 + 3 < 2 ^ 32 then max 12 ((unat size1 + 3) div 4 * 4) else 12)
    in case fit s bs of
      None \<Rightarrow> rt_smem_alloc size1 m = Some (None, m)
    | Some (xs, n, ys) \<Rightarrow> \<exists>a m'. rt_smem_alloc size1 m = Some (Some a, m') \<and> unat a = user_at m (ext xs) \<and>
        sm_wf m' (xs @ carve s n @ ys) \<and> sm_byte m' = sm_byte m"
proof -
  have "grant size1 = (if unat size1 + 3 < 2 ^ 32 then max 12 ((unat size1 + 3) div 4 * 4) else 12)"
    using grant_enough [of size1] grant_wrapped [of size1] by (cases "unat size1 + 3 < 2 ^ 32") simp_all
  from this [symmetric] show ?thesis using smem_alloc_ok [OF assms] by (auto simp: Let_def split: option.splits)
qed

theorem smem_alloc_first_fit_witness:
  "\<exists>m. sm_wf m [(132, False)] \<and> rt_smem_alloc 1000 m = Some (None, m) \<and>
    (\<exists>a m'. rt_smem_alloc 10 m = Some (Some a, m') \<and> unat a = user_at m 0 \<and> sm_wf m' [(24, True), (108, False)]) \<and>
    (\<exists>a m'. rt_smem_alloc 0xFFFFFFFF m = Some (Some a, m') \<and> sm_wf m' [(24, True), (108, False)])"
proof -
  obtain m where m: "sm_wf m [(132, False)]" "12 \<le> unat (mem_size_aligned m)" using sample_heap by blast
  note F = smem_alloc_first_fit [OF m, unfolded Let_def]
  show ?thesis using m(1) F [of 10] F [of 1000] F [of "0xFFFFFFFF"] by (auto simp: carve_def)
qed

text \<open>
  C30: \<open>rt_smem_free\<close> joins the item with its free neighbours, so that no two free items are adjacent; an
  item that is free already is refused.
\<close>

theorem smem_free_branches:
  assumes "sm_wf m (xs @ (n, u) # ys)" and "unat a = user_at m (ext xs)"
  shows "if u then \<exists>m'. rt_smem_free (Some a) m = Some m' \<and> sm_wf m' (plug xs n ys) \<and> sm_byte m' = sm_byte m
    else rt_smem_free (Some a) m = None"
proof (cases u)
  case True
  then show ?thesis using smem_free_ok [of m xs n ys a] assms by auto
next
  case False
  have c: "sm_core m (xs @ (n, u) # ys)" using assms(1) by (simp add: sm_wf_def)
  have "\<not> MEM_ISUSED (sm_item m (ext xs))" using tag_used [OF core_at(4) [OF c]] False by simp
  then show ?thesis
    using False user_offset [OF assms(2)] core_at(3) [OF c] by (simp add: rt_smem_free_def Let_def Option.bind_eq_None_conv)
qed

theorem smem_free_branches_witness:
  "\<exists>m a m'. sm_wf m [(24, True), (108, False)] \<and> rt_smem_free (Some a) m = Some m' \<and> sm_wf m' [(132, False)]"
proof -
  obtain m and a :: u32 where h: "sm_wf m [(24, True), (108, False)]" "unat a = user_at m 0" by (rule sample_used)
  from h have m: "sm_wf m ([] @ (24, True) # [(108, False)])" "unat a = user_at m (ext [])" by simp_all
  show ?thesis using smem_free_branches [OF m] m(1) by (auto simp: plug_def plug_right_def plug_left_def)
qed

text \<open>
  C16: \<open>rt_smem_realloc\<close> on every branch for an item in use with \<open>n - 12\<close> bytes and a new size rounded up
  to \<open>r\<close>: more than the heap is refused, 0 frees the item, the same size keeps it, a size that leaves room
  for another item gives the end back in place, and any other size moves the first bytes to a new
  item and frees the old one, or fails and changes nothing.
\<close>

theorem smem_realloc_branches:
  assumes "sm_wf m (xs @ (n, True) # ys)" and "unat a = user_at m (ext xs)" and "12 \<le> unat (mem_size_aligned m)"
    and "unat newsize + 3 < 2 ^ 32"
  shows "let r = (unat newsize + 3) div 4 * 4; bs = xs @ (n, True) # ys
    in if unat (mem_size_aligned m) < r then rt_smem_realloc (Some a) newsize m = Some (None, m)
       else if r = 0 then \<exists>m'. rt_smem_realloc (Some a) newsize m = Some (None, m') \<and> sm_wf m' (plug xs n ys)
       else if r = n - 12 then rt_smem_realloc (Some a) newsize m = Some (Some a, m)
       else if r + 24 < n - 12 then \<exists>m'. rt_smem_realloc (Some a) newsize m = Some (Some a, m') \<and>
         sm_wf m' (xs @ (r + 12, True) # plug_right (n - (r + 12)) ys) \<and> sm_byte m' = sm_byte m
       else case fit (max 12 r) bs of
         None \<Rightarrow> rt_smem_realloc (Some a) newsize m = Some (None, m)
       | Some (as, _, _) \<Rightarrow> \<exists>b m' bs' l. rt_smem_realloc (Some a) newsize m = Some (Some b, m') \<and>
           unat b = user_at m (ext as) \<and> sm_wf m' bs' \<and> r \<le> l \<and>
           live_at 0 bs' = insert (ext as + 12, l) (live_at 0 bs - {(ext xs + 12, n - 12)}) \<and>
           (\<forall>k < min (n - 12) r. sm_byte m' (ext as + 12 + k) = sm_byte m (ext xs + 12 + k))"
proof -
  let ?w = "RT_ALIGN newsize 4" and ?p = "a - SIZEOF_STRUCT_MEM - heap_ptr m" and ?it = "sm_item m (ext xs)"
  let ?sz = "it_next ?it - ?p - SIZEOF_STRUCT_MEM"
  define r where "r = (unat newsize + 3) div 4 * 4"
  have w: "unat ?w = r" unfolding r_def by (rule align4 [OF assms(4)])
  have c: "sm_core m (xs @ (n, True) # ys)" and n: "16 \<le> n" using assms(1) by (auto simp: sm_wf_def)
  note A = core_at [OF c] and U = user_bounds [OF c assms(2) n]
  have p: "unat ?p = ext xs" by (rule user_offset [OF assms(2)])
  have at: "item_at ?p m = Some ?it" using p A(3) by simp
  have "unat (it_next ?it - ?p) = n" using A(5) p by (subst unat_minus_word) simp_all
  then have sz: "unat ?sz = n - 12" using n by (subst unat_minus_word) simp_all
  have w0: "?w = 0 \<longleftrightarrow> r = 0" using w by (simp add: word_unat_eq_iff)
  have wm: "mem_size_aligned m < ?w \<longleftrightarrow> unat (mem_size_aligned m) < r" using w by (simp add: word_less_nat_alt)
  have lim: "unat (mem_size_aligned m) + 24 < 2 ^ 32" using c by (simp add: sm_core_def sm_extent_def)
  have start: "rt_smem_realloc (Some a) newsize m =
      (if ?sz = ?w then Some (Some a, m)
       else if ?w + SIZEOF_STRUCT_MEM + MIN_SIZE < ?sz
       then do {
         let m = m\<lparr>sm_used := sm_used m - (?sz - ?w)\<rparr>;
         let ptr2 = ?p + SIZEOF_STRUCT_MEM + ?w;
         m \<leftarrow> split_item ?p ptr2 m;
         let m = (if ptr2 < lfree m then m\<lparr>lfree := ptr2\<rparr> else m);
         m \<leftarrow> plug_holes ptr2 m;
         Some (Some a, m) }
       else do {
         (q, m) \<leftarrow> rt_smem_alloc ?w m;
         (case q of
            None \<Rightarrow> Some (None, m)
          | Some b \<Rightarrow> do {
              let m = copy_bytes (unat (b - heap_ptr m)) (unat (a - heap_ptr m)) (unat (if ?sz < ?w then ?sz else ?w)) m;
              m \<leftarrow> rt_smem_free (Some a) m;
              Some (Some b, m) }) })" if "\<not> unat (mem_size_aligned m) < r" "r \<noteq> 0"
    using that U at wm w0 by (simp add: rt_smem_realloc_def Let_def del: sizes)
  consider "unat (mem_size_aligned m) < r" | "\<not> unat (mem_size_aligned m) < r" "r = 0"
    | "\<not> unat (mem_size_aligned m) < r" "r \<noteq> 0" "r = n - 12"
    | "\<not> unat (mem_size_aligned m) < r" "r \<noteq> 0" "r \<noteq> n - 12" "r + 24 < n - 12"
    | "\<not> unat (mem_size_aligned m) < r" "r \<noteq> 0" "r \<noteq> n - 12" "\<not> r + 24 < n - 12" by blast
  then have "if unat (mem_size_aligned m) < r then rt_smem_realloc (Some a) newsize m = Some (None, m)
       else if r = 0 then \<exists>m'. rt_smem_realloc (Some a) newsize m = Some (None, m') \<and> sm_wf m' (plug xs n ys)
       else if r = n - 12 then rt_smem_realloc (Some a) newsize m = Some (Some a, m)
       else if r + 24 < n - 12 then \<exists>m'. rt_smem_realloc (Some a) newsize m = Some (Some a, m') \<and>
         sm_wf m' (xs @ (r + 12, True) # plug_right (n - (r + 12)) ys) \<and> sm_byte m' = sm_byte m
       else case fit (max 12 r) (xs @ (n, True) # ys) of
         None \<Rightarrow> rt_smem_realloc (Some a) newsize m = Some (None, m)
       | Some (as, _, _) \<Rightarrow> \<exists>b m' bs' l. rt_smem_realloc (Some a) newsize m = Some (Some b, m') \<and>
           unat b = user_at m (ext as) \<and> sm_wf m' bs' \<and> r \<le> l \<and>
           live_at 0 bs' = insert (ext as + 12, l) (live_at 0 (xs @ (n, True) # ys) - {(ext xs + 12, n - 12)}) \<and>
           (\<forall>k < min (n - 12) r. sm_byte m' (ext as + 12 + k) = sm_byte m (ext xs + 12 + k))"
  proof cases
    case 1
    then show ?thesis using wm by (simp add: rt_smem_realloc_def Let_def)
  next
    case 2
    then show ?thesis using wm w0 smem_free_ok [OF assms(1,2)] by (auto simp: rt_smem_realloc_def Let_def)
  next
    case 3
    then have "?sz = ?w" using sz w by (simp add: word_unat_eq_iff)
    then show ?thesis using start [OF 3(1,2)] 3 by simp
  next
    case 4
    let ?q = "?p + SIZEOF_STRUCT_MEM + ?w"
    have b: "r + 36 < n" using 4(4) by simp
    have "unat (?p + 12) = ext xs + 12" using p A(3) lim by (subst unat_plus_word) (simp_all add: sm_extent_def)
    then have q: "unat ?q = ext xs + (r + 12)" using w b A(3) lim by (subst sizes) (subst unat_plus_word, simp_all add: sm_extent_def)
    have "unat (?w + 12) = r + 12" using w b A(3) lim by (subst unat_plus_word) (simp_all add: sm_extent_def)
    then have "unat (?w + 12 + 12) = r + 24" using b A(3) lim by (subst unat_plus_word) (simp_all add: sm_extent_def)
    then have t: "?w + SIZEOF_STRUCT_MEM + MIN_SIZE < ?sz" "?sz \<noteq> ?w" using sz w 4 by (auto simp: word_less_nat_alt)
    have d: "unat (?sz - ?w) = n - (r + 12)" using sz w b by (subst unat_minus_word) simp_all
    have r4: "4 dvd r" "0 < r" "r + 36 \<le> n" using 4 b by (simp_all add: r_def)
    from smem_shrink_ok [OF assms(1) p q r4 d] obtain m1 m2 where s: "split_item ?p ?q (m\<lparr>sm_used := sm_used m - (?sz - ?w)\<rparr>) = Some m1"
        "plug_holes ?q (if ?q < lfree m1 then m1\<lparr>lfree := ?q\<rparr> else m1) = Some m2"
        "sm_wf m2 (xs @ (r + 12, True) # plug_right (n - (r + 12)) ys)" "sm_byte m2 = sm_byte m" by blast
    have "rt_smem_realloc (Some a) newsize m = Some (Some a, m2)"
      unfolding start [OF 4(1,2)] Let_def if_not_P [OF t(2)] if_P [OF t(1)] s(1) Option.bind.simps s(2) ..
    then show ?thesis using 4 s(3,4) by auto
  next
    case 5
    let ?cnt = "unat (if ?sz < ?w then ?sz else ?w)"
    have cnt: "?cnt = min (n - 12) r" using sz w by (simp add: word_less_nat_alt min_def)
    have ne: "?sz \<noteq> ?w" using sz w 5(3) by auto
    have "unat (?w + 12) = r + 12" using w 5(1) lim by (subst unat_plus_word) simp_all
    then have "unat (?w + 12 + 12) = r + 24" using 5(1) lim by (subst unat_plus_word) simp_all
    then have nt: "\<not> ?w + SIZEOF_STRUCT_MEM + MIN_SIZE < ?sz" using sz 5(4) by (simp add: word_less_nat_alt)
    have wr: "4 dvd unat ?w" "?w \<noteq> 0" "unat ?w \<le> unat (mem_size_aligned m)" using w w0 5(1,2) by (simp_all add: r_def)
    note M = smem_move_ok [OF assms(1-3) wr, of ?cnt, unfolded w]
    show ?thesis
    proof (cases "fit (max 12 r) (xs @ (n, True) # ys)")
      case None
      then have "rt_smem_alloc ?w m = Some (None, m)" using M by simp
      then show ?thesis using start [OF 5(1,2)] ne nt 5 None by simp
    next
      case (Some x)
      obtain as j cs where x: "x = (as, j, cs)" by (cases x)
      obtain b m1 m2 bs' l where m: "rt_smem_alloc ?w m = Some (Some b, m1)" "unat b = user_at m (ext as)" "heap_ptr m1 = heap_ptr m"
          "rt_smem_free (Some a) (copy_bytes (ext as + 12) (ext xs + 12) ?cnt m1) = Some m2" "sm_wf m2 bs'"
          "sm_byte m2 = sm_byte (copy_bytes (ext as + 12) (ext xs + 12) ?cnt m)" "max 12 r \<le> l"
          "live_at 0 bs' = insert (ext as + 12, l) (live_at 0 (xs @ (n, True) # ys) - {(ext xs + 12, n - 12)})"
        using M Some x by auto
      have "unat (b - heap_ptr m) = ext as + 12" "unat (a - heap_ptr m) = ext xs + 12"
        using m(2) assms(2) by (subst unat_minus_word; simp add: user_at_def)+
      then have "rt_smem_realloc (Some a) newsize m = Some (Some b, m2)"
        unfolding start [OF 5(1,2)] if_not_P [OF ne] if_not_P [OF nt] m(1) using m(3,4) by (simp split del: if_split)
      moreover have "\<forall>k < min (n - 12) r. sm_byte m2 (ext as + 12 + k) = sm_byte m (ext xs + 12 + k)"
        unfolding m(6) cnt by (simp add: copy_bytes_def)
      moreover have "r \<le> l" using m(7) by simp
      ultimately show ?thesis using 5 Some x m(2,5,8) by auto
    qed
  qed
  then show ?thesis unfolding Let_def r_def .
qed

theorem smem_realloc_branches_witness:
  "\<exists>m a b m' bs l. sm_wf m [(24, True), (108, False)] \<and> rt_smem_realloc (Some a) 40 m = Some (Some b, m') \<and> sm_wf m' bs \<and>
     live_at 0 bs = {(36, l)} \<and> 40 \<le> l \<and> (\<forall>k < 12. sm_byte m' (36 + k) = sm_byte m (12 + k)) \<and>
     rt_smem_realloc (Some a) 12 m = Some (Some a, m) \<and> rt_smem_realloc (Some a) 1000 m = Some (None, m)"
proof -
  obtain m and a :: u32 where h: "sm_wf m [(24, True), (108, False)]" "unat a = user_at m 0" and t: "12 \<le> unat (mem_size_aligned m)"
    by (rule sample_used)
  from h have m: "sm_wf m ([] @ (24, True) # [(108, False)])" "unat a = user_at m (ext [])" by simp_all
  have c: "unat (mem_size_aligned m) = 120"
    using m(1) core_ext [of m "[(24, True), (108, False)]"] by (simp add: sm_wf_def sm_extent_def)
  note R = smem_realloc_branches [OF m t, unfolded Let_def]
  show ?thesis using m(1) R [of 40] R [of 12] R [of 1000] c by (auto simp: min_def) blast
qed

text \<open>A search that has come to an item whose \<open>next\<close> is itself goes round for ever.\<close>

lemma smem_find_stuck:
  assumes e: "e \<le> mem_size_aligned m - s" and it: "item_at e m = Some it" "MEM_ISUSED it" "it_next it = e"
  shows "smem_find m s e = None"
proof -
  have "\<not> (m' = m \<and> s' = s \<and> p = e)" if f: "smem_find m' s' p = Some y" for m' s' p y
  proof (rule smem_find.raw_induct [where P = "\<lambda>m' s' p y. \<not> (m' = m \<and> s' = s \<and> p = e)", OF _ f])
    fix find m' s' p y
    assume IH: "\<And>m' s' p y. find m' s' p = Some y \<Longrightarrow> \<not> (m' = m \<and> s' = s \<and> p = e)"
      and "(if p \<le> mem_size_aligned m' - s'
         then do { mem \<leftarrow> item_at p m';
           if \<not> MEM_ISUSED mem \<and> s' \<le> it_next mem - (p + SIZEOF_STRUCT_MEM) then Some (Some p) else find m' s' (it_next mem) }
         else Some None) = Some y"
    then show "\<not> (m' = m \<and> s' = s \<and> p = e)" using assms IH [of m s e] by (auto split: if_splits)
  qed
  then show ?thesis by (cases "smem_find m s e") blast+
qed

text \<open>
  In a heap of 4 or 8 bytes the bound of the search wraps around: the search goes past the one item of
  the heap to the end item, whose \<open>next\<close> is itself and which passes the test of the loop, so a request
  that fits the heap never returns.
\<close>

theorem smem_tiny_heap_loops:
  assumes "rt_smem_init begin_addr size1 junk bytes = Some m"
    and "unat begin_addr + 64 < 2 ^ 32" and "unat begin_addr + unat size1 < 2 ^ 32"
    and "mem_size_aligned m < 12" and "n \<noteq> 0" and "RT_ALIGN n 4 \<le> mem_size_aligned m"
  shows "rt_smem_alloc n m = None \<and> (\<exists>it. item_at (heap_end m) m = Some it \<and> it_next it = heap_end m \<and> MEM_ISUSED it) \<and>
    heap_end m \<le> mem_size_aligned m - MIN_SIZE_ALIGNED"
proof -
  let ?b = "(unat begin_addr + 3) div 4 * 4" and ?e = "(unat begin_addr + unat size1) div 4 * 4"
  from smem_init_ok [OF assms(2,3), of junk bytes] assms(1) have I: "?b + 80 \<le> ?e" "sm_wf m [(?e - ?b - 68, False)]"
      "unat (mem_size_aligned m) = ?e - ?b - 80"
    by (auto split: if_splits)
  define k where "k = unat (mem_size_aligned m)"
  have t: "mem_size_aligned m = of_nat k" by (simp add: k_def)
  have k: "k < 12" "?e - ?b - 68 = k + 12" using assms(4) I(1) unfolding k_def I(3) by (simp add: word_less_nat_alt I(3), linarith)
  have c: "sm_core m [(k + 12, False)]" and l: "lfree m = 0" using I(2) unfolding k(2) by (auto simp: sm_wf_def word_unat_eq_iff)
  have x: "sm_extent m = k + 12" by (simp add: sm_extent_def k_def)
  have he: "unat (heap_end m) = k + 12" and it0: "pool_ptr (sm_item m 0) = tag (sm_address m) False" "unat (it_next (sm_item m 0)) = k + 12"
    and ite: "pool_ptr (sm_item m (k + 12)) = tag (sm_address m) True" "unat (it_next (sm_item m (k + 12))) = k + 12"
    using c x by (simp_all add: sm_core_def)
  let ?it = "sm_item m (k + 12)"
  have e: "item_at (heap_end m) m = Some ?it" "MEM_ISUSED ?it" "it_next ?it = heap_end m" using he x ite by (simp_all add: word_unat_eq_iff)
  have wrap: "unat (mem_size_aligned m - 12) = k + 2 ^ 32 - 12" 
    using k(1) unfolding unat_sub_if_size by (simp add: k_def word_size)
  have le: "heap_end m \<le> mem_size_aligned m - 12" "(0::u32) \<le> mem_size_aligned m - 12" using wrap he k(1) by (simp_all add: word_le_nat_alt)
  have s: "RT_ALIGN n 4 < 12" using assms(4,6) by (simp add: le_less_trans)
  have n: "it_next (sm_item m 0) = heap_end m" using it0(2) he by (simp add: word_unat_eq_iff)
  have "\<not> 12 \<le> heap_end m - 12" using he k(1) by (simp add: word_le_nat_alt unat_minus_word)
  then have "smem_find m 12 0 = smem_find m 12 (heap_end m)"
    using le(2) n by (subst smem_find.simps) simp
  then have "smem_find m 12 0 = None" using smem_find_stuck [OF le(1) e] by simp
  then show ?thesis using s e le(1) l assms(5,6) by (simp add: rt_smem_alloc_def Let_def)
qed

theorem smem_tiny_heap_loops_witness:
  "\<exists>m. rt_smem_init 0x20000000 84 (\<lambda>_. \<lparr>pool_ptr = 0, it_next = 0, it_prev = 0\<rparr>) (\<lambda>_. 0) = Some m \<and>
     rt_smem_alloc 4 m = None"
proof -
  obtain m where m: "rt_smem_init 0x20000000 84 (\<lambda>_. \<lparr>pool_ptr = 0, it_next = 0, it_prev = 0\<rparr>) (\<lambda>_. 0) = Some m"
      "unat (mem_size_aligned m) = 4"
    using smem_init_ok [of "0x20000000" 84] by auto
  have "mem_size_aligned m < 12" "RT_ALIGN 4 4 \<le> mem_size_aligned m"
    using m(2) by (simp_all add: word_less_nat_alt word_le_nat_alt align4)
  then show ?thesis using smem_tiny_heap_loops [OF m(1), of 4] m(1) by auto
qed

end
