(* ===== verification/KString.thy ===== *)
theory KString
  imports Prelude
begin

text \<open>
  The memory and string functions of src/kservice.c. The memory is a function from addresses to bytes, so that
  pointers wrap around as they do; a \<open>char\<close> is unsigned, as on this processor. \<open>rt_memset\<close> and \<open>rt_memcpy\<close>
  work a word at a time where they can, and are shown equal to the plain byte loops \<open>filled\<close> and \<open>copied\<close>.
\<close>

type_synonym memory = "u32 \<Rightarrow> u8"

section \<open>Words in memory (little endian)\<close>

definition get_word :: "u32 \<Rightarrow> memory \<Rightarrow> u32" where
  "get_word p m = ucast (m p) OR push_bit 8 (ucast (m (p + 1))) OR push_bit 16 (ucast (m (p + 2))) OR
     push_bit 24 (ucast (m (p + 3)))"

definition put_word :: "u32 \<Rightarrow> u32 \<Rightarrow> memory \<Rightarrow> memory" where
  "put_word p w m = m(p := ucast w, p + 1 := ucast (drop_bit 8 w), p + 2 := ucast (drop_bit 16 w),
     p + 3 := ucast (drop_bit 24 w))"

lemma unat_limit: "unat x < 4294967296" for x :: u32
  using unsigned_less [of x] by simp

section \<open>Counting down\<close>

lemma unat_minus_less: "k \<le> n \<Longrightarrow> 0 < k \<Longrightarrow> unat (n - k) < unat n" for k n :: u32
  by (simp add: unat_sub word_le_nat_alt word_less_nat_alt)

lemma unat_pred_less [simp]: "n \<noteq> 0 \<Longrightarrow> unat (n - 1) < unat n" for n :: u32
  by (rule unat_minus_less) (simp_all add: word_le_nat_alt unat_gt_0 Suc_leI)

section \<open>Filling memory\<close>

function set_bytes :: "u8 \<Rightarrow> u32 \<Rightarrow> u32 \<Rightarrow> memory \<Rightarrow> memory" where
  "set_bytes d p count m = (if count = 0 then m else set_bytes d (p + 1) (count - 1) (m(p := d)))"
  by auto
termination by (relation "measure (\<lambda>(d, p, count, m). unat count)") auto

text \<open>The loops that store a word, and four of them, at a time.\<close>

function set_words :: "u32 \<Rightarrow> u32 \<Rightarrow> u32 \<Rightarrow> memory \<Rightarrow> u32 \<times> u32 \<times> memory" where
  "set_words w p count m = (if 4 \<le> count then set_words w (p + 4) (count - 4) (put_word p w m) else (p, count, m))"
  by auto
termination by (relation "measure (\<lambda>(w, p, count, m). unat count)") (auto intro: unat_minus_less)

function set_blocks :: "u32 \<Rightarrow> u32 \<Rightarrow> u32 \<Rightarrow> memory \<Rightarrow> u32 \<times> u32 \<times> memory" where
  "set_blocks w p count m =
    (if 16 \<le> count
     then let m = put_word p w m; m = put_word (p + 4) w m; m = put_word (p + 8) w m; m = put_word (p + 12) w m
          in set_blocks w (p + 16) (count - 16) m
     else (p, count, m))"
  by auto
termination by (relation "measure (\<lambda>(w, p, count, m). unat count)") (auto intro: unat_minus_less)

definition rt_memset :: "u32 \<Rightarrow> u32 \<Rightarrow> u32 \<Rightarrow> memory \<Rightarrow> memory" where
  "rt_memset s c count m =
    (let d = c AND 0xff;
         (p, count, m) =
           (if \<not> count < 4 \<and> s AND 3 = 0
            then let buffer = push_bit 8 d OR d;
                     buffer = buffer OR push_bit 16 buffer;
                     (p, count, m) = set_blocks buffer s count m
                 in set_words buffer p count m
            else (s, count, m))
     in set_bytes (ucast d) p count m)"

section \<open>Copying memory\<close>

function copy_up :: "u32 \<Rightarrow> u32 \<Rightarrow> u32 \<Rightarrow> memory \<Rightarrow> memory" where
  "copy_up d s count m = (if count = 0 then m else copy_up (d + 1) (s + 1) (count - 1) (m(d := m s)))"
  by auto
termination by (relation "measure (\<lambda>(d, s, count, m). unat count)") auto

function copy_words :: "u32 \<Rightarrow> u32 \<Rightarrow> u32 \<Rightarrow> memory \<Rightarrow> u32 \<times> u32 \<times> u32 \<times> memory" where
  "copy_words d s count m =
    (if 4 \<le> count then copy_words (d + 4) (s + 4) (count - 4) (put_word d (get_word s m) m) else (d, s, count, m))"
  by auto
termination by (relation "measure (\<lambda>(d, s, count, m). unat count)") (auto intro: unat_minus_less)

function copy_blocks :: "u32 \<Rightarrow> u32 \<Rightarrow> u32 \<Rightarrow> memory \<Rightarrow> u32 \<times> u32 \<times> u32 \<times> memory" where
  "copy_blocks d s count m =
    (if 16 \<le> count
     then let m = put_word d (get_word s m) m; m = put_word (d + 4) (get_word (s + 4) m) m;
              m = put_word (d + 8) (get_word (s + 8) m) m; m = put_word (d + 12) (get_word (s + 12) m) m
          in copy_blocks (d + 16) (s + 16) (count - 16) m
     else (d, s, count, m))"
  by auto
termination by (relation "measure (\<lambda>(d, s, count, m). unat count)") (auto intro: unat_minus_less)

text \<open>
  \<open>len\<close> is an \<open>int\<close> in the code, but it is compared with the unsigned \<open>sizeof\<close> and otherwise counts down
  to 0, so it is the unsigned count.
\<close>

definition rt_memcpy :: "u32 \<Rightarrow> u32 \<Rightarrow> u32 \<Rightarrow> memory \<Rightarrow> memory" where
  "rt_memcpy dst src count m =
    (let (d, s, len, m) =
       (if \<not> count < 16 \<and> (src AND 3) OR (dst AND 3) = 0
        then let (d, s, len, m) = copy_blocks dst src count m in copy_words d s len m
        else (dst, src, count, m))
     in copy_up d s len m)"

function copy_down :: "u32 \<Rightarrow> u32 \<Rightarrow> u32 \<Rightarrow> memory \<Rightarrow> memory" where
  "copy_down d s n m = (if n = 0 then m else copy_down (d - 1) (s - 1) (n - 1) (m(d - 1 := m (s - 1))))"
  by auto
termination by (relation "measure (\<lambda>(d, s, n, m). unat n)") auto

definition rt_memmove :: "u32 \<Rightarrow> u32 \<Rightarrow> u32 \<Rightarrow> memory \<Rightarrow> memory" where
  "rt_memmove dest src n m =
    (if src < dest \<and> dest < src + n then copy_down (dest + n) (src + n) n m else copy_up dest src n m)"

section \<open>Comparing and searching\<close>

function rt_memcmp :: "u32 \<Rightarrow> u32 \<Rightarrow> u32 \<Rightarrow> memory \<Rightarrow> int" where
  "rt_memcmp cs ct count m =
    (if count = 0 then 0
     else let res = uint (m cs) - uint (m ct)
          in if res \<noteq> 0 then res else rt_memcmp (cs + 1) (ct + 1) (count - 1) m)"
  by auto
termination by (relation "measure (\<lambda>(cs, ct, count, m). unat count)") auto

declare set_bytes.simps [simp del] set_words.simps [simp del] set_blocks.simps [simp del] copy_up.simps [simp del]
  copy_words.simps [simp del] copy_blocks.simps [simp del] copy_down.simps [simp del] rt_memcmp.simps [simp del]

text \<open>The loops over a string end at its NUL; \<open>None\<close> when there is none in the whole memory.\<close>

partial_function (option) strlen_loop :: "u32 \<Rightarrow> u32 \<Rightarrow> memory \<Rightarrow> u32 option" where
  "strlen_loop s sc m = (if m sc \<noteq> 0 then strlen_loop s (sc + 1) m else Some (sc - s))"

definition rt_strlen :: "u32 \<Rightarrow> memory \<Rightarrow> u32 option" where
  "rt_strlen s m = strlen_loop s s m"

partial_function (option) strnlen_loop :: "u32 \<Rightarrow> u32 \<Rightarrow> u32 \<Rightarrow> memory \<Rightarrow> u32 option" where
  "strnlen_loop s sc maxlen m = (if m sc \<noteq> 0 \<and> sc - s < maxlen then strnlen_loop s (sc + 1) maxlen m else Some (sc - s))"

definition rt_strnlen :: "u32 \<Rightarrow> u32 \<Rightarrow> memory \<Rightarrow> u32 option" where
  "rt_strnlen s maxlen m = strnlen_loop s s maxlen m"

partial_function (option) rt_strcmp :: "u32 \<Rightarrow> u32 \<Rightarrow> memory \<Rightarrow> int option" where
  "rt_strcmp cs ct m =
    (if m cs \<noteq> 0 \<and> m cs = m ct then rt_strcmp (cs + 1) (ct + 1) m else Some (uint (m cs) - uint (m ct)))"

text \<open>\<open>__res\<close> is a \<open>signed char\<close>.\<close>

function strncmp_loop :: "u8 \<Rightarrow> u32 \<Rightarrow> u32 \<Rightarrow> u32 \<Rightarrow> memory \<Rightarrow> u8" where
  "strncmp_loop res cs ct count m =
    (if count \<noteq> 0
     then let res = word_of_int (uint (m cs) - uint (m ct))
          in if res \<noteq> 0 \<or> m cs = 0 then res else strncmp_loop res (cs + 1) (ct + 1) (count - 1) m
     else res)"
  by auto
termination by (relation "measure (\<lambda>(res, cs, ct, count, m). unat count)") auto

definition rt_strncmp :: "u32 \<Rightarrow> u32 \<Rightarrow> u32 \<Rightarrow> memory \<Rightarrow> int" where
  "rt_strncmp cs ct count m = sint (strncmp_loop 0 cs ct count m)"

definition to_lower :: "u8 \<Rightarrow> u8" where
  "to_lower c = (if 65 \<le> c \<and> c \<le> 90 then c + 32 else c)"

partial_function (option) rt_strcasecmp :: "u32 \<Rightarrow> u32 \<Rightarrow> memory \<Rightarrow> int option" where
  "rt_strcasecmp a b m =
    (let ca = to_lower (m a); cb = to_lower (m b)
     in if ca = cb \<and> ca \<noteq> 0 then rt_strcasecmp (a + 1) (b + 1) m else Some (uint ca - uint cb))"

text \<open>\<open>l1\<close> and \<open>l2\<close> are \<open>int\<close>.\<close>

function strstr_loop :: "u32 \<Rightarrow> u32 \<Rightarrow> int \<Rightarrow> int \<Rightarrow> memory \<Rightarrow> u32 option" where
  "strstr_loop s1 s2 l1 l2 m =
    (if l2 \<le> l1
     then if rt_memcmp s1 s2 (word_of_int l2) m = 0 then Some s1 else strstr_loop (s1 + 1) s2 (l1 - 1) l2 m
     else None)"
  by auto
termination by (relation "measure (\<lambda>(s1, s2, l1, l2, m). nat (l1 - l2 + 1))") auto

definition rt_strstr :: "u32 \<Rightarrow> u32 \<Rightarrow> memory \<Rightarrow> u32 option option" where
  "rt_strstr s1 s2 m = do {
     l2 \<leftarrow> rt_strlen s2 m;
     (if sint l2 = 0 then Some (Some s1)
      else do { l1 \<leftarrow> rt_strlen s1 m; Some (strstr_loop s1 s2 (sint l1) (sint l2) m) }) }"

section \<open>Copying strings\<close>

text \<open>The test of \<open>--n\<close> comes after the body, so \<open>n\<close> is at least 1 here.\<close>

function strncpy_loop :: "u32 \<Rightarrow> u32 \<Rightarrow> u32 \<Rightarrow> memory \<Rightarrow> memory" where
  "strncpy_loop d s n m =
    (let m' = m(d := m s)
     in if m s = 0 then set_bytes 0 (d + 1) (n - 1) m'
        else if n - 1 \<noteq> 0 then strncpy_loop (d + 1) (s + 1) (n - 1) m' else m')"
  by auto
termination
proof (relation "measure (\<lambda>(d, s, n, m). unat (n - 1))")
  show "((d + 1, s + 1, n - 1, m'), (d, s, n, m)) \<in> measure (\<lambda>(d, s, n, m). unat (n - 1))" if "n - 1 \<noteq> 0"
    for d s n :: u32 and m m' :: memory
    using unat_pred_less [OF that] by simp
qed simp

definition rt_strncpy :: "u32 \<Rightarrow> u32 \<Rightarrow> u32 \<Rightarrow> memory \<Rightarrow> memory" where
  "rt_strncpy dst src n m = (if n \<noteq> 0 then strncpy_loop dst src n m else m)"

partial_function (option) rt_strcpy :: "u32 \<Rightarrow> u32 \<Rightarrow> memory \<Rightarrow> memory option" where
  "rt_strcpy dst src m =
    (if m src \<noteq> 0 then rt_strcpy (dst + 1) (src + 1) (m(dst := m src)) else Some (m(dst := 0)))"

declare strncmp_loop.simps [simp del] strstr_loop.simps [simp del] strncpy_loop.simps [simp del]

section \<open>The plain loops\<close>

text \<open>\<open>count\<close> bytes from \<open>p\<close> on; \<open>x - p\<close> is the offset of \<open>x\<close>, also across the end of the address space.\<close>

definition filled :: "u8 \<Rightarrow> u32 \<Rightarrow> u32 \<Rightarrow> memory \<Rightarrow> memory" where
  "filled d p count m = (\<lambda>x. if x - p < count then d else m x)"

definition copied :: "u32 \<Rightarrow> u32 \<Rightarrow> u32 \<Rightarrow> memory \<Rightarrow> memory" where
  "copied d s count m = (\<lambda>x. if x - d < count then m (s + (x - d)) else m x)"

lemma offset_split: "k \<le> n \<Longrightarrow> (x < n) \<longleftrightarrow> (x < k \<or> x - k < n - k)" for x k n :: u32
  unfolding word_less_nat_alt word_le_nat_alt unat_sub_if_size word_size
  using unsigned_less [of x] unsigned_less [of n] by auto

lemma offset_behind:
  fixes x k n y :: u32
  assumes "x < n" and "\<not> x < k" and "n \<le> y"
  shows "\<not> x - y < k"
proof -
  have "unat (x - y) = (if unat y \<le> unat x then unat x - unat y else unat x + 2 ^ 32 - unat y)"
    by (simp add: unat_sub_if_size word_size)
  moreover have "unat y < 2 ^ 32" using unsigned_less [of y] by simp
  ultimately show ?thesis using assms unfolding word_less_nat_alt word_le_nat_alt by auto
qed

lemma offset_before:
  fixes x k n :: u32
  assumes "x < k" and "k \<le> n"
  shows "\<not> x - k < n - k"
proof -
  have "unat (x - k) = unat x + 2 ^ 32 - unat k" "unat (n - k) = unat n - unat k"
    using assms by (simp_all add: unat_sub_if_size word_size word_less_nat_alt word_le_nat_alt)
  moreover have "unat n < 2 ^ 32" using unsigned_less [of n] by simp
  ultimately show ?thesis using assms unfolding word_less_nat_alt word_le_nat_alt by simp
qed

lemma filled_0 [simp]: "filled b p 0 m = m" and copied_0 [simp]: "copied d s 0 m = m"
  by (simp_all add: filled_def copied_def)

lemma filled_split: "k \<le> n \<Longrightarrow> filled d (p + k) (n - k) (filled d p k m) = filled d p n m"
  using offset_split [of k n] by (auto simp: filled_def fun_eq_iff diff_diff_eq [symmetric])

lemma copied_same: "copied d d n m = m"
  by (auto simp: copied_def)

lemma copied_split:
  assumes k: "k \<le> n" and o: "d = s \<or> n \<le> d - s"
  shows "copied (d + k) (s + k) (n - k) (copied d s k m) = copied d s n m"
proof (cases "d = s")
  case True
  then show ?thesis by (simp add: copied_same)
next
  case False
  show ?thesis
  proof
    fix x
    let ?e = "x - d"
    have y: "s + ?e - d = ?e - (d - s)" "x - (d + k) = ?e - k" "s + k + (?e - k) = s + ?e" by simp_all
    consider "?e < k" | "\<not> ?e < k" "?e < n" | "\<not> ?e < n" by blast
    then show "copied (d + k) (s + k) (n - k) (copied d s k m) x = copied d s n m x"
    proof cases
      case 1
      then have "\<not> ?e - k < n - k" "?e < n" using offset_before [OF 1 k] offset_split [OF k, of ?e] by simp_all
      then show ?thesis using 1 unfolding copied_def y by simp
    next
      case 2
      then have "?e - k < n - k" using offset_split [OF k, of ?e] by simp
      moreover have "\<not> ?e - (d - s) < k" using offset_behind [OF 2(2,1)] o False by blast
      ultimately show ?thesis using 2 unfolding copied_def y by simp
    next
      case 3
      then have "\<not> ?e - k < n - k" "\<not> ?e < k" using offset_split [OF k, of ?e] by simp_all
      then show ?thesis using 3 unfolding copied_def y by simp
    qed
  qed
qed

lemma less_1_word: "(x < 1) = (x = 0)" for x :: u32
  by (simp add: word_less_nat_alt word_unat_eq_iff)

lemma filled_1: "filled b p 1 m = m(p := b)" and copied_1: "copied d s 1 m = m(d := m s)"
  by (auto simp: filled_def copied_def fun_eq_iff less_1_word)

lemma one_le: "n \<noteq> 0 \<Longrightarrow> 1 \<le> n" for n :: u32
  by (simp add: word_le_nat_alt unat_gt_0 Suc_leI)

lemma set_bytes_eq: "set_bytes d p n m = filled d p n m"
proof (induction d p n m rule: set_bytes.induct)
  case (1 d p n m)
  show ?case
  proof (cases "n = 0")
    case False
    then have "set_bytes d p n m = set_bytes d (p + 1) (n - 1) (m(p := d))" by (subst set_bytes.simps) simp
    also have "\<dots> = filled d (p + 1) (n - 1) (filled d p 1 m)" unfolding filled_1 by (rule 1 [OF False])
    also have "\<dots> = filled d p n m" by (rule filled_split [OF one_le [OF False]])
    finally show ?thesis .
  qed (simp add: set_bytes.simps)
qed

lemma copy_up_eq: "d = s \<or> n \<le> d - s \<Longrightarrow> copy_up d s n m = copied d s n m"
proof (induction d s n m rule: copy_up.induct)
  case (1 d s n m)
  show ?case
  proof (cases "n = 0")
    case False
    have "n - 1 \<le> n" using unat_pred_less [OF False] by (simp add: word_le_nat_alt)
    then have o: "d + 1 = s + 1 \<or> n - 1 \<le> d + 1 - (s + 1)" using 1(2) by (auto intro: order_trans)
    have "copy_up d s n m = copy_up (d + 1) (s + 1) (n - 1) (m(d := m s))" using False by (subst copy_up.simps) simp
    also have "\<dots> = copied (d + 1) (s + 1) (n - 1) (copied d s 1 m)" unfolding copied_1 by (rule 1(1) [OF False o])
    also have "\<dots> = copied d s n m" by (rule copied_split [OF one_le [OF False] 1(2)])
    finally show ?thesis .
  qed (simp add: copy_up.simps)
qed

section \<open>The word loops\<close>

lemma less_4_word: "x - p < 4 \<longleftrightarrow> x = p \<or> x = p + 1 \<or> x = p + 2 \<or> x = p + 3" for x p :: u32
proof -
  have "y < 4 \<longleftrightarrow> y = 0 \<or> y = 1 \<or> y = 2 \<or> y = 3" for y :: u32
    by (auto simp: word_less_nat_alt word_unat_eq_iff)
  then show ?thesis by (simp add: diff_eq_eq add.commute)
qed

lemma byte_bits: "bit d n \<Longrightarrow> n < 8" for d :: u8
  using bit_imp_le_length [of d n] by simp

lemma put_word_filled:
  assumes "w = (push_bit 8 (ucast d) OR ucast d) OR push_bit 16 (push_bit 8 (ucast d) OR ucast d)"
  shows "put_word p w m = filled d p 4 m"
proof -
  have "ucast w = d" "ucast (drop_bit 8 w) = d" "ucast (drop_bit 16 w) = d" "ucast (drop_bit 24 w) = d"
    unfolding assms by (rule bit_word_eqI; auto simp: bit_simps dest: byte_bits)+
  then show ?thesis unfolding put_word_def filled_def less_4_word by (auto simp: fun_eq_iff)
qed

lemma get_word_bytes:
  "ucast (get_word s m) = m s" "ucast (drop_bit 8 (get_word s m)) = m (s + 1)"
  "ucast (drop_bit 16 (get_word s m)) = m (s + 2)" "ucast (drop_bit 24 (get_word s m)) = m (s + 3)"
  unfolding get_word_def by (rule bit_word_eqI; auto simp: bit_simps dest: byte_bits)+

lemma put_get_word: "put_word d (get_word s m) m = copied d s 4 m"
proof
  fix x
  have ne: "d + 1 \<noteq> d" "d + 2 \<noteq> d" "d + 3 \<noteq> d" "d + 1 \<noteq> d + 2" "d + 1 \<noteq> d + 3" "d + 2 \<noteq> d + 3" by simp_all
  show "put_word d (get_word s m) m x = copied d s 4 m x"
    using ne ne [symmetric] unfolding put_word_def copied_def less_4_word get_word_bytes by (auto simp: add.commute)
qed

lemma get_put_word: "get_word p (put_word p w m) = w"
proof -
  have ne: "p + 1 \<noteq> p" "p + 2 \<noteq> p" "p + 3 \<noteq> p" "p + 1 \<noteq> p + 2" "p + 1 \<noteq> p + 3" "p + 2 \<noteq> p + 3" by simp_all
  have b: "put_word p w m p = ucast w" "put_word p w m (p + 1) = ucast (drop_bit 8 w)"
      "put_word p w m (p + 2) = ucast (drop_bit 16 w)" "put_word p w m (p + 3) = ucast (drop_bit 24 w)"
    using ne ne [symmetric] by (simp_all add: put_word_def)
  show ?thesis unfolding get_word_def b
  proof (rule bit_word_eqI)
    fix n assume "n < LENGTH(32)"
    then consider "n < 8" | "8 \<le> n" "n < 16" | "16 \<le> n" "n < 24" | "24 \<le> n" "n < 32" by fastforce
    then show "bit (ucast (ucast w :: u8) OR push_bit 8 (ucast (ucast (drop_bit 8 w) :: u8)) OR
        push_bit 16 (ucast (ucast (drop_bit 16 w) :: u8)) OR push_bit 24 (ucast (ucast (drop_bit 24 w) :: u8)) :: u32) n = bit w n"
      by cases (auto simp: bit_simps)
  qed
qed

lemma set_words_eq:
  assumes "w = (push_bit 8 (ucast d) OR ucast d) OR push_bit 16 (push_bit 8 (ucast d) OR ucast d)"
    and "set_words w p n m = (p', n', m')"
  shows "filled d p' n' m' = filled d p n m"
  using assms
proof (induction w p n m rule: set_words.induct)
  case (1 w p n m)
  show ?case
  proof (cases "4 \<le> n")
    case True
    then have "set_words w (p + 4) (n - 4) (put_word p w m) = (p', n', m')" using 1(3) by (subst (asm) set_words.simps) simp
    then have "filled d p' n' m' = filled d (p + 4) (n - 4) (put_word p w m)" by (rule 1(1) [OF True 1(2)])
    then show ?thesis unfolding put_word_filled [OF 1(2)] by (simp only: filled_split [OF True])
  next
    case False
    then show ?thesis using 1(3) by (subst (asm) set_words.simps) simp
  qed
qed

lemma filled_4_blocks: "filled d (p + 12) 4 (filled d (p + 8) 4 (filled d (p + 4) 4 (filled d p 4 m))) = filled d p 16 m"
proof -
  have "filled d (p + 4) 4 (filled d p 4 m) = filled d p 8 m" "filled d (p + 8) 4 (filled d p 8 m) = filled d p 12 m"
    "filled d (p + 12) 4 (filled d p 12 m) = filled d p 16 m"
    using filled_split [of 4 8 d p m] filled_split [of 8 12 d p m] filled_split [of 12 16 d p m] by simp_all
  then show ?thesis by simp
qed

lemma set_blocks_eq:
  assumes "w = (push_bit 8 (ucast d) OR ucast d) OR push_bit 16 (push_bit 8 (ucast d) OR ucast d)"
    and "set_blocks w p n m = (p', n', m')"
  shows "filled d p' n' m' = filled d p n m"
  using assms
proof (induction w p n m rule: set_blocks.induct)
  case (1 w p n m)
  show ?case
  proof (cases "16 \<le> n")
    case True
    let ?m = "put_word (p + 12) w (put_word (p + 8) w (put_word (p + 4) w (put_word p w m)))"
    have "set_blocks w (p + 16) (n - 16) ?m = (p', n', m')" using 1(3) True by (subst (asm) set_blocks.simps) (simp add: Let_def)
    then have "filled d p' n' m' = filled d (p + 16) (n - 16) ?m" by (rule 1(1) [OF True refl refl refl refl 1(2)])
    then show ?thesis unfolding put_word_filled [OF 1(2)] filled_4_blocks by (simp only: filled_split [OF True])
  next
    case False
    then show ?thesis using 1(3) by (subst (asm) set_blocks.simps) simp
  qed
qed

lemma copied_4_blocks:
  assumes "d = s \<or> 16 \<le> d - s"
  shows "copied (d + 12) (s + 12) 4 (copied (d + 8) (s + 8) 4 (copied (d + 4) (s + 4) 4 (copied d s 4 m))) = copied d s 16 m"
proof -
  have "(8::u32) \<le> 16" "(12::u32) \<le> 16" by simp_all
  then have o: "d = s \<or> 8 \<le> d - s" "d = s \<or> 12 \<le> d - s" using assms order_trans by blast+
  have "copied (d + 4) (s + 4) 4 (copied d s 4 m) = copied d s 8 m" "copied (d + 8) (s + 8) 4 (copied d s 8 m) = copied d s 12 m"
    "copied (d + 12) (s + 12) 4 (copied d s 12 m) = copied d s 16 m"
    using copied_split [OF _ o(1), of 4 m] copied_split [OF _ o(2), of 8 m] copied_split [OF _ assms, of 12 m] by simp_all
  then show ?thesis by simp
qed

lemma offset_shift: "k \<le> n \<Longrightarrow> d = s \<or> n \<le> d - s \<Longrightarrow> d + k = s + k \<or> n - k \<le> d + k - (s + k)" for d s n k :: u32
  using word_sub_le [of k n] by (auto intro: order_trans)

lemma copy_words_eq:
  assumes "d = s \<or> n \<le> d - s" and "copy_words d s n m = (d', s', n', m')"
  shows "copied d' s' n' m' = copied d s n m \<and> (d' = s' \<or> n' \<le> d' - s')"
  using assms
proof (induction d s n m rule: copy_words.induct)
  case (1 d s n m)
  show ?case
  proof (cases "4 \<le> n")
    case True
    have c: "copy_words (d + 4) (s + 4) (n - 4) (put_word d (get_word s m) m) = (d', s', n', m')"
      using 1(3) True by (subst (asm) copy_words.simps) simp
    show ?thesis using 1(1) [OF True offset_shift [OF True 1(2)] c] unfolding put_get_word copied_split [OF True 1(2)] .
  next
    case False
    then show ?thesis using 1(2,3) by (subst (asm) copy_words.simps) auto
  qed
qed

lemma copy_blocks_eq:
  assumes "d = s \<or> n \<le> d - s" and "copy_blocks d s n m = (d', s', n', m')"
  shows "copied d' s' n' m' = copied d s n m \<and> (d' = s' \<or> n' \<le> d' - s')"
  using assms
proof (induction d s n m rule: copy_blocks.induct)
  case (1 d s n m)
  show ?case
  proof (cases "16 \<le> n")
    case True
    have o: "d = s \<or> 16 \<le> d - s" using 1(2) True by (auto intro: order_trans)
    let ?m = "copied (d + 12) (s + 12) 4 (copied (d + 8) (s + 8) 4 (copied (d + 4) (s + 4) 4 (copied d s 4 m)))"
    have c: "copy_blocks (d + 16) (s + 16) (n - 16) ?m = (d', s', n', m')"
      using 1(3) True unfolding put_get_word [symmetric] by (subst (asm) copy_blocks.simps) (simp add: Let_def)
    show ?thesis
      using 1(1) [OF True refl refl refl refl offset_shift [OF True 1(2)], unfolded put_get_word, OF c]
      unfolding copied_4_blocks [OF o] copied_split [OF True 1(2)] .
  next
    case False
    then show ?thesis using 1(2,3) by (subst (asm) copy_blocks.simps) auto
  qed
qed

lemma rt_memset_eq: "rt_memset s c n m = filled (ucast c) s n m"
proof -
  define d :: u8 where "d = ucast c"
  define w :: u32 where "w = (push_bit 8 (ucast d) OR ucast d) OR push_bit 16 (push_bit 8 (ucast d) OR ucast d)"
  have f: "(0xff :: u32) = mask 8" by (simp add: mask_eq_exp_minus_1)
  have d: "c AND 0xff = ucast d" unfolding d_def f by (intro bit_word_eqI) (auto simp: bit_simps)
  obtain p1 n1 m1 where 1: "set_blocks w s n m = (p1, n1, m1)" by (cases "set_blocks w s n m")
  obtain p2 n2 m2 where 2: "set_words w p1 n1 m1 = (p2, n2, m2)" by (cases "set_words w p1 n1 m1")
  have "filled d p2 n2 m2 = filled d s n m" using set_words_eq [OF w_def 2] set_blocks_eq [OF w_def 1] by simp
  moreover have "ucast (ucast d :: u32) = d" by (intro bit_word_eqI) (simp add: bit_simps)
  ultimately show ?thesis unfolding rt_memset_def d Let_def w_def [symmetric] 1 prod.case 2 d_def [symmetric]
    by (simp add: set_bytes_eq)
qed

lemma rt_memcpy_eq:
  assumes "dst = src \<or> n \<le> dst - src"
  shows "rt_memcpy dst src n m = copied dst src n m"
proof -
  obtain d1 s1 n1 m1 where 1: "copy_blocks dst src n m = (d1, s1, n1, m1)" by (cases "copy_blocks dst src n m")
  obtain d2 s2 n2 m2 where 2: "copy_words d1 s1 n1 m1 = (d2, s2, n2, m2)" by (cases "copy_words d1 s1 n1 m1")
  note b = copy_blocks_eq [OF assms 1]
  note c = copy_words_eq [OF conjunct2 [OF b] 2]
  have "copy_up d2 s2 n2 m2 = copied dst src n m" using copy_up_eq [OF conjunct2 [OF c]] b c by simp
  then show ?thesis unfolding rt_memcpy_def 1 Let_def prod.case 2 using copy_up_eq [OF assms] by simp
qed

text \<open>The copy that starts at the end, for a destination behind the source.\<close>

lemma copy_down_eq: "n \<le> s - d \<Longrightarrow> copy_down (d + n) (s + n) n m = copied d s n m"
proof (induction n arbitrary: m rule: measure_induct_rule [where f = unat])
  case (less n)
  show ?case
  proof (cases "n = 0")
    case False
    let ?m = "m(d + n - 1 := m (s + n - 1))"
    have l: "n - 1 \<le> n" using unat_pred_less [OF False] by (simp add: word_le_nat_alt)
    have e: "d + n - 1 = d + (n - 1)" "s + n - 1 = s + (n - 1)" by simp_all
    have "copy_down (d + n) (s + n) n m = copy_down (d + (n - 1)) (s + (n - 1)) (n - 1) ?m"
      using False unfolding e [symmetric] by (subst copy_down.simps) simp
    also have "\<dots> = copied d s (n - 1) ?m"
      using less.IH [OF unat_pred_less [OF False] order_trans [OF l less.prems]] .
    also have "\<dots> = copied d s n m"
    proof
      fix x
      have x: "x - d < n - 1 \<Longrightarrow> s + (x - d) \<noteq> d + n - 1"
      proof
        assume a: "x - d < n - 1" "s + (x - d) = d + n - 1"
        then have "s - d = n - 1 - (x - d)" by (simp add: algebra_simps)
        moreover have "n - 1 - (x - d) \<le> n - 1" using word_sub_le [OF less_imp_le [OF a(1)]] .
        ultimately have "s - d \<le> n - 1" by (simp only:)
        then have "n \<le> n - 1" using less.prems by (rule order_trans [rotated])
        then show False using unat_pred_less [OF False] by (simp add: word_le_nat_alt)
      qed
      have y: "x - d < n \<longleftrightarrow> x - d < n - 1 \<or> x = d + n - 1"
      proof -
        have "x - d - (n - 1) < n - (n - 1) \<longleftrightarrow> x = d + n - 1" by (simp add: less_1_word diff_eq_eq add.commute algebra_simps)
        then show ?thesis using offset_split [OF l, of "x - d"] by simp
      qed
      show "copied d s (n - 1) ?m x = copied d s n m x"
      proof (cases "x = d + n - 1")
        case True
        have "s + (d + n - 1 - d) = s + n - 1" by simp
        then have "m (s + n - 1) = m (s + (x - d))" using True by (simp only:)
        then show ?thesis using True x y unfolding copied_def by auto
      qed (use x y in \<open>auto simp: copied_def\<close>)
    qed
    finally show ?thesis .
  qed (simp add: copy_down.simps)
qed

lemma rt_memmove_eq:
  assumes "unat src + unat n < 2 ^ 32" and "unat dest + unat n < 2 ^ 32"
  shows "rt_memmove dest src n m = copied dest src n m"
proof (cases "src < dest \<and> dest < src + n")
  case True
  have "n \<le> src - dest" using True assms
    by (simp add: word_le_nat_alt word_less_nat_alt unat_sub_if_size word_size)
  then show ?thesis using True copy_down_eq by (simp add: rt_memmove_def)
next
  case False
  have "unat (src + n) = unat src + unat n" using assms(1) unat_add_lem [of src n] by simp
  then have "dest = src \<or> n \<le> dest - src"
    using False assms by (auto simp: word_le_nat_alt word_less_nat_alt unat_sub_if_size word_size word_unat_eq_iff)
  then show ?thesis using False copy_up_eq by (auto simp: rt_memmove_def)
qed

section \<open>Strings\<close>

text \<open>The string \<open>xs\<close>, without its NUL, stands at \<open>p\<close>.\<close>

fun cstr :: "memory \<Rightarrow> u32 \<Rightarrow> u8 list \<Rightarrow> bool" where
  "cstr m p [] \<longleftrightarrow> m p = 0"
| "cstr m p (c # cs) \<longleftrightarrow> c \<noteq> 0 \<and> m p = c \<and> cstr m (p + 1) cs"

lemma strlen_loop_eq: "cstr m sc xs \<Longrightarrow> strlen_loop s sc m = Some (sc + of_nat (length xs) - s)"
  by (induction xs arbitrary: sc) (simp_all add: strlen_loop.simps add.assoc)

lemma rt_strlen_eq: "cstr m s xs \<Longrightarrow> rt_strlen s m = Some (of_nat (length xs))"
  by (simp add: rt_strlen_def strlen_loop_eq)

fun str_diff :: "u8 list \<Rightarrow> u8 list \<Rightarrow> int" where
  "str_diff [] [] = 0"
| "str_diff [] (y # ys) = - uint y"
| "str_diff (x # xs) [] = uint x"
| "str_diff (x # xs) (y # ys) = (if x = y then str_diff xs ys else uint x - uint y)"

lemma cstr_nonzero: "cstr m p xs \<Longrightarrow> c \<in> set xs \<Longrightarrow> c \<noteq> 0"
  by (induction xs arbitrary: p) auto

lemma uint_pos: "c \<noteq> 0 \<Longrightarrow> 0 < uint c" for c :: u8
  by (simp add: word_neq_0_conv word_less_alt)

lemma str_diff_order:
  "0 \<notin> set xs \<Longrightarrow> 0 \<notin> set ys \<Longrightarrow>
   (str_diff xs ys = 0 \<longleftrightarrow> xs = ys) \<and> (str_diff xs ys < 0 \<longleftrightarrow> (xs, ys) \<in> lexord {(a, b). a < b})"
proof (induction xs ys rule: str_diff.induct)
  case (2 y ys)
  then show ?case using uint_pos [of y] by auto
next
  case (3 x xs)
  then show ?case using uint_pos [of x] by auto
next
  case (4 x xs y ys)
  have "uint x = uint y \<longleftrightarrow> x = y" by (simp add: word_uint_eq_iff)
  then show ?case using 4 by (auto simp: word_less_def)
qed simp

lemma rt_strcmp_eq: "cstr m p xs \<Longrightarrow> cstr m q ys \<Longrightarrow> rt_strcmp p q m = Some (str_diff xs ys)"
  by (induction xs ys arbitrary: p q rule: str_diff.induct) (auto simp: rt_strcmp.simps)

lemma strncmp_loop_eq:
  "cstr m p xs \<Longrightarrow> cstr m q ys \<Longrightarrow>
   strncmp_loop 0 p q n m = word_of_int (str_diff (take (unat n) xs) (take (unat n) ys))"
proof (induction xs ys arbitrary: p q n rule: str_diff.induct)
  case (4 x xs y ys)
  show ?case
  proof (cases "n = 0")
    case False
    then have u: "unat n = Suc (unat (n - 1))" using unat_pred_less [OF False] by (simp add: unat_minus_one unat_gt_0)
    show ?thesis
    proof (cases "x = y")
      case True
      then show ?thesis using 4 u False by (subst strncmp_loop.simps) simp
    next
      case ne: False
      then have "word_of_int (uint x - uint y) \<noteq> (0::u8)" by simp
      then show ?thesis using 4 u False ne by (subst strncmp_loop.simps) (simp add: Let_def)
    qed
  qed (simp add: strncmp_loop.simps)
qed (auto simp: strncmp_loop.simps Let_def take_Cons unat_eq_zero split: nat.split)

lemma memcmp_0: "rt_memcmp p q n m = 0 \<longleftrightarrow> (\<forall>k < n. m (p + k) = m (q + k))"
proof (induction p q n m rule: rt_memcmp.induct)
  case (1 p q n m)
  show ?case
  proof (cases "n = 0")
    case False
    have step: "(\<forall>k < n. m (p + k) = m (q + k)) \<longleftrightarrow> m p = m q \<and> (\<forall>k < n - 1. m (p + 1 + k) = m (q + 1 + k))"
    proof (intro iffI conjI allI impI)
      assume a: "\<forall>k < n. m (p + k) = m (q + k)"
      show "m p = m q" using a [rule_format, of 0] False by (simp add: word_neq_0_conv)
      fix k assume "k < n - 1"
      then have "unat k + 1 < unat n" using False unat_minus_one [of n] by (simp add: word_less_nat_alt)
      moreover from this have "unat (k + 1) = unat k + 1" using unat_limit [of n] unat_add_lem [of k 1] by simp
      ultimately have "k + 1 < n" by (simp add: word_less_nat_alt)
      then have "m (p + (k + 1)) = m (q + (k + 1))" using a by blast
      then show "m (p + 1 + k) = m (q + 1 + k)" by (simp add: add.commute add.left_commute)
    next
      fix k assume a: "m p = m q \<and> (\<forall>k < n - 1. m (p + 1 + k) = m (q + 1 + k))" and k: "k < n"
      have "k < 1 \<or> k - 1 < n - 1" using offset_split [OF one_le [OF False], of k] k by simp
      then show "m (p + k) = m (q + k)"
      proof
        assume "k - 1 < n - 1"
        then have "m (p + 1 + (k - 1)) = m (q + 1 + (k - 1))" using a by blast
        then show ?thesis by simp
      qed (use a in \<open>simp add: less_1_word\<close>)
    qed
    have "uint (m p) = uint (m q) \<longleftrightarrow> m p = m q" by (simp add: word_uint_eq_iff)
    then show ?thesis
      using 1 [OF False refl] False step by (subst rt_memcmp.simps) (auto simp: Let_def)
  qed (simp add: rt_memcmp.simps)
qed

lemma memcmp_first:
  "k < n \<Longrightarrow> \<forall>j < k. m (p + j) = m (q + j) \<Longrightarrow> m (p + k) \<noteq> m (q + k) \<Longrightarrow> rt_memcmp p q n m = uint (m (p + k)) - uint (m (q + k))"
proof (induction p q n m arbitrary: k rule: rt_memcmp.induct)
  case (1 p q n m)
  have n: "n \<noteq> 0" using 1(2) by auto
  show ?case
  proof (cases "k = 0")
    case True
    moreover have "uint (m p) = uint (m q) \<longleftrightarrow> m p = m q" by (simp add: word_uint_eq_iff)
    ultimately show ?thesis using 1(4) n by (subst rt_memcmp.simps) (simp add: Let_def)
  next
    case False
    have "0 < unat k" using False by (simp add: unat_gt_0)
    then have kn: "k - 1 < n - 1" using 1(2) False n unat_minus_one [of n] unat_minus_one [of k] by (simp add: word_less_nat_alt)
    have e: "m p = m q" using 1(3) False by (auto simp: word_neq_0_conv dest: spec [of _ 0])
    have "m (p + 1 + j) = m (q + 1 + j)" if "j < k - 1" for j
    proof -
      have "unat j + 1 < unat k" using that False unat_minus_one [of k] by (simp add: word_less_nat_alt)
      moreover from this have "unat (j + 1) = unat j + 1" using unat_limit [of k] unat_add_lem [of j 1] by simp
      ultimately have "j + 1 < k" by (simp add: word_less_nat_alt)
      then have "m (p + (j + 1)) = m (q + (j + 1))" using 1(3) by blast
      then show ?thesis by (simp add: add.commute add.left_commute)
    qed
    then have "rt_memcmp (p + 1) (q + 1) (n - 1) m = uint (m (p + 1 + (k - 1))) - uint (m (q + 1 + (k - 1)))"
      using 1(1) [OF n refl _ kn] e 1(4) by simp
    then show ?thesis using e n by (subst rt_memcmp.simps) (simp add: Let_def)
  qed
qed

lemma cstr_nth:
  "cstr m p xs \<Longrightarrow> k < length xs \<Longrightarrow> m (p + of_nat k) = xs ! k"
  "cstr m p xs \<Longrightarrow> m (p + of_nat (length xs)) = 0"
proof (induction xs arbitrary: p k)
  case (Cons x xs)
  { case 1 then show ?case using Cons.IH(1) [of "p + 1" "k - 1"] by (cases k) (auto simp: add.assoc) }
  { case 2 then show ?case using Cons.IH(2) [of "p + 1"] by (simp add: add.assoc) }
qed auto

lemma cstr_intro:
  "(\<And>k. k \<le> length xs \<Longrightarrow> m (p + of_nat k) = (if k < length xs then xs ! k else 0)) \<Longrightarrow> (\<And>c. c \<in> set xs \<Longrightarrow> c \<noteq> 0) \<Longrightarrow>
   cstr m p xs"
proof (induction xs arbitrary: p)
  case Nil
  then show ?case using Nil(1) [of 0] by simp
next
  case (Cons x xs)
  have "cstr m (p + 1) xs"
    using Cons.prems(1) [of "Suc k" for k] Cons.prems(2) by (intro Cons.IH) (auto simp: add.assoc)
  then show ?case using Cons.prems(1) [of 0] Cons.prems(2) by simp
qed

lemma of_nat_small: "n < 2 ^ 32 \<Longrightarrow> 0 < n \<Longrightarrow> (of_nat n :: u32) \<noteq> 0"
  by (simp add: word_unat_eq_iff unat_of_nat)

lemma memcmp_prefix:
  "cstr m p xs \<Longrightarrow> cstr m q ys \<Longrightarrow> length ys < 2 ^ 32 \<Longrightarrow> rt_memcmp p q (of_nat (length ys)) m = 0 \<longleftrightarrow> prefix ys xs"
proof (induction ys arbitrary: p q xs)
  case Nil
  then show ?case by (simp add: rt_memcmp.simps)
next
  case (Cons y ys)
  have n: "(of_nat (length (y # ys)) :: u32) \<noteq> 0" using Cons.prems(3) by (intro of_nat_small) simp_all
  have "uint (m p) = uint (m q) \<longleftrightarrow> m p = m q" by (simp add: word_uint_eq_iff)
  then have *: "rt_memcmp p q (of_nat (length (y # ys))) m = 0 \<longleftrightarrow>
      m p = m q \<and> rt_memcmp (p + 1) (q + 1) (of_nat (length ys)) m = 0"
    using n by (subst rt_memcmp.simps) (auto simp: Let_def)
  show ?case
  proof (cases xs)
    case Nil
    then show ?thesis using Cons.prems * by auto
  next
    case (Cons x xs')
    then show ?thesis using Cons.prems Cons.IH [of "p + 1" xs' "q + 1"] * by auto
  qed
qed

text \<open>The first place of \<open>ys\<close> in \<open>xs\<close>.\<close>

fun find_at :: "u8 list \<Rightarrow> u8 list \<Rightarrow> nat option" where
  "find_at ys [] = (if ys = [] then Some 0 else None)"
| "find_at ys (x # xs) = (if prefix ys (x # xs) then Some 0 else map_option Suc (find_at ys xs))"

lemma find_at_first:
  "case find_at ys xs of
     None \<Rightarrow> \<not> sublist ys xs
   | Some k \<Rightarrow> prefix ys (drop k xs) \<and> k \<le> length xs \<and> (\<forall>j < k. \<not> prefix ys (drop j xs))"
proof (induction xs)
  case (Cons x xs)
  have "sublist ys (x # xs) \<longleftrightarrow> prefix ys (x # xs) \<or> sublist ys xs" by (rule sublist_Cons_right)
  then show ?case using Cons by (auto split: option.splits simp: less_Suc_eq_0_disj)
qed (simp split: option.splits)

lemma find_at_length: "find_at ys xs = Some k \<Longrightarrow> length ys \<le> length xs"
  by (induction xs arbitrary: k) (auto split: if_splits dest: prefix_length_le)

lemma strstr_loop_eq:
  "cstr m p xs \<Longrightarrow> cstr m q ys \<Longrightarrow> length ys < 2 ^ 32 \<Longrightarrow> ys \<noteq> [] \<Longrightarrow>
   strstr_loop p q (int (length xs)) (int (length ys)) m = map_option (\<lambda>k. p + of_nat k) (find_at ys xs)"
proof (induction xs arbitrary: p)
  case Nil
  then show ?case by (simp add: strstr_loop.simps)
next
  case (Cons x xs)
  have mc: "rt_memcmp p q (word_of_int (int (length ys))) m = 0 \<longleftrightarrow> prefix ys (x # xs)"
    using memcmp_prefix [OF Cons.prems(1-3)] by simp
  have rest: "strstr_loop (p + 1) q (int (length xs)) (int (length ys)) m = map_option (\<lambda>k. p + 1 + of_nat k) (find_at ys xs)"
    using Cons by simp
  show ?case
  proof (cases "length ys \<le> length (x # xs)")
    case True
    then show ?thesis using mc rest by (subst strstr_loop.simps) (auto simp: option.map_comp comp_def add.assoc)
  next
    case False
    have "find_at ys (x # xs) = None" using False find_at_length [of ys "x # xs"] by fastforce
    then show ?thesis using False by (subst strstr_loop.simps) simp
  qed
qed

lemma sint_of_nat: "n < 2 ^ 31 \<Longrightarrow> sint (of_nat n :: u32) = int n"
  by (simp add: sint_uint uint_nat unat_of_nat signed_take_bit_eq_if_positive bit_iff_odd take_bit_nat_eq_self take_bit_int_eq_self)

section \<open>Copies of strings\<close>

definition padded :: "u8 list \<Rightarrow> u32 \<Rightarrow> u8" where
  "padded xs k = (if unat k < length xs then xs ! unat k else 0)"

text \<open>\<open>xs\<close> at \<open>d\<close>, cut off or filled with NULs to \<open>n\<close> bytes.\<close>

definition stored :: "u8 list \<Rightarrow> u32 \<Rightarrow> u32 \<Rightarrow> memory \<Rightarrow> memory" where
  "stored xs d n m = (\<lambda>x. if x - d < n then padded xs (x - d) else m x)"

lemma stored_Nil: "stored [] d n m = filled 0 d n m"
  by (auto simp: stored_def padded_def filled_def fun_eq_iff)

lemma stored_0 [simp]: "stored xs d 0 m = m"
  by (simp add: stored_def)

lemma stored_Cons:
  assumes "n \<noteq> 0"
  shows "stored (c # cs) d n m = stored cs (d + 1) (n - 1) (m(d := c))"
proof
  fix x
  have e: "x - (d + 1) = x - d - 1" by simp
  show "stored (c # cs) d n m x = stored cs (d + 1) (n - 1) (m(d := c)) x"
  proof (cases "x = d")
    case True
    then have "\<not> x - d - 1 < n - 1" using offset_before [OF _ one_le [OF assms], of "x - d"] by simp
    then show ?thesis using True assms unfolding stored_def e by (simp add: padded_def word_neq_0_conv)
  next
    case False
    then have "x - d \<noteq> 0" by simp
    then have u: "unat (x - d) = Suc (unat (x - d - 1))" by (simp add: unat_minus_one unat_gt_0)
    have "x - d < n \<longleftrightarrow> x - d - 1 < n - 1" using offset_split [OF one_le [OF assms], of "x - d"] False by (simp add: less_1_word)
    then show ?thesis using False unfolding stored_def e by (auto simp: padded_def u)
  qed
qed

lemma cstr_cong: "(\<And>k. k \<le> length xs \<Longrightarrow> m (p + of_nat k) = m' (p + of_nat k)) \<Longrightarrow> cstr m p xs = cstr m' p xs"
proof (induction xs arbitrary: p)
  case Nil
  then show ?case using Nil [of 0] by simp
next
  case (Cons x xs)
  have "cstr m (p + 1) xs = cstr m' (p + 1) xs"
    using Cons.prems [of "Suc k" for k] by (intro Cons.IH) (simp add: add.assoc)
  then show ?case using Cons.prems [of 0] by simp
qed

lemma apart_next:
  fixes s d n :: u32
  assumes "\<forall>k \<le> length (c # cs). \<not> s + of_nat k - d < n" and "n \<noteq> 0" and "k \<le> length cs"
  shows "s + 1 + of_nat k \<noteq> d" "\<not> s + 1 + of_nat k - (d + 1) < n - 1"
proof -
  have a: "\<not> s + 1 + of_nat k - d < n"
    using assms(1) [rule_format, of "Suc k"] assms(3) by (simp add: add.assoc)
  then show "s + 1 + of_nat k \<noteq> d" using assms(2) by (metis diff_self word_neq_0_conv)
  have "s + 1 + of_nat k - (d + 1) = (s + 1 + of_nat k - d) - 1" by simp
  then show "\<not> s + 1 + of_nat k - (d + 1) < n - 1"
    using offset_split [OF one_le [OF assms(2)], of "s + 1 + of_nat k - d"] a by simp
qed

lemma cstr_apart:
  assumes "cstr m s (c # cs)" and "\<forall>k \<le> length (c # cs). \<not> s + of_nat k - d < n" and "n \<noteq> 0"
  shows "cstr (m(d := x)) (s + 1) cs"
  using apart_next(1) [OF assms(2,3)] assms(1) cstr_cong [of cs m "s + 1" "m(d := x)"] by simp

lemma strncpy_loop_eq:
  "cstr m s xs \<Longrightarrow> \<forall>k \<le> length xs. \<not> s + of_nat k - d < n \<Longrightarrow> n \<noteq> 0 \<Longrightarrow> strncpy_loop d s n m = stored xs d n m"
proof (induction xs arbitrary: d s n m)
  case Nil
  then show ?case
    using filled_split [OF one_le [OF Nil(3)], of 0 d m] by (subst strncpy_loop.simps) (simp add: stored_Nil set_bytes_eq filled_1)
next
  case (Cons x xs)
  show ?case
  proof (cases "n - 1 = 0")
    case True
    then have "stored (x # xs) d n m = m(d := x)" by (subst stored_Cons [OF Cons.prems(3)]) (simp only: stored_0)
    then show ?thesis using Cons.prems(1) True by (subst strncpy_loop.simps) (simp add: Let_def)
  next
    case False
    have "strncpy_loop d s n m = strncpy_loop (d + 1) (s + 1) (n - 1) (m(d := x))"
      using Cons.prems(1) False by (subst strncpy_loop.simps) (simp add: Let_def)
    also have "\<dots> = stored xs (d + 1) (n - 1) (m(d := x))"
      by (rule Cons.IH [OF cstr_apart [OF Cons.prems] _ False]) (use apart_next(2) [OF Cons.prems(2,3)] in blast)
    also have "\<dots> = stored (x # xs) d n m" by (rule stored_Cons [OF Cons.prems(3), symmetric])
    finally show ?thesis .
  qed
qed

lemma rt_strcpy_eq:
  "cstr m s xs \<Longrightarrow> length xs + 1 < 2 ^ 32 \<Longrightarrow> \<forall>k \<le> length xs. \<not> s + of_nat k - d < of_nat (length xs + 1) \<Longrightarrow>
   rt_strcpy d s m = Some (stored xs d (of_nat (length xs + 1)) m)"
proof (induction xs arbitrary: d s m)
  case Nil
  then show ?case by (subst rt_strcpy.simps) (simp add: stored_Nil filled_1)
next
  case (Cons x xs)
  have n: "(of_nat (length (x # xs) + 1) :: u32) \<noteq> 0" using Cons.prems(2) by (intro of_nat_small) simp_all
  have l: "of_nat (length (x # xs) + 1) - 1 = (of_nat (length xs + 1) :: u32)" by simp
  have "rt_strcpy d s m = rt_strcpy (d + 1) (s + 1) (m(d := x))"
    using Cons.prems(1) by (subst rt_strcpy.simps) simp
  also have "\<dots> = Some (stored xs (d + 1) (of_nat (length xs + 1)) (m(d := x)))"
    using Cons.prems(2) apart_next(2) [OF Cons.prems(3) n, unfolded l]
    by (intro Cons.IH [OF cstr_apart [OF Cons.prems(1,3) n]]) simp_all
  finally show ?case unfolding stored_Cons [OF n] l .
qed

lemma byte_bound: "0 \<le> uint c" "uint c < 256" for c :: u8
  using unsigned_less [of c] by simp_all

lemma str_diff_bound:
  assumes "\<forall>c \<in> set xs \<union> set ys. uint c < b" and "0 < b"
  shows "\<bar>str_diff xs ys\<bar> < b"
  using assms
proof (induction xs ys rule: str_diff.induct)
  case (4 x xs y ys)
  have "uint x < b" "uint y < b" using 4(2) by simp_all
  then have "\<bar>uint x - uint y\<bar> < b" using byte_bound(1) [of x] byte_bound(1) [of y] by linarith
  then show ?case using 4 by simp
qed (auto simp: byte_bound)

lemma signed_char_diff:
  "\<bar>d\<bar> < 256 \<Longrightarrow> sint (word_of_int d :: u8) = 0 \<longleftrightarrow> d = 0" "\<bar>d\<bar> < 128 \<Longrightarrow> sint (word_of_int d :: u8) = d"
proof -
  have "sint (word_of_int d :: u8) = 0 \<longleftrightarrow> (word_of_int d :: u8) = 0" by (rule signed_eq_0_iff)
  also have "\<dots> \<longleftrightarrow> d mod 256 = 0" by (simp add: word_uint_eq_iff uint_word_of_int)
  finally show "sint (word_of_int d :: u8) = 0 \<longleftrightarrow> d = 0" if "\<bar>d\<bar> < 256"
    using that zdvd_not_zless [of "\<bar>d\<bar>" 256] by (auto simp: mod_eq_0_iff_dvd)
  show "sint (word_of_int d :: u8) = d" if "\<bar>d\<bar> < 128" using that by (simp add: sint_sbintrunc' signed_take_bit_int_eq_self abs_less_iff)
qed

section \<open>Properties\<close>

text \<open>
  C26: The functions that work on words do what the byte loops do: \<open>rt_memset\<close> fills exactly the \<open>n\<close> bytes,
  \<open>rt_memcpy\<close> copies them unless the destination begins inside the source, and \<open>rt_memmove\<close> copies them
  wherever the two are. \<open>rt_memcmp\<close> is the difference of the first two bytes that differ, zero if none do.
\<close>

theorem mem_functions_equiv:
  "rt_memset s c n m = (\<lambda>x. if x - s < n then ucast c else m x) \<and>
   (dst = src \<or> n \<le> dst - src \<longrightarrow> rt_memcpy dst src n m = (\<lambda>x. if x - dst < n then m (src + (x - dst)) else m x)) \<and>
   (unat src + unat n < 2 ^ 32 \<and> unat dst + unat n < 2 ^ 32 \<longrightarrow>
     rt_memmove dst src n m = (\<lambda>x. if x - dst < n then m (src + (x - dst)) else m x)) \<and>
   ((\<forall>k < n. m (dst + k) = m (src + k)) \<longrightarrow> rt_memcmp dst src n m = 0) \<and>
   (\<forall>k < n. (\<forall>j < k. m (dst + j) = m (src + j)) \<and> m (dst + k) \<noteq> m (src + k) \<longrightarrow>
     rt_memcmp dst src n m = uint (m (dst + k)) - uint (m (src + k)) \<and> rt_memcmp dst src n m \<noteq> 0)"
  using rt_memset_eq [of s c n m] rt_memcpy_eq [of dst src n m] rt_memmove_eq [of src n dst m] memcmp_0 [of dst src n m]
    memcmp_first [of _ n m dst src]
  by (auto simp: filled_def copied_def)

theorem mem_functions_equiv_witness:
  "rt_memset 0x20000000 0x1ff 18 (\<lambda>_. 0) 0x20000011 = 255 \<and> rt_memset 0x20000000 0x1ff 18 (\<lambda>_. 0) 0x20000012 = 0 \<and>
   rt_memcpy 0x20000100 0x20000000 20 (\<lambda>x. ucast x) 0x20000113 = 0x13 \<and>
   rt_memmove 0x20000002 0x20000000 5 (\<lambda>x. ucast x) 0x20000005 = 3 \<and>
   rt_memcmp 0x20000010 0x20000020 6 (\<lambda>x. if x = 0x20000014 then 7 else if x = 0x20000024 then 9 else 1) = - 2"
proof -
  have "dst = src \<or> n \<le> dst - src \<Longrightarrow> rt_memcpy dst src n m = (\<lambda>x. if x - dst < n then m (src + (x - dst)) else m x)"
    "unat src + unat n < 2 ^ 32 \<Longrightarrow> unat dst + unat n < 2 ^ 32 \<Longrightarrow>
      rt_memmove dst src n m = (\<lambda>x. if x - dst < n then m (src + (x - dst)) else m x)"
    "rt_memset s c n m = (\<lambda>x. if x - s < n then ucast c else m x)" for s dst src c n :: u32 and m
    using mem_functions_equiv [of s c n m dst src] by blast+
  moreover have "rt_memcmp 0x20000010 0x20000020 6 (\<lambda>x. if x = 0x20000014 then 7 else if x = 0x20000024 then 9 else 1) = - 2"
    (is "rt_memcmp _ _ _ ?m = _")
  proof -
    have "rt_memcmp dst src n m = uint (m (dst + k)) - uint (m (src + k))"
      if "k < n" "\<forall>j < k. m (dst + j) = m (src + j)" "m (dst + k) \<noteq> m (src + k)" for dst src n k :: u32 and m
      using mem_functions_equiv [of 0 0 n m dst src] that by blast
    from this [where k = 4 and n = 6 and dst = "0x20000010" and src = "0x20000020" and m = ?m]
    show ?thesis using less_4_word [of _ 0] by auto
  qed
  ultimately show ?thesis by simp
qed

text \<open>
  \<open>rt_strcmp\<close> tells equality and the lexicographic order of two strings; \<open>rt_strncmp\<close> tells equality of
  their first \<open>n\<close> characters, but, since its result is a signed character, their order only among
  characters below 128.
\<close>

theorem str_compare_order:
  assumes "cstr m p xs" and "cstr m q ys"
  shows "(\<exists>r. rt_strcmp p q m = Some r \<and> (r = 0 \<longleftrightarrow> xs = ys) \<and> (r < 0 \<longleftrightarrow> (xs, ys) \<in> lexord {(a, b). a < b})) \<and>
    (rt_strncmp p q n m = 0 \<longleftrightarrow> take (unat n) xs = take (unat n) ys) \<and>
    ((\<forall>c \<in> set xs \<union> set ys. c < 128) \<longrightarrow>
      (rt_strncmp p q n m < 0 \<longleftrightarrow> (take (unat n) xs, take (unat n) ys) \<in> lexord {(a, b). a < b}))"
proof -
  let ?d = "str_diff (take (unat n) xs) (take (unat n) ys)"
  have z: "0 \<notin> set xs" "0 \<notin> set ys" using cstr_nonzero assms by blast+
  then have zt: "0 \<notin> set (take (unat n) xs)" "0 \<notin> set (take (unat n) ys)" by (auto dest: in_set_takeD)
  have r: "rt_strncmp p q n m = sint (word_of_int ?d :: u8)" by (simp add: rt_strncmp_def strncmp_loop_eq [OF assms])
  have b: "\<bar>?d\<bar> < 256" by (rule str_diff_bound) (simp_all add: byte_bound)
  have "?d < 0 \<longleftrightarrow> sint (word_of_int ?d :: u8) < 0" if "\<forall>c \<in> set xs \<union> set ys. c < 128"
  proof -
    have "\<bar>?d\<bar> < 128" using that by (intro str_diff_bound) (auto dest: in_set_takeD simp: word_less_def)
    then show ?thesis using signed_char_diff(2) by simp
  qed
  then show ?thesis
    using rt_strcmp_eq [OF assms] str_diff_order [OF z] str_diff_order [OF zt] signed_char_diff(1) [OF b] unfolding r by blast
qed

theorem str_compare_order_witness:
  "let m = (\<lambda>_. 0)(0x100 := 97, 0x200 := 98, 0x300 := 200) in
   (\<exists>r. rt_strcmp 0x100 0x200 m = Some r \<and> r < 0) \<and> rt_strncmp 0x100 0x200 1 m < 0 \<and>
   (\<exists>r. rt_strcmp 0x300 0x200 m = Some r \<and> 0 < r) \<and> rt_strncmp 0x300 0x200 1 m \<noteq> 0 \<and>
   rt_strncmp 0x300 0x100 1 m = 103 \<and> rt_strncmp 0x300 0x400 1 m = - 56"
proof -
  let ?m = "((\<lambda>_. 0)(0x100 := 97, 0x200 := 98, 0x300 := 200)) :: memory"
  have s: "cstr ?m 0x100 [97]" "cstr ?m 0x200 [98]" "cstr ?m 0x300 [200]" by simp_all
  have l: "([97], [98]) \<in> lexord {(a :: u8, b). a < b}" "([200], [98]) \<notin> lexord {(a :: u8, b). a < b}" by simp_all
  obtain r where r: "rt_strcmp 0x300 0x200 ?m = Some r" "r \<noteq> 0" "\<not> r < 0"
    using str_compare_order [OF s(3,2), of 1] l by auto
  have "rt_strncmp 0x300 0x100 1 ?m = 103" "rt_strncmp 0x300 0x400 1 ?m = - 56"
    by (simp_all add: rt_strncmp_def strncmp_loop.simps Let_def)
  then show ?thesis
    using str_compare_order [OF s(1,2), of 1] str_compare_order [OF s(3,2), of 1] l r by (auto simp: Let_def)
qed

text \<open>
  C3: \<open>rt_strstr\<close> returns the first place where the second string occurs in the first one, and nothing when it
  occurs nowhere.
\<close>

theorem strstr_first:
  assumes "cstr m s1 xs" and "cstr m s2 ys" and "length xs < 2 ^ 31" and "length ys < 2 ^ 31"
  shows "\<exists>r. rt_strstr s1 s2 m = Some r \<and>
    (case r of
       None \<Rightarrow> \<not> sublist ys xs
     | Some p \<Rightarrow> \<exists>k \<le> length xs. p = s1 + of_nat k \<and> prefix ys (drop k xs) \<and> (\<forall>j < k. \<not> prefix ys (drop j xs)))"
proof (cases "ys = []")
  case True
  then show ?thesis using rt_strlen_eq [OF assms(2)] by (intro exI [of _ "Some s1"]) (auto simp: rt_strstr_def)
next
  case False
  have l: "sint (of_nat (length xs) :: u32) = int (length xs)" "sint (of_nat (length ys) :: u32) = int (length ys)"
    using assms(3,4) by (simp_all add: sint_of_nat)
  have "rt_strstr s1 s2 m = Some (map_option (\<lambda>k. s1 + of_nat k) (find_at ys xs))"
    using False assms(4) by (simp add: rt_strstr_def rt_strlen_eq [OF assms(1)] rt_strlen_eq [OF assms(2)] l
      strstr_loop_eq [OF assms(1,2)])
  then show ?thesis using find_at_first [of ys xs] by (auto split: option.splits)
qed

theorem strstr_first_witness:
  "\<exists>r. rt_strstr 0x100 0x200 ((\<lambda>_. 0)(0x100 := 97, 0x101 := 98, 0x102 := 98, 0x200 := 98)) = Some r \<and> r = Some 0x101"
proof -
  let ?m = "((\<lambda>_. 0)(0x100 := 97, 0x101 := 98, 0x102 := 98, 0x200 := 98)) :: memory"
  have s: "cstr ?m 0x100 [97, 98, 98]" "cstr ?m 0x200 [98]" by simp_all
  have p: "sublist [98] [97, 98, 98 :: u8]" by (simp add: sublist_Cons_right)
  obtain k where k: "rt_strstr 0x100 0x200 ?m = Some (Some (0x100 + of_nat k))" "k \<le> 3" "prefix [98] (drop k [97, 98, 98 :: u8])"
      "\<forall>j < k. \<not> prefix [98] (drop j [97, 98, 98 :: u8])"
    using strstr_first [OF s] p by (auto split: option.splits)
  have "k = 0 \<or> k = 1 \<or> k = 2 \<or> k = 3" using k(2) by auto
  then have "k = 1" using k(3) k(4) [rule_format, of 1] by auto
  then show ?thesis using k(1) by simp
qed

text \<open>
  \<open>rt_strncpy\<close> writes exactly \<open>n\<close> bytes, the first \<open>n\<close> of the string and NULs behind it, so that no NUL
  ends the copy of a longer string; \<open>rt_strcpy\<close> writes the string and its NUL.
\<close>

theorem str_copies:
  assumes "cstr m s xs" and "length xs + 1 < 2 ^ 32"
  shows "((\<forall>k \<le> length xs. \<not> s + of_nat k - d < n) \<longrightarrow>
      rt_strncpy d s n m = (\<lambda>x. if x - d < n then if unat (x - d) < length xs then xs ! unat (x - d) else 0 else m x)) \<and>
    ((\<forall>k \<le> length xs. \<not> s + of_nat k - d < of_nat (length xs + 1)) \<longrightarrow>
      (\<exists>m'. rt_strcpy d s m = Some m' \<and> cstr m' d xs \<and> (\<forall>x. \<not> x - d < of_nat (length xs + 1) \<longrightarrow> m' x = m x)))"
proof (intro conjI impI)
  assume a: "\<forall>k \<le> length xs. \<not> s + of_nat k - d < n"
  have "rt_strncpy d s n m = stored xs d n m" using strncpy_loop_eq [OF assms(1) a] by (simp add: rt_strncpy_def)
  then show "rt_strncpy d s n m = (\<lambda>x. if x - d < n then if unat (x - d) < length xs then xs ! unat (x - d) else 0 else m x)"
    by (auto simp: stored_def padded_def fun_eq_iff)
next
  assume a: "\<forall>k \<le> length xs. \<not> s + of_nat k - d < of_nat (length xs + 1)"
  let ?m = "stored xs d (of_nat (length xs + 1)) m"
  have n: "unat (of_nat (length xs + 1) :: u32) = length xs + 1"
    using assms(2) unat_of_nat [of "length xs + 1", where 'a = 32] by (simp only:) simp
  have "?m (d + of_nat k) = (if k < length xs then xs ! k else 0)" if "k \<le> length xs" for k
    using that n assms(2) by (simp add: stored_def padded_def word_less_nat_alt unat_of_nat)
  then have "cstr ?m d xs" using assms(1) cstr_nonzero [OF assms(1)] by (intro cstr_intro) simp_all
  moreover have "?m x = m x" if "\<not> x - d < of_nat (length xs + 1)" for x using that by (simp add: stored_def)
  ultimately show "\<exists>m'. rt_strcpy d s m = Some m' \<and> cstr m' d xs \<and> (\<forall>x. \<not> x - d < of_nat (length xs + 1) \<longrightarrow> m' x = m x)"
    using rt_strcpy_eq [OF assms a] by blast
qed

theorem str_copies_witness:
  "let m = (\<lambda>_. 7)(0x100 := 97, 0x101 := 98, 0x102 := 0) in
     rt_strncpy 0x200 0x100 2 m 0x201 = 98 \<and> rt_strncpy 0x200 0x100 2 m 0x202 = 7 \<and>
     (\<exists>m'. rt_strcpy 0x200 0x100 m = Some m' \<and> cstr m' 0x200 [97, 98])"
proof -
  let ?m = "((\<lambda>_. 7)(0x100 := 97, 0x101 := 98, 0x102 := 0)) :: memory"
  have s: "cstr ?m 0x100 [97, 98]" by simp
  have k: "k \<le> length [97, 98 :: u8] \<longleftrightarrow> k = 0 \<or> k = 1 \<or> k = 2" for k by auto
  show ?thesis using str_copies [OF s, where d = "0x200" and n = 2] unfolding k by (auto simp: Let_def)
qed

end
