(* ===== verification/KPrintf.thy ===== *)
theory KPrintf
  imports KString
begin

text \<open>
  The formatted output of src/kservice.c: \<open>print_number\<close> and \<open>rt_vsnprintf\<close>. The format and the strings among the
  arguments are given by their characters (they do not lie in the buffer that is written); the C
  \<open>int\<close>s that count characters are integers. \<open>conv_text\<close> and \<open>vs_text\<close> say which text a format stands for.
\<close>

section \<open>Data\<close>

datatype va_arg = VaInt u32 | VaStr "u8 list option"

definition ZEROPAD :: u8 where "ZEROPAD = 1"
definition SIGN :: u8 where "SIGN = 2"
definition PLUS :: u8 where "PLUS = 4"
definition SPACE :: u8 where "SPACE = 8"
definition LEFT :: u8 where "LEFT = 16"
definition SPECIAL :: u8 where "SPECIAL = 32"
definition LARGE :: u8 where "LARGE = 64"

text \<open>The place of the next character and the memory; a character behind \<open>e\<close> is counted but not stored.\<close>

type_synonym out = "u32 \<times> memory"

definition put_char :: "u32 \<Rightarrow> u8 \<Rightarrow> out \<Rightarrow> out" where
  "put_char e c out = (case out of (str, m) \<Rightarrow> (str + 1, if str < e then m(str := c) else m))"

fun put_all :: "u32 \<Rightarrow> u8 list \<Rightarrow> out \<Rightarrow> out" where
  "put_all e [] out = out"
| "put_all e (c # cs) out = put_all e cs (put_char e c out)"

section \<open>Numbers\<close>

definition divide_num :: "u32 \<Rightarrow> u8 \<Rightarrow> u32 \<times> u32" where
  "divide_num n base = (if base = 10 then (n mod 10, n div 10) else (n mod 16, n div 16))"

definition digit_char :: "bool \<Rightarrow> u32 \<Rightarrow> u8" where
  "digit_char large d = (if d < 10 then 48 + ucast d else if large then 55 + ucast d else 87 + ucast d)"

lemma divide_less: "n \<noteq> 0 \<Longrightarrow> unat (snd (divide_num n base)) < unat n"
  by (auto simp: divide_num_def unat_div unat_gt_0)

text \<open>\<open>tmp\<close>, the last digit first.\<close>

function num_digits :: "u32 \<Rightarrow> u8 \<Rightarrow> bool \<Rightarrow> u8 list" where
  "num_digits n base large =
    (if n \<noteq> 0 then case divide_num n base of (d, n') \<Rightarrow> digit_char large d # num_digits n' base large else [])"
  by auto
termination
proof (relation "measure (\<lambda>(n, base, large). unat n)")
  show "((n', base, large), (n, base, large)) \<in> measure (\<lambda>(n, base, large). unat n)"
    if "n \<noteq> 0" "(d, n') = divide_num n base" for n d n' :: u32 and base :: u8 and large :: bool
    using divide_less [OF that(1), of base] that(2) by (metis in_measure prod.case snd_conv)
qed simp

text \<open>\<open>while (size-- > 0)\<close> and \<open>while (i < precision--)\<close>.\<close>

function pad :: "u32 \<Rightarrow> u8 \<Rightarrow> int \<Rightarrow> out \<Rightarrow> int \<times> out" where
  "pad e c size1 out = (if 0 < size1 then pad e c (size1 - 1) (put_char e c out) else (size1 - 1, out))"
  by auto
termination by (relation "measure (\<lambda>(e, c, size1, out). nat size1)") auto

function zeros :: "u32 \<Rightarrow> int \<Rightarrow> int \<Rightarrow> out \<Rightarrow> out" where
  "zeros e i precision out = (if i < precision then zeros e i (precision - 1) (put_char e 48 out) else out)"
  by auto
termination by (relation "measure (\<lambda>(e, i, precision, out). nat (precision - i))") auto

definition get_sign :: "u32 \<Rightarrow> u8 \<Rightarrow> u8 \<times> u32" where
  "get_sign num flags =
    (if flags AND SIGN \<noteq> 0
     then if sint num < 0 then (45, - num) else if flags AND PLUS \<noteq> 0 then (43, num)
       else if flags AND SPACE \<noteq> 0 then (32, num) else (0, num)
     else (0, num))"

text \<open>The number with its digits \<open>tmp\<close> in a field of \<open>s\<close> characters.\<close>

definition print_field :: "u32 \<Rightarrow> u8 \<Rightarrow> u8 list \<Rightarrow> int \<Rightarrow> int \<Rightarrow> u8 \<Rightarrow> out \<Rightarrow> out" where
  "print_field e sign tmp s precision flags out =
    (let c = (if flags AND ZEROPAD \<noteq> 0 then 48 else 32);
         i = int (length tmp);
         precision_bak = precision;
         precision = (if precision < i then i else precision);
         size1 = s - precision;
         (size1, out) =
           (if flags AND (ZEROPAD OR LEFT) = 0
            then pad e 32 (if sign \<noteq> 0 \<and> 0 < size1 then size1 - 1 else size1) out else (size1, out));
         (size1, out) = (if sign \<noteq> 0 then (size1 - 1, put_char e sign out) else (size1, out));
         (size1, out) = (if flags AND LEFT = 0 then pad e c size1 out else (size1, out));
         out = zeros e i precision out;
         out = (if precision_bak \<noteq> 0 then put_all e (rev tmp) out else out)
     in snd (pad e 32 size1 out))"

definition print_number :: "u32 \<Rightarrow> u32 \<Rightarrow> u8 \<Rightarrow> int \<Rightarrow> int \<Rightarrow> u8 \<Rightarrow> out \<Rightarrow> out" where
  "print_number e num base s precision flags out =
    (let large = (flags AND LARGE \<noteq> 0);
         flags = (if flags AND LEFT \<noteq> 0 then flags AND NOT ZEROPAD else flags);
         (sign, num) = get_sign num flags;
         tmp = (if num = 0 then [48] else num_digits num base large)
     in print_field e sign tmp s precision flags out)"

section \<open>Formats\<close>

definition is_digit :: "u8 \<Rightarrow> bool" where
  "is_digit c \<longleftrightarrow> 48 \<le> c \<and> c \<le> 57"

text \<open>The characters of the format that are left; behind the last one is the NUL.\<close>

definition fmt_char :: "u8 list \<Rightarrow> u8" where
  "fmt_char fs = (case fs of [] \<Rightarrow> 0 | c # _ \<Rightarrow> c)"

fun skip_atoi :: "u32 \<Rightarrow> u8 list \<Rightarrow> u32 \<times> u8 list" where
  "skip_atoi i [] = (i, [])"
| "skip_atoi i (c # fs) = (if is_digit c then skip_atoi (i * 10 + ucast c - 48) fs else (i, c # fs))"

fun get_flags :: "u8 \<Rightarrow> u8 list \<Rightarrow> u8 \<times> u8 list" where
  "get_flags flags [] = (flags, [])"
| "get_flags flags (c # fs) =
    (if c = 45 then get_flags (flags OR LEFT) fs else if c = 43 then get_flags (flags OR PLUS) fs
     else if c = 32 then get_flags (flags OR SPACE) fs else if c = 35 then get_flags (flags OR SPECIAL) fs
     else if c = 48 then get_flags (flags OR ZEROPAD) fs else (flags, c # fs))"

fun arg_int :: "va_arg list \<Rightarrow> (u32 \<times> va_arg list) option" where
  "arg_int (VaInt v # args) = Some (v, args)"
| "arg_int _ = None"

fun arg_str :: "va_arg list \<Rightarrow> (u8 list option \<times> va_arg list) option" where
  "arg_str (VaStr s # args) = Some (s, args)"
| "arg_str _ = None"

definition get_width :: "u8 \<Rightarrow> u8 list \<Rightarrow> va_arg list \<Rightarrow> (int \<times> u8 \<times> u8 list \<times> va_arg list) option" where
  "get_width flags fs args =
    (if is_digit (fmt_char fs) then case skip_atoi 0 fs of (w, fs) \<Rightarrow> Some (sint w, flags, fs, args)
     else if fmt_char fs = 42
     then do {
       (v, args) \<leftarrow> arg_int args;
       Some (if sint v < 0 then (sint (- v), flags OR LEFT, tl fs, args) else (sint v, flags, tl fs, args)) }
     else Some (- 1, flags, fs, args))"

definition get_precision :: "u8 list \<Rightarrow> va_arg list \<Rightarrow> (int \<times> u8 list \<times> va_arg list) option" where
  "get_precision fs args =
    (if fmt_char fs = 46
     then do {
       let fs = tl fs;
       (precision, fs, args) \<leftarrow>
         (if is_digit (fmt_char fs) then case skip_atoi 0 fs of (p, fs) \<Rightarrow> Some (sint p, fs, args)
          else if fmt_char fs = 42 then do { (v, args) \<leftarrow> arg_int args; Some (sint v, tl fs, args) }
          else Some (- 1, fs, args));
       Some (if precision < 0 then 0 else precision, fs, args) }
     else Some (- 1, fs, args))"

definition get_qualifier :: "u8 list \<Rightarrow> u8 \<times> u8 list" where
  "get_qualifier fs = (if fmt_char fs = 104 \<or> fmt_char fs = 108 then (fmt_char fs, tl fs) else (0, fs))"

text \<open>\<open>while (--field_width > 0)\<close>, \<open>while (len < field_width--)\<close> and the loop that counts the string.\<close>

function pad_pre :: "u32 \<Rightarrow> int \<Rightarrow> out \<Rightarrow> int \<times> out" where
  "pad_pre e fw out = (let fw = fw - 1 in if 0 < fw then pad_pre e fw (put_char e 32 out) else (fw, out))"
  by auto
termination by (relation "measure (\<lambda>(e, fw, out). nat fw)") auto

function pad_to :: "u32 \<Rightarrow> int \<Rightarrow> int \<Rightarrow> out \<Rightarrow> int \<times> out" where
  "pad_to e len fw out = (if len < fw then pad_to e len (fw - 1) (put_char e 32 out) else (fw - 1, out))"
  by auto
termination by (relation "measure (\<lambda>(e, len, fw, out). nat (fw - len))") auto

fun count_str :: "int \<Rightarrow> u8 list \<Rightarrow> int \<Rightarrow> int" where
  "count_str fw [] len = len"
| "count_str fw (_ # s) len = (if len \<noteq> fw then count_str fw s (len + 1) else len)"

definition conv_char :: "u32 \<Rightarrow> int \<Rightarrow> u8 \<Rightarrow> u8 \<Rightarrow> out \<Rightarrow> out" where
  "conv_char e fw flags c out =
    (let (fw, out) = (if flags AND LEFT = 0 then pad_pre e fw out else (fw, out));
         out = put_char e c out
     in snd (pad_pre e fw out))"

definition conv_str :: "u32 \<Rightarrow> int \<Rightarrow> int \<Rightarrow> u8 \<Rightarrow> u8 list option \<Rightarrow> out \<Rightarrow> out" where
  "conv_str e fw precision flags s out =
    (let s = (case s of None \<Rightarrow> [40, 78, 85, 76, 76, 41] | Some s \<Rightarrow> s);
         len = count_str fw s 0;
         len = (if 0 < precision \<and> precision < len then precision else len);
         (fw, out) = (if flags AND LEFT = 0 then pad_to e len fw out else (fw, out));
         out = put_all e (take (nat len) s) out
     in snd (pad_to e len fw out))"

definition conv_int :: "u32 \<Rightarrow> u8 \<Rightarrow> u8 \<Rightarrow> u32" where
  "conv_int v qualifier flags =
    (if qualifier = 104
     then let num = ucast v :: u16 in if flags AND SIGN \<noteq> 0 then scast num else ucast num
     else v)"

text \<open>The \<open>switch\<close> over the conversion character; the format and the arguments that are left.\<close>

definition conv_switch :: "u32 \<Rightarrow> int \<Rightarrow> int \<Rightarrow> u8 \<Rightarrow> u8 \<Rightarrow> u8 list \<Rightarrow> va_arg list \<Rightarrow> out \<Rightarrow> (u8 list \<times> va_arg list \<times> out) option" where
  "conv_switch e field_width precision qualifier flags fs args out =
    (let c = fmt_char fs
     in if c = 99 then do {
          (v, args) \<leftarrow> arg_int args;
          Some (tl fs, args, conv_char e field_width flags (ucast v) out) }
        else if c = 115 then do {
          (s, args) \<leftarrow> arg_str args;
          Some (tl fs, args, conv_str e field_width precision flags s out) }
        else if c = 112 then do {
          (v, args) \<leftarrow> arg_int args;
          let (field_width, flags) = (if field_width = - 1 then (8, flags OR ZEROPAD) else (field_width, flags));
          Some (tl fs, args, print_number e v 16 field_width precision flags out) }
        else if c = 37 then Some (tl fs, args, put_char e 37 out)
        else if c = 111 \<or> c = 88 \<or> c = 120 \<or> c = 100 \<or> c = 105 \<or> c = 117 then do {
          let base = (if c = 111 then 8 else if c = 88 \<or> c = 120 then 16 else 10);
          let flags = (if c = 88 then flags OR LARGE else if c = 100 \<or> c = 105 then flags OR SIGN else flags);
          (v, args) \<leftarrow> arg_int args;
          Some (tl fs, args, print_number e (conv_int v qualifier flags) base field_width precision flags out) }
        else if c \<noteq> 0 then Some (tl fs, args, put_char e c (put_char e 37 out))
        else Some (fs, args, put_char e 37 out))"

text \<open>One conversion, from behind its percent sign.\<close>

definition conv :: "u32 \<Rightarrow> u8 list \<Rightarrow> va_arg list \<Rightarrow> out \<Rightarrow> (u8 list \<times> va_arg list \<times> out) option" where
  "conv e fs args out = do {
     let (flags, fs) = get_flags 0 fs;
     (field_width, flags, fs, args) \<leftarrow> get_width flags fs args;
     (precision, fs, args) \<leftarrow> get_precision fs args;
     let (qualifier, fs) = get_qualifier fs;
     conv_switch e field_width precision qualifier flags fs args out }"

declare pad.simps [simp del] zeros.simps [simp del] pad_pre.simps [simp del] pad_to.simps [simp del] num_digits.simps [simp del]

lemma skip_atoi_length: "length (snd (skip_atoi i fs)) \<le> length fs"
  by (induction i fs rule: skip_atoi.induct) (auto intro: le_SucI)

lemma get_flags_length: "length (snd (get_flags flags fs)) \<le> length fs"
  by (induction flags fs rule: get_flags.induct) (auto intro: le_SucI)

lemma get_width_length: "get_width flags fs args = Some (w, flags', fs', args') \<Longrightarrow> length fs' \<le> length fs"
  using skip_atoi_length [of 0 fs]
  by (auto simp: get_width_def Option.bind_eq_Some_conv split: if_splits prod.splits)

lemma get_precision_length: "get_precision fs args = Some (p, fs', args') \<Longrightarrow> length fs' \<le> length fs"
  using skip_atoi_length [of 0 "tl fs"]
  by (auto simp: get_precision_def Let_def Option.bind_eq_Some_conv split: if_splits prod.splits)

lemma get_qualifier_length: "length (snd (get_qualifier fs)) \<le> length fs"
  by (simp add: get_qualifier_def)

lemma conv_switch_length:
  assumes "conv_switch e w p q flags fs args out = Some (fs', args', out')"
  shows "length fs' \<le> length fs"
proof -
  let ?c = "fmt_char fs"
  consider "?c = 99" | "?c = 115" | "?c = 112" | "?c = 37"
    | "?c = 111 \<or> ?c = 88 \<or> ?c = 120 \<or> ?c = 100 \<or> ?c = 105 \<or> ?c = 117" "?c \<notin> {99, 115, 112, 37}"
    | "?c \<notin> {99, 115, 112, 37, 111, 88, 120, 100, 105, 117}" by blast
  then have "fs' = tl fs \<or> fs' = fs"
  proof cases
    case 5
    then show ?thesis using assms by (simp add: conv_switch_def Let_def Option.bind_eq_Some_conv) blast
  next
    case 6
    then show ?thesis using assms by (auto simp: conv_switch_def Let_def split: if_split_asm)
  qed (use assms in \<open>auto simp: conv_switch_def Let_def Option.bind_eq_Some_conv split: if_split_asm\<close>)
  then show ?thesis by auto
qed

lemma conv_length:
  assumes "conv e fs args out = Some (fs', args', out')"
  shows "length fs' \<le> length fs"
proof -
  obtain fl f1 where 1: "get_flags 0 fs = (fl, f1)" by (cases "get_flags 0 fs")
  from assms obtain w fl2 f2 a2 where 2: "get_width fl f1 args = Some (w, fl2, f2, a2)"
    by (auto simp: conv_def 1 Option.bind_eq_Some_conv)
  from assms obtain p f3 a3 where 3: "get_precision f2 a2 = Some (p, f3, a3)"
    by (auto simp: conv_def 1 2 Option.bind_eq_Some_conv)
  obtain q f4 where 4: "get_qualifier f3 = (q, f4)" by (cases "get_qualifier f3")
  have "conv_switch e w p q fl2 f4 a3 out = Some (fs', args', out')" using assms by (simp add: conv_def 1 2 3 4)
  then show ?thesis
    using conv_switch_length get_flags_length [of 0 fs] get_width_length [OF 2] get_precision_length [OF 3]
      get_qualifier_length [of f3] 1 4 by fastforce
qed

function vs_loop :: "u32 \<Rightarrow> u8 list \<Rightarrow> va_arg list \<Rightarrow> out \<Rightarrow> out option" where
  "vs_loop e [] args out = Some out"
| "vs_loop e (c # fs) args out =
    (if c \<noteq> 37 then vs_loop e fs args (put_char e c out)
     else case conv e fs args out of None \<Rightarrow> None | Some (fs, args, out) \<Rightarrow> vs_loop e fs args out)"
  by pat_completeness auto
termination
  by (relation "measure (\<lambda>(e, fs, args, out). length fs)") (auto dest: conv_length)

definition rt_vsnprintf :: "u32 \<Rightarrow> u32 \<Rightarrow> u8 list \<Rightarrow> va_arg list \<Rightarrow> memory \<Rightarrow> (u32 \<times> memory) option" where
  "rt_vsnprintf buf size1 fmt args m = do {
     let e = buf + size1;
     let (e, size1) = (if e < buf then (- 1, - 1 - buf) else (e, size1));
     (str, m) \<leftarrow> vs_loop e fmt args (buf, m);
     let m = (if 0 < size1 then if str < e then m(str := 0) else m(e - 1 := 0) else m);
     Some (str - buf, m) }"

definition rt_snprintf :: "u32 \<Rightarrow> u32 \<Rightarrow> u8 list \<Rightarrow> va_arg list \<Rightarrow> memory \<Rightarrow> (u32 \<times> memory) option" where
  "rt_snprintf buf size1 fmt args m = rt_vsnprintf buf size1 fmt args m"

definition rt_vsprintf :: "u32 \<Rightarrow> u8 list \<Rightarrow> va_arg list \<Rightarrow> memory \<Rightarrow> (u32 \<times> memory) option" where
  "rt_vsprintf buf fmt args m = rt_vsnprintf buf (- 1) fmt args m"

definition rt_sprintf :: "u32 \<Rightarrow> u8 list \<Rightarrow> va_arg list \<Rightarrow> memory \<Rightarrow> (u32 \<times> memory) option" where
  "rt_sprintf buf fmt args m = rt_vsprintf buf fmt args m"

section \<open>The text of a format\<close>

definition num_sign :: "u32 \<Rightarrow> u8 \<Rightarrow> u8 list" where
  "num_sign num flags =
    (if flags AND SIGN = 0 then [] else if sint num < 0 then [45] else if flags AND PLUS \<noteq> 0 then [43]
     else if flags AND SPACE \<noteq> 0 then [32] else [])"

definition num_chars :: "u32 \<Rightarrow> u8 \<Rightarrow> u8 \<Rightarrow> u8 list" where
  "num_chars num base flags =
    (let num = (if flags AND SIGN \<noteq> 0 \<and> sint num < 0 then - num else num)
     in if num = 0 then [48] else rev (num_digits num base (flags AND LARGE \<noteq> 0)))"

text \<open>A number in its field: to the left, to the right behind zeros, or to the right behind spaces.\<close>

definition num_text :: "u32 \<Rightarrow> u8 \<Rightarrow> int \<Rightarrow> int \<Rightarrow> u8 \<Rightarrow> u8 list" where
  "num_text num base s precision flags =
    (let sgn = num_sign num flags; ds = num_chars num base flags;
         width = max precision (int (length ds));
         body = replicate (nat (precision - int (length ds))) 48 @ (if precision = 0 then [] else ds);
         rest = nat (s - width - int (length sgn))
     in if flags AND LEFT \<noteq> 0 then sgn @ body @ replicate rest 32
        else if flags AND ZEROPAD \<noteq> 0 then sgn @ replicate rest 48 @ body
        else replicate rest 32 @ sgn @ body)"

lemma put_all_append: "put_all e (xs @ ys) out = put_all e ys (put_all e xs out)"
  by (induction xs arbitrary: out) simp_all

lemma pad_eq: "pad e c n out = (if 0 < n then - 1 else n - 1, put_all e (replicate (nat n) c) out)"
proof (induction e c n out rule: pad.induct)
  case (1 e c n out)
  show ?case
  proof (cases "0 < n")
    case True
    then have "nat n = Suc (nat (n - 1))" by simp
    then show ?thesis using 1 True by (subst pad.simps) auto
  qed (simp add: pad.simps)
qed

lemma zeros_eq: "zeros e i p out = put_all e (replicate (nat (p - i)) 48) out"
proof (induction e i p out rule: zeros.induct)
  case (1 e i p out)
  show ?case
  proof (cases "i < p")
    case True
    then have "nat (p - i) = Suc (nat (p - 1 - i))" by simp
    then show ?thesis using 1 True by (subst zeros.simps) auto
  qed (simp add: zeros.simps)
qed

lemma fmt_flag_bits:
  "x AND ZEROPAD = 0 \<longleftrightarrow> \<not> bit x 0" "x AND SIGN = 0 \<longleftrightarrow> \<not> bit x 1" "x AND PLUS = 0 \<longleftrightarrow> \<not> bit x 2"
  "x AND SPACE = 0 \<longleftrightarrow> \<not> bit x 3" "x AND LEFT = 0 \<longleftrightarrow> \<not> bit x 4" "x AND LARGE = 0 \<longleftrightarrow> \<not> bit x 6"
  using and_exp_eq_0_iff_not_bit [of x 0] and_exp_eq_0_iff_not_bit [of x 1] and_exp_eq_0_iff_not_bit [of x 2]
    and_exp_eq_0_iff_not_bit [of x 3] and_exp_eq_0_iff_not_bit [of x 4] and_exp_eq_0_iff_not_bit [of x 6]
  by (simp_all add: ZEROPAD_def SIGN_def PLUS_def SPACE_def LEFT_def LARGE_def)

lemma flags_neither: "x AND (ZEROPAD OR LEFT) = 0 \<longleftrightarrow> \<not> bit x 0 \<and> \<not> bit x 4"
  unfolding bit.conj_disj_distrib or_eq_0_iff fmt_flag_bits ..

lemma ZEROPAD_clear: "bit (x AND NOT ZEROPAD) n \<longleftrightarrow> bit x n \<and> n \<noteq> 0" for x :: u8
  using bit_imp_le_length [of x n] by (auto simp: ZEROPAD_def bit_simps)

lemma print_field_eq:
  assumes "bit flags 4 \<Longrightarrow> \<not> bit flags 0"
  shows "print_field e sign tmp s precision flags out =
    put_all e
      (let sgn = (if sign = 0 then [] else [sign]); n = int (length tmp);
           body = replicate (nat (precision - n)) 48 @ (if precision = 0 then [] else rev tmp);
           rest = nat (s - max precision n - int (length sgn))
       in if bit flags 4 then sgn @ body @ replicate rest 32
          else if bit flags 0 then sgn @ replicate rest 48 @ body
          else replicate rest 32 @ sgn @ body) out"
proof -
  define n where "n = int (length tmp)"
  define w where "w = (if precision < n then n else precision)"
  have w: "max precision n = w" "nat (w - n) = nat (precision - n)" by (auto simp: w_def)
  consider "bit flags 4" "\<not> bit flags 0" | "\<not> bit flags 4" "bit flags 0" | "\<not> bit flags 4" "\<not> bit flags 0"
    using assms by blast
  then show ?thesis
  proof cases
    case 1
    then show ?thesis
      unfolding print_field_def n_def [symmetric] w_def [symmetric] Let_def fmt_flag_bits flags_neither w
      by (cases "sign = 0") (auto simp: pad_eq zeros_eq put_all_append w algebra_simps)
  next
    case 2
    then show ?thesis
      unfolding print_field_def n_def [symmetric] w_def [symmetric] Let_def fmt_flag_bits flags_neither w
      by (cases "sign = 0") (auto simp: pad_eq zeros_eq put_all_append w algebra_simps)
  next
    case 3
    then show ?thesis
      unfolding print_field_def n_def [symmetric] w_def [symmetric] Let_def fmt_flag_bits flags_neither w
      by (cases "sign = 0") (auto simp: pad_eq zeros_eq put_all_append w algebra_simps)
  qed
qed

lemma print_number_eq: "print_number e num base s precision flags out = put_all e (num_text num base s precision flags) out"
proof -
  define f where "f = (if bit flags 4 then flags AND NOT ZEROPAD else flags)"
  have f: "bit f 0 \<longleftrightarrow> bit flags 0 \<and> \<not> bit flags 4" "bit f (Suc n) = bit flags (Suc n)" for n
    by (simp_all add: f_def ZEROPAD_clear)
  have fl: "bit f 1 = bit flags 1" "bit f 2 = bit flags 2" "bit f 3 = bit flags 3" "bit f 4 = bit flags 4"
    using f(2) [of 0] f(2) [of 1] f(2) [of 2] f(2) [of 3] by (simp_all add: numeral_eq_Suc)
  obtain sg v where g: "get_sign num f = (sg, v)" by (cases "get_sign num f")
  have sg: "num_sign num flags = (if sg = 0 then [] else [sg])" and v: "v = (if bit flags 1 \<and> sint num < 0 then - num else num)"
    using g fl by (auto simp: get_sign_def num_sign_def fmt_flag_bits split: if_splits)
  define tmp where "tmp = (if v = 0 then [48] else num_digits v base (bit flags 6))"
  have t: "num_chars num base flags = rev tmp" by (auto simp: num_chars_def tmp_def v fmt_flag_bits Let_def)
  have "print_number e num base s precision flags out = print_field e sg tmp s precision f out"
    unfolding print_number_def Let_def fmt_flag_bits not_not f_def [symmetric] g prod.case tmp_def ..
  also have "\<dots> = put_all e (num_text num base s precision flags) out"
    by (subst print_field_eq) (auto simp: f fl num_text_def t sg Let_def fmt_flag_bits)
  finally show ?thesis .
qed

definition char_text :: "int \<Rightarrow> u8 \<Rightarrow> u8 \<Rightarrow> u8 list" where
  "char_text fw flags c =
    (let rest = replicate (nat (fw - 1)) 32 in if flags AND LEFT \<noteq> 0 then c # rest else rest @ [c])"

text \<open>A string is cut off at the field width and at a positive precision.\<close>

definition str_text :: "int \<Rightarrow> int \<Rightarrow> u8 \<Rightarrow> u8 list option \<Rightarrow> u8 list" where
  "str_text fw precision flags s =
    (let s = (case s of None \<Rightarrow> [40, 78, 85, 76, 76, 41] | Some s \<Rightarrow> s);
         s = (if 0 \<le> fw then take (nat fw) s else s);
         s = (if 0 < precision then take (nat precision) s else s);
         rest = replicate (nat (fw - int (length s))) 32
     in if flags AND LEFT \<noteq> 0 then s @ rest else rest @ s)"

lemma pad_pre_eq: "pad_pre e fw out = (min (fw - 1) 0, put_all e (replicate (nat (fw - 1)) 32) out)"
proof (induction e fw out rule: pad_pre.induct)
  case (1 e fw out)
  show ?case
  proof (cases "0 < fw - 1")
    case True
    then have "nat (fw - 1) = Suc (nat (fw - 1 - 1))" by simp
    then show ?thesis using 1 True by (subst pad_pre.simps) (auto simp: Let_def)
  qed (simp add: pad_pre.simps Let_def)
qed

lemma pad_to_eq: "pad_to e len fw out = (if len < fw then len - 1 else fw - 1, put_all e (replicate (nat (fw - len)) 32) out)"
proof (induction e len fw out rule: pad_to.induct)
  case (1 e len fw out)
  show ?case
  proof (cases "len < fw")
    case True
    then have "nat (fw - len) = Suc (nat (fw - 1 - len))" by simp
    then show ?thesis using 1 True by (subst pad_to.simps) auto
  qed (simp add: pad_to.simps)
qed

lemma count_str_eq: "0 \<le> len \<Longrightarrow> len \<le> fw \<or> fw < 0 \<Longrightarrow>
  count_str fw s len = (if fw < 0 then len + int (length s) else min fw (len + int (length s)))"
  by (induction fw s len rule: count_str.induct) auto

lemma conv_char_eq: "conv_char e fw flags c out = put_all e (char_text fw flags c) out"
  by (simp add: conv_char_def char_text_def pad_pre_eq put_all_append Let_def min_def)

lemma conv_str_eq: "conv_str e fw precision flags s out = put_all e (str_text fw precision flags s) out"
proof -
  define xs where "xs = (case s of None \<Rightarrow> [40, 78, 85, 76, 76, 41] | Some s \<Rightarrow> s)"
  define ys where "ys = (if 0 \<le> fw then take (nat fw) xs else xs)"
  define zs where "zs = (if 0 < precision then take (nat precision) ys else ys)"
  have ly: "count_str fw xs 0 = int (length ys)" by (subst count_str_eq) (auto simp: ys_def)
  have lz: "(if 0 < precision \<and> precision < int (length ys) then precision else int (length ys)) = int (length zs)"
    by (auto simp: zs_def min_def)
  have "take (length ys) xs = ys" by (auto simp: ys_def min_def)
  then have z: "take (length zs) xs = zs" by (auto simp: zs_def take_take [symmetric] simp del: take_take) (metis take_take min.commute)+
  show ?thesis
    unfolding conv_str_def str_text_def xs_def [symmetric] Let_def ly ys_def [symmetric] lz zs_def [symmetric]
    by (simp add: pad_to_eq put_all_append z)
qed

text \<open>The text of one conversion, with the format and the arguments that are left.\<close>

definition switch_text :: "int \<Rightarrow> int \<Rightarrow> u8 \<Rightarrow> u8 \<Rightarrow> u8 list \<Rightarrow> va_arg list \<Rightarrow> (u8 list \<times> va_arg list \<times> u8 list) option" where
  "switch_text w p q flags fs args =
    (let c = fmt_char fs
     in if c = 99 then map_option (\<lambda>(v, args). (tl fs, args, char_text w flags (ucast v))) (arg_int args)
        else if c = 115 then map_option (\<lambda>(s, args). (tl fs, args, str_text w p flags s)) (arg_str args)
        else if c = 112 then map_option (\<lambda>(v, args). (tl fs, args,
          if w = - 1 then num_text v 16 8 p (flags OR ZEROPAD) else num_text v 16 w p flags)) (arg_int args)
        else if c = 37 then Some (tl fs, args, [37])
        else if c \<in> {100, 105} then map_option (\<lambda>(v, args). (tl fs, args,
          num_text (conv_int v q (flags OR SIGN)) 10 w p (flags OR SIGN))) (arg_int args)
        else if c = 117 then map_option (\<lambda>(v, args). (tl fs, args, num_text (conv_int v q flags) 10 w p flags)) (arg_int args)
        else if c = 120 then map_option (\<lambda>(v, args). (tl fs, args, num_text (conv_int v q flags) 16 w p flags)) (arg_int args)
        else if c = 88 then map_option (\<lambda>(v, args). (tl fs, args,
          num_text (conv_int v q (flags OR LARGE)) 16 w p (flags OR LARGE))) (arg_int args)
        else if c = 111 then map_option (\<lambda>(v, args). (tl fs, args, num_text (conv_int v q flags) 8 w p flags)) (arg_int args)
        else if c \<noteq> 0 then Some (tl fs, args, [37, c]) else Some (fs, args, [37]))"

definition conv_text :: "u8 list \<Rightarrow> va_arg list \<Rightarrow> (u8 list \<times> va_arg list \<times> u8 list) option" where
  "conv_text fs args = do {
     let (flags, fs) = get_flags 0 fs;
     (field_width, flags, fs, args) \<leftarrow> get_width flags fs args;
     (precision, fs, args) \<leftarrow> get_precision fs args;
     let (qualifier, fs) = get_qualifier fs;
     switch_text field_width precision qualifier flags fs args }"

lemma conv_switch_eq:
  "conv_switch e w p q flags fs args out = map_option (\<lambda>(fs, args, cs). (fs, args, put_all e cs out)) (switch_text w p q flags fs args)"
proof -
  let ?c = "fmt_char fs"
  note eqs = conv_char_eq conv_str_eq print_number_eq
  consider "?c = 99" | "?c = 115" | "?c = 112" | "?c = 37" | "?c = 100" | "?c = 105" | "?c = 117" | "?c = 120" | "?c = 88"
    | "?c = 111" | "?c = 0" | "?c \<notin> {99, 115, 112, 37, 100, 105, 117, 120, 88, 111, 0}" by blast
  then show ?thesis
  proof cases
    case 2
    then show ?thesis by (cases "arg_str args") (simp_all add: conv_switch_def switch_text_def Let_def eqs split: prod.split)
  next
    case 4
    then show ?thesis by (simp add: conv_switch_def switch_text_def Let_def)
  next
    case 11
    then show ?thesis by (simp add: conv_switch_def switch_text_def Let_def)
  next
    case 12
    then show ?thesis by (simp add: conv_switch_def switch_text_def Let_def)
  qed (cases "arg_int args"; simp add: conv_switch_def switch_text_def Let_def eqs split: prod.split)+
qed

lemma conv_eq: "conv e fs args out = map_option (\<lambda>(fs, args, cs). (fs, args, put_all e cs out)) (conv_text fs args)"
proof -
  obtain fl f1 where 1: "get_flags 0 fs = (fl, f1)" by (cases "get_flags 0 fs")
  show ?thesis
    unfolding conv_def conv_text_def 1 Let_def prod.case conv_switch_eq
    by (simp add: map_option_bind comp_def split_def)
qed

lemma conv_text_length: "conv_text fs args = Some (fs', args', cs) \<Longrightarrow> length fs' \<le> length fs"
  using conv_length [of 0 fs args "(0, \<lambda>_. 0)" fs' args'] by (simp add: conv_eq)

text \<open>The text of a format; \<open>None\<close> when an argument is missing or of the wrong type.\<close>

function vs_text :: "u8 list \<Rightarrow> va_arg list \<Rightarrow> u8 list option" where
  "vs_text [] args = Some []"
| "vs_text (c # fs) args =
    (if c \<noteq> 37 then map_option ((#) c) (vs_text fs args)
     else case conv_text fs args of None \<Rightarrow> None | Some (fs, args, cs) \<Rightarrow> map_option ((@) cs) (vs_text fs args))"
  by pat_completeness auto
termination by (relation "measure (\<lambda>(fs, args). length fs)") (auto dest: conv_text_length)

lemma vs_loop_eq: "vs_loop e fs args out = map_option (\<lambda>cs. put_all e cs out) (vs_text fs args)"
proof (induction e fs args out rule: vs_loop.induct)
  case (2 e c fs args out)
  show ?case
  proof (cases "c = 37")
    case True
    show ?thesis
    proof (cases "conv_text fs args")
      case (Some x)
      obtain fs' args' cs where x: "x = (fs', args', cs)" by (cases x)
      have "conv e fs args out = Some (fs', args', put_all e cs out)" by (simp add: conv_eq Some x)
      then show ?thesis using 2(2) True Some x by (simp add: option.map_comp comp_def put_all_append)
    qed (simp add: True conv_eq)
  next
    case False
    then show ?thesis using 2(1) by (simp add: option.map_comp comp_def)
  qed
qed simp

text \<open>Where the characters go.\<close>

lemma put_all_place: "fst (put_all e cs (str, m)) = str + of_nat (length cs)"
  by (induction cs arbitrary: str m) (simp_all add: put_char_def add.assoc)

lemma put_all_memory:
  "unat str + length cs < 2 ^ 32 \<Longrightarrow>
   snd (put_all e cs (str, m)) =
     (\<lambda>x. if str \<le> x \<and> x < e \<and> unat x - unat str < length cs then cs ! (unat x - unat str) else m x)"
proof (induction cs arbitrary: str m)
  case (Cons c cs)
  have u: "unat (str + 1) = unat str + 1" using Cons.prems unat_add_lem [of str 1] by simp
  have "snd (put_all e (c # cs) (str, m)) = snd (put_all e cs (str + 1, if str < e then m(str := c) else m))"
    by (simp add: put_char_def)
  also have "\<dots> = (\<lambda>x. if str + 1 \<le> x \<and> x < e \<and> unat x - unat (str + 1) < length cs then cs ! (unat x - unat (str + 1))
      else (if str < e then m(str := c) else m) x)"
    using Cons.prems u by (intro Cons.IH) simp
  also have "\<dots> = (\<lambda>x. if str \<le> x \<and> x < e \<and> unat x - unat str < length (c # cs) then (c # cs) ! (unat x - unat str) else m x)"
  proof
    fix x :: u32
    consider "unat x = unat str" | "unat str + 1 \<le> unat x" | "unat x < unat str" by linarith
    then show "(if str + 1 \<le> x \<and> x < e \<and> unat x - unat (str + 1) < length cs then cs ! (unat x - unat (str + 1))
        else (if str < e then m(str := c) else m) x) =
      (if str \<le> x \<and> x < e \<and> unat x - unat str < length (c # cs) then (c # cs) ! (unat x - unat str) else m x)"
    proof cases
      case 1
      then have "x = str" by (simp add: word_unat_eq_iff)
      then show ?thesis using u by (auto simp: word_le_nat_alt)
    next
      case 2
      then have "unat x - unat str = Suc (unat x - unat (str + 1))" "x \<noteq> str" using u by auto
      then show ?thesis using 2 u by (auto simp: word_le_nat_alt)
    next
      case 3
      then show ?thesis using u by (auto simp: word_le_nat_alt)
    qed
  qed
  finally show ?case .
qed simp

section \<open>Reading a number back\<close>

definition is_xdigit :: "u8 \<Rightarrow> bool" where
  "is_xdigit c \<longleftrightarrow> 48 \<le> c \<and> c \<le> 57 \<or> 65 \<le> c \<and> c \<le> 70 \<or> 97 \<le> c \<and> c \<le> 102"

definition digit_val :: "u8 \<Rightarrow> int" where
  "digit_val c = (if c \<le> 57 then uint c - 48 else if c \<le> 70 then uint c - 55 else uint c - 87)"

definition digits_val :: "int \<Rightarrow> u8 list \<Rightarrow> int" where
  "digits_val base cs = foldl (\<lambda>v c. v * base + digit_val c) 0 cs"

definition read_digits :: "int \<Rightarrow> u8 list \<Rightarrow> int" where
  "read_digits base cs = digits_val base (takeWhile is_xdigit cs)"

definition read_int :: "int \<Rightarrow> u8 list \<Rightarrow> int" where
  "read_int base cs =
    (case dropWhile (\<lambda>c. c = 32) cs of
       [] \<Rightarrow> 0
     | c # ds \<Rightarrow> if c = 45 then - read_digits base ds else if c = 43 then read_digits base ds else read_digits base (c # ds))"

lemma small_digit: "d < 16 \<Longrightarrow> is_xdigit (digit_char large d) \<and> digit_val (digit_char large d) = uint d"
proof -
  assume "d < 16"
  then have d: "0 \<le> uint d" "uint d < 16" by (simp_all add: word_less_def)
  have c: "uint (ucast d :: u8) = uint d" using d by (simp add: unsigned_ucast_eq take_bit_int_eq_self)
  have e: "uint (k + ucast d :: u8) = uint k + uint d" if "uint k + uint d < 256" for k
    using that c byte_bound(1) [of k] d(1) by (simp add: uint_word_ariths)
  have "d < 10 \<longleftrightarrow> uint d < 10" by (simp add: word_less_def)
  then show ?thesis
    using d e [of 48] e [of 55] e [of 87] by (auto simp: digit_char_def is_xdigit_def digit_val_def word_le_def)
qed

lemma divide_val:
  assumes "divide_num n base = (d, n')"
  shows "d < 16" "uint n = uint n' * (if base = 10 then 10 else 16) + uint d"
proof -
  have "(10::u32) \<le> 16" by simp
  then show "d < 16" using assms word_mod_less_divisor [of 10 n] word_mod_less_divisor [of 16 n]
    by (auto simp: divide_num_def intro: less_le_trans split: if_splits)
  show "uint n = uint n' * (if base = 10 then 10 else 16) + uint d"
    using assms by (auto simp: divide_num_def uint_div uint_mod split: if_splits)
qed

lemma num_digits_val:
  "list_all is_xdigit (num_digits n base large) \<and> digits_val (if base = 10 then 10 else 16) (rev (num_digits n base large)) = uint n"
proof (induction n base large rule: num_digits.induct)
  case (1 n base large)
  show ?case
  proof (cases "n = 0")
    case False
    obtain d n' where d: "divide_num n base = (d, n')" by (cases "divide_num n base")
    have "num_digits n base large = digit_char large d # num_digits n' base large"
      using False d by (subst num_digits.simps) simp
    then show ?thesis
      using 1 [OF False d [symmetric]] divide_val [OF d] small_digit [of d large] by (auto simp: digits_val_def split: if_splits)
  qed (simp add: num_digits.simps digits_val_def)
qed

lemma digits_val_zeros: "digits_val base (replicate k 48 @ cs) = digits_val base cs"
  by (induction k) (simp_all add: digits_val_def digit_val_def)

lemma num_digits_step:
  "n \<noteq> 0 \<Longrightarrow> num_digits n 10 large = digit_char large (n mod 10) # num_digits (n div 10) 10 large"
  "num_digits 0 base large = []"
  by (subst num_digits.simps, simp add: divide_num_def)+

lemma num_digits_nonempty: "n \<noteq> 0 \<Longrightarrow> num_digits n base large \<noteq> []"
  by (subst num_digits.simps) (simp split: prod.split)

lemma num_chars_val:
  "num_chars num base flags \<noteq> [] \<and> list_all is_xdigit (num_chars num base flags) \<and>
   digits_val (if base = 10 then 10 else 16) (num_chars num base flags) =
     uint (if flags AND SIGN \<noteq> 0 \<and> sint num < 0 then - num else num)"
  using num_digits_val num_digits_nonempty
  by (auto simp: num_chars_def Let_def list_all_rev is_xdigit_def digits_val_def digit_val_def)

lemma read_field:
  assumes "ds \<noteq> []" and "list_all is_xdigit ds" and "sg = [] \<or> sg = [45] \<or> sg = [43] \<or> sg = [32]"
  shows "read_int base (replicate a 32 @ sg @ replicate z 48 @ ds @ replicate b 32) =
    (if sg = [45] then - digits_val base ds else digits_val base ds)"
proof -
  let ?body = "replicate z 48 @ ds @ replicate b 32"
  have x48: "is_xdigit 48" by (simp add: is_xdigit_def)
  have x: "list_all is_xdigit (replicate z 48 @ ds)" using assms(2) x48 by (auto simp: list_all_iff)
  have s: "\<not> is_xdigit 32" by (simp add: is_xdigit_def)
  have "takeWhile is_xdigit ?body = replicate z 48 @ ds"
    using x s takeWhile_append2 [of "replicate z 48 @ ds" is_xdigit "replicate b 32"] by (cases b) (auto simp: list_all_iff)
  then have v: "read_digits base ?body = digits_val base ds" by (simp add: read_digits_def digits_val_zeros)
  obtain c cs where c: "?body = c # cs" "is_xdigit c" using x assms(1) by (cases "replicate z 48 @ ds") (auto simp: append_eq_Cons_conv)
  have ne: "c \<noteq> 32" "c \<noteq> 45" "c \<noteq> 43" using c(2) by (auto simp: is_xdigit_def)
  have d: "dropWhile (\<lambda>c. c = 32) (replicate a 32 @ ys) = dropWhile (\<lambda>c. c = (32::u8)) ys" for ys
    by (induction a) simp_all
  show ?thesis using assms(3) ne v unfolding read_int_def d c(1) by (auto simp: c(1))
qed

lemma uint_negative: "sint num < 0 \<Longrightarrow> uint (- num) = - sint num" "\<not> sint num < 0 \<Longrightarrow> uint num = sint num" for num :: u32
proof -
  have w: "uint (word_of_int k :: u32) = k mod 4294967296" for k by (simp add: uint_word_of_int)
  have "- num = word_of_int (- sint num)" "num = word_of_int (sint num)" by simp_all
  then have u: "uint (- num) = (- sint num) mod 4294967296" "uint num = sint num mod 4294967296" using w by metis+
  have "- 2147483648 \<le> sint num" "sint num < 2147483648" using sint_ge [of num] sint_lt [of num] by simp_all
  then show "sint num < 0 \<Longrightarrow> uint (- num) = - sint num" "\<not> sint num < 0 \<Longrightarrow> uint num = sint num" using u by simp_all
qed

lemma cut_text:
  fixes X B S L :: nat
  assumes "0 < S"
  shows "(if L < S then if X = B + L then z else if B \<le> X \<and> X < B + S \<and> X - B < L then c else y
      else if X = B + S - 1 then z else if B \<le> X \<and> X < B + S \<and> X - B < L then c else y) =
    (if B \<le> X \<and> X - B < min L (S - 1) then c else if B \<le> X \<and> X - B = min L (S - 1) then z else y)"
proof (cases "L < S")
  case True
  then have "min L (S - 1) = L" by simp
  then show ?thesis using True by auto
next
  case False
  then have "min L (S - 1) = S - 1" by simp
  then show ?thesis using False assms by auto
qed

section \<open>Properties\<close>

text \<open>
  C24: Formatted output. \<open>rt_vsnprintf\<close> returns the length of the text of the format, as C does, also when it is cut off
  (its comment promises the number of characters written to the buffer); of the buffer it writes the
  text, cut off to leave room for a NUL, and that NUL, and it writes nothing else, in particular nothing
  outside the buffer.
\<close>

theorem vsnprintf_text:
  assumes "vs_text fmt args = Some cs" and "unat buf + unat size1 < 2 ^ 32" and "unat buf + length cs < 2 ^ 32"
  defines "k \<equiv> min (length cs) (unat size1 - 1)"
  shows "rt_vsnprintf buf size1 fmt args m =
    Some (of_nat (length cs),
      if size1 = 0 then m
      else (\<lambda>x. let j = unat x - unat buf
        in if buf \<le> x \<and> j < k then cs ! j else if buf \<le> x \<and> j = k then 0 else m x))"
proof -
  let ?e = "buf + size1"
  have e: "unat ?e = unat buf + unat size1" using assms(2) unat_add_lem [of buf size1] by simp
  then have ne: "\<not> ?e < buf" by (simp add: word_less_nat_alt)
  obtain str m' where o: "put_all ?e cs (buf, m) = (str, m')" by (cases "put_all ?e cs (buf, m)")
  have str: "str = buf + of_nat (length cs)" using put_all_place [of ?e cs buf m] o by simp
  have us: "unat str = unat buf + length cs"
    using assms(3) unat_add_lem [of buf "of_nat (length cs)"] by (simp add: str unat_of_nat)
  have m': "m' = (\<lambda>x. if buf \<le> x \<and> x < ?e \<and> unat x - unat buf < length cs then cs ! (unat x - unat buf) else m x)"
    using put_all_memory [OF assms(3), of ?e m] o by simp
  have r: "rt_vsnprintf buf size1 fmt args m =
      Some (of_nat (length cs), if 0 < size1 then if str < ?e then m'(str := 0) else m'(?e - 1 := 0) else m')"
    using ne by (simp add: rt_vsnprintf_def vs_loop_eq assms(1) o str)
  show ?thesis
  proof (cases "size1 = 0")
    case True
    then have "m' = m" using m' e by (auto simp: fun_eq_iff word_le_nat_alt word_less_nat_alt)
    then show ?thesis using r True by simp
  next
    case False
    then have z: "0 < unat size1" by (simp add: unat_gt_0)
    have e1: "unat (?e - 1) = unat buf + unat size1 - 1" 
    proof -
      have "0 < unat ?e" using e z by linarith
      then have ne0: "?e \<noteq> 0" unfolding unat_gt_0 .
      show ?thesis unfolding unat_minus_one [OF ne0] e ..
    qed
    have "(if str < ?e then m'(str := 0) else m'(?e - 1 := 0)) x =
        (let j = unat x - unat buf in if buf \<le> x \<and> j < k then cs ! j else if buf \<le> x \<and> j = k then 0 else m x)" for x
    proof -
      have eqs: "x = str \<longleftrightarrow> unat x = unat buf + length cs" "x = ?e - 1 \<longleftrightarrow> unat x = unat buf + unat size1 - 1"
        "buf \<le> x \<longleftrightarrow> unat buf \<le> unat x" "x < ?e \<longleftrightarrow> unat x < unat buf + unat size1" "str < ?e \<longleftrightarrow> length cs < unat size1"
        using e e1 us by (simp_all add: word_unat_eq_iff word_le_nat_alt word_less_nat_alt)
      show ?thesis unfolding k_def m' Let_def if_distribR fun_upd_apply eqs by (rule cut_text [OF z])
    qed
    then show ?thesis using r False by (auto simp: fun_eq_iff word_neq_0_conv)
  qed
qed

text \<open>
  C25: Round trip of numbers: whatever the width, the flags and a precision other than 0, the text that
  \<open>print_number\<close> writes for a number reads back as the number: as a signed one with \<open>SIGN\<close>, as an unsigned
  one without.
\<close>

theorem print_number_round_trip:
  assumes "precision \<noteq> 0"
  shows "\<exists>cs. print_number e num base s precision flags out = put_all e cs out \<and>
    read_int (if base = 10 then 10 else 16) cs = (if flags AND SIGN \<noteq> 0 then sint num else uint num)"
proof -
  let ?ds = "num_chars num base flags" and ?sg = "num_sign num flags" and ?b = "if base = 10 then 10 else 16 :: int"
  let ?z = "nat (precision - int (length ?ds))" and ?r = "nat (s - max precision (int (length ?ds)) - int (length ?sg))"
  note v = num_chars_val [of num base flags]
  have sg: "?sg = [] \<or> ?sg = [45] \<or> ?sg = [43] \<or> ?sg = [32]" by (auto simp: num_sign_def)
  have n: "?sg = [45] \<longleftrightarrow> flags AND SIGN \<noteq> 0 \<and> sint num < 0" by (auto simp: num_sign_def)
  have f: "read_int ?b (replicate a 32 @ ?sg @ replicate z 48 @ ?ds @ replicate b 32) =
      (if flags AND SIGN \<noteq> 0 then sint num else uint num)" for a z b
    using read_field [OF conjunct1 [OF v] conjunct1 [OF conjunct2 [OF v]] sg, of ?b a z b] v n uint_negative [of num]
    by (auto split: if_splits)
  have "read_int ?b (num_text num base s precision flags) = (if flags AND SIGN \<noteq> 0 then sint num else uint num)"
  proof -
    consider "flags AND LEFT \<noteq> 0" | "flags AND LEFT = 0" "flags AND ZEROPAD \<noteq> 0" | "flags AND LEFT = 0" "flags AND ZEROPAD = 0"
      by blast
    then show ?thesis
    proof cases
      case 1
      then have "num_text num base s precision flags = replicate 0 32 @ ?sg @ replicate ?z 48 @ ?ds @ replicate ?r 32"
        using assms by (simp add: num_text_def Let_def)
      then show ?thesis by (simp only: f)
    next
      case 2
      then have "num_text num base s precision flags = ?sg @ replicate ?r 48 @ replicate ?z 48 @ ?ds"
        using assms by (simp add: num_text_def Let_def)
      also have "\<dots> = replicate 0 32 @ ?sg @ replicate (?r + ?z) 48 @ ?ds @ replicate 0 32" by (simp add: replicate_add)
      finally show ?thesis by (simp only: f)
    next
      case 3
      then have "num_text num base s precision flags = replicate ?r 32 @ ?sg @ replicate ?z 48 @ ?ds @ replicate 0 32"
        using assms by (simp add: num_text_def Let_def)
      then show ?thesis by (simp only: f)
    qed
  qed
  then show ?thesis using print_number_eq by blast
qed

text \<open>
  Three conversions that differ from those of C: an octal number is written with hexadecimal digits (the
  division knows the bases 10 and 16 only), a precision of 0 suppresses every number, not only 0, and a
  field width cuts a longer string off.
\<close>

theorem printf_divergences:
  "rt_snprintf buf size1 [37, 111] [VaInt v] m = rt_snprintf buf size1 [37, 120] [VaInt v] m \<and>
   rt_snprintf buf size1 [37, 46, 48, 117] [VaInt v] m = rt_snprintf buf size1 [] [] m \<and>
   rt_snprintf buf size1 [37, 51, 115] [VaStr (Some (a # b # c # s))] m = rt_snprintf buf size1 [37, 115] [VaStr (Some [a, b, c])] m"
proof -
  have h: "num_digits n 8 l = num_digits n 16 l" for n l
    by (induction n "8::u8" l rule: num_digits.induct) (subst (1 2) num_digits.simps, simp add: divide_num_def)
  note parse = get_width_def get_precision_def get_qualifier_def fmt_char_def is_digit_def switch_text_def conv_text_def
  have "vs_text [37, 111] [VaInt v] = vs_text [37, 120] [VaInt v]"
    by (simp add: parse Let_def num_text_def num_chars_def h)
  moreover have "vs_text [37, 46, 48, 117] [VaInt v] = Some []"
    by (simp add: parse Let_def num_text_def num_sign_def conv_int_def num_chars_def)
  moreover have "vs_text [37, 51, 115] [VaStr (Some (a # b # c # s))] = vs_text [37, 115] [VaStr (Some [a, b, c])]"
    by (simp add: parse Let_def str_text_def)
  ultimately show ?thesis by (simp add: rt_snprintf_def rt_vsnprintf_def vs_loop_eq)
qed

theorem vsnprintf_text_witness:
  "\<exists>m'. rt_vsnprintf 0x20000000 4 [37, 100, 33] [VaInt (- 123)] (\<lambda>_. 7) = Some (5, m') \<and>
     m' 0x20000000 = 45 \<and> m' 0x20000001 = 49 \<and> m' 0x20000002 = 50 \<and> m' 0x20000003 = 0 \<and> m' 0x20000004 = 7"
proof -
  note parse = get_width_def get_precision_def get_qualifier_def fmt_char_def is_digit_def switch_text_def conv_text_def
  have d: "num_digits 123 10 False = [51, 50, 49]"
    by (simp add: num_digits_step digit_char_def)
  have "vs_text [37, 100, 33] [VaInt (- 123)] = Some [45, 49, 50, 51, 33]"
    by (simp add: parse Let_def num_text_def num_sign_def num_chars_def conv_int_def d SIGN_def LEFT_def PLUS_def SPACE_def
      ZEROPAD_def LARGE_def)
  then show ?thesis using vsnprintf_text [of "[37, 100, 33]" "[VaInt (- 123)]" "[45, 49, 50, 51, 33]" "0x20000000" 4 "\<lambda>_. 7"]
    by (simp add: Let_def)
qed

theorem print_number_round_trip_witness:
  "\<exists>cs. print_number 0x20000100 (- 45) 10 8 (- 1) SIGN (0x20000000, \<lambda>_. 0) = put_all 0x20000100 cs (0x20000000, \<lambda>_. 0) \<and>
     read_int 10 cs = - 45"
proof -
  have s: "SIGN AND SIGN \<noteq> 0" by (simp add: SIGN_def)
  show ?thesis using print_number_round_trip [of "- 1" "0x20000100" "- 45" 10 8 SIGN "(0x20000000, \<lambda>_. 0)"] s by simp
qed

end
