(* ===== verification/Heap.thy ===== *)
theory Heap
  imports SmallMem KString Mutex
begin

text \<open>
  The system heap of src/kservice.c: the small memory heap behind a mutex, the allocation of cleared and of
  aligned memory. A call that finds the mutex taken ends with \<open>Blocked\<close>; \<open>locked_resume\<close> is the rest of it,
  when its thread has become the owner.
\<close>

section \<open>State\<close>

record kheap = ipc +
  system_heap :: "rt_small_mem option"
  heap_mutex :: nat

text \<open>The bytes of the heap by their address.\<close>

definition heap_view :: "rt_small_mem \<Rightarrow> memory" where
  "heap_view m = (\<lambda>a. sm_byte m (unat (a - heap_ptr m)))"

definition heap_write :: "(memory \<Rightarrow> memory) \<Rightarrow> rt_small_mem \<Rightarrow> rt_small_mem" where
  "heap_write f m =
    m\<lparr>sm_byte := (\<lambda>k. if k < 2 ^ 32 then f (heap_view m) (heap_ptr m + of_nat k) else sm_byte m k)\<rparr>"

text \<open>A word of the heap lies between its first and its last item.\<close>

definition word_in_heap :: "u32 \<Rightarrow> rt_small_mem \<Rightarrow> bool" where
  "word_in_heap p m \<longleftrightarrow> heap_ptr m \<le> p \<and> unat p + 4 \<le> unat (heap_ptr m) + sm_extent m"

section \<open>The lock\<close>

definition heap_lock_init :: "'z kheap_scheme \<Rightarrow> 'z kheap_scheme option" where
  "heap_lock_init s = map_option snd (rt_mutex_init (heap_mutex s) RT_IPC_FLAG_PRIO s)"

definition RT_WAITING_FOREVER :: i32 where "RT_WAITING_FOREVER = - 1"

definition heap_lock :: "'z kheap_scheme \<Rightarrow> (rt_err call \<times> 'z kheap_scheme) option" where
  "heap_lock s =
    (if rt_thread_self s \<noteq> None then rt_mutex_take (heap_mutex s) RT_WAITING_FOREVER s else Some (Ret RT_EOK, s))"

definition heap_unlock :: "rt_err \<Rightarrow> 'z kheap_scheme \<Rightarrow> 'z kheap_scheme option" where
  "heap_unlock level s = do {
     rt_assert (level = RT_EOK);
     (if rt_thread_self s \<noteq> None then map_option snd (rt_mutex_release (heap_mutex s) s) else Some s) }"

text \<open>An operation of the allocator between the lock and the unlock.\<close>

definition locked_tail :: "(rt_small_mem \<Rightarrow> ('a \<times> rt_small_mem) option) \<Rightarrow> rt_err \<Rightarrow> 'z kheap_scheme \<Rightarrow>
    ('a \<times> 'z kheap_scheme) option" where
  "locked_tail f level s = do {
     m \<leftarrow> system_heap s;
     (r, m) \<leftarrow> f m;
     s \<leftarrow> heap_unlock level (s\<lparr>system_heap := Some m\<rparr>);
     Some (r, s) }"

definition locked :: "(rt_small_mem \<Rightarrow> ('a \<times> rt_small_mem) option) \<Rightarrow> 'z kheap_scheme \<Rightarrow> ('a call \<times> 'z kheap_scheme) option" where
  "locked f s = do {
     (r, s) \<leftarrow> heap_lock s;
     (case r of
        Blocked \<Rightarrow> Some (Blocked, s)
      | Ret level \<Rightarrow> map_option (\<lambda>(x, s). (Ret x, s)) (locked_tail f level s)) }"

definition locked_resume :: "(rt_small_mem \<Rightarrow> ('a \<times> rt_small_mem) option) \<Rightarrow> nat \<Rightarrow> 'z kheap_scheme \<Rightarrow>
    ('a \<times> 'z kheap_scheme) option" where
  "locked_resume f t s = do { level \<leftarrow> ipc_wait_result t s; locked_tail f level s }"

section \<open>Operations\<close>

definition rt_system_heap_init :: "u32 \<Rightarrow> u32 \<Rightarrow> (nat \<Rightarrow> rt_small_mem_item) \<Rightarrow> (nat \<Rightarrow> u8) \<Rightarrow> 'z kheap_scheme \<Rightarrow>
    'z kheap_scheme option" where
  "rt_system_heap_init begin_addr end_addr junk bytes s = do {
     let begin_align = RT_ALIGN begin_addr 4;
     let end_align = RT_ALIGN_DOWN end_addr 4;
     rt_assert (begin_align < end_align);
     let s = s\<lparr>system_heap := rt_smem_init begin_addr (end_align - begin_align) junk bytes\<rparr>;
     heap_lock_init s }"

definition rt_malloc :: "u32 \<Rightarrow> 'z kheap_scheme \<Rightarrow> (u32 option call \<times> 'z kheap_scheme) option" where
  "rt_malloc size1 = locked (rt_smem_alloc size1)"

definition rt_realloc :: "u32 option \<Rightarrow> u32 \<Rightarrow> 'z kheap_scheme \<Rightarrow> (u32 option call \<times> 'z kheap_scheme) option" where
  "rt_realloc rmem newsize = locked (rt_smem_realloc rmem newsize)"

definition rt_free :: "u32 option \<Rightarrow> 'z kheap_scheme \<Rightarrow> (unit call \<times> 'z kheap_scheme) option" where
  "rt_free rmem = locked (\<lambda>m. map_option (Pair ()) (rt_smem_free rmem m))"

definition rt_memory_info :: "'z kheap_scheme \<Rightarrow> ((u32 \<times> u32 \<times> u32) call \<times> 'z kheap_scheme) option" where
  "rt_memory_info = locked (\<lambda>m. Some ((sm_total m, sm_used m, sm_max m), m))"

definition calloc_clear :: "u32 \<Rightarrow> u32 option \<Rightarrow> 'z kheap_scheme \<Rightarrow> 'z kheap_scheme" where
  "calloc_clear n p s =
    (case p of
       None \<Rightarrow> s
     | Some a \<Rightarrow> s\<lparr>system_heap := map_option (heap_write (rt_memset a 0 n)) (system_heap s)\<rparr>)"

definition rt_calloc :: "u32 \<Rightarrow> u32 \<Rightarrow> 'z kheap_scheme \<Rightarrow> (u32 option call \<times> 'z kheap_scheme) option" where
  "rt_calloc count size1 s = do {
     (r, s) \<leftarrow> rt_malloc (count * size1) s;
     (case r of
        Blocked \<Rightarrow> Some (Blocked, s)
      | Ret p \<Rightarrow> Some (Ret p, calloc_clear (count * size1) p s)) }"

definition ptr_round :: "u32 \<Rightarrow> u32" where
  "ptr_round x = (x + 3) AND NOT 3"

definition align_ptr :: "u32 \<Rightarrow> u32 \<Rightarrow> u32" where
  "align_ptr ptr align = (if ptr AND (align - 1) = 0 then ptr + align else (ptr + (align - 1)) AND NOT (align - 1))"

text \<open>The address of the block is stored in front of the aligned address.\<close>

definition malloc_align_place :: "u32 \<Rightarrow> u32 option \<Rightarrow> 'z kheap_scheme \<Rightarrow> (u32 option \<times> 'z kheap_scheme) option" where
  "malloc_align_place align p s =
    (case p of
       None \<Rightarrow> Some (None, s)
     | Some ptr \<Rightarrow> do {
         let ap = align_ptr ptr align;
         m \<leftarrow> system_heap s;
         rt_assert (word_in_heap (ap - 4) m);
         Some (Some ap, s\<lparr>system_heap := Some (heap_write (put_word (ap - 4) ptr) m)\<rparr>) })"

definition rt_malloc_align :: "u32 \<Rightarrow> u32 \<Rightarrow> 'z kheap_scheme \<Rightarrow> (u32 option call \<times> 'z kheap_scheme) option" where
  "rt_malloc_align size1 align s = do {
     let align = ptr_round align;
     let align_size = ptr_round size1 + align;
     (r, s) \<leftarrow> rt_malloc align_size s;
     (case r of
        Blocked \<Rightarrow> Some (Blocked, s)
      | Ret p \<Rightarrow> map_option (\<lambda>(p, s). (Ret p, s)) (malloc_align_place align p s)) }"

definition rt_free_align :: "u32 \<Rightarrow> 'z kheap_scheme \<Rightarrow> (unit call \<times> 'z kheap_scheme) option" where
  "rt_free_align ptr s = do {
     m \<leftarrow> system_heap s;
     rt_assert (word_in_heap (ptr - 4) m);
     rt_free (Some (get_word (ptr - 4) (heap_view m))) s }"

section \<open>Lemmas: memory of the heap\<close>

lemma heap_write_sel [simp]:
  "sm_address (heap_write f m) = sm_address m" "sm_total (heap_write f m) = sm_total m" "sm_used (heap_write f m) = sm_used m"
  "sm_max (heap_write f m) = sm_max m" "heap_ptr (heap_write f m) = heap_ptr m" "heap_end (heap_write f m) = heap_end m"
  "lfree (heap_write f m) = lfree m" "mem_size_aligned (heap_write f m) = mem_size_aligned m"
  "sm_item (heap_write f m) = sm_item m" "sm_extent (heap_write f m) = sm_extent m" "sm_wf (heap_write f m) bs = sm_wf m bs"
  by (simp_all add: heap_write_def sm_extent_def sm_wf_def)

lemma heap_view_write [simp]: "heap_view (heap_write f m) = f (heap_view m)"
proof
  fix a
  have "unat (a - heap_ptr m) < 2 ^ 32" using unat_limit [of "a - heap_ptr m"] by simp
  then show "heap_view (heap_write f m) a = f (heap_view m) a" by (simp add: heap_view_def [of "heap_write f m"]) (simp add: heap_write_def)
qed

section \<open>Lemmas: a lock that is free\<close>

text \<open>
  The heap is there and its lock can be taken at once: before the first thread runs, or by the running thread
  outside interrupts, with the scheduler unlocked, when no thread owns the mutex.
\<close>

definition heap_ready :: "'z kheap_scheme \<Rightarrow> bool" where
  "heap_ready s \<longleftrightarrow>
     (case cur s of
        None \<Rightarrow> True
      | Some t \<Rightarrow> lock_nest s = 0 \<and> int_nest s = 0 \<and> t \<in> dom (threads s) \<and>
          (case objs s (heap_mutex s) of
             Some (ClassMutex mu) \<Rightarrow> owner mu = None \<and> mx_value mu = 1 \<and> hold mu = 0 \<and> lists s (Suspend (heap_mutex s)) = []
           | _ \<Rightarrow> False))"

text \<open>What a call leaves behind in the kernel: no error of the running thread, and the lock free again.\<close>

definition after_call :: "'z kheap_scheme \<Rightarrow> 'z kheap_scheme" where
  "after_call s =
    (case cur s of
       None \<Rightarrow> s
     | Some t \<Rightarrow> (case get_mutex (heap_mutex s) s of
         None \<Rightarrow> s
       | Some mu \<Rightarrow> put_obj (heap_mutex s) (ClassMutex (mu\<lparr>original_priority := 0xff\<rparr>))
           (upd_thread t (\<lambda>th. th\<lparr>th_error := RT_EOK\<rparr>) s)))"

lemma heap_objs_swap: "s\<lparr>system_heap := h, objs := ob\<rparr> = s\<lparr>objs := ob, system_heap := h\<rparr>" for s :: "'z kheap_scheme"
  by simp

lemma locked_ready:
  assumes "heap_ready s" and "system_heap s = Some m"
  shows "locked f s = map_option (\<lambda>(r, m). (Ret r, (after_call s)\<lparr>system_heap := Some m\<rparr>)) (f m)"
proof (cases "cur s")
  case None
  then show ?thesis
    by (cases "f m") (auto simp: locked_def locked_tail_def heap_lock_def heap_unlock_def rt_thread_self_def assms(2) after_call_def)
next
  case (Some t)
  let ?l = "heap_mutex s"
  from assms(1) Some obtain mu th where q: "lock_nest s = 0" "int_nest s = 0" "threads s t = Some th" "objs s ?l = Some (ClassMutex mu)"
      "owner mu = None" "mx_value mu = 1" "hold mu = 0" "lists s (Suspend ?l) = []"
    by (auto simp: heap_ready_def split: option.splits ipc_object.splits)
  let ?u = "upd_thread t (\<lambda>th. th\<lparr>th_error := RT_EOK\<rparr>) s"
  let ?taken = "mu\<lparr>mx_value := 0, owner := Some t, original_priority := current_priority th, hold := 1\<rparr>"
  let ?s1 = "put_obj ?l (ClassMutex ?taken) ?u"
  have "mu\<lparr>mx_value := mx_value mu - 1, owner := Some t, original_priority := current_priority th, hold := hold mu + 1\<rparr> = ?taken"
    using q by simp
  then have lock: "heap_lock s = Some (Ret RT_EOK, ?s1)"
    using q Some by (simp add: heap_lock_def rt_thread_self_def rt_mutex_take_def get_mutex_def RT_MUTEX_HOLD_MAX_def Let_def)
  have unlock: "heap_unlock RT_EOK (?s1\<lparr>system_heap := h\<rparr>) = Some ((after_call s)\<lparr>system_heap := h\<rparr>)" for h
  proof -
    have mu0: "mu\<lparr>hold := 0, mx_value := 1, owner := None, original_priority := 0xff\<rparr> = mu\<lparr>original_priority := 0xff\<rparr>"
      using q by (cases mu) simp
    have "rt_mutex_release ?l (?s1\<lparr>system_heap := h\<rparr>) = Some (RT_EOK, (after_call s)\<lparr>system_heap := h\<rparr>)"
      using q Some
      by (simp add: rt_mutex_release_def get_mutex_def rt_thread_self_def debug_in_thread_context_def debug_not_in_interrupt_def
        rt_interrupt_get_nest_def after_call_def upd_thread_def put_obj_def RT_MUTEX_VALUE_MAX_def Let_def heap_objs_swap) (simp only: mu0)
    then show ?thesis using Some by (simp add: heap_unlock_def rt_thread_self_def put_obj_def upd_thread_def)
  qed
  have h: "system_heap ?s1 = Some m" using assms(2) by (simp add: put_obj_def upd_thread_def)
  show ?thesis
    by (cases "f m") (auto simp: locked_def lock locked_tail_def h unlock)
qed

lemma after_call_sel [simp]:
  "cur (after_call s) = cur s" "system_heap (after_call s) = system_heap s" "heap_mutex (after_call s) = heap_mutex s"
  by (simp_all add: after_call_def put_obj_def upd_thread_def split: option.split)

lemma after_call_ready: "heap_ready s \<Longrightarrow> heap_ready ((after_call s)\<lparr>system_heap := h\<rparr>)"
  by (auto simp: heap_ready_def after_call_def get_mutex_def put_obj_def upd_thread_def split: option.splits ipc_object.splits)

section \<open>The system heap is an allocator\<close>

definition kh_inv :: "'z kheap_scheme \<Rightarrow> bool" where
  "kh_inv s \<longleftrightarrow> heap_ready s \<and> (case system_heap s of None \<Rightarrow> False | Some m \<Rightarrow> sm_inv m)"

definition kh_live :: "'z kheap_scheme \<Rightarrow> (nat \<times> nat) set" where
  "kh_live s = (case system_heap s of None \<Rightarrow> {} | Some m \<Rightarrow> sm_live m)"

definition kh_room :: "'z kheap_scheme \<Rightarrow> nat set" where
  "kh_room s = (case system_heap s of None \<Rightarrow> {} | Some m \<Rightarrow> sm_room m)"

text \<open>The calls of a client that is not blocked.\<close>

definition kh_alloc :: "u32 \<Rightarrow> 'z kheap_scheme \<Rightarrow> (nat option \<times> 'z kheap_scheme) option" where
  "kh_alloc r s = (case rt_malloc r s of Some (Ret p, s') \<Rightarrow> Some (map_option unat p, s') | _ \<Rightarrow> None)"

definition kh_release :: "nat \<Rightarrow> 'z kheap_scheme \<Rightarrow> 'z kheap_scheme option" where
  "kh_release a s = (case rt_free (Some (of_nat a)) s of Some (Ret _, s') \<Rightarrow> Some s' | _ \<Rightarrow> None)"

lemma kh_invE:
  assumes "kh_inv s"
  obtains m where "heap_ready s" "system_heap s = Some m" "sm_inv m" "kh_live s = sm_live m" "kh_room s = sm_room m"
  using assms by (auto simp: kh_inv_def kh_live_def kh_room_def split: option.splits)

lemma kh_heap [simp]:
  "kh_live (s\<lparr>system_heap := Some m\<rparr>) = sm_live m" "kh_room (s\<lparr>system_heap := Some m\<rparr>) = sm_room m"
  by (simp_all add: kh_live_def kh_room_def)

lemma kh_inv_after: "heap_ready s \<Longrightarrow> sm_inv m \<Longrightarrow> kh_inv ((after_call s)\<lparr>system_heap := Some m\<rparr>)"
  by (simp add: kh_inv_def after_call_ready)

lemma kh_alloc_ready:
  assumes "heap_ready s" and "system_heap s = Some m"
  shows "kh_alloc r s = map_option (\<lambda>(a, m). (a, (after_call s)\<lparr>system_heap := Some m\<rparr>)) (sm_alloc r m)"
  by (cases "rt_smem_alloc r m") (auto simp: kh_alloc_def rt_malloc_def locked_ready [OF assms] sm_alloc_def)

lemma kh_release_ready:
  assumes "heap_ready s" and "system_heap s = Some m"
  shows "kh_release a s = map_option (\<lambda>m. (after_call s)\<lparr>system_heap := Some m\<rparr>) (sm_release a m)"
  by (cases "rt_smem_free (Some (of_nat a)) m") (auto simp: kh_release_def rt_free_def locked_ready [OF assms] sm_release_def)

interpretation kheap: allocator kh_inv kh_live kh_room kh_alloc kh_release sm_need
proof
  fix s :: "'a kheap_scheme" and a n b k :: nat
  assume i: "kh_inv s" and a: "(a, n) \<in> kh_live s"
  from i obtain m where m: "heap_ready s" "system_heap s = Some m" "sm_inv m" "kh_live s = sm_live m" "kh_room s = sm_room m"
    by (rule kh_invE)
  show "{a..<a + n} \<subseteq> kh_room s" using heap.live_room [OF m(3)] a m(4,5) by simp
  show "\<exists>s'. kh_release a s = Some s' \<and> kh_inv s' \<and> kh_room s' = kh_room s \<and> kh_live s' = kh_live s - {(a, n)}"
  proof -
    obtain m' where m': "sm_release a m = Some m'" "sm_inv m'" "sm_room m' = sm_room m" "sm_live m' = sm_live m - {(a, n)}"
      using heap.release_live [OF m(3)] a m(4) by blast
    have "kh_release a s = Some ((after_call s)\<lparr>system_heap := Some m'\<rparr>)" using kh_release_ready [OF m(1,2)] m'(1) by simp
    then show ?thesis using m'(3,4) m(4,5) kh_inv_after [OF m(1) m'(2)] by simp
  qed
  assume "(b, k) \<in> kh_live s" and "(a, n) \<noteq> (b, k)"
  then show "a \<noteq> b \<and> (a + n \<le> b \<or> b + k \<le> a)" by (intro heap.live_apart [OF m(3)]) (use a m(4) in simp_all)
next
  fix s s' :: "'a kheap_scheme" and r and a :: nat
  assume i: "kh_inv s" and e: "kh_alloc r s = Some (Some a, s')"
  from i obtain m where m: "heap_ready s" "system_heap s = Some m" "sm_inv m" "kh_live s = sm_live m" "kh_room s = sm_room m"
    by (rule kh_invE)
  obtain m' where m': "sm_alloc r m = Some (Some a, m')" "s' = (after_call s)\<lparr>system_heap := Some m'\<rparr>"
    using e kh_alloc_ready [OF m(1,2)] by auto
  show "kh_inv s' \<and> kh_room s' = kh_room s \<and> (\<forall>k. (a, k) \<notin> kh_live s) \<and> (\<exists>n \<ge> sm_need r. kh_live s' = insert (a, n) (kh_live s))"
    using heap.alloc_some [OF m(3) m'(1)] m'(2) m kh_inv_after [OF m(1)] by simp
next
  fix s s' :: "'a kheap_scheme" and r
  assume i: "kh_inv s" and e: "kh_alloc r s = Some (None, s')"
  from i obtain m where m: "heap_ready s" "system_heap s = Some m" "sm_inv m" "kh_live s = sm_live m" "kh_room s = sm_room m"
    by (rule kh_invE)
  obtain m' where m': "sm_alloc r m = Some (None, m')" "s' = (after_call s)\<lparr>system_heap := Some m'\<rparr>"
    using e kh_alloc_ready [OF m(1,2)] by auto
  show "kh_inv s' \<and> kh_room s' = kh_room s \<and> kh_live s' = kh_live s"
    using heap.alloc_none [OF m(3) m'(1)] m'(2) m kh_inv_after [OF m(1)] by simp
qed

section \<open>Aligned addresses\<close>

lemma and_not_mask: "unat (x AND NOT (mask k)) = unat x div 2 ^ k * 2 ^ k" for x :: u32
proof -
  have "x AND NOT (mask k) = push_bit k (drop_bit k x)"
    by (rule bit_word_eqI) (auto simp: bit_simps)
  also have "unat \<dots> = unat x div 2 ^ k * 2 ^ k"
  proof -
    have "unat (drop_bit k x) = unat x div 2 ^ k" 
      using unat_drop_bit_eq [of k x] drop_bit_eq_div [of k "unat x"] by (simp only:)
    moreover have "unat x div 2 ^ k * 2 ^ k < 2 ^ 32"
      using le_less_trans [OF div_times_less_eq_dividend unat_limit] by simp
    moreover have "unat (push_bit k (drop_bit k x)) = take_bit LENGTH(32) (push_bit k (unat (drop_bit k x)))"
      by (rule unsigned_push_bit_eq)
    ultimately show ?thesis by (simp add: push_bit_eq_mult take_bit_eq_mod)
  qed
  finally show ?thesis .
qed

lemma div_exact: "r < b \<Longrightarrow> (a * b + r) div b = a" for a b r :: nat
  by simp

lemma dvd_gap: "4 dvd r \<Longrightarrow> 4 dvd b \<Longrightarrow> r < b \<Longrightarrow> r + 4 \<le> b" for r b :: nat
  by (auto elim!: dvdE)

lemma and_mask_0: "x AND mask k = 0 \<longleftrightarrow> 2 ^ k dvd unat x" for x :: u32
proof -
  have "unat (x AND mask k) = unat x mod 2 ^ k"
    using unsigned_take_bit_eq [of k x] by (simp add: take_bit_eq_mask [symmetric] take_bit_eq_mod)
  then show ?thesis by (metis dvd_eq_mod_eq_0 unat_eq_zero)
qed

lemma unat_power2: "k < 32 \<Longrightarrow> unat (2 ^ k :: u32) = 2 ^ k"
proof -
  assume "k < 32"
  then have "(2 ^ k :: nat) < 2 ^ 32" by (intro power_strict_increasing) simp_all
  then show ?thesis using unat_of_nat [of "2 ^ k", where 'a = 32] by simp
qed

text \<open>The first multiple of the alignment behind the address.\<close>

lemma align_ptr_unat:
  assumes "k < 32" and "unat ptr + 2 ^ k < 2 ^ 32"
  shows "unat (align_ptr ptr (2 ^ k)) = (unat ptr div 2 ^ k + 1) * 2 ^ k"
proof -
  have m: "2 ^ k - 1 = (mask k :: u32)" by (simp add: mask_eq_exp_minus_1)
  note e = unat_power2 [OF assms(1)]
  have um: "unat (mask k :: u32) = 2 ^ k - 1" unfolding m [symmetric] by (subst unat_minus_word) (simp_all add: e)
  show ?thesis
  proof (cases "2 ^ k dvd unat ptr")
    case True
    then have "align_ptr ptr (2 ^ k) = ptr + 2 ^ k" by (simp add: align_ptr_def m and_mask_0)
    then show ?thesis using True assms e by (auto simp: unat_plus_word algebra_simps)
  next
    case False
    let ?q = "unat ptr div 2 ^ k" and ?r = "unat ptr mod 2 ^ k"
    have r: "0 < ?r" "?r < 2 ^ k" using False by (simp_all add: dvd_eq_mod_eq_0)
    have d: "unat ptr = ?q * 2 ^ k + ?r" by (simp only: div_mult_mod_eq)
    have "unat (ptr + mask k) = unat ptr + (2 ^ k - 1)" using assms(2) um by (subst unat_plus_word) simp_all
    also have "\<dots> = (?q + 1) * 2 ^ k + (?r - 1)"
    proof -
      have "(?q + 1) * 2 ^ k = ?q * 2 ^ k + 2 ^ k" by (simp add: algebra_simps)
      then show ?thesis using d r by linarith
    qed
    finally have "unat (ptr + mask k) div 2 ^ k = ((?q + 1) * 2 ^ k + (?r - 1)) div 2 ^ k" by (simp only:)
    also have "\<dots> = ?q + 1" by (rule div_exact) (use r in linarith)
    finally have "unat (ptr + mask k) div 2 ^ k = ?q + 1" .
    then show ?thesis using False by (simp add: align_ptr_def m and_mask_0 and_not_mask)
  qed
qed

lemma ptr_round_unat: "unat x + 3 < 2 ^ 32 \<Longrightarrow> unat (ptr_round x) = (unat x + 3) div 4 * 4"
  using and_not_3 [of "x + 3"] unat_plus_word [of x 3] by (simp add: ptr_round_def)

lemma ptr_round_power:
  assumes "2 \<le> k" and "k < 32"
  shows "ptr_round (2 ^ k) = 2 ^ k"
proof -
  note e = unat_power2 [OF assms(2)]
  obtain j where j: "k = j + 2" using assms(1) by (metis add.commute le_Suc_ex)
  have "2 ^ k \<le> (2 ^ 31 :: nat)" using assms(2) by (intro power_increasing) simp_all
  then have "unat (ptr_round (2 ^ k)) = (2 ^ k + 3) div 4 * 4" unfolding e [symmetric] by (intro ptr_round_unat) simp
  also have "\<dots> = 2 ^ k" by (simp add: j)
  finally show ?thesis using e by (simp add: word_unat_eq_iff)
qed

lemma heap_write_inv: "sm_inv m \<Longrightarrow> sm_inv (heap_write f m) \<and> sm_live (heap_write f m) = sm_live m"
proof -
  assume i: "sm_inv m"
  then have "sm_wf (heap_write f m) (sm_items m)" "12 \<le> unat (mem_size_aligned (heap_write f m))" by (simp_all add: sm_inv_def)
  from sm_invI [OF this] show ?thesis by (simp add: sm_live_def)
qed

lemma alloc_total: "sm_inv m \<Longrightarrow> \<exists>r m'. rt_smem_alloc n m = Some (r, m')"
proof (cases "n = 0")
  case False
  assume "sm_inv m"
  then have w: "sm_wf m (sm_items m)" "12 \<le> unat (mem_size_aligned m)" by (simp_all add: sm_inv_def)
  show ?thesis using smem_alloc_ok [OF w False] by (auto split: option.splits prod.splits)
qed (simp add: rt_smem_alloc_def)

text \<open>What an allocation brings: a block on a word boundary inside the heap.\<close>

lemma alloc_block:
  assumes i: "sm_inv m" and e: "rt_smem_alloc r m = Some (Some a, m')"
  obtains n where "sm_need r \<le> n" "sm_live m' = insert (unat a, n) (sm_live m)" "\<forall>k. (unat a, k) \<notin> sm_live m"
    "unat (heap_ptr m) + 12 \<le> unat a" "unat a + n \<le> unat (heap_ptr m) + sm_extent m" "unat a mod 4 = 0" "sm_inv m'"
    "sm_same m m'" "sm_byte m' = sm_byte m"
proof -
  have "sm_alloc r m = Some (Some (unat a), m')" by (simp add: sm_alloc_def e)
  note A = heap.alloc_some [OF i this]
  then obtain n where n: "sm_need r \<le> n" "sm_live m' = insert (unat a, n) (sm_live m)" by blast
  have i': "sm_inv m'" using A by blast
  have s: "sm_same m m'" "sm_byte m' = sm_byte m" using sm_alloc_some [OF i e] by simp_all
  have "(unat a, n) \<in> sm_live m'" using n(2) by simp
  then obtain b where b: "unat a = unat (heap_ptr m') + b" "(b, n) \<in> live_at 0 (sm_items m')" by (auto simp: sm_live_def)
  obtain xs ys where x: "sm_items m' = xs @ (n + 12, True) # ys" "b = ext xs + 12"
    using live_split [OF b(2) sm_inv_min [OF i']] by auto
  have c: "sm_core m' (xs @ (n + 12, True) # ys)" using sm_inv_core [OF i'] x(1) by simp
  have p: "heap_ptr m' = heap_ptr m" "sm_extent m' = sm_extent m" using s(1) by (simp_all add: sm_same_def sm_extent_def)
  have "4 dvd ext xs" "4 dvd unat (heap_ptr m')" using core_dvd [OF c] c by (simp_all add: sm_core_def)
  then have "unat a mod 4 = 0" using b(1) x(2) by (auto elim!: dvdE)
  moreover have "unat a + n \<le> unat (heap_ptr m) + sm_extent m" using core_at(3) [OF c] b(1) x(2) p by simp
  ultimately show ?thesis using that n A i' s b(1) x(2) p by (simp add: add.commute)
qed

section \<open>Properties\<close>

text \<open>
  C14: The system heap, with its lock: from a state in which the heap is empty and its lock free on, whatever the order of
  \<open>rt_malloc\<close> and \<open>rt_free\<close>, the blocks that the callers hold lie in the heap and do not overlap, each can be
  freed, the lock is free again after every call, and when all blocks are freed no byte is counted as used.
\<close>

theorem malloc_blocks_safe:
  assumes "kh_inv s" and "kh_live s = {}" and "(heap_step kh_alloc kh_release sm_need)\<^sup>*\<^sup>* (s, {}) (s', h)"
  shows "heap_ready s' \<and>
    (\<forall>(a, n) \<in> h. {a..<a + n} \<subseteq> kh_room s) \<and>
    (\<forall>(a, n) \<in> h. \<forall>(b, k) \<in> h. (a, n) \<noteq> (b, k) \<longrightarrow> a + n \<le> b \<or> b + k \<le> a) \<and>
    (\<forall>(a, n) \<in> h. \<exists>s''. kh_release a s' = Some s'' \<and> heap_ready s'') \<and>
    (h = {} \<longrightarrow> map_option sm_used (system_heap s') = Some 0)"
proof -
  note R = kheap.run_safe [OF assms(3,1,2)]
  have H: "kh_inv s'" "kh_room s' = kh_room s" "holds h (kh_live s')"
    using kheap.steps_holds [OF assms(3,1)] assms(2) by simp_all
  obtain m where m: "heap_ready s'" "system_heap s' = Some m" "sm_inv m" "kh_live s' = sm_live m" using H(1) by (rule kh_invE)
  have "kh_release a s' = Some s'' \<Longrightarrow> heap_ready s''" for a s''
    unfolding kh_release_ready [OF m(1,2)] using after_call_ready [OF m(1)] by auto
  moreover have "map_option sm_used (system_heap s') = Some 0" if "h = {}"
  proof -
    have "live_at 0 (sm_items m) = {}" using R(4) [OF that] m(4) by (simp add: sm_live_def)
    then have "\<forall>b \<in> set (sm_items m). \<not> snd b" by (rule all_free)
    moreover have "unat (sm_used m) = used_ext (sm_items m)" using m(3) by (simp add: sm_inv_def sm_wf_def)
    ultimately have "unat (sm_used m) = 0" by (simp add: used_ext_def filter_False)
    then show ?thesis using m(2) by (simp add: word_unat_eq_iff)
  qed
  moreover have "\<forall>(a, n) \<in> h. \<exists>s''. kh_release a s' = Some s'' \<and> heap_ready s''" using R(3) calculation(1) by blast
  ultimately show ?thesis using R(1,2) m(1) by blast
qed

text \<open>
  C27: \<open>rt_malloc_align\<close> for a power of two that is at least the size of a pointer: the address is a multiple of the
  alignment and the bytes asked for lie in the block that the heap gave, behind a word that holds the
  block's own address; as long as that word is kept, \<open>rt_free_align\<close> frees that block.
\<close>

theorem malloc_align_contract:
  fixes s :: "'z kheap_scheme"
  assumes "heap_ready s" and "system_heap s = Some m" and "sm_inv m" and "2 \<le> k" and "k < 31" and "unat size1 + 3 + 2 ^ k < 2 ^ 32"
  shows "\<exists>r s'. rt_malloc_align size1 (2 ^ k) s = Some (Ret r, s') \<and>
    (case r of
       None \<Rightarrow> system_heap s' = Some m
     | Some p \<Rightarrow> \<exists>m' a n. system_heap s' = Some m' \<and> sm_inv m' \<and> (\<forall>j. (unat a, j) \<notin> sm_live m) \<and>
         sm_live m' = insert (unat a, n) (sm_live m) \<and>
         2 ^ k dvd unat p \<and> unat a + 4 \<le> unat p \<and> unat p + unat size1 \<le> unat a + n \<and>
         (\<forall>(s'' :: 'z kheap_scheme) m''. system_heap s'' = Some m'' \<and> sm_same m' m'' \<and>
             get_word (p - 4) (heap_view m'') = get_word (p - 4) (heap_view m') \<longrightarrow>
           rt_free_align p s'' = rt_free (Some a) s''))"
proof -
  let ?w = "ptr_round size1 + 2 ^ k"
  let ?after = "\<lambda>m. (after_call s)\<lparr>system_heap := Some m\<rparr>"
  have k32: "k < 32" using assms(5) by simp
  have al: "ptr_round (2 ^ k) = 2 ^ k" by (rule ptr_round_power [OF assms(4) k32])
  define c where "c = (unat size1 + 3) div 4 * 4"
  have c: "unat (ptr_round size1) = c" unfolding c_def using assms(6) by (intro ptr_round_unat) simp
  have cs: "unat size1 \<le> c" "c \<le> unat size1 + 3" unfolding c_def by presburger+
  have uw: "unat ?w = c + 2 ^ k" using c cs unat_power2 [OF k32] assms(6) by (subst unat_plus_word) simp_all
  obtain j where j: "k = j + 2" using assms(4) by (metis add.commute le_Suc_ex)
  have w4: "4 dvd unat ?w" by (simp only: uw) (simp add: c_def j)
  have need: "sm_need ?w = c + 2 ^ k"
  proof -
    have "c + 2 ^ k < 4294967296" using cs assms(6) by simp
    then have "unat ?w < 4294967296" by (simp only: uw)
    then have lim: "unat ?w + 3 < 2 ^ 32" using w4 by (auto elim!: dvdE)
    have "(unat ?w + 3) div 4 * 4 = unat ?w" using w4 by presburger
    then show ?thesis unfolding sm_need_def align4 [OF lim] uw by simp
  qed
  obtain r m1 where a: "rt_smem_alloc ?w m = Some (r, m1)" using alloc_total [OF assms(3)] by blast
  have malloc: "rt_malloc ?w s = Some (Ret r, ?after m1)" by (simp add: rt_malloc_def locked_ready [OF assms(1,2)] a)
  show ?thesis
  proof (cases r)
    case None
    then have "m1 = m" using sm_alloc_none [OF assms(3)] a by simp
    then have "rt_malloc_align size1 (2 ^ k) s = Some (Ret None, ?after m)"
      using malloc None by (simp add: rt_malloc_align_def al malloc_align_place_def Let_def)
    then show ?thesis by fastforce
  next
    case (Some ad)
    then have a: "rt_smem_alloc ?w m = Some (Some ad, m1)" using a by simp
    obtain n where n: "sm_need ?w \<le> n" "sm_live m1 = insert (unat ad, n) (sm_live m)" "\<forall>k. (unat ad, k) \<notin> sm_live m"
        "unat (heap_ptr m) + 12 \<le> unat ad" "unat ad + n \<le> unat (heap_ptr m) + sm_extent m" "unat ad mod 4 = 0" "sm_inv m1"
        "sm_same m m1" "sm_byte m1 = sm_byte m" using alloc_block [OF assms(3) a] by blast
    let ?p = "align_ptr ad (2 ^ k)" and ?q = "unat ad div 2 ^ k"
    have top: "unat (heap_ptr m) + sm_extent m + 12 < 2 ^ 32" using sm_inv_core [OF assms(3)] by (simp add: sm_core_def)
    have up: "unat ?p = (?q + 1) * 2 ^ k" using n(1,5) need top by (intro align_ptr_unat [OF k32]) simp
    have d: "unat ad = ?q * 2 ^ k + unat ad mod 2 ^ k" by (simp only: div_mult_mod_eq)
    have r: "unat ad mod 2 ^ k + 4 \<le> 2 ^ k"
    proof -
      have "4 dvd unat ad mod 2 ^ k" "4 dvd (2 ^ k :: nat)" using n(6) by (auto simp: j dvd_mod mod_eq_0_iff_dvd)
      moreover have "unat ad mod 2 ^ k < 2 ^ k" by simp
      ultimately show ?thesis by (rule dvd_gap)
    qed
    have b: "unat ad + 4 \<le> unat ?p" "unat ?p \<le> unat ad + 2 ^ k"
    proof -
      have "unat ?p = ?q * 2 ^ k + 2 ^ k" unfolding up by (simp add: algebra_simps)
      then show "unat ad + 4 \<le> unat ?p" "unat ?p \<le> unat ad + 2 ^ k" using d r by linarith+
    qed
    have b2: "unat ?p + unat size1 \<le> unat ad + n" using b(2) n(1) need cs by simp
    have up4: "unat (?p - 4) = unat ?p - 4" using b(1) by (subst unat_minus_word) simp_all
    have hp: "heap_ptr m1 = heap_ptr m" "sm_extent m1 = sm_extent m" using n(8) by (simp_all add: sm_same_def sm_extent_def)
    have wih: "word_in_heap (?p - 4) m'" if "heap_ptr m' = heap_ptr m" "sm_extent m' = sm_extent m" for m'
      using that up4 b b2 n(4,5) by (simp add: word_in_heap_def word_le_nat_alt)
    let ?m2 = "heap_write (put_word (?p - 4) ad) m1"
    have res: "rt_malloc_align size1 (2 ^ k) s = Some (Ret (Some ?p), ?after ?m2)"
      using malloc Some wih [OF hp] by (simp add: rt_malloc_align_def al malloc_align_place_def Let_def)
    have fr: "rt_free_align ?p s'' = rt_free (Some ad) s''" if "system_heap s'' = Some m''" "sm_same ?m2 m''"
        "get_word (?p - 4) (heap_view m'') = get_word (?p - 4) (heap_view ?m2)" for s'' :: "'z kheap_scheme" and m''
      using that(1,3) wih [of m''] that(2) hp by (simp add: rt_free_align_def get_put_word sm_same_def sm_extent_def)
    have d2: "2 ^ k dvd unat ?p" unfolding up by simp
    have I: "sm_inv ?m2" "sm_live ?m2 = sm_live m1" using heap_write_inv [OF n(7)] by simp_all
    show ?thesis
      by (rule exI [of _ "Some ?p"], rule exI [of _ "?after ?m2"])
        (use res I n(2,3) d2 b(1) b2 fr in \<open>auto intro!: exI [of _ ad] exI [of _ n]\<close>)
  qed
qed

text \<open>
  C28: \<open>rt_calloc\<close> clears the block it got, and nothing else. The number of bytes is \<open>count * size\<close> in 32 bits: when
  the product overflows, the block has the length of the remainder, and the call succeeds.
\<close>

theorem calloc_clears:
  fixes count size1 :: u32
  assumes "heap_ready s" and "system_heap s = Some m" and "sm_inv m"
  defines "n \<equiv> unat count * unat size1 mod 2 ^ 32"
  shows "\<exists>r s'. rt_calloc count size1 s = Some (Ret r, s') \<and>
    (case r of
       None \<Rightarrow> system_heap s' = Some m
     | Some a \<Rightarrow> \<exists>m' k. system_heap s' = Some m' \<and> sm_inv m' \<and> sm_live m' = insert (unat a, k) (sm_live m) \<and>
         (n + 3 < 2 ^ 32 \<longrightarrow> n \<le> k) \<and>
         (\<forall>x. heap_view m' x = (if unat (x - a) < n then 0 else heap_view m x)))"
proof -
  let ?after = "\<lambda>m. (after_call s)\<lparr>system_heap := Some m\<rparr>"
  have un: "unat (count * size1) = n" by (simp add: n_def unat_word_ariths)
  obtain r m1 where a: "rt_smem_alloc (count * size1) m = Some (r, m1)" using alloc_total [OF assms(3)] by blast
  have malloc: "rt_malloc (count * size1) s = Some (Ret r, ?after m1)" by (simp add: rt_malloc_def locked_ready [OF assms(1,2)] a)
  show ?thesis
  proof (cases r)
    case None
    then have "m1 = m" using sm_alloc_none [OF assms(3)] a by simp
    then show ?thesis using malloc None by (simp add: rt_calloc_def calloc_clear_def)
  next
    case (Some ad)
    then have a: "rt_smem_alloc (count * size1) m = Some (Some ad, m1)" using a by simp
    obtain k where k: "sm_need (count * size1) \<le> k" "sm_live m1 = insert (unat ad, k) (sm_live m)" "sm_inv m1" "sm_same m m1"
        "sm_byte m1 = sm_byte m" using alloc_block [OF assms(3) a] by metis
    let ?m2 = "heap_write (rt_memset ad 0 (count * size1)) m1"
    have r: "rt_calloc count size1 s = Some (Ret (Some ad), ?after ?m2)"
      using malloc Some by (simp add: rt_calloc_def calloc_clear_def)
    have I: "sm_inv ?m2" "sm_live ?m2 = insert (unat ad, k) (sm_live m)" using heap_write_inv [OF k(3)] k(2) by simp_all
    have v: "heap_view m1 = heap_view m" using k(4,5) by (simp add: heap_view_def sm_same_def)
    have b: "heap_view ?m2 x = (if unat (x - ad) < n then 0 else heap_view m x)" for x
      by (simp add: rt_memset_eq filled_def v word_less_nat_alt un)
    have l: "n \<le> k" if "n + 3 < 2 ^ 32"
    proof -
      have "sm_need (count * size1) = (n + 3) div 4 * 4" unfolding sm_need_def using align4 [of "count * size1"] that un by simp
      then have "sm_need (count * size1) \<ge> n" by presburger
      then show ?thesis using k(1) by simp
    qed
    show ?thesis
      by (rule exI [of _ "Some ad"], rule exI [of _ "?after ?m2"]) (use r I b l in auto)
  qed
qed

section \<open>Instances\<close>

text \<open>A heap of 200 bytes behind the mutex 11 of the example kernel, in whose thread 1 the calls run.\<close>

lemma sample_kheap:
  "\<exists>(s :: kheap) m. heap_ready s \<and> system_heap s = Some m \<and> sm_inv m \<and> sm_wf m [(132, False)] \<and> kh_inv s \<and> kh_live s = {} \<and>
     cur s = Some 1"
proof -
  obtain m where m: "sm_wf m [(132, False)]" "12 \<le> unat (mem_size_aligned m)" using sample_heap by blast
  let ?s = "ipc.extend ex_ipc (kheap.fields (Some m) 11)"
  have sel: "cur ?s = Some 1" "lock_nest ?s = 0" "int_nest ?s = 0" "threads ?s = threads ex_ipc" "objs ?s = ex_objs"
    "lists ?s = lists ex_ipc" "heap_mutex ?s = 11"
    by (simp_all add: ipc.extend_def kheap.fields_def)
  have "1 \<in> dom (threads ex_ipc)" using runsD [OF ex_ipc_runs] by blast
  moreover have "lists ex_ipc (Suspend 11) = []" using ex_ipc_lists(1) [of 11] by simp
  ultimately have "heap_ready ?s" unfolding heap_ready_def sel by (simp add: ex_objs_def)
  moreover have "system_heap ?s = Some m" "cur ?s = Some 1" by (simp_all add: ipc.extend_def kheap.fields_def)
  moreover have "sm_inv m" "sm_live m = {}" using sm_invI [OF m] by (simp_all add: sm_live_def)
  ultimately show ?thesis using m(1) by (intro exI [of _ ?s] exI [of _ m]) (simp add: kh_inv_def kh_live_def)
qed

lemma sample_alloc: "sm_wf m [(132, False)] \<Longrightarrow> sm_inv m \<Longrightarrow> n \<noteq> 0 \<Longrightarrow> unat n \<le> 40 \<Longrightarrow> \<exists>a m'. rt_smem_alloc n m = Some (Some a, m')"
proof -
  assume m: "sm_wf m [(132, False)]" and i: "sm_inv m" and n: "n \<noteq> 0" "unat n \<le> 40"
  have "12 \<le> unat (mem_size_aligned m)" using i by (simp add: sm_inv_def)
  note A = smem_alloc_ok [OF m this n(1)]
  have "grant n \<le> 43" using n(2) by (subst grant_enough) auto
  then show ?thesis using A by auto
qed

theorem malloc_blocks_safe_witness:
  "\<exists>(s :: kheap) s' a. (heap_step kh_alloc kh_release sm_need)\<^sup>*\<^sup>* (s, {}) (s', {(a, 12)}) \<and> heap_ready s' \<and>
     {a..<a + 12} \<subseteq> kh_room s"
proof -
  obtain s :: kheap and m where s: "heap_ready s" "system_heap s = Some m" "sm_inv m" "sm_wf m [(132, False)]" "kh_inv s" "kh_live s = {}"
    using sample_kheap by blast
  obtain a m' where a: "rt_smem_alloc 10 m = Some (Some a, m')" using sample_alloc [OF s(4,3), of 10] by auto
  have n: "sm_need 10 = 12" by (simp add: sm_need_def align4)
  obtain s' where "kh_alloc 10 s = Some (Some (unat a), s')" by (simp add: kh_alloc_ready [OF s(1,2)] sm_alloc_def a)
  then have "heap_step kh_alloc kh_release sm_need (s, {}) (s', insert (unat a, sm_need 10) {})" by (rule heap_step.got)
  then have st: "(heap_step kh_alloc kh_release sm_need)\<^sup>*\<^sup>* (s, {}) (s', {(unat a, 12)})" by (simp add: n)
  show ?thesis using malloc_blocks_safe [OF s(5,6) st] st by fastforce
qed

theorem malloc_align_contract_witness:
  "\<exists>(s :: kheap) p s'. rt_malloc_align 10 16 s = Some (Ret (Some p), s') \<and> 16 dvd unat p"
proof -
  obtain s :: kheap and m where s: "heap_ready s" "system_heap s = Some m" "sm_inv m" "sm_wf m [(132, False)]"
    using sample_kheap by blast
  have w: "ptr_round 16 = 16" using ptr_round_power [of 4] by simp
  have u: "unat (ptr_round 10) = 12" using ptr_round_unat [of 10] by simp
  have "unat (ptr_round 10 + 16) = 28" using u by (subst unat_plus_word) simp_all
  then have l: "unat (ptr_round 10 + 16) \<le> 40" "ptr_round 10 + 16 \<noteq> 0" by auto
  obtain a m' where a: "rt_smem_alloc (ptr_round 10 + 16) m = Some (Some a, m')" using sample_alloc [OF s(4,3) l(2,1)] by auto
  note C = malloc_align_contract [OF s(1-3), of 4 10, simplified]
  obtain r s' where r: "rt_malloc_align 10 16 s = Some (Ret r, s')" using C by blast
  obtain p where p: "r = Some p"
    using r a by (cases r) (auto simp: rt_malloc_align_def w rt_malloc_def locked_ready [OF s(1,2)] malloc_align_place_def Let_def
      Option.bind_eq_Some_conv)
  show ?thesis using C r p by auto
qed

theorem calloc_clears_witness:
  "\<exists>(s :: kheap) a s' m'. rt_calloc 0x40000001 4 s = Some (Ret (Some a), s') \<and> system_heap s' = Some m' \<and>
     heap_view m' a = 0 \<and> unat (0x40000001 * 4 :: u32) = 4"
proof -
  obtain s :: kheap and m where s: "heap_ready s" "system_heap s = Some m" "sm_inv m" "sm_wf m [(132, False)]"
    using sample_kheap by blast
  obtain a m' where a: "rt_smem_alloc 4 m = Some (Some a, m')" using sample_alloc [OF s(4,3), of 4] by auto
  have e: "(4294967300 :: u32) = 4" by (simp add: word_uint_eq_iff)
  note C = calloc_clears [OF s(1-3), of "0x40000001" 4, simplified]
  obtain r s' where r: "rt_calloc 0x40000001 4 s = Some (Ret r, s')" using C by blast
  obtain p where p: "r = Some p"
    using r a by (cases r) (auto simp: rt_calloc_def rt_malloc_def locked_ready [OF s(1,2)] e)
  obtain m2 where m2: "system_heap s' = Some m2" "\<forall>x. heap_view m2 x = (if unat (x - p) < 4 then 0 else heap_view m x)"
    using C r p by auto
  have "heap_view m2 p = 0" using m2(2) by simp
  then show ?thesis using r p m2(1) by (intro exI [of _ s] exI [of _ p] exI [of _ s'] exI [of _ m2]) simp
qed

end
