(* ===== verification/SList.thy ===== *)
theory SList
  imports Prelude
begin

text \<open>
  The single linked lists of include/rtservice.h (\<open>rt_slist_*\<close>): a store of \<open>next\<close> pointers. A pointer
  is a list head or the link of a node; every \<open>next\<close> field is null or points to the link of a node. The
  operations are refined to the operations on lists; the loops over links are partial functions.
\<close>

section \<open>Operations\<close>

datatype 'h sl_ptr = SHead 'h | SNode nat

type_synonym 'h sl_store = "'h sl_ptr \<Rightarrow> nat option"

definition rt_slist_init :: "'h sl_ptr \<Rightarrow> 'h sl_store \<Rightarrow> 'h sl_store" where
  "rt_slist_init l st = st(l := None)"

definition rt_slist_first :: "'h sl_ptr \<Rightarrow> 'h sl_store \<Rightarrow> nat option" where
  "rt_slist_first l st = st l"

definition rt_slist_next :: "'h sl_ptr \<Rightarrow> 'h sl_store \<Rightarrow> nat option" where
  "rt_slist_next n st = st n"

definition rt_slist_isempty :: "'h sl_ptr \<Rightarrow> 'h sl_store \<Rightarrow> bool" where
  "rt_slist_isempty l st \<longleftrightarrow> st l = None"

partial_function (option) rt_slist_tail :: "'h sl_store \<Rightarrow> 'h sl_ptr \<Rightarrow> 'h sl_ptr option" where
  "rt_slist_tail st l = (case st l of None \<Rightarrow> Some l | Some n \<Rightarrow> rt_slist_tail st (SNode n))"

text \<open>The append of the header repeats the loop of \<open>rt_slist_tail\<close>.\<close>

definition rt_slist_append :: "'h sl_ptr \<Rightarrow> nat \<Rightarrow> 'h sl_store \<Rightarrow> 'h sl_store option" where
  "rt_slist_append l n st = do {
     node \<leftarrow> rt_slist_tail st l;
     let st = st(node := Some n);
     Some (st(SNode n := None)) }"

definition rt_slist_insert :: "'h sl_ptr \<Rightarrow> nat \<Rightarrow> 'h sl_store \<Rightarrow> 'h sl_store" where
  "rt_slist_insert l n st = (let st = st(SNode n := st l) in st(l := Some n))"

partial_function (option) slist_len_loop :: "'h sl_store \<Rightarrow> nat option \<Rightarrow> u32 \<Rightarrow> u32 option" where
  "slist_len_loop st p len = (case p of None \<Rightarrow> Some len | Some n \<Rightarrow> slist_len_loop st (st (SNode n)) (len + 1))"

definition rt_slist_len :: "'h sl_ptr \<Rightarrow> 'h sl_store \<Rightarrow> u32 option" where
  "rt_slist_len l st = slist_len_loop st (st l) 0"

text \<open>The link before \<open>n\<close>, or the last one.\<close>

partial_function (option) slist_seek :: "'h sl_store \<Rightarrow> nat \<Rightarrow> 'h sl_ptr \<Rightarrow> 'h sl_ptr option" where
  "slist_seek st n node =
    (case st node of None \<Rightarrow> Some node | Some m \<Rightarrow> if m \<noteq> n then slist_seek st n (SNode m) else Some node)"

declare rt_slist_tail.simps [code] slist_len_loop.simps [code] slist_seek.simps [code]

definition rt_slist_remove :: "'h sl_ptr \<Rightarrow> nat \<Rightarrow> 'h sl_store \<Rightarrow> 'h sl_store option" where
  "rt_slist_remove l n st = do {
     node \<leftarrow> slist_seek st n l;
     Some (case st node of None \<Rightarrow> st | Some m \<Rightarrow> st(node := st (SNode m))) }"

section \<open>Paths\<close>

fun path :: "'h sl_store \<Rightarrow> 'h sl_ptr \<Rightarrow> nat list \<Rightarrow> bool" where
  "path st p [] \<longleftrightarrow> st p = None"
| "path st p (n # ns) \<longleftrightarrow> st p = Some n \<and> path st (SNode n) ns"

fun last_ptr :: "'h sl_ptr \<Rightarrow> nat list \<Rightarrow> 'h sl_ptr" where
  "last_ptr p [] = p"
| "last_ptr p (n # ns) = last_ptr (SNode n) ns"

lemma last_ptr_snoc [simp]: "last_ptr p (ns @ [n]) = SNode n"
  by (induction ns arbitrary: p) auto

lemma last_ptr_cases: "last_ptr p ns = (if ns = [] then p else SNode (last ns))"
  by (induction ns arbitrary: p) auto

lemma path_cong: "(\<And>q. q = p \<or> q \<in> SNode ` set ns \<Longrightarrow> st' q = st q) \<Longrightarrow> path st' p ns = path st p ns"
proof (induction ns arbitrary: p)
  case (Cons n ns)
  have "path st' (SNode n) ns = path st (SNode n) ns" by (rule Cons.IH) (use Cons.prems in auto)
  then show ?case using Cons.prems [of p] by simp
qed simp

lemma path_unique: "path st p ns \<Longrightarrow> path st p ms \<Longrightarrow> ns = ms"
proof (induction ns arbitrary: p ms)
  case Nil
  then show ?case by (cases ms) auto
next
  case (Cons n ns)
  then show ?case by (cases ms) auto
qed

lemma path_rest: "path st p (us @ n # vs) \<Longrightarrow> path st (SNode n) vs"
  by (induction us arbitrary: p) auto

lemma path_tail: "path st p ns \<Longrightarrow> rt_slist_tail st p = Some (last_ptr p ns) \<and> st (last_ptr p ns) = None"
  by (induction ns arbitrary: p) (subst rt_slist_tail.simps, simp)+

lemma path_len: "path st (SNode n) ns \<Longrightarrow> slist_len_loop st (Some n) len = Some (len + of_nat (Suc (length ns)))"
proof (induction ns arbitrary: n len)
  case Nil
  then show ?case by (subst slist_len_loop.simps) (simp, subst slist_len_loop.simps, simp)
next
  case (Cons m ns)
  then have "slist_len_loop st (Some m) (len + 1) = Some (len + 1 + of_nat (Suc (length ns)))" by simp
  then show ?case using Cons.prems by (subst slist_len_loop.simps) (simp add: add.assoc)
qed

lemma path_seek:
  "path st p (xs @ n # ys) \<Longrightarrow> n \<notin> set xs \<Longrightarrow> slist_seek st n p = Some (last_ptr p xs) \<and> st (last_ptr p xs) = Some n \<and> path st (SNode n) ys"
  by (induction xs arbitrary: p) (subst slist_seek.simps, fastforce)+

lemma path_seek_none: "path st p ns \<Longrightarrow> n \<notin> set ns \<Longrightarrow> slist_seek st n p = Some (last_ptr p ns)"
  by (induction ns arbitrary: p) (subst slist_seek.simps, simp)+

lemma path_append: "path st p ns \<Longrightarrow> distinct (ns @ [n]) \<Longrightarrow> p \<notin> SNode ` set (ns @ [n]) \<Longrightarrow>
    path (st(last_ptr p ns := Some n, SNode n := None)) p (ns @ [n])"
proof (induction ns arbitrary: p)
  case (Cons m ns)
  let ?st = "st(last_ptr (SNode m) ns := Some n, SNode n := None)"
  have "last_ptr (SNode m) ns \<noteq> p" using Cons.prems(3) by (auto simp: last_ptr_cases)
  then have "?st p = Some m" using Cons.prems(1,3) by auto
  moreover have "path ?st (SNode m) (ns @ [n])" by (rule Cons.IH) (use Cons.prems in auto)
  ultimately show ?case by (simp only: append_Cons path.simps last_ptr.simps)
qed auto

lemma path_remove: "path st p (xs @ n # ys) \<Longrightarrow> distinct (xs @ n # ys) \<Longrightarrow> p \<notin> SNode ` set (xs @ n # ys) \<Longrightarrow>
    path (st(last_ptr p xs := st (SNode n))) p (xs @ ys)"
proof (induction xs arbitrary: p)
  case Nil
  show ?case
  proof (cases ys)
    case (Cons y zs)
    have "path (st(p := st (SNode n))) (SNode y) zs = path st (SNode y) zs"
      by (rule path_cong) (use Nil.prems Cons in auto)
    moreover have "st (SNode n) = Some y" "path st (SNode y) zs" using Nil.prems Cons by auto
    ultimately show ?thesis using Cons by (simp only: append_Nil path.simps last_ptr.simps fun_upd_same)
  qed (use Nil in simp)
next
  case (Cons m xs)
  let ?st = "st(last_ptr (SNode m) xs := st (SNode n))"
  have "last_ptr (SNode m) xs \<noteq> p" using Cons.prems(3) by (auto simp: last_ptr_cases)
  then have "?st p = Some m" using Cons.prems(1) by simp
  moreover have "path ?st (SNode m) (xs @ ys)" by (rule Cons.IH) (use Cons.prems in auto)
  ultimately show ?case by (simp only: append_Cons path.simps last_ptr.simps)
qed

lemma path_insert: "path st p ns \<Longrightarrow> n \<notin> set ns \<Longrightarrow> p \<notin> SNode ` set (n # ns) \<Longrightarrow> path (rt_slist_insert p n st) p (n # ns)"
proof -
  assume a: "path st p ns" "n \<notin> set ns" "p \<notin> SNode ` set (n # ns)"
  let ?st = "(st(SNode n := st p))(p := Some n)"
  have "path ?st (SNode n) ns"
  proof (cases ns)
    case (Cons m ms)
    have "path ?st (SNode m) ms = path st (SNode m) ms" by (rule path_cong) (use a Cons in auto)
    moreover have "?st (SNode n) = Some m" using a Cons by auto
    moreover have "path st (SNode m) ms" using a(1) Cons by simp
    ultimately show ?thesis using Cons by (simp only: path.simps)
  qed (use a in auto)
  then show ?thesis by (simp add: rt_slist_insert_def Let_def)
qed

section \<open>A table of lists\<close>

definition sl_repr :: "'h sl_store \<Rightarrow> ('h \<Rightarrow> nat list) \<Rightarrow> bool" where
  "sl_repr st L \<longleftrightarrow> tbl_wf L \<and> (\<forall>h. path st (SHead h) (L h))"

lemma sl_reprD:
  assumes "sl_repr st L"
  shows "tbl_wf L" "path st (SHead h) (L h)" "distinct (L h)" "n \<in> set (L h) \<Longrightarrow> n \<in> set (L k) \<Longrightarrow> h = k"
  using assms tbl_wfD [of L] tbl_wf_disj [of L] by (auto simp: sl_repr_def)

lemma last_ptr_head: "last_ptr (SHead h) ns = SHead h \<or> last_ptr (SHead h) ns \<in> SNode ` set ns"
  by (simp add: last_ptr_cases)

text \<open>The other lists keep their links when only the head and nodes of the list \<open>h\<close>, or a node that is not linked, change.\<close>

lemma sl_reprI:
  assumes r: "sl_repr st L" and p: "path st' (SHead h) ns" and wf: "tbl_wf (L(h := ns))"
    and f: "\<And>q. st' q \<noteq> st q \<Longrightarrow> q = SHead h \<or> q \<in> SNode ` (set (L h) \<union> set ns)"
  shows "sl_repr st' (L(h := ns))"
  unfolding sl_repr_def
proof (intro conjI allI)
  fix k
  show "path st' (SHead k) ((L(h := ns)) k)"
  proof (cases "k = h")
    case False
    have d: "m \<notin> set (L h) \<union> set ns" if "m \<in> set (L k)" for m
      using that False sl_reprD(4) [OF r, of m h k] tbl_wf_disj [OF wf, of m h k] by auto
    have "path st' (SHead k) (L k) = path st (SHead k) (L k)"
      by (rule path_cong) (use d f False in fastforce)
    then show ?thesis using False sl_reprD(2) [OF r] by simp
  qed (use p in simp)
qed (fact wf)

lemma sl_insert:
  assumes r: "sl_repr st L" and n: "\<not> linked n L"
  shows "sl_repr (rt_slist_insert (SHead h) n st) (tbl_insert_head h n L)"
proof -
  have nn: "n \<notin> set (L h)" using n by (auto simp: linked_def)
  have "sl_repr (rt_slist_insert (SHead h) n st) (L(h := n # L h))"
  proof (rule sl_reprI [OF r])
    show "path (rt_slist_insert (SHead h) n st) (SHead h) (n # L h)" by (rule path_insert) (use sl_reprD(2) [OF r] nn in auto)
    show "tbl_wf (L(h := n # L h))" using tbl_wf_insert_head [OF sl_reprD(1) [OF r] n, of h] by (simp add: tbl_insert_head_def)
    show "q = SHead h \<or> q \<in> SNode ` (set (L h) \<union> set (n # L h))" if "rt_slist_insert (SHead h) n st q \<noteq> st q" for q
      using that by (auto simp: rt_slist_insert_def Let_def split: if_splits)
  qed
  then show ?thesis by (simp add: tbl_insert_head_def)
qed

lemma sl_append:
  assumes r: "sl_repr st L" and n: "\<not> linked n L"
  shows "sl_repr (st(last_ptr (SHead h) (L h) := Some n, SNode n := None)) (tbl_insert_tail h n L)"
proof -
  let ?st = "st(last_ptr (SHead h) (L h) := Some n, SNode n := None)"
  have nn: "n \<notin> set (L h)" using n by (auto simp: linked_def)
  have "sl_repr ?st (L(h := L h @ [n]))"
  proof (rule sl_reprI [OF r])
    show "path ?st (SHead h) (L h @ [n])" by (rule path_append) (use sl_reprD(2,3) [OF r] nn in auto)
    show "tbl_wf (L(h := L h @ [n]))" using tbl_wf_insert_tail [OF sl_reprD(1) [OF r] n, of h] by (simp add: tbl_insert_tail_def)
    show "q = SHead h \<or> q \<in> SNode ` (set (L h) \<union> set (L h @ [n]))" if "?st q \<noteq> st q" for q
      using that last_ptr_head [of h "L h"] by (auto split: if_splits)
  qed
  then show ?thesis by (simp add: tbl_insert_tail_def)
qed

text \<open>Unlinking \<open>n\<close> and, as some callers do, clearing its link.\<close>

lemma sl_unlink:
  assumes r: "sl_repr st L" and l: "L h = xs @ n # ys"
  shows "slist_seek st n (SHead h) = Some (last_ptr (SHead h) xs)" "st (last_ptr (SHead h) xs) = Some n"
    "sl_repr (st(last_ptr (SHead h) xs := st (SNode n))) (L(h := xs @ ys))"
    "sl_repr (st(last_ptr (SHead h) xs := st (SNode n), SNode n := None)) (L(h := xs @ ys))"
proof -
  have d: "distinct (xs @ n # ys)" "path st (SHead h) (xs @ n # ys)" using sl_reprD(2,3) [OF r, of h] l by simp_all
  show "slist_seek st n (SHead h) = Some (last_ptr (SHead h) xs)" "st (last_ptr (SHead h) xs) = Some n"
    using path_seek [OF d(2)] d(1) by simp_all
  let ?st = "st(last_ptr (SHead h) xs := st (SNode n))"
  have p: "path ?st (SHead h) (xs @ ys)" by (rule path_remove) (use d in auto)
  have wf: "tbl_wf (L(h := xs @ ys))"
    by (rule tbl_wf_upd [OF sl_reprD(1) [OF r]]) (use d l tbl_wf_other [OF sl_reprD(1) [OF r], of _ h] in \<open>auto simp: disjoint_iff\<close>)
  show r': "sl_repr ?st (L(h := xs @ ys))"
  proof (rule sl_reprI [OF r p wf])
    show "q = SHead h \<or> q \<in> SNode ` (set (L h) \<union> set (xs @ ys))" if "?st q \<noteq> st q" for q
      using that l last_ptr_head [of h xs] by (auto split: if_splits)
  qed
  have n': "n \<notin> set ((L(h := xs @ ys)) k)" for k
  proof
    assume "n \<in> set ((L(h := xs @ ys)) k)"
    then show False using d(1) l sl_reprD(4) [OF r, of n h k] by (cases "k = h") auto
  qed
  have "path (?st(SNode n := None)) (SHead k) ((L(h := xs @ ys)) k)" for k
  proof -
    have "path (?st(SNode n := None)) (SHead k) ((L(h := xs @ ys)) k) = path ?st (SHead k) ((L(h := xs @ ys)) k)"
      by (rule path_cong) (use n' [of k] in auto)
    then show ?thesis using r' by (simp only: sl_repr_def)
  qed
  then show "sl_repr (?st(SNode n := None)) (L(h := xs @ ys))" using wf by (simp only: sl_repr_def simp_thms)
qed

lemma sl_remove:
  assumes r: "sl_repr st L"
  shows "\<exists>st'. rt_slist_remove (SHead h) n st = Some st' \<and> sl_repr st' (L(h := remove1 n (L h)))"
proof (cases "n \<in> set (L h)")
  case True
  then obtain xs ys where l: "L h = xs @ n # ys" "n \<notin> set xs" by (meson split_list_first)
  then have "remove1 n (L h) = xs @ ys" by (simp add: remove1_append)
  then show ?thesis using sl_unlink [OF r l(1)] by (simp add: rt_slist_remove_def)
next
  case False
  have "path st (SHead h) (L h)" using sl_reprD(2) [OF r] .
  then show ?thesis
    using False path_seek_none [of st "SHead h" "L h" n] path_tail [of st "SHead h" "L h"] r
    by (simp add: rt_slist_remove_def remove1_idem fun_upd_idem)
qed

text \<open>
  The single linked lists implement lists: on a store that represents a table of lists, the queries give
  emptiness, first element, length and last link, and insertion at the head, at the tail and removal end and
  give a store that represents the changed table. No other list is touched.
\<close>

theorem rt_slist_refines:
  assumes "sl_repr st L" and "\<not> linked n L"
  shows "rt_slist_isempty (SHead h) st = (L h = []) \<and>
    rt_slist_first (SHead h) st = (case L h of [] \<Rightarrow> None | m # _ \<Rightarrow> Some m) \<and>
    rt_slist_len (SHead h) st = Some (of_nat (length (L h))) \<and>
    rt_slist_tail st (SHead h) = Some (if L h = [] then SHead h else SNode (last (L h))) \<and>
    sl_repr (rt_slist_insert (SHead h) n st) (tbl_insert_head h n L) \<and>
    (\<exists>st'. rt_slist_append (SHead h) n st = Some st' \<and> sl_repr st' (tbl_insert_tail h n L)) \<and>
    (\<exists>st'. rt_slist_remove (SHead h) m st = Some st' \<and> sl_repr st' (L(h := remove1 m (L h))))"
proof -
  have p: "path st (SHead h) (L h)" using sl_reprD(2) [OF assms(1)] .
  have "rt_slist_isempty (SHead h) st = (L h = [])" "rt_slist_first (SHead h) st = (case L h of [] \<Rightarrow> None | m # _ \<Rightarrow> Some m)"
    using p by (cases "L h"; simp add: rt_slist_isempty_def rt_slist_first_def)+
  moreover have "rt_slist_len (SHead h) st = Some (of_nat (length (L h)))"
  proof (cases "L h")
    case Nil
    then show ?thesis using p by (subst rt_slist_len_def, subst slist_len_loop.simps) simp
  next
    case (Cons m ms)
    then show ?thesis using p path_len [of st m ms 0] by (simp add: rt_slist_len_def)
  qed
  moreover have "rt_slist_tail st (SHead h) = Some (if L h = [] then SHead h else SNode (last (L h)))"
    using path_tail [OF p] by (simp add: last_ptr_cases)
  moreover have "\<exists>st'. rt_slist_append (SHead h) n st = Some st' \<and> sl_repr st' (tbl_insert_tail h n L)"
    using sl_append [OF assms, of h] path_tail [OF p] by (simp add: rt_slist_append_def Let_def)
  ultimately show ?thesis using sl_insert [OF assms] sl_remove [OF assms(1)] by simp
qed

definition ex_slist :: "bool sl_store" where
  "ex_slist = (\<lambda>_. None)(SHead True := Some 3, SNode 3 := Some 5)"

lemma ex_slist_repr: "sl_repr ex_slist ((\<lambda>_. [])(True := [3, 5]))"
  by (auto simp: sl_repr_def ex_slist_def tbl_wf_def)

theorem rt_slist_refines_witness:
  "rt_slist_len (SHead True) ex_slist = Some 2 \<and>
   (\<exists>st'. rt_slist_append (SHead True) 7 ex_slist = Some st' \<and> sl_repr st' ((\<lambda>_. [])(True := [3, 5, 7])))"
proof -
  have n: "\<not> linked (7 :: nat) ((\<lambda>_. [])(True := [3, 5]))" by (auto simp: linked_def split: if_splits)
  show ?thesis using rt_slist_refines [OF ex_slist_repr n, of True] by (simp add: tbl_insert_tail_def)
qed

end
