(* ===== verification/RingBlk.thy ===== *)
theory RingBlk
  imports SList Alloc
begin

text \<open>
  The ring block buffer (components/drivers/ipc/ringblk_buf.c): blocks of different sizes are cut from a buffer
  in the order of a ring. A block descriptor is named by its index in \<open>blk_set\<close>; the blocks in use are linked, in
  the order of their allocation, on \<open>BlkList\<close>, the descriptors that are free on \<open>FreeList\<close>.
\<close>

section \<open>Data\<close>

datatype rbb_status = RT_RBB_BLK_UNUSED | RT_RBB_BLK_INITED | RT_RBB_BLK_PUT | RT_RBB_BLK_GET

record rt_rbb_blk =
  rb_status :: rbb_status
  rb_size :: "24 word"
  rb_buf :: u32

datatype rbb_head = BlkList | FreeList

text \<open>\<open>rbb_links\<close> has the heads \<open>blk_list\<close> and \<open>free_list\<close> and the links of the blocks.\<close>

record rt_rbb =
  rbb_buf :: u32
  rbb_size :: u32
  rbb_blk :: "nat \<Rightarrow> rt_rbb_blk"
  blk_max_num :: u32
  rbb_links :: "rbb_head sl_store"
  rbb_tail :: "rbb_head sl_ptr"

record rt_rbb_blk_queue =
  q_blocks :: "nat option"
  q_num :: u32

definition upd_blk :: "nat \<Rightarrow> (rt_rbb_blk \<Rightarrow> rt_rbb_blk) \<Rightarrow> rt_rbb \<Rightarrow> rt_rbb" where
  "upd_blk n f r = r\<lparr>rbb_blk := (rbb_blk r)(n := f (rbb_blk r n))\<rparr>"

definition blk_end :: "rt_rbb_blk \<Rightarrow> u32" where
  "blk_end b = rb_buf b + ucast (rb_size b)"

section \<open>Operations\<close>

definition rbb_init_blk :: "nat \<Rightarrow> rt_rbb \<Rightarrow> rt_rbb" where
  "rbb_init_blk i r =
    (let r = upd_blk i (\<lambda>b. b\<lparr>rb_status := RT_RBB_BLK_UNUSED\<rparr>) r;
         r = r\<lparr>rbb_links := rt_slist_init (SNode i) (rbb_links r)\<rparr>
     in r\<lparr>rbb_links := rt_slist_insert (SHead FreeList) i (rbb_links r)\<rparr>)"

text \<open>\<open>blocks\<close> and \<open>links\<close> are what is in the memory of the descriptors before.\<close>

definition rt_rbb_init :: "u32 \<Rightarrow> u32 \<Rightarrow> (nat \<Rightarrow> rt_rbb_blk) \<Rightarrow> rbb_head sl_store \<Rightarrow> u32 \<Rightarrow> rt_rbb" where
  "rt_rbb_init buf size1 blocks links blk_max =
    (let r = \<lparr>rbb_buf = buf, rbb_size = size1, rbb_blk = blocks, blk_max_num = blk_max,
           rbb_links = rt_slist_init (SHead FreeList) (rt_slist_init (SHead BlkList) links), rbb_tail = SHead BlkList\<rparr>
     in fold rbb_init_blk [0..<unat blk_max] r)"

definition find_empty_blk_in_set :: "rt_rbb \<Rightarrow> (nat option \<times> rt_rbb) option" where
  "find_empty_blk_in_set r =
    (case rt_slist_first (SHead FreeList) (rbb_links r) of
       None \<Rightarrow> Some (None, r)
     | Some n \<Rightarrow> do {
         links \<leftarrow> rt_slist_remove (SHead FreeList) n (rbb_links r);
         rt_assert (rb_status (rbb_blk r n) = RT_RBB_BLK_UNUSED);
         Some (Some n, r\<lparr>rbb_links := links\<rparr>) })"

definition list_append :: "nat \<Rightarrow> rt_rbb \<Rightarrow> rt_rbb" where
  "list_append n r =
    (let links = (rbb_links r)(rbb_tail r := Some n); links = links(SNode n := None)
     in r\<lparr>rbb_links := links, rbb_tail := SNode n\<rparr>)"

definition list_remove :: "nat \<Rightarrow> rt_rbb \<Rightarrow> rt_rbb option" where
  "list_remove n r = do {
     node \<leftarrow> slist_seek (rbb_links r) n (SHead BlkList);
     Some (case rbb_links r node of
         None \<Rightarrow> r
       | Some m \<Rightarrow>
           (let links = (rbb_links r)(node := rbb_links r (SNode m)); links = links(SNode n := None);
                r = r\<lparr>rbb_links := links\<rparr>
            in if rbb_tail r = SNode n then r\<lparr>rbb_tail := node\<rparr> else r)) }"

text \<open>
  The address of a new block after the block \<open>t\<close>, when \<open>h\<close> is the first block of the list: behind the last
  block, or at the start of the buffer; \<open>None\<close> when neither has room.
\<close>

definition rbb_room :: "rt_rbb \<Rightarrow> rt_rbb_blk \<Rightarrow> rt_rbb_blk \<Rightarrow> u32 \<Rightarrow> u32 option" where
  "rbb_room r h t size1 =
    (if rb_buf h \<le> rb_buf t
     then (let empty1 = rbb_buf r + rbb_size r - blk_end t; empty2 = rb_buf h - rbb_buf r
           in if size1 \<le> empty1 then Some (blk_end t) else if size1 \<le> empty2 then Some (rbb_buf r) else None)
     else (let empty1 = rb_buf h - blk_end t in if size1 \<le> empty1 then Some (blk_end t) else None))"

definition rbb_take :: "nat \<Rightarrow> u32 \<Rightarrow> u32 \<Rightarrow> rt_rbb \<Rightarrow> rt_rbb" where
  "rbb_take n a size1 r =
    upd_blk n (\<lambda>b. b\<lparr>rb_status := RT_RBB_BLK_INITED, rb_buf := a, rb_size := ucast size1\<rparr>) (list_append n r)"

definition rt_rbb_blk_alloc :: "u32 \<Rightarrow> rt_rbb \<Rightarrow> (nat option \<times> rt_rbb) option" where
  "rt_rbb_blk_alloc size1 r = do {
     rt_assert (size1 < 0x1000000);
     (new, r) \<leftarrow> find_empty_blk_in_set r;
     (case new of
        None \<Rightarrow> Some (None, r)
      | Some n \<Rightarrow>
          (case rt_slist_first (SHead BlkList) (rbb_links r) of
             None \<Rightarrow> Some (Some n, rbb_take n (rbb_buf r) size1 r)
           | Some h \<Rightarrow>
               (case rbb_tail r of
                  SHead _ \<Rightarrow> None
                | SNode t \<Rightarrow>
                    (case rbb_room r (rbb_blk r h) (rbb_blk r t) size1 of
                       None \<Rightarrow> Some (None, r)
                     | Some a \<Rightarrow> Some (Some n, rbb_take n a size1 r))))) }"

definition rt_rbb_blk_put :: "nat \<Rightarrow> rt_rbb \<Rightarrow> rt_rbb option" where
  "rt_rbb_blk_put n r = do {
     rt_assert (rb_status (rbb_blk r n) = RT_RBB_BLK_INITED);
     Some (upd_blk n (\<lambda>b. b\<lparr>rb_status := RT_RBB_BLK_PUT\<rparr>) r) }"

partial_function (option) blk_get_loop :: "rt_rbb \<Rightarrow> nat option \<Rightarrow> (nat option \<times> rt_rbb) option" where
  "blk_get_loop r node =
    (case node of
       None \<Rightarrow> Some (None, r)
     | Some n \<Rightarrow>
         if rb_status (rbb_blk r n) = RT_RBB_BLK_PUT then Some (Some n, upd_blk n (\<lambda>b. b\<lparr>rb_status := RT_RBB_BLK_GET\<rparr>) r)
         else blk_get_loop r (rt_slist_next (SNode n) (rbb_links r)))"

definition rt_rbb_blk_get :: "rt_rbb \<Rightarrow> (nat option \<times> rt_rbb) option" where
  "rt_rbb_blk_get r =
    (if rt_slist_isempty (SHead BlkList) (rbb_links r) then Some (None, r)
     else blk_get_loop r (rt_slist_first (SHead BlkList) (rbb_links r)))"

definition rt_rbb_blk_size :: "nat \<Rightarrow> rt_rbb \<Rightarrow> u32" where
  "rt_rbb_blk_size n r = ucast (rb_size (rbb_blk r n))"

definition rt_rbb_blk_buf :: "nat \<Rightarrow> rt_rbb \<Rightarrow> u32" where
  "rt_rbb_blk_buf n r = rb_buf (rbb_blk r n)"

definition rt_rbb_blk_free :: "nat \<Rightarrow> rt_rbb \<Rightarrow> rt_rbb option" where
  "rt_rbb_blk_free n r = do {
     rt_assert (rb_status (rbb_blk r n) \<noteq> RT_RBB_BLK_UNUSED);
     r \<leftarrow> list_remove n r;
     let r = upd_blk n (\<lambda>b. b\<lparr>rb_status := RT_RBB_BLK_UNUSED\<rparr>) r;
     Some (r\<lparr>rbb_links := rt_slist_insert (SHead FreeList) n (rbb_links r)\<rparr>) }"

text \<open>
  The loop of \<open>rt_rbb_blk_queue_get\<close>: the node, the last block taken, the size so far. At
  the end of the list the code steps to the null pointer and reads the link of that node: \<open>None\<close>.
\<close>

definition mark_got :: "nat \<Rightarrow> rt_rbb \<Rightarrow> rt_rbb" where
  "mark_got n = upd_blk n (\<lambda>b. b\<lparr>rb_status := RT_RBB_BLK_GET\<rparr>)"

partial_function (option) queue_get_loop :: "u32 \<Rightarrow> nat option \<Rightarrow> nat option \<Rightarrow> u32 \<Rightarrow> rt_rbb_blk_queue \<Rightarrow> rt_rbb \<Rightarrow>
    (u32 \<times> rt_rbb_blk_queue \<times> rt_rbb) option" where
  "queue_get_loop len node lst dsize q r =
    (case node of
       None \<Rightarrow> None
     | Some n \<Rightarrow>
         (case lst of
            None \<Rightarrow>
              if rb_status (rbb_blk r n) = RT_RBB_BLK_PUT
              then queue_get_loop len (rt_slist_next (SNode n) (rbb_links r)) (Some n) (dsize + ucast (rb_size (rbb_blk r n)))
                (q\<lparr>q_blocks := Some n, q_num := 0 + 1\<rparr>) (mark_got n r)
              else queue_get_loop len (rt_slist_next (SNode n) (rbb_links r)) None dsize q r
          | Some l \<Rightarrow>
              if rb_status (rbb_blk r n) \<noteq> RT_RBB_BLK_PUT \<or> rb_buf (rbb_blk r n) < rb_buf (rbb_blk r l) \<or>
                len < dsize + ucast (rb_size (rbb_blk r n))
              then Some (dsize, q, r)
              else queue_get_loop len (rt_slist_next (SNode n) (rbb_links r)) (Some n) (dsize + ucast (rb_size (rbb_blk r n)))
                (q\<lparr>q_num := q_num q + 1\<rparr>) (mark_got n r)))"

definition rt_rbb_blk_queue_get :: "u32 \<Rightarrow> rt_rbb_blk_queue \<Rightarrow> rt_rbb \<Rightarrow> (u32 \<times> rt_rbb_blk_queue \<times> rt_rbb) option" where
  "rt_rbb_blk_queue_get len q r =
    (if rt_slist_isempty (SHead BlkList) (rbb_links r) then Some (0, q, r)
     else queue_get_loop len (rt_slist_first (SHead BlkList) (rbb_links r)) None 0 q r)"

text \<open>\<open>None\<close> is an access through a null pointer: fewer blocks follow than the queue has.\<close>

fun queue_len_loop :: "nat \<Rightarrow> nat option \<Rightarrow> u32 \<Rightarrow> rt_rbb \<Rightarrow> u32 option" where
  "queue_len_loop 0 blk dsize r = Some dsize"
| "queue_len_loop (Suc k) blk dsize r =
    (case blk of
       None \<Rightarrow> None
     | Some n \<Rightarrow> queue_len_loop k (rbb_links r (SNode n)) (dsize + ucast (rb_size (rbb_blk r n))) r)"

definition rt_rbb_blk_queue_len :: "rt_rbb_blk_queue \<Rightarrow> rt_rbb \<Rightarrow> u32 option" where
  "rt_rbb_blk_queue_len q r = queue_len_loop (unat (q_num q)) (q_blocks q) 0 r"

definition rt_rbb_blk_queue_buf :: "rt_rbb_blk_queue \<Rightarrow> rt_rbb \<Rightarrow> u32 option" where
  "rt_rbb_blk_queue_buf q r = map_option (\<lambda>n. rb_buf (rbb_blk r n)) (q_blocks q)"

fun queue_free_loop :: "nat \<Rightarrow> nat option \<Rightarrow> rt_rbb \<Rightarrow> rt_rbb option" where
  "queue_free_loop 0 blk r = Some r"
| "queue_free_loop (Suc k) blk r =
    (case blk of
       None \<Rightarrow> None
     | Some n \<Rightarrow> do {
         let next_blk = rbb_links r (SNode n);
         r \<leftarrow> rt_rbb_blk_free n r;
         queue_free_loop k next_blk r })"

definition rt_rbb_blk_queue_free :: "rt_rbb_blk_queue \<Rightarrow> rt_rbb \<Rightarrow> rt_rbb option" where
  "rt_rbb_blk_queue_free q r = queue_free_loop (unat (q_num q)) (q_blocks q) r"

partial_function (option) next_queue_loop :: "rt_rbb \<Rightarrow> nat option \<Rightarrow> nat option \<Rightarrow> u32 \<Rightarrow> u32 option" where
  "next_queue_loop r node lst len =
    (case node of
       None \<Rightarrow> Some len
     | Some n \<Rightarrow>
         (case lst of
            None \<Rightarrow>
              if rb_status (rbb_blk r n) \<noteq> RT_RBB_BLK_PUT
              then next_queue_loop r (rt_slist_next (SNode n) (rbb_links r)) None len
              else next_queue_loop r (rt_slist_next (SNode n) (rbb_links r)) (Some n) (len + ucast (rb_size (rbb_blk r n)))
          | Some l \<Rightarrow>
              if rb_status (rbb_blk r n) \<noteq> RT_RBB_BLK_PUT \<or> rb_buf (rbb_blk r n) < rb_buf (rbb_blk r l)
              then Some len
              else next_queue_loop r (rt_slist_next (SNode n) (rbb_links r)) (Some n) (len + ucast (rb_size (rbb_blk r n)))))"

declare blk_get_loop.simps [code] queue_get_loop.simps [code] next_queue_loop.simps [code]

definition rt_rbb_next_blk_queue_len :: "rt_rbb \<Rightarrow> u32 option" where
  "rt_rbb_next_blk_queue_len r =
    (if rt_slist_isempty (SHead BlkList) (rbb_links r) then Some 0
     else next_queue_loop r (rt_slist_first (SHead BlkList) (rbb_links r)) None 0)"

definition rt_rbb_get_buf_size :: "rt_rbb \<Rightarrow> u32" where
  "rt_rbb_get_buf_size r = rbb_size r"

text \<open>
  Creation and destruction with the calls of the heap as parameters; \<open>blocks\<close> and \<open>links\<close> are what the allocated
  memory holds, 28 and 12 are the sizes of the two structures.
\<close>

definition rt_rbb_create :: "(u32 \<Rightarrow> 's \<Rightarrow> (nat option \<times> 's) option) \<Rightarrow> (nat \<Rightarrow> 's \<Rightarrow> 's option) \<Rightarrow> (nat \<Rightarrow> rt_rbb_blk) \<Rightarrow>
    rbb_head sl_store \<Rightarrow> u32 \<Rightarrow> u32 \<Rightarrow> 's \<Rightarrow> ((nat \<times> nat \<times> rt_rbb) option \<times> 's) option" where
  "rt_rbb_create alloc release blocks links size1 blk_max s = do {
     (rbb, s) \<leftarrow> alloc 28 s;
     (case rbb of
        None \<Rightarrow> Some (None, s)
      | Some rbb \<Rightarrow> do {
          (buf, s) \<leftarrow> alloc size1 s;
          (case buf of
             None \<Rightarrow> do { s \<leftarrow> release rbb s; Some (None, s) }
           | Some buf \<Rightarrow> do {
               (blk_set, s) \<leftarrow> alloc (12 * blk_max) s;
               (case blk_set of
                  None \<Rightarrow> do { s \<leftarrow> release buf s; s \<leftarrow> release rbb s; Some (None, s) }
                | Some blk_set \<Rightarrow> Some (Some (rbb, blk_set, rt_rbb_init (of_nat buf) size1 blocks links blk_max), s)) }) }) }"

definition rt_rbb_destroy :: "(nat \<Rightarrow> 's \<Rightarrow> 's option) \<Rightarrow> nat \<times> nat \<times> rt_rbb \<Rightarrow> 's \<Rightarrow> 's option" where
  "rt_rbb_destroy release rb s =
    (case rb of (rbb, blk_set, r) \<Rightarrow> do {
       s \<leftarrow> release (unat (rbb_buf r)) s;
       s \<leftarrow> release blk_set s;
       release rbb s })"

section \<open>Invariant\<close>

definition rbb_tbl :: "nat list \<Rightarrow> nat list \<Rightarrow> rbb_head \<Rightarrow> nat list" where
  "rbb_tbl bs fs h = (case h of BlkList \<Rightarrow> bs | FreeList \<Rightarrow> fs)"

text \<open>The block lies in the buffer; the block \<open>a\<close> lies below the block \<open>b\<close>.\<close>

definition inside :: "rt_rbb \<Rightarrow> nat \<Rightarrow> bool" where
  "inside r n \<longleftrightarrow> unat (rbb_buf r) \<le> unat (rb_buf (rbb_blk r n)) \<and> 0 < unat (rb_size (rbb_blk r n)) \<and>
     unat (rb_buf (rbb_blk r n)) + unat (rb_size (rbb_blk r n)) \<le> unat (rbb_buf r) + unat (rbb_size r)"

definition below :: "rt_rbb \<Rightarrow> nat \<Rightarrow> nat \<Rightarrow> bool" where
  "below r a b \<longleftrightarrow> unat (rb_buf (rbb_blk r a)) + unat (rb_size (rbb_blk r a)) \<le> unat (rb_buf (rbb_blk r b))"

text \<open>
  The blocks in use are, in the order of the list, a rotation of an ascending sequence of blocks apart from
  each other; a descriptor that is not in use is free, or lost.
\<close>

definition rbb_inv :: "rt_rbb \<Rightarrow> nat list \<Rightarrow> nat list \<Rightarrow> bool" where
  "rbb_inv r bs fs \<longleftrightarrow> sl_repr (rbb_links r) (rbb_tbl bs fs) \<and> rbb_tail r = last_ptr (SHead BlkList) bs \<and>
     unat (rbb_buf r) + unat (rbb_size r) < 2 ^ 32 \<and>
     (\<forall>n \<in> set bs. rb_status (rbb_blk r n) \<noteq> RT_RBB_BLK_UNUSED \<and> inside r n) \<and>
     (\<forall>n \<in> set fs. rb_status (rbb_blk r n) = RT_RBB_BLK_UNUSED) \<and>
     (\<exists>xs ys. bs = xs @ ys \<and> sorted_wrt (below r) (ys @ xs))"

lemma rbb_tbl_upd [simp]: "(rbb_tbl bs fs)(BlkList := cs) = rbb_tbl cs fs" "(rbb_tbl bs fs)(FreeList := cs) = rbb_tbl bs cs"
  "rbb_tbl bs fs BlkList = bs" "rbb_tbl bs fs FreeList = fs"
  by (auto simp: rbb_tbl_def fun_eq_iff split: rbb_head.split)

lemma linked_tbl [simp]: "linked n (rbb_tbl bs fs) \<longleftrightarrow> n \<in> set bs \<union> set fs"
proof
  show "n \<in> set bs \<union> set fs" if l: "linked n (rbb_tbl bs fs)"
  proof -
    from l obtain h where "n \<in> set (rbb_tbl bs fs h)" by (auto simp: linked_def)
    then show ?thesis by (cases h) simp_all
  qed
  show "linked n (rbb_tbl bs fs)" if "n \<in> set bs \<union> set fs"
    using that by (auto simp: linked_def intro: exI [of _ BlkList] exI [of _ FreeList])
qed

lemma upd_blk_sel [simp]:
  "rbb_buf (upd_blk n f r) = rbb_buf r" "rbb_size (upd_blk n f r) = rbb_size r" "rbb_links (upd_blk n f r) = rbb_links r"
  "rbb_tail (upd_blk n f r) = rbb_tail r" "rbb_blk (upd_blk n f r) = (rbb_blk r)(n := f (rbb_blk r n))"
  by (simp_all add: upd_blk_def)

lemma rbb_invD:
  assumes "rbb_inv r bs fs"
  shows "path (rbb_links r) (SHead BlkList) bs" "path (rbb_links r) (SHead FreeList) fs" "distinct bs" "distinct fs"
    "n \<in> set bs \<Longrightarrow> n \<notin> set fs" "rbb_tail r = last_ptr (SHead BlkList) bs" "n \<in> set bs \<Longrightarrow> inside r n"
    "n \<in> set bs \<Longrightarrow> rb_status (rbb_blk r n) \<noteq> RT_RBB_BLK_UNUSED" "n \<in> set fs \<Longrightarrow> rb_status (rbb_blk r n) = RT_RBB_BLK_UNUSED"
    "unat (rbb_buf r) + unat (rbb_size r) < 2 ^ 32" "\<exists>xs ys. bs = xs @ ys \<and> sorted_wrt (below r) (ys @ xs)"
proof -
  have r: "sl_repr (rbb_links r) (rbb_tbl bs fs)" using assms by (simp add: rbb_inv_def)
  show "path (rbb_links r) (SHead BlkList) bs" "path (rbb_links r) (SHead FreeList) fs" "distinct bs" "distinct fs"
    using sl_reprD(2,3) [OF r, of BlkList] sl_reprD(2,3) [OF r, of FreeList] by simp_all
  show "n \<in> set bs \<Longrightarrow> n \<notin> set fs" using sl_reprD(4) [OF r, of n BlkList FreeList] by auto
qed (use assms in \<open>auto simp: rbb_inv_def\<close>)

text \<open>The invariant reads the positions of the blocks in use only.\<close>

lemma below_cong: "rb_buf (rbb_blk r' a) = rb_buf (rbb_blk r a) \<Longrightarrow> rb_size (rbb_blk r' a) = rb_size (rbb_blk r a) \<Longrightarrow>
    rb_buf (rbb_blk r' b) = rb_buf (rbb_blk r b) \<Longrightarrow> below r' a b = below r a b"
  by (simp add: below_def)

lemma sorted_below_cong:
  assumes "\<And>n. n \<in> set ns \<Longrightarrow> rb_buf (rbb_blk r' n) = rb_buf (rbb_blk r n) \<and> rb_size (rbb_blk r' n) = rb_size (rbb_blk r n)"
  shows "sorted_wrt (below r') ns = sorted_wrt (below r) ns"
  using assms by (induction ns) (auto simp: below_def)

text \<open>A change of a status that does not make the block unused.\<close>

lemma set_status_inv:
  assumes inv: "rbb_inv r bs fs" and n: "n \<in> set bs" and v: "v \<noteq> RT_RBB_BLK_UNUSED"
  shows "rbb_inv (upd_blk n (\<lambda>b. b\<lparr>rb_status := v\<rparr>) r) bs fs"
proof -
  let ?r = "upd_blk n (\<lambda>b. b\<lparr>rb_status := v\<rparr>) r"
  obtain xs ys where s: "bs = xs @ ys" "sorted_wrt (below r) (ys @ xs)" using rbb_invD(11) [OF inv] by blast
  have "sorted_wrt (below ?r) (ys @ xs)" using s(2) by (subst sorted_below_cong [of _ _ r]) auto
  then have "\<exists>xs ys. bs = xs @ ys \<and> sorted_wrt (below ?r) (ys @ xs)" using s(1) by blast
  then show ?thesis using inv n v rbb_invD(5) [OF inv n] by (auto simp: rbb_inv_def inside_def)
qed

section \<open>Allocation\<close>

lemma find_empty_ok:
  assumes inv: "rbb_inv r bs fs"
  shows "fs = [] \<Longrightarrow> find_empty_blk_in_set r = Some (None, r)"
    "fs = n # fs' \<Longrightarrow> \<exists>links. find_empty_blk_in_set r = Some (Some n, r\<lparr>rbb_links := links\<rparr>) \<and> rbb_inv (r\<lparr>rbb_links := links\<rparr>) bs fs'"
proof -
  show "fs = [] \<Longrightarrow> find_empty_blk_in_set r = Some (None, r)"
    using rbb_invD(2) [OF inv] by (simp add: find_empty_blk_in_set_def rt_slist_first_def)
  assume fs: "fs = n # fs'"
  have r: "sl_repr (rbb_links r) (rbb_tbl bs fs)" using inv by (simp add: rbb_inv_def)
  let ?st = "(rbb_links r)(SHead FreeList := rbb_links r (SNode n))"
  have l: "rbb_tbl bs fs FreeList = [] @ n # fs'" using fs by simp
  note u = sl_unlink(1-3) [OF r l, simplified]
  have f: "rbb_links r (SHead FreeList) = Some n" using rbb_invD(2) [OF inv] fs by simp
  have e: "find_empty_blk_in_set r = Some (Some n, r\<lparr>rbb_links := ?st\<rparr>)"
    using f u(1) rbb_invD(9) [OF inv, of n] fs
    by (simp add: find_empty_blk_in_set_def rt_slist_first_def rt_slist_remove_def)
  have b: "below (r\<lparr>rbb_links := ?st\<rparr>) = below r" by (simp add: below_def fun_eq_iff)
  have "rbb_inv (r\<lparr>rbb_links := ?st\<rparr>) bs fs'"
    using inv u(3) fs by (simp add: rbb_inv_def inside_def b del: fun_upd_apply)
  then show "\<exists>links. find_empty_blk_in_set r = Some (Some n, r\<lparr>rbb_links := links\<rparr>) \<and> rbb_inv (r\<lparr>rbb_links := links\<rparr>) bs fs'"
    using e by blast
qed

text \<open>Where the new block goes: the room found is free, and the order stays a rotation.\<close>

lemma blk_end_unat:
  assumes "rbb_inv r bs fs" and "n \<in> set bs"
  shows "unat (blk_end (rbb_blk r n)) = unat (rb_buf (rbb_blk r n)) + unat (rb_size (rbb_blk r n))"
proof -
  have u: "unat (ucast (rb_size (rbb_blk r n)) :: u32) = unat (rb_size (rbb_blk r n))"
    using unsigned_less [of "rb_size (rbb_blk r n)", where 'a = nat] by (simp add: unsigned_ucast_eq take_bit_eq_mod)
  have "unat (rb_buf (rbb_blk r n)) + unat (rb_size (rbb_blk r n)) < 2 ^ 32"
    using rbb_invD(7,10) [OF assms(1)] assms(2) by (fastforce simp: inside_def)
  then show ?thesis using unat_word_ariths(1) [of "rb_buf (rbb_blk r n)" "ucast (rb_size (rbb_blk r n))"] u by (simp add: blk_end_def)
qed

definition new_sorted :: "rt_rbb \<Rightarrow> nat list \<Rightarrow> u32 \<Rightarrow> u32 \<Rightarrow> bool" where
  "new_sorted r bs a size1 \<longleftrightarrow> unat (rbb_buf r) \<le> unat a \<and> unat a + unat size1 \<le> unat (rbb_buf r) + unat (rbb_size r) \<and>
     (\<exists>xs ys. bs = xs @ ys \<and> sorted_wrt (below r) (ys @ xs) \<and>
        (\<forall>y \<in> set ys. unat (rb_buf (rbb_blk r y)) + unat (rb_size (rbb_blk r y)) \<le> unat a) \<and>
        (\<forall>x \<in> set xs. unat a + unat size1 \<le> unat (rb_buf (rbb_blk r x))))"

lemma sorted_last:
  assumes "sorted_wrt (below r) ns" and "n \<in> set ns" and "\<forall>m \<in> set ns. inside r m"
  shows "unat (rb_buf (rbb_blk r n)) + unat (rb_size (rbb_blk r n)) \<le>
    unat (rb_buf (rbb_blk r (last ns))) + unat (rb_size (rbb_blk r (last ns)))"
proof (cases ns rule: rev_cases)
  case (snoc ms m)
  then show ?thesis using assms(1,2) by (auto simp: sorted_wrt_append below_def)
qed (use assms(2) in simp)

lemma sorted_hd:
  assumes "sorted_wrt (below r) ns" and "n \<in> set ns" and "\<forall>m \<in> set ns. inside r m"
  shows "unat (rb_buf (rbb_blk r (hd ns))) \<le> unat (rb_buf (rbb_blk r n))"
  using assms by (cases ns) (auto simp: below_def)

lemma unat_minus: "y \<le> x \<Longrightarrow> unat (x - y) = unat x - unat y" for x y :: u32
  by (rule unat_sub)

text \<open>
  The place of a new block of \<open>z\<close> bytes: behind the last block, up to the end of the buffer or up to the
  first block, or at the start of the buffer below the first block.
\<close>

definition room_place :: "rt_rbb \<Rightarrow> nat list \<Rightarrow> nat \<Rightarrow> nat option" where
  "room_place r bs z =
    (if bs = [] then Some (unat (rbb_buf r))
     else let top = unat (rb_buf (rbb_blk r (last bs))) + unat (rb_size (rbb_blk r (last bs)));
              first = unat (rb_buf (rbb_blk r (hd bs)))
          in if first \<le> unat (rb_buf (rbb_blk r (last bs)))
             then (if top + z \<le> unat (rbb_buf r) + unat (rbb_size r) then Some top
                   else if unat (rbb_buf r) + z \<le> first then Some (unat (rbb_buf r)) else None)
             else (if top + z \<le> first then Some top else None))"

lemma wrapped_below:
  assumes inv: "rbb_inv r bs fs" and ne: "bs \<noteq> []" and lt: "unat (rb_buf (rbb_blk r (last bs))) < unat (rb_buf (rbb_blk r (hd bs)))"
  shows "below r (last bs) (hd bs)"
proof -
  obtain xs ys where s: "bs = xs @ ys" "sorted_wrt (below r) (ys @ xs)" using rbb_invD(11) [OF inv] by blast
  have ins: "\<forall>m \<in> set bs. inside r m" using rbb_invD(7) [OF inv] by blast
  have l: "last bs \<in> set bs" using ne by simp
  have "\<not> sorted_wrt (below r) bs" using sorted_hd [OF _ l ins] lt by auto
  then have "xs \<noteq> []" "ys \<noteq> []" using s by auto
  then have "last bs \<in> set ys" "hd bs \<in> set xs" using s(1) by auto
  then show ?thesis using s(2) by (auto simp: sorted_wrt_append)
qed

lemma room_unat:
  assumes inv: "rbb_inv r bs fs" and ne: "bs \<noteq> []"
  shows "map_option unat (rbb_room r (rbb_blk r (hd bs)) (rbb_blk r (last bs)) z) = room_place r bs (unat z)"
proof -
  let ?s = "\<lambda>n. unat (rb_buf (rbb_blk r n))" and ?z = "\<lambda>n. unat (rb_size (rbb_blk r n))"
  let ?B = "unat (rbb_buf r)" and ?N = "unat (rbb_size r)"
  have ins: "inside r (hd bs)" "inside r (last bs)" using rbb_invD(7) [OF inv] ne by simp_all
  have el: "unat (blk_end (rbb_blk r (last bs))) = ?s (last bs) + ?z (last bs)" by (rule blk_end_unat [OF inv]) (use ne in simp)
  have bn: "unat (rbb_buf r + rbb_size r) = ?B + ?N"
    using rbb_invD(10) [OF inv] unat_word_ariths(1) [of "rbb_buf r" "rbb_size r"] by simp
  have e1: "unat (rbb_buf r + rbb_size r - blk_end (rbb_blk r (last bs))) = ?B + ?N - (?s (last bs) + ?z (last bs))"
    using unat_minus [of "blk_end (rbb_blk r (last bs))" "rbb_buf r + rbb_size r"] ins(2) el bn by (simp add: word_le_nat_alt inside_def)
  have e2: "unat (rb_buf (rbb_blk r (hd bs)) - rbb_buf r) = ?s (hd bs) - ?B"
    using ins(1) by (intro unat_minus) (simp add: word_le_nat_alt inside_def)
  show ?thesis
  proof (cases "?s (hd bs) \<le> ?s (last bs)")
    case True
    then show ?thesis using ins e1 e2 el ne
      by (auto simp: rbb_room_def room_place_def Let_def word_le_nat_alt inside_def)
  next
    case False
    then have le: "?s (last bs) + ?z (last bs) \<le> ?s (hd bs)" using wrapped_below [OF inv ne] by (simp add: below_def)
    have "unat (rb_buf (rbb_blk r (hd bs)) - blk_end (rbb_blk r (last bs))) = ?s (hd bs) - (?s (last bs) + ?z (last bs))"
      using unat_minus [of "blk_end (rbb_blk r (last bs))" "rb_buf (rbb_blk r (hd bs))"] le el by (simp add: word_le_nat_alt)
    then show ?thesis using False le el ne
      by (auto simp: rbb_room_def room_place_def Let_def word_le_nat_alt)
  qed
qed

lemma room_sorted:
  assumes inv: "rbb_inv r bs fs" and ne: "bs \<noteq> []" and a: "rbb_room r (rbb_blk r (hd bs)) (rbb_blk r (last bs)) size1 = Some a"
    and z: "0 < unat size1"
  shows "new_sorted r bs a size1"
proof -
  let ?s = "\<lambda>n. unat (rb_buf (rbb_blk r n))" and ?z = "\<lambda>n. unat (rb_size (rbb_blk r n))"
  let ?B = "unat (rbb_buf r)" and ?N = "unat (rbb_size r)"
  obtain xs ys where s: "bs = xs @ ys" "sorted_wrt (below r) (ys @ xs)" using rbb_invD(11) [OF inv] by blast
  have ins: "\<forall>m \<in> set bs. inside r m" using rbb_invD(7) [OF inv] by blast
  have hl: "hd bs \<in> set bs" "last bs \<in> set bs" using ne by simp_all
  have el: "unat (blk_end (rbb_blk r (last bs))) = ?s (last bs) + ?z (last bs)" by (rule blk_end_unat [OF inv hl(2)])
  have bn: "unat (rbb_buf r + rbb_size r) = ?B + ?N"
    using rbb_invD(10) [OF inv] unat_word_ariths(1) [of "rbb_buf r" "rbb_size r"] by simp
  have il: "?B \<le> ?s (last bs)" "?s (last bs) + ?z (last bs) \<le> ?B + ?N" "0 < ?z (last bs)" "?B \<le> ?s (hd bs)"
    using ins hl by (auto simp: inside_def)
  have e1: "unat (rbb_buf r + rbb_size r - blk_end (rbb_blk r (last bs))) = ?B + ?N - (?s (last bs) + ?z (last bs))"
    using unat_minus [of "blk_end (rbb_blk r (last bs))" "rbb_buf r + rbb_size r"] il el bn by (simp add: word_le_nat_alt)
  show ?thesis
  proof (cases "?s (hd bs) \<le> ?s (last bs)")
    case True
    have "xs = [] \<or> ys = []"
    proof (rule ccontr)
      assume n: "\<not> (xs = [] \<or> ys = [])"
      then have "last bs \<in> set ys" "hd bs \<in> set xs" using s(1) by auto
      then have "below r (last bs) (hd bs)" using s(2) by (auto simp: sorted_wrt_append)
      then show False using True il(3) by (simp add: below_def)
    qed
    then have sb: "sorted_wrt (below r) bs" using s by auto
    have hd_le: "rb_buf (rbb_blk r (hd bs)) \<le> rb_buf (rbb_blk r (last bs))" using True by (simp add: word_le_nat_alt)
    consider "a = blk_end (rbb_blk r (last bs))" "size1 \<le> rbb_buf r + rbb_size r - blk_end (rbb_blk r (last bs))"
      | "a = rbb_buf r" "size1 \<le> rb_buf (rbb_blk r (hd bs)) - rbb_buf r"
      using a hd_le by (auto simp: rbb_room_def Let_def split: if_splits)
    then show ?thesis
    proof cases
      case 1
      then have "unat a + unat size1 \<le> ?B + ?N" using e1 el il(2) by (simp add: word_le_nat_alt)
      moreover have "?s y + ?z y \<le> unat a" if "y \<in> set bs" for y using sorted_last [OF sb that ins] 1(1) el by simp
      ultimately show ?thesis unfolding new_sorted_def using 1(1) el il sb
        by (intro conjI exI [of _ "[]"] exI [of _ bs]) auto
    next
      case 2
      have "unat (rb_buf (rbb_blk r (hd bs)) - rbb_buf r) = ?s (hd bs) - ?B" using il(4) by (intro unat_minus) (simp add: word_le_nat_alt)
      then have f: "?B + unat size1 \<le> ?s (hd bs)" using 2(2) il(4) by (simp add: word_le_nat_alt)
      moreover have "?s (hd bs) \<le> ?B + ?N" using ins hl(1) by (force simp: inside_def)
      moreover have "?B + unat size1 \<le> ?s x" if "x \<in> set bs" for x using sorted_hd [OF sb that ins] f by simp
      ultimately show ?thesis unfolding new_sorted_def using 2(1) sb
        by (intro conjI exI [of _ bs] exI [of _ "[]"]) auto
    qed
  next
    case False
    have ny: "ys \<noteq> []"
    proof
      assume "ys = []"
      then have "sorted_wrt (below r) bs" using s by simp
      from sorted_hd [OF this hl(2) ins] False show False by simp
    qed
    have nx: "xs \<noteq> []"
    proof
      assume "xs = []"
      then have "sorted_wrt (below r) bs" using s by simp
      from sorted_hd [OF this hl(2) ins] False show False by simp
    qed
    have lh: "last bs = last ys" "hd bs = hd xs" using s(1) nx ny by auto
    have so: "sorted_wrt (below r) xs" "sorted_wrt (below r) ys" "below r (last ys) (hd xs)"
      using s(2) nx ny by (auto simp: sorted_wrt_append)
    have "\<not> rb_buf (rbb_blk r (hd bs)) \<le> rb_buf (rbb_blk r (last bs))" using False by (simp add: word_le_nat_alt)
    then have a: "a = blk_end (rbb_blk r (last bs))" "size1 \<le> rb_buf (rbb_blk r (hd bs)) - blk_end (rbb_blk r (last bs))"
      using a by (auto simp: rbb_room_def Let_def split: if_splits)
    have le: "?s (last bs) + ?z (last bs) \<le> ?s (hd bs)" using so(3) lh by (simp add: below_def)
    have "unat (rb_buf (rbb_blk r (hd bs)) - blk_end (rbb_blk r (last bs))) = ?s (hd bs) - (?s (last bs) + ?z (last bs))"
      using unat_minus [of "blk_end (rbb_blk r (last bs))" "rb_buf (rbb_blk r (hd bs))"] le el by (simp add: word_le_nat_alt)
    then have f: "unat a + unat size1 \<le> ?s (hd bs)" using a el le by (simp add: word_le_nat_alt)
    have "?s y + ?z y \<le> unat a" if "y \<in> set ys" for y
      using sorted_last [OF so(2) that] ins s(1) lh a(1) el by simp
    moreover have "unat a + unat size1 \<le> ?s x" if "x \<in> set xs" for x
      using sorted_hd [OF so(1) that] ins s(1) lh f by simp
    moreover have "?s (hd bs) \<le> ?B + ?N" using ins hl(1) by (force simp: inside_def)
    ultimately show ?thesis unfolding new_sorted_def using a(1) el il s f
      by (intro conjI exI [of _ xs] exI [of _ ys]) auto
  qed
qed

text \<open>The new block at the end of the list.\<close>

lemma take_inv:
  assumes inv: "rbb_inv r bs fs" and n: "n \<notin> set bs" "n \<notin> set fs" and new: "new_sorted r bs a size1" and z: "0 < unat size1" "size1 < 0x1000000"
  shows "rbb_inv (rbb_take n a size1 r) (bs @ [n]) fs"
    "rbb_blk (rbb_take n a size1 r) n = \<lparr>rb_status = RT_RBB_BLK_INITED, rb_size = ucast size1, rb_buf = a\<rparr>"
    "m \<noteq> n \<Longrightarrow> rbb_blk (rbb_take n a size1 r) m = rbb_blk r m"
proof -
  let ?r = "rbb_take n a size1 r"
  have links: "rbb_links ?r = (rbb_links r)(last_ptr (SHead BlkList) bs := Some n, SNode n := None)" "rbb_tail ?r = SNode n"
    "rbb_buf ?r = rbb_buf r" "rbb_size ?r = rbb_size r"
    using rbb_invD(6) [OF inv] by (simp_all add: rbb_take_def list_append_def Let_def)
  show blk: "rbb_blk ?r n = \<lparr>rb_status = RT_RBB_BLK_INITED, rb_size = ucast size1, rb_buf = a\<rparr>"
    "\<And>m. m \<noteq> n \<Longrightarrow> rbb_blk ?r m = rbb_blk r m"
    by (simp_all add: rbb_take_def list_append_def Let_def)
  have u: "unat (ucast size1 :: 24 word) = unat size1"
    using z(2) by (simp add: unsigned_ucast_eq take_bit_eq_mod word_less_nat_alt)
  have r: "sl_repr (rbb_links r) (rbb_tbl bs fs)" using inv by (simp add: rbb_inv_def)
  have "sl_repr (rbb_links ?r) (tbl_insert_tail BlkList n (rbb_tbl bs fs))"
    using sl_append [OF r, of n BlkList] n by (simp add: links(1) del: fun_upd_apply)
  then have rep: "sl_repr (rbb_links ?r) (rbb_tbl (bs @ [n]) fs)" by (simp add: tbl_insert_tail_def)
  obtain xs ys where s: "bs = xs @ ys" "sorted_wrt (below r) (ys @ xs)"
    "\<forall>y \<in> set ys. unat (rb_buf (rbb_blk r y)) + unat (rb_size (rbb_blk r y)) \<le> unat a"
    "\<forall>x \<in> set xs. unat a + unat size1 \<le> unat (rb_buf (rbb_blk r x))"
    and ab: "unat (rbb_buf r) \<le> unat a" "unat a + unat size1 \<le> unat (rbb_buf r) + unat (rbb_size r)"
    using new by (auto simp: new_sorted_def)
  have c: "sorted_wrt (below ?r) ns = sorted_wrt (below r) ns" if "set ns \<subseteq> set bs" for ns
  proof (rule sorted_below_cong)
    fix m assume "m \<in> set ns"
    then have "m \<noteq> n" using that n(1) by auto
    then show "rb_buf (rbb_blk ?r m) = rb_buf (rbb_blk r m) \<and> rb_size (rbb_blk ?r m) = rb_size (rbb_blk r m)" using blk(2) by simp
  qed
  have so: "sorted_wrt (below r) xs" "sorted_wrt (below r) ys" "\<forall>y \<in> set ys. \<forall>x \<in> set xs. below r y x"
    using s(2) by (auto simp: sorted_wrt_append)
  have nx: "m \<noteq> n" if "m \<in> set xs \<union> set ys" for m using that n(1) s(1) by auto
  have "\<forall>y \<in> set ys. \<forall>x \<in> set xs. below ?r y x" using so(3) nx blk(2) by (simp add: below_def)
  moreover have "\<forall>y \<in> set ys. below ?r y n" using s(3) nx blk by (simp add: below_def)
  moreover have "\<forall>x \<in> set xs. below ?r n x" using s(4) nx blk u by (simp add: below_def)
  ultimately have "sorted_wrt (below ?r) ((ys @ [n]) @ xs)"
    using so(1,2) c [of xs] c [of ys] s(1) by (auto simp: sorted_wrt_append)
  then have sort: "\<exists>xs ys. bs @ [n] = xs @ ys \<and> sorted_wrt (below ?r) (ys @ xs)"
    using s(1) by (intro exI [of _ xs] exI [of _ "ys @ [n]"]) simp
  have st: "\<forall>m \<in> set (bs @ [n]). rb_status (rbb_blk ?r m) \<noteq> RT_RBB_BLK_UNUSED \<and> inside ?r m"
  proof
    fix m assume m: "m \<in> set (bs @ [n])"
    show "rb_status (rbb_blk ?r m) \<noteq> RT_RBB_BLK_UNUSED \<and> inside ?r m"
    proof (cases "m = n")
      case True
      then show ?thesis using blk(1) u z(1) ab by (simp add: inside_def links)
    next
      case False
      then show ?thesis using m blk(2) [OF False] rbb_invD(7,8) [OF inv, of m] by (simp add: inside_def links)
    qed
  qed
  have "\<forall>m \<in> set fs. rb_status (rbb_blk ?r m) = RT_RBB_BLK_UNUSED"
  proof
    fix m assume "m \<in> set fs"
    moreover from this have "m \<noteq> n" using n(2) by blast
    ultimately show "rb_status (rbb_blk ?r m) = RT_RBB_BLK_UNUSED" using blk(2) rbb_invD(9) [OF inv, of m] by simp
  qed
  then show "rbb_inv ?r (bs @ [n]) fs"
    using rep sort st links(2-4) rbb_invD(10) [OF inv] by (simp add: rbb_inv_def)
qed

lemma alloc_ok:
  assumes inv: "rbb_inv r bs fs" and z: "0 < size1" "size1 < 0x1000000" "size1 \<le> rbb_size r"
  shows "case fs of
      [] \<Rightarrow> rt_rbb_blk_alloc size1 r = Some (None, r)
    | n # fs' \<Rightarrow>
        (\<exists>r'. rt_rbb_blk_alloc size1 r = Some (Some n, r') \<and> rbb_inv r' (bs @ [n]) fs' \<and>
           room_place r bs (unat size1) = Some (unat (rb_buf (rbb_blk r' n))) \<and>
           rbb_buf r' = rbb_buf r \<and> rbb_size r' = rbb_size r \<and>
           rb_status (rbb_blk r' n) = RT_RBB_BLK_INITED \<and> unat (rb_size (rbb_blk r' n)) = unat size1 \<and>
           (\<forall>m. m \<noteq> n \<longrightarrow> rbb_blk r' m = rbb_blk r m)) \<or>
        (bs \<noteq> [] \<and> room_place r bs (unat size1) = None \<and> (\<exists>r'. rt_rbb_blk_alloc size1 r = Some (None, r') \<and> rbb_inv r' bs fs' \<and>
           rbb_buf r' = rbb_buf r \<and> rbb_size r' = rbb_size r \<and> rbb_blk r' = rbb_blk r))"
proof (cases fs)
  case Nil
  then show ?thesis using find_empty_ok(1) [OF inv Nil] z(2) by (simp add: rt_rbb_blk_alloc_def)
next
  case (Cons n fs')
  obtain links where f: "find_empty_blk_in_set r = Some (Some n, r\<lparr>rbb_links := links\<rparr>)" "rbb_inv (r\<lparr>rbb_links := links\<rparr>) bs fs'"
    using find_empty_ok(2) [OF inv Cons] by blast
  let ?r = "r\<lparr>rbb_links := links\<rparr>"
  have n: "n \<notin> set bs" "n \<notin> set fs'" using rbb_invD(4,5) [OF inv] Cons by auto
  have z': "0 < unat size1" using z(1) by (simp add: word_less_nat_alt)
  have u: "unat (ucast size1 :: 24 word) = unat size1"
    using z(2) by (simp add: unsigned_ucast_eq take_bit_eq_mod word_less_nat_alt)
  have took: "\<exists>r'. rt_rbb_blk_alloc size1 r = Some (Some n, r') \<and> rbb_inv r' (bs @ [n]) fs' \<and>
      room_place r bs (unat size1) = Some (unat (rb_buf (rbb_blk r' n))) \<and>
      rbb_buf r' = rbb_buf r \<and> rbb_size r' = rbb_size r \<and>
      rb_status (rbb_blk r' n) = RT_RBB_BLK_INITED \<and> unat (rb_size (rbb_blk r' n)) = unat size1 \<and>
      (\<forall>m. m \<noteq> n \<longrightarrow> rbb_blk r' m = rbb_blk r m)"
    if "rt_rbb_blk_alloc size1 r = Some (Some n, rbb_take n a size1 ?r)" "new_sorted ?r bs a size1"
      "room_place r bs (unat size1) = Some (unat a)" for a
    using that(1,3) take_inv [OF f(2) n that(2) z' z(2)] u
    by (intro exI [of _ "rbb_take n a size1 ?r"]) (simp add: rbb_take_def list_append_def Let_def)
  have first: "links (SHead BlkList) = (case bs of [] \<Rightarrow> None | h # _ \<Rightarrow> Some h)"
    using rbb_invD(1) [OF f(2)] by (cases bs) auto
  show ?thesis
  proof (cases "bs = []")
    case True
    have "new_sorted ?r bs (rbb_buf r) size1"
      using True z(3) by (simp add: new_sorted_def word_le_nat_alt)
    moreover have "rt_rbb_blk_alloc size1 r = Some (Some n, rbb_take n (rbb_buf r) size1 ?r)"
      using f(1) z(2) first True by (simp add: rt_rbb_blk_alloc_def rt_slist_first_def)
    moreover have "room_place r bs (unat size1) = Some (unat (rbb_buf r))" using True by (simp add: room_place_def)
    ultimately show ?thesis using took Cons by simp
  next
    case False
    have first': "links (SHead BlkList) = Some (hd bs)" using first False by (cases bs) auto
    have tail: "rbb_tail r = SNode (last bs)" using rbb_invD(6) [OF inv] False by (simp add: last_ptr_cases)
    have room: "rbb_room ?r = rbb_room r" by (simp add: rbb_room_def fun_eq_iff)
    note place = room_unat [OF inv False, of size1]
    show ?thesis
    proof (cases "rbb_room r (rbb_blk r (hd bs)) (rbb_blk r (last bs)) size1")
      case None
      then have "rt_rbb_blk_alloc size1 r = Some (None, ?r)"
        using f(1) z(2) first' tail room by (simp add: rt_rbb_blk_alloc_def rt_slist_first_def)
      moreover have "room_place r bs (unat size1) = None" using place None by simp
      ultimately show ?thesis using f(2) False Cons by auto
    next
      case (Some a)
      then have "rt_rbb_blk_alloc size1 r = Some (Some n, rbb_take n a size1 ?r)"
        using f(1) z(2) first' tail room by (simp add: rt_rbb_blk_alloc_def rt_slist_first_def)
      moreover have "new_sorted ?r bs a size1"
        by (rule room_sorted [OF f(2) False]) (use Some room z' in simp_all)
      moreover have "room_place r bs (unat size1) = Some (unat a)" using place Some by simp
      ultimately show ?thesis using took Cons by simp
    qed
  qed
qed

section \<open>Put, get and release\<close>

lemma get_loop_ok:
  "path (rbb_links r) (SNode n) ns \<Longrightarrow> blk_get_loop r (Some n) =
     Some (case find (\<lambda>m. rb_status (rbb_blk r m) = RT_RBB_BLK_PUT) (n # ns) of
       None \<Rightarrow> (None, r) | Some m \<Rightarrow> (Some m, mark_got m r))"
proof (induction ns arbitrary: n)
  case Nil
  then show ?case
    by (subst blk_get_loop.simps) (simp add: rt_slist_next_def mark_got_def, subst blk_get_loop.simps, simp)
next
  case (Cons m ns)
  then show ?case by (subst blk_get_loop.simps) (auto simp: rt_slist_next_def mark_got_def split: option.splits if_splits)
qed

lemma blk_get_ok:
  assumes inv: "rbb_inv r bs fs"
  shows "rt_rbb_blk_get r = Some (case find (\<lambda>m. rb_status (rbb_blk r m) = RT_RBB_BLK_PUT) bs of
      None \<Rightarrow> (None, r) | Some m \<Rightarrow> (Some m, mark_got m r))"
proof (cases bs)
  case (Cons n ns)
  then show ?thesis using rbb_invD(1) [OF inv] get_loop_ok [of r n ns]
    by (simp add: rt_rbb_blk_get_def rt_slist_isempty_def rt_slist_first_def)
qed (use rbb_invD(1) [OF inv] in \<open>simp add: rt_rbb_blk_get_def rt_slist_isempty_def\<close>)

lemma find_in: "find P ns = Some m \<Longrightarrow> m \<in> set ns \<and> P m"
  by (induction ns) (auto split: if_splits)

lemma sorted_remove: "sorted_wrt R (us @ n # vs) \<Longrightarrow> sorted_wrt R (us @ vs)"
  by (simp add: sorted_wrt_append)

lemma blk_free_ok:
  assumes inv: "rbb_inv r (us @ n # vs) fs"
  shows "\<exists>r'. rt_rbb_blk_free n r = Some r' \<and> rbb_inv r' (us @ vs) (n # fs) \<and> rbb_buf r' = rbb_buf r \<and> rbb_size r' = rbb_size r \<and>
    rbb_blk r' = (rbb_blk r)(n := (rbb_blk r n)\<lparr>rb_status := RT_RBB_BLK_UNUSED\<rparr>)"
proof -
  let ?node = "last_ptr (SHead BlkList) us"
  have r: "sl_repr (rbb_links r) (rbb_tbl (us @ n # vs) fs)" using inv by (simp add: rbb_inv_def)
  have d: "distinct (us @ n # vs)" "n \<notin> set fs" using rbb_invD(3,5) [OF inv] by auto
  have l: "rbb_tbl (us @ n # vs) fs BlkList = us @ n # vs" by simp
  note u = sl_unlink(1,2,4) [OF r l]
  let ?st = "(rbb_links r)(?node := rbb_links r (SNode n), SNode n := None)"
  let ?tail = "if rbb_tail r = SNode n then ?node else rbb_tail r"
  have lr: "list_remove n r = Some (r\<lparr>rbb_links := ?st, rbb_tail := ?tail\<rparr>)"
    using u(1,2) by (simp add: list_remove_def Let_def)
  have tail: "?tail = last_ptr (SHead BlkList) (us @ vs)"
    using rbb_invD(6) [OF inv] d(1) by (auto simp: last_ptr_cases last_append)
  have rep: "sl_repr ?st (rbb_tbl (us @ vs) fs)" using u(3) by simp
  have nl: "\<not> linked n (rbb_tbl (us @ vs) fs)" using d by auto
  let ?r = "(upd_blk n (\<lambda>b. b\<lparr>rb_status := RT_RBB_BLK_UNUSED\<rparr>) (r\<lparr>rbb_links := ?st, rbb_tail := ?tail\<rparr>))
    \<lparr>rbb_links := rt_slist_insert (SHead FreeList) n ?st\<rparr>"
  have e: "rt_rbb_blk_free n r = Some ?r"
    using lr rbb_invD(8) [OF inv, of n] by (simp add: rt_rbb_blk_free_def del: fun_upd_apply)
  have rep': "sl_repr (rbb_links ?r) (rbb_tbl (us @ vs) (n # fs))"
    using sl_insert [OF rep nl, of FreeList] by (simp add: tbl_insert_head_def del: fun_upd_apply) 
  have blk: "rbb_blk ?r = (rbb_blk r)(n := (rbb_blk r n)\<lparr>rb_status := RT_RBB_BLK_UNUSED\<rparr>)" by simp
  have b: "below ?r = below r" by (auto simp: below_def fun_eq_iff)
  obtain xs ys where s: "us @ n # vs = xs @ ys" "sorted_wrt (below r) (ys @ xs)" using rbb_invD(11) [OF inv] by blast
  have "\<exists>xs ys. us @ vs = xs @ ys \<and> sorted_wrt (below r) (ys @ xs)"
  proof (cases "length us < length xs")
    case True
    then obtain ws where w: "xs = us @ n # ws" "vs = ws @ ys"
      using s(1) by (auto simp: append_eq_append_conv2 append_eq_Cons_conv Cons_eq_append_conv)
    then show ?thesis using s(2) sorted_remove [of "below r" "ys @ us" n ws] by (intro exI [of _ "us @ ws"] exI [of _ ys]) simp
  next
    case False
    then obtain ws where w: "us = xs @ ws" "ys = ws @ n # vs"
      using s(1) by (auto simp: append_eq_append_conv2)
    then show ?thesis using s(2) sorted_remove [of "below r" ws n "vs @ xs"] by (intro exI [of _ xs] exI [of _ "ws @ vs"]) simp
  qed
  moreover have "\<forall>m \<in> set (us @ vs). rb_status (rbb_blk ?r m) \<noteq> RT_RBB_BLK_UNUSED \<and> inside ?r m"
    using rbb_invD(7,8) [OF inv] d(1) by (auto simp: inside_def)
  moreover have "\<forall>m \<in> set (n # fs). rb_status (rbb_blk ?r m) = RT_RBB_BLK_UNUSED" using rbb_invD(9) [OF inv] by auto
  ultimately have "rbb_inv ?r (us @ vs) (n # fs)"
    using rep' tail rbb_invD(10) [OF inv] b by (simp add: rbb_inv_def del: fun_upd_apply)
  then show ?thesis using e blk by (intro exI [of _ ?r]) simp
qed

section \<open>Queues of blocks\<close>

text \<open>The blocks a queue takes after the block \<open>l\<close>, when \<open>d\<close> bytes are taken already, and the whole queue.\<close>

fun taken :: "rt_rbb \<Rightarrow> u32 \<Rightarrow> nat \<Rightarrow> u32 \<Rightarrow> nat list \<Rightarrow> nat list" where
  "taken r len l d [] = []"
| "taken r len l d (n # ns) =
    (if rb_status (rbb_blk r n) = RT_RBB_BLK_PUT \<and> rb_buf (rbb_blk r l) \<le> rb_buf (rbb_blk r n) \<and>
        d + ucast (rb_size (rbb_blk r n)) \<le> len
     then n # taken r len n (d + ucast (rb_size (rbb_blk r n))) ns else [])"

definition queue_blocks :: "rt_rbb \<Rightarrow> u32 \<Rightarrow> nat list \<Rightarrow> nat list" where
  "queue_blocks r len bs =
    (case dropWhile (\<lambda>n. rb_status (rbb_blk r n) \<noteq> RT_RBB_BLK_PUT) bs of
       [] \<Rightarrow> [] | n # ns \<Rightarrow> n # taken r len n (ucast (rb_size (rbb_blk r n))) ns)"

text \<open>The blocks of the list behind those that the queue takes.\<close>

definition queue_rest :: "rt_rbb \<Rightarrow> u32 \<Rightarrow> nat list \<Rightarrow> nat list" where
  "queue_rest r len bs =
    (case dropWhile (\<lambda>n. rb_status (rbb_blk r n) \<noteq> RT_RBB_BLK_PUT) bs of
       [] \<Rightarrow> [] | n # ns \<Rightarrow> drop (length (taken r len n (ucast (rb_size (rbb_blk r n))) ns)) ns)"

definition sizes :: "rt_rbb \<Rightarrow> nat list \<Rightarrow> nat" where
  "sizes r ns = (\<Sum>n \<leftarrow> ns. unat (rb_size (rbb_blk r n)))"

definition sizes_w :: "rt_rbb \<Rightarrow> nat list \<Rightarrow> u32" where
  "sizes_w r ns = (\<Sum>n \<leftarrow> ns. ucast (rb_size (rbb_blk r n)))"

lemma mark_got_sel [simp]:
  "rbb_links (mark_got n r) = rbb_links r" "rbb_buf (mark_got n r) = rbb_buf r" "rbb_size (mark_got n r) = rbb_size r"
  "rb_buf (rbb_blk (mark_got n r) m) = rb_buf (rbb_blk r m)" "rb_size (rbb_blk (mark_got n r) m) = rb_size (rbb_blk r m)"
  "rb_status (rbb_blk (mark_got n r) m) = (if m = n then RT_RBB_BLK_GET else rb_status (rbb_blk r m))"
  by (simp_all add: mark_got_def)

lemma sizes_mark [simp]: "sizes_w (mark_got n r) ns = sizes_w r ns" "sizes (mark_got n r) ns = sizes r ns"
  by (simp_all add: sizes_w_def sizes_def)

lemma taken_mark: "n \<notin> set ns \<Longrightarrow> taken (mark_got n r) len l d ns = taken r len l d ns"
  by (induction ns arbitrary: l d) auto

lemma queue_loop_some:
  "path (rbb_links r) (SNode l) ns \<Longrightarrow> distinct ns \<Longrightarrow> ts = taken r len l d ns \<Longrightarrow>
   queue_get_loop len (rbb_links r (SNode l)) (Some l) d q r =
     (if drop (length ts) ns = [] then None
      else Some (d + sizes_w r ts, q\<lparr>q_num := q_num q + of_nat (length ts)\<rparr>, fold mark_got ts r))"
proof (induction ns arbitrary: l d q r ts)
  case Nil
  then show ?case by (subst queue_get_loop.simps) simp
next
  case (Cons n ns)
  let ?d = "d + ucast (rb_size (rbb_blk r n))"
  show ?case
  proof (cases "rb_status (rbb_blk r n) = RT_RBB_BLK_PUT \<and> rb_buf (rbb_blk r l) \<le> rb_buf (rbb_blk r n) \<and> ?d \<le> len")
    case True
    have p: "rbb_links r (SNode l) = Some n" "path (rbb_links (mark_got n r)) (SNode n) ns" "distinct ns" "n \<notin> set ns"
      using Cons.prems(1,2) by simp_all
    have ts: "ts = n # taken r len n ?d ns" using True Cons.prems(3) by simp
    have IH: "queue_get_loop len (rbb_links r (SNode n)) (Some n) ?d (q\<lparr>q_num := q_num q + 1\<rparr>) (mark_got n r) =
        (if drop (length (taken r len n ?d ns)) ns = [] then None else Some (?d + sizes_w r (taken r len n ?d ns),
          q\<lparr>q_num := q_num q + 1 + of_nat (length (taken r len n ?d ns))\<rparr>, fold mark_got (taken r len n ?d ns) (mark_got n r)))"
      using Cons.IH [OF p(2,3) refl, of ?d "q\<lparr>q_num := q_num q + 1\<rparr>"] taken_mark [OF p(4)] by simp
    have nt: "\<not> (rb_status (rbb_blk r n) \<noteq> RT_RBB_BLK_PUT \<or> rb_buf (rbb_blk r n) < rb_buf (rbb_blk r l) \<or> len < ?d)"
      using True by (auto simp: not_less)
    have "queue_get_loop len (Some n) (Some l) d q r =
        queue_get_loop len (rbb_links r (SNode n)) (Some n) ?d (q\<lparr>q_num := q_num q + 1\<rparr>) (mark_got n r)"
      by (subst queue_get_loop.simps) (simp only: option.case nt if_False rt_slist_next_def)
    then show ?thesis using IH p(1) by (simp add: ts sizes_w_def add.assoc)
  next
    case False
    then have "ts = []" using Cons.prems(3) by auto
    moreover have "rb_status (rbb_blk r n) \<noteq> RT_RBB_BLK_PUT \<or> rb_buf (rbb_blk r n) < rb_buf (rbb_blk r l) \<or> len < ?d"
      using False by (auto simp: not_le)
    ultimately show ?thesis using Cons.prems(1) by (subst queue_get_loop.simps) (simp add: sizes_w_def)
  qed
qed

lemma queue_loop_none:
  "path (rbb_links r) p ns \<Longrightarrow> distinct ns \<Longrightarrow> ts = queue_blocks r len ns \<Longrightarrow>
   queue_get_loop len (rbb_links r p) None 0 q r =
     (if queue_rest r len ns = [] then None
      else Some (sizes_w r ts, q\<lparr>q_blocks := Some (hd ts), q_num := of_nat (length ts)\<rparr>, fold mark_got ts r))"
proof (induction ns arbitrary: p)
  case Nil
  then show ?case by (subst queue_get_loop.simps) (simp add: queue_rest_def)
next
  case (Cons n ns)
  have p: "rbb_links r p = Some n" "path (rbb_links r) (SNode n) ns" "distinct ns" "n \<notin> set ns" using Cons.prems(1,2) by simp_all
  show ?case
  proof (cases "rb_status (rbb_blk r n) = RT_RBB_BLK_PUT")
    case True
    let ?t = "taken r len n (ucast (rb_size (rbb_blk r n))) ns"
    have ts: "ts = n # ?t" using True Cons.prems(3) by (simp add: queue_blocks_def)
    have rest: "queue_rest r len (n # ns) = drop (length ?t) ns" using True by (simp add: queue_rest_def)
    have "queue_get_loop len (rbb_links (mark_got n r) (SNode n)) (Some n) (ucast (rb_size (rbb_blk r n)))
        (q\<lparr>q_blocks := Some n, q_num := 1\<rparr>) (mark_got n r) =
      (if drop (length ?t) ns = [] then None else Some (ucast (rb_size (rbb_blk r n)) + sizes_w r ?t, q\<lparr>q_blocks := Some n, q_num := 1 + of_nat (length ?t)\<rparr>,
        fold mark_got ?t (mark_got n r)))"
      using queue_loop_some [of "mark_got n r" n ns ?t len "ucast (rb_size (rbb_blk r n))" "q\<lparr>q_blocks := Some n, q_num := 1\<rparr>"]
        p taken_mark [OF p(4)] by simp
    then show ?thesis using True p(1) by (subst queue_get_loop.simps) (simp add: ts rest rt_slist_next_def sizes_w_def)
  next
    case False
    then have "ts = queue_blocks r len ns" using Cons.prems(3) by (simp add: queue_blocks_def)
    moreover have "queue_rest r len (n # ns) = queue_rest r len ns" using False by (simp add: queue_rest_def)
    ultimately show ?thesis using Cons.IH [OF p(2,3)] False p(1) by (subst queue_get_loop.simps) (simp add: rt_slist_next_def)
  qed
qed

lemma queue_get_raw:
  assumes inv: "rbb_inv r bs fs" and ts: "ts = queue_blocks r len bs"
  shows "rt_rbb_blk_queue_get len q r =
     (if bs = [] then Some (0, q, r)
      else if queue_rest r len bs = [] then None
      else Some (sizes_w r ts, q\<lparr>q_blocks := Some (hd ts), q_num := of_nat (length ts)\<rparr>, fold mark_got ts r))"
proof (cases bs)
  case Nil
  then show ?thesis using rbb_invD(1) [OF inv] ts
    by (simp add: rt_rbb_blk_queue_get_def rt_slist_isempty_def)
next
  case (Cons n ns)
  then have "rbb_links r (SHead BlkList) = Some n" using rbb_invD(1) [OF inv] by simp
  then show ?thesis using queue_loop_none [OF rbb_invD(1,3) [OF inv] ts]
    by (simp add: rt_rbb_blk_queue_get_def rt_slist_isempty_def rt_slist_first_def Cons)
qed

text \<open>Of two blocks in use one lies below the other; in a queue it is the one that comes first.\<close>

lemma rbb_apart:
  assumes "rbb_inv r bs fs"
  shows "sorted_wrt (\<lambda>a b. below r a b \<or> below r b a) bs"
proof -
  obtain xs ys where s: "bs = xs @ ys" "sorted_wrt (below r) (ys @ xs)" using rbb_invD(11) [OF assms] by blast
  have "sorted_wrt (\<lambda>a b. below r a b \<or> below r b a) xs" "sorted_wrt (\<lambda>a b. below r a b \<or> below r b a) ys"
    using s(2) by (auto simp: sorted_wrt_append elim!: sorted_wrt_mono_rel [rotated])
  then show ?thesis using s by (auto simp: sorted_wrt_append)
qed

lemma apart:
  assumes "rbb_inv r bs fs" and "a \<in> set bs" and "b \<in> set bs" and "a \<noteq> b"
  shows "below r a b \<or> below r b a"
proof -
  have *: "below r a b \<or> below r b a"
    if "sorted_wrt (\<lambda>a b. below r a b \<or> below r b a) ns" "a \<in> set ns" "b \<in> set ns" "a \<noteq> b" for ns
    using that by (induction ns) auto
  show ?thesis by (rule * [OF rbb_apart [OF assms(1)] assms(2-4)])
qed

lemma later_below:
  assumes inv: "rbb_inv r bs fs" and l: "bs = us @ l # vs" and n: "n \<in> set vs" and le: "rb_buf (rbb_blk r l) \<le> rb_buf (rbb_blk r n)"
  shows "below r l n"
proof -
  have "below r l n \<or> below r n l" using rbb_apart [OF inv] n unfolding l by (auto simp: sorted_wrt_append)
  moreover have "0 < unat (rb_size (rbb_blk r n))" using rbb_invD(7) [OF inv, of n] n unfolding l by (auto simp: inside_def)
  ultimately show ?thesis using le by (auto simp: below_def word_le_nat_alt)
qed

text \<open>The sizes of the queue never wrap around, since its blocks lie one above the other in the buffer.\<close>

lemma size_unat: "unat (ucast x :: u32) = unat x" for x :: "24 word"
  using unsigned_less [of x, where 'a = nat] by (simp add: unsigned_ucast_eq take_bit_eq_mod)

lemma taken_step:
  fixes d :: u32
  assumes inv: "rbb_inv r bs fs" and l: "bs = us @ l # n # ns"
    and d: "unat (rbb_buf r) + unat d \<le> unat (rb_buf (rbb_blk r l)) + unat (rb_size (rbb_blk r l))"
    and le: "rb_buf (rbb_blk r l) \<le> rb_buf (rbb_blk r n)"
  shows "below r l n" "inside r n" "unat (d + ucast (rb_size (rbb_blk r n))) = unat d + unat (rb_size (rbb_blk r n))"
    "unat (rbb_buf r) + unat (d + ucast (rb_size (rbb_blk r n))) \<le> unat (rb_buf (rbb_blk r n)) + unat (rb_size (rbb_blk r n))"
proof -
  show b: "below r l n" by (rule later_below [OF inv l _ le]) simp
  show i: "inside r n" using rbb_invD(7) [OF inv] l by simp
  have "unat (rbb_buf r) + (unat d + unat (rb_size (rbb_blk r n))) \<le> unat (rb_buf (rbb_blk r n)) + unat (rb_size (rbb_blk r n))"
    using b d by (simp add: below_def)
  moreover from this have "unat d + unat (rb_size (rbb_blk r n)) < 2 ^ 32" using i rbb_invD(10) [OF inv] by (simp add: inside_def)
  then show "unat (d + ucast (rb_size (rbb_blk r n))) = unat d + unat (rb_size (rbb_blk r n))"
    using unat_word_ariths(1) [of d "ucast (rb_size (rbb_blk r n)) :: u32"] by (simp add: size_unat)
  ultimately show "unat (rbb_buf r) + unat (d + ucast (rb_size (rbb_blk r n))) \<le> unat (rb_buf (rbb_blk r n)) + unat (rb_size (rbb_blk r n))"
    by simp
qed

lemma sizes_Cons [simp]: "sizes r (n # ns) = unat (rb_size (rbb_blk r n)) + sizes r ns" "sizes r [] = 0"
  by (simp_all add: sizes_def)

lemma taken_props:
  assumes inv: "rbb_inv r bs fs"
  shows "bs = us @ l # ns \<Longrightarrow> unat (rbb_buf r) + unat d \<le> unat (rb_buf (rbb_blk r l)) + unat (rb_size (rbb_blk r l)) \<Longrightarrow>
    ts = taken r len l d ns \<Longrightarrow>
    ns = ts @ drop (length ts) ns \<and> sorted_wrt (below r) (l # ts) \<and> (\<forall>t \<in> set ts. rb_status (rbb_blk r t) = RT_RBB_BLK_PUT) \<and>
    unat (d + sizes_w r ts) = unat d + sizes r ts \<and> (ts = [] \<or> unat d + sizes r ts \<le> unat len)"
proof (induction ns arbitrary: us l d ts)
  case Nil
  then show ?case by (simp add: sizes_w_def)
next
  case (Cons n ns)
  let ?d = "d + ucast (rb_size (rbb_blk r n))"
  show ?case
  proof (cases "rb_status (rbb_blk r n) = RT_RBB_BLK_PUT \<and> rb_buf (rbb_blk r l) \<le> rb_buf (rbb_blk r n) \<and> ?d \<le> len")
    case True
    define ws where "ws = taken r len n ?d ns"
    have ts: "ts = n # ws" using True Cons.prems(3) by (simp add: ws_def)
    have st: "below r l n" "inside r n" "unat ?d = unat d + unat (rb_size (rbb_blk r n))"
      "unat (rbb_buf r) + unat ?d \<le> unat (rb_buf (rbb_blk r n)) + unat (rb_size (rbb_blk r n))"
      by (rule taken_step [OF inv Cons.prems(1,2)]; use True in simp)+
    have "bs = (us @ [l]) @ n # ns" using Cons.prems(1) by simp
    from Cons.IH [OF this st(4) ws_def] have
      I: "ns = ws @ drop (length ws) ns" "sorted_wrt (below r) (n # ws)" "\<forall>t \<in> set ws. rb_status (rbb_blk r t) = RT_RBB_BLK_PUT"
      "unat (?d + sizes_w r ws) = unat ?d + sizes r ws" "ws = [] \<or> unat ?d + sizes r ws \<le> unat len" by blast+
    moreover have "\<forall>w \<in> set ws. below r l w"
    proof
      fix w assume w: "w \<in> set ws"
      then have "below r n w" using I(2) by simp
      then show "below r l w" using st(1,2) by (simp add: below_def inside_def)
    qed
    moreover have "unat ?d \<le> unat len" using True by (simp add: word_le_nat_alt)
    ultimately show ?thesis using True ts st(1,3)
      by (auto simp: sizes_w_def add.assoc)
  next
    case False
    then have "ts = []" using Cons.prems(3) by auto
    then show ?thesis by (simp add: sizes_w_def)
  qed
qed

text \<open>It stops at a block that is not put, that lies below the last one, or for which there is no more room.\<close>

lemma taken_stops:
  assumes inv: "rbb_inv r bs fs"
  shows "bs = us @ l # ns \<Longrightarrow> unat (rbb_buf r) + unat d \<le> unat (rb_buf (rbb_blk r l)) + unat (rb_size (rbb_blk r l)) \<Longrightarrow>
    ts = taken r len l d ns \<Longrightarrow> drop (length ts) ns = v # vs \<Longrightarrow>
    rb_status (rbb_blk r v) \<noteq> RT_RBB_BLK_PUT \<or> rb_buf (rbb_blk r v) < rb_buf (rbb_blk r (last (l # ts))) \<or>
    unat len < unat d + sizes r ts + unat (rb_size (rbb_blk r v))"
proof (induction ns arbitrary: us l d ts)
  case (Cons n ns)
  let ?d = "d + ucast (rb_size (rbb_blk r n))"
  show ?case
  proof (cases "rb_status (rbb_blk r n) = RT_RBB_BLK_PUT \<and> rb_buf (rbb_blk r l) \<le> rb_buf (rbb_blk r n) \<and> ?d \<le> len")
    case True
    define ws where "ws = taken r len n ?d ns"
    have ts: "ts = n # ws" using True Cons.prems(3) by (simp add: ws_def)
    have st: "unat ?d = unat d + unat (rb_size (rbb_blk r n))"
      "unat (rbb_buf r) + unat ?d \<le> unat (rb_buf (rbb_blk r n)) + unat (rb_size (rbb_blk r n))"
      by (rule taken_step [OF inv Cons.prems(1,2)]; use True in simp)+
    have "bs = (us @ [l]) @ n # ns" using Cons.prems(1) by simp
    from Cons.IH [OF this st(2) ws_def] Cons.prems(4) show ?thesis using ts st(1) by (simp add: add.assoc)
  next
    case False
    then have "ts = []" using Cons.prems(3) by auto
    moreover from this have "v = n" using Cons.prems(4) by simp
    ultimately show ?thesis
      using False taken_step(3) [OF inv Cons.prems(1,2)] by (cases "rb_buf (rbb_blk r l) \<le> rb_buf (rbb_blk r n)") (auto simp: not_le word_less_nat_alt)
  qed
qed simp

lemma dropWhile_split: "dropWhile P bs = n # ns \<Longrightarrow> bs = takeWhile P bs @ n # ns \<and> \<not> P n"
  using takeWhile_dropWhile_id [of P bs] by (metis dropWhile_eq_Cons_conv)

lemma queue_blocks_ok:
  assumes inv: "rbb_inv r bs fs" and ts: "ts = queue_blocks r len bs" and vs: "vs = queue_rest r len bs"
  obtains us where "bs = us @ ts @ vs" "\<forall>u \<in> set us. rb_status (rbb_blk r u) \<noteq> RT_RBB_BLK_PUT" "sorted_wrt (below r) ts"
    "\<forall>t \<in> set ts. rb_status (rbb_blk r t) = RT_RBB_BLK_PUT" "unat (sizes_w r ts) = sizes r ts"
    "length ts \<le> 1 \<or> sizes r ts \<le> unat len" "ts = [] \<longrightarrow> vs = []"
    "\<forall>v ws. vs = v # ws \<longrightarrow> rb_status (rbb_blk r v) \<noteq> RT_RBB_BLK_PUT \<or> rb_buf (rbb_blk r v) < rb_buf (rbb_blk r (last ts)) \<or>
      unat len < sizes r ts + unat (rb_size (rbb_blk r v))"
proof (cases "dropWhile (\<lambda>n. rb_status (rbb_blk r n) \<noteq> RT_RBB_BLK_PUT) bs")
  case Nil
  have e: "ts = []" "vs = []" using ts vs Nil by (simp_all add: queue_blocks_def queue_rest_def)
  have "\<forall>b \<in> set bs. rb_status (rbb_blk r b) \<noteq> RT_RBB_BLK_PUT" using Nil by (simp add: dropWhile_eq_Nil_conv)
  then show ?thesis by (intro that [of bs]) (simp_all add: e sizes_w_def)
next
  case (Cons n ns)
  let ?P = "\<lambda>n. rb_status (rbb_blk r n) \<noteq> RT_RBB_BLK_PUT"
  define ws where "ws = taken r len n (ucast (rb_size (rbb_blk r n))) ns"
  have b: "bs = takeWhile ?P bs @ n # ns" "\<not> ?P n" using dropWhile_split [OF Cons] by simp_all
  have t: "ts = n # ws" "vs = drop (length ws) ns" using ts vs Cons by (simp_all add: queue_blocks_def queue_rest_def ws_def)
  have "n \<in> set bs" using b(1) by (metis in_set_conv_decomp)
  then have i: "inside r n" using rbb_invD(7) [OF inv] by simp
  then have le: "unat (rbb_buf r) + unat (ucast (rb_size (rbb_blk r n)) :: u32) \<le> unat (rb_buf (rbb_blk r n)) + unat (rb_size (rbb_blk r n))"
    by (simp add: inside_def size_unat)
  have I: "ns = ws @ vs" "sorted_wrt (below r) (n # ws)" "\<forall>t \<in> set ws. rb_status (rbb_blk r t) = RT_RBB_BLK_PUT"
    "unat (ucast (rb_size (rbb_blk r n)) + sizes_w r ws) = unat (rb_size (rbb_blk r n)) + sizes r ws"
    "ws = [] \<or> unat (rb_size (rbb_blk r n)) + sizes r ws \<le> unat len"
    using taken_props [OF inv b(1) le ws_def] t(2) unfolding size_unat by simp_all
  show ?thesis
  proof (rule that)
    show "bs = takeWhile ?P bs @ ts @ vs" using b(1) t(1) I(1) by simp
    show "\<forall>u \<in> set (takeWhile ?P bs). ?P u" by (auto dest: set_takeWhileD)
    show "unat (sizes_w r ts) = sizes r ts" using I(4) t(1) by (simp add: sizes_w_def)
    show "\<forall>v us. vs = v # us \<longrightarrow> rb_status (rbb_blk r v) \<noteq> RT_RBB_BLK_PUT \<or> rb_buf (rbb_blk r v) < rb_buf (rbb_blk r (last ts)) \<or>
        unat len < sizes r ts + unat (rb_size (rbb_blk r v))"
      using taken_stops [OF inv b(1) le ws_def] t unfolding size_unat by simp
  qed (use I t b(2) in auto)
qed

lemma fold_mark_inv:
  "rbb_inv r bs fs \<Longrightarrow> set ts \<subseteq> set bs \<Longrightarrow> rbb_inv (fold mark_got ts r) bs fs"
proof (induction ts arbitrary: r)
  case (Cons t ts)
  have "rbb_inv (mark_got t r) bs fs" using set_status_inv [OF Cons.prems(1)] Cons.prems(2) by (simp add: mark_got_def)
  then show ?case using Cons by simp
qed simp

lemma fold_mark_blk:
  "rbb_blk (fold mark_got ts r) n = (if n \<in> set ts then (rbb_blk r n)\<lparr>rb_status := RT_RBB_BLK_GET\<rparr> else rbb_blk r n)"
  "rbb_links (fold mark_got ts r) = rbb_links r" "rbb_buf (fold mark_got ts r) = rbb_buf r" "rbb_size (fold mark_got ts r) = rbb_size r"
  by (induction ts arbitrary: r) (auto simp: mark_got_def)

section \<open>Initialisation\<close>

lemma init_inv:
  assumes "unat buf + unat size1 < 2 ^ 32"
  shows "rbb_inv (rt_rbb_init buf size1 blocks links blk_max) [] (rev [0..<unat blk_max])"
    "n < unat blk_max \<Longrightarrow> rb_status (rbb_blk (rt_rbb_init buf size1 blocks links blk_max) n) = RT_RBB_BLK_UNUSED"
    "rbb_buf (rt_rbb_init buf size1 blocks links blk_max) = buf" "rbb_size (rt_rbb_init buf size1 blocks links blk_max) = size1"
proof -
  let ?r0 = "\<lparr>rbb_buf = buf, rbb_size = size1, rbb_blk = blocks, blk_max_num = blk_max,
    rbb_links = rt_slist_init (SHead FreeList) (rt_slist_init (SHead BlkList) links), rbb_tail = SHead BlkList\<rparr>"
  have *: "let r = fold rbb_init_blk [0..<k] ?r0
      in rbb_inv r [] (rev [0..<k]) \<and> (\<forall>n < k. rb_status (rbb_blk r n) = RT_RBB_BLK_UNUSED) \<and> rbb_buf r = buf \<and> rbb_size r = size1" for k
  proof (induction k)
    case 0
    have "sl_repr (rt_slist_init (SHead FreeList) (rt_slist_init (SHead BlkList) links)) (rbb_tbl [] [])"
      unfolding sl_repr_def tbl_wf_def rbb_tbl_def rt_slist_init_def by (auto split: rbb_head.split)
    then show ?case using assms by (simp add: rbb_inv_def)
  next
    case (Suc k)
    let ?r = "fold rbb_init_blk [0..<k] ?r0"
    have I: "rbb_inv ?r [] (rev [0..<k])" "\<forall>n < k. rb_status (rbb_blk ?r n) = RT_RBB_BLK_UNUSED" "rbb_buf ?r = buf" "rbb_size ?r = size1"
      using Suc.IH by (simp_all add: Let_def)
    let ?st = "rt_slist_init (SNode k) (rbb_links ?r)"
    have "path ?st (SHead h) (rbb_tbl [] (rev [0..<k]) h)" for h
    proof -
      have "path ?st (SHead h) (rbb_tbl [] (rev [0..<k]) h) = path (rbb_links ?r) (SHead h) (rbb_tbl [] (rev [0..<k]) h)"
        by (rule path_cong) (cases h; auto simp: rt_slist_init_def)
      then show ?thesis using I(1) by (simp add: rbb_inv_def sl_repr_def)
    qed
    then have s: "sl_repr ?st (rbb_tbl [] (rev [0..<k]))" using I(1) by (simp add: rbb_inv_def sl_repr_def)
    have "sl_repr (rt_slist_insert (SHead FreeList) k ?st) (rbb_tbl [] (k # rev [0..<k]))"
      using sl_insert [OF s, of k FreeList] by (simp add: tbl_insert_head_def)
    then have "rbb_inv (rbb_init_blk k ?r) [] (k # rev [0..<k])"
      using I(1,2) by (auto simp: rbb_inv_def rbb_init_blk_def Let_def)
    then show ?case using I by (simp add: Let_def) (auto simp: rbb_init_blk_def Let_def less_Suc_eq)
  qed
  from * [of "unat blk_max"] show "rbb_inv (rt_rbb_init buf size1 blocks links blk_max) [] (rev [0..<unat blk_max])"
    "n < unat blk_max \<Longrightarrow> rb_status (rbb_blk (rt_rbb_init buf size1 blocks links blk_max) n) = RT_RBB_BLK_UNUSED"
    "rbb_buf (rt_rbb_init buf size1 blocks links blk_max) = buf" "rbb_size (rt_rbb_init buf size1 blocks links blk_max) = size1"
    by (simp_all add: rt_rbb_init_def Let_def)
qed

section \<open>Runs of calls\<close>

text \<open>
  The calls of the users of the buffer: allocations of at least one byte and at most the whole buffer, and
  calls on blocks of the set. \<open>m\<close> is the number of descriptors.
\<close>

inductive rbb_step :: "nat \<Rightarrow> rt_rbb \<Rightarrow> rt_rbb \<Rightarrow> bool" for m where
  "0 < size1 \<Longrightarrow> size1 \<le> rbb_size r \<Longrightarrow> rt_rbb_blk_alloc size1 r = Some (b, r') \<Longrightarrow> rbb_step m r r'"
| "n < m \<Longrightarrow> rt_rbb_blk_put n r = Some r' \<Longrightarrow> rbb_step m r r'"
| "rt_rbb_blk_get r = Some (b, r') \<Longrightarrow> rbb_step m r r'"
| "n < m \<Longrightarrow> rt_rbb_blk_free n r = Some r' \<Longrightarrow> rbb_step m r r'"
| "rt_rbb_blk_queue_get len q r = Some (k, q', r') \<Longrightarrow> rbb_step m r r'"

definition rbb_ok :: "nat \<Rightarrow> u32 \<Rightarrow> u32 \<Rightarrow> rt_rbb \<Rightarrow> bool" where
  "rbb_ok m buf size1 r \<longleftrightarrow> rbb_buf r = buf \<and> rbb_size r = size1 \<and> (\<exists>bs fs. rbb_inv r bs fs \<and> set (bs @ fs) \<subseteq> {..<m} \<and>
     (\<forall>n < m. n \<notin> set bs \<longrightarrow> rb_status (rbb_blk r n) = RT_RBB_BLK_UNUSED))"

lemma rbb_okE:
  assumes "rbb_ok m buf size1 r"
  obtains bs fs where "rbb_buf r = buf" "rbb_size r = size1" "rbb_inv r bs fs" "set bs \<subseteq> {..<m}" "set fs \<subseteq> {..<m}"
    "\<And>n. n < m \<Longrightarrow> n \<notin> set bs \<Longrightarrow> rb_status (rbb_blk r n) = RT_RBB_BLK_UNUSED"
  using assms by (auto simp: rbb_ok_def)

lemma rbb_okI:
  assumes "rbb_inv r bs fs" and "set bs \<subseteq> {..<m}" and "set fs \<subseteq> {..<m}" and "rbb_buf r = buf" and "rbb_size r = size1"
    and "\<And>n. n < m \<Longrightarrow> n \<notin> set bs \<Longrightarrow> rb_status (rbb_blk r n) = RT_RBB_BLK_UNUSED"
  shows "rbb_ok m buf size1 r"
  using assms unfolding rbb_ok_def by (intro conjI exI [of _ bs] exI [of _ fs]) auto

lemma step_ok:
  assumes st: "rbb_step m r r'" and ok: "rbb_ok m buf size1 r"
  shows "rbb_ok m buf size1 r'"
proof -
  obtain bs fs where r: "rbb_buf r = buf" "rbb_size r = size1" and inv: "rbb_inv r bs fs" and s: "set bs \<subseteq> {..<m}" "set fs \<subseteq> {..<m}"
    and un: "\<And>n. n < m \<Longrightarrow> n \<notin> set bs \<Longrightarrow> rb_status (rbb_blk r n) = RT_RBB_BLK_UNUSED"
    using ok by (rule rbb_okE) blast
  from st show ?thesis
  proof cases
    case (1 z b)
    have lt: "z < 0x1000000" using 1(3) by (auto simp: rt_rbb_blk_alloc_def elim!: bind_SomeE)
    show ?thesis
    proof (cases fs)
      case Nil
      then show ?thesis using alloc_ok [OF inv 1(1) lt 1(2)] 1(3) ok by simp
    next
      case (Cons n fs')
      consider "rbb_inv r' (bs @ [n]) fs'" "rbb_buf r' = rbb_buf r" "rbb_size r' = rbb_size r" "\<And>k. k \<noteq> n \<Longrightarrow> rbb_blk r' k = rbb_blk r k"
        | "rbb_inv r' bs fs'" "rbb_buf r' = rbb_buf r" "rbb_size r' = rbb_size r" "rbb_blk r' = rbb_blk r"
        using alloc_ok [OF inv 1(1) lt 1(2)] 1(3) Cons by auto
      then show ?thesis
      proof cases
        case 1
        show ?thesis
          by (rule rbb_okI [OF 1(1)]) (use s Cons 1(2-4) r un in auto)
      next
        case 2
        show ?thesis by (rule rbb_okI [OF 2(1)]) (use s Cons 2(2-4) r un in auto)
      qed
    qed
  next
    case (2 n)
    then have e: "r' = upd_blk n (\<lambda>b. b\<lparr>rb_status := RT_RBB_BLK_PUT\<rparr>) r" "rb_status (rbb_blk r n) = RT_RBB_BLK_INITED"
      by (auto simp: rt_rbb_blk_put_def elim!: bind_SomeE)
    have n: "n \<in> set bs" using un [OF 2(1)] e(2) by auto
    have "rbb_inv r' bs fs" using set_status_inv [OF inv n, of RT_RBB_BLK_PUT] e(1) by simp
    then show ?thesis by (rule rbb_okI) (use s r un n e(1) in auto)
  next
    case (3 b)
    show ?thesis
    proof (cases "find (\<lambda>m. rb_status (rbb_blk r m) = RT_RBB_BLK_PUT) bs")
      case None
      then show ?thesis using 3 blk_get_ok [OF inv] ok by simp
    next
      case (Some n)
      have e: "r' = mark_got n r" using 3 blk_get_ok [OF inv] Some by simp
      have n: "n \<in> set bs" using find_in [OF Some] by simp
      have "rbb_inv r' bs fs" using set_status_inv [OF inv n] e by (simp add: mark_got_def)
      then show ?thesis by (rule rbb_okI) (use s r un n e in auto)
    qed
  next
    case (4 n)
    have "rb_status (rbb_blk r n) \<noteq> RT_RBB_BLK_UNUSED" using 4(2) by (auto simp: rt_rbb_blk_free_def elim!: bind_SomeE)
    then have "n \<in> set bs" using un [OF 4(1)] by auto
    then obtain us vs where b: "bs = us @ n # vs" by (meson split_list)
    have f: "rbb_inv r' (us @ vs) (n # fs)" "rbb_buf r' = rbb_buf r" "rbb_size r' = rbb_size r"
      "rbb_blk r' = (rbb_blk r)(n := (rbb_blk r n)\<lparr>rb_status := RT_RBB_BLK_UNUSED\<rparr>)"
      using blk_free_ok [OF inv [unfolded b]] 4(2) by auto
    show ?thesis by (rule rbb_okI [OF f(1)]) (use s r un 4(1) b f(2-4) in auto)
  next
    case (5 len q k q')
    define ts where "ts = (if bs = [] then [] else queue_blocks r len bs)"
    have e: "r' = fold mark_got ts r" using 5 queue_get_raw [OF inv refl, of len q] by (auto simp: ts_def split: if_splits)
    obtain us where "bs = us @ queue_blocks r len bs @ queue_rest r len bs" using queue_blocks_ok [OF inv refl refl] by metis
    from arg_cong [OF this, of set] have t: "set ts \<subseteq> set bs" by (auto simp: ts_def)
    have "rbb_inv r' bs fs" using fold_mark_inv [OF inv t] e by simp
    then show ?thesis by (rule rbb_okI) (use s r un t e in \<open>auto simp: fold_mark_blk\<close>)
  qed
qed

lemma steps_ok: "(rbb_step m)\<^sup>*\<^sup>* r r' \<Longrightarrow> rbb_ok m buf size1 r \<Longrightarrow> rbb_ok m buf size1 r'"
  by (induction rule: rtranclp_induct) (auto intro: step_ok)

lemma rbb_init_ok: "unat buf + unat size1 < 2 ^ 32 \<Longrightarrow> rbb_ok (unat blk_max) buf size1 (rt_rbb_init buf size1 blocks links blk_max)"
  by (rule rbb_okI [OF init_inv(1)]) (auto simp: init_inv(2-4))

section \<open>Queues\<close>

lemma queue_len_ok:
  "path (rbb_links r) (SNode n) (ns @ vs) \<Longrightarrow> queue_len_loop (Suc (length ns)) (Some n) d r = Some (d + sizes_w r (n # ns))"
proof (induction ns arbitrary: n d)
  case (Cons m ns)
  have "queue_len_loop (Suc (length ns)) (Some m) (d + ucast (rb_size (rbb_blk r n))) r =
      Some (d + ucast (rb_size (rbb_blk r n)) + sizes_w r (m # ns))"
    using Cons by simp
  then show ?case using Cons.prems by (simp add: sizes_w_def add.assoc del: queue_len_loop.simps) (simp add: add.assoc)
qed (simp add: sizes_w_def)

lemma queue_free_ok:
  "rbb_inv r (us @ n # ns @ vs) fs \<Longrightarrow>
    \<exists>r'. queue_free_loop (Suc (length ns)) (Some n) r = Some r' \<and> rbb_inv r' (us @ vs) (rev (n # ns) @ fs) \<and>
      rbb_buf r' = rbb_buf r \<and> rbb_size r' = rbb_size r"
proof (induction ns arbitrary: n r fs)
  case Nil
  then show ?case using blk_free_ok [OF Nil [simplified]] by auto
next
  case (Cons m ns)
  obtain r1 where r1: "rt_rbb_blk_free n r = Some r1" "rbb_inv r1 (us @ m # ns @ vs) (n # fs)"
    "rbb_buf r1 = rbb_buf r" "rbb_size r1 = rbb_size r"
    using blk_free_ok [OF Cons.prems [simplified]] by auto
  have "rbb_links r (SNode n) = Some m" using path_rest [OF rbb_invD(1) [OF Cons.prems]] by simp
  then have "queue_free_loop (Suc (length (m # ns))) (Some n) r = queue_free_loop (Suc (length ns)) (Some m) r1"
    using r1(1) by (simp add: Let_def)
  then show ?case using Cons.IH [OF r1(2)] r1(3,4) by auto
qed

lemma next_loop_some:
  "path (rbb_links r) (SNode l) ns \<Longrightarrow>
    next_queue_loop r (rbb_links r (SNode l)) (Some l) d = Some (d + sizes_w r (taken r (- 1) l d ns))"
proof (induction ns arbitrary: l d)
  case Nil
  then show ?case by (subst next_queue_loop.simps) (simp add: sizes_w_def)
next
  case (Cons n ns)
  then show ?case
    by (subst next_queue_loop.simps) (auto simp: sizes_w_def rt_slist_next_def not_less add.assoc)
qed

lemma next_loop_none:
  "path (rbb_links r) p ns \<Longrightarrow> next_queue_loop r (rbb_links r p) None 0 = Some (sizes_w r (queue_blocks r (- 1) ns))"
proof (induction ns arbitrary: p)
  case Nil
  then show ?case by (subst next_queue_loop.simps) (simp add: sizes_w_def queue_blocks_def)
next
  case (Cons n ns)
  then show ?case using next_loop_some [of r n ns "ucast (rb_size (rbb_blk r n))"]
    by (subst next_queue_loop.simps) (auto simp: sizes_w_def rt_slist_next_def queue_blocks_def)
qed

section \<open>Reachable states\<close>

lemma reach_inv:
  assumes "unat buf + unat size1 < 2 ^ 32" and "(rbb_step (unat blk_max))\<^sup>*\<^sup>* (rt_rbb_init buf size1 blocks links blk_max) r"
  obtains bs fs where "rbb_inv r bs fs" "set bs \<subseteq> {..<unat blk_max}"
    "\<And>n. n < unat blk_max \<Longrightarrow> n \<notin> set bs \<Longrightarrow> rb_status (rbb_blk r n) = RT_RBB_BLK_UNUSED" "rbb_buf r = buf" "rbb_size r = size1"
proof -
  have "rbb_ok (unat blk_max) buf size1 r" by (rule steps_ok [OF assms(2) rbb_init_ok [OF assms(1)]])
  then show thesis by (rule rbb_okE) (rule that)
qed

lemma reach_blocks:
  assumes "unat buf + unat size1 < 2 ^ 32" and "(rbb_step (unat blk_max))\<^sup>*\<^sup>* (rt_rbb_init buf size1 blocks links blk_max) r"
    and "path (rbb_links r) (SHead BlkList) bs" and "path (rbb_links r) (SHead FreeList) fs"
  shows "rbb_inv r bs fs" "set bs \<subseteq> {..<unat blk_max}" "rbb_size r = size1"
proof -
  obtain bs' fs' where i: "rbb_inv r bs' fs'" "set bs' \<subseteq> {..<unat blk_max}" "rbb_size r = size1"
    using reach_inv [OF assms(1,2)] by metis
  have "bs = bs'" "fs = fs'" using path_unique assms(3,4) rbb_invD(1,2) [OF i(1)] by blast+
  then show "rbb_inv r bs fs" "set bs \<subseteq> {..<unat blk_max}" "rbb_size r = size1" using i by simp_all
qed

lemma blocks_few: "rbb_inv r bs fs \<Longrightarrow> set bs \<subseteq> {..<unat (k :: u32)} \<Longrightarrow> length bs < 2 ^ 32"
proof -
  assume a: "rbb_inv r bs fs" "set bs \<subseteq> {..<unat k}"
  have "length bs \<le> unat k" using distinct_card [OF rbb_invD(3) [OF a(1)]] card_mono [OF _ a(2)] by simp
  also have "\<dots> < 2 ^ 32" using unsigned_less [of k, where 'a = nat] by simp
  finally show ?thesis .
qed

section \<open>Properties\<close>

text \<open>
  C36: Whatever sequence of calls follows the initialisation, as long as each allocation asks for at least a byte and
  at most the whole buffer and each call returns, every block in use lies inside the buffer,
  and no two of them overlap.
\<close>

theorem rbb_blocks_safe:
  assumes "unat buf + unat size1 < 2 ^ 32" and "(rbb_step (unat blk_max))\<^sup>*\<^sup>* (rt_rbb_init buf size1 blocks links blk_max) r"
    and "n < unat blk_max" and "rb_status (rbb_blk r n) \<noteq> RT_RBB_BLK_UNUSED"
  shows "unat buf \<le> unat (rb_buf (rbb_blk r n)) \<and> 0 < unat (rb_size (rbb_blk r n)) \<and>
    unat (rb_buf (rbb_blk r n)) + unat (rb_size (rbb_blk r n)) \<le> unat buf + unat size1 \<and>
    (\<forall>m < unat blk_max. m \<noteq> n \<longrightarrow> rb_status (rbb_blk r m) \<noteq> RT_RBB_BLK_UNUSED \<longrightarrow>
       unat (rb_buf (rbb_blk r n)) + unat (rb_size (rbb_blk r n)) \<le> unat (rb_buf (rbb_blk r m)) \<or>
       unat (rb_buf (rbb_blk r m)) + unat (rb_size (rbb_blk r m)) \<le> unat (rb_buf (rbb_blk r n)))"
proof -
  obtain bs fs where i: "rbb_inv r bs fs" "rbb_buf r = buf" "rbb_size r = size1"
    and u: "\<And>k. k < unat blk_max \<Longrightarrow> k \<notin> set bs \<Longrightarrow> rb_status (rbb_blk r k) = RT_RBB_BLK_UNUSED"
    using reach_inv [OF assms(1,2)] by metis
  have n: "n \<in> set bs" using u assms(3,4) by blast
  have "below r n m \<or> below r m n" if "m < unat blk_max" "m \<noteq> n" "rb_status (rbb_blk r m) \<noteq> RT_RBB_BLK_UNUSED" for m
    using u [OF that(1)] that(2,3) apart [OF i(1) n, of m] by blast
  then show ?thesis using rbb_invD(7) [OF i(1) n] i(2,3) unfolding inside_def below_def by blast
qed

text \<open>
  C39: An allocation of \<open>z\<close> bytes, at least one and at most the whole buffer, on every branch. With no free
  descriptor there is no block. Otherwise the first free descriptor is taken; when the buffer has room behind the last block
  (up to its end, or up to the first block once the blocks have wrapped around) or, if they have not wrapped around,
  at its start, the block is there, of the size asked for, the last of the list; when it has none, no block is
  returned, and the descriptor is in neither list from then on.
\<close>

theorem rbb_alloc_branches:
  assumes "unat buf + unat size1 < 2 ^ 32" and "(rbb_step (unat blk_max))\<^sup>*\<^sup>* (rt_rbb_init buf size1 blocks links blk_max) r"
    and "path (rbb_links r) (SHead BlkList) bs" and "path (rbb_links r) (SHead FreeList) fs"
    and "0 < z" and "z < 0x1000000" and "z \<le> size1"
  shows "case fs of
      [] \<Rightarrow> rt_rbb_blk_alloc z r = Some (None, r)
    | n # fs' \<Rightarrow> n \<notin> set bs \<and> n \<notin> set fs' \<and>
        (case room_place r bs (unat z) of
           Some a \<Rightarrow> \<exists>r'. rt_rbb_blk_alloc z r = Some (Some n, r') \<and> path (rbb_links r') (SHead BlkList) (bs @ [n]) \<and>
             path (rbb_links r') (SHead FreeList) fs' \<and> unat (rt_rbb_blk_buf n r') = a \<and> rt_rbb_blk_size n r' = z \<and>
             rb_status (rbb_blk r' n) = RT_RBB_BLK_INITED \<and> (\<forall>m. m \<noteq> n \<longrightarrow> rbb_blk r' m = rbb_blk r m)
         | None \<Rightarrow> bs \<noteq> [] \<and> (\<exists>r'. rt_rbb_blk_alloc z r = Some (None, r') \<and> path (rbb_links r') (SHead BlkList) bs \<and>
             path (rbb_links r') (SHead FreeList) fs' \<and> rbb_blk r' = rbb_blk r))"
proof -
  have i: "rbb_inv r bs fs" and z: "z \<le> rbb_size r" using reach_blocks [OF assms(1-4)] assms(7) by simp_all
  show ?thesis
  proof (cases fs)
    case Nil
    then show ?thesis using alloc_ok [OF i assms(5,6) z] by simp
  next
    case (Cons n fs')
    have n: "n \<notin> set bs" "n \<notin> set fs'" using rbb_invD(4,5) [OF i] Cons by auto
    consider (some) r' where "rt_rbb_blk_alloc z r = Some (Some n, r')" "rbb_inv r' (bs @ [n]) fs'"
        "room_place r bs (unat z) = Some (unat (rb_buf (rbb_blk r' n)))"
        "rb_status (rbb_blk r' n) = RT_RBB_BLK_INITED" "unat (rb_size (rbb_blk r' n)) = unat z" "\<forall>m. m \<noteq> n \<longrightarrow> rbb_blk r' m = rbb_blk r m"
      | (none) r' where "bs \<noteq> []" "rt_rbb_blk_alloc z r = Some (None, r')" "room_place r bs (unat z) = None"
        "rbb_inv r' bs fs'" "rbb_blk r' = rbb_blk r"
      using alloc_ok [OF i assms(5,6) z] unfolding Cons list.case by blast
    then show ?thesis
    proof cases
      case some
      have "rt_rbb_blk_size n r' = z" using some(5) size_unat [of "rb_size (rbb_blk r' n)"]
        by (simp add: rt_rbb_blk_size_def word_unat_eq_iff)
      then show ?thesis unfolding Cons list.case some(3) option.case rt_rbb_blk_buf_def
        using some rbb_invD(1,2) [OF some(2)] n by blast
    next
      case none
      then show ?thesis unfolding Cons list.case none(3) option.case using rbb_invD(1,2) [OF none(4)] n by blast
    qed
  qed
qed

text \<open>
  C37: \<open>rt_rbb_blk_queue_get\<close> takes a run of blocks that follow each other in the list, from the first block that was
  put on, all of them put, at ascending addresses, and more than one block only within the length asked for. The run is as
  long as it can be: it stops at a block that is not put, that lies below the last one or for which the length
  has no room. The blocks of the run are marked and the sum of their sizes is returned. But when the run, or the search for
  its first block, reaches the end of the list, the code reads through a null pointer.
\<close>

theorem rbb_queue_get:
  assumes "unat buf + unat size1 < 2 ^ 32" and "(rbb_step (unat blk_max))\<^sup>*\<^sup>* (rt_rbb_init buf size1 blocks links blk_max) r"
    and "path (rbb_links r) (SHead BlkList) bs" and "path (rbb_links r) (SHead FreeList) fs"
  shows "\<exists>us ts vs. bs = us @ ts @ vs \<and>
    (\<forall>u \<in> set us. rb_status (rbb_blk r u) \<noteq> RT_RBB_BLK_PUT) \<and> (\<forall>t \<in> set ts. rb_status (rbb_blk r t) = RT_RBB_BLK_PUT) \<and>
    sorted_wrt (below r) ts \<and> (length ts \<le> 1 \<or> (\<Sum>t \<leftarrow> ts. unat (rb_size (rbb_blk r t))) \<le> unat len) \<and>
    (case vs of
       [] \<Rightarrow> rt_rbb_blk_queue_get len q r = (if bs = [] then Some (0, q, r) else None)
     | v # _ \<Rightarrow>
         ts \<noteq> [] \<and>
         (rb_status (rbb_blk r v) \<noteq> RT_RBB_BLK_PUT \<or> rb_buf (rbb_blk r v) < rb_buf (rbb_blk r (last ts)) \<or>
          unat len < (\<Sum>t \<leftarrow> ts. unat (rb_size (rbb_blk r t))) + unat (rb_size (rbb_blk r v))) \<and>
         (\<exists>k q' r'. rt_rbb_blk_queue_get len q r = Some (k, q', r') \<and> unat k = (\<Sum>t \<leftarrow> ts. unat (rb_size (rbb_blk r t))) \<and>
            q_blocks q' = Some (hd ts) \<and> unat (q_num q') = length ts \<and> rbb_links r' = rbb_links r \<and>
            (\<forall>n. rbb_blk r' n = (if n \<in> set ts then (rbb_blk r n)\<lparr>rb_status := RT_RBB_BLK_GET\<rparr> else rbb_blk r n))))"
proof -
  have i: "rbb_inv r bs fs" "set bs \<subseteq> {..<unat blk_max}" using reach_blocks [OF assms(1-4)] by simp_all
  let ?ts = "queue_blocks r len bs" and ?vs = "queue_rest r len bs"
  note g = queue_get_raw [OF i(1) refl, of len q]
  obtain us where b: "bs = us @ ?ts @ ?vs" "\<forall>u \<in> set us. rb_status (rbb_blk r u) \<noteq> RT_RBB_BLK_PUT" "sorted_wrt (below r) ?ts"
    "\<forall>t \<in> set ?ts. rb_status (rbb_blk r t) = RT_RBB_BLK_PUT" and k: "unat (sizes_w r ?ts) = sizes r ?ts"
    and l: "length ?ts \<le> 1 \<or> sizes r ?ts \<le> unat len" and e: "?ts = [] \<longrightarrow> ?vs = []"
    and m: "\<forall>v ws. ?vs = v # ws \<longrightarrow> rb_status (rbb_blk r v) \<noteq> RT_RBB_BLK_PUT \<or> rb_buf (rbb_blk r v) < rb_buf (rbb_blk r (last ?ts)) \<or>
      unat len < sizes r ?ts + unat (rb_size (rbb_blk r v))"
    by (rule queue_blocks_ok [OF i(1) refl refl, of len])
  have "length (us @ ?ts @ ?vs) < 2 ^ 32" using blocks_few [OF i] b(1) by simp
  then have n: "unat (of_nat (length ?ts) :: u32) = length ?ts" by (simp add: unsigned_of_nat take_bit_nat_eq_self)
  show ?thesis
  proof (rule exI [of _ us], rule exI [of _ ?ts], rule exI [of _ ?vs], intro conjI)
    show "case ?vs of
       [] \<Rightarrow> rt_rbb_blk_queue_get len q r = (if bs = [] then Some (0, q, r) else None)
     | v # _ \<Rightarrow>
         ?ts \<noteq> [] \<and>
         (rb_status (rbb_blk r v) \<noteq> RT_RBB_BLK_PUT \<or> rb_buf (rbb_blk r v) < rb_buf (rbb_blk r (last ?ts)) \<or>
          unat len < (\<Sum>t \<leftarrow> ?ts. unat (rb_size (rbb_blk r t))) + unat (rb_size (rbb_blk r v))) \<and>
         (\<exists>k q' r'. rt_rbb_blk_queue_get len q r = Some (k, q', r') \<and> unat k = (\<Sum>t \<leftarrow> ?ts. unat (rb_size (rbb_blk r t))) \<and>
            q_blocks q' = Some (hd ?ts) \<and> unat (q_num q') = length ?ts \<and> rbb_links r' = rbb_links r \<and>
            (\<forall>n. rbb_blk r' n = (if n \<in> set ?ts then (rbb_blk r n)\<lparr>rb_status := RT_RBB_BLK_GET\<rparr> else rbb_blk r n)))"
    proof (cases ?vs)
      case Nil
      then show ?thesis using g by simp
    next
      case (Cons v ws)
      then have "bs \<noteq> []" "?ts \<noteq> []" using b(1) e by auto
      moreover from this have "rt_rbb_blk_queue_get len q r =
          Some (sizes_w r ?ts, q\<lparr>q_blocks := Some (hd ?ts), q_num := of_nat (length ?ts)\<rparr>, fold mark_got ?ts r)"
        using g Cons by simp
      ultimately show ?thesis using m [rule_format, OF Cons] k n unfolding Cons list.case sizes_def by (simp add: fold_mark_blk)
    qed
  qed (use b l in \<open>simp_all add: sizes_def\<close>)
qed

text \<open>
  C38: A queue that was got reads back as what was got: its length and its address are those
  of its blocks, and when it is freed exactly its blocks leave the list of the blocks in use for the free list.
\<close>

theorem rbb_queue_round_trip:
  assumes "unat buf + unat size1 < 2 ^ 32" and "(rbb_step (unat blk_max))\<^sup>*\<^sup>* (rt_rbb_init buf size1 blocks links blk_max) r"
    and "path (rbb_links r) (SHead BlkList) bs" and "path (rbb_links r) (SHead FreeList) fs"
    and "rt_rbb_blk_queue_get len q r = Some (k, q', r')" and "k \<noteq> 0"
  shows "rt_rbb_blk_queue_len q' r' = Some k \<and>
    (\<exists>us t ts vs r''. bs = us @ (t # ts) @ vs \<and> rt_rbb_blk_queue_buf q' r' = Some (rb_buf (rbb_blk r t)) \<and>
       k = (\<Sum>n \<leftarrow> t # ts. rt_rbb_blk_size n r) \<and>
       rt_rbb_blk_queue_free q' r' = Some r'' \<and> path (rbb_links r'') (SHead BlkList) (us @ vs) \<and>
       path (rbb_links r'') (SHead FreeList) (rev (t # ts) @ fs))"
proof -
  have i: "rbb_inv r bs fs" "set bs \<subseteq> {..<unat blk_max}" using reach_blocks [OF assms(1-4)] by simp_all
  define ts where "ts = queue_blocks r len bs"
  define vs where "vs = queue_rest r len bs"
  note g = queue_get_raw [OF i(1) ts_def, of q]
  have k: "k = sizes_w r ts" and q: "q' = q\<lparr>q_blocks := Some (hd ts), q_num := of_nat (length ts)\<rparr>"
    and r': "r' = fold mark_got ts r" using g assms(5,6) by (auto split: if_splits)
  obtain us where b: "bs = us @ ts @ vs" using queue_blocks_ok [OF i(1) ts_def vs_def] by metis
  have "ts \<noteq> []" using assms(6) k by (auto simp: sizes_w_def)
  then obtain t ts' where t: "ts = t # ts'" by (cases ts) auto
  have "length ts < 2 ^ 32" using blocks_few [OF i] b by simp
  then have "unat (of_nat (length ts) :: u32) = length ts" by (simp add: unsigned_of_nat take_bit_nat_eq_self)
  moreover have "q_num q' = of_nat (length ts)" "q_blocks q' = Some t" using q t by simp_all
  ultimately have l: "unat (q_num q') = Suc (length ts')" "q_blocks q' = Some t" using t by simp_all
  have i': "rbb_inv r' (us @ t # ts' @ vs) fs" using fold_mark_inv [OF i(1), of ts] b t r' by auto
  have s: "sizes_w r' ns = sizes_w r ns" for ns by (simp add: sizes_w_def r' fold_mark_blk if_distrib cong: if_cong)
  have len: "rt_rbb_blk_queue_len q' r' = Some k"
    using queue_len_ok [OF path_rest [OF rbb_invD(1) [OF i']], of 0] l k s t by (simp add: rt_rbb_blk_queue_len_def)
  have buf: "rt_rbb_blk_queue_buf q' r' = Some (rb_buf (rbb_blk r t))" using l(2) by (simp add: rt_rbb_blk_queue_buf_def r' fold_mark_blk)
  obtain r'' where f: "rt_rbb_blk_queue_free q' r' = Some r''" "rbb_inv r'' (us @ vs) (rev (t # ts') @ fs)"
    using queue_free_ok [OF i'] l unfolding rt_rbb_blk_queue_free_def by metis
  have "k = (\<Sum>n \<leftarrow> t # ts'. rt_rbb_blk_size n r)" using k t by (simp add: sizes_w_def rt_rbb_blk_size_def)
  then show ?thesis using len buf f(1) rbb_invD(1,2) [OF f(2)] b t by blast
qed

text \<open>
  \<open>rt_rbb_next_blk_queue_len\<close> is the length of the queue that \<open>rt_rbb_blk_queue_get\<close> takes when the length
  is not limited, if that call returns.
\<close>

theorem rbb_next_queue_len:
  assumes "unat buf + unat size1 < 2 ^ 32" and "(rbb_step (unat blk_max))\<^sup>*\<^sup>* (rt_rbb_init buf size1 blocks links blk_max) r"
    and "rt_rbb_blk_queue_get 0xFFFFFFFF q r = Some (k, q', r')"
  shows "rt_rbb_next_blk_queue_len r = Some k"
proof -
  obtain bs fs where i: "rbb_inv r bs fs" using reach_inv [OF assms(1,2)] by metis
  have m: "0xFFFFFFFF = (- 1 :: u32)" by simp
  have "rt_rbb_next_blk_queue_len r = Some (if bs = [] then 0 else sizes_w r (queue_blocks r (- 1) bs))"
  proof (cases bs)
    case Nil
    then have "rbb_links r (SHead BlkList) = None" using rbb_invD(1) [OF i] by simp
    then show ?thesis using Nil by (simp add: rt_rbb_next_blk_queue_len_def rt_slist_isempty_def)
  next
    case (Cons n ns)
    then have "rbb_links r (SHead BlkList) = Some n" using rbb_invD(1) [OF i] by simp
    then show ?thesis using next_loop_none [OF rbb_invD(1) [OF i]] Cons
      by (simp add: rt_rbb_next_blk_queue_len_def rt_slist_isempty_def rt_slist_first_def)
  qed
  then show ?thesis using assms(3) queue_get_raw [OF i refl, of "- 1" q] unfolding m by (auto split: if_splits)
qed

text \<open>
  The queue got is not always continuous: when \<open>b\<close>, put between \<open>a\<close> and \<open>c\<close>, is freed first, the queue has \<open>a\<close> and
  then \<open>c\<close>, and the bytes of \<open>b\<close> lie between the two.
\<close>

lemma rbb_queue_not_continuous:
  assumes inv: "rbb_inv r (a # b # c # d # vs) fs" "length vs < 2 ^ 31"
    and put: "rb_status (rbb_blk r a) = RT_RBB_BLK_PUT" "rb_status (rbb_blk r c) = RT_RBB_BLK_PUT" "rb_status (rbb_blk r d) = RT_RBB_BLK_INITED"
    and up: "rb_buf (rbb_blk r a) < rb_buf (rbb_blk r b)" "rb_buf (rbb_blk r b) < rb_buf (rbb_blk r c)"
    and room: "unat (rb_size (rbb_blk r a)) + unat (rb_size (rbb_blk r c)) \<le> unat len"
  shows "\<exists>r1 k q' r'. rt_rbb_blk_free b r = Some r1 \<and> rt_rbb_blk_queue_get len q r1 = Some (k, q', r') \<and>
    unat k = unat (rb_size (rbb_blk r a)) + unat (rb_size (rbb_blk r c)) \<and> q_num q' = 2 \<and>
    rt_rbb_blk_queue_buf q' r' = Some (rb_buf (rbb_blk r a)) \<and> rb_status (rbb_blk r' c) = RT_RBB_BLK_GET \<and>
    unat (rb_buf (rbb_blk r a)) + unat (rb_size (rbb_blk r a)) + unat (rb_size (rbb_blk r b)) \<le> unat (rb_buf (rbb_blk r' c)) \<and>
    0 < unat (rb_size (rbb_blk r b))"
proof -
  obtain r1 where r1: "rt_rbb_blk_free b r = Some r1" "rbb_inv r1 (a # c # d # vs) (b # fs)"
    "rbb_blk r1 = (rbb_blk r)(b := (rbb_blk r b)\<lparr>rb_status := RT_RBB_BLK_UNUSED\<rparr>)"
    using blk_free_ok [of r "[a]" b "c # d # vs" fs] inv(1) by auto
  have d: "b \<noteq> a" "c \<noteq> a" "d \<noteq> a" "b \<noteq> c" "d \<noteq> c" "d \<noteq> b" using rbb_invD(3) [OF inv(1)] by auto
  have bl: "below r a b" "below r b c"
    using later_below [OF inv(1), of "[]" a _ b] later_below [OF inv(1), of "[a]" b _ c] up by simp_all
  have bi: "inside r1 a" "inside r b" using rbb_invD(7) [OF r1(2)] rbb_invD(7) [OF inv(1)] by simp_all
  have ac: "rb_buf (rbb_blk r a) \<le> rb_buf (rbb_blk r c)" using up by simp
  then have ac': "unat (rb_buf (rbb_blk r a)) \<le> unat (rb_buf (rbb_blk r c))" by (simp add: word_le_nat_alt)
  have dt: "unat (ucast (rb_size (rbb_blk r1 a)) + ucast (rb_size (rbb_blk r1 c)) :: u32) =
      unat (rb_size (rbb_blk r1 a)) + unat (rb_size (rbb_blk r1 c))"
    using taken_step(3) [OF r1(2), of "[]" a c _ "ucast (rb_size (rbb_blk r1 a))"] bi(1) d ac r1(3)
    by (simp add: inside_def size_unat)
  have t: "queue_blocks r1 len (a # c # d # vs) = [a, c]" "queue_rest r1 len (a # c # d # vs) = d # vs"
    using put ac' d room r1(3) dt by (simp_all add: queue_blocks_def queue_rest_def word_le_nat_alt)
  have "unat (sizes_w r1 [a, c]) = sizes r1 [a, c]" using dt by (simp add: sizes_w_def)
  then show ?thesis
    using r1(1) queue_get_raw [OF r1(2) refl, of len q] t bl bi(2) d r1(3)
    by (auto simp: rt_rbb_blk_queue_buf_def mark_got_def below_def inside_def)
qed

section \<open>A run\<close>

text \<open>Four blocks are cut from a buffer of 20 bytes, three are put, the second one is freed before the others are got.\<close>

definition alloc_put :: "u32 \<Rightarrow> nat \<Rightarrow> rt_rbb \<Rightarrow> rt_rbb option" where
  "alloc_put z n r = do { (_, r) \<leftarrow> rt_rbb_blk_alloc z r; rt_rbb_blk_put n r }"

definition ex_init :: rt_rbb where
  "ex_init = rt_rbb_init 100 20 (\<lambda>_. \<lparr>rb_status = RT_RBB_BLK_GET, rb_size = 7, rb_buf = 0\<rparr>) (\<lambda>_. None) 4"

definition ex_full :: "rt_rbb option" where
  "ex_full = do { r \<leftarrow> alloc_put 4 3 ex_init; r \<leftarrow> alloc_put 5 2 r; r \<leftarrow> alloc_put 6 1 r; (_, r) \<leftarrow> rt_rbb_blk_alloc 2 r; Some r }"

definition ex_run :: "rt_rbb option" where
  "ex_run = do { r \<leftarrow> ex_full; rt_rbb_blk_free 2 r }"

lemma alloc_steps:
  assumes "(rbb_step 4)\<^sup>*\<^sup>* ex_init r" and "rt_rbb_blk_alloc z r = Some (b, r')" and "0 < z" "z \<le> 20"
  shows "(rbb_step 4)\<^sup>*\<^sup>* ex_init r'"
proof -
  have "rbb_ok (unat (4 :: u32)) 100 20 r"
    using assms(1) unfolding ex_init_def by (intro steps_ok [OF _ rbb_init_ok]) simp_all
  then have "z \<le> rbb_size r" using assms(4) by (simp add: rbb_ok_def)
  then have "rbb_step 4 r r'" using assms(2,3) by (auto intro: rbb_step.intros(1))
  then show ?thesis using assms(1) by simp
qed

lemma alloc_put_steps:
  assumes "(rbb_step 4)\<^sup>*\<^sup>* ex_init r" and "alloc_put z n r = Some r'" and "0 < z" "z \<le> 20" "n < 4"
  shows "(rbb_step 4)\<^sup>*\<^sup>* ex_init r'"
proof -
  obtain b r1 where r1: "rt_rbb_blk_alloc z r = Some (b, r1)" "rt_rbb_blk_put n r1 = Some r'"
    using assms(2) by (auto simp: alloc_put_def elim!: bind_SomeE)
  have "rbb_step 4 r1 r'" using r1(2) assms(5) by (auto intro: rbb_step.intros(2))
  then show ?thesis using alloc_steps [OF assms(1) r1(1) assms(3,4)] by simp
qed

lemma ex_full_steps: "ex_full = Some r \<Longrightarrow> (rbb_step 4)\<^sup>*\<^sup>* ex_init r"
proof -
  assume "ex_full = Some r"
  then obtain r1 r2 r3 b where r: "alloc_put 4 3 ex_init = Some r1" "alloc_put 5 2 r1 = Some r2" "alloc_put 6 1 r2 = Some r3"
      "rt_rbb_blk_alloc 2 r3 = Some (b, r)"
    by (auto simp: ex_full_def elim!: bind_SomeE)
  have "(rbb_step 4)\<^sup>*\<^sup>* ex_init r1" by (rule alloc_put_steps [OF rtranclp.rtrancl_refl r(1)]) simp_all
  from alloc_put_steps [OF this r(2)] have "(rbb_step 4)\<^sup>*\<^sup>* ex_init r2" by simp
  from alloc_put_steps [OF this r(3)] have "(rbb_step 4)\<^sup>*\<^sup>* ex_init r3" by simp
  from alloc_steps [OF this r(4)] show ?thesis by simp
qed

lemma ex_run_steps: "ex_run = Some r \<Longrightarrow> (rbb_step 4)\<^sup>*\<^sup>* ex_init r"
proof -
  assume "ex_run = Some r"
  then obtain r1 where r: "ex_full = Some r1" "rt_rbb_blk_free 2 r1 = Some r" by (auto simp: ex_run_def elim!: bind_SomeE)
  have "rbb_step 4 r1 r" by (rule rbb_step.intros(4) [OF _ r(2)]) simp
  then show ?thesis using ex_full_steps [OF r(1)] by simp
qed

lemma ex_run_some:
  "case ex_run of None \<Rightarrow> False | Some r \<Rightarrow> path (rbb_links r) (SHead BlkList) [3, 1, 0] \<and> path (rbb_links r) (SHead FreeList) [2] \<and>
     rbb_blk r 3 = \<lparr>rb_status = RT_RBB_BLK_PUT, rb_size = 4, rb_buf = 100\<rparr> \<and>
     rbb_blk r 1 = \<lparr>rb_status = RT_RBB_BLK_PUT, rb_size = 6, rb_buf = 109\<rparr> \<and>
     rbb_blk r 0 = \<lparr>rb_status = RT_RBB_BLK_INITED, rb_size = 2, rb_buf = 115\<rparr>"
  by code_simp

lemma ex_runE:
  obtains r where "ex_run = Some r" "(rbb_step 4)\<^sup>*\<^sup>* ex_init r" "path (rbb_links r) (SHead BlkList) [3, 1, 0]"
    "path (rbb_links r) (SHead FreeList) [2]"
    "rbb_blk r 3 = \<lparr>rb_status = RT_RBB_BLK_PUT, rb_size = 4, rb_buf = 100\<rparr>"
    "rbb_blk r 1 = \<lparr>rb_status = RT_RBB_BLK_PUT, rb_size = 6, rb_buf = 109\<rparr>"
    "rbb_blk r 0 = \<lparr>rb_status = RT_RBB_BLK_INITED, rb_size = 2, rb_buf = 115\<rparr>"
proof (cases ex_run)
  case None
  then show ?thesis using ex_run_some by simp
next
  case (Some r)
  show ?thesis by (rule that [OF Some ex_run_steps [OF Some]]) (use ex_run_some [unfolded Some option.case] in blast)+
qed

section \<open>Witnesses\<close>

theorem rbb_blocks_safe_witness:
  "\<exists>r. ex_run = Some r \<and> unat (rb_buf (rbb_blk r 1)) + unat (rb_size (rbb_blk r 1)) \<le> 120"
proof -
  obtain r where r: "ex_run = Some r" "(rbb_step 4)\<^sup>*\<^sup>* ex_init r"
    "rbb_blk r 1 = \<lparr>rb_status = RT_RBB_BLK_PUT, rb_size = 6, rb_buf = 109\<rparr>" by (rule ex_runE)
  have "unat (rb_buf (rbb_blk r 1)) + unat (rb_size (rbb_blk r 1)) \<le> unat (100 :: u32) + unat (20 :: u32)"
    using rbb_blocks_safe [of 100 20 4 _ _ r 1] r(2,3) by (simp add: ex_init_def)
  then show ?thesis using r(1) by auto
qed

theorem rbb_alloc_branches_witness:
  "\<exists>r r1 r2. ex_run = Some r \<and> rt_rbb_blk_alloc 3 r = Some (Some 2, r1) \<and> rt_rbb_blk_buf 2 r1 = 117 \<and>
     rt_rbb_blk_alloc 4 r = Some (None, r2) \<and> path (rbb_links r2) (SHead BlkList) [3, 1, 0] \<and> path (rbb_links r2) (SHead FreeList) []"
proof -
  obtain r where r: "ex_run = Some r" "(rbb_step 4)\<^sup>*\<^sup>* ex_init r" "path (rbb_links r) (SHead BlkList) [3, 1, 0]"
    "path (rbb_links r) (SHead FreeList) [2]" "rbb_blk r 3 = \<lparr>rb_status = RT_RBB_BLK_PUT, rb_size = 4, rb_buf = 100\<rparr>"
    "rbb_blk r 0 = \<lparr>rb_status = RT_RBB_BLK_INITED, rb_size = 2, rb_buf = 115\<rparr>" by (rule ex_runE)
  have "rbb_ok (unat (4 :: u32)) 100 20 r"
    using r(2) unfolding ex_init_def by (intro steps_ok [OF _ rbb_init_ok]) simp_all
  then have b: "rbb_buf r = 100" "rbb_size r = 20" by (simp_all add: rbb_ok_def)
  have p: "room_place r [3, 1, 0] 3 = Some 117" "room_place r [3, 1, 0] 4 = None"
    using r(5,6) b by (simp_all add: room_place_def)
  have z: "unat (100 :: u32) + unat (20 :: u32) < 2 ^ 32" "(rbb_step (unat (4 :: u32)))\<^sup>*\<^sup>* ex_init r" using r(2) by simp_all
  note al = rbb_alloc_branches [OF z(1) z(2) [unfolded ex_init_def] r(3,4)]
  obtain r1 where r1: "rt_rbb_blk_alloc 3 r = Some (Some 2, r1)" "unat (rt_rbb_blk_buf 2 r1) = 117"
    using al [of 3] p(1) by (auto simp del: path.simps)
  obtain r2 where "rt_rbb_blk_alloc 4 r = Some (None, r2)" "path (rbb_links r2) (SHead BlkList) [3, 1, 0]" "path (rbb_links r2) (SHead FreeList) []"
    using al [of 4] p(2) by (auto simp del: path.simps)
  moreover have "rt_rbb_blk_buf 2 r1 = 117" using r1(2) by (simp add: word_unat_eq_iff)
  ultimately show ?thesis using r(1) r1(1) by blast
qed

theorem rbb_queue_get_witness:
  "\<exists>r k q' r'. ex_run = Some r \<and> rt_rbb_blk_queue_get 20 \<lparr>q_blocks = None, q_num = 0\<rparr> r = Some (k, q', r') \<and> unat k \<le> 12"
proof -
  obtain r where r: "ex_run = Some r" "(rbb_step 4)\<^sup>*\<^sup>* ex_init r" "path (rbb_links r) (SHead BlkList) [3, 1, 0]"
    "path (rbb_links r) (SHead FreeList) [2]" "rbb_blk r 3 = \<lparr>rb_status = RT_RBB_BLK_PUT, rb_size = 4, rb_buf = 100\<rparr>"
    "rbb_blk r 1 = \<lparr>rb_status = RT_RBB_BLK_PUT, rb_size = 6, rb_buf = 109\<rparr>"
    "rbb_blk r 0 = \<lparr>rb_status = RT_RBB_BLK_INITED, rb_size = 2, rb_buf = 115\<rparr>" by (rule ex_runE)
  have s: "unat (100 :: u32) + unat (20 :: u32) < 2 ^ 32" "(rbb_step (unat (4 :: u32)))\<^sup>*\<^sup>* ex_init r" using r(2) by simp_all
  let ?q = "\<lparr>q_blocks = None, q_num = 0\<rparr>"
  obtain us ts vs where g: "[3, 1, 0] = us @ ts @ vs" "\<forall>t \<in> set ts. rb_status (rbb_blk r t) = RT_RBB_BLK_PUT"
      "\<forall>u \<in> set us. rb_status (rbb_blk r u) \<noteq> RT_RBB_BLK_PUT"
      and v: "\<And>v ws. vs = v # ws \<Longrightarrow> \<exists>k q' r'. rt_rbb_blk_queue_get 20 ?q r = Some (k, q', r') \<and>
        unat k = (\<Sum>t \<leftarrow> ts. unat (rb_size (rbb_blk r t)))"
    using rbb_queue_get [OF s(1) s(2) [unfolded ex_init_def] r(3,4), of 20 ?q]
    by (elim exE conjE) (rule that, assumption, assumption, assumption, simp only: list.case, blast)
  have "us = []" using g(1,3) r(5) by (cases us) auto
  moreover have "0 \<notin> set ts" using g(2) r(7) by auto
  moreover have "0 \<in> set (us @ ts @ vs)" unfolding g(1) [symmetric] by simp
  ultimately have "0 \<in> set vs" by simp
  then obtain w ws where "vs = w # ws" by (cases vs) simp_all
  from v [OF this] obtain k q' r' where k: "rt_rbb_blk_queue_get 20 ?q r = Some (k, q', r')"
      "unat k = (\<Sum>t \<leftarrow> ts. unat (rb_size (rbb_blk r t)))" by blast
  have "(\<Sum>t \<leftarrow> [3, 1, 0]. unat (rb_size (rbb_blk r t))) = (\<Sum>t \<leftarrow> us @ ts @ vs. unat (rb_size (rbb_blk r t)))" using g(1) by simp
  then have "unat k \<le> 12" using k(2) r(5-7) by simp
  then show ?thesis using r(1) k(1) by blast
qed

theorem rbb_queue_round_trip_witness:
  "\<exists>r q' r'. ex_run = Some r \<and> rt_rbb_blk_queue_get 20 \<lparr>q_blocks = None, q_num = 0\<rparr> r = Some (10, q', r') \<and>
     rt_rbb_blk_queue_len q' r' = Some 10"
proof -
  obtain r where r: "ex_run = Some r" "(rbb_step 4)\<^sup>*\<^sup>* ex_init r" "path (rbb_links r) (SHead BlkList) [3, 1, 0]"
    "path (rbb_links r) (SHead FreeList) [2]" by (rule ex_runE)
  have "case ex_run of None \<Rightarrow> False | Some r \<Rightarrow> (case rt_rbb_blk_queue_get 20 \<lparr>q_blocks = None, q_num = 0\<rparr> r of
      None \<Rightarrow> False | Some (k, q', r') \<Rightarrow> k = 10)"
    by code_simp
  then obtain q' r' where "rt_rbb_blk_queue_get 20 \<lparr>q_blocks = None, q_num = 0\<rparr> r = Some (10, q', r')"
    unfolding r(1) by (auto split: option.splits)
  then show ?thesis using rbb_queue_round_trip [of 100 20 4 _ _ r "[3, 1, 0]" "[2]" 20 _ 10 q' r'] r by (auto simp: ex_init_def)
qed

theorem rbb_next_queue_len_witness:
  "\<exists>r k q' r'. ex_run = Some r \<and> rt_rbb_blk_queue_get 0xFFFFFFFF \<lparr>q_blocks = None, q_num = 0\<rparr> r = Some (k, q', r') \<and>
     rt_rbb_next_blk_queue_len r = Some k"
proof -
  obtain r where r: "ex_run = Some r" "(rbb_step 4)\<^sup>*\<^sup>* ex_init r" by (rule ex_runE)
  have "case ex_run of None \<Rightarrow> False | Some r \<Rightarrow> (case rt_rbb_blk_queue_get 0xFFFFFFFF \<lparr>q_blocks = None, q_num = 0\<rparr> r of
      None \<Rightarrow> False | Some (k, q', r') \<Rightarrow> True)"
    by code_simp
  then obtain k q' r' where "rt_rbb_blk_queue_get 0xFFFFFFFF \<lparr>q_blocks = None, q_num = 0\<rparr> r = Some (k, q', r')"
    unfolding r(1) by (auto split: option.splits)
  then show ?thesis using r rbb_next_queue_len [of 100 20 4 _ _ r "\<lparr>q_blocks = None, q_num = 0\<rparr>"] by (auto simp: ex_init_def)
qed

end
