(* ===== verification/Msh.thy ===== *)
theory Msh
  imports Prelude
begin

text \<open>
  The command interpreter of the shell (components/finsh/msh.c): it looks up the command, splits the line into
  arguments inside the line buffer, and completes a command name. Commands are parameters: a name and what the call
  with the argument strings does to the rest of the system. What is printed is left out.
\<close>

section \<open>Buffers\<close>

text \<open>An array of characters; an access outside it is \<open>None\<close>. Offsets stay below the size of the line buffer.\<close>

type_synonym cbuf = "u8 list"

definition rd :: "cbuf \<Rightarrow> nat \<Rightarrow> u8 option" where
  "rd b i = (if i < length b then Some (b ! i) else None)"

definition wr :: "cbuf \<Rightarrow> nat \<Rightarrow> u8 \<Rightarrow> cbuf option" where
  "wr b i c = (if i < length b then Some (b[i := c]) else None)"

text \<open>The string that starts at an offset.\<close>

definition str_at :: "cbuf \<Rightarrow> nat \<Rightarrow> u8 list option" where
  "str_at b i = (if 0 \<in> set (drop i b) then Some (takeWhile (\<lambda>c. c \<noteq> 0) (drop i b)) else None)"

abbreviation blank :: "u8 \<Rightarrow> bool" where "blank c \<equiv> c = 0x20 \<or> c = 9"

definition FINSH_ARG_MAX :: nat where
  "FINSH_ARG_MAX = 10"

type_synonym 'w cmd_function = "u8 list list \<Rightarrow> 'w \<Rightarrow> int \<times> 'w"

text \<open>The table of the commands, in the order of the linker section; the names are C string constants.\<close>

type_synonym 'w syscall_table = "(u8 list \<times> 'w cmd_function) list"

section \<open>Splitting a line\<close>

partial_function (option) strip_blank :: "nat \<Rightarrow> cbuf \<Rightarrow> nat \<Rightarrow> nat \<Rightarrow> (cbuf \<times> nat \<times> nat) option" where
  "strip_blank len b ptr position = do {
     c \<leftarrow> rd b ptr;
     if blank c \<and> position < len then do { b \<leftarrow> wr b ptr 0; strip_blank len b (ptr + 1) (position + 1) }
     else Some (b, ptr, position) }"

definition skip_escape :: "cbuf \<Rightarrow> u8 \<Rightarrow> nat \<Rightarrow> nat \<Rightarrow> (nat \<times> nat) option" where
  "skip_escape b c ptr position =
    (if c = 0x5c then do { n \<leftarrow> rd b (ptr + 1); Some (if n = 0x22 then (ptr + 1, position + 1) else (ptr, position)) }
     else Some (ptr, position))"

partial_function (option) skip_quoted :: "nat \<Rightarrow> cbuf \<Rightarrow> nat \<Rightarrow> nat \<Rightarrow> (nat \<times> nat) option" where
  "skip_quoted len b ptr position = do {
     c \<leftarrow> rd b ptr;
     if c \<noteq> 0x22 \<and> position < len
     then do { (ptr, position) \<leftarrow> skip_escape b c ptr position; skip_quoted len b (ptr + 1) (position + 1) }
     else Some (ptr, position) }"

partial_function (option) skip_word :: "nat \<Rightarrow> cbuf \<Rightarrow> nat \<Rightarrow> nat \<Rightarrow> (nat \<times> nat) option" where
  "skip_word len b ptr position = do {
     c \<leftarrow> rd b ptr;
     if \<not> blank c \<and> position < len then skip_word len b (ptr + 1) (position + 1) else Some (ptr, position) }"

text \<open>\<open>argv\<close> holds the offsets of the arguments, \<open>argc\<close> is its length.\<close>

partial_function (option) split_loop :: "nat \<Rightarrow> cbuf \<Rightarrow> nat \<Rightarrow> nat \<Rightarrow> nat list \<Rightarrow> (cbuf \<times> nat list) option" where
  "split_loop len b ptr position argv =
    (if position < len then do {
       (b, ptr, position) \<leftarrow> strip_blank len b ptr position;
       if FINSH_ARG_MAX \<le> length argv \<or> len \<le> position then Some (b, argv)
       else do {
         c \<leftarrow> rd b ptr;
         if c = 0x22 then do {
           (p, q) \<leftarrow> skip_quoted len b (ptr + 1) (position + 1);
           if len \<le> q then Some (b, argv @ [ptr + 1])
           else do { b \<leftarrow> wr b p 0; split_loop len b (p + 1) (q + 1) (argv @ [ptr + 1]) } }
         else do {
           (p, q) \<leftarrow> skip_word len b ptr position;
           if len \<le> q then Some (b, argv @ [ptr]) else split_loop len b p q (argv @ [ptr]) } } }
     else Some (b, argv))"

definition msh_split :: "cbuf \<Rightarrow> nat \<Rightarrow> nat \<Rightarrow> (cbuf \<times> nat list) option" where
  "msh_split b cmd len = split_loop len b cmd 0 []"

section \<open>Running a command\<close>

text \<open>\<open>strncmp (name, cmd, size) = 0\<close>; the bytes of a name end with a zero.\<close>

definition name_at :: "u8 list \<Rightarrow> nat \<Rightarrow> u8 option" where
  "name_at name i = rd (name @ [0]) i"

fun strncmp_eq :: "u8 list \<Rightarrow> cbuf \<Rightarrow> nat \<Rightarrow> nat \<Rightarrow> nat \<Rightarrow> bool option" where
  "strncmp_eq name b cmd i 0 = Some True"
| "strncmp_eq name b cmd i (Suc n) = do {
     x \<leftarrow> name_at name i;
     y \<leftarrow> rd b (cmd + i);
     if x \<noteq> y then Some False else if x = 0 then Some True else strncmp_eq name b cmd (i + 1) n }"

fun msh_get_cmd :: "'w syscall_table \<Rightarrow> cbuf \<Rightarrow> nat \<Rightarrow> nat \<Rightarrow> 'w cmd_function option option" where
  "msh_get_cmd [] b cmd size1 = Some None"
| "msh_get_cmd ((name, f) # cmds) b cmd size1 = do {
     eq \<leftarrow> strncmp_eq name b cmd 0 size1;
     z \<leftarrow> if eq then name_at name size1 else Some 1;
     if eq \<and> z = 0 then Some (Some f) else msh_get_cmd cmds b cmd size1 }"

partial_function (option) cmd0_size :: "cbuf \<Rightarrow> nat \<Rightarrow> nat \<Rightarrow> nat \<Rightarrow> nat option" where
  "cmd0_size b cmd len k = do {
     c \<leftarrow> rd b (cmd + k);
     if \<not> blank c \<and> k < len then cmd0_size b cmd len (k + 1) else Some k }"

fun args_at :: "cbuf \<Rightarrow> nat list \<Rightarrow> u8 list list option" where
  "args_at b [] = Some []"
| "args_at b (i # is) = do { x \<leftarrow> str_at b i; xs \<leftarrow> args_at b is; Some (x # xs) }"

text \<open>The result is the return value of the command, or nothing for \<open>-RT_ERROR\<close>.\<close>

definition msh_exec_cmd :: "'w syscall_table \<Rightarrow> cbuf \<Rightarrow> nat \<Rightarrow> nat \<Rightarrow> 'w \<Rightarrow> (int option \<times> cbuf \<times> 'w) option" where
  "msh_exec_cmd cmds b cmd len w = do {
     size1 \<leftarrow> cmd0_size b cmd len 0;
     if size1 = 0 then Some (None, b, w)
     else do {
       f \<leftarrow> msh_get_cmd cmds b cmd size1;
       (case f of
          None \<Rightarrow> Some (None, b, w)
        | Some f \<Rightarrow> do {
            (b, argv) \<leftarrow> msh_split b cmd len;
            if argv = [] then Some (None, b, w)
            else do { args \<leftarrow> args_at b argv; (case f args w of (ret, w) \<Rightarrow> Some (Some ret, b, w)) } }) } }"

partial_function (option) trim_loop :: "cbuf \<Rightarrow> nat \<Rightarrow> nat \<Rightarrow> (nat \<times> nat) option" where
  "trim_loop b cmd len =
    (if 0 < len then do { c \<leftarrow> rd b cmd; if blank c then trim_loop b (cmd + 1) (len - 1) else Some (cmd, len) }
     else Some (cmd, len))"

partial_function (option) first_space :: "cbuf \<Rightarrow> nat \<Rightarrow> nat option" where
  "first_space b tcmd = do { c \<leftarrow> rd b tcmd; if c \<noteq> 0x20 \<and> c \<noteq> 0 then first_space b (tcmd + 1) else Some tcmd }"

definition msh_exec :: "'w syscall_table \<Rightarrow> cbuf \<Rightarrow> nat \<Rightarrow> 'w \<Rightarrow> (int \<times> cbuf \<times> 'w) option" where
  "msh_exec cmds b len w = do {
     (cmd, len) \<leftarrow> trim_loop b 0 len;
     if len = 0 then Some (0, b, w)
     else do {
       (ret, b, w) \<leftarrow> msh_exec_cmd cmds b cmd len w;
       (case ret of
          Some cmd_ret \<Rightarrow> Some (cmd_ret, b, w)
        | None \<Rightarrow> do { tcmd \<leftarrow> first_space b cmd; b \<leftarrow> wr b tcmd 0; Some (- 1, b, w) }) } }"

section \<open>Completion\<close>

fun str_common :: "u8 list \<Rightarrow> u8 list \<Rightarrow> nat" where
  "str_common (x # xs) (y # ys) = (if x = y then Suc (str_common xs ys) else 0)"
| "str_common _ _ = 0"

text \<open>The loop over the commands: \<open>name_ptr\<close> and \<open>min_length\<close>; the prefix is in the buffer, \<open>n\<close> characters long.\<close>

fun complete_loop :: "'w syscall_table \<Rightarrow> cbuf \<Rightarrow> nat \<Rightarrow> u8 list option \<Rightarrow> nat \<Rightarrow> (u8 list option \<times> nat) option" where
  "complete_loop [] b n name_ptr min_length = Some (name_ptr, min_length)"
| "complete_loop ((cmd_name, f) # cmds) b n name_ptr min_length = do {
     eq \<leftarrow> strncmp_eq cmd_name b 0 0 n;
     if eq then
       (let (name_ptr, min_length) = (if min_length = 0 then (Some cmd_name, length cmd_name) else (name_ptr, min_length));
            len = (case name_ptr of None \<Rightarrow> 0 | Some p \<Rightarrow> str_common p cmd_name);
            min_length = (if len < min_length then len else min_length)
        in complete_loop cmds b n name_ptr min_length)
     else complete_loop cmds b n name_ptr min_length }"

text \<open>\<open>rt_strncpy (prefix, name, n)\<close> with \<open>n\<close> at most the length of the name.\<close>

definition put_bytes :: "cbuf \<Rightarrow> nat \<Rightarrow> u8 list \<Rightarrow> cbuf option" where
  "put_bytes b i xs = (if i + length xs \<le> length b then Some (take i b @ xs @ drop (i + length xs) b) else None)"

definition msh_auto_complete :: "'w syscall_table \<Rightarrow> cbuf \<Rightarrow> cbuf option" where
  "msh_auto_complete cmds b = do {
     c \<leftarrow> rd b 0;
     if c = 0 then Some b
     else do {
       prefix \<leftarrow> str_at b 0;
       (name_ptr, min_length) \<leftarrow> complete_loop cmds b (length prefix) None 0;
       (case name_ptr of None \<Rightarrow> Some b | Some name \<Rightarrow> put_bytes b 0 (take min_length name)) } }"

declare strip_blank.simps [code] skip_quoted.simps [code] skip_word.simps [code] split_loop.simps [code]
  cmd0_size.simps [code] trim_loop.simps [code] first_space.simps [code]

section \<open>No access outside the buffer\<close>

text \<open>The buffer has \<open>N + 1\<close> characters, the last one is zero, and the line ends at most there.\<close>

definition zend :: "nat \<Rightarrow> cbuf \<Rightarrow> bool" where
  "zend N b \<longleftrightarrow> length b = Suc N \<and> b ! N = 0"

lemma zendD: "zend N b \<Longrightarrow> length b = Suc N" "zend N b \<Longrightarrow> b ! N = 0"
  by (simp_all add: zend_def)

lemma zend_upd: "zend N b \<Longrightarrow> zend N (b[i := 0])"
  by (cases "i = N") (simp_all add: zend_def)

lemma zend_rd: "zend N b \<Longrightarrow> i \<le> N \<Longrightarrow> rd b i = Some (b ! i)"
  by (simp add: rd_def zend_def)

lemma zend_wr: "zend N b \<Longrightarrow> i \<le> N \<Longrightarrow> wr b i c = Some (b[i := c])"
  by (simp add: wr_def zend_def)

lemma zend_str: "zend N b \<Longrightarrow> i \<le> N \<Longrightarrow> \<exists>x. str_at b i = Some x"
proof -
  assume a: "zend N b" "i \<le> N"
  then have "drop i b ! (N - i) = 0" "N - i < length (drop i b)" by (simp_all add: zend_def)
  then have "0 \<in> set (drop i b)" by (simp only: in_set_conv_nth) blast
  then show ?thesis by (simp add: str_at_def)
qed

lemma zend_args: "zend N b \<Longrightarrow> \<forall>i \<in> set is. i \<le> N \<Longrightarrow> \<exists>xs. args_at b is = Some xs"
proof (induction "is")
  case (Cons i "is")
  obtain x where "str_at b i = Some x" using zend_str [OF Cons.prems(1), of i] Cons.prems(2) by auto
  moreover obtain xs where "args_at b is = Some xs" using Cons by auto
  ultimately show ?case by simp
qed simp

lemma strip_blank_safe:
  "zend N b \<Longrightarrow> c + len \<le> N \<Longrightarrow> pos \<le> len \<Longrightarrow>
    \<exists>b' q. strip_blank len b (c + pos) pos = Some (b', c + q, q) \<and> zend N b' \<and> pos \<le> q \<and> q \<le> len \<and>
      (q < len \<longrightarrow> \<not> blank (b' ! (c + q)))"
proof (induction "len - pos" arbitrary: b pos rule: less_induct)
  case less
  show ?case
  proof (cases "blank (b ! (c + pos)) \<and> pos < len")
    case True
    have "len - Suc pos < len - pos" using True by (intro diff_less_mono2) simp_all
    from less(1) [OF this zend_upd [OF less(2)] less(3)] True
    obtain b' q where "strip_blank len (b[c + pos := 0]) (c + Suc pos) (Suc pos) = Some (b', c + q, q)" "zend N b'"
      "Suc pos \<le> q" "q \<le> len" "q < len \<longrightarrow> \<not> blank (b' ! (c + q))"
      by (meson Suc_leI)
    then show ?thesis using True less(2,3) by (subst strip_blank.simps) (auto simp: zend_rd zend_wr)
  next
    case False
    then show ?thesis using less(2-) by (subst strip_blank.simps) (auto simp: zend_rd)
  qed
qed

lemma skip_word_safe:
  "zend N b \<Longrightarrow> c + len \<le> N \<Longrightarrow> pos \<le> len \<Longrightarrow>
    \<exists>q. skip_word len b (c + pos) pos = Some (c + q, q) \<and> pos \<le> q \<and> q \<le> len \<and> (pos < len \<and> \<not> blank (b ! (c + pos)) \<longrightarrow> pos < q)"
proof (induction "len - pos" arbitrary: pos rule: less_induct)
  case less
  show ?case
  proof (cases "\<not> blank (b ! (c + pos)) \<and> pos < len")
    case True
    have "len - Suc pos < len - pos" using True by (intro diff_less_mono2) simp_all
    from less(1) [OF this less(2,3)] True
    obtain q where "skip_word len b (c + Suc pos) (Suc pos) = Some (c + q, q)" "Suc pos \<le> q" "q \<le> len"
      by (meson Suc_leI)
    then show ?thesis using True less(2,3) by (subst skip_word.simps) (auto simp: zend_rd)
  next
    case False
    then show ?thesis using less(2-) by (subst skip_word.simps) (auto simp: zend_rd)
  qed
qed

lemma skip_escape_safe:
  assumes "zend N b" and "c + len \<le> N" and "pos < len"
  shows "\<exists>q. skip_escape b x (c + pos) pos = Some (c + q, q) \<and> pos \<le> q \<and> q \<le> len \<and> c + q < N"
proof (cases "x = 0x5c \<and> b ! Suc (c + pos) = 0x22")
  case True
  have "Suc (c + pos) \<noteq> N"
  proof
    assume "Suc (c + pos) = N"
    then have "b ! Suc (c + pos) = 0" using zendD(2) [OF assms(1)] by simp
    then show False using True by simp
  qed
  then show ?thesis using assms True by (auto simp: skip_escape_def zend_rd)
next
  case False
  then show ?thesis using assms by (auto simp: skip_escape_def zend_rd)
qed

text \<open>An escaped quote just behind the line takes the position one further.\<close>

lemma skip_quoted_safe:
  "zend N b \<Longrightarrow> c + len \<le> N \<Longrightarrow> pos \<le> Suc len \<Longrightarrow> c + pos \<le> N \<Longrightarrow>
    \<exists>q. skip_quoted len b (c + pos) pos = Some (c + q, q) \<and> pos \<le> q \<and> c + q \<le> N"
proof (induction "Suc len - pos" arbitrary: pos rule: less_induct)
  case less
  show ?case
  proof (cases "b ! (c + pos) \<noteq> 0x22 \<and> pos < len")
    case True
    obtain q where q: "skip_escape b (b ! (c + pos)) (c + pos) pos = Some (c + q, q)" "pos \<le> q" "q \<le> len" "c + q < N"
      using skip_escape_safe [OF less(2,3)] True by blast
    from less(1) [of "Suc q"] q less(2,3)
    obtain q' where "skip_quoted len b (c + Suc q) (Suc q) = Some (c + q', q')" "Suc q \<le> q'" "c + q' \<le> N" by fastforce
    then show ?thesis using True q less(2-) by (subst skip_quoted.simps) (auto simp: zend_rd)
  next
    case False
    then show ?thesis using less(2-) by (subst skip_quoted.simps) (auto simp: zend_rd)
  qed
qed

lemma split_loop_safe:
  "zend N b \<Longrightarrow> c + len \<le> N \<Longrightarrow> c + pos \<le> N \<Longrightarrow> \<forall>i \<in> set argv. i \<le> N \<Longrightarrow>
    \<exists>b' argv'. split_loop len b (c + pos) pos argv = Some (b', argv') \<and> zend N b' \<and> (\<forall>i \<in> set argv'. i \<le> N)"
proof (induction "len - pos" arbitrary: b pos argv rule: less_induct)
  case less
  show ?case
  proof (cases "pos < len")
    case False
    then show ?thesis using less(2-) by (subst split_loop.simps) simp
  next
    case True
    then obtain b1 q where b1: "strip_blank len b (c + pos) pos = Some (b1, c + q, q)" "zend N b1" "pos \<le> q" "q \<le> len"
      "q < len \<longrightarrow> \<not> blank (b1 ! (c + q))"
      using strip_blank_safe [OF less(2,3)] by (meson less_imp_le)
    show ?thesis
    proof (cases "FINSH_ARG_MAX \<le> length argv \<or> len \<le> q")
      case True
      then show ?thesis using b1 \<open>pos < len\<close> less(2-) by (subst split_loop.simps) auto
    next
      case go: False
      show ?thesis
      proof (cases "b1 ! (c + q) = 0x22")
        case True
        obtain p where p: "skip_quoted len b1 (c + Suc q) (Suc q) = Some (c + p, p)" "Suc q \<le> p" "c + p \<le> N"
          using skip_quoted_safe [OF b1(2) less(3), of "Suc q"] go less(3) by auto
        show ?thesis
        proof (cases "len \<le> p")
          case l: True
          then show ?thesis using p b1 go True \<open>pos < len\<close> less(2-) by (subst split_loop.simps) (auto simp: zend_rd)
        next
          case l: False
          from less(1) [of "Suc p" "b1[c + p := 0]" "argv @ [Suc (c + q)]"] p l b1 go less(3,5)
          obtain b' argv' where "split_loop len (b1[c + p := 0]) (c + Suc p) (Suc p) (argv @ [Suc (c + q)]) = Some (b', argv')"
            "zend N b'" "\<forall>i \<in> set argv'. i \<le> N" by (fastforce intro: zend_upd)
          then show ?thesis using p l b1 go True \<open>pos < len\<close> less(2-) by (subst split_loop.simps) (auto simp: zend_rd zend_wr)
        qed
      next
        case False
        obtain p where p: "skip_word len b1 (c + q) q = Some (c + p, p)" "q \<le> p" "p \<le> len"
          "q < len \<and> \<not> blank (b1 ! (c + q)) \<longrightarrow> q < p"
          using skip_word_safe [OF b1(2) less(3) b1(4)] by blast
        show ?thesis
        proof (cases "len \<le> p")
          case l: True
          then show ?thesis using p b1 go False \<open>pos < len\<close> less(2-) by (subst split_loop.simps) (auto simp: zend_rd)
        next
          case l: False
          have "q < p" using p(4) False go \<open>q < len \<longrightarrow> \<not> blank (b1 ! (c + q))\<close> by (auto simp: not_le)
          then have "len - p < len - pos" using b1(3) l by simp
          moreover have "\<forall>i \<in> set (argv @ [c + q]). i \<le> N" "c + p \<le> N" using less(3,5) go l by auto
          ultimately obtain b' argv' where "split_loop len b1 (c + p) p (argv @ [c + q]) = Some (b', argv')"
            "zend N b'" "\<forall>i \<in> set argv'. i \<le> N" using less(1) [of p b1 "argv @ [c + q]"] b1(2) less(3) by blast
          then show ?thesis using p l b1 go False \<open>pos < len\<close> less(2-) by (subst split_loop.simps) (auto simp: zend_rd)
        qed
      qed
    qed
  qed
qed

lemma cmd0_size_safe:
  "zend N b \<Longrightarrow> c + len \<le> N \<Longrightarrow> k \<le> len \<Longrightarrow> \<exists>q. cmd0_size b c len k = Some q \<and> k \<le> q \<and> q \<le> len"
proof (induction "len - k" arbitrary: k rule: less_induct)
  case less
  show ?case
  proof (cases "\<not> blank (b ! (c + k)) \<and> k < len")
    case True
    have "len - Suc k < len - k" using True by (intro diff_less_mono2) simp_all
    from less(1) [OF this less(2,3)] True
    obtain q where "cmd0_size b c len (Suc k) = Some q" "Suc k \<le> q" "q \<le> len" by (meson Suc_leI)
    then show ?thesis using True less(2,3) by (subst cmd0_size.simps) (auto simp: zend_rd)
  next
    case False
    then show ?thesis using less(2-) by (subst cmd0_size.simps) (auto simp: zend_rd)
  qed
qed

text \<open>The names have no zero inside, nor has the line: an equal prefix lies inside both.\<close>

lemma strncmp_safe:
  "0 \<notin> set name \<Longrightarrow> zend N b \<Longrightarrow> c + i + n \<le> N \<Longrightarrow> \<forall>j < i + n. b ! (c + j) \<noteq> 0 \<Longrightarrow> i \<le> length name \<Longrightarrow>
    \<exists>e. strncmp_eq name b c i n = Some e \<and> (e \<longrightarrow> i + n \<le> length name)"
proof (induction n arbitrary: i)
  case (Suc n)
  define x where "x = (name @ [0]) ! i"
  have x: "name_at name i = Some x" "x = 0 \<longleftrightarrow> i = length name"
    using Suc.prems(1,5) in_set_conv_nth [of 0 name] by (auto simp: x_def name_at_def rd_def nth_append le_less)
  have y: "rd b (c + i) = Some (b ! (c + i))" "b ! (c + i) \<noteq> 0" using Suc.prems by (auto intro: zend_rd)
  show ?case
  proof (cases "x = b ! (c + i)")
    case True
    then have "i < length name" using x y Suc.prems(5) by (cases "i = length name") auto
    then have "\<exists>e. strncmp_eq name b c (Suc i) n = Some e \<and> (e \<longrightarrow> Suc i + n \<le> length name)"
      using Suc by (intro Suc.IH) auto
    then show ?thesis using x y True by simp
  next
    case False
    then show ?thesis using x y by auto
  qed
qed auto

definition names_ok :: "'w syscall_table \<Rightarrow> bool" where
  "names_ok cmds \<longleftrightarrow> (\<forall>(name, f) \<in> set cmds. 0 \<notin> set name)"

lemma get_cmd_safe:
  assumes "zend N b" and "c + n \<le> N" and "\<forall>j < n. b ! (c + j) \<noteq> 0"
  shows "names_ok cmds \<Longrightarrow> \<exists>f. msh_get_cmd cmds b c n = Some f"
proof (induction cmds)
  case (Cons a cmds)
  obtain name f where a: "a = (name, f)" by (cases a)
  have n: "0 \<notin> set name" "names_ok cmds" using Cons.prems a by (simp_all add: names_ok_def)
  obtain e where e: "strncmp_eq name b c 0 n = Some e" "e \<longrightarrow> n \<le> length name"
    using strncmp_safe [OF n(1) assms(1), of c 0 n] assms(2,3) by auto
  have "\<exists>z. (if e then name_at name n else Some 1) = Some z" using e(2) by (auto simp: name_at_def rd_def)
  then show ?case using Cons.IH [OF n(2)] e(1) by (auto simp: a)
qed simp

lemma exec_cmd_safe:
  assumes z: "zend N b" "c + len \<le> N" "\<forall>j < len. b ! (c + j) \<noteq> 0" and n: "names_ok cmds"
  shows "\<exists>ret b' w'. msh_exec_cmd cmds b c len w = Some (ret, b', w') \<and> zend N b'"
proof -
  obtain q where q: "cmd0_size b c len 0 = Some q" "q \<le> len" using cmd0_size_safe [OF z(1,2), of 0] by auto
  have "c + q \<le> N" "\<forall>j < q. b ! (c + j) \<noteq> 0" using q(2) z by auto
  then obtain f where f: "msh_get_cmd cmds b c q = Some f" using get_cmd_safe [OF z(1) _ _ n] by blast
  obtain b1 argv where s: "msh_split b c len = Some (b1, argv)" "zend N b1" "\<forall>i \<in> set argv. i \<le> N"
    using split_loop_safe [OF z(1,2), of 0 "[]"] z(2) by (auto simp: msh_split_def)
  obtain args where "args_at b1 argv = Some args" using zend_args [OF s(2,3)] by blast
  then show ?thesis using z(1) q(1) f s by (auto simp: msh_exec_cmd_def split: option.splits prod.splits)
qed

lemma trim_loop_safe:
  "zend N b \<Longrightarrow> c + len \<le> N \<Longrightarrow> \<exists>d. trim_loop b c len = Some (c + d, len - d) \<and> d \<le> len"
proof (induction len arbitrary: c)
  case 0
  then show ?case by (subst trim_loop.simps) simp
next
  case (Suc len)
  obtain d where "trim_loop b (Suc c) len = Some (Suc c + d, len - d)" "d \<le> len" using Suc.IH [of "Suc c"] Suc.prems by auto
  then show ?case using Suc.prems by (subst trim_loop.simps) (auto simp: zend_rd intro: exI [of _ "Suc d"] exI [of _ 0])
qed

lemma first_space_safe: "zend N b \<Longrightarrow> i \<le> N \<Longrightarrow> \<exists>q. first_space b i = Some q \<and> q \<le> N"
proof (induction "N - i" arbitrary: i rule: less_induct)
  case less
  show ?case
  proof (cases "b ! i \<noteq> 0x20 \<and> b ! i \<noteq> 0")
    case True
    then have "i < N" using less(2,3) zendD(2) by (metis le_neq_implies_less)
    then obtain q where "first_space b (Suc i) = Some q" "q \<le> N" using less(1) [of "Suc i"] less(2) by (auto simp: diff_less_mono2)
    then show ?thesis using True less(2,3) by (subst first_space.simps) (auto simp: zend_rd)
  next
    case False
    then show ?thesis using less(2,3) by (subst first_space.simps) (auto simp: zend_rd)
  qed
qed

lemma msh_exec_safe:
  assumes z: "zend N b" "len \<le> N" "\<forall>j < len. b ! j \<noteq> 0" and n: "names_ok cmds"
  shows "\<exists>ret b' w'. msh_exec cmds b len w = Some (ret, b', w')"
proof -
  obtain d where d: "trim_loop b 0 len = Some (d, len - d)" "d \<le> len" using trim_loop_safe [OF z(1), of 0 len] z(2) by auto
  have "d + (len - d) \<le> N" "\<forall>j < len - d. b ! (d + j) \<noteq> 0" using d(2) z(2,3) by auto
  then obtain ret b1 w1 where e: "msh_exec_cmd cmds b d (len - d) w = Some (ret, b1, w1)" "zend N b1"
    using exec_cmd_safe [OF z(1) _ _ n] by blast
  obtain q where "first_space b1 d = Some q" "q \<le> N" using first_space_safe [OF e(2), of d] d(2) z(2) by auto
  then show ?thesis using d(1) e zend_wr [OF e(2)] by (auto simp: msh_exec_def split: option.splits)
qed

section \<open>What the arguments are\<close>

text \<open>
  The text of a quoted argument, up to the closing quote or the end of the line (an escaped quote does not close it,
  and keeps its backslash), and what follows; the arguments of a line, at most \<open>k\<close>.
\<close>

fun quoted :: "u8 list \<Rightarrow> u8 list \<times> u8 list" where
  "quoted [] = ([], [])"
| "quoted (c # cs) =
    (if c = 0x22 then ([], cs)
     else if c = 0x5c \<and> cs \<noteq> [] \<and> hd cs = 0x22 then (case quoted (tl cs) of (q, r) \<Rightarrow> (c # 0x22 # q, r))
     else (case quoted cs of (q, r) \<Rightarrow> (c # q, r)))"

fun cmd_args :: "nat \<Rightarrow> u8 list \<Rightarrow> u8 list list" where
  "cmd_args 0 t = []"
| "cmd_args (Suc k) t =
    (case dropWhile blank t of
       [] \<Rightarrow> []
     | c # cs \<Rightarrow>
         if c = 0x22 then (case quoted cs of (q, r) \<Rightarrow> q # cmd_args k r)
         else takeWhile (\<lambda>c. \<not> blank c) (c # cs) # cmd_args k (dropWhile (\<lambda>c. \<not> blank c) (c # cs)))"

definition run_line :: "'w syscall_table \<Rightarrow> u8 list \<Rightarrow> 'w \<Rightarrow> int \<times> 'w" where
  "run_line cmds t w =
    (let t = dropWhile blank t
     in if t = [] then (0, w)
        else case map_of cmds (takeWhile (\<lambda>c. \<not> blank c) t) of None \<Rightarrow> (- 1, w) | Some f \<Rightarrow> f (cmd_args FINSH_ARG_MAX t) w)"

lemma quoted_split: "quoted t = (q, r) \<Longrightarrow> t = q \<and> r = [] \<or> t = q @ 0x22 # r"
proof (induction t arbitrary: q r rule: quoted.induct)
  case (2 c cs)
  consider "c = 0x22" | "c = 0x5c" "cs \<noteq> []" "hd cs = 0x22" | "c \<noteq> 0x22" "\<not> (c = 0x5c \<and> cs \<noteq> [] \<and> hd cs = 0x22)" by auto
  then show ?case
  proof cases
    case 2
    obtain q1 r1 where q: "quoted (tl cs) = (q1, r1)" by (cases "quoted (tl cs)")
    have "cs = 0x22 # tl cs" using 2 by (metis list.collapse)
    then show ?thesis using 2 q "2.IH"(1) [OF _ _ q] "2.prems" by auto
  next
    case 3
    obtain q1 r1 where q: "quoted cs = (q1, r1)" by (cases "quoted cs")
    then show ?thesis using 3 "2.IH"(2) [OF _ _ q] "2.prems" by auto
  qed (use "2.prems" in auto)
qed simp

lemma rd_app [simp]: "rd (xs @ c # ys) (length xs) = Some c" "rd (xs @ c # d # ys) (Suc (length xs)) = Some d"
  by (simp_all add: rd_def nth_append)

lemma wr_app [simp]: "wr (xs @ c # ys) (length xs) d = Some (xs @ d # ys)"
  by (simp add: wr_def)

lemma str_at_app: "0 \<notin> set ys \<Longrightarrow> str_at (xs @ ys @ 0 # zs) (length xs) = Some ys"
proof -
  assume "0 \<notin> set ys"
  then have "takeWhile (\<lambda>c. c \<noteq> 0) (ys @ 0 # zs) = ys" by (subst takeWhile_append2) auto
  then show ?thesis by (simp add: str_at_def)
qed

lemma strip_blank_ok:
  "pos + length t = len \<Longrightarrow>
    strip_blank len (d @ t @ y # z) (length d) pos =
      Some (d @ replicate (length (takeWhile blank t)) 0 @ dropWhile blank t @ y # z,
        length d + length (takeWhile blank t), pos + length (takeWhile blank t))"
proof (induction t arbitrary: d pos)
  case Nil
  then show ?case by (subst strip_blank.simps) simp
next
  case (Cons c t)
  show ?case
  proof (cases "blank c")
    case True
    have "strip_blank len ((d @ [0]) @ t @ y # z) (length (d @ [0])) (Suc pos) =
        Some ((d @ [0]) @ replicate (length (takeWhile blank t)) 0 @ dropWhile blank t @ y # z,
          length (d @ [0]) + length (takeWhile blank t), Suc pos + length (takeWhile blank t))"
      using Cons.prems by (intro Cons.IH) simp
    then show ?thesis using True Cons.prems by (subst strip_blank.simps) auto
  next
    case False
    then show ?thesis by (subst strip_blank.simps) auto
  qed
qed

lemma skip_word_ok:
  "pos + length t = len \<Longrightarrow>
    skip_word len (d @ t @ y # z) (length d) pos =
      Some (length d + length (takeWhile (\<lambda>c. \<not> blank c) t), pos + length (takeWhile (\<lambda>c. \<not> blank c) t))"
proof (induction t arbitrary: d pos)
  case Nil
  then show ?case by (subst skip_word.simps) simp
next
  case (Cons c t)
  show ?case
  proof (cases "blank c")
    case False
    have "skip_word len ((d @ [c]) @ t @ y # z) (length (d @ [c])) (Suc pos) =
        Some (length (d @ [c]) + length (takeWhile (\<lambda>c. \<not> blank c) t), Suc pos + length (takeWhile (\<lambda>c. \<not> blank c) t))"
      using Cons.prems by (intro Cons.IH) simp
    then show ?thesis using False Cons.prems by (subst skip_word.simps) auto
  next
    case True
    then show ?thesis by (subst skip_word.simps) auto
  qed
qed

lemma skip_quoted_ok:
  "quoted t = (q, r) \<Longrightarrow> pos + length t = len \<Longrightarrow>
    skip_quoted len (d @ t @ 0 # z) (length d) pos = Some (length d + length q, pos + length q)"
proof (induction t arbitrary: d pos q r rule: quoted.induct)
  case 1
  then show ?case by (subst skip_quoted.simps) simp
next
  case (2 c cs)
  consider "c = 0x22" | "c = 0x5c" "cs \<noteq> []" "hd cs = 0x22" | "c \<noteq> 0x22" "\<not> (c = 0x5c \<and> cs \<noteq> [] \<and> hd cs = 0x22)" by auto
  then show ?case
  proof cases
    case 1
    then show ?thesis using "2.prems" by (subst skip_quoted.simps) simp
  next
    case 2
    obtain q1 r1 where q: "quoted (tl cs) = (q1, r1)" by (cases "quoted (tl cs)")
    obtain cs1 where cs: "cs = 0x22 # cs1" using 2(2,3) by (cases cs) auto
    have "skip_quoted len ((d @ [c, 0x22]) @ tl cs @ 0 # z) (length (d @ [c, 0x22])) (Suc (Suc pos)) =
        Some (length (d @ [c, 0x22]) + length q1, Suc (Suc pos) + length q1)"
      using 2 "2.prems"(2) by (intro "2.IH"(1) [OF _ _ q]) (auto simp: cs)
    then show ?thesis using 2 q cs "2.prems" by (subst skip_quoted.simps) (auto simp: skip_escape_def)
  next
    case 3
    obtain q1 r1 where q: "quoted cs = (q1, r1)" by (cases "quoted cs")
    have "skip_quoted len ((d @ [c]) @ cs @ 0 # z) (length (d @ [c])) (Suc pos) =
        Some (length (d @ [c]) + length q1, Suc pos + length q1)"
      using 3 "2.prems"(2) by (intro "2.IH"(2) [OF _ _ q]) auto
    moreover have "skip_escape (d @ c # cs @ 0 # z) c (length d) pos = Some (length d, pos)"
      using 3 by (cases cs) (auto simp: skip_escape_def)
    ultimately show ?thesis using 3 q "2.prems" by (subst skip_quoted.simps) auto
  qed
qed

text \<open>The rounds of the loop.\<close>

lemma split_quoted_end:
  "pos < len \<Longrightarrow> strip_blank len b ptr pos = Some (b1, p, q) \<Longrightarrow> \<not> FINSH_ARG_MAX \<le> length argv \<Longrightarrow> \<not> len \<le> q \<Longrightarrow>
    rd b1 p = Some 0x22 \<Longrightarrow> skip_quoted len b1 (Suc p) (Suc q) = Some (p', q') \<Longrightarrow> len \<le> q' \<Longrightarrow>
    split_loop len b ptr pos argv = Some (b1, argv @ [Suc p])"
  by (subst split_loop.simps) simp

lemma split_quoted_next:
  "pos < len \<Longrightarrow> strip_blank len b ptr pos = Some (b1, p, q) \<Longrightarrow> \<not> FINSH_ARG_MAX \<le> length argv \<Longrightarrow> \<not> len \<le> q \<Longrightarrow>
    rd b1 p = Some 0x22 \<Longrightarrow> skip_quoted len b1 (Suc p) (Suc q) = Some (p', q') \<Longrightarrow> \<not> len \<le> q' \<Longrightarrow> wr b1 p' 0 = Some b2 \<Longrightarrow>
    split_loop len b ptr pos argv = split_loop len b2 (Suc p') (Suc q') (argv @ [Suc p])"
  by (subst split_loop.simps) simp

lemma split_word_end:
  "pos < len \<Longrightarrow> strip_blank len b ptr pos = Some (b1, p, q) \<Longrightarrow> \<not> FINSH_ARG_MAX \<le> length argv \<Longrightarrow> \<not> len \<le> q \<Longrightarrow>
    rd b1 p = Some c \<Longrightarrow> c \<noteq> 0x22 \<Longrightarrow> skip_word len b1 p q = Some (p', q') \<Longrightarrow> len \<le> q' \<Longrightarrow>
    split_loop len b ptr pos argv = Some (b1, argv @ [p])"
  by (subst split_loop.simps) simp

lemma split_word_next:
  "pos < len \<Longrightarrow> strip_blank len b ptr pos = Some (b1, p, q) \<Longrightarrow> \<not> FINSH_ARG_MAX \<le> length argv \<Longrightarrow> \<not> len \<le> q \<Longrightarrow>
    rd b1 p = Some c \<Longrightarrow> c \<noteq> 0x22 \<Longrightarrow> skip_word len b1 p q = Some (p', q') \<Longrightarrow> \<not> len \<le> q' \<Longrightarrow>
    split_loop len b ptr pos argv = split_loop len b1 p' q' (argv @ [p])"
  by (subst split_loop.simps) simp

lemma split_loop_ok:
  "0 \<notin> set t \<Longrightarrow> pos + length t = len \<Longrightarrow> length argv + k = FINSH_ARG_MAX \<Longrightarrow>
    \<exists>t' is. split_loop len (d @ t @ 0 # z) (length d) pos argv = Some (d @ t' @ 0 # z, argv @ is) \<and> length t' = length t \<and>
      args_at (d @ t' @ 0 # z) is = Some (cmd_args k t) \<and> (t \<noteq> [] \<and> blank (hd t) \<longrightarrow> hd t' = 0)"
proof (induction k arbitrary: d t pos argv)
  case 0
  show ?case
  proof (cases "t = []")
    case True
    then show ?thesis using 0 by (subst split_loop.simps) (auto intro!: exI [of _ "[]"])
  next
    case False
    then have "pos < len" using 0(2) by (cases t) auto
    moreover have "length (takeWhile blank t) + length (dropWhile blank t) = length t"
      by (metis length_append takeWhile_dropWhile_id)
    ultimately show ?thesis using 0 False strip_blank_ok [OF 0(2), of d 0 z]
      by (subst split_loop.simps)
        (auto intro!: exI [of _ "replicate (length (takeWhile blank t)) 0 @ dropWhile blank t"] exI [of _ "[]"]
          simp: neq_Nil_conv)
  qed
next
  case (Suc k)
  let ?s = "dropWhile blank t" and ?n = "length (takeWhile blank t)"
  let ?d = "d @ replicate ?n 0"
  have l: "?n + length ?s = length t" by (metis length_append takeWhile_dropWhile_id)
  have strip: "strip_blank len (d @ t @ 0 # z) (length d) pos = Some (?d @ ?s @ 0 # z, length ?d, pos + ?n)"
    using strip_blank_ok [OF Suc.prems(2), of d 0 z] by simp
  have h: "t \<noteq> [] \<and> blank (hd t) \<Longrightarrow> \<exists>m. ?n = Suc m" by (cases t) auto
  have s0: "0 \<notin> set ?s" using Suc.prems(1) by (meson set_dropWhileD)
  show ?case
  proof (cases "?s")
    case Nil
    have "split_loop len (d @ t @ 0 # z) (length d) pos argv = Some (?d @ [] @ 0 # z, argv @ [])"
    proof (cases "pos < len")
      case True
      have "len \<le> pos + ?n" using l Nil Suc.prems(2) by simp
      then show ?thesis using True strip Nil by (subst split_loop.simps) simp
    next
      case False
      then have "t = []" using Suc.prems(2) by (cases t) simp_all
      then show ?thesis using False by (subst split_loop.simps) simp
    qed
    moreover have "length (replicate ?n (0 :: u8)) = length t" using l Nil by simp
    moreover have "t \<noteq> [] \<and> blank (hd t) \<longrightarrow> hd (replicate ?n (0 :: u8)) = 0" using h by auto
    moreover have "cmd_args (Suc k) t = []" unfolding cmd_args.simps Nil by simp
    ultimately show ?thesis 
      by (simp only: append_Nil append.assoc) (rule exI [of _ "replicate ?n 0"], rule exI [of _ "[]"], simp)
  next
    case (Cons c cs)
    have lt0: "pos < len" and ltn: "\<not> len \<le> pos + ?n" using l Cons Suc.prems(2) by simp_all
    have strip1: "strip_blank len (d @ t @ 0 # z) (length d) pos = Some (?d @ c # cs @ 0 # z, length ?d, pos + ?n)"
      using strip Cons by simp
    have rdc: "rd (?d @ c # cs @ 0 # z) (length ?d) = Some c" by (rule rd_app)
    have a: "\<not> FINSH_ARG_MAX \<le> length argv" using Suc.prems(3) by simp
    have nb: "\<not> blank c" using Cons hd_dropWhile [of blank t] by simp
    show ?thesis
    proof (cases "c = 0x22")
      case True
      have rdq: "rd (?d @ c # cs @ 0 # z) (length ?d) = Some 0x22" using rdc True by simp
      obtain q r where q: "quoted cs = (q, r)" by (cases "quoted cs")
      have lq: "Suc (pos + ?n) + length cs = len" using l Cons Suc.prems(2) by simp
      have sk: "skip_quoted len (?d @ c # cs @ 0 # z) (Suc (length ?d)) (Suc (pos + ?n)) =
          Some (length (?d @ [c]) + length q, Suc (pos + ?n) + length q)"
        using skip_quoted_ok [OF q lq, of "?d @ [c]" z] by simp
      consider (open_quote) "cs = q" "r = []" | (closed) "cs = q @ 0x22 # r" using quoted_split [OF q] by auto
      then show ?thesis
      proof cases
        case open_quote
        have "split_loop len (d @ t @ 0 # z) (length d) pos argv = Some (?d @ c # cs @ 0 # z, argv @ [Suc (length ?d)])"
          by (rule split_quoted_end [OF lt0 strip1 a ltn rdq sk ]) (use open_quote lq in simp)
        moreover have "str_at ((?d @ [c]) @ q @ 0 # z) (length (?d @ [c])) = Some q"
          by (rule str_at_app) (use s0 Cons open_quote in simp)
        moreover have "cmd_args k [] = []" by (cases k) simp_all
        ultimately show ?thesis using open_quote q True Cons l h
          by (intro exI [of _ "replicate ?n 0 @ c # cs"] exI [of _ "[Suc (length ?d)]"]) (auto simp: hd_append)
      next
        case closed
        let ?d' = "?d @ c # q @ [0]"
        have n: "\<not> len \<le> Suc (pos + ?n) + length q" using lq closed by simp
        have w: "wr (?d @ c # cs @ 0 # z) (length (?d @ [c]) + length q) 0 = Some (?d' @ r @ 0 # z)"
          using wr_app [of "?d @ c # q" "0x22" "r @ 0 # z" 0] closed by (simp add: add.assoc)
        have "0 \<notin> set r" "Suc (Suc (pos + ?n) + length q) + length r = len" "length (argv @ [Suc (length ?d)]) + k = FINSH_ARG_MAX"
          using s0 Cons closed lq Suc.prems(3) by auto
        from Suc.IH [OF this, of ?d']
        obtain r' "is" where I: "split_loop len (?d' @ r @ 0 # z) (length ?d') (Suc (Suc (pos + ?n) + length q)) (argv @ [Suc (length ?d)]) =
            Some (?d' @ r' @ 0 # z, argv @ [Suc (length ?d)] @ is)" "length r' = length r" "args_at (?d' @ r' @ 0 # z) is = Some (cmd_args k r)"
          by auto
        have "split_loop len (d @ t @ 0 # z) (length d) pos argv = Some (?d' @ r' @ 0 # z, argv @ [Suc (length ?d)] @ is)"
          using split_quoted_next [OF lt0 strip1 a ltn rdq sk n w] I(1) by (simp add: add.assoc)
        moreover have "str_at ((?d @ [c]) @ q @ 0 # (r' @ 0 # z)) (length (?d @ [c])) = Some q"
          by (rule str_at_app) (use s0 Cons closed in simp)
        ultimately show ?thesis using I(2,3) closed q True Cons l h
          by (intro exI [of _ "replicate ?n 0 @ c # q @ 0 # r'"] exI [of _ "Suc (length ?d) # is"]) (auto simp: hd_append)
      qed
    next
      case False
      let ?w = "takeWhile (\<lambda>c. \<not> blank c) (c # cs)" and ?r = "dropWhile (\<lambda>c. \<not> blank c) (c # cs)"
      have wr: "?w @ ?r = c # cs" by (rule takeWhile_dropWhile_id)
      have lw: "pos + ?n + length (c # cs) = len" using l Cons Suc.prems(2) by simp
      have sk: "skip_word len (?d @ c # cs @ 0 # z) (length ?d) (pos + ?n) = Some (length ?d + length ?w, pos + ?n + length ?w)"
        using skip_word_ok [OF lw, of ?d 0 z] by simp
      have w0: "0 \<notin> set ?w" "0 \<notin> set ?r" using s0 Cons by (auto dest: set_takeWhileD set_dropWhileD)
      have lwr: "length ?w + length ?r = length (c # cs)" by (simp only: length_append [symmetric] wr)
      have lr: "pos + ?n + length ?w + length ?r = len" unfolding add.assoc lwr using lw by (simp only: add.assoc)
      let ?d' = "?d @ ?w"
      have "?d' @ ?r @ 0 # z = ?d @ (?w @ ?r) @ 0 # z" by (simp only: append.assoc)
      also have "\<dots> = ?d @ c # cs @ 0 # z" by (simp only: wr append_Cons)
      finally have e: "?d @ c # cs @ 0 # z = ?d' @ ?r @ 0 # z" by (rule sym)
      show ?thesis
      proof (cases ?r)
        case r: Nil
        have le: "len \<le> pos + ?n + length ?w" using lr r by simp
        have "split_loop len (d @ t @ 0 # z) (length d) pos argv = Some (?d @ c # cs @ 0 # z, argv @ [length ?d])"
          by (rule split_word_end [OF lt0 strip1 a ltn rdc False sk le])
        moreover have "str_at (?d @ ?w @ 0 # z) (length ?d) = Some ?w" by (rule str_at_app [OF w0(1)])
        moreover have "cmd_args k [] = []" by (cases k) simp_all
        ultimately show ?thesis using r wr False Cons l h
          by (intro exI [of _ "replicate ?n 0 @ c # cs"] exI [of _ "[length ?d]"]) (auto simp: hd_append)
      next
        case r: (Cons x xs)
        have bx: "blank x" using r hd_dropWhile [of "\<lambda>c. \<not> blank c" "c # cs"] by (simp del: dropWhile.simps)
        have le: "\<not> len \<le> pos + ?n + length ?w" using lr r by simp
        have "length (argv @ [length ?d]) + k = FINSH_ARG_MAX" using Suc.prems(3) by simp
        from Suc.IH [OF w0(2) lr this, of ?d']
        obtain r' "is" where I: "split_loop len (?d' @ ?r @ 0 # z) (length ?d') (pos + ?n + length ?w) (argv @ [length ?d]) =
            Some (?d' @ r' @ 0 # z, argv @ [length ?d] @ is)" "length r' = length ?r" "args_at (?d' @ r' @ 0 # z) is = Some (cmd_args k ?r)"
            "hd r' = 0" using r bx by auto
        obtain r'' where r': "r' = 0 # r''" using I(2,4) r by (cases r') auto
        have ld: "length ?d' = length ?d + length ?w" by simp
        have "split_loop len (d @ t @ 0 # z) (length d) pos argv =
            split_loop len (?d' @ ?r @ 0 # z) (length ?d') (pos + ?n + length ?w) (argv @ [length ?d])"
          using split_word_next [OF lt0 strip1 a ltn rdc False sk le] by (simp only: e ld)
        also note I(1)
        finally have "split_loop len (d @ t @ 0 # z) (length d) pos argv = Some (?d' @ r' @ 0 # z, argv @ [length ?d] @ is)" .
        moreover have "str_at (?d @ ?w @ 0 # (r'' @ 0 # z)) (length ?d) = Some ?w" by (rule str_at_app [OF w0(1)])
        moreover have "length ?w + length ?r = Suc (length cs)" using lwr by (simp only: length_Cons)
        ultimately show ?thesis using I(2,3) r' False Cons l h
          by (intro exI [of _ "replicate ?n 0 @ ?w @ r'"] exI [of _ "length ?d # is"])
            (auto simp: hd_append simp del: takeWhile.simps dropWhile.simps)
      qed
    qed
  qed
qed

lemma strncmp_eq_ok:
  "0 \<notin> set u \<Longrightarrow> 0 \<notin> set nm \<Longrightarrow> c + length p = length d \<Longrightarrow>
    strncmp_eq (p @ nm) (d @ u @ rest) c (length p) (length u) = Some (prefix u nm)"
proof (induction u arbitrary: p nm d)
  case (Cons y u)
  have y: "rd (d @ (y # u) @ rest) (c + length p) = Some y" using Cons.prems(3) by simp
  show ?case
  proof (cases nm)
    case Nil
    have "name_at (p @ nm) (length p) = Some 0" using Nil by (simp add: name_at_def)
    then show ?thesis using y Cons.prems(1) Nil by simp
  next
    case n: (Cons x nm')
    have x: "name_at (p @ nm) (length p) = Some x" using n by (simp add: name_at_def)
    have "strncmp_eq ((p @ [x]) @ nm') ((d @ [y]) @ u @ rest) c (length (p @ [x])) (length u) = Some (prefix u nm')"
      by (rule Cons.IH) (use Cons.prems n in auto)
    then show ?thesis using x y n Cons.prems(2) by auto
  qed
qed simp

lemma name_at_end: "0 \<notin> set nm \<Longrightarrow> n \<le> length nm \<Longrightarrow> \<exists>z. name_at nm n = Some z \<and> (z = 0 \<longleftrightarrow> n = length nm)"
  using in_set_conv_nth [of 0 nm] by (auto simp: name_at_def rd_def nth_append le_less)

lemma get_cmd_ok:
  assumes "0 \<notin> set u"
  shows "names_ok cmds \<Longrightarrow> msh_get_cmd cmds (d @ u @ rest) (length d) (length u) = Some (map_of cmds u)"
proof (induction cmds)
  case (Cons a cmds)
  obtain name f where a: "a = (name, f)" by (cases a)
  have n: "0 \<notin> set name" "names_ok cmds" using Cons.prems a by (simp_all add: names_ok_def)
  have e: "strncmp_eq name (d @ u @ rest) (length d) 0 (length u) = Some (prefix u name)"
    using strncmp_eq_ok [OF assms n(1), of "length d" "[]" d rest] by simp
  show ?case
  proof (cases "prefix u name")
    case True
    obtain z where z: "name_at name (length u) = Some z" "z = 0 \<longleftrightarrow> length u = length name"
      using name_at_end [OF n(1) prefix_length_le [OF True]] by blast
    obtain zs where zs: "name = u @ zs" using True by (rule prefixE)
    have "z = 0 \<longleftrightarrow> name = u" unfolding z(2) zs by simp
    moreover have "msh_get_cmd (a # cmds) (d @ u @ rest) (length d) (length u) =
        (if z = 0 then Some (Some f) else Some (map_of cmds u))"
      unfolding a msh_get_cmd.simps e Cons.IH [OF n(2)] using True z(1) by simp
    ultimately show ?thesis by (simp add: a)
  next
    case False
    then have "u \<noteq> name" by auto
    then show ?thesis using False e Cons.IH [OF n(2)] by (auto simp: a)
  qed
qed simp

lemma trim_loop_ok:
  "trim_loop (d @ t @ y # z) (length d) (length t) = Some (length d + length (takeWhile blank t), length (dropWhile blank t))"
proof (induction t arbitrary: d)
  case Nil
  then show ?case by (subst trim_loop.simps) simp
next
  case (Cons c t)
  show ?case
  proof (cases "blank c")
    case True
    have "trim_loop ((d @ [c]) @ t @ y # z) (length (d @ [c])) (length t) =
        Some (length (d @ [c]) + length (takeWhile blank t), length (dropWhile blank t))" by (rule Cons.IH)
    then show ?thesis using True by (subst trim_loop.simps) auto
  next
    case False
    then show ?thesis by (subst trim_loop.simps) auto
  qed
qed

lemma cmd0_size_ok:
  "k + length t = len \<Longrightarrow> c + k = length d \<Longrightarrow>
    cmd0_size (d @ t @ y # z) c len k = Some (k + length (takeWhile (\<lambda>c. \<not> blank c) t))"
proof (induction t arbitrary: d k)
  case Nil
  then show ?case by (subst cmd0_size.simps) simp
next
  case (Cons x t)
  show ?case
  proof (cases "blank x")
    case False
    have "cmd0_size ((d @ [x]) @ t @ y # z) c len (Suc k) = Some (Suc k + length (takeWhile (\<lambda>c. \<not> blank c) t))"
      by (rule Cons.IH) (use Cons.prems in simp_all)
    then show ?thesis using False Cons.prems by (subst cmd0_size.simps) auto
  next
    case True
    then show ?thesis using Cons.prems by (subst cmd0_size.simps) auto
  qed
qed

lemma first_space_some: "0 \<in> set b \<Longrightarrow> \<exists>q. first_space (d @ b) (length d) = Some q \<and> q < length d + length b"
proof (induction b arbitrary: d)
  case (Cons c b)
  show ?case
  proof (cases "c \<noteq> 0x20 \<and> c \<noteq> 0")
    case True
    then obtain q where "first_space ((d @ [c]) @ b) (length (d @ [c])) = Some q" "q < length (d @ [c]) + length b"
      using Cons.IH [of "d @ [c]"] Cons.prems by fastforce
    then show ?thesis using True by (subst first_space.simps) auto
  next
    case False
    then show ?thesis by (subst first_space.simps) auto
  qed
qed simp

lemma exec_cmd_ok:
  assumes t: "0 \<notin> set t" "t \<noteq> []" "\<not> blank (hd t)" and n: "names_ok cmds"
  shows "\<exists>b'. length b' = length (d @ t @ 0 # z) \<and> 0 \<in> set (drop (length d) b') \<and>
    msh_exec_cmd cmds (d @ t @ 0 # z) (length d) (length t) w =
      Some (case map_of cmds (takeWhile (\<lambda>c. \<not> blank c) t) of
          None \<Rightarrow> (None, b', w)
        | Some f \<Rightarrow> (Some (fst (f (cmd_args FINSH_ARG_MAX t) w)), b', snd (f (cmd_args FINSH_ARG_MAX t) w)))"
proof -
  let ?u = "takeWhile (\<lambda>c. \<not> blank c) t" and ?r = "dropWhile (\<lambda>c. \<not> blank c) t"
  have u: "?u @ ?r = t" by (rule takeWhile_dropWhile_id)
  have c: "cmd0_size (d @ t @ 0 # z) (length d) (length t) 0 = Some (length ?u)"
    using cmd0_size_ok [of 0 t "length t" "length d" d 0 z] by simp
  have ne: "length ?u \<noteq> 0" using t(2,3) by (cases t) auto
  have "0 \<notin> set ?u" using t(1) by (auto dest: set_takeWhileD)
  then have "msh_get_cmd cmds (d @ ?u @ ?r @ 0 # z) (length d) (length ?u) = Some (map_of cmds ?u)" by (rule get_cmd_ok [OF _ n])
  moreover have "?u @ ?r @ 0 # z = t @ 0 # z" by (simp only: append.assoc [symmetric] u)
  ultimately have g: "msh_get_cmd cmds (d @ t @ 0 # z) (length d) (length ?u) = Some (map_of cmds ?u)" by (simp only:)
  show ?thesis
  proof (cases "map_of cmds ?u")
    case None
    then show ?thesis using c ne g by (intro exI [of _ "d @ t @ 0 # z"]) (simp add: msh_exec_cmd_def)
  next
    case (Some f)
    obtain t' "is" where s: "split_loop (length t) (d @ t @ 0 # z) (length d) 0 [] = Some (d @ t' @ 0 # z, is)" "length t' = length t"
        "args_at (d @ t' @ 0 # z) is = Some (cmd_args FINSH_ARG_MAX t)"
      using split_loop_ok [OF t(1), of 0 "length t" "[]" FINSH_ARG_MAX d z] by auto
    have "cmd_args FINSH_ARG_MAX t \<noteq> []" using t(2,3) by (cases t) (auto simp: FINSH_ARG_MAX_def numeral_eq_Suc split: prod.splits)
    then have i: "is \<noteq> []" using s(3) by auto
    have "msh_exec_cmd cmds (d @ t @ 0 # z) (length d) (length t) w =
        Some (Some (fst (f (cmd_args FINSH_ARG_MAX t) w)), d @ t' @ 0 # z, snd (f (cmd_args FINSH_ARG_MAX t) w))"
      unfolding msh_exec_cmd_def msh_split_def c g Some by (simp only: bind.bind_lunit ne if_False option.case s prod.case i g Some) (simp add: split_def)
    then show ?thesis using Some s(2) by (intro exI [of _ "d @ t' @ 0 # z"]) simp
  qed
qed

section \<open>Completion\<close>

text \<open>The longest common start of the names that begin with the text.\<close>

definition common :: "u8 list \<Rightarrow> u8 list \<Rightarrow> u8 list" where
  "common x y = take (str_common x y) x"

definition complete :: "'w syscall_table \<Rightarrow> u8 list \<Rightarrow> u8 list" where
  "complete cmds t =
    (case filter (prefix t) (map fst cmds) of [] \<Rightarrow> t | m # ms \<Rightarrow> if t = [] then [] else foldl common m ms)"

lemma common_prefix: "prefix (common x y) x \<and> prefix (common x y) y"
  by (induction x y rule: str_common.induct) (auto simp: common_def)

lemma common_greatest: "prefix t x \<Longrightarrow> prefix t y \<Longrightarrow> prefix t (common x y)"
proof (induction x y arbitrary: t rule: str_common.induct)
  case (1 x xs y ys)
  then show ?case by (cases t) (auto simp: common_def)
qed (auto simp: common_def)

lemma foldl_common_greatest: "prefix t m \<Longrightarrow> \<forall>x \<in> set ms. prefix t x \<Longrightarrow> prefix t (foldl common m ms)"
  by (induction ms arbitrary: m) (auto intro: common_greatest)

lemma foldl_common_prefix: "prefix (foldl common m ms) m \<and> (\<forall>x \<in> set ms. prefix (foldl common m ms) x)"
proof (induction ms arbitrary: m)
  case (Cons x ms)
  have "prefix (foldl common (common m x) ms) (common m x)" using Cons.IH [of "common m x"] by simp
  then show ?case using common_prefix [of m x] Cons.IH [of "common m x"] prefix_order.trans by fastforce
qed simp

lemma common_take: "k \<le> length m \<Longrightarrow> common (take k m) x = take (min k (str_common m x)) m"
proof -
  have "str_common (take k m) x = min k (str_common m x)" if "k \<le> length m" for k
    using that
  proof (induction m x arbitrary: k rule: str_common.induct)
    case (1 x xs y ys)
    then show ?case by (cases k) auto
  qed auto
  then show "k \<le> length m \<Longrightarrow> common (take k m) x = take (min k (str_common m x)) m" by (simp add: common_def)
qed

lemma strncmp_prefix:
  "0 \<notin> set t \<Longrightarrow> 0 \<notin> set nm \<Longrightarrow> strncmp_eq nm (t @ rest) 0 0 (length t) = Some (prefix t nm)"
  using strncmp_eq_ok [of t nm 0 "[]" "[]" rest] by simp

lemma str_common_pos: "prefix t m \<Longrightarrow> prefix t x \<Longrightarrow> t \<noteq> [] \<Longrightarrow> 0 < str_common m x"
  by (cases t; cases m; cases x) auto

lemma complete_loop_some:
  "names_ok cmds \<Longrightarrow> 0 \<notin> set t \<Longrightarrow> t \<noteq> [] \<Longrightarrow> prefix t m \<Longrightarrow> 0 < k \<Longrightarrow> k \<le> length m \<Longrightarrow>
    \<exists>k'. complete_loop cmds (t @ rest) (length t) (Some m) k = Some (Some m, k') \<and>
      take k' m = foldl common (take k m) (filter (prefix t) (map fst cmds))"
proof (induction cmds arbitrary: k)
  case (Cons a cmds)
  obtain x f where a: "a = (x, f)" by (cases a)
  have x: "0 \<notin> set x" "names_ok cmds" using Cons.prems(1) by (simp_all add: a names_ok_def)
  have e: "strncmp_eq x (t @ rest) 0 0 (length t) = Some (prefix t x)" by (rule strncmp_prefix [OF Cons.prems(2) x(1)])
  show ?case
  proof (cases "prefix t x")
    case True
    let ?k = "if str_common m x < k then str_common m x else k"
    have k: "0 < ?k" "?k \<le> length m" using str_common_pos [OF Cons.prems(4) True Cons.prems(3)] Cons.prems(5,6) by auto
    have m: "min k (str_common m x) = ?k" by auto
    show ?thesis using Cons.IH [OF x(2) Cons.prems(2-4) k] e True Cons.prems(5) common_take [OF Cons.prems(6), of x] m
      by (cases "str_common m x < k") (simp_all add: a)
  next
    case False
    then show ?thesis using Cons.IH [OF x(2) Cons.prems(2-6)] e by (simp add: a)
  qed
qed auto

lemma complete_loop_none:
  "names_ok cmds \<Longrightarrow> 0 \<notin> set t \<Longrightarrow> t \<noteq> [] \<Longrightarrow>
    case filter (prefix t) (map fst cmds) of
      [] \<Rightarrow> complete_loop cmds (t @ rest) (length t) None 0 = Some (None, 0)
    | m # ms \<Rightarrow> \<exists>k. complete_loop cmds (t @ rest) (length t) None 0 = Some (Some m, k) \<and> take k m = foldl common m ms"
proof (induction cmds)
  case (Cons a cmds)
  obtain x f where a: "a = (x, f)" by (cases a)
  have x: "0 \<notin> set x" "names_ok cmds" using Cons.prems(1) by (simp_all add: a names_ok_def)
  have e: "strncmp_eq x (t @ rest) 0 0 (length t) = Some (prefix t x)" by (rule strncmp_prefix [OF Cons.prems(2) x(1)])
  show ?case
  proof (cases "prefix t x")
    case True
    have l: "str_common x x = length x" by (induction x) auto
    have "x \<noteq> []" using True Cons.prems(3) by auto
    then obtain k where "complete_loop cmds (t @ rest) (length t) (Some x) (length x) = Some (Some x, k)"
        "take k x = foldl common (take (length x) x) (filter (prefix t) (map fst cmds))"
      using complete_loop_some [OF x(2) Cons.prems(2,3) True, of "length x"] by auto
    then show ?thesis using e True l by (simp add: a)
  next
    case False
    then show ?thesis using Cons.IH [OF x(2) Cons.prems(2,3)] e by (simp add: a split: list.splits)
  qed
qed simp

lemma auto_complete_ok:
  assumes n: "names_ok cmds" and t: "0 \<notin> set t" and l: "length (complete cmds t) \<le> length t + length z"
  shows "msh_auto_complete cmds (t @ 0 # z) =
    Some (complete cmds t @ drop (length (complete cmds t)) (t @ 0 # z))"
proof (cases "t = []")
  case True
  then show ?thesis by (auto simp: msh_auto_complete_def complete_def rd_def split: list.splits)
next
  case False
  then have h: "rd (t @ 0 # z) 0 = Some (hd t)" "hd t \<noteq> 0" using t by (cases t; simp add: rd_def)+
  have s: "str_at (t @ 0 # z) 0 = Some t" using str_at_app [OF t, of "[]" z] by simp
  show ?thesis
  proof (cases "filter (prefix t) (map fst cmds)")
    case Nil
    have "complete_loop cmds (t @ 0 # z) (length t) None 0 = Some (None, 0)"
      using complete_loop_none [OF n t False, of "0 # z"] unfolding Nil by simp
    then show ?thesis using h s Nil by (simp add: msh_auto_complete_def complete_def)
  next
    case (Cons m ms)
    then obtain k where k: "complete_loop cmds (t @ 0 # z) (length t) None 0 = Some (Some m, k)" "take k m = foldl common m ms"
      using complete_loop_none [OF n t False, of "0 # z"] by auto
    have c: "complete cmds t = take k m" using Cons False k(2) by (simp add: complete_def)
    show ?thesis using h s k(1) l by (simp add: msh_auto_complete_def c put_bytes_def)
  qed
qed

lemma complete_extends: "prefix t (complete cmds t)"
proof (cases "filter (prefix t) (map fst cmds)")
  case Nil
  then show ?thesis by (simp add: complete_def)
next
  case (Cons m ms)
  then have "set (m # ms) = set (filter (prefix t) (map fst cmds))" by simp
  then have "\<forall>x \<in> set (m # ms). prefix t x" by auto
  then show ?thesis using foldl_common_greatest [of t m ms] Cons by (auto simp: complete_def)
qed

lemma complete_name: "0 \<notin> set t \<Longrightarrow> names_ok cmds \<Longrightarrow> 0 \<notin> set (complete cmds t)"
proof (cases "filter (prefix t) (map fst cmds)")
  case (Cons m ms)
  assume n: "0 \<notin> set t" "names_ok cmds"
  have "m \<in> set (map fst cmds)" using Cons by (metis filter_is_subset in_mono list.set_intros(1))
  then have "0 \<notin> set m" using n(2) by (auto simp: names_ok_def)
  moreover have "set (foldl common m ms) \<subseteq> set m" using foldl_common_prefix [of m ms] set_mono_prefix by blast
  ultimately show "0 \<notin> set (complete cmds t)" using Cons by (auto simp: complete_def)
qed (simp add: complete_def)

lemma msh_exec_ok:
  assumes "names_ok cmds" and "0 \<notin> set t"
  shows "\<exists>b'. length b' = length (t @ 0 # z) \<and>
    msh_exec cmds (t @ 0 # z) (length t) w = Some (fst (run_line cmds t w), b', snd (run_line cmds t w))"
proof -
  let ?d = "takeWhile blank t" and ?t = "dropWhile blank t"
  have e: "t @ 0 # z = ?d @ ?t @ 0 # z" by simp
  have tr: "trim_loop (t @ 0 # z) 0 (length t) = Some (length ?d, length ?t)"
    using trim_loop_ok [of "[]" t 0 z] by simp
  show ?thesis
  proof (cases "?t = []")
    case True
    then show ?thesis using tr by (intro exI [of _ "t @ 0 # z"]) (simp add: msh_exec_def run_line_def)
  next
    case False
    have t0: "0 \<notin> set ?t" using assms(2) by (meson set_dropWhileD)
    have nb: "\<not> blank (hd ?t)" using hd_dropWhile [OF False] .
    obtain b' where b: "length b' = length (t @ 0 # z)" "0 \<in> set (drop (length ?d) b')"
      "msh_exec_cmd cmds (t @ 0 # z) (length ?d) (length ?t) w =
        Some (case map_of cmds (takeWhile (\<lambda>c. \<not> blank c) ?t) of
          None \<Rightarrow> (None, b', w)
        | Some f \<Rightarrow> (Some (fst (f (cmd_args FINSH_ARG_MAX ?t) w)), b', snd (f (cmd_args FINSH_ARG_MAX ?t) w)))"
      using exec_cmd_ok [OF t0 False nb assms(1), of ?d z w] unfolding e [symmetric] by blast
    have ex: "msh_exec cmds (t @ 0 # z) (length t) w =
        (case map_of cmds (takeWhile (\<lambda>c. \<not> blank c) ?t) of
          None \<Rightarrow> do { tcmd \<leftarrow> first_space b' (length ?d); b' \<leftarrow> wr b' tcmd 0; Some (- 1, b', w) }
        | Some f \<Rightarrow> Some (fst (f (cmd_args FINSH_ARG_MAX ?t) w), b', snd (f (cmd_args FINSH_ARG_MAX ?t) w)))"
      using False by (simp only: msh_exec_def tr bind.bind_lunit prod.case b(3) length_0_conv if_False) (simp split: option.split)
    obtain q where q: "first_space b' (length ?d) = Some q" "q < length b'"
    proof -
      have "drop (length ?d) b' \<noteq> []" using b(2) by force
      then have "length ?d < length b'" by simp
      moreover have "\<exists>q. first_space (take (length ?d) b' @ drop (length ?d) b') (length (take (length ?d) b')) = Some q \<and>
          q < length (take (length ?d) b') + length (drop (length ?d) b')"
        by (rule first_space_some [OF b(2)])
      ultimately show thesis using that by auto
    qed
    show ?thesis
    proof (cases "map_of cmds (takeWhile (\<lambda>c. \<not> blank c) ?t)")
      case None
      then show ?thesis unfolding ex using q b(1) False
        by (intro exI [of _ "b'[q := 0]"]) (simp add: wr_def run_line_def Let_def)
    next
      case (Some f)
      have "run_line cmds t w = f (cmd_args FINSH_ARG_MAX ?t) w" using False Some by (simp only: run_line_def Let_def if_False option.case)
      then show ?thesis unfolding ex Some using b(1) by (intro exI [of _ b']) simp
    qed
  qed
qed

section \<open>A line without a zero behind it\<close>

text \<open>
  The text of the line is followed by other characters: the last argument goes on up to the next zero.
\<close>

lemma split_two_words:
  assumes name: "name \<noteq> []" "\<forall>c \<in> set name. \<not> blank c" "hd name \<noteq> 0x22"
    and a: "a \<noteq> []" "\<forall>c \<in> set a. \<not> blank c" "hd a \<noteq> 0x22"
  shows "msh_split (name @ 0x20 # a @ y # z) 0 (length name + 1 + length a) = Some (name @ 0 # a @ y # z, [0, length name + 1])"
proof -
  let ?t = "name @ 0x20 # a" and ?len = "length name + 1 + length a"
  obtain c cs where nm: "name = c # cs" "\<not> blank c" "c \<noteq> 0x22" using name by (cases name) auto
  obtain e es where ar: "a = e # es" "\<not> blank e" "e \<noteq> 0x22" using a by (cases a) auto
  have w: "takeWhile (\<lambda>c. \<not> blank c) ?t = name" using name(2) by (subst takeWhile_append2) auto
  have w': "takeWhile (\<lambda>c. \<not> blank c) a = a" using a(2) by (simp only: takeWhile_eq_all_conv)
  have s1: "strip_blank ?len (?t @ y # z) 0 0 = Some (?t @ y # z, 0, 0)"
    using strip_blank_ok [of 0 ?t ?len "[]" y z] nm by simp
  have k1: "skip_word ?len (?t @ y # z) 0 0 = Some (length name, length name)"
    using skip_word_ok [of 0 ?t ?len "[]" y z] w by simp
  have e1: "split_loop ?len (?t @ y # z) 0 0 [] = split_loop ?len (?t @ y # z) (length name) (length name) ([] @ [0])"
    by (rule split_word_next [OF _ s1 _ _ _ nm(3) k1]) (use nm in \<open>simp_all add: FINSH_ARG_MAX_def rd_def\<close>)
  have s2: "strip_blank ?len (?t @ y # z) (length name) (length name) =
      Some (name @ 0 # a @ y # z, Suc (length name), Suc (length name))"
    using strip_blank_ok [of "length name" "0x20 # a" ?len name y z] ar by simp
  have k2: "skip_word ?len (name @ 0 # a @ y # z) (Suc (length name)) (Suc (length name)) = Some (Suc (length name) + length a, ?len)"
    using skip_word_ok [of "Suc (length name)" a ?len "name @ [0]" y z, unfolded w'] by simp
  have "split_loop ?len (?t @ y # z) (length name) (length name) ([] @ [0]) = Some (name @ 0 # a @ y # z, ([] @ [0]) @ [Suc (length name)])"
    by (rule split_word_end [OF _ s2 _ _ _ ar(3) k2]) (use ar in \<open>simp_all add: FINSH_ARG_MAX_def\<close>)
  then show ?thesis using e1 by (simp add: msh_split_def)
qed

lemma exec_two_words:
  assumes n: "names_ok cmds" and f: "map_of cmds name = Some f"
    and name: "name \<noteq> []" "0 \<notin> set name" "\<forall>c \<in> set name. \<not> blank c" "hd name \<noteq> 0x22"
    and a: "a \<noteq> []" "0 \<notin> set a" "\<forall>c \<in> set a. \<not> blank c" "hd a \<noteq> 0x22" and r: "0 \<notin> set r"
  shows "\<exists>b'. msh_exec cmds (name @ 0x20 # a @ r @ [0]) (length name + 1 + length a) w =
    Some (fst (f [name, a @ r] w), b', snd (f [name, a @ r] w))"
proof -
  obtain y z where yz: "r @ [0] = y # z" by (cases r) auto
  let ?t = "name @ 0x20 # a" and ?len = "length name + 1 + length a"
  obtain c cs where nm: "name = c # cs" "\<not> blank c" using name by (cases name) auto
  have tr: "trim_loop (?t @ y # z) 0 ?len = Some (0, ?len)" using trim_loop_ok [of "[]" ?t y z] nm by simp
  have w: "takeWhile (\<lambda>c. \<not> blank c) ?t = name" using name(3) by (subst takeWhile_append2) auto
  have c: "cmd0_size (?t @ y # z) 0 ?len 0 = Some (length name)" using cmd0_size_ok [of 0 ?t ?len 0 "[]" y z] w by simp
  have g: "msh_get_cmd cmds (?t @ y # z) 0 (length name) = Some (Some f)"
    using get_cmd_ok [OF name(2) n, of "[]" "0x20 # a @ y # z"] f by simp
  have s: "msh_split (?t @ y # z) 0 ?len = Some (name @ 0 # a @ y # z, [0, length name + 1])"
    using split_two_words [OF name(1,3,4) a(1,3,4), of y z] by simp
  have "str_at (name @ 0 # a @ y # z) 0 = Some name" using str_at_app [OF name(2), of "[]"] by simp
  moreover have "str_at ((name @ [0]) @ (a @ r) @ 0 # []) (length (name @ [0])) = Some (a @ r)"
    by (rule str_at_app) (use a(2) r in simp)
  then have "str_at (name @ 0 # a @ y # z) (length name + 1) = Some (a @ r)" using yz by simp
  ultimately have "args_at (name @ 0 # a @ y # z) [0, length name + 1] = Some [name, a @ r]" by simp
  then have "msh_exec_cmd cmds (?t @ y # z) 0 ?len w = Some (Some (fst (f [name, a @ r] w)), name @ 0 # a @ y # z, snd (f [name, a @ r] w))"
    using c g s name(1) by (simp add: msh_exec_cmd_def split_def)
  then show ?thesis using tr yz by (simp add: msh_exec_def)
qed

section \<open>Properties\<close>

text \<open>
  C20: \<open>msh_exec\<close> on a line runs the command named by its first word with the arguments of the line, at most
  ten, and reports -1 when there is no such command; it writes to the line buffer only.
\<close>

theorem msh_exec_runs_line:
  assumes "names_ok cmds" and "0 \<notin> set t"
  shows "\<exists>b'. length b' = length (t @ 0 # z) \<and>
    msh_exec cmds (t @ 0 # z) (length t) w = Some (fst (run_line cmds t w), b', snd (run_line cmds t w))"
  by (rule msh_exec_ok [OF assms])

text \<open>
  The text of an argument: in quotes, or as it is. In quotes an argument may hold blanks, but no quote, and no backslash
  at its end; as it is, it holds no blank and does not begin with a quote.
\<close>

definition arg_text :: "bool \<times> u8 list \<Rightarrow> u8 list" where
  "arg_text a = (case a of (q, x) \<Rightarrow> if q then 0x22 # x @ [0x22, 0x20] else x @ [0x20])"

definition arg_ok :: "bool \<times> u8 list \<Rightarrow> bool" where
  "arg_ok a \<longleftrightarrow> (case a of (q, x) \<Rightarrow> 0 \<notin> set x \<and>
     (if q then 0x22 \<notin> set x \<and> (x = [] \<or> last x \<noteq> 0x5c) else x \<noteq> [] \<and> (\<forall>c \<in> set x. \<not> blank c) \<and> hd x \<noteq> 0x22))"

lemma quoted_close: "0x22 \<notin> set x \<Longrightarrow> x = [] \<or> last x \<noteq> 0x5c \<Longrightarrow> quoted (x @ 0x22 # r) = (x, r)"
proof (induction x)
  case (Cons c x)
  have "quoted (x @ 0x22 # r) = (x, r)" using Cons by (cases x) auto
  moreover have "\<not> (c = 0x5c \<and> hd (x @ 0x22 # r) = 0x22)" using Cons.prems by (cases x) auto
  ultimately show ?case using Cons.prems by auto
qed simp

lemma cmd_args_blank: "cmd_args k (0x20 # t) = cmd_args k t"
  by (cases k) simp_all

lemma cmd_args_text: "\<forall>a \<in> set as. arg_ok a \<Longrightarrow> length as \<le> k \<Longrightarrow> cmd_args k (concat (map arg_text as)) = map snd as"
proof (induction "as" arbitrary: k)
  case Nil
  then show ?case by (cases k) simp_all
next
  case (Cons a "as")
  let ?r = "concat (map arg_text as)"
  obtain j where k: "k = Suc j" using Cons.prems(2) by (cases k) auto
  have IH: "cmd_args j ?r = map snd as" using Cons k by simp
  obtain q x where a: "a = (q, x)" by (cases a)
  show ?case
  proof (cases q)
    case True
    then have "quoted (x @ 0x22 # 0x20 # ?r) = (x, 0x20 # ?r)" using Cons.prems(1) a by (intro quoted_close) (auto simp: arg_ok_def)
    moreover have "arg_text a = 0x22 # x @ [0x22, 0x20]" using a True by (simp add: arg_text_def)
    ultimately show ?thesis using a k IH cmd_args_blank [of j ?r] by simp
  next
    case False
    have o: "x \<noteq> []" "\<forall>c \<in> set x. \<not> blank c" "hd x \<noteq> 0x22" using Cons.prems(1) a False by (auto simp: arg_ok_def)
    then obtain c x' where x: "x = c # x'" "c \<noteq> 0x22" "\<not> blank c" "\<forall>c \<in> set x'. \<not> blank c" by (cases x) auto
    have "takeWhile (\<lambda>c. \<not> blank c) (x' @ 0x20 # ?r) = x'" "dropWhile (\<lambda>c. \<not> blank c) (x' @ 0x20 # ?r) = 0x20 # ?r"
      using x(4) by (simp_all add: takeWhile_append2 dropWhile_append2)
    moreover have "arg_text a = x @ [0x20]" using a False by (simp add: arg_text_def)
    ultimately show ?thesis using a k IH cmd_args_blank [of j ?r] x by simp
  qed
qed

text \<open>
  C21: Up to ten arguments, each written as it is or in quotes, are split into exactly these arguments.
\<close>

theorem msh_split_round_trip:
  assumes "\<forall>a \<in> set as. arg_ok a" and "length as \<le> FINSH_ARG_MAX"
  shows "\<exists>b argv. msh_split (concat (map arg_text as) @ 0 # z) 0 (length (concat (map arg_text as))) = Some (b, argv) \<and>
    args_at b argv = Some (map snd as) \<and> length argv = length as"
proof -
  let ?t = "concat (map arg_text as)"
  have "0 \<notin> set ?t" using assms(1) by (fastforce simp: arg_text_def arg_ok_def split: if_splits)
  then obtain t' argv where s: "split_loop (length ?t) (?t @ 0 # z) 0 0 [] = Some (t' @ 0 # z, argv)"
      "args_at (t' @ 0 # z) argv = Some (cmd_args FINSH_ARG_MAX ?t)"
    using split_loop_ok [of ?t 0 "length ?t" "[]" FINSH_ARG_MAX "[]" z] by auto
  have l: "args_at b is = Some xs \<Longrightarrow> length is = length xs" for b "is" xs
    by (induction "is" arbitrary: xs) (auto elim!: bind_SomeE)
  show ?thesis using s l [OF s(2)] cmd_args_text [OF assms] by (auto simp: msh_split_def)
qed

section \<open>Witnesses\<close>

text \<open>The command \<open>ps\<close>, which returns the number of its arguments and records them.\<close>

definition ex_cmds :: "u8 list list list syscall_table" where
  "ex_cmds = [([0x68, 0x65, 0x6c, 0x70], \<lambda>args w. (0, w)), ([0x70, 0x73], \<lambda>args w. (int (length args), args # w))]"

theorem msh_exec_runs_line_witness:
  "\<exists>b'. msh_exec ex_cmds [0x70, 0x73, 0x20, 0x22, 0x61, 0x20, 0x62, 0x22, 0] 8 [] = Some (2, b', [[[0x70, 0x73], [0x61, 0x20, 0x62]]])"
proof -
  have n: "names_ok ex_cmds" by (simp add: names_ok_def ex_cmds_def)
  have "run_line ex_cmds [0x70, 0x73, 0x20, 0x22, 0x61, 0x20, 0x62, 0x22] [] = (2, [[[0x70, 0x73], [0x61, 0x20, 0x62]]])"
    by code_simp
  note r = this
  have l: "length [0x70 :: u8, 0x73, 0x20, 0x22, 0x61, 0x20, 0x62, 0x22] = 8" by simp
  have z: "(0 :: u8) \<notin> set [0x70, 0x73, 0x20, 0x22, 0x61, 0x20, 0x62, 0x22]" by simp
  show ?thesis using msh_exec_runs_line [OF n z, of "[]" "[]", unfolded l r] by auto
qed

theorem msh_split_round_trip_witness:
  "\<exists>b argv. msh_split [0x70, 0x73, 0x20, 0x22, 0x61, 0x20, 0x62, 0x22, 0x20, 0] 0 9 = Some (b, argv) \<and>
     args_at b argv = Some [[0x70, 0x73], [0x61, 0x20, 0x62]]"
proof -
  let ?as = "[(False, [0x70, 0x73]), (True, [0x61, 0x20, 0x62])] :: (bool \<times> u8 list) list"
  have t: "concat (map arg_text ?as) = [0x70, 0x73, 0x20, 0x22, 0x61, 0x20, 0x62, 0x22, 0x20]" by (simp add: arg_text_def)
  have l: "length [0x70 :: u8, 0x73, 0x20, 0x22, 0x61, 0x20, 0x62, 0x22, 0x20] = 9" by simp
  have "\<forall>a \<in> set ?as. arg_ok a" "length ?as \<le> FINSH_ARG_MAX" by (simp_all add: arg_ok_def FINSH_ARG_MAX_def)
  from msh_split_round_trip [OF this, of "[]", unfolded t l] show ?thesis by auto
qed

end
