(* ===== verification/Finsh.thy ===== *)
theory Finsh
  imports Msh
begin

text \<open>
  The shell (components/finsh/shell.c): the line editor with its history, as a state machine over the bytes that arrive
  from the console. What is echoed is left out.
\<close>

section \<open>Data\<close>

definition FINSH_CMD_SIZE :: nat where
  "FINSH_CMD_SIZE = 80"

definition FINSH_HISTORY_LINES :: nat where
  "FINSH_HISTORY_LINES = 5"

datatype input_stat = WAIT_NORMAL | WAIT_SPEC_KEY | WAIT_FUNC_KEY

text \<open>The two modes are bit fields of one bit.\<close>

record finsh_shell =
  stat :: input_stat
  echo_mode :: "1 word"
  prompt_mode :: "1 word"
  current_history :: u16
  history_count :: u16
  cmd_history :: "cbuf list"
  line :: cbuf
  line_position :: u16
  line_curpos :: u16

definition finsh_set_echo :: "u32 \<Rightarrow> finsh_shell \<Rightarrow> finsh_shell" where
  "finsh_set_echo echo s = s\<lparr>echo_mode := ucast (ucast echo :: u8)\<rparr>"

definition finsh_get_echo :: "finsh_shell \<Rightarrow> u32" where
  "finsh_get_echo s = ucast (echo_mode s)"

definition finsh_set_prompt_mode :: "u32 \<Rightarrow> finsh_shell \<Rightarrow> finsh_shell" where
  "finsh_set_prompt_mode mode s = s\<lparr>prompt_mode := ucast mode\<rparr>"

definition finsh_get_prompt_mode :: "finsh_shell \<Rightarrow> u32" where
  "finsh_get_prompt_mode s = ucast (prompt_mode s)"

text \<open>The structure is cleared when it is created; the thread sets the echo mode when it starts.\<close>

definition finsh_init :: finsh_shell where
  "finsh_init = finsh_set_prompt_mode 1
    \<lparr>stat = WAIT_NORMAL, echo_mode = 1, prompt_mode = 0, current_history = 0, history_count = 0,
     cmd_history = replicate FINSH_HISTORY_LINES (replicate FINSH_CMD_SIZE 0), line = replicate (FINSH_CMD_SIZE + 1) 0,
     line_position = 0, line_curpos = 0\<rparr>"

section \<open>History\<close>

definition hist_row :: "finsh_shell \<Rightarrow> nat \<Rightarrow> cbuf option" where
  "hist_row s i = (if i < length (cmd_history s) then Some (cmd_history s ! i) else None)"

text \<open>The row is cleared and gets the line.\<close>

definition hist_put :: "nat \<Rightarrow> finsh_shell \<Rightarrow> finsh_shell option" where
  "hist_put i s = do {
     row \<leftarrow> hist_row s i;
     row \<leftarrow> put_bytes (replicate FINSH_CMD_SIZE 0) 0 (take (unat (line_position s)) (line s));
     Some (s\<lparr>cmd_history := (cmd_history s)[i := row]\<rparr>) }"

definition same_cmd :: "cbuf \<Rightarrow> finsh_shell \<Rightarrow> bool" where
  "same_cmd row s \<longleftrightarrow> row = take FINSH_CMD_SIZE (line s)"

definition hist_move :: "cbuf list \<Rightarrow> cbuf list" where
  "hist_move h = fold (\<lambda>i h. h[i := h ! (i + 1)]) [0..<FINSH_HISTORY_LINES - 1] h"

definition shell_push_history :: "finsh_shell \<Rightarrow> finsh_shell option" where
  "shell_push_history s = do {
     s \<leftarrow>
       (if line_position s \<noteq> 0 then
          if FINSH_HISTORY_LINES \<le> unat (history_count s) then do {
            row \<leftarrow> hist_row s (FINSH_HISTORY_LINES - 1);
            if \<not> same_cmd row s then do {
              s \<leftarrow> hist_put (FINSH_HISTORY_LINES - 1) (s\<lparr>cmd_history := hist_move (cmd_history s)\<rparr>);
              Some (s\<lparr>history_count := of_nat FINSH_HISTORY_LINES\<rparr>) }
            else Some s }
          else do {
            same \<leftarrow> (if history_count s = 0 then Some False
              else do { row \<leftarrow> hist_row s (unat (history_count s) - 1); Some (same_cmd row s) });
            if \<not> same then do {
              s \<leftarrow> hist_put (unat (history_count s)) (s\<lparr>current_history := history_count s\<rparr>);
              Some (s\<lparr>history_count := history_count s + 1\<rparr>) }
            else Some s }
        else Some s);
     Some (s\<lparr>current_history := history_count s\<rparr>) }"

text \<open>The line becomes the current entry of the history.\<close>

definition show_history :: "finsh_shell \<Rightarrow> finsh_shell option" where
  "show_history s = do {
     row \<leftarrow> hist_row s (unat (current_history s));
     l \<leftarrow> put_bytes (line s) 0 row;
     t \<leftarrow> str_at l 0;
     Some (s\<lparr>line := l, line_position := of_nat (length t), line_curpos := of_nat (length t)\<rparr>) }"

definition up_key :: "finsh_shell \<Rightarrow> finsh_shell option" where
  "up_key s =
    (if 0 < current_history s then show_history (s\<lparr>current_history := current_history s - 1\<rparr>)
     else Some (s\<lparr>current_history := 0\<rparr>))"

definition down_key :: "finsh_shell \<Rightarrow> finsh_shell option" where
  "down_key s =
    (if uint (current_history s) < uint (history_count s) - 1 then show_history (s\<lparr>current_history := current_history s + 1\<rparr>)
     else if history_count s \<noteq> 0 then show_history (s\<lparr>current_history := history_count s - 1\<rparr>)
     else Some s)"

definition left_key :: "finsh_shell \<Rightarrow> finsh_shell" where
  "left_key s = (if line_curpos s \<noteq> 0 then s\<lparr>line_curpos := line_curpos s - 1\<rparr> else s)"

definition right_key :: "finsh_shell \<Rightarrow> finsh_shell" where
  "right_key s = (if line_curpos s < line_position s then s\<lparr>line_curpos := line_curpos s + 1\<rparr> else s)"

section \<open>Editing\<close>

text \<open>\<open>rt_memmove\<close> inside the line.\<close>

definition move_bytes :: "cbuf \<Rightarrow> nat \<Rightarrow> nat \<Rightarrow> nat \<Rightarrow> cbuf option" where
  "move_bytes b d src n = (if src + n \<le> length b then put_bytes b d (take n (drop src b)) else None)"

definition tab_key :: "'w syscall_table \<Rightarrow> finsh_shell \<Rightarrow> finsh_shell option" where
  "tab_key cmds s = do {
     l \<leftarrow> msh_auto_complete cmds (line s);
     t \<leftarrow> str_at l 0;
     Some (s\<lparr>line := l, line_position := of_nat (length t), line_curpos := of_nat (length t)\<rparr>) }"

definition backspace_key :: "finsh_shell \<Rightarrow> finsh_shell option" where
  "backspace_key s =
    (if line_curpos s = 0 then Some s
     else do {
       let s = s\<lparr>line_position := line_position s - 1\<rparr>;
       let s = s\<lparr>line_curpos := line_curpos s - 1\<rparr>;
       l \<leftarrow> (if line_curpos s < line_position s
         then move_bytes (line s) (unat (line_curpos s)) (unat (line_curpos s) + 1) (unat (line_position s) - unat (line_curpos s))
         else Some (line s));
       l \<leftarrow> wr l (unat (line_position s)) 0;
       Some (s\<lparr>line := l\<rparr>) })"

definition enter_key :: "'w syscall_table \<Rightarrow> finsh_shell \<Rightarrow> 'w \<Rightarrow> (finsh_shell \<times> 'w) option" where
  "enter_key cmds s w = do {
     s \<leftarrow> shell_push_history s;
     (ret, l, w) \<leftarrow> msh_exec cmds (line s) (unat (line_position s)) w;
     Some (s\<lparr>line := replicate (FINSH_CMD_SIZE + 1) 0, line_curpos := 0, line_position := 0\<rparr>, w) }"

definition char_key :: "u8 \<Rightarrow> finsh_shell \<Rightarrow> finsh_shell option" where
  "char_key ch s = do {
     let s = (if FINSH_CMD_SIZE \<le> unat (line_position s) then s\<lparr>line_position := 0\<rparr> else s);
     l \<leftarrow> (if line_curpos s < line_position s then do {
         l \<leftarrow> move_bytes (line s) (unat (line_curpos s) + 1) (unat (line_curpos s)) (unat (line_position s) - unat (line_curpos s));
         wr l (unat (line_curpos s)) ch }
       else wr (line s) (unat (line_position s)) ch);
     let s = s\<lparr>line := l, line_position := line_position s + 1, line_curpos := line_curpos s + 1\<rparr>;
     Some (if FINSH_CMD_SIZE \<le> unat (line_position s) then s\<lparr>line_position := 0, line_curpos := 0\<rparr> else s) }"

definition plain_key :: "'w syscall_table \<Rightarrow> u8 \<Rightarrow> finsh_shell \<Rightarrow> 'w \<Rightarrow> (finsh_shell \<times> 'w) option" where
  "plain_key cmds ch s w =
    (if ch = 0 \<or> ch = 0xff then Some (s, w)
     else if ch = 9 then map_option (\<lambda>s. (s, w)) (tab_key cmds s)
     else if ch = 0x7f \<or> ch = 8 then map_option (\<lambda>s. (s, w)) (backspace_key s)
     else if ch = 13 \<or> ch = 10 then enter_key cmds s w
     else map_option (\<lambda>s. (s, w)) (char_key ch s))"

text \<open>One round of the loop of \<open>finsh_thread_entry\<close>, for the byte \<open>ch\<close>.\<close>

definition finsh_key :: "'w syscall_table \<Rightarrow> u8 \<Rightarrow> finsh_shell \<Rightarrow> 'w \<Rightarrow> (finsh_shell \<times> 'w) option" where
  "finsh_key cmds ch s w =
    (if ch = 0x1b then Some (s\<lparr>stat := WAIT_SPEC_KEY\<rparr>, w)
     else case stat s of
       WAIT_SPEC_KEY \<Rightarrow>
         if ch = 0x5b then Some (s\<lparr>stat := WAIT_FUNC_KEY\<rparr>, w) else plain_key cmds ch (s\<lparr>stat := WAIT_NORMAL\<rparr>) w
     | WAIT_FUNC_KEY \<Rightarrow>
         (let s = s\<lparr>stat := WAIT_NORMAL\<rparr>
          in if ch = 0x41 then map_option (\<lambda>s. (s, w)) (up_key s)
             else if ch = 0x42 then map_option (\<lambda>s. (s, w)) (down_key s)
             else if ch = 0x44 then Some (left_key s, w)
             else if ch = 0x43 then Some (right_key s, w)
             else plain_key cmds ch s w)
     | WAIT_NORMAL \<Rightarrow> plain_key cmds ch s w)"

fun finsh_keys :: "'w syscall_table \<Rightarrow> u8 list \<Rightarrow> finsh_shell \<Rightarrow> 'w \<Rightarrow> (finsh_shell \<times> 'w) option" where
  "finsh_keys cmds [] s w = Some (s, w)"
| "finsh_keys cmds (c # cs) s w = do { (s, w) \<leftarrow> finsh_key cmds c s w; finsh_keys cmds cs s w }"

section \<open>The well-formed shell\<close>

text \<open>
  The cursor is inside the text, the text inside the line, what is before the end of the text is not zero,
  the last character of the line and one of each row of the history is zero.
\<close>

definition shell_wf :: "finsh_shell \<Rightarrow> bool" where
  "shell_wf s \<longleftrightarrow> zend FINSH_CMD_SIZE (line s) \<and> unat (line_position s) < FINSH_CMD_SIZE \<and> line_curpos s \<le> line_position s \<and>
     (\<forall>i < unat (line_position s). line s ! i \<noteq> 0) \<and>
     length (cmd_history s) = FINSH_HISTORY_LINES \<and> (\<forall>row \<in> set (cmd_history s). length row = FINSH_CMD_SIZE \<and> 0 \<in> set row) \<and>
     unat (history_count s) \<le> FINSH_HISTORY_LINES \<and> current_history s \<le> history_count s"

lemmas sizes_def = FINSH_CMD_SIZE_def FINSH_HISTORY_LINES_def

lemma u16_inc: "unat x < 65535 \<Longrightarrow> unat (x + 1) = Suc (unat x)" for x :: u16
  using unat_word_ariths(1) [of x 1] by simp

lemma u16_dec: "x \<noteq> 0 \<Longrightarrow> unat (x - 1) = unat x - 1" for x :: u16
  by (simp add: unat_minus_one)

lemma u16_of_nat: "n < 65536 \<Longrightarrow> unat (of_nat n :: u16) = n"
  by (simp add: unsigned_of_nat take_bit_nat_eq_self)

lemma shell_wfD:
  assumes "shell_wf s"
  shows "length (line s) = 81" "line s ! 80 = 0" "unat (line_position s) < 80" "unat (line_curpos s) \<le> unat (line_position s)"
    "i < unat (line_position s) \<Longrightarrow> line s ! i \<noteq> 0" "length (cmd_history s) = 5"
    "i < 5 \<Longrightarrow> length (cmd_history s ! i) = 80" "i < 5 \<Longrightarrow> 0 \<in> set (cmd_history s ! i)"
    "unat (history_count s) \<le> 5" "unat (current_history s) \<le> unat (history_count s)"
proof -
  have l: "length (cmd_history s) = 5" using assms by (simp add: shell_wf_def sizes_def)
  show "length (line s) = 81" "line s ! 80 = 0" "unat (line_position s) < 80" "unat (line_curpos s) \<le> unat (line_position s)"
    "i < unat (line_position s) \<Longrightarrow> line s ! i \<noteq> 0" "length (cmd_history s) = 5"
    "unat (history_count s) \<le> 5" "unat (current_history s) \<le> unat (history_count s)"
    using assms by (simp_all add: shell_wf_def sizes_def zend_def word_le_nat_alt)
  assume "i < 5"
  then have "cmd_history s ! i \<in> set (cmd_history s)" using l by simp
  then show "length (cmd_history s ! i) = 80" "0 \<in> set (cmd_history s ! i)"
    using assms by (simp_all add: shell_wf_def sizes_def)
qed

lemma shell_wfI:
  assumes "length (line s) = 81" "line s ! 80 = 0" "unat (line_position s) < 80" "unat (line_curpos s) \<le> unat (line_position s)"
    "\<And>i. i < unat (line_position s) \<Longrightarrow> line s ! i \<noteq> 0" "length (cmd_history s) = 5"
    "\<And>i. i < 5 \<Longrightarrow> length (cmd_history s ! i) = 80 \<and> 0 \<in> set (cmd_history s ! i)"
    "unat (history_count s) \<le> 5" "unat (current_history s) \<le> unat (history_count s)"
  shows "shell_wf s"
proof -
  have "\<forall>row \<in> set (cmd_history s). length row = 80 \<and> 0 \<in> set row" using assms(6,7) by (metis in_set_conv_nth)
  then show ?thesis using assms by (simp add: shell_wf_def sizes_def zend_def word_le_nat_alt)
qed

lemma shell_wf_stat [simp]: "shell_wf (s\<lparr>stat := v\<rparr>) = shell_wf s"
  by (simp add: shell_wf_def)

lemma finsh_init_wf: "shell_wf finsh_init"
  by (rule shell_wfI) (simp_all add: finsh_init_def finsh_set_prompt_mode_def sizes_def)

lemma put_bytes_some: "i + length xs \<le> length b \<Longrightarrow> put_bytes b i xs = Some (take i b @ xs @ drop (i + length xs) b)"
  by (simp add: put_bytes_def)

lemma put_bytes_nth:
  "put_bytes b i xs = Some b' \<Longrightarrow> length b' = length b \<and> i + length xs \<le> length b \<and>
    (\<forall>j < length b. b' ! j = (if i \<le> j \<and> j < i + length xs then xs ! (j - i) else b ! j))"
  by (auto simp: put_bytes_def nth_append split: if_splits)

lemma show_history_wf:
  assumes wf: "shell_wf s" and c: "unat (current_history s) < 5"
  shows "\<exists>s'. show_history s = Some s' \<and> shell_wf s'"
proof -
  let ?row = "cmd_history s ! unat (current_history s)"
  note d = shell_wfD [OF wf]
  have r: "hist_row s (unat (current_history s)) = Some ?row" using c d(6) by (simp add: hist_row_def)
  have l: "put_bytes (line s) 0 ?row = Some (?row @ drop 80 (line s))" using put_bytes_some [of 0 ?row "line s"] d(1) d(7) [OF c] by simp
  let ?l = "?row @ drop 80 (line s)" and ?t = "takeWhile (\<lambda>c. c \<noteq> 0) ?row"
  have z: "0 \<in> set ?row" by (rule d(8) [OF c])
  then have t: "str_at ?l 0 = Some ?t" using takeWhile_append1 [of 0 ?row "\<lambda>c. c \<noteq> 0"] by (simp add: str_at_def)
  have lt: "length ?t < 80"
  proof (rule ccontr)
    assume "\<not> length ?t < 80"
    then have "?t = ?row" using takeWhile_eq_take [of "\<lambda>c. c \<noteq> 0" ?row] d(7) [OF c] by simp
    then have "0 \<in> set ?t" using z by (simp only:)
    then show False using set_takeWhileD [of 0 "\<lambda>c. c \<noteq> 0" ?row] by blast
  qed
  have n: "?l ! i \<noteq> 0" if "i < length ?t" for i
  proof -
    have "?l ! i = ?t ! i" using that lt d(7) [OF c] by (simp add: nth_append takeWhile_nth)
    moreover have "?t ! i \<in> set ?t" using that by simp
    ultimately show ?thesis using set_takeWhileD by metis
  qed
  have u: "unat (of_nat (length ?t) :: u16) = length ?t" using lt by (simp add: u16_of_nat)
  let ?s = "s\<lparr>line := ?l, line_position := of_nat (length ?t), line_curpos := of_nat (length ?t)\<rparr>"
  have "shell_wf ?s"
    by (rule shell_wfI) (use d n lt u d(7) [OF c] in \<open>auto simp: nth_append\<close>)
  moreover have "show_history s = Some ?s" using r l t by (simp add: show_history_def)
  ultimately show ?thesis by blast
qed

lemma set_current_wf: "shell_wf s \<Longrightarrow> unat c \<le> unat (history_count s) \<Longrightarrow> shell_wf (s\<lparr>current_history := c\<rparr>)"
  by (simp add: shell_wf_def word_le_nat_alt)

lemma up_key_wf: "shell_wf s \<Longrightarrow> \<exists>s'. up_key s = Some s' \<and> shell_wf s'"
proof (cases "0 < current_history s")
  case True
  assume wf: "shell_wf s"
  note d = shell_wfD [OF wf]
  have "unat (current_history s - 1) = unat (current_history s) - 1" "0 < unat (current_history s)"
    using True by (simp_all add: u16_dec word_less_nat_alt word_gt_0 unat_gt_0)
  then show ?thesis using show_history_wf [OF set_current_wf [OF wf, of "current_history s - 1"]] d(9,10) True
    by (simp add: up_key_def)
next
  case False
  assume "shell_wf s"
  then show ?thesis using False by (simp add: up_key_def set_current_wf)
qed

lemma down_key_wf: "shell_wf s \<Longrightarrow> \<exists>s'. down_key s = Some s' \<and> shell_wf s'"
proof -
  assume wf: "shell_wf s"
  note d = shell_wfD [OF wf]
  consider (less) "uint (current_history s) < uint (history_count s) - 1"
    | (last) "\<not> uint (current_history s) < uint (history_count s) - 1" "history_count s \<noteq> 0"
    | (none) "\<not> uint (current_history s) < uint (history_count s) - 1" "history_count s = 0" by blast
  then show ?thesis
  proof cases
    case less
    then have "int (unat (current_history s)) < int (unat (history_count s)) - 1" by (simp only: uint_nat)
    then have "Suc (unat (current_history s)) < unat (history_count s)" by linarith
    moreover from this have "unat (current_history s + 1) = Suc (unat (current_history s))" using d(9) by (simp add: u16_inc)
    ultimately show ?thesis using show_history_wf [OF set_current_wf [OF wf, of "current_history s + 1"]] d(9) less
      by (simp add: down_key_def)
  next
    case last
    then have "unat (history_count s - 1) = unat (history_count s) - 1" "0 < unat (history_count s)" by (simp_all add: u16_dec unat_gt_0)
    then show ?thesis using show_history_wf [OF set_current_wf [OF wf, of "history_count s - 1"]] d(9) last
      by (simp add: down_key_def)
  next
    case none
    then show ?thesis using wf by (simp add: down_key_def)
  qed
qed

lemma set_curpos_wf: "shell_wf s \<Longrightarrow> unat c \<le> unat (line_position s) \<Longrightarrow> shell_wf (s\<lparr>line_curpos := c\<rparr>)"
  by (simp add: shell_wf_def word_le_nat_alt)

lemma left_key_wf: "shell_wf s \<Longrightarrow> shell_wf (left_key s)"
proof (cases "line_curpos s = 0")
  case False
  assume wf: "shell_wf s"
  have "unat (line_curpos s - 1) \<le> unat (line_position s)" using u16_dec [OF False] shell_wfD(4) [OF wf] by linarith
  from set_curpos_wf [OF wf this] show ?thesis using False by (simp add: left_key_def)
qed (simp add: left_key_def)

lemma right_key_wf: "shell_wf s \<Longrightarrow> shell_wf (right_key s)"
proof (cases "line_curpos s < line_position s")
  case True
  assume wf: "shell_wf s"
  note d = shell_wfD [OF wf]
  have "unat (line_curpos s) < unat (line_position s)" using True by (simp add: word_less_nat_alt)
  then have "unat (line_curpos s + 1) \<le> unat (line_position s)" using d(3) u16_inc [of "line_curpos s"] by linarith
  from set_curpos_wf [OF wf this] show ?thesis using True by (simp add: right_key_def)
qed (simp add: right_key_def)

lemma move_bytes_nth:
  "move_bytes b d src n = Some b' \<Longrightarrow> length b' = length b \<and>
    (\<forall>j < length b. b' ! j = (if d \<le> j \<and> j < d + n then b ! (src + (j - d)) else b ! j))"
  by (auto simp: move_bytes_def dest!: put_bytes_nth split: if_splits)

lemma move_bytes_some: "src + n \<le> length b \<Longrightarrow> d + n \<le> length b \<Longrightarrow> \<exists>b'. move_bytes b d src n = Some b'"
  by (simp add: move_bytes_def put_bytes_def)

lemma set_line_wf:
  assumes "shell_wf s" and "length l = 81" "l ! 80 = 0" and "unat p < 80" "unat c \<le> unat p" and "\<And>i. i < unat p \<Longrightarrow> l ! i \<noteq> 0"
  shows "shell_wf (s\<lparr>line := l, line_position := p, line_curpos := c\<rparr>)"
  by (rule shell_wfI) (use shell_wfD [OF assms(1)] assms(2-) in simp_all)

lemma backspace_key_wf:
  assumes wf: "shell_wf s"
  shows "\<exists>s'. backspace_key s = Some s' \<and> shell_wf s'"
proof (cases "line_curpos s = 0")
  case True
  then show ?thesis using wf by (simp add: backspace_key_def)
next
  case False
  let ?p = "line_position s - 1" and ?c = "line_curpos s - 1"
  note d = shell_wfD [OF wf]
  have c: "unat ?c = unat (line_curpos s) - 1" "0 < unat (line_curpos s)" using False by (simp_all add: u16_dec unat_gt_0)
  have "line_position s \<noteq> 0" using d(4) c(2) by auto
  then have p: "unat ?p = unat (line_position s) - 1" by (rule u16_dec)
  have "\<exists>l. (if ?c < ?p then move_bytes (line s) (unat ?c) (unat ?c + 1) (unat ?p - unat ?c) else Some (line s)) = Some l \<and>
      length l = 81 \<and> l ! 80 = 0 \<and> (\<forall>i < unat ?p. l ! i \<noteq> 0)"
  proof (cases "?c < ?p")
    case True
    then have lt: "unat ?c < unat ?p" by (simp add: word_less_nat_alt)
    have b1: "unat ?c + 1 + (unat ?p - unat ?c) \<le> length (line s)" and b2: "unat ?c + (unat ?p - unat ?c) \<le> length (line s)"
      unfolding d(1) using d(3) p lt by linarith+
    obtain l where l: "move_bytes (line s) (unat ?c) (unat ?c + 1) (unat ?p - unat ?c) = Some l"
      using move_bytes_some [of "unat ?c + 1" "unat ?p - unat ?c" "line s" "unat ?c"] by (meson b1 b2)
    note n = move_bytes_nth [OF l]
    have "l ! i \<noteq> 0" if "i < unat ?p" for i
      using n d(1,3) p lt that d(5) [of i] d(5) [of "Suc i"] by auto
    moreover have "l ! 80 = 0" using n d(1-3) p lt by auto
    ultimately show ?thesis using True l n d(1) by simp
  next
    case False
    then show ?thesis using d(1,2,5) p by auto
  qed
  then obtain l where l: "(if ?c < ?p then move_bytes (line s) (unat ?c) (unat ?c + 1) (unat ?p - unat ?c) else Some (line s)) = Some l"
    "length l = 81" "l ! 80 = 0" "\<forall>i < unat ?p. l ! i \<noteq> 0" by blast
  have w: "wr l (unat ?p) 0 = Some (l[unat ?p := 0])" using l(2) p d(3) by (simp add: wr_def)
  have e: "backspace_key s = Some (s\<lparr>line := l[unat ?p := 0], line_position := ?p, line_curpos := ?c\<rparr>)"
    using False l(1) w by (cases "?c < ?p") (simp_all add: backspace_key_def Let_def)
  have "shell_wf (s\<lparr>line := l[unat ?p := 0], line_position := ?p, line_curpos := ?c\<rparr>)"
    by (rule set_line_wf [OF wf]) (use l(2-4) p c d(3,4) in \<open>auto simp: nth_list_update\<close>)
  then show ?thesis using e by blast
qed

lemma char_key_wf:
  assumes wf: "shell_wf s" and ch: "ch \<noteq> 0"
  shows "\<exists>s'. char_key ch s = Some s' \<and> shell_wf s'"
proof -
  let ?p = "line_position s" and ?c = "line_curpos s"
  note d = shell_wfD [OF wf]
  have p0: "\<not> FINSH_CMD_SIZE \<le> unat ?p" using d(3) by (simp add: sizes_def)
  have "\<exists>l. (if ?c < ?p then do { l \<leftarrow> move_bytes (line s) (unat ?c + 1) (unat ?c) (unat ?p - unat ?c); wr l (unat ?c) ch }
        else wr (line s) (unat ?p) ch) = Some l \<and>
      length l = 81 \<and> l ! 80 = 0 \<and> (\<forall>i < Suc (unat ?p). l ! i \<noteq> 0)"
  proof (cases "?c < ?p")
    case True
    then have lt: "unat ?c < unat ?p" by (simp add: word_less_nat_alt)
    have b1: "unat ?c + (unat ?p - unat ?c) \<le> length (line s)" and b2: "unat ?c + 1 + (unat ?p - unat ?c) \<le> length (line s)"
      unfolding d(1) using d(3) lt by linarith+
    obtain l where l: "move_bytes (line s) (unat ?c + 1) (unat ?c) (unat ?p - unat ?c) = Some l"
      using move_bytes_some [of "unat ?c" "unat ?p - unat ?c" "line s" "unat ?c + 1"] by (meson b1 b2)
    note n = move_bytes_nth [OF l]
    have w: "wr l (unat ?c) ch = Some (l[unat ?c := ch])" using n d(1,3) lt by (simp add: wr_def)
    have "l[unat ?c := ch] ! i \<noteq> 0" if "i < Suc (unat ?p)" for i
    proof (cases "i = unat ?c")
      case True
      then show ?thesis using ch n d(1,3) lt by simp
    next
      case False
      then show ?thesis using n d(1,3) lt that d(5) [of i] d(5) [of "i - 1"] by auto
    qed
    moreover have "l[unat ?c := ch] ! 80 = 0" using n d(1-3) lt by auto
    ultimately show ?thesis using True l w n d(1) by simp
  next
    case False
    have "wr (line s) (unat ?p) ch = Some ((line s)[unat ?p := ch])" using d(1,3) by (simp add: wr_def)
    then show ?thesis using False ch d(1-3,5) by (auto simp: nth_list_update less_Suc_eq)
  qed
  then obtain l where l: "(if ?c < ?p then do { l \<leftarrow> move_bytes (line s) (unat ?c + 1) (unat ?c) (unat ?p - unat ?c); wr l (unat ?c) ch }
      else wr (line s) (unat ?p) ch) = Some l" "length l = 81" "l ! 80 = 0" "\<forall>i < Suc (unat ?p). l ! i \<noteq> 0" by blast
  have p: "unat (?p + 1) = Suc (unat ?p)" "unat (?c + 1) = Suc (unat ?c)" using d(3,4) by (simp_all add: u16_inc)
  have e: "char_key ch s = Some (if 80 \<le> unat (?p + 1) then s\<lparr>line := l, line_position := 0, line_curpos := 0\<rparr>
      else s\<lparr>line := l, line_position := ?p + 1, line_curpos := ?c + 1\<rparr>)"
    using l(1) p0 by (cases "?c < ?p") (simp_all add: char_key_def Let_def FINSH_CMD_SIZE_def)
  show ?thesis
  proof (cases "80 \<le> unat (?p + 1)")
    case True
    have "shell_wf (s\<lparr>line := l, line_position := 0, line_curpos := 0\<rparr>)"
      by (rule set_line_wf [OF wf]) (use l(2,3) in simp_all)
    then show ?thesis using e True by simp
  next
    case False
    have "shell_wf (s\<lparr>line := l, line_position := ?p + 1, line_curpos := ?c + 1\<rparr>)"
      by (rule set_line_wf [OF wf]) (use l(2-4) p d(4) False in simp_all)
    then show ?thesis using e False by simp
  qed
qed

text \<open>A text in a row of the history.\<close>

definition row_pad :: "u8 list \<Rightarrow> cbuf" where
  "row_pad t = t @ replicate (FINSH_CMD_SIZE - length t) 0"

lemma row_pad_props: "length t < 80 \<Longrightarrow> length (row_pad t) = 80 \<and> 0 \<in> set (row_pad t)"
  by (simp add: row_pad_def FINSH_CMD_SIZE_def)

lemma hist_move_eq: "length h = 5 \<Longrightarrow> hist_move h = tl h @ [last h]"
proof -
  assume "length h = 5"
  then obtain a b c d e where "h = [a, b, c, d, e]" by (auto simp: numeral_eq_Suc length_Suc_conv)
  then show ?thesis by (simp add: hist_move_def FINSH_HISTORY_LINES_def upt_rec numeral_eq_Suc)
qed

lemma hist_put_eq:
  assumes "length (line s) = 81" and "unat (line_position s) < 80" and "i < length (cmd_history s)"
  shows "hist_put i s = Some (s\<lparr>cmd_history := (cmd_history s)[i := row_pad (take (unat (line_position s)) (line s))]\<rparr>)"
  using assms by (simp add: hist_put_def hist_row_def put_bytes_def row_pad_def FINSH_CMD_SIZE_def)

text \<open>The history after a line was entered.\<close>

definition hist_next :: "finsh_shell \<Rightarrow> cbuf list \<times> u16" where
  "hist_next s =
    (let h = cmd_history s; n = history_count s; row = row_pad (take (unat (line_position s)) (line s))
     in if line_position s = 0 \<or> n \<noteq> 0 \<and> same_cmd (h ! (unat n - 1)) s then (h, n)
        else if unat n = 5 then (tl h @ [row], n) else (h[unat n := row], n + 1))"

lemma push_history_eq:
  assumes wf: "shell_wf s"
  shows "shell_push_history s = Some (s\<lparr>cmd_history := fst (hist_next s), history_count := snd (hist_next s), current_history := snd (hist_next s)\<rparr>)"
proof -
  let ?h = "cmd_history s" and ?n = "history_count s" and ?row = "row_pad (take (unat (line_position s)) (line s))"
  note d = shell_wfD [OF wf]
  show ?thesis
  proof (cases "line_position s = 0")
    case True
    then show ?thesis by (simp add: shell_push_history_def hist_next_def Let_def)
  next
    case pos: False
    show ?thesis
    proof (cases "5 \<le> unat ?n")
      case True
      then have n: "unat ?n = 5" using d(9) by simp
      have n5: "?n = 5" using n by (simp add: word_unat_eq_iff)
      have r: "hist_row s 4 = Some (?h ! 4)" using d(6) by (simp add: hist_row_def)
      have m: "hist_put 4 (s\<lparr>cmd_history := hist_move ?h\<rparr>) = Some (s\<lparr>cmd_history := tl ?h @ [?row]\<rparr>)"
      proof -
        have lt: "length (tl ?h) = 4" using d(6) by simp
        then show ?thesis using hist_put_eq [of "s\<lparr>cmd_history := hist_move ?h\<rparr>" 4] d(1,3,6)
          by (simp add: hist_move_eq list_update_append)
      qed
      show ?thesis
      proof (cases "same_cmd (?h ! 4) s")
        case True
        then show ?thesis using pos n n5 r by (simp add: shell_push_history_def hist_next_def Let_def sizes_def)
      next
        case False
        then show ?thesis using pos n n5 r m by (simp add: shell_push_history_def hist_next_def Let_def sizes_def)
      qed
    next
      case lt: False
      have p: "hist_put (unat ?n) (s\<lparr>current_history := ?n\<rparr>) = Some (s\<lparr>current_history := ?n, cmd_history := ?h[unat ?n := ?row]\<rparr>)"
        using hist_put_eq [of "s\<lparr>current_history := ?n\<rparr>" "unat ?n"] d(1,3,6) lt by simp
      show ?thesis
      proof (cases "?n = 0")
        case True
        then show ?thesis using pos lt p by (simp add: shell_push_history_def hist_next_def Let_def sizes_def)
      next
        case False
        have r: "hist_row s (unat ?n - 1) = Some (?h ! (unat ?n - 1))" using d(6) lt by (simp add: hist_row_def)
        show ?thesis
        proof (cases "same_cmd (?h ! (unat ?n - 1)) s")
          case True
          then show ?thesis using pos lt False r by (simp add: shell_push_history_def hist_next_def Let_def sizes_def)
        next
          case same: False
          then show ?thesis using pos lt False r p by (simp add: shell_push_history_def hist_next_def Let_def sizes_def)
        qed
      qed
    qed
  qed
qed

lemma hist_next_ok:
  assumes wf: "shell_wf s"
  shows "length (fst (hist_next s)) = 5" "i < 5 \<Longrightarrow> length (fst (hist_next s) ! i) = 80 \<and> 0 \<in> set (fst (hist_next s) ! i)"
    "unat (snd (hist_next s)) \<le> 5"
proof -
  let ?row = "row_pad (take (unat (line_position s)) (line s))"
  note d = shell_wfD [OF wf]
  have row: "length ?row = 80 \<and> 0 \<in> set ?row" using d(1,3) by (intro row_pad_props) simp
  show "length (fst (hist_next s)) = 5" using d(6) by (simp add: hist_next_def Let_def)
  show "length (fst (hist_next s) ! i) = 80 \<and> 0 \<in> set (fst (hist_next s) ! i)" if "i < 5"
  proof -
    have "(tl (cmd_history s) @ [?row]) ! i = (if i = 4 then ?row else cmd_history s ! Suc i)"
      using that d(6) by (auto simp: nth_append nth_tl)
    moreover have "(cmd_history s)[unat (history_count s) := ?row] ! i = (if i = unat (history_count s) then ?row else cmd_history s ! i)"
      using that d(6) by (auto simp: nth_list_update)
    ultimately show ?thesis using row that d(7,8) d(7,8) [of "Suc i"] by (auto simp: hist_next_def Let_def)
  qed
  show "unat (snd (hist_next s)) \<le> 5"
    using d(9) u16_inc [of "history_count s"] by (auto simp: hist_next_def Let_def)
qed

lemma enter_key_wf:
  assumes wf: "shell_wf s" and n: "names_ok cmds"
  shows "\<exists>s' w'. enter_key cmds s w = Some (s', w') \<and> shell_wf s'"
proof -
  note d = shell_wfD [OF wf]
  obtain ret b w' where e: "msh_exec cmds (line s) (unat (line_position s)) w = Some (ret, b, w')"
    using msh_exec_safe [of 80 "line s" "unat (line_position s)" cmds w] d(1-3,5) n by (auto simp: zend_def)
  let ?h = "hist_next s"
  let ?s = "s\<lparr>cmd_history := fst ?h, history_count := snd ?h, current_history := snd ?h\<rparr>"
  have "shell_wf (?s\<lparr>line := replicate 81 0, line_curpos := 0, line_position := 0\<rparr>)"
    by (rule shell_wfI) (use hist_next_ok [OF wf] in simp_all)
  then show ?thesis using e by (simp add: enter_key_def push_history_eq [OF wf] FINSH_CMD_SIZE_def)
qed

lemma plain_key_wf:
  assumes wf: "shell_wf s" and n: "names_ok cmds" and ch: "ch \<noteq> 9"
  shows "\<exists>s' w'. plain_key cmds ch s w = Some (s', w') \<and> shell_wf s'"
proof -
  consider "ch = 0 \<or> ch = 0xff" | "\<not> (ch = 0 \<or> ch = 0xff)" "ch = 0x7f \<or> ch = 8" | "\<not> (ch = 0 \<or> ch = 0xff)" "\<not> (ch = 0x7f \<or> ch = 8)" "ch = 13 \<or> ch = 10"
    | "\<not> (ch = 0 \<or> ch = 0xff)" "\<not> (ch = 0x7f \<or> ch = 8)" "\<not> (ch = 13 \<or> ch = 10)" by blast
  then show ?thesis
  proof cases
    case 1
    then show ?thesis using wf by (simp add: plain_key_def)
  next
    case 2
    obtain s' where "backspace_key s = Some s'" "shell_wf s'" using backspace_key_wf [OF wf] by blast
    then show ?thesis using 2 ch by (simp only: plain_key_def if_False if_True) simp
  next
    case 3
    then show ?thesis using enter_key_wf [OF wf n, of w] ch by (simp only: plain_key_def if_False if_True)
  next
    case 4
    obtain s' where "char_key ch s = Some s'" "shell_wf s'" using char_key_wf [OF wf] 4(1) by blast
    then show ?thesis using 4 ch by (simp only: plain_key_def if_False if_True) simp
  qed
qed

lemma finsh_key_wf:
  assumes wf: "shell_wf s" and n: "names_ok cmds" and ch: "ch \<noteq> 9"
  shows "\<exists>s' w'. finsh_key cmds ch s w = Some (s', w') \<and> shell_wf s'"
proof -
  have st: "shell_wf (s\<lparr>stat := v\<rparr>)" for v using wf by simp
  note p = plain_key_wf [OF st n ch] plain_key_wf [OF wf n ch]
  obtain u where u: "up_key (s\<lparr>stat := WAIT_NORMAL\<rparr>) = Some u" "shell_wf u" using up_key_wf [OF st] by blast
  obtain dn where dn: "down_key (s\<lparr>stat := WAIT_NORMAL\<rparr>) = Some dn" "shell_wf dn" using down_key_wf [OF st] by blast
  show ?thesis
    using p u dn left_key_wf [OF st] right_key_wf [OF st] wf
    by (cases "stat s") (auto simp: finsh_key_def Let_def)
qed

lemma shell_keys_wf:
  assumes "names_ok cmds" and "9 \<notin> set keys"
  shows "\<exists>s' w'. finsh_keys cmds keys finsh_init w = Some (s', w') \<and> shell_wf s'"
proof -
  have "shell_wf s \<Longrightarrow> \<exists>s' w'. finsh_keys cmds keys s w = Some (s', w') \<and> shell_wf s'" for s
    using assms(2)
  proof (induction keys arbitrary: s w)
    case (Cons c keys)
    obtain s1 w1 where "finsh_key cmds c s w = Some (s1, w1)" "shell_wf s1"
      using finsh_key_wf [OF Cons.prems(1) assms(1), of c w] Cons.prems(2) by auto
    then show ?case using Cons.IH [of s1 w1] Cons.prems(2) by simp
  qed simp
  then show ?thesis using finsh_init_wf by blast
qed

section \<open>The editor that the shell implements\<close>

text \<open>A text with a cursor, and at most five lines of history with the line that is shown next.\<close>

record editor =
  ed_text :: "u8 list"
  ed_cur :: nat
  ed_hist :: "u8 list list"
  ed_pos :: nat

datatype key_event = NoKey | TabKey | BackspaceKey | EnterKey | UpKey | DownKey | LeftKey | RightKey | CharKey u8

definition plain_event :: "u8 \<Rightarrow> key_event" where
  "plain_event ch =
    (if ch = 0 \<or> ch = 0xff then NoKey else if ch = 9 then TabKey else if ch = 0x7f \<or> ch = 8 then BackspaceKey
     else if ch = 13 \<or> ch = 10 then EnterKey else CharKey ch)"

text \<open>The keys of the terminal: an escape sequence of three bytes is one key.\<close>

fun key_of :: "input_stat \<Rightarrow> u8 \<Rightarrow> input_stat \<times> key_event" where
  "key_of WAIT_NORMAL ch = (if ch = 0x1b then (WAIT_SPEC_KEY, NoKey) else (WAIT_NORMAL, plain_event ch))"
| "key_of WAIT_SPEC_KEY ch = (if ch = 0x1b then (WAIT_SPEC_KEY, NoKey) else if ch = 0x5b then (WAIT_FUNC_KEY, NoKey)
     else (WAIT_NORMAL, plain_event ch))"
| "key_of WAIT_FUNC_KEY ch = (if ch = 0x1b then (WAIT_SPEC_KEY, NoKey)
     else (WAIT_NORMAL, if ch = 0x41 then UpKey else if ch = 0x42 then DownKey else if ch = 0x44 then LeftKey else if ch = 0x43 then RightKey
       else plain_event ch))"

definition ed_recall :: "nat \<Rightarrow> editor \<Rightarrow> editor" where
  "ed_recall i e = e\<lparr>ed_pos := i, ed_text := ed_hist e ! i, ed_cur := length (ed_hist e ! i)\<rparr>"

definition ed_remember :: "u8 list list \<Rightarrow> u8 list \<Rightarrow> u8 list list" where
  "ed_remember h t = (if t = [] \<or> h \<noteq> [] \<and> last h = t then h else if length h = 5 then tl h @ [t] else h @ [t])"

fun ed_key :: "'w syscall_table \<Rightarrow> key_event \<Rightarrow> editor \<Rightarrow> editor" where
  "ed_key cmds NoKey e = e"
| "ed_key cmds TabKey e = e\<lparr>ed_text := complete cmds (ed_text e), ed_cur := length (complete cmds (ed_text e))\<rparr>"
| "ed_key cmds BackspaceKey e =
    (if ed_cur e = 0 then e
     else e\<lparr>ed_text := take (ed_cur e - 1) (ed_text e) @ drop (ed_cur e) (ed_text e), ed_cur := ed_cur e - 1\<rparr>)"
| "ed_key cmds EnterKey e =
    e\<lparr>ed_text := [], ed_cur := 0, ed_hist := ed_remember (ed_hist e) (ed_text e),
      ed_pos := length (ed_remember (ed_hist e) (ed_text e))\<rparr>"
| "ed_key cmds UpKey e = (if ed_pos e = 0 then e else ed_recall (ed_pos e - 1) e)"
| "ed_key cmds DownKey e =
    (if ed_hist e = [] then e else if ed_pos e + 1 < length (ed_hist e) then ed_recall (ed_pos e + 1) e
     else ed_recall (length (ed_hist e) - 1) e)"
| "ed_key cmds LeftKey e = e\<lparr>ed_cur := ed_cur e - 1\<rparr>"
| "ed_key cmds RightKey e = (if ed_cur e < length (ed_text e) then e\<lparr>ed_cur := ed_cur e + 1\<rparr> else e)"
| "ed_key cmds (CharKey c) e =
    e\<lparr>ed_text := take (ed_cur e) (ed_text e) @ c # drop (ed_cur e) (ed_text e), ed_cur := ed_cur e + 1\<rparr>"

text \<open>A line that is entered is run.\<close>

definition ed_run :: "'w syscall_table \<Rightarrow> key_event \<Rightarrow> editor \<Rightarrow> 'w \<Rightarrow> 'w" where
  "ed_run cmds ev e w = (if ev = EnterKey then snd (run_line cmds (ed_text e) w) else w)"

text \<open>The line has room for the text after the key; one character less fits than the line has.\<close>

definition ed_fits :: "'w syscall_table \<Rightarrow> key_event \<Rightarrow> editor \<Rightarrow> bool" where
  "ed_fits cmds ev e \<longleftrightarrow> length (ed_text (ed_key cmds ev e)) < FINSH_CMD_SIZE"

definition shows_editor :: "finsh_shell \<Rightarrow> editor \<Rightarrow> bool" where
  "shows_editor s e \<longleftrightarrow> shell_wf s \<and> line s = ed_text e @ replicate (81 - length (ed_text e)) 0 \<and>
     unat (line_position s) = length (ed_text e) \<and> unat (line_curpos s) = ed_cur e \<and>
     unat (history_count s) = length (ed_hist e) \<and> unat (current_history s) = ed_pos e \<and>
     (\<forall>i < length (ed_hist e). cmd_history s ! i = row_pad (ed_hist e ! i)) \<and>
     (\<forall>t \<in> set (ed_hist e). length t < FINSH_CMD_SIZE \<and> 0 \<notin> set t)"

definition do_key :: "'w syscall_table \<Rightarrow> key_event \<Rightarrow> finsh_shell \<Rightarrow> 'w \<Rightarrow> (finsh_shell \<times> 'w) option" where
  "do_key cmds ev s w =
    (case ev of NoKey \<Rightarrow> Some (s, w) | TabKey \<Rightarrow> map_option (\<lambda>s. (s, w)) (tab_key cmds s)
     | BackspaceKey \<Rightarrow> map_option (\<lambda>s. (s, w)) (backspace_key s) | EnterKey \<Rightarrow> enter_key cmds s w
     | UpKey \<Rightarrow> map_option (\<lambda>s. (s, w)) (up_key s) | DownKey \<Rightarrow> map_option (\<lambda>s. (s, w)) (down_key s)
     | LeftKey \<Rightarrow> Some (left_key s, w) | RightKey \<Rightarrow> Some (right_key s, w) | CharKey c \<Rightarrow> map_option (\<lambda>s. (s, w)) (char_key c s))"

lemma plain_do_key: "plain_key cmds ch s w = do_key cmds (plain_event ch) s w"
  by (simp add: plain_key_def do_key_def plain_event_def)

lemma finsh_do_key: "finsh_key cmds ch s w = (case key_of (stat s) ch of (v, ev) \<Rightarrow> do_key cmds ev (s\<lparr>stat := v\<rparr>) w)"
proof (cases "stat s")
  case WAIT_NORMAL
  then have e: "s\<lparr>stat := WAIT_NORMAL\<rparr> = s" by simp
  show ?thesis using WAIT_NORMAL by (simp add: finsh_key_def plain_do_key e) (simp add: do_key_def)
next
  case WAIT_SPEC_KEY
  then show ?thesis by (simp add: finsh_key_def plain_do_key) (simp add: do_key_def)
next
  case WAIT_FUNC_KEY
  then show ?thesis by (simp add: finsh_key_def plain_do_key Let_def) (simp add: do_key_def)
qed

lemma shows_editorD:
  assumes "shows_editor s e"
  shows "shell_wf s" "line s = ed_text e @ replicate (81 - length (ed_text e)) 0" "unat (line_position s) = length (ed_text e)"
    "unat (line_curpos s) = ed_cur e" "unat (history_count s) = length (ed_hist e)" "unat (current_history s) = ed_pos e"
    "i < length (ed_hist e) \<Longrightarrow> cmd_history s ! i = row_pad (ed_hist e ! i)"
    "t \<in> set (ed_hist e) \<Longrightarrow> length t < 80 \<and> 0 \<notin> set t" "length (ed_text e) < 80" "0 \<notin> set (ed_text e)" "ed_cur e \<le> length (ed_text e)"
    "length (ed_hist e) \<le> 5" "ed_pos e \<le> length (ed_hist e)"
proof -
  have wf: "shell_wf s" and l: "line s = ed_text e @ replicate (81 - length (ed_text e)) 0" and p: "unat (line_position s) = length (ed_text e)"
    using assms by (simp_all add: shows_editor_def)
  note d = shell_wfD [OF wf]
  have "ed_text e ! i \<noteq> 0" if "i < length (ed_text e)" for i using d(5) [of i] that p l by (simp add: nth_append)
  then show "0 \<notin> set (ed_text e)" by (metis in_set_conv_nth)
  show "shell_wf s" "line s = ed_text e @ replicate (81 - length (ed_text e)) 0" "unat (line_position s) = length (ed_text e)"
    by (rule wf l p)+
  show "unat (line_curpos s) = ed_cur e" "unat (history_count s) = length (ed_hist e)" "unat (current_history s) = ed_pos e"
    "i < length (ed_hist e) \<Longrightarrow> cmd_history s ! i = row_pad (ed_hist e ! i)" "t \<in> set (ed_hist e) \<Longrightarrow> length t < 80 \<and> 0 \<notin> set t"
    using assms by (simp_all add: shows_editor_def FINSH_CMD_SIZE_def)
  show "length (ed_text e) < 80" "ed_cur e \<le> length (ed_text e)" "length (ed_hist e) \<le> 5" "ed_pos e \<le> length (ed_hist e)"
    using assms d(3,4,9,10) by (simp_all add: shows_editor_def)
qed

lemma shows_stat [simp]: "shows_editor (s\<lparr>stat := v\<rparr>) e = shows_editor s e"
  by (simp add: shows_editor_def)


lemma shows_line:
  assumes sh: "shows_editor s e" and l: "l = t @ replicate (81 - length t) 0" and t: "length t < 80" "0 \<notin> set t"
    and p: "unat p = length t" and c: "unat c = k" "k \<le> length t"
  shows "shows_editor (s\<lparr>line := l, line_position := p, line_curpos := c\<rparr>) (e\<lparr>ed_text := t, ed_cur := k\<rparr>)"
proof -
  have "shell_wf (s\<lparr>line := l, line_position := p, line_curpos := c\<rparr>)"
  proof (rule set_line_wf [OF shows_editorD(1) [OF sh]])
    show "length l = 81" "l ! 80 = 0" using l t(1) by (simp_all add: nth_append)
    show "l ! i \<noteq> 0" if "i < unat p" for i
      using that l t(2) p in_set_conv_nth [of 0 t] by (auto simp: nth_append)
  qed (use t p c in simp_all)
  then show ?thesis using sh l p c by (simp add: shows_editor_def)
qed

lemma shows_current:
  assumes "shows_editor s e" and "unat c = i" and "i \<le> length (ed_hist e)"
  shows "shows_editor (s\<lparr>current_history := c\<rparr>) (e\<lparr>ed_pos := i\<rparr>)"
  using assms set_current_wf [OF shows_editorD(1) [OF assms(1)], of c] shows_editorD(5) [OF assms(1)]
  by (simp add: shows_editor_def)

lemma pad_str: "0 \<notin> set t \<Longrightarrow> takeWhile (\<lambda>c. c \<noteq> 0) (t @ replicate n 0) = t"
proof -
  assume "0 \<notin> set t"
  then have "takeWhile (\<lambda>c. c \<noteq> 0) (t @ replicate n 0) = t @ takeWhile (\<lambda>c. c \<noteq> 0) (replicate n 0)"
    by (intro takeWhile_append2) auto
  then show ?thesis by (cases n) simp_all
qed

lemma pad_line: "length t < 80 \<Longrightarrow> row_pad t @ [0] = t @ replicate (81 - length t) 0"
proof -
  assume "length t < 80"
  then have "81 - length t = Suc (80 - length t)" by simp
  then show ?thesis by (simp add: row_pad_def FINSH_CMD_SIZE_def replicate_append_same)
qed

lemma recall_ok:
  assumes sh: "shows_editor s e" and c: "unat c = i" and i: "i < length (ed_hist e)"
  shows "\<exists>s'. show_history (s\<lparr>current_history := c\<rparr>) = Some s' \<and> shows_editor s' (ed_recall i e)"
proof -
  note d = shows_editorD [OF sh]
  note w = shell_wfD [OF d(1)]
  let ?t = "ed_hist e ! i" and ?s = "s\<lparr>current_history := c\<rparr>"
  have t: "length ?t < 80" "0 \<notin> set ?t" using d(8) i by simp_all
  have r: "hist_row ?s i = Some (row_pad ?t)" using i d(7) [OF i] d(12) w(6) by (simp add: hist_row_def)
  have "line s ! 80 = 0" "length (line s) = 81" by (rule w)+
  then have "drop 80 (line s) = [0]" using Cons_nth_drop_Suc [of 80 "line s"] by simp
  then have l: "put_bytes (line s) 0 (row_pad ?t) = Some (?t @ replicate (81 - length ?t) 0)"
    using row_pad_props [OF t(1)] w(1) pad_line [OF t(1)] by (simp add: put_bytes_some)
  have "0 \<in> set (?t @ replicate (81 - length ?t) 0)" using t(1) by simp
  then have st: "str_at (?t @ replicate (81 - length ?t) 0) 0 = Some ?t" using pad_str [OF t(2)] by (simp add: str_at_def)
  have u: "unat (of_nat (length ?t) :: u16) = length ?t" using t(1) by (simp add: u16_of_nat)
  have "shows_editor (?s\<lparr>line := ?t @ replicate (81 - length ?t) 0, line_position := of_nat (length ?t), line_curpos := of_nat (length ?t)\<rparr>)
      (e\<lparr>ed_pos := i, ed_text := ?t, ed_cur := length ?t\<rparr>)"
    by (rule shows_line [OF shows_current [OF sh c] refl t u u]) (use i in simp_all)
  then show ?thesis using r l st c by (simp add: show_history_def ed_recall_def)
qed

lemma up_ok:
  assumes sh: "shows_editor s e"
  shows "\<exists>s'. up_key s = Some s' \<and> shows_editor s' (ed_key cmds UpKey e)"
proof (cases "current_history s = 0")
  case True
  then have "ed_pos e = 0" using shows_editorD(6) [OF sh] by simp
  moreover have "up_key s = Some s" using True by (cases s) (simp add: up_key_def)
  ultimately show ?thesis using sh by simp
next
  case False
  note d = shows_editorD [OF sh]
  have "ed_pos e \<noteq> 0" using False d(6) by (metis unat_eq_zero)
  moreover have "unat (current_history s - 1) = ed_pos e - 1" using u16_dec [OF False] d(6) by simp
  moreover have "0 < current_history s" using False by (simp add: word_gt_0)
  ultimately show ?thesis using recall_ok [OF sh, of "current_history s - 1" "ed_pos e - 1"] d(13) by (simp add: up_key_def)
qed

lemma down_ok:
  assumes sh: "shows_editor s e"
  shows "\<exists>s'. down_key s = Some s' \<and> shows_editor s' (ed_key cmds DownKey e)"
proof -
  note d = shows_editorD [OF sh]
  have n: "history_count s = 0 \<longleftrightarrow> ed_hist e = []" using d(5) by (metis length_0_conv unat_eq_zero)
  have lt: "uint (current_history s) < uint (history_count s) - 1 \<longleftrightarrow> ed_pos e + 1 < length (ed_hist e)"
    unfolding uint_nat d(5,6) by linarith
  consider (less) "ed_pos e + 1 < length (ed_hist e)" | (last) "\<not> ed_pos e + 1 < length (ed_hist e)" "ed_hist e \<noteq> []" | (none) "ed_hist e = []" by blast
  then show ?thesis
  proof cases
    case less
    then have "unat (current_history s + 1) = ed_pos e + 1" using u16_inc [of "current_history s"] d(6,12) by simp
    then show ?thesis using recall_ok [OF sh _ less] less lt by (cases "ed_hist e") (auto simp: down_key_def)
  next
    case last
    then have "unat (history_count s - 1) = length (ed_hist e) - 1" using u16_dec [of "history_count s"] d(5) n by simp
    then show ?thesis using recall_ok [OF sh, of "history_count s - 1" "length (ed_hist e) - 1"] last lt n by (simp add: down_key_def)
  next
    case none
    then show ?thesis using lt n sh by (simp add: down_key_def)
  qed
qed

lemma set_cur_ok: "shows_editor s e \<Longrightarrow> unat c = k \<Longrightarrow> k \<le> length (ed_text e) \<Longrightarrow> shows_editor (s\<lparr>line_curpos := c\<rparr>) (e\<lparr>ed_cur := k\<rparr>)"
  using set_curpos_wf [OF shows_editorD(1), of s e c] shows_editorD(3) [of s e] by (simp add: shows_editor_def)

lemma left_ok:
  assumes sh: "shows_editor s e"
  shows "shows_editor (left_key s) (ed_key cmds LeftKey e)"
proof (cases "line_curpos s = 0")
  case True
  then have c: "ed_cur e = 0" using shows_editorD(4) [OF sh] by simp
  then have "e\<lparr>ed_cur := ed_cur e - 1\<rparr> = e" by (cases e) simp
  then show ?thesis using True sh by (simp only: left_key_def ed_key.simps) simp
next
  case False
  have "unat (line_curpos s - 1) = ed_cur e - 1" using u16_dec [OF False] shows_editorD(4) [OF sh] by simp
  moreover have "ed_cur e - 1 \<le> length (ed_text e)" using shows_editorD(11) [OF sh] by simp
  ultimately show ?thesis using set_cur_ok [OF sh, of "line_curpos s - 1" "ed_cur e - 1"] False by (simp add: left_key_def)
qed

lemma right_ok:
  assumes sh: "shows_editor s e"
  shows "shows_editor (right_key s) (ed_key cmds RightKey e)"
proof -
  note d = shows_editorD [OF sh]
  have lt: "line_curpos s < line_position s \<longleftrightarrow> ed_cur e < length (ed_text e)" using d(3,4) by (simp add: word_less_nat_alt)
  have "ed_cur e < length (ed_text e) \<Longrightarrow> unat (line_curpos s + 1) = ed_cur e + 1" using u16_inc [of "line_curpos s"] d(4,9) by simp
  then show ?thesis using set_cur_ok [OF sh, of "line_curpos s + 1" "ed_cur e + 1"] lt sh by (auto simp: right_key_def)
qed

lemma tab_ok:
  assumes sh: "shows_editor s e" and n: "names_ok cmds" and f: "length (complete cmds (ed_text e)) < 80"
  shows "\<exists>s'. tab_key cmds s = Some s' \<and> shows_editor s' (ed_key cmds TabKey e)"
proof -
  note d = shows_editorD [OF sh]
  let ?t = "ed_text e" and ?u = "complete cmds (ed_text e)"
  have u: "0 \<notin> set ?u" "length ?t \<le> length ?u" using complete_name [OF d(10) n] prefix_length_le [OF complete_extends] by simp_all
  have e: "line s = ?t @ 0 # replicate (80 - length ?t) 0" using d(2,9) by (simp add: Suc_diff_le flip: replicate_Suc)
  have "msh_auto_complete cmds (line s) = Some (?u @ drop (length ?u) (line s))"
    unfolding e by (rule auto_complete_ok [OF n d(10)]) (use f d(9) in simp)
  moreover have "drop (length ?u) (line s) = replicate (81 - length ?u) 0" using d(2) u(2) f by simp
  ultimately have a: "msh_auto_complete cmds (line s) = Some (?u @ replicate (81 - length ?u) 0)" by simp
  have "0 \<in> set (?u @ replicate (81 - length ?u) 0)" using f by simp
  then have st: "str_at (?u @ replicate (81 - length ?u) 0) 0 = Some ?u" using pad_str [OF u(1)] by (simp add: str_at_def)
  have l: "unat (of_nat (length ?u) :: u16) = length ?u" using f by (simp add: u16_of_nat)
  show ?thesis using shows_line [OF sh refl f u(1) l l] a st by (simp add: tab_key_def)
qed

lemma move_left: "move_bytes (x @ y # z @ zs) (length x) (Suc (length x)) (length z) = Some (x @ z @ last (y # z) # zs)"
proof -
  have "drop (length z) (y # z @ zs) = last (y # z) # zs" by (cases z rule: rev_cases) auto
  then show ?thesis by (simp add: move_bytes_def put_bytes_def)
qed

lemma move_right: "\<exists>y. move_bytes (x @ z @ c # zs) (Suc (length x)) (length x) (length z) = Some (x @ y # z @ zs)"
  by (cases z) (simp_all add: move_bytes_def put_bytes_def)

lemma backspace_ok:
  assumes sh: "shows_editor s e"
  shows "\<exists>s'. backspace_key s = Some s' \<and> shows_editor s' (ed_key cmds BackspaceKey e)"
proof (cases "line_curpos s = 0")
  case True
  then show ?thesis using sh shows_editorD(4) [OF sh] by (simp add: backspace_key_def)
next
  case False
  note d = shows_editorD [OF sh]
  let ?p = "line_position s - 1" and ?c = "line_curpos s - 1"
  have c0: "0 < ed_cur e" using False d(4) unat_gt_0 [of "line_curpos s"] by simp
  define x where "x = take (ed_cur e - 1) (ed_text e)"
  define z where "z = drop (ed_cur e) (ed_text e)"
  define y where "y = ed_text e ! (ed_cur e - 1)"
  have t: "ed_text e = x @ y # z" using c0 d(11) id_take_nth_drop [of "ed_cur e - 1" "ed_text e"] by (simp add: x_def y_def z_def)
  have lx: "length x = ed_cur e - 1" using d(11) c0 by (simp add: x_def)
  have lt: "length (ed_text e) = length x + Suc (length z)" using t by simp
  have c: "unat ?c = length x" using u16_dec [OF False] d(4) lx by simp
  have "line_position s \<noteq> 0" using d(3) lt by auto
  then have p: "unat ?p = length x + length z" using u16_dec [of "line_position s"] d(3) lt by simp
  let ?zs = "replicate (81 - length (ed_text e)) (0 :: u8)"
  have line: "line s = x @ y # z @ ?zs" using d(2) t by simp
  have lt_iff: "?c < ?p \<longleftrightarrow> z \<noteq> []" using c p by (simp add: word_less_nat_alt)
  have mv: "(if ?c < ?p then move_bytes (line s) (unat ?c) (unat ?c + 1) (unat ?p - unat ?c) else Some (line s)) =
      Some (x @ z @ last (y # z) # ?zs)"
    using move_left [of x y z ?zs] c p lt_iff line by (cases z) auto
  have "length (x @ z) = unat ?p" using p by simp
  then have w: "wr (x @ z @ last (y # z) # ?zs) (unat ?p) 0 = Some (x @ z @ 0 # ?zs)"
    using wr_app [of "x @ z" "last (y # z)" ?zs 0] by simp
  have zs: "x @ z @ 0 # ?zs = (x @ z) @ replicate (81 - length (x @ z)) 0"
    using lt d(9) by (simp add: Suc_diff_le flip: replicate_Suc)
  have b: "backspace_key s = Some (s\<lparr>line := (x @ z) @ replicate (81 - length (x @ z)) 0, line_position := ?p, line_curpos := ?c\<rparr>)"
    using False mv w zs by (cases "?c < ?p") (simp_all add: backspace_key_def Let_def)
  have "0 \<notin> set (x @ z)" using d(10) t by simp
  from shows_line [OF sh refl _ this, of ?p ?c "length x"] have
    "shows_editor (s\<lparr>line := (x @ z) @ replicate (81 - length (x @ z)) 0, line_position := ?p, line_curpos := ?c\<rparr>)
      (e\<lparr>ed_text := x @ z, ed_cur := length x\<rparr>)"
    using lt d(9) p c by simp
  then show ?thesis using b c0 lx x_def z_def by simp
qed

lemma char_stored:
  assumes sh: "shows_editor s e"
  shows "(if line_curpos s < line_position s then do {
       l \<leftarrow> move_bytes (line s) (unat (line_curpos s) + 1) (unat (line_curpos s)) (unat (line_position s) - unat (line_curpos s));
       wr l (unat (line_curpos s)) ch }
     else wr (line s) (unat (line_position s)) ch) =
    Some ((take (ed_cur e) (ed_text e) @ ch # drop (ed_cur e) (ed_text e)) @ replicate (80 - length (ed_text e)) 0)"
proof -
  note d = shows_editorD [OF sh]
  define x where "x = take (ed_cur e) (ed_text e)"
  define z where "z = drop (ed_cur e) (ed_text e)"
  have t: "ed_text e = x @ z" by (simp add: x_def z_def)
  have lx: "length x = ed_cur e" using d(11) by (simp add: x_def)
  let ?zs = "replicate (80 - length (ed_text e)) (0 :: u8)"
  have line: "line s = x @ z @ 0 # ?zs" using d(2,9) t by (simp add: Suc_diff_le flip: replicate_Suc)
  have c: "unat (line_curpos s) = length x" "unat (line_position s) = length x + length z" using d(3,4) lx t by simp_all
  have lt_iff: "line_curpos s < line_position s \<longleftrightarrow> z \<noteq> []" using c by (simp add: word_less_nat_alt)
  show ?thesis
  proof (cases "z = []")
    case True
    then show ?thesis unfolding x_def [symmetric] z_def [symmetric] using lt_iff c line wr_app [of x 0 ?zs ch] by simp
  next
    case False
    obtain y where "move_bytes (x @ z @ 0 # ?zs) (Suc (length x)) (length x) (length z) = Some (x @ y # z @ ?zs)"
      using move_right by blast
    then show ?thesis unfolding x_def [symmetric] z_def [symmetric] using False lt_iff c line by simp
  qed
qed

lemma char_ok:
  assumes sh: "shows_editor s e" and ch: "ch \<noteq> 0" and f: "length (ed_text e) < 79"
  shows "\<exists>s'. char_key ch s = Some s' \<and> shows_editor s' (ed_key cmds (CharKey ch) e)"
proof -
  note d = shows_editorD [OF sh]
  let ?u = "take (ed_cur e) (ed_text e) @ ch # drop (ed_cur e) (ed_text e)"
  have lu: "length ?u = Suc (length (ed_text e))" using d(11) by simp
  have p: "unat (line_position s + 1) = Suc (length (ed_text e))" "unat (line_curpos s + 1) = Suc (ed_cur e)"
    using d(3,4,9,11) by (simp_all add: u16_inc)
  have n: "\<not> FINSH_CMD_SIZE \<le> unat (line_position s)" "\<not> FINSH_CMD_SIZE \<le> unat (line_position s + 1)"
    using d(3) p f by (simp_all add: FINSH_CMD_SIZE_def)
  have k: "char_key ch s = Some (s\<lparr>line := ?u @ replicate (81 - length ?u) 0, line_position := line_position s + 1, line_curpos := line_curpos s + 1\<rparr>)"
    using char_stored [OF sh, of ch] n lu by (cases "line_curpos s < line_position s") (simp_all add: char_key_def Let_def)
  have "0 \<notin> set ?u" using d(10) ch by (auto dest: in_set_takeD in_set_dropD)
  from shows_line [OF sh refl _ this, of "line_position s + 1" "line_curpos s + 1" "ed_cur e + 1"]
  have "shows_editor (s\<lparr>line := ?u @ replicate (81 - length ?u) 0, line_position := line_position s + 1, line_curpos := line_curpos s + 1\<rparr>)
      (e\<lparr>ed_text := ?u, ed_cur := ed_cur e + 1\<rparr>)" using lu f p d(11) by simp
  then show ?thesis using k by simp
qed


lemma pad_inj: "0 \<notin> set t \<Longrightarrow> 0 \<notin> set u \<Longrightarrow> row_pad t = row_pad u \<longleftrightarrow> t = u"
  using pad_str unfolding row_pad_def by metis

lemma remember_ok:
  assumes sh: "shows_editor s e"
  defines "h \<equiv> ed_remember (ed_hist e) (ed_text e)"
  shows "unat (snd (hist_next s)) = length h \<and> (\<forall>i < length h. fst (hist_next s) ! i = row_pad (h ! i)) \<and>
    (\<forall>t \<in> set h. length t < 80 \<and> 0 \<notin> set t)"
proof -
  note d = shows_editorD [OF sh]
  note w = shell_wfD [OF d(1)]
  let ?t = "ed_text e" and ?n = "history_count s"
  have tk: "take (unat (line_position s)) (line s) = ?t" using d(2,3) by simp
  have p0: "line_position s = 0 \<longleftrightarrow> ?t = []" using d(3) by (metis length_0_conv unat_eq_zero)
  have n0: "?n = 0 \<longleftrightarrow> ed_hist e = []" using d(5) by (metis length_0_conv unat_eq_zero)
  have l80: "take 80 (line s) = row_pad ?t" using d(2,9) by (simp add: row_pad_def FINSH_CMD_SIZE_def)
  have same: "same_cmd (cmd_history s ! (unat ?n - 1)) s \<longleftrightarrow> last (ed_hist e) = ?t" if "ed_hist e \<noteq> []"
  proof -
    have "cmd_history s ! (unat ?n - 1) = row_pad (last (ed_hist e))" using that d(5) d(7) [of "length (ed_hist e) - 1"] by (simp add: last_conv_nth)
    then show ?thesis using l80 d(10) d(8) [of "last (ed_hist e)"] that pad_inj by (simp add: same_cmd_def FINSH_CMD_SIZE_def)
  qed
  consider (same) "?t = [] \<or> ed_hist e \<noteq> [] \<and> last (ed_hist e) = ?t"
    | (full) "\<not> (?t = [] \<or> ed_hist e \<noteq> [] \<and> last (ed_hist e) = ?t)" "length (ed_hist e) = 5"
    | (room) "\<not> (?t = [] \<or> ed_hist e \<noteq> [] \<and> last (ed_hist e) = ?t)" "length (ed_hist e) < 5" using d(12) by linarith
  then show ?thesis
  proof cases
    case same
    then have "line_position s = 0 \<or> ?n \<noteq> 0 \<and> same_cmd (cmd_history s ! (unat ?n - 1)) s" using p0 n0 \<open>ed_hist e \<noteq> [] \<Longrightarrow> _\<close> by blast
    then have "hist_next s = (cmd_history s, ?n)" by (simp only: hist_next_def Let_def if_True)
    moreover have "h = ed_hist e" using same by (simp only: h_def ed_remember_def if_True)
    ultimately show ?thesis using d(5,7,8) by simp
  next
    case full
    then have n: "\<not> (line_position s = 0 \<or> ?n \<noteq> 0 \<and> same_cmd (cmd_history s ! (unat ?n - 1)) s)" using p0 n0 same by blast
    have "unat ?n = 5" using full(2) d(5) by simp
    then have hn: "hist_next s = (tl (cmd_history s) @ [row_pad ?t], ?n)" using n by (simp only: hist_next_def Let_def if_False if_True tk simp_thms)
    have h: "h = tl (ed_hist e) @ [?t]" using full by (simp only: h_def ed_remember_def if_False if_True simp_thms)
    have lt: "length (tl (cmd_history s)) = 4" "length (tl (ed_hist e)) = 4" using w(6) full(2) by simp_all
    have "(tl (cmd_history s) @ [row_pad ?t]) ! i = row_pad (h ! i)" if "i < 5" for i
    proof (cases "i = 4")
      case True
      then show ?thesis using lt h by (simp add: nth_append)
    next
      case False
      then show ?thesis using that lt h d(7) [of "Suc i"] full(2) by (simp add: nth_append nth_tl)
    qed
    moreover have "length h = 5" using h lt by simp
    moreover have "\<forall>t \<in> set h. length t < 80 \<and> 0 \<notin> set t" 
      using h d(8-10) set_mono_suffix [OF suffix_tl, of "ed_hist e"] by auto
    ultimately show ?thesis using hn d(5) full(2) by simp
  next
    case room
    then have n: "\<not> (line_position s = 0 \<or> ?n \<noteq> 0 \<and> same_cmd (cmd_history s ! (unat ?n - 1)) s)" using p0 n0 same by blast
    have n5: "unat ?n \<noteq> 5" using room(2) d(5) by simp
    have hn: "hist_next s = ((cmd_history s)[unat ?n := row_pad ?t], ?n + 1)" using n n5 by (simp only: hist_next_def Let_def if_False tk)
    have "length (ed_hist e) \<noteq> 5" using room(2) by simp
    then have h: "h = ed_hist e @ [?t]" using room(1) by (simp only: h_def ed_remember_def if_False)
    have "unat (?n + 1) = Suc (length (ed_hist e))" using u16_inc [of ?n] d(5) room(2) by simp
    moreover have "(cmd_history s)[unat ?n := row_pad ?t] ! i = row_pad (h ! i)" if "i < Suc (length (ed_hist e))" for i
      using that h d(5) d(7) [of i] w(6) room(2) by (auto simp: nth_append nth_list_update less_Suc_eq)
    ultimately show ?thesis using hn h d(8-10) by simp
  qed
qed

lemma enter_ok:
  assumes sh: "shows_editor s e" and n: "names_ok cmds"
  shows "\<exists>s'. enter_key cmds s w = Some (s', ed_run cmds EnterKey e w) \<and> shows_editor s' (ed_key cmds EnterKey e)"
proof -
  note d = shows_editorD [OF sh]
  let ?t = "ed_text e" and ?h = "hist_next s"
  have line: "line s = ?t @ 0 # replicate (80 - length ?t) 0" using d(2,9) by (simp add: Suc_diff_le flip: replicate_Suc)
  obtain b where "msh_exec cmds (line s) (unat (line_position s)) w = Some (fst (run_line cmds ?t w), b, snd (run_line cmds ?t w))"
    using msh_exec_ok [OF n d(10)] unfolding line d(3) by blast
  moreover define s' where "s' = s\<lparr>cmd_history := fst ?h, history_count := snd ?h, current_history := snd ?h,
    line := replicate (FINSH_CMD_SIZE + 1) 0, line_curpos := 0, line_position := 0\<rparr>"
  ultimately have k: "enter_key cmds s w = Some (s', ed_run cmds EnterKey e w)"
    by (simp add: enter_key_def push_history_eq [OF d(1)] ed_run_def)
  obtain s1 w1 where "enter_key cmds s w = Some (s1, w1)" "shell_wf s1" using enter_key_wf [OF d(1) n] by blast
  then have "shell_wf s'" using k by simp
  then have "shows_editor s' (ed_key cmds EnterKey e)"
    using remember_ok [OF sh] by (simp add: shows_editor_def s'_def FINSH_CMD_SIZE_def)
  then show ?thesis using k by blast
qed

lemma do_key_ok:
  assumes sh: "shows_editor s e" and n: "names_ok cmds" and f: "ed_fits cmds ev e" and ev: "ev \<noteq> CharKey 0"
  shows "\<exists>s'. do_key cmds ev s w = Some (s', ed_run cmds ev e w) \<and> shows_editor s' (ed_key cmds ev e)"
proof (cases ev)
  case NoKey
  then show ?thesis using sh by (simp add: do_key_def ed_run_def)
next
  case TabKey
  then show ?thesis using tab_ok [OF sh n] f by (auto simp: do_key_def ed_run_def ed_fits_def FINSH_CMD_SIZE_def)
next
  case BackspaceKey
  then show ?thesis using backspace_ok [OF sh] by (fastforce simp: do_key_def ed_run_def simp del: ed_key.simps)
next
  case EnterKey
  then show ?thesis using enter_ok [OF sh n] by (simp add: do_key_def del: ed_key.simps)
next
  case UpKey
  then show ?thesis using up_ok [OF sh] by (fastforce simp: do_key_def ed_run_def simp del: ed_key.simps)
next
  case DownKey
  then show ?thesis using down_ok [OF sh] by (fastforce simp: do_key_def ed_run_def simp del: ed_key.simps)
next
  case LeftKey
  then show ?thesis using left_ok [OF sh] by (simp add: do_key_def ed_run_def del: ed_key.simps)
next
  case RightKey
  then show ?thesis using right_ok [OF sh] by (simp add: do_key_def ed_run_def del: ed_key.simps)
next
  case (CharKey c)
  have "length (ed_text e) < 79" using f CharKey shows_editorD(11) [OF sh] by (simp add: ed_fits_def FINSH_CMD_SIZE_def)
  then show ?thesis using char_ok [OF sh, of c] CharKey ev by (fastforce simp: do_key_def ed_run_def simp del: ed_key.simps)
qed

lemma key_of_char: "snd (key_of v ch) \<noteq> CharKey 0"
  by (cases v) (auto simp: plain_event_def)


section \<open>A line that is full\<close>

definition printable :: "u8 \<Rightarrow> bool" where
  "printable c \<longleftrightarrow> 0x20 \<le> c \<and> c < 0x7f"

lemma printable_key: "printable c \<Longrightarrow> stat s = WAIT_NORMAL \<Longrightarrow> finsh_key cmds c s w = map_option (\<lambda>s. (s, w)) (char_key c s)"
proof -
  assume a: "printable c" "stat s = WAIT_NORMAL"
  then have n: "c \<noteq> 0" "c \<noteq> 0xff" "c \<noteq> 9" "c \<noteq> 0x7f" "c \<noteq> 8" "c \<noteq> 13" "c \<noteq> 10" "c \<noteq> 0x1b"
    by (auto simp: printable_def word_le_nat_alt word_less_nat_alt)
  then show ?thesis using a(2) by (simp add: finsh_key_def plain_key_def)
qed

lemma char_at_end:
  assumes "line s = p @ d # q" and "unat (line_position s) = length p" and "line_curpos s = line_position s" and "length p < 80"
  shows "char_key c s = Some (if length p = 79 then s\<lparr>line := p @ c # q, line_position := 0, line_curpos := 0\<rparr>
    else s\<lparr>line := p @ c # q, line_position := of_nat (Suc (length p)), line_curpos := of_nat (Suc (length p))\<rparr>)"
proof -
  have u: "unat (line_position s + 1) = Suc (length p)" using u16_inc [of "line_position s"] assms(2,4) by simp
  have "line_position s + 1 = of_nat (Suc (length p))" 
    using u assms(4) by (simp add: word_unat_eq_iff u16_of_nat del: of_nat_Suc)
  moreover have "wr (line s) (length p) c = Some (p @ c # q)" using assms(1) by simp
  ultimately show ?thesis using assms u by (auto simp: char_key_def Let_def FINSH_CMD_SIZE_def)
qed

lemma type_keys:
  "\<forall>c \<in> set x. printable c \<Longrightarrow> stat s = WAIT_NORMAL \<Longrightarrow> line s = p @ q \<Longrightarrow> length (p @ q) = 81 \<Longrightarrow>
    unat (line_position s) = length p \<Longrightarrow> line_curpos s = line_position s \<Longrightarrow> length p + length x < 80 \<Longrightarrow>
    \<exists>s'. finsh_keys cmds x s w = Some (s', w) \<and> stat s' = WAIT_NORMAL \<and> line s' = p @ x @ drop (length x) q \<and>
      unat (line_position s') = length p + length x \<and> line_curpos s' = line_position s' \<and>
      cmd_history s' = cmd_history s \<and> history_count s' = history_count s \<and> current_history s' = current_history s"
proof (induction x arbitrary: s p q)
  case (Cons c x)
  obtain d q' where q: "q = d # q'" using Cons.prems(4,7) by (cases q) auto
  let ?s = "s\<lparr>line := p @ c # q', line_position := of_nat (Suc (length p)), line_curpos := of_nat (Suc (length p))\<rparr>"
  have k: "finsh_key cmds c s w = Some (?s, w)"
    using printable_key [of c s cmds w] char_at_end [of s p d q' c] Cons.prems q by simp
  have "\<exists>s'. finsh_keys cmds x ?s w = Some (s', w) \<and> stat s' = WAIT_NORMAL \<and> line s' = (p @ [c]) @ x @ drop (length x) q' \<and>
      unat (line_position s') = length (p @ [c]) + length x \<and> line_curpos s' = line_position s' \<and>
      cmd_history s' = cmd_history ?s \<and> history_count s' = history_count ?s \<and> current_history s' = current_history ?s"
    by (rule Cons.IH) (use Cons.prems q in \<open>simp_all add: u16_of_nat del: of_nat_Suc\<close>)
  then show ?case using k q by auto
qed auto

lemma finsh_keys_append: "finsh_keys cmds (u @ v) s w = do { (s, w) \<leftarrow> finsh_keys cmds u s w; finsh_keys cmds v s w }"
  by (induction u arbitrary: s w) (auto split: bind_splits)

lemma full_line:
  assumes t: "length t = 80" "\<forall>c \<in> set t. printable c"
  shows "\<exists>s. finsh_keys cmds t finsh_init w = Some (s, w) \<and> stat s = WAIT_NORMAL \<and> line s = t @ [0] \<and> line_position s = 0 \<and>
    line_curpos s = 0 \<and> cmd_history s = cmd_history finsh_init \<and> history_count s = 0 \<and> current_history s = 0"
proof -
  obtain x c where x: "t = x @ [c]" using t(1) by (cases t rule: rev_cases) auto
  have init: "stat finsh_init = WAIT_NORMAL" "line finsh_init = [] @ replicate 81 0" "line_position finsh_init = 0"
    "line_curpos finsh_init = 0" "history_count finsh_init = 0" "current_history finsh_init = 0"
    by (simp_all add: finsh_init_def finsh_set_prompt_mode_def FINSH_CMD_SIZE_def)
  have lx: "length x = 79" "\<forall>c \<in> set x. printable c" "printable c" using t x by auto
  obtain s where s: "finsh_keys cmds x finsh_init w = Some (s, w)" "stat s = WAIT_NORMAL" "line s = x @ 0 # [0]"
    "unat (line_position s) = 79" "line_curpos s = line_position s" "cmd_history s = cmd_history finsh_init"
    "history_count s = 0" "current_history s = 0"
  proof -
    have "drop (length x) (replicate 81 (0 :: u8)) = [0, 0]" using lx(1) by (simp add: numeral_2_eq_2)
    then show thesis using type_keys [OF lx(2) init(1,2), of cmds w] lx(1) init(3-) that by auto
  qed
  have "finsh_key cmds c s w = Some (s\<lparr>line := x @ c # [0], line_position := 0, line_curpos := 0\<rparr>, w)"
    using printable_key [OF lx(3) s(2)] char_at_end [OF s(3)] s(4,5) lx(1) by simp
  then have "finsh_keys cmds t finsh_init w = Some (s\<lparr>line := x @ c # [0], line_position := 0, line_curpos := 0\<rparr>, w)"
    unfolding x finsh_keys_append s(1) by simp
  then show ?thesis using s x by simp
qed

section \<open>Properties\<close>

text \<open>
  C18: Whatever bytes other than a tab arrive, and whatever the commands do: the shell goes on, with no access outside its
  buffers, the cursor stays inside the text and the text inside the line.
\<close>

theorem shell_keys_safe:
  assumes "names_ok cmds" and "9 \<notin> set keys"
  shows "\<exists>s' w'. finsh_keys cmds keys finsh_init w = Some (s', w') \<and> shell_wf s'"
  by (rule shell_keys_wf [OF assms])

fun ed_keys :: "'w syscall_table \<Rightarrow> u8 list \<Rightarrow> input_stat \<Rightarrow> editor \<Rightarrow> 'w \<Rightarrow> input_stat \<times> editor \<times> 'w" where
  "ed_keys cmds [] v e w = (v, e, w)"
| "ed_keys cmds (c # cs) v e w = (case key_of v c of (v', ev) \<Rightarrow> ed_keys cmds cs v' (ed_key cmds ev e) (ed_run cmds ev e w))"

fun ed_fit_keys :: "'w syscall_table \<Rightarrow> u8 list \<Rightarrow> input_stat \<Rightarrow> editor \<Rightarrow> bool" where
  "ed_fit_keys cmds [] v e \<longleftrightarrow> True"
| "ed_fit_keys cmds (c # cs) v e \<longleftrightarrow> (case key_of v c of (v', ev) \<Rightarrow> ed_fits cmds ev e \<and> ed_fit_keys cmds cs v' (ed_key cmds ev e))"

definition ed_init :: editor where
  "ed_init = \<lparr>ed_text = [], ed_cur = 0, ed_hist = [], ed_pos = 0\<rparr>"

lemma show_history_stat: "show_history s = Some s' \<Longrightarrow> stat s' = stat s"
  by (auto simp: show_history_def elim!: bind_SomeE)

lemma hist_put_stat: "hist_put i s = Some s' \<Longrightarrow> stat s' = stat s"
  by (auto simp: hist_put_def elim!: bind_SomeE)

lemma push_history_stat: "shell_push_history s = Some s' \<Longrightarrow> stat s' = stat s"
  by (auto simp: shell_push_history_def elim!: bind_SomeE dest!: hist_put_stat split: if_splits)

lemma backspace_stat: "backspace_key s = Some s' \<Longrightarrow> stat s' = stat s"
  unfolding backspace_key_def Let_def by (cases "line_curpos s = 0") (auto elim!: bind_SomeE simp del: if_split_asm)

lemma char_key_stat: "char_key c s = Some s' \<Longrightarrow> stat s' = stat s"
proof -
  have "stat (if b then s1 else s2) = stat s" if "stat s1 = stat s" "stat s2 = stat s" for b s1 s2
    using that by simp
  then show "char_key c s = Some s' \<Longrightarrow> stat s' = stat s"
    unfolding char_key_def Let_def by (elim bind_SomeE) (simp only: option.inject, auto)
qed

lemma do_key_stat: "do_key cmds ev s w = Some (s', w') \<Longrightarrow> stat s' = stat s"
proof (cases ev)
  case TabKey
  assume "do_key cmds ev s w = Some (s', w')"
  then show ?thesis using TabKey by (auto simp: do_key_def tab_key_def elim!: bind_SomeE)
next
  case EnterKey
  assume "do_key cmds ev s w = Some (s', w')"
  then show ?thesis using EnterKey by (auto simp: do_key_def enter_key_def elim!: bind_SomeE dest!: push_history_stat)
qed (auto simp: do_key_def left_key_def right_key_def up_key_def down_key_def
      dest!: show_history_stat backspace_stat char_key_stat split: if_splits)

lemma refines_from:
  assumes n: "names_ok cmds"
  shows "shows_editor s e \<Longrightarrow> ed_fit_keys cmds keys (stat s) e \<Longrightarrow>
    \<exists>s'. (case ed_keys cmds keys (stat s) e w of (v, e', w') \<Rightarrow>
      finsh_keys cmds keys s w = Some (s', w') \<and> shows_editor s' e' \<and> stat s' = v)"
proof (induction keys arbitrary: s e w)
  case (Cons c keys)
  obtain v ev where k: "key_of (stat s) c = (v, ev)" by (cases "key_of (stat s) c")
  have f: "ed_fits cmds ev e" "ed_fit_keys cmds keys v (ed_key cmds ev e)" using Cons.prems(2) k by simp_all
  have "ev \<noteq> CharKey 0" using key_of_char [of "stat s" c] k by simp
  then obtain s1 where s1: "do_key cmds ev (s\<lparr>stat := v\<rparr>) w = Some (s1, ed_run cmds ev e w)" "shows_editor s1 (ed_key cmds ev e)"
    using do_key_ok [of "s\<lparr>stat := v\<rparr>" e cmds ev w] Cons.prems(1) n f(1) by auto
  have st: "stat s1 = v" using do_key_stat [OF s1(1)] by simp
  have "finsh_key cmds c s w = Some (s1, ed_run cmds ev e w)" using s1(1) k by (simp add: finsh_do_key)
  then show ?case using Cons.IH [OF s1(2), of "ed_run cmds ev e w"] f(2) st k by simp
qed simp

text \<open>
  C19: The shell is a line editor: the bytes of the keys insert, delete and move in the text, bring back lines of the
  history, complete a command name, or run the text as a command and remember it, as long as the line has room.
\<close>

theorem shell_refines_editor:
  assumes "names_ok cmds" and "ed_fit_keys cmds keys WAIT_NORMAL ed_init"
  shows "\<exists>s'. (case ed_keys cmds keys WAIT_NORMAL ed_init w of (v, e', w') \<Rightarrow>
    finsh_keys cmds keys finsh_init w = Some (s', w') \<and> shows_editor s' e' \<and> stat s' = v)"
proof -
  have st: "stat finsh_init = WAIT_NORMAL" by (simp add: finsh_init_def finsh_set_prompt_mode_def)
  have "shows_editor finsh_init ed_init"
    using finsh_init_wf by (simp add: shows_editor_def ed_init_def finsh_init_def finsh_set_prompt_mode_def FINSH_CMD_SIZE_def)
  from refines_from [OF assms(1) this, of keys w] show ?thesis using assms(2) st by simp
qed

text \<open>
  C22: A line of 80 characters is dropped, but the characters stay in the buffer. A tab brings them back with the cursor
  behind them; the next character then resets the end of the text and not the cursor. After a backspace the end of the text
  is 0 and the cursor 80; the second backspace makes the end wrap around to 65535 and then moves 65456 bytes, from
  offset 80 to offset 79, inside a line of 81.
\<close>

theorem shell_line_overflow:
  assumes "length t = 80" and "\<forall>c \<in> set t. printable c" and "printable d"
    and "names_ok cmds" and "\<forall>(name, f) \<in> set cmds. length name < 80"
  shows "\<exists>s. finsh_keys cmds (t @ [9, d, 8]) finsh_init w = Some (s, w) \<and>
    length (line s) = 81 \<and> line_position s = 0 \<and> line_curpos s = 80 \<and>
    line_position s - 1 = 65535 \<and> line_curpos s - 1 = 79 \<and>
    unat (line_position s - 1) - unat (line_curpos s - 1) = 65456 \<and> move_bytes (line s) 79 80 65456 = None \<and>
    backspace_key s = None \<and> finsh_keys cmds (t @ [9, d, 8, 8]) finsh_init w = None"
proof -
  obtain s where s: "finsh_keys cmds t finsh_init w = Some (s, w)" "stat s = WAIT_NORMAL" "line s = t @ [0]"
    using full_line [OF assms(1,2), of cmds w] by (elim exE conjE) (rule that)
  have "\<not> printable 0" by (simp add: printable_def word_le_nat_alt)
  then have t0: "0 \<notin> set t" using assms(2) by blast
  have "\<not> prefix t x" if "x \<in> set (map fst cmds)" for x
  proof -
    have "length x < length t" using that assms(1,5) by fastforce
    then show ?thesis using prefix_length_le by (metis not_le)
  qed
  then have "filter (prefix t) (map fst cmds) = []" by (simp only: filter_empty_conv) blast
  then have c: "complete cmds t = t" by (simp add: complete_def)
  have "msh_auto_complete cmds (t @ 0 # []) = Some (t @ drop (length t) (t @ 0 # []))"
    using auto_complete_ok [OF assms(4) t0, of "[]"] by (simp add: c)
  then have a: "msh_auto_complete cmds (line s) = Some (t @ [0])" using s(3) by simp
  have st: "str_at (t @ [0]) 0 = Some t" using str_at_app [OF t0, of "[]" "[]"] by simp
  let ?s1 = "s\<lparr>line := t @ [0], line_position := 80, line_curpos := 80\<rparr>"
  have k1: "finsh_key cmds 9 s w = Some (?s1, w)" using s(2) a st assms(1) by (simp add: finsh_key_def plain_key_def tab_key_def)
  obtain t1 ts where t: "t = t1 # ts" using assms(1) by (cases t) auto
  let ?s2 = "s\<lparr>line := d # ts @ [0], line_position := 1, line_curpos := 81\<rparr>"
  have k2: "finsh_key cmds d ?s1 w = Some (?s2, w)"
    using s(2) t by (subst printable_key [OF assms(3)]) (simp_all add: char_key_def FINSH_CMD_SIZE_def wr_def Let_def)
  let ?s3 = "s\<lparr>line := 0 # ts @ [0], line_position := 0, line_curpos := 80\<rparr>"
  have k3: "finsh_key cmds 8 ?s2 w = Some (?s3, w)"
    using s(2) by (simp add: finsh_key_def plain_key_def backspace_key_def wr_def Let_def)
  have m: "unat (- 1 :: u16) = 65535" by (simp add: unsigned_minus_1_eq_mask mask_eq_exp_minus_1)
  have mv: "move_bytes (line ?s3) 79 80 65456 = None" using t assms(1) by (simp add: move_bytes_def)
  have b: "backspace_key ?s3 = None"
    using m s(2) t assms(1) by (simp add: backspace_key_def move_bytes_def Let_def)
  then have k4: "finsh_key cmds 8 ?s3 w = None" using s(2) by (simp add: finsh_key_def plain_key_def)
  have "finsh_keys cmds (t @ [9, d, 8]) finsh_init w = Some (?s3, w)" "finsh_keys cmds (t @ [9, d, 8, 8]) finsh_init w = None"
    unfolding finsh_keys_append s(1) using k1 k2 k3 k4 by simp_all
  then show ?thesis using mv b m t assms(1) by (intro exI [of _ ?s3]) simp
qed


text \<open>
  C23: After a line \<open>t\<close> of 80 characters was dropped, a command of two words is entered: the command runs with its name and
  its argument, and the argument goes on with the characters of the dropped line that are still in the buffer behind it.
\<close>

theorem shell_stale_argument:
  assumes "length t = 80" and "\<forall>c \<in> set t. printable c"
    and "names_ok cmds" and "map_of cmds name = Some f"
    and "name \<noteq> []" and "hd name \<noteq> 0x22" and "a \<noteq> []" and "hd a \<noteq> 0x22" and "length name + length a < 79"
    and "\<forall>c \<in> set name \<union> set a. printable c \<and> c \<noteq> 0x20"
  shows "\<exists>s. finsh_keys cmds (t @ name @ 0x20 # a @ [13]) finsh_init w =
    Some (s, snd (f [name, a @ drop (length name + 1 + length a) t] w))"
proof -
  let ?x = "name @ 0x20 # a" and ?n = "length name + 1 + length a"
  let ?r = "drop ?n t"
  have p: "\<forall>c \<in> set ?x. printable c" using assms(10) by (auto simp: printable_def word_less_nat_alt)
  have np: "\<not> printable 0" "\<not> printable 9" by (simp_all add: printable_def word_le_nat_alt)
  have k: "9 \<notin> set (t @ ?x)" using assms(2) p np(2) by auto
  obtain s where s: "finsh_keys cmds t finsh_init w = Some (s, w)" "stat s = WAIT_NORMAL" "line s = [] @ t @ [0]"
      "unat (line_position s) = length ([] :: u8 list)" "line_curpos s = line_position s"
    using full_line [OF assms(1,2), of cmds w] by auto
  have len: "length ([] @ t @ [0]) = 81" "length ([] :: u8 list) + length ?x < 80" using assms(1,9) by simp_all
  obtain s1 where s1: "finsh_keys cmds ?x s w = Some (s1, w)" "stat s1 = WAIT_NORMAL" "line s1 = ?x @ ?r @ [0]"
      "unat (line_position s1) = ?n"
    using type_keys [OF p s(2,3) len(1) s(4,5) len(2), of cmds w] assms(1,9) by auto
  have all: "finsh_keys cmds (t @ ?x) finsh_init w = Some (s1, w)" unfolding finsh_keys_append [of cmds t] s(1) using s1(1) by simp
  then have wf: "shell_wf s1" using shell_keys_wf [OF assms(3) k, of w] by simp
  have "0 \<notin> set t" "0 \<notin> set name" "0 \<notin> set a" using assms(2,10) np(1) by auto
  moreover from this have "0 \<notin> set ?r" by (meson in_set_dropD)
  moreover have "\<forall>c \<in> set name. \<not> blank c" "\<forall>c \<in> set a. \<not> blank c" using assms(10) np(2) by auto
  ultimately obtain b where "msh_exec cmds (line s1) (unat (line_position s1)) w =
      Some (fst (f [name, a @ ?r] w), b, snd (f [name, a @ ?r] w))"
    using exec_two_words [OF assms(3,4,5) _ _ assms(6,7) _ _ assms(8), of ?r w] s1(3,4) by auto
  then have "\<exists>s2. finsh_key cmds 13 s1 w = Some (s2, snd (f [name, a @ ?r] w))"
    using s1(2) by (simp add: finsh_key_def plain_key_def enter_key_def push_history_eq [OF wf])
  moreover have "t @ name @ 0x20 # a @ [13] = (t @ ?x) @ [13]" by simp
  ultimately show ?thesis using all finsh_keys_append [of cmds "t @ ?x" "[13]" finsh_init w] by auto
qed

text \<open>
  The modes are bit fields of one bit: a mode of 2 turns the prompt off.
\<close>

theorem prompt_mode_even:
  "finsh_get_prompt_mode (finsh_set_prompt_mode 2 s) = 0 \<and> finsh_get_echo (finsh_set_echo 3 s) = 1"
  by (simp add: finsh_get_prompt_mode_def finsh_set_prompt_mode_def finsh_get_echo_def finsh_set_echo_def)

section \<open>Witnesses\<close>

theorem shell_keys_safe_witness:
  "\<exists>s' w'. finsh_keys ex_cmds [0x70, 0x73, 0x1b, 0x5b, 0x44, 0x7f, 13, 0x1b, 0x5b, 0x41] finsh_init [] = Some (s', w') \<and> shell_wf s'"
  by (rule shell_keys_safe) (simp_all add: names_ok_def ex_cmds_def)

text \<open>The keys p, x, left, s, right, backspace, enter: the command \<open>ps\<close> runs; up brings it back.\<close>

theorem shell_refines_editor_witness:
  "\<exists>s'. finsh_keys ex_cmds [0x70, 0x78, 0x1b, 0x5b, 0x44, 0x73, 0x1b, 0x5b, 0x43, 0x7f, 13, 0x1b, 0x5b, 0x41] finsh_init [] =
      Some (s', [[[0x70, 0x73]]]) \<and>
    shows_editor s' \<lparr>ed_text = [0x70, 0x73], ed_cur = 2, ed_hist = [[0x70, 0x73]], ed_pos = 0\<rparr>"
proof -
  let ?k = "[0x70, 0x78, 0x1b, 0x5b, 0x44, 0x73, 0x1b, 0x5b, 0x43, 0x7f, 13, 0x1b, 0x5b, 0x41] :: u8 list"
  have n: "names_ok ex_cmds" by (simp add: names_ok_def ex_cmds_def)
  have f: "ed_fit_keys ex_cmds ?k WAIT_NORMAL ed_init" by code_simp
  have e: "ed_keys ex_cmds ?k WAIT_NORMAL ed_init [] =
      (WAIT_NORMAL, \<lparr>ed_text = [0x70, 0x73], ed_cur = 2, ed_hist = [[0x70, 0x73]], ed_pos = 0\<rparr>, [[[0x70, 0x73]]])"
    by code_simp
  show ?thesis using shell_refines_editor [OF n f, of "[]"] unfolding e by auto
qed

theorem shell_line_overflow_witness:
  "\<exists>s. finsh_keys ex_cmds (replicate 80 0x61 @ [9, 0x78, 8]) finsh_init [] = Some (s, []) \<and> move_bytes (line s) 79 80 65456 = None \<and>
    finsh_keys ex_cmds (replicate 80 0x61 @ [9, 0x78, 8, 8]) finsh_init [] = None"
proof -
  have "length (replicate 80 (0x61 :: u8)) = 80" "\<forall>c \<in> set (replicate 80 0x61). printable c" "printable 0x78"
    "names_ok ex_cmds" "\<forall>(name, f) \<in> set ex_cmds. length name < 80"
    by (simp_all add: printable_def names_ok_def ex_cmds_def word_le_nat_alt word_less_nat_alt)
  from shell_line_overflow [OF this, of "[]"] show ?thesis by blast
qed

text \<open>The line \<open>ps x\<close> after 80 times \<open>a\<close>.\<close>

theorem shell_stale_argument_witness:
  "\<exists>s. finsh_keys ex_cmds (replicate 80 0x61 @ [0x70, 0x73, 0x20, 0x78, 13]) finsh_init [] =
    Some (s, [[[0x70, 0x73], 0x78 # replicate 76 0x61]])"
  using shell_stale_argument [of "replicate 80 0x61" ex_cmds "[0x70, 0x73]" "\<lambda>args w. (int (length args), args # w)" "[0x78]" "[]"]
  by (simp add: printable_def names_ok_def ex_cmds_def word_le_nat_alt word_less_nat_alt)

end
