(* ===== verification/Spec2Isabelle.thy ===== *)
theory Spec2Isabelle
  imports RtList Ffs RingBuffer IpcSystem SmallMem KString KPrintf Heap RingBlk Finsh
begin

text \<open>
  A model of the RT-Thread kernel of this firmware (src/rt-thread, uniprocessor build for a Cortex-M7)
  and the theorems that make it correct.

  The program. The kernel runs the thread of the highest priority (scheduler.c): threads that are
  ready are linked in one list per priority, and a bitmap of the lists that are not empty is searched by
  \<open>__rt_ffs\<close>. The tick interrupt (clock.c) counts time, ends time slices and fires the timers (timer.c),
  which are kept in a list ordered by the tick of their timeout; a thread's own timer wakes it from a sleep or a
  wait with a time limit (thread.c). The kernel objects (ipc.c, mempool.c) keep lists of suspended threads:
  a call that cannot go on links its thread there, arms its timer and reschedules, and the call that
  brings the token, the event, the message or the block resumes a thread and reschedules.

  Parts and theories (sources under src/rt-thread):
  \<^item> \<open>Prelude\<close>: machine types and error codes of include/rtdef.h, failing assertions, the table of
    intrusive lists, rounding of sizes, linked blocks.
  \<^item> \<open>RtList\<close> (include/rtservice.h): \<open>rt_list_insert_after\<close> and the others on a store of \<open>next\<close> and
    \<open>prev\<close> pointers, refined to the table of lists that all other theories use.
  \<^item> \<open>SList\<close> (include/rtservice.h): the same for the single linked lists, \<open>rt_slist_insert\<close> and the others.
  \<^item> \<open>RingBlk\<close> (components/drivers/ipc/ringblk_buf.c): the ring block buffer, its descriptors linked by \<open>SList\<close>.
    \<open>rbb_inv\<close> says that the blocks in use are a rotation of an ascending sequence inside the buffer;
    \<open>rbb_step\<close> is a call of a user of the buffer.
  \<^item> \<open>Ffs\<close> (src/kservice.c, libcpu/arm/cortex-m7/cpuport.c): the three variants of \<open>__rt_ffs\<close> agree.
  \<^item> \<open>Fifo\<close>: the contract of a bounded queue as a locale, with what its clients conclude, and circular arrays.
    \<open>RingBuffer\<close> (components/drivers/ipc/ringbuffer.c), \<open>Mailbox\<close> and \<open>DataQueue\<close> interpret it.
  \<^item> \<open>Timer\<close> (src/timer.c, src/clock.c): \<open>timers\<close> maps a timer to its record, \<open>trow\<close> a list head to the
    timers linked behind it; start, stop, control, the check of the tick interrupt.
  \<^item> \<open>Sched\<close> (src/scheduler.c, src/irq.c): the state \<open>sched\<close> has the threads, the lists, the bitmap
    \<open>ready_group\<close>, the current thread and the nesting counters of rt-thread's global variables.
  \<^item> \<open>Thread\<close> (src/thread.c, src/clock.c, src/idle.c, cpuport.c): creation, start, sleep, suspension,
    control, exit, timeout, the tick, the clean-up of dead threads, the first stack frame.
  \<^item> \<open>Waiting\<close>: what thread operations and ticks leave alone in the lists of the kernel objects.
  \<^item> \<open>Ipc\<close> (structures of rtdef.h, the shared part of src/ipc.c, include/rtdebug.h): the state \<open>ipc\<close>
    adds \<open>objs\<close>, the objects by address. The list of the threads that wait on the object at \<open>i\<close> is the list
    \<open>Suspend i\<close>, that of the waiting senders \<open>SuspendSender i\<close>.
  \<^item> \<open>Semaphore\<close>, \<open>Mutex\<close>, \<open>Event\<close>, \<open>Mailbox\<close>, \<open>MsgQueue\<close> (src/ipc.c) and \<open>Mempool\<close>
    (src/mempool.c): every call of each object.
  \<^item> \<open>Completion\<close> (components/drivers/ipc/completion.c) and \<open>DataQueue\<close> (components/drivers/ipc/dataqueue.c):
    structures of the drivers that keep lists of waiting threads like the kernel objects do; they are in \<open>objs\<close> too.
  \<^item> \<open>Release\<close> (src/ipc.c, src/mempool.c, dataqueue.c): the calls that wake every waiter of an object with interrupts
    enabled between the critical sections (the removals, the reset of a data queue), cut into their pieces.
  \<^item> \<open>IpcSystem\<close>: all of these, the thread operations and the ticks as one step relation. Its state has, beside
    \<open>ipc\<close>, the calls in progress: \<open>held\<close>, what the sends and receives of message queues have done with the blocks in
    their hands, and \<open>releasing\<close>, the next pieces of the calls of \<open>Release\<close>.
  \<^item> \<open>Alloc\<close>: the contract of an allocator as a locale, with what a client concludes from it for any
    sequence of allocations and releases. \<open>SmallMem\<close> interprets it.
  \<^item> \<open>SmallMem\<close> (src/mem.c): the small memory heap. \<open>sm_item\<close> holds the headers by their offset from
    \<open>heap_ptr\<close>, \<open>sm_byte\<close> the bytes of the items; clients write to their own blocks only. \<open>layout\<close> says that the
    headers describe a list of items (length, in use or free) that fills the heap, \<open>sm_wf\<close> is the invariant.
  \<^item> \<open>KString\<close> (src/kservice.c): memory and string functions on a memory of bytes with 32-bit addresses;
    \<open>filled\<close> and \<open>copied\<close> are the byte-wise meaning of the word loops, \<open>cstr\<close> the string at an address.
  \<^item> \<open>KPrintf\<close> (src/kservice.c): \<open>rt_vsnprintf\<close>; \<open>vs_text\<close> is the text that a format stands for.
  \<^item> \<open>Heap\<close> (src/kservice.c): \<open>rt_malloc\<close> and the others: the small memory heap behind the mutex \<open>_lock\<close>, as the state
    \<open>kheap\<close> that adds the heap to \<open>ipc\<close>; it interprets \<open>Alloc\<close> again, for the calls with the lock.
  \<^item> \<open>Msh\<close> (components/finsh/msh.c): the line of the shell is split in its buffer; \<open>cmd_args\<close> is what that means for
    the text of the line, \<open>run_line\<close> what running it means. A command is a name and a function of its arguments
    and of the rest of the system. An access outside the buffer is \<open>None\<close>.
  \<^item> \<open>Finsh\<close> (components/finsh/shell.c): the loop of \<open>finsh_thread_entry\<close>, one step for each byte. \<open>editor\<close> is the line
    editor that it implements (text, cursor, history), \<open>shows_editor\<close> relates the two, \<open>shell_wf\<close> is the invariant.

  Conventions. A function of the model that meets a failing \<open>RT_ASSERT\<close>, accesses memory outside an
  object, or never returns, is \<open>None\<close>; error codes are values of \<open>rt_err\<close>, which stand for the negated
  constants. A call that blocks ends with \<open>Blocked\<close>; what it does when its thread runs again is a function of
  its own (\<open>mb_send_resume\<close>, \<open>mp_alloc_resume\<close>, \<open>ipc_wait_result\<close>), so that any other step may come in
  between. Code between \<open>rt_hw_interrupt_disable\<close> and \<open>rt_hw_interrupt_enable\<close> is one step, together with the
  reschedule that follows it. Calls with more than one such section are cut: a message queue leaves the critical section
  while it copies (\<open>mq_step\<close> on a queue, \<open>mq_section\<close> on the system), and a removal or a reset leaves it after every
  thread it wakes (\<open>release_next\<close>); in the steps of \<open>IpcSystem\<close> other calls and ticks come in between. The functions with the
  name of such a call (\<open>rt_mq_recv\<close>, \<open>rt_sem_detach\<close>) are the runs of its sections that nothing interrupts (lemmas
  \<open>mq_recv_is_run\<close>, \<open>removal_runs\<close>, \<open>removal_is_run\<close> and those beside them).
  The tick on which timers are due runs their functions: \<open>timer_step\<close> lets these use the timer module
  themselves, while the ticks of \<open>thread_step\<close> and \<open>ipc_step\<close> fire thread timers only.
  Ticks, counters and sizes are words of their C width; time comparisons are the code's
  differences modulo \<open>2 ^ 32\<close>. The loop over the due timers takes fuel: \<open>timer_check_fires_due\<close> shows
  that more than the number of due timers is enough when no periodic timer has the interval 0; loops over links that may not end are partial
  functions, with theorems that they return.

  What the lemmas show. Each theory defines the invariant of its part, shows that every operation keeps
  it and what each branch of the operation does. \<open>kernel_quiet\<close> is the invariant of the kernel between two
  calls: the thread lists agree with the states of the threads, the bitmap with the lists, the current thread
  with the states, the timer list is ordered and complete, and no timer is overdue. \<open>op_ok i s s'\<close> is what
  every call on the object \<open>i\<close> guarantees to all others. The properties numbered C1, C2, ... are the
  claims about the program; those of \<open>IpcSystem\<close> speak of all reachable states of the whole kernel. A removal is
  safe only when no thread comes to wait between its last test and its end (\<open>clean_removal\<close>); \<open>removal_strands_waiter\<close>
  shows what happens otherwise.
  Properties named after an anomaly (a bound that is not checked, a fall-through, a priority that is lost)
  show what the code does there.

  Not modelled: the object container of object.c with the names and the hooks (an object is there or
  not, at its address), so also \<open>rt_thread_find\<close>; the soft timer thread, SMP, signals, memheap and
  slab (not configured); the idle loop itself, the context switch in assembly, the global error number outside threads;
  the device layer, the console with the echo of the shell, the commands of cmd.c, the board support, the ST
  HAL, and the file systems and network stacks, which are third-party code or register access.
\<close>

end
